(* ===== verification/Prelude.thy ===== *)
theory Prelude
  imports Main "HOL-Library.Word"
begin

text \<open>
  Shared vocabulary of the development: bytes, C characters and C strings, the
  \<open>size_t\<close> arithmetic of \<open>inc/azure_c_shared_utility/safe_math.h\<close>, the C memory
  primitives (\<open>malloc\<close>, \<open>realloc\<close>, \<open>free\<close>, \<open>memcpy\<close>) as explicit state passing
  over an allocator record, and the generic list lemmas the components share.
\<close>

unbundle bit_operations_syntax

named_theorems mem_defs \<open>unfolding of the allocator primitives\<close>
named_theorems cstr_simps \<open>rewriting of C string functions\<close>

section \<open>Bytes, characters, return codes\<close>

type_synonym byte = "8 word"

text \<open>
  The functions of the library return \<open>0\<close> or the macro \<open>__FAILURE__\<close>, a non-zero line
  number; callers only compare with \<open>0\<close>.
\<close>

datatype rc = Success | Failure

definition char_of_byte :: "byte \<Rightarrow> char" where
  "char_of_byte b = char_of (unat b)"

definition byte_of_char :: "char \<Rightarrow> byte" where
  "byte_of_char c = of_nat (of_char c)"

lemma of_char_less_256: "(of_char c :: nat) < 256"
  using of_char_mod_256 [of c, where 'a = nat] by (metis mod_less_divisor zero_less_numeral)

lemma char_of_byte_of_char [simp]: "char_of_byte (byte_of_char c) = c"
  using of_char_less_256 [of c]
  by (simp add: char_of_byte_def byte_of_char_def unat_of_nat)

lemma byte_of_char_of_byte [simp]: "byte_of_char (char_of_byte b) = b"
proof -
  have "unat b < 256" using unsigned_less [of b, where 'a = nat] by simp
  then show ?thesis by (simp add: char_of_byte_def byte_of_char_def)
qed

abbreviation NUL :: char where "NUL \<equiv> CHR 0x00"

text \<open>Two bytes are equal when their eight bits are.\<close>

lemma byte_eqI:
  fixes x y :: byte
  assumes "bit x 0 = bit y 0" "bit x 1 = bit y 1" "bit x 2 = bit y 2" "bit x 3 = bit y 3"
    "bit x 4 = bit y 4" "bit x 5 = bit y 5" "bit x 6 = bit y 6" "bit x 7 = bit y 7"
  shows "x = y"
proof (rule bit_word_eqI)
  fix n
  assume "n < LENGTH(8)"
  then have "n = 0 \<or> n = 1 \<or> n = 2 \<or> n = 3 \<or> n = 4 \<or> n = 5 \<or> n = 6 \<or> n = 7" by auto
  with assms show "bit x n = bit y n" by auto
qed

lemma byte_bit_high [simp]: "8 \<le> n \<Longrightarrow> \<not> bit (x :: byte) n"
  using bit_imp_le_length [of x n] by auto

text \<open>A property of all bytes below a bound, by checking each.\<close>

lemma byte_cases_below:
  assumes "\<forall>n \<in> set [0..<m]. P (word_of_nat n :: byte)" and "unat v < m"
  shows "P v"
  using assms(1) [rule_format, of "unat v"] assms(2) by simp

lemma unat_and_le: "unat (x AND m) \<le> unat (m :: 'a::len word)"
  by (rule word_and_le1 [THEN word_le_nat_alt [THEN iffD1]])

section \<open>Size arithmetic\<close>

text \<open>
  \<open>size_t\<close> is 64 bits wide. Sizes are natural numbers, and every place where the code
  guards against wrap-around uses the saturating addition below, whose comparison is the
  macro's: strictly less than \<open>SIZE_MAX - b\<close>.
\<close>

definition SIZE_MAX :: nat where
  "SIZE_MAX = 2 ^ 64 - 1"

definition safe_add_size_t :: "nat \<Rightarrow> nat \<Rightarrow> nat" where
  "safe_add_size_t a b = (if a < SIZE_MAX - b then a + b else SIZE_MAX)"

lemma safe_add_size_t_le: "safe_add_size_t a b \<le> SIZE_MAX"
  by (auto simp: safe_add_size_t_def)

lemma safe_add_size_t_exact: "safe_add_size_t a b \<noteq> SIZE_MAX \<Longrightarrow> safe_add_size_t a b = a + b"
  by (simp add: safe_add_size_t_def split: if_splits)

lemma safe_add_size_t_ok: "a + b < SIZE_MAX \<Longrightarrow> safe_add_size_t a b = a + b"
  by (simp add: safe_add_size_t_def)

section \<open>The allocator\<close>

text \<open>
  The environment decides each request: \<open>mem_ok n\<close> says whether the \<open>n\<close>-th request
  (counted from the start of the run) is granted, \<open>mem_junk n i\<close> is the byte a granted
  block holds at offset \<open>i\<close> before it is written. Theorems quantify over both, so they
  hold for every pattern of allocation failures. \<open>mem_live\<close> counts the blocks allocated
  and not yet freed, so that a leak is a value the theorems can speak about.
\<close>

record heap =
  mem_ok :: "nat \<Rightarrow> bool"
  mem_junk :: "nat \<Rightarrow> nat \<Rightarrow> byte"
  mem_calls :: nat
  mem_live :: int

definition granted :: "heap \<Rightarrow> bool" where
  "granted h = mem_ok h (mem_calls h)"

definition after_request :: "int \<Rightarrow> heap \<Rightarrow> heap" where
  "after_request d h =
     h\<lparr>mem_calls := Suc (mem_calls h), mem_live := mem_live h + (if granted h then d else 0)\<rparr>"

definition fresh_block :: "(byte \<Rightarrow> 'a) \<Rightarrow> nat \<Rightarrow> heap \<Rightarrow> 'a list" where
  "fresh_block cell n h = map (\<lambda>i. cell (mem_junk h (mem_calls h) i)) [0..<n]"

text \<open>\<open>malloc\<close> of a structure (its fields are written one by one) and of a block of cells.\<close>

definition malloc_struct :: "heap \<Rightarrow> bool \<times> heap" where
  "malloc_struct h = (granted h, after_request 1 h)"

definition malloc_block :: "(byte \<Rightarrow> 'a) \<Rightarrow> nat \<Rightarrow> heap \<Rightarrow> 'a list option \<times> heap" where
  "malloc_block cell n h =
     (if granted h then Some (fresh_block cell n h) else None, after_request 1 h)"

text \<open>
  \<open>realloc\<close>: a granted request keeps the old contents up to the new size and leaves what
  lies beyond uninitialised; a refused one leaves the old block as it is. The null pointer
  makes it a \<open>malloc\<close>.
\<close>

definition realloc_block ::
  "(byte \<Rightarrow> 'a) \<Rightarrow> 'a list option \<Rightarrow> nat \<Rightarrow> heap \<Rightarrow> 'a list option \<times> heap" where
  "realloc_block cell old n h =
     (case old of
        None \<Rightarrow> malloc_block cell n h
      | Some b \<Rightarrow>
          (if granted h then Some (take n b @ drop (length b) (fresh_block cell n h)) else None,
           after_request 0 h))"

definition c_free :: "'a option \<Rightarrow> heap \<Rightarrow> heap" where
  "c_free p h = (case p of None \<Rightarrow> h | Some _ \<Rightarrow> h\<lparr>mem_live := mem_live h - 1\<rparr>)"

definition free_struct :: "heap \<Rightarrow> heap" where
  "free_struct h = h\<lparr>mem_live := mem_live h - 1\<rparr>"

lemmas [mem_defs] =
  granted_def after_request_def malloc_struct_def malloc_block_def realloc_block_def
  c_free_def free_struct_def

lemma c_free_calls [simp]: "mem_calls (c_free p h) = mem_calls h"
  by (simp add: c_free_def split: option.split)

text \<open>An allocator that grants everything, for the witnesses.\<close>

definition heap0 :: heap where
  "heap0 = \<lparr>mem_ok = (\<lambda>_. True), mem_junk = (\<lambda>_ _. 0), mem_calls = 0, mem_live = 0\<rparr>"

lemma length_fresh_block [simp]: "length (fresh_block cell n h) = n"
  by (simp add: fresh_block_def)

text \<open>
  \<open>memcpy (dst + off) src n\<close> and \<open>memset\<close>-like stores on a block. They are used where
  \<open>off + n\<close> lies inside the destination and \<open>n\<close> inside the source, which the theorems
  of the components establish.
\<close>

definition memcpy_at :: "'a list \<Rightarrow> nat \<Rightarrow> 'a list \<Rightarrow> nat \<Rightarrow> 'a list" where
  "memcpy_at dst off src n = take off dst @ take n src @ drop (off + n) dst"

lemma length_memcpy_at [simp]:
  "off + n \<le> length dst \<Longrightarrow> n \<le> length src \<Longrightarrow> length (memcpy_at dst off src n) = length dst"
  by (simp add: memcpy_at_def)

lemma memcpy_at_0: "memcpy_at dst 0 src n = take n src @ drop n dst"
  by (simp add: memcpy_at_def)

text \<open>Stores at \<open>p[pos++]\<close>: the position and the block, and \<open>put\<close> writes some cells there.\<close>

definition put :: "'a list \<Rightarrow> nat \<times> 'a list \<Rightarrow> nat \<times> 'a list" where
  "put cs st = (fst st + length cs, memcpy_at (snd st) (fst st) cs (length cs))"

lemma put_at:
  "length done = p \<Longrightarrow> length cs \<le> length rest \<Longrightarrow>
     put cs (p, done @ rest) = (p + length cs, (done @ cs) @ drop (length cs) rest)"
  by (simp add: put_def memcpy_at_def)

lemma put_put:
  "length done = p \<Longrightarrow> length cs + length ds \<le> length rest \<Longrightarrow>
     put ds (put cs (p, done @ rest)) = put (cs @ ds) (p, done @ rest)"
  by (simp add: put_at) (simp add: put_def memcpy_at_def ac_simps)

lemma fst_put [simp]: "fst (put cs st) = fst st + length cs"
  by (simp add: put_def)

lemma length_snd_put [simp]:
  "fst st + length cs \<le> length (snd st) \<Longrightarrow> length (snd (put cs st)) = length (snd st)"
  by (simp add: put_def)

lemma put_append:
  "fst st + length cs + length ds \<le> length (snd st) \<Longrightarrow> put ds (put cs st) = put (cs @ ds) st"
  by (cases st) (simp add: put_def memcpy_at_def ac_simps)

lemma put_Nil [simp]: "put [] st = st"
  by (cases st) (simp add: put_def memcpy_at_def)

lemma put_whole: "length cs \<le> length b \<Longrightarrow> put cs (0, b) = (length cs, cs @ drop (length cs) b)"
  by (simp add: put_def memcpy_at_def)

section \<open>C strings\<close>

text \<open>
  A \<open>char*\<close> is a block of characters; the string it holds is what precedes the first
  terminator. A block that is used as a string must contain one.
\<close>

definition cstr :: "char list \<Rightarrow> char list" where
  "cstr b = takeWhile (\<lambda>c. c \<noteq> NUL) b"

definition strlen :: "char list \<Rightarrow> nat" where
  "strlen b = length (cstr b)"

definition terminated :: "char list \<Rightarrow> bool" where
  "terminated b = (NUL \<in> set b)"

text \<open>A string without terminators, stored as a C string.\<close>

definition c_string :: "char list \<Rightarrow> bool" where
  "c_string s = (NUL \<notin> set s)"

lemma cstr_append_NUL [simp]: "c_string s \<Longrightarrow> cstr (s @ NUL # rest) = s"
  unfolding cstr_def c_string_def by (subst takeWhile_append2) auto

lemma c_string_cstr [simp]: "c_string (cstr b)"
  unfolding cstr_def c_string_def by (auto dest: set_takeWhileD)

lemma cstr_c_string [simp]: "c_string s \<Longrightarrow> cstr s = s"
  unfolding cstr_def c_string_def by (induction s) auto

lemma cstr_Nil [simp]: "cstr [] = []" and cstr_NUL [simp]: "cstr (NUL # b) = []"
  by (simp_all add: cstr_def)

lemma cstr_Cons [simp]: "c \<noteq> NUL \<Longrightarrow> cstr (c # b) = c # cstr b"
  by (simp add: cstr_def)

lemma c_string_append [simp]: "c_string (s @ t) \<longleftrightarrow> c_string s \<and> c_string t"
  by (auto simp: c_string_def)

lemma c_string_Nil [simp]: "c_string []"
  by (simp add: c_string_def)

lemma c_string_Cons [simp]: "c_string (c # s) \<longleftrightarrow> c \<noteq> NUL \<and> c_string s"
  by (auto simp: c_string_def)

lemma strlen_le: "strlen b \<le> length b"
  by (simp add: strlen_def cstr_def length_takeWhile_le)

lemma terminated_split: "terminated b \<Longrightarrow> \<exists>rest. b = cstr b @ NUL # rest"
proof -
  assume "terminated b"
  then obtain ys zs where "b = ys @ NUL # zs" and "NUL \<notin> set ys"
    unfolding terminated_def by (meson split_list_first)
  then show ?thesis using cstr_append_NUL [of ys zs] by (auto simp: c_string_def)
qed

lemma strlen_less: "terminated b \<Longrightarrow> strlen b < length b"
  using terminated_split [of b] unfolding strlen_def
  by (metis add_Suc_right length_Cons length_append less_add_same_cancel1 zero_less_Suc)

lemma take_strlen [simp]: "take (strlen b) b = cstr b"
  unfolding strlen_def cstr_def by (simp add: takeWhile_eq_take [symmetric])

lemma nth_strlen: "terminated b \<Longrightarrow> b ! strlen b = NUL"
  using strlen_less [of b] nth_length_takeWhile [of "\<lambda>c. c \<noteq> NUL" b]
  by (auto simp: strlen_def cstr_def)

lemma take_Suc_strlen [simp]: "terminated b \<Longrightarrow> take (Suc (strlen b)) b = cstr b @ [NUL]"
  using strlen_less [of b] nth_strlen [of b] by (simp add: take_Suc_conv_app_nth)

lemma terminated_simps [simp]:
  "\<not> terminated []" "terminated (c # s) \<longleftrightarrow> c = NUL \<or> terminated s"
  "terminated (s @ t) \<longleftrightarrow> terminated s \<or> terminated t"
  by (auto simp: terminated_def)

lemma terminated_append_NUL: "terminated (s @ NUL # rest)"
  by simp

lemma strlen_append_NUL [simp]: "c_string s \<Longrightarrow> strlen (s @ NUL # rest) = length s"
  by (simp add: strlen_def)

lemma cstr_append: "c_string s \<Longrightarrow> cstr (s @ t) = s @ cstr t"
  unfolding cstr_def c_string_def by (subst takeWhile_append2) auto

section \<open>Lists\<close>

lemma take_append_exact [simp]: "length xs = n \<Longrightarrow> take n (xs @ ys) = xs"
  by simp

lemma drop_append_exact [simp]: "length xs = n \<Longrightarrow> drop n (xs @ ys) = ys"
  by simp

end
