(* ===== verification/SinglyLinkedList.thy ===== *)
theory SinglyLinkedList
  imports Prelude "HOL-Library.Monad_Syntax"
begin

text \<open>
  The list of \<open>src/singlylinkedlist.c\<close> at pointer level: a store of nodes, a head and a
  tail pointer. An address is the serial number of the allocation request that produced
  the node, so a handle is never reused. A function that follows pointers returns \<open>None\<close>
  where the C code would dereference a null or dangling pointer or loop for ever;
  \<open>list_repr\<close> relates a store to the list of (handle, item) pairs it holds, and the
  theorems show that on such stores every operation returns and does on the pairs what
  its specification says.
\<close>

section \<open>Data\<close>

record 'a list_item =
  li_item :: 'a
  li_next :: "nat option"

record 'a list_instance =
  list_head :: "nat option"
  list_tail :: "nat option"
  list_nodes :: "nat \<Rightarrow> 'a list_item option"

section \<open>Operations\<close>

definition singlylinkedlist_create :: "heap \<Rightarrow> 'a list_instance option \<times> heap" where
  "singlylinkedlist_create h =
     (let (ok, h1) = malloc_struct h in
      (if ok then Some \<lparr>list_head = None, list_tail = None, list_nodes = Map.empty\<rparr> else None, h1))"

text \<open>The store \<open>p->next = nx\<close>.\<close>

definition set_next :: "(nat \<Rightarrow> 'a list_item option) \<Rightarrow> nat \<Rightarrow> nat option \<Rightarrow> (nat \<Rightarrow> 'a list_item option) option" where
  "set_next ns p nx = (case ns p of None \<Rightarrow> None | Some n \<Rightarrow> Some (ns(p \<mapsto> n\<lparr>li_next := nx\<rparr>)))"

partial_function (option) singlylinkedlist_destroy_loop ::
  "(nat \<Rightarrow> 'a list_item option) \<Rightarrow> nat option \<Rightarrow> heap \<Rightarrow> heap option" where
  "singlylinkedlist_destroy_loop ns cur h =
     (case cur of
        None \<Rightarrow> Some h
      | Some c \<Rightarrow>
          (case ns c of
             None \<Rightarrow> None
           | Some n \<Rightarrow> singlylinkedlist_destroy_loop (ns(c := None)) (li_next n) (free_struct h)))"

definition singlylinkedlist_destroy :: "'a list_instance option \<Rightarrow> heap \<Rightarrow> heap option" where
  "singlylinkedlist_destroy list h =
     (case list of
        None \<Rightarrow> Some h
      | Some l \<Rightarrow>
          map_option free_struct (singlylinkedlist_destroy_loop (list_nodes l) (list_head l) h))"

definition singlylinkedlist_add ::
  "'a list_instance option \<Rightarrow> 'a option \<Rightarrow> heap \<Rightarrow>
     (nat option \<times> 'a list_instance option \<times> heap) option" where
  "singlylinkedlist_add list item h =
     (case (list, item) of
        (Some l, Some v) \<Rightarrow>
          (let (ok, h1) = malloc_struct h; a = mem_calls h in
           if \<not> ok then Some (None, list, h1)
           else
             (let ns = (list_nodes l)(a \<mapsto> \<lparr>li_item = v, li_next = None\<rparr>) in
              (case list_head l of
                 None \<Rightarrow> Some (Some a, Some (l\<lparr>list_nodes := ns, list_head := Some a, list_tail := Some a\<rparr>), h1)
               | Some _ \<Rightarrow>
                   do { t \<leftarrow> list_tail l;
                        ns' \<leftarrow> set_next ns t (Some a);
                        Some (Some a, Some (l\<lparr>list_nodes := ns', list_tail := Some a\<rparr>), h1) })))
      | _ \<Rightarrow> Some (None, list, h))"

text \<open>
  Taking \<open>cur\<close> out of the chain, as \<open>singlylinkedlist_remove\<close> and
  \<open>singlylinkedlist_remove_if\<close> both do: the predecessor (or the head) skips it, the tail
  moves back if it was the last, and its memory is freed.
\<close>

definition unlink ::
  "'a list_instance \<Rightarrow> nat option \<Rightarrow> nat \<Rightarrow> nat option \<Rightarrow> 'a list_instance option" where
  "unlink l prev cur nx =
     do { l1 \<leftarrow> (case prev of
                  Some p \<Rightarrow> map_option (\<lambda>ns. l\<lparr>list_nodes := ns\<rparr>) (set_next (list_nodes l) p nx)
                | None \<Rightarrow> Some (l\<lparr>list_head := nx\<rparr>));
          let l2 = (if Some cur = list_tail l1 then l1\<lparr>list_tail := prev\<rparr> else l1);
          Some (l2\<lparr>list_nodes := (list_nodes l2)(cur := None)\<rparr>) }"

text \<open>The search loop of \<open>singlylinkedlist_remove\<close>: the item found, its predecessor and successor.\<close>

partial_function (option) singlylinkedlist_remove_loop ::
  "(nat \<Rightarrow> 'a list_item option) \<Rightarrow> nat option \<Rightarrow> nat option \<Rightarrow> nat \<Rightarrow>
     ((nat option \<times> nat option) option) option" where
  "singlylinkedlist_remove_loop ns cur prev item =
     (case cur of
        None \<Rightarrow> Some None
      | Some c \<Rightarrow>
          (case ns c of
             None \<Rightarrow> None
           | Some n \<Rightarrow>
               (if c = item then Some (Some (prev, li_next n))
                else singlylinkedlist_remove_loop ns (li_next n) (Some c) item)))"

definition singlylinkedlist_remove ::
  "'a list_instance option \<Rightarrow> nat option \<Rightarrow> heap \<Rightarrow> (rc \<times> 'a list_instance option \<times> heap) option" where
  "singlylinkedlist_remove list item h =
     (case (list, item) of
        (Some l, Some a) \<Rightarrow>
          do { found \<leftarrow> singlylinkedlist_remove_loop (list_nodes l) (list_head l) None a;
               (case found of
                  None \<Rightarrow> Some (Failure, list, h)
                | Some (prev, nx) \<Rightarrow>
                    do { l' \<leftarrow> unlink l prev a nx;
                         Some (Success, Some l', free_struct h) }) }
      | _ \<Rightarrow> Some (Failure, list, h))"

definition singlylinkedlist_get_head_item :: "'a list_instance option \<Rightarrow> nat option" where
  "singlylinkedlist_get_head_item list = (case list of None \<Rightarrow> None | Some l \<Rightarrow> list_head l)"

definition singlylinkedlist_get_next_item ::
  "(nat \<Rightarrow> 'a list_item option) \<Rightarrow> nat option \<Rightarrow> nat option option" where
  "singlylinkedlist_get_next_item ns item =
     (case item of None \<Rightarrow> Some None | Some a \<Rightarrow> map_option li_next (ns a))"

definition singlylinkedlist_item_get_value ::
  "(nat \<Rightarrow> 'a list_item option) \<Rightarrow> nat option \<Rightarrow> 'a option option" where
  "singlylinkedlist_item_get_value ns item =
     (case item of None \<Rightarrow> Some None | Some a \<Rightarrow> map_option (\<lambda>n. Some (li_item n)) (ns a))"

text \<open>A match function sees the handle and, through it, the item.\<close>

partial_function (option) singlylinkedlist_find_loop ::
  "(nat \<Rightarrow> 'a list_item option) \<Rightarrow> nat option \<Rightarrow> (nat \<Rightarrow> 'a \<Rightarrow> bool) \<Rightarrow> nat option option" where
  "singlylinkedlist_find_loop ns cur match =
     (case cur of
        None \<Rightarrow> Some None
      | Some c \<Rightarrow>
          (case ns c of
             None \<Rightarrow> None
           | Some n \<Rightarrow>
               (if match c (li_item n) then Some (Some c)
                else singlylinkedlist_find_loop ns (li_next n) match)))"

definition singlylinkedlist_find ::
  "'a list_instance option \<Rightarrow> (nat \<Rightarrow> 'a \<Rightarrow> bool) option \<Rightarrow> nat option option" where
  "singlylinkedlist_find list match =
     (case (list, match) of
        (Some l, Some f) \<Rightarrow> singlylinkedlist_find_loop (list_nodes l) (list_head l) f
      | _ \<Rightarrow> Some None)"

text \<open>A condition function returns whether to remove the item and whether to go on.\<close>

partial_function (option) singlylinkedlist_remove_if_loop ::
  "'a list_instance \<Rightarrow> nat option \<Rightarrow> nat option \<Rightarrow> ('a \<Rightarrow> bool \<times> bool) \<Rightarrow> heap \<Rightarrow>
     ('a list_instance \<times> heap) option" where
  "singlylinkedlist_remove_if_loop l cur prev cond h =
     (case cur of
        None \<Rightarrow> Some (l, h)
      | Some c \<Rightarrow>
          (case list_nodes l c of
             None \<Rightarrow> None
           | Some n \<Rightarrow>
               (if fst (cond (li_item n)) then
                  (case unlink l prev c (li_next n) of
                     None \<Rightarrow> None
                   | Some l' \<Rightarrow>
                       (if snd (cond (li_item n))
                        then singlylinkedlist_remove_if_loop l' (li_next n) prev cond (free_struct h)
                        else Some (l', free_struct h)))
                else if snd (cond (li_item n))
                  then singlylinkedlist_remove_if_loop l (li_next n) (Some c) cond h
                  else Some (l, h))))"

definition singlylinkedlist_remove_if ::
  "'a list_instance option \<Rightarrow> ('a \<Rightarrow> bool \<times> bool) option \<Rightarrow> heap \<Rightarrow>
     (rc \<times> 'a list_instance option \<times> heap) option" where
  "singlylinkedlist_remove_if list cond h =
     (case (list, cond) of
        (Some l, Some f) \<Rightarrow>
          do { (l', h') \<leftarrow> singlylinkedlist_remove_if_loop l (list_head l) None f h;
               Some (Success, Some l', h') }
      | _ \<Rightarrow> Some (Failure, list, h))"

text \<open>An action acts on the caller's state and returns whether to go on.\<close>

partial_function (option) singlylinkedlist_foreach_loop ::
  "(nat \<Rightarrow> 'a list_item option) \<Rightarrow> nat option \<Rightarrow> ('a \<Rightarrow> 's \<Rightarrow> 's \<times> bool) \<Rightarrow> 's \<Rightarrow> 's option" where
  "singlylinkedlist_foreach_loop ns cur act s =
     (case cur of
        None \<Rightarrow> Some s
      | Some c \<Rightarrow>
          (case ns c of
             None \<Rightarrow> None
           | Some n \<Rightarrow>
               (if snd (act (li_item n) s)
                then singlylinkedlist_foreach_loop ns (li_next n) act (fst (act (li_item n) s))
                else Some (fst (act (li_item n) s)))))"

definition singlylinkedlist_foreach ::
  "'a list_instance option \<Rightarrow> ('a \<Rightarrow> 's \<Rightarrow> 's \<times> bool) option \<Rightarrow> 's \<Rightarrow> (rc \<times> 's) option" where
  "singlylinkedlist_foreach list act s =
     (case (list, act) of
        (Some l, Some f) \<Rightarrow>
          map_option (Pair Success) (singlylinkedlist_foreach_loop (list_nodes l) (list_head l) f s)
      | _ \<Rightarrow> Some (Failure, s))"

section \<open>Representation\<close>

text \<open>
  \<open>chain ns xs q\<close>: the pairs of \<open>xs\<close> are nodes of the store, each pointing at the next,
  the last at \<open>q\<close>.
\<close>

fun link :: "(nat \<times> 'a) list \<Rightarrow> nat option \<Rightarrow> nat option" where
  "link [] q = q"
| "link ((a, v) # xs) q = Some a"

fun chain :: "(nat \<Rightarrow> 'a list_item option) \<Rightarrow> (nat \<times> 'a) list \<Rightarrow> nat option \<Rightarrow> bool" where
  "chain ns [] q = True"
| "chain ns ((a, v) # xs) q \<longleftrightarrow>
     ns a = Some \<lparr>li_item = v, li_next = link xs q\<rparr> \<and> chain ns xs q"

abbreviation handles :: "(nat \<times> 'a) list \<Rightarrow> nat set" where
  "handles xs \<equiv> fst ` set xs"

definition last_handle :: "(nat \<times> 'a) list \<Rightarrow> nat option" where
  "last_handle xs = (if xs = [] then None else Some (fst (last xs)))"

definition list_repr :: "'a list_instance \<Rightarrow> (nat \<times> 'a) list \<Rightarrow> bool" where
  "list_repr l xs \<longleftrightarrow>
     list_head l = link xs None \<and> chain (list_nodes l) xs None \<and> distinct (map fst xs) \<and>
     list_tail l = last_handle xs \<and> dom (list_nodes l) = handles xs"

lemma link_append [simp]: "link (xs @ ys) q = link xs (link ys q)"
  by (cases xs) auto

lemma chain_append [simp]: "chain ns (xs @ ys) q \<longleftrightarrow> chain ns xs (link ys q) \<and> chain ns ys q"
  by (induction ns xs q rule: chain.induct) auto

lemma chain_upd [simp]: "a \<notin> handles xs \<Longrightarrow> chain (ns(a := n)) xs q = chain ns xs q"
  by (induction ns xs q rule: chain.induct) auto

lemma last_handle_simps [simp]:
  "last_handle [] = None" "last_handle (xs @ [(a, v)]) = Some a"
  by (simp_all add: last_handle_def)

lemma last_handle_append [simp]: "ys \<noteq> [] \<Longrightarrow> last_handle (xs @ ys) = last_handle ys"
  by (simp add: last_handle_def)

lemma list_repr_Nil: "list_repr \<lparr>list_head = None, list_tail = None, list_nodes = Map.empty\<rparr> []"
  by (simp add: list_repr_def)

lemma list_repr_unique: "list_repr l xs \<Longrightarrow> list_repr l ys \<Longrightarrow> xs = ys"
proof -
  have "chain ns xs None \<Longrightarrow> chain ns ys None \<Longrightarrow> link xs None = link ys None \<Longrightarrow> xs = ys" for ns
  proof (induction xs arbitrary: ys)
    case Nil
    then show ?case by (cases ys) auto
  next
    case (Cons p xs)
    then show ?case by (cases p; cases ys) auto
  qed
  then show "list_repr l xs \<Longrightarrow> list_repr l ys \<Longrightarrow> xs = ys"
    unfolding list_repr_def by metis
qed

section \<open>What the operations do on the pairs\<close>

lemma dom_singleton_delete [simp]: "dom m = {a} \<Longrightarrow> m(a := None) = Map.empty"
  by (rule ext) (auto simp: dom_def set_eq_iff)

lemma unlink_repr:
  assumes "list_repr l (ps @ (a, v) # qs)"
  shows "\<exists>l'. unlink l (last_handle ps) a (link qs None) = Some l' \<and> list_repr l' (ps @ qs)"
proof (cases ps rule: rev_cases)
  case Nil
  with assms show ?thesis
    by (cases qs) (auto simp: unlink_def list_repr_def last_handle_def)
next
  case (snoc ps' p)
  obtain b w where p: "p = (b, w)" by fastforce
  from assms snoc p have nodes: "list_nodes l b = Some \<lparr>li_item = w, li_next = Some a\<rparr>"
    and new: "a \<noteq> b" "a \<notin> handles ps'" "b \<notin> handles ps'" "a \<notin> handles qs" "b \<notin> handles qs"
    by (auto simp: list_repr_def)
  show ?thesis
    using assms snoc p nodes new
    by (cases qs) (auto simp: unlink_def set_next_def list_repr_def last_handle_def)
qed

lemma remove_loop_found:
  "chain ns (ps @ (a, v) # qs) None \<Longrightarrow> a \<notin> handles ps \<Longrightarrow>
     singlylinkedlist_remove_loop ns (link (ps @ (a, v) # qs) None) prev a =
       Some (Some (if ps = [] then prev else last_handle ps, link qs None))"
proof (induction ps arbitrary: prev)
  case Nil
  then show ?case by (subst singlylinkedlist_remove_loop.simps) simp
next
  case (Cons p ps)
  then show ?case
    by (cases p, subst singlylinkedlist_remove_loop.simps) (auto simp: last_handle_def)
qed

lemma remove_loop_missing:
  "chain ns xs None \<Longrightarrow> a \<notin> handles xs \<Longrightarrow>
     singlylinkedlist_remove_loop ns (link xs None) prev a = Some None"
proof (induction xs arbitrary: prev)
  case Nil
  then show ?case by (subst singlylinkedlist_remove_loop.simps) simp
next
  case (Cons p xs)
  then show ?case by (cases p, subst singlylinkedlist_remove_loop.simps) auto
qed

lemma find_loop_repr:
  "chain ns xs None \<Longrightarrow>
     singlylinkedlist_find_loop ns (link xs None) f =
       Some (map_option fst (List.find (\<lambda>(a, v). f a v) xs))"
proof (induction xs)
  case Nil
  then show ?case by (subst singlylinkedlist_find_loop.simps) simp
next
  case (Cons p xs)
  then show ?case by (cases p, subst singlylinkedlist_find_loop.simps) auto
qed

text \<open>The specification of \<open>singlylinkedlist_remove_if\<close> and \<open>singlylinkedlist_foreach\<close>.\<close>

fun remove_if_spec :: "('a \<Rightarrow> bool \<times> bool) \<Rightarrow> (nat \<times> 'a) list \<Rightarrow> (nat \<times> 'a) list" where
  "remove_if_spec f [] = []"
| "remove_if_spec f ((a, v) # xs) =
     (if fst (f v) then [] else [(a, v)]) @ (if snd (f v) then remove_if_spec f xs else xs)"

fun foreach_spec :: "('a \<Rightarrow> 's \<Rightarrow> 's \<times> bool) \<Rightarrow> (nat \<times> 'a) list \<Rightarrow> 's \<Rightarrow> 's" where
  "foreach_spec f [] s = s"
| "foreach_spec f ((a, v) # xs) s =
     (if snd (f v s) then foreach_spec f xs (fst (f v s)) else fst (f v s))"

lemma remove_if_loop_repr:
  "list_repr l (ps @ qs) \<Longrightarrow>
     \<exists>l' h'. singlylinkedlist_remove_if_loop l (link qs None) (last_handle ps) f h = Some (l', h') \<and>
       list_repr l' (ps @ remove_if_spec f qs) \<and>
       mem_live h' = mem_live h - int (length qs - length (remove_if_spec f qs))"
proof (induction qs arbitrary: l ps h)
  case Nil
  then show ?case by (subst singlylinkedlist_remove_if_loop.simps) simp
next
  case (Cons p qs)
  obtain a v where p: "p = (a, v)" by fastforce
  have node: "list_nodes l a = Some \<lparr>li_item = v, li_next = link qs None\<rparr>"
    using Cons.prems p by (simp add: list_repr_def)
  have len: "length (remove_if_spec f qs) \<le> length qs"
    by (induction f qs rule: remove_if_spec.induct) auto
  show ?case
  proof (cases "fst (f v)")
    case True
    obtain l' where l': "unlink l (last_handle ps) a (link qs None) = Some l'" "list_repr l' (ps @ qs)"
      using unlink_repr [of l ps a v qs] Cons.prems p by auto
    then show ?thesis
      using Cons.IH [of l' ps "free_struct h"] True p node len
      by (subst singlylinkedlist_remove_if_loop.simps) (auto simp: free_struct_def of_nat_diff)
  next
    case False
    have "list_repr l ((ps @ [(a, v)]) @ qs)" using Cons.prems p by simp
    then show ?thesis
      using Cons.IH [of l "ps @ [(a, v)]" h] False p node len Cons.prems
      by (subst singlylinkedlist_remove_if_loop.simps) (auto simp: of_nat_diff)
  qed
qed

lemma foreach_loop_repr:
  "chain ns xs None \<Longrightarrow>
     singlylinkedlist_foreach_loop ns (link xs None) f s = Some (foreach_spec f xs s)"
proof (induction xs arbitrary: s)
  case Nil
  then show ?case by (subst singlylinkedlist_foreach_loop.simps) simp
next
  case (Cons p xs)
  then show ?case by (cases p, subst singlylinkedlist_foreach_loop.simps) auto
qed

lemma destroy_loop_repr:
  "chain ns xs None \<Longrightarrow> distinct (map fst xs) \<Longrightarrow>
     \<exists>h'. singlylinkedlist_destroy_loop ns (link xs None) h = Some h' \<and>
       mem_live h' = mem_live h - int (length xs)"
proof (induction xs arbitrary: ns h)
  case Nil
  then show ?case by (subst singlylinkedlist_destroy_loop.simps) simp
next
  case (Cons p xs)
  obtain a v where p: "p = (a, v)" by fastforce
  with Cons.prems have "chain (ns(a := None)) xs None" "distinct (map fst xs)" by auto
  then obtain h' where "singlylinkedlist_destroy_loop (ns(a := None)) (link xs None) (free_struct h) = Some h'"
    "mem_live h' = mem_live (free_struct h) - int (length xs)"
    using Cons.IH by blast
  with Cons.prems p show ?case
    by (subst singlylinkedlist_destroy_loop.simps) (auto simp: free_struct_def)
qed

text \<open>The operations on represented lists, as equations on the pairs.\<close>

lemma add_repr:
  assumes "list_repr l xs" and "\<And>b. b \<in> handles xs \<Longrightarrow> b < mem_calls h"
  shows "\<exists>l'. singlylinkedlist_add (Some l) (Some v) h =
            Some (if granted h then Some (mem_calls h) else None, Some l', after_request 1 h) \<and>
          list_repr l' (if granted h then xs @ [(mem_calls h, v)] else xs)"
proof (cases "granted h")
  case False
  with assms(1) show ?thesis by (auto simp: singlylinkedlist_add_def malloc_struct_def)
next
  case True
  have new: "mem_calls h \<notin> handles xs" using assms(2) by blast
  show ?thesis
  proof (cases xs rule: rev_cases)
    case Nil
    with assms(1) True show ?thesis
      by (auto simp: singlylinkedlist_add_def malloc_struct_def list_repr_def last_handle_def Let_def)
  next
    case (snoc ps p)
    obtain b w where p: "p = (b, w)" by fastforce
    have "list_nodes l b = Some \<lparr>li_item = w, li_next = None\<rparr>" "list_tail l = Some b"
      "list_head l = link ps (Some b)" "b \<notin> handles ps"
      using assms(1) snoc p by (auto simp: list_repr_def)
    moreover have "\<exists>c. link ps (Some b) = Some c" by (cases ps) auto
    ultimately show ?thesis
      using assms(1) True new snoc p
      by (auto simp: singlylinkedlist_add_def malloc_struct_def list_repr_def set_next_def Let_def
          last_handle_def)
  qed
qed

lemma filter_other_handle: "a \<notin> handles xs \<Longrightarrow> filter (\<lambda>p. fst p \<noteq> a) xs = xs"
  by (induction xs) auto

lemma remove_repr:
  assumes "list_repr l xs"
  shows "\<exists>l'. singlylinkedlist_remove (Some l) (Some a) h =
            Some (if a \<in> handles xs then Success else Failure, Some l',
                  if a \<in> handles xs then free_struct h else h) \<and>
          list_repr l' (filter (\<lambda>p. fst p \<noteq> a) xs)"
proof (cases "a \<in> handles xs")
  case False
  then have "filter (\<lambda>p. fst p \<noteq> a) xs = xs" by (rule filter_other_handle)
  with assms False show ?thesis
    by (auto simp: singlylinkedlist_remove_def list_repr_def remove_loop_missing)
next
  case True
  then obtain v where "(a, v) \<in> set xs" by auto
  then obtain ps qs where xs: "xs = ps @ (a, v) # qs" and a: "a \<notin> handles ps" "a \<notin> handles qs"
    using assms by (auto simp: list_repr_def in_set_conv_decomp)
  obtain l' where "unlink l (last_handle ps) a (link qs None) = Some l'" "list_repr l' (ps @ qs)"
    using unlink_repr [of l ps a v qs] assms xs by auto
  moreover have "filter (\<lambda>p. fst p \<noteq> a) xs = ps @ qs"
    using xs a by (simp add: filter_other_handle)
  moreover have "(if ps = [] then None else last_handle ps) = last_handle ps" by simp
  ultimately show ?thesis
    using assms xs a remove_loop_found [of "list_nodes l" ps a v qs None]
    by (auto simp: singlylinkedlist_remove_def list_repr_def)
qed

lemma get_head_item_repr:
  "list_repr l xs \<Longrightarrow> singlylinkedlist_get_head_item (Some l) = link xs None"
  by (simp add: singlylinkedlist_get_head_item_def list_repr_def)

lemma find_repr:
  "list_repr l xs \<Longrightarrow>
     singlylinkedlist_find (Some l) (Some f) = Some (map_option fst (List.find (\<lambda>(a, v). f a v) xs))"
  by (simp add: singlylinkedlist_find_def list_repr_def find_loop_repr)

lemma chain_lookup: "chain ns xs q \<Longrightarrow> (a, v) \<in> set xs \<Longrightarrow> map_option li_item (ns a) = Some v"
  by (induction ns xs q rule: chain.induct) auto

lemma item_get_value_repr:
  "list_repr l xs \<Longrightarrow> (a, v) \<in> set xs \<Longrightarrow>
     singlylinkedlist_item_get_value (list_nodes l) (Some a) = Some (Some v)"
  using chain_lookup [of "list_nodes l" xs None a v]
  by (auto simp: singlylinkedlist_item_get_value_def list_repr_def)

lemma get_next_item_repr:
  "list_repr l (ps @ (a, v) # qs) \<Longrightarrow>
     singlylinkedlist_get_next_item (list_nodes l) (Some a) = Some (link qs None)"
  by (simp add: singlylinkedlist_get_next_item_def list_repr_def)

section \<open>The interface the clients of the list rely on\<close>

text \<open>
  What a client of the list may assume: on a list that stands for the pairs \<open>xs\<close>, adding
  appends a pair with a fresh handle when the allocation is granted, removing takes out the
  pair of the handle and reports whether it was there, the head is the oldest pair, and
  finding returns the first match.
\<close>

locale item_queue =
  fixes repr :: "'l \<Rightarrow> (nat \<times> 'a) list \<Rightarrow> bool"
    and add_item :: "'l \<Rightarrow> 'a \<Rightarrow> heap \<Rightarrow> (nat option \<times> 'l \<times> heap) option"
    and remove_item :: "'l \<Rightarrow> nat \<Rightarrow> heap \<Rightarrow> (rc \<times> 'l \<times> heap) option"
    and head_item :: "'l \<Rightarrow> nat option"
    and find_item :: "'l \<Rightarrow> (nat \<Rightarrow> 'a \<Rightarrow> bool) \<Rightarrow> nat option option"
  assumes add_law: "repr l xs \<Longrightarrow> (\<forall>b \<in> handles xs. b < mem_calls h) \<Longrightarrow>
      \<exists>l'. add_item l v h = Some (if granted h then Some (mem_calls h) else None, l', after_request 1 h) \<and>
           repr l' (if granted h then xs @ [(mem_calls h, v)] else xs)"
    and remove_law: "repr l xs \<Longrightarrow>
      \<exists>l'. remove_item l a h = Some (if a \<in> handles xs then Success else Failure, l',
                                    if a \<in> handles xs then free_struct h else h) \<and>
           repr l' (filter (\<lambda>p. fst p \<noteq> a) xs)"
    and head_law: "repr l xs \<Longrightarrow> head_item l = link xs None"
    and find_law: "repr l xs \<Longrightarrow>
      find_item l f = Some (map_option fst (List.find (\<lambda>(a, v). f a v) xs))"
begin

text \<open>The oldest item is the head, and removing the head leaves the others.\<close>

lemma remove_head:
  assumes "repr l ((a, v) # xs)" and "a \<notin> handles xs"
  shows "head_item l = Some a" and "\<exists>l'. remove_item l a h = Some (Success, l', free_struct h) \<and> repr l' xs"
  using head_law [OF assms(1)] remove_law [OF assms(1), of a h] assms(2)
  by (simp_all add: filter_other_handle)

text \<open>A handle that was added is found until it is removed, and then it is not.\<close>

lemma add_then_remove:
  assumes "repr l xs" and "\<forall>b \<in> handles xs. b < mem_calls h" and "granted h"
  shows "\<exists>l1 l2. add_item l v h = Some (Some (mem_calls h), l1, after_request 1 h) \<and>
           find_item l1 (\<lambda>b w. b = mem_calls h) = Some (Some (mem_calls h)) \<and>
           remove_item l1 (mem_calls h) h1 = Some (Success, l2, free_struct h1) \<and>
           repr l2 xs \<and>
           find_item l2 (\<lambda>b w. b = mem_calls h) = Some None"
proof -
  have new: "mem_calls h \<notin> handles xs" using assms(2) by blast
  then have miss: "List.find (\<lambda>(b, w). b = mem_calls h) xs = None"
    by (force simp: find_None_iff)
  then have hit: "List.find (\<lambda>(b, w). b = mem_calls h) (xs @ [(mem_calls h, v)]) = Some (mem_calls h, v)"
    by (induction xs) (auto split: if_splits)
  obtain l1 where l1: "add_item l v h = Some (Some (mem_calls h), l1, after_request 1 h)"
    "repr l1 (xs @ [(mem_calls h, v)])"
    using add_law [OF assms(1,2), of v] assms(3) by auto
  obtain l2 where l2: "remove_item l1 (mem_calls h) h1 = Some (Success, l2, free_struct h1)"
    "repr l2 xs"
    using remove_law [OF l1(2), of "mem_calls h" h1] new by (auto simp: filter_other_handle)
  show ?thesis
    using l1 l2 find_law [OF l1(2)] find_law [OF l2(2)] hit miss by auto
qed

text \<open>Removing a handle twice: the second removal fails and changes nothing.\<close>

lemma remove_twice:
  assumes "repr l xs" and "remove_item l a h = Some (r, l1, h1)"
  shows "\<exists>l2. remove_item l1 a h1 = Some (Failure, l2, h1) \<and> repr l2 (filter (\<lambda>p. fst p \<noteq> a) xs)"
proof -
  have "repr l1 (filter (\<lambda>p. fst p \<noteq> a) xs)"
    using remove_law [OF assms(1), of a h] assms(2) by auto
  from remove_law [OF this, of a h1] show ?thesis by auto
qed

end

section \<open>The pointer-level list and its list of pairs provide the interface\<close>

interpretation sll: item_queue list_repr
  "\<lambda>l v h. map_option (\<lambda>(a, l', h'). (a, the l', h')) (singlylinkedlist_add (Some l) (Some v) h)"
  "\<lambda>l a h. map_option (\<lambda>(r, l', h'). (r, the l', h')) (singlylinkedlist_remove (Some l) (Some a) h)"
  "\<lambda>l. singlylinkedlist_get_head_item (Some l)"
  "\<lambda>l f. singlylinkedlist_find (Some l) (Some f)"
proof unfold_locales
  fix l :: "'a list_instance" and xs v and h :: heap
  assume "list_repr l xs" "\<forall>b \<in> handles xs. b < mem_calls h"
  then obtain l' where "singlylinkedlist_add (Some l) (Some v) h =
      Some (if granted h then Some (mem_calls h) else None, Some l', after_request 1 h)"
      "list_repr l' (if granted h then xs @ [(mem_calls h, v)] else xs)"
    using add_repr [of l xs h v] by blast
  then show "\<exists>l'. map_option (\<lambda>(a, l', h'). (a, the l', h')) (singlylinkedlist_add (Some l) (Some v) h) =
      Some (if granted h then Some (mem_calls h) else None, l', after_request 1 h) \<and>
      list_repr l' (if granted h then xs @ [(mem_calls h, v)] else xs)"
    by (intro exI [of _ l']) simp
next
  fix l :: "'a list_instance" and xs a and h :: heap
  assume "list_repr l xs"
  then obtain l' where "singlylinkedlist_remove (Some l) (Some a) h =
      Some (if a \<in> handles xs then Success else Failure, Some l', if a \<in> handles xs then free_struct h else h)"
      "list_repr l' (filter (\<lambda>p. fst p \<noteq> a) xs)"
    using remove_repr [of l xs a h] by blast
  then show "\<exists>l'. map_option (\<lambda>(r, l', h'). (r, the l', h')) (singlylinkedlist_remove (Some l) (Some a) h) =
      Some (if a \<in> handles xs then Success else Failure, l', if a \<in> handles xs then free_struct h else h) \<and>
      list_repr l' (filter (\<lambda>p. fst p \<noteq> a) xs)"
    by (intro exI [of _ l']) simp
qed (simp_all add: get_head_item_repr find_repr)

text \<open>
  The same operations on the pairs themselves. Components that keep a list of items and are
  not about pointers (the pending sends of the WebSocket client) use these; they satisfy the
  same interface, so the two levels agree.
\<close>

definition pairs_add :: "(nat \<times> 'a) list \<Rightarrow> 'a \<Rightarrow> heap \<Rightarrow> nat option \<times> (nat \<times> 'a) list \<times> heap" where
  "pairs_add xs v h =
     (if granted h then (Some (mem_calls h), xs @ [(mem_calls h, v)], after_request 1 h)
      else (None, xs, after_request 1 h))"

definition pairs_remove :: "(nat \<times> 'a) list \<Rightarrow> nat \<Rightarrow> heap \<Rightarrow> rc \<times> (nat \<times> 'a) list \<times> heap" where
  "pairs_remove xs a h =
     (if List.member (map fst xs) a then (Success, filter (\<lambda>p. fst p \<noteq> a) xs, free_struct h)
      else (Failure, xs, h))"

definition pairs_find :: "(nat \<times> 'a) list \<Rightarrow> (nat \<Rightarrow> 'a \<Rightarrow> bool) \<Rightarrow> nat option" where
  "pairs_find xs f = map_option fst (List.find (\<lambda>(a, v). f a v) xs)"

interpretation pairs: item_queue "(=)" "\<lambda>xs v h. Some (pairs_add xs v h)"
  "\<lambda>xs a h. Some (pairs_remove xs a h)" "\<lambda>xs. link xs None" "\<lambda>xs f. Some (pairs_find xs f)"
  by unfold_locales (auto simp: pairs_add_def pairs_remove_def pairs_find_def filter_other_handle)

section \<open>Properties\<close>

text \<open>A list of two items, for the witnesses.\<close>

definition two_items :: "nat list_instance" where
  "two_items = \<lparr>list_head = Some 1, list_tail = Some 2,
     list_nodes = [1 \<mapsto> \<lparr>li_item = 10, li_next = Some 2\<rparr>, 2 \<mapsto> \<lparr>li_item = 20, li_next = None\<rparr>]\<rparr>"

lemma two_items_repr: "list_repr two_items [(1, 10), (2, 20)]"
  by (auto simp: list_repr_def two_items_def last_handle_def)

text \<open>Adding to a list appends: on a list that stands for the pairs \<open>xs\<close>, with handles
  older than the next allocation, \<open>singlylinkedlist_add\<close> returns (no null or dangling
  pointer is followed); when the node can be allocated the result is its handle and the
  list stands for \<open>xs\<close> with the new pair at the end, with one more live block; when it
  cannot, the result is null and the list is unchanged.\<close>

theorem singlylinkedlist_add_appends:
  assumes "list_repr l xs" and "\<forall>b \<in> handles xs. b < mem_calls h"
  shows "\<exists>l'. singlylinkedlist_add (Some l) (Some v) h =
            Some (if granted h then Some (mem_calls h) else None, Some l', after_request 1 h) \<and>
          list_repr l' (if granted h then xs @ [(mem_calls h, v)] else xs)"
  by (rule add_repr [OF assms(1)]) (use assms(2) in blast)

theorem singlylinkedlist_add_appends_witness:
  "\<exists>l'. singlylinkedlist_add (Some two_items) (Some 30) (heap0\<lparr>mem_calls := 3\<rparr>) =
          Some (Some 3, Some l', after_request 1 (heap0\<lparr>mem_calls := 3\<rparr>)) \<and>
        list_repr l' [(1, 10), (2, 20), (3, 30)]"
  using singlylinkedlist_add_appends [OF two_items_repr, of "heap0\<lparr>mem_calls := 3\<rparr>" 30]
  by (simp add: heap0_def granted_def)

text \<open>Removing a handle takes out exactly its pair, keeps the order of the others, keeps
  head and tail right, frees one node and reports success; a handle that is not in the list
  is reported and nothing changes. The search returns on every list that stands for some
  pairs.\<close>

theorem singlylinkedlist_remove_filters:
  assumes "list_repr l xs"
  shows "\<exists>l'. singlylinkedlist_remove (Some l) (Some a) h =
            Some (if a \<in> handles xs then Success else Failure, Some l',
                  if a \<in> handles xs then free_struct h else h) \<and>
          list_repr l' (filter (\<lambda>p. fst p \<noteq> a) xs)"
  by (rule remove_repr [OF assms])

theorem singlylinkedlist_remove_filters_witness:
  "\<exists>l'. singlylinkedlist_remove (Some two_items) (Some 2) heap0 =
          Some (Success, Some l', free_struct heap0) \<and> list_repr l' [(1, 10)]"
  using singlylinkedlist_remove_filters [OF two_items_repr, of 2 heap0] by simp

text \<open>\<open>singlylinkedlist_remove_if\<close> walks the list from the head, removes the items whose
  condition asks for it and stops after the item whose condition does not ask to continue;
  what follows that item stays. It frees one node per removed item.\<close>

theorem singlylinkedlist_remove_if_spec:
  assumes "list_repr l xs"
  shows "\<exists>l' h'. singlylinkedlist_remove_if (Some l) (Some f) h = Some (Success, Some l', h') \<and>
           list_repr l' (remove_if_spec f xs) \<and>
           mem_live h' = mem_live h - int (length xs - length (remove_if_spec f xs))"
  using remove_if_loop_repr [of l "[]" xs f h] assms
  by (auto simp: singlylinkedlist_remove_if_def list_repr_def)

theorem singlylinkedlist_remove_if_spec_witness:
  "\<exists>l' h'. singlylinkedlist_remove_if (Some two_items) (Some (\<lambda>v. (v < 15, True))) heap0 =
             Some (Success, Some l', h') \<and>
           list_repr l' [(2, 20)] \<and> mem_live h' = -1"
  using singlylinkedlist_remove_if_spec [OF two_items_repr, of "\<lambda>v. (v < 15, True)" heap0]
  by (simp add: heap0_def)

text \<open>Destroying a list frees its nodes and the list itself.\<close>

lemma singlylinkedlist_destroy_frees:
  "list_repr l xs \<Longrightarrow>
     \<exists>h'. singlylinkedlist_destroy (Some l) h = Some h' \<and> mem_live h' = mem_live h - int (length xs) - 1"
  using destroy_loop_repr [of "list_nodes l" xs h]
  by (auto simp: singlylinkedlist_destroy_def list_repr_def free_struct_def)

lemma singlylinkedlist_foreach_spec:
  "list_repr l xs \<Longrightarrow>
     singlylinkedlist_foreach (Some l) (Some f) s = Some (Success, foreach_spec f xs s)"
  by (simp add: singlylinkedlist_foreach_def list_repr_def foreach_loop_repr)

end
