(* ===== verification/CStrings.thy ===== *)
theory CStrings
  imports Prelude
begin

text \<open>
  The strings of \<open>src/strings.c\<close>: a structure that owns a block of characters with a
  terminator in it. The model keeps the block, terminator and slack included, and writes
  every \<open>malloc\<close>, \<open>realloc\<close>, \<open>memcpy\<close> and store of the code on it; the string is the
  block up to its first terminator (\<open>cstr\<close>). The two \<open>printf\<close>-like operations
  (\<open>STRING_construct_sprintf\<close>, \<open>STRING_sprintf\<close>) are not modelled: their result is the C
  library's formatting of a variable argument list.
\<close>

section \<open>Data\<close>

record STRING =
  str_s :: "char list"

definition str_val :: "STRING \<Rightarrow> char list" where
  "str_val x = cstr (str_s x)"

text \<open>The invariant: the block can be read as a string.\<close>

definition str_inv :: "STRING \<Rightarrow> bool" where
  "str_inv x = terminated (str_s x)"

definition malloc_chars :: "nat \<Rightarrow> heap \<Rightarrow> char list option \<times> heap" where
  "malloc_chars n h = malloc_block char_of_byte n h"

definition realloc_chars :: "char list \<Rightarrow> nat \<Rightarrow> heap \<Rightarrow> char list option \<times> heap" where
  "realloc_chars b n h = realloc_block char_of_byte (Some b) n h"

text \<open>The two requests every constructor makes: the structure, then the block of \<open>n\<close>
  characters; when the second is refused the structure is freed again.\<close>

definition alloc_STRING :: "nat \<Rightarrow> heap \<Rightarrow> char list option \<times> heap" where
  "alloc_STRING n h =
     (let (ok, h1) = malloc_struct h in
      if \<not> ok then (None, h1)
      else (case malloc_chars n h1 of
              (None, h2) \<Rightarrow> (None, free_struct h2)
            | (Some b, h2) \<Rightarrow> (Some b, h2)))"

section \<open>Constructors\<close>

definition STRING_new :: "heap \<Rightarrow> STRING option \<times> heap" where
  "STRING_new h =
     (case alloc_STRING 1 h of
        (None, h1) \<Rightarrow> (None, h1)
      | (Some b, h1) \<Rightarrow> (Some \<lparr>str_s = b[0 := NUL]\<rparr>, h1))"

definition STRING_clone :: "STRING option \<Rightarrow> heap \<Rightarrow> STRING option \<times> heap" where
  "STRING_clone handle h =
     (case handle of
        None \<Rightarrow> (None, h)
      | Some source \<Rightarrow>
          (let sourceLen = strlen (str_s source) in
           case alloc_STRING (sourceLen + 1) h of
             (None, h1) \<Rightarrow> (None, h1)
           | (Some b, h1) \<Rightarrow> (Some \<lparr>str_s = memcpy_at b 0 (str_s source) (sourceLen + 1)\<rparr>, h1)))"

definition STRING_construct :: "char list option \<Rightarrow> heap \<Rightarrow> STRING option \<times> heap" where
  "STRING_construct psz h =
     (case psz of
        None \<Rightarrow> (None, h)
      | Some s \<Rightarrow>
          (let nLen = strlen s + 1 in
           case alloc_STRING nLen h of
             (None, h1) \<Rightarrow> (None, h1)
           | (Some b, h1) \<Rightarrow> (Some \<lparr>str_s = memcpy_at b 0 s nLen\<rparr>, h1)))"

definition STRING_new_with_memory :: "char list option \<Rightarrow> heap \<Rightarrow> STRING option \<times> heap" where
  "STRING_new_with_memory memory h =
     (case memory of
        None \<Rightarrow> (None, h)
      | Some m \<Rightarrow>
          (let (ok, h1) = malloc_struct h in (if ok then Some \<lparr>str_s = m\<rparr> else None, h1)))"

definition STRING_new_quoted :: "char list option \<Rightarrow> heap \<Rightarrow> STRING option \<times> heap" where
  "STRING_new_quoted source h =
     (case source of
        None \<Rightarrow> (None, h)
      | Some s \<Rightarrow>
          (let sourceLength = strlen s in
           case alloc_STRING (sourceLength + 3) h of
             (None, h1) \<Rightarrow> (None, h1)
           | (Some b, h1) \<Rightarrow>
               (let b1 = b[0 := CHR 0x22];
                    b2 = memcpy_at b1 1 s sourceLength;
                    b3 = b2[sourceLength + 1 := CHR 0x22];
                    b4 = b3[sourceLength + 2 := NUL] in
                (Some \<lparr>str_s = b4\<rparr>, h1))))"

subsection \<open>JSON\<close>

text \<open>The first pass of \<open>STRING_new_JSON\<close>: stop at a byte of 128 or more, count the control
  characters and the characters to be escaped. The result is null when it stopped early.\<close>

fun STRING_new_JSON_count :: "char list \<Rightarrow> nat \<Rightarrow> nat \<Rightarrow> (nat \<times> nat) option" where
  "STRING_new_JSON_count [] nControl nEscape = Some (nControl, nEscape)"
| "STRING_new_JSON_count (c # cs) nControl nEscape =
     (if 128 \<le> byte_of_char c then None
      else if byte_of_char c \<le> 0x1F then STRING_new_JSON_count cs (nControl + 1) nEscape
      else if c = CHR 0x22 \<or> c = CHR 0x5C \<or> c = CHR ''/''
        then STRING_new_JSON_count cs nControl (nEscape + 1)
      else STRING_new_JSON_count cs nControl nEscape)"

definition hexToASCII :: "char list" where
  "hexToASCII = ''0123456789ABCDEF''"

text \<open>What the second pass writes for one character.\<close>

definition json_char :: "char \<Rightarrow> char list" where
  "json_char c =
     (let b = byte_of_char c in
      if b \<le> 0x1F then
        [CHR 0x5C, CHR ''u'', CHR ''0'', CHR ''0'',
         hexToASCII ! unat (drop_bit 4 (b AND 0xF0)), hexToASCII ! unat (b AND 0x0F)]
      else if c = CHR 0x22 then [CHR 0x5C, CHR 0x22]
      else if c = CHR 0x5C then [CHR 0x5C, CHR 0x5C]
      else if c = CHR ''/'' then [CHR 0x5C, CHR ''/'']
      else [c])"

text \<open>The second pass: the stores at \<open>pos++\<close>, one character of the source after the other.\<close>

fun STRING_new_JSON_fill :: "char list \<Rightarrow> nat \<times> char list \<Rightarrow> nat \<times> char list" where
  "STRING_new_JSON_fill [] st = st"
| "STRING_new_JSON_fill (c # cs) st = STRING_new_JSON_fill cs (put (json_char c) st)"

definition STRING_new_JSON :: "char list option \<Rightarrow> heap \<Rightarrow> STRING option \<times> heap" where
  "STRING_new_JSON source h =
     (case source of
        None \<Rightarrow> (None, h)
      | Some s \<Rightarrow>
          (let vlen = strlen s; v = take vlen s in
           case STRING_new_JSON_count v 0 0 of
             None \<Rightarrow> (None, h)
           | Some (nControl, nEscape) \<Rightarrow>
               (let nAllocation = vlen + 5 * nControl + nEscape + 3 in
                case alloc_STRING nAllocation h of
                  (None, h1) \<Rightarrow> (None, h1)
                | (Some b, h1) \<Rightarrow>
                    (let st1 = put [CHR 0x22] (0, b);
                         st2 = STRING_new_JSON_fill v st1;
                         st3 = put [CHR 0x22] st2 in
                     (Some \<lparr>str_s = (snd st3)[fst st3 := NUL]\<rparr>, h1)))))"

section \<open>Modifiers\<close>

definition STRING_concat :: "STRING option \<Rightarrow> char list option \<Rightarrow> heap \<Rightarrow> rc \<times> STRING option \<times> heap" where
  "STRING_concat handle s2 h =
     (case (handle, s2) of
        (Some s1, Some t) \<Rightarrow>
          (let s1Length = strlen (str_s s1); s2Length = strlen t in
           case realloc_chars (str_s s1) (s1Length + s2Length + 1) h of
             (None, h1) \<Rightarrow> (Failure, handle, h1)
           | (Some temp, h1) \<Rightarrow>
               (Success, Some \<lparr>str_s = memcpy_at temp s1Length t (s2Length + 1)\<rparr>, h1))
      | _ \<Rightarrow> (Failure, handle, h))"

definition STRING_concat_with_STRING ::
  "STRING option \<Rightarrow> STRING option \<Rightarrow> heap \<Rightarrow> rc \<times> STRING option \<times> heap" where
  "STRING_concat_with_STRING s1 s2 h =
     (case (s1, s2) of
        (Some dest, Some src) \<Rightarrow>
          (let s1Length = strlen (str_s dest); s2Length = strlen (str_s src) in
           case realloc_chars (str_s dest) (s1Length + s2Length + 1) h of
             (None, h1) \<Rightarrow> (Failure, s1, h1)
           | (Some temp, h1) \<Rightarrow>
               (Success, Some \<lparr>str_s = memcpy_at temp s1Length (str_s src) (s2Length + 1)\<rparr>, h1))
      | _ \<Rightarrow> (Failure, s1, h))"

text \<open>\<open>STRING_copy\<close> gets a pointer: either the string's own block (\<open>None\<close>, nothing to do) or
  another one. The null pointer is the outer \<open>None\<close>.\<close>

definition STRING_copy ::
  "STRING option \<Rightarrow> char list option option \<Rightarrow> heap \<Rightarrow> rc \<times> STRING option \<times> heap" where
  "STRING_copy handle s2 h =
     (case (handle, s2) of
        (Some s1, Some own_or_other) \<Rightarrow>
          (case own_or_other of
             Some t \<Rightarrow>
               (let s2Length = strlen t in
                case realloc_chars (str_s s1) (s2Length + 1) h of
                  (None, h1) \<Rightarrow> (Failure, handle, h1)
                | (Some temp, h1) \<Rightarrow> (Success, Some \<lparr>str_s = memcpy_at temp 0 t (s2Length + 1)\<rparr>, h1))
           | None \<Rightarrow> (Success, handle, h))
      | _ \<Rightarrow> (Failure, handle, h))"

definition STRING_copy_n ::
  "STRING option \<Rightarrow> char list option \<Rightarrow> nat \<Rightarrow> heap \<Rightarrow> rc \<times> STRING option \<times> heap" where
  "STRING_copy_n handle s2 n h =
     (case (handle, s2) of
        (Some s1, Some t) \<Rightarrow>
          (let s2Length = (if strlen t > n then n else strlen t) in
           case realloc_chars (str_s s1) (s2Length + 1) h of
             (None, h1) \<Rightarrow> (Failure, handle, h1)
           | (Some temp, h1) \<Rightarrow>
               (Success, Some \<lparr>str_s = (memcpy_at temp 0 t s2Length)[s2Length := NUL]\<rparr>, h1))
      | _ \<Rightarrow> (Failure, handle, h))"

definition STRING_quote :: "STRING option \<Rightarrow> heap \<Rightarrow> rc \<times> STRING option \<times> heap" where
  "STRING_quote handle h =
     (case handle of
        None \<Rightarrow> (Failure, handle, h)
      | Some s1 \<Rightarrow>
          (let s1Length = strlen (str_s s1) in
           case realloc_chars (str_s s1) (s1Length + 2 + 1) h of
             (None, h1) \<Rightarrow> (Failure, handle, h1)
           | (Some temp, h1) \<Rightarrow>
               (let b1 = memcpy_at temp 1 temp s1Length;
                    b2 = b1[0 := CHR 0x22];
                    b3 = b2[s1Length + 1 := CHR 0x22];
                    b4 = b3[s1Length + 2 := NUL] in
                (Success, Some \<lparr>str_s = b4\<rparr>, h1))))"

definition STRING_empty :: "STRING option \<Rightarrow> heap \<Rightarrow> rc \<times> STRING option \<times> heap" where
  "STRING_empty handle h =
     (case handle of
        None \<Rightarrow> (Failure, handle, h)
      | Some s1 \<Rightarrow>
          (case realloc_chars (str_s s1) 1 h of
             (None, h1) \<Rightarrow> (Failure, handle, h1)
           | (Some temp, h1) \<Rightarrow> (Success, Some \<lparr>str_s = temp[0 := NUL]\<rparr>, h1)))"

definition STRING_delete :: "STRING option \<Rightarrow> heap \<Rightarrow> heap" where
  "STRING_delete handle h =
     (case handle of None \<Rightarrow> h | Some x \<Rightarrow> free_struct (c_free (Some (str_s x)) h))"

definition STRING_c_str :: "STRING option \<Rightarrow> char list option" where
  "STRING_c_str handle = map_option str_s handle"

definition STRING_length :: "STRING option \<Rightarrow> nat" where
  "STRING_length handle = (case handle of None \<Rightarrow> 0 | Some x \<Rightarrow> strlen (str_s x))"

definition STRING_construct_n :: "char list option \<Rightarrow> nat \<Rightarrow> heap \<Rightarrow> STRING option \<times> heap" where
  "STRING_construct_n psz n h =
     (case psz of
        None \<Rightarrow> (None, h)
      | Some s \<Rightarrow>
          (let len = strlen s in
           if n > len then (None, h)
           else
             (case alloc_STRING (len + 1) h of
                (None, h1) \<Rightarrow> (None, h1)
              | (Some b, h1) \<Rightarrow> (Some \<lparr>str_s = (memcpy_at b 0 s n)[n := NUL]\<rparr>, h1))))"

text \<open>\<open>strcmp\<close> compares the bytes of the two strings as unsigned values; only the sign of its
  result is specified.\<close>

fun strcmp_sign :: "char list \<Rightarrow> char list \<Rightarrow> int" where
  "strcmp_sign [] [] = 0"
| "strcmp_sign [] (d # ds) = -1"
| "strcmp_sign (c # cs) [] = 1"
| "strcmp_sign (c # cs) (d # ds) =
     (if c = d then strcmp_sign cs ds else if byte_of_char c < byte_of_char d then -1 else 1)"

definition STRING_compare :: "STRING option \<Rightarrow> STRING option \<Rightarrow> int" where
  "STRING_compare s1 s2 =
     (case (s1, s2) of
        (None, None) \<Rightarrow> 0
      | (None, Some _) \<Rightarrow> 1
      | (Some _, None) \<Rightarrow> -1
      | (Some x, Some y) \<Rightarrow> strcmp_sign (cstr (str_s x)) (cstr (str_s y)))"

definition STRING_from_byte_array :: "byte list option \<Rightarrow> nat \<Rightarrow> heap \<Rightarrow> STRING option \<times> heap" where
  "STRING_from_byte_array source sz h =
     (if source = None \<and> sz > 0 then (None, h)
      else
        (case alloc_STRING (sz + 1) h of
           (None, h1) \<Rightarrow> (None, h1)
         | (Some b, h1) \<Rightarrow>
             (let src = map char_of_byte (case source of None \<Rightarrow> [] | Some s \<Rightarrow> s) in
              (Some \<lparr>str_s = (memcpy_at b 0 src sz)[sz := NUL]\<rparr>, h1))))"

text \<open>The loop of \<open>STRING_replace\<close> over the \<open>length\<close> first characters.\<close>

function STRING_replace_loop :: "nat \<Rightarrow> nat \<Rightarrow> char \<Rightarrow> char \<Rightarrow> char list \<Rightarrow> char list" where
  "STRING_replace_loop index len target replace b =
     (if index < len
      then STRING_replace_loop (Suc index) len target replace
             (if b ! index = target then b[index := replace] else b)
      else b)"
  by pat_completeness auto
termination by (relation "measure (\<lambda>(i, n, _). n - i)") auto

declare STRING_replace_loop.simps [simp del]

definition STRING_replace :: "STRING option \<Rightarrow> char \<Rightarrow> char \<Rightarrow> rc \<times> STRING option" where
  "STRING_replace handle target replace =
     (case handle of
        None \<Rightarrow> (Failure, handle)
      | Some x \<Rightarrow>
          (if target = replace then (Success, handle)
           else (Success,
                 Some \<lparr>str_s = STRING_replace_loop 0 (strlen (str_s x)) target replace (str_s x)\<rparr>)))"

section \<open>Lemmas\<close>

lemmas string_defs =
  STRING_new_def STRING_clone_def STRING_construct_def STRING_new_with_memory_def
  STRING_new_quoted_def STRING_concat_def STRING_concat_with_STRING_def STRING_copy_def
  STRING_copy_n_def STRING_quote_def STRING_empty_def STRING_construct_n_def
  STRING_from_byte_array_def

lemma alloc_STRING_Some:
  "alloc_STRING n h = (Some b, h') \<Longrightarrow> length b = n \<and> mem_live h' = mem_live h + 2"
  by (auto simp: alloc_STRING_def malloc_chars_def mem_defs split: if_splits)

lemma alloc_STRING_None: "alloc_STRING n h = (None, h') \<Longrightarrow> mem_live h' = mem_live h"
  by (auto simp: alloc_STRING_def malloc_chars_def mem_defs split: if_splits)

lemma realloc_chars_Some:
  "realloc_chars b n h = (Some d, h') \<Longrightarrow> length d = n \<and> mem_live h' = mem_live h"
  by (auto simp: realloc_chars_def mem_defs split: if_splits)

lemma realloc_chars_None: "realloc_chars b n h = (None, h') \<Longrightarrow> mem_live h' = mem_live h"
  by (auto simp: realloc_chars_def mem_defs split: if_splits)

lemma realloc_chars_prefix:
  "realloc_chars b n h = (Some d, h') \<Longrightarrow> m \<le> n \<Longrightarrow> m \<le> length b \<Longrightarrow> take m d = take m b"
  by (auto simp: realloc_chars_def mem_defs split: if_splits)

lemmas string_alloc = alloc_STRING_Some alloc_STRING_None realloc_chars_Some realloc_chars_None

lemma take_memcpy_end:
  "length b = n \<Longrightarrow> off + m = n \<Longrightarrow> memcpy_at b off s m = take off b @ take m s"
  by (simp add: memcpy_at_def)

lemma replicate_block: "length b = n \<Longrightarrow> memcpy_at b 0 s n = take n s"
  by (simp add: memcpy_at_def)

lemma str_val_simps [simp]: "c_string s \<Longrightarrow> str_val \<lparr>str_s = s @ NUL # r\<rparr> = s"
  "str_inv \<lparr>str_s = s @ NUL # r\<rparr>"
  by (simp_all add: str_val_def str_inv_def)

text \<open>The values of the strings the operations build.\<close>

lemma concat_block:
  assumes "terminated b" "terminated t" "realloc_chars b (strlen b + strlen t + 1) h = (Some d, h')"
  shows "memcpy_at d (strlen b) t (strlen t + 1) = cstr b @ cstr t @ [NUL]"
proof -
  have "length d = strlen b + strlen t + 1" using realloc_chars_Some [OF assms(3)] by simp
  moreover have "take (strlen b) d = cstr b"
    using realloc_chars_prefix [OF assms(3), of "strlen b"] strlen_le [of b] by simp
  ultimately show ?thesis
    using assms(2) by (simp add: memcpy_at_def)
qed

lemma store_in_append: "length xs = n \<Longrightarrow> (xs @ y # ys)[n := z] = xs @ z # ys"
  by (simp add: list_update_append)

lemma terminate_block:
  "length b = Suc n \<Longrightarrow> n \<le> length s \<Longrightarrow> (memcpy_at b 0 s n)[n := NUL] = take n s @ [NUL]"
proof -
  assume len: "length b = Suc n" "n \<le> length s"
  then obtain y where "drop n b = [y]" by (cases "drop n b") (auto dest: arg_cong [of _ _ length])
  with len show ?thesis by (simp add: memcpy_at_def list_update_append)
qed

lemma quoted_block:
  assumes "length b = n + 3" and "n \<le> length s"
  shows "(((memcpy_at (b[0 := q]) 1 s n)[n + 1 := q])[n + 2 := NUL]) = q # take n s @ [q, NUL]"
proof -
  obtain x rest where b: "b = x # rest" "length rest = n + 2" using assms(1) by (cases b) auto
  obtain y z where d: "drop n rest = [y, z]"
    using b(2) by (cases "drop n rest"; cases "tl (drop n rest)") (auto simp: drop_eq_Nil dest: arg_cong [of _ _ length])
  show ?thesis using assms b d by (simp add: memcpy_at_def list_update_append)
qed

lemma STRING_replace_loop_eq:
  "n \<le> length b \<Longrightarrow>
     STRING_replace_loop i n t r b =
       take i b @ map (\<lambda>c. if c = t then r else c) (drop i (take n b)) @ drop (max i n) b"
proof (induction i n t r b rule: STRING_replace_loop.induct)
  case (1 i n t r b)
  show ?case
  proof (cases "i < n")
    case True
    have d: "drop i (take n b) = b ! i # drop (Suc i) (take n b)"
      using True 1 by (simp add: Cons_nth_drop_Suc [symmetric])
    show ?thesis
      using True 1 d
      by (subst STRING_replace_loop.simps)
        (auto simp: take_Suc_conv_app_nth take_update_swap drop_update_cancel list_update_beyond)
  next
    case False
    then show ?thesis by (subst STRING_replace_loop.simps) (simp add: max_def)
  qed
qed

lemma json_count_total:
  "STRING_new_JSON_count cs a b = Some (c, e) \<Longrightarrow>
     length cs + 5 * c + e = length (concat (map json_char cs)) + 5 * a + b"
  by (induction cs a b rule: STRING_new_JSON_count.induct)
    (auto simp: json_char_def Let_def split: if_splits)

lemma json_count_ascii:
  "(STRING_new_JSON_count cs a b \<noteq> None) \<longleftrightarrow> (\<forall>c \<in> set cs. byte_of_char c < 128)"
  by (induction cs a b rule: STRING_new_JSON_count.induct) (auto simp: not_le)

lemma json_fill_at:
  "length done = p \<Longrightarrow> length (concat (map json_char cs)) \<le> length rest \<Longrightarrow>
     STRING_new_JSON_fill cs (p, done @ rest) =
       (p + length (concat (map json_char cs)),
        (done @ concat (map json_char cs)) @ drop (length (concat (map json_char cs))) rest)"
proof (induction cs arbitrary: p "done" rest)
  case Nil
  then show ?case by simp
next
  case (Cons c cs)
  let ?rest = "drop (length (json_char c)) rest"
  have "STRING_new_JSON_fill cs (p + length (json_char c), (done @ json_char c) @ ?rest) =
      (p + length (json_char c) + length (concat (map json_char cs)),
       ((done @ json_char c) @ concat (map json_char cs)) @ drop (length (concat (map json_char cs))) ?rest)"
    using Cons.prems by (intro Cons.IH) simp_all
  with Cons.prems show ?case by (simp add: put_at ac_simps)
qed

lemma json_char_c_string: "c \<noteq> NUL \<Longrightarrow> c_string (json_char c)"
proof -
  assume c: "c \<noteq> NUL"
  have "length hexToASCII = 16" and "NUL \<notin> set hexToASCII" by (simp_all add: hexToASCII_def)
  have "unat (drop_bit 4 (b AND 0xF0)) < 16" and "unat (b AND 0x0F) < 16" for b :: byte
    using unat_and_le [of "drop_bit 4 b" 15] unat_and_le [of b 15] by simp_all
  then have "hexToASCII ! unat (drop_bit 4 (b AND 0xF0)) \<in> set hexToASCII"
    "hexToASCII ! unat (b AND 0x0F) \<in> set hexToASCII" for b :: byte
    using \<open>length hexToASCII = 16\<close> by simp_all
  with \<open>NUL \<notin> set hexToASCII\<close> c show ?thesis by (auto simp: json_char_def Let_def c_string_def)
qed

section \<open>The life of a string\<close>

text \<open>The pointers passed in are null or readable as strings; a string handed to
  \<open>STRING_new_with_memory\<close> is a block the caller owned.\<close>

definition ptr_ok :: "char list option \<Rightarrow> bool" where
  "ptr_ok p = (case p of None \<Rightarrow> True | Some b \<Rightarrow> terminated b)"

text \<open>\<open>made h0 r h\<close>: a constructor started from allocator \<open>h0\<close> with \<open>k\<close> blocks of its own
  handed over; on success the string owns two blocks, on failure nothing new is live.\<close>

definition made :: "int \<Rightarrow> heap \<Rightarrow> STRING option \<Rightarrow> heap \<Rightarrow> bool" where
  "made k h0 r h \<longleftrightarrow>
     (case r of None \<Rightarrow> mem_live h = mem_live h0
      | Some x \<Rightarrow> str_inv x \<and> mem_live h = mem_live h0 + 2 - k)"

lemma memcpy_terminated:
  "terminated t \<Longrightarrow> length b = Suc (strlen t) \<Longrightarrow> memcpy_at b 0 t (Suc (strlen t)) = cstr t @ [NUL]"
  by (simp add: memcpy_at_def)

lemma terminated_store [simp]: "n < length b \<Longrightarrow> terminated (b[n := NUL])"
  by (simp add: terminated_def set_update_memI)

lemma terminated_copy [simp]:
  "length b = Suc n \<Longrightarrow> n \<le> length s \<Longrightarrow> terminated ((memcpy_at b 0 s n)[n := NUL])"
  by simp

lemma le_strlen_le: "n \<le> strlen s \<Longrightarrow> n \<le> length s"
  using strlen_le [of s] by simp

lemma terminated_copy_part [simp]:
  "length b = Suc m \<Longrightarrow> n \<le> m \<Longrightarrow> n \<le> length s \<Longrightarrow> terminated ((memcpy_at b 0 s n)[n := NUL])"
  by simp

lemma STRING_new_made: "STRING_new h0 = (r, h) \<Longrightarrow> made 0 h0 r h"
  by (auto simp: STRING_new_def made_def str_inv_def dest!: string_alloc
      split: prod.splits option.splits)

lemma STRING_construct_made: "ptr_ok p \<Longrightarrow> STRING_construct p h0 = (r, h) \<Longrightarrow> made 0 h0 r h"
  by (auto simp: STRING_construct_def made_def ptr_ok_def memcpy_terminated str_inv_def Let_def
      dest!: string_alloc split: prod.splits option.splits)

lemma STRING_clone_made: "(\<And>x. p = Some x \<Longrightarrow> str_inv x) \<Longrightarrow> STRING_clone p h0 = (r, h) \<Longrightarrow> made 0 h0 r h"
  by (auto simp: STRING_clone_def made_def memcpy_terminated str_inv_def Let_def
      dest!: string_alloc split: prod.splits option.splits)

lemma STRING_new_with_memory_made:
  "ptr_ok p \<Longrightarrow> STRING_new_with_memory p h0 = (r, h) \<Longrightarrow> made 1 h0 r h"
  by (auto simp: STRING_new_with_memory_def made_def ptr_ok_def str_inv_def Let_def mem_defs
      split: prod.splits option.splits if_splits)

lemma STRING_new_quoted_made: "ptr_ok p \<Longrightarrow> STRING_new_quoted p h0 = (r, h) \<Longrightarrow> made 0 h0 r h"
  by (auto simp: STRING_new_quoted_def made_def ptr_ok_def str_inv_def Let_def strlen_le
      quoted_block [simplified] dest!: string_alloc
      split: prod.splits option.splits)

lemma STRING_construct_n_made: "ptr_ok p \<Longrightarrow> STRING_construct_n p n h0 = (r, h) \<Longrightarrow> made 0 h0 r h"
  by (auto simp: STRING_construct_n_def made_def ptr_ok_def str_inv_def Let_def not_less le_strlen_le
      dest!: string_alloc split: prod.splits option.splits if_splits)

lemma STRING_from_byte_array_made:
  "(case p of None \<Rightarrow> True | Some s \<Rightarrow> n \<le> length s) \<Longrightarrow> STRING_from_byte_array p n h0 = (r, h) \<Longrightarrow> made 0 h0 r h"
  by (auto simp: STRING_from_byte_array_def made_def str_inv_def Let_def dest!: string_alloc
      split: prod.splits option.splits if_splits)

text \<open>The modifiers: on success the value is as specified, on failure nothing changes, and the
  live blocks are the same either way.\<close>

definition modified :: "STRING \<Rightarrow> heap \<Rightarrow> char list \<Rightarrow> rc \<times> STRING option \<times> heap \<Rightarrow> bool" where
  "modified x h v res \<longleftrightarrow>
     (case res of (r, x', h') \<Rightarrow>
        mem_live h' = mem_live h \<and>
        (r = Failure \<longrightarrow> x' = Some x) \<and>
        (r = Success \<longrightarrow> (\<exists>y. x' = Some y \<and> str_inv y \<and> str_val y = v)))"

lemma cstr_append_terminator [simp]: "cstr (cstr b @ [NUL]) = cstr b"
  "cstr (cstr b @ cstr c @ [NUL]) = cstr b @ cstr c"
  using cstr_append_NUL [of "cstr b @ cstr c" "[]"] by simp_all

lemma STRING_concat_modified:
  "str_inv x \<Longrightarrow> terminated t \<Longrightarrow> modified x h (str_val x @ cstr t) (STRING_concat (Some x) (Some t) h)"
  using concat_block [of "str_s x" t]
  by (auto simp: STRING_concat_def modified_def str_inv_def str_val_def Let_def
      dest: string_alloc split: prod.splits option.splits)

lemma STRING_concat_with_STRING_modified:
  "str_inv x \<Longrightarrow> str_inv y \<Longrightarrow>
     modified x h (str_val x @ str_val y) (STRING_concat_with_STRING (Some x) (Some y) h)"
  using concat_block [of "str_s x" "str_s y"]
  by (auto simp: STRING_concat_with_STRING_def modified_def str_inv_def str_val_def Let_def
      dest: string_alloc split: prod.splits option.splits)

lemma STRING_copy_modified:
  "str_inv x \<Longrightarrow> (case t of None \<Rightarrow> True | Some b \<Rightarrow> terminated b) \<Longrightarrow>
     modified x h (case t of None \<Rightarrow> str_val x | Some b \<Rightarrow> cstr b) (STRING_copy (Some x) (Some t) h)"
  by (cases t) (auto simp: STRING_copy_def modified_def str_inv_def str_val_def Let_def
      memcpy_terminated dest: string_alloc split: prod.splits option.splits)

lemma cstr_take: "n \<le> strlen t \<Longrightarrow> take n t = take n (cstr t)"
  by (metis take_strlen min.absorb1 take_take)

lemma c_string_take [simp]: "c_string (take n (cstr t))"
  using c_string_cstr [of t] unfolding c_string_def by (meson in_set_takeD)

lemma copy_part_block:
  "length b = Suc n \<Longrightarrow> n \<le> strlen t \<Longrightarrow> (memcpy_at b 0 t n)[n := NUL] = take n (cstr t) @ [NUL]"
  using terminate_block [of b n t] le_strlen_le [of n t] cstr_take [of n t] by simp

lemma STRING_copy_n_modified:
  "modified x h (take n (cstr t)) (STRING_copy_n (Some x) (Some t) n h)"
proof (cases "strlen t > n")
  case True
  then show ?thesis
    by (auto simp: STRING_copy_n_def modified_def str_inv_def str_val_def copy_part_block Let_def
        dest: string_alloc split: prod.splits option.splits)
next
  case False
  then have "take n (cstr t) = take (strlen t) (cstr t)" by (simp add: strlen_def)
  with False show ?thesis
    by (auto simp: STRING_copy_n_def modified_def str_inv_def str_val_def copy_part_block Let_def
        dest: string_alloc split: prod.splits option.splits)
qed

lemma STRING_quote_modified:
  "str_inv x \<Longrightarrow>
     modified x h (CHR 0x22 # str_val x @ [CHR 0x22]) (STRING_quote (Some x) h)"
proof -
  assume inv: "str_inv x"
  let ?n = "strlen (str_s x)" and ?v = "cstr (str_s x)"
  have block: "((((memcpy_at d 1 d ?n)[0 := CHR 0x22])[?n + 1 := CHR 0x22])[?n + 2 := NUL]) =
      (CHR 0x22 # ?v @ [CHR 0x22]) @ [NUL]"
    if d: "realloc_chars (str_s x) (?n + 2 + 1) h = (Some d, h')" for d h'
  proof -
    have len: "length d = ?n + 3" using realloc_chars_Some [OF d] by simp
    have pre: "take ?n d = ?v"
      using realloc_chars_prefix [OF d, of ?n] strlen_le [of "str_s x"] by simp
    have "memcpy_at d 1 d ?n = hd d # ?v @ drop (?n + 1) d"
      using len pre by (cases d) (auto simp: memcpy_at_def)
    moreover obtain y z where "drop (?n + 1) d = [y, z]"
      using len by (cases "drop (?n + 1) d"; cases "tl (drop (?n + 1) d)")
        (auto simp: drop_eq_Nil dest: arg_cong [of _ _ length])
    moreover have "length ?v = ?n" by (simp add: strlen_def)
    ultimately show ?thesis by (simp add: list_update_append)
  qed
  have "cstr ((CHR 0x22 # ?v @ [CHR 0x22]) @ [NUL]) = CHR 0x22 # ?v @ [CHR 0x22]"
    by (rule cstr_append_NUL) simp
  with inv show ?thesis
    by (auto simp: STRING_quote_def modified_def str_inv_def str_val_def Let_def
        block [simplified] dest: string_alloc split: prod.splits option.splits)
qed

lemma STRING_empty_modified: "modified x h [] (STRING_empty (Some x) h)"
  by (auto simp: STRING_empty_def modified_def str_inv_def str_val_def length_Suc_conv
      dest!: string_alloc split: prod.splits option.splits)

lemma STRING_replace_value:
  assumes "str_inv x" and "t \<noteq> r"
  shows "STRING_replace (Some x) t r =
           (Success, Some \<lparr>str_s = map (\<lambda>c. if c = t then r else c) (str_val x) @ drop (strlen (str_s x)) (str_s x)\<rparr>)"
  using assms STRING_replace_loop_eq [OF strlen_le [of "str_s x"], of 0 t r]
  by (simp add: STRING_replace_def str_val_def)

lemma STRING_replace_inv:
  assumes "str_inv x" and "STRING_replace (Some x) t r = (q, Some y)"
  shows "str_inv y"
proof (cases "t = r")
  case True
  with assms show ?thesis by (simp add: STRING_replace_def)
next
  case False
  have "NUL \<in> set (drop (strlen (str_s x)) (str_s x))"
    using terminated_split [of "str_s x"] assms(1)
    by (metis append_eq_conv_conj in_set_conv_decomp str_inv_def strlen_def append_Nil)
  with STRING_replace_value [OF assms(1) False] assms(2) show ?thesis
    by (auto simp: str_inv_def terminated_def)
qed

text \<open>The states of a string: made by a constructor, then changed by the modifiers in any order.\<close>

inductive string_step :: "STRING \<times> heap \<Rightarrow> STRING \<times> heap \<Rightarrow> bool" where
  step_concat: "terminated t \<Longrightarrow> STRING_concat (Some x) (Some t) h = (r, Some y, h') \<Longrightarrow>
     string_step (x, h) (y, h')"
| step_concat_STRING: "str_inv z \<Longrightarrow> STRING_concat_with_STRING (Some x) (Some z) h = (r, Some y, h') \<Longrightarrow>
     string_step (x, h) (y, h')"
| step_copy: "(case t of None \<Rightarrow> True | Some b \<Rightarrow> terminated b) \<Longrightarrow>
     STRING_copy (Some x) (Some t) h = (r, Some y, h') \<Longrightarrow> string_step (x, h) (y, h')"
| step_copy_n: "STRING_copy_n (Some x) (Some t) n h = (r, Some y, h') \<Longrightarrow> string_step (x, h) (y, h')"
| step_quote: "STRING_quote (Some x) h = (r, Some y, h') \<Longrightarrow> string_step (x, h) (y, h')"
| step_empty: "STRING_empty (Some x) h = (r, Some y, h') \<Longrightarrow> string_step (x, h) (y, h')"
| step_replace: "STRING_replace (Some x) c d = (r, Some y) \<Longrightarrow> string_step (x, h) (y, h)"

inductive string_reach :: "heap \<Rightarrow> STRING \<times> heap \<Rightarrow> bool" for h0 where
  reach_new: "STRING_new h0 = (Some x, h) \<Longrightarrow> string_reach h0 (x, h)"
| reach_construct: "ptr_ok p \<Longrightarrow> STRING_construct p h0 = (Some x, h) \<Longrightarrow> string_reach h0 (x, h)"
| reach_construct_n: "ptr_ok p \<Longrightarrow> STRING_construct_n p n h0 = (Some x, h) \<Longrightarrow> string_reach h0 (x, h)"
| reach_quoted: "ptr_ok p \<Longrightarrow> STRING_new_quoted p h0 = (Some x, h) \<Longrightarrow> string_reach h0 (x, h)"
| reach_bytes: "(case p of None \<Rightarrow> True | Some s \<Rightarrow> n \<le> length s) \<Longrightarrow>
     STRING_from_byte_array p n h0 = (Some x, h) \<Longrightarrow> string_reach h0 (x, h)"
| reach_clone: "str_inv z \<Longrightarrow> STRING_clone (Some z) h0 = (Some x, h) \<Longrightarrow> string_reach h0 (x, h)"
| reach_step: "string_reach h0 s \<Longrightarrow> string_step s t \<Longrightarrow> string_reach h0 t"

lemma modified_inv:
  "modified x h v (r, Some y, h') \<Longrightarrow> str_inv x \<Longrightarrow> str_inv y \<and> mem_live h' = mem_live h"
  by (cases r) (auto simp: modified_def)

lemma string_step_good:
  "string_step s t \<Longrightarrow> str_inv (fst s) \<Longrightarrow> str_inv (fst t) \<and> mem_live (snd t) = mem_live (snd s)"
proof (induction rule: string_step.induct)
  case (step_concat t x h r y h')
  then show ?case using STRING_concat_modified [of x t h] modified_inv by auto
next
  case (step_concat_STRING z x h r y h')
  then show ?case using STRING_concat_with_STRING_modified [of x z h] modified_inv by auto
next
  case (step_copy t x h r y h')
  then show ?case using STRING_copy_modified [of x t h] modified_inv by auto
next
  case (step_copy_n x t n h r y h')
  then show ?case using STRING_copy_n_modified [of x h n t] modified_inv by auto
next
  case (step_quote x h r y h')
  then show ?case using STRING_quote_modified [of x h] modified_inv by auto
next
  case (step_empty x h r y h')
  then show ?case using STRING_empty_modified [of x h] modified_inv by auto
next
  case (step_replace x c d r y h)
  then show ?case using STRING_replace_inv [of x c d r y] by simp
qed

section \<open>Properties\<close>

definition str_ab :: STRING where
  "str_ab = \<lparr>str_s = [CHR ''a'', CHR ''b'', NUL, CHR ''x'']\<rparr>"

lemma str_ab_inv: "str_inv str_ab" and str_ab_val: "str_val str_ab = ''ab''"
  by (simp_all add: str_ab_def str_inv_def str_val_def)

text \<open>However a string was made and whatever operations it went through, under any
  pattern of allocation failures, its block holds a terminator (it can always be read as a
  C string) and exactly two blocks are live for it: no operation of \<open>strings.c\<close> leaks or
  frees twice.\<close>

theorem string_reachable_good:
  assumes "string_reach h0 (x, h)"
  shows "str_inv x \<and> mem_live h = mem_live h0 + 2"
proof -
  have "string_reach h0 s \<Longrightarrow> str_inv (fst s) \<and> mem_live (snd s) = mem_live h0 + 2" for s
  proof (induction rule: string_reach.induct)
    case (reach_new x h)
    then show ?case using STRING_new_made [of h0 "Some x" h] by (simp add: made_def)
  next
    case (reach_construct p x h)
    then show ?case using STRING_construct_made [of p h0 "Some x" h] by (simp add: made_def)
  next
    case (reach_construct_n p n x h)
    then show ?case using STRING_construct_n_made [of p n h0 "Some x" h] by (simp add: made_def)
  next
    case (reach_quoted p x h)
    then show ?case using STRING_new_quoted_made [of p h0 "Some x" h] by (simp add: made_def)
  next
    case (reach_bytes p n x h)
    then show ?case using STRING_from_byte_array_made [of n p h0 "Some x" h] by (simp add: made_def)
  next
    case (reach_clone z x h)
    then show ?case using STRING_clone_made [of "Some z" h0 "Some x" h] by (simp add: made_def)
  next
    case (reach_step s t)
    then show ?case using string_step_good [of s t] by simp
  qed
  with assms show ?thesis by fastforce
qed

theorem string_reachable_good_witness:
  "\<exists>x h. string_reach heap0 (x, h) \<and> str_inv x \<and> mem_live h = 0 + 2"
proof -
  have "\<exists>x h. STRING_new heap0 = (Some x, h)"
    by (simp add: STRING_new_def alloc_STRING_def malloc_chars_def mem_defs heap0_def)
  then obtain x h where r: "string_reach heap0 (x, h)" by (blast intro: reach_new)
  from string_reachable_good [OF r] r show ?thesis by (auto simp: heap0_def)
qed

text \<open>\<open>STRING_concat\<close> on a readable string and a readable C string either fails and changes
  nothing, or the string's value is the old value followed by the argument's, still
  readable; it succeeds exactly when the request is granted, and no block is gained or
  lost.\<close>

theorem STRING_concat_appends:
  assumes "str_inv x" and "terminated t"
  shows "case STRING_concat (Some x) (Some t) h of (r, x', h') \<Rightarrow>
           r = (if granted h then Success else Failure) \<and> mem_live h' = mem_live h \<and>
           (r = Failure \<longrightarrow> x' = Some x) \<and>
           (r = Success \<longrightarrow> (\<exists>y. x' = Some y \<and> str_inv y \<and> str_val y = str_val x @ cstr t))"
proof -
  have "fst (STRING_concat (Some x) (Some t) h) = (if granted h then Success else Failure)"
    by (simp add: STRING_concat_def realloc_chars_def realloc_block_def Let_def)
  then show ?thesis
    using STRING_concat_modified [OF assms, of h]
    by (auto simp: modified_def split: prod.splits)
qed

theorem STRING_concat_appends_witness:
  "\<exists>y h'. STRING_concat (Some str_ab) (Some [CHR ''c'', NUL]) heap0 = (Success, Some y, h') \<and> str_val y = ''abc''"
proof -
  have "terminated [CHR ''c'', NUL]" by simp
  from STRING_concat_appends [OF str_ab_inv this, of heap0] show ?thesis
    by (auto simp: str_ab_val granted_def heap0_def split: prod.splits)
qed

lemma STRING_new_JSON_result:
  assumes "terminated s"
  shows "if \<exists>c \<in> set (cstr s). 128 \<le> byte_of_char c
         then STRING_new_JSON (Some s) h = (None, h)
         else case STRING_new_JSON (Some s) h of
                (None, h') \<Rightarrow> mem_live h' = mem_live h \<and>
                  \<not> (mem_ok h (mem_calls h) \<and> mem_ok h (Suc (mem_calls h)))
              | (Some x, h') \<Rightarrow> mem_live h' = mem_live h + 2 \<and>
                  str_s x = CHR 0x22 # concat (map json_char (cstr s)) @ [CHR 0x22, NUL]"
proof (cases "STRING_new_JSON_count (cstr s) 0 0")
  case None
  then have "\<exists>c \<in> set (cstr s). 128 \<le> byte_of_char c"
    using json_count_ascii [of "cstr s" 0 0] by (auto simp: not_less)
  with None show ?thesis by (simp add: STRING_new_JSON_def Let_def)
next
  case (Some ne)
  obtain nc e where ne: "ne = (nc, e)" by fastforce
  let ?w = "concat (map json_char (cstr s))" and ?n = "strlen s + 5 * nc + e + 3"
  have no: "\<not> (\<exists>c \<in> set (cstr s). 128 \<le> byte_of_char c)"
    using json_count_ascii [of "cstr s" 0 0] Some by (auto simp: not_less)
  have len: "?n = length ?w + 3"
    using json_count_total [of "cstr s" 0 0 nc e] Some ne by (simp add: strlen_def)
  have fill: "(snd st3)[fst st3 := NUL] = CHR 0x22 # ?w @ [CHR 0x22, NUL]"
    if b: "length b = ?n"
      and st3: "st3 = put [CHR 0x22] (STRING_new_JSON_fill (cstr s) (put [CHR 0x22] (0, b)))" for b st3
  proof -
    have st1: "put [CHR 0x22] (0, b) = (1, [CHR 0x22] @ drop 1 b)"
      using b by (simp add: put_def memcpy_at_def)
    have "STRING_new_JSON_fill (cstr s) (put [CHR 0x22] (0, b)) =
        (1 + length ?w, ([CHR 0x22] @ ?w) @ drop (length ?w) (drop 1 b))"
      unfolding st1 by (rule json_fill_at) (use b len in auto)
    moreover obtain y z where yz: "drop (length ?w) (drop 1 b) = [y, z]"
      using b len by (cases "drop (length ?w) (drop 1 b)"; cases "tl (drop (length ?w) (drop 1 b))")
        (auto simp: drop_eq_Nil dest: arg_cong [of _ _ length])
    ultimately have "st3 = put [CHR 0x22] (1 + length ?w, ([CHR 0x22] @ ?w) @ [y, z])"
      using st3 by simp
    also have "\<dots> = (2 + length ?w, (([CHR 0x22] @ ?w) @ [CHR 0x22]) @ [z])"
      by (subst put_at) simp_all
    finally show ?thesis by (simp add: list_update_append)
  qed
  show ?thesis
  proof (cases "alloc_STRING ?n h")
    case (Pair p h')
    show ?thesis
    proof (cases p)
      case None
      with Pair no Some ne show ?thesis
        using alloc_STRING_None [of ?n h h']
        by (auto simp: STRING_new_JSON_def Let_def alloc_STRING_def malloc_chars_def mem_defs
            split: if_splits)
    next
      case (Some b)
      with Pair have "length b = ?n" "mem_live h' = mem_live h + 2" using alloc_STRING_Some by auto
      with Pair Some no \<open>STRING_new_JSON_count (cstr s) 0 0 = Some ne\<close> ne fill [OF _ refl, of b]
      show ?thesis by (simp add: STRING_new_JSON_def Let_def)
    qed
  qed
qed

text \<open>\<open>STRING_new_JSON\<close> of a readable C string fails without touching the allocator when a
  byte of the string is 128 or more; otherwise, when both requests are granted, the block it
  allocates is exactly as long as what it writes (the size computed in the first pass is
  what the second pass needs: no overrun and no slack), and it holds the quoted, escaped
  string and the terminator.\<close>

theorem STRING_new_JSON_exact:
  assumes "terminated s"
  shows "if \<exists>c \<in> set (cstr s). 128 \<le> byte_of_char c
         then STRING_new_JSON (Some s) h = (None, h)
         else case STRING_new_JSON (Some s) h of
                (None, h') \<Rightarrow> mem_live h' = mem_live h \<and>
                  \<not> (mem_ok h (mem_calls h) \<and> mem_ok h (Suc (mem_calls h)))
              | (Some x, h') \<Rightarrow> mem_live h' = mem_live h + 2 \<and>
                  str_s x = CHR 0x22 # concat (map json_char (cstr s)) @ [CHR 0x22, NUL]"
  by (rule STRING_new_JSON_result [OF assms])

theorem STRING_new_JSON_exact_witness:
  "\<exists>x h'. STRING_new_JSON (Some [CHR ''a'', CHR 0x0A, NUL]) heap0 = (Some x, h') \<and>
     str_s x = [CHR 0x22, CHR ''a'', CHR 0x5C, CHR ''u'', CHR ''0'', CHR ''0'', CHR ''0'', CHR ''A'', CHR 0x22, NUL]"
proof -
  have t: "terminated [CHR ''a'', CHR 0x0A, NUL]" by simp
  show ?thesis
    using STRING_new_JSON_exact [OF t, of heap0]
    by (auto simp: heap0_def byte_of_char_def json_char_def hexToASCII_def split: prod.splits option.splits)
qed

text \<open>\<open>STRING_replace\<close> with two different characters, neither of them the terminator,
  replaces every occurrence in the string and nothing else; with equal ones it leaves the
  string alone.\<close>

theorem STRING_replace_all:
  assumes "str_inv x" and "r \<noteq> NUL"
  shows "\<exists>y. STRING_replace (Some x) t r = (Success, Some y) \<and> str_inv y \<and>
           str_val y = map (\<lambda>c. if c = t then r else c) (str_val x)"
proof (cases "t = r")
  case True
  with assms show ?thesis by (auto simp: STRING_replace_def intro: map_idI [symmetric])
next
  case False
  let ?f = "\<lambda>c. if c = t then r else c"
  obtain rest where rest: "str_s x = str_val x @ NUL # rest"
    using terminated_split [of "str_s x"] assms(1) by (auto simp: str_inv_def str_val_def)
  have "drop (strlen (str_s x)) (str_s x) = NUL # rest"
    using rest by (metis append_eq_conv_conj str_val_def strlen_def)
  moreover have "c_string (map ?f (str_val x))"
    using c_string_cstr [of "str_s x"] assms(2) by (auto simp: str_val_def c_string_def)
  ultimately show ?thesis
    using STRING_replace_value [OF assms(1) False] by simp
qed

theorem STRING_replace_all_witness:
  "\<exists>y. STRING_replace (Some str_ab) CHR ''a'' CHR ''z'' = (Success, Some y) \<and> str_val y = ''zb''"
  using STRING_replace_all [OF str_ab_inv, of "CHR ''z''" "CHR ''a''"]
  by (auto simp: str_ab_val)

end
