(* ===== verification/Crt_Abstractions.thy ===== *)
theory Crt_Abstractions
  imports Prelude
begin

text \<open>
  The string helpers of \<open>src/crt_abstractions.c\<close>: the bounded copies \<open>strcpy_s\<close>, \<open>strncpy_s\<close> and
  \<open>strcat_s\<close>, the duplication \<open>mallocAndStrcpy_s\<close>, and the conversions of unsigned numbers to
  decimal. The floating point conversions and \<open>sprintf_s\<close> are not modelled.
\<close>

datatype crt_result = CRT_OK | EINVAL | ERANGE | STRUNCATE | ENOMEM

section \<open>Bounded copies\<close>

text \<open>\<open>dst[0] = '\0'\<close>, and the C library's \<open>strncpy (dst + off, src, n)\<close>, which fills with
  terminators.\<close>

definition terminate_at :: "char list \<Rightarrow> nat \<Rightarrow> char list" where
  "terminate_at dst i = dst[i := NUL]"

definition c_strncpy :: "char list \<Rightarrow> nat \<Rightarrow> char list \<Rightarrow> nat \<Rightarrow> char list" where
  "c_strncpy dst off src n = memcpy_at dst off (take n (cstr src) @ replicate (n - strlen src) NUL) n"

definition strcpy_s :: "char list option \<Rightarrow> nat \<Rightarrow> char list option \<Rightarrow> crt_result \<times> char list option" where
  "strcpy_s dst dstSizeInBytes src =
     (case dst of
        None \<Rightarrow> (EINVAL, dst)
      | Some d \<Rightarrow>
          (case src of
             None \<Rightarrow> (EINVAL, Some (terminate_at d 0))
           | Some s \<Rightarrow>
               (if dstSizeInBytes = 0 then (ERANGE, Some (terminate_at d 0))
                else
                  (let neededBuffer = strlen s in
                   if neededBuffer + 1 > dstSizeInBytes then (ERANGE, Some (terminate_at d 0))
                   else (CRT_OK, Some (memcpy_at d 0 s (neededBuffer + 1)))))))"

text \<open>\<open>_TRUNCATE\<close> is \<open>(size_t)-1\<close>.\<close>

definition strncpy_s ::
  "char list option \<Rightarrow> nat \<Rightarrow> char list option \<Rightarrow> nat \<Rightarrow> crt_result \<times> char list option" where
  "strncpy_s dst dstSizeInBytes src maxCount =
     (case dst of
        None \<Rightarrow> (EINVAL, dst)
      | Some d \<Rightarrow>
          (case src of
             None \<Rightarrow> (EINVAL, Some (terminate_at d 0))
           | Some s \<Rightarrow>
               (if dstSizeInBytes = 0 then (EINVAL, Some d)
                else
                  (let srcLength = strlen s in
                   if maxCount \<noteq> SIZE_MAX then
                     (let srcLength = (if srcLength > maxCount then maxCount else srcLength) in
                      if srcLength + 1 > dstSizeInBytes then (ERANGE, Some (terminate_at d 0))
                      else (CRT_OK, Some (terminate_at (c_strncpy d 0 s srcLength) srcLength)))
                   else
                     (let truncationFlag = (srcLength + 1 > dstSizeInBytes);
                          srcLength = (if truncationFlag then dstSizeInBytes - 1 else srcLength) in
                      (if truncationFlag then STRUNCATE else CRT_OK,
                       Some (terminate_at (c_strncpy d 0 s srcLength) srcLength)))))))"

text \<open>The scan for the end of \<open>dst\<close>, not beyond its size.\<close>

fun strcat_scan :: "char list \<Rightarrow> nat \<Rightarrow> nat" where
  "strcat_scan (c # d) (Suc n) = (if c \<noteq> NUL then Suc (strcat_scan d n) else 0)"
| "strcat_scan _ _ = 0"

definition strcat_s :: "char list option \<Rightarrow> nat \<Rightarrow> char list option \<Rightarrow> crt_result \<times> char list option" where
  "strcat_s dst dstSizeInBytes src =
     (case dst of
        None \<Rightarrow> (EINVAL, dst)
      | Some d \<Rightarrow>
          (case src of
             None \<Rightarrow> (EINVAL, Some (terminate_at d 0))
           | Some s \<Rightarrow>
               (if dstSizeInBytes = 0 then (ERANGE, Some (terminate_at d 0))
                else
                  (let dstStrLen = strcat_scan d dstSizeInBytes in
                   if dstSizeInBytes = dstStrLen then (EINVAL, Some d)
                   else
                     (let d1 = c_strncpy d dstStrLen s (dstSizeInBytes - dstStrLen) in
                      if d1 ! (dstSizeInBytes - 1) \<noteq> NUL then (ERANGE, Some (terminate_at d1 0))
                      else (CRT_OK, Some d1))))))"

text \<open>The destination is only written on success, so the result carries the new pointer.\<close>

definition mallocAndStrcpy_s :: "char list option \<Rightarrow> heap \<Rightarrow> crt_result \<times> char list option \<times> heap" where
  "mallocAndStrcpy_s source h =
     (case source of
        None \<Rightarrow> (EINVAL, None, h)
      | Some s \<Rightarrow>
          (let l = strlen s in
           case malloc_block char_of_byte (l + 1) h of
             (None, h1) \<Rightarrow> (ENOMEM, None, h1)
           | (Some temp, h1) \<Rightarrow>
               (case strcpy_s (Some temp) (l + 1) source of
                  (CRT_OK, d) \<Rightarrow> (CRT_OK, d, h1)
                | (e, d) \<Rightarrow> (e, None, c_free d h1))))"

section \<open>Decimal conversion\<close>

text \<open>The \<open>do\<close> loop: store a digit, divide, go on while there is a value and room. Division and
  remainder of an unsigned value do not wrap, so the loop runs on its number.\<close>

definition digit_char :: "nat \<Rightarrow> char" where
  "digit_char d = char_of (48 + d)"

function decimal_loop :: "nat \<Rightarrow> nat \<Rightarrow> nat \<times> char list \<Rightarrow> nat \<times> nat \<times> char list" where
  "decimal_loop destinationSize val st =
     (let st1 = put [digit_char (val mod 10)] st;
          val1 = val div 10 in
      if val1 > 0 \<and> fst st1 < destinationSize - 1 then decimal_loop destinationSize val1 st1
      else (val1, st1))"
  by pat_completeness auto
termination
  by (relation "measure (\<lambda>(n, v, st). v)") auto

declare decimal_loop.simps [simp del]

text \<open>The swaps that reverse the digits, for \<open>w\<close> from \<open>0\<close> to \<open>(pos - 1) >> 1\<close>.\<close>

definition swap_digits :: "nat \<Rightarrow> nat \<Rightarrow> char list \<Rightarrow> char list" where
  "swap_digits pos w d =
     (let temp = d ! w; d1 = d[w := d ! (pos - 1 - w)] in d1[pos - 1 - w := temp])"

definition reverse_digits :: "nat \<Rightarrow> char list \<Rightarrow> char list" where
  "reverse_digits pos d = fold (swap_digits pos) [0..<Suc (drop_bit 1 (pos - 1))] d"

definition decimal_to_string :: "char list option \<Rightarrow> nat \<Rightarrow> nat \<Rightarrow> rc \<times> char list option" where
  "decimal_to_string destination destinationSize val =
     (case destination of
        None \<Rightarrow> (Failure, destination)
      | Some d \<Rightarrow>
          (if destinationSize < 2 then (Failure, destination)
           else
             (let (val1, pos, d1) = decimal_loop destinationSize val (0, d) in
              if val1 = 0 then (Success, Some (reverse_digits pos (d1[pos := NUL])))
              else (Failure, Some d1))))"

text \<open>The two entry points differ in the width of the value only.\<close>

definition unsignedIntToString :: "char list option \<Rightarrow> nat \<Rightarrow> 32 word \<Rightarrow> rc \<times> char list option" where
  "unsignedIntToString destination destinationSize val = decimal_to_string destination destinationSize (unat val)"

definition size_tToString :: "char list option \<Rightarrow> nat \<Rightarrow> 64 word \<Rightarrow> rc \<times> char list option" where
  "size_tToString destination destinationSize val = decimal_to_string destination destinationSize (unat val)"

section \<open>Lemmas on the copies\<close>

lemma mallocAndStrcpy_s_result:
  assumes "terminated s"
  shows "mallocAndStrcpy_s (Some s) h =
     (if granted h then (CRT_OK, Some (cstr s @ [NUL]), after_request 1 h)
      else (ENOMEM, None, after_request 1 h))"
  using assms by (simp add: mallocAndStrcpy_s_def strcpy_s_def malloc_block_def memcpy_at_def Let_def)

section \<open>Lemmas on the conversion\<close>

text \<open>The digits, least significant first.\<close>

function decimal_digits :: "nat \<Rightarrow> char list" where
  "decimal_digits v = digit_char (v mod 10) # (if v div 10 > 0 then decimal_digits (v div 10) else [])"
  by pat_completeness auto
termination by (relation "measure id") auto

declare decimal_digits.simps [simp del]

lemma decimal_loop_digits:
  "fst st + length (decimal_digits v) < n \<Longrightarrow> n \<le> length (snd st) \<Longrightarrow>
     decimal_loop n v st = (0, put (decimal_digits v) st)"
proof (induction v arbitrary: st rule: less_induct)
  case (less v)
  show ?case
  proof (cases "v div 10 > 0")
    case True
    have d: "decimal_digits v = digit_char (v mod 10) # decimal_digits (v div 10)"
      using True by (subst decimal_digits.simps) simp
    have ne: "0 < length (decimal_digits (v div 10))" by (subst decimal_digits.simps) simp
    let ?st = "put [digit_char (v mod 10)] st"
    have "decimal_loop n (v div 10) ?st = (0, put (decimal_digits (v div 10)) ?st)"
      using less.prems True d by (intro less.IH) auto
    moreover have "fst ?st < n - 1" using less.prems(1) d ne by (simp del: length_greater_0_conv)
    ultimately show ?thesis
      using less.prems True d by (subst decimal_loop.simps) (simp add: Let_def put_append)
  next
    case False
    then show ?thesis
      by (subst decimal_loop.simps, subst decimal_digits.simps) (simp add: Let_def)
  qed
qed

lemma decimal_loop_too_long:
  "n \<le> fst st + length (decimal_digits v) \<Longrightarrow> fst st + 1 < n \<Longrightarrow>
     0 < fst (decimal_loop n v st)"
proof (induction v arbitrary: st rule: less_induct)
  case (less v)
  have v: "v div 10 > 0"
    using less.prems decimal_digits.simps [of v] by (cases "v div 10 > 0") auto
  have d: "decimal_digits v = digit_char (v mod 10) # decimal_digits (v div 10)"
    using v by (subst decimal_digits.simps) simp
  let ?st = "put [digit_char (v mod 10)] st"
  show ?case
  proof (cases "fst ?st < n - 1")
    case True
    have "0 < fst (decimal_loop n (v div 10) ?st)"
      using less.prems True d v by (intro less.IH) auto
    then show ?thesis using True v by (subst decimal_loop.simps) (simp add: Let_def)
  next
    case False
    then show ?thesis using v by (subst decimal_loop.simps) (simp add: Let_def)
  qed
qed

text \<open>After \<open>k\<close> swaps the first \<open>k\<close> and the last \<open>k\<close> cells have changed places.\<close>

lemma swaps_nth:
  assumes "pos \<le> length d" and "2 * k \<le> pos + 1"
  shows "length (fold (swap_digits pos) [0..<k] d) = length d \<and>
    (\<forall>i < length d. fold (swap_digits pos) [0..<k] d ! i =
       (if i < pos \<and> (i < k \<or> pos - 1 - i < k) then d ! (pos - 1 - i) else d ! i))"
  using assms(2)
proof (induction k)
  case (Suc k)
  let ?f = "fold (swap_digits pos) [0..<k] d"
  have len: "length ?f = length d" and nth: "\<And>i. i < length d \<Longrightarrow> ?f ! i =
      (if i < pos \<and> (i < k \<or> pos - 1 - i < k) then d ! (pos - 1 - i) else d ! i)"
    using Suc by auto
  have k: "k < pos" "k \<le> pos - 1 - k" using Suc.prems by auto
  have at: "?f ! k = d ! k" "?f ! (pos - 1 - k) = d ! (pos - 1 - k)"
    using nth [of k] nth [of "pos - 1 - k"] k assms(1) by auto
  have "fold (swap_digits pos) [0..<Suc k] d = ?f[k := d ! (pos - 1 - k), pos - 1 - k := d ! k]"
    using at by (simp add: swap_digits_def Let_def)
  then show ?case
    using len nth k assms(1) by (auto simp: nth_list_update)
qed simp

lemma reverse_digits_rev:
  assumes "0 < pos" and "pos \<le> length d"
  shows "reverse_digits pos d = rev (take pos d) @ drop pos d"
proof (rule nth_equalityI)
  define k where "k = Suc (drop_bit 1 (pos - 1))"
  have k: "k = Suc ((pos - 1) div 2)" by (simp add: k_def drop_bit_eq_div)
  have "2 * k \<le> pos + 1" unfolding k using assms(1) by presburger
  note swaps = swaps_nth [OF assms(2) this]
  have rev: "reverse_digits pos d = fold (swap_digits pos) [0..<k] d"
    by (simp only: reverse_digits_def k_def)
  show len: "length (reverse_digits pos d) = length (rev (take pos d) @ drop pos d)"
    unfolding rev using conjunct1 [OF swaps] assms(2) by simp
  fix i assume "i < length (reverse_digits pos d)"
  then have i: "i < length d" unfolding rev using conjunct1 [OF swaps] by simp
  have nth: "reverse_digits pos d ! i =
      (if i < pos \<and> (i < k \<or> pos - 1 - i < k) then d ! (pos - 1 - i) else d ! i)"
    unfolding rev using conjunct2 [OF swaps] i by blast
  have "pos \<le> 2 * k" unfolding k by presburger
  then have "i < k \<or> pos - 1 - i < k" if "i < pos" using that by linarith
  with nth have "reverse_digits pos d ! i = (if i < pos then d ! (pos - 1 - i) else d ! i)" by simp
  then show "reverse_digits pos d ! i = (rev (take pos d) @ drop pos d) ! i"
    using i assms(2) by (simp add: nth_append rev_nth)
qed

text \<open>The decimal text, and the number it denotes.\<close>

definition decimal_text :: "nat \<Rightarrow> char list" where
  "decimal_text v = rev (decimal_digits v)"

definition decimal_value :: "char list \<Rightarrow> nat" where
  "decimal_value s = foldl (\<lambda>n c. 10 * n + (of_char c - 48)) 0 s"

lemma of_digit_char: "d < 10 \<Longrightarrow> of_char (digit_char d) = 48 + d"
  by (simp add: digit_char_def)

lemma decimal_value_text: "decimal_value (decimal_text v) = v"
proof (induction v rule: decimal_digits.induct)
  case (1 v)
  have d: "of_char (digit_char (v mod 10)) - 48 = v mod 10" by (simp add: of_digit_char)
  show ?case
  proof (cases "v div 10 > 0")
    case True
    then have "decimal_text v = decimal_text (v div 10) @ [digit_char (v mod 10)]"
      unfolding decimal_text_def by (subst decimal_digits.simps) simp
    then show ?thesis using 1 [OF True] d by (simp add: decimal_value_def)
  next
    case False
    then have "decimal_text v = [digit_char (v mod 10)]"
      unfolding decimal_text_def by (subst decimal_digits.simps) simp
    then show ?thesis using d False by (simp add: decimal_value_def)
  qed
qed

lemma decimal_text_c_string: "c_string (decimal_text v)"
proof -
  have "digit_char d \<noteq> NUL" if "d < 10" for d
    using of_digit_char [OF that] by (intro notI) simp
  then have "c_string (decimal_digits v)"
  proof (induction v rule: decimal_digits.induct)
    case (1 v)
    have "c_string (if v div 10 > 0 then decimal_digits (v div 10) else [])"
      using 1 by (cases "v div 10 > 0") simp_all
    then show ?case using 1(2) [of "v mod 10"] by (subst decimal_digits.simps) simp
  qed
  then show ?thesis by (simp add: decimal_text_def c_string_def)
qed

text \<open>The text has as many characters as the number has digits.\<close>

lemma decimal_digits_length: "0 < n \<Longrightarrow> length (decimal_digits v) \<le> n \<longleftrightarrow> v < 10 ^ n"
proof (induction n arbitrary: v)
  case (Suc n)
  show ?case
  proof (cases "v div 10 > 0")
    case True
    then have d: "decimal_digits v = digit_char (v mod 10) # decimal_digits (v div 10)"
      by (subst decimal_digits.simps) simp
    have "n \<noteq> 0 \<or> \<not> v < 10" using True by auto
    show ?thesis
    proof (cases "n = 0")
      case True
      have "decimal_digits (v div 10) \<noteq> []" by (subst decimal_digits.simps) simp
      with True d \<open>v div 10 > 0\<close> show ?thesis by simp
    next
      case False
      then show ?thesis using Suc.IH [of "v div 10"] d by (simp add: div_less_iff_less_mult mult.commute)
    qed
  next
    case False
    then have "v < 10" by simp
    moreover have "(10 :: nat) \<le> 10 ^ Suc n" by simp
    ultimately have "v < 10 ^ Suc n" by linarith
    then show ?thesis using False by (subst decimal_digits.simps) simp
  qed
qed simp

lemma decimal_to_string_result:
  assumes "2 \<le> n" and "n \<le> length d"
  shows "if v < 10 ^ (n - 1)
         then \<exists>rest. decimal_to_string (Some d) n v = (Success, Some (decimal_text v @ NUL # rest))
         else fst (decimal_to_string (Some d) n v) = Failure"
proof (cases "v < 10 ^ (n - 1)")
  case True
  let ?t = "decimal_digits v"
  have "length ?t \<le> n - 1" using True assms(1) by (simp add: decimal_digits_length)
  then have len: "length ?t < n" using assms(1) by linarith
  have pos: "0 < length ?t" by (subst decimal_digits.simps) simp
  have "decimal_loop n v (0, d) = (0, length ?t, ?t @ drop (length ?t) d)"
    using decimal_loop_digits [of "(0, d)" v n] len assms(2) by (simp add: put_whole)
  moreover obtain x rest where "drop (length ?t) d = x # rest"
    using len assms(2) by (cases "drop (length ?t) d") (auto simp: drop_eq_Nil)
  ultimately have "decimal_to_string (Some d) n v =
      (Success, Some (reverse_digits (length ?t) (?t @ NUL # rest)))"
    using assms(1) by (simp add: decimal_to_string_def Let_def list_update_append)
  also have "reverse_digits (length ?t) (?t @ NUL # rest) = decimal_text v @ NUL # rest"
    using reverse_digits_rev [OF pos, of "?t @ NUL # rest"] by (simp add: decimal_text_def)
  finally show ?thesis using True by auto
next
  case False
  then have "\<not> length (decimal_digits v) \<le> n - 1" using assms(1) by (simp add: decimal_digits_length)
  then have "0 < fst (decimal_loop n v (0, d))"
    using assms by (intro decimal_loop_too_long) simp_all
  then show ?thesis
    using False assms(1) by (auto simp: decimal_to_string_def Let_def split: prod.splits)
qed

lemma strcat_scan_strlen: "terminated d \<Longrightarrow> strcat_scan d (length d) = strlen d"
  by (induction d) (auto simp: strlen_def)

lemma c_strncpy_tail:
  assumes "p \<le> length d"
  shows "c_strncpy d p s (length d - p) =
    take p d @ take (length d - p) (cstr s) @ replicate (length d - p - strlen s) NUL"
  using assms by (simp add: c_strncpy_def memcpy_at_def strlen_def min_def)

section \<open>Properties\<close>

text \<open>\<open>size_tToString\<close> with a destination of \<open>n\<close> bytes succeeds exactly when the number has
  fewer than \<open>n\<close> digits; the string it leaves then reads back, digit by digit, as the
  number, and the destination keeps its length.\<close>

theorem size_tToString_decimal:
  assumes "2 \<le> n" and "n \<le> length d"
  shows "if unat v < 10 ^ (n - 1)
         then \<exists>b. size_tToString (Some d) n v = (Success, Some b) \<and> terminated b \<and>
                decimal_value (cstr b) = unat v
         else fst (size_tToString (Some d) n v) = Failure"
  using decimal_to_string_result [OF assms, of "unat v"] decimal_text_c_string decimal_value_text
  by (auto simp: size_tToString_def)

theorem size_tToString_decimal_witness:
  "(\<exists>b. size_tToString (Some (replicate 4 NUL)) 4 120 = (Success, Some b) \<and> decimal_value (cstr b) = 120) \<and>
   fst (size_tToString (Some (replicate 4 NUL)) 4 1200) = Failure"
  using size_tToString_decimal [of 4 "replicate 4 NUL" 120] size_tToString_decimal [of 4 "replicate 4 NUL" 1200]
  by auto

text \<open>\<open>strcpy_s\<close> into a block of the stated size succeeds exactly when the source fits with its
  terminator, and then the block holds the source; otherwise it reports a range error and
  leaves the empty string. It never writes outside the block.\<close>

theorem strcpy_s_copies:
  assumes "length d = n" and "0 < n" and "terminated s"
  shows "\<exists>b. strcpy_s (Some d) n (Some s) = (if strlen s < n then CRT_OK else ERANGE, Some b) \<and>
    length b = n \<and> terminated b \<and> cstr b = (if strlen s < n then cstr s else [])"
proof (cases "strlen s < n")
  case True
  then have "memcpy_at d 0 s (strlen s + 1) = cstr s @ NUL # drop (strlen s + 1) d"
    using assms by (simp add: memcpy_at_def)
  with True assms show ?thesis
    using strlen_less [OF assms(3)] by (auto simp: strcpy_s_def Let_def strlen_def)
next
  case False
  with assms show ?thesis
    by (cases d) (auto simp: strcpy_s_def terminate_at_def Let_def)
qed

theorem strcpy_s_copies_witness:
  "\<exists>b. strcpy_s (Some (replicate 3 CHR ''x'')) 3 (Some (''ab'' @ [NUL])) = (CRT_OK, Some b) \<and> cstr b = ''ab''"
  using strcpy_s_copies [of "replicate 3 CHR ''x''" 3 "''ab'' @ [NUL]"] by (auto simp: strlen_def)

text \<open>\<open>strcat_s\<close> on a terminated block of the stated size: when the result fits, the block
  holds the concatenation; otherwise a range error is reported and the block holds the empty
  string. The block keeps its length.\<close>

theorem strcat_s_appends:
  assumes "length d = n" and "terminated d" and "terminated s"
  shows "\<exists>b. strcat_s (Some d) n (Some s) = (if strlen d + strlen s < n then CRT_OK else ERANGE, Some b) \<and>
    length b = n \<and> cstr b = (if strlen d + strlen s < n then cstr d @ cstr s else [])"
proof -
  let ?p = "strlen d" and ?m = "n - strlen d"
  have p: "?p < n" using strlen_less [OF assms(2)] assms(1) by simp
  have d1: "c_strncpy d ?p s ?m = cstr d @ take ?m (cstr s) @ replicate (?m - strlen s) NUL"
    using c_strncpy_tail [of ?p d s] p assms(1) by simp
  have len: "length (c_strncpy d ?p s ?m) = n"
    unfolding d1 using p by (simp add: strlen_def)
  have scan: "strcat_scan d n = ?p" using strcat_scan_strlen [OF assms(2)] assms(1) by simp
  show ?thesis
  proof (cases "strlen s < ?m")
    case True
    then obtain k where k: "?m - strlen s = Suc k" by (cases "?m - strlen s") auto
    have all: "take ?m (cstr s) = cstr s" using True by (simp add: strlen_def)
    have blk: "c_strncpy d ?p s ?m = (cstr d @ cstr s) @ NUL # replicate k NUL"
      unfolding d1 all k by simp
    have "(c_strncpy d ?p s ?m) ! (n - 1) = last (c_strncpy d ?p s ?m)"
      using len p by (subst last_conv_nth) auto
    also have "\<dots> = NUL" unfolding blk by (cases k) (simp_all add: replicate_append_same [symmetric])
    finally have last: "(c_strncpy d ?p s ?m) ! (n - 1) = NUL" .
    have "cstr (c_strncpy d ?p s ?m) = cstr d @ cstr s"
      unfolding blk by (rule cstr_append_NUL) simp
    with last len scan p True show ?thesis by (simp add: strcat_s_def Let_def)
  next
    case False
    have blk: "c_strncpy d ?p s ?m = cstr d @ take ?m (cstr s)"
      unfolding d1 using False by simp
    have "(c_strncpy d ?p s ?m) ! (n - 1) = last (c_strncpy d ?p s ?m)"
      using len p by (subst last_conv_nth) auto
    moreover have "last (c_strncpy d ?p s ?m) \<in> set (cstr s)"
    proof -
      have ne: "take ?m (cstr s) \<noteq> []" using False p by (auto simp: strlen_def)
      then have "last (take ?m (cstr s)) \<in> set (cstr s)" by (meson last_in_set in_set_takeD)
      then show ?thesis unfolding blk using ne by simp
    qed
    ultimately have last: "(c_strncpy d ?p s ?m) ! (n - 1) \<noteq> NUL"
      using c_string_cstr [of s] by (metis c_string_def)
    have "cstr (terminate_at (c_strncpy d ?p s ?m) 0) = []"
      using len p by (cases "c_strncpy d ?p s ?m") (auto simp: terminate_at_def)
    with last len scan p False show ?thesis by (simp add: strcat_s_def terminate_at_def Let_def)
  qed
qed

theorem strcat_s_appends_witness:
  "\<exists>b. strcat_s (Some (''ab'' @ replicate 3 NUL)) 5 (Some (''cd'' @ [NUL])) = (CRT_OK, Some b) \<and> cstr b = ''abcd''"
proof -
  have "terminated (''ab'' @ replicate 3 NUL)" "length (''ab'' @ replicate 3 NUL) = 5" "terminated (''cd'' @ [NUL])"
    by (simp_all add: numeral_3_eq_3)
  from strcat_s_appends [OF this(2,1,3)] show ?thesis by (auto simp: strlen_def numeral_3_eq_3)
qed

end
