(* ===== verification/Maps.thy ===== *)
theory Maps
  imports CStrings Crt_Abstractions
begin

text \<open>
  The string map of \<open>src/map.c\<close>: two arrays of string pointers that grow and shrink with every
  insertion and deletion, a count and an optional filter callback. The model keeps the arrays
  as the code does, null when empty and possibly longer than the count after a failed
  \<open>realloc\<close>, and every allocation failure with its undoing. The lemmas relate a map to the
  list of its entries; the interface of a dictionary is a locale at the end.
\<close>

section \<open>Data\<close>

text \<open>A pointer to a C string or null; an array of them or null. The filter is a function of the
  two strings, called only for its result.\<close>

type_synonym cptr = "char list option"

record MAP_HANDLE_DATA =
  map_keys :: "cptr list option"
  map_values :: "cptr list option"
  map_count :: nat
  map_filter_callback :: "(char list \<Rightarrow> char list \<Rightarrow> int) option"

datatype MAP_RESULT = MAP_OK | MAP_ERROR | MAP_INVALIDARG | MAP_KEYEXISTS | MAP_KEYNOTFOUND | MAP_FILTER_REJECT

text \<open>The contents of a cell of a fresh array: some pointer, never read before it is assigned.\<close>

definition ptr_cell :: "byte \<Rightarrow> cptr" where
  "ptr_cell x = None"

section \<open>Creation, destruction, cloning\<close>

definition Map_Create :: "(char list \<Rightarrow> char list \<Rightarrow> int) option \<Rightarrow> heap \<Rightarrow> MAP_HANDLE_DATA option \<times> heap" where
  "Map_Create mapFilterFunc h =
     (let (ok, h1) = malloc_struct h in
      (if ok then Some \<lparr>map_keys = None, map_values = None, map_count = 0, map_filter_callback = mapFilterFunc\<rparr>
       else None, h1))"

text \<open>\<open>free\<close> of the pointers of an array.\<close>

definition free_ptrs :: "cptr list \<Rightarrow> heap \<Rightarrow> heap" where
  "free_ptrs ps h = fold c_free ps h"

definition array_ptrs :: "cptr list option \<Rightarrow> nat \<Rightarrow> cptr list" where
  "array_ptrs arr n = (case arr of None \<Rightarrow> [] | Some a \<Rightarrow> take n a)"

definition Map_Destroy :: "MAP_HANDLE_DATA option \<Rightarrow> heap \<Rightarrow> heap" where
  "Map_Destroy handle h =
     (case handle of
        None \<Rightarrow> h
      | Some m \<Rightarrow>
          (let h1 = fold (\<lambda>(k, v) h. c_free v (c_free k h))
                      (zip (array_ptrs (map_keys m) (map_count m)) (array_ptrs (map_values m) (map_count m))) h in
           free_struct (c_free (map_values m) (c_free (map_keys m) h1))))"

text \<open>The loop of \<open>Map_CloneVector\<close>: the copies made so far, and whether all were made.\<close>

fun Map_CloneVector_loop :: "cptr list \<Rightarrow> cptr list \<Rightarrow> heap \<Rightarrow> bool \<times> cptr list \<times> heap" where
  "Map_CloneVector_loop [] done h = (True, done, h)"
| "Map_CloneVector_loop (s # source) done h =
     (case mallocAndStrcpy_s s h of
        (CRT_OK, d, h1) \<Rightarrow> Map_CloneVector_loop source (done @ [d]) h1
      | (_, _, h1) \<Rightarrow> (False, done, h1))"

definition Map_CloneVector :: "cptr list option \<Rightarrow> nat \<Rightarrow> heap \<Rightarrow> cptr list option \<times> heap" where
  "Map_CloneVector source count h =
     (case malloc_block ptr_cell count h of
        (None, h1) \<Rightarrow> (None, h1)
      | (Some result, h1) \<Rightarrow>
          (case Map_CloneVector_loop (array_ptrs source count) [] h1 of
             (True, copies, h2) \<Rightarrow> (Some copies, h2)
           | (False, copies, h2) \<Rightarrow> (None, c_free (Some result) (free_ptrs copies h2))))"

definition Map_Clone :: "MAP_HANDLE_DATA option \<Rightarrow> heap \<Rightarrow> MAP_HANDLE_DATA option \<times> heap" where
  "Map_Clone handle h =
     (case handle of
        None \<Rightarrow> (None, h)
      | Some m \<Rightarrow>
          (let (ok, h1) = malloc_struct h in
           if \<not> ok then (None, h1)
           else if map_count m = 0 then
             (Some \<lparr>map_keys = None, map_values = None, map_count = 0, map_filter_callback = None\<rparr>, h1)
           else
             (case Map_CloneVector (map_keys m) (map_count m) h1 of
                (None, h2) \<Rightarrow> (None, free_struct h2)
              | (Some ks, h2) \<Rightarrow>
                  (case Map_CloneVector (map_values m) (map_count m) h2 of
                     (None, h3) \<Rightarrow> (None, free_struct (c_free (Some ks) (free_ptrs (take (map_count m) ks) h3)))
                   | (Some vs, h3) \<Rightarrow>
                       (Some \<lparr>map_keys = Some ks, map_values = Some vs, map_count = map_count m,
                              map_filter_callback = map_filter_callback m\<rparr>, h3)))))"

section \<open>Growing and shrinking\<close>

definition Map_IncreaseStorageKeysValues :: "MAP_HANDLE_DATA \<Rightarrow> heap \<Rightarrow> rc \<times> MAP_HANDLE_DATA \<times> heap" where
  "Map_IncreaseStorageKeysValues m h =
     (case realloc_block ptr_cell (map_keys m) (map_count m + 1) h of
        (None, h1) \<Rightarrow> (Failure, m, h1)
      | (Some newKeys, h1) \<Rightarrow>
          (let m1 = m\<lparr>map_keys := Some (newKeys[map_count m := None])\<rparr> in
           case realloc_block ptr_cell (map_values m1) (map_count m + 1) h1 of
             (None, h2) \<Rightarrow>
               (if map_count m = 0 then (Failure, m1\<lparr>map_keys := None\<rparr>, c_free (map_keys m1) h2)
                else
                  (case realloc_block ptr_cell (map_keys m1) (map_count m) h2 of
                     (None, h3) \<Rightarrow> (Failure, m1, h3)
                   | (Some undoneKeys, h3) \<Rightarrow> (Failure, m1\<lparr>map_keys := Some undoneKeys\<rparr>, h3)))
           | (Some newValues, h2) \<Rightarrow>
               (Success, m1\<lparr>map_values := Some (newValues[map_count m := None]), map_count := map_count m + 1\<rparr>, h2)))"

definition Map_DecreaseStorageKeysValues :: "MAP_HANDLE_DATA \<Rightarrow> heap \<Rightarrow> MAP_HANDLE_DATA \<times> heap" where
  "Map_DecreaseStorageKeysValues m h =
     (if map_count m = 1 then
        (\<lparr>map_keys = None, map_values = None, map_count = 0, map_filter_callback = None\<rparr>,
         c_free (map_values m) (c_free (map_keys m) h))
      else
        (let (undoneKeys, h1) = realloc_block ptr_cell (map_keys m) (map_count m - 1) h;
             m1 = (case undoneKeys of None \<Rightarrow> m | Some ks \<Rightarrow> m\<lparr>map_keys := Some ks\<rparr>);
             (undoneValues, h2) = realloc_block ptr_cell (map_values m1) (map_count m1 - 1) h1;
             m2 = (case undoneValues of None \<Rightarrow> m1 | Some vs \<Rightarrow> m1\<lparr>map_values := Some vs\<rparr>) in
         (m2\<lparr>map_count := map_count m2 - 1\<rparr>, h2)))"

section \<open>Search\<close>

text \<open>\<open>strcmp (p, s) == 0\<close>; a null pointer is never compared, which the invariant shows.\<close>

definition same_string :: "cptr \<Rightarrow> char list \<Rightarrow> bool" where
  "same_string p s = (case p of None \<Rightarrow> False | Some t \<Rightarrow> cstr t = cstr s)"

fun find_string :: "cptr list \<Rightarrow> nat \<Rightarrow> char list \<Rightarrow> nat option" where
  "find_string [] i s = None"
| "find_string (p # ps) i s = (if same_string p s then Some i else find_string ps (Suc i) s)"

definition findKey :: "MAP_HANDLE_DATA \<Rightarrow> char list \<Rightarrow> nat option" where
  "findKey m key =
     (case map_keys m of None \<Rightarrow> None | Some ks \<Rightarrow> find_string (take (map_count m) ks) 0 key)"

definition findValue :: "MAP_HANDLE_DATA \<Rightarrow> char list \<Rightarrow> nat option" where
  "findValue m val =
     (case map_values m of None \<Rightarrow> None | Some vs \<Rightarrow> find_string (take (map_count m) vs) 0 val)"

section \<open>Insertion, update, deletion\<close>

text \<open>\<open>arr[i] = p\<close>, and the pointer \<open>arr[i]\<close>.\<close>

definition store_ptr :: "cptr list option \<Rightarrow> nat \<Rightarrow> cptr \<Rightarrow> cptr list option" where
  "store_ptr arr i p = map_option (\<lambda>a. a[i := p]) arr"

definition load_ptr :: "cptr list option \<Rightarrow> nat \<Rightarrow> cptr" where
  "load_ptr arr i = (case arr of None \<Rightarrow> None | Some a \<Rightarrow> a ! i)"

definition insertNewKeyValue ::
  "MAP_HANDLE_DATA \<Rightarrow> char list \<Rightarrow> char list \<Rightarrow> heap \<Rightarrow> rc \<times> MAP_HANDLE_DATA \<times> heap" where
  "insertNewKeyValue m key val h =
     (case Map_IncreaseStorageKeysValues m h of
        (Failure, m1, h1) \<Rightarrow> (Failure, m1, h1)
      | (Success, m1, h1) \<Rightarrow>
          (case mallocAndStrcpy_s (Some key) h1 of
             (CRT_OK, k, h2) \<Rightarrow>
               (let m2 = m1\<lparr>map_keys := store_ptr (map_keys m1) (map_count m1 - 1) k\<rparr> in
                case mallocAndStrcpy_s (Some val) h2 of
                  (CRT_OK, v, h3) \<Rightarrow>
                    (Success, m2\<lparr>map_values := store_ptr (map_values m2) (map_count m2 - 1) v\<rparr>, h3)
                | (_, _, h3) \<Rightarrow>
                    (let h4 = c_free (load_ptr (map_keys m2) (map_count m2 - 1)) h3;
                         (m3, h5) = Map_DecreaseStorageKeysValues m2 h4 in (Failure, m3, h5)))
           | (_, _, h2) \<Rightarrow>
               (let (m3, h3) = Map_DecreaseStorageKeysValues m1 h2 in (Failure, m3, h3))))"

text \<open>The filter rejects.\<close>

definition filter_rejects :: "MAP_HANDLE_DATA \<Rightarrow> char list \<Rightarrow> char list \<Rightarrow> bool" where
  "filter_rejects m key val =
     (case map_filter_callback m of None \<Rightarrow> False | Some f \<Rightarrow> f key val \<noteq> 0)"

definition Map_Add ::
  "MAP_HANDLE_DATA option \<Rightarrow> cptr \<Rightarrow> cptr \<Rightarrow> heap \<Rightarrow> MAP_RESULT \<times> MAP_HANDLE_DATA option \<times> heap" where
  "Map_Add handle key val h =
     (case (handle, key, val) of
        (Some m, Some k, Some v) \<Rightarrow>
          (if findKey m k \<noteq> None then (MAP_KEYEXISTS, handle, h)
           else if filter_rejects m k v then (MAP_FILTER_REJECT, handle, h)
           else
             (case insertNewKeyValue m k v h of
                (Failure, m1, h1) \<Rightarrow> (MAP_ERROR, Some m1, h1)
              | (Success, m1, h1) \<Rightarrow> (MAP_OK, Some m1, h1)))
      | _ \<Rightarrow> (MAP_INVALIDARG, handle, h))"

definition Map_AddOrUpdate ::
  "MAP_HANDLE_DATA option \<Rightarrow> cptr \<Rightarrow> cptr \<Rightarrow> heap \<Rightarrow> MAP_RESULT \<times> MAP_HANDLE_DATA option \<times> heap" where
  "Map_AddOrUpdate handle key val h =
     (case (handle, key, val) of
        (Some m, Some k, Some v) \<Rightarrow>
          (if filter_rejects m k v then (MAP_FILTER_REJECT, handle, h)
           else
             (case findKey m k of
                None \<Rightarrow>
                  (case insertNewKeyValue m k v h of
                     (Failure, m1, h1) \<Rightarrow> (MAP_ERROR, Some m1, h1)
                   | (Success, m1, h1) \<Rightarrow> (MAP_OK, Some m1, h1))
              | Some index \<Rightarrow>
                  (let valueLength = strlen v in
                   case realloc_block char_of_byte (load_ptr (map_values m) index) (valueLength + 1) h of
                     (None, h1) \<Rightarrow> (MAP_ERROR, handle, h1)
                   | (Some newValue, h1) \<Rightarrow>
                       (MAP_OK,
                        Some (m\<lparr>map_values := store_ptr (map_values m) index
                                  (Some (memcpy_at newValue 0 v (valueLength + 1)))\<rparr>), h1))))
      | _ \<Rightarrow> (MAP_INVALIDARG, handle, h))"

text \<open>\<open>memmove\<close> of the \<open>n\<close> pointers after position \<open>i\<close> to that position.\<close>

definition close_gap :: "cptr list option \<Rightarrow> nat \<Rightarrow> nat \<Rightarrow> cptr list option" where
  "close_gap arr i n = map_option (\<lambda>a. memcpy_at a i (drop (i + 1) a) n) arr"

definition Map_Delete :: "MAP_HANDLE_DATA option \<Rightarrow> cptr \<Rightarrow> heap \<Rightarrow> MAP_RESULT \<times> MAP_HANDLE_DATA option \<times> heap" where
  "Map_Delete handle key h =
     (case (handle, key) of
        (Some m, Some k) \<Rightarrow>
          (case findKey m k of
             None \<Rightarrow> (MAP_KEYNOTFOUND, handle, h)
           | Some index \<Rightarrow>
               (let h1 = c_free (load_ptr (map_values m) index) (c_free (load_ptr (map_keys m) index) h);
                    n = map_count m - index - 1;
                    m1 = m\<lparr>map_keys := close_gap (map_keys m) index n,
                           map_values := close_gap (map_values m) index n\<rparr>;
                    (m2, h2) = Map_DecreaseStorageKeysValues m1 h1 in
                (MAP_OK, Some m2, h2)))
      | _ \<Rightarrow> (MAP_INVALIDARG, handle, h))"

section \<open>Queries\<close>

definition Map_ContainsKey :: "MAP_HANDLE_DATA option \<Rightarrow> cptr \<Rightarrow> MAP_RESULT \<times> bool option" where
  "Map_ContainsKey handle key =
     (case (handle, key) of
        (Some m, Some k) \<Rightarrow> (MAP_OK, Some (findKey m k \<noteq> None))
      | _ \<Rightarrow> (MAP_INVALIDARG, None))"

definition Map_ContainsValue :: "MAP_HANDLE_DATA option \<Rightarrow> cptr \<Rightarrow> MAP_RESULT \<times> bool option" where
  "Map_ContainsValue handle val =
     (case (handle, val) of
        (Some m, Some v) \<Rightarrow> (MAP_OK, Some (findValue m v \<noteq> None))
      | _ \<Rightarrow> (MAP_INVALIDARG, None))"

definition Map_GetValueFromKey :: "MAP_HANDLE_DATA option \<Rightarrow> cptr \<Rightarrow> cptr" where
  "Map_GetValueFromKey handle key =
     (case (handle, key) of
        (Some m, Some k) \<Rightarrow>
          (case findKey m k of None \<Rightarrow> None | Some index \<Rightarrow> load_ptr (map_values m) index)
      | _ \<Rightarrow> None)"

definition Map_GetInternals ::
  "MAP_HANDLE_DATA option \<Rightarrow> MAP_RESULT \<times> (cptr list option \<times> cptr list option \<times> nat) option" where
  "Map_GetInternals handle =
     (case handle of
        None \<Rightarrow> (MAP_INVALIDARG, None)
      | Some m \<Rightarrow> (MAP_OK, Some (map_keys m, map_values m, map_count m)))"

section \<open>JSON\<close>

definition c_lit :: "char list \<Rightarrow> char list" where
  "c_lit s = s @ [NUL]"

text \<open>The short-circuit chain that appends one entry.\<close>

definition append_entry :: "nat \<Rightarrow> STRING \<Rightarrow> STRING \<Rightarrow> STRING option \<Rightarrow> heap \<Rightarrow> rc \<times> STRING option \<times> heap" where
  "append_entry i key val result h =
     (let (r1, s1, h1) = (if i > 0 then STRING_concat result (Some (c_lit '','')) h else (Success, result, h)) in
      if r1 \<noteq> Success then (Failure, s1, h1)
      else
        (let (r2, s2, h2) = STRING_concat_with_STRING s1 (Some key) h1 in
         if r2 \<noteq> Success then (Failure, s2, h2)
         else
           (let (r3, s3, h3) = STRING_concat s2 (Some (c_lit '':'')) h2 in
            if r3 \<noteq> Success then (Failure, s3, h3)
            else STRING_concat_with_STRING s3 (Some val) h3)))"

text \<open>The loop; a null result is \<open>breakFor\<close>.\<close>

fun Map_ToJSON_loop :: "nat \<Rightarrow> (cptr \<times> cptr) list \<Rightarrow> STRING option \<Rightarrow> heap \<Rightarrow> STRING option \<times> heap" where
  "Map_ToJSON_loop i [] result h = (result, h)"
| "Map_ToJSON_loop i ((k, v) # kvs) result h =
     (case STRING_new_JSON k h of
        (None, h1) \<Rightarrow> (None, STRING_delete result h1)
      | (Some key, h1) \<Rightarrow>
          (case STRING_new_JSON v h1 of
             (None, h2) \<Rightarrow> (None, STRING_delete (Some key) (STRING_delete result h2))
           | (Some val, h2) \<Rightarrow>
               (case append_entry i key val result h2 of
                  (Failure, r, h3) \<Rightarrow>
                    (None, STRING_delete (Some key) (STRING_delete (Some val) (STRING_delete r h3)))
                | (Success, r, h3) \<Rightarrow>
                    Map_ToJSON_loop (Suc i) kvs r (STRING_delete (Some key) (STRING_delete (Some val) h3)))))"

definition Map_ToJSON :: "MAP_HANDLE_DATA option \<Rightarrow> heap \<Rightarrow> STRING option \<times> heap" where
  "Map_ToJSON handle h =
     (case handle of
        None \<Rightarrow> (None, h)
      | Some m \<Rightarrow>
          (case STRING_construct (Some (c_lit ''{'')) h of
             (None, h1) \<Rightarrow> (None, h1)
           | (Some result, h1) \<Rightarrow>
               (case Map_ToJSON_loop 0 (zip (array_ptrs (map_keys m) (map_count m))
                          (array_ptrs (map_values m) (map_count m))) (Some result) h1 of
                  (None, h2) \<Rightarrow> (None, h2)
                | (Some r, h2) \<Rightarrow>
                    (case STRING_concat (Some r) (Some (c_lit ''}'')) h2 of
                       (Success, s, h3) \<Rightarrow> (s, h3)
                     | (Failure, s, h3) \<Rightarrow> (None, STRING_delete s h3)))))"

section \<open>The entries of a map\<close>

definition ptr_good :: "cptr \<Rightarrow> bool" where
  "ptr_good p \<longleftrightarrow> (\<exists>s. p = Some s \<and> terminated s)"

definition ptr_str :: "cptr \<Rightarrow> char list" where
  "ptr_str p = (case p of None \<Rightarrow> [] | Some s \<Rightarrow> cstr s)"

text \<open>An array of \<open>length ss\<close> pointers holds the strings \<open>ss\<close>: it is null exactly when there are
  none, and may be longer than needed.\<close>

definition array_repr :: "cptr list option \<Rightarrow> char list list \<Rightarrow> bool" where
  "array_repr arr ss \<longleftrightarrow>
     (if ss = [] then arr = None
      else \<exists>ps xs. arr = Some (ps @ xs) \<and> list_all ptr_good ps \<and> map ptr_str ps = ss)"

type_synonym entry = "char list \<times> char list"

text \<open>A map holds the entries \<open>es\<close>, with different keys.\<close>

definition map_repr :: "MAP_HANDLE_DATA \<Rightarrow> entry list \<Rightarrow> bool" where
  "map_repr m es \<longleftrightarrow>
     map_count m = length es \<and> array_repr (map_keys m) (map fst es) \<and>
     array_repr (map_values m) (map snd es) \<and> distinct (map fst es)"

text \<open>The blocks it owns: the structure, and for a map with entries the two arrays and two strings
  for each entry.\<close>

definition map_blocks :: "entry list \<Rightarrow> int" where
  "map_blocks es = (if es = [] then 1 else 3 + 2 * int (length es))"

lemma ptr_good_simps [simp]: "ptr_good (Some s) \<longleftrightarrow> terminated s" "\<not> ptr_good None"
  by (simp_all add: ptr_good_def)

lemma ptr_str_simps [simp]: "ptr_str (Some s) = cstr s" "ptr_str None = []"
  by (simp_all add: ptr_str_def)

lemma array_repr_Nil [simp]: "array_repr arr [] \<longleftrightarrow> arr = None"
  by (simp add: array_repr_def)

lemma array_reprE:
  assumes "array_repr arr ss" and "ss \<noteq> []"
  obtains ps xs where "arr = Some (ps @ xs)" "list_all ptr_good ps" "map ptr_str ps = ss" "length ps = length ss"
  using assms unfolding array_repr_def by (metis length_map)

lemma array_reprI:
  "arr = Some (ps @ xs) \<Longrightarrow> list_all ptr_good ps \<Longrightarrow> map ptr_str ps = ss \<Longrightarrow> ss \<noteq> [] \<Longrightarrow> array_repr arr ss"
  unfolding array_repr_def by auto

lemma map_repr_inj: "map_repr m es \<Longrightarrow> map_repr m fs \<Longrightarrow> es = fs"
proof -
  have arr: "ss = ts" if "array_repr arr ss" "array_repr arr ts" "length ss = length ts" for arr ss ts
    using that unfolding array_repr_def by (auto split: if_splits simp: append_eq_append_conv dest: arg_cong [of _ _ length])
  assume a: "map_repr m es" "map_repr m fs"
  then have "map fst es = map fst fs" "map snd es = map snd fs"
    unfolding map_repr_def by (auto intro!: arr)
  then show "es = fs" by (metis zip_map_fst_snd)
qed

section \<open>Search\<close>

lemma find_string_None:
  "list_all ptr_good ps \<Longrightarrow> find_string ps i s = None \<longleftrightarrow> cstr s \<notin> set (map ptr_str ps)"
  by (induction ps arbitrary: i) (auto simp: ptr_good_def same_string_def)

lemma find_string_Some:
  "list_all ptr_good ps \<Longrightarrow> find_string ps i s = Some j \<Longrightarrow>
     i \<le> j \<and> j - i < length ps \<and> ptr_str (ps ! (j - i)) = cstr s"
proof (induction ps arbitrary: i)
  case (Cons p ps)
  show ?case
  proof (cases "same_string p s")
    case True
    with Cons.prems show ?thesis by (auto simp: same_string_def split: option.splits)
  next
    case False
    with Cons.IH [of "Suc i"] Cons.prems have "Suc i \<le> j" "j - Suc i < length ps" "ptr_str (ps ! (j - Suc i)) = cstr s"
      by auto
    moreover have "j - i = Suc (j - Suc i)" using \<open>Suc i \<le> j\<close> by simp
    ultimately show ?thesis by simp
  qed
qed simp

lemma array_search:
  assumes "array_repr arr ss" and "ss \<noteq> []"
  shows "case find_string (array_ptrs arr (length ss)) 0 s of
    None \<Rightarrow> cstr s \<notin> set ss | Some i \<Rightarrow> i < length ss \<and> ss ! i = cstr s"
proof -
  obtain ps xs where ps: "arr = Some (ps @ xs)" "list_all ptr_good ps" "map ptr_str ps = ss" "length ps = length ss"
    using array_reprE [OF assms] .
  then show ?thesis
    using find_string_None [of ps 0 s] find_string_Some [of ps 0 s]
    by (auto simp: array_ptrs_def nth_map [symmetric] simp del: nth_map split: option.splits)
qed

lemma findKey_spec:
  assumes "map_repr m es"
  shows "case findKey m k of
    None \<Rightarrow> cstr k \<notin> fst ` set es | Some i \<Rightarrow> i < length es \<and> fst (es ! i) = cstr k"
proof (cases "es = []")
  case True
  with assms show ?thesis by (simp add: findKey_def map_repr_def)
next
  case False
  with assms array_search [of "map_keys m" "map fst es" k] show ?thesis
    by (auto simp: map_repr_def findKey_def array_ptrs_def split: option.splits)
qed

lemma findValue_spec:
  assumes "map_repr m es"
  shows "(findValue m v \<noteq> None) \<longleftrightarrow> cstr v \<in> snd ` set es"
proof (cases "es = []")
  case True
  with assms show ?thesis by (simp add: findValue_def map_repr_def)
next
  case False
  with assms array_search [of "map_values m" "map snd es" v] show ?thesis
    by (auto simp: map_repr_def findValue_def array_ptrs_def split: option.splits) (metis imageI nth_mem)
qed

lemma findKey_lookup:
  assumes "map_repr m es"
  shows "case findKey m k of None \<Rightarrow> map_of es (cstr k) = None
    | Some i \<Rightarrow> i < length es \<and> es ! i = (cstr k, snd (es ! i)) \<and> map_of es (cstr k) = Some (snd (es ! i))"
proof -
  have "distinct (map fst es)" using assms by (simp add: map_repr_def)
  then have "map_of es (fst (es ! i)) = Some (snd (es ! i))" if "i < length es" for i
    using that by (intro map_of_is_SomeI) (auto simp: nth_mem)
  then show ?thesis
    using findKey_spec [OF assms, of k]
    by (auto simp: map_of_eq_None_iff prod_eq_iff split: option.splits) metis
qed

section \<open>Insertion\<close>

lemma realloc_prefix:
  assumes "realloc_block c (Some (ps @ xs)) n h = (Some d, h')" and "length ps \<le> n"
  shows "length d = n \<and> (\<exists>ys. d = ps @ ys) \<and> mem_live h' = mem_live h"
proof -
  have d: "d = take n (ps @ xs) @ drop (length (ps @ xs)) (fresh_block c n h)" and "mem_live h' = mem_live h"
    using assms(1) by (auto simp: realloc_block_def after_request_def split: if_splits)
  moreover have "take n (ps @ xs) = ps @ take (n - length ps) xs" using assms(2) by simp
  ultimately show ?thesis by auto
qed

lemma realloc_slot:
  assumes "realloc_block c (Some (ps @ xs)) (Suc (length ps)) h = (Some d, h')"
  shows "(\<exists>ys. d[length ps := p] = ps @ p # ys) \<and> mem_live h' = mem_live h"
proof -
  obtain ys where "d = ps @ ys" "length d = Suc (length ps)" "mem_live h' = mem_live h"
    using realloc_prefix [OF assms] by auto
  then show ?thesis by (cases ys) (auto simp: list_update_append)
qed

lemma realloc_refused: "realloc_block c p n h = (None, h') \<Longrightarrow> mem_live h' = mem_live h"
  by (auto simp: realloc_block_def malloc_block_def after_request_def split: if_splits option.splits)

text \<open>The state of an array between growing and storing, or before shrinking: one more slot,
  whatever it holds, after the pointers.\<close>

definition has_slot :: "cptr list option \<Rightarrow> char list list \<Rightarrow> bool" where
  "has_slot arr ss \<longleftrightarrow> (\<exists>ps p xs. arr = Some (ps @ p # xs) \<and> list_all ptr_good ps \<and> map ptr_str ps = ss)"

lemma grow_array:
  assumes "array_repr arr ss" and "realloc_block c arr (Suc (length ss)) h = (Some d, h')"
  shows "has_slot (Some (d[length ss := None])) ss \<and> mem_live h' = mem_live h + (if ss = [] then 1 else 0)"
proof (cases "ss = []")
  case True
  with assms show ?thesis
    by (auto simp: realloc_block_def malloc_block_def after_request_def has_slot_def fresh_block_def split: if_splits)
next
  case False
  obtain ps xs where ps: "arr = Some (ps @ xs)" "list_all ptr_good ps" "map ptr_str ps = ss" "length ps = length ss"
    using array_reprE [OF assms(1) False] .
  then show ?thesis
    using realloc_slot [of c ps xs h d h' None] assms(2) False by (auto simp: has_slot_def)
qed

text \<open>Undoing the growth of a non-empty array, whether or not the second request is granted.\<close>

lemma undo_grow:
  assumes "has_slot arr ss" and "ss \<noteq> []"
  shows "array_repr arr ss"
    and "realloc_block c arr (length ss) h = (Some d, h') \<Longrightarrow> array_repr (Some d) ss \<and> mem_live h' = mem_live h"
proof -
  obtain ps p xs where ps: "arr = Some (ps @ p # xs)" "list_all ptr_good ps" "map ptr_str ps = ss"
    using assms(1) by (auto simp: has_slot_def)
  then show "array_repr arr ss" using assms(2) by (intro array_reprI)
  assume "realloc_block c arr (length ss) h = (Some d, h')"
  then obtain ys where "d = ps @ ys" "mem_live h' = mem_live h"
    using realloc_prefix [of c ps "p # xs" "length ss" h d h'] ps by auto
  then show "array_repr (Some d) ss \<and> mem_live h' = mem_live h"
    using ps assms(2) by (auto intro: array_reprI)
qed

lemma Map_Increase_result:
  assumes "map_repr m es" and "Map_IncreaseStorageKeysValues m h = (r, m', h')"
  shows "if r = Success
    then map_filter_callback m' = map_filter_callback m \<and> map_count m' = Suc (length es) \<and>
      has_slot (map_keys m') (map fst es) \<and> has_slot (map_values m') (map snd es) \<and>
      mem_live h' = mem_live h + (if es = [] then 2 else 0)
    else map_filter_callback m' = map_filter_callback m \<and> map_repr m' es \<and> mem_live h' = mem_live h"
proof -
  let ?n = "length es"
  have repr: "map_count m = ?n" "array_repr (map_keys m) (map fst es)" "array_repr (map_values m) (map snd es)"
    "distinct (map fst es)" using assms(1) by (auto simp: map_repr_def)
  show ?thesis
  proof (cases "realloc_block ptr_cell (map_keys m) (Suc ?n) h")
    case (Pair nk h1)
    show ?thesis
    proof (cases nk)
      case None
      then show ?thesis
        using Pair assms repr realloc_refused [of ptr_cell "map_keys m" "Suc ?n" h h1]
        by (auto simp: Map_IncreaseStorageKeysValues_def)
    next
      case (Some d)
      note keys = grow_array [OF repr(2), of ptr_cell h d h1]
      show ?thesis
      proof (cases "realloc_block ptr_cell (map_values m) (Suc ?n) h1")
        case P2: (Pair nv h2)
        show ?thesis
        proof (cases nv)
          case None
          then show ?thesis
            using Pair P2 Some assms(2) repr keys
              realloc_refused [of ptr_cell "map_values m" "Suc ?n" h1 h2]
              realloc_refused [of ptr_cell "Some (d[?n := None])" ?n h2 h']
              undo_grow(1) [of "Some (d[?n := None])" "map fst es"]
              undo_grow(2) [of "Some (d[?n := None])" "map fst es" ptr_cell h2]
            by (cases "es = []")
              (auto simp: Map_IncreaseStorageKeysValues_def Let_def map_repr_def c_free_def
                dest: realloc_refused split: option.splits prod.splits)
        next
          case S2: (Some d2)
          then show ?thesis
            using Pair P2 Some assms(2) repr keys grow_array [OF repr(3), of ptr_cell h1 d2 h2]
            by (auto simp: Map_IncreaseStorageKeysValues_def Let_def)
        qed
      qed
    qed
  qed
qed

lemma Map_Decrease_result:
  assumes "map_count m = Suc (length es)" and "has_slot (map_keys m) (map fst es)"
    and "has_slot (map_values m) (map snd es)" and "distinct (map fst es)"
    and "Map_DecreaseStorageKeysValues m h = (m', h')"
  shows "map_repr m' es \<and> mem_live h' = mem_live h - (if es = [] then 2 else 0) \<and>
    map_filter_callback m' = (if es = [] then None else map_filter_callback m)"
proof (cases "es = []")
  case True
  with assms show ?thesis
    by (auto simp: Map_DecreaseStorageKeysValues_def map_repr_def has_slot_def c_free_def)
next
  case False
  let ?n = "length es"
  have ne: "map fst es \<noteq> []" "map snd es \<noteq> []" using False by auto
  obtain k h1 where k: "realloc_block ptr_cell (map_keys m) ?n h = (k, h1)" by fastforce
  obtain v h2 where v: "realloc_block ptr_cell (map_values m) ?n h1 = (v, h2)" by fastforce
  have ks: "array_repr (case k of None \<Rightarrow> map_keys m | Some d \<Rightarrow> Some d) (map fst es) \<and> mem_live h1 = mem_live h"
    using undo_grow(1) [OF assms(2) ne(1)] undo_grow(2) [OF assms(2) ne(1), of ptr_cell h _ h1] k realloc_refused [of ptr_cell "map_keys m" ?n h h1]
    by (cases k) auto
  have vs: "array_repr (case v of None \<Rightarrow> map_values m | Some d \<Rightarrow> Some d) (map snd es) \<and> mem_live h2 = mem_live h1"
    using undo_grow(1) [OF assms(3) ne(2)] undo_grow(2) [OF assms(3) ne(2), of ptr_cell h1 _ h2] v realloc_refused [of ptr_cell "map_values m" ?n h1 h2]
    by (cases v) auto
  show ?thesis
    using assms(1,4,5) False k v ks vs
    by (auto simp: Map_DecreaseStorageKeysValues_def map_repr_def Let_def split: option.splits)
qed

text \<open>Storing a copy in the slot completes the array.\<close>

lemma store_slot:
  assumes "has_slot arr ss" and "ptr_good p"
  shows "array_repr (store_ptr arr (length ss) p) (ss @ [ptr_str p]) \<and>
    has_slot (store_ptr arr (length ss) p) ss \<and> load_ptr (store_ptr arr (length ss) p) (length ss) = p"
proof -
  obtain ps q xs where ps: "arr = Some (ps @ q # xs)" "list_all ptr_good ps" "map ptr_str ps = ss"
    using assms(1) by (auto simp: has_slot_def)
  then have st: "store_ptr arr (length ss) p = Some (ps @ p # xs)"
    by (auto simp: store_ptr_def list_update_append)
  have "array_repr (Some ((ps @ [p]) @ xs)) (ss @ [ptr_str p])"
    using ps(2,3) assms(2) by (intro array_reprI [OF refl]) auto
  with st ps show ?thesis by (auto simp: has_slot_def load_ptr_def nth_append)
qed

lemma insertNewKeyValue_result:
  assumes "map_repr m es" and "terminated key" and "terminated val" and "cstr key \<notin> fst ` set es"
    and "insertNewKeyValue m key val h = (r, m', h')"
  shows "if r = Success
    then map_repr m' (es @ [(cstr key, cstr val)]) \<and> map_filter_callback m' = map_filter_callback m \<and>
      mem_live h' - map_blocks (es @ [(cstr key, cstr val)]) = mem_live h - map_blocks es
    else map_repr m' es \<and> mem_live h' = mem_live h \<and>
      (es \<noteq> [] \<longrightarrow> map_filter_callback m' = map_filter_callback m)"
proof -
  let ?n = "length es"
  have dist: "distinct (map fst es)" using assms(1) by (simp add: map_repr_def)
  obtain r1 m1 h1 where inc: "Map_IncreaseStorageKeysValues m h = (r1, m1, h1)" by (metis prod_cases3)
  note res = Map_Increase_result [OF assms(1) inc]
  show ?thesis
  proof (cases r1)
    case Failure
    then show ?thesis using assms(5) inc res by (simp add: insertNewKeyValue_def)
  next
    case Success
    then have m1: "map_filter_callback m1 = map_filter_callback m" "map_count m1 = Suc ?n"
      "has_slot (map_keys m1) (map fst es)" "has_slot (map_values m1) (map snd es)"
      "mem_live h1 = mem_live h + (if es = [] then 2 else 0)" using res by auto
    let ?k = "Some (cstr key @ [NUL])" and ?v = "Some (cstr val @ [NUL])"
    let ?m2 = "m1\<lparr>map_keys := store_ptr (map_keys m1) ?n ?k\<rparr>"
    have good: "ptr_good ?k" "ptr_good ?v" "ptr_str ?k = cstr key" "ptr_str ?v = cstr val" by auto
    note k = store_slot [OF m1(3) good(1), simplified]
    note v = store_slot [OF m1(4) good(2), simplified]
    show ?thesis
    proof (cases "granted h1")
      case False
      obtain m3 h3 where dec: "Map_DecreaseStorageKeysValues m1 (after_request 1 h1) = (m3, h3)" by fastforce
      show ?thesis
        using assms(5) inc Success False dec Map_Decrease_result [OF m1(2-4) dist dec] m1
        by (auto simp: insertNewKeyValue_def mallocAndStrcpy_s_result [OF assms(2)] after_request_def)
    next
      case g1: True
      let ?h2 = "after_request 1 h1"
      show ?thesis
      proof (cases "granted ?h2")
        case False
        obtain m3 h3 where dec: "Map_DecreaseStorageKeysValues ?m2 (c_free ?k (after_request 1 ?h2)) = (m3, h3)"
          by fastforce
        have slots: "map_count ?m2 = Suc ?n" "has_slot (map_keys ?m2) (map fst es)" "has_slot (map_values ?m2) (map snd es)"
          using m1 k by simp_all
        show ?thesis
          using assms(5) inc Success g1 False dec Map_Decrease_result [OF slots dist dec] m1 k
          by (auto simp: insertNewKeyValue_def mallocAndStrcpy_s_result [OF assms(2)]
              mallocAndStrcpy_s_result [OF assms(3)] Let_def after_request_def c_free_def)
      next
        case g2: True
        show ?thesis
          using assms(4,5) inc Success g1 g2 m1 k v dist
          by (auto simp: insertNewKeyValue_def mallocAndStrcpy_s_result [OF assms(2)]
              mallocAndStrcpy_s_result [OF assms(3)] Let_def after_request_def map_repr_def map_blocks_def)
      qed
    qed
  qed
qed

section \<open>Update and deletion\<close>

lemma array_at:
  assumes "array_repr arr ss" and "i < length ss"
  shows "ptr_good (load_ptr arr i) \<and> ptr_str (load_ptr arr i) = ss ! i"
    and "ptr_good p \<Longrightarrow> array_repr (store_ptr arr i p) (ss[i := ptr_str p])"
    and "has_slot (close_gap arr i (length ss - i - 1)) (take i ss @ drop (Suc i) ss)"
proof -
  have ne: "ss \<noteq> []" using assms(2) by auto
  obtain ps xs where ps: "arr = Some (ps @ xs)" "list_all ptr_good ps" "map ptr_str ps = ss" "length ps = length ss"
    using array_reprE [OF assms(1) ne] .
  have "load_ptr arr i = ps ! i" using ps(1,4) assms(2) by (simp add: load_ptr_def nth_append)
  moreover have "ptr_good (ps ! i)" using ps(2,4) assms(2) by (simp add: list_all_length)
  moreover have "ptr_str (ps ! i) = ss ! i" using ps(3,4) assms(2) by (metis nth_map)
  ultimately show "ptr_good (load_ptr arr i) \<and> ptr_str (load_ptr arr i) = ss ! i" by simp
  show "array_repr (store_ptr arr i p) (ss[i := ptr_str p])" if "ptr_good p"
  proof (rule array_reprI)
    show "store_ptr arr i p = Some (ps[i := p] @ xs)"
      using ps assms(2) by (simp add: store_ptr_def list_update_append)
    show "list_all ptr_good (ps[i := p])"
      using ps(2) that set_update_subset_insert [of ps i p] unfolding list_all_iff by blast
    show "map ptr_str (ps[i := p]) = ss[i := ptr_str p]" using ps(3) by (simp add: map_update)
    show "ss[i := ptr_str p] \<noteq> []" using ne by simp
  qed
  let ?m = "length ss - i - 1"
  have "memcpy_at (ps @ xs) i (drop (i + 1) (ps @ xs)) ?m =
      (take i ps @ drop (Suc i) ps) @ drop (length ss - 1) (ps @ xs)"
    using ps(4) assms(2) by (simp add: memcpy_at_def)
  moreover have "length ss - 1 < length (ps @ xs)" using ps(4) assms(2) by (simp add: less_imp_diff_less trans_less_add1)
  then have "drop (length ss - 1) (ps @ xs) \<noteq> []" by (simp only: drop_eq_Nil not_le)
  then obtain q ys where "drop (length ss - 1) (ps @ xs) = q # ys" by (cases "drop (length ss - 1) (ps @ xs)") auto
  ultimately have "close_gap arr i ?m = Some ((take i ps @ drop (Suc i) ps) @ q # ys)"
    using ps(1) by (simp add: close_gap_def)
  moreover have "list_all ptr_good (take i ps @ drop (Suc i) ps)"
  proof -
    have "set (take i ps @ drop (Suc i) ps) \<subseteq> set ps"
      using set_take_subset [of i ps] set_drop_subset [of "Suc i" ps] by auto
    with ps(2) show ?thesis unfolding list_all_iff by blast
  qed
  moreover have "map ptr_str (take i ps @ drop (Suc i) ps) = take i ss @ drop (Suc i) ss"
    using ps(3) by (simp add: take_map [symmetric] drop_map [symmetric])
  ultimately show "has_slot (close_gap arr i ?m) (take i ss @ drop (Suc i) ss)"
    unfolding has_slot_def by blast
qed

text \<open>The entries after an update or a deletion at an index.\<close>

definition update_at :: "entry list \<Rightarrow> nat \<Rightarrow> char list \<Rightarrow> entry list" where
  "update_at es i v = es[i := (fst (es ! i), v)]"

definition delete_at :: "entry list \<Rightarrow> nat \<Rightarrow> entry list" where
  "delete_at es i = take i es @ drop (Suc i) es"

lemma entry_at:
  assumes "i < length es"
  obtains xs ys where "es = xs @ es ! i # ys" "length xs = i"
    "update_at es i v = xs @ (fst (es ! i), v) # ys" "delete_at es i = xs @ ys"
  using assms that [of "take i es" "drop (Suc i) es"]
  by (simp add: id_take_nth_drop update_at_def upd_conv_take_nth_drop delete_at_def)

lemma update_at_lookup:
  assumes "distinct (map fst es)" and "i < length es"
  shows "map_of (update_at es i v) = (map_of es)(fst (es ! i) \<mapsto> v)"
proof -
  obtain xs ys where es: "es = xs @ es ! i # ys" "update_at es i v = xs @ (fst (es ! i), v) # ys"
    using entry_at [OF assms(2), of v] by metis
  have "distinct (map fst (xs @ es ! i # ys))" using assms(1) es(1) by simp
  then have "map_of xs (fst (es ! i)) = None" by (auto simp: map_of_eq_None_iff)
  then have "map_of (xs @ (fst (es ! i), v) # ys) = (map_of (xs @ es ! i # ys))(fst (es ! i) \<mapsto> v)"
    by (cases "es ! i") (auto simp: fun_eq_iff map_add_def split: option.splits)
  with es show ?thesis by simp
qed

lemma delete_at_lookup:
  assumes "distinct (map fst es)" and "i < length es"
  shows "map_of (delete_at es i) = (map_of es)(fst (es ! i) := None)"
proof -
  obtain xs ys where es: "es = xs @ es ! i # ys" "delete_at es i = xs @ ys"
    using entry_at [OF assms(2)] by metis
  have "distinct (map fst (xs @ es ! i # ys))" using assms(1) es(1) by simp
  then have "map_of xs (fst (es ! i)) = None" "map_of ys (fst (es ! i)) = None" by (auto simp: map_of_eq_None_iff)
  then have "map_of (xs @ ys) = (map_of (xs @ es ! i # ys))(fst (es ! i) := None)"
    by (cases "es ! i") (auto simp: fun_eq_iff map_add_def split: option.splits)
  with es show ?thesis by simp
qed

lemma delete_at_distinct:
  assumes "distinct (map fst es)" and "i < length es"
  shows "distinct (map fst (delete_at es i))"
proof -
  obtain xs ys where es: "es = xs @ es ! i # ys" "delete_at es i = xs @ ys"
    using entry_at [OF assms(2)] by metis
  have "distinct (map fst (xs @ es ! i # ys))" using assms(1) es(1) by simp
  then have "distinct (map fst (xs @ ys))" by simp
  then show ?thesis unfolding es(2) .
qed

lemma Map_Delete_result:
  assumes "map_repr m es" and "terminated key"
  shows "if cstr key \<in> fst ` set es
    then \<exists>m' h' i. Map_Delete (Some m) (Some key) h = (MAP_OK, Some m', h') \<and> i < length es \<and>
      fst (es ! i) = cstr key \<and> map_repr m' (delete_at es i) \<and>
      mem_live h' - map_blocks (delete_at es i) = mem_live h - map_blocks es \<and>
      map_filter_callback m' = (if length es = 1 then None else map_filter_callback m)
    else Map_Delete (Some m) (Some key) h = (MAP_KEYNOTFOUND, Some m, h)"
proof (cases "findKey m key")
  case None
  then show ?thesis using findKey_spec [OF assms(1), of key] by (simp add: Map_Delete_def)
next
  case (Some i)
  then have i: "i < length es" "fst (es ! i) = cstr key"
    using findKey_spec [OF assms(1), of key] by auto
  have mem: "cstr key \<in> fst ` set es" using i by (metis image_eqI nth_mem)
  have repr: "map_count m = length es" "array_repr (map_keys m) (map fst es)" "array_repr (map_values m) (map snd es)"
    "distinct (map fst es)" using assms(1) by (auto simp: map_repr_def)
  let ?es = "delete_at es i" and ?n = "length es - i - 1"
  let ?m1 = "m\<lparr>map_keys := close_gap (map_keys m) i ?n, map_values := close_gap (map_values m) i ?n\<rparr>"
  let ?h1 = "c_free (load_ptr (map_values m) i) (c_free (load_ptr (map_keys m) i) h)"
  have live: "mem_live ?h1 = mem_live h - 2"
    using array_at(1) [OF repr(2), of i] array_at(1) [OF repr(3), of i] i(1) by (auto simp: ptr_good_def c_free_def)
  have slots: "has_slot (map_keys ?m1) (map fst ?es)" "has_slot (map_values ?m1) (map snd ?es)"
    using array_at(3) [OF repr(2), of i] array_at(3) [OF repr(3), of i] i(1)
    by (simp_all add: delete_at_def take_map drop_map)
  have cnt: "map_count ?m1 = Suc (length ?es)" using repr(1) i(1) by (simp add: delete_at_def)
  obtain m2 h2 where dec: "Map_DecreaseStorageKeysValues ?m1 ?h1 = (m2, h2)" by fastforce
  have del: "Map_Delete (Some m) (Some key) h = (MAP_OK, Some m2, h2)"
    using Some dec repr(1) by (simp add: Map_Delete_def Let_def)
  have len: "length es = Suc (length ?es)" "?es = [] \<longleftrightarrow> length es = 1" "es \<noteq> []"
    using i(1) by (cases es; auto simp: delete_at_def)+
  note res = Map_Decrease_result [OF cnt slots delete_at_distinct [OF repr(4) i(1)] dec]
  have blocks: "map_blocks es = 5 + 2 * int (length ?es)"
    using arg_cong [OF len(1), of int] unfolding map_blocks_def if_not_P [OF len(3)] by linarith
  have "mem_live h2 = mem_live h - 2 - (if ?es = [] then 2 else 0)" using res live by linarith
  then have "mem_live h2 - map_blocks ?es = mem_live h - map_blocks es"
    unfolding blocks map_blocks_def [of ?es] by (cases "?es") simp_all
  moreover have "map_filter_callback m2 = (if length es = 1 then None else map_filter_callback m)"
    using conjunct2 [OF conjunct2 [OF res]] unfolding len(2) by simp
  ultimately show ?thesis
    unfolding if_P [OF mem] using del i res by blast
qed

text \<open>What an insertion or an update does: on success the value of the key is the new one and no
  other changes; on failure the entries are the same.\<close>

definition put_result ::
  "MAP_HANDLE_DATA \<Rightarrow> entry list \<Rightarrow> char list \<Rightarrow> char list \<Rightarrow> heap \<Rightarrow> MAP_RESULT \<times> MAP_HANDLE_DATA option \<times> heap \<Rightarrow> bool" where
  "put_result m es k v h res =
     (case res of (r, m', h') \<Rightarrow>
        (r = MAP_OK \<longrightarrow> (\<exists>m1 fs. m' = Some m1 \<and> map_repr m1 fs \<and> map_of fs = (map_of es)(k \<mapsto> v) \<and>
           map_filter_callback m1 = map_filter_callback m \<and>
           mem_live h' - map_blocks fs = mem_live h - map_blocks es)) \<and>
        (r \<noteq> MAP_OK \<longrightarrow> (\<exists>m1. m' = Some m1 \<and> map_repr m1 es \<and> mem_live h' = mem_live h \<and>
           (es \<noteq> [] \<longrightarrow> map_filter_callback m1 = map_filter_callback m))))"

lemma insert_put_result:
  assumes "map_repr m es" and "terminated k" and "terminated v" and "cstr k \<notin> fst ` set es"
  shows "put_result m es (cstr k) (cstr v) h
    (case insertNewKeyValue m k v h of
       (Failure, m1, h1) \<Rightarrow> (MAP_ERROR, Some m1, h1) | (Success, m1, h1) \<Rightarrow> (MAP_OK, Some m1, h1))"
proof -
  obtain r m' h' where ins: "insertNewKeyValue m k v h = (r, m', h')" by (metis prod_cases3)
  note res = insertNewKeyValue_result [OF assms ins]
  have lookup: "map_of (es @ [(cstr k, cstr v)]) = (map_of es)(cstr k \<mapsto> cstr v)"
    using assms(4) by (auto simp: fun_eq_iff map_add_def map_of_eq_None_iff [symmetric] split: option.splits)
  show ?thesis
  proof (cases r)
    case Success
    then show ?thesis using res ins lookup unfolding put_result_def by auto
  next
    case Failure
    then show ?thesis using res ins unfolding put_result_def by auto
  qed
qed

lemma Map_Add_result:
  assumes "map_repr m es" and "terminated k" and "terminated v"
  shows "put_result m es (cstr k) (cstr v) h (Map_Add (Some m) (Some k) (Some v) h)"
    and "fst (Map_Add (Some m) (Some k) (Some v) h) = MAP_KEYEXISTS \<longleftrightarrow> cstr k \<in> fst ` set es"
proof -
  have key: "findKey m k = None \<longleftrightarrow> cstr k \<notin> fst ` set es"
    using findKey_spec [OF assms(1), of k] by (auto split: option.splits) (metis imageI nth_mem)
  show "put_result m es (cstr k) (cstr v) h (Map_Add (Some m) (Some k) (Some v) h)"
    using insert_put_result [OF assms, of h] key assms(1)
    by (cases "findKey m k = None") (auto simp: Map_Add_def put_result_def split: prod.splits rc.splits)
  show "fst (Map_Add (Some m) (Some k) (Some v) h) = MAP_KEYEXISTS \<longleftrightarrow> cstr k \<in> fst ` set es"
    using key by (auto simp: Map_Add_def split: prod.splits rc.splits)
qed

lemma Map_AddOrUpdate_result:
  assumes "map_repr m es" and "terminated k" and "terminated v"
  shows "put_result m es (cstr k) (cstr v) h (Map_AddOrUpdate (Some m) (Some k) (Some v) h)"
proof (cases "filter_rejects m k v")
  case True
  then show ?thesis using assms(1) by (auto simp: Map_AddOrUpdate_def put_result_def)
next
  case False
  show ?thesis
  proof (cases "findKey m k")
    case None
    then have "cstr k \<notin> fst ` set es" using findKey_spec [OF assms(1), of k] by simp
    then show ?thesis
      using insert_put_result [OF assms, of h] None False by (simp add: Map_AddOrUpdate_def)
  next
    case (Some i)
    then have i: "i < length es" "fst (es ! i) = cstr k"
      using findKey_spec [OF assms(1), of k] by auto
    have repr: "map_count m = length es" "array_repr (map_keys m) (map fst es)" "array_repr (map_values m) (map snd es)"
      "distinct (map fst es)" using assms(1) by (auto simp: map_repr_def)
    let ?p = "Some (cstr v @ [NUL])" and ?fs = "update_at es i (cstr v)"
    have fs: "map fst ?fs = map fst es" "map snd ?fs = (map snd es)[i := cstr v]" "length ?fs = length es"
      by (simp_all add: update_at_def map_update) (metis list_update_id map_update)
    have "array_repr (store_ptr (map_values m) i ?p) ((map snd es)[i := cstr v])"
      using array_at(2) [OF repr(3), of i ?p] i(1) by simp
    then have new: "map_repr (m\<lparr>map_values := store_ptr (map_values m) i ?p\<rparr>) ?fs"
      using repr fs by (simp add: map_repr_def)
    have lookup: "map_of ?fs = (map_of es)(cstr k \<mapsto> cstr v)"
      using update_at_lookup [OF repr(4) i(1)] i(2) by simp
    have blocks: "map_blocks ?fs = map_blocks es"
      using fs(3) by (auto simp: map_blocks_def)
    obtain old where old: "load_ptr (map_values m) i = Some old"
      using array_at(1) [OF repr(3), of i] i(1) by (auto simp: ptr_good_def)
    have copied: "memcpy_at d 0 v (strlen v + 1) = cstr v @ [NUL]"
      if "realloc_block char_of_byte (Some old) (strlen v + 1) h = (Some d, h')" for d h'
      using realloc_prefix [of char_of_byte "[]" old "strlen v + 1" h d h'] that assms(3)
      by (simp add: memcpy_at_def)
    show ?thesis
    proof (cases "realloc_block char_of_byte (Some old) (strlen v + 1) h")
      case (Pair d h')
      show ?thesis
      proof (cases d)
        case None
        then show ?thesis
          using Pair Some False assms(1) old realloc_refused [of char_of_byte "Some old" "strlen v + 1" h h']
          by (simp add: Map_AddOrUpdate_def put_result_def Let_def)
      next
        case S: (Some dd)
        have "mem_live h' = mem_live h"
          using realloc_prefix [of char_of_byte "[]" old "strlen v + 1" h dd h'] Pair S by simp
        then show ?thesis
          using Pair S Some False old copied [of dd h'] new lookup blocks
          by (auto simp: Map_AddOrUpdate_def put_result_def Let_def)
      qed
    qed
  qed
qed

section \<open>Cloning and destruction\<close>

lemma free_ptrs_live: "list_all ptr_good ps \<Longrightarrow> mem_live (free_ptrs ps h) = mem_live h - int (length ps)"
  by (induction ps arbitrary: h) (auto simp: free_ptrs_def c_free_def ptr_good_def)

lemma Map_CloneVector_loop_result:
  "list_all ptr_good ps \<Longrightarrow> list_all ptr_good done \<Longrightarrow> Map_CloneVector_loop ps done h = (ok, copies, h') \<Longrightarrow>
     list_all ptr_good copies \<and> mem_live h' - int (length copies) = mem_live h - int (length done) \<and>
     (ok \<longrightarrow> map ptr_str copies = map ptr_str done @ map ptr_str ps)"
proof (induction ps "done" h rule: Map_CloneVector_loop.induct)
  case (2 p ps "done" h)
  obtain s where s: "p = Some s" "terminated s" using "2.prems"(1) by (auto simp: ptr_good_def)
  show ?case
  proof (cases "granted h")
    case True
    then have m: "mallocAndStrcpy_s p h = (CRT_OK, Some (cstr s @ [NUL]), after_request 1 h)"
      using mallocAndStrcpy_s_result [OF s(2), of h] s(1) by simp
    show ?thesis
      using "2.IH" [OF m [symmetric] refl refl] "2.prems" m s True by (auto simp: after_request_def)
  next
    case False
    then have "mallocAndStrcpy_s p h = (ENOMEM, None, after_request 1 h)"
      using mallocAndStrcpy_s_result [OF s(2), of h] s(1) by simp
    with "2.prems" False show ?thesis by (auto simp: after_request_def)
  qed
qed auto

lemma Map_CloneVector_result:
  assumes "array_repr arr ss" and "ss \<noteq> []" and "Map_CloneVector arr (length ss) h = (r, h')"
  shows "case r of None \<Rightarrow> mem_live h' = mem_live h
    | Some a \<Rightarrow> list_all ptr_good a \<and> map ptr_str a = ss \<and> mem_live h' = mem_live h + 1 + int (length ss)"
proof -
  obtain ps xs where ps: "arr = Some (ps @ xs)" "list_all ptr_good ps" "map ptr_str ps = ss" "length ps = length ss"
    using array_reprE [OF assms(1,2)] .
  have ptrs: "array_ptrs arr (length ss) = ps" using ps(1,4) by (simp add: array_ptrs_def)
  show ?thesis
  proof (cases "granted h")
    case False
    with assms(3) show ?thesis by (auto simp: Map_CloneVector_def malloc_block_def after_request_def)
  next
    case True
    let ?h1 = "after_request 1 h"
    obtain ok copies h2 where loop: "Map_CloneVector_loop ps [] ?h1 = (ok, copies, h2)" by (metis prod_cases3)
    note res = Map_CloneVector_loop_result [OF ps(2) _ loop, simplified]
    have "length copies = length ss" if ok using res that ps(3) by (metis length_map)
    then show ?thesis
      using assms(3) True loop res ps(3) ptrs free_ptrs_live [of copies h2]
      by (cases ok) (auto simp: Map_CloneVector_def malloc_block_def after_request_def c_free_def)
  qed
qed

lemma Map_Clone_result:
  assumes "map_repr m es" and "Map_Clone (Some m) h = (r, h')"
  shows "case r of None \<Rightarrow> mem_live h' = mem_live h
    | Some m' \<Rightarrow> map_repr m' es \<and> mem_live h' = mem_live h + map_blocks es \<and>
        map_filter_callback m' = (if es = [] then None else map_filter_callback m)"
proof (cases "es = []")
  case True
  with assms show ?thesis by (auto simp: Map_Clone_def map_repr_def map_blocks_def mem_defs split: if_splits)
next
  case False
  have repr: "map_count m = length es" "array_repr (map_keys m) (map fst es)" "array_repr (map_values m) (map snd es)"
    "distinct (map fst es)" using assms(1) by (auto simp: map_repr_def)
  have ne: "map fst es \<noteq> []" "map snd es \<noteq> []" using False by auto
  let ?h1 = "after_request 1 h"
  obtain k h2 where k: "Map_CloneVector (map_keys m) (length es) ?h1 = (k, h2)" by fastforce
  obtain v h3 where v: "Map_CloneVector (map_values m) (length es) h2 = (v, h3)" by fastforce
  note kres = Map_CloneVector_result [OF repr(2) ne(1), simplified, OF k]
  note vres = Map_CloneVector_result [OF repr(3) ne(2), simplified, OF v]
  show ?thesis
  proof (cases "granted h")
    case False
    with assms(2) show ?thesis by (auto simp: Map_Clone_def malloc_struct_def after_request_def)
  next
    case g: True
    show ?thesis
    proof (cases k)
      case None
      with assms(2) g k kres repr(1) False show ?thesis
        by (auto simp: Map_Clone_def malloc_struct_def after_request_def free_struct_def)
    next
      case (Some ks)
      then have ks: "list_all ptr_good ks" "map ptr_str ks = map fst es" "length ks = length es"
        using kres by (auto dest: arg_cong [of _ _ length])
      show ?thesis
      proof (cases v)
        case None
        with assms(2) g k v kres vres Some ks repr(1) False free_ptrs_live [of ks h3] show ?thesis
          by (auto simp: Map_Clone_def malloc_struct_def after_request_def free_struct_def c_free_def)
      next
        case S: (Some vs)
        then have vs: "list_all ptr_good vs" "map ptr_str vs = map snd es" using vres by auto
        have "array_repr (Some (ks @ [])) (map fst es)" "array_repr (Some (vs @ [])) (map snd es)"
          using ks vs ne by (auto intro: array_reprI)
        with assms(2) g k v kres vres Some S repr(1,4) False show ?thesis
          by (auto simp: Map_Clone_def malloc_struct_def after_request_def map_repr_def map_blocks_def)
      qed
    qed
  qed
qed

lemma Map_Destroy_live:
  assumes "map_repr m es"
  shows "mem_live (Map_Destroy (Some m) h) = mem_live h - map_blocks es"
proof (cases "es = []")
  case True
  with assms show ?thesis
    by (simp add: map_repr_def Map_Destroy_def array_ptrs_def c_free_def free_struct_def map_blocks_def)
next
  case False
  have repr: "map_count m = length es" "array_repr (map_keys m) (map fst es)" "array_repr (map_values m) (map snd es)"
    using assms(1) by (auto simp: map_repr_def)
  obtain ps xs where ps: "map_keys m = Some (ps @ xs)" "list_all ptr_good ps" "length ps = length es"
    using array_reprE [OF repr(2)] False by (metis Nil_is_map_conv length_map)
  obtain qs ys where qs: "map_values m = Some (qs @ ys)" "list_all ptr_good qs" "length qs = length es"
    using array_reprE [OF repr(3)] False by (metis Nil_is_map_conv length_map)
  have "mem_live (fold (\<lambda>(k, v) h. c_free v (c_free k h)) (zip as bs) h) = mem_live h - 2 * int (length as)"
    if "list_all ptr_good as" "list_all ptr_good bs" "length as = length bs" for as bs h
    using that(3,1,2) by (induction as bs arbitrary: h rule: list_induct2) (auto simp: c_free_def ptr_good_def)
  from this [OF ps(2) qs(2)] show ?thesis
    using ps qs repr(1) False
    by (simp add: Map_Destroy_def array_ptrs_def c_free_def free_struct_def map_blocks_def)
qed

section \<open>The JSON text\<close>

definition json_string :: "char list \<Rightarrow> char list" where
  "json_string s = CHR 0x22 # concat (map json_char s) @ [CHR 0x22]"

definition json_entry :: "entry \<Rightarrow> char list" where
  "json_entry e = json_string (fst e) @ '':'' @ json_string (snd e)"

definition json_members :: "nat \<Rightarrow> entry list \<Rightarrow> char list" where
  "json_members i es = concat (map (\<lambda>(j, e). (if j > 0 then '','' else []) @ json_entry e) (enumerate i es))"

definition map_json :: "entry list \<Rightarrow> char list" where
  "map_json es = ''{'' @ json_members 0 es @ ''}''"

lemma json_members_simps [simp]:
  "json_members i [] = []"
  "json_members i (e # es) = (if i > 0 then '','' else []) @ json_entry e @ json_members (Suc i) es"
  by (simp_all add: json_members_def)

lemma c_lit_simps [simp]: "terminated (c_lit s)" "c_string s \<Longrightarrow> cstr (c_lit s) = s"
  by (simp_all add: c_lit_def)

lemma json_string_c_string: "c_string s \<Longrightarrow> c_string (json_string s)"
  using json_char_c_string by (induction s) (auto simp: json_string_def)

lemma STRING_delete_live [simp]: "mem_live (STRING_delete (Some x) h) = mem_live h - 2"
  by (simp add: STRING_delete_def free_struct_def c_free_def)

lemma STRING_new_JSON_made:
  assumes "terminated s" and "STRING_new_JSON (Some s) h = (r, h')"
  shows "case r of None \<Rightarrow> mem_live h' = mem_live h
    | Some x \<Rightarrow> str_inv x \<and> str_val x = json_string (cstr s) \<and> mem_live h' = mem_live h + 2"
proof -
  have "cstr (json_string (cstr s) @ [NUL]) = json_string (cstr s)"
    using json_string_c_string [of "cstr s"] by simp
  moreover have "str_s x = json_string (cstr s) @ [NUL] \<and> mem_live h' = mem_live h + 2" if "r = Some x" for x
    using STRING_new_JSON_result [OF assms(1), of h] assms(2) that by (auto simp: json_string_def split: if_splits)
  moreover have "mem_live h' = mem_live h" if "r = None"
    using STRING_new_JSON_result [OF assms(1), of h] assms(2) that by (auto split: if_splits)
  ultimately show ?thesis by (auto simp: str_inv_def str_val_def split: option.splits)
qed

text \<open>A chain of modifications of the result: what it leaves is a readable string, with the value
  wanted if it succeeded, and the same number of blocks.\<close>

definition appended :: "STRING \<Rightarrow> heap \<Rightarrow> char list \<Rightarrow> rc \<times> STRING option \<times> heap \<Rightarrow> bool" where
  "appended x h t res \<longleftrightarrow>
     (case res of (r, x', h') \<Rightarrow> mem_live h' = mem_live h \<and>
        (\<exists>y. x' = Some y \<and> str_inv y \<and> (r = Success \<longrightarrow> str_val y = str_val x @ t)))"

lemma modified_appended: "str_inv x \<Longrightarrow> modified x h (str_val x @ t) res \<Longrightarrow> appended x h t res"
  by (cases "fst res") (auto simp: modified_def appended_def split: prod.splits)

lemma appended_chain:
  assumes "appended x h t (r, x', h')"
    and "\<And>y. x' = Some y \<Longrightarrow> str_inv y \<Longrightarrow> appended y h' u (f x' h')"
  shows "appended x h (t @ u) (if r \<noteq> Success then (Failure, x', h') else f x' h')"
  using assms by (cases r) (auto simp: appended_def split: prod.splits)

lemma append_entry_appended:
  assumes "str_inv x" and "str_inv key" and "str_inv val"
  shows "appended x h ((if i > 0 then '','' else []) @ str_val key @ '':'' @ str_val val)
    (append_entry i key val (Some x) h)"
proof -
  let ?cs = "\<lambda>s h. STRING_concat_with_STRING s (Some val) h"
  let ?f2 = "\<lambda>s h. let (r3, s3, h3) = STRING_concat s (Some (c_lit '':'')) h in
      if r3 \<noteq> Success then (Failure, s3, h3) else ?cs s3 h3"
  let ?f1 = "\<lambda>s h. let (r2, s2, h2) = STRING_concat_with_STRING s (Some key) h in
      if r2 \<noteq> Success then (Failure, s2, h2) else ?f2 s2 h2"
  have str: "appended y h1 (str_val z) (STRING_concat_with_STRING (Some y) (Some z) h1)"
    if "str_inv y" "str_inv z" for y z h1
    using modified_appended [OF that(1) STRING_concat_with_STRING_modified [OF that, of h1]] .
  have lit: "appended y h1 s (STRING_concat (Some y) (Some (c_lit s)) h1)" if "str_inv y" "c_string s" for y h1 s
    using modified_appended [OF that(1) STRING_concat_modified [OF that(1), of "c_lit s" h1]] that(2) by simp
  have f2: "appended y h2 ('':'' @ str_val val) (?f2 (Some y) h2)" if y: "str_inv y" for y h2
  proof -
    obtain r3 s3 h3 where e: "STRING_concat (Some y) (Some (c_lit '':'')) h2 = (r3, s3, h3)" by (metis prod_cases3)
    have "appended y h2 '':'' (r3, s3, h3)" using lit [OF y, of "'':''" h2] e by simp
    from appended_chain [OF this, of "str_val val" ?cs] str [OF _ assms(3)] show ?thesis by (simp add: e)
  qed
  have f1: "appended y h1 (str_val key @ '':'' @ str_val val) (?f1 (Some y) h1)" if y: "str_inv y" for y h1
  proof -
    obtain r2 s2 h2 where e: "STRING_concat_with_STRING (Some y) (Some key) h1 = (r2, s2, h2)" by (metis prod_cases3)
    have "appended y h1 (str_val key) (r2, s2, h2)" using str [OF y assms(2), of h1] e by simp
    from appended_chain [OF this, of "'':'' @ str_val val" ?f2] f2 show ?thesis by (simp add: e)
  qed
  obtain r1 s1 h1 where e:
    "(if i > 0 then STRING_concat (Some x) (Some (c_lit '','')) h else (Success, Some x, h)) = (r1, s1, h1)"
    by (metis prod_cases3)
  have "appended x h (if i > 0 then '','' else []) (r1, s1, h1)"
    using lit [OF assms(1), of "'',''" h] assms(1) unfolding e [symmetric] by (simp add: appended_def)
  from appended_chain [OF this, of "str_val key @ '':'' @ str_val val" ?f1] f1 show ?thesis
    by (simp only: append_entry_def Let_def e prod.case)
qed

lemma Map_ToJSON_loop_result:
  assumes "list_all ptr_good (map fst kvs)" and "list_all ptr_good (map snd kvs)" and "str_inv x"
    and "Map_ToJSON_loop i kvs (Some x) h = (r, h')"
  shows "case r of None \<Rightarrow> mem_live h' = mem_live h - 2
    | Some y \<Rightarrow> str_inv y \<and> mem_live h' = mem_live h \<and>
        str_val y = str_val x @ json_members i (map (\<lambda>(k, v). (ptr_str k, ptr_str v)) kvs)"
  using assms
proof (induction kvs arbitrary: i x h)
  case (Cons kv kvs)
  obtain k v where pair: "kv = (k, v)" by fastforce
  note prems = Cons.prems [unfolded pair]
  obtain ks vs where kv: "k = Some ks" "v = Some vs" "terminated ks" "terminated vs"
    using prems(1,2) by (auto simp: ptr_good_def)
  obtain k1 h1 where k1: "STRING_new_JSON k h = (k1, h1)" by fastforce
  note kres = STRING_new_JSON_made [OF kv(3) k1 [unfolded kv(1)]]
  show ?case
  proof (cases k1)
    case None
    then show ?thesis using prems(4) k1 kres by auto
  next
    case (Some key)
    obtain v1 h2 where v1: "STRING_new_JSON v h1 = (v1, h2)" by fastforce
    note vres = STRING_new_JSON_made [OF kv(4) v1 [unfolded kv(2)]]
    show ?thesis
    proof (cases v1)
      case None
      then show ?thesis using prems(4) k1 v1 kres vres Some by auto
    next
      case S: (Some val)
      obtain rr rs h3 where ap: "append_entry i key val (Some x) h2 = (rr, rs, h3)" by (metis prod_cases3)
      have inv: "str_inv key" "str_inv val" using kres vres Some S by auto
      from append_entry_appended [OF prems(3) inv, of h2 i] ap obtain y
        where y: "rs = Some y" "str_inv y" "mem_live h3 = mem_live h2"
          "rr = Success \<longrightarrow> str_val y = str_val x @ (if i > 0 then '','' else []) @ str_val key @ '':'' @ str_val val"
        by (auto simp: appended_def)
      show ?thesis
      proof (cases rr)
        case Failure
        then show ?thesis using prems(4) k1 v1 kres vres Some S ap y by auto
      next
        case Success
        have rest: "Map_ToJSON_loop (Suc i) kvs rs (STRING_delete (Some key) (STRING_delete (Some val) h3)) = (r, h')"
          using prems(4) k1 v1 Some S ap y Success by simp
        have IH: "case r of None \<Rightarrow> mem_live h' = mem_live (STRING_delete (Some key) (STRING_delete (Some val) h3)) - 2
          | Some z \<Rightarrow> str_inv z \<and> mem_live h' = mem_live (STRING_delete (Some key) (STRING_delete (Some val) h3)) \<and>
              str_val z = str_val y @ json_members (Suc i) (map (\<lambda>(k, v). (ptr_str k, ptr_str v)) kvs)"
          using Cons.IH [OF _ _ y(2) rest [unfolded y(1)]] prems(1,2) by auto
        then show ?thesis
          using y Success kres vres Some S kv
          by (auto simp: json_entry_def pair split: option.splits)
      qed
    qed
  qed
qed auto

section \<open>The map as a function\<close>

definition map_entries :: "MAP_HANDLE_DATA \<Rightarrow> entry list" where
  "map_entries m =
     zip (map ptr_str (array_ptrs (map_keys m) (map_count m))) (map ptr_str (array_ptrs (map_values m) (map_count m)))"

definition map_inv :: "MAP_HANDLE_DATA \<Rightarrow> bool" where
  "map_inv m \<longleftrightarrow> map_repr m (map_entries m)"

definition map_abs :: "MAP_HANDLE_DATA \<Rightarrow> (char list \<rightharpoonup> char list)" where
  "map_abs m = map_of (map_entries m)"

lemma array_ptrs_repr: "array_repr arr ss \<Longrightarrow> map ptr_str (array_ptrs arr (length ss)) = ss"
  by (cases "ss = []") (auto simp: array_ptrs_def array_repr_def)

lemma map_repr_entries: "map_repr m es \<Longrightarrow> map_entries m = es"
  using array_ptrs_repr [of "map_keys m" "map fst es"] array_ptrs_repr [of "map_values m" "map snd es"]
  by (simp add: map_repr_def map_entries_def zip_map_fst_snd)

lemma map_invI: "map_repr m es \<Longrightarrow> map_inv m \<and> map_abs m = map_of es"
  by (simp add: map_inv_def map_abs_def map_repr_entries)

text \<open>The states of a map: created or cloned, then changed in any order.\<close>

inductive map_step :: "MAP_HANDLE_DATA \<times> heap \<Rightarrow> MAP_HANDLE_DATA \<times> heap \<Rightarrow> bool" where
  step_add: "terminated k \<Longrightarrow> terminated v \<Longrightarrow> Map_Add (Some m) (Some k) (Some v) h = (r, Some m', h') \<Longrightarrow>
     map_step (m, h) (m', h')"
| step_update: "terminated k \<Longrightarrow> terminated v \<Longrightarrow>
     Map_AddOrUpdate (Some m) (Some k) (Some v) h = (r, Some m', h') \<Longrightarrow> map_step (m, h) (m', h')"
| step_delete: "terminated k \<Longrightarrow> Map_Delete (Some m) (Some k) h = (r, Some m', h') \<Longrightarrow> map_step (m, h) (m', h')"

inductive map_reach :: "heap \<Rightarrow> MAP_HANDLE_DATA \<times> heap \<Rightarrow> bool" for h0 where
  reach_create: "Map_Create f h0 = (Some m, h) \<Longrightarrow> map_reach h0 (m, h)"
| reach_clone: "map_inv m0 \<Longrightarrow> Map_Clone (Some m0) h0 = (Some m, h) \<Longrightarrow> map_reach h0 (m, h)"
| reach_step: "map_reach h0 s \<Longrightarrow> map_step s t \<Longrightarrow> map_reach h0 t"

inductive_cases map_stepE: "map_step (m, h) (m', h')"

lemma put_result_good:
  assumes "put_result m es k v h (r, Some m', h')"
  shows "\<exists>fs. map_repr m' fs \<and> mem_live h' - map_blocks fs = mem_live h - map_blocks es"
  using assms unfolding put_result_def by (cases "r = MAP_OK") auto

lemma map_step_good:
  assumes "map_step (m, h) (m', h')" and "map_repr m es"
  shows "\<exists>fs. map_repr m' fs \<and> mem_live h' - map_blocks fs = mem_live h - map_blocks es"
proof (rule map_stepE [OF assms(1)])
  fix k v r
  assume "terminated k" "terminated v" "Map_Add (Some m) (Some k) (Some v) h = (r, Some m', h')"
  then show ?thesis using put_result_good Map_Add_result(1) [OF assms(2), of k v h] by metis
next
  fix k v r
  assume "terminated k" "terminated v" "Map_AddOrUpdate (Some m) (Some k) (Some v) h = (r, Some m', h')"
  then show ?thesis using put_result_good Map_AddOrUpdate_result [OF assms(2), of k v h] by metis
next
  fix k r
  assume "terminated k" "Map_Delete (Some m) (Some k) h = (r, Some m', h')"
  then show ?thesis using Map_Delete_result [OF assms(2), of k h] assms(2) by (auto split: if_splits)
qed

lemma map_reach_good:
  "map_reach h0 s \<Longrightarrow> \<exists>es. map_repr (fst s) es \<and> mem_live (snd s) = mem_live h0 + map_blocks es"
proof (induction rule: map_reach.induct)
  case (reach_create f m h)
  then have "map_repr m []" "mem_live h = mem_live h0 + 1"
    by (auto simp: Map_Create_def map_repr_def mem_defs split: if_splits)
  then show ?case by (intro exI [of _ "[]"]) (simp add: map_blocks_def)
next
  case (reach_clone m0 m h)
  then show ?case using Map_Clone_result [of m0 "map_entries m0" h0 "Some m" h] by (auto simp: map_inv_def)
next
  case (reach_step s t)
  then obtain es where es: "map_repr (fst s) es" "mem_live (snd s) = mem_live h0 + map_blocks es" by blast
  with map_step_good [of "fst s" "snd s" "fst t" "snd t" es] reach_step(2) obtain fs
    where "map_repr (fst t) fs" "mem_live (snd t) - map_blocks fs = mem_live (snd s) - map_blocks es" by auto
  with es show ?case by (intro exI [of _ fs]) simp
qed

section \<open>The interface of a dictionary\<close>

text \<open>What clients of a string map rely on. The contract is stated for total updates; the map of
  the code offers it as long as the allocator grants its requests and no filter is set.\<close>

locale dictionary =
  fixes valid :: "'m \<Rightarrow> bool" and lookup :: "'m \<Rightarrow> 'k \<Rightarrow> 'v option"
    and update :: "'m \<Rightarrow> 'k \<Rightarrow> 'v \<Rightarrow> 'm" and remove :: "'m \<Rightarrow> 'k \<Rightarrow> 'm"
  assumes update_valid: "valid m \<Longrightarrow> valid (update m k v)"
    and remove_valid: "valid m \<Longrightarrow> valid (remove m k)"
    and lookup_update: "valid m \<Longrightarrow> lookup (update m k v) = (lookup m)(k \<mapsto> v)"
    and lookup_remove: "valid m \<Longrightarrow> lookup (remove m k) = (lookup m)(k := None)"
begin

text \<open>Any program of updates and removals computes what it says on functions.\<close>

fun run :: "('k \<times> 'v option) list \<Rightarrow> 'm \<Rightarrow> 'm" where
  "run [] m = m"
| "run ((k, Some v) # ops) m = run ops (update m k v)"
| "run ((k, None) # ops) m = run ops (remove m k)"

fun run_spec :: "('k \<times> 'v option) list \<Rightarrow> ('k \<rightharpoonup> 'v) \<Rightarrow> ('k \<rightharpoonup> 'v)" where
  "run_spec [] f = f"
| "run_spec ((k, w) # ops) f = run_spec ops (f(k := w))"

lemma run_valid: "valid m \<Longrightarrow> valid (run ops m)"
  by (induction ops m rule: run.induct) (auto simp: update_valid remove_valid)

lemma lookup_run: "valid m \<Longrightarrow> lookup (run ops m) = run_spec ops (lookup m)"
  by (induction ops m rule: run.induct)
    (auto simp: update_valid remove_valid lookup_update lookup_remove)

text \<open>The last write to a key is the one that is read.\<close>

lemma lookup_last_write:
  assumes "valid m"
  shows "lookup (run (ops @ [(k, w)]) m) k = w"
proof -
  have "run_spec (ops @ [(k, w)]) f k = w" for f
    by (induction ops f rule: run_spec.induct) (simp_all del: fun_upd_apply add: fun_upd_same)
  then show ?thesis using lookup_run [OF assms] by metis
qed

end

text \<open>The map of the code in an environment that grants every request, with no filter: keys and
  values are the strings without terminator.\<close>

typedef name = "{s :: char list. c_string s}"
  morphisms name_str Name
  by (rule exI [of _ "[]"]) simp

type_synonym dict = "MAP_HANDLE_DATA \<times> heap"

definition dict_valid :: "dict \<Rightarrow> bool" where
  "dict_valid s \<longleftrightarrow> map_inv (fst s) \<and> map_filter_callback (fst s) = None \<and> (\<forall>n. mem_ok (snd s) n)"

definition dict_lookup :: "dict \<Rightarrow> name \<Rightarrow> name option" where
  "dict_lookup s k =
     map_option (\<lambda>p. Name (cstr p)) (Map_GetValueFromKey (Some (fst s)) (Some (c_lit (name_str k))))"

definition dict_update :: "dict \<Rightarrow> name \<Rightarrow> name \<Rightarrow> dict" where
  "dict_update s k v =
     (case Map_AddOrUpdate (Some (fst s)) (Some (c_lit (name_str k))) (Some (c_lit (name_str v))) (snd s) of
        (_, Some m, h) \<Rightarrow> (m, h) | _ \<Rightarrow> s)"

definition dict_remove :: "dict \<Rightarrow> name \<Rightarrow> dict" where
  "dict_remove s k =
     (case Map_Delete (Some (fst s)) (Some (c_lit (name_str k))) (snd s) of (_, Some m, h) \<Rightarrow> (m, h) | _ \<Rightarrow> s)"

lemma name_str_c_string [simp]: "c_string (name_str k)"
  using name_str [of k] by simp

lemma name_lit [simp]: "terminated (c_lit (name_str k))" "cstr (c_lit (name_str k)) = name_str k"
  by simp_all

lemma Map_GetValueFromKey_lookup:
  assumes "map_repr m es"
  shows "map_option cstr (Map_GetValueFromKey (Some m) (Some k)) = map_of es (cstr k)"
proof (cases "findKey m k")
  case None
  then show ?thesis using findKey_lookup [OF assms, of k] by (simp add: Map_GetValueFromKey_def)
next
  case (Some i)
  then have i: "i < length es" "map_of es (cstr k) = Some (snd (es ! i))"
    using findKey_lookup [OF assms, of k] by auto
  have "array_repr (map_values m) (map snd es)" using assms by (simp add: map_repr_def)
  from array_at(1) [OF this, of i] i Some show ?thesis
    by (auto simp: Map_GetValueFromKey_def ptr_good_def)
qed

lemma dict_lookup_abs:
  assumes "map_inv (fst s)"
  shows "dict_lookup s k = map_option Name (map_abs (fst s) (name_str k))"
proof -
  have "map_option (\<lambda>p. Name (cstr p)) x = map_option Name (map_option cstr x)" for x
    by (simp add: option.map_comp comp_def)
  then show ?thesis
    using Map_GetValueFromKey_lookup [OF assms [unfolded map_inv_def], of "c_lit (name_str k)"]
    by (simp add: dict_lookup_def map_abs_def)
qed

text \<open>With every request granted the operations succeed.\<close>

lemma realloc_granted:
  assumes "\<forall>n. mem_ok h n"
  obtains d h' where "realloc_block c p k h = (Some d, h')" "\<forall>n. mem_ok h' n"
  using assms that by (cases p) (auto simp: realloc_block_def malloc_block_def after_request_def granted_def)

lemma insertNewKeyValue_granted:
  assumes "\<forall>n. mem_ok h n" and "terminated k" and "terminated v"
  shows "\<exists>m' h'. insertNewKeyValue m k v h = (Success, m', h') \<and> (\<forall>n. mem_ok h' n)"
proof -
  have g: "granted x" if "\<forall>n. mem_ok x n" for x using that by (simp add: granted_def)
  obtain ks g1 where ks: "realloc_block ptr_cell (map_keys m) (map_count m + 1) h = (Some ks, g1)" "\<forall>n. mem_ok g1 n"
    using realloc_granted [OF assms(1)] .
  obtain vs h1 where vs: "realloc_block ptr_cell (map_values m) (map_count m + 1) g1 = (Some vs, h1)" "\<forall>n. mem_ok h1 n"
    using realloc_granted [OF ks(2)] .
  obtain m1 where inc: "Map_IncreaseStorageKeysValues m h = (Success, m1, h1)" "\<forall>n. mem_ok h1 n"
    using ks vs by (simp add: Map_IncreaseStorageKeysValues_def Let_def)
  have h2: "\<forall>n. mem_ok (after_request 1 h1) n" using inc(2) by (simp add: after_request_def)
  show ?thesis
    using inc g [OF inc(2)] g [OF h2] h2 mallocAndStrcpy_s_result [OF assms(2)] mallocAndStrcpy_s_result [OF assms(3)]
    by (simp add: insertNewKeyValue_def Let_def after_request_def)
qed

lemma Map_AddOrUpdate_granted:
  assumes "\<forall>n. mem_ok h n" and "terminated k" and "terminated v" and "map_filter_callback m = None"
  shows "\<exists>m' h'. Map_AddOrUpdate (Some m) (Some k) (Some v) h = (MAP_OK, Some m', h') \<and> (\<forall>n. mem_ok h' n)"
proof (cases "findKey m k")
  case None
  then show ?thesis
    using insertNewKeyValue_granted [OF assms(1-3), of m] assms(4)
    by (auto simp: Map_AddOrUpdate_def filter_rejects_def)
next
  case (Some i)
  obtain d h' where "realloc_block char_of_byte (load_ptr (map_values m) i) (strlen v + 1) h = (Some d, h')"
    "\<forall>n. mem_ok h' n" using realloc_granted [OF assms(1)] .
  then show ?thesis
    using Some assms(4) by (simp add: Map_AddOrUpdate_def filter_rejects_def Let_def)
qed

lemma realloc_mem_ok: "realloc_block c p n h = (d, h') \<Longrightarrow> mem_ok h' = mem_ok h"
  by (auto simp: realloc_block_def malloc_block_def after_request_def split: option.splits)

lemma Map_Delete_mem_ok:
  "Map_Delete (Some m) (Some k) h = (r, x, h') \<Longrightarrow> mem_ok h' = mem_ok h"
  by (auto simp: Map_Delete_def Map_DecreaseStorageKeysValues_def Let_def c_free_def dest!: realloc_mem_ok
      split: option.splits if_splits prod.splits)

interpretation string_map: dictionary dict_valid dict_lookup dict_update dict_remove
proof unfold_locales
  fix s k v
  assume "dict_valid s"
  then have s: "map_repr (fst s) (map_entries (fst s))" "map_filter_callback (fst s) = None" "\<forall>n. mem_ok (snd s) n"
    by (auto simp: dict_valid_def map_inv_def)
  obtain m h where up: "Map_AddOrUpdate (Some (fst s)) (Some (c_lit (name_str k))) (Some (c_lit (name_str v))) (snd s) =
      (MAP_OK, Some m, h)" "\<forall>n. mem_ok h n"
    using Map_AddOrUpdate_granted [OF s(3) name_lit(1) name_lit(1) s(2)] by blast
  then have d: "dict_update s k v = (m, h)" by (simp add: dict_update_def)
  have inv: "map_inv m" "map_abs m = (map_abs (fst s))(name_str k \<mapsto> name_str v)" "map_filter_callback m = None"
    using Map_AddOrUpdate_result [OF s(1) name_lit(1) name_lit(1), of k v "snd s"] up s(2)
    by (auto simp: put_result_def map_abs_def dest!: map_invI)
  show "dict_valid (dict_update s k v)" using d inv up(2) by (simp add: dict_valid_def)
  show "dict_lookup (dict_update s k v) = (dict_lookup s)(k \<mapsto> v)"
    using d inv s(1) by (auto simp: fun_eq_iff dict_lookup_abs map_inv_def name_str_inverse name_str_inject)
next
  fix s k
  assume "dict_valid s"
  then have s: "map_repr (fst s) (map_entries (fst s))" "map_filter_callback (fst s) = None" "\<forall>n. mem_ok (snd s) n"
    by (auto simp: dict_valid_def map_inv_def)
  let ?k = "c_lit (name_str k)"
  obtain r m h where del: "Map_Delete (Some (fst s)) (Some ?k) (snd s) = (r, Some m, h)"
    and inv: "map_inv m" "map_abs m = (map_abs (fst s))(name_str k := None)" "map_filter_callback m = None"
  proof (cases "name_str k \<in> fst ` set (map_entries (fst s))")
    case True
    let ?es = "map_entries (fst s)"
    have dist: "distinct (map fst ?es)" using s(1) by (simp add: map_repr_def)
    from True Map_Delete_result [OF s(1) name_lit(1), of k "snd s"] obtain m' h' i
      where m': "Map_Delete (Some (fst s)) (Some ?k) (snd s) = (MAP_OK, Some m', h')" "i < length ?es"
        "fst (?es ! i) = name_str k" "map_repr m' (delete_at ?es i)"
        "map_filter_callback m' = (if length ?es = 1 then None else map_filter_callback (fst s))"
      by auto
    have "map_abs m' = (map_abs (fst s))(name_str k := None)"
      using delete_at_lookup [OF dist m'(2)] m'(3) map_invI [OF m'(4)] by (simp add: map_abs_def)
    with m' s(2) map_invI [OF m'(4)] show ?thesis by (intro that [of MAP_OK m' h']) auto
  next
    case False
    then have "map_of (map_entries (fst s)) (name_str k) = None" by (simp add: map_of_eq_None_iff)
    then have "(map_abs (fst s))(name_str k := None) = map_abs (fst s)"
      by (simp add: map_abs_def fun_upd_idem)
    with False show ?thesis
      using Map_Delete_result [OF s(1) name_lit(1), of k "snd s"] s that [of MAP_KEYNOTFOUND "fst s" "snd s"]
      by (auto simp: map_inv_def)
  qed
  then have d: "dict_remove s k = (m, h)" by (simp add: dict_remove_def)
  have "mem_ok h = mem_ok (snd s)" using Map_Delete_mem_ok [OF del] .
  with d inv s(3) show "dict_valid (dict_remove s k)" by (simp add: dict_valid_def)
  show "dict_lookup (dict_remove s k) = (dict_lookup s)(k := None)"
    using d inv s(1) by (auto simp: fun_eq_iff dict_lookup_abs map_inv_def name_str_inject)
qed

lemma map_ptrs_good:
  assumes "map_repr m es"
  shows "list_all ptr_good (array_ptrs (map_keys m) (map_count m)) \<and>
    list_all ptr_good (array_ptrs (map_values m) (map_count m))"
proof -
  have "list_all ptr_good (array_ptrs arr (length ss))" if "array_repr arr ss" for arr ss
    using that by (cases "ss = []") (auto simp: array_repr_def array_ptrs_def dest: arg_cong [of _ _ length])
  from this [of "map_keys m" "map fst es"] this [of "map_values m" "map snd es"] assms show ?thesis
    by (simp add: map_repr_def)
qed

section \<open>Properties\<close>

text \<open>C24: Every map reachable by creation or cloning and any sequence of insertions, updates and
  deletions, successful or not, satisfies the invariant: both arrays hold readable strings up
  to the count, are null exactly when it is zero, and the keys are distinct. It owns exactly
  the structure, two arrays and two strings for each entry, so destroying it gives back every
  block that was allocated since the start.\<close>

theorem map_reachable_good:
  assumes "map_reach h0 (m, h)"
  shows "map_inv m \<and> mem_live (Map_Destroy (Some m) h) = mem_live h0"
proof -
  obtain es where "map_repr m es" "mem_live h = mem_live h0 + map_blocks es"
    using map_reach_good [OF assms] by auto
  then show ?thesis using map_invI [of m es] Map_Destroy_live [of m es h] by simp
qed

theorem map_reachable_good_witness:
  "\<exists>m h. map_reach heap0 (m, h) \<and> map_inv m \<and> map_count m = 1 \<and> mem_live (Map_Destroy (Some m) h) = 0"
proof -
  let ?m0 = "\<lparr>map_keys = None, map_values = None, map_count = 0, map_filter_callback = None\<rparr>"
  let ?k = "c_lit ''a''" and ?v = "c_lit ''b''"
  obtain h1 where c: "Map_Create None heap0 = (Some ?m0, h1)" "\<forall>n. mem_ok h1 n"
    by (simp add: Map_Create_def mem_defs heap0_def)
  obtain m h where u: "Map_AddOrUpdate (Some ?m0) (Some ?k) (Some ?v) h1 = (MAP_OK, Some m, h)"
    using Map_AddOrUpdate_granted [OF c(2), of ?k ?v ?m0] by auto
  have "map_step (?m0, h1) (m, h)" using u by (intro step_update [of ?k ?v]) simp_all
  with c(1) have r: "map_reach heap0 (m, h)" by (blast intro: map_reach.intros)
  have "map_repr ?m0 []" by (simp add: map_repr_def)
  then obtain fs where fs: "map_repr m fs" "map_of fs = [''a'' \<mapsto> ''b'']"
    using Map_AddOrUpdate_result [of ?m0 "[]" ?k ?v h1] u by (auto simp: put_result_def)
  then have "distinct (map fst fs)" "fst ` set fs = {''a''}"
    by (simp_all add: map_repr_def dom_map_of_conv_image_fst [symmetric])
  then have "length fs = 1"
    using distinct_card [of "map fst fs"] by simp
  then have "map_count m = 1" using fs(1) by (simp add: map_repr_def)
  with map_reachable_good [OF r] r show ?thesis by (auto simp: heap0_def)
qed

text \<open>C23: \<open>Map_AddOrUpdate\<close> refines the update of a function: when it returns \<open>MAP_OK\<close> the map
  denotes the old function with the key set to the value, whether the key was there or not;
  with every other result it denotes the old function. The invariant holds after both.\<close>

theorem Map_AddOrUpdate_refines:
  assumes "map_inv m" and "terminated k" and "terminated v"
    and "Map_AddOrUpdate (Some m) (Some k) (Some v) h = (r, x, h')"
  shows "\<exists>m'. x = Some m' \<and> map_inv m' \<and>
    map_abs m' = (if r = MAP_OK then (map_abs m)(cstr k \<mapsto> cstr v) else map_abs m)"
  using Map_AddOrUpdate_result [OF assms(1) [unfolded map_inv_def] assms(2,3), of h] assms(4)
  by (auto simp: put_result_def map_abs_def dest!: map_invI)

definition one_entry :: MAP_HANDLE_DATA where
  "one_entry = \<lparr>map_keys = Some [Some (c_lit ''k'')], map_values = Some [Some (c_lit ''v'')], map_count = 1,
     map_filter_callback = Some (\<lambda>k v. 1)\<rparr>"

lemma one_entry_repr: "map_repr one_entry [(''k'', ''v'')]"
proof -
  have "array_repr (Some ([Some (c_lit s)] @ [])) [s]" if "c_string s" for s
    using that by (intro array_reprI [OF refl]) simp_all
  from this [of "''k''"] this [of "''v''"] show ?thesis by (simp add: map_repr_def one_entry_def)
qed

lemma one_entry_inv: "map_inv one_entry" "map_abs one_entry = [''k'' \<mapsto> ''v'']"
  using map_invI [OF one_entry_repr] by auto

theorem Map_AddOrUpdate_refines_witness:
  "\<exists>r m' h'. Map_AddOrUpdate (Some one_entry) (Some (c_lit ''k'')) (Some (c_lit ''w'')) heap0 = (r, Some m', h') \<and>
     r = MAP_FILTER_REJECT \<and> map_abs m' = [''k'' \<mapsto> ''v'']"
proof -
  obtain r x h' where res: "Map_AddOrUpdate (Some one_entry) (Some (c_lit ''k'')) (Some (c_lit ''w'')) heap0 = (r, x, h')"
    by (metis prod_cases3)
  then have "r = MAP_FILTER_REJECT"
    by (auto simp: Map_AddOrUpdate_def filter_rejects_def one_entry_def)
  with Map_AddOrUpdate_refines [OF one_entry_inv(1) _ _ res] res one_entry_inv(2) show ?thesis by auto
qed

text \<open>\<open>Map_Add\<close> never overwrites: it returns \<open>MAP_KEYEXISTS\<close> exactly when the key is there,
  and then, as with every result but \<open>MAP_OK\<close>, the function is the old one; with \<open>MAP_OK\<close> it
  is the old one extended by the pair.\<close>

theorem Map_Add_refines:
  assumes "map_inv m" and "terminated k" and "terminated v"
    and "Map_Add (Some m) (Some k) (Some v) h = (r, x, h')"
  shows "(r = MAP_KEYEXISTS \<longleftrightarrow> cstr k \<in> dom (map_abs m)) \<and>
    (\<exists>m'. x = Some m' \<and> map_inv m' \<and>
       map_abs m' = (if r = MAP_OK then (map_abs m)(cstr k \<mapsto> cstr v) else map_abs m))"
  using Map_Add_result [OF assms(1) [unfolded map_inv_def] assms(2,3), of h] assms(4)
  by (auto simp: put_result_def map_abs_def dom_map_of_conv_image_fst dest!: map_invI)

theorem Map_Add_refines_witness:
  "fst (Map_Add (Some one_entry) (Some (c_lit ''k'')) (Some (c_lit ''w'')) heap0) = MAP_KEYEXISTS"
proof -
  obtain r x h' where res: "Map_Add (Some one_entry) (Some (c_lit ''k'')) (Some (c_lit ''w'')) heap0 = (r, x, h')"
    by (metis prod_cases3)
  from Map_Add_refines [OF one_entry_inv(1) _ _ res] show ?thesis by (simp add: res one_entry_inv(2))
qed

text \<open>\<open>Map_Delete\<close> cannot fail for lack of memory: it returns \<open>MAP_OK\<close> exactly when the key
  is there, and then the map denotes the old function without the key; otherwise it returns
  \<open>MAP_KEYNOTFOUND\<close> and changes nothing.\<close>

theorem Map_Delete_refines:
  assumes "map_inv m" and "terminated k" and "Map_Delete (Some m) (Some k) h = (r, x, h')"
  shows "r = (if cstr k \<in> dom (map_abs m) then MAP_OK else MAP_KEYNOTFOUND) \<and>
    (\<exists>m'. x = Some m' \<and> map_inv m' \<and> map_abs m' = (map_abs m)(cstr k := None))"
proof -
  let ?es = "map_entries m"
  have repr: "map_repr m ?es" using assms(1) by (simp add: map_inv_def)
  have dist: "distinct (map fst ?es)" using repr by (simp add: map_repr_def)
  show ?thesis
  proof (cases "cstr k \<in> fst ` set ?es")
    case True
    with Map_Delete_result [OF repr assms(2), of h] assms(3) obtain m' i
      where "r = MAP_OK" "x = Some m'" "i < length ?es" "fst (?es ! i) = cstr k" "map_repr m' (delete_at ?es i)"
      by auto
    then show ?thesis
      using True delete_at_lookup [OF dist, of i] map_invI [of m' "delete_at ?es i"]
      by (auto simp: map_abs_def dom_map_of_conv_image_fst)
  next
    case False
    then have "map_of ?es (cstr k) = None" by (simp add: map_of_eq_None_iff)
    with False show ?thesis
      using Map_Delete_result [OF repr assms(2), of h] assms(1,3)
      by (simp add: map_abs_def dom_map_of_conv_image_fst fun_upd_idem)
  qed
qed

theorem Map_Delete_refines_witness:
  "\<exists>m' h'. Map_Delete (Some one_entry) (Some (c_lit ''k'')) (heap0\<lparr>mem_ok := \<lambda>n. False\<rparr>) = (MAP_OK, Some m', h') \<and>
     map_abs m' = Map.empty"
proof -
  obtain r x h' where res: "Map_Delete (Some one_entry) (Some (c_lit ''k'')) (heap0\<lparr>mem_ok := \<lambda>n. False\<rparr>) = (r, x, h')"
    by (metis prod_cases3)
  from Map_Delete_refines [OF one_entry_inv(1) _ res] show ?thesis by (auto simp: res one_entry_inv(2))
qed

text \<open>The queries answer from the function the map denotes: \<open>Map_GetValueFromKey\<close> gives the
  value or null, \<open>Map_ContainsKey\<close> whether there is one, \<open>Map_ContainsValue\<close> whether some key
  has it.\<close>

theorem Map_queries:
  assumes "map_inv m"
  shows "map_option cstr (Map_GetValueFromKey (Some m) (Some k)) = map_abs m (cstr k) \<and>
    Map_ContainsKey (Some m) (Some k) = (MAP_OK, Some (cstr k \<in> dom (map_abs m))) \<and>
    Map_ContainsValue (Some m) (Some k) = (MAP_OK, Some (cstr k \<in> ran (map_abs m)))"
proof -
  have repr: "map_repr m (map_entries m)" using assms by (simp add: map_inv_def)
  then have dist: "distinct (map fst (map_entries m))" by (simp add: map_repr_def)
  have "(findKey m k \<noteq> None) = (cstr k \<in> dom (map_abs m))"
    using findKey_lookup [OF repr, of k] by (auto simp: map_abs_def split: option.splits)
  moreover have "(findValue m k \<noteq> None) = (cstr k \<in> ran (map_abs m))"
    using findValue_spec [OF repr, of k] ran_distinct [OF dist] by (simp add: map_abs_def)
  ultimately show ?thesis
    using Map_GetValueFromKey_lookup [OF repr, of k]
    by (simp add: map_abs_def Map_ContainsKey_def Map_ContainsValue_def)
qed

theorem Map_queries_witness:
  "map_option cstr (Map_GetValueFromKey (Some one_entry) (Some (c_lit ''k''))) = Some ''v''"
  using Map_queries [OF one_entry_inv(1), of "c_lit ''k''"] one_entry_inv(2) by simp

text \<open>\<open>Map_Clone\<close> either fails and keeps no block, or gives a map with the same function; but
  the filter of an empty map is not copied, so the clone of a guarded empty map accepts every
  pair.\<close>

theorem Map_Clone_copies:
  assumes "map_inv m" and "Map_Clone (Some m) h = (r, h')"
  shows "case r of
      None \<Rightarrow> mem_live h' = mem_live h
    | Some m' \<Rightarrow> map_inv m' \<and> map_abs m' = map_abs m \<and>
        map_filter_callback m' = (if map_abs m = Map.empty then None else map_filter_callback m)"
  using Map_Clone_result [OF assms(1) [unfolded map_inv_def] assms(2)]
  by (auto simp: map_abs_def split: option.splits dest!: map_invI)

theorem Map_Clone_copies_witness:
  "\<exists>m' h'. Map_Clone (Some \<lparr>map_keys = None, map_values = None, map_count = 0, map_filter_callback = Some (\<lambda>k v. 1)\<rparr>) heap0
      = (Some m', h') \<and> map_filter_callback m' = None"
proof -
  let ?m = "\<lparr>map_keys = None, map_values = None, map_count = 0, map_filter_callback = Some (\<lambda>k v. 1)\<rparr>"
  have "map_repr ?m []" by (simp add: map_repr_def)
  then have inv: "map_inv ?m" "map_abs ?m = Map.empty" using map_invI [of ?m "[]"] by auto
  obtain r h' where res: "Map_Clone (Some ?m) heap0 = (r, h')" by fastforce
  moreover have "r \<noteq> None" using res by (auto simp: Map_Clone_def mem_defs heap0_def)
  ultimately show ?thesis using Map_Clone_copies [OF inv(1) res] inv(2) by auto
qed

text \<open>Deleting the last entry also removes the filter: a map whose filter rejects every pair
  accepts, after one deletion, a pair that the filter was set to reject.\<close>

theorem Map_Delete_drops_filter:
  assumes "map_inv m" and "map_abs m = [cstr k \<mapsto> v]" and "terminated k" and "terminated k2" and "terminated v2"
    and "\<forall>n. mem_ok h n"
  shows "\<exists>m1 h1 m2 h2. Map_Delete (Some m) (Some k) h = (MAP_OK, Some m1, h1) \<and>
    Map_Add (Some m1) (Some k2) (Some v2) h1 = (MAP_OK, Some m2, h2) \<and> map_abs m2 = [cstr k2 \<mapsto> cstr v2]"
proof -
  let ?es = "map_entries m"
  have repr: "map_repr m ?es" using assms(1) by (simp add: map_inv_def)
  then have dist: "distinct (map fst ?es)" by (simp add: map_repr_def)
  have keys: "fst ` set ?es = {cstr k}"
    using assms(2) by (simp add: map_abs_def dom_map_of_conv_image_fst [symmetric])
  then have "length ?es = 1" using distinct_card [OF dist] by simp
  then obtain i m1 h1 where del: "Map_Delete (Some m) (Some k) h = (MAP_OK, Some m1, h1)" "i < 1"
    "map_repr m1 (delete_at ?es i)" "map_filter_callback m1 = None"
    using Map_Delete_result [OF repr assms(3), of h] keys by auto
  then have m1: "map_repr m1 []" using \<open>length ?es = 1\<close> by (simp add: delete_at_def)
  have ok: "\<forall>n. mem_ok h1 n" using Map_Delete_mem_ok [OF del(1)] assms(6) by simp
  obtain m2 h2 where ins: "insertNewKeyValue m1 k2 v2 h1 = (Success, m2, h2)"
    using insertNewKeyValue_granted [OF ok assms(4,5)] by blast
  have "findKey m1 k2 = None" using findKey_spec [OF m1, of k2] by (auto split: option.splits)
  with ins del(4) have add: "Map_Add (Some m1) (Some k2) (Some v2) h1 = (MAP_OK, Some m2, h2)"
    by (simp add: Map_Add_def filter_rejects_def)
  have "map_repr m2 ([] @ [(cstr k2, cstr v2)])"
    using insertNewKeyValue_result [OF m1 assms(4,5) _ ins] by simp
  then have "map_abs m2 = [cstr k2 \<mapsto> cstr v2]" using map_invI [of m2 "[(cstr k2, cstr v2)]"] by simp
  with del(1) add show ?thesis by blast
qed

theorem Map_Delete_drops_filter_witness:
  "\<exists>m1 h1 m2 h2. Map_Delete (Some one_entry) (Some (c_lit ''k'')) heap0 = (MAP_OK, Some m1, h1) \<and>
    Map_Add (Some m1) (Some (c_lit ''x'')) (Some (c_lit ''y'')) h1 = (MAP_OK, Some m2, h2) \<and>
    map_abs m2 = [''x'' \<mapsto> ''y'']"
  using Map_Delete_drops_filter [OF one_entry_inv(1), of "c_lit ''k''" "''v''" "c_lit ''x''" "c_lit ''y''" heap0]
  by (simp add: one_entry_inv(2) heap0_def)

text \<open>\<open>Map_ToJSON\<close> either fails without keeping a block, or returns a string that holds the
  JSON object of the entries, in the order of the arrays, with both strings escaped; every
  intermediate string is freed.\<close>

theorem Map_ToJSON_text:
  assumes "map_inv m" and "Map_ToJSON (Some m) h = (r, h')"
  shows "case r of
      None \<Rightarrow> mem_live h' = mem_live h
    | Some s \<Rightarrow> str_inv s \<and> str_val s = map_json (map_entries m) \<and> mem_live h' = mem_live h + 2"
proof -
  let ?kvs = "zip (array_ptrs (map_keys m) (map_count m)) (array_ptrs (map_values m) (map_count m))"
  have repr: "map_repr m (map_entries m)" using assms(1) by (simp add: map_inv_def)
  have good: "list_all ptr_good (map fst ?kvs)" "list_all ptr_good (map snd ?kvs)"
    using map_ptrs_good [OF repr] by (auto simp: list_all_iff dest: set_zip_leftD set_zip_rightD)
  have entries: "map (\<lambda>(k, v). (ptr_str k, ptr_str v)) ?kvs = map_entries m"
    by (simp add: map_entries_def zip_map_map)
  obtain s1 h1 where c: "STRING_construct (Some (c_lit ''{'')) h = (s1, h1)" by fastforce
  have s1: "case s1 of None \<Rightarrow> mem_live h1 = mem_live h
      | Some x \<Rightarrow> str_inv x \<and> str_val x = ''{'' \<and> mem_live h1 = mem_live h + 2"
    using c by (auto simp: STRING_construct_def c_lit_def memcpy_at_def strlen_def str_inv_def str_val_def Let_def
        dest!: string_alloc split: option.splits prod.splits)
  show ?thesis
  proof (cases s1)
    case None
    with assms(2) c s1 show ?thesis by (simp add: Map_ToJSON_def)
  next
    case (Some x)
    then have x: "str_inv x" "str_val x = ''{''" "mem_live h1 = mem_live h + 2" using s1 by auto
    obtain s2 h2 where l: "Map_ToJSON_loop 0 ?kvs (Some x) h1 = (s2, h2)" by fastforce
    note loop = Map_ToJSON_loop_result [OF good x(1) l, unfolded entries]
    show ?thesis
    proof (cases s2)
      case None
      with assms(2) c l loop x Some show ?thesis by (simp add: Map_ToJSON_def)
    next
      case S: (Some y)
      then have y: "str_inv y" "mem_live h2 = mem_live h1" "str_val y = ''{'' @ json_members 0 (map_entries m)"
        using loop x(2) by auto
      obtain q s3 h3 where f: "STRING_concat (Some y) (Some (c_lit ''}'')) h2 = (q, s3, h3)" by (metis prod_cases3)
      have "modified y h2 (str_val y @ ''}'') (q, s3, h3)"
        using STRING_concat_modified [OF y(1), of "c_lit ''}''" h2] f by simp
      with assms(2) c l f x y Some S show ?thesis
        by (cases q) (auto simp: Map_ToJSON_def modified_def map_json_def)
    qed
  qed
qed

theorem Map_ToJSON_text_witness:
  "case Map_ToJSON (Some one_entry) heap0 of
     (None, h') \<Rightarrow> mem_live h' = 0
   | (Some s, h') \<Rightarrow> str_val s = [CHR ''{'', CHR 0x22, CHR ''k'', CHR 0x22, CHR '':'', CHR 0x22, CHR ''v'', CHR 0x22, CHR ''}'']"
proof -
  obtain r h' where res: "Map_ToJSON (Some one_entry) heap0 = (r, h')" by fastforce
  have "map_json (map_entries one_entry) =
      [CHR ''{'', CHR 0x22, CHR ''k'', CHR 0x22, CHR '':'', CHR 0x22, CHR ''v'', CHR 0x22, CHR ''}'']"
    by (simp add: map_repr_entries [OF one_entry_repr] map_json_def json_entry_def json_string_def json_char_def
        byte_of_char_def Let_def)
  moreover have "mem_live heap0 = 0" by (simp add: heap0_def)
  ultimately show ?thesis
    using Map_ToJSON_text [OF one_entry_inv(1) res] unfolding res by (auto split: option.splits)
qed

end
