(* ===== verification/Buffer.thy ===== *)
theory Buffer
  imports Prelude
begin

text \<open>
  The byte buffers of \<open>src/buffer.c\<close>: a structure with a pointer to a block (or null) and
  a size. The block is the list of its bytes, uninitialised ones included; the buffer's
  contents are its first \<open>buf_size\<close> bytes. Every operation takes the handle (null or the
  structure), the allocator, and returns the code's result, the structure afterwards and the
  allocator. Operations on two handles carry the address with the structure, because the
  code compares handles.
\<close>

section \<open>Data\<close>

record BUFFER =
  buf_data :: "byte list option"
  buf_size :: nat

definition buf_bytes :: "BUFFER \<Rightarrow> byte list" where
  "buf_bytes b = (case buf_data b of None \<Rightarrow> [] | Some d \<Rightarrow> take (buf_size b) d)"

definition buf_inv :: "BUFFER \<Rightarrow> bool" where
  "buf_inv b \<longleftrightarrow> (case buf_data b of None \<Rightarrow> buf_size b = 0 | Some d \<Rightarrow> buf_size b \<le> length d)"

text \<open>The blocks a buffer owns: the structure, and its data if there is any.\<close>

definition buf_blocks :: "BUFFER option \<Rightarrow> int" where
  "buf_blocks r = (case r of None \<Rightarrow> 0 | Some b \<Rightarrow> (if buf_data b = None then 1 else 2))"

section \<open>Operations\<close>

text \<open>A cell of a byte block is a byte.\<close>

definition byte_cell :: "byte \<Rightarrow> byte" where
  "byte_cell x = x"

definition BUFFER_new :: "heap \<Rightarrow> BUFFER option \<times> heap" where
  "BUFFER_new h =
     (let (ok, h1) = malloc_struct h in
      (if ok then Some \<lparr>buf_data = None, buf_size = 0\<rparr> else None, h1))"

definition BUFFER_safemalloc :: "BUFFER \<Rightarrow> nat \<Rightarrow> heap \<Rightarrow> rc \<times> BUFFER \<times> heap" where
  "BUFFER_safemalloc b sz h =
     (let sizetomalloc = (if sz = 0 then 1 else sz);
          (p, h1) = malloc_block byte_cell sizetomalloc h;
          b1 = b\<lparr>buf_data := p\<rparr> in
      (case p of
         None \<Rightarrow> (Failure, b1, h1)
       | Some _ \<Rightarrow> (Success, b1\<lparr>buf_size := sz\<rparr>, h1)))"

text \<open>\<open>memcpy(b->buffer + off, source, n)\<close>.\<close>

definition buf_copy :: "BUFFER \<Rightarrow> nat \<Rightarrow> byte list \<Rightarrow> nat \<Rightarrow> BUFFER" where
  "buf_copy b off src n = b\<lparr>buf_data := map_option (\<lambda>d. memcpy_at d off src n) (buf_data b)\<rparr>"

definition BUFFER_create :: "byte list option \<Rightarrow> nat \<Rightarrow> heap \<Rightarrow> BUFFER option \<times> heap" where
  "BUFFER_create source sz h =
     (case source of
        None \<Rightarrow> (None, h)
      | Some src \<Rightarrow>
          (let (ok, h1) = malloc_struct h in
           if \<not> ok then (None, h1)
           else
             (case BUFFER_safemalloc \<lparr>buf_data = None, buf_size = 0\<rparr> sz h1 of
                (Failure, _, h2) \<Rightarrow> (None, free_struct h2)
              | (Success, b, h2) \<Rightarrow> (Some (buf_copy b 0 src sz), h2))))"

definition BUFFER_delete :: "BUFFER option \<Rightarrow> heap \<Rightarrow> heap" where
  "BUFFER_delete handle h =
     (case handle of
        None \<Rightarrow> h
      | Some b \<Rightarrow> free_struct (if buf_data b \<noteq> None then c_free (buf_data b) h else h))"

definition BUFFER_build ::
  "BUFFER option \<Rightarrow> byte list option \<Rightarrow> nat \<Rightarrow> heap \<Rightarrow> rc \<times> BUFFER option \<times> heap" where
  "BUFFER_build handle source sz h =
     (case handle of
        None \<Rightarrow> (Failure, handle, h)
      | Some b \<Rightarrow>
          (if sz = 0 then (Success, Some \<lparr>buf_data = None, buf_size = 0\<rparr>, c_free (buf_data b) h)
           else
             (case source of
                None \<Rightarrow> (Failure, handle, h)
              | Some src \<Rightarrow>
                  (case realloc_block byte_cell (buf_data b) sz h of
                     (None, h1) \<Rightarrow> (Failure, handle, h1)
                   | (Some d, h1) \<Rightarrow>
                       (Success, Some (buf_copy \<lparr>buf_data = Some d, buf_size = sz\<rparr> 0 src sz), h1)))))"

definition BUFFER_append_build ::
  "BUFFER option \<Rightarrow> byte list option \<Rightarrow> nat \<Rightarrow> heap \<Rightarrow> rc \<times> BUFFER option \<times> heap" where
  "BUFFER_append_build handle source sz h =
     (case (handle, source) of
        (Some b, Some src) \<Rightarrow>
          (if sz = 0 then (Failure, handle, h)
           else if buf_data b = None then
             (case BUFFER_safemalloc b sz h of
                (Failure, b1, h1) \<Rightarrow> (Failure, Some b1, h1)
              | (Success, b1, h1) \<Rightarrow> (Success, Some (buf_copy b1 0 src sz), h1))
           else
             (let malloc_size = safe_add_size_t (buf_size b) sz in
              if malloc_size = SIZE_MAX then (Failure, handle, h)
              else
                (case realloc_block byte_cell (buf_data b) malloc_size h of
                   (None, h1) \<Rightarrow> (Failure, handle, h1)
                 | (Some d, h1) \<Rightarrow>
                     (Success,
                      Some (buf_copy \<lparr>buf_data = Some d, buf_size = buf_size b\<rparr> (buf_size b) src sz
                              \<lparr>buf_size := buf_size b + sz\<rparr>),
                      h1))))
      | _ \<Rightarrow> (Failure, handle, h))"

definition BUFFER_pre_build :: "BUFFER option \<Rightarrow> nat \<Rightarrow> heap \<Rightarrow> rc \<times> BUFFER option \<times> heap" where
  "BUFFER_pre_build handle sz h =
     (case handle of
        None \<Rightarrow> (Failure, handle, h)
      | Some b \<Rightarrow>
          (if sz = 0 then (Failure, handle, h)
           else if buf_data b \<noteq> None then (Failure, handle, h)
           else
             (case malloc_block byte_cell sz h of
                (None, h1) \<Rightarrow> (Failure, Some (b\<lparr>buf_data := None\<rparr>), h1)
              | (Some d, h1) \<Rightarrow> (Success, Some \<lparr>buf_data = Some d, buf_size = sz\<rparr>, h1))))"

definition BUFFER_content :: "BUFFER option \<Rightarrow> rc \<times> byte list option" where
  "BUFFER_content handle = (case handle of None \<Rightarrow> (Failure, None) | Some b \<Rightarrow> (Success, buf_data b))"

definition BUFFER_unbuild :: "BUFFER option \<Rightarrow> heap \<Rightarrow> rc \<times> BUFFER option \<times> heap" where
  "BUFFER_unbuild handle h =
     (case handle of
        None \<Rightarrow> (Failure, handle, h)
      | Some b \<Rightarrow>
          (if buf_data b \<noteq> None
           then (Success, Some \<lparr>buf_data = None, buf_size = 0\<rparr>, c_free (buf_data b) h)
           else (Failure, handle, h)))"

definition BUFFER_enlarge :: "BUFFER option \<Rightarrow> nat \<Rightarrow> heap \<Rightarrow> rc \<times> BUFFER option \<times> heap" where
  "BUFFER_enlarge handle enlargeSize h =
     (case handle of
        None \<Rightarrow> (Failure, handle, h)
      | Some b \<Rightarrow>
          (if enlargeSize = 0 then (Failure, handle, h)
           else
             (let malloc_size = safe_add_size_t (buf_size b) enlargeSize in
              if malloc_size = SIZE_MAX then (Failure, handle, h)
              else
                (case realloc_block byte_cell (buf_data b) malloc_size h of
                   (None, h1) \<Rightarrow> (Failure, handle, h1)
                 | (Some d, h1) \<Rightarrow>
                     (Success, Some \<lparr>buf_data = Some d, buf_size = buf_size b + enlargeSize\<rparr>, h1)))))"

definition BUFFER_shrink :: "BUFFER option \<Rightarrow> nat \<Rightarrow> bool \<Rightarrow> heap \<Rightarrow> rc \<times> BUFFER option \<times> heap" where
  "BUFFER_shrink handle decreaseSize fromEnd h =
     (case handle of
        None \<Rightarrow> (Failure, handle, h)
      | Some b \<Rightarrow>
          (if decreaseSize = 0 then (Failure, handle, h)
           else if decreaseSize > buf_size b then (Failure, handle, h)
           else
             (let alloc_size = buf_size b - decreaseSize in
              if alloc_size = 0
              then (Success, Some \<lparr>buf_data = None, buf_size = 0\<rparr>, c_free (buf_data b) h)
              else
                (case malloc_block byte_cell alloc_size h of
                   (None, h1) \<Rightarrow> (Failure, handle, h1)
                 | (Some tmp, h1) \<Rightarrow>
                     (let src = (case buf_data b of None \<Rightarrow> [] | Some d \<Rightarrow> d);
                          from = (if fromEnd then src else drop decreaseSize src) in
                      (Success,
                       Some \<lparr>buf_data = Some (memcpy_at tmp 0 from alloc_size), buf_size = alloc_size\<rparr>,
                       c_free (buf_data b) h1))))))"

definition BUFFER_size :: "BUFFER option \<Rightarrow> rc \<times> nat option" where
  "BUFFER_size handle = (case handle of None \<Rightarrow> (Failure, None) | Some b \<Rightarrow> (Success, Some (buf_size b)))"

text \<open>The arguments are the handles: an address and the structure it points to.\<close>

definition BUFFER_append ::
  "(nat \<times> BUFFER) option \<Rightarrow> (nat \<times> BUFFER) option \<Rightarrow> heap \<Rightarrow> rc \<times> BUFFER option \<times> heap" where
  "BUFFER_append handle1 handle2 h =
     (case (handle1, handle2) of
        (Some (a1, b1), Some (a2, b2)) \<Rightarrow>
          (if a1 = a2 then (Failure, Some b1, h)
           else
             (case (buf_data b1, buf_data b2) of
                (Some d1, Some d2) \<Rightarrow>
                  (if buf_size b2 = 0 then (Success, Some b1, h)
                   else
                     (let malloc_size = safe_add_size_t (buf_size b1) (buf_size b2) in
                      if malloc_size = SIZE_MAX then (Failure, Some b1, h)
                      else
                        (case realloc_block byte_cell (Some d1) malloc_size h of
                           (None, h1) \<Rightarrow> (Failure, Some b1, h1)
                         | (Some d, h1) \<Rightarrow>
                             (Success,
                              Some \<lparr>buf_data = Some (memcpy_at d (buf_size b1) d2 (buf_size b2)),
                                    buf_size = buf_size b1 + buf_size b2\<rparr>,
                              h1))))
              | _ \<Rightarrow> (Failure, Some b1, h)))
      | _ \<Rightarrow> (Failure, map_option snd handle1, h))"

definition BUFFER_prepend ::
  "(nat \<times> BUFFER) option \<Rightarrow> (nat \<times> BUFFER) option \<Rightarrow> heap \<Rightarrow> rc \<times> BUFFER option \<times> heap" where
  "BUFFER_prepend handle1 handle2 h =
     (case (handle1, handle2) of
        (Some (a1, b1), Some (a2, b2)) \<Rightarrow>
          (if a1 = a2 then (Failure, Some b1, h)
           else
             (case (buf_data b1, buf_data b2) of
                (Some d1, Some d2) \<Rightarrow>
                  (if buf_size b2 = 0 then (Success, Some b1, h)
                   else
                     (let malloc_size = safe_add_size_t (safe_add_size_t (buf_size b1) (buf_size b2)) 1 in
                      if malloc_size = SIZE_MAX then (Failure, Some b1, h)
                      else
                        (case malloc_block byte_cell malloc_size h of
                           (None, h1) \<Rightarrow> (Failure, Some b1, h1)
                         | (Some temp, h1) \<Rightarrow>
                             (let temp1 = memcpy_at temp 0 d2 (buf_size b2);
                                  temp2 = memcpy_at temp1 (buf_size b2) d1 (buf_size b1) in
                              (Success,
                               Some \<lparr>buf_data = Some temp2, buf_size = buf_size b1 + buf_size b2\<rparr>,
                               c_free (Some d1) h1)))))
              | _ \<Rightarrow> (Failure, Some b1, h)))
      | _ \<Rightarrow> (Failure, map_option snd handle1, h))"

function BUFFER_fill_loop :: "nat \<Rightarrow> nat \<Rightarrow> byte \<Rightarrow> byte list \<Rightarrow> byte list" where
  "BUFFER_fill_loop i n c d = (if i < n then BUFFER_fill_loop (Suc i) n c (d[i := c]) else d)"
  by pat_completeness auto
termination by (relation "measure (\<lambda>(i, n, c, d). n - i)") auto

declare BUFFER_fill_loop.simps [simp del]

definition BUFFER_fill :: "BUFFER option \<Rightarrow> byte \<Rightarrow> rc \<times> BUFFER option" where
  "BUFFER_fill handle fill_char =
     (case handle of
        None \<Rightarrow> (Failure, handle)
      | Some b \<Rightarrow>
          (Success,
           Some (b\<lparr>buf_data := map_option (BUFFER_fill_loop 0 (buf_size b) fill_char) (buf_data b)\<rparr>)))"

definition BUFFER_u_char :: "BUFFER option \<Rightarrow> byte list option" where
  "BUFFER_u_char handle =
     (case handle of None \<Rightarrow> None | Some b \<Rightarrow> (if buf_size b = 0 then None else buf_data b))"

definition BUFFER_length :: "BUFFER option \<Rightarrow> nat" where
  "BUFFER_length handle = (case handle of None \<Rightarrow> 0 | Some b \<Rightarrow> buf_size b)"

definition BUFFER_clone :: "BUFFER option \<Rightarrow> heap \<Rightarrow> BUFFER option \<times> heap" where
  "BUFFER_clone handle h =
     (case handle of
        None \<Rightarrow> (None, h)
      | Some supplied \<Rightarrow>
          (let (ok, h1) = malloc_struct h in
           if ok then
             (case BUFFER_safemalloc \<lparr>buf_data = None, buf_size = 0\<rparr> (buf_size supplied) h1 of
                (Failure, _, h2) \<Rightarrow> (None, h2)
              | (Success, b, h2) \<Rightarrow>
                  (Some ((buf_copy b 0 (case buf_data supplied of None \<Rightarrow> [] | Some d \<Rightarrow> d) (buf_size supplied))
                           \<lparr>buf_size := buf_size supplied\<rparr>), h2))
           else (None, h1)))"

section \<open>Lemmas\<close>

lemmas buffer_defs =
  BUFFER_new_def BUFFER_safemalloc_def BUFFER_create_def BUFFER_delete_def BUFFER_build_def
  BUFFER_append_build_def BUFFER_pre_build_def BUFFER_unbuild_def BUFFER_enlarge_def
  BUFFER_shrink_def BUFFER_append_def BUFFER_prepend_def BUFFER_fill_def BUFFER_clone_def
  buf_copy_def

lemmas buffer_splits = if_splits option.splits prod.splits rc.splits

lemma buf_inv_simps [simp]:
  "buf_inv \<lparr>buf_data = None, buf_size = n\<rparr> \<longleftrightarrow> n = 0"
  "buf_inv \<lparr>buf_data = Some d, buf_size = n\<rparr> \<longleftrightarrow> n \<le> length d"
  by (simp_all add: buf_inv_def)

lemma buf_bytes_simps [simp]:
  "buf_bytes \<lparr>buf_data = None, buf_size = n\<rparr> = []"
  "buf_bytes \<lparr>buf_data = Some d, buf_size = n\<rparr> = take n d"
  by (simp_all add: buf_bytes_def)

lemma length_buf_bytes: "buf_inv b \<Longrightarrow> length (buf_bytes b) = buf_size b"
  by (auto simp: buf_inv_def buf_bytes_def split: option.splits)

lemma BUFFER_fill_loop_eq:
  "i \<le> n \<Longrightarrow> n \<le> length d \<Longrightarrow>
     BUFFER_fill_loop i n c d = take i d @ replicate (n - i) c @ drop n d"
proof (induction i n c d rule: BUFFER_fill_loop.induct)
  case (1 i n c d)
  show ?case
  proof (cases "i < n")
    case True
    then have "n - i = Suc (n - Suc i)" by simp
    moreover have "take (Suc i) (d[i := c]) = take i d @ [c]" and "drop n (d[i := c]) = drop n d"
      using True "1.prems" by (simp_all add: take_Suc_conv_app_nth)
    ultimately show ?thesis
      using True 1 by (subst BUFFER_fill_loop.simps) simp
  next
    case False
    with "1.prems" have "i = n" by simp
    then show ?thesis by (subst BUFFER_fill_loop.simps) simp
  qed
qed

lemma length_realloc_block:
  "realloc_block cell p n h = (Some d, h') \<Longrightarrow> length d = n"
  by (auto simp: realloc_block_def malloc_block_def split: option.splits if_splits)

lemma take_realloc_block:
  "realloc_block cell (Some d) n h = (Some d', h') \<Longrightarrow> m \<le> n \<Longrightarrow> m \<le> length d \<Longrightarrow> take m d' = take m d"
  by (auto simp: realloc_block_def split: if_splits)

text \<open>What a null handle does: nothing, and the result is a failure.\<close>

lemma buffer_null_handle:
  "BUFFER_build None src n h = (Failure, None, h)"
  "BUFFER_append_build None src n h = (Failure, None, h)"
  "BUFFER_pre_build None n h = (Failure, None, h)"
  "BUFFER_unbuild None h = (Failure, None, h)"
  "BUFFER_enlarge None n h = (Failure, None, h)"
  "BUFFER_shrink None n e h = (Failure, None, h)"
  "BUFFER_fill None c = (Failure, None)"
  "BUFFER_clone None h = (None, h)"
  "BUFFER_delete None h = h"
  by (simp_all add: buffer_defs)

section \<open>The life of a buffer\<close>

text \<open>
  The states a buffer goes through, with the allocator: made by \<open>BUFFER_new\<close>,
  \<open>BUFFER_create\<close> or \<open>BUFFER_clone\<close>, then changed by the other operations in any order,
  with any arguments whose sizes the pointed-to memory really has.
\<close>

definition source_ok :: "byte list option \<Rightarrow> nat \<Rightarrow> bool" where
  "source_ok src n = (case src of None \<Rightarrow> True | Some s \<Rightarrow> n \<le> length s)"

inductive buffer_step :: "BUFFER \<times> heap \<Rightarrow> BUFFER \<times> heap \<Rightarrow> bool" where
  step_build: "source_ok src n \<Longrightarrow> BUFFER_build (Some b) src n h = (r, Some b', h') \<Longrightarrow>
     buffer_step (b, h) (b', h')"
| step_append_build: "source_ok src n \<Longrightarrow> BUFFER_append_build (Some b) src n h = (r, Some b', h') \<Longrightarrow>
     buffer_step (b, h) (b', h')"
| step_pre_build: "BUFFER_pre_build (Some b) n h = (r, Some b', h') \<Longrightarrow> buffer_step (b, h) (b', h')"
| step_unbuild: "BUFFER_unbuild (Some b) h = (r, Some b', h') \<Longrightarrow> buffer_step (b, h) (b', h')"
| step_enlarge: "BUFFER_enlarge (Some b) n h = (r, Some b', h') \<Longrightarrow> buffer_step (b, h) (b', h')"
| step_shrink: "BUFFER_shrink (Some b) n e h = (r, Some b', h') \<Longrightarrow> buffer_step (b, h) (b', h')"
| step_append: "buf_inv b2 \<Longrightarrow> BUFFER_append (Some (a, b)) (Some (a2, b2)) h = (r, Some b', h') \<Longrightarrow>
     buffer_step (b, h) (b', h')"
| step_prepend: "buf_inv b2 \<Longrightarrow> BUFFER_prepend (Some (a, b)) (Some (a2, b2)) h = (r, Some b', h') \<Longrightarrow>
     buffer_step (b, h) (b', h')"
| step_fill: "BUFFER_fill (Some b) c = (r, Some b') \<Longrightarrow> buffer_step (b, h) (b', h)"

inductive buffer_reach :: "heap \<Rightarrow> BUFFER \<times> heap \<Rightarrow> bool" for h0 where
  reach_new: "BUFFER_new h0 = (Some b, h) \<Longrightarrow> buffer_reach h0 (b, h)"
| reach_create: "source_ok src n \<Longrightarrow> BUFFER_create src n h0 = (Some b, h) \<Longrightarrow> buffer_reach h0 (b, h)"
| reach_clone: "buf_inv b0 \<Longrightarrow> BUFFER_clone (Some b0) h0 = (Some b, h) \<Longrightarrow> buffer_reach h0 (b, h)"
| reach_step: "buffer_reach h0 s \<Longrightarrow> buffer_step s t \<Longrightarrow> buffer_reach h0 t"

inductive_cases buffer_stepE: "buffer_step (b, h) (b', h')"

text \<open>One lemma per operation: the invariant is kept and the live blocks are accounted for.\<close>

definition buffer_good :: "heap \<Rightarrow> BUFFER \<times> heap \<Rightarrow> bool" where
  "buffer_good h0 s \<longleftrightarrow> buf_inv (fst s) \<and> mem_live (snd s) = mem_live h0 + buf_blocks (Some (fst s))"

lemma BUFFER_new_good: "BUFFER_new h0 = (Some b, h) \<Longrightarrow> buffer_good h0 (b, h)"
  by (auto simp: buffer_good_def buf_blocks_def buffer_defs mem_defs split: if_splits)

lemma BUFFER_create_good:
  "source_ok src n \<Longrightarrow> BUFFER_create src n h0 = (Some b, h) \<Longrightarrow> buffer_good h0 (b, h)"
  by (auto simp: buffer_good_def buf_blocks_def buffer_defs mem_defs source_ok_def Let_def
      split: buffer_splits)

lemma BUFFER_clone_good:
  "buf_inv b0 \<Longrightarrow> BUFFER_clone (Some b0) h0 = (Some b, h) \<Longrightarrow> buffer_good h0 (b, h)"
  by (auto simp: buffer_good_def buf_blocks_def buffer_defs mem_defs buf_inv_def Let_def
      split: buffer_splits)

lemma BUFFER_build_good:
  assumes "source_ok src n" "BUFFER_build (Some b) src n h = (r, Some b', h')" "buffer_good h0 (b, h)"
  shows "buffer_good h0 (b', h')"
  using assms
  by (auto simp: buffer_good_def buf_blocks_def buffer_defs mem_defs source_ok_def memcpy_at_0
      split: buffer_splits)

lemma BUFFER_append_build_good:
  assumes "source_ok src n" "BUFFER_append_build (Some b) src n h = (r, Some b', h')" "buffer_good h0 (b, h)"
  shows "buffer_good h0 (b', h')"
proof (cases "buf_data b")
  case None
  with assms show ?thesis
    by (auto simp: buffer_good_def buf_blocks_def buffer_defs mem_defs source_ok_def Let_def buf_inv_def
        split: buffer_splits)
next
  case (Some d)
  with assms show ?thesis
    by (auto simp: buffer_good_def buf_blocks_def buffer_defs mem_defs source_ok_def Let_def buf_inv_def
          safe_add_size_t_exact memcpy_at_def split: buffer_splits)
qed

lemma BUFFER_pre_build_good:
  "BUFFER_pre_build (Some b) n h = (r, Some b', h') \<Longrightarrow> buffer_good h0 (b, h) \<Longrightarrow> buffer_good h0 (b', h')"
  by (auto simp: buffer_good_def buf_blocks_def buffer_defs mem_defs buf_inv_def split: buffer_splits)

lemma BUFFER_unbuild_good:
  "BUFFER_unbuild (Some b) h = (r, Some b', h') \<Longrightarrow> buffer_good h0 (b, h) \<Longrightarrow> buffer_good h0 (b', h')"
  by (auto simp: buffer_good_def buf_blocks_def buffer_defs mem_defs split: buffer_splits)

lemma BUFFER_enlarge_good:
  "BUFFER_enlarge (Some b) n h = (r, Some b', h') \<Longrightarrow> buffer_good h0 (b, h) \<Longrightarrow> buffer_good h0 (b', h')"
  by (auto simp: buffer_good_def buf_blocks_def buffer_defs mem_defs Let_def buf_inv_def
      safe_add_size_t_exact split: buffer_splits)

lemma BUFFER_shrink_good:
  "BUFFER_shrink (Some b) n e h = (r, Some b', h') \<Longrightarrow> buffer_good h0 (b, h) \<Longrightarrow> buffer_good h0 (b', h')"
  by (cases "buf_data b")
    (auto simp: buffer_good_def buf_blocks_def buffer_defs mem_defs Let_def buf_inv_def memcpy_at_0
      split: buffer_splits)

lemma BUFFER_append_good:
  "buf_inv b2 \<Longrightarrow> BUFFER_append (Some (a, b)) (Some (a2, b2)) h = (r, Some b', h') \<Longrightarrow>
     buffer_good h0 (b, h) \<Longrightarrow> buffer_good h0 (b', h')"
  by (auto simp: buffer_good_def buf_blocks_def buffer_defs mem_defs Let_def buf_inv_def
      safe_add_size_t_exact memcpy_at_def split: buffer_splits)

lemma BUFFER_prepend_good:
  "buf_inv b2 \<Longrightarrow> BUFFER_prepend (Some (a, b)) (Some (a2, b2)) h = (r, Some b', h') \<Longrightarrow>
     buffer_good h0 (b, h) \<Longrightarrow> buffer_good h0 (b', h')"
  by (auto simp: buffer_good_def buf_blocks_def buffer_defs mem_defs Let_def buf_inv_def
      safe_add_size_t_exact memcpy_at_def split: buffer_splits)

lemma BUFFER_fill_good:
  "BUFFER_fill (Some b) c = (r, Some b') \<Longrightarrow> buffer_good h0 (b, h) \<Longrightarrow> buffer_good h0 (b', h)"
  by (auto simp: buffer_good_def buf_blocks_def BUFFER_fill_def buf_inv_def BUFFER_fill_loop_eq
      split: option.splits)

lemmas buffer_ops_good =
  BUFFER_build_good BUFFER_append_build_good BUFFER_pre_build_good BUFFER_unbuild_good
  BUFFER_enlarge_good BUFFER_shrink_good BUFFER_append_good BUFFER_prepend_good BUFFER_fill_good

lemma buffer_step_good: "buffer_step s t \<Longrightarrow> buffer_good h0 s \<Longrightarrow> buffer_good h0 t"
  by (induction rule: buffer_step.induct) (blast intro: buffer_ops_good)+

section \<open>Properties\<close>

text \<open>Two buffers for the witnesses, and the reachable state one allocation leaves.\<close>

definition buf_abc :: BUFFER where
  "buf_abc = \<lparr>buf_data = Some [97, 98, 99], buf_size = 3\<rparr>"

definition buf_de :: BUFFER where
  "buf_de = \<lparr>buf_data = Some [100, 101, 0], buf_size = 2\<rparr>"

text \<open>Whatever sequence of operations a buffer has been through since it was made, under
  any pattern of allocation failures, its size never exceeds its block, a null block goes
  with size zero, and the allocator counts exactly the blocks the buffer owns on top of
  those that were live before: no operation of \<open>buffer.c\<close> on a live buffer leaks or frees
  twice.\<close>

theorem buffer_reachable_good:
  assumes "buffer_reach h0 (b, h)"
  shows "buf_inv b \<and> mem_live h = mem_live h0 + buf_blocks (Some b)"
proof -
  have "buffer_reach h0 s \<Longrightarrow> buffer_good h0 s" for s
    by (induction rule: buffer_reach.induct)
      (blast intro: BUFFER_new_good BUFFER_create_good BUFFER_clone_good buffer_step_good)+
  with assms show ?thesis by (auto simp: buffer_good_def)
qed

theorem buffer_reachable_good_witness:
  "\<exists>b h. buffer_reach heap0 (b, h) \<and> buf_inv b \<and> mem_live h = 0 + buf_blocks (Some b)"
proof -
  have "\<exists>b h. BUFFER_new heap0 = (Some b, h)"
    by (simp add: BUFFER_new_def malloc_struct_def granted_def heap0_def)
  then obtain b h where r: "buffer_reach heap0 (b, h)" by (blast intro: reach_new)
  from buffer_reachable_good [OF r] r show ?thesis by (auto simp: heap0_def)
qed

text \<open>\<open>BUFFER_append\<close> on two different well-formed buffers either succeeds, and the first
  buffer then holds the bytes of both in order, or fails and leaves it as it was; it fails
  on the same handle twice, on a null block, when the sizes do not fit a \<open>size_t\<close>, or when
  the request is refused.\<close>

theorem BUFFER_append_concatenates:
  assumes "buf_inv b1" and "buf_inv b2" and "BUFFER_append (Some (a1, b1)) (Some (a2, b2)) h = (r, Some b', h')"
  shows "(r = Success \<longrightarrow> a1 \<noteq> a2 \<and> buf_bytes b' = buf_bytes b1 @ buf_bytes b2 \<and>
            buf_size b' = buf_size b1 + buf_size b2)
       \<and> (r = Failure \<longrightarrow> b' = b1)
       \<and> (a1 \<noteq> a2 \<and> buf_data b1 \<noteq> None \<and> buf_data b2 \<noteq> None \<and> granted h \<and>
            buf_size b1 + buf_size b2 < SIZE_MAX \<longrightarrow> r = Success)"
proof (cases "buf_data b1 = None \<or> buf_data b2 = None \<or> a1 = a2 \<or> buf_size b2 = 0")
  case True
  with assms show ?thesis
    by (auto simp: BUFFER_append_def buf_bytes_def split: buffer_splits)
next
  case False
  then obtain d1 d2 where d: "buf_data b1 = Some d1" "buf_data b2 = Some d2" by auto
  with assms(1,2) have len: "buf_size b1 \<le> length d1" "buf_size b2 \<le> length d2"
    by (simp_all add: buf_inv_def)
  show ?thesis
  proof (cases "safe_add_size_t (buf_size b1) (buf_size b2) = SIZE_MAX \<or> \<not> granted h")
    case True
    with False d assms(3) show ?thesis
      by (auto simp: BUFFER_append_def realloc_block_def Let_def safe_add_size_t_ok split: if_splits)
  next
    case False2: False
    then have add: "safe_add_size_t (buf_size b1) (buf_size b2) = buf_size b1 + buf_size b2"
      by (blast intro: safe_add_size_t_exact)
    with False False2 d len assms(3) show ?thesis
      by (auto simp: BUFFER_append_def realloc_block_def Let_def memcpy_at_def buf_bytes_def)
  qed
qed

theorem BUFFER_append_concatenates_witness:
  "\<exists>b'. BUFFER_append (Some (1, buf_abc)) (Some (2, buf_de)) heap0 = (Success, Some b', after_request 0 heap0) \<and>
     buf_bytes b' = [97, 98, 99, 100, 101]"
proof -
  obtain r b' h' where e: "BUFFER_append (Some (1, buf_abc)) (Some (2, buf_de)) heap0 = (r, Some b', h')"
    and h': "h' = after_request 0 heap0"
    by (auto simp: BUFFER_append_def realloc_block_def buf_abc_def buf_de_def safe_add_size_t_def
        SIZE_MAX_def granted_def heap0_def Let_def)
  have "buf_inv buf_abc" "buf_inv buf_de" by (simp_all add: buf_abc_def buf_de_def)
  from BUFFER_append_concatenates [OF this e]
  have "r = Success" and "buf_bytes b' = buf_bytes buf_abc @ buf_bytes buf_de"
    by (auto simp: buf_abc_def buf_de_def granted_def heap0_def SIZE_MAX_def)
  with e h' show ?thesis by (simp add: buf_abc_def buf_de_def)
qed

text \<open>\<open>BUFFER_prepend\<close> puts the second buffer's bytes in front of the first's, in a block
  that is large enough, frees the old block, and leaves the first buffer as it was when it
  fails.\<close>

theorem BUFFER_prepend_concatenates:
  assumes "buf_inv b1" and "buf_inv b2" and "BUFFER_prepend (Some (a1, b1)) (Some (a2, b2)) h = (r, Some b', h')"
  shows "(r = Success \<longrightarrow> a1 \<noteq> a2 \<and> buf_bytes b' = buf_bytes b2 @ buf_bytes b1 \<and> buf_inv b')
       \<and> (r = Failure \<longrightarrow> b' = b1) \<and> mem_live h' = mem_live h"
proof (cases "buf_data b1 = None \<or> buf_data b2 = None \<or> a1 = a2 \<or> buf_size b2 = 0")
  case True
  with assms show ?thesis
    by (auto simp: BUFFER_prepend_def buf_bytes_def split: buffer_splits)
next
  case False
  then obtain d1 d2 where d: "buf_data b1 = Some d1" "buf_data b2 = Some d2" by auto
  with assms(1,2) have len: "buf_size b1 \<le> length d1" "buf_size b2 \<le> length d2"
    by (simp_all add: buf_inv_def)
  let ?n = "safe_add_size_t (safe_add_size_t (buf_size b1) (buf_size b2)) 1"
  show ?thesis
  proof (cases "?n = SIZE_MAX \<or> \<not> granted h")
    case True
    with False d assms(3) show ?thesis
      by (auto simp: BUFFER_prepend_def malloc_block_def Let_def after_request_def split: if_splits)
  next
    case False2: False
    have "safe_add_size_t (buf_size b1) (buf_size b2) \<noteq> SIZE_MAX"
      using False2 by (auto simp: safe_add_size_t_def split: if_splits)
    then have add: "?n = buf_size b1 + buf_size b2 + 1"
      using False2 safe_add_size_t_exact by metis
    with False False2 d len assms(3) show ?thesis
      by (auto simp: BUFFER_prepend_def malloc_block_def Let_def memcpy_at_def buf_bytes_def
          after_request_def c_free_def)
  qed
qed

theorem BUFFER_prepend_concatenates_witness:
  "\<exists>b' h'. BUFFER_prepend (Some (1, buf_abc)) (Some (2, buf_de)) heap0 = (Success, Some b', h') \<and>
     buf_bytes b' = [100, 101, 97, 98, 99] \<and> mem_live h' = 0"
proof -
  obtain b' h' where e: "BUFFER_prepend (Some (1, buf_abc)) (Some (2, buf_de)) heap0 = (Success, Some b', h')"
    by (auto simp: BUFFER_prepend_def malloc_block_def buf_abc_def buf_de_def safe_add_size_t_def
        SIZE_MAX_def granted_def heap0_def Let_def)
  have "buf_inv buf_abc" "buf_inv buf_de" by (simp_all add: buf_abc_def buf_de_def)
  from BUFFER_prepend_concatenates [OF this e] e show ?thesis
    by (auto simp: buf_abc_def buf_de_def heap0_def)
qed

text \<open>\<open>BUFFER_shrink\<close> drops \<open>decreaseSize\<close> bytes from the end or from the beginning and
  keeps the rest in order; a size of zero or beyond the buffer's, and a refused request, are
  failures that leave the buffer as it was; shrinking by the whole size leaves the null
  block.\<close>

theorem BUFFER_shrink_keeps:
  assumes "buf_inv b" and "BUFFER_shrink (Some b) n fromEnd h = (r, Some b', h')"
  shows "(r = Success \<longrightarrow> 0 < n \<and> n \<le> buf_size b \<and>
            buf_bytes b' = (if fromEnd then take (buf_size b - n) (buf_bytes b) else drop n (buf_bytes b)))
       \<and> (r = Failure \<longrightarrow> b' = b)
       \<and> (r = Success \<and> n = buf_size b \<longrightarrow> buf_data b' = None)
       \<and> (0 < n \<and> n \<le> buf_size b \<and> granted h \<longrightarrow> r = Success)"
proof (cases "buf_data b")
  case None
  with assms show ?thesis
    by (auto simp: BUFFER_shrink_def buf_inv_def split: if_splits)
next
  case (Some d)
  with assms(1) have len: "buf_size b \<le> length d" by (simp add: buf_inv_def)
  have "drop n (take (buf_size b) d) = take (buf_size b - n) (drop n d)"
    by (simp add: drop_take)
  with Some len assms(2) show ?thesis
    by (auto simp: BUFFER_shrink_def malloc_block_def Let_def memcpy_at_0 buf_bytes_def
        split: if_splits)
qed

theorem BUFFER_shrink_keeps_witness:
  "\<exists>b' h'. BUFFER_shrink (Some buf_abc) 1 False heap0 = (Success, Some b', h') \<and> buf_bytes b' = [98, 99]"
proof -
  obtain b' h' where e: "BUFFER_shrink (Some buf_abc) 1 False heap0 = (Success, Some b', h')"
    by (auto simp: BUFFER_shrink_def malloc_block_def buf_abc_def granted_def heap0_def Let_def)
  have "buf_inv buf_abc" by (simp add: buf_abc_def)
  from BUFFER_shrink_keeps [OF this e] e show ?thesis by (auto simp: buf_abc_def)
qed

text \<open>\<open>BUFFER_enlarge\<close> never lets the new size wrap around: when old size and increment do
  not fit below \<open>SIZE_MAX\<close> it fails without asking the allocator; otherwise, when the
  request is granted, the size grows by the increment and the old bytes are a prefix of the
  new contents.\<close>

theorem BUFFER_enlarge_grows:
  assumes "buf_inv b" and "0 < n"
  shows "if SIZE_MAX \<le> buf_size b + n then BUFFER_enlarge (Some b) n h = (Failure, Some b, h)
         else if \<not> granted h then BUFFER_enlarge (Some b) n h = (Failure, Some b, after_request 1 h)
         else \<exists>b' h'. BUFFER_enlarge (Some b) n h = (Success, Some b', h') \<and> buf_inv b' \<and>
                buf_size b' = buf_size b + n \<and> take (buf_size b) (buf_bytes b') = buf_bytes b"
proof (cases "SIZE_MAX \<le> buf_size b + n")
  case True
  then show ?thesis
    using assms(2) by (auto simp: BUFFER_enlarge_def safe_add_size_t_def)
next
  case False
  then have add: "safe_add_size_t (buf_size b) n = buf_size b + n" by (simp add: safe_add_size_t_ok)
  show ?thesis
  proof (cases "buf_data b")
    case None
    with False assms add show ?thesis
      by (auto simp: BUFFER_enlarge_def realloc_block_def malloc_block_def buf_inv_def buf_bytes_def Let_def)
  next
    case (Some d)
    with False assms add show ?thesis
      by (auto simp: BUFFER_enlarge_def realloc_block_def buf_inv_def buf_bytes_def after_request_def Let_def)
  qed
qed

theorem BUFFER_enlarge_grows_witness:
  "BUFFER_enlarge (Some buf_abc) SIZE_MAX heap0 = (Failure, Some buf_abc, heap0)"
  using BUFFER_enlarge_grows [of buf_abc SIZE_MAX heap0]
  by (simp add: buf_abc_def SIZE_MAX_def)

text \<open>\<open>BUFFER_clone\<close> loses a block: when the structure is allocated and the block for the
  bytes is refused, it returns null without freeing the structure, so one live block more
  than before is left with no handle to it. (\<open>BUFFER_create\<close>, which has the same two
  requests, frees it.)\<close>

theorem BUFFER_clone_leaks:
  assumes "mem_ok h (mem_calls h)" and "\<not> mem_ok h (Suc (mem_calls h))"
  shows "\<exists>h1 h2. BUFFER_clone (Some b) h = (None, h1) \<and> mem_live h1 = mem_live h + 1 \<and>
           BUFFER_create (Some src) n h = (None, h2) \<and> mem_live h2 = mem_live h"
  using assms by (auto simp: buffer_defs mem_defs)

theorem BUFFER_clone_leaks_witness:
  "\<exists>h1 h2. BUFFER_clone (Some buf_abc) (heap0\<lparr>mem_ok := (\<lambda>n. n = 0)\<rparr>) = (None, h1) \<and> mem_live h1 = 0 + 1 \<and>
     BUFFER_create (Some [1]) 1 (heap0\<lparr>mem_ok := (\<lambda>n. n = 0)\<rparr>) = (None, h2) \<and> mem_live h2 = 0"
  using BUFFER_clone_leaks [of "heap0\<lparr>mem_ok := (\<lambda>n. n = 0)\<rparr>" buf_abc "[1]" 1]
  by (simp add: heap0_def)

end
