(* ===== verification/Codecs.thy ===== *)
theory Codecs
  imports Prelude
begin

text \<open>
  The contract of the text encodings of bytes (\<open>base64.c\<close>, \<open>base32.c\<close>): every byte string has
  a text without terminator, which decodes to it when it is read from a block. The padded
  encodings extend it: a group of \<open>inp\<close> bytes becomes a group of \<open>outp\<close> characters and the last
  group is completed. The theories of the two codecs interpret both contracts.
\<close>

locale byte_codec =
  fixes text_of :: "byte list \<Rightarrow> char list" and bytes_of :: "char list \<Rightarrow> byte list"
  assumes text_c_string: "c_string (text_of bs)"
    and decodes: "bytes_of (text_of bs @ NUL # r) = bs"
begin

lemma decodes_block: "terminated blk \<Longrightarrow> cstr blk = text_of bs \<Longrightarrow> bytes_of blk = bs"
  using terminated_split [of blk] decodes by metis

lemma text_inject: "text_of bs = text_of cs \<longleftrightarrow> bs = cs"
  using decodes by metis

lemma strlen_text: "strlen (text_of bs @ NUL # r) = length (text_of bs)"
  by (simp add: text_c_string)

end

locale padded_codec = byte_codec +
  fixes inp outp :: nat
  assumes groups: "0 < inp" "inp \<le> outp"
    and text_length: "length (text_of bs) = (length bs + (inp - 1)) div inp * outp"
begin

lemma text_length_mod: "length (text_of bs) mod outp = 0"
  by (simp add: text_length)

lemma text_Nil_iff: "text_of bs = [] \<longleftrightarrow> bs = []"
  using text_length [of bs] text_length [of "[]"] text_inject [of bs "[]"] groups by auto

lemma text_grows: "length bs \<le> length (text_of bs)"
proof -
  let ?k = "(length bs + (inp - 1)) div inp"
  have "length bs + (inp - 1) < ?k * inp + inp"
    using groups by (metis div_mult_mod_eq mod_less_divisor nat_add_left_cancel_less)
  then have "length bs \<le> ?k * inp" using groups by linarith
  also have "\<dots> \<le> ?k * outp" using groups by simp
  finally show ?thesis by (simp add: text_length)
qed

text \<open>A longer byte string never has a shorter text: a block that fits the larger fits both.\<close>

lemma text_length_mono: "length bs \<le> length cs \<Longrightarrow> length (text_of bs) \<le> length (text_of cs)"
  by (simp add: text_length div_le_mono)

end

section \<open>The reference encoding\<close>

text \<open>RFC 4648 on bits: the bits of the bytes, most significant first, are cut into quanta of
  \<open>w\<close> bits, the last one filled with zeros; each quantum is a character of the alphabet, and
  the text is filled with \<open>=\<close> to a multiple of \<open>outp\<close> characters.\<close>

definition byte_bits :: "byte \<Rightarrow> bool list" where
  "byte_bits b = [bit b 7, bit b 6, bit b 5, bit b 4, bit b 3, bit b 2, bit b 1, bit b 0]"

definition bits_value :: "bool list \<Rightarrow> nat" where
  "bits_value bs = foldl (\<lambda>n b. 2 * n + of_bool b) 0 bs"

function quanta :: "nat \<Rightarrow> bool list \<Rightarrow> nat list" where
  "quanta w bs =
     (if w = 0 \<or> bs = [] then [] else bits_value (take w (bs @ replicate w False)) # quanta w (drop w bs))"
  by pat_completeness auto
termination by (relation "measure (\<lambda>(w, bs). length bs)") auto

declare quanta.simps [simp del]

definition rfc_text :: "nat \<Rightarrow> nat \<Rightarrow> char list \<Rightarrow> byte list \<Rightarrow> char list" where
  "rfc_text w outp alphabet bs =
     (let q = map (\<lambda>v. alphabet ! v) (quanta w (concat (map byte_bits bs))) in
      q @ replicate ((outp - length q mod outp) mod outp) CHR ''='')"

lemma quanta_Nil [simp]: "quanta w [] = []"
  by (simp add: quanta.simps)

lemma quanta_chunk: "0 < w \<Longrightarrow> length xs = w \<Longrightarrow> quanta w (xs @ ys) = bits_value xs # quanta w ys"
  by (subst quanta.simps) auto

lemma quanta_last: "0 < length xs \<Longrightarrow> length xs < w \<Longrightarrow>
    quanta w xs = [bits_value (xs @ replicate (w - length xs) False)]"
  by (subst quanta.simps) (auto simp: min_def)

text \<open>A whole group of bytes is encoded on its own.\<close>

lemma rfc_text_group:
  assumes "0 < w" and "quanta w (concat (map byte_bits xs) @ ys) = vs @ quanta w ys"
    and "ys = concat (map byte_bits bs)" and "length vs = outp"
  shows "rfc_text w outp alphabet (xs @ bs) = map (\<lambda>v. alphabet ! v) vs @ rfc_text w outp alphabet bs"
  using assms by (simp add: rfc_text_def Let_def)

end
