(* ===== verification/Base64.thy ===== *)
theory Base64
  imports Buffer CStrings Codecs
begin

text \<open>
  Base 64 as \<open>src/base64.c\<close> computes it: the character functions with their packed tables,
  the encoding loop that stores into a block of the computed size, the decoder's scan and
  loop that store into a pre-built buffer, and the public entry points with every allocation
  failure. The lemmas relate the loops to two reference functions on lists
  (\<open>base64_text\<close>, \<open>base64_bytes\<close>) and show that they never store outside their block.
\<close>

section \<open>Characters\<close>

definition base64char :: "byte \<Rightarrow> char" where
  "base64char val =
     (if val < 26 then char_of_byte (byte_of_char CHR ''A'' + val)
      else if val < 52 then char_of_byte (byte_of_char CHR ''a'' + (val - 26))
      else if val < 62 then char_of_byte (byte_of_char CHR ''0'' + (val - 52))
      else if val = 62 then CHR ''+''
      else CHR ''/'')"

text \<open>The macros: four characters packed in 32 bits, and the byte at a position.\<close>

definition joinChars :: "char \<Rightarrow> char \<Rightarrow> char \<Rightarrow> char \<Rightarrow> 32 word" where
  "joinChars a b c d =
     ucast (byte_of_char a) + push_bit 8 (ucast (byte_of_char b)) +
     push_bit 16 (ucast (byte_of_char c)) + push_bit 24 (ucast (byte_of_char d))"

definition splitInt :: "32 word \<Rightarrow> byte \<Rightarrow> char" where
  "splitInt intVal bytePos = char_of_byte (ucast (drop_bit (unat (push_bit 3 bytePos)) intVal AND 0xFF))"

definition base64b16 :: "byte \<Rightarrow> char" where
  "base64b16 val =
     (let base64b16values =
        [joinChars CHR ''A'' CHR ''E'' CHR ''I'' CHR ''M'',
         joinChars CHR ''Q'' CHR ''U'' CHR ''Y'' CHR ''c'',
         joinChars CHR ''g'' CHR ''k'' CHR ''o'' CHR ''s'',
         joinChars CHR ''w'' CHR ''0'' CHR ''4'' CHR ''8''] in
      splitInt (base64b16values ! unat (drop_bit 2 val)) (val AND 0x03))"

definition base64b8 :: "byte \<Rightarrow> char" where
  "base64b8 val = splitInt (joinChars CHR ''A'' CHR ''Q'' CHR ''g'' CHR ''w'') val"

text \<open>The result is \<open>Failure\<close> where the code returns \<open>-1\<close>; the value is then \<open>0\<close>. The
  characters are compared as the code does, by their codes.\<close>

definition base64toValue :: "char \<Rightarrow> rc \<times> byte" where
  "base64toValue base64character =
     (let c = byte_of_char base64character in
      if byte_of_char CHR ''A'' \<le> c \<and> c \<le> byte_of_char CHR ''Z''
        then (Success, c - byte_of_char CHR ''A'')
      else if byte_of_char CHR ''a'' \<le> c \<and> c \<le> byte_of_char CHR ''z''
        then (Success, (byte_of_char CHR ''Z'' - byte_of_char CHR ''A'') + 1 + (c - byte_of_char CHR ''a''))
      else if byte_of_char CHR ''0'' \<le> c \<and> c \<le> byte_of_char CHR ''9''
        then (Success, (byte_of_char CHR ''Z'' - byte_of_char CHR ''A'') + 1 +
                       (byte_of_char CHR ''z'' - byte_of_char CHR ''a'') + 1 + (c - byte_of_char CHR ''0''))
      else if CHR ''+'' = base64character then (Success, 62)
      else if CHR ''/'' = base64character then (Success, 63)
      else (Failure, 0))"

section \<open>Decoding\<close>

fun numberOfBase64Characters :: "char list \<Rightarrow> nat" where
  "numberOfBase64Characters [] = 0"
| "numberOfBase64Characters (c # cs) =
     (if fst (base64toValue c) = Success then Suc (numberOfBase64Characters cs) else 0)"

definition Base64decode_len :: "char list \<Rightarrow> nat" where
  "Base64decode_len encodedString =
     (let sourceLength = strlen encodedString in
      if sourceLength = 0 then 0
      else
        (let result = sourceLength div 4 * 3 in
         if encodedString ! (sourceLength - 1) = CHR ''=''
         then (if encodedString ! (sourceLength - 2) = CHR ''='' then result - 1 - 1 else result - 1)
         else result))"

text \<open>The decoding loop. The first argument is the encoded characters still to be read, so
  its length is \<open>numberOfEncodedChars\<close>; the state is the index and the block written.\<close>

fun Base64decode_loop :: "char list \<Rightarrow> nat \<times> byte list \<Rightarrow> nat \<times> byte list" where
  "Base64decode_loop (x1 # x2 # x3 # x4 # rest) st =
     (let c1 = snd (base64toValue x1); c2 = snd (base64toValue x2);
          c3 = snd (base64toValue x3); c4 = snd (base64toValue x4) in
      Base64decode_loop rest
        (put [push_bit 6 (c3 AND 0x03) OR c4]
          (put [push_bit 4 (c2 AND 0x0f) OR drop_bit 2 c3]
            (put [push_bit 2 c1 OR drop_bit 4 c2] st))))"
| "Base64decode_loop [x1, x2] st =
     (let c1 = snd (base64toValue x1); c2 = snd (base64toValue x2) in
      put [push_bit 2 c1 OR drop_bit 4 c2] st)"
| "Base64decode_loop [x1, x2, x3] st =
     (let c1 = snd (base64toValue x1); c2 = snd (base64toValue x2); c3 = snd (base64toValue x3) in
      put [push_bit 4 (c2 AND 0x0f) OR drop_bit 2 c3] (put [push_bit 2 c1 OR drop_bit 4 c2] st))"
| "Base64decode_loop _ st = st"

definition Base64decode :: "byte list \<Rightarrow> char list \<Rightarrow> byte list" where
  "Base64decode decodedString base64String =
     snd (Base64decode_loop (take (numberOfBase64Characters base64String) base64String) (0, decodedString))"

definition Base64_Decoder :: "char list option \<Rightarrow> heap \<Rightarrow> BUFFER option \<times> heap" where
  "Base64_Decoder source h =
     (case source of
        None \<Rightarrow> (None, h)
      | Some src \<Rightarrow>
          (if strlen src mod 4 \<noteq> 0 then (None, h)
           else
             (case BUFFER_new h of
                (None, h1) \<Rightarrow> (None, h1)
              | (Some result, h1) \<Rightarrow>
                  (let sizeOfOutputBuffer = Base64decode_len src in
                   if sizeOfOutputBuffer > 0 then
                     (case BUFFER_pre_build (Some result) sizeOfOutputBuffer h1 of
                        (Success, Some b, h2) \<Rightarrow>
                          (Some (b\<lparr>buf_data := map_option (\<lambda>d. Base64decode d src) (buf_data b)\<rparr>), h2)
                      | (_, r, h2) \<Rightarrow> (None, BUFFER_delete r h2))
                   else (Some result, h1)))))"

section \<open>Encoding\<close>

text \<open>The encoding loop and its tail: the bytes from \<open>currentPosition\<close> on, and the position
  and block written.\<close>

fun Base64_Encode_loop :: "byte list \<Rightarrow> nat \<times> char list \<Rightarrow> nat \<times> char list" where
  "Base64_Encode_loop (s0 # s1 # s2 # rest) st =
     (let c1 = base64char (drop_bit 2 s0);
          c2 = base64char (push_bit 4 (s0 AND 3) OR drop_bit 4 s1);
          c3 = base64char (push_bit 2 (s1 AND 0x0F) OR (drop_bit 6 s2 AND 3));
          c4 = base64char (s2 AND 0x3F) in
      Base64_Encode_loop rest (put [c1, c2, c3, c4] st))"
| "Base64_Encode_loop [s0, s1] st =
     (let c1 = base64char (drop_bit 2 s0);
          c2 = base64char (push_bit 4 (s0 AND 0x03) OR drop_bit 4 s1);
          c3 = base64b16 (s1 AND 0x0F) in
      put [c1, c2, c3, CHR ''=''] st)"
| "Base64_Encode_loop [s0] st =
     (let c1 = base64char (drop_bit 2 s0);
          c2 = base64b8 (s0 AND 0x03) in
      put [c1, c2, CHR ''='', CHR ''=''] st)"
| "Base64_Encode_loop [] st = st"

definition Base64_neededSize :: "nat \<Rightarrow> nat" where
  "Base64_neededSize sz = (if sz = 0 then 0 else ((sz - 1) div 3 + 1) * 4) + 1"

definition Base64_Encode_Internal :: "byte list \<Rightarrow> nat \<Rightarrow> heap \<Rightarrow> STRING option \<times> heap" where
  "Base64_Encode_Internal source sz h =
     (case malloc_chars (Base64_neededSize sz + 1) h of
        (None, h1) \<Rightarrow> (None, h1)
      | (Some encoded, h1) \<Rightarrow>
          (let (destinationPosition, e) = Base64_Encode_loop (take sz source) (0, encoded);
               terminated_e = e[destinationPosition := NUL] in
           case STRING_new_with_memory (Some terminated_e) h1 of
             (None, h2) \<Rightarrow> (None, c_free (Some terminated_e) h2)
           | (Some r, h2) \<Rightarrow> (Some r, h2)))"

definition Base64_Encode_Bytes :: "byte list option \<Rightarrow> nat \<Rightarrow> heap \<Rightarrow> STRING option \<times> heap" where
  "Base64_Encode_Bytes source sz h =
     (case source of
        None \<Rightarrow> (None, h)
      | Some s \<Rightarrow> (if sz = 0 then STRING_new h else Base64_Encode_Internal s sz h))"

definition Base64_Encoder :: "BUFFER option \<Rightarrow> heap \<Rightarrow> STRING option \<times> heap" where
  "Base64_Encoder input h =
     (case input of
        None \<Rightarrow> (None, h)
      | Some _ \<Rightarrow>
          (case (BUFFER_content input, BUFFER_size input) of
             ((Success, inputBinary), (Success, Some inputSize)) \<Rightarrow>
               Base64_Encode_Internal (case inputBinary of None \<Rightarrow> [] | Some d \<Rightarrow> d) inputSize h
           | _ \<Rightarrow> (None, h)))"

section \<open>Reference functions\<close>

text \<open>The text of a byte string, and the bytes of a text: the mathematical content.\<close>

fun base64_text :: "byte list \<Rightarrow> char list" where
  "base64_text (a # b # c # rest) =
     [base64char (drop_bit 2 a), base64char (push_bit 4 (a AND 3) OR drop_bit 4 b),
      base64char (push_bit 2 (b AND 0x0F) OR drop_bit 6 c), base64char (c AND 0x3F)] @ base64_text rest"
| "base64_text [a, b] =
     [base64char (drop_bit 2 a), base64char (push_bit 4 (a AND 3) OR drop_bit 4 b),
      base64char (push_bit 2 (b AND 0x0F)), CHR ''='']"
| "base64_text [a] =
     [base64char (drop_bit 2 a), base64char (push_bit 4 (a AND 3)), CHR ''='', CHR ''='']"
| "base64_text [] = []"

fun base64_bytes :: "byte list \<Rightarrow> byte list" where
  "base64_bytes (c1 # c2 # c3 # c4 # rest) =
     [push_bit 2 c1 OR drop_bit 4 c2, push_bit 4 (c2 AND 0x0f) OR drop_bit 2 c3,
      push_bit 6 (c3 AND 0x03) OR c4] @ base64_bytes rest"
| "base64_bytes [c1, c2] = [push_bit 2 c1 OR drop_bit 4 c2]"
| "base64_bytes [c1, c2, c3] =
     [push_bit 2 c1 OR drop_bit 4 c2, push_bit 4 (c2 AND 0x0f) OR drop_bit 2 c3]"
| "base64_bytes _ = []"


lemma byte_of_char_eq_iff: "byte_of_char c = byte_of_char d \<longleftrightarrow> c = d"
  by (metis char_of_byte_of_char)

lemma byte_of_char_codes [simp]:
  "byte_of_char CHR ''A'' = 65" "byte_of_char CHR ''Z'' = 90" "byte_of_char CHR ''a'' = 97"
  "byte_of_char CHR ''z'' = 122" "byte_of_char CHR ''0'' = 48" "byte_of_char CHR ''9'' = 57"
  "byte_of_char CHR ''+'' = 43" "byte_of_char CHR ''/'' = 47" "byte_of_char CHR ''='' = 61"
  by (simp_all add: byte_of_char_def)

lemma byte_of_char_number:
  "byte_of_char (Char b0 b1 b2 b3 b4 b5 b6 b7) =
     of_nat (of_bool b0 + 2 * of_bool b1 + 4 * of_bool b2 + 8 * of_bool b3 + 16 * of_bool b4 +
       32 * of_bool b5 + 64 * of_bool b6 + 128 * of_bool b7)"
  by (simp add: byte_of_char_def of_char_def)

lemma char_eq_code:
  "CHR ''+'' = c \<longleftrightarrow> byte_of_char c = 43" "CHR ''/'' = c \<longleftrightarrow> byte_of_char c = 47"
  "c = CHR ''='' \<longleftrightarrow> byte_of_char c = 61"
  using byte_of_char_eq_iff [of "CHR ''+''" c] byte_of_char_eq_iff [of "CHR ''/''" c]
    byte_of_char_eq_iff [of c "CHR ''=''"] by auto

lemma code_base64char: "byte_of_char (base64char v) =
   (if v < 26 then 65 + v else if v < 52 then 97 + (v - 26) else if v < 62 then 48 + (v - 52)
    else if v = 62 then 43 else 47)"
  by (simp add: base64char_def)

lemma toValue_base64char: "unat v < 64 \<Longrightarrow> base64toValue (base64char v) = (Success, v)"
  by (rule byte_cases_below [where m = 64])
    (simp_all add: base64toValue_def code_base64char char_eq_code upt_rec Let_def)

lemma base64char_not_pad: "base64char v \<noteq> CHR ''=''"
  by (simp add: code_base64char char_eq_code) (unat_arith, auto)

lemma base64b16_eq: "unat v < 16 \<Longrightarrow> base64b16 v = base64char (push_bit 2 v)"
  unfolding byte_of_char_eq_iff [symmetric]
  by (rule byte_cases_below [where m = 16 and v = v and
        P = "\<lambda>v. byte_of_char (base64b16 v) = byte_of_char (base64char (push_bit 2 v))"])
    (simp_all add: code_base64char base64b16_def splitInt_def joinChars_def byte_of_char_number upt_rec Let_def)

lemma base64b8_eq: "unat v < 4 \<Longrightarrow> base64b8 v = base64char (push_bit 4 v)"
  unfolding byte_of_char_eq_iff [symmetric]
  by (rule byte_cases_below [where m = 4 and v = v and
        P = "\<lambda>v. byte_of_char (base64b8 v) = byte_of_char (base64char (push_bit 4 v))"])
    (simp_all add: code_base64char base64b8_def splitInt_def joinChars_def byte_of_char_number upt_rec Let_def)
section \<open>The loops write the reference functions' result\<close>

lemma base64_c3: "drop_bit 6 (c :: byte) AND 3 = drop_bit 6 c"
  by (rule byte_eqI) (simp_all add: bit_simps)

lemma unat_and_bound: "unat m < n \<Longrightarrow> unat (x AND m :: byte) < n"
  using unat_and_le [of x m] by simp

lemma length_base64_text: "length (base64_text src) = (length src + 2) div 3 * 4"
proof (induction src rule: base64_text.induct)
  case (1 a b c src)
  have "(5 + n) div 3 = Suc ((n + 2) div 3)" for n :: nat by presburger
  with 1 show ?case by simp
qed simp_all

lemma Base64_Encode_loop_put:
  "fst st + length (base64_text src) \<le> length (snd st) \<Longrightarrow>
     Base64_Encode_loop src st = put (base64_text src) st"
  by (induction src arbitrary: st rule: base64_text.induct)
    (simp_all add: Let_def put_append base64_c3 base64b16_eq base64b8_eq unat_and_bound)

abbreviation base64_values :: "char list \<Rightarrow> byte list" where
  "base64_values cs \<equiv> map (\<lambda>c. snd (base64toValue c)) cs"

lemma length_base64_bytes:
  "length (base64_bytes vs) =
     length vs div 4 * 3 + (if length vs mod 4 = 2 then 1 else if length vs mod 4 = 3 then 2 else 0)"
  by (induction vs rule: base64_bytes.induct) (auto simp: div_add_self1)

lemma length_base64_bytes_split:
  "length vs = 4 * q + r \<Longrightarrow> r < 4 \<Longrightarrow>
     length (base64_bytes vs) = q * 3 + (if r = 2 then 1 else if r = 3 then 2 else 0)"
  by (simp add: length_base64_bytes)

lemma Base64decode_loop_put:
  "fst st + length (base64_bytes (base64_values cs)) \<le> length (snd st) \<Longrightarrow>
     Base64decode_loop cs st = put (base64_bytes (base64_values cs)) st"
  by (induction cs st rule: Base64decode_loop.induct) (simp_all add: Let_def put_append)

section \<open>Encoding is correct\<close>

lemma Base64_neededSize_text: "Base64_neededSize (length src) = length (base64_text src) + 1"
  by (cases src) (simp_all add: Base64_neededSize_def length_base64_text div_add_self1)

lemma base64_text_c_string: "c_string (base64_text src)"
proof -
  have "base64char v \<noteq> NUL" for v
    by (simp add: byte_of_char_eq_iff [symmetric] code_base64char byte_of_char_number del: byte_of_char_eq_iff)
      (unat_arith, auto)
  then show ?thesis by (induction src rule: base64_text.induct) auto
qed

lemma store_terminator:
  "length cs < length b \<Longrightarrow> c_string cs \<Longrightarrow>
     cstr ((cs @ drop (length cs) b)[length cs := NUL]) = cs \<and>
     terminated ((cs @ drop (length cs) b)[length cs := NUL])"
  by (cases "drop (length cs) b") (auto simp: list_update_append)

text \<open>What a caller of the encoders gets: nothing and no block kept, or a string that owns two
  blocks and holds the text.\<close>

definition encoded_as :: "char list \<Rightarrow> heap \<Rightarrow> STRING option \<Rightarrow> heap \<Rightarrow> bool" where
  "encoded_as t h r h' =
     (case r of
        None \<Rightarrow> mem_live h' = mem_live h
      | Some s \<Rightarrow> str_inv s \<and> str_val s = t \<and> mem_live h' = mem_live h + 2)"

lemma Base64_Encode_Internal_encodes:
  assumes "sz \<le> length source" and "Base64_Encode_Internal source sz h = (r, h')"
  shows "encoded_as (base64_text (take sz source)) h r h'"
proof -
  let ?t = "base64_text (take sz source)"
  have needed: "Base64_neededSize sz = length ?t + 1"
    using assms(1) Base64_neededSize_text [of "take sz source"] by simp
  have loop: "Base64_Encode_loop (take sz source) (0, b) = (length ?t, ?t @ drop (length ?t) b)"
    if "length b = length ?t + 2" for b
    using that by (simp add: Base64_Encode_loop_put put_whole)
  show ?thesis
    using assms(2) store_terminator [of ?t "fresh_block char_of_byte (length ?t + 2) h"] base64_text_c_string
    by (auto simp: Base64_Encode_Internal_def needed loop malloc_chars_def STRING_new_with_memory_def
        mem_defs encoded_as_def str_inv_def str_val_def split: if_splits)
qed

section \<open>Decoding is correct\<close>

lemma numberOfBase64Characters_le: "numberOfBase64Characters s \<le> length s"
  by (induction s) auto

lemma numberOfBase64Characters_valid:
  "i < numberOfBase64Characters s \<Longrightarrow> fst (base64toValue (s ! i)) = Success"
  by (induction s arbitrary: i) (auto simp: nth_Cons split: if_splits nat.splits)

lemma number_le_invalid:
  "fst (base64toValue (s ! i)) \<noteq> Success \<Longrightarrow> numberOfBase64Characters s \<le> i"
  using numberOfBase64Characters_valid [of i s] by (metis not_le)

lemma base64_NUL_invalid: "fst (base64toValue NUL) \<noteq> Success"
  by (simp add: base64toValue_def byte_of_char_number char_eq_code)

lemma base64_pad_invalid: "fst (base64toValue CHR ''='') \<noteq> Success"
  by (simp add: base64toValue_def char_eq_code)

text \<open>The loop stays inside the buffer whose size was computed from the length of the text and
  the padding, whatever the characters are.\<close>

lemma Base64decode_in_bounds:
  assumes "terminated src" and "strlen src mod 4 = 0"
  shows "length (base64_bytes (base64_values (take (numberOfBase64Characters src) src))) \<le> Base64decode_len src"
proof -
  let ?n = "numberOfBase64Characters src" and ?l = "strlen src"
  have n: "?n \<le> ?l" using assms(1) number_le_invalid [of src ?l] base64_NUL_invalid by (simp add: nth_strlen)
  have len: "length (take ?n src) = ?n" using numberOfBase64Characters_le by (simp add: min_absorb2)
  have pad1: "?n \<le> ?l - 1" if "src ! (?l - 1) = CHR ''=''"
    using number_le_invalid [of src "?l - 1"] base64_pad_invalid that by simp
  have pad2: "?n \<le> ?l - 2" if "src ! (?l - 2) = CHR ''=''"
    using number_le_invalid [of src "?l - 2"] base64_pad_invalid that by simp
  obtain k where k: "?l = 4 * k" using assms(2) by auto
  obtain q r where r: "?n = 4 * q + r" "r < 4"
    using that [of "?n div 4" "?n mod 4"] by simp
  have "length (base64_bytes (base64_values (take ?n src))) =
      q * 3 + (if r = 2 then 1 else if r = 3 then 2 else 0)"
    using length_base64_bytes_split [OF _ r(2)] len r(1) by (metis length_map)
  then show ?thesis
    using n pad1 pad2 r(2) unfolding Base64decode_len_def Let_def k r(1)
    by (auto split: if_splits)
qed

text \<open>The valid prefix of a block.\<close>

definition base64_prefix :: "char list \<Rightarrow> char list" where
  "base64_prefix s = take (numberOfBase64Characters s) s"

text \<open>The decoder: on success a well-formed buffer of the computed size that starts with the
  decoded bytes; on failure nothing is kept.\<close>

lemma Base64_Decoder_decodes:
  assumes "terminated src" and "Base64_Decoder (Some src) h = (r, h')"
  shows "case r of
      None \<Rightarrow> mem_live h' = mem_live h
    | Some b \<Rightarrow> strlen src mod 4 = 0 \<and> buf_inv b \<and> buf_size b = Base64decode_len src \<and>
        mem_live h' = mem_live h + buf_blocks r \<and>
        (\<exists>junk. buf_bytes b =
           base64_bytes (base64_values (base64_prefix src)) @ junk)"
proof (cases "strlen src mod 4 = 0")
  case False
  then show ?thesis using assms(2) by (auto simp: Base64_Decoder_def)
next
  case True
  let ?v = "base64_bytes (base64_values (base64_prefix src))"
  note bound = Base64decode_in_bounds [OF assms(1) True, folded base64_prefix_def]
  have decode: "Base64decode d src = ?v @ drop (length ?v) d" if "length d = Base64decode_len src" for d
    using that bound by (simp add: Base64decode_def base64_prefix_def [symmetric] Base64decode_loop_put put_whole)
  show ?thesis
    using assms(2) True bound
    by (auto simp: Base64_Decoder_def BUFFER_new_def BUFFER_pre_build_def BUFFER_delete_def mem_defs Let_def
        decode buf_inv_def buf_bytes_def buf_blocks_def split: if_splits)
qed

section \<open>Round trip\<close>

lemma six_bits: "x AND 0x3F = x \<Longrightarrow> unat (x :: byte) < 64"
  using unat_and_bound [of "0x3F" 64 x] by simp

lemma base64_quartet:
  fixes a b c :: byte
  shows "unat (drop_bit 2 a) < 64" "unat (push_bit 4 (a AND 3) OR drop_bit 4 b) < 64"
    "unat (push_bit 2 (b AND 0x0F) OR drop_bit 6 c) < 64" "unat (c AND 0x3F) < 64"
    "unat (push_bit 4 (a AND 3)) < 64" "unat (push_bit 2 (b AND 0x0F)) < 64"
  by (rule six_bits, rule byte_eqI; simp add: bit_simps)+

lemmas toValue_quartet = base64_quartet [THEN toValue_base64char]

text \<open>Four characters carry three bytes.\<close>

lemma base64_bits:
  fixes a b c :: byte
  shows "push_bit 2 (drop_bit 2 a) OR drop_bit 4 (push_bit 4 (a AND 3) OR drop_bit 4 b) = a"
    "push_bit 4 ((push_bit 4 (a AND 3) OR drop_bit 4 b) AND 0x0f) OR
       drop_bit 2 (push_bit 2 (b AND 0x0F) OR drop_bit 6 c) = b"
    "push_bit 6 ((push_bit 2 (b AND 0x0F) OR drop_bit 6 c) AND 3) OR (c AND 0x3F) = c"
    "push_bit 2 (drop_bit 2 a) OR drop_bit 4 (push_bit 4 (a AND 3)) = a"
    "push_bit 4 ((push_bit 4 (a AND 3) OR drop_bit 4 b) AND 0x0f) OR
       drop_bit 2 (push_bit 2 (b AND 0x0F)) = b"
  by (rule byte_eqI; simp add: bit_simps)+

text \<open>The valid prefix of an encoded text is the text without its padding, and it decodes to
  the bytes.\<close>


lemma base64_prefix_simps [simp]:
  "unat v < 64 \<Longrightarrow> base64_prefix (base64char v # s) = base64char v # base64_prefix s"
  "base64_prefix (CHR ''='' # s) = []" "base64_prefix (NUL # s) = []"
  using base64_pad_invalid base64_NUL_invalid by (simp_all add: base64_prefix_def toValue_base64char)

lemma base64_prefix_text: "base64_bytes (base64_values (base64_prefix (base64_text src @ NUL # r))) = src"
  by (induction src rule: base64_text.induct)
    (simp_all add: base64_quartet toValue_quartet base64_bits del: push_bit_and)

lemma base64_text_Nil_iff [simp]: "base64_text src = [] \<longleftrightarrow> src = []"
  by (cases src rule: base64_text.cases) auto

text \<open>The last two characters tell the length.\<close>

lemma nth_from_end: "0 < k \<Longrightarrow> k \<le> length t \<Longrightarrow> (xs @ t) ! (length (xs @ t) - k) = t ! (length t - k)"
  using nth_append_length_plus [of xs t "length t - k"] by simp

lemma base64_text_pads:
  "src \<noteq> [] \<Longrightarrow>
     (base64_text src ! (length (base64_text src) - 1) = CHR ''='' \<longleftrightarrow> length src mod 3 \<noteq> 0) \<and>
     (base64_text src ! (length (base64_text src) - 2) = CHR ''='' \<longleftrightarrow> length src mod 3 = 1)"
proof (induction src rule: base64_text.induct)
  case (1 a b c src)
  show ?case
  proof (cases "src = []")
    case True
    then show ?thesis by (simp add: base64char_not_pad)
  next
    case False
    then have "2 \<le> length (base64_text src)" by (cases src rule: base64_text.cases) auto
    with False "1.IH" show ?thesis
      unfolding base64_text.simps by (subst nth_from_end, simp, simp)+ (simp add: mod_Suc_eq_mod_add3 numeral_3_eq_3 [symmetric])
  qed
qed (simp_all add: base64char_not_pad)

lemma base64_text_len: "Base64decode_len (base64_text src @ NUL # r) = length src"
proof (cases "src = []")
  case False
  let ?t = "base64_text src"
  obtain q m where n: "length src = 3 * q + m" "m < 3"
    using that [of "length src div 3" "length src mod 3"] by simp
  have len: "length ?t = (if m = 0 then q else q + 1) * 4"
    using n by (auto simp: length_base64_text)
  have "length ?t \<noteq> 0" using False by simp
  with base64_text_pads [OF False] len n show ?thesis
    by (auto simp: Base64decode_len_def Let_def base64_text_c_string nth_append split: if_splits)
qed (use strlen_append_NUL [of "[]" r] in \<open>simp add: Base64decode_len_def\<close>)

lemma Base64_Encode_Bytes_encodes:
  assumes "Base64_Encode_Bytes (Some bs) (length bs) h = (r, h')"
  shows "encoded_as (base64_text bs) h r h'"
proof (cases "bs = []")
  case True
  then show ?thesis
    using assms STRING_new_made [of h r h'] by (auto simp: Base64_Encode_Bytes_def encoded_as_def made_def
        STRING_new_def str_val_def Let_def length_Suc_conv dest!: string_alloc split: option.splits prod.splits)
next
  case False
  then show ?thesis
    using assms Base64_Encode_Internal_encodes [of "length bs" bs h r h'] by (simp add: Base64_Encode_Bytes_def)
qed

text \<open>Without allocation failures both directions succeed.\<close>

lemma Base64_Encode_Bytes_granted:
  assumes "\<forall>n. mem_ok h n" and "Base64_Encode_Bytes (Some bs) (length bs) h = (r, h')"
  shows "(\<exists>s. r = Some s) \<and> (\<forall>n. mem_ok h' n)"
  using assms by (auto simp: Base64_Encode_Bytes_def Base64_Encode_Internal_def STRING_new_def alloc_STRING_def
      STRING_new_with_memory_def malloc_chars_def mem_defs Let_def split: if_splits prod.splits)

lemma Base64_Decoder_granted:
  assumes "\<forall>n. mem_ok h n" and "strlen src mod 4 = 0"
  shows "\<exists>b h'. Base64_Decoder (Some src) h = (Some b, h')"
  using assms by (auto simp: Base64_Decoder_def BUFFER_new_def BUFFER_pre_build_def mem_defs Let_def)

interpretation b64: padded_codec base64_text "\<lambda>s. base64_bytes (base64_values (base64_prefix s))" 3 4
  by unfold_locales (simp_all add: base64_text_c_string base64_prefix_text length_base64_text)

section \<open>Properties\<close>

text \<open>\<open>Base64_Encoder\<close> of a well-formed buffer either fails without keeping a block, or
  returns a string that owns two blocks and holds exactly the Base 64 text of the buffer's
  bytes; the stores of its loop stay inside the block it allocated.\<close>

theorem Base64_Encoder_encodes:
  assumes "buf_inv b" and "Base64_Encoder (Some b) h = (r, h')"
  shows "encoded_as (base64_text (buf_bytes b)) h r h' \<and>
    length (base64_text (buf_bytes b)) < Base64_neededSize (buf_size b) + 1"
proof -
  let ?d = "case buf_data b of None \<Rightarrow> [] | Some d \<Rightarrow> d"
  have "take (buf_size b) ?d = buf_bytes b" "buf_size b \<le> length ?d"
    using assms(1) by (auto simp: buf_bytes_def buf_inv_def split: option.splits)
  moreover have "Base64_Encode_Internal ?d (buf_size b) h = (r, h')"
    using assms(2) by (simp add: Base64_Encoder_def BUFFER_content_def BUFFER_size_def)
  ultimately show ?thesis
    using Base64_Encode_Internal_encodes [of "buf_size b" ?d h r h'] Base64_neededSize_text [of "buf_bytes b"]
      length_buf_bytes [OF assms(1)] by simp
qed

definition man_buffer :: BUFFER where
  "man_buffer = \<lparr>buf_data = Some [0x4D, 0x61, 0x6E, 0x21], buf_size = 4\<rparr>"

theorem Base64_Encoder_encodes_witness:
  "\<exists>r h. Base64_Encoder (Some man_buffer) heap0 = (r, h) \<and> encoded_as (base64_text [0x4D, 0x61, 0x6E, 0x21]) heap0 r h"
proof -
  have "buf_inv man_buffer" "buf_bytes man_buffer = [0x4D, 0x61, 0x6E, 0x21]"
    by (simp_all add: man_buffer_def buf_inv_def buf_bytes_def)
  then show ?thesis
    using Base64_Encoder_encodes [of man_buffer heap0] by (metis surj_pair)
qed

text \<open>\<open>Base64_Decoder\<close> of a terminated text never stores outside the buffer it builds: on
  success the length of the text is a multiple of four, the buffer is well formed, has the
  size computed from length and padding, and starts with the decoded bytes of the longest
  prefix of Base 64 characters; on failure no block is kept.\<close>

theorem Base64_Decoder_safe:
  assumes "terminated src" and "Base64_Decoder (Some src) h = (r, h')"
  shows "case r of
      None \<Rightarrow> mem_live h' = mem_live h
    | Some b \<Rightarrow> strlen src mod 4 = 0 \<and> buf_inv b \<and> buf_size b = Base64decode_len src \<and>
        mem_live h' = mem_live h + buf_blocks r \<and>
        (\<exists>junk. buf_bytes b = base64_bytes (base64_values (base64_prefix src)) @ junk)"
  by (rule Base64_Decoder_decodes [OF assms])

theorem Base64_Decoder_safe_witness:
  "case Base64_Decoder (Some (''TQ=='' @ [NUL])) heap0 of (None, h') \<Rightarrow> mem_live h' = 0 | (Some b, h') \<Rightarrow> buf_inv b"
proof -
  obtain r h' where r: "Base64_Decoder (Some (''TQ=='' @ [NUL])) heap0 = (r, h')" by (metis surj_pair)
  have "terminated (''TQ=='' @ [NUL])" by simp
  from Base64_Decoder_safe [OF this r] show ?thesis unfolding r by (auto simp: heap0_def split: option.splits)
qed

text \<open>C25: Round trip: when the allocations are granted, encoding any bytes succeeds, and decoding
  the resulting string gives a buffer that holds exactly those bytes.\<close>

theorem Base64_roundtrip:
  assumes "\<forall>n. mem_ok h n"
  shows "\<exists>s h1 b h2. Base64_Encode_Bytes (Some bs) (length bs) h = (Some s, h1) \<and>
    Base64_Decoder (STRING_c_str (Some s)) h1 = (Some b, h2) \<and> buf_bytes b = bs"
proof -
  obtain r h1 where enc: "Base64_Encode_Bytes (Some bs) (length bs) h = (r, h1)" by (metis surj_pair)
  then obtain s where s: "r = Some s" and ok: "\<forall>n. mem_ok h1 n"
    using Base64_Encode_Bytes_granted [OF assms] by metis
  have val: "str_inv s" "str_val s = base64_text bs"
    using Base64_Encode_Bytes_encodes [OF enc] s by (auto simp: encoded_as_def)
  obtain t where blk: "str_s s = base64_text bs @ NUL # t"
    using terminated_split [of "str_s s"] val by (auto simp: str_inv_def str_val_def)
  have "strlen (str_s s) mod 4 = 0"
    unfolding blk b64.strlen_text by (rule b64.text_length_mod)
  then obtain b h2 where dec: "Base64_Decoder (Some (str_s s)) h1 = (Some b, h2)"
    using Base64_Decoder_granted [OF ok] by metis
  have "buf_inv b" "buf_size b = length bs"
    using Base64_Decoder_decodes [OF _ dec] val(1) by (auto simp: str_inv_def blk base64_text_len)
  moreover obtain junk where "buf_bytes b = bs @ junk"
    using Base64_Decoder_decodes [OF _ dec] val(1) b64.decodes [of bs t] by (auto simp: str_inv_def blk)
  ultimately have "buf_bytes b = bs" using length_buf_bytes [of b] by simp
  with enc s dec show ?thesis by (auto simp: STRING_c_str_def)
qed

theorem Base64_roundtrip_witness:
  "\<exists>s h1 b h2. Base64_Encode_Bytes (Some [1, 2]) 2 heap0 = (Some s, h1) \<and>
    Base64_Decoder (STRING_c_str (Some s)) h1 = (Some b, h2) \<and> buf_bytes b = [1, 2]"
  using Base64_roundtrip [of heap0 "[1, 2]"] by (simp add: heap0_def numeral_2_eq_2)

text \<open>The decoder accepts text that is not Base 64: a text of the right length whose first
  character is no Base 64 character gives, once the allocations are granted, a buffer whose
  bytes are all uninitialised memory.\<close>

theorem Base64_Decoder_uninitialised:
  assumes "\<forall>n. mem_ok h n" and "strlen src mod 4 = 0" and "fst (base64toValue (src ! 0)) \<noteq> Success"
    and "0 < Base64decode_len src"
  shows "\<exists>b h'. Base64_Decoder (Some src) h = (Some b, h') \<and>
    buf_bytes b = map (mem_junk h (Suc (mem_calls h))) [0..<Base64decode_len src]"
proof -
  have "Base64decode d src = d" for d
    using number_le_invalid [OF assms(3)] by (simp add: Base64decode_def)
  then show ?thesis
    using assms by (auto simp: Base64_Decoder_def BUFFER_new_def BUFFER_pre_build_def mem_defs Let_def
        buf_bytes_def fresh_block_def byte_cell_def)
qed

theorem Base64_Decoder_uninitialised_witness:
  "\<exists>b h'. Base64_Decoder (Some (''####'' @ [NUL])) (heap0\<lparr>mem_junk := \<lambda>n i. 0x5A\<rparr>) = (Some b, h') \<and>
    buf_bytes b = [0x5A, 0x5A, 0x5A]"
  using Base64_Decoder_uninitialised [of "heap0\<lparr>mem_junk := \<lambda>n i. 0x5A\<rparr>" "''####'' @ [NUL]"]
  by (simp add: heap0_def strlen_def Base64decode_len_def base64toValue_def byte_of_char_number char_eq_code
      upt_rec)

end
