(* ===== verification/Base32.thy ===== *)
theory Base32
  imports Buffer CStrings Codecs
begin

text \<open>
  Base 32 as \<open>src/base32.c\<close> computes it: the encoder that packs blocks of up to five bytes
  through a falling-through switch, the decoder that collects eight characters at a time into
  a temporary block, and the public entry points with every allocation failure.
\<close>

section \<open>Tables and lengths\<close>

definition BASE32_EQUAL_SIGN :: byte where
  "BASE32_EQUAL_SIGN = 32"

definition BASE32_VALUES :: "char list" where
  "BASE32_VALUES = ''abcdefghijklmnopqrstuvwxyz234567=''"

definition base32_encoding_length :: "nat \<Rightarrow> nat" where
  "base32_encoding_length src_len = ((src_len + 5 - 1) div 5) * 8"

definition base32_decoding_length :: "nat \<Rightarrow> nat" where
  "base32_decoding_length src_len = (src_len * 5) div 8"

definition convert_value_to_base32_char :: "byte \<Rightarrow> byte" where
  "convert_value_to_base32_char val =
     (if val \<ge> 50 \<and> val \<le> 55 then 0x1a + (val - 50)
      else if val = 61 then 0x20
      else if val \<le> 49 \<or> (val \<ge> 56 \<and> val \<le> 64) then 0xFF
      else if val \<ge> 65 \<and> val \<le> 90 then 0x00 + (val - 65)
      else if val \<ge> 91 \<and> val \<le> 96 then 0xFF
      else if val \<ge> 97 \<and> val \<le> 123 then 0x00 + (val - 97)
      else 0xFF)"

section \<open>Encoding\<close>

text \<open>One block: the switch falls through from the block's length down to one, so a case runs
  when the block is at least that long; the second switch falls through upwards.\<close>

definition base32_block :: "byte list \<Rightarrow> byte list" where
  "base32_block it =
     (let n = length it;
          pos8 = (if 5 \<le> n then it ! 4 AND 0x1f else 0);
          pos7 = (if 5 \<le> n then drop_bit 5 (it ! 4 AND 0xe0) else 0);
          pos7 = (if 4 \<le> n then pos7 OR push_bit 3 (it ! 3 AND 0x03) else pos7);
          pos6 = (if 4 \<le> n then drop_bit 2 (it ! 3 AND 0x7c) else 0);
          pos5 = (if 4 \<le> n then drop_bit 7 (it ! 3 AND 0x80) else 0);
          pos5 = (if 3 \<le> n then pos5 OR push_bit 1 (it ! 2 AND 0x0f) else pos5);
          pos4 = (if 3 \<le> n then drop_bit 4 (it ! 2 AND 0xf0) else 0);
          pos4 = (if 2 \<le> n then pos4 OR push_bit 4 (it ! 1 AND 0x01) else pos4);
          pos3 = (if 2 \<le> n then drop_bit 1 (it ! 1 AND 0x3e) else 0);
          pos2 = (if 2 \<le> n then drop_bit 6 (it ! 1 AND 0xc0) else 0);
          pos2 = pos2 OR push_bit 2 (it ! 0 AND 0x07);
          pos1 = drop_bit 3 (it ! 0 AND 0xf8);
          pos3 = (if n \<le> 1 then 32 else pos3);
          pos4 = (if n \<le> 1 then 32 else pos4);
          pos5 = (if n \<le> 2 then 32 else pos5);
          pos6 = (if n \<le> 3 then 32 else pos6);
          pos7 = (if n \<le> 3 then 32 else pos7);
          pos8 = (if n \<le> 4 then 32 else pos8) in
      [pos1, pos2, pos3, pos4, pos5, pos6, pos7, pos8])"

definition base32_block_text :: "byte list \<Rightarrow> char list" where
  "base32_block_text it = map (\<lambda>pos. BASE32_VALUES ! unat pos) (base32_block it)"

fun base32_encode_loop :: "byte list \<Rightarrow> nat \<times> char list \<Rightarrow> nat \<times> char list" where
  "base32_encode_loop iterator st =
     (if length iterator \<ge> 1
      then base32_encode_loop (drop 5 iterator) (put (base32_block_text (take 5 iterator)) st)
      else st)"

declare base32_encode_loop.simps [simp del]

definition base32_encode_impl :: "byte list \<Rightarrow> nat \<Rightarrow> heap \<Rightarrow> char list option \<times> heap" where
  "base32_encode_impl source src_size h =
     (let output_len = base32_encoding_length src_size in
      case malloc_chars (output_len + 1) h of
        (None, h1) \<Rightarrow> (None, h1)
      | (Some _, h1) \<Rightarrow>
          (let cleared = replicate (output_len + 1) NUL in
           (Some (snd (base32_encode_loop (take src_size source) (0, cleared))), h1)))"

section \<open>Decoding\<close>

text \<open>The inner loop: collect characters, stopping with a failure at a byte of 128 or more. A
  read past the end of the block has no result; it does not happen for the texts the decoder
  accepts.\<close>

fun base32_collect :: "nat \<Rightarrow> char list \<Rightarrow> (byte list \<times> char list) option" where
  "base32_collect 0 iterator = Some ([], iterator)"
| "base32_collect (Suc n) [] = None"
| "base32_collect (Suc n) (c # iterator) =
     (if byte_of_char c \<ge> 0x80 then None
      else (case base32_collect n iterator of
              None \<Rightarrow> None
            | Some (input, it) \<Rightarrow> Some (convert_value_to_base32_char (byte_of_char c) # input, it)))"

lemma base32_collect_length:
  "base32_collect n it = Some (input, it') \<Longrightarrow> length input = n \<and> length it = n + length it'"
  by (induction n it arbitrary: input it' rule: base32_collect.induct)
    (auto split: if_splits option.splits)

definition base32_bytes_of :: "byte list \<Rightarrow> byte list" where
  "base32_bytes_of input =
     [push_bit 3 (input ! 0 AND 0x1f) OR drop_bit 2 (input ! 1 AND 0x1c),
      push_bit 6 (input ! 1 AND 0x03) OR push_bit 1 (input ! 2 AND 0x1f) OR drop_bit 4 (input ! 3 AND 0x10),
      push_bit 4 (input ! 3 AND 0x0f) OR drop_bit 1 (input ! 4 AND 0x1e),
      push_bit 7 (input ! 4 AND 0x01) OR push_bit 2 (input ! 5 AND 0x1f) OR drop_bit 3 (input ! 6 AND 0x18),
      push_bit 5 (input ! 6 AND 0x07) OR (input ! 7 AND 0x1f)]"

definition base32_padding :: "byte list \<Rightarrow> nat" where
  "base32_padding input =
     (if input ! 7 = BASE32_EQUAL_SIGN then
        if input ! 5 = BASE32_EQUAL_SIGN then
          if input ! 4 = BASE32_EQUAL_SIGN then
            if input ! 2 = BASE32_EQUAL_SIGN then 4 else 3
          else 2
        else 1
      else 0)"

function base32_decode_loop ::
  "nat \<Rightarrow> char list \<Rightarrow> nat \<Rightarrow> nat \<times> byte list \<Rightarrow> (nat \<times> nat \<times> byte list) option" where
  "base32_decode_loop allocation_len iterator dest_size st =
     (if iterator = [] then None
      else if hd iterator = NUL then Some (dest_size, st)
      else
        (case base32_collect 8 iterator of
           None \<Rightarrow> None
         | Some (input, it) \<Rightarrow>
             (if dest_size + 5 > allocation_len then None
              else base32_decode_loop allocation_len it (dest_size + 5 - base32_padding input)
                     (put (base32_bytes_of input) st))))"
  by pat_completeness auto
termination
  by (relation "measure (\<lambda>(a, it, d, st). length it)") (auto dest!: base32_collect_length)

declare base32_decode_loop.simps [simp del]

definition base32_decode_impl :: "char list \<Rightarrow> heap \<Rightarrow> BUFFER option \<times> heap" where
  "base32_decode_impl source h =
     (let src_length = strlen source in
      if src_length mod 8 \<noteq> 0 then (None, h)
      else
        (let allocation_len = base32_decoding_length src_length in
         case malloc_block byte_cell allocation_len h of
           (None, h1) \<Rightarrow> (None, h1)
         | (Some temp_buffer, h1) \<Rightarrow>
             (case base32_decode_loop allocation_len source 0 (0, temp_buffer) of
                None \<Rightarrow> (None, c_free (Some temp_buffer) h1)
              | Some (dest_size, _, temp) \<Rightarrow>
                  (let (result, h2) = BUFFER_create (Some temp) dest_size h1 in
                   (result, c_free (Some temp) h2)))))"

section \<open>Entry points\<close>

definition Base32_Decode :: "STRING option \<Rightarrow> heap \<Rightarrow> BUFFER option \<times> heap" where
  "Base32_Decode handle h =
     (case handle of
        None \<Rightarrow> (None, h)
      | Some _ \<Rightarrow>
          (case STRING_c_str handle of
             None \<Rightarrow> (None, h)
           | Some str_source \<Rightarrow> base32_decode_impl str_source h))"

definition Base32_Decode_String :: "char list option \<Rightarrow> heap \<Rightarrow> BUFFER option \<times> heap" where
  "Base32_Decode_String source h =
     (case source of None \<Rightarrow> (None, h) | Some s \<Rightarrow> base32_decode_impl s h)"

definition Base32_Encode_Bytes :: "byte list option \<Rightarrow> nat \<Rightarrow> heap \<Rightarrow> char list option \<times> heap" where
  "Base32_Encode_Bytes source sz h =
     (case source of
        None \<Rightarrow> (None, h)
      | Some s \<Rightarrow>
          (if sz = 0 then
             (case malloc_chars 1 h of
                (None, h1) \<Rightarrow> (None, h1)
              | (Some b, h1) \<Rightarrow> (Some (b[0 := NUL]), h1))
           else base32_encode_impl s sz h))"

definition Base32_Encode :: "BUFFER option \<Rightarrow> heap \<Rightarrow> STRING option \<times> heap" where
  "Base32_Encode source h =
     (case source of
        None \<Rightarrow> (None, h)
      | Some _ \<Rightarrow>
          (let input_len = BUFFER_length source in
           case BUFFER_u_char source of
             None \<Rightarrow> STRING_new h
           | Some input_value \<Rightarrow>
               (if input_len = 0 then STRING_new h
                else
                  (case base32_encode_impl input_value input_len h of
                     (None, h1) \<Rightarrow> (None, h1)
                   | (Some encoded, h1) \<Rightarrow>
                       (let (result, h2) = STRING_construct (Some encoded) h1 in
                        (result, c_free (Some encoded) h2))))))"

section \<open>Encoding is correct\<close>

fun base32_text :: "byte list \<Rightarrow> char list" where
  "base32_text (a # b # c # d # e # rest) = base32_block_text [a, b, c, d, e] @ base32_text rest"
| "base32_text [] = []"
| "base32_text src = base32_block_text src"

lemma length_base32_block [simp]: "length (base32_block it) = 8"
  by (simp add: base32_block_def Let_def)

lemma length_base32_block_text [simp]: "length (base32_block_text it) = 8"
  by (simp add: base32_block_text_def)

lemma base32_encode_loop_simps [simp]:
  "base32_encode_loop [] st = st"
  "it \<noteq> [] \<Longrightarrow> base32_encode_loop it st = base32_encode_loop (drop 5 it) (put (base32_block_text (take 5 it)) st)"
  by (simp_all add: base32_encode_loop.simps Suc_le_eq)

lemma length_base32_text: "length (base32_text src) = (length src + 4) div 5 * 8"
proof (induction src rule: base32_text.induct)
  case (1 a b c d e src)
  have "(9 + n) div 5 = Suc ((n + 4) div 5)" for n :: nat by presburger
  with 1 show ?case by simp
qed simp_all

lemma base32_encode_loop_put:
  "fst st + length (base32_text src) \<le> length (snd st) \<Longrightarrow>
     base32_encode_loop src st = put (base32_text src) st"
  by (induction src arbitrary: st rule: base32_text.induct) (simp_all add: put_append)

text \<open>A quantum below 32 and the padding value are the positions of the table.\<close>

definition quantum :: "byte \<Rightarrow> bool" where
  "quantum v \<longleftrightarrow> unat v < 33"

lemma quantum_char:
  assumes "quantum v"
  shows "convert_value_to_base32_char (byte_of_char (BASE32_VALUES ! unat v)) = v \<and>
    byte_of_char (BASE32_VALUES ! unat v) < 0x80 \<and> byte_of_char (BASE32_VALUES ! unat v) \<noteq> 0"
  by (rule byte_cases_below [where m = 33 and v = v and
        P = "\<lambda>v. convert_value_to_base32_char (byte_of_char (BASE32_VALUES ! unat v)) = v \<and>
          byte_of_char (BASE32_VALUES ! unat v) < 0x80 \<and> byte_of_char (BASE32_VALUES ! unat v) \<noteq> 0"])
    (use assms in \<open>simp_all add: quantum_def BASE32_VALUES_def convert_value_to_base32_char_def
       byte_of_char_def upt_rec\<close>)

text \<open>The quanta of a block: five bits, or the padding value.\<close>

definition five_bits :: "byte \<Rightarrow> bool" where
  "five_bits v \<longleftrightarrow> unat v < 32"

lemma five_bits_and: "x AND 0x1f = x \<Longrightarrow> five_bits x"
  using unat_and_le [of x "0x1f"] by (simp add: five_bits_def)

lemma five_bits_quantum [simp]: "five_bits v \<Longrightarrow> quantum v" "quantum 32"
  by (simp_all add: five_bits_def quantum_def)

lemma five_bits_not_pad: "five_bits v \<Longrightarrow> v \<noteq> 32"
  by (auto simp: five_bits_def)

lemma block_five_bits [simp]:
  fixes a b c d e :: byte
  shows "five_bits (drop_bit 3 a AND 31)" "five_bits (drop_bit 3 (a AND 0xf8))"
    "five_bits (drop_bit 6 (b AND 0xc0) OR push_bit 2 (a AND 7))" "five_bits (push_bit 2 (a AND 7))"
    "five_bits (drop_bit 1 (b AND 0x3e))"
    "five_bits (drop_bit 4 (c AND 0xf0) OR push_bit 4 (b AND 1))" "five_bits (push_bit 4 (b AND 1))"
    "five_bits (drop_bit 7 (d AND 0x80) OR push_bit 1 (c AND 0x0f))" "five_bits (push_bit 1 (c AND 0x0f))"
    "five_bits (drop_bit 2 (d AND 0x7c))"
    "five_bits (drop_bit 5 (e AND 0xe0) OR push_bit 3 (d AND 3))" "five_bits (push_bit 3 (d AND 3))"
    "five_bits (e AND 0x1f)"
  by (rule five_bits_and, rule byte_eqI; simp add: bit_simps del: push_bit_Suc)+

lemma base32_bits [simp]:
  fixes a b c d e :: byte
  shows "push_bit 3 (drop_bit 3 (a AND 0xf8) AND 0x1f) OR
      drop_bit 2 ((drop_bit 6 (b AND 0xc0) OR push_bit 2 (a AND 7)) AND 0x1c) = a" 
    "push_bit 3 (drop_bit 3 (a AND 0xf8) AND 0x1f) OR drop_bit 2 (push_bit 2 (a AND 7) AND 0x1c) = a"
    "push_bit 6 ((drop_bit 6 (b AND 0xc0) OR push_bit 2 (a AND 7)) AND 3) OR
      push_bit 1 (drop_bit 1 (b AND 0x3e) AND 0x1f) OR
      drop_bit 4 ((drop_bit 4 (c AND 0xf0) OR push_bit 4 (b AND 1)) AND 0x10) = b"
    "push_bit 6 ((drop_bit 6 (b AND 0xc0) OR push_bit 2 (a AND 7)) AND 3) OR
      push_bit 1 (drop_bit 1 (b AND 0x3e) AND 0x1f) OR drop_bit 4 (push_bit 4 (b AND 1) AND 0x10) = b"
    "push_bit 4 ((drop_bit 4 (c AND 0xf0) OR push_bit 4 (b AND 1)) AND 0x0f) OR
      drop_bit 1 ((drop_bit 7 (d AND 0x80) OR push_bit 1 (c AND 0x0f)) AND 0x1e) = c"
    "push_bit 4 ((drop_bit 4 (c AND 0xf0) OR push_bit 4 (b AND 1)) AND 0x0f) OR
      drop_bit 1 (push_bit 1 (c AND 0x0f) AND 0x1e) = c"
    "push_bit 7 ((drop_bit 7 (d AND 0x80) OR push_bit 1 (c AND 0x0f)) AND 1) OR
      push_bit 2 (drop_bit 2 (d AND 0x7c) AND 0x1f) OR
      drop_bit 3 ((drop_bit 5 (e AND 0xe0) OR push_bit 3 (d AND 3)) AND 0x18) = d"
    "push_bit 7 ((drop_bit 7 (d AND 0x80) OR push_bit 1 (c AND 0x0f)) AND 1) OR
      push_bit 2 (drop_bit 2 (d AND 0x7c) AND 0x1f) OR drop_bit 3 (push_bit 3 (d AND 3) AND 0x18) = d"
    "push_bit 5 ((drop_bit 5 (e AND 0xe0) OR push_bit 3 (d AND 3)) AND 7) OR (e AND 0x1f) = e"
  by (rule byte_eqI; simp add: bit_simps eval_nat_numeral del: push_bit_Suc)+

text \<open>Every block packs to quanta, and unpacks to its bytes followed by zeros.\<close>

definition block_ok :: "byte list \<Rightarrow> bool" where
  "block_ok it \<longleftrightarrow>
     list_all quantum (base32_block it) \<and>
     (\<exists>zs. base32_bytes_of (base32_block it) = it @ zs \<and> length zs = 5 - length it) \<and>
     base32_padding (base32_block it) = 5 - length it"

lemma block_ok_all:
  "block_ok [a]" "block_ok [a, b]" "block_ok [a, b, c]" "block_ok [a, b, c, d]" "block_ok [a, b, c, d, e]"
  unfolding block_ok_def base32_block_def Let_def base32_bytes_of_def base32_padding_def BASE32_EQUAL_SIGN_def
  by (simp_all add: five_bits_not_pad del: One_nat_def push_bit_Suc push_bit_and drop_bit_and)

lemma block_text_c_string:
  assumes "list_all quantum vs"
  shows "c_string (map (\<lambda>pos. BASE32_VALUES ! unat pos) vs)"
proof -
  have "byte_of_char NUL = 0" by (simp add: byte_of_char_def)
  then have "BASE32_VALUES ! unat v \<noteq> NUL" if "quantum v" for v
    using quantum_char [OF that] by metis
  with assms show ?thesis by (induction vs) auto
qed

lemma collect_quanta:
  "list_all quantum vs \<Longrightarrow>
     base32_collect (length vs) (map (\<lambda>pos. BASE32_VALUES ! unat pos) vs @ rest) = Some (vs, rest)"
  by (induction vs) (use quantum_char in \<open>auto simp: not_le\<close>)

lemma collect_block:
  "block_ok it \<Longrightarrow> base32_collect 8 (base32_block_text it @ rest) = Some (base32_block it, rest)"
  using collect_quanta [of "base32_block it" rest] by (simp add: block_ok_def base32_block_text_def)

lemma base32_text_c_string: "c_string (base32_text src)"
  by (induction src rule: base32_text.induct)
    (use block_ok_all block_text_c_string in \<open>auto simp: block_ok_def base32_block_text_def simp del: map_append\<close>)

section \<open>Decoding\<close>

lemma decode_loop_step:
  assumes "hd it \<noteq> NUL" and "base32_collect 8 it = Some (input, it')" and "d + 5 \<le> n"
  shows "base32_decode_loop n it d st =
    base32_decode_loop n it' (d + 5 - base32_padding input) (put (base32_bytes_of input) st)"
  using assms base32_collect_length [OF assms(2)]
  by (subst base32_decode_loop.simps) (auto simp: not_less)

lemma decode_loop_end [simp]: "base32_decode_loop n (NUL # r) d st = Some (d, st)"
  by (simp add: base32_decode_loop.simps)

lemma decode_loop_block:
  assumes "block_ok it" and "d + 5 \<le> n" and "length it \<le> 5"
  shows "base32_decode_loop n (base32_block_text it @ rest) d st =
    base32_decode_loop n rest (d + length it) (put (base32_bytes_of (base32_block it)) st)"
proof -
  have "c_string (base32_block_text it)"
    using assms(1) block_text_c_string by (simp add: block_ok_def base32_block_text_def)
  moreover have "base32_block_text it \<noteq> []" by (metis length_0_conv length_base32_block_text numeral_eq_Suc nat.distinct(1))
  ultimately have "hd (base32_block_text it @ rest) \<noteq> NUL"
    by (cases "base32_block_text it") auto
  then show ?thesis
    using decode_loop_step [OF _ collect_block [OF assms(1)] assms(2)] assms by (simp add: block_ok_def)
qed

text \<open>On an encoded text the loop ends with the number of bytes, having written them and the
  zeros of the last block.\<close>

lemma decode_loop_text:
  "d + length (base32_text src) div 8 * 5 \<le> n \<Longrightarrow>
   fst st + length (base32_text src) div 8 * 5 \<le> length (snd st) \<Longrightarrow>
     \<exists>zs. base32_decode_loop n (base32_text src @ NUL # r) d st = Some (d + length src, put (src @ zs) st) \<and>
       length (src @ zs) = length (base32_text src) div 8 * 5"
proof (induction src arbitrary: d st rule: base32_text.induct [case_names whole empty one two three four])
  case (whole a b c e f src)
  let ?it = "[a, b, c, e, f]"
  have ok: "base32_bytes_of (base32_block ?it) = ?it"
    using block_ok_all(5) [of a b c e f] by (simp add: block_ok_def)
  have "\<exists>zs. base32_decode_loop n (base32_text src @ NUL # r) (d + length ?it) (put ?it st) =
      Some (d + length ?it + length src, put (src @ zs) (put ?it st)) \<and>
      length (src @ zs) = length (base32_text src) div 8 * 5"
    using whole.prems by (intro whole.IH) (simp_all add: div_add_self1)
  then obtain zs where zs: "base32_decode_loop n (base32_text src @ NUL # r) (d + length ?it) (put ?it st) =
      Some (d + length ?it + length src, put (src @ zs) (put ?it st))"
    "length (src @ zs) = length (base32_text src) div 8 * 5" by blast
  have "put (src @ zs) (put ?it st) = put (?it @ src @ zs) st"
    using whole.prems zs(2) by (intro put_append) (simp add: div_add_self1)
  then show ?case
    using whole.prems zs decode_loop_block [OF block_ok_all(5), of d n a b c e f "base32_text src @ NUL # r" st] ok
    by (intro exI [of _ zs]) (simp add: div_add_self1)
next
  case empty
  then show ?case by simp
next
  case (one a)
  then show ?case
    using block_ok_all(1) [of a] decode_loop_block [OF block_ok_all(1), of d n a "NUL # r" st]
    by (auto simp: block_ok_def)
next
  case (two a b)
  then show ?case
    using block_ok_all(2) [of a b] decode_loop_block [OF block_ok_all(2), of d n a b "NUL # r" st]
    by (auto simp: block_ok_def)
next
  case (three a b c)
  then show ?case
    using block_ok_all(3) [of a b c] decode_loop_block [OF block_ok_all(3), of d n a b c "NUL # r" st]
    by (auto simp: block_ok_def)
next
  case (four a b c e)
  then show ?case
    using block_ok_all(4) [of a b c e] decode_loop_block [OF block_ok_all(4), of d n a b c e "NUL # r" st]
    by (auto simp: block_ok_def)
qed

text \<open>On any text of the right length the loop stays inside the temporary block: it makes five
  stores for each group of eight characters, and the size it returns is no larger.\<close>

lemma collect_whole:
  "c_string s \<Longrightarrow> n \<le> length s \<Longrightarrow> base32_collect n (s @ t) = Some (input, it') \<Longrightarrow> it' = drop n s @ t"
proof (induction n arbitrary: s input it')
  case (Suc n)
  then show ?case by (cases s) (auto split: if_splits option.splits)
qed simp

lemma length_base32_bytes_of [simp]: "length (base32_bytes_of v) = 5"
  by (simp add: base32_bytes_of_def)

lemma decode_loop_safe:
  assumes "c_string s" and "length s = 8 * k"
    and "base32_decode_loop n (s @ NUL # r) d st = Some (d', st')"
    and "fst st + 5 * k \<le> length (snd st)" and "d \<le> fst st"
  shows "(\<exists>bs. st' = put bs st \<and> length bs = 5 * k) \<and> d' \<le> fst st + 5 * k"
  using assms
proof (induction k arbitrary: s d st)
  case (Suc k)
  then have ne: "hd (s @ NUL # r) \<noteq> NUL" "s \<noteq> []" by (cases s; simp)+
  obtain input it' where c: "base32_collect 8 (s @ NUL # r) = Some (input, it')" and d: "d + 5 \<le> n"
    using Suc.prems(3) ne by (subst (asm) base32_decode_loop.simps) (auto split: option.splits if_splits)
  have it': "it' = drop 8 s @ NUL # r"
    using collect_whole [OF Suc.prems(1) _ c] Suc.prems(2) by simp
  have step: "base32_decode_loop n (drop 8 s @ NUL # r) (d + 5 - base32_padding input)
      (put (base32_bytes_of input) st) = Some (d', st')"
    using decode_loop_step [OF ne(1) c d] Suc.prems(3) it' by simp
  have "c_string (drop 8 s)" using Suc.prems(1) by (auto simp: c_string_def dest: in_set_dropD)
  moreover have "d + 5 - base32_padding input \<le> fst st + 5" using Suc.prems(5) by linarith
  ultimately obtain bs
    where "st' = put bs (put (base32_bytes_of input) st)" "length bs = 5 * k" "d' \<le> fst st + 5 + 5 * k"
    using Suc.IH [OF _ _ step] Suc.prems by auto
  then show ?case
    using Suc.prems(4) by (intro conjI exI [of _ "base32_bytes_of input @ bs"]) (simp_all add: put_append)
qed auto

section \<open>The entry points\<close>

interpretation b32: padded_codec base32_text
  "\<lambda>s. (case base32_decode_loop (length s) s 0 (0, replicate (length s) 0) of
          None \<Rightarrow> [] | Some (n, _, b) \<Rightarrow> take n b)" 5 8
proof unfold_locales
  fix bs r
  let ?s = "base32_text bs @ NUL # r"
  have "length (base32_text bs) div 8 * 5 \<le> length ?s"
    by (simp add: length_base32_text)
  then show "(case base32_decode_loop (length ?s) ?s 0 (0, replicate (length ?s) 0) of
      None \<Rightarrow> [] | Some (n, _, b) \<Rightarrow> take n b) = bs"
    using decode_loop_text [of 0 bs "length ?s" "(0, replicate (length ?s) 0)" r] by (auto simp: put_whole)
qed (simp_all add: base32_text_c_string length_base32_text)

lemma base32_encoding_length_text: "base32_encoding_length (length src) = length (base32_text src)"
  by (simp add: base32_encoding_length_def length_base32_text)

lemma base32_encode_impl_result:
  assumes "sz \<le> length source"
  shows "base32_encode_impl source sz h =
    (if granted h then Some (base32_text (take sz source) @ [NUL]) else None, after_request 1 h)"
proof -
  have "base32_encoding_length sz = length (base32_text (take sz source))"
    using assms base32_encoding_length_text [of "take sz source"] by simp
  then show ?thesis
    by (simp add: base32_encode_impl_def malloc_chars_def malloc_block_def base32_encode_loop_put put_whole Let_def
        replicate_append_same [symmetric])
qed

lemma base32_decode_impl_text:
  assumes "\<forall>n. mem_ok h n"
  shows "\<exists>b h'. base32_decode_impl (base32_text bs @ NUL # r) h = (Some b, h') \<and> buf_bytes b = bs"
proof -
  let ?n = "base32_decoding_length (length (base32_text bs))"
  let ?t = "fresh_block byte_cell ?n h"
  have n: "?n = length (base32_text bs) div 8 * 5"
    by (simp add: base32_decoding_length_def length_base32_text)
  obtain zs where "base32_decode_loop ?n (base32_text bs @ NUL # r) 0 (0, ?t) = Some (length bs, put (bs @ zs) (0, ?t))"
    "length (bs @ zs) = ?n"
    using decode_loop_text [of 0 bs ?n "(0, ?t)" r] n by auto
  then show ?thesis
    using assms b32.strlen_text [of bs r] b32.text_length_mod [of bs]
    by (auto simp: base32_decode_impl_def Let_def mem_defs put_whole BUFFER_create_def BUFFER_safemalloc_def
        buf_copy_def buf_bytes_def memcpy_at_0 split: prod.splits)
qed

text \<open>\<open>Base32_Encode\<close> of a well-formed buffer keeps no block on failure; on success its
  string owns two blocks and holds the Base 32 text of the buffer's bytes. The work block is
  freed either way.\<close>

theorem Base32_Encode_encodes:
  assumes "buf_inv b" and "Base32_Encode (Some b) h = (r, h')"
  shows "case r of
      None \<Rightarrow> mem_live h' = mem_live h
    | Some s \<Rightarrow> str_inv s \<and> str_val s = base32_text (buf_bytes b) \<and> mem_live h' = mem_live h + 2"
proof (cases "BUFFER_u_char (Some b)")
  case None
  then have "buf_bytes b = []" "Base32_Encode (Some b) h = STRING_new h"
    using assms(1) by (auto simp: BUFFER_u_char_def Base32_Encode_def Let_def buf_bytes_def split: if_splits option.splits)
  then show ?thesis
    using assms(2) STRING_new_made [of h r h']
    by (auto simp: made_def STRING_new_def str_val_def Let_def length_Suc_conv dest!: string_alloc
        split: option.splits prod.splits)
next
  case (Some d)
  then have d: "take (buf_size b) d = buf_bytes b" "buf_size b \<le> length d" "buf_size b \<noteq> 0"
    using assms(1) by (auto simp: BUFFER_u_char_def buf_bytes_def buf_inv_def split: if_splits option.splits)
  let ?e = "base32_text (buf_bytes b) @ [NUL]"
  have "(r, h') = (if granted h then
      let (x, h2) = STRING_construct (Some ?e) (after_request 1 h) in (x, c_free (Some ?e) h2)
      else (None, after_request 1 h))"
    using assms(2) Some d base32_encode_impl_result [OF d(2), of h]
    by (auto simp: Base32_Encode_def BUFFER_length_def Let_def d(1) split: if_splits)
  then show ?thesis
    using STRING_construct_made [of "Some ?e" "after_request 1 h"] base32_text_c_string
    by (auto simp: made_def ptr_ok_def STRING_construct_def str_val_def Let_def mem_defs memcpy_at_def
        dest!: string_alloc split: if_splits option.splits prod.splits)
qed

definition base32_example :: BUFFER where
  "base32_example = \<lparr>buf_data = Some [0x66, 0x6F], buf_size = 2\<rparr>"

theorem Base32_Encode_encodes_witness:
  "case Base32_Encode (Some base32_example) heap0 of
     (None, h') \<Rightarrow> mem_live h' = 0 | (Some s, h') \<Rightarrow> str_val s = ''mzxq===='' \<and> mem_live h' = 2"
proof -
  obtain r h' where r: "Base32_Encode (Some base32_example) heap0 = (r, h')" by (metis surj_pair)
  have inv: "buf_inv base32_example" by (simp add: base32_example_def buf_inv_def)
  have val: "base32_text (buf_bytes base32_example) = ''mzxq====''"
    by (simp add: base32_example_def buf_bytes_def base32_block_text_def base32_block_def BASE32_VALUES_def Let_def)
  show ?thesis
    using Base32_Encode_encodes [OF inv r] val unfolding r by (auto simp: heap0_def split: option.splits)
qed

text \<open>The decoder never writes outside its temporary block and keeps no block beyond its
  result: for every terminated text it either fails with nothing kept, or the length is a
  multiple of eight and the buffer is well formed, with at most five bytes for each eight
  characters.\<close>

theorem Base32_Decode_String_safe:
  assumes "terminated src" and "Base32_Decode_String (Some src) h = (r, h')"
  shows "case r of
      None \<Rightarrow> mem_live h' = mem_live h
    | Some b \<Rightarrow> strlen src mod 8 = 0 \<and> buf_inv b \<and> buf_size b \<le> strlen src div 8 * 5 \<and>
        mem_live h' = mem_live h + 2"
proof (cases "strlen src mod 8 = 0")
  case False
  then show ?thesis using assms(2) by (auto simp: Base32_Decode_String_def base32_decode_impl_def)
next
  case True
  then obtain k where k: "strlen src = 8 * k" by auto
  obtain rest where src: "src = cstr src @ NUL # rest" using terminated_split [OF assms(1)] by blast
  have safe: "d \<le> 5 * k \<and> length b = 5 * k"
    if "base32_decode_loop n src 0 (0, t) = Some (d, p, b)" "length t = 5 * k" for n d t p b
  proof -
    have "base32_decode_loop n (cstr src @ NUL # rest) 0 (0, t) = Some (d, p, b)" using that(1) src by simp
    from decode_loop_safe [OF _ _ this, of k] k that(2)
    obtain bs where "(p, b) = put bs (0, t)" "length bs = 5 * k" "d \<le> 5 * k"
      by (auto simp: strlen_def)
    then show ?thesis using that(2) by (auto simp: put_whole)
  qed
  show ?thesis
    using assms(2) k
    by (auto simp: Base32_Decode_String_def base32_decode_impl_def base32_decoding_length_def Let_def mem_defs
        BUFFER_create_def BUFFER_safemalloc_def buf_copy_def buf_inv_def dest!: safe
        split: if_splits option.splits prod.splits)
qed

theorem Base32_Decode_String_safe_witness:
  "case Base32_Decode_String (Some (''mzxq====mzxq===='' @ [NUL])) heap0 of
     (None, h') \<Rightarrow> mem_live h' = 0 | (Some b, h') \<Rightarrow> buf_inv b \<and> buf_size b \<le> 10"
proof -
  let ?s = "''mzxq====mzxq===='' @ [NUL]"
  obtain r h' where r: "Base32_Decode_String (Some ?s) heap0 = (r, h')" by (metis surj_pair)
  have "terminated ?s" by simp
  from Base32_Decode_String_safe [OF this r] show ?thesis
    unfolding r by (auto simp: heap0_def strlen_def split: option.splits)
qed

text \<open>C26: Round trip: when the allocations are granted, the text of any bytes decodes to a buffer
  that holds exactly those bytes.\<close>

theorem Base32_roundtrip:
  assumes "\<forall>n. mem_ok h n"
  shows "\<exists>t h1 b h2. Base32_Encode_Bytes (Some bs) (length bs) h = (Some t, h1) \<and>
    Base32_Decode_String (Some t) h1 = (Some b, h2) \<and> buf_bytes b = bs"
proof -
  obtain h1 where enc: "Base32_Encode_Bytes (Some bs) (length bs) h = (Some (base32_text bs @ [NUL]), h1)"
    and "\<forall>n. mem_ok h1 n"
    using assms base32_encode_impl_result [of "length bs" bs h]
    by (cases "bs = []") (auto simp: Base32_Encode_Bytes_def malloc_chars_def mem_defs fresh_block_def)
  with base32_decode_impl_text [of h1 bs "[]"] show ?thesis
    by (fastforce simp: Base32_Decode_String_def)
qed

theorem Base32_roundtrip_witness:
  "\<exists>t h1 b h2. Base32_Encode_Bytes (Some [1, 2, 3]) 3 heap0 = (Some t, h1) \<and>
    Base32_Decode_String (Some t) h1 = (Some b, h2) \<and> buf_bytes b = [1, 2, 3]"
  using Base32_roundtrip [of heap0 "[1, 2, 3]"] by (simp add: heap0_def numeral_3_eq_3)

lemma convert_accepts_ranges:
  "convert_value_to_base32_char v \<noteq> 0xFF \<longleftrightarrow>
     (97 \<le> v \<and> v \<le> 123) \<or> (50 \<le> v \<and> v \<le> 55) \<or> v = 61 \<or> (65 \<le> v \<and> v \<le> 90)"
proof -
  have "0x1a + (v - 50) \<noteq> 0xFF" if "50 \<le> v" "v \<le> 55" using that by unat_arith
  moreover have "v - 65 \<noteq> 0xFF" if "65 \<le> v" "v \<le> 90" using that by unat_arith
  moreover have "v - 97 \<noteq> 0xFF" if "97 \<le> v" "v \<le> 123" using that by unat_arith
  ultimately show ?thesis
    unfolding convert_value_to_base32_char_def by (auto simp: not_le; unat_arith)
qed

lemma byte_range:
  assumes "unat b < 255"
  shows "{v. a \<le> v \<and> v \<le> (b :: byte)} = word_of_nat ` set [unat a..<Suc (unat b)]"
proof (intro equalityI subsetI)
  fix v assume "v \<in> {v. a \<le> v \<and> v \<le> b}"
  then have "unat v \<in> set [unat a..<Suc (unat b)]" by (auto simp: word_le_nat_alt)
  then show "v \<in> word_of_nat ` set [unat a..<Suc (unat b)]" by (intro image_eqI [of _ _ "unat v"]) simp_all
next
  fix v :: byte assume "v \<in> word_of_nat ` set [unat a..<Suc (unat b)]"
  with assms show "v \<in> {v. a \<le> v \<and> v \<le> b}" by (auto simp: word_le_nat_alt unat_of_nat)
qed

lemma base32_alphabet_ranges:
  "byte_of_char ` set (BASE32_VALUES @ ''ABCDEFGHIJKLMNOPQRSTUVWXYZ{'') =
     {v. 97 \<le> v \<and> v \<le> 123} \<union> {v. 50 \<le> v \<and> v \<le> 55} \<union> {61} \<union> {v. 65 \<le> v \<and> v \<le> 90}"
  by (simp add: BASE32_VALUES_def byte_of_char_def byte_range upt_rec insert_commute)

text \<open>Which bytes the decoder takes for a quantum: exactly the characters of the alphabet
  and the padding, the upper case letters, and one character too many, the opening brace.\<close>

theorem convert_value_to_base32_char_accepts:
  "convert_value_to_base32_char v \<noteq> 0xFF \<longleftrightarrow>
     v \<in> byte_of_char ` set (BASE32_VALUES @ ''ABCDEFGHIJKLMNOPQRSTUVWXYZ{'')"
  unfolding base32_alphabet_ranges by (auto simp: convert_accepts_ranges)

text \<open>The decoder does not reject characters outside the alphabet: a text of eight such
  characters decodes, once the allocations are granted, to five bytes of ones.\<close>

theorem Base32_Decode_String_accepts_invalid:
  assumes "\<forall>n. mem_ok h n" and "length s = 8" and "c_string s"
    and "\<forall>c \<in> set s. byte_of_char c < 0x80 \<and> convert_value_to_base32_char (byte_of_char c) = 0xFF"
  shows "\<exists>b h'. Base32_Decode_String (Some (s @ [NUL])) h = (Some b, h') \<and>
    buf_bytes b = [0xFF, 0xFF, 0xFF, 0xFF, 0xFF]"
proof -
  have "base32_collect n (t @ [NUL]) = Some (replicate n 0xFF, [NUL])"
    if "length t = n" "set t \<subseteq> set s" for n t
    using that assms(4) by (induction t arbitrary: n) (auto simp: not_le)
  from this [OF assms(2)] have collect: "base32_collect 8 (s @ [NUL]) = Some (replicate 8 0xFF, [NUL])"
    by blast
  have ne: "hd (s @ [NUL]) \<noteq> NUL" using assms(2,3) by (cases s) auto
  have bytes: "base32_bytes_of (replicate 8 0xFF) = [0xFF, 0xFF, 0xFF, 0xFF, 0xFF]"
    by (simp add: base32_bytes_of_def)
  have pad: "base32_padding (replicate 8 0xFF) = 0"
    by (simp add: base32_padding_def BASE32_EQUAL_SIGN_def)
  have len: "strlen (s @ [NUL]) = 8" using assms(2,3) by simp
  have "base32_decode_loop 5 (s @ [NUL]) 0 (0, t) = Some (5, put [0xFF, 0xFF, 0xFF, 0xFF, 0xFF] (0, t))" for t
    using decode_loop_step [OF ne collect, of 0 5 "(0, t)"] bytes pad by simp
  then show ?thesis
    using assms(1) len
    by (auto simp: Base32_Decode_String_def base32_decode_impl_def base32_decoding_length_def Let_def mem_defs
        put_whole BUFFER_create_def BUFFER_safemalloc_def buf_copy_def buf_bytes_def memcpy_at_0 split: prod.splits)
qed

theorem Base32_Decode_String_accepts_invalid_witness:
  "\<exists>b h'. Base32_Decode_String (Some (''!!!!!!!!'' @ [NUL])) heap0 = (Some b, h') \<and>
    buf_bytes b = [0xFF, 0xFF, 0xFF, 0xFF, 0xFF]"
  using Base32_Decode_String_accepts_invalid [of heap0 "''!!!!!!!!''"]
  by (simp add: heap0_def convert_value_to_base32_char_def byte_of_char_def)

end
