(* ===== verification/Utf8_Checker.thy ===== *)
theory Utf8_Checker
  imports Prelude
begin

text \<open>
  The validation loop of \<open>src/utf8_checker.c\<close>, one iteration per code point, with the code
  points kept in 32 bits as the code has them, and its equivalence with a reference encoder
  of code points below \<open>2^21\<close>.
\<close>

section \<open>The code\<close>

text \<open>The bytes from \<open>pos\<close> on are a list; \<open>pos < length\<close> is the list being non-empty. A
  continuation byte shifts the code point and adds six bits.\<close>

definition utf8_continue :: "byte list \<Rightarrow> 32 word \<Rightarrow> (byte list \<times> 32 word) option" where
  "utf8_continue rest code_point =
     (case rest of
        [] \<Rightarrow> None
      | b # bs \<Rightarrow>
          (if drop_bit 6 b = 0x02 then Some (bs, push_bit 6 code_point + ucast (b AND 0x3F)) else None))"

text \<open>One iteration: the bytes left when the code point at the front is well formed.\<close>

definition utf8_step :: "byte list \<Rightarrow> byte list option" where
  "utf8_step str =
     (case str of
        [] \<Rightarrow> None
      | b # rest \<Rightarrow>
          (if drop_bit 3 b = 0x1E then
             (case utf8_continue rest (ucast (b AND 0x07)) of
                None \<Rightarrow> None
              | Some (rest1, cp1) \<Rightarrow>
                  (case utf8_continue rest1 cp1 of
                     None \<Rightarrow> None
                   | Some (rest2, cp2) \<Rightarrow>
                       (case utf8_continue rest2 cp2 of
                          None \<Rightarrow> None
                        | Some (rest3, cp3) \<Rightarrow> (if cp3 \<le> 0xFFFF then None else Some rest3))))
           else if drop_bit 4 b = 0x0E then
             (case utf8_continue rest (ucast (b AND 0x0F)) of
                None \<Rightarrow> None
              | Some (rest1, cp1) \<Rightarrow>
                  (case utf8_continue rest1 cp1 of
                     None \<Rightarrow> None
                   | Some (rest2, cp2) \<Rightarrow> (if cp2 \<le> 0x7FF then None else Some rest2)))
           else if drop_bit 5 b = 0x06 then
             (case utf8_continue rest (ucast (b AND 0x1F)) of
                None \<Rightarrow> None
              | Some (rest1, cp1) \<Rightarrow> (if cp1 \<le> 0x7F then None else Some rest1))
           else if drop_bit 7 b = 0x00 then Some rest
           else None))"

lemma utf8_continue_length: "utf8_continue rest cp = Some (rest', cp') \<Longrightarrow> length rest' < length rest"
  by (auto simp: utf8_continue_def split: list.splits if_splits)

lemma utf8_step_length: "utf8_step str = Some rest \<Longrightarrow> length rest < length str"
  by (auto simp: utf8_step_def dest!: utf8_continue_length split: list.splits option.splits if_splits)

function utf8_loop :: "byte list \<Rightarrow> bool" where
  "utf8_loop str =
     (if str = [] then True else (case utf8_step str of None \<Rightarrow> False | Some rest \<Rightarrow> utf8_loop rest))"
  by pat_completeness auto
termination by (relation "measure length") (auto dest: utf8_step_length)

declare utf8_loop.simps [simp del]

definition utf8_checker_is_valid_utf8 :: "byte list option \<Rightarrow> nat \<Rightarrow> bool" where
  "utf8_checker_is_valid_utf8 utf8_str len =
     (case utf8_str of None \<Rightarrow> False | Some str \<Rightarrow> utf8_loop (take len str))"

section \<open>The reference encoder\<close>

definition utf8_encode :: "32 word \<Rightarrow> byte list" where
  "utf8_encode cp =
     (if cp < 0x80 then [ucast cp]
      else if cp < 0x800 then [0xC0 OR ucast (drop_bit 6 cp), 0x80 OR (ucast cp AND 0x3F)]
      else if cp < 0x10000 then
        [0xE0 OR ucast (drop_bit 12 cp), 0x80 OR (ucast (drop_bit 6 cp) AND 0x3F), 0x80 OR (ucast cp AND 0x3F)]
      else
        [0xF0 OR ucast (drop_bit 18 cp), 0x80 OR (ucast (drop_bit 12 cp) AND 0x3F),
         0x80 OR (ucast (drop_bit 6 cp) AND 0x3F), 0x80 OR (ucast cp AND 0x3F)])"

lemma continue_or:
  "push_bit 6 cp + ucast (b AND 0x3F :: byte) = push_bit 6 cp OR (ucast (b AND 0x3F) :: 32 word)"
proof (rule disjunctive_add_eq_or, rule bit_word_eqI)
  fix n assume "n < LENGTH(32)"
  have "\<not> bit (0x3F :: byte) n" if "6 \<le> n"
  proof -
    have "n = 6 \<or> n = 7 \<or> 8 \<le> n" using that by linarith
    then show ?thesis by auto
  qed
  then show "bit (push_bit 6 cp AND (ucast (b AND 0x3F) :: 32 word)) n = bit (0 :: 32 word) n"
    by (auto simp: bit_simps not_le)
qed

lemma high_bits_zero:
  fixes cp :: "32 word"
  assumes "unat cp < 2 ^ k" and "k \<le> n"
  shows "\<not> bit cp n"
proof -
  have "unat cp < 2 ^ n"
    using assms by (meson less_le_trans one_le_numeral power_increasing)
  then have "\<not> bit (unat cp) n" by (simp add: bit_iff_odd)
  then show ?thesis using bit_imp_le_length [of cp n] by (auto simp: bit_simps)
qed

lemma word32_eqI:
  fixes x y :: "32 word"
  assumes "\<forall>n \<in> {..<32}. bit x n = bit y n"
  shows "x = y"
  using assms by (intro bit_word_eqI) simp

text \<open>Lead byte and continuation bytes of a code point: the bits of each.\<close>

lemma lead_bits:
  fixes b :: byte
  shows "drop_bit 3 b = 0x1E \<longleftrightarrow> bit b 7 \<and> bit b 6 \<and> bit b 5 \<and> bit b 4 \<and> \<not> bit b 3"
    "drop_bit 4 b = 0x0E \<longleftrightarrow> bit b 7 \<and> bit b 6 \<and> bit b 5 \<and> \<not> bit b 4"
    "drop_bit 5 b = 0x06 \<longleftrightarrow> bit b 7 \<and> bit b 6 \<and> \<not> bit b 5"
    "drop_bit 6 b = 0x02 \<longleftrightarrow> bit b 7 \<and> \<not> bit b 6"
    "drop_bit 7 b = 0 \<longleftrightarrow> \<not> bit b 7"
proof -
  have eq: "x = y \<longleftrightarrow> (\<forall>n \<in> set [0..<8]. bit x n = bit y n)" for x y :: byte
    by (auto intro!: byte_eqI)
  show "drop_bit 3 b = 0x1E \<longleftrightarrow> bit b 7 \<and> bit b 6 \<and> bit b 5 \<and> bit b 4 \<and> \<not> bit b 3"
    "drop_bit 4 b = 0x0E \<longleftrightarrow> bit b 7 \<and> bit b 6 \<and> bit b 5 \<and> \<not> bit b 4"
    "drop_bit 5 b = 0x06 \<longleftrightarrow> bit b 7 \<and> bit b 6 \<and> \<not> bit b 5"
    "drop_bit 6 b = 0x02 \<longleftrightarrow> bit b 7 \<and> \<not> bit b 6"
    "drop_bit 7 b = 0 \<longleftrightarrow> \<not> bit b 7"
    unfolding eq by (auto simp: upt_rec bit_simps)
qed

definition code2 :: "byte \<Rightarrow> byte \<Rightarrow> 32 word" where
  "code2 b b1 = push_bit 6 (ucast (b AND 0x1F)) OR ucast (b1 AND 0x3F)"

definition code3 :: "byte \<Rightarrow> byte \<Rightarrow> byte \<Rightarrow> 32 word" where
  "code3 b b1 b2 = push_bit 6 (push_bit 6 (ucast (b AND 0x0F)) OR ucast (b1 AND 0x3F)) OR ucast (b2 AND 0x3F)"

definition code4 :: "byte \<Rightarrow> byte \<Rightarrow> byte \<Rightarrow> byte \<Rightarrow> 32 word" where
  "code4 b b1 b2 b3 =
     push_bit 6 (push_bit 6 (push_bit 6 (ucast (b AND 0x07)) OR ucast (b1 AND 0x3F)) OR ucast (b2 AND 0x3F))
       OR ucast (b3 AND 0x3F)"

definition lead :: "nat \<Rightarrow> byte \<Rightarrow> bool" where
  "lead n b \<longleftrightarrow>
     (if n = 4 then drop_bit 3 b = 0x1E else if n = 3 then drop_bit 4 b = 0x0E
      else if n = 2 then drop_bit 5 b = 0x06 else drop_bit 7 b = 0)"

definition cont :: "byte \<Rightarrow> bool" where
  "cont b \<longleftrightarrow> drop_bit 6 b = 0x02"

lemma lead_cont_bits:
  "lead 4 b \<longleftrightarrow> bit b 7 \<and> bit b 6 \<and> bit b 5 \<and> bit b 4 \<and> \<not> bit b 3"
  "lead 3 b \<longleftrightarrow> bit b 7 \<and> bit b 6 \<and> bit b 5 \<and> \<not> bit b 4"
  "lead 2 b \<longleftrightarrow> bit b 7 \<and> bit b 6 \<and> \<not> bit b 5"
  "lead 1 b \<longleftrightarrow> \<not> bit b 7" "lead (Suc 0) b \<longleftrightarrow> \<not> bit b 7"
  "cont b \<longleftrightarrow> bit b 7 \<and> \<not> bit b 6"
  by (simp_all add: lead_def cont_def lead_bits)

text \<open>The bytes of a code point, put together again.\<close>

lemmas code_defs = code2_def code3_def code4_def lead_cont_bits lessThan_nat_numeral bit_simps

lemma code1_of_encode:
  fixes cp :: "32 word"
  assumes "unat cp < 2 ^ 7"
  shows "lead 1 (ucast cp)" and "ucast (ucast cp :: byte) = cp"
  subgoal using high_bits_zero [OF assms] by (simp add: code_defs)
  subgoal by (rule word32_eqI) (use high_bits_zero [OF assms] in \<open>simp add: code_defs\<close>)
  done

lemma code2_of_encode:
  fixes cp :: "32 word"
  assumes "unat cp < 2 ^ 11"
  shows "lead 2 (0xC0 OR ucast (drop_bit 6 cp))"
    and "code2 (0xC0 OR ucast (drop_bit 6 cp)) (0x80 OR (ucast cp AND 0x3F)) = cp"
  subgoal using high_bits_zero [OF assms] by (simp add: code_defs)
  subgoal by (rule word32_eqI) (use high_bits_zero [OF assms] in \<open>simp add: code_defs\<close>)
  done

lemma code3_of_encode:
  fixes cp :: "32 word"
  assumes "unat cp < 2 ^ 16"
  shows "lead 3 (0xE0 OR ucast (drop_bit 12 cp))"
    and "code3 (0xE0 OR ucast (drop_bit 12 cp)) (0x80 OR (ucast (drop_bit 6 cp) AND 0x3F)) (0x80 OR (ucast cp AND 0x3F)) = cp"
  subgoal using high_bits_zero [OF assms] by (simp add: code_defs)
  subgoal by (rule word32_eqI) (use high_bits_zero [OF assms] in \<open>simp add: code_defs\<close>)
  done

lemma code4_of_encode:
  fixes cp :: "32 word"
  assumes "unat cp < 2 ^ 21"
  shows "lead 4 (0xF0 OR ucast (drop_bit 18 cp))"
    and "code4 (0xF0 OR ucast (drop_bit 18 cp)) (0x80 OR (ucast (drop_bit 12 cp) AND 0x3F))
        (0x80 OR (ucast (drop_bit 6 cp) AND 0x3F)) (0x80 OR (ucast cp AND 0x3F)) = cp"
  subgoal using high_bits_zero [OF assms] by (simp add: code_defs)
  subgoal by (rule word32_eqI) (use high_bits_zero [OF assms] in \<open>simp add: code_defs\<close>)
  done

lemma cont_of_encode: "cont (0x80 OR (x AND 0x3F))"
  by (simp add: lead_cont_bits bit_simps)

text \<open>The other direction.\<close>

lemma encode_of_code:
  shows "lead 1 b \<Longrightarrow> ucast (ucast b :: 32 word) = b"
    and "lead 2 b \<Longrightarrow> cont b1 \<Longrightarrow>
      0xC0 OR ucast (drop_bit 6 (code2 b b1)) = b \<and> 0x80 OR (ucast (code2 b b1) AND 0x3F) = b1"
    and "lead 3 b \<Longrightarrow> cont b1 \<Longrightarrow> cont b2 \<Longrightarrow>
      0xE0 OR ucast (drop_bit 12 (code3 b b1 b2)) = b \<and> 0x80 OR (ucast (drop_bit 6 (code3 b b1 b2)) AND 0x3F) = b1 \<and>
      0x80 OR (ucast (code3 b b1 b2) AND 0x3F) = b2"
    and "lead 4 b \<Longrightarrow> cont b1 \<Longrightarrow> cont b2 \<Longrightarrow> cont b3 \<Longrightarrow>
      0xF0 OR ucast (drop_bit 18 (code4 b b1 b2 b3)) = b \<and>
      0x80 OR (ucast (drop_bit 12 (code4 b b1 b2 b3)) AND 0x3F) = b1 \<and>
      0x80 OR (ucast (drop_bit 6 (code4 b b1 b2 b3)) AND 0x3F) = b2 \<and>
      0x80 OR (ucast (code4 b b1 b2 b3) AND 0x3F) = b3"
  by (intro conjI byte_eqI; simp add: lead_cont_bits code_defs)+

lemma code_bounds:
  "lead 1 b \<Longrightarrow> unat (ucast b :: 32 word) < 0x80"
  "unat (code2 b b1) < 0x800" "unat (code3 b b1 b2) < 0x10000" "unat (code4 b b1 b2 b3) < 0x200000"
proof -
  have below: "unat x < k" if "x AND m = x" "unat m < k" for x m :: "32 word" and k
    using unat_and_le [of x m] that by simp
  show "lead 1 b \<Longrightarrow> unat (ucast b :: 32 word) < 0x80"
    by (rule below [where m = "0x7F"], rule word32_eqI) (simp_all add: code_defs)
  show "unat (code2 b b1) < 0x800"
    by (rule below [where m = "0x7FF"], rule word32_eqI) (simp_all add: code_defs)
  show "unat (code3 b b1 b2) < 0x10000"
    by (rule below [where m = "0xFFFF"], rule word32_eqI) (simp_all add: code_defs)
  show "unat (code4 b b1 b2 b3) < 0x200000"
    by (rule below [where m = "0x1FFFFF"], rule word32_eqI) (simp_all add: code_defs)
qed

section \<open>The check is exact\<close>

lemma utf8_continue_cont:
  "utf8_continue (b # bs) cp = (if cont b then Some (bs, push_bit 6 cp OR ucast (b AND 0x3F)) else None)"
  by (simp add: utf8_continue_def cont_def continue_or)

lemma utf8_continue_Some:
  "utf8_continue rest cp = Some (rest', cp') \<longleftrightarrow>
     (\<exists>b. rest = b # rest' \<and> cont b \<and> cp' = push_bit 6 cp OR ucast (b AND 0x3F))"
  by (cases rest) (auto simp: utf8_continue_cont, simp add: utf8_continue_def)

text \<open>One iteration, by the number of bytes.\<close>

lemma utf8_step_iff:
  "utf8_step (b # rest) = Some r \<longleftrightarrow>
     (lead 1 b \<and> r = rest) \<or>
     (lead 2 b \<and> (\<exists>b1. rest = b1 # r \<and> cont b1 \<and> \<not> code2 b b1 \<le> 0x7F)) \<or>
     (lead 3 b \<and> (\<exists>b1 b2. rest = b1 # b2 # r \<and> cont b1 \<and> cont b2 \<and> \<not> code3 b b1 b2 \<le> 0x7FF)) \<or>
     (lead 4 b \<and> (\<exists>b1 b2 b3. rest = b1 # b2 # b3 # r \<and> cont b1 \<and> cont b2 \<and> cont b3 \<and>
        \<not> code4 b b1 b2 b3 \<le> 0xFFFF))"
proof -
  have step: "utf8_step (b # rest) =
     (if lead 4 b then Option.bind (utf8_continue rest (ucast (b AND 0x07))) (\<lambda>(r1, c1).
          Option.bind (utf8_continue r1 c1) (\<lambda>(r2, c2). Option.bind (utf8_continue r2 c2)
            (\<lambda>(r3, c3). if c3 \<le> 0xFFFF then None else Some r3)))
      else if lead 3 b then Option.bind (utf8_continue rest (ucast (b AND 0x0F))) (\<lambda>(r1, c1).
          Option.bind (utf8_continue r1 c1) (\<lambda>(r2, c2). if c2 \<le> 0x7FF then None else Some r2))
      else if lead 2 b then Option.bind (utf8_continue rest (ucast (b AND 0x1F))) (\<lambda>(r1, c1).
          if c1 \<le> 0x7F then None else Some r1)
      else if lead 1 b then Some rest else None)"
    by (simp add: utf8_step_def lead_def split: option.splits)
  have guard: "(if P then None else Some x) = Some y \<longleftrightarrow> \<not> P \<and> x = y" for P and x y :: "byte list"
    by auto
  show ?thesis
    unfolding step
    by (auto simp: guard bind_eq_Some_conv utf8_continue_Some code2_def code3_def code4_def lead_cont_bits)
qed

lemma utf8_step_encode:
  "utf8_step str = Some r \<longleftrightarrow> (\<exists>cp. cp < 0x200000 \<and> str = utf8_encode cp @ r)"
proof
  assume step: "utf8_step str = Some r"
  then obtain b rest where str: "str = b # rest" by (cases str) (auto simp: utf8_step_def)
  show "\<exists>cp. cp < 0x200000 \<and> str = utf8_encode cp @ r"
    using step unfolding str utf8_step_iff
  proof (elim disjE conjE exE)
    assume "lead 1 b" "r = rest"
    then show "\<exists>cp. cp < 0x200000 \<and> b # rest = utf8_encode cp @ r"
      using encode_of_code(1) [of b] code_bounds(1) [of b]
      by (intro exI [of _ "ucast b"]) (simp add: utf8_encode_def word_less_nat_alt)
  next
    fix b1 assume "lead 2 b" "rest = b1 # r" "cont b1" "\<not> code2 b b1 \<le> 0x7F"
    then show "\<exists>cp. cp < 0x200000 \<and> b # rest = utf8_encode cp @ r"
      using encode_of_code(2) [of b b1] code_bounds(2) [of b b1]
      by (intro exI [of _ "code2 b b1"]) (simp add: utf8_encode_def word_less_nat_alt word_le_nat_alt)
  next
    fix b1 b2 assume "lead 3 b" "rest = b1 # b2 # r" "cont b1" "cont b2" "\<not> code3 b b1 b2 \<le> 0x7FF"
    then show "\<exists>cp. cp < 0x200000 \<and> b # rest = utf8_encode cp @ r"
      using encode_of_code(3) [of b b1 b2] code_bounds(3) [of b b1 b2]
      by (intro exI [of _ "code3 b b1 b2"]) (simp add: utf8_encode_def word_less_nat_alt word_le_nat_alt)
  next
    fix b1 b2 b3
    assume "lead 4 b" "rest = b1 # b2 # b3 # r" "cont b1" "cont b2" "cont b3" "\<not> code4 b b1 b2 b3 \<le> 0xFFFF"
    then show "\<exists>cp. cp < 0x200000 \<and> b # rest = utf8_encode cp @ r"
      using encode_of_code(4) [of b b1 b2 b3] code_bounds(4) [of b b1 b2 b3]
      by (intro exI [of _ "code4 b b1 b2 b3"]) (simp add: utf8_encode_def word_less_nat_alt word_le_nat_alt)
  qed
next
  assume "\<exists>cp. cp < 0x200000 \<and> str = utf8_encode cp @ r"
  then obtain cp where cp: "cp < 0x200000" "str = utf8_encode cp @ r" by blast
  have n: "unat cp < 2 ^ 21" using cp(1) by (simp add: word_less_nat_alt)
  consider "cp < 0x80" | "\<not> cp < 0x80" "cp < 0x800" | "\<not> cp < 0x800" "cp < 0x10000" | "\<not> cp < 0x10000"
    by blast
  then show "utf8_step str = Some r"
  proof cases
    case 1
    then show ?thesis using code1_of_encode [of cp] cp(2)
      by (simp add: utf8_encode_def utf8_step_iff word_less_nat_alt)
  next
    case 2
    then show ?thesis using code2_of_encode [of cp] cp(2) cont_of_encode [of "ucast cp"]
      by (simp add: utf8_encode_def utf8_step_iff word_less_nat_alt word_le_nat_alt)
  next
    case 3
    then show ?thesis using code3_of_encode [of cp] cp(2) cont_of_encode [of "ucast cp"]
        cont_of_encode [of "ucast (drop_bit 6 cp)"]
      by (simp add: utf8_encode_def utf8_step_iff word_less_nat_alt word_le_nat_alt)
  next
    case 4
    then show ?thesis using code4_of_encode [OF n] cp(2) cont_of_encode [of "ucast cp"]
        cont_of_encode [of "ucast (drop_bit 6 cp)"] cont_of_encode [of "ucast (drop_bit 12 cp)"]
      by (simp add: utf8_encode_def utf8_step_iff word_less_nat_alt word_le_nat_alt)
  qed
qed

text \<open>The loop accepts exactly the concatenations of encodings.\<close>

lemma utf8_loop_exact:
  "utf8_loop bs \<longleftrightarrow> (\<exists>cps. set cps \<subseteq> {cp. cp < 0x200000} \<and> bs = concat (map utf8_encode cps))"
proof (induction bs rule: utf8_loop.induct)
  case (1 bs)
  show ?case
  proof (cases "bs = []")
    case True
    then show ?thesis by (auto simp: utf8_loop.simps intro: exI [of _ "[]"])
  next
    case False
    have "utf8_loop bs \<longleftrightarrow> (\<exists>r. utf8_step bs = Some r \<and> utf8_loop r)"
      using False by (subst utf8_loop.simps) (auto split: option.splits)
    also have "\<dots> \<longleftrightarrow> (\<exists>r. utf8_step bs = Some r \<and>
        (\<exists>cps. set cps \<subseteq> {cp. cp < 0x200000} \<and> r = concat (map utf8_encode cps)))"
      using "1.IH" [OF False] by blast
    also have "\<dots> \<longleftrightarrow> (\<exists>cp cps. cp < 0x200000 \<and> set cps \<subseteq> {cp. cp < 0x200000} \<and>
        bs = utf8_encode cp @ concat (map utf8_encode cps))"
      unfolding utf8_step_encode by blast
    also have "\<dots> \<longleftrightarrow> (\<exists>cps. set cps \<subseteq> {cp. cp < 0x200000} \<and> bs = concat (map utf8_encode cps))"
      (is "?L \<longleftrightarrow> ?R")
    proof
      assume ?L
      then obtain cp cps where "cp < 0x200000" "set cps \<subseteq> {cp. cp < 0x200000}"
        "bs = utf8_encode cp @ concat (map utf8_encode cps)" by blast
      then show ?R by (intro exI [of _ "cp # cps"]) simp
    next
      assume ?R
      then obtain cps where cps: "set cps \<subseteq> {cp. cp < 0x200000}" "bs = concat (map utf8_encode cps)" by blast
      with False show ?L by (cases cps) auto
    qed
    finally show ?thesis .
  qed
qed

text \<open>C40: \<open>utf8_checker_is_valid_utf8\<close> is exact: it accepts the first \<open>length\<close> bytes if and only if
  they are the concatenation of the encodings of code points below \<open>2^21\<close>, each in its
  shortest form.\<close>

theorem utf8_checker_is_valid_utf8_exact:
  "utf8_checker_is_valid_utf8 (Some str) len \<longleftrightarrow>
     (\<exists>cps. set cps \<subseteq> {cp. cp < 0x200000} \<and> take len str = concat (map utf8_encode cps))"
  by (simp add: utf8_checker_is_valid_utf8_def utf8_loop_exact)

text \<open>The check accepts more than Unicode: it accepts the encoding of every surrogate and of
  every value above the last code point, up to \<open>0x1FFFFF\<close>.\<close>

theorem utf8_checker_accepts_non_unicode:
  assumes "(0xD800 \<le> cp \<and> cp \<le> 0xDFFF) \<or> (0x10FFFF < cp \<and> cp < 0x200000)"
  shows "utf8_checker_is_valid_utf8 (Some (utf8_encode cp)) (length (utf8_encode cp))"
proof -
  have "cp < 0x200000" using assms by (auto simp: word_less_nat_alt word_le_nat_alt)
  then have "utf8_step (utf8_encode cp) = Some []" and "utf8_encode cp \<noteq> []"
    unfolding utf8_step_encode by (auto simp: utf8_encode_def intro: exI [of _ cp])
  then show ?thesis
    by (simp add: utf8_checker_is_valid_utf8_def utf8_loop.simps)
qed

theorem utf8_checker_accepts_non_unicode_witness:
  "utf8_checker_is_valid_utf8 (Some [0xED, 0xA0, 0x80]) 3"
proof -
  have "utf8_encode 0xD800 = [0xED, 0xA0, 0x80]" by (simp add: utf8_encode_def)
  then show ?thesis
    using utf8_checker_accepts_non_unicode [where cp = "0xD800"] by (simp add: numeral_3_eq_3)
qed

end
