(* ===== verification/Frame_Encoder.thy ===== *)
theory Frame_Encoder
  imports Buffer
begin

text \<open>
  The WebSocket frame encoder of \<open>src/uws_frame_encoder.c\<close>, store by store on the buffer it
  enlarges, with the random source of \<open>src/gb_rand.c\<close> as a stream. The lemmas show that the
  stores produce the frame layout of RFC 6455 and that a reference decoder reads it back.
\<close>

section \<open>Random bytes\<close>

text \<open>\<open>gb_rand\<close> returns what the C library's \<open>rand\<close> returns next; the stream is arbitrary.\<close>

record rng =
  rng_vals :: "nat \<Rightarrow> int"
  rng_pos :: nat

definition gb_rand :: "rng \<Rightarrow> int \<times> rng" where
  "gb_rand g = (rng_vals g (rng_pos g), g\<lparr>rng_pos := Suc (rng_pos g)\<rparr>)"

text \<open>\<open>(unsigned char)gb_rand()\<close>.\<close>

definition rand_byte :: "rng \<Rightarrow> byte \<times> rng" where
  "rand_byte g = (let (v, g1) = gb_rand g in (word_of_int v, g1))"

section \<open>Frame types\<close>

datatype WS_FRAME_TYPE =
    WS_CONTINUATION_FRAME | WS_TEXT_FRAME | WS_BINARY_FRAME
  | WS_RESERVED_NON_CONTROL_FRAME_3 | WS_RESERVED_NON_CONTROL_FRAME_4 | WS_RESERVED_NON_CONTROL_FRAME_5
  | WS_RESERVED_NON_CONTROL_FRAME_6 | WS_RESERVED_NON_CONTROL_FRAME_7
  | WS_CLOSE_FRAME | WS_PING_FRAME | WS_PONG_FRAME
  | WS_RESERVED_CONTROL_FRAME_B | WS_RESERVED_CONTROL_FRAME_C | WS_RESERVED_CONTROL_FRAME_D
  | WS_RESERVED_CONTROL_FRAME_E | WS_RESERVED_CONTROL_FRAME_F

text \<open>The value of an enumerator is its position.\<close>

primrec ws_opcode :: "WS_FRAME_TYPE \<Rightarrow> 32 word" where
  "ws_opcode WS_CONTINUATION_FRAME = 0"
| "ws_opcode WS_TEXT_FRAME = 1"
| "ws_opcode WS_BINARY_FRAME = 2"
| "ws_opcode WS_RESERVED_NON_CONTROL_FRAME_3 = 3"
| "ws_opcode WS_RESERVED_NON_CONTROL_FRAME_4 = 4"
| "ws_opcode WS_RESERVED_NON_CONTROL_FRAME_5 = 5"
| "ws_opcode WS_RESERVED_NON_CONTROL_FRAME_6 = 6"
| "ws_opcode WS_RESERVED_NON_CONTROL_FRAME_7 = 7"
| "ws_opcode WS_CLOSE_FRAME = 8"
| "ws_opcode WS_PING_FRAME = 9"
| "ws_opcode WS_PONG_FRAME = 10"
| "ws_opcode WS_RESERVED_CONTROL_FRAME_B = 11"
| "ws_opcode WS_RESERVED_CONTROL_FRAME_C = 12"
| "ws_opcode WS_RESERVED_CONTROL_FRAME_D = 13"
| "ws_opcode WS_RESERVED_CONTROL_FRAME_E = 14"
| "ws_opcode WS_RESERVED_CONTROL_FRAME_F = 15"

section \<open>The encoder\<close>

text \<open>The sizes: the two fixed bytes, the extended length and the masking key.\<close>

definition frame_header_bytes :: "nat \<Rightarrow> bool \<Rightarrow> nat" where
  "frame_header_bytes len is_masked =
     (let needed_bytes = 2;
          needed_bytes = (if len > 65535 then needed_bytes + 8
                          else if len > 125 then needed_bytes + 2 else needed_bytes) in
      if is_masked then needed_bytes + 4 else needed_bytes)"

text \<open>A store outside the block, or a read outside the payload, has no meaning in C: it is \<open>None\<close>, and
  the steps after it are not reached.\<close>

definition store_at :: "nat \<Rightarrow> byte \<Rightarrow> byte list \<Rightarrow> byte list option" where
  "store_at i v buffer = (if i < length buffer then Some (buffer[i := v]) else None)"

fun store_all :: "(nat \<times> byte) list \<Rightarrow> byte list \<Rightarrow> byte list option" where
  "store_all [] buffer = Some buffer"
| "store_all ((i, v) # ws) buffer = Option.bind (store_at i v buffer) (store_all ws)"

text \<open>The first byte and the length, store by store.\<close>

definition frame_store_header :: "32 word \<Rightarrow> nat \<Rightarrow> bool \<Rightarrow> byte \<Rightarrow> byte list \<Rightarrow> byte list option" where
  "frame_store_header opcode len is_final reserved buffer =
     Option.bind (store_at 0 (ucast opcode) buffer) (\<lambda>b.
     Option.bind (if is_final then store_at 0 (b ! 0 OR 0x80) b else Some b) (\<lambda>b.
     Option.bind (store_at 0 (b ! 0 OR push_bit 4 reserved) b) (\<lambda>b.
       if len > 65535 then
         store_all
           [(1, 127),
            (2, word_of_nat (drop_bit 56 len) AND 0xFF), (3, word_of_nat (drop_bit 48 len) AND 0xFF),
            (4, word_of_nat (drop_bit 40 len) AND 0xFF), (5, word_of_nat (drop_bit 32 len) AND 0xFF),
            (6, word_of_nat (drop_bit 24 len) AND 0xFF), (7, word_of_nat (drop_bit 16 len) AND 0xFF),
            (8, word_of_nat (drop_bit 8 len) AND 0xFF), (9, word_of_nat len AND 0xFF)] b
       else if len > 125 then
         store_all [(1, 126), (2, word_of_nat (drop_bit 8 len)), (3, word_of_nat len AND 0xFF)] b
       else store_at 1 (word_of_nat len) b)))"

text \<open>The mask bit and the four bytes of the key.\<close>

definition frame_store_key :: "nat \<Rightarrow> byte list \<Rightarrow> rng \<Rightarrow> byte list option \<times> rng" where
  "frame_store_key header_bytes buffer g =
     (let (k0, g1) = rand_byte g; (k1, g2) = rand_byte g1;
          (k2, g3) = rand_byte g2; (k3, g4) = rand_byte g3 in
      (store_all
         [(1, buffer ! 1 OR 0x80),
          (header_bytes - 4, k0), (header_bytes - 3, k1), (header_bytes - 2, k2), (header_bytes - 1, k3)] buffer,
       g4))"

text \<open>The masking loop, from index \<open>i\<close> on: the payload still to be masked, and the buffer.\<close>

fun frame_mask_loop :: "nat \<Rightarrow> nat \<Rightarrow> byte list \<Rightarrow> byte list \<Rightarrow> byte list option" where
  "frame_mask_loop header_bytes i [] buffer = Some buffer"
| "frame_mask_loop header_bytes i (p # ps) buffer =
     Option.bind (store_at (header_bytes + i) (p XOR buffer ! (header_bytes - 4 + i mod 4)) buffer)
       (frame_mask_loop header_bytes (Suc i) ps)"

definition frame_fill ::
  "32 word \<Rightarrow> byte list option \<Rightarrow> nat \<Rightarrow> bool \<Rightarrow> bool \<Rightarrow> byte \<Rightarrow> byte list \<Rightarrow> rng \<Rightarrow> byte list option \<times> rng" where
  "frame_fill opcode payload len is_masked is_final reserved buffer g =
     (let header_bytes = frame_header_bytes len is_masked;
          b = frame_store_header opcode len is_final reserved buffer;
          (b, g1) = (case b of
                       Some x \<Rightarrow> if is_masked then frame_store_key header_bytes x g else (b, g)
                     | None \<Rightarrow> (None, g));
          p = (case payload of None \<Rightarrow> [] | Some p \<Rightarrow> p) in
      (Option.bind b (\<lambda>b.
         if len > 0 then
           if len > length p then None
           else if is_masked then frame_mask_loop header_bytes 0 (take len p) b
           else if header_bytes + len \<le> length b then Some (memcpy_at b header_bytes p len) else None
         else Some b),
       g1))"

text \<open>The sum of the sizes is one of type \<open>size_t\<close>, which wraps around. Where a store has no meaning there
  is no result, and nothing else happens; the theorem below shows when this is excluded.\<close>

definition uws_frame_encoder_encode ::
  "32 word \<Rightarrow> byte list option \<Rightarrow> nat \<Rightarrow> bool \<Rightarrow> bool \<Rightarrow> byte \<Rightarrow> heap \<Rightarrow> rng \<Rightarrow> BUFFER option \<times> heap \<times> rng" where
  "uws_frame_encoder_encode opcode payload len is_masked is_final reserved h g =
     (if reserved > 7 then (None, h, g)
      else if opcode > 0x0F then (None, h, g)
      else if len > 0 \<and> payload = None then (None, h, g)
      else
        (case BUFFER_new h of
           (None, h1) \<Rightarrow> (None, h1, g)
         | (Some result, h1) \<Rightarrow>
             (let needed_bytes = (frame_header_bytes len is_masked + len) mod (SIZE_MAX + 1) in
              case BUFFER_enlarge (Some result) needed_bytes h1 of
                (Failure, r, h2) \<Rightarrow> (None, BUFFER_delete r h2, g)
              | (Success, r, h2) \<Rightarrow>
                  (case BUFFER_u_char r of
                     None \<Rightarrow> (None, BUFFER_delete r h2, g)
                   | Some buffer \<Rightarrow>
                       (case frame_fill opcode payload len is_masked is_final reserved buffer g of
                          (Some b, g1) \<Rightarrow> (map_option (\<lambda>x. x\<lparr>buf_data := Some b\<rparr>) r, h2, g1)
                        | (None, _) \<Rightarrow> (None, BUFFER_delete r h2, g))))))"

section \<open>The frame of RFC 6455\<close>

definition frame_length_field :: "bool \<Rightarrow> nat \<Rightarrow> byte list" where
  "frame_length_field is_masked len =
     (let m = (if is_masked then 0x80 else 0) in
      if len > 65535 then (127 OR m) # map (\<lambda>k. word_of_nat (len div 256 ^ k)) [7, 6, 5, 4, 3, 2, 1, 0]
      else if len > 125 then [126 OR m, word_of_nat (len div 256), word_of_nat len]
      else [word_of_nat len OR m])"

fun frame_mask :: "byte list \<Rightarrow> nat \<Rightarrow> byte list \<Rightarrow> byte list" where
  "frame_mask key i [] = []"
| "frame_mask key i (p # ps) = (p XOR key ! (i mod 4)) # frame_mask key (Suc i) ps"

text \<open>The frame, with a masking key or none.\<close>

definition ws_frame :: "32 word \<Rightarrow> bool \<Rightarrow> byte \<Rightarrow> byte list option \<Rightarrow> byte list \<Rightarrow> byte list" where
  "ws_frame opcode is_final reserved key payload =
     [ucast opcode OR (if is_final then 0x80 else 0) OR push_bit 4 reserved] @
     frame_length_field (key \<noteq> None) (length payload) @
     (case key of None \<Rightarrow> payload | Some k \<Rightarrow> k @ frame_mask k 0 payload)"

text \<open>The four bytes the encoder draws for a key.\<close>

definition frame_key :: "rng \<Rightarrow> byte list" where
  "frame_key g = map (\<lambda>k. word_of_int (rng_vals g (rng_pos g + k))) [0, 1, 2, 3]"

lemma length_frame_key [simp]: "length (frame_key g) = 4"
  by (simp add: frame_key_def)

lemma length_frame_mask [simp]: "length (frame_mask k i p) = length p"
  by (induction k i p rule: frame_mask.induct) auto

section \<open>The stores produce the frame\<close>

lemma byte_and_ff: "(x :: byte) AND 0xFF = x"
  by (rule byte_eqI) (simp_all add: bit_simps)

lemma drop_bit_div: "drop_bit n (x :: nat) = x div 2 ^ n"
  by (simp add: drop_bit_eq_div)

lemma length_numeral_conv: "length xs = numeral k \<longleftrightarrow> (\<exists>y ys. xs = y # ys \<and> length ys = pred_numeral k)"
  by (simp add: numeral_eq_Suc length_Suc_conv)

lemma list_update_numeral [simp]: "(x # xs)[numeral k := v] = x # xs[pred_numeral k := v]"
  by (simp add: numeral_eq_Suc)

lemmas explicit_block = length_numeral_conv length_Suc_conv

text \<open>The header on a block of its size, without and with a key.\<close>

lemma store_header_plain:
  assumes "length hdr = frame_header_bytes len False"
  shows "frame_store_header opcode len is_final reserved (hdr @ rest) =
    Some ([ucast opcode OR (if is_final then 0x80 else 0) OR push_bit 4 reserved] @ frame_length_field False len @ rest)"
proof -
  consider "len > 65535" | "\<not> len > 65535" "len > 125" | "\<not> len > 125" by blast
  then show ?thesis
    by cases (use assms in \<open>auto simp: frame_header_bytes_def frame_store_header_def frame_length_field_def Let_def
      explicit_block byte_and_ff drop_bit_div or.assoc store_at_def\<close>)
qed

lemma store_header_keyed:
  assumes "length hdr = frame_header_bytes len True"
  shows "\<exists>b. frame_store_header opcode len is_final reserved (hdr @ rest) = Some b \<and>
    frame_store_key (frame_header_bytes len True) b g =
      (Some ([ucast opcode OR (if is_final then 0x80 else 0) OR push_bit 4 reserved] @ frame_length_field True len @
         frame_key g @ rest),
       g\<lparr>rng_pos := rng_pos g + 4\<rparr>)"
proof -
  have g23: "n + 2 = Suc (Suc n)" "n + 3 = Suc (Suc (Suc n))" "n + 4 = Suc (Suc (Suc (Suc n)))" for n :: nat
    by simp_all
  consider "len > 65535" | "\<not> len > 65535" "len > 125" | "\<not> len > 125" by blast
  then show ?thesis
    by cases (use assms in \<open>auto simp: frame_header_bytes_def frame_store_header_def frame_length_field_def Let_def
      frame_store_key_def rand_byte_def gb_rand_def frame_key_def explicit_block byte_and_ff drop_bit_div or.assoc g23 store_at_def\<close>)
qed

text \<open>The masking loop leaves the header alone and writes the masked payload.\<close>

lemma frame_mask_loop_masks:
  assumes "length hdr = header_bytes" and "4 \<le> header_bytes" and "length done = i" and "length ps = length rest"
  shows "frame_mask_loop header_bytes i ps (hdr @ done @ rest) =
    Some (hdr @ done @ frame_mask (drop (header_bytes - 4) hdr) i ps)"
  using assms
proof (induction ps arbitrary: i "done" rest)
  case (Cons p ps)
  then obtain t rest2 where rest: "rest = t # rest2" by (cases rest) auto
  let ?v = "p XOR drop (header_bytes - 4) hdr ! (i mod 4)"
  have m: "header_bytes - 4 + i mod 4 < header_bytes"
    using Cons.prems(2) mod_less_divisor [of 4 i] by linarith
  have "(hdr @ done @ rest) ! (header_bytes - 4 + i mod 4) = drop (header_bytes - 4) hdr ! (i mod 4)"
    using Cons.prems(1,2) m by (simp add: nth_append)
  moreover have "(hdr @ done @ rest)[header_bytes + i := ?v] = hdr @ (done @ [?v]) @ rest2"
    using Cons.prems by (simp add: rest list_update_append)
  ultimately show ?case
    using Cons.IH [of "done @ [?v]" "Suc i" rest2] Cons.prems by (simp add: rest store_at_def)
qed simp

text \<open>All the stores together, on a block of the computed size.\<close>

lemma frame_fill_frame:
  assumes "length buffer = frame_header_bytes len is_masked + len"
    and "p = take len (case payload of None \<Rightarrow> [] | Some p \<Rightarrow> p)" and "length p = len"
  shows "frame_fill opcode payload len is_masked is_final reserved buffer g =
    (Some (ws_frame opcode is_final reserved (if is_masked then Some (frame_key g) else None) p),
     if is_masked then g\<lparr>rng_pos := rng_pos g + 4\<rparr> else g)"
proof -
  define hb where "hb = frame_header_bytes len is_masked"
  obtain hdr rest where b: "buffer = hdr @ rest" "length hdr = hb" "length rest = len"
    using assms(1) that [of "take hb buffer" "drop hb buffer"] by (simp add: hb_def)
  let ?b0 = "ucast opcode OR (if is_final then 0x80 else 0) OR push_bit 4 reserved"
  show ?thesis
  proof (cases is_masked)
    case True
    let ?h = "[?b0] @ frame_length_field True len @ frame_key g"
    have h: "length ?h = hb" "4 \<le> hb" "drop (hb - 4) ?h = frame_key g"
      using True by (auto simp: hb_def frame_header_bytes_def frame_length_field_def Let_def)
    have loop: "frame_mask_loop hb 0 p (?h @ rest) = Some (?h @ frame_mask (frame_key g) 0 p)"
      using frame_mask_loop_masks [OF h(1,2), of "[]" 0 p rest] b(3) assms(3) h(3) by simp
    show ?thesis
      using store_header_keyed [of hdr len opcode is_final reserved rest g] b loop True assms(2,3)
      by (auto simp: frame_fill_def ws_frame_def hb_def Let_def)
  next
    case False
    let ?h = "[?b0] @ frame_length_field False len"
    have h: "length ?h = hb"
      using False by (auto simp: hb_def frame_header_bytes_def frame_length_field_def Let_def)
    have mem: "memcpy_at (x @ rest) hb q len = x @ take len q" if "length x = hb" for x q
      using that b(3) by (auto simp: memcpy_at_def)
    have n: "Suc (length (frame_length_field False len)) = frame_header_bytes len False" using h False by (simp add: hb_def)
    from mem [OF h] show ?thesis
      using store_header_plain [of hdr len opcode is_final reserved rest] b False assms(2,3) n
      by (auto simp: frame_fill_def ws_frame_def hb_def Let_def)
  qed
qed

text \<open>When the stores stay inside, the block has room for the whole frame.\<close>

lemma length_store_at: "store_at i v b = Some b' \<Longrightarrow> length b' = length b"
  by (auto simp: store_at_def split: if_splits)

lemma length_store_all: "store_all ws b = Some b' \<Longrightarrow> length b' = length b"
proof (induction ws arbitrary: b)
  case (Cons x ws)
  obtain i v where x: "x = (i, v)" by (cases x)
  then obtain b1 where "store_at i v b = Some b1" "store_all ws b1 = Some b'"
    using Cons.prems by (auto simp: bind_eq_Some_conv)
  then show ?case using Cons.IH length_store_at by metis
qed simp

lemmas length_stores = length_store_at length_store_all

lemma length_store_header:
  assumes "frame_store_header opcode len is_final reserved b = Some b'"
  shows "length b' = length b"
proof -
  obtain b1 b2 b3 where b: "store_at 0 (ucast opcode) b = Some b1"
    "(if is_final then store_at 0 (b1 ! 0 OR 0x80) b1 else Some b1) = Some b2"
    "store_at 0 (b2 ! 0 OR push_bit 4 reserved) b2 = Some b3"
    "(\<exists>ws. store_all ws b3 = Some b') \<or> (\<exists>v. store_at 1 v b3 = Some b')"
    using assms unfolding frame_store_header_def bind_eq_Some_conv by (metis (full_types))
  have "length b2 = length b1" using b(2) length_stores(1) [of 0 "b1 ! 0 OR 0x80" b1 b2] by (cases is_final) auto
  moreover have "length b' = length b3" using b(4) length_stores by blast
  ultimately show ?thesis using length_stores(1) [OF b(1)] length_stores(1) [OF b(3)] by simp
qed

lemma length_store_key: "frame_store_key hb b g = (Some b', g') \<Longrightarrow> length b' = length b"
  unfolding frame_store_key_def Let_def case_prod_unfold prod.inject fst_conv by (elim conjE) (rule length_stores(2))

lemma mask_loop_inside: "frame_mask_loop hb i ps b = Some b' \<Longrightarrow> ps \<noteq> [] \<Longrightarrow> hb + i + length ps \<le> length b"
proof (induction hb i ps b rule: frame_mask_loop.induct)
  case (2 hb i p ps b)
  then obtain b1 where "store_at (hb + i) (p XOR b ! (hb - 4 + i mod 4)) b = Some b1" "frame_mask_loop hb (Suc i) ps b1 = Some b'"
    by (auto simp: bind_eq_Some_conv)
  moreover from this have "hb + i < length b" "length b1 = length b" by (auto simp: store_at_def split: if_splits)
  ultimately show ?case using 2(1) [of b1] by (cases "ps = []") auto
qed simp

lemma frame_fill_inside:
  assumes "frame_fill opcode payload len is_masked is_final reserved buffer g = (Some b, g')" and "0 < len"
  shows "frame_header_bytes len is_masked + len \<le> length buffer"
proof -
  obtain b1 where b1: "frame_store_header opcode len is_final reserved buffer = Some b1" "length b1 = length buffer"
    using assms(1) length_store_header
    by (cases "frame_store_header opcode len is_final reserved buffer") (auto simp: frame_fill_def Let_def)
  let ?p = "case payload of None \<Rightarrow> [] | Some p \<Rightarrow> p"
  show ?thesis
  proof (cases is_masked)
    case True
    obtain b2 g2 where b2: "frame_store_key (frame_header_bytes len is_masked) b1 g = (b2, g2)" by (metis surj_pair)
    then obtain b3 where b3: "b2 = Some b3" using assms(1) b1(1) True by (cases b2) (auto simp: frame_fill_def Let_def)
    have "frame_mask_loop (frame_header_bytes len is_masked) 0 (take len ?p) b3 = Some b" "len \<le> length ?p"
      using assms b1(1) b2 b3 True by (auto simp: frame_fill_def Let_def split: if_splits)
    then have "frame_header_bytes len is_masked + length (take len ?p) \<le> length b3"
      using mask_loop_inside [of "frame_header_bytes len is_masked" 0 "take len ?p" b3 b] assms(2) by (cases ?p) auto
    then show ?thesis using length_store_key [of _ b1 g b3 g2] b2 b3 b1(2) \<open>len \<le> length ?p\<close> by simp
  next
    case False
    then show ?thesis using assms b1 by (auto simp: frame_fill_def Let_def split: if_splits)
  qed
qed

section \<open>A reader of frames\<close>

text \<open>The receiving side of RFC 6455: what a frame at the front of a byte stream says, and the
  bytes that follow it.\<close>

record frame_view =
  fv_final :: bool
  fv_reserved :: byte
  fv_opcode :: byte
  fv_key :: "byte list option"
  fv_payload :: "byte list"

definition be_value :: "byte list \<Rightarrow> nat" where
  "be_value bs = foldl (\<lambda>n b. 256 * n + unat b) 0 bs"

definition ws_read :: "byte list \<Rightarrow> (frame_view \<times> byte list) option" where
  "ws_read bs =
     (case bs of
        b0 # b1 # r \<Rightarrow>
          (let l = unat (b1 AND 0x7F);
               n = (if l = 127 then 8 else if l = 126 then 2 else 0);
               len = (if n = 0 then l else be_value (take n r));
               m = (if bit b1 7 then 4 else 0);
               key = (if bit b1 7 then Some (take 4 (drop n r)) else None);
               body = drop (n + m) r in
           if length r < n + m + len then None
           else Some (\<lparr>fv_final = bit b0 7, fv_reserved = drop_bit 4 b0 AND 7, fv_opcode = b0 AND 0x0F,
                       fv_key = key,
                       fv_payload = (case key of None \<Rightarrow> take len body | Some k \<Rightarrow> frame_mask k 0 (take len body))\<rparr>,
                      drop len body))
      | _ \<Rightarrow> None)"

lemma frame_mask_twice: "frame_mask k i (frame_mask k i p) = p"
  by (induction k i p rule: frame_mask.induct) (simp_all add: xor.assoc [symmetric] xor.commute [of _ "_ ! _"])

lemma be_value_append: "be_value (xs @ [b]) = 256 * be_value xs + unat b"
  by (simp add: be_value_def)

text \<open>Big-endian digits and their value.\<close>

definition be_digits :: "nat \<Rightarrow> nat \<Rightarrow> byte list" where
  "be_digits k n = map (\<lambda>i. word_of_nat (n div 256 ^ i)) (rev [0..<k])"

lemma be_value_digits: "be_value (be_digits k n) = n mod 256 ^ k"
proof (induction k arbitrary: n)
  case (Suc k)
  have "be_digits (Suc k) n = be_digits k (n div 256) @ [word_of_nat n]"
  proof -
    have "rev [0..<Suc k] = map Suc (rev [0..<k]) @ [0]"
      by (metis map_Suc_upt rev.simps(2) rev_map upt_rec zero_less_Suc)
    then show ?thesis by (simp add: be_digits_def div_mult2_eq)
  qed
  then show ?case
    using Suc by (simp add: be_value_append unat_of_nat mod_mult2_eq)
qed (simp add: be_digits_def be_value_def)

lemma length_be_digits [simp]: "length (be_digits k n) = k"
  by (simp add: be_digits_def)

lemma frame_length_field_digits:
  "frame_length_field is_masked len =
     (let m = (if is_masked then 0x80 else 0) in
      if len > 65535 then (127 OR m) # be_digits 8 len
      else if len > 125 then (126 OR m) # be_digits 2 len else [word_of_nat len OR m])"
  by (simp add: frame_length_field_def be_digits_def upt_rec Let_def)

text \<open>What the reader sees in the two fixed bytes.\<close>

lemma length_byte_bits:
  assumes "n \<le> 125"
  shows "unat (word_of_nat n AND 0x7F :: byte) = n" "\<not> bit (word_of_nat n :: byte) 7"
    "unat ((word_of_nat n OR 0x80) AND 0x7F :: byte) = n" "bit (word_of_nat n OR 0x80 :: byte) 7"
proof -
  have *: "unat (v AND 0x7F) = unat v \<and> \<not> bit v 7 \<and> unat ((v OR 0x80) AND 0x7F) = unat v \<and> bit (v OR 0x80) 7"
    if "unat v < 126" for v :: byte
  proof -
    have "v AND mask 7 = v"
      using that by (intro less_mask_eq) (simp add: word_less_nat_alt)
    then have v: "v AND 0x7F = v" by (simp add: mask_eq_exp_minus_1)
    have "\<not> bit (v AND 0x7F) 7" by (simp add: bit_and_iff)
    then have b: "\<not> bit v 7" unfolding v .
    then have "(v OR 0x80) AND 0x7F = v"
      by (intro byte_eqI) (simp_all add: bit_simps)
    with v b show ?thesis by (simp add: bit_simps)
  qed
  have n: "unat (word_of_nat n :: byte) = n" using assms by (simp add: unat_of_nat)
  show "unat (word_of_nat n AND 0x7F :: byte) = n" "\<not> bit (word_of_nat n :: byte) 7"
    "unat ((word_of_nat n OR 0x80) AND 0x7F :: byte) = n" "bit (word_of_nat n OR 0x80 :: byte) 7"
    using * [of "word_of_nat n"] n assms by simp_all
qed

lemma first_byte_bits:
  fixes opcode :: "32 word" and reserved :: byte and is_final :: bool
  assumes "opcode \<le> 0x0F" and "reserved \<le> 7"
  defines "b0 \<equiv> ucast opcode OR (if is_final then 0x80 else 0) OR push_bit 4 reserved"
  shows "bit b0 7 = is_final" "drop_bit 4 b0 AND 7 = reserved" "b0 AND 0x0F = ucast opcode"
proof -
  have r: "reserved AND 7 = reserved"
    by (rule byte_cases_below [where m = 8 and v = reserved and P = "\<lambda>v. v AND 7 = v"])
      (use assms(2) in \<open>simp_all add: upt_rec word_le_nat_alt\<close>)
  have "unat (ucast opcode :: byte) < 16"
    using assms(1) by (simp add: word_le_nat_alt unsigned_ucast_eq take_bit_eq_mod)
  then have o: "(ucast opcode :: byte) AND 0x0F = ucast opcode"
    by (rule byte_cases_below [where m = 16 and v = "ucast opcode" and P = "\<lambda>v. v AND 0x0F = v", rotated])
      (simp_all add: upt_rec)
  have nb: "\<not> bit (ucast opcode :: byte) 4" "\<not> bit (ucast opcode :: byte) 5"
      "\<not> bit (ucast opcode :: byte) 6" "\<not> bit (ucast opcode :: byte) 7"
    by (subst o [symmetric], simp add: bit_and_iff)+
  have nr: "\<not> bit reserved 3" "\<not> bit reserved 4" "\<not> bit reserved 5" "\<not> bit reserved 6" "\<not> bit reserved 7"
    by (subst r [symmetric], simp add: bit_and_iff)+
  show "bit b0 7 = is_final"
    using nb nr by (simp add: b0_def bit_simps)
  show "drop_bit 4 b0 AND 7 = reserved"
    by (rule byte_eqI) (use nb nr in \<open>simp_all add: b0_def bit_simps\<close>)
  show "b0 AND 0x0F = ucast opcode"
    by (rule byte_eqI) (use nb nr in \<open>simp_all add: b0_def bit_simps\<close>)
qed

lemma length_frame_length_field:
  "Suc (length (frame_length_field is_masked len)) + (if is_masked then 4 else 0) = frame_header_bytes len is_masked"
  by (simp add: frame_length_field_def frame_header_bytes_def Let_def)

lemma ws_read_frame:
  assumes "opcode \<le> 0x0F" and "reserved \<le> 7" and "length payload < 2 ^ 64"
    and "\<And>k. key = Some k \<Longrightarrow> length k = 4"
  shows "ws_read (ws_frame opcode is_final reserved key payload @ rest) =
    Some (\<lparr>fv_final = is_final, fv_reserved = reserved, fv_opcode = ucast opcode, fv_key = key,
           fv_payload = payload\<rparr>, rest)"
proof -
  let ?l = "length payload"
  let ?tail = "case key of None \<Rightarrow> payload | Some k \<Rightarrow> k @ frame_mask k 0 payload"
  note b0 = first_byte_bits [OF assms(1,2), of is_final]
  have tail: "length ?tail = (if key = None then 0 else 4) + ?l"
    using assms(4) by (auto split: option.splits)
  consider "?l > 65535" | "\<not> ?l > 65535" "?l > 125" | "\<not> ?l > 125" by blast
  then show ?thesis
  proof cases
    case 1
    have "be_value (be_digits 8 ?l) = ?l" using assms(3) by (simp add: be_value_digits)
    with 1 b0 tail assms(4) show ?thesis
      by (auto simp: ws_frame_def frame_length_field_digits ws_read_def Let_def frame_mask_twice bit_simps
          split: option.splits)
  next
    case 2
    have "be_value (be_digits 2 ?l) = ?l" using 2 by (simp add: be_value_digits)
    with 2 b0 tail assms(4) show ?thesis
      by (auto simp: ws_frame_def frame_length_field_digits ws_read_def Let_def frame_mask_twice bit_simps
          split: option.splits)
  next
    case 3
    then have "?l \<le> 125" by simp
    note lb = length_byte_bits [OF this]
    from 3 b0 tail assms(4) lb show ?thesis
      by (cases key) (auto simp: ws_frame_def frame_length_field_digits ws_read_def Let_def frame_mask_twice)
  qed
qed

section \<open>Properties\<close>

text \<open>The bytes of the payload argument, and when it is acceptable: null only for no bytes, and a
  pointer to at least \<open>len\<close> bytes.\<close>

definition payload_bytes :: "byte list option \<Rightarrow> nat \<Rightarrow> byte list" where
  "payload_bytes payload len = take len (case payload of None \<Rightarrow> [] | Some p \<Rightarrow> p)"

definition payload_ok :: "byte list option \<Rightarrow> nat \<Rightarrow> bool" where
  "payload_ok payload len = (case payload of None \<Rightarrow> len = 0 | Some p \<Rightarrow> len \<le> length p)"

lemma length_payload_bytes: "payload_ok payload len \<Longrightarrow> length (payload_bytes payload len) = len"
  by (auto simp: payload_ok_def payload_bytes_def split: option.splits)

lemma length_ws_frame:
  "(\<And>k. key = Some k \<Longrightarrow> length k = 4) \<Longrightarrow>
     length (ws_frame opcode is_final reserved key p) = frame_header_bytes (length p) (key \<noteq> None) + length p"
  using length_frame_length_field [of "key \<noteq> None" "length p"] by (auto simp: ws_frame_def split: option.splits)

lemma encode_frame_lemma:
  assumes "reserved \<le> 7" and "opcode \<le> 0x0F" and "payload_ok payload len"
    and "uws_frame_encoder_encode opcode payload len is_masked is_final reserved h g = (r, h', g')"
  shows "case r of
      None \<Rightarrow> mem_live h' = mem_live h \<and> g' = g
    | Some b \<Rightarrow> buf_inv b \<and> mem_live h' = mem_live h + 2 \<and>
        buf_bytes b = ws_frame opcode is_final reserved (if is_masked then Some (frame_key g) else None)
                        (payload_bytes payload len) \<and>
        g' = (if is_masked then g\<lparr>rng_pos := rng_pos g + 4\<rparr> else g)"
proof -
  let ?n = "frame_header_bytes len is_masked + len"
  let ?k = "?n mod Suc SIZE_MAX"
  let ?f = "ws_frame opcode is_final reserved (if is_masked then Some (frame_key g) else None) (payload_bytes payload len)"
  have f: "length ?f = ?n"
    using length_ws_frame [of "if is_masked then Some (frame_key g) else None" opcode is_final reserved
        "payload_bytes payload len"] length_payload_bytes [OF assms(3)] by auto
  have guards: "\<not> reserved > 7" "\<not> opcode > 0x0F" "\<not> (len > 0 \<and> payload = None)"
    using assms(1-3) by (auto simp: not_less payload_ok_def)
  have exact: "safe_add_size_t 0 ?k = ?k" if "safe_add_size_t 0 ?k \<noteq> SIZE_MAX"
    using safe_add_size_t_exact [OF that] by simp
  note run = uws_frame_encoder_encode_def BUFFER_new_def BUFFER_enlarge_def BUFFER_u_char_def BUFFER_delete_def
    mem_defs Let_def buf_inv_def buf_bytes_def
  show ?thesis
  proof (cases "?k = ?n")
    case True
    have "frame_fill opcode payload len is_masked is_final reserved b g =
        (Some ?f, if is_masked then g\<lparr>rng_pos := rng_pos g + 4\<rparr> else g)" if "length b = ?n" for b
      using frame_fill_frame [OF that, of "payload_bytes payload len" payload] length_payload_bytes [OF assms(3)]
      by (simp add: payload_bytes_def)
    then show ?thesis
      using assms(4) guards f exact unfolding True
      by (auto simp: run True split: if_splits prod.splits option.splits rc.splits)
  next
    case False
    have "frame_header_bytes len is_masked \<le> 14" by (simp add: frame_header_bytes_def Let_def)
    then have "0 < len" using False by (cases len) (auto simp: SIZE_MAX_def)
    have "?k < ?n" using False mod_less_eq_dividend [of ?n "Suc SIZE_MAX"] by linarith
    then have none: "fst (frame_fill opcode payload len is_masked is_final reserved b g) = None" if "length b = ?k" for b
      using frame_fill_inside [OF _ \<open>0 < len\<close>, of opcode payload is_masked is_final reserved b g] that
      by (cases "frame_fill opcode payload len is_masked is_final reserved b g"; cases "fst (frame_fill opcode payload len is_masked is_final reserved b g)")
        fastforce+
    have "r = None \<and> mem_live h' = mem_live h \<and> g' = g"
    proof -
      define b where "b = fresh_block byte_cell ?k (h\<lparr>mem_calls := Suc (mem_calls h), mem_live := mem_live h + 1\<rparr>)"
      have "fst (frame_fill opcode payload len is_masked is_final reserved b g) = None" using none [of b] by (simp add: b_def)
      then obtain g1 where "frame_fill opcode payload len is_masked is_final reserved b g = (None, g1)" by (metis prod.collapse)
      then show ?thesis
        using assms(4) guards exact unfolding b_def
        by (auto simp: run split: if_splits)
    qed
    then show ?thesis by simp
  qed
qed

lemma encode_mem_ok:
  "uws_frame_encoder_encode opcode payload len is_masked is_final reserved h g = (r, h', g') \<Longrightarrow> mem_ok h' = mem_ok h"
  by (auto simp: uws_frame_encoder_encode_def BUFFER_new_def BUFFER_enlarge_def BUFFER_u_char_def BUFFER_delete_def
      mem_defs Let_def split: if_splits prod.splits option.splits rc.splits)

text \<open>The two requests of the encoder decide: nothing else fails.\<close>

lemma encode_runs:
  assumes "reserved \<le> 7" and "opcode \<le> 0x0F" and "payload_ok payload len" and "len + 14 < SIZE_MAX"
  shows "(\<exists>b h' g'. uws_frame_encoder_encode opcode payload len is_masked is_final reserved h g = (Some b, h', g')) \<longleftrightarrow>
    granted h \<and> granted (after_request 1 h)"
proof -
  let ?n = "frame_header_bytes len is_masked + len"
  have n: "?n < SIZE_MAX" "0 < ?n" using assms(4) by (auto simp: frame_header_bytes_def Let_def)
  have guards: "\<not> reserved > 7" "\<not> opcode > 0x0F" "\<not> (len > 0 \<and> payload = None)"
    using assms(1-3) by (auto simp: not_less payload_ok_def)
  have s: "safe_add_size_t 0 ?n = ?n" "?n mod Suc SIZE_MAX = ?n" using n by (simp_all add: safe_add_size_t_ok)
  have fill: "frame_fill opcode payload len is_masked is_final reserved b g =
      (Some (ws_frame opcode is_final reserved (if is_masked then Some (frame_key g) else None) (payload_bytes payload len)),
       if is_masked then g\<lparr>rng_pos := rng_pos g + 4\<rparr> else g)" if "length b = ?n" for b
    using frame_fill_frame [OF that, of "payload_bytes payload len" payload] length_payload_bytes [OF assms(3)]
    by (simp add: payload_bytes_def)
  show ?thesis
    using guards n s fill
    by (auto simp: uws_frame_encoder_encode_def BUFFER_new_def BUFFER_enlarge_def BUFFER_u_char_def
        malloc_struct_def realloc_block_def malloc_block_def Let_def)
qed

lemma encode_granted:
  assumes "reserved \<le> 7" and "opcode \<le> 0x0F" and "payload_ok payload len" and "len + 14 < SIZE_MAX"
    and "\<forall>n. mem_ok h n"
  shows "\<exists>b h' g'. uws_frame_encoder_encode opcode payload len is_masked is_final reserved h g = (Some b, h', g')"
  using encode_runs [OF assms(1-4), of is_masked is_final h g] assms(5) by (simp add: granted_def after_request_def)

text \<open>C8: \<open>uws_frame_encoder_encode\<close> for a payload of \<open>len\<close> readable bytes (so few that the size of the
  frame fits a \<open>size_t\<close>): a reserved value, an opcode or a null payload that is not allowed gives null and
  changes nothing. Otherwise the result is a frame exactly when both requests for memory are granted, so
  that no store falls outside the block and no read outside the payload, which would leave no result;
  it is a well-formed buffer that holds the RFC 6455 frame of the payload, and a masked frame carries the
  next four random bytes as its key. When a request is refused no block is kept and no random byte is drawn.\<close>

theorem uws_frame_encoder_encode_frame:
  assumes "case payload of None \<Rightarrow> True | Some p \<Rightarrow> len \<le> length p" and "len + 14 < SIZE_MAX"
  shows "if reserved > 7 \<or> opcode > 0x0F \<or> (len > 0 \<and> payload = None)
    then uws_frame_encoder_encode opcode payload len is_masked is_final reserved h g = (None, h, g)
    else if granted h \<and> granted (after_request 1 h)
    then \<exists>b h'. uws_frame_encoder_encode opcode payload len is_masked is_final reserved h g =
          (Some b, h', if is_masked then g\<lparr>rng_pos := rng_pos g + 4\<rparr> else g) \<and>
        buf_inv b \<and> mem_live h' = mem_live h + 2 \<and>
        buf_bytes b = ws_frame opcode is_final reserved (if is_masked then Some (frame_key g) else None)
                        (payload_bytes payload len)
    else \<exists>h'. uws_frame_encoder_encode opcode payload len is_masked is_final reserved h g = (None, h', g) \<and>
        mem_live h' = mem_live h"
proof (cases "reserved > 7 \<or> opcode > 0x0F \<or> (len > 0 \<and> payload = None)")
  case True
  then have "uws_frame_encoder_encode opcode payload len is_masked is_final reserved h g = (None, h, g)"
    unfolding uws_frame_encoder_encode_def by (metis (full_types))
  then show ?thesis using True by (simp only: if_True)
next
  case False
  then have ok: "reserved \<le> 7" "opcode \<le> 0x0F" "payload_ok payload len"
    using assms(1) by (auto simp: payload_ok_def not_less split: option.splits)
  obtain r h' g' where run: "uws_frame_encoder_encode opcode payload len is_masked is_final reserved h g = (r, h', g')"
    by (metis prod_cases3)
  show ?thesis
    unfolding if_not_P [OF False]
    using encode_frame_lemma [OF ok run] encode_runs [OF ok assms(2), of is_masked is_final h g] run
    by (cases r) simp_all
qed

definition rng0 :: rng where
  "rng0 = \<lparr>rng_vals = (\<lambda>i. int i + 1), rng_pos = 0\<rparr>"

theorem uws_frame_encoder_encode_frame_witness:
  "\<exists>b h'. uws_frame_encoder_encode (ws_opcode WS_TEXT_FRAME) (Some [0x48, 0x69]) 2 True True 0 heap0 rng0 =
     (Some b, h', rng0\<lparr>rng_pos := 4\<rparr>) \<and> buf_bytes b = [0x81, 0x82, 1, 2, 3, 4, 0x49, 0x6B]"
proof -
  have "case Some [0x48, 0x69 :: byte] of None \<Rightarrow> True | Some p \<Rightarrow> (2 :: nat) \<le> length p" "(2 :: nat) + 14 < SIZE_MAX"
    by (simp_all add: SIZE_MAX_def)
  from uws_frame_encoder_encode_frame [OF this, of 0 "ws_opcode WS_TEXT_FRAME" True True heap0 rng0] show ?thesis
    by (auto simp: heap0_def granted_def after_request_def ws_frame_def frame_length_field_def frame_key_def rng0_def payload_bytes_def)
qed

text \<open>C9: The peer reads back what was sent: a frame the encoder produced, followed by any bytes,
  is parsed by the reference reader as exactly that frame, with the unmasked payload, and
  the reader stops where the frame ends.\<close>

theorem uws_frame_encoder_encode_readable:
  assumes "reserved \<le> 7" and "opcode \<le> 0x0F" and "payload_ok payload len" and "len < 2 ^ 64"
    and "uws_frame_encoder_encode opcode payload len is_masked is_final reserved h g = (Some b, h', g')"
  shows "ws_read (buf_bytes b @ rest) =
    Some (\<lparr>fv_final = is_final, fv_reserved = reserved, fv_opcode = ucast opcode,
           fv_key = (if is_masked then Some (frame_key g) else None),
           fv_payload = payload_bytes payload len\<rparr>, rest)"
proof -
  have "buf_bytes b = ws_frame opcode is_final reserved (if is_masked then Some (frame_key g) else None)
      (payload_bytes payload len)"
    using encode_frame_lemma [OF assms(1-3,5)] by simp
  then show ?thesis
    using ws_read_frame [of opcode reserved "payload_bytes payload len"
        "if is_masked then Some (frame_key g) else None" is_final rest] assms(1,2,4)
      length_payload_bytes [OF assms(3)] by (simp split: if_splits)
qed

theorem uws_frame_encoder_encode_readable_witness:
  "\<exists>b h' g'. uws_frame_encoder_encode (ws_opcode WS_PING_FRAME) None 0 True True 0 heap0 rng0 = (Some b, h', g') \<and>
     (\<exists>v. ws_read (buf_bytes b @ [7]) = Some (v, [7]) \<and> fv_opcode v = 9)"
proof -
  have ok: "(0 :: byte) \<le> 7" "ws_opcode WS_PING_FRAME \<le> 0x0F" "payload_ok None 0" "(0 :: nat) < 2 ^ 64"
    by (simp_all add: payload_ok_def)
  obtain b h' g' where r:
    "uws_frame_encoder_encode (ws_opcode WS_PING_FRAME) None 0 True True 0 heap0 rng0 = (Some b, h', g')"
    using encode_granted [OF ok(1-3), of heap0 True True rng0] by (auto simp: heap0_def SIZE_MAX_def)
  show ?thesis
    using uws_frame_encoder_encode_readable [OF ok r, of "[7]"] r by auto
qed

end
