(* ===== verification/Host_Utils.thy ===== *)
theory Host_Utils
  imports Prelude
begin

text \<open>
  The host formatting of \<open>src/host_utils.c\<close>, which the WebSocket client uses for the
  \<open>Host\<close> header: brackets for IPv6 literals, no zone identifier. A pointer into the host
  string is the part of the block from there on; the lemmas relate the index arithmetic to a
  reference function on strings.
\<close>

section \<open>The code\<close>

text \<open>\<open>memchr\<close>: the first index below \<open>n\<close> that holds \<open>c\<close>.\<close>

definition memchr :: "char list \<Rightarrow> char \<Rightarrow> nat \<Rightarrow> nat option" where
  "memchr s c n = List.find (\<lambda>i. s ! i = c) [0..<n]"

record AUTHORITY_HOST_INFO =
  address :: "char list"
  address_length :: nat
  formatted_length :: nat
  is_ipv6 :: bool

definition host_without_ipv6_scope_length :: "char list \<Rightarrow> nat \<Rightarrow> nat" where
  "host_without_ipv6_scope_length host host_length =
     (case memchr host (CHR ''%'') host_length of
        None \<Rightarrow> host_length
      | Some scope \<Rightarrow> if memchr host (CHR '':'') scope \<noteq> None then scope else host_length)"

definition get_authority_host_info :: "char list option \<Rightarrow> rc \<times> AUTHORITY_HOST_INFO option" where
  "get_authority_host_info host =
     (case host of
        None \<Rightarrow> (Failure, None)
      | Some s \<Rightarrow>
          (let n = strlen s;
               (a, n) = (if n \<ge> 2 \<and> s ! 0 = CHR ''['' \<and> s ! (n - 1) = CHR '']'' then (drop 1 s, n - 2) else (s, n));
               ipv6 = list_ex (\<lambda>i. a ! i = CHR '':'') [0..<n];
               n = (if ipv6 then host_without_ipv6_scope_length a n else n);
               formatted = (if ipv6 then safe_add_size_t n 2 else n) in
           (if formatted = SIZE_MAX then Failure else Success,
            Some \<lparr>address = a, address_length = n, formatted_length = formatted, is_ipv6 = ipv6\<rparr>)))"

definition authority_host_length :: "char list option \<Rightarrow> nat" where
  "authority_host_length host =
     (case get_authority_host_info host of
        (Success, Some info) \<Rightarrow> formatted_length info
      | _ \<Rightarrow> 0)"

definition format_host_for_authority ::
  "char list option \<Rightarrow> char list option \<Rightarrow> nat \<Rightarrow> rc \<times> char list option" where
  "format_host_for_authority host output output_size =
     (case (host, output) of
        (Some s, Some b) \<Rightarrow>
          (case get_authority_host_info host of
             (Success, Some info) \<Rightarrow>
               (if output_size \<le> formatted_length info then (Failure, output)
                else
                  (let st = (0, b);
                       st = (if is_ipv6 info then put ''['' st else st);
                       st = put (take (address_length info) (address info)) st;
                       st = (if is_ipv6 info then put '']'' st else st);
                       st = put [NUL] st in
                   (Success, Some (snd st))))
           | _ \<Rightarrow> (Failure, output))
      | _ \<Rightarrow> (Failure, output))"

section \<open>Reference function\<close>

text \<open>The literal without its brackets, without its zone, and with brackets when it is IPv6.\<close>

definition unbracketed :: "char list \<Rightarrow> char list" where
  "unbracketed s =
     (if length s \<ge> 2 \<and> s ! 0 = CHR ''['' \<and> last s = CHR '']'' then butlast (drop 1 s) else s)"

definition without_zone :: "char list \<Rightarrow> char list" where
  "without_zone a =
     (let p = takeWhile (\<lambda>c. c \<noteq> CHR ''%'') a in if CHR '':'' \<in> set p then p else a)"

definition authority_text :: "char list \<Rightarrow> char list" where
  "authority_text s =
     (let a = unbracketed s in
      if CHR '':'' \<in> set a then ''['' @ without_zone a @ '']'' else a)"

section \<open>The index arithmetic\<close>

lemma memchr_None: "n \<le> length s \<Longrightarrow> memchr s c n = None \<longleftrightarrow> c \<notin> set (take n s)"
  by (auto simp: memchr_def find_None_iff in_set_conv_nth)

lemma memchr_Some:
  assumes "n \<le> length s" and "memchr s c n = Some k"
  shows "takeWhile (\<lambda>x. x \<noteq> c) (take n s) = take k s" "k < n" "s ! k = c"
proof -
  have k: "k < n" "s ! k = c" "\<forall>j<k. s ! j \<noteq> c"
    using assms(2) unfolding memchr_def find_Some_iff by auto
  then show "k < n" "s ! k = c" by auto
  have "takeWhile (\<lambda>x. x \<noteq> c) (take n s) = take k (take n s)"
    using k assms(1) by (intro takeWhile_eq_take_P_nth) auto
  then show "takeWhile (\<lambda>x. x \<noteq> c) (take n s) = take k s"
    using k(1) by (simp add: min_def)
qed

lemma scope_length:
  assumes "n \<le> length s"
  shows "host_without_ipv6_scope_length s n = length (without_zone (take n s)) \<and>
    take (host_without_ipv6_scope_length s n) s = without_zone (take n s)"
proof (cases "memchr s (CHR ''%'') n")
  case None
  then have "CHR ''%'' \<notin> set (take n s)" using memchr_None assms by blast
  then have "takeWhile (\<lambda>c. c \<noteq> CHR ''%'') (take n s) = take n s" by (auto simp: takeWhile_eq_all_conv)
  then show ?thesis using None assms by (simp add: host_without_ipv6_scope_length_def without_zone_def Let_def del: takeWhile_eq_all_conv)
next
  case (Some k)
  note k = memchr_Some [OF assms Some]
  have "memchr s (CHR '':'') k = None \<longleftrightarrow> CHR '':'' \<notin> set (take k s)"
    using k(2) assms by (intro memchr_None) simp
  then show ?thesis
    using Some k assms by (auto simp: host_without_ipv6_scope_length_def without_zone_def Let_def)
qed

lemma pointer_text:
  assumes "terminated s"
  shows "\<exists>a n. (if strlen s \<ge> 2 \<and> s ! 0 = CHR ''['' \<and> s ! (strlen s - 1) = CHR '']''
      then (drop 1 s, strlen s - 2) else (s, strlen s)) = (a, n) \<and>
    n \<le> length a \<and> take n a = unbracketed (cstr s)"
proof -
  obtain r where s: "s = cstr s @ NUL # r" using terminated_split [OF assms] by blast
  define t where "t = cstr s"
  have s: "s = t @ NUL # r" and len: "strlen s = length t"
    using s by (simp_all add: t_def strlen_def)
  have "take (length t - 2) (drop 1 s) = butlast (drop 1 t)" if "length t \<ge> 2"
    using that by (simp add: s butlast_conv_take numeral_2_eq_2)
  moreover have "s ! 0 = t ! 0" "s ! (length t - 1) = last t" if "length t \<ge> 2"
    using that last_conv_nth [of t] by (cases "t = []"; simp add: s nth_append)+
  ultimately show ?thesis
    unfolding len t_def [symmetric] by (auto simp: unbracketed_def s)
qed

lemma colon_text: "n \<le> length a \<Longrightarrow> list_ex (\<lambda>i. a ! i = c) [0..<n] \<longleftrightarrow> c \<in> set (take n a)"
  by (auto simp: list_ex_iff in_set_conv_nth)

text \<open>What the parser finds out about a host, in terms of the reference functions.\<close>

lemma host_info:
  assumes "terminated s" and "length (cstr s) + 2 < SIZE_MAX"
  shows "\<exists>info. get_authority_host_info (Some s) = (Success, Some info) \<and>
    formatted_length info = length (authority_text (cstr s)) \<and>
    is_ipv6 info = (CHR '':'' \<in> set (unbracketed (cstr s))) \<and>
    address_length info \<le> length (address info) \<and>
    take (address_length info) (address info) =
      (if is_ipv6 info then without_zone (unbracketed (cstr s)) else unbracketed (cstr s))"
proof -
  let ?t = "cstr s"
  obtain a n where an: "(if strlen s \<ge> 2 \<and> s ! 0 = CHR ''['' \<and> s ! (strlen s - 1) = CHR '']''
      then (drop 1 s, strlen s - 2) else (s, strlen s)) = (a, n)"
    "n \<le> length a" "take n a = unbracketed ?t"
    using pointer_text [OF assms(1)] by blast
  have n: "n \<le> length ?t"
    using an(1) by (auto simp: strlen_def split: if_splits)
  note z = scope_length [OF an(2)] colon_text [OF an(2), of "CHR '':''"]
  have le: "host_without_ipv6_scope_length a n \<le> n"
    unfolding z(1) [THEN conjunct1]
    using length_takeWhile_le [of "\<lambda>c. c \<noteq> CHR ''%''" "take n a"] an(2)
    by (simp add: without_zone_def Let_def)
  then have "safe_add_size_t (host_without_ipv6_scope_length a n) 2 = host_without_ipv6_scope_length a n + 2"
    using n assms(2) by (intro safe_add_size_t_ok) linarith
  moreover have "length (unbracketed ?t) = n" using an(2,3) by (metis length_take min.absorb2)
  moreover have "host_without_ipv6_scope_length a n \<le> length a" "n \<noteq> SIZE_MAX"
    "host_without_ipv6_scope_length a n + 2 \<noteq> SIZE_MAX"
    using le an(2) n assms(2) by linarith+
  ultimately show ?thesis
    using z an(2,3) z(1) [THEN conjunct2, symmetric]
    unfolding get_authority_host_info_def Let_def option.case an(1) prod.case
    by (simp add: authority_text_def)
qed

lemma authority_host_length_text:
  "terminated s \<Longrightarrow> length (cstr s) + 2 < SIZE_MAX \<Longrightarrow>
     authority_host_length (Some s) = length (authority_text (cstr s))"
  using host_info [of s] by (auto simp: authority_host_length_def)

lemma format_host_text:
  assumes "terminated s" and "length (cstr s) + 2 < SIZE_MAX" and "n \<le> length b"
  shows "format_host_for_authority (Some s) (Some b) n =
    (if n \<le> length (authority_text (cstr s)) then (Failure, Some b)
     else (Success, Some (authority_text (cstr s) @ NUL # drop (Suc (length (authority_text (cstr s)))) b)))"
proof -
  obtain info where info: "get_authority_host_info (Some s) = (Success, Some info)"
    "formatted_length info = length (authority_text (cstr s))"
    "is_ipv6 info = (CHR '':'' \<in> set (unbracketed (cstr s)))"
    "address_length info \<le> length (address info)"
    "take (address_length info) (address info) =
      (if is_ipv6 info then without_zone (unbracketed (cstr s)) else unbracketed (cstr s))"
    using host_info [OF assms(1,2)] by blast
  let ?t = "authority_text (cstr s)"
  show ?thesis
  proof (cases "n \<le> length ?t")
    case True
    then show ?thesis using info by (simp add: format_host_for_authority_def)
  next
    case False
    then have room: "length ?t + 1 \<le> length b" using assms(3) by simp
    let ?a = "take (address_length info) (address info)"
    have whole: "?t = (if is_ipv6 info then ''['' @ ?a @ '']'' else ?a)"
      using info(3,5) by (simp add: authority_text_def Let_def)
    have "format_host_for_authority (Some s) (Some b) n = (Success, Some (snd (put (?t @ [NUL]) (0, b))))"
      using False info(1,2,4) room whole
      by (cases "is_ipv6 info") (simp_all add: format_host_for_authority_def Let_def put_append)
    then show ?thesis using False room by (simp add: put_whole)
  qed
qed

section \<open>Properties\<close>

text \<open>C22: Formatting writes exactly the announced number of characters: for a readable host,
  \<open>authority_host_length\<close> is the length of the authority text (brackets around an IPv6 literal,
  none added twice, no zone), and \<open>format_host_for_authority\<close> into a block of the stated size
  succeeds exactly when text and terminator fit, and then changes nothing behind them.\<close>

theorem format_host_for_authority_exact:
  assumes "terminated s" and "length (cstr s) + 2 < SIZE_MAX" and "n \<le> length b"
  shows "authority_host_length (Some s) = length (authority_text (cstr s)) \<and>
    format_host_for_authority (Some s) (Some b) n =
      (if n \<le> authority_host_length (Some s) then (Failure, Some b)
       else (Success, Some (authority_text (cstr s) @ NUL # drop (Suc (authority_host_length (Some s))) b)))"
  using assms by (simp add: authority_host_length_text format_host_text)

theorem format_host_for_authority_exact_witness:
  "authority_host_length (Some (''fe80::1%eth0'' @ [NUL])) = 9 \<and>
   format_host_for_authority (Some (''fe80::1%eth0'' @ [NUL])) (Some (replicate 10 NUL)) 10 =
     (Success, Some (''[fe80::1]'' @ [NUL]))"
  using format_host_for_authority_exact [of "''fe80::1%eth0'' @ [NUL]" 10 "replicate 10 NUL"]
  by (simp add: authority_text_def unbracketed_def without_zone_def SIZE_MAX_def)

end
