(* ===== verification/Uws_Client.thy ===== *)
theory Uws_Client
  imports SinglyLinkedList Maps Frame_Encoder
begin

text \<open>
  The WebSocket client of \<open>src/uws_client.c\<close>: its instance structure, the callbacks it makes,
  sending and its completion, and closing. The world is the instance together with its
  environment: the allocator, the random source, the clock and the answers of the underlying
  IO (\<open>xio\<close>), which may call a completion callback before it returns.
\<close>

section \<open>The state\<close>

datatype UWS_STATE =
    UWS_STATE_CLOSED | UWS_STATE_OPENING_UNDERLYING_IO | UWS_STATE_WAITING_FOR_UPGRADE_RESPONSE
  | UWS_STATE_OPEN | UWS_STATE_CLOSING_WAITING_FOR_CLOSE | UWS_STATE_CLOSING_SENDING_CLOSE
  | UWS_STATE_CLOSING_UNDERLYING_IO | UWS_STATE_ERROR

datatype IO_SEND_RESULT = IO_SEND_OK | IO_SEND_ERROR | IO_SEND_CANCELLED

datatype IO_OPEN_RESULT = IO_OPEN_OK | IO_OPEN_ERROR | IO_OPEN_CANCELLED

datatype WS_SEND_FRAME_RESULT = WS_SEND_FRAME_OK | WS_SEND_FRAME_ERROR | WS_SEND_FRAME_CANCELLED

datatype WS_OPEN_RESULT =
    WS_OPEN_OK | WS_OPEN_ERROR_UNDERLYING_IO_OPEN_FAILED | WS_OPEN_ERROR_UNDERLYING_IO_OPEN_CANCELLED
  | WS_OPEN_ERROR_NOT_ENOUGH_MEMORY | WS_OPEN_ERROR_CANNOT_CONSTRUCT_UPGRADE_REQUEST
  | WS_OPEN_ERROR_CANNOT_SEND_UPGRADE_REQUEST | WS_OPEN_ERROR_MULTIPLE_UNDERLYING_IO_OPEN_EVENTS
  | WS_OPEN_ERROR_CONSTRUCTING_UPGRADE_REQUEST | WS_OPEN_ERROR_INVALID_BYTES_RECEIVED_ARGUMENTS
  | WS_OPEN_ERROR_BYTES_RECEIVED_BEFORE_UNDERLYING_OPEN | WS_OPEN_CANCELLED
  | WS_OPEN_ERROR_UNDERLYING_IO_ERROR | WS_OPEN_ERROR_BAD_UPGRADE_RESPONSE
  | WS_OPEN_ERROR_BASE64_ENCODE_FAILED | WS_OPEN_ERROR_BAD_RESPONSE_STATUS

datatype WS_ERROR =
    WS_ERROR_NOT_ENOUGH_MEMORY | WS_ERROR_BAD_FRAME_RECEIVED
  | WS_ERROR_CANNOT_REMOVE_SENT_ITEM_FROM_LIST | WS_ERROR_UNDERLYING_IO_ERROR
  | WS_ERROR_CANNOT_CLOSE_UNDERLYING_IO

text \<open>
  A detail code is a number, or the value of \<open>__FAILURE__\<close> (a source line). The buffer is the
  response the server sent, when there is one.
\<close>

datatype detail_code = Code int | Failure_Line

record WS_OPEN_RESULT_DETAILED =
  ws_open_result :: WS_OPEN_RESULT
  ws_open_code :: detail_code
  ws_open_buffer :: "byte list option"

definition open_detail :: "WS_OPEN_RESULT \<Rightarrow> detail_code \<Rightarrow> WS_OPEN_RESULT_DETAILED" where
  "open_detail r c = \<lparr>ws_open_result = r, ws_open_code = c, ws_open_buffer = None\<rparr>"

text \<open>A callback with its context is a number that names the pair, \<open>None\<close> the null pointer.\<close>

type_synonym callback = "nat option"

record WS_PENDING_SEND =
  on_ws_send_frame_complete :: callback

text \<open>
  The instance. A block that is a C string is the list of its characters, terminator
  included; the stream and fragment buffers are null or a block of bytes whose first
  \<open>count\<close> bytes are in use; the pending sends are the pairs of list handle and item.
\<close>

record UWS_CLIENT_INSTANCE =
  pending_sends :: "(nat \<times> WS_PENDING_SEND) list"
  underlying_io :: bool
  hostname :: "char list"
  resource_name :: "char list"
  protocols :: "char list list option"
  protocol_count :: nat
  port :: "32 word"
  request_headers :: MAP_HANDLE_DATA
  uws_state :: UWS_STATE
  on_ws_open_complete :: callback
  on_ws_frame_received :: callback
  on_ws_peer_closed :: callback
  on_ws_error :: callback
  on_ws_close_complete :: callback
  stream_buffer :: "byte list option"
  stream_buffer_count :: nat
  fragment_buffer :: "byte list option"
  fragment_buffer_count :: nat
  fragmented_frame_type :: byte
  open_start_time :: int
  last_open_wait_log_time :: int

definition WS_FRAME_TYPE_UNKNOWN :: byte where "WS_FRAME_TYPE_UNKNOWN = 0"
definition WS_FRAME_TYPE_TEXT :: byte where "WS_FRAME_TYPE_TEXT = 1"
definition WS_FRAME_TYPE_BINARY :: byte where "WS_FRAME_TYPE_BINARY = 2"

lemmas frame_type_defs = WS_FRAME_TYPE_UNKNOWN_def WS_FRAME_TYPE_TEXT_def WS_FRAME_TYPE_BINARY_def

text \<open>
  What an observer sees: the calls of the user's callbacks and the calls of the underlying
  IO. \<open>NullCall\<close> is the call of a null function pointer, \<open>Dangling\<close> the use of a list node
  that has been freed; neither has a meaning in C, and the invariants exclude both.
\<close>

datatype ws_event =
    OpenComplete nat WS_OPEN_RESULT_DETAILED
  | FrameReceived nat byte "byte list"
  | PeerClosed nat "16 word option" "byte list option"
  | WsError nat WS_ERROR
  | CloseComplete nat
  | SendFrameComplete nat WS_SEND_FRAME_RESULT
  | IoOpen
  | IoClose
  | IoSend "byte list"
  | IoDowork
  | IoDestroy
  | NullCall
  | Dangling

text \<open>
  The environment. The answer of a call of the underlying IO is its return value and what it
  calls back before returning: the result of a completed send, the end of a close, the
  result of an open.
\<close>

record uws_world = UWS_CLIENT_INSTANCE +
  env_heap :: heap
  env_rng :: rng
  env_time :: "nat \<Rightarrow> int"
  env_time_reads :: nat
  env_errno :: int
  xio_open_answer :: "nat \<Rightarrow> rc \<times> (IO_OPEN_RESULT \<times> int) option"
  xio_close_answer :: "nat \<Rightarrow> rc \<times> bool"
  xio_send_answer :: "nat \<Rightarrow> rc \<times> IO_SEND_RESULT option"
  xio_calls :: nat
  events :: "ws_event list"

text \<open>The argument of a public function: the null handle or the client.\<close>

datatype handle = NULL_HANDLE | CLIENT

definition emit :: "ws_event \<Rightarrow> uws_world \<Rightarrow> uws_world" where
  "emit e w = w\<lparr>events := events w @ [e]\<rparr>"

definition invoke :: "callback \<Rightarrow> (nat \<Rightarrow> ws_event) \<Rightarrow> uws_world \<Rightarrow> uws_world" where
  "invoke cb ev w = emit (case cb of None \<Rightarrow> NullCall | Some n \<Rightarrow> ev n) w"

section \<open>Errors and completion of an open\<close>

definition indicate_ws_open_complete_error :: "WS_OPEN_RESULT_DETAILED \<Rightarrow> uws_world \<Rightarrow> uws_world" where
  "indicate_ws_open_complete_error r w =
     (let w1 = w\<lparr>uws_state := UWS_STATE_CLOSED\<rparr> in
      invoke (on_ws_open_complete w1) (\<lambda>n. OpenComplete n r) w1)"

text \<open>\<open>xio_close\<close> with a null callback.\<close>

definition xio_close_quietly :: "uws_world \<Rightarrow> uws_world" where
  "xio_close_quietly w = emit IoClose (w\<lparr>xio_calls := Suc (xio_calls w)\<rparr>)"

definition indicate_ws_open_complete_error_and_close :: "WS_OPEN_RESULT_DETAILED \<Rightarrow> uws_world \<Rightarrow> uws_world" where
  "indicate_ws_open_complete_error_and_close r w = indicate_ws_open_complete_error r (xio_close_quietly w)"

definition indicate_ws_error :: "WS_ERROR \<Rightarrow> uws_world \<Rightarrow> uws_world" where
  "indicate_ws_error e w =
     (let w1 = w\<lparr>uws_state := UWS_STATE_ERROR\<rparr> in invoke (on_ws_error w1) (\<lambda>n. WsError n e) w1)"

section \<open>Pending sends\<close>

definition complete_send_frame ::
  "WS_PENDING_SEND \<Rightarrow> nat \<Rightarrow> WS_SEND_FRAME_RESULT \<Rightarrow> uws_world \<Rightarrow> rc \<times> uws_world" where
  "complete_send_frame ws_pending_send item result w =
     (case pairs_remove (pending_sends w) item (env_heap w) of
        (Failure, ps, h) \<Rightarrow> (Failure, w\<lparr>pending_sends := ps, env_heap := h\<rparr>)
      | (Success, ps, h) \<Rightarrow>
          (let w1 = w\<lparr>pending_sends := ps, env_heap := h\<rparr>;
               w2 = (case on_ws_send_frame_complete ws_pending_send of
                       None \<Rightarrow> w1
                     | Some n \<Rightarrow> emit (SendFrameComplete n result) w1) in
           (Success, w2\<lparr>env_heap := free_struct (env_heap w2)\<rparr>)))"

lemma complete_send_frame_pending:
  "pending_sends (snd (complete_send_frame p a r w)) = filter (\<lambda>q. fst q \<noteq> a) (pending_sends w)"
proof -
  have "a \<notin> fst ` set xs \<Longrightarrow> filter (\<lambda>q. fst q \<noteq> a) xs = xs" for xs :: "(nat \<times> WS_PENDING_SEND) list"
    by (auto simp: filter_id_conv)
  then show ?thesis
    by (auto simp: complete_send_frame_def pairs_remove_def emit_def Let_def
        split: option.splits)
qed

function clear_pending_sends :: "uws_world \<Rightarrow> uws_world" where
  "clear_pending_sends w =
     (case pending_sends w of
        [] \<Rightarrow> w
      | (item, ws_pending_send) # _ \<Rightarrow>
          clear_pending_sends (snd (complete_send_frame ws_pending_send item WS_SEND_FRAME_CANCELLED w)))"
  by pat_completeness auto

termination
  by (relation "measure (\<lambda>w. length (pending_sends w))")
    (auto simp: complete_send_frame_pending le_imp_less_Suc)

declare clear_pending_sends.simps [simp del]

section \<open>Closing\<close>

definition indicate_ws_close_complete :: "uws_world \<Rightarrow> uws_world" where
  "indicate_ws_close_complete w =
     (let w1 = clear_pending_sends (w\<lparr>uws_state := UWS_STATE_CLOSED\<rparr>) in
      case on_ws_close_complete w1 of
        None \<Rightarrow> w1
      | Some n \<Rightarrow> emit (CloseComplete n) w1)"

definition on_underlying_io_close_complete :: "handle \<Rightarrow> uws_world \<Rightarrow> uws_world" where
  "on_underlying_io_close_complete context w =
     (case context of
        NULL_HANDLE \<Rightarrow> w
      | CLIENT \<Rightarrow>
          (if uws_state w = UWS_STATE_CLOSING_UNDERLYING_IO
           then (indicate_ws_close_complete w)\<lparr>uws_state := UWS_STATE_CLOSED\<rparr> else w))"

text \<open>\<open>xio_close\<close> with \<open>on_underlying_io_close_complete\<close>, which it may call at once.\<close>

definition xio_close :: "uws_world \<Rightarrow> rc \<times> uws_world" where
  "xio_close w =
     (let (result, now) = xio_close_answer w (xio_calls w);
          w1 = emit IoClose (w\<lparr>xio_calls := Suc (xio_calls w)\<rparr>) in
      (result, if now then on_underlying_io_close_complete CLIENT w1 else w1))"

text \<open>\<open>xio_send\<close> with \<open>unchecked_on_send_complete\<close>, which does nothing.\<close>

definition xio_send_unchecked :: "byte list \<Rightarrow> uws_world \<Rightarrow> rc \<times> uws_world" where
  "xio_send_unchecked bytes w =
     (fst (xio_send_answer w (xio_calls w)), emit (IoSend bytes) (w\<lparr>xio_calls := Suc (xio_calls w)\<rparr>))"

definition send_close_frame :: "32 word \<Rightarrow> uws_world \<Rightarrow> rc \<times> uws_world" where
  "send_close_frame close_error_code w =
     (let payload = [ucast (drop_bit 8 close_error_code), ucast (close_error_code AND 0xFF)];
          (frame, h, g) = uws_frame_encoder_encode (ws_opcode WS_CLOSE_FRAME) (Some payload) 2 True True 0
                            (env_heap w) (env_rng w);
          w1 = w\<lparr>env_heap := h, env_rng := g\<rparr> in
      case frame of
        None \<Rightarrow> (Failure, w1)
      | Some b \<Rightarrow>
          (let (result, w2) = xio_send_unchecked (buf_bytes b) w1 in
           (result, w2\<lparr>env_heap := BUFFER_delete frame (env_heap w2)\<rparr>)))"

definition indicate_ws_error_and_close :: "WS_ERROR \<Rightarrow> 32 word \<Rightarrow> uws_world \<Rightarrow> uws_world" where
  "indicate_ws_error_and_close e close_error_code w =
     (let w1 = snd (send_close_frame close_error_code (w\<lparr>uws_state := UWS_STATE_ERROR\<rparr>)) in
      invoke (on_ws_error w1) (\<lambda>n. WsError n e) w1)"

definition on_underlying_io_close_sent :: "handle \<Rightarrow> IO_SEND_RESULT \<Rightarrow> uws_world \<Rightarrow> uws_world" where
  "on_underlying_io_close_sent context io_send_result w =
     (case context of
        NULL_HANDLE \<Rightarrow> w
      | CLIENT \<Rightarrow>
          (if io_send_result \<in> {IO_SEND_OK, IO_SEND_CANCELLED} \<and> uws_state w = UWS_STATE_CLOSING_SENDING_CLOSE
           then
             (case xio_close (w\<lparr>uws_state := UWS_STATE_CLOSING_UNDERLYING_IO\<rparr>) of
                (Success, w1) \<Rightarrow> w1
              | (Failure, w1) \<Rightarrow> indicate_ws_close_complete w1)
           else w))"

definition uws_client_close_async :: "handle \<Rightarrow> callback \<Rightarrow> uws_world \<Rightarrow> rc \<times> uws_world" where
  "uws_client_close_async uws_client close_complete w =
     (case uws_client of
        NULL_HANDLE \<Rightarrow> (Failure, w)
      | CLIENT \<Rightarrow>
          (if uws_state w = UWS_STATE_CLOSED then (Failure, w)
           else
             (case xio_close (w\<lparr>on_ws_close_complete := close_complete,
                                uws_state := UWS_STATE_CLOSING_UNDERLYING_IO\<rparr>) of
                (Success, w1) \<Rightarrow> (Success, w1)
              | (Failure, w1) \<Rightarrow> (Failure, indicate_ws_error WS_ERROR_CANNOT_CLOSE_UNDERLYING_IO w1))))"

definition uws_client_close_handshake_async :: "handle \<Rightarrow> 16 word \<Rightarrow> callback \<Rightarrow> uws_world \<Rightarrow> rc \<times> uws_world" where
  "uws_client_close_handshake_async uws_client close_code close_complete w =
     (case uws_client of
        NULL_HANDLE \<Rightarrow> (Failure, w)
      | CLIENT \<Rightarrow>
          (if uws_state w \<in> {UWS_STATE_CLOSED, UWS_STATE_CLOSING_WAITING_FOR_CLOSE,
                              UWS_STATE_CLOSING_SENDING_CLOSE, UWS_STATE_CLOSING_UNDERLYING_IO}
           then (Failure, w)
           else send_close_frame (ucast close_code)
             (w\<lparr>on_ws_close_complete := close_complete, uws_state := UWS_STATE_CLOSING_WAITING_FOR_CLOSE\<rparr>)))"

definition on_underlying_io_error :: "handle \<Rightarrow> uws_world \<Rightarrow> uws_world" where
  "on_underlying_io_error context w =
     (case context of
        NULL_HANDLE \<Rightarrow> w
      | CLIENT \<Rightarrow>
          (case uws_state w of
             UWS_STATE_CLOSING_WAITING_FOR_CLOSE \<Rightarrow> indicate_ws_close_complete (xio_close_quietly w)
           | UWS_STATE_CLOSING_SENDING_CLOSE \<Rightarrow> indicate_ws_close_complete (xio_close_quietly w)
           | UWS_STATE_CLOSING_UNDERLYING_IO \<Rightarrow> indicate_ws_close_complete (xio_close_quietly w)
           | UWS_STATE_OPENING_UNDERLYING_IO \<Rightarrow>
               indicate_ws_open_complete_error_and_close (open_detail WS_OPEN_ERROR_UNDERLYING_IO_ERROR (Code 0)) w
           | UWS_STATE_WAITING_FOR_UPGRADE_RESPONSE \<Rightarrow>
               indicate_ws_open_complete_error_and_close (open_detail WS_OPEN_ERROR_UNDERLYING_IO_ERROR (Code 0)) w
           | UWS_STATE_OPEN \<Rightarrow> indicate_ws_error WS_ERROR_UNDERLYING_IO_ERROR w
           | _ \<Rightarrow> w))"

section \<open>Sending\<close>

text \<open>The context of a send is the list item; an item that is no longer in the list is a freed node.\<close>

definition on_underlying_io_send_complete :: "nat option \<Rightarrow> IO_SEND_RESULT \<Rightarrow> uws_world \<Rightarrow> uws_world" where
  "on_underlying_io_send_complete context send_result w =
     (case context of
        None \<Rightarrow> w
      | Some item \<Rightarrow>
          (case map_of (pending_sends w) item of
             None \<Rightarrow> emit Dangling w
           | Some ws_pending_send \<Rightarrow>
               (let r = (case send_result of
                           IO_SEND_OK \<Rightarrow> WS_SEND_FRAME_OK
                         | IO_SEND_CANCELLED \<Rightarrow> WS_SEND_FRAME_CANCELLED
                         | IO_SEND_ERROR \<Rightarrow> WS_SEND_FRAME_ERROR) in
                case complete_send_frame ws_pending_send item r w of
                  (Success, w1) \<Rightarrow> w1
                | (Failure, w1) \<Rightarrow> indicate_ws_error WS_ERROR_CANNOT_REMOVE_SENT_ITEM_FROM_LIST w1)))"

text \<open>\<open>xio_send\<close> with \<open>on_underlying_io_send_complete\<close> and a list item.\<close>

definition xio_send_frame :: "byte list \<Rightarrow> nat \<Rightarrow> uws_world \<Rightarrow> rc \<times> uws_world" where
  "xio_send_frame bytes item w =
     (let (result, now) = xio_send_answer w (xio_calls w);
          w1 = emit (IoSend bytes) (w\<lparr>xio_calls := Suc (xio_calls w)\<rparr>) in
      (result, case now of None \<Rightarrow> w1 | Some r \<Rightarrow> on_underlying_io_send_complete (Some item) r w1))"

definition find_list_node :: "nat \<Rightarrow> nat \<Rightarrow> bool" where
  "find_list_node match_context list_item \<longleftrightarrow> list_item = match_context"

definition uws_client_send_frame_async ::
  "handle \<Rightarrow> byte \<Rightarrow> byte list option \<Rightarrow> nat \<Rightarrow> bool \<Rightarrow> callback \<Rightarrow> uws_world \<Rightarrow> rc \<times> uws_world" where
  "uws_client_send_frame_async uws_client frame_type buffer sz is_final send_complete w =
     (if uws_client = NULL_HANDLE then (Failure, w)
      else if buffer = None \<and> sz > 0 then (Failure, w)
      else if uws_state w \<noteq> UWS_STATE_OPEN then (Failure, w)
      else
        (case malloc_struct (env_heap w) of
           (False, h) \<Rightarrow> (Failure, w\<lparr>env_heap := h\<rparr>)
         | (True, h) \<Rightarrow>
             (let (frame, h1, g1) = uws_frame_encoder_encode (ucast frame_type) buffer sz True is_final 0 h (env_rng w) in
              case frame of
                None \<Rightarrow> (Failure, w\<lparr>env_heap := free_struct h1, env_rng := g1\<rparr>)
              | Some b \<Rightarrow>
                  (let ws_pending_send = \<lparr>on_ws_send_frame_complete = send_complete\<rparr>;
                       (item, ps, h2) = pairs_add (pending_sends w) ws_pending_send h1;
                       (result, w3) =
                         (case item of
                            None \<Rightarrow> (Failure, w\<lparr>pending_sends := ps, env_heap := free_struct h2, env_rng := g1\<rparr>)
                          | Some a \<Rightarrow>
                              (case xio_send_frame (buf_bytes b) a
                                      (w\<lparr>pending_sends := ps, env_heap := h2, env_rng := g1\<rparr>) of
                                 (Success, w2) \<Rightarrow> (Success, w2)
                               | (Failure, w2) \<Rightarrow>
                                   (if pairs_find (pending_sends w2) (\<lambda>n _. find_list_node a n) \<noteq> None then
                                      (let (_, ps3, h3) = pairs_remove (pending_sends w2) a (env_heap w2) in
                                       (Failure, w2\<lparr>pending_sends := ps3, env_heap := free_struct h3\<rparr>))
                                    else (Failure, w2)))) in
                   (result, w3\<lparr>env_heap := BUFFER_delete frame (env_heap w3)\<rparr>)))))"

text \<open>\<open>xio_dowork\<close> delivers the callbacks that are due; they are steps of their own.\<close>

definition uws_client_dowork :: "handle \<Rightarrow> uws_world \<Rightarrow> uws_world" where
  "uws_client_dowork uws_client w =
     (case uws_client of
        NULL_HANDLE \<Rightarrow> w
      | CLIENT \<Rightarrow>
          (if uws_state w = UWS_STATE_CLOSED then w
           else
             (let w1 =
                (if uws_state w \<in> {UWS_STATE_OPENING_UNDERLYING_IO, UWS_STATE_WAITING_FOR_UPGRADE_RESPONSE} then
                   (let now = env_time w (env_time_reads w);
                        start = open_start_time w;
                        w1 = w\<lparr>env_time_reads := Suc (env_time_reads w)\<rparr> in
                    if start \<noteq> 0 \<and> start \<noteq> -1 \<and> now \<noteq> -1 \<and> now \<ge> start \<and> now - start \<ge> 1 \<and>
                       (last_open_wait_log_time w = 0 \<or> now - last_open_wait_log_time w \<ge> 1)
                    then w1\<lparr>last_open_wait_log_time := now\<rparr> else w1)
                 else w) in
              emit IoDowork w1)))"

section \<open>What the operations leave alone\<close>

text \<open>
  Closing, sending and reporting touch the state, the pending sends, the environment and the
  events; they keep the stream, the fragments, the configuration and the four callbacks given
  at opening. The events only grow.
\<close>

definition keeps :: "uws_world \<Rightarrow> uws_world \<Rightarrow> bool" where
  "keeps w w' \<longleftrightarrow>
     underlying_io w' = underlying_io w \<and> hostname w' = hostname w \<and> resource_name w' = resource_name w \<and>
     protocols w' = protocols w \<and> protocol_count w' = protocol_count w \<and> port w' = port w \<and>
     request_headers w' = request_headers w \<and> on_ws_open_complete w' = on_ws_open_complete w \<and>
     on_ws_frame_received w' = on_ws_frame_received w \<and> on_ws_peer_closed w' = on_ws_peer_closed w \<and>
     on_ws_error w' = on_ws_error w \<and> stream_buffer w' = stream_buffer w \<and>
     stream_buffer_count w' = stream_buffer_count w \<and> fragment_buffer w' = fragment_buffer w \<and>
     fragment_buffer_count w' = fragment_buffer_count w \<and> fragmented_frame_type w' = fragmented_frame_type w \<and>
     open_start_time w' = open_start_time w \<and> env_errno w' = env_errno w"

named_theorems keeping

lemma keeps_refl [simp]: "keeps w w"
  by (simp add: keeps_def)

lemma keeps_trans: "keeps w w1 \<Longrightarrow> keeps w1 w2 \<Longrightarrow> keeps w w2"
  by (simp add: keeps_def)

lemma keeps_update [keeping]:
  "keeps w w1 \<Longrightarrow> keeps w (w1\<lparr>uws_state := s\<rparr>)"
  "keeps w w1 \<Longrightarrow> keeps w (w1\<lparr>pending_sends := ps\<rparr>)"
  "keeps w w1 \<Longrightarrow> keeps w (w1\<lparr>on_ws_close_complete := cb\<rparr>)"
  "keeps w w1 \<Longrightarrow> keeps w (w1\<lparr>last_open_wait_log_time := t\<rparr>)"
  "keeps w w1 \<Longrightarrow> keeps w (w1\<lparr>env_heap := h\<rparr>)"
  "keeps w w1 \<Longrightarrow> keeps w (w1\<lparr>env_rng := g\<rparr>)"
  "keeps w w1 \<Longrightarrow> keeps w (w1\<lparr>env_time_reads := n\<rparr>)"
  "keeps w w1 \<Longrightarrow> keeps w (w1\<lparr>xio_calls := n\<rparr>)"
  "keeps w w1 \<Longrightarrow> keeps w (w1\<lparr>events := es\<rparr>)"
  by (simp_all add: keeps_def)

lemma keeps_emit [keeping]: "keeps w w1 \<Longrightarrow> keeps w (emit e w1)"
  by (simp add: emit_def keeping)

lemma keeps_invoke [keeping]: "keeps w w1 \<Longrightarrow> keeps w (invoke cb ev w1)"
  by (simp add: invoke_def keeping)

lemma keeps_reports [keeping]:
  "keeps w w1 \<Longrightarrow> keeps w (indicate_ws_open_complete_error r w1)"
  "keeps w w1 \<Longrightarrow> keeps w (xio_close_quietly w1)"
  "keeps w w1 \<Longrightarrow> keeps w (indicate_ws_error e w1)"
  by (simp_all add: indicate_ws_open_complete_error_def xio_close_quietly_def indicate_ws_error_def Let_def keeping)

lemma keeps_open_error [keeping]:
  "keeps w w1 \<Longrightarrow> keeps w (indicate_ws_open_complete_error_and_close r w1)"
  by (simp add: indicate_ws_open_complete_error_and_close_def keeping)

lemma keeps_complete_send_frame [keeping]:
  "keeps w w1 \<Longrightarrow> keeps w (snd (complete_send_frame p a r w1))"
  by (auto simp: complete_send_frame_def Let_def keeping split: prod.splits rc.splits option.splits)

lemma keeps_clear_pending_sends [keeping]: "keeps w w1 \<Longrightarrow> keeps w (clear_pending_sends w1)"
proof (induction w1 rule: clear_pending_sends.induct)
  case (1 w1)
  then show ?case
    by (subst clear_pending_sends.simps) (auto simp: keeping split: list.splits)
qed

lemma keeps_close_complete [keeping]:
  "keeps w w1 \<Longrightarrow> keeps w (indicate_ws_close_complete w1)"
  by (auto simp: indicate_ws_close_complete_def Let_def keeping split: option.splits)

lemma keeps_on_close_complete [keeping]:
  "keeps w w1 \<Longrightarrow> keeps w (on_underlying_io_close_complete c w1)"
  by (auto simp: on_underlying_io_close_complete_def keeping split: handle.splits)

lemma keeps_xio_close [keeping]: "keeps w w1 \<Longrightarrow> keeps w (snd (xio_close w1))"
  by (auto simp: xio_close_def Let_def keeping split: prod.splits)

lemma keeps_xio_send_unchecked [keeping]: "keeps w w1 \<Longrightarrow> keeps w (snd (xio_send_unchecked bs w1))"
  by (simp add: xio_send_unchecked_def keeping)

lemma keeps_send_close_frame [keeping]: "keeps w w1 \<Longrightarrow> keeps w (snd (send_close_frame c w1))"
  using keeps_xio_send_unchecked
  by (auto simp: send_close_frame_def Let_def keeping split: prod.splits option.splits) (metis keeping snd_conv)

lemma keeps_error_and_close [keeping]: "keeps w w1 \<Longrightarrow> keeps w (indicate_ws_error_and_close e c w1)"
  by (simp add: indicate_ws_error_and_close_def Let_def keeping)

end
