(* ===== verification/Uws_Upgrade.thy ===== *)
theory Uws_Upgrade
  imports Uws_Client Host_Utils Base64
begin

text \<open>
  Opening in \<open>src/uws_client.c\<close>: the request headers, the upgrade request that is built in a
  block of the computed size, and \<open>uws_client_open_async\<close>. The lemmas relate the copying to a
  text of the request; the property at the end says that what is sent is that text.
\<close>

section \<open>The request headers\<close>

definition CRLF :: "char list" where
  "CRLF = [CHR 0x0D, CHR 0x0A]"

text \<open>A pointer that is followed: the array element as a block.\<close>

abbreviation deref :: "cptr \<Rightarrow> char list" where
  "deref p \<equiv> the p"

fun headers_length_loop :: "(cptr \<times> cptr) list \<Rightarrow> nat \<Rightarrow> nat" where
  "headers_length_loop [] n = n"
| "headers_length_loop ((k, v) # kvs) n = headers_length_loop kvs (n + (strlen (deref k) + strlen (deref v) + 4))"

fun headers_fill_loop :: "(cptr \<times> cptr) list \<Rightarrow> nat \<times> char list \<Rightarrow> nat \<times> char list" where
  "headers_fill_loop [] st = st"
| "headers_fill_loop ((k, v) # kvs) st =
     (let st = put (take (strlen (deref k)) (deref k)) st;
          st = put '': '' st;
          st = put (take (strlen (deref v)) (deref v)) st;
          st = put CRLF st in
      headers_fill_loop kvs st)"

definition get_request_headers :: "MAP_HANDLE_DATA option \<Rightarrow> heap \<Rightarrow> char list option \<times> heap" where
  "get_request_headers headers h =
     (case Map_GetInternals headers of
        (MAP_OK, Some (keys, values, count)) \<Rightarrow>
          (let entries = zip (array_ptrs keys count) (array_ptrs values count);
               len = headers_length_loop entries 0 in
           case malloc_block char_of_byte (len + 1) h of
             (None, h1) \<Rightarrow> (None, h1)
           | (Some result, h1) \<Rightarrow>
               (let (position, b) = headers_fill_loop entries (0, result) in (Some (b[position := NUL]), h1)))
      | _ \<Rightarrow> (None, h))"

section \<open>The pieces of the request\<close>

definition upgrade_request_method :: "char list" where
  "upgrade_request_method = ''GET ''"

definition upgrade_request_host :: "char list" where
  "upgrade_request_host = '' HTTP/1.1'' @ CRLF @ ''Host: ''"

definition upgrade_request_after_port :: "char list" where
  "upgrade_request_after_port =
     CRLF @ ''Upgrade: websocket'' @ CRLF @ ''Connection: Upgrade'' @ CRLF @ ''Sec-WebSocket-Key: ''"

definition upgrade_request_after_nonce :: "char list" where
  "upgrade_request_after_nonce = CRLF @ ''Sec-WebSocket-Version: 13'' @ CRLF"

definition web_socket_protocol_prefix :: "char list" where
  "web_socket_protocol_prefix = ''Sec-WebSocket-Protocol: ''"

definition web_socket_protocol_separator :: "char list" where
  "web_socket_protocol_separator = '', ''"

text \<open>The decimal digits of the port: the counting loop, and what \<open>snprintf\<close> with \<open>%d\<close> writes.\<close>

definition c_div10 :: "int \<Rightarrow> int" where
  "c_div10 v = (if v < 0 then - (- v div 10) else v div 10)"

function port_length_loop :: "int \<Rightarrow> nat \<Rightarrow> nat" where
  "port_length_loop port_value port_length =
     (let v = c_div10 port_value in
      if v \<noteq> 0 then port_length_loop v (Suc port_length) else Suc port_length)"
  by pat_completeness auto

termination
  by (relation "measure (\<lambda>(v, n). nat \<bar>v\<bar>)") (auto simp: c_div10_def split: if_splits)

declare port_length_loop.simps [simp del]

definition printf_d :: "int \<Rightarrow> char list" where
  "printf_d v = (if v < 0 then ''-'' @ decimal_text (nat (- v)) else decimal_text (nat v))"

definition snprintf_d :: "nat \<Rightarrow> nat \<Rightarrow> int \<Rightarrow> char list \<Rightarrow> int \<times> char list" where
  "snprintf_d position n v b =
     (int (length (printf_d v)), snd (put (take (n - 1) (printf_d v) @ [NUL]) (position, b)))"

text \<open>The protocols, each after the prefix or a separator.\<close>

definition protocol_lead :: "nat \<Rightarrow> char list" where
  "protocol_lead i = (if i = 0 then web_socket_protocol_prefix else web_socket_protocol_separator)"

fun protocols_length_loop :: "nat \<Rightarrow> char list list \<Rightarrow> nat \<Rightarrow> nat" where
  "protocols_length_loop i [] n = n"
| "protocols_length_loop i (p # ps) n =
     protocols_length_loop (Suc i) ps
       (safe_add_size_t (safe_add_size_t n (length (protocol_lead i))) (strlen p))"

fun protocols_fill_loop :: "nat \<Rightarrow> char list list \<Rightarrow> nat \<times> char list \<Rightarrow> nat \<times> char list" where
  "protocols_fill_loop i [] st = st"
| "protocols_fill_loop i (p # ps) st =
     protocols_fill_loop (Suc i) ps (put (take (strlen p) p) (put (protocol_lead i) st))"

definition has_protocol :: "uws_world \<Rightarrow> bool" where
  "has_protocol w \<longleftrightarrow> protocols w \<noteq> None \<and> protocol_count w > 0"

abbreviation protocol_list :: "uws_world \<Rightarrow> char list list" where
  "protocol_list w \<equiv> take (protocol_count w) (the (protocols w))"

definition upgrade_request_length :: "uws_world \<Rightarrow> nat \<Rightarrow> nat \<Rightarrow> char list \<Rightarrow> char list \<Rightarrow> nat" where
  "upgrade_request_length w authority_length port_length nonce headers =
     (let n = safe_add_size_t 0 (length upgrade_request_method);
          n = safe_add_size_t n (strlen (resource_name w));
          n = safe_add_size_t n (length upgrade_request_host);
          n = safe_add_size_t n authority_length;
          n = safe_add_size_t n 1;
          n = safe_add_size_t n port_length;
          n = safe_add_size_t n (length upgrade_request_after_port);
          n = safe_add_size_t n (strlen nonce);
          n = safe_add_size_t n (length upgrade_request_after_nonce);
          n = safe_add_size_t n (strlen headers);
          n = (if has_protocol w
               then safe_add_size_t (protocols_length_loop 0 (protocol_list w) n) (length CRLF) else n) in
      safe_add_size_t n (length CRLF))"

text \<open>
  The copies into the block. \<open>format_host_for_authority\<close> gets the rest of the block as its
  output; its failure and that of \<open>snprintf\<close> are the \<open>None\<close> of the result.
\<close>

definition upgrade_request_fill ::
  "uws_world \<Rightarrow> nat \<Rightarrow> nat \<Rightarrow> char list \<Rightarrow> char list \<Rightarrow> char list \<Rightarrow> char list option" where
  "upgrade_request_fill w authority_length port_length nonce headers block =
     (let st = put upgrade_request_method (0, block);
          st = put (take (strlen (resource_name w)) (resource_name w)) st;
          (pos, b) = put upgrade_request_host st in
      case format_host_for_authority (Some (hostname w)) (Some (drop pos b)) (authority_length + 1) of
        (Success, Some out) \<Rightarrow>
          (let (pos, b) = put '':'' (pos + authority_length, take pos b @ out);
               (formatted, b) = snprintf_d pos (port_length + 1) (sint (port w)) b in
           if formatted < 0 \<or> nat formatted \<noteq> port_length then None
           else
             (let st = put upgrade_request_after_port (pos + port_length, b);
                  st = put (take (strlen nonce) nonce) st;
                  st = put upgrade_request_after_nonce st;
                  st = put (take (strlen headers) headers) st;
                  st = (if has_protocol w
                        then put CRLF (protocols_fill_loop 0 (protocol_list w) st) else st);
                  (pos, b) = put CRLF st in
              Some (b[pos := NUL])))
      | _ \<Rightarrow> None)"

fun rand_bytes :: "nat \<Rightarrow> rng \<Rightarrow> byte list \<times> rng" where
  "rand_bytes 0 g = ([], g)"
| "rand_bytes (Suc n) g = (let (b, g1) = rand_byte g; (bs, g2) = rand_bytes n g1 in (b # bs, g2))"

section \<open>The underlying IO is open\<close>

abbreviation free_block :: "'a option \<Rightarrow> uws_world \<Rightarrow> uws_world" where
  "free_block p w \<equiv> w\<lparr>env_heap := c_free p (env_heap w)\<rparr>"

abbreviation open_failed :: "WS_OPEN_RESULT \<Rightarrow> uws_world \<Rightarrow> uws_world" where
  "open_failed r w \<equiv> indicate_ws_open_complete_error_and_close (open_detail r (Code 0)) w"

definition issue_upgrade_request :: "char list \<Rightarrow> char list \<Rightarrow> uws_world \<Rightarrow> uws_world" where
  "issue_upgrade_request nonce headers w =
     (let authority_length = authority_host_length (Some (hostname w));
          port_length = port_length_loop (sint (port w)) (if sint (port w) < 0 then 1 else 0);
          len = upgrade_request_length w authority_length port_length nonce headers;
          sz = safe_add_size_t len 1 in
      if sz = SIZE_MAX then open_failed WS_OPEN_ERROR_CONSTRUCTING_UPGRADE_REQUEST w
      else
        (case malloc_block char_of_byte sz (env_heap w) of
           (None, h) \<Rightarrow> open_failed WS_OPEN_ERROR_NOT_ENOUGH_MEMORY (w\<lparr>env_heap := h\<rparr>)
         | (Some block, h) \<Rightarrow>
             (let w1 = w\<lparr>env_heap := h\<rparr>;
                  w2 =
                    (case upgrade_request_fill w1 authority_length port_length nonce headers block of
                       None \<Rightarrow> open_failed WS_OPEN_ERROR_CONSTRUCTING_UPGRADE_REQUEST w1
                     | Some request \<Rightarrow>
                         (case xio_send_unchecked (map byte_of_char (take len request)) w1 of
                            (Failure, w2) \<Rightarrow> open_failed WS_OPEN_ERROR_CANNOT_SEND_UPGRADE_REQUEST w2
                          | (Success, w2) \<Rightarrow> w2\<lparr>uws_state := UWS_STATE_WAITING_FOR_UPGRADE_RESPONSE\<rparr>)) in
              free_block (Some block) w2)))"

definition send_upgrade_request :: "STRING \<Rightarrow> char list \<Rightarrow> uws_world \<Rightarrow> uws_world" where
  "send_upgrade_request base64_nonce headers w =
     (let w3 = issue_upgrade_request (str_s base64_nonce) headers w in
      free_block (Some headers) (w3\<lparr>env_heap := STRING_delete (Some base64_nonce) (env_heap w3)\<rparr>))"

definition on_underlying_io_open_complete :: "handle \<Rightarrow> IO_OPEN_RESULT \<times> int \<Rightarrow> uws_world \<Rightarrow> uws_world" where
  "on_underlying_io_open_complete context io_open_result w =
     (case context of
        NULL_HANDLE \<Rightarrow> w
      | CLIENT \<Rightarrow>
          (if uws_state w \<noteq> UWS_STATE_OPENING_UNDERLYING_IO then
             indicate_ws_open_complete_error_and_close
               (open_detail WS_OPEN_ERROR_MULTIPLE_UNDERLYING_IO_OPEN_EVENTS (Code 0)) w
           else
             (case io_open_result of
                (IO_OPEN_ERROR, code) \<Rightarrow>
                  indicate_ws_open_complete_error (open_detail WS_OPEN_ERROR_UNDERLYING_IO_OPEN_FAILED (Code code)) w
              | (IO_OPEN_CANCELLED, code) \<Rightarrow>
                  indicate_ws_open_complete_error_and_close
                    (open_detail WS_OPEN_ERROR_UNDERLYING_IO_OPEN_CANCELLED (Code code)) w
              | (IO_OPEN_OK, _) \<Rightarrow>
                  (let (nonce, g) = rand_bytes 16 (env_rng w);
                       (base64_nonce, h) = Base64_Encode_Bytes (Some nonce) 16 (env_heap w);
                       w1 = w\<lparr>env_rng := g, env_heap := h\<rparr> in
                   case base64_nonce of
                     None \<Rightarrow>
                       indicate_ws_open_complete_error_and_close
                         (open_detail WS_OPEN_ERROR_BASE64_ENCODE_FAILED (Code 0)) w1
                   | Some s \<Rightarrow>
                       (case get_request_headers (Some (request_headers w1)) (env_heap w1) of
                          (None, h1) \<Rightarrow>
                            indicate_ws_open_complete_error_and_close
                              (open_detail WS_OPEN_ERROR_CONSTRUCTING_UPGRADE_REQUEST (Code 0)) (w1\<lparr>env_heap := h1\<rparr>)
                        | (Some headers, h1) \<Rightarrow> send_upgrade_request s headers (w1\<lparr>env_heap := h1\<rparr>))))))"

definition uws_client_open_async ::
  "handle \<Rightarrow> callback \<Rightarrow> callback \<Rightarrow> callback \<Rightarrow> callback \<Rightarrow> uws_world \<Rightarrow> rc \<times> uws_world" where
  "uws_client_open_async uws_client open_complete frame_received peer_closed ws_error w =
     (if uws_client = NULL_HANDLE \<or> open_complete = None \<or> frame_received = None \<or> peer_closed = None \<or> ws_error = None
      then (Failure, w)
      else if uws_state w \<noteq> UWS_STATE_CLOSED then (Failure, w)
      else
        (let now = env_time w (env_time_reads w);
             w1 = w\<lparr>uws_state := UWS_STATE_OPENING_UNDERLYING_IO, env_time_reads := Suc (env_time_reads w),
                    open_start_time := now, last_open_wait_log_time := now,
                    stream_buffer_count := 0, fragment_buffer_count := 0,
                    fragmented_frame_type := WS_FRAME_TYPE_UNKNOWN,
                    on_ws_open_complete := open_complete, on_ws_frame_received := frame_received,
                    on_ws_peer_closed := peer_closed, on_ws_error := ws_error\<rparr>;
             (result, completed) = xio_open_answer w1 (xio_calls w1);
             w2 = emit IoOpen (w1\<lparr>xio_calls := Suc (xio_calls w1)\<rparr>);
             w3 = (case completed of None \<Rightarrow> w2 | Some r \<Rightarrow> on_underlying_io_open_complete CLIENT r w2) in
         (case result of
            Failure \<Rightarrow> (Failure, w3\<lparr>uws_state := UWS_STATE_CLOSED\<rparr>)
          | Success \<Rightarrow> (Success, w3))))"

definition uws_client_set_request_header :: "handle \<Rightarrow> cptr \<Rightarrow> cptr \<Rightarrow> uws_world \<Rightarrow> rc \<times> uws_world" where
  "uws_client_set_request_header uws_client name val w =
     (if uws_client = NULL_HANDLE \<or> name = None \<or> val = None then (Failure, w)
      else
        (let (r, m, h) = Map_AddOrUpdate (Some (request_headers w)) name val (env_heap w) in
         (if r = MAP_OK then Success else Failure, w\<lparr>request_headers := the m, env_heap := h\<rparr>)))"

end
