(* ===== verification/Uws_Receive.thy ===== *)
theory Uws_Receive
  imports Uws_Upgrade Utf8_Checker
begin

text \<open>
  Receiving in \<open>src/uws_client.c\<close>: \<open>on_underlying_io_bytes_received\<close>, which appends the bytes
  to the stream buffer and then decodes as long as the last iteration asks for another. One
  iteration is \<open>decode_step\<close>; every iteration that asks for another has consumed bytes, which is
  why the loop ends.
\<close>

section \<open>The upgrade response\<close>

definition c_isspace :: "char \<Rightarrow> bool" where
  "c_isspace c \<longleftrightarrow> of_char c = (32 :: nat) \<or> (9 \<le> (of_char c :: nat) \<and> (of_char c :: nat) \<le> 13)"

text \<open>\<open>strtol\<close> with base zero: the value, the number of characters consumed, whether it is out of range.\<close>

definition digit_of :: "char \<Rightarrow> nat" where
  "digit_of c =
     (let n = of_char c in
      if 48 \<le> n \<and> n \<le> 57 then n - 48
      else if 97 \<le> n \<and> n \<le> 122 then n - 87
      else if 65 \<le> n \<and> n \<le> 90 then n - 55
      else 36)"

definition LONG_MAX :: int where "LONG_MAX = 2 ^ 63 - 1"
definition INT_MAX :: int where "INT_MAX = 2 ^ 31 - 1"

definition strtol :: "char list \<Rightarrow> int \<times> nat \<times> bool" where
  "strtol s =
     (let spaces = length (takeWhile c_isspace s);
          s1 = drop spaces s;
          negative = (s1 \<noteq> [] \<and> hd s1 = CHR ''-'');
          sign = (if s1 \<noteq> [] \<and> (hd s1 = CHR ''-'' \<or> hd s1 = CHR ''+'') then 1 else 0);
          s2 = drop sign s1;
          hex = (length s2 \<ge> 3 \<and> s2 ! 0 = CHR ''0'' \<and> (s2 ! 1 = CHR ''x'' \<or> s2 ! 1 = CHR ''X'') \<and> digit_of (s2 ! 2) < 16);
          base = (if hex then 16 else if s2 \<noteq> [] \<and> s2 ! 0 = CHR ''0'' then 8 else 10);
          prefix = (if hex then 2 else 0);
          digits = takeWhile (\<lambda>c. digit_of c < base) (drop prefix s2);
          magnitude = int (foldl (\<lambda>n c. base * n + digit_of c) 0 digits);
          v = (if negative then - magnitude else magnitude) in
      if digits = [] then (0, 0, False)
      else
        (if v > LONG_MAX then LONG_MAX else if v < - LONG_MAX - 1 then - LONG_MAX - 1 else v,
         spaces + sign + prefix + length digits, v > LONG_MAX \<or> v < - LONG_MAX - 1))"

definition ERANGE_errno :: int where "ERANGE_errno = 34"

definition ParseStringToDecimal :: "char list \<Rightarrow> int \<Rightarrow> rc \<times> int \<times> int" where
  "ParseStringToDecimal src errno =
     (let (v, consumed, out_of_range) = strtol src;
          errno1 = (if out_of_range then ERANGE_errno else errno);
          dst = sint (word_of_int v :: 32 word) in
      (if consumed = 0 \<or> ((dst = INT_MAX \<or> dst = - INT_MAX - 1) \<and> errno1 \<noteq> 0) then Failure else Success,
       dst, errno1))"

text \<open>The loops of \<open>ParseHttpResponse\<close>: they return the rest of the text, or \<open>None\<close> when they fail.\<close>

fun prefix_loop :: "char list \<Rightarrow> char list \<Rightarrow> char list option" where
  "prefix_loop [] src = Some src"
| "prefix_loop (p # ps) (c # src) = (if p \<noteq> c then None else prefix_loop ps src)"
| "prefix_loop (p # ps) [] = None"

fun scan_loop :: "char \<Rightarrow> char list \<Rightarrow> char list option" where
  "scan_loop stop [] = None"
| "scan_loop stop (c # src) = (if c = stop then Some (c # src) else if c = NUL then None else scan_loop stop src)"

definition ParseHttpResponse :: "char list option \<Rightarrow> int \<Rightarrow> rc \<times> int \<times> int" where
  "ParseHttpResponse src errno =
     (case src of
        None \<Rightarrow> (Failure, 0, errno)
      | Some s \<Rightarrow>
          (case prefix_loop ''HTTP/'' s of
             None \<Rightarrow> (Failure, 0, errno)
           | Some s1 \<Rightarrow>
               (case scan_loop (CHR ''.'') s1 of
                  None \<Rightarrow> (Failure, 0, errno)
                | Some s2 \<Rightarrow>
                    (case scan_loop (CHR '' '') s2 of
                       None \<Rightarrow> (Failure, 0, errno)
                     | Some s3 \<Rightarrow> ParseStringToDecimal s3 errno))))"

text \<open>\<open>strstr\<close>: where the pattern first occurs in the C string.\<close>

definition strstr :: "char list \<Rightarrow> char list \<Rightarrow> nat option" where
  "strstr s pat = List.find (\<lambda>i. take (length pat) (drop i (cstr s)) = pat) [0..<length (cstr s)]"

section \<open>The stream buffer\<close>

definition consume_stream_buffer_bytes :: "nat \<Rightarrow> uws_world \<Rightarrow> uws_world" where
  "consume_stream_buffer_bytes consumed_bytes w =
     (let n = stream_buffer_count w;
          w1 = (if consumed_bytes < n
                then w\<lparr>stream_buffer :=
                       map_option (\<lambda>b. memcpy_at b 0 (drop consumed_bytes b) (n - consumed_bytes)) (stream_buffer w)\<rparr>
                else w) in
      w1\<lparr>stream_buffer_count := n - consumed_bytes\<rparr>)"

abbreviation stream :: "uws_world \<Rightarrow> byte list" where
  "stream w \<equiv> the (stream_buffer w)"

definition process_frame_fragment :: "nat \<Rightarrow> nat \<Rightarrow> uws_world \<Rightarrow> rc \<times> uws_world" where
  "process_frame_fragment len needed_bytes w =
     (case realloc_block byte_cell (fragment_buffer w) (fragment_buffer_count w + len) (env_heap w) of
        (None, h) \<Rightarrow> (Failure, indicate_ws_error WS_ERROR_NOT_ENOUGH_MEMORY (w\<lparr>env_heap := h\<rparr>))
      | (Some b, h) \<Rightarrow>
          (Success,
           w\<lparr>env_heap := h,
             fragment_buffer := Some (memcpy_at b (fragment_buffer_count w) (drop (needed_bytes - len) (stream w)) len),
             fragment_buffer_count := fragment_buffer_count w + len\<rparr>))"

text \<open>The response is complete: \<open>request_end\<close> is where its last line ends.\<close>

definition on_upgrade_response :: "nat \<Rightarrow> uws_world \<Rightarrow> bool \<times> uws_world" where
  "on_upgrade_response request_end w =
     (let (parsed, status_code, errno) = ParseHttpResponse (Some (map char_of_byte (stream w))) (env_errno w);
          w2 = w\<lparr>env_errno := errno\<rparr> in
      if parsed = Failure then
        (False, indicate_ws_open_complete_error_and_close
                  (open_detail WS_OPEN_ERROR_BAD_UPGRADE_RESPONSE Failure_Line) w2)
      else if status_code \<noteq> 101 then
        (False, indicate_ws_open_complete_error_and_close
                  \<lparr>ws_open_result = WS_OPEN_ERROR_BAD_RESPONSE_STATUS, ws_open_code = Code status_code,
                   ws_open_buffer = Some (take (stream_buffer_count w2) (stream w2))\<rparr> w2)
      else
        (let w3 = (consume_stream_buffer_bytes (request_end + 4) w2)\<lparr>uws_state := UWS_STATE_OPEN\<rparr> in
         (True, invoke (on_ws_open_complete w3) (\<lambda>n. OpenComplete n (open_detail WS_OPEN_OK (Code 0))) w3)))"

definition decode_upgrade_response :: "uws_world \<Rightarrow> bool \<times> uws_world" where
  "decode_upgrade_response w =
     (let w1 = w\<lparr>stream_buffer := Some ((stream w)[stream_buffer_count w := 0])\<rparr> in
      case (if stream_buffer_count w1 \<ge> 4 then strstr (map char_of_byte (stream w1)) (CRLF @ CRLF) else None) of
        None \<Rightarrow> (False, w1)
      | Some request_end \<Rightarrow> on_upgrade_response request_end w1)"

section \<open>One frame\<close>

text \<open>The length field: the bytes needed for the whole frame, the payload length, and whether it is
  badly encoded.\<close>

definition frame_length :: "uws_world \<Rightarrow> nat \<times> nat \<times> bool" where
  "frame_length w =
     (let b = (\<lambda>i. unat (stream w ! i)); n = stream_buffer_count w; len = b 1 in
      if len = 126 then
        (if n \<ge> 4 then
           (let len = b 2 * 2 ^ 8 + b 3 in if len < 126 then (4, len, True) else (4 + len, len, False))
         else (4, len, False))
      else if len = 127 then
        (if n \<ge> 10 then
           (if stream w ! 2 AND 0x80 \<noteq> 0 then (10, len, True)
            else
              (let len = b 2 * 2 ^ 56 + b 3 * 2 ^ 48 + b 4 * 2 ^ 40 + b 5 * 2 ^ 32 + b 6 * 2 ^ 24 +
                         b 7 * 2 ^ 16 + b 8 * 2 ^ 8 + b 9 in
               if len < 65536 then (10, len, True) else (10 + len, len, False)))
         else (10, len, False))
      else (2 + len, len, False))"

definition payload_at :: "nat \<Rightarrow> nat \<Rightarrow> uws_world \<Rightarrow> byte list" where
  "payload_at len needed_bytes w = take len (drop (needed_bytes - len) (stream w))"

definition on_continuation_frame :: "bool \<Rightarrow> nat \<Rightarrow> nat \<Rightarrow> uws_world \<Rightarrow> bool \<times> uws_world" where
  "on_continuation_frame is_final len needed_bytes w =
     (case process_frame_fragment len needed_bytes w of
        (Failure, w1) \<Rightarrow> (False, w1)
      | (Success, w1) \<Rightarrow>
          (if is_final then
             (if fragmented_frame_type w1 = WS_FRAME_TYPE_UNKNOWN then
                (True, indicate_ws_error WS_ERROR_BAD_FRAME_RECEIVED w1)
              else
                (let w2 = invoke (on_ws_frame_received w1)
                            (\<lambda>n. FrameReceived n (fragmented_frame_type w1)
                                   (take (fragment_buffer_count w1) (the (fragment_buffer w1)))) w1 in
                 (True, w2\<lparr>fragment_buffer_count := 0, fragmented_frame_type := WS_FRAME_TYPE_UNKNOWN\<rparr>)))
           else (True, w1)))"

definition on_data_frame :: "byte \<Rightarrow> bool \<Rightarrow> nat \<Rightarrow> nat \<Rightarrow> uws_world \<Rightarrow> bool \<times> uws_world" where
  "on_data_frame frame_type is_final len needed_bytes w =
     (if is_final then
        (True, invoke (on_ws_frame_received w)
                 (\<lambda>n. FrameReceived n frame_type (payload_at len needed_bytes w)) w)
      else if fragmented_frame_type w \<noteq> WS_FRAME_TYPE_UNKNOWN then
        (True, indicate_ws_error WS_ERROR_BAD_FRAME_RECEIVED w)
      else
        (case process_frame_fragment len needed_bytes w of
           (Failure, w1) \<Rightarrow> (False, w1)
         | (Success, w1) \<Rightarrow> (True, w1\<lparr>fragmented_frame_type := frame_type\<rparr>)))"

text \<open>Closing the underlying IO after a CLOSE frame; a failure is reported and the client is closed.\<close>

definition close_underlying_io :: "uws_world \<Rightarrow> uws_world" where
  "close_underlying_io w =
     (case xio_close (w\<lparr>uws_state := UWS_STATE_CLOSING_UNDERLYING_IO\<rparr>) of
        (Success, w1) \<Rightarrow> w1
      | (Failure, w1) \<Rightarrow>
          (indicate_ws_error WS_ERROR_CANNOT_CLOSE_UNDERLYING_IO w1)\<lparr>uws_state := UWS_STATE_CLOSED\<rparr>)"

text \<open>\<open>xio_send\<close> with \<open>on_underlying_io_close_sent\<close>.\<close>

definition xio_send_close :: "byte list \<Rightarrow> uws_world \<Rightarrow> rc \<times> uws_world" where
  "xio_send_close bytes w =
     (let (result, now) = xio_send_answer w (xio_calls w);
          w1 = emit (IoSend bytes) (w\<lparr>xio_calls := Suc (xio_calls w)\<rparr>) in
      (result, case now of None \<Rightarrow> w1 | Some r \<Rightarrow> on_underlying_io_close_sent CLIENT r w1))"

definition send_close_response :: "uws_world \<Rightarrow> uws_world" where
  "send_close_response w =
     (let (frame, h, g) = uws_frame_encoder_encode (ws_opcode WS_CLOSE_FRAME) None 0 True True 0
                            (env_heap w) (env_rng w);
          w1 = w\<lparr>uws_state := UWS_STATE_CLOSING_SENDING_CLOSE, env_heap := h, env_rng := g\<rparr> in
      case frame of
        None \<Rightarrow> close_underlying_io w1
      | Some b \<Rightarrow>
          (let w3 = (case xio_send_close (buf_bytes b) w1 of
                       (Success, w2) \<Rightarrow> w2
                     | (Failure, w2) \<Rightarrow> close_underlying_io w2) in
           w3\<lparr>env_heap := BUFFER_delete frame (env_heap w3)\<rparr>))"

definition on_close_frame :: "bool \<Rightarrow> nat \<Rightarrow> nat \<Rightarrow> uws_world \<Rightarrow> uws_world" where
  "on_close_frame is_final len needed_bytes w =
     (if \<not> is_final then indicate_ws_error WS_ERROR_BAD_FRAME_RECEIVED w
      else
        (let data = payload_at len needed_bytes w;
             close_code = (if len \<ge> 2 then Some (push_bit 8 (ucast (data ! 0)) + ucast (data ! 1)) else None);
             utf8_error = (len > 2 \<and> \<not> utf8_checker_is_valid_utf8 (Some (drop 2 data)) (len - 2));
             extra_data = (if len > 2 \<and> \<not> utf8_error then Some (drop 2 data) else None) in
         if utf8_error then close_underlying_io w
         else if uws_state w = UWS_STATE_CLOSING_WAITING_FOR_CLOSE then
           (case xio_close (w\<lparr>uws_state := UWS_STATE_CLOSING_UNDERLYING_IO\<rparr>) of
              (Success, w1) \<Rightarrow> w1
            | (Failure, w1) \<Rightarrow> (indicate_ws_close_complete w1)\<lparr>uws_state := UWS_STATE_CLOSED\<rparr>)
         else
           (let w1 = send_close_response w in
            invoke (on_ws_peer_closed w1) (\<lambda>n. PeerClosed n close_code extra_data) w1)))"

definition on_ping_frame :: "bool \<Rightarrow> nat \<Rightarrow> nat \<Rightarrow> uws_world \<Rightarrow> uws_world" where
  "on_ping_frame is_final len needed_bytes w =
     (if \<not> is_final then indicate_ws_error WS_ERROR_BAD_FRAME_RECEIVED w
      else
        (let (frame, h, g) = uws_frame_encoder_encode (ws_opcode WS_PONG_FRAME)
                               (Some (drop (needed_bytes - len) (stream w))) len True True 0 (env_heap w) (env_rng w);
             w1 = w\<lparr>env_heap := h, env_rng := g\<rparr> in
         case frame of
           None \<Rightarrow> w1
         | Some b \<Rightarrow>
             (let w2 = snd (xio_send_unchecked (buf_bytes b) w1) in
              w2\<lparr>env_heap := BUFFER_delete frame (env_heap w2)\<rparr>)))"

text \<open>The switch on the opcode; the flag asks for another iteration.\<close>

definition process_frame :: "byte \<Rightarrow> bool \<Rightarrow> nat \<Rightarrow> nat \<Rightarrow> uws_world \<Rightarrow> bool \<times> uws_world" where
  "process_frame opcode is_final len needed_bytes w =
     (if opcode = 0 then on_continuation_frame is_final len needed_bytes w
      else if opcode = 1 then on_data_frame WS_FRAME_TYPE_TEXT is_final len needed_bytes w
      else if opcode = 2 then on_data_frame WS_FRAME_TYPE_BINARY is_final len needed_bytes w
      else if opcode = 8 then (False, on_close_frame is_final len needed_bytes w)
      else if opcode = 9 then (False, on_ping_frame is_final len needed_bytes w)
      else (False, w))"

definition decode_frame :: "uws_world \<Rightarrow> bool \<times> uws_world" where
  "decode_frame w =
     (if stream_buffer_count w < 2 then (False, w)
      else
        (let w1 = (if stream w ! 1 AND 0x80 \<noteq> 0
                   then indicate_ws_error_and_close WS_ERROR_BAD_FRAME_RECEIVED 1002 w else w);
             (needed_bytes, len, has_error) = frame_length w1 in
         if has_error then (False, indicate_ws_error WS_ERROR_BAD_FRAME_RECEIVED w1)
         else if stream_buffer_count w1 \<ge> needed_bytes then
           (let opcode = stream w1 ! 0 AND 0x0F;
                is_final = (stream w1 ! 0 AND 0x80 \<noteq> 0);
                (again, w2) = process_frame opcode is_final len needed_bytes w1 in
            (again, consume_stream_buffer_bytes needed_bytes w2))
         else (False, w1)))"

section \<open>The loop\<close>

definition decode_step :: "uws_world \<Rightarrow> bool \<times> uws_world" where
  "decode_step w =
     (case uws_state w of
        UWS_STATE_OPENING_UNDERLYING_IO \<Rightarrow>
          (False, indicate_ws_open_complete_error_and_close
                    (open_detail WS_OPEN_ERROR_BYTES_RECEIVED_BEFORE_UNDERLYING_OPEN Failure_Line) w)
      | UWS_STATE_WAITING_FOR_UPGRADE_RESPONSE \<Rightarrow> decode_upgrade_response w
      | UWS_STATE_OPEN \<Rightarrow> decode_frame w
      | UWS_STATE_CLOSING_WAITING_FOR_CLOSE \<Rightarrow> decode_frame w
      | _ \<Rightarrow> (False, w))"

text \<open>What the frame handlers leave alone.\<close>

lemma keepsD:
  "keeps w w' \<Longrightarrow> stream_buffer w' = stream_buffer w"
  "keeps w w' \<Longrightarrow> stream_buffer_count w' = stream_buffer_count w"
  "keeps w w' \<Longrightarrow> fragment_buffer w' = fragment_buffer w"
  "keeps w w' \<Longrightarrow> fragment_buffer_count w' = fragment_buffer_count w"
  "keeps w w' \<Longrightarrow> fragmented_frame_type w' = fragmented_frame_type w"
  "keeps w w' \<Longrightarrow> on_ws_frame_received w' = on_ws_frame_received w"
  "keeps w w' \<Longrightarrow> on_ws_open_complete w' = on_ws_open_complete w"
  by (simp_all add: keeps_def)

lemma keeps_close_sent [keeping]: "keeps w w1 \<Longrightarrow> keeps w (on_underlying_io_close_sent c r w1)"
proof (cases "xio_close (w1\<lparr>uws_state := UWS_STATE_CLOSING_UNDERLYING_IO\<rparr>)")
  case (Pair q w2)
  assume "keeps w w1"
  then show ?thesis
    using keeps_xio_close [of w "w1\<lparr>uws_state := UWS_STATE_CLOSING_UNDERLYING_IO\<rparr>"] Pair
    by (cases q) (auto simp: on_underlying_io_close_sent_def keeping split: handle.splits)
qed

lemma keeps_close_underlying_io [keeping]: "keeps w w1 \<Longrightarrow> keeps w (close_underlying_io w1)"
proof (cases "xio_close (w1\<lparr>uws_state := UWS_STATE_CLOSING_UNDERLYING_IO\<rparr>)")
  case (Pair r w2)
  assume "keeps w w1"
  then show ?thesis
    using keeps_xio_close [of w "w1\<lparr>uws_state := UWS_STATE_CLOSING_UNDERLYING_IO\<rparr>"] Pair
    by (cases r) (simp_all add: close_underlying_io_def keeping)
qed

lemma keeps_xio_send_close [keeping]: "keeps w w1 \<Longrightarrow> keeps w (snd (xio_send_close bs w1))"
  by (auto simp: xio_send_close_def Let_def keeping split: prod.splits option.splits)

lemma keeps_close_response [keeping]:
  assumes "keeps w w1"
  shows "keeps w (send_close_response w1)"
proof -
  obtain frame h g where enc: "uws_frame_encoder_encode (ws_opcode WS_CLOSE_FRAME) None 0 True True 0
      (env_heap w1) (env_rng w1) = (frame, h, g)" by (metis prod_cases3)
  let ?w = "w1\<lparr>uws_state := UWS_STATE_CLOSING_SENDING_CLOSE, env_heap := h, env_rng := g\<rparr>"
  have k: "keeps w ?w" using assms by (simp add: keeping)
  show ?thesis
  proof (cases frame)
    case None
    then show ?thesis using enc k by (simp add: send_close_response_def keeping)
  next
    case (Some b)
    obtain r w3 where x: "xio_send_close (buf_bytes b) ?w = (r, w3)" by (metis surj_pair)
    then have "keeps w w3" using keeps_xio_send_close [OF k, of "buf_bytes b"] by simp
    then show ?thesis using enc Some x by (cases r) (simp_all add: send_close_response_def Let_def keeping)
  qed
qed

lemma keeps_close_frame [keeping]:
  assumes "keeps w w1"
  shows "keeps w (on_close_frame f len needed w1)"
proof (cases "xio_close (w1\<lparr>uws_state := UWS_STATE_CLOSING_UNDERLYING_IO\<rparr>)")
  case (Pair r w2)
  then have "keeps w w2"
    using keeps_xio_close [OF keeps_update(1) [OF assms], of UWS_STATE_CLOSING_UNDERLYING_IO] by simp
  then show ?thesis
    using Pair assms by (cases r) (auto simp: on_close_frame_def Let_def keeping)
qed

lemma keeps_ping_frame [keeping]: "keeps w w1 \<Longrightarrow> keeps w (on_ping_frame f len needed w1)"
  by (auto simp: on_ping_frame_def Let_def keeping split: prod.splits option.splits)

lemma fragment_stream [simp]:
  "stream_buffer (snd (process_frame_fragment len needed w)) = stream_buffer w"
  "stream_buffer_count (snd (process_frame_fragment len needed w)) = stream_buffer_count w"
  by (auto simp: process_frame_fragment_def indicate_ws_error_def invoke_def emit_def Let_def split: prod.splits option.splits)

lemma fragment_stream_result:
  "process_frame_fragment len needed w = (r, w1) \<Longrightarrow> stream_buffer w1 = stream_buffer w"
  "process_frame_fragment len needed w = (r, w1) \<Longrightarrow> stream_buffer_count w1 = stream_buffer_count w"
  using fragment_stream [of len needed w] by simp_all

lemma process_frame_stream [simp]:
  "stream_buffer (snd (process_frame opcode f len needed w)) = stream_buffer w"
  "stream_buffer_count (snd (process_frame opcode f len needed w)) = stream_buffer_count w"
  using keepsD(1,2) [OF keeps_close_frame [OF keeps_refl]] keepsD(1,2) [OF keeps_ping_frame [OF keeps_refl]]
    keepsD(1,2) [OF keeps_invoke [OF keeps_refl]] keepsD(1,2) [OF keeps_reports(3) [OF keeps_refl]]
  by (auto simp: process_frame_def on_continuation_frame_def on_data_frame_def Let_def fragment_stream_result
      split: prod.splits rc.splits)

lemma consume_count [simp]: "stream_buffer_count (consume_stream_buffer_bytes n w) = stream_buffer_count w - n"
  by (simp add: consume_stream_buffer_bytes_def Let_def)

lemma frame_length_needed: "frame_length w = (needed, len, err) \<Longrightarrow> 2 \<le> needed"
  by (auto simp: frame_length_def Let_def split: if_splits)

lemma decode_frame_progress: "decode_frame w = (True, w') \<Longrightarrow> stream_buffer_count w' < stream_buffer_count w"
proof -
  assume d: "decode_frame w = (True, w')"
  let ?w = "if stream w ! 1 AND 0x80 \<noteq> 0 then indicate_ws_error_and_close WS_ERROR_BAD_FRAME_RECEIVED 1002 w else w"
  have n: "stream_buffer_count ?w = stream_buffer_count w"
    using keepsD(2) [OF keeps_error_and_close [OF keeps_refl]] by simp
  obtain needed len err where l: "frame_length ?w = (needed, len, err)" by (metis prod_cases3)
  have "\<not> stream_buffer_count w < 2" "\<not> err" "stream_buffer_count ?w \<ge> needed"
    "w' = consume_stream_buffer_bytes needed
       (snd (process_frame (stream ?w ! 0 AND 0x0F) (stream ?w ! 0 AND 0x80 \<noteq> 0) len needed ?w))"
    using d l by (auto simp: decode_frame_def Let_def case_prod_unfold simp del: if_split split: if_split_asm)
  then show ?thesis using frame_length_needed [OF l] n by simp
qed

lemma decode_upgrade_progress:
  assumes "decode_upgrade_response w = (True, w')"
  shows "stream_buffer_count w' < stream_buffer_count w"
proof -
  have "stream_buffer_count w \<ge> 4" using assms by (auto simp: decode_upgrade_response_def on_upgrade_response_def Let_def split: if_splits)
  moreover have "\<exists>n. stream_buffer_count w' = stream_buffer_count w - (n + 4)"
    using assms keepsD(2) [OF keeps_invoke [OF keeps_refl]]
    by (auto simp: decode_upgrade_response_def on_upgrade_response_def Let_def split: if_splits option.splits prod.splits)
  ultimately show ?thesis by auto
qed

lemma decode_step_progress: "decode_step w = (True, w') \<Longrightarrow> stream_buffer_count w' < stream_buffer_count w"
  by (auto simp: decode_step_def decode_frame_progress decode_upgrade_progress split: UWS_STATE.splits)

text \<open>The loop itself: \<open>while (decode_stream)\<close>, entered with the flag set.\<close>

function decode_loop :: "uws_world \<Rightarrow> uws_world" where
  "decode_loop w = (let (again, w1) = decode_step w in if again then decode_loop w1 else w1)"
  by pat_completeness auto

termination
  by (relation "measure stream_buffer_count") (auto simp: decode_step_progress dest: sym)

declare decode_loop.simps [simp del]

section \<open>Bytes received\<close>

text \<open>The stream buffer grows by the bytes and one more cell; \<open>None\<close> when it cannot.\<close>

definition append_received :: "byte list \<Rightarrow> nat \<Rightarrow> uws_world \<Rightarrow> bool \<times> uws_world" where
  "append_received buffer sz w =
     (case realloc_block byte_cell (stream_buffer w) (stream_buffer_count w + sz + 1) (env_heap w) of
        (None, h) \<Rightarrow> (False, w\<lparr>env_heap := h\<rparr>)
      | (Some b, h) \<Rightarrow>
          (True, w\<lparr>env_heap := h, stream_buffer := Some (memcpy_at b (stream_buffer_count w) buffer sz),
                   stream_buffer_count := stream_buffer_count w + sz\<rparr>))"

definition receive_in_open :: "byte list \<Rightarrow> nat \<Rightarrow> uws_world \<Rightarrow> uws_world" where
  "receive_in_open buffer sz w =
     (case append_received buffer sz w of
        (False, w1) \<Rightarrow> indicate_ws_error WS_ERROR_NOT_ENOUGH_MEMORY w1
      | (True, w1) \<Rightarrow>
          decode_loop (w1\<lparr>stream_buffer := Some ((stream w1)[stream_buffer_count w1 := 0])\<rparr>))"

definition on_underlying_io_bytes_received :: "handle \<Rightarrow> byte list option \<Rightarrow> nat \<Rightarrow> uws_world \<Rightarrow> uws_world" where
  "on_underlying_io_bytes_received context buffer sz w =
     (if context = NULL_HANDLE then w
      else if buffer = None \<or> sz = 0 then
        indicate_ws_open_complete_error_and_close
          (open_detail WS_OPEN_ERROR_INVALID_BYTES_RECEIVED_ARGUMENTS Failure_Line) w
      else
        (case uws_state w of
           UWS_STATE_OPENING_UNDERLYING_IO \<Rightarrow>
             indicate_ws_open_complete_error_and_close
               (open_detail WS_OPEN_ERROR_BYTES_RECEIVED_BEFORE_UNDERLYING_OPEN Failure_Line) w
         | UWS_STATE_WAITING_FOR_UPGRADE_RESPONSE \<Rightarrow>
             (case append_received (the buffer) sz w of
                (False, w1) \<Rightarrow>
                  indicate_ws_open_complete_error_and_close
                    (open_detail WS_OPEN_ERROR_NOT_ENOUGH_MEMORY Failure_Line) w1
              | (True, w1) \<Rightarrow> decode_loop w1)
         | UWS_STATE_OPEN \<Rightarrow> receive_in_open (the buffer) sz w
         | UWS_STATE_CLOSING_WAITING_FOR_CLOSE \<Rightarrow> receive_in_open (the buffer) sz w
         | _ \<Rightarrow> w))"

end
