(* ===== verification/Uws_Accounting.thy ===== *)
theory Uws_Accounting
  imports Uws_Receive
begin

text \<open>
  What every operation of the WebSocket client owes its surroundings: it never calls a null
  callback once the client has been opened, it balances allocations and frees, it keeps the
  handles of the pending sends apart, and it completes a send at most once. All of this is one
  relation between the world before and after, closed under composition, so that each
  operation follows from the ones it calls.
\<close>

section \<open>The allocator behind the encoder\<close>

definition heap_moves :: "int \<Rightarrow> heap \<Rightarrow> heap \<Rightarrow> bool" where
  "heap_moves d h h' \<longleftrightarrow> mem_live h' = mem_live h + d \<and> mem_calls h \<le> mem_calls h'"

lemma encode_heap:
  "uws_frame_encoder_encode opcode payload len is_masked is_final reserved h g = (r, h', g') \<Longrightarrow>
     heap_moves (buf_blocks r) h h'"
  by (auto simp: uws_frame_encoder_encode_def BUFFER_new_def BUFFER_enlarge_def BUFFER_u_char_def BUFFER_delete_def
      heap_moves_def buf_blocks_def mem_defs Let_def
      split: if_splits prod.splits option.splits rc.splits)

lemma delete_heap: "heap_moves (- buf_blocks r) h (BUFFER_delete r h)"
  by (auto simp: BUFFER_delete_def heap_moves_def buf_blocks_def mem_defs split: option.splits)

section \<open>The relation\<close>

text \<open>The four callbacks of an open, and the absence of steps that have no meaning in C.\<close>

definition opened :: "uws_world \<Rightarrow> bool" where
  "opened w \<longleftrightarrow> on_ws_open_complete w \<noteq> None \<and> on_ws_frame_received w \<noteq> None \<and>
     on_ws_peer_closed w \<noteq> None \<and> on_ws_error w \<noteq> None"

definition sane :: "uws_world \<Rightarrow> bool" where
  "sane w \<longleftrightarrow> NullCall \<notin> set (events w) \<and> Dangling \<notin> set (events w)"

definition pend_ok :: "uws_world \<Rightarrow> bool" where
  "pend_ok w \<longleftrightarrow> distinct (map fst (pending_sends w)) \<and>
     (\<forall>a \<in> fst ` set (pending_sends w). a < mem_calls (env_heap w))"

text \<open>The blocks that belong to the client and may come and go while it lives, and the live blocks
  beyond them.\<close>

definition owned :: "uws_world \<Rightarrow> int" where
  "owned w = 2 * int (length (pending_sends w)) + (if stream_buffer w = None then 0 else 1) +
     (if fragment_buffer w = None then 0 else 1) + map_blocks (map_entries (request_headers w))"

definition balance :: "uws_world \<Rightarrow> int" where
  "balance w = mem_live (env_heap w) - owned w"

text \<open>How often the callback \<open>n\<close> of a send has been or will be called.\<close>

definition completed :: "nat \<Rightarrow> ws_event list \<Rightarrow> nat" where
  "completed n es = length (filter (\<lambda>e. \<exists>r. e = SendFrameComplete n r) es)"

definition promised :: "nat \<Rightarrow> (nat \<times> WS_PENDING_SEND) list \<Rightarrow> nat" where
  "promised n ps = length (filter (\<lambda>p. on_ws_send_frame_complete (snd p) = Some n) ps)"

definition sends :: "nat \<Rightarrow> uws_world \<Rightarrow> nat" where
  "sends n w = completed n (events w) + promised n (pending_sends w)"

text \<open>The client is open only when it has reported a successful upgrade.\<close>

definition upgrade_inv :: "uws_world \<Rightarrow> bool" where
  "upgrade_inv w \<longleftrightarrow> (uws_state w = UWS_STATE_OPEN \<longrightarrow>
     (\<exists>n d. OpenComplete n d \<in> set (events w) \<and> ws_open_result d = WS_OPEN_OK))"

text \<open>What is set at creation and used afterwards, and the environment's answers.\<close>

definition config :: "uws_world \<Rightarrow> char list \<times> char list \<times> char list list option \<times> nat \<times> 32 word \<times>
    MAP_HANDLE_DATA \<times> (nat \<Rightarrow> rc \<times> IO_SEND_RESULT option)" where
  "config w = (hostname w, resource_name w, protocols w, protocol_count w, port w, request_headers w,
     xio_send_answer w)"

definition moves :: "int \<Rightarrow> uws_world \<Rightarrow> uws_world \<Rightarrow> bool" where
  "moves d w w' \<longleftrightarrow>
     (pend_ok w \<longrightarrow> pend_ok w' \<and> balance w' = balance w + d \<and> (\<forall>n. sends n w' = sends n w)) \<and>
     mem_calls (env_heap w) \<le> mem_calls (env_heap w') \<and>
     (opened w \<longrightarrow> opened w' \<and> (sane w \<longrightarrow> sane w') \<and> (upgrade_inv w \<longrightarrow> upgrade_inv w')) \<and>
     config w' = config w \<and>
     (\<exists>es. events w' = events w @ es)"

lemmas moves_parts = pend_ok_def balance_def owned_def sends_def promised_def completed_def opened_def sane_def config_def upgrade_inv_def

lemma moves_refl [simp]: "moves 0 w w"
  by (simp add: moves_def)

lemma moves_trans:
  assumes "moves d w w1" and "moves e w1 w2"
  shows "moves (d + e) w w2"
proof -
  obtain es where "events w1 = events w @ es" using assms(1) by (auto simp: moves_def)
  moreover obtain es' where "events w2 = events w1 @ es'" using assms(2) by (auto simp: moves_def)
  ultimately have "\<exists>es. events w2 = events w @ es" by simp
  then show ?thesis using assms by (simp add: moves_def)
qed

text \<open>Steps from a world that is already related, so that \<open>intro\<close> chains through an operation.\<close>

named_theorems moving

lemma moves_then: "moves 0 w1 w2 \<Longrightarrow> moves d w w1 \<Longrightarrow> moves d w w2"
  using moves_trans [of d w w1 0 w2] by simp

lemma moves_heap:
  "heap_moves e (env_heap w) h \<Longrightarrow> moves e w (w\<lparr>env_heap := h\<rparr>)"
  by (auto simp: moves_def moves_parts heap_moves_def)

lemma moves_update0:
  "moves 0 w (w\<lparr>on_ws_close_complete := cb\<rparr>)"
  "s \<noteq> UWS_STATE_OPEN \<Longrightarrow> moves 0 w (w\<lparr>uws_state := s\<rparr>)"
  "moves 0 w (w\<lparr>env_rng := g\<rparr>)"
  "moves 0 w (w\<lparr>xio_calls := k\<rparr>)"
  "moves 0 w (w\<lparr>env_time_reads := k\<rparr>)"
  "moves 0 w (w\<lparr>last_open_wait_log_time := t\<rparr>)"
  "moves 0 w (w\<lparr>open_start_time := t\<rparr>)"
  "moves 0 w (w\<lparr>env_errno := t\<rparr>)"
  "moves 0 w (w\<lparr>stream_buffer_count := k\<rparr>)"
  "moves 0 w (w\<lparr>fragment_buffer_count := k\<rparr>)"
  "moves 0 w (w\<lparr>fragmented_frame_type := b\<rparr>)"
  "stream_buffer w \<noteq> None \<Longrightarrow> moves 0 w (w\<lparr>stream_buffer := Some bs\<rparr>)"
  "fragment_buffer w \<noteq> None \<Longrightarrow> moves 0 w (w\<lparr>fragment_buffer := Some bs\<rparr>)"
  by (auto simp: moves_def moves_parts)

lemma moves_state: "moves d w w1 \<Longrightarrow> s \<noteq> UWS_STATE_OPEN \<Longrightarrow> moves d w (w1\<lparr>uws_state := s\<rparr>)"
  using moves_update0(2) moves_then by blast

lemmas moves_update [moving] = moves_update0(1) [THEN moves_then] moves_state moves_update0(3-) [THEN moves_then]

lemma moves_emit [moving]:
  assumes "moves d w w1" and "e \<noteq> NullCall" and "e \<noteq> Dangling" and "\<And>n r. e \<noteq> SendFrameComplete n r"
  shows "moves d w (emit e w1)"
  by (rule moves_then [OF _ assms(1)]) (use assms(2-) in \<open>auto simp: moves_def moves_parts emit_def\<close>)

text \<open>A callback of the open, whose event is a completion of no send.\<close>

lemma moves_invoke0:
  assumes "opened w \<Longrightarrow> cb \<noteq> None" and "\<And>n k r. ev n \<noteq> SendFrameComplete k r" "\<And>n. ev n \<noteq> NullCall" "\<And>n. ev n \<noteq> Dangling"
  shows "moves 0 w (invoke cb ev w)"
  using assms assms(3,4) [symmetric] by (auto simp: moves_def moves_parts invoke_def emit_def split: option.splits)

lemmas moves_invoke [moving] = moves_invoke0 [THEN moves_then]

lemma moves_keeps_opened: "moves d w w' \<Longrightarrow> opened w \<Longrightarrow> opened w'"
  by (simp add: moves_def)

section \<open>Reports\<close>

lemma moves_reports [moving]:
  "moves d w w1 \<Longrightarrow> moves d w (indicate_ws_open_complete_error r w1)"
  "moves d w w1 \<Longrightarrow> moves d w (xio_close_quietly w1)"
  "moves d w w1 \<Longrightarrow> moves d w (indicate_ws_error e w1)"
  by (simp_all add: indicate_ws_open_complete_error_def xio_close_quietly_def indicate_ws_error_def Let_def)
    (intro moving; simp add: opened_def)+

lemma moves_open_error [moving]:
  "moves d w w1 \<Longrightarrow> moves d w (indicate_ws_open_complete_error_and_close r w1)"
  by (simp add: indicate_ws_open_complete_error_and_close_def moving)

section \<open>Completing sends\<close>

lemma filter_handle:
  assumes "distinct (map fst ps)" and "map_of ps a = Some p"
  shows "Suc (length (filter (\<lambda>q. fst q \<noteq> a) ps)) = length ps"
    "promised n ps = promised n (filter (\<lambda>q. fst q \<noteq> a) ps) + (if on_ws_send_frame_complete p = Some n then 1 else 0)"
proof -
  obtain xs ys where ps: "ps = xs @ (a, p) # ys" using assms(2) by (metis map_of_SomeD split_list)
  have "filter (\<lambda>q. fst q \<noteq> a) xs = xs" "filter (\<lambda>q. fst q \<noteq> a) ys = ys"
    using assms(1) by (auto simp: ps filter_id_conv)
  then show "Suc (length (filter (\<lambda>q. fst q \<noteq> a) ps)) = length ps"
    "promised n ps = promised n (filter (\<lambda>q. fst q \<noteq> a) ps) + (if on_ws_send_frame_complete p = Some n then 1 else 0)"
    by (simp_all add: ps promised_def)
qed

lemma moves_complete_send_frame:
  assumes "map_of (pending_sends w) a = Some p"
  shows "fst (complete_send_frame p a r w) = Success" "moves 0 w (snd (complete_send_frame p a r w))"
proof -
  have a: "a \<in> fst ` set (pending_sends w)" using assms by (force dest: map_of_SomeD)
  then show "fst (complete_send_frame p a r w) = Success"
    by (auto simp: complete_send_frame_def pairs_remove_def Let_def split: option.splits)
  let ?ps = "filter (\<lambda>q. fst q \<noteq> a) (pending_sends w)"
  let ?es = "case on_ws_send_frame_complete p of None \<Rightarrow> [] | Some n \<Rightarrow> [SendFrameComplete n r]"
  have eq: "snd (complete_send_frame p a r w) =
      w\<lparr>pending_sends := ?ps, env_heap := free_struct (free_struct (env_heap w)), events := events w @ ?es\<rparr>"
    using a by (auto simp: complete_send_frame_def pairs_remove_def emit_def Let_def split: option.splits)
  have "distinct (map fst ?ps)" if "distinct (map fst (pending_sends w))" using that by (simp add: distinct_map_filter)
  moreover have "completed n ?es = (if on_ws_send_frame_complete p = Some n then 1 else 0)" for n
    by (auto simp: completed_def split: option.splits)
  moreover have "set ?es \<inter> {NullCall, Dangling} = {}" by (auto split: option.splits)
  ultimately show "moves 0 w (snd (complete_send_frame p a r w))"
    unfolding eq using filter_handle [OF _ assms]
    by (auto simp: moves_def pend_ok_def sends_def balance_def owned_def opened_def sane_def config_def upgrade_inv_def free_struct_def
        completed_def promised_def)
qed

lemma moves_clear_pending_sends [moving]: "moves d w w1 \<Longrightarrow> moves d w (clear_pending_sends w1)"
proof (induction w1 rule: clear_pending_sends.induct)
  case (1 w1)
  show ?case
  proof (cases "pending_sends w1")
    case Nil
    then show ?thesis using "1.prems" by (subst clear_pending_sends.simps) simp
  next
    case (Cons ap ps)
    obtain a p where ap: "ap = (a, p)" by (cases ap)
    have "map_of (pending_sends w1) a = Some p" using Cons ap by simp
    then have "moves d w (snd (complete_send_frame p a WS_SEND_FRAME_CANCELLED w1))"
      using moves_complete_send_frame(2) "1.prems" moves_then by blast
    then show ?thesis
      using "1.IH" [OF Cons ap [symmetric]] Cons ap
      by (subst clear_pending_sends.simps) simp
  qed
qed

lemma clear_pending_sends_empty [simp]: "pending_sends (clear_pending_sends w) = []"
proof (induction w rule: clear_pending_sends.induct)
  case (1 w)
  then show ?case by (subst clear_pending_sends.simps) (auto split: list.splits)
qed

section \<open>Closing\<close>

lemma moves_close_complete [moving]: "moves d w w1 \<Longrightarrow> moves d w (indicate_ws_close_complete w1)"
  by (auto simp: indicate_ws_close_complete_def Let_def split: option.splits intro!: moving)

lemma moves_on_close_complete [moving]: "moves d w w1 \<Longrightarrow> moves d w (on_underlying_io_close_complete c w1)"
  by (auto simp: on_underlying_io_close_complete_def split: handle.splits intro!: moving)

lemma moves_xio_close [moving]: "moves d w w1 \<Longrightarrow> moves d w (snd (xio_close w1))"
  by (auto simp: xio_close_def Let_def split: prod.splits intro!: moving)

lemma moves_xio_send_unchecked [moving]: "moves d w w1 \<Longrightarrow> moves d w (snd (xio_send_unchecked bs w1))"
  by (auto simp: xio_send_unchecked_def intro!: moving)

text \<open>Encode, send and delete: the frame is gone afterwards.\<close>

lemma moves_frame:
  assumes "uws_frame_encoder_encode opcode payload len is_masked is_final reserved (env_heap w) g = (frame, h, g')"
    and "moves d w0 w" and "\<And>e w1. moves e w0 w1 \<Longrightarrow> moves e w0 (f w1)"
  shows "moves d w0 (let w3 = f (w\<lparr>env_heap := h, env_rng := g'\<rparr>)
    in w3\<lparr>env_heap := BUFFER_delete frame (env_heap w3)\<rparr>)"
proof -
  have "moves (d + buf_blocks frame) w0 (w\<lparr>env_heap := h\<rparr>)"
    using moves_trans [OF assms(2) moves_heap] encode_heap [OF assms(1)] by blast
  then have "moves (d + buf_blocks frame) w0 (f (w\<lparr>env_heap := h, env_rng := g'\<rparr>))"
    by (intro assms(3)) (rule moves_update(3))
  from moves_trans [OF this moves_heap [OF delete_heap], of frame] show ?thesis by (simp add: Let_def)
qed

lemma heap_rng_swap: "w\<lparr>env_rng := g, env_heap := h\<rparr> = w\<lparr>env_heap := h, env_rng := (g :: rng)\<rparr>"
  for w :: uws_world
  by simp

lemma state_heap_swap:
  "w\<lparr>uws_state := s, env_heap := h, env_rng := g\<rparr> = w\<lparr>env_heap := h, env_rng := (g :: rng), uws_state := s\<rparr>"
  for w :: uws_world
  by simp

lemma BUFFER_delete_None [simp]: "BUFFER_delete None h = h"
  by (simp add: BUFFER_delete_def)

lemma moves_send_close_frame [moving]:
  assumes "moves d w w1"
  shows "moves d w (snd (send_close_frame c w1))"
proof -
  let ?p = "[ucast (drop_bit 8 c), ucast (c AND 0xFF)]"
  obtain frame h g where enc: "uws_frame_encoder_encode (ws_opcode WS_CLOSE_FRAME) (Some ?p) 2 True True 0
      (env_heap w1) (env_rng w1) = (frame, h, g)" by (metis prod_cases3)
  let ?f = "\<lambda>w. case frame of None \<Rightarrow> w | Some b \<Rightarrow> snd (xio_send_unchecked (buf_bytes b) w)"
  have "moves d w (let w3 = ?f (w1\<lparr>env_heap := h, env_rng := g\<rparr>)
      in w3\<lparr>env_heap := BUFFER_delete frame (env_heap w3)\<rparr>)"
    by (rule moves_frame [OF enc assms]) (auto split: option.splits intro: moving)
  then show ?thesis
    using enc by (auto simp: send_close_frame_def Let_def heap_rng_swap split: option.splits prod.splits)
qed

lemma moves_error_and_close [moving]: "moves d w w1 \<Longrightarrow> moves d w (indicate_ws_error_and_close e c w1)"
  by (auto simp: indicate_ws_error_and_close_def Let_def opened_def intro!: moving)

lemma moves_close_sent [moving]: "moves d w w1 \<Longrightarrow> moves d w (on_underlying_io_close_sent c r w1)"
proof (cases "xio_close (w1\<lparr>uws_state := UWS_STATE_CLOSING_UNDERLYING_IO\<rparr>)")
  case (Pair q w2)
  assume m: "moves d w w1"
  then have "moves d w w2"
    using moves_xio_close [OF moves_state, of d w w1 UWS_STATE_CLOSING_UNDERLYING_IO] Pair by simp
  then show ?thesis
    using Pair m by (cases q; cases c) (simp_all add: on_underlying_io_close_sent_def moving)
qed

section \<open>Receiving\<close>

lemma map_prod_snd_if: "snd (if b then x else y) = (if b then snd x else snd y)"
  by simp

lemma moves_consume [moving]: "moves d w w1 \<Longrightarrow> moves d w (consume_stream_buffer_bytes n w1)"
proof -
  have "moves 0 w1 (w1\<lparr>stream_buffer := map_option f (stream_buffer w1)\<rparr>)" for f
    by (auto simp: moves_def moves_parts)
  from this [THEN moves_then] show "moves d w w1 \<Longrightarrow> ?thesis"
    by (simp add: consume_stream_buffer_bytes_def Let_def moving)
qed

lemma realloc_heap:
  "realloc_block c p n h = (r, h') \<Longrightarrow>
     heap_moves (if r \<noteq> None \<and> p = None then 1 else 0) h h'"
  by (auto simp: realloc_block_def heap_moves_def mem_defs split: option.splits if_splits)

lemma moves_fragment0: "moves 0 w (snd (process_frame_fragment len needed w))"
proof (cases "realloc_block byte_cell (fragment_buffer w) (fragment_buffer_count w + len) (env_heap w)")
  case (Pair r h)
  note h = realloc_heap [OF Pair]
  show ?thesis
  proof (cases r)
    case None
    then have "moves 0 w (w\<lparr>env_heap := h\<rparr>)" using h by (intro moves_heap) simp
    then show ?thesis using Pair None by (simp add: process_frame_fragment_def moving)
  next
    case (Some b)
    then show ?thesis
      using Pair h by (auto simp: process_frame_fragment_def moves_def moves_parts heap_moves_def split: if_splits)
  qed
qed

lemmas moves_fragment [moving] = moves_fragment0 [THEN moves_then]

lemma moves_continuation [moving]: "moves d w w1 \<Longrightarrow> moves d w (snd (on_continuation_frame f len needed w1))"
proof (cases "process_frame_fragment len needed w1")
  case (Pair r w2)
  assume "moves d w w1"
  then have m: "moves d w w2" using moves_fragment [of d w w1 len needed] Pair by simp
  then show ?thesis
    using Pair
    by (cases r; cases f; cases "fragmented_frame_type w2 = WS_FRAME_TYPE_UNKNOWN")
      (simp_all add: on_continuation_frame_def Let_def moving, intro moving m, simp_all add: opened_def)
qed

lemma moves_data_frame [moving]: "moves d w w1 \<Longrightarrow> moves d w (snd (on_data_frame t f len needed w1))"
proof (cases "process_frame_fragment len needed w1")
  case (Pair r w2)
  assume m1: "moves d w w1"
  then have m2: "moves d w w2" using moves_fragment [of d w w1 len needed] Pair by simp
  show ?thesis
  proof (cases f)
    case True
    then show ?thesis by (simp add: on_data_frame_def) (intro moving m1; simp add: opened_def)
  next
    case False
    then show ?thesis
      using Pair m1 m2 by (cases r) (simp_all add: on_data_frame_def moving)
  qed
qed

lemma moves_close_underlying_io [moving]: "moves d w w1 \<Longrightarrow> moves d w (close_underlying_io w1)"
proof (cases "xio_close (w1\<lparr>uws_state := UWS_STATE_CLOSING_UNDERLYING_IO\<rparr>)")
  case (Pair r w2)
  assume "moves d w w1"
  then have "moves d w w2"
    using moves_xio_close [OF moves_state, of d w w1 UWS_STATE_CLOSING_UNDERLYING_IO] Pair by simp
  then show ?thesis using Pair by (cases r) (simp_all add: close_underlying_io_def moving)
qed

lemma moves_xio_send_close [moving]: "moves d w w1 \<Longrightarrow> moves d w (snd (xio_send_close bs w1))"
  by (auto simp: xio_send_close_def Let_def split: prod.splits option.splits intro!: moving)

lemma moves_close_response [moving]:
  assumes "moves d w w1"
  shows "moves d w (send_close_response w1)"
proof -
  obtain frame h g where enc: "uws_frame_encoder_encode (ws_opcode WS_CLOSE_FRAME) None 0 True True 0
      (env_heap w1) (env_rng w1) = (frame, h, g)" by (metis prod_cases3)
  let ?f = "\<lambda>w. let w1 = w\<lparr>uws_state := UWS_STATE_CLOSING_SENDING_CLOSE\<rparr> in
    case frame of None \<Rightarrow> close_underlying_io w1
    | Some b \<Rightarrow> (case xio_send_close (buf_bytes b) w1 of
        (Success, w2) \<Rightarrow> w2 | (Failure, w2) \<Rightarrow> close_underlying_io w2)"
  have "moves e w (?f w2)" if "moves e w w2" for e w2
  proof (cases frame)
    case None
    then show ?thesis using that by (simp add: moving)
  next
    case (Some b)
    obtain r w3 where x: "xio_send_close (buf_bytes b) (w2\<lparr>uws_state := UWS_STATE_CLOSING_SENDING_CLOSE\<rparr>) = (r, w3)"
      by (metis surj_pair)
    then have "moves e w w3"
      using moves_xio_send_close [OF moves_state [OF that], of UWS_STATE_CLOSING_SENDING_CLOSE "buf_bytes b"] by simp
    then show ?thesis using Some x by (cases r) (simp_all add: moving)
  qed
  from moves_frame [OF enc assms this] show ?thesis
    using enc by (cases frame) (simp_all add: send_close_response_def Let_def state_heap_swap)
qed

lemma moves_close_frame [moving]:
  assumes "moves d w w1"
  shows "moves d w (on_close_frame f len needed w1)"
proof (cases "xio_close (w1\<lparr>uws_state := UWS_STATE_CLOSING_UNDERLYING_IO\<rparr>)")
  case (Pair r w2)
  then have m2: "moves d w w2"
    using moves_xio_close [OF moves_state [OF assms], of UWS_STATE_CLOSING_UNDERLYING_IO] by simp
  have m3: "moves d w (invoke (on_ws_peer_closed (send_close_response w1)) (\<lambda>n. PeerClosed n c x) (send_close_response w1))"
    for c x by (intro moving assms) (simp_all add: opened_def)
  show ?thesis
    using Pair m2 m3 assms by (cases r) (auto simp: on_close_frame_def Let_def moving)
qed

lemma moves_ping_frame [moving]:
  assumes "moves d w w1"
  shows "moves d w (on_ping_frame f len needed w1)"
proof -
  let ?p = "drop (needed - len) (stream w1)"
  obtain frame h g where enc: "uws_frame_encoder_encode (ws_opcode WS_PONG_FRAME) (Some ?p) len True True 0
      (env_heap w1) (env_rng w1) = (frame, h, g)" by (metis prod_cases3)
  let ?f = "\<lambda>w. case frame of None \<Rightarrow> w | Some b \<Rightarrow> snd (xio_send_unchecked (buf_bytes b) w)"
  have "moves d w (let w3 = ?f (w1\<lparr>env_heap := h, env_rng := g\<rparr>)
      in w3\<lparr>env_heap := BUFFER_delete frame (env_heap w3)\<rparr>)"
    by (rule moves_frame [OF enc assms]) (auto split: option.splits intro: moving)
  then show ?thesis
    using enc assms by (auto simp: on_ping_frame_def Let_def heap_rng_swap moving split: option.splits prod.splits)
qed

lemma moves_process_frame [moving]: "moves d w w1 \<Longrightarrow> moves d w (snd (process_frame opcode f len needed w1))"
  by (simp add: process_frame_def moving)

lemma moves_decode_frame [moving]:
  assumes "moves d w w1"
  shows "moves d w (snd (decode_frame w1))"
proof -
  let ?w = "if stream w1 ! 1 AND 0x80 \<noteq> 0 then indicate_ws_error_and_close WS_ERROR_BAD_FRAME_RECEIVED 1002 w1 else w1"
  have "moves d w ?w" using assms by (auto intro: moving)
  moreover obtain needed len err where "frame_length ?w = (needed, len, err)" by (metis prod_cases3)
  ultimately show ?thesis
    using assms by (auto simp: decode_frame_def Let_def moving case_prod_unfold simp del: if_split)
qed

text \<open>The client becomes open and says so.\<close>

lemma moves_upgrade_event:
  "moves 0 w (invoke (on_ws_open_complete w) (\<lambda>n. OpenComplete n (open_detail WS_OPEN_OK (Code 0)))
     (w\<lparr>uws_state := UWS_STATE_OPEN\<rparr>))"
proof (cases "on_ws_open_complete w")
  case None
  then show ?thesis by (auto simp: moves_def moves_parts invoke_def emit_def)
next
  case (Some n)
  have "\<exists>m d. OpenComplete m d \<in> set (es @ [OpenComplete n (open_detail WS_OPEN_OK (Code 0))]) \<and>
      ws_open_result d = WS_OPEN_OK" for es
    by (intro exI [of _ n] exI [of _ "open_detail WS_OPEN_OK (Code 0)"]) (simp add: open_detail_def)
  then show ?thesis using Some
    by (simp add: moves_def invoke_def emit_def upgrade_inv_def)
      (auto simp: moves_parts)
qed

lemma moves_upgrade_response [moving]:
  assumes "moves d w w1"
  shows "moves d w (snd (on_upgrade_response k w1))"
proof -
  obtain parsed status errno where
    p: "ParseHttpResponse (Some (map char_of_byte (stream w1))) (env_errno w1) = (parsed, status, errno)"
    by (metis prod_cases3)
  let ?w2 = "w1\<lparr>env_errno := errno\<rparr>"
  let ?w3 = "(consume_stream_buffer_bytes (k + 4) ?w2)\<lparr>uws_state := UWS_STATE_OPEN\<rparr>"
  have m: "moves d w ?w2" using assms by (intro moving)
  have "moves d w (invoke (on_ws_open_complete ?w3) (\<lambda>n. OpenComplete n (open_detail WS_OPEN_OK (Code 0))) ?w3)"
    by (simp, intro moves_then [OF moves_upgrade_event] moving assms)
  with m show ?thesis by (simp add: on_upgrade_response_def p Let_def moving)
qed

lemma moves_decode_upgrade [moving]:
  "moves d w w1 \<Longrightarrow> stream_buffer w1 \<noteq> None \<Longrightarrow> moves d w (snd (decode_upgrade_response w1))"
  by (auto simp: decode_upgrade_response_def Let_def split: option.splits intro!: moving)

lemma moves_decode_step:
  assumes "moves d w w1" and "stream_buffer w1 \<noteq> None"
  shows "moves d w (snd (decode_step w1)) \<and> stream_buffer (snd (decode_step w1)) \<noteq> None"
proof -
  have "stream_buffer (snd (decode_frame w1)) \<noteq> None"
    using assms(2) keepsD(1) [OF keeps_error_and_close [OF keeps_refl]] keepsD(1) [OF keeps_reports(3) [OF keeps_refl]]
    by (auto simp: decode_frame_def Let_def consume_stream_buffer_bytes_def case_prod_unfold)
  moreover have "stream_buffer (snd (decode_upgrade_response w1)) \<noteq> None"
    using keepsD(1) [OF keeps_invoke [OF keeps_refl]] keepsD(1) [OF keeps_open_error [OF keeps_refl]]
    by (auto simp: decode_upgrade_response_def on_upgrade_response_def Let_def consume_stream_buffer_bytes_def split: option.splits prod.splits if_splits)
  moreover have "stream_buffer (indicate_ws_open_complete_error_and_close r w1) \<noteq> None" for r
    using assms(2) keepsD(1) [OF keeps_open_error [OF keeps_refl]] by simp
  ultimately show ?thesis
    using assms by (cases "uws_state w1") (simp_all add: decode_step_def moving)
qed

lemma moves_decode_loop [moving]: "moves d w w1 \<Longrightarrow> stream_buffer w1 \<noteq> None \<Longrightarrow> moves d w (decode_loop w1)"
proof (induction w1 rule: decode_loop.induct)
  case (1 w1)
  obtain again w2 where s: "decode_step w1 = (again, w2)" by (cases "decode_step w1")
  then have "moves d w w2" "stream_buffer w2 \<noteq> None" using moves_decode_step [OF 1(2,3)] by simp_all
  then show ?case using 1(1) [OF s [symmetric] refl] s by (cases again) (subst decode_loop.simps; simp)+
qed

lemma moves_append_received:
  assumes "append_received buffer sz w = (ok, w1)"
  shows "moves 0 w w1" "ok \<Longrightarrow> stream_buffer w1 \<noteq> None"
proof -
  obtain r h where Pair: "realloc_block byte_cell (stream_buffer w) (stream_buffer_count w + sz + 1) (env_heap w) = (r, h)"
    by (cases "realloc_block byte_cell (stream_buffer w) (stream_buffer_count w + sz + 1) (env_heap w)")
  note h = realloc_heap [OF Pair]
  show "moves 0 w w1"
  proof (cases r)
    case None
    then have "w1 = w\<lparr>env_heap := h\<rparr>" using assms Pair by (simp add: append_received_def)
    then show ?thesis using moves_heap [of 0 w h] None h by simp
  next
    case (Some b)
    then have "w1 = w\<lparr>env_heap := h, stream_buffer := Some (memcpy_at b (stream_buffer_count w) buffer sz),
        stream_buffer_count := stream_buffer_count w + sz\<rparr>"
      using assms Pair by (simp add: append_received_def)
    then show ?thesis
      using h Some by (cases "stream_buffer w")
        (simp_all add: moves_def moves_parts heap_moves_def, (meson order_less_le_trans)+)
  qed
  show "ok \<Longrightarrow> stream_buffer w1 \<noteq> None" using assms by (auto simp: append_received_def split: option.splits prod.splits)
qed

lemma moves_receive_in_open: "moves 0 w (receive_in_open buffer sz w)"
proof (cases "append_received buffer sz w")
  case (Pair ok w1)
  note m = moves_append_received [OF Pair]
  show ?thesis
  proof (cases ok)
    case False
    then show ?thesis using Pair m(1) by (simp add: receive_in_open_def moving)
  next
    case True
    have "moves 0 w (decode_loop (w1\<lparr>stream_buffer := Some ((stream w1)[stream_buffer_count w1 := 0])\<rparr>))"
      using m True by (intro moving) simp_all
    then show ?thesis using Pair True by (simp add: receive_in_open_def)
  qed
qed

lemma moves_bytes_received: "moves 0 w (on_underlying_io_bytes_received c buffer sz w)"
proof -
  obtain ok w1 where a: "append_received (the buffer) sz w = (ok, w1)" by (metis surj_pair)
  note m = moves_append_received [OF a]
  have "moves 0 w (case (ok, w1) of
      (False, w1) \<Rightarrow> indicate_ws_open_complete_error_and_close
        (open_detail WS_OPEN_ERROR_NOT_ENOUGH_MEMORY Failure_Line) w1
    | (True, w1) \<Rightarrow> decode_loop w1)"
    using m by (cases ok) (simp_all add: moving)
  then show ?thesis
    by (cases "uws_state w")
      (simp_all add: on_underlying_io_bytes_received_def a moves_receive_in_open moving)
qed

section \<open>Sending\<close>

lemma send_complete_eq:
  assumes "a \<in> fst ` set (pending_sends w)"
  shows "\<exists>p q. map_of (pending_sends w) a = Some p \<and>
    on_underlying_io_send_complete (Some a) r w = snd (complete_send_frame p a q w)"
proof -
  obtain p where p: "map_of (pending_sends w) a = Some p"
    using assms by (metis map_of_eq_None_iff not_None_eq)
  then show ?thesis
    using moves_complete_send_frame(1) [OF p]
    by (simp add: on_underlying_io_send_complete_def Let_def case_prod_unfold) blast
qed

lemma moves_send_complete:
  assumes "case c of None \<Rightarrow> True | Some a \<Rightarrow> a \<in> fst ` set (pending_sends w)"
  shows "moves 0 w (on_underlying_io_send_complete c r w)"
proof (cases c)
  case None
  then show ?thesis by (simp add: on_underlying_io_send_complete_def)
next
  case (Some a)
  then show ?thesis
    using assms send_complete_eq [of a w r] moves_complete_send_frame(2) by fastforce
qed

lemma moves_on_error: "moves 0 w (on_underlying_io_error c w)"
  by (cases "uws_state w"; cases c) (simp_all add: on_underlying_io_error_def moving)

lemma moves_close_async: "moves 0 w (snd (uws_client_close_async c cb w))"
proof -
  let ?w = "w\<lparr>on_ws_close_complete := cb, uws_state := UWS_STATE_CLOSING_UNDERLYING_IO\<rparr>"
  obtain r w1 where x: "xio_close ?w = (r, w1)" by (metis surj_pair)
  have "moves 0 w ?w" by (intro moving moves_refl) simp
  then have "moves 0 w w1" using moves_xio_close [of 0 w ?w] x by simp
  then show ?thesis by (cases c; cases r) (simp_all add: uws_client_close_async_def x moving)
qed

lemma moves_handshake: "moves 0 w (snd (uws_client_close_handshake_async c code cb w))"
  by (cases c) (simp_all add: uws_client_close_handshake_async_def moving)

lemma moves_dowork: "moves 0 w (uws_client_dowork c w)"
  by (cases c) (auto simp: uws_client_dowork_def Let_def intro!: moving)

section \<open>Opening\<close>

lemma headers_heap: "get_request_headers m h = (r, h') \<Longrightarrow> heap_moves (if r = None then 0 else 1) h h'"
  by (auto simp: get_request_headers_def heap_moves_def mem_defs Let_def
      split: MAP_RESULT.splits option.splits prod.splits if_splits)

lemma nonce_heap:
  assumes "Base64_Encode_Bytes (Some bs) (length bs) h = (r, h')"
  shows "heap_moves (if r = None then 0 else 2) h h'"
proof -
  have "mem_calls h \<le> mem_calls h'"
    using assms by (auto simp: Base64_Encode_Bytes_def Base64_Encode_Internal_def STRING_new_def alloc_STRING_def
        STRING_new_with_memory_def malloc_chars_def mem_defs Let_def split: if_splits prod.splits option.splits)
  then show ?thesis
    using Base64_Encode_Bytes_encodes [OF assms] by (auto simp: heap_moves_def encoded_as_def split: option.splits)
qed

lemma length_rand_bytes: "length (fst (rand_bytes n g)) = n"
  by (induction n arbitrary: g) (simp_all add: case_prod_unfold Let_def)

lemma moves_issue_upgrade: "moves 0 w (issue_upgrade_request nonce headers w)"
proof -
  let ?a = "authority_host_length (Some (hostname w))"
  let ?p = "port_length_loop (sint (port w)) (if sint (port w) < 0 then 1 else 0)"
  let ?len = "upgrade_request_length w ?a ?p nonce headers"
  let ?sz = "safe_add_size_t ?len 1"
  obtain b h where m: "malloc_block char_of_byte ?sz (env_heap w) = (b, h)" by (metis surj_pair)
  have h: "heap_moves (if b = None then 0 else 1) (env_heap w) h"
    using m by (auto simp: malloc_block_def heap_moves_def mem_defs split: if_splits)
  let ?w1 = "w\<lparr>env_heap := h\<rparr>"
  show ?thesis
  proof (cases b)
    case None
    then show ?thesis
      using m moves_heap [of 0 w h] h by (simp add: issue_upgrade_request_def Let_def moving)
  next
    case (Some block)
    have w1: "moves 1 w ?w1" using moves_heap [of 1 w h] h Some by simp
    let ?w2 = "case upgrade_request_fill ?w1 ?a ?p nonce headers block of
        None \<Rightarrow> open_failed WS_OPEN_ERROR_CONSTRUCTING_UPGRADE_REQUEST ?w1
      | Some request \<Rightarrow>
          (case xio_send_unchecked (map byte_of_char (take ?len request)) ?w1 of
             (Failure, w2) \<Rightarrow> open_failed WS_OPEN_ERROR_CANNOT_SEND_UPGRADE_REQUEST w2
           | (Success, w2) \<Rightarrow> w2\<lparr>uws_state := UWS_STATE_WAITING_FOR_UPGRADE_RESPONSE\<rparr>)"
    have "moves 1 w ?w2"
      using w1 moves_xio_send_unchecked [OF w1]
      by (auto split: option.splits prod.splits rc.splits intro!: moving) (metis snd_conv)+
    moreover have "heap_moves (- 1) (env_heap ?w2) (c_free (Some block) (env_heap ?w2))"
      by (simp add: heap_moves_def c_free_def)
    ultimately have "moves (1 + - 1) w (free_block (Some block) ?w2)"
      by (intro moves_trans [OF _ moves_heap])
    then show ?thesis
      using m Some by (simp add: issue_upgrade_request_def Let_def moving)
  qed
qed

lemma moves_send_upgrade: "moves (- 3) w (send_upgrade_request s headers w)"
proof -
  let ?w3 = "issue_upgrade_request (str_s s) headers w"
  have "heap_moves (- 3) (env_heap ?w3) (c_free (Some headers) (STRING_delete (Some s) (env_heap ?w3)))"
    by (simp add: heap_moves_def STRING_delete_def c_free_def free_struct_def)
  from moves_trans [OF moves_issue_upgrade moves_heap [OF this]]
  show ?thesis by (simp add: send_upgrade_request_def Let_def)
qed

text \<open>The failure after which two blocks are lost: the headers could not be allocated.\<close>

definition construct_failures :: "ws_event list \<Rightarrow> nat" where
  "construct_failures es =
     length (filter (\<lambda>e. \<exists>n. e = OpenComplete n (open_detail WS_OPEN_ERROR_CONSTRUCTING_UPGRADE_REQUEST (Code 0))) es)"

text \<open>A step may lose two blocks for each such failure it reports, and no others.\<close>

definition moves_leaking :: "uws_world \<Rightarrow> uws_world \<Rightarrow> bool" where
  "moves_leaking w w' \<longleftrightarrow> (\<exists>d. moves d w w' \<and> 0 \<le> d \<and>
     (opened w \<longrightarrow> d \<le> 2 * (int (construct_failures (events w')) - int (construct_failures (events w)))))"

lemma moves_events: "moves d w w' \<Longrightarrow> \<exists>es. events w' = events w @ es"
  by (simp add: moves_def)

lemma moves_leakingI: "moves 0 w w' \<Longrightarrow> moves_leaking w w'"
  unfolding moves_leaking_def using moves_events [of 0 w w'] by (intro exI [of _ 0]) (auto simp: construct_failures_def)

lemma moves_leaking_open_complete: "moves_leaking w (on_underlying_io_open_complete c r w)"
proof (cases "c = NULL_HANDLE \<or> uws_state w \<noteq> UWS_STATE_OPENING_UNDERLYING_IO \<or> fst r \<noteq> IO_OPEN_OK")
  case True
  then show ?thesis
    by (cases c; cases r; cases "fst r")
      (auto simp: on_underlying_io_open_complete_def intro!: moves_leakingI moving)
next
  case False
  obtain nonce g where n: "rand_bytes 16 (env_rng w) = (nonce, g)" by (metis surj_pair)
  then have "length nonce = 16" using length_rand_bytes [of 16 "env_rng w"] by simp
  obtain s h where b: "Base64_Encode_Bytes (Some nonce) 16 (env_heap w) = (s, h)" by (metis surj_pair)
  have h: "heap_moves (if s = None then 0 else 2) (env_heap w) h"
    using nonce_heap [of nonce "env_heap w"] b \<open>length nonce = 16\<close> by simp
  let ?w1 = "w\<lparr>env_rng := g, env_heap := h\<rparr>"
  have w1: "moves (if s = None then 0 else 2) w ?w1"
    using moves_trans [OF moves_update0(3) moves_heap [of _ "w\<lparr>env_rng := g\<rparr>" h]] h by simp
  obtain hd h1 where q: "get_request_headers (Some (request_headers ?w1)) (env_heap ?w1) = (hd, h1)" by (metis surj_pair)
  then have q': "get_request_headers (Some (request_headers w)) h = (hd, h1)" by simp
  let ?w2 = "?w1\<lparr>env_heap := h1\<rparr>"
  have w2: "moves (if hd = None then 0 else 1) ?w1 ?w2" using moves_heap [OF headers_heap [OF q]] .
  show ?thesis
  proof (cases s)
    case None
    then show ?thesis
      using False n b w1 by (cases r; cases c) (auto simp: on_underlying_io_open_complete_def Let_def intro!: moves_leakingI moving)
  next
    case (Some nonce_string)
    show ?thesis
    proof (cases hd)
      case None
      let ?e = "open_detail WS_OPEN_ERROR_CONSTRUCTING_UPGRADE_REQUEST (Code 0)"
      let ?w' = "indicate_ws_open_complete_error_and_close ?e ?w2"
      have "moves 2 w ?w2" using moves_trans [OF w1 w2] None Some by simp
      then have m: "moves 2 w ?w'" by (intro moving)
      have "opened w \<Longrightarrow> construct_failures (events ?w') = Suc (construct_failures (events w))"
        by (auto simp: indicate_ws_open_complete_error_and_close_def indicate_ws_open_complete_error_def invoke_def
            emit_def xio_close_quietly_def construct_failures_def opened_def Let_def)
      then have "moves_leaking w ?w'" using m by (auto simp: moves_leaking_def intro!: exI [of _ 2])
      then show ?thesis
        using False n b q' None Some by (cases r; cases c) (simp_all add: on_underlying_io_open_complete_def Let_def)
    next
      case (Some headers)
      have "moves 3 w ?w2" using moves_trans [OF w1 w2] Some \<open>s = Some nonce_string\<close> by simp
      from moves_trans [OF this moves_send_upgrade]
      have "moves 0 w (send_upgrade_request nonce_string headers ?w2)" by simp
      then show ?thesis
        using False n b q' Some \<open>s = Some nonce_string\<close>
        by (cases r; cases c) (auto simp: on_underlying_io_open_complete_def Let_def intro: moves_leakingI)
    qed
  qed
qed

lemma moves_leaking_trans: "moves_leaking w w1 \<Longrightarrow> moves_leaking w1 w2 \<Longrightarrow> moves_leaking w w2"
proof -
  assume "moves_leaking w w1" "moves_leaking w1 w2"
  then obtain d e where "moves d w w1" "0 \<le> d" "moves e w1 w2" "0 \<le> e"
    "opened w \<longrightarrow> d \<le> 2 * (int (construct_failures (events w1)) - int (construct_failures (events w)))"
    "opened w1 \<longrightarrow> e \<le> 2 * (int (construct_failures (events w2)) - int (construct_failures (events w1)))"
    by (auto simp: moves_leaking_def)
  moreover from this have "opened w \<longrightarrow> opened w1" by (auto simp: moves_def)
  ultimately show ?thesis
    unfolding moves_leaking_def by (intro exI [of _ "d + e"]) (auto intro: moves_trans)
qed

section \<open>Sending a frame\<close>

lemma moves_xio_send_frame:
  "a \<in> fst ` set (pending_sends w) \<Longrightarrow> moves 0 w (snd (xio_send_frame bs a w))"
proof -
  assume a: "a \<in> fst ` set (pending_sends w)"
  let ?w = "emit (IoSend bs) (w\<lparr>xio_calls := Suc (xio_calls w)\<rparr>)"
  have w: "moves 0 w ?w" by (intro moving moves_refl) simp_all
  have "moves 0 ?w (on_underlying_io_send_complete (Some a) r ?w)" for r
    using a by (intro moves_send_complete) (simp add: emit_def)
  with w show ?thesis
    by (auto simp: xio_send_frame_def Let_def split: prod.splits option.splits intro: moves_then)
qed

text \<open>A new item at the end of the pending sends, with its structure and its node.\<close>

lemma add_pending:
  assumes "heap_moves e (env_heap w) h" and "pairs_add (pending_sends w) \<lparr>on_ws_send_frame_complete = cb\<rparr> h = (item, ps, h2)"
  shows "case item of
      None \<Rightarrow> ps = pending_sends w \<and> heap_moves 0 h h2
    | Some a \<Rightarrow> a \<in> fst ` set ps \<and> (pend_ok w \<longrightarrow> a \<notin> fst ` set (pending_sends w) \<and> distinct (map fst ps) \<and>
        (\<forall>a \<in> fst ` set ps. a < mem_calls h2)) \<and>
        ps = pending_sends w @ [(a, \<lparr>on_ws_send_frame_complete = cb\<rparr>)] \<and> heap_moves 1 h h2"
  using assms by (auto simp: pairs_add_def heap_moves_def mem_defs pend_ok_def split: if_splits) fastforce+

lemma promised_add:
  "promised n (ps @ [(a, \<lparr>on_ws_send_frame_complete = cb\<rparr>)]) = promised n ps + (if cb = Some n then 1 else 0)"
  by (auto simp: promised_def)

text \<open>
  The outcome of a send on the books. When the IO accepts the frame the promise is added (and
  may have been kept already); when it does not, everything is as before, except that a
  completion the IO has signalled all the same is counted.
\<close>

definition send_outcome :: "callback \<Rightarrow> rc \<Rightarrow> bool \<Rightarrow> uws_world \<Rightarrow> uws_world \<Rightarrow> bool" where
  "send_outcome cb r signalled w w' \<longleftrightarrow>
     (pend_ok w \<longrightarrow> pend_ok w' \<and> balance w' = balance w \<and>
        (\<forall>n. sends n w' = sends n w + (if (r = Success \<or> signalled) \<and> cb = Some n then 1 else 0))) \<and>
     mem_calls (env_heap w) \<le> mem_calls (env_heap w') \<and>
     (opened w \<longrightarrow> opened w' \<and> (sane w \<longrightarrow> sane w') \<and> (upgrade_inv w \<longrightarrow> upgrade_inv w')) \<and>
     config w' = config w \<and> (\<exists>es. events w' = events w @ es)"

lemma send_outcome_refused: "moves 0 w w' \<Longrightarrow> send_outcome cb Failure False w w'"
  by (simp add: send_outcome_def moves_def)

lemma xio_send_frame_pending:
  assumes "a \<in> fst ` set (pending_sends w)" and "xio_send_answer w (xio_calls w) = (result, now)"
  shows "fst (xio_send_frame bs a w) = result"
    "now = None \<Longrightarrow> pending_sends (snd (xio_send_frame bs a w)) = pending_sends w"
    "now \<noteq> None \<Longrightarrow> pending_sends (snd (xio_send_frame bs a w)) = filter (\<lambda>q. fst q \<noteq> a) (pending_sends w)"
proof -
  show "fst (xio_send_frame bs a w) = result"
    "now = None \<Longrightarrow> pending_sends (snd (xio_send_frame bs a w)) = pending_sends w"
    using assms(2) by (simp_all add: xio_send_frame_def emit_def Let_def)
  let ?w = "emit (IoSend bs) (w\<lparr>xio_calls := Suc (xio_calls w)\<rparr>)"
  assume "now \<noteq> None"
  then obtain r where r: "now = Some r" by blast
  have "a \<in> fst ` set (pending_sends ?w)" using assms(1) by (simp add: emit_def)
  then obtain p q where "on_underlying_io_send_complete (Some a) r ?w = snd (complete_send_frame p a q ?w)"
    using send_complete_eq by blast
  then show "pending_sends (snd (xio_send_frame bs a w)) = filter (\<lambda>q. fst q \<noteq> a) (pending_sends w)"
    using assms(2) r by (simp add: xio_send_frame_def complete_send_frame_pending) (simp add: emit_def)
qed

lemma filter_last:
  "a \<notin> fst ` set ps \<Longrightarrow> filter (\<lambda>q. fst q \<noteq> a) (ps @ [(a, p)]) = ps"
  by (induction ps) auto

lemma pairs_find_node: "(pairs_find ps (\<lambda>n _. find_list_node a n) \<noteq> None) = (a \<in> fst ` set ps)"
  by (force simp: pairs_find_def find_list_node_def find_None_iff)

text \<open>From the list with the new item on: the send, and the removal when it is refused.\<close>

lemma send_after_add:
  assumes "pending_sends w1 = pending_sends w @ [(a, \<lparr>on_ws_send_frame_complete = cb\<rparr>)]"
    and "events w1 = events w" "config w1 = config w" "opened w1 = opened w"
    and "xio_calls w1 = xio_calls w \<and> uws_state w1 = uws_state w"
    and "stream_buffer w1 = stream_buffer w" "fragment_buffer w1 = fragment_buffer w"
    and "heap_moves (2 + b) (env_heap w) (env_heap w1)"
    and "pend_ok w \<longrightarrow> pend_ok w1 \<and> a \<notin> fst ` set (pending_sends w)"
    and ans: "xio_send_answer w (xio_calls w) = (result, now)"
    and "w3 = (case xio_send_frame bs a w1 of
        (Success, w2) \<Rightarrow> (Success, w2)
      | (Failure, w2) \<Rightarrow>
          (if pairs_find (pending_sends w2) (\<lambda>n _. find_list_node a n) \<noteq> None then
             (let (_, ps3, h3) = pairs_remove (pending_sends w2) a (env_heap w2) in
              (Failure, w2\<lparr>pending_sends := ps3, env_heap := free_struct h3\<rparr>))
           else (Failure, w2)))"
    and h: "heap_moves (- b) (env_heap (snd w3)) h"
  shows "fst w3 = result \<and> send_outcome cb result (now \<noteq> None) w ((snd w3)\<lparr>env_heap := h\<rparr>)"
proof -
  have a: "a \<in> fst ` set (pending_sends w1)" using assms(1) by simp
  have "xio_send_answer w1 (xio_calls w1) = (result, now)" using ans assms(3,5) by (simp add: config_def)
  note answer = a this
  obtain w2 where x: "xio_send_frame bs a w1 = (result, w2)"
    using xio_send_frame_pending(1) [OF answer, of bs] by (cases "xio_send_frame bs a w1") simp
  note pend = xio_send_frame_pending(2,3) [OF answer, of bs, unfolded x snd_conv]
  have m: "moves 0 w1 w2" using moves_xio_send_frame [OF a, of bs] x by simp
  have add: "pend_ok w \<longrightarrow> pend_ok w1 \<and> balance w1 = balance w + b \<and>
      (\<forall>n. sends n w1 = sends n w + (if cb = Some n then 1 else 0))"
    using assms(1-9) by (auto simp: balance_def owned_def sends_def promised_add heap_moves_def config_def)
  have same: "sane w1 = sane w" "upgrade_inv w1 = upgrade_inv w"
    using assms(2,5) by (simp_all add: sane_def upgrade_inv_def)
  show ?thesis
  proof (cases "result = Failure \<and> now = None")
    case False
    have "w3 = (result, w2)"
    proof (cases result)
      case Success
      then show ?thesis using assms(11) x by simp
    next
      case Failure
      then have "now \<noteq> None" using False by simp
      then have "a \<notin> fst ` set (pending_sends w2)" using pend(2) by auto
      then show ?thesis using assms(11) x Failure by (simp add: pairs_find_node del: not_None_eq)
    qed
    moreover from this have "moves (- b) w2 (w2\<lparr>env_heap := h\<rparr>)" using h by (intro moves_heap) simp
    with m have "moves (- b) w1 (w2\<lparr>env_heap := h\<rparr>)" using moves_trans by fastforce
    ultimately show ?thesis
      using False add assms(2-4,8) same
      by (cases result) (auto simp: send_outcome_def moves_def heap_moves_def config_def)
  next
    case True
    then have p: "pending_sends w2 = pending_sends w @ [(a, \<lparr>on_ws_send_frame_complete = cb\<rparr>)]"
      using pend(1) assms(1) by simp
    then have w3: "w3 = (Failure, w2\<lparr>pending_sends := filter (\<lambda>q. fst q \<noteq> a) (pending_sends w2),
        env_heap := free_struct (free_struct (env_heap w2))\<rparr>)"
      using assms(11) x True by (simp add: pairs_find_node pairs_remove_def del: not_None_eq)
    have heap: "heap_moves (- 2 - b) (env_heap w2) h"
      using h by (simp add: w3 heap_moves_def free_struct_def)
    have split: "promised n (pending_sends w2) = promised n (pending_sends w) + (if cb = Some n then 1 else 0)" for n
      unfolding p by (rule promised_add)
    have ok: "filter (\<lambda>q. fst q \<noteq> a) (pending_sends w2) = pending_sends w" if "pend_ok w"
      unfolding p by (rule filter_last) (use that assms(9) in simp)
    have "sends n ((snd w3)\<lparr>env_heap := h\<rparr>) = sends n w" if "pend_ok w" for n
    proof -
      have "sends n w2 = sends n w + (if cb = Some n then 1 else 0)" using that add m by (simp add: moves_def)
      then show ?thesis using split [of n] ok [OF that] by (simp add: w3 sends_def)
    qed
    moreover have "balance ((snd w3)\<lparr>env_heap := h\<rparr>) = balance w" if "pend_ok w"
    proof -
      have "balance w2 = balance w + b" using that add m by (simp add: moves_def)
      moreover have "owned w2 = owned ((snd w3)\<lparr>env_heap := h\<rparr>) + 2"
        using p ok [OF that] by (simp add: w3 owned_def)
      ultimately show ?thesis using heap by (simp add: balance_def heap_moves_def)
    qed
    moreover have "pend_ok ((snd w3)\<lparr>env_heap := h\<rparr>)" if "pend_ok w"
    proof -
      have "mem_calls (env_heap w) \<le> mem_calls h" using m heap assms(8) by (simp add: moves_def heap_moves_def)
      then show ?thesis using that ok [OF that] by (fastforce simp: w3 pend_ok_def)
    qed
    moreover have "opened w2" "sane w \<longrightarrow> sane w2" "upgrade_inv w \<longrightarrow> upgrade_inv w2" if "opened w"
      using that m assms(4) same by (simp_all add: moves_def)
    moreover have "\<exists>es. events w2 = events w @ es" "config w2 = config w"
      "mem_calls (env_heap w) \<le> mem_calls h"
      using m assms(2,3,8) heap by (simp_all add: moves_def heap_moves_def)
    ultimately show ?thesis
      using True
      by (auto simp: w3 send_outcome_def moves_def heap_moves_def config_def opened_def sane_def upgrade_inv_def)
  qed
qed

lemma moves_heap_rng:
  "heap_moves e (env_heap w) h \<Longrightarrow> moves e w (w\<lparr>env_heap := h, env_rng := g\<rparr>)"
  by (auto simp: moves_def moves_parts heap_moves_def)

lemma heap_moves_trans: "heap_moves d h h1 \<Longrightarrow> heap_moves e h1 h2 \<Longrightarrow> heap_moves (d + e) h h2"
  by (simp add: heap_moves_def)

lemma heap_moves_free: "heap_moves (- 1) h (free_struct h)"
  by (simp add: heap_moves_def free_struct_def)

lemma send_frame_outcome:
  assumes "uws_client_send_frame_async c frame_type buffer sz f cb w = (r, w')"
    and ans: "xio_send_answer w (xio_calls w) = (result, now)"
  shows "send_outcome cb r False w w' \<or> (send_outcome cb r (now \<noteq> None) w w' \<and> r = result)"
proof (cases "c = NULL_HANDLE \<or> (buffer = None \<and> sz > 0) \<or> uws_state w \<noteq> UWS_STATE_OPEN")
  case True
  then have "r = Failure" "w' = w" using assms(1) by (auto simp: uws_client_send_frame_async_def split: if_splits)
  then show ?thesis using send_outcome_refused [of w w cb] by simp
next
  case False
  obtain ok h where m: "malloc_struct (env_heap w) = (ok, h)" by (metis surj_pair)
  have h: "heap_moves (if ok then 1 else 0) (env_heap w) h"
    using m by (auto simp: malloc_struct_def heap_moves_def mem_defs)
  show ?thesis
  proof (cases ok)
    case False
    then have "r = Failure" "w' = w\<lparr>env_heap := h\<rparr>"
      using assms(1) m \<open>\<not> (c = NULL_HANDLE \<or> _ \<or> _)\<close> by (auto simp: uws_client_send_frame_async_def)
    then show ?thesis using moves_heap [of 0 w h] h False send_outcome_refused by simp
  next
    case True
    obtain frame h1 g where enc: "uws_frame_encoder_encode (ucast frame_type) buffer sz True f 0 h (env_rng w) = (frame, h1, g)"
      by (metis prod_cases3)
    have h1: "heap_moves (1 + buf_blocks frame) (env_heap w) h1"
      using heap_moves_trans [OF _ encode_heap [OF enc]] h True by simp
    show ?thesis
    proof (cases frame)
      case None
      then have "r = Failure" "w' = w\<lparr>env_heap := free_struct h1, env_rng := g\<rparr>"
        using assms(1) m enc True False by (auto simp: uws_client_send_frame_async_def)
      moreover have "heap_moves 0 (env_heap w) (free_struct h1)"
        using heap_moves_trans [OF h1 heap_moves_free] None by (simp add: buf_blocks_def)
      ultimately show ?thesis using moves_heap_rng send_outcome_refused by blast
    next
      case (Some b)
      obtain item ps h2 where add: "pairs_add (pending_sends w) \<lparr>on_ws_send_frame_complete = cb\<rparr> h1 = (item, ps, h2)"
        by (metis prod_cases3)
      note added = add_pending [OF h1 add]
      show ?thesis
      proof (cases item)
        case None
        let ?h = "BUFFER_delete frame (free_struct h2)"
        have "r = Failure" "w' = w\<lparr>pending_sends := ps, env_heap := ?h, env_rng := g\<rparr>"
          using assms(1) m enc add True False Some None by (auto simp: uws_client_send_frame_async_def Let_def)
        moreover have "heap_moves 0 (env_heap w) ?h"
          using heap_moves_trans [OF heap_moves_trans [OF heap_moves_trans [OF h1, of 0 h2] heap_moves_free] delete_heap, of frame]
            added None by simp
        ultimately show ?thesis
          using moves_heap_rng [of 0 w ?h g] send_outcome_refused added None
          by (simp add: uws_world.surjective)
      next
        case (Some a)
        let ?w1 = "w\<lparr>pending_sends := ps, env_heap := h2, env_rng := g\<rparr>"
        define w3 where "w3 = (case xio_send_frame (buf_bytes b) a ?w1 of
            (Success, w2) \<Rightarrow> (Success, w2)
          | (Failure, w2) \<Rightarrow>
              (if pairs_find (pending_sends w2) (\<lambda>n _. find_list_node a n) \<noteq> None then
                 (let (_, ps3, h3) = pairs_remove (pending_sends w2) a (env_heap w2) in
                  (Failure, w2\<lparr>pending_sends := ps3, env_heap := free_struct h3\<rparr>))
               else (Failure, w2)))"
        have w': "(r, w') = (fst w3, (snd w3)\<lparr>env_heap := BUFFER_delete frame (env_heap (snd w3))\<rparr>)"
          using assms(1) m enc add True False \<open>frame = Some b\<close> Some
          by (auto simp: uws_client_send_frame_async_def w3_def Let_def case_prod_unfold simp del: not_None_eq)
        have "fst w3 = result \<and> send_outcome cb result (now \<noteq> None) w
            ((snd w3)\<lparr>env_heap := BUFFER_delete frame (env_heap (snd w3))\<rparr>)"
        proof (rule send_after_add [OF _ _ _ _ _ _ _ _ _ ans w3_def delete_heap])
          show "heap_moves (2 + buf_blocks frame) (env_heap w) (env_heap ?w1)"
            using heap_moves_trans [OF h1, of 1 h2] added Some by (simp add: add.commute add.left_commute)
        qed (use added Some in \<open>auto simp: config_def opened_def pend_ok_def\<close>)
        then show ?thesis using w' by simp
      qed
    qed
  qed
qed

lemma open_async_outcome:
  assumes "uws_client_open_async c oc fr pc er w = (r, w')"
  shows "(w' = w \<and> r = Failure) \<or> (c = CLIENT \<and> uws_state w = UWS_STATE_CLOSED \<and> opened w' \<and> (sane w \<longrightarrow> sane w') \<and> upgrade_inv w' \<and>
    (\<exists>d. moves d w w' \<and> 0 \<le> d \<and> d \<le> 2 * (int (construct_failures (events w')) - int (construct_failures (events w)))))"
proof (cases "c = NULL_HANDLE \<or> oc = None \<or> fr = None \<or> pc = None \<or> er = None \<or> uws_state w \<noteq> UWS_STATE_CLOSED")
  case True
  then show ?thesis using assms by (auto simp: uws_client_open_async_def split: if_splits)
next
  case False
  let ?now = "env_time w (env_time_reads w)"
  let ?w1 = "w\<lparr>uws_state := UWS_STATE_OPENING_UNDERLYING_IO, env_time_reads := Suc (env_time_reads w),
                    open_start_time := ?now, last_open_wait_log_time := ?now,
                    stream_buffer_count := 0, fragment_buffer_count := 0,
                    fragmented_frame_type := WS_FRAME_TYPE_UNKNOWN,
                    on_ws_open_complete := oc, on_ws_frame_received := fr,
                    on_ws_peer_closed := pc, on_ws_error := er\<rparr>"
  let ?w2 = "emit IoOpen (?w1\<lparr>xio_calls := Suc (xio_calls ?w1)\<rparr>)"
  obtain result completed where x: "xio_open_answer ?w1 (xio_calls ?w1) = (result, completed)" by (metis surj_pair)
  let ?w3 = "case completed of None \<Rightarrow> ?w2 | Some q \<Rightarrow> on_underlying_io_open_complete CLIENT q ?w2"
  have o: "opened ?w2" "sane w \<longrightarrow> sane ?w2" "upgrade_inv ?w2" "construct_failures (events ?w2) = construct_failures (events w)"
    using False by (auto simp: opened_def sane_def emit_def upgrade_inv_def construct_failures_def)
  have m2: "moves 0 w ?w2"
    using False by (auto simp: moves_def moves_parts emit_def)
  have m3: "moves_leaking ?w2 ?w3"
    by (cases completed) (simp_all add: moves_leakingI moves_leaking_open_complete)
  have eq: "w' = ?w3 \<or> w' = ?w3\<lparr>uws_state := UWS_STATE_CLOSED\<rparr>"
    using assms False x by (cases result) (auto simp: uws_client_open_async_def Let_def)
  have m4: "moves_leaking ?w3 w'" using eq by (auto intro!: moves_leakingI moving)
  have m: "moves_leaking ?w2 w'" using moves_leaking_trans [OF m3 m4] .
  then obtain d where d: "moves d ?w2 w'" "0 \<le> d"
    "opened ?w2 \<longrightarrow> d \<le> 2 * (int (construct_failures (events w')) - int (construct_failures (events ?w2)))"
    by (auto simp: moves_leaking_def)
  have "opened w'" "sane w \<longrightarrow> sane w'" "upgrade_inv w'" using o d(1) by (auto simp: moves_def)
  moreover have "moves d w w'" using moves_trans [OF m2 d(1)] by simp
  moreover have "d \<le> 2 * (int (construct_failures (events w')) - int (construct_failures (events w)))"
    using d(3) o by simp
  ultimately show ?thesis using False d(2) by (cases c) auto
qed

end
