(* ===== verification/Uws_Machine.thy ===== *)
theory Uws_Machine
  imports Uws_Accounting
begin

text \<open>
  The WebSocket client as a machine: the calls of its users and of the underlying IO in any
  order, and what holds after any number of them. The IO keeps its side of the contract of
  \<open>inc/azure_c_shared_utility/xio.h\<close>: it calls back only after it has been opened, completes
  a send that is pending, and hands over the bytes it announces.
\<close>

section \<open>The bounds of the buffers\<close>

definition buffers_ok :: "uws_world \<Rightarrow> bool" where
  "buffers_ok w \<longleftrightarrow>
     (case stream_buffer w of None \<Rightarrow> stream_buffer_count w = 0 | Some b \<Rightarrow> stream_buffer_count w < length b) \<and>
     (case fragment_buffer w of None \<Rightarrow> fragment_buffer_count w = 0 | Some b \<Rightarrow> fragment_buffer_count w \<le> length b) \<and>
     fragmented_frame_type w \<in> {WS_FRAME_TYPE_UNKNOWN, WS_FRAME_TYPE_TEXT, WS_FRAME_TYPE_BINARY}"

declare option.case_cong [cong]

lemma keeps_buffers: "keeps w w' \<Longrightarrow> buffers_ok w' = buffers_ok w"
  by (simp add: keeps_def buffers_ok_def)

lemma buffers_consume:
  "buffers_ok w \<Longrightarrow> stream_buffer w \<noteq> None \<Longrightarrow> n \<le> stream_buffer_count w \<Longrightarrow>
     buffers_ok (consume_stream_buffer_bytes n w)"
  by (auto simp: buffers_ok_def consume_stream_buffer_bytes_def Let_def frame_type_defs)

lemma realloc_length:
  "realloc_block byte_cell p n h = (Some b, h') \<Longrightarrow> length b = n"
  by (auto simp: realloc_block_def malloc_block_def split: option.splits if_splits)

lemma frame_length_payload:
  assumes "frame_length w = (needed, len, False)" and "needed \<le> stream_buffer_count w"
  shows "len + 2 \<le> needed"
  using assms by (auto simp: frame_length_def Let_def split: if_splits)

lemma buffers_fragment:
  assumes "buffers_ok w" and "stream_buffer w \<noteq> None" and "needed \<le> stream_buffer_count w" and "len \<le> needed"
  shows "buffers_ok (snd (process_frame_fragment len needed w))"
proof -
  obtain r h where x: "realloc_block byte_cell (fragment_buffer w) (fragment_buffer_count w + len) (env_heap w) = (r, h)"
    by (metis surj_pair)
  have k: "keeps w (indicate_ws_error WS_ERROR_NOT_ENOUGH_MEMORY (w\<lparr>env_heap := h\<rparr>))"
    by (simp add: keeping)
  show ?thesis
  proof (cases r)
    case None
    then show ?thesis using x keeps_buffers [OF k] assms(1) by (simp add: process_frame_fragment_def)
  next
    case (Some b)
    have "len \<le> length (drop (needed - len) (stream w))"
      using assms by (auto simp: buffers_ok_def)
    then show ?thesis
      using x Some realloc_length [of "fragment_buffer w" _ "env_heap w" b h] assms(1)
      by (auto simp: process_frame_fragment_def buffers_ok_def)
  qed
qed

lemma buffers_process_frame:
  assumes "buffers_ok w" and "stream_buffer w \<noteq> None" and "needed \<le> stream_buffer_count w" and "len \<le> needed"
  shows "buffers_ok (snd (process_frame opcode f len needed w))"
proof -
  obtain r w1 where x: "process_frame_fragment len needed w = (r, w1)" by (metis surj_pair)
  then have w1: "buffers_ok w1" using buffers_fragment [OF assms] by simp
  have err: "buffers_ok (indicate_ws_error e w2) = buffers_ok w2" for e w2
    by (rule keeps_buffers) (simp add: keeping)
  have rec: "buffers_ok (invoke cb ev w2) = buffers_ok w2" for cb ev w2
    by (rule keeps_buffers) (simp add: keeping)
  have reset: "buffers_ok w2 \<Longrightarrow> buffers_ok (w2\<lparr>fragment_buffer_count := 0, fragmented_frame_type := WS_FRAME_TYPE_UNKNOWN\<rparr>)"
    for w2 by (simp add: buffers_ok_def split: option.splits)
  have "buffers_ok (snd (on_continuation_frame f len needed w))"
    using x w1 err rec reset by (cases r) (simp_all add: on_continuation_frame_def Let_def)
  moreover have "buffers_ok (snd (on_data_frame t f len needed w))"
    if "t \<in> {WS_FRAME_TYPE_TEXT, WS_FRAME_TYPE_BINARY}" for t
  proof -
    have "buffers_ok w2 \<Longrightarrow> buffers_ok (w2\<lparr>fragmented_frame_type := t\<rparr>)" for w2
      using that by (simp add: buffers_ok_def)
    then show ?thesis using x w1 err rec assms(1) by (cases r) (simp_all add: on_data_frame_def)
  qed
  moreover have "buffers_ok (on_close_frame f len needed w)" "buffers_ok (on_ping_frame f len needed w)"
    using keeps_buffers [OF keeps_close_frame [OF keeps_refl]] keeps_buffers [OF keeps_ping_frame [OF keeps_refl]]
      assms(1) by blast+
  ultimately show ?thesis using assms(1) by (simp add: process_frame_def)
qed

lemma buffers_decode_frame:
  assumes "buffers_ok w" and "stream_buffer w \<noteq> None"
  shows "buffers_ok (snd (decode_frame w))"
proof -
  define w1 where "w1 = (if stream w ! 1 AND 0x80 \<noteq> 0
      then indicate_ws_error_and_close WS_ERROR_BAD_FRAME_RECEIVED 1002 w else w)"
  have k: "keeps w w1" by (simp add: w1_def keeping)
  have w1: "buffers_ok w1" "stream_buffer w1 \<noteq> None"
    using keeps_buffers [OF k] keepsD(1) [OF k] assms by simp_all
  have err: "buffers_ok (indicate_ws_error e w1)" for e
    using w1 keeps_buffers [OF keeps_reports(3) [OF keeps_refl]] by blast
  obtain needed len bad where l: "frame_length w1 = (needed, len, bad)" by (metis prod_cases3)
  have ok: "buffers_ok (consume_stream_buffer_bytes needed (snd (process_frame opcode f len needed w1)))"
    if "\<not> bad" "needed \<le> stream_buffer_count w1" for opcode f
    using that l w1 frame_length_payload [of w1 needed len]
    by (intro buffers_consume buffers_process_frame) auto
  show ?thesis
    using assms(1) w1 err l ok
    unfolding decode_frame_def w1_def [symmetric] Let_def
    by (simp add: case_prod_unfold)
qed

lemma strstr_found:
  assumes "strstr s pat = Some k"
  shows "take (length pat) (drop k (cstr s)) = pat" "k + length pat \<le> length (cstr s) \<or> pat = []"
proof -
  show t: "take (length pat) (drop k (cstr s)) = pat"
    using assms unfolding strstr_def find_Some_iff by (auto simp del: take_drop drop_take)
  have "length (take (length pat) (drop k (cstr s))) = length pat" using t by simp
  then show "k + length pat \<le> length (cstr s) \<or> pat = []" by (cases pat) auto
qed

lemma buffers_on_upgrade:
  assumes "buffers_ok w" and "stream_buffer w \<noteq> None" and "k + 4 \<le> stream_buffer_count w"
  shows "buffers_ok (snd (on_upgrade_response k w))"
proof -
  obtain parsed status errno where
    p: "ParseHttpResponse (Some (map char_of_byte (stream w))) (env_errno w) = (parsed, status, errno)"
    by (metis prod_cases3)
  let ?w2 = "w\<lparr>env_errno := errno\<rparr>"
  have w2: "buffers_ok ?w2" using assms(1) by (simp add: buffers_ok_def)
  have err: "buffers_ok (indicate_ws_open_complete_error_and_close r ?w2)" for r
    using w2 keeps_buffers [OF keeps_open_error [OF keeps_refl]] by blast
  have "buffers_ok (consume_stream_buffer_bytes (k + 4) ?w2)"
    using w2 assms(2,3) by (intro buffers_consume) simp_all
  then have "buffers_ok (invoke cb ev ((consume_stream_buffer_bytes (k + 4) ?w2)\<lparr>uws_state := UWS_STATE_OPEN\<rparr>))" for cb ev
    by (simp add: buffers_ok_def invoke_def emit_def)
  then show ?thesis using err by (simp add: on_upgrade_response_def p Let_def)
qed

text \<open>The stream up to the stored terminator.\<close>

lemma terminated_stream:
  assumes "n < length b"
  shows "length (cstr (map char_of_byte (b[n := 0]))) \<le> n"
    "NUL \<notin> set (map char_of_byte (take n b)) \<Longrightarrow> cstr (map char_of_byte (b[n := 0])) = map char_of_byte (take n b)"
proof -
  have eq: "map char_of_byte (b[n := 0]) = map char_of_byte (take n b) @ NUL # map char_of_byte (drop (Suc n) b)"
    using assms by (simp add: upd_conv_take_nth_drop char_of_byte_def char_of_def)
  show "length (cstr (map char_of_byte (b[n := 0]))) \<le> n"
  proof (rule ccontr)
    assume "\<not> ?thesis"
    then have "n < length (takeWhile (\<lambda>c. c \<noteq> NUL) (map char_of_byte (b[n := 0])))" by (simp add: cstr_def)
    from nth_mem [OF this] have "takeWhile (\<lambda>c. c \<noteq> NUL) (map char_of_byte (b[n := 0])) ! n \<noteq> NUL"
      by (auto dest: set_takeWhileD)
    moreover have "takeWhile (\<lambda>c. c \<noteq> NUL) (map char_of_byte (b[n := 0])) ! n = NUL"
      using \<open>n < length (takeWhile _ _)\<close> assms by (simp add: takeWhile_nth eq nth_append)
    ultimately show False by simp
  qed
  show "NUL \<notin> set (map char_of_byte (take n b)) \<Longrightarrow> cstr (map char_of_byte (b[n := 0])) = map char_of_byte (take n b)"
    unfolding eq by (rule cstr_append_NUL) (simp add: c_string_def)
qed

lemma buffers_upgrade:
  assumes "buffers_ok w" and "stream_buffer w \<noteq> None"
  shows "buffers_ok (snd (decode_upgrade_response w))"
proof -
  let ?w = "w\<lparr>stream_buffer := Some ((stream w)[stream_buffer_count w := 0])\<rparr>"
  have w: "buffers_ok ?w" using assms by (auto simp: buffers_ok_def)
  have n: "stream_buffer_count w < length (stream w)" using assms by (auto simp: buffers_ok_def)
  have "buffers_ok (snd (on_upgrade_response k ?w))"
    if k: "strstr (map char_of_byte ((stream w)[stream_buffer_count w := 0])) (CRLF @ CRLF) = Some k" for k
  proof (rule buffers_on_upgrade [OF w])
    show "k + 4 \<le> stream_buffer_count ?w"
      using strstr_found(2) [OF k] terminated_stream(1) [OF n] by (simp add: CRLF_def)
  qed simp
  then show ?thesis using w by (auto simp: decode_upgrade_response_def Let_def split: option.splits)
qed

lemma buffers_decode_step:
  assumes "buffers_ok w" and "stream_buffer w \<noteq> None"
  shows "buffers_ok (snd (decode_step w))"
proof -
  have "buffers_ok (indicate_ws_open_complete_error_and_close r w)" for r
    using assms(1) keeps_buffers [OF keeps_open_error [OF keeps_refl]] by blast
  then show ?thesis
    using assms buffers_upgrade buffers_decode_frame by (cases "uws_state w") (simp_all add: decode_step_def)
qed

lemma buffers_decode_loop: "buffers_ok w \<Longrightarrow> stream_buffer w \<noteq> None \<Longrightarrow> buffers_ok (decode_loop w)"
proof (induction w rule: decode_loop.induct)
  case (1 w)
  obtain again w2 where s: "decode_step w = (again, w2)" by (cases "decode_step w")
  then have "buffers_ok w2" "stream_buffer w2 \<noteq> None"
    using moves_decode_step [OF moves_refl 1(3)] buffers_decode_step [OF 1(2,3)] by simp_all
  then show ?case using 1(1) [OF s [symmetric] refl] s by (cases again) (subst decode_loop.simps; simp)+
qed

lemma buffers_append:
  assumes "append_received buffer sz w = (ok, w1)" and "buffers_ok w" and "sz \<le> length buffer"
  shows "buffers_ok w1"
proof -
  obtain r h where x: "realloc_block byte_cell (stream_buffer w) (stream_buffer_count w + sz + 1) (env_heap w) = (r, h)"
    by (metis surj_pair)
  show ?thesis
  proof (cases r)
    case None
    then show ?thesis using x assms by (auto simp: append_received_def buffers_ok_def)
  next
    case (Some b)
    then show ?thesis
      using x assms realloc_length [of "stream_buffer w" _ "env_heap w" b h]
      by (auto simp: append_received_def buffers_ok_def)
  qed
qed

lemma buffers_received:
  assumes "buffers_ok w" and "case buffer of None \<Rightarrow> True | Some b \<Rightarrow> sz \<le> length b"
  shows "buffers_ok (on_underlying_io_bytes_received c buffer sz w)"
proof -
  have err: "buffers_ok (indicate_ws_open_complete_error_and_close r w1) = buffers_ok w1"
    "buffers_ok (indicate_ws_error e w1) = buffers_ok w1" for r e w1
    by (rule keeps_buffers, simp add: keeping)+
  show ?thesis
  proof (cases buffer)
    case None
    then show ?thesis using assms(1) err by (simp add: on_underlying_io_bytes_received_def)
  next
    case (Some b)
    obtain ok w1 where a: "append_received b sz w = (ok, w1)" by (metis surj_pair)
    note w1 = buffers_append [OF a assms(1)] moves_append_received(2) [OF a]
    let ?w2 = "w1\<lparr>stream_buffer := Some ((stream w1)[stream_buffer_count w1 := 0])\<rparr>"
    have sz: "sz \<le> length b" using assms(2) Some by simp
    then have "ok \<Longrightarrow> buffers_ok ?w2" using w1 by (auto simp: buffers_ok_def)
    then have "ok \<Longrightarrow> buffers_ok (decode_loop ?w2)" "ok \<Longrightarrow> buffers_ok (decode_loop w1)"
      using w1 sz by (auto intro!: buffers_decode_loop)
    then show ?thesis
      using assms(1) err a w1(1) [OF sz] Some
      by (cases ok; cases "uws_state w")
        (simp_all add: on_underlying_io_bytes_received_def receive_in_open_def)
  qed
qed

section \<open>The request headers\<close>

lemma mallocAndStrcpy_s_calls: "mallocAndStrcpy_s p h = (r, q, h') \<Longrightarrow> mem_calls h \<le> mem_calls h'"
  by (auto simp: mallocAndStrcpy_s_def mem_defs Let_def split: option.splits crt_result.splits prod.splits if_splits)

lemma realloc_calls: "realloc_block c p n h = (r, h') \<Longrightarrow> mem_calls h \<le> mem_calls h'"
  using realloc_heap [of c p n h r h'] by (simp add: heap_moves_def)

lemma Map_Decrease_calls: "Map_DecreaseStorageKeysValues m h = (m', h') \<Longrightarrow> mem_calls h \<le> mem_calls h'"
  by (auto simp: Map_DecreaseStorageKeysValues_def c_free_def Let_def dest!: realloc_calls
      split: prod.splits if_splits option.splits)

lemma Map_Increase_calls: "Map_IncreaseStorageKeysValues m h = (r, m', h') \<Longrightarrow> mem_calls h \<le> mem_calls h'"
  by (auto simp: Map_IncreaseStorageKeysValues_def c_free_def Let_def dest!: realloc_calls
      split: prod.splits if_splits option.splits)

lemma insertNewKeyValue_calls: "insertNewKeyValue m k v h = (r, m', h') \<Longrightarrow> mem_calls h \<le> mem_calls h'"
  by (fastforce simp: insertNewKeyValue_def Let_def
      dest!: Map_Increase_calls Map_Decrease_calls mallocAndStrcpy_s_calls
      split: prod.splits rc.splits crt_result.splits)

lemma Map_AddOrUpdate_calls: "Map_AddOrUpdate m k v h = (r, m', h') \<Longrightarrow> mem_calls h \<le> mem_calls h'"
  by (auto simp: Map_AddOrUpdate_def Let_def dest!: insertNewKeyValue_calls realloc_calls
      split: option.splits prod.splits rc.splits if_splits)

lemma set_request_header_result:
  assumes "uws_client_set_request_header c name val w = (r, w')" and "map_inv (request_headers w)"
    and "case name of None \<Rightarrow> True | Some k \<Rightarrow> terminated k" and "case val of None \<Rightarrow> True | Some v \<Rightarrow> terminated v"
  shows "map_inv (request_headers w')" "balance w' = balance w" "mem_calls (env_heap w) \<le> mem_calls (env_heap w')"
    "\<exists>m h. w' = w\<lparr>request_headers := m, env_heap := h\<rparr>"
    "c = CLIENT \<Longrightarrow> name = Some k \<Longrightarrow> val = Some v \<Longrightarrow>
       map_abs (request_headers w') =
         (if r = Success then (map_abs (request_headers w))(cstr k \<mapsto> cstr v) else map_abs (request_headers w))"
proof (atomize (full), goal_cases)
  case 1
  show ?case
  proof (cases "c = NULL_HANDLE \<or> name = None \<or> val = None")
    case True
    then have "w' = w" using assms(1) by (auto simp: uws_client_set_request_header_def split: if_splits)
    moreover have "\<exists>m h. w = w\<lparr>request_headers := m, env_heap := h\<rparr>"
      by (intro exI [of _ "request_headers w"] exI [of _ "env_heap w"]) simp
    ultimately show ?thesis using assms(2) True by auto
  next
    case False
    then obtain k v where kv: "name = Some k" "val = Some v" "terminated k" "terminated v" using assms(3,4) by auto
    obtain q m h where x: "Map_AddOrUpdate (Some (request_headers w)) (Some k) (Some v) (env_heap w) = (q, m, h)"
      by (metis prod_cases3)
    let ?es = "map_entries (request_headers w)"
    have "put_result (request_headers w) ?es (cstr k) (cstr v) (env_heap w) (q, m, h)"
      using Map_AddOrUpdate_result [of "request_headers w" ?es k v "env_heap w"] assms(2) kv x by (simp add: map_inv_def)
    then have "\<exists>m1 fs. m = Some m1 \<and> map_repr m1 fs \<and> mem_live h - map_blocks fs = mem_live (env_heap w) - map_blocks ?es \<and>
      map_of fs = (if q = MAP_OK then (map_of ?es)(cstr k \<mapsto> cstr v) else map_of ?es)" (is "\<exists>m1 fs. ?P m1 fs")
    proof (cases "q = MAP_OK")
      case False
      assume r: "put_result (request_headers w) ?es (cstr k) (cstr v) (env_heap w) (q, m, h)"
      then obtain m1 where "m = Some m1" using False by (auto simp: put_result_def)
      then have "?P m1 ?es" using False r by (auto simp: put_result_def)
      then show ?thesis by blast
    qed (auto simp: put_result_def)
    then obtain m1 fs where m1: "m = Some m1" "map_repr m1 fs" "mem_live h - map_blocks fs = mem_live (env_heap w) - map_blocks ?es"
      "map_of fs = (if q = MAP_OK then (map_of ?es)(cstr k \<mapsto> cstr v) else map_of ?es)"
      by auto
    have w': "w' = w\<lparr>request_headers := m1, env_heap := h\<rparr>" "r = (if q = MAP_OK then Success else Failure)"
      using assms(1) False kv(1,2) x m1(1) by (auto simp: uws_client_set_request_header_def)
    then show ?thesis
      using m1 map_invI [OF m1(2)] map_repr_entries [OF m1(2)] Map_AddOrUpdate_calls [OF x] kv(1,2)
      by (auto simp: balance_def owned_def map_abs_def)
  qed
qed

section \<open>The machine\<close>

text \<open>The calls of the user, and the callbacks of the underlying IO.\<close>

datatype uws_call =
    OpenAsync callback callback callback callback
  | CloseAsync callback
  | CloseHandshakeAsync "16 word" callback
  | SendFrameAsync byte "byte list option" nat bool callback
  | SetRequestHeader cptr cptr
  | Dowork
  | IoOpenComplete "IO_OPEN_RESULT \<times> int"
  | IoBytesReceived "byte list option" nat
  | IoErrorOccurred
  | IoSendComplete nat IO_SEND_RESULT
  | IoCloseComplete
  | IoCloseSent IO_SEND_RESULT

fun uws_step :: "uws_call \<Rightarrow> uws_world \<Rightarrow> rc \<times> uws_world" where
  "uws_step (OpenAsync oc fr pc er) w = uws_client_open_async CLIENT oc fr pc er w"
| "uws_step (CloseAsync cb) w = uws_client_close_async CLIENT cb w"
| "uws_step (CloseHandshakeAsync code cb) w = uws_client_close_handshake_async CLIENT code cb w"
| "uws_step (SendFrameAsync t buffer sz f cb) w = uws_client_send_frame_async CLIENT t buffer sz f cb w"
| "uws_step (SetRequestHeader name val) w = uws_client_set_request_header CLIENT name val w"
| "uws_step Dowork w = (Success, uws_client_dowork CLIENT w)"
| "uws_step (IoOpenComplete r) w = (Success, on_underlying_io_open_complete CLIENT r w)"
| "uws_step (IoBytesReceived buffer sz) w = (Success, on_underlying_io_bytes_received CLIENT buffer sz w)"
| "uws_step IoErrorOccurred w = (Success, on_underlying_io_error CLIENT w)"
| "uws_step (IoSendComplete item r) w = (Success, on_underlying_io_send_complete (Some item) r w)"
| "uws_step IoCloseComplete w = (Success, on_underlying_io_close_complete CLIENT w)"
| "uws_step (IoCloseSent r) w = (Success, on_underlying_io_close_sent CLIENT r w)"

text \<open>The side of the caller: a pointer with a size points to as many bytes, a string has its
  terminator, and the IO calls back after it has been opened and completes what is pending.\<close>

fun allowed :: "uws_call \<Rightarrow> uws_world \<Rightarrow> bool" where
  "allowed (SendFrameAsync t buffer sz f cb) w = (case buffer of None \<Rightarrow> True | Some b \<Rightarrow> sz \<le> length b)"
| "allowed (SetRequestHeader name val) w =
     ((case name of None \<Rightarrow> True | Some k \<Rightarrow> terminated k) \<and> (case val of None \<Rightarrow> True | Some v \<Rightarrow> terminated v))"
| "allowed (IoOpenComplete r) w = (IoOpen \<in> set (events w))"
| "allowed (IoBytesReceived buffer sz) w =
     (IoOpen \<in> set (events w) \<and> (case buffer of None \<Rightarrow> True | Some b \<Rightarrow> sz \<le> length b))"
| "allowed IoErrorOccurred w = (IoOpen \<in> set (events w))"
| "allowed (IoSendComplete item r) w = (item \<in> fst ` set (pending_sends w))"
| "allowed _ w = True"

inductive uws_run :: "uws_world \<Rightarrow> (uws_call \<times> rc) list \<Rightarrow> uws_world \<Rightarrow> bool" for w0 where
  run_start: "uws_run w0 [] w0"
| run_step: "uws_run w0 cs w \<Longrightarrow> allowed c w \<Longrightarrow> uws_step c w = (r, w') \<Longrightarrow> uws_run w0 (cs @ [(c, r)]) w'"

inductive_cases run_emptyE: "uws_run w0 [] w"

text \<open>A client as \<open>uws_client_create\<close> returns it.\<close>

definition fresh_client :: "uws_world \<Rightarrow> bool" where
  "fresh_client w \<longleftrightarrow>
     uws_state w = UWS_STATE_CLOSED \<and> pending_sends w = [] \<and> stream_buffer w = None \<and> stream_buffer_count w = 0 \<and>
     fragment_buffer w = None \<and> fragment_buffer_count w = 0 \<and> fragmented_frame_type w = WS_FRAME_TYPE_UNKNOWN \<and>
     map_inv (request_headers w) \<and> events w = []"

text \<open>What holds of every world a client gets into, relative to the one it started in.\<close>

definition uws_good :: "uws_world \<Rightarrow> uws_world \<Rightarrow> bool" where
  "uws_good w0 w \<longleftrightarrow>
     sane w \<and> pend_ok w \<and> buffers_ok w \<and> map_inv (request_headers w) \<and>
     (opened w \<or> (uws_state w = UWS_STATE_CLOSED \<and> IoOpen \<notin> set (events w) \<and> pending_sends w = [])) \<and>
     upgrade_inv w \<and> xio_send_answer w = xio_send_answer w0 \<and>
     protocols w = protocols w0 \<and> protocol_count w = protocol_count w0 \<and>
     0 \<le> balance w - balance w0 \<and> balance w - balance w0 \<le> 2 * int (construct_failures (events w))"

lemma construct_failures_mono:
  "\<exists>es. events w' = events w @ es \<Longrightarrow> construct_failures (events w) \<le> construct_failures (events w')"
  by (auto simp: construct_failures_def)

text \<open>A step of the accounting relation that keeps the buffers in order keeps all of it.\<close>

lemma good_moves:
  assumes "uws_good w0 w" and "moves_leaking w w'" and "buffers_ok w'"
    and "opened w \<or> w' = w"
  shows "uws_good w0 w'"
proof (cases "w' = w")
  case False
  then have o: "opened w" using assms(4) by blast
  obtain d where d: "moves d w w'" "0 \<le> d"
    "d \<le> 2 * (int (construct_failures (events w')) - int (construct_failures (events w)))"
    using assms(2) o by (auto simp: moves_leaking_def)
  then show ?thesis
    using assms(1,3) o by (auto simp: uws_good_def moves_def config_def)
qed (use assms(1) in simp)

lemma buffers_kept: "buffers_ok w \<Longrightarrow> keeps w w' \<Longrightarrow> buffers_ok w'"
  using keeps_buffers by blast

lemma keeps_issue_upgrade [keeping]:
  assumes "keeps w w1"
  shows "keeps w (issue_upgrade_request nonce headers w1)"
proof -
  let ?a = "authority_host_length (Some (hostname w1))"
  let ?p = "port_length_loop (sint (port w1)) (if sint (port w1) < 0 then 1 else 0)"
  let ?len = "upgrade_request_length w1 ?a ?p nonce headers"
  obtain b h where m: "malloc_block char_of_byte (safe_add_size_t ?len 1) (env_heap w1) = (b, h)" by (metis surj_pair)
  let ?w1 = "w1\<lparr>env_heap := h\<rparr>"
  have w1: "keeps w ?w1" using assms by (simp add: keeping)
  show ?thesis
  proof (cases b)
    case None
    then show ?thesis using m assms w1 by (simp add: issue_upgrade_request_def Let_def keeping)
  next
    case (Some block)
    let ?fill = "upgrade_request_fill ?w1 ?a ?p nonce headers block"
    have "keeps w (case ?fill of
        None \<Rightarrow> open_failed WS_OPEN_ERROR_CONSTRUCTING_UPGRADE_REQUEST ?w1
      | Some request \<Rightarrow>
          (case xio_send_unchecked (map byte_of_char (take ?len request)) ?w1 of
             (Failure, w2) \<Rightarrow> open_failed WS_OPEN_ERROR_CANNOT_SEND_UPGRADE_REQUEST w2
           | (Success, w2) \<Rightarrow> w2\<lparr>uws_state := UWS_STATE_WAITING_FOR_UPGRADE_RESPONSE\<rparr>))" (is "keeps w ?w2")
    proof (cases ?fill)
      case None
      then show ?thesis using w1 by (simp add: keeping)
    next
      case (Some request)
      obtain r w2 where x: "xio_send_unchecked (map byte_of_char (take ?len request)) ?w1 = (r, w2)" by (metis surj_pair)
      then have "keeps w w2" using keeps_xio_send_unchecked [OF w1] by (metis snd_conv)
      then show ?thesis using Some x by (cases r) (simp_all add: keeping)
    qed
    then have "keeps w (free_block (Some block) ?w2)" by (simp only: keeping)
    then show ?thesis using m Some assms by (simp add: issue_upgrade_request_def Let_def keeping)
  qed
qed

lemma keeps_send_upgrade [keeping]: "keeps w w1 \<Longrightarrow> keeps w (send_upgrade_request s headers w1)"
  by (simp add: send_upgrade_request_def Let_def keeping)

lemma keeps_io_open_complete [keeping]:
  assumes "keeps w w1"
  shows "keeps w (on_underlying_io_open_complete c r w1)"
proof (cases "c = NULL_HANDLE \<or> uws_state w1 \<noteq> UWS_STATE_OPENING_UNDERLYING_IO \<or> fst r \<noteq> IO_OPEN_OK")
  case True
  then show ?thesis
    using assms by (cases c; cases r; cases "fst r") (auto simp: on_underlying_io_open_complete_def keeping)
next
  case False
  obtain nonce g where n: "rand_bytes 16 (env_rng w1) = (nonce, g)" by (metis surj_pair)
  obtain s h where b: "Base64_Encode_Bytes (Some nonce) 16 (env_heap w1) = (s, h)" by (metis surj_pair)
  obtain hd h1 where q: "get_request_headers (Some (request_headers w1)) h = (hd, h1)" by (metis surj_pair)
  let ?w1 = "w1\<lparr>env_rng := g, env_heap := h\<rparr>"
  have k: "keeps w ?w1" "keeps w (?w1\<lparr>env_heap := h1\<rparr>)" using assms by (simp_all add: keeping)
  have q': "get_request_headers (Some (request_headers ?w1)) (env_heap ?w1) = (hd, h1)" using q by simp
  obtain code where r: "r = (IO_OPEN_OK, code)" using False by (cases r) auto
  have c: "c = CLIENT" "(uws_state w1 \<noteq> UWS_STATE_OPENING_UNDERLYING_IO) = False" using False by (cases c; simp)+
  note run = on_underlying_io_open_complete_def Let_def r c n b q' handle.case IO_OPEN_RESULT.case prod.case option.case if_False
  show ?thesis
  proof (cases s)
    case None
    show ?thesis unfolding run None by (rule keeps_open_error [OF k(1)])
  next
    case (Some a)
    show ?thesis
    proof (cases hd)
      case None
      show ?thesis unfolding run Some None by (rule keeps_open_error [OF k(2)])
    next
      case (Some headers)
      show ?thesis unfolding run \<open>s = Some a\<close> Some by (rule keeps_send_upgrade [OF k(2)])
    qed
  qed
qed

lemma keeps_send_complete [keeping]:
  assumes "keeps w w1"
  shows "keeps w (on_underlying_io_send_complete c r w1)"
proof (cases "c = None \<or> map_of (pending_sends w1) (the c) = None")
  case True
  then show ?thesis using assms by (cases c) (simp_all add: on_underlying_io_send_complete_def keeping)
next
  case False
  then obtain a p where a: "c = Some a" "map_of (pending_sends w1) a = Some p" by auto
  define q where "q = (case r of IO_SEND_OK \<Rightarrow> WS_SEND_FRAME_OK | IO_SEND_CANCELLED \<Rightarrow> WS_SEND_FRAME_CANCELLED
    | IO_SEND_ERROR \<Rightarrow> WS_SEND_FRAME_ERROR)"
  obtain ok w2 where x: "complete_send_frame p a q w1 = (ok, w2)" by (metis surj_pair)
  then have "keeps w w2" using keeps_complete_send_frame [OF assms, of p a q] by simp
  then show ?thesis
    using x by (cases ok) (simp_all add: on_underlying_io_send_complete_def a Let_def q_def [symmetric] keeping)
qed

lemma keeps_xio_send_frame [keeping]: "keeps w w1 \<Longrightarrow> keeps w (snd (xio_send_frame bs a w1))"
  by (auto simp: xio_send_frame_def Let_def keeping split: prod.splits option.splits)

lemma keeps_send_frame [keeping]:
  "keeps w (snd (uws_client_send_frame_async c t buffer sz f cb w))"
proof -
  have "keeps w w2" if "xio_send_frame bs a w1 = (r, w2)" "keeps w w1" for bs a w1 r w2
    using keeps_xio_send_frame [OF that(2), of bs a] that(1) by simp
  then show ?thesis
    by (auto simp: uws_client_send_frame_async_def Let_def keeping
        split: bool.splits prod.splits option.splits rc.splits)
qed

lemma keeps_on_error [keeping]: "keeps w (on_underlying_io_error c w)"
  by (cases "uws_state w"; cases c) (simp_all add: on_underlying_io_error_def keeping)

lemma keeps_close_async [keeping]: "keeps w (snd (uws_client_close_async c cb w))"
proof -
  let ?w = "w\<lparr>on_ws_close_complete := cb, uws_state := UWS_STATE_CLOSING_UNDERLYING_IO\<rparr>"
  obtain r w1 where x: "xio_close ?w = (r, w1)" by (metis surj_pair)
  have "keeps w ?w" by (intro keeping keeps_refl)
  then have "keeps w w1" using keeps_xio_close [of w ?w] x by simp
  then show ?thesis by (cases c; cases r) (simp_all add: uws_client_close_async_def x keeping)
qed

lemma keeps_handshake [keeping]: "keeps w (snd (uws_client_close_handshake_async c code cb w))"
  by (cases c) (simp_all add: uws_client_close_handshake_async_def keeping)

lemma keeps_dowork [keeping]: "keeps w (uws_client_dowork c w)"
  by (cases c) (auto simp: uws_client_dowork_def Let_def keeping)

text \<open>\<open>uws_client_open_async\<close> starts with empty buffers.\<close>

lemma buffers_open_async:
  assumes "buffers_ok w"
  shows "buffers_ok (snd (uws_client_open_async c oc fr pc er w))"
proof -
  let ?now = "env_time w (env_time_reads w)"
  let ?w1 = "w\<lparr>uws_state := UWS_STATE_OPENING_UNDERLYING_IO, env_time_reads := Suc (env_time_reads w),
                    open_start_time := ?now, last_open_wait_log_time := ?now,
                    stream_buffer_count := 0, fragment_buffer_count := 0,
                    fragmented_frame_type := WS_FRAME_TYPE_UNKNOWN,
                    on_ws_open_complete := oc, on_ws_frame_received := fr,
                    on_ws_peer_closed := pc, on_ws_error := er\<rparr>"
  let ?w2 = "emit IoOpen (?w1\<lparr>xio_calls := Suc (xio_calls ?w1)\<rparr>)"
  have b: "buffers_ok ?w2" using assms by (auto simp: buffers_ok_def emit_def split: option.splits)
  have k: "buffers_ok (case q of None \<Rightarrow> ?w2 | Some r \<Rightarrow> on_underlying_io_open_complete CLIENT r ?w2)" for q
    using b keeps_io_open_complete [OF keeps_refl] by (auto intro: buffers_kept split: option.splits)
  have s: "buffers_ok w' \<Longrightarrow> buffers_ok (w'\<lparr>uws_state := s\<rparr>)" for w' s
    by (simp add: buffers_ok_def)
  obtain result q where x: "xio_open_answer ?w1 (xio_calls ?w1) = (result, q)" by (metis surj_pair)
  then show ?thesis
    using assms k [of q] s [OF k [of q]]
    by (cases result) (simp_all add: uws_client_open_async_def Let_def)
qed

section \<open>The invariant\<close>

text \<open>The steps that leave the books as they are: all but sending, opening and the headers.\<close>

definition plain_call :: "uws_call \<Rightarrow> bool" where
  "plain_call c = (case c of OpenAsync _ _ _ _ \<Rightarrow> False | SendFrameAsync _ _ _ _ _ \<Rightarrow> False
     | SetRequestHeader _ _ \<Rightarrow> False | _ \<Rightarrow> True)"

lemma plain_step:
  assumes "plain_call c" and "allowed c w" and "uws_step c w = (r, w')"
  shows "moves_leaking w w'" and "buffers_ok w \<Longrightarrow> buffers_ok w'"
    and "uws_state w = UWS_STATE_CLOSED \<Longrightarrow> IoOpen \<notin> set (events w) \<Longrightarrow> pending_sends w = [] \<Longrightarrow> w' = w"
proof -
  have w': "w' = snd (uws_step c w)" using assms(3) by simp
  show "moves_leaking w w'"
    using assms(1,2) unfolding w' plain_call_def
    by (cases c) (simp_all add: moves_leakingI moves_close_async moves_handshake moves_dowork moves_leaking_open_complete
        moves_bytes_received moves_on_error moves_send_complete moves_on_close_complete moves_close_sent)
  show "buffers_ok w \<Longrightarrow> buffers_ok w'"
    using assms(1,2) unfolding w' plain_call_def
    by (cases c) (simp_all add: buffers_received buffers_kept [of w] keeps_close_async keeps_handshake keeps_dowork
        keeps_io_open_complete keeps_on_error keeps_send_complete keeps_on_close_complete keeps_close_sent)
  show "uws_state w = UWS_STATE_CLOSED \<Longrightarrow> IoOpen \<notin> set (events w) \<Longrightarrow> pending_sends w = [] \<Longrightarrow> w' = w"
    using assms(1,2) unfolding w' plain_call_def
    by (cases c) (simp_all add: uws_client_close_async_def uws_client_close_handshake_async_def uws_client_dowork_def
        on_underlying_io_close_complete_def on_underlying_io_close_sent_def)
qed

lemma good_buffers: "uws_good w0 w \<Longrightarrow> buffers_ok w"
  by (simp add: uws_good_def)

lemma good_step:
  assumes "uws_good w0 w" and "allowed c w" and "uws_step c w = (r, w')"
  shows "uws_good w0 w'"
proof -
  note ok = good_buffers [OF assms(1)]
  consider (plain) "plain_call c" | (open_call) oc fr pc er where "c = OpenAsync oc fr pc er"
    | (send) t b s f cb where "c = SendFrameAsync t b s f cb" | (setheader) k v where "c = SetRequestHeader k v"
    by (cases c) (simp_all add: plain_call_def)
  then show ?thesis
  proof cases
    case plain
    note p = plain_step [OF plain assms(2,3)]
    show ?thesis
      using assms(1) p by (intro good_moves [OF assms(1) p(1) p(2) [OF ok]]) (auto simp: uws_good_def)
  next
    case open_call
    then have o: "uws_client_open_async CLIENT oc fr pc er w = (r, w')" using assms(3) by simp
    have b: "buffers_ok w'" using buffers_open_async [OF ok, of CLIENT oc fr pc er] o by simp
    show ?thesis
    proof (cases "w' = w")
      case False
      then obtain d where d: "opened w'" "sane w \<longrightarrow> sane w'" "upgrade_inv w'" "moves d w w'" "0 \<le> d"
        "d \<le> 2 * (int (construct_failures (events w')) - int (construct_failures (events w)))"
        using open_async_outcome [OF o] by blast
      then show ?thesis using assms(1) b by (auto simp: uws_good_def moves_def config_def)
    qed (use assms(1) in simp)
  next
    case send
    then have x: "uws_client_send_frame_async CLIENT t b s f cb w = (r, w')" using assms(3) by simp
    have b: "buffers_ok w'" using buffers_kept [OF ok keeps_send_frame, of CLIENT t b s f cb] x by simp
    obtain res now where a: "xio_send_answer w (xio_calls w) = (res, now)" by (metis surj_pair)
    have "send_outcome cb r False w w' \<or> send_outcome cb r (now \<noteq> None) w w'"
      using send_frame_outcome [OF x a] by blast
    then obtain z where z: "send_outcome cb r z w w'" by blast
    show ?thesis
    proof (cases "opened w")
      case True
      have "construct_failures (events w) \<le> construct_failures (events w')"
        using z by (intro construct_failures_mono) (simp add: send_outcome_def)
      then show ?thesis using assms(1) b z True by (auto simp: uws_good_def send_outcome_def config_def)
    next
      case False
      then have "uws_state w = UWS_STATE_CLOSED" using assms(1) by (auto simp: uws_good_def)
      then have "w' = w" using x by (simp add: uws_client_send_frame_async_def split: if_splits)
      then show ?thesis using assms(1) by simp
    qed
  next
    case setheader
    then have x: "uws_client_set_request_header CLIENT k v w = (r, w')" using assms(3) by simp
    have "map_inv (request_headers w)" using assms(1) by (simp add: uws_good_def)
    note hd = set_request_header_result(1-4) [OF x this]
    have t: "case k of None \<Rightarrow> True | Some k \<Rightarrow> terminated k" "case v of None \<Rightarrow> True | Some v \<Rightarrow> terminated v"
      using assms(2) setheader by simp_all
    obtain m h where w': "w' = w\<lparr>request_headers := m, env_heap := h\<rparr>" using hd(4) [OF t] by blast
    have "mem_calls (env_heap w) \<le> mem_calls h" using hd(3) [OF t] w' by simp
    then have "pend_ok w'" if "pend_ok w" using that w' by (fastforce simp: pend_ok_def)
    moreover have "buffers_ok w'" "opened w' = opened w" "sane w' = sane w" "upgrade_inv w' = upgrade_inv w"
      using ok by (simp_all add: w' buffers_ok_def opened_def sane_def upgrade_inv_def)
    ultimately show ?thesis
      using assms(1) hd(1,2) [OF t] by (auto simp: uws_good_def w')
  qed
qed

lemma fresh_good: "fresh_client w \<Longrightarrow> uws_good w w"
  by (simp add: fresh_client_def uws_good_def sane_def pend_ok_def buffers_ok_def upgrade_inv_def)

lemma run_good:
  assumes "uws_run w0 cs w" and "fresh_client w0"
  shows "uws_good w0 w"
  using assms(1) by induction (use fresh_good [OF assms(2)] good_step in blast)+

text \<open>How many sends with the callback \<open>n\<close> were accepted.\<close>

fun accepts :: "nat \<Rightarrow> uws_call \<times> rc \<Rightarrow> bool" where
  "accepts n (SendFrameAsync t b s f cb, Success) = (cb = Some n)"
| "accepts n _ = False"

definition accepted :: "nat \<Rightarrow> (uws_call \<times> rc) list \<Rightarrow> nat" where
  "accepted n cs = length (filter (accepts n) cs)"

text \<open>The contract of \<open>xio_send\<close>: a send that is refused is not completed.\<close>

definition refused_is_silent :: "uws_world \<Rightarrow> bool" where
  "refused_is_silent w \<longleftrightarrow> (\<forall>i. fst (xio_send_answer w i) = Failure \<longrightarrow> snd (xio_send_answer w i) = None)"

lemma step_sends:
  assumes "uws_good w0 w" and "refused_is_silent w0" and "allowed c w" and "uws_step c w = (r, w')"
  shows "sends n w' = sends n w + (if accepts n (c, r) then 1 else 0)"
proof -
  have p: "pend_ok w" using assms(1) by (simp add: uws_good_def)
  consider (plain) "plain_call c" | (open_call) oc fr pc er where "c = OpenAsync oc fr pc er"
    | (send) t b s f cb where "c = SendFrameAsync t b s f cb" | (setheader) k v where "c = SetRequestHeader k v"
    by (cases c) (simp_all add: plain_call_def)
  then show ?thesis
  proof cases
    case plain
    moreover from this have "\<not> accepts n (c, r)" by (cases c; cases r) (simp_all add: plain_call_def)
    ultimately show ?thesis using plain_step(1) [OF plain assms(3,4)] p by (auto simp: moves_leaking_def moves_def)
  next
    case open_call
    then have "uws_client_open_async CLIENT oc fr pc er w = (r, w')" using assms(4) by simp
    from open_async_outcome [OF this] show ?thesis using p open_call by (auto simp: moves_def)
  next
    case send
    then have x: "uws_client_send_frame_async CLIENT t b s f cb w = (r, w')" using assms(4) by simp
    obtain res now where a: "xio_send_answer w (xio_calls w) = (res, now)" by (metis surj_pair)
    have "res = Failure \<Longrightarrow> now = None"
      using assms(1,2) a unfolding refused_is_silent_def uws_good_def by (metis fst_conv snd_conv)
    with send_frame_outcome [OF x a] show ?thesis
      using p send by (cases r) (auto simp: send_outcome_def)
  next
    case setheader
    then have x: "uws_client_set_request_header CLIENT k v w = (r, w')" using assms(4) by simp
    have "map_inv (request_headers w)" using assms(1) by (simp add: uws_good_def)
    then have "\<exists>m h. w' = w\<lparr>request_headers := m, env_heap := h\<rparr>"
      using set_request_header_result(4) [OF x] assms(3) setheader by simp
    then show ?thesis using setheader by (auto simp: sends_def)
  qed
qed

lemma run_sends:
  assumes "uws_run w0 cs w" and "fresh_client w0" and "refused_is_silent w0"
  shows "sends n w = accepted n cs"
  using assms(1)
proof induction
  case run_start
  then show ?case using assms(2) by (simp add: fresh_client_def sends_def completed_def promised_def accepted_def)
next
  case (run_step cs w c r w')
  then show ?case
    using step_sends [OF run_good [OF run_step(1) assms(2)] assms(3) run_step(2,3), of n]
    by (simp add: accepted_def)
qed

text \<open>A client on an allocator that grants everything and an IO that answers later.\<close>

definition demo_client :: uws_world where
  "demo_client = \<lparr>
     pending_sends = [], underlying_io = True, hostname = ''host'' @ [NUL], resource_name = ''/r'' @ [NUL],
     protocols = Some [''p'' @ [NUL]], protocol_count = 1, port = 80,
     request_headers = \<lparr>map_keys = None, map_values = None, map_count = 0, map_filter_callback = None\<rparr>,
     uws_state = UWS_STATE_CLOSED, on_ws_open_complete = None, on_ws_frame_received = None,
     on_ws_peer_closed = None, on_ws_error = None, on_ws_close_complete = None,
     stream_buffer = None, stream_buffer_count = 0, fragment_buffer = None, fragment_buffer_count = 0,
     fragmented_frame_type = 0, open_start_time = 0, last_open_wait_log_time = 0,
     env_heap = heap0, env_rng = \<lparr>rng_vals = (\<lambda>_. 7), rng_pos = 0\<rparr>, env_time = (\<lambda>_. 5), env_time_reads = 0, env_errno = 0,
     xio_open_answer = (\<lambda>_. (Success, None)), xio_close_answer = (\<lambda>_. (Success, False)),
     xio_send_answer = (\<lambda>_. (Success, None)), xio_calls = 0, events = []\<rparr>"

end
