(* ===== verification/Uws_Request.thy ===== *)
theory Uws_Request
  imports Uws_Machine
begin

text \<open>
  The upgrade request of \<open>src/uws_client.c\<close> as a text, and the proof that the client computes
  its length before it builds it and then sends exactly that text.
\<close>

section \<open>The request as a text\<close>

definition headers_text :: "entry list \<Rightarrow> char list" where
  "headers_text es = concat (map (\<lambda>(k, v). k @ '': '' @ v @ CRLF) es)"

fun joined :: "char list \<Rightarrow> char list list \<Rightarrow> char list" where
  "joined sep [] = []"
| "joined sep [s] = s"
| "joined sep (s # ss) = s @ sep @ joined sep ss"

definition protocol_line :: "char list list \<Rightarrow> char list" where
  "protocol_line ps = (if ps = [] then [] else ''Sec-WebSocket-Protocol: '' @ joined '', '' ps @ CRLF)"

definition upgrade_request_text ::
  "char list \<Rightarrow> char list \<Rightarrow> int \<Rightarrow> char list \<Rightarrow> entry list \<Rightarrow> char list list \<Rightarrow> char list" where
  "upgrade_request_text resource host port_value nonce es ps =
     ''GET '' @ resource @ '' HTTP/1.1'' @ CRLF @
     ''Host: '' @ authority_text host @ '':'' @ printf_d port_value @ CRLF @
     ''Upgrade: websocket'' @ CRLF @
     ''Connection: Upgrade'' @ CRLF @
     ''Sec-WebSocket-Key: '' @ nonce @ CRLF @
     ''Sec-WebSocket-Version: 13'' @ CRLF @
     headers_text es @ protocol_line ps @ CRLF"

text \<open>The request of a client with the given nonce, from its configuration.\<close>

definition client_protocols :: "uws_world \<Rightarrow> char list list" where
  "client_protocols w = (case protocols w of None \<Rightarrow> [] | Some ps \<Rightarrow> map cstr (take (protocol_count w) ps))"

definition client_request :: "uws_world \<Rightarrow> char list \<Rightarrow> char list" where
  "client_request w nonce =
     upgrade_request_text (cstr (resource_name w)) (cstr (hostname w)) (sint (port w)) nonce
       (map_entries (request_headers w)) (client_protocols w)"

text \<open>The strings of the configuration are C strings, and there are as many protocols as announced.\<close>

definition config_ok :: "uws_world \<Rightarrow> bool" where
  "config_ok w \<longleftrightarrow> terminated (hostname w) \<and> terminated (resource_name w) \<and> map_inv (request_headers w) \<and>
     (case protocols w of None \<Rightarrow> True | Some ps \<Rightarrow> protocol_count w \<le> length ps \<and> list_all terminated ps)"

section \<open>Lengths\<close>

lemma printf_d_length: "port_length_loop v (if v < 0 then 1 else 0) = length (printf_d v)"
proof -
  have digits: "port_length_loop u n = n + length (decimal_text (nat \<bar>u\<bar>))" for u n
  proof (induction u n rule: port_length_loop.induct)
    case (1 u n)
    have d: "nat \<bar>c_div10 u\<bar> = nat \<bar>u\<bar> div 10" by (simp add: c_div10_def nat_div_distrib)
    then have z: "c_div10 u = 0 \<longleftrightarrow> nat \<bar>u\<bar> < 10" by (auto simp: div_eq_0_iff)
    show ?case
      using 1 d z div_eq_0_iff [of "nat \<bar>u\<bar>" 10] by (subst port_length_loop.simps) (simp add: Let_def decimal_text_def decimal_digits.simps [of "nat \<bar>u\<bar>"])
  qed
  show ?thesis by (auto simp: digits printf_d_def)
qed

fun protocols_text :: "nat \<Rightarrow> char list list \<Rightarrow> char list" where
  "protocols_text i [] = []"
| "protocols_text i (p # ps) = protocol_lead i @ p @ protocols_text (Suc i) ps"

lemma protocols_text_joined:
  "protocols_text (Suc i) ps = (if ps = [] then [] else '', '' @ joined '', '' ps)"
proof (induction ps arbitrary: i)
  case (Cons p ps)
  then show ?case by (cases ps) (simp_all add: protocol_lead_def web_socket_protocol_separator_def)
qed simp

lemma protocol_line_text:
  assumes "ps \<noteq> []"
  shows "protocol_line ps = protocols_text 0 ps @ CRLF"
proof -
  obtain p qs where ps: "ps = p # qs" using assms by (cases ps) auto
  have "protocols_text 0 ps = web_socket_protocol_prefix @ p @ protocols_text (Suc 0) qs"
    by (simp add: ps protocol_lead_def)
  then show ?thesis
    unfolding protocols_text_joined by (cases qs) (simp_all add: ps protocol_line_def web_socket_protocol_prefix_def)
qed

lemma protocols_length:
  "n + length (protocols_text i (map cstr ps)) < SIZE_MAX \<Longrightarrow>
     protocols_length_loop i ps n = n + length (protocols_text i (map cstr ps))"
  by (induction ps arbitrary: i n) (simp_all add: safe_add_size_t_ok strlen_def)

lemma client_protocols_cases:
  assumes "config_ok w"
  shows "protocol_line (client_protocols w) =
    (if has_protocol w then protocols_text 0 (map cstr (protocol_list w)) @ CRLF else [])"
proof (cases "has_protocol w")
  case True
  then obtain ps where ps: "protocols w = Some ps" "0 < protocol_count w" by (auto simp: has_protocol_def)
  moreover from this have "ps \<noteq> []" using assms by (auto simp: config_ok_def)
  ultimately show ?thesis using True by (simp add: protocol_line_text client_protocols_def)
next
  case False
  then have "client_protocols w = []" by (auto simp: has_protocol_def client_protocols_def split: option.splits)
  then show ?thesis using False by (simp add: protocol_line_def)
qed

lemma request_length:
  assumes "config_ok w" and "length (client_request w (cstr nonce)) < SIZE_MAX"
    and "cstr headers = headers_text (map_entries (request_headers w))"
  shows "upgrade_request_length w (length (authority_text (cstr (hostname w)))) (length (printf_d (sint (port w)))) nonce headers =
    length (client_request w (cstr nonce))"
  using assms client_protocols_cases [OF assms(1)]
  by (simp add: upgrade_request_length_def client_request_def upgrade_request_text_def strlen_def Let_def CRLF_def
      upgrade_request_method_def upgrade_request_host_def upgrade_request_after_port_def upgrade_request_after_nonce_def
      safe_add_size_t_ok protocols_length split: if_splits)

section \<open>Filling the block\<close>

text \<open>A block that has been written up to a position.\<close>

definition written :: "'a list \<Rightarrow> 'a list \<Rightarrow> nat \<times> 'a list" where
  "written t r = (length t, t @ r)"

lemma put_written: "length cs \<le> length r \<Longrightarrow> put cs (written t r) = written (t @ cs) (drop (length cs) r)"
  by (simp add: written_def put_at)

lemma written_start: "(0, b) = written [] b"
  by (simp add: written_def)

lemma headers_fill:
  "length (headers_text es) \<le> length r \<Longrightarrow> map (\<lambda>(k, v). (ptr_str k, ptr_str v)) kvs = es \<Longrightarrow>
     \<forall>(k, v) \<in> set kvs. k \<noteq> None \<and> v \<noteq> None \<Longrightarrow>
     headers_fill_loop kvs (written t r) = written (t @ headers_text es) (drop (length (headers_text es)) r)"
proof (induction kvs arbitrary: es t r)
  case (Cons kv kvs)
  obtain k v where kv: "kv = (Some k, Some v)" using Cons.prems(3) by (cases kv) auto
  define line where "line = cstr k @ '': '' @ cstr v @ CRLF"
  define es' where "es' = map (\<lambda>(k, v). (ptr_str k, ptr_str v)) kvs"
  have es: "headers_text es = line @ headers_text es'"
    using Cons.prems(2) by (auto simp: headers_text_def line_def es'_def kv ptr_str_def)
  have room: "length line + length (headers_text es') \<le> length r" using Cons.prems(1) es by simp
  have "headers_fill_loop (kv # kvs) (written t r) = headers_fill_loop kvs (written (t @ line) (drop (length line) r))"
    using room by (simp add: kv line_def take_strlen put_written CRLF_def ac_simps)
  also have "\<dots> = written ((t @ line) @ headers_text es') (drop (length (headers_text es')) (drop (length line) r))"
    using Cons.prems(3) room by (intro Cons.IH) (auto simp: es'_def)
  finally show ?case using es by (simp add: ac_simps)
qed (simp add: headers_text_def)

lemma headers_length:
  "\<forall>(k, v) \<in> set kvs. k \<noteq> None \<and> v \<noteq> None \<Longrightarrow>
     headers_length_loop kvs n = n + length (headers_text (map (\<lambda>(k, v). (ptr_str k, ptr_str v)) kvs))"
  by (induction kvs arbitrary: n) (auto simp: headers_text_def ptr_str_def strlen_def CRLF_def)

lemma protocols_fill:
  "length (protocols_text i (map cstr ps)) \<le> length r \<Longrightarrow>
     protocols_fill_loop i ps (written t r) =
       written (t @ protocols_text i (map cstr ps)) (drop (length (protocols_text i (map cstr ps))) r)"
  by (induction ps arbitrary: i t r) (auto simp: take_strlen put_written ac_simps)

lemma terminated_NUL [simp]: "terminated (s @ NUL # r)"
  by (simp add: terminated_def)

lemma NUL_not_in_cstr [simp]: "NUL \<notin> set (cstr s)"
  by (auto simp: cstr_def dest: set_takeWhileD)

lemma ptr_str_c_string [simp]: "NUL \<notin> set (ptr_str p)"
  by (simp add: ptr_str_def split: option.splits)

lemma headers_text_c_string: "NUL \<notin> set (headers_text (map (\<lambda>(k, v). (ptr_str k, ptr_str v)) kvs))"
  by (auto simp: headers_text_def CRLF_def)

lemma array_ptrs_good: "array_repr arr ss \<Longrightarrow> p \<in> set (array_ptrs arr (length ss)) \<Longrightarrow> p \<noteq> None"
  by (auto simp: array_repr_def array_ptrs_def list_all_iff ptr_good_def split: if_splits)

lemma request_headers_text:
  assumes "map_inv m" and "get_request_headers (Some m) h = (r, h')"
  shows "case r of None \<Rightarrow> \<not> granted h
    | Some b \<Rightarrow> cstr b = headers_text (map_entries m) \<and> h' = after_request 1 h \<and> granted h"
proof -
  let ?kvs = "zip (array_ptrs (map_keys m) (map_count m)) (array_ptrs (map_values m) (map_count m))"
  let ?t = "headers_text (map_entries m)"
  have es: "map (\<lambda>(k, v). (ptr_str k, ptr_str v)) ?kvs = map_entries m"
    by (simp add: map_entries_def zip_map_map)
  have rep: "array_repr (map_keys m) (map fst (map_entries m))" "array_repr (map_values m) (map snd (map_entries m))"
    "map_count m = length (map_entries m)" using assms(1) by (simp_all add: map_inv_def map_repr_def)
  then have some: "\<forall>(k, v) \<in> set ?kvs. k \<noteq> None \<and> v \<noteq> None"
    using array_ptrs_good [OF rep(1)] array_ptrs_good [OF rep(2)] by (auto dest: set_zip_leftD set_zip_rightD simp del: not_None_eq)
  have len: "headers_length_loop ?kvs 0 = length ?t" using headers_length [OF some, of 0] es by simp
  show ?thesis
  proof (cases "granted h")
    case False
    then show ?thesis using assms(2) len by (simp add: get_request_headers_def Map_GetInternals_def malloc_block_def)
  next
    case True
    define blk where "blk = fresh_block char_of_byte (Suc (length ?t)) h"
    have "headers_fill_loop ?kvs (0, blk) = written ?t (drop (length ?t) blk)"
      using headers_fill [OF _ es some, of blk "[]"] by (simp add: written_start blk_def)
    moreover obtain x where "drop (length ?t) blk = [x]"
      using length_Suc_conv [of "drop (length ?t) blk" 0] by (auto simp: blk_def)
    ultimately have "r = Some (?t @ [NUL])" "h' = after_request 1 h"
      using assms(2) True len
      by (auto simp: get_request_headers_def Map_GetInternals_def malloc_block_def Let_def blk_def [symmetric] written_def)
    moreover have "c_string ?t" using headers_text_c_string [of ?kvs] es by (simp add: c_string_def)
    ultimately show ?thesis using cstr_append_NUL True by simp
  qed
qed

lemma request_fill:
  assumes "config_ok w" and "length (cstr (hostname w)) + 2 < SIZE_MAX"
    and "cstr headers = headers_text (map_entries (request_headers w))"
    and "length block = Suc (length (client_request w (cstr nonce)))"
  shows "upgrade_request_fill w (length (authority_text (cstr (hostname w)))) (length (printf_d (sint (port w))))
      nonce headers block = Some (client_request w (cstr nonce) @ [NUL])"
proof -
  let ?a = "authority_text (cstr (hostname w))" and ?p = "printf_d (sint (port w))"
  define first where "first = upgrade_request_method @ cstr (resource_name w) @ upgrade_request_host"
  let ?last = "upgrade_request_after_port @ cstr nonce @ upgrade_request_after_nonce @ cstr headers @
    (if has_protocol w then protocols_text 0 (map cstr (protocol_list w)) @ CRLF else []) @ CRLF"
  have whole: "client_request w (cstr nonce) = first @ ?a @ '':'' @ ?p @ ?last"
    using client_protocols_cases [OF assms(1)] assms(3)
    by (simp add: first_def client_request_def upgrade_request_text_def upgrade_request_method_def upgrade_request_host_def
        upgrade_request_after_port_def upgrade_request_after_nonce_def)
  have len: "length block = Suc (length first + length ?a + 1 + length ?p + length ?last)"
    using assms(4) unfolding whole by simp
  define r1 where "r1 = drop (length first) block"
  define r2 where "r2 = drop (Suc (length ?a)) r1"
  define r3 where "r3 = drop (Suc (length ?p)) r2"
  note parts = upgrade_request_method_def upgrade_request_host_def CRLF_def
  have r1: "length r1 = Suc (length ?a + 1 + length ?p + length ?last)"
    using len by (simp add: r1_def)
  then have r2: "length r2 = Suc (length ?p + length ?last)" by (simp add: r2_def)
  then have r3: "length r3 = length ?last" by (simp add: r3_def)
  have 1: "put upgrade_request_host (put (take (strlen (resource_name w)) (resource_name w))
      (put upgrade_request_method (0, block))) = (length first, first @ r1)"
    using len by (simp add: written_start put_written take_strlen r1_def first_def ac_simps) (simp add: written_def)
  have 2: "format_host_for_authority (Some (hostname w)) (Some r1) (length ?a + 1) = (Success, Some (?a @ NUL # r2))"
    using format_host_text [OF _ assms(2), of "length ?a + 1" r1] assms(1) r1 by (simp add: config_ok_def r2_def)
  let ?to_port = "first @ ?a @ '':''"
  have 3: "put '':'' (length first + length ?a, first @ ?a @ NUL # r2) = (length ?to_port, ?to_port @ r2)"
    using put_written [of "'':''" "NUL # r2" "first @ ?a"] by (simp add: written_def)
  have 4: "snprintf_d (length ?to_port) (length ?p + 1) (sint (port w)) (?to_port @ r2) =
      (int (length ?p), (?to_port @ ?p) @ NUL # r3)"
    using put_written [of "?p @ [NUL]" r2 ?to_port] r2 by (simp add: snprintf_d_def written_def r3_def)
  have 5: "put upgrade_request_after_port (length ?to_port + length ?p, (?to_port @ ?p) @ NUL # r3) =
      written ((?to_port @ ?p) @ upgrade_request_after_port) (drop (length upgrade_request_after_port) (NUL # r3))"
    using put_written [of upgrade_request_after_port "NUL # r3" "?to_port @ ?p"] r3 by (simp add: written_def add.assoc)
  let ?rest = "upgrade_request_after_port @ cstr nonce @ upgrade_request_after_nonce @ cstr headers"
  have 6: "put (take (strlen headers) headers) (put upgrade_request_after_nonce (put (take (strlen nonce) nonce)
      (written ((?to_port @ ?p) @ upgrade_request_after_port) (drop (length upgrade_request_after_port) (NUL # r3))))) =
      written ((?to_port @ ?p) @ ?rest) (drop (length ?rest) (NUL # r3))"
    using r3 by (simp add: put_written take_strlen ac_simps)
  have 7: "(if has_protocol w then put CRLF (protocols_fill_loop 0 (protocol_list w) (written t r)) else written t r) =
      written (t @ ps) (drop (length ps) r)"
    if "ps = (if has_protocol w then protocols_text 0 (map cstr (protocol_list w)) @ CRLF else [])" "length ps \<le> length r"
    for t r ps
    using that by (auto simp: protocols_fill put_written ac_simps)
  let ?ps = "if has_protocol w then protocols_text 0 (map cstr (protocol_list w)) @ CRLF else []"
  have 8: "put CRLF (if has_protocol w then put CRLF (protocols_fill_loop 0 (protocol_list w)
        (written ((?to_port @ ?p) @ ?rest) (drop (length ?rest) (NUL # r3))))
      else written ((?to_port @ ?p) @ ?rest) (drop (length ?rest) (NUL # r3))) =
      written (client_request w (cstr nonce)) [x]"
    if x: "drop (length ?last) (NUL # r3) = [x]" for x
  proof -
    have "length ?ps + 2 \<le> length (drop (length ?rest) (NUL # r3))" using r3 by (simp add: CRLF_def)
    then show ?thesis
      unfolding whole using x by (subst 7 [OF refl]) (simp_all add: put_written CRLF_def ac_simps del: drop_Suc_Cons)
  qed
  have one: "length xs = 1 \<Longrightarrow> \<exists>x. xs = [x]" for xs :: "char list" by (auto simp: length_Suc_conv)
  obtain x where x: "drop (length ?last) (NUL # r3) = [x]" using one [of "drop (length ?last) (NUL # r3)"] r3 by auto
  have 9: "drop (length first) (first @ r1) = r1" "take (length first) (first @ r1) = first"
    "(int (length ?p) < 0 \<or> nat (int (length ?p)) \<noteq> length ?p) = False" by simp_all
  show ?thesis
    unfolding upgrade_request_fill_def Let_def 1 prod.case 9 2 option.case rc.case 3 4 if_False 5 6 8 [OF x]
    by (simp add: written_def)
qed

section \<open>The request is sent\<close>

lemma nonce_mem_ok: "Base64_Encode_Bytes (Some bs) (length bs) h = (r, h') \<Longrightarrow> mem_ok h' = mem_ok h"
  by (auto simp: Base64_Encode_Bytes_def Base64_Encode_Internal_def STRING_new_def alloc_STRING_def
      STRING_new_with_memory_def malloc_chars_def mem_defs Let_def split: if_splits prod.splits option.splits)

text \<open>How the opening continues once the underlying IO is open: the request is on its way, or it
  was refused, or it could not be built for want of memory.\<close>

definition request_outcome :: "char list \<Rightarrow> uws_world \<Rightarrow> uws_world \<Rightarrow> bool" where
  "request_outcome request w w' \<longleftrightarrow>
     (let sent = [IoSend (map byte_of_char request)];
          failed = (\<lambda>r. [IoClose, OpenComplete (the (on_ws_open_complete w)) (open_detail r (Code 0))]) in
      if fst (xio_send_answer w (xio_calls w)) = Success \<and> uws_state w' = UWS_STATE_WAITING_FOR_UPGRADE_RESPONSE
      then events w' = events w @ sent
      else uws_state w' = UWS_STATE_CLOSED \<and>
        (events w' = events w @ sent @ failed WS_OPEN_ERROR_CANNOT_SEND_UPGRADE_REQUEST \<and>
           fst (xio_send_answer w (xio_calls w)) = Failure \<or>
         (\<exists>r \<in> {WS_OPEN_ERROR_BASE64_ENCODE_FAILED, WS_OPEN_ERROR_CONSTRUCTING_UPGRADE_REQUEST,
                 WS_OPEN_ERROR_NOT_ENOUGH_MEMORY}. events w' = events w @ failed r) \<and>
           (\<exists>i. \<not> mem_ok (env_heap w) i)))"

lemma request_outcome_heap:
  "request_outcome t w (w'\<lparr>env_heap := h'\<rparr>) = request_outcome t w w'"
  "mem_ok h = mem_ok (env_heap w) \<Longrightarrow>
     request_outcome t (w\<lparr>env_rng := g, env_heap := h\<rparr>) w' = request_outcome t w w'"
  by (simp_all add: request_outcome_def Let_def)

lemma open_failed_eq:
  "on_ws_open_complete w = Some n \<Longrightarrow>
     open_failed r w = w\<lparr>xio_calls := Suc (xio_calls w), uws_state := UWS_STATE_CLOSED,
       events := events w @ [IoClose, OpenComplete n (open_detail r (Code 0))]\<rparr>"
  by (simp add: indicate_ws_open_complete_error_and_close_def indicate_ws_open_complete_error_def invoke_def emit_def
      xio_close_quietly_def Let_def)

lemma issue_upgrade_request_sends:
  assumes "config_ok w" and "length (cstr (hostname w)) + 2 < SIZE_MAX"
    and "Suc (length (client_request w (cstr nonce))) < SIZE_MAX"
    and "cstr headers = headers_text (map_entries (request_headers w))"
    and "on_ws_open_complete w = Some n"
    and state: "uws_state w = UWS_STATE_OPENING_UNDERLYING_IO"
  shows "request_outcome (client_request w (cstr nonce)) w (issue_upgrade_request nonce headers w)"
proof -
  let ?a = "authority_host_length (Some (hostname w))"
  let ?p = "port_length_loop (sint (port w)) (if sint (port w) < 0 then 1 else 0)"
  let ?text = "client_request w (cstr nonce)"
  have a: "?a = length (authority_text (cstr (hostname w)))" "?p = length (printf_d (sint (port w)))"
    using assms(1,2) by (simp_all add: authority_host_length_text printf_d_length config_ok_def)
  have len: "upgrade_request_length w ?a ?p nonce headers = length ?text"
    unfolding a using assms(1,3,4) by (intro request_length) simp_all
  have sz: "safe_add_size_t (length ?text) 1 = Suc (length ?text)" "Suc (length ?text) \<noteq> SIZE_MAX"
    using assms(3) by (simp_all add: safe_add_size_t_ok)
  obtain b h where m: "malloc_block char_of_byte (Suc (length ?text)) (env_heap w) = (b, h)" by (metis surj_pair)
  show ?thesis
  proof (cases b)
    case None
    then have "\<not> mem_ok (env_heap w) (mem_calls (env_heap w))" using m by (auto simp: malloc_block_def granted_def split: if_splits)
    then have "\<exists>i. \<not> mem_ok (env_heap w) i" by blast
    then show ?thesis
      using m None sz len state assms(5)
      by (simp add: issue_upgrade_request_def Let_def open_failed_eq request_outcome_def)
  next
    case (Some block)
    let ?w1 = "w\<lparr>env_heap := h\<rparr>"
    have same: "client_request ?w1 s = client_request w s" "config_ok ?w1 = config_ok w" for s
      by (simp_all add: client_request_def config_ok_def client_protocols_def)
    have "length block = Suc (length ?text)" using m Some by (auto simp: malloc_block_def split: if_splits)
    then have fill: "upgrade_request_fill ?w1 ?a ?p nonce headers block = Some (?text @ [NUL])"
      using request_fill [of ?w1 headers block nonce] assms(1,2,4) same a by simp
    have "issue_upgrade_request nonce headers w =
        free_block (Some block) (case xio_send_unchecked (map byte_of_char ?text) ?w1 of
          (Failure, w2) \<Rightarrow> open_failed WS_OPEN_ERROR_CANNOT_SEND_UPGRADE_REQUEST w2
        | (Success, w2) \<Rightarrow> w2\<lparr>uws_state := UWS_STATE_WAITING_FOR_UPGRADE_RESPONSE\<rparr>)"
      unfolding issue_upgrade_request_def Let_def len sz(1) using sz(2) m fill Some by simp
    then show ?thesis
      using assms(5)
      by (cases "fst (xio_send_answer w (xio_calls w))")
        (simp_all add: xio_send_unchecked_def open_failed_eq request_outcome_def emit_def Let_def)
  qed
qed

lemma open_complete_run:
  assumes "uws_state w = UWS_STATE_OPENING_UNDERLYING_IO" and "rand_bytes 16 (env_rng w) = (nonce, g)"
    and "Base64_Encode_Bytes (Some nonce) 16 (env_heap w) = (s, h)"
    and "get_request_headers (Some (request_headers w)) h = (hdr, h1)"
  shows "on_underlying_io_open_complete CLIENT (IO_OPEN_OK, code) w =
    (case s of
       None \<Rightarrow> open_failed WS_OPEN_ERROR_BASE64_ENCODE_FAILED (w\<lparr>env_rng := g, env_heap := h\<rparr>)
     | Some s \<Rightarrow>
         (case hdr of
            None \<Rightarrow> open_failed WS_OPEN_ERROR_CONSTRUCTING_UPGRADE_REQUEST (w\<lparr>env_rng := g, env_heap := h1\<rparr>)
          | Some headers \<Rightarrow> send_upgrade_request s headers (w\<lparr>env_rng := g, env_heap := h1\<rparr>)))"
  using assms by (cases s; cases hdr) (simp_all add: on_underlying_io_open_complete_def Let_def)

lemma open_complete_sends:
  assumes "config_ok w" and "length (cstr (hostname w)) + 2 < SIZE_MAX"
    and "Suc (length (client_request w (base64_text (fst (rand_bytes 16 (env_rng w)))))) < SIZE_MAX"
    and "on_ws_open_complete w = Some n" and "uws_state w = UWS_STATE_OPENING_UNDERLYING_IO"
  shows "request_outcome (client_request w (base64_text (fst (rand_bytes 16 (env_rng w))))) w
    (on_underlying_io_open_complete CLIENT (IO_OPEN_OK, code) w)"
proof -
  obtain nonce g where n: "rand_bytes 16 (env_rng w) = (nonce, g)" by (metis surj_pair)
  then have l: "length nonce = 16" using length_rand_bytes [of 16 "env_rng w"] by simp
  obtain s h where b: "Base64_Encode_Bytes (Some nonce) 16 (env_heap w) = (s, h)" by (metis surj_pair)
  obtain hd h1 where q: "get_request_headers (Some (request_headers w)) h = (hd, h1)" by (metis surj_pair)
  have enc: "encoded_as (base64_text nonce) (env_heap w) s h" and ok: "mem_ok h = mem_ok (env_heap w)"
    using Base64_Encode_Bytes_encodes [of nonce "env_heap w" s h] nonce_mem_ok [of nonce "env_heap w" s h] b l by simp_all
  have hdr: "case hd of None \<Rightarrow> \<not> granted h | Some b \<Rightarrow> cstr b = headers_text (map_entries (request_headers w)) \<and>
      h1 = after_request 1 h \<and> granted h"
    using request_headers_text [OF _ q] assms(1) by (simp add: config_ok_def)
  let ?w1 = "w\<lparr>env_rng := g, env_heap := h\<rparr>"
  let ?text = "client_request w (base64_text nonce)"
  note run = open_complete_run [OF assms(5) n b q, of code]
  show ?thesis
  proof (cases s)
    case None
    have "\<exists>i. \<not> mem_ok (env_heap w) i" using Base64_Encode_Bytes_granted [of "env_heap w" nonce s h] b l None by auto
    then show ?thesis using None run assms(4,5) by (simp add: open_failed_eq request_outcome_def Let_def)
  next
    case (Some str)
    then have str: "cstr (str_s str) = base64_text nonce" using enc by (simp add: encoded_as_def str_val_def)
    show ?thesis
    proof (cases hd)
      case None
      then have "\<exists>i. \<not> mem_ok (env_heap w) i" using hdr ok by (auto simp: granted_def)
      then show ?thesis using None Some run assms(4,5) by (simp add: open_failed_eq request_outcome_def Let_def)
    next
      case hd: (Some headers)
      let ?w2 = "w\<lparr>env_rng := g, env_heap := h1\<rparr>"
      have same: "client_request ?w2 t = client_request w t" "config_ok ?w2 = config_ok w" for t
        by (simp_all add: client_request_def config_ok_def client_protocols_def)
      have "request_outcome (client_request ?w2 (cstr (str_s str))) ?w2 (issue_upgrade_request (str_s str) headers ?w2)"
        using assms hdr hd same n str by (intro issue_upgrade_request_sends [of _ _ _ n]) simp_all
      moreover have "mem_ok h1 = mem_ok (env_heap w)" using hdr hd ok by (simp add: after_request_def)
      ultimately have "request_outcome ?text w (send_upgrade_request str headers ?w2)"
        using same str by (simp add: send_upgrade_request_def Let_def request_outcome_heap)
      then show ?thesis using Some hd run n by simp
    qed
  qed
qed
definition demo_opening :: uws_world where
  "demo_opening = demo_client\<lparr>uws_state := UWS_STATE_OPENING_UNDERLYING_IO, on_ws_open_complete := Some 1,
     on_ws_frame_received := Some 2, on_ws_peer_closed := Some 3, on_ws_error := Some 4\<rparr>"

definition demo_request :: "char list" where
  "demo_request = ''GET /r HTTP/1.1'' @ CRLF @ ''Host: host:80'' @ CRLF @ ''Upgrade: websocket'' @ CRLF @
     ''Connection: Upgrade'' @ CRLF @ ''Sec-WebSocket-Key: BwcHBwcHBwcHBwcHBwcHBw=='' @ CRLF @
     ''Sec-WebSocket-Version: 13'' @ CRLF @ ''Sec-WebSocket-Protocol: p'' @ CRLF @ CRLF"

lemma demo_config: "config_ok demo_opening"
  by (simp add: config_ok_def demo_opening_def demo_client_def map_inv_def map_repr_def map_entries_def array_ptrs_def
      array_repr_def)

lemma demo_nonce: "base64_text (fst (rand_bytes 16 (env_rng demo_opening))) = ''BwcHBwcHBwcHBwcHBwcHBw==''"
proof -
  have "fst (rand_bytes n (env_rng demo_opening)) = replicate n 7" for n
  proof -
    have "fst (rand_bytes n \<lparr>rng_vals = \<lambda>_. 7, rng_pos = k\<rparr>) = replicate n 7" for k
      by (induction n arbitrary: k) (simp_all add: rand_byte_def gb_rand_def case_prod_unfold Let_def)
    then show ?thesis by (simp add: demo_opening_def demo_client_def)
  qed
  then have "fst (rand_bytes 16 (env_rng demo_opening)) = replicate 16 7" .
  moreover have "base64_text (replicate 16 7) = ''BwcHBwcHBwcHBwcHBwcHBw==''" by code_simp
  ultimately show ?thesis by simp
qed

lemma decimal_80: "decimal_text 80 = ''80''"
  by code_simp

lemma demo_client_request: "client_request demo_opening ''BwcHBwcHBwcHBwcHBwcHBw=='' = demo_request"
  by (simp add: client_request_def demo_opening_def demo_client_def upgrade_request_text_def demo_request_def
      authority_text_def unbracketed_def printf_d_def map_entries_def array_ptrs_def headers_text_def
      client_protocols_def protocol_line_def decimal_80 CRLF_def)

section \<open>Properties\<close>

text \<open>C7: Once the underlying IO is open, the client sends exactly one upgrade request, and it is the
  text that the configuration prescribes (request line, host in authority form with the port,
  the WebSocket headers with the Base 64 of 16 random bytes, the user's headers, the protocols)
  although its length is computed before it is built; then it waits for the response. If the
  IO refuses the request, or an allocation fails, it closes the IO, reports one failed open and
  is closed; it sends nothing in the second case.\<close>

theorem upgrade_request_is_text:
  assumes "config_ok w" and "length (cstr (hostname w)) + 2 < SIZE_MAX"
    and "Suc (length (client_request w (base64_text (fst (rand_bytes 16 (env_rng w)))))) < SIZE_MAX"
    and "on_ws_open_complete w = Some n" and "uws_state w = UWS_STATE_OPENING_UNDERLYING_IO"
  shows "request_outcome (client_request w (base64_text (fst (rand_bytes 16 (env_rng w))))) w
      (on_underlying_io_open_complete CLIENT (IO_OPEN_OK, code) w) \<and>
    ((\<forall>i. mem_ok (env_heap w) i) \<and> fst (xio_send_answer w (xio_calls w)) = Success \<longrightarrow>
      uws_state (on_underlying_io_open_complete CLIENT (IO_OPEN_OK, code) w) = UWS_STATE_WAITING_FOR_UPGRADE_RESPONSE)"
  using open_complete_sends [OF assms, of code] by (auto simp: request_outcome_def Let_def split: if_splits)

theorem upgrade_request_is_text_witness:
  "events (on_underlying_io_open_complete CLIENT (IO_OPEN_OK, 0) demo_opening) = [IoSend (map byte_of_char demo_request)]"
proof -
  have len: "length demo_request = 174" by (simp add: demo_request_def CRLF_def)
  have env: "mem_ok (env_heap demo_opening) i" "xio_send_answer demo_opening i = (Success, None)" for i
    by (simp_all add: demo_opening_def demo_client_def heap0_def)
  have fields: "cstr (hostname demo_opening) = ''host''" "on_ws_open_complete demo_opening = Some 1"
    "uws_state demo_opening = UWS_STATE_OPENING_UNDERLYING_IO" "events demo_opening = []"
    by (simp_all add: demo_opening_def demo_client_def cstr_def)
  show ?thesis
    using upgrade_request_is_text [of demo_opening 1 0] demo_config len
    by (simp add: env fields demo_nonce demo_client_request SIZE_MAX_def request_outcome_def Let_def)
qed

end
