(* ===== verification/Uws_Stream.thy ===== *)
theory Uws_Stream
  imports Uws_Machine
begin

text \<open>
  Receiving in \<open>src/uws_client.c\<close> against a reference receiver of frames: a server sends
  unmasked frames, the underlying IO delivers the bytes in pieces of any size, and the client
  finds the frames again and puts fragmented messages together.
\<close>

section \<open>The frames of a server\<close>

text \<open>A frame with its opcode, the final bit and the payload, and its bytes.\<close>

type_synonym frame = "byte \<times> bool \<times> byte list"

definition frame_bytes :: "frame \<Rightarrow> byte list" where
  "frame_bytes f = (case f of (opcode, fin, p) \<Rightarrow> ws_frame (ucast opcode) fin 0 None p)"

text \<open>What the stream buffer holds.\<close>

definition content :: "uws_world \<Rightarrow> byte list" where
  "content w = take (stream_buffer_count w) (stream w)"

definition stream_ready :: "uws_world \<Rightarrow> bool" where
  "stream_ready w \<longleftrightarrow> stream_buffer w \<noteq> None \<and> stream_buffer_count w \<le> length (stream w)"

lemma content_length: "stream_ready w \<Longrightarrow> length (content w) = stream_buffer_count w"
  by (simp add: content_def stream_ready_def)

lemma content_nth: "i < stream_buffer_count w \<Longrightarrow> content w ! i = stream w ! i"
  by (simp add: content_def)

section \<open>The length field\<close>

lemma length_frame_bytes:
  "length (frame_bytes (opcode, fin, p)) = frame_header_bytes (length p) False + length p"
  using length_ws_frame [of None "ucast opcode" fin 0 p] by (simp add: frame_bytes_def)

lemma be_value_8: "be_value [a, b, c, d, e, f, g, h] =
    unat a * 2 ^ 56 + unat b * 2 ^ 48 + unat c * 2 ^ 40 + unat d * 2 ^ 32 + unat e * 2 ^ 24 +
    unat f * 2 ^ 16 + unat g * 2 ^ 8 + unat h"
  by (simp add: be_value_def)

lemma be_value_2: "be_value [a, b] = unat a * 2 ^ 8 + unat b"
  by (simp add: be_value_def)

lemma be_digits_2: "be_digits 2 n = [word_of_nat (n div 256), word_of_nat n]"
  by (simp add: be_digits_def upt_rec)

lemma be_digits_8: "be_digits 8 n = [word_of_nat (n div 256 ^ 7), word_of_nat (n div 256 ^ 6),
    word_of_nat (n div 256 ^ 5), word_of_nat (n div 256 ^ 4), word_of_nat (n div 256 ^ 3),
    word_of_nat (n div 256 ^ 2), word_of_nat (n div 256), word_of_nat n]"
  by (simp add: be_digits_def upt_rec)

lemma top_bit_clear:
  assumes "n < 2 ^ 63"
  shows "(word_of_nat (n div 256 ^ 7) :: byte) AND 0x80 = 0"
proof -
  have "n div 256 ^ 7 < 2 ^ 7" using assms by (simp add: less_mult_imp_div_less)
  then have "unat (word_of_nat (n div 256 ^ 7) :: byte) < 128" by (simp add: unat_of_nat)
  from byte_cases_below [OF _ this, where P = "\<lambda>v. v AND 0x80 = 0"] show ?thesis
    by (simp add: upt_rec)
qed

text \<open>A stream that starts with a frame, or with a part of one.\<close>

definition starts_with :: "uws_world \<Rightarrow> frame \<Rightarrow> bool" where
  "starts_with w f \<longleftrightarrow> stream_ready w \<and> (\<exists>rest. content w = take (stream_buffer_count w) (frame_bytes f @ rest))"

lemma starts_nth:
  assumes "starts_with w f" and "i < stream_buffer_count w" and "i < length (frame_bytes f)"
  shows "stream w ! i = frame_bytes f ! i"
proof -
  obtain rest where "content w = take (stream_buffer_count w) (frame_bytes f @ rest)"
    using assms(1) by (auto simp: starts_with_def)
  then have "content w ! i = (frame_bytes f @ rest) ! i" using assms(2) by (simp only: nth_take)
  then show ?thesis using assms(2,3) content_nth by (simp add: nth_append)
qed

lemma frame_length_frame:
  assumes "starts_with w (opcode, fin, p)" and "length p < 2 ^ 63" and "2 \<le> stream_buffer_count w"
  shows "\<exists>needed len. frame_length w = (needed, len, False) \<and>
    (if length (frame_bytes (opcode, fin, p)) \<le> stream_buffer_count w
     then needed = length (frame_bytes (opcode, fin, p)) \<and> len = length p
     else stream_buffer_count w < needed)"
proof -
  let ?n = "stream_buffer_count w" and ?l = "length p" and ?f = "frame_bytes (opcode, fin, p)"
  have nth: "i < ?n \<Longrightarrow> i < length ?f \<Longrightarrow> stream w ! i = ?f ! i" for i
    using starts_nth [OF assms(1)] by blast
  obtain b0 where f: "?f = b0 # frame_length_field False ?l @ p"
    by (simp add: frame_bytes_def ws_frame_def)
  consider (small) "?l \<le> 125" | (medium) "125 < ?l" "?l \<le> 65535" | (large) "65535 < ?l" by linarith
  then show ?thesis
  proof cases
    case small
    then have f: "?f = b0 # word_of_nat ?l # p" using f by (simp add: frame_length_field_digits)
    then have "unat (stream w ! 1) = ?l" using nth [of 1] assms(3) small by (simp add: unat_of_nat)
    then show ?thesis using small f by (simp add: frame_length_def Let_def)
  next
    case medium
    then have f: "?f = b0 # 126 # be_digits 2 ?l @ p" using f by (simp add: frame_length_field_digits)
    then have 1: "unat (stream w ! 1) = 126" using nth [of 1] assms(3) by simp
    have v: "be_value [stream w ! 2, stream w ! 3] = ?l" if "4 \<le> ?n"
    proof -
      have "[stream w ! 2, stream w ! 3] = be_digits 2 ?l"
        using nth [of 2] nth [of 3] f that by (simp add: be_digits_2)
      then show ?thesis using medium by (simp add: be_value_digits)
    qed
    show ?thesis
      using medium f 1 v [unfolded be_value_2] by (cases "4 \<le> ?n") (auto simp: frame_length_def Let_def)
  next
    case large
    then have f: "?f = b0 # 127 # be_digits 8 ?l @ p" using f by (simp add: frame_length_field_digits)
    then have 1: "unat (stream w ! 1) = 127" using nth [of 1] assms(3) by simp
    have s: "[stream w ! 2, stream w ! 3, stream w ! 4, stream w ! 5, stream w ! 6, stream w ! 7, stream w ! 8,
        stream w ! 9] = be_digits 8 ?l" if "10 \<le> ?n"
      using nth [of 2] nth [of 3] nth [of 4] nth [of 5] nth [of 6] nth [of 7] nth [of 8] nth [of 9] f that
      by (simp add: be_digits_8)
    have v: "be_value [stream w ! 2, stream w ! 3, stream w ! 4, stream w ! 5, stream w ! 6, stream w ! 7, stream w ! 8,
        stream w ! 9] = ?l" if "10 \<le> ?n"
      unfolding s [OF that] using assms(2) by (simp add: be_value_digits)
    have t: "stream w ! 2 AND 0x80 = 0" if "10 \<le> ?n"
      using s [OF that] top_bit_clear [OF assms(2)] by (simp add: be_digits_8)
    show ?thesis
      using large f 1 v [unfolded be_value_8] t by (cases "10 \<le> ?n") (auto simp: frame_length_def Let_def)
  qed
qed

text \<open>The two fixed bytes.\<close>

lemma frame_fixed_bytes:
  assumes "starts_with w (opcode, fin, p)" and "2 \<le> stream_buffer_count w" and "opcode \<le> 0x0F"
  shows "stream w ! 0 AND 0x0F = opcode" "(stream w ! 0 AND 0x80 \<noteq> 0) = fin" "stream w ! 1 AND 0x80 = 0"
proof -
  let ?f = "frame_bytes (opcode, fin, p)"
  have 2: "2 \<le> length ?f" "?f \<noteq> []"
    by (simp add: length_frame_bytes frame_header_bytes_def Let_def) (simp add: frame_bytes_def ws_frame_def)
  then have s: "stream w ! 0 = ?f ! 0" "stream w ! 1 = ?f ! 1" using starts_nth [OF assms(1), of 0] starts_nth [OF assms(1), of 1] assms(2) by simp_all
  have 0: "?f ! 0 = ucast (ucast opcode :: 32 word) OR (if fin then 0x80 else 0) OR push_bit 4 (0 :: byte)"
    by (simp add: frame_bytes_def ws_frame_def)
  have "ucast (ucast opcode :: 32 word) = opcode" by (rule byte_eqI) (simp_all add: bit_simps)
  moreover have "unat (ucast opcode :: 32 word) = unat opcode"
    using unsigned_less [of opcode, where 'a = nat] by (simp add: unsigned_ucast_eq take_bit_eq_mod)
  ultimately have o: "(ucast opcode :: 32 word) \<le> 0x0F" "ucast (ucast opcode :: 32 word) = opcode"
    using assms(3) by (simp_all add: word_le_nat_alt)
  note b = first_byte_bits [OF o(1), of 0 fin, folded 0]
  show "stream w ! 0 AND 0x0F = opcode" using b(3) o(2) s by simp
  have top: "b AND 0x80 = 0 \<longleftrightarrow> \<not> bit b 7" for b :: byte
    using and_exp_eq_0_iff_not_bit [of b 7] by simp
  show "(stream w ! 0 AND 0x80 \<noteq> 0) = fin" using b(1) s top by simp
  have "?f ! 1 = frame_length_field False (length p) ! 0"
    by (simp add: frame_bytes_def ws_frame_def frame_length_field_def Let_def)
  moreover have "\<not> bit (frame_length_field False n ! 0) 7" for n
    using length_byte_bits(2) [of n] by (simp add: frame_length_field_def Let_def bit_simps)
  ultimately show "stream w ! 1 AND 0x80 = 0" using s top by simp
qed
section \<open>The reference receiver\<close>

text \<open>The type of the message under way (\<open>WS_FRAME_TYPE_UNKNOWN\<close> when there is none) and the
  payloads so far; which frames may come next, and what one yields.\<close>

type_synonym assembly = "byte \<times> byte list"

fun may_follow :: "assembly \<Rightarrow> frame \<Rightarrow> bool" where
  "may_follow (t, acc) (opcode, fin, p) =
     (length p < 2 ^ 63 \<and> (if opcode = 0 then t \<noteq> 0 else opcode \<in> {1, 2} \<and> (fin \<or> t = 0)))"

fun absorb :: "frame \<Rightarrow> assembly \<Rightarrow> (byte \<times> byte list) list \<times> assembly" where
  "absorb (opcode, fin, p) (t, acc) =
     (if opcode = 0 then (if fin then ([(t, acc @ p)], (0, [])) else ([], (t, acc @ p)))
      else if fin then ([(opcode, p)], (t, acc)) else ([], (opcode, acc @ p)))"

text \<open>The assembly that the client's fields stand for.\<close>

definition fragments :: "uws_world \<Rightarrow> byte list" where
  "fragments w = (case fragment_buffer w of None \<Rightarrow> [] | Some b \<Rightarrow> take (fragment_buffer_count w) b)"

definition assembly_of :: "uws_world \<Rightarrow> assembly" where
  "assembly_of w = (fragmented_frame_type w, fragments w)"

definition fragments_ready :: "uws_world \<Rightarrow> bool" where
  "fragments_ready w \<longleftrightarrow> fragment_buffer_count w =
     length (fragments w)"

text \<open>A client that receives: it is open or waits for the peer's CLOSE, reports to \<open>n\<close>, and its
  allocations are granted.\<close>

definition receiving :: "nat \<Rightarrow> uws_world \<Rightarrow> bool" where
  "receiving n w \<longleftrightarrow> uws_state w \<in> {UWS_STATE_OPEN, UWS_STATE_CLOSING_WAITING_FOR_CLOSE} \<and>
     on_ws_frame_received w = Some n \<and> fragments_ready w \<and> (\<forall>i. mem_ok (env_heap w) i)"

definition reports :: "nat \<Rightarrow> (byte \<times> byte list) list \<Rightarrow> ws_event list" where
  "reports n ms = map (\<lambda>(t, m). FrameReceived n t m) ms"

lemma fragment_step:
  assumes "receiving n w" and "length q = len" and "take len (drop (needed - len) (stream w)) = q"
  shows "\<exists>w1. process_frame_fragment len needed w = (Success, w1) \<and> receiving n w1 \<and>
    fragments w1 = fragments w @ q \<and> fragmented_frame_type w1 = fragmented_frame_type w \<and>
    events w1 = events w \<and> uws_state w1 = uws_state w \<and> fragment_buffer w1 \<noteq> None"
proof -
  let ?n = "fragment_buffer_count w"
  have g: "granted (env_heap w)" using assms(1) by (simp add: receiving_def granted_def)
  then obtain b h where x: "realloc_block byte_cell (fragment_buffer w) (?n + len) (env_heap w) = (Some b, h)"
    by (cases "fragment_buffer w") (simp_all add: realloc_block_def malloc_block_def)
  moreover have "take ?n b = fragments w" "mem_ok h = mem_ok (env_heap w)"
    using assms(1) x g
    by (auto simp: realloc_block_def malloc_block_def after_request_def receiving_def fragments_ready_def fragments_def
        split: option.splits)
  ultimately have r: "realloc_block byte_cell (fragment_buffer w) (?n + len) (env_heap w) = (Some b, h)"
    "take ?n b = fragments w" "length b = ?n + len" "mem_ok h = mem_ok (env_heap w)"
    using realloc_length [OF x] by simp_all
  have "take (?n + len) (memcpy_at b ?n (drop (needed - len) (stream w)) len) = fragments w @ q"
    using assms(1-3) r by (auto simp: memcpy_at_def receiving_def fragments_ready_def)
  then show ?thesis
    using assms(1,2) r(1,4) by (auto simp: process_frame_fragment_def receiving_def fragments_ready_def fragments_def)
qed

text \<open>One complete frame.\<close>

lemma process_data_frame:
  assumes "receiving n w" and "may_follow (assembly_of w) (opcode, fin, p)"
    and "payload_at (length p) needed w = p"
  shows "\<exists>w1. process_frame opcode fin (length p) needed w = (True, w1) \<and> receiving n w1 \<and>
    assembly_of w1 = snd (absorb (opcode, fin, p) (assembly_of w)) \<and>
    events w1 = events w @ reports n (fst (absorb (opcode, fin, p) (assembly_of w))) \<and> uws_state w1 = uws_state w"
proof -
  have q: "take (length p) (drop (needed - length p) (stream w)) = p" using assms(3) by (simp add: payload_at_def)
  obtain w1 where f: "process_frame_fragment (length p) needed w = (Success, w1)" "receiving n w1"
    "fragments w1 = fragments w @ p" "fragmented_frame_type w1 = fragmented_frame_type w"
    "events w1 = events w" "uws_state w1 = uws_state w" "fragment_buffer w1 \<noteq> None"
    using fragment_step [OF assms(1) refl q] by blast
  note defs = process_frame_def on_continuation_frame_def on_data_frame_def reports_def assembly_of_def invoke_def emit_def
    receiving_def fragments_ready_def fragments_def frame_type_defs Let_def
  have o: "opcode \<noteq> 0 \<Longrightarrow> opcode = 1 \<or> opcode = 2" using assms(2) by (cases "assembly_of w") auto
  consider "opcode = 0" | "opcode \<noteq> 0" "fin" | "opcode \<noteq> 0" "\<not> fin" by blast
  then show ?thesis
  proof cases
    case 1
    then have t: "fragmented_frame_type w \<noteq> 0" using assms(2) by (simp add: assembly_of_def)
    show ?thesis
    proof (cases fin)
      case True
      let ?w2 = "w1\<lparr>events := events w1 @ [FrameReceived n (fragmented_frame_type w1) (fragments w1)],
        fragment_buffer_count := 0, fragmented_frame_type := WS_FRAME_TYPE_UNKNOWN\<rparr>"
      have "process_frame opcode fin (length p) needed w = (True, ?w2)"
        using 1 True t f by (auto simp: defs)
      then show ?thesis
        using 1 True f by (auto simp: reports_def assembly_of_def receiving_def fragments_ready_def fragments_def
            WS_FRAME_TYPE_UNKNOWN_def split: option.splits)
    next
      case False
      then show ?thesis using 1 t f by (simp add: process_frame_def on_continuation_frame_def reports_def assembly_of_def)
    qed
  next
    case 2
    let ?w2 = "w\<lparr>events := events w @ [FrameReceived n opcode p]\<rparr>"
    have "process_frame opcode fin (length p) needed w = (True, ?w2)"
      using 2 assms(1,3) o by (auto simp: process_frame_def on_data_frame_def invoke_def emit_def receiving_def frame_type_defs)
    then show ?thesis
      using 2 assms(1) by (auto simp: reports_def assembly_of_def receiving_def fragments_ready_def fragments_def)
  next
    case 3
    let ?w2 = "w1\<lparr>fragmented_frame_type := opcode\<rparr>"
    have "process_frame opcode fin (length p) needed w = (True, ?w2)"
      using 3 assms(2) f o by (auto simp: process_frame_def on_data_frame_def frame_type_defs assembly_of_def)
    then show ?thesis
      using 3 f by (auto simp: reports_def assembly_of_def receiving_def fragments_ready_def fragments_def)
  qed
qed
text \<open>Consuming drops from the front.\<close>

lemma consume_eq:
  "\<exists>b. consume_stream_buffer_bytes k w = w\<lparr>stream_buffer := b, stream_buffer_count := stream_buffer_count w - k\<rparr>"
proof (cases "k < stream_buffer_count w")
  case False
  then show ?thesis
    by (intro exI [of _ "stream_buffer w"]) (simp add: consume_stream_buffer_bytes_def Let_def)
qed (auto simp: consume_stream_buffer_bytes_def Let_def)

lemma consume_content:
  assumes "stream_ready w" and "k \<le> stream_buffer_count w"
  shows "content (consume_stream_buffer_bytes k w) = drop k (content w)" "stream_ready (consume_stream_buffer_bytes k w)"
  using assms
  by (auto simp: consume_stream_buffer_bytes_def content_def stream_ready_def memcpy_at_def Let_def take_drop
      drop_take [symmetric])

lemma receiving_stream:
  "receiving n (w\<lparr>stream_buffer := b, stream_buffer_count := k\<rparr>) = receiving n w"
  "assembly_of (w\<lparr>stream_buffer := b, stream_buffer_count := k\<rparr>) = assembly_of w"
  by (simp_all add: receiving_def assembly_of_def fragments_ready_def fragments_def)

lemma may_follow_opcode: "may_follow a (opcode, fin, p) \<Longrightarrow> opcode \<le> 0x0F \<and> length p < 2 ^ 63"
  by (cases a) (auto split: if_splits)

lemma decode_frame_full:
  assumes "receiving n w" and "starts_with w f" and "may_follow (assembly_of w) f"
    and len: "length (frame_bytes f) \<le> stream_buffer_count w"
  shows "\<exists>w'. decode_frame w = (True, w') \<and> receiving n w' \<and> stream_ready w' \<and>
    content w' = drop (length (frame_bytes f)) (content w) \<and> assembly_of w' = snd (absorb f (assembly_of w)) \<and>
    events w' = events w @ reports n (fst (absorb f (assembly_of w))) \<and> uws_state w' = uws_state w"
proof -
  obtain opcode fin p where f: "f = (opcode, fin, p)" by (cases f)
  have two: "2 \<le> stream_buffer_count w"
    using len by (auto simp: f length_frame_bytes frame_header_bytes_def Let_def split: if_splits)
  note o = may_follow_opcode [OF assms(3) [unfolded f]]
  have l: "frame_length w = (length (frame_bytes f), length p, False)"
    using frame_length_frame [OF assms(2) [unfolded f] _ two] o len by (auto simp: f)
  note fixed = frame_fixed_bytes [OF assms(2) [unfolded f] two]
  obtain rest where c: "content w = take (stream_buffer_count w) (frame_bytes f @ rest)" and sr: "stream_ready w"
    using assms(2) by (auto simp: starts_with_def)
  have "payload_at (length p) (length (frame_bytes f)) w = p"
  proof -
    have "take (length p) (drop (length (frame_bytes f) - length p) (stream w)) =
        take (length p) (drop (length (frame_bytes f) - length p) (content w))"
      using len sr by (simp add: content_def drop_take min_def length_frame_bytes f)
    also have "\<dots> = p"
    proof -
      obtain hdr where "frame_bytes f = hdr @ p" by (simp add: f frame_bytes_def ws_frame_def)
      then show ?thesis using len unfolding c by (simp add: take_drop [symmetric] drop_take)
    qed
    finally show ?thesis by (simp add: payload_at_def)
  qed
  from process_data_frame [OF assms(1) assms(3) [unfolded f] this [unfolded f]] obtain w1 where
    w1: "process_frame opcode fin (length p) (length (frame_bytes f)) w = (True, w1)" "receiving n w1"
    "assembly_of w1 = snd (absorb f (assembly_of w))"
    "events w1 = events w @ reports n (fst (absorb f (assembly_of w)))" "uws_state w1 = uws_state w"
    unfolding f by blast
  have same: "stream_buffer w1 = stream_buffer w" "stream_buffer_count w1 = stream_buffer_count w"
    using process_frame_stream [of opcode fin "length p" "length (frame_bytes f)" w] w1(1) by simp_all
  let ?w2 = "consume_stream_buffer_bytes (length (frame_bytes f)) w1"
  have "decode_frame w = (True, ?w2)"
    using two fixed o l len w1(1) by (simp add: decode_frame_def Let_def)
  moreover have "content ?w2 = drop (length (frame_bytes f)) (content w)" "stream_ready ?w2"
    using consume_content [of w1 "length (frame_bytes f)"] len sr same by (simp_all add: stream_ready_def content_def)
  moreover obtain b k where "?w2 = w1\<lparr>stream_buffer := b, stream_buffer_count := k\<rparr>" using consume_eq by blast
  ultimately show ?thesis using w1 by (simp add: receiving_stream)
qed

lemma decode_frame_part:
  assumes "starts_with w f" and "may_follow a f" and "stream_buffer_count w < length (frame_bytes f)"
  shows "decode_frame w = (False, w)"
proof (cases "2 \<le> stream_buffer_count w")
  case True
  obtain opcode fin p where f: "f = (opcode, fin, p)" by (cases f)
  note o = may_follow_opcode [OF assms(2) [unfolded f]]
  obtain needed len where "frame_length w = (needed, len, False)" "stream_buffer_count w < needed"
    using frame_length_frame [OF assms(1) [unfolded f] _ True] o assms(3) by (auto simp: f)
  then show ?thesis
    using True frame_fixed_bytes [OF assms(1) [unfolded f] True] o by (simp add: decode_frame_def Let_def)
qed (simp add: decode_frame_def)
section \<open>All the frames\<close>

fun absorb_all :: "frame list \<Rightarrow> assembly \<Rightarrow> (byte \<times> byte list) list \<times> assembly" where
  "absorb_all [] a = ([], a)"
| "absorb_all (f # fs) a =
     (let (ms, a1) = absorb f a; (ns, a2) = absorb_all fs a1 in (ms @ ns, a2))"

fun may_follow_all :: "assembly \<Rightarrow> frame list \<Rightarrow> bool" where
  "may_follow_all a [] = True"
| "may_follow_all a (f # fs) = (may_follow a f \<and> may_follow_all (snd (absorb f a)) fs)"

definition stream_bytes :: "frame list \<Rightarrow> byte list" where
  "stream_bytes fs = concat (map frame_bytes fs)"

text \<open>What the client has done when \<open>done\<close> frames are behind it and the rest is to come.\<close>

definition received_so_far :: "nat \<Rightarrow> uws_world \<Rightarrow> frame list \<Rightarrow> uws_world \<Rightarrow> bool" where
  "received_so_far n w fs w' \<longleftrightarrow> receiving n w' \<and> stream_ready w' \<and> uws_state w' = uws_state w \<and>
     assembly_of w' = snd (absorb_all fs (assembly_of w)) \<and>
     events w' = events w @ reports n (fst (absorb_all fs (assembly_of w)))"

lemma absorb_all_append:
  "absorb_all (fs @ gs) a =
     (fst (absorb_all fs a) @ fst (absorb_all gs (snd (absorb_all fs a))), snd (absorb_all gs (snd (absorb_all fs a))))"
  by (induction fs arbitrary: a) (simp_all add: case_prod_unfold Let_def)

lemma may_follow_all_append:
  "may_follow_all a (fs @ gs) = (may_follow_all a fs \<and> may_follow_all (snd (absorb_all fs a)) gs)"
  by (induction fs arbitrary: a) (simp_all add: case_prod_unfold Let_def)

lemma received_trans:
  "received_so_far n w fs w1 \<Longrightarrow> received_so_far n w1 gs w2 \<Longrightarrow> received_so_far n w (fs @ gs) w2"
  by (auto simp: received_so_far_def absorb_all_append reports_def)

lemma content_starts:
  assumes "stream_ready w" and "content w @ future = frame_bytes f @ r"
  shows "starts_with w f"
proof -
  have "content w = take (stream_buffer_count w) (content w @ future)"
    using content_length [OF assms(1)] by simp
  then show ?thesis using assms by (auto simp: starts_with_def)
qed

lemma decode_step_receiving: "receiving n w \<Longrightarrow> decode_step w = decode_frame w"
  by (auto simp: receiving_def decode_step_def)

lemma loop_frames:
  assumes "receiving n w" and "stream_ready w" and "content w @ future = stream_bytes fs"
    and "may_follow_all (assembly_of w) fs"
  shows "\<exists>done left. fs = done @ left \<and> received_so_far n w done (decode_loop w) \<and>
    content (decode_loop w) @ future = stream_bytes left \<and>
    (case left of [] \<Rightarrow> True | f # _ \<Rightarrow> length (content (decode_loop w)) < length (frame_bytes f))"
  using assms
proof (induction fs arbitrary: w)
  case Nil
  then have "stream_buffer_count w = 0" using content_length [of w] by (simp add: stream_bytes_def)
  then have "decode_frame w = (False, w)" by (simp add: decode_frame_def)
  then have "decode_loop w = w" using decode_step_receiving [OF Nil(1)] by (subst decode_loop.simps) simp
  then show ?case using Nil by (simp add: received_so_far_def reports_def)
next
  case (Cons f fs)
  have s: "starts_with w f" using content_starts [OF Cons.prems(2)] Cons.prems(3) by (simp add: stream_bytes_def)
  have m: "may_follow (assembly_of w) f" using Cons.prems(4) by simp
  show ?case
  proof (cases "length (frame_bytes f) \<le> stream_buffer_count w")
    case False
    then have "decode_frame w = (False, w)" using decode_frame_part [OF s m] by simp
    then have "decode_loop w = w"
      using decode_step_receiving [OF Cons.prems(1)] by (subst decode_loop.simps) simp
    then show ?thesis
      using Cons.prems False content_length [OF Cons.prems(2)]
      by - (rule exI [of _ "[]"], rule exI [of _ "f # fs"], simp add: received_so_far_def reports_def)
  next
    case True
    from decode_frame_full [OF Cons.prems(1) s m True] obtain w1 where w1:
      "decode_frame w = (True, w1)" "receiving n w1" "stream_ready w1" "content w1 = drop (length (frame_bytes f)) (content w)"
      "assembly_of w1 = snd (absorb f (assembly_of w))"
      "events w1 = events w @ reports n (fst (absorb f (assembly_of w)))" "uws_state w1 = uws_state w" by blast
    have loop: "decode_loop w = decode_loop w1"
      using w1(1) decode_step_receiving [OF Cons.prems(1)] by (subst decode_loop.simps) simp
    have r1: "received_so_far n w [f] w1"
      using w1 by (simp add: received_so_far_def case_prod_unfold Let_def)
    have "content w1 @ future = drop (length (frame_bytes f)) (content w @ future)"
      using True content_length [OF Cons.prems(2)] by (simp add: w1(4))
    then have c: "content w1 @ future = stream_bytes fs" using Cons.prems(3) by (simp add: stream_bytes_def)
    have "may_follow_all (assembly_of w1) fs" using Cons.prems(4) w1(5) by simp
    from Cons.IH [OF w1(2,3) c this] obtain "done" left where
      d: "fs = done @ left" "received_so_far n w1 done (decode_loop w1)"
      "content (decode_loop w1) @ future = stream_bytes left"
      "case left of [] \<Rightarrow> True | f # _ \<Rightarrow> length (content (decode_loop w1)) < length (frame_bytes f)" by blast
    then show ?thesis
      using received_trans [OF r1 d(2)] unfolding loop by - (rule exI [of _ "f # done"], rule exI [of _ left], simp)
  qed
qed
section \<open>Pieces of any size\<close>

definition stream_ok :: "uws_world \<Rightarrow> bool" where
  "stream_ok w \<longleftrightarrow> stream_ready w \<or> (stream_buffer w = None \<and> stream_buffer_count w = 0)"

lemma append_content:
  assumes "\<forall>i. mem_ok (env_heap w) i" and "stream_ok w" and "sz \<le> length bs"
  shows "\<exists>h b. append_received bs sz w =
      (True, w\<lparr>env_heap := h, stream_buffer := Some b, stream_buffer_count := stream_buffer_count w + sz\<rparr>) \<and>
    mem_ok h = mem_ok (env_heap w) \<and> length b = stream_buffer_count w + sz + 1 \<and>
    take (stream_buffer_count w + sz) b = content w @ take sz bs"
proof -
  let ?n = "stream_buffer_count w"
  have g: "granted (env_heap w)" using assms(1) by (simp add: granted_def)
  then obtain b h where x: "realloc_block byte_cell (stream_buffer w) (?n + sz + 1) (env_heap w) = (Some b, h)"
    by (cases "stream_buffer w") (simp_all add: realloc_block_def malloc_block_def)
  have b: "length b = ?n + sz + 1" using realloc_length [OF x] .
  have "take ?n b = content w" "mem_ok h = mem_ok (env_heap w)"
    using assms(2) x g
    by (auto simp: realloc_block_def malloc_block_def after_request_def stream_ok_def stream_ready_def content_def
        split: option.splits)
  then have "mem_ok h = mem_ok (env_heap w)" "take (?n + sz) (memcpy_at b ?n bs sz) = content w @ take sz bs"
    using assms(2,3) b content_length [of w] by (auto simp: memcpy_at_def stream_ok_def content_def)
  moreover have "length (memcpy_at b ?n bs sz) = length b" using assms(3) b by (simp add: memcpy_at_def)
  ultimately show ?thesis
    using x b by - (rule exI [of _ h], rule exI [of _ "memcpy_at b ?n bs sz"], simp add: append_received_def)
qed

lemma receive_piece:
  assumes "receiving n w" and "stream_ok w" and "sz \<le> length bs" and "0 < sz"
    and "content w @ take sz bs @ future = stream_bytes fs" and "may_follow_all (assembly_of w) fs"
  shows "\<exists>done left w'. fs = done @ left \<and> on_underlying_io_bytes_received CLIENT (Some bs) sz w = w' \<and>
    received_so_far n w done w' \<and> content w' @ future = stream_bytes left \<and>
    (case left of [] \<Rightarrow> True | f # _ \<Rightarrow> length (content w') < length (frame_bytes f))"
proof -
  have ok: "\<forall>i. mem_ok (env_heap w) i" using assms(1) by (simp add: receiving_def)
  obtain h b where a: "append_received bs sz w =
      (True, w\<lparr>env_heap := h, stream_buffer := Some b, stream_buffer_count := stream_buffer_count w + sz\<rparr>)"
    "mem_ok h = mem_ok (env_heap w)" "length b = stream_buffer_count w + sz + 1"
    "take (stream_buffer_count w + sz) b = content w @ take sz bs"
    using append_content [OF ok assms(2,3)] by blast
  let ?w1 = "w\<lparr>env_heap := h, stream_buffer_count := stream_buffer_count w + sz,
    stream_buffer := Some (b[stream_buffer_count w + sz := 0])\<rparr>"
  have run: "on_underlying_io_bytes_received CLIENT (Some bs) sz w = decode_loop ?w1"
    using assms(1,4) a by (auto simp: on_underlying_io_bytes_received_def receive_in_open_def receiving_def)
  have w1: "receiving n ?w1" "stream_ready ?w1" "assembly_of ?w1 = assembly_of w" "content ?w1 = content w @ take sz bs"
    using assms(1) a by (auto simp: receiving_def fragments_ready_def fragments_def stream_ready_def assembly_of_def content_def)
  have start: "received_so_far n w [] ?w1"
    using w1 by (simp add: received_so_far_def reports_def)
  have "content ?w1 @ future = stream_bytes fs" using assms(5) w1(4) by simp
  moreover have "may_follow_all (assembly_of ?w1) fs" using assms(6) w1(3) by simp
  ultimately obtain "done" left where d: "fs = done @ left" "received_so_far n ?w1 done (decode_loop ?w1)"
    "content (decode_loop ?w1) @ future = stream_bytes left"
    "case left of [] \<Rightarrow> True | f # _ \<Rightarrow> length (content (decode_loop ?w1)) < length (frame_bytes f)"
    using loop_frames [OF w1(1,2)] by blast
  have "received_so_far n w done (decode_loop ?w1)" using received_trans [OF start d(2)] by simp
  then show ?thesis using d(1,3,4) run by blast
qed

text \<open>The IO delivers piece after piece.\<close>

definition receive_all :: "byte list list \<Rightarrow> uws_world \<Rightarrow> uws_world" where
  "receive_all pieces w = fold (\<lambda>p. on_underlying_io_bytes_received CLIENT (Some p) (length p)) pieces w"

lemma receive_all_frames:
  assumes "receiving n w" and "stream_ok w" and "[] \<notin> set pieces"
    and "content w @ concat pieces @ future = stream_bytes fs" and "may_follow_all (assembly_of w) fs"
    and "pieces = [] \<Longrightarrow> case fs of [] \<Rightarrow> True | f # _ \<Rightarrow> length (content w) < length (frame_bytes f)"
  shows "\<exists>done left w'. fs = done @ left \<and> receive_all pieces w = w' \<and> stream_ok w' \<and>
    (receiving n w' \<and> uws_state w' = uws_state w \<and> assembly_of w' = snd (absorb_all done (assembly_of w)) \<and>
     events w' = events w @ reports n (fst (absorb_all done (assembly_of w)))) \<and>
    content w' @ future = stream_bytes left \<and>
    (case left of [] \<Rightarrow> True | f # _ \<Rightarrow> length (content w') < length (frame_bytes f))"
  using assms
proof (induction pieces arbitrary: w fs)
  case Nil
  then show ?case
    by - (rule exI [of _ "[]"], rule exI [of _ fs], rule exI [of _ w], simp add: receive_all_def reports_def)
next
  case (Cons p pieces)
  have "content w @ take (length p) p @ (concat pieces @ future) = stream_bytes fs" using Cons.prems(4) by simp
  moreover have "0 < length p" using Cons.prems(3) by auto
  ultimately obtain d1 l1 w1 where 1: "fs = d1 @ l1"
    "on_underlying_io_bytes_received CLIENT (Some p) (length p) w = w1" "received_so_far n w d1 w1"
    "content w1 @ (concat pieces @ future) = stream_bytes l1"
    "case l1 of [] \<Rightarrow> True | f # _ \<Rightarrow> length (content w1) < length (frame_bytes f)"
    using receive_piece [OF Cons.prems(1,2) order_refl _ _ Cons.prems(5)] by blast
  have r: "receiving n w1" "stream_ok w1" using 1(3) by (simp_all add: received_so_far_def stream_ok_def)
  have m: "may_follow_all (assembly_of w1) l1"
    using Cons.prems(5) 1(1,3) by (simp add: may_follow_all_append received_so_far_def)
  have ne: "[] \<notin> set pieces" using Cons.prems(3) by simp
  obtain d2 l2 w2 where 2: "l1 = d2 @ l2" "receive_all pieces w1 = w2" "stream_ok w2" "receiving n w2"
    "uws_state w2 = uws_state w1" "assembly_of w2 = snd (absorb_all d2 (assembly_of w1))"
    "events w2 = events w1 @ reports n (fst (absorb_all d2 (assembly_of w1)))"
    "content w2 @ future = stream_bytes l2"
    "case l2 of [] \<Rightarrow> True | f # _ \<Rightarrow> length (content w2) < length (frame_bytes f)"
    using Cons.IH [OF r ne 1(4) m 1(5)] by blast
  have "receive_all (p # pieces) w = w2" using 1(2) 2(2) by (simp add: receive_all_def)
  moreover have "fs = (d1 @ d2) @ l2" using 1(1) 2(1) by simp
  moreover have "assembly_of w2 = snd (absorb_all (d1 @ d2) (assembly_of w))" "uws_state w2 = uws_state w"
    "events w2 = events w @ reports n (fst (absorb_all (d1 @ d2) (assembly_of w)))"
    using 1(3) 2(5-7) by (simp_all add: received_so_far_def absorb_all_append reports_def)
  ultimately show ?case using 2(3,4,8,9) by blast
qed
section \<open>Messages\<close>

text \<open>A message is its type and its fragments; a server sends it as one frame per fragment.\<close>

type_synonym message = "byte \<times> byte list list"

fun continuation_frames :: "byte list list \<Rightarrow> frame list" where
  "continuation_frames [] = []"
| "continuation_frames (p # ps) = (0, ps = [], p) # continuation_frames ps"

fun message_frames :: "message \<Rightarrow> frame list" where
  "message_frames (t, []) = []"
| "message_frames (t, p # ps) = (t, ps = [], p) # continuation_frames ps"

definition message_ok :: "message \<Rightarrow> bool" where
  "message_ok m = (case m of (t, ps) \<Rightarrow>
     t \<in> {WS_FRAME_TYPE_TEXT, WS_FRAME_TYPE_BINARY} \<and> ps \<noteq> [] \<and> (\<forall>p \<in> set ps. length p < 2 ^ 63))"

definition message_bytes :: "message \<Rightarrow> byte list" where
  "message_bytes m = stream_bytes (message_frames m)"

lemma continuation_absorbed:
  "ps \<noteq> [] \<Longrightarrow> absorb_all (continuation_frames ps) (t, acc) = ([(t, acc @ concat ps)], (0, []))"
  by (induction ps arbitrary: acc) (auto simp: neq_Nil_conv)

lemma continuation_follows:
  "t \<noteq> 0 \<Longrightarrow> \<forall>p \<in> set ps. length p < 2 ^ 63 \<Longrightarrow> may_follow_all (t, acc) (continuation_frames ps)"
  by (induction ps arbitrary: acc) auto

lemma message_absorbed:
  assumes "message_ok (t, ps)"
  shows "absorb_all (message_frames (t, ps)) (0, []) = ([(t, concat ps)], (0, []))"
    "may_follow_all (0, []) (message_frames (t, ps))"
proof -
  obtain p qs where ps: "ps = p # qs" using assms by (cases ps) (auto simp: message_ok_def)
  have t: "t \<noteq> 0" "t = 1 \<or> t = 2" using assms by (auto simp: message_ok_def frame_type_defs)
  then show "absorb_all (message_frames (t, ps)) (0, []) = ([(t, concat ps)], (0, []))"
    using continuation_absorbed [of qs t p] by (cases "qs = []") (simp_all add: ps)
  show "may_follow_all (0, []) (message_frames (t, ps))"
    using t assms continuation_follows [of t qs p] by (cases "qs = []") (auto simp: ps message_ok_def)
qed

lemma messages_absorbed:
  "list_all message_ok ms \<Longrightarrow>
     absorb_all (concat (map message_frames ms)) (0, []) = (map (\<lambda>(t, ps). (t, concat ps)) ms, (0, [])) \<and>
     may_follow_all (0, []) (concat (map message_frames ms))"
  by (induction ms) (auto simp: absorb_all_append may_follow_all_append message_absorbed)

lemma stream_bytes_messages: "stream_bytes (concat (map message_frames ms)) = concat (map message_bytes ms)"
  by (induction ms) (simp_all add: stream_bytes_def message_bytes_def)

text \<open>A client between messages.\<close>

definition between_messages :: "nat \<Rightarrow> uws_world \<Rightarrow> bool" where
  "between_messages n w \<longleftrightarrow>
     uws_state w \<in> {UWS_STATE_OPEN, UWS_STATE_CLOSING_WAITING_FOR_CLOSE} \<and> on_ws_frame_received w = Some n \<and>
     stream_buffer_count w = 0 \<and> fragment_buffer_count w = 0 \<and> fragmented_frame_type w = WS_FRAME_TYPE_UNKNOWN"

text \<open>C1: Whatever the sizes of the pieces in which the underlying IO delivers them, text and
  binary messages that a server sends as one frame or as fragments are reported in order, each
  exactly once, with its type and the concatenation of its fragments; nothing else is
  reported, the state stays, and no byte is left over. Allocations are granted.\<close>

theorem messages_delivered:
  assumes "between_messages n w" and "\<forall>i. mem_ok (env_heap w) i" and "list_all message_ok ms"
    and "[] \<notin> set pieces" and "concat pieces = concat (map message_bytes ms)"
  shows "events (receive_all pieces w) = events w @ map (\<lambda>(t, ps). FrameReceived n t (concat ps)) ms \<and>
    uws_state (receive_all pieces w) = uws_state w \<and> between_messages n (receive_all pieces w)"
proof -
  have frag: "fragments w = []" using assms(1) by (simp add: between_messages_def fragments_def split: option.splits)
  have r: "receiving n w" "stream_ok w" "content w = []"
    using assms(1,2) frag by (auto simp: between_messages_def receiving_def fragments_ready_def stream_ok_def stream_ready_def content_def)
  have a: "assembly_of w = (0, [])" using assms(1) frag by (simp add: assembly_of_def between_messages_def WS_FRAME_TYPE_UNKNOWN_def)
  let ?fs = "concat (map message_frames ms)"
  have c: "content w @ concat pieces @ [] = stream_bytes ?fs" using assms(5) r(3) by (simp add: stream_bytes_messages)
  note m = messages_absorbed [OF assms(3)]
  have pos: "0 < length (frame_bytes f)" for f
    by (cases f) (simp add: length_frame_bytes frame_header_bytes_def Let_def)
  have "case ?fs of [] \<Rightarrow> True | f # _ \<Rightarrow> length (content w) < length (frame_bytes f)"
    using r(3) pos by (simp split: list.splits)
  from receive_all_frames [OF r(1,2) assms(4) c _ this] a m obtain "done" left w' where
    d: "?fs = done @ left" "receive_all pieces w = w'" "stream_ok w'" "receiving n w'" "uws_state w' = uws_state w"
      "assembly_of w' = snd (absorb_all done (0, []))" "events w' = events w @ reports n (fst (absorb_all done (0, [])))"
      "content w' = stream_bytes left"
      "case left of [] \<Rightarrow> True | f # _ \<Rightarrow> length (content w') < length (frame_bytes f)"
    by auto
  have "left = []" using d(8,9) by (cases left) (auto simp: stream_bytes_def)
  then have e: "done = ?fs" "content w' = []" using d(1,8) by (simp_all add: stream_bytes_def)
  have "stream_buffer_count w' = 0" using d(3) e(2) content_length [of w'] by (auto simp: stream_ok_def)
  moreover have "fragments w' = []" "fragmented_frame_type w' = 0" using d(6) e(1) m by (simp_all add: assembly_of_def)
  ultimately show ?thesis
    using d(2,4,5,7) e(1) m
    by (auto simp: between_messages_def receiving_def fragments_ready_def WS_FRAME_TYPE_UNKNOWN_def reports_def)
qed

end
