(* ===== verification/Uws_Traffic.thy ===== *)
theory Uws_Traffic
  imports Uws_Request Uws_Stream
begin

text \<open>
  The WebSocket client of \<open>src/uws_client.c\<close> on the wire: the upgrade response and the messages
  behind it in pieces of any size, PING frames, and what a sent frame looks like.
\<close>

section \<open>The upgrade response\<close>

text \<open>A response that switches protocols: its status line, and the first empty line at its end.\<close>

definition complete_header :: "char list \<Rightarrow> bool" where
  "complete_header s \<longleftrightarrow> NUL \<notin> set s \<and>
     (\<exists>t. s = t @ CRLF @ CRLF \<and> (\<forall>k < length t. take 4 (drop k s) \<noteq> CRLF @ CRLF))"

definition switching_response :: "char list \<Rightarrow> bool" where
  "switching_response s \<longleftrightarrow> complete_header s \<and> (\<exists>r. s = ''HTTP/1.1 101 '' @ r)"

lemma switching_status:
  assumes "switching_response s"
  shows "ParseHttpResponse (Some (s @ z)) errno = (Success, 101, errno)"
proof -
  obtain r where s: "s = ''HTTP/1.1 101 '' @ r" using assms by (auto simp: switching_response_def)
  have "strtol ('' 101 '' @ q) = (101, 4, False)" for q
  proof -
    have c: "c_isspace (CHR '' '')" "\<not> c_isspace (CHR ''1'')" "digit_of (CHR ''1'') = 1" "digit_of (CHR ''0'') = 0"
      "digit_of (CHR '' '') = 36"
      by (simp_all add: c_isspace_def digit_of_def Let_def)
    show ?thesis by (simp add: strtol_def Let_def c LONG_MAX_def)
  qed
  then have "ParseStringToDecimal ('' 101 '' @ q) errno = (Success, 101, errno)" for q
    by (simp add: ParseStringToDecimal_def INT_MAX_def)
  then show ?thesis by (simp add: s ParseHttpResponse_def)
qed

lemma header_found:
  assumes "complete_header s"
  shows "strstr (s @ z) (CRLF @ CRLF) = Some (length s - 4)"
proof -
  obtain t where t: "s = t @ CRLF @ CRLF" "\<forall>k < length t. take 4 (drop k s) \<noteq> CRLF @ CRLF" and n: "NUL \<notin> set s"
    using assms by (auto simp: complete_header_def)
  have c: "cstr (s @ z) = s @ cstr z" using n by (simp add: cstr_append c_string_def)
  have l: "length (CRLF @ CRLF) = 4" "length s = length t + 4" by (simp_all add: CRLF_def t(1))
  have same: "take 4 (drop k (s @ cstr z)) = take 4 (drop k s)" if "k \<le> length t" for k
    using that l(2) by simp
  have "take 4 (drop (length t) s) = CRLF @ CRLF" by (simp add: t(1) CRLF_def)
  then have f: "take 4 (drop (length t) (s @ cstr z)) = CRLF @ CRLF"
    "\<forall>j < length t. take 4 (drop j (s @ cstr z)) \<noteq> CRLF @ CRLF"
    using same t(2) by (metis order_refl, metis less_imp_le)
  obtain m where m: "m = length (s @ cstr z)" "length t < m" using l(2) by simp
  show ?thesis
    unfolding strstr_def c find_Some_iff l(1) m(1) [symmetric]
    using f l(2) m(2) by (intro exI [of _ "length t"]) (simp del: drop_append take_append)
qed

lemma header_not_found:
  assumes "complete_header s" and "n < length s"
  shows "strstr (take n s @ NUL # z) (CRLF @ CRLF) = None"
proof (cases "strstr (take n s @ NUL # z) (CRLF @ CRLF)")
  case (Some k)
  obtain t where t: "s = t @ CRLF @ CRLF" "\<forall>k < length t. take 4 (drop k s) \<noteq> CRLF @ CRLF" and ns: "NUL \<notin> set s"
    using assms by (auto simp: complete_header_def)
  have "NUL \<notin> set (take n s)" using ns by (auto dest: in_set_takeD)
  then have c: "cstr (take n s @ NUL # z) = take n s" by (simp add: cstr_append_NUL c_string_def)
  have l: "length (CRLF @ CRLF) = 4" "length s = length t + 4" by (simp_all add: CRLF_def t(1))
  have k: "take 4 (drop k (take n s)) = CRLF @ CRLF" "k + 4 \<le> n"
    using strstr_found [OF Some] assms(2) unfolding c l(1) by (auto simp: CRLF_def)
  then have "take 4 (drop k s) = CRLF @ CRLF" using k(2) by (simp add: drop_take min_def split: if_splits)
  then show ?thesis using t(2) k(2) assms(2) l(2) by simp
qed simp

lemmas switching_found = header_found [OF switching_response_def [THEN iffD1, THEN conjunct1]]
lemmas switching_not_found = header_not_found [OF switching_response_def [THEN iffD1, THEN conjunct1]]

text \<open>A client that waits for the response: it reports the open to \<open>m\<close> and frames to \<open>n\<close>.\<close>

definition waiting :: "nat \<Rightarrow> nat \<Rightarrow> uws_world \<Rightarrow> bool" where
  "waiting m n w \<longleftrightarrow> uws_state w = UWS_STATE_WAITING_FOR_UPGRADE_RESPONSE \<and> on_ws_open_complete w = Some m \<and>
     on_ws_frame_received w = Some n \<and> fragments_ready w \<and> (\<forall>i. mem_ok (env_heap w) i)"

text \<open>The stream as characters, up to the stored terminator.\<close>

lemma stream_text:
  assumes "stream_buffer w = Some b" and "stream_buffer_count w < length b"
  shows "\<exists>z. map char_of_byte (b[stream_buffer_count w := 0]) = map char_of_byte (content w) @ NUL # z"
proof -
  have "b[stream_buffer_count w := 0] = content w @ 0 # drop (Suc (stream_buffer_count w)) b"
    using assms by (simp add: content_def upd_conv_take_nth_drop)
  moreover have "char_of_byte 0 = NUL" by (simp add: char_of_byte_def char_of_def)
  ultimately show ?thesis by simp
qed

text \<open>A part of the response, which keeps the client waiting, or all of it, which opens the client.\<close>

lemma upgrade_part:
  assumes "switching_response s" and "stream_buffer w = Some b" "stream_buffer_count w < length b"
    and "map char_of_byte (content w) = take (stream_buffer_count w) s" and "stream_buffer_count w < length s"
  shows "decode_upgrade_response w = (False, w\<lparr>stream_buffer := Some (b[stream_buffer_count w := 0])\<rparr>)"
proof -
  obtain z where "map char_of_byte (b[stream_buffer_count w := 0]) = take (stream_buffer_count w) s @ NUL # z"
    using stream_text [OF assms(2,3)] assms(4) by auto
  then have "strstr (map char_of_byte (b[stream_buffer_count w := 0])) (CRLF @ CRLF) = None"
    using switching_not_found [OF assms(1,5)] by simp
  then show ?thesis using assms(2) by (simp add: decode_upgrade_response_def Let_def)
qed

lemma upgrade_full:
  assumes "waiting m n w" and "switching_response s" and "stream_buffer w = Some b" "stream_buffer_count w < length b"
    and "content w = map byte_of_char s @ rest"
  shows "\<exists>w'. decode_upgrade_response w = (True, w') \<and> receiving n w' \<and> stream_ready w' \<and> content w' = rest \<and>
    uws_state w' = UWS_STATE_OPEN \<and> assembly_of w' = assembly_of w \<and>
    events w' = events w @ [OpenComplete m (open_detail WS_OPEN_OK (Code 0))]"
proof -
  let ?w1 = "w\<lparr>stream_buffer := Some (b[stream_buffer_count w := 0])\<rparr>"
  let ?text = "map char_of_byte (b[stream_buffer_count w := 0])"
  obtain z where z: "?text = s @ z"
    using stream_text [OF assms(3,4)] assms(5) by (auto simp: o_def)
  have "length (content w) = stream_buffer_count w" using assms(3,4) by (simp add: content_def)
  then have count: "stream_buffer_count w = length s + length rest" using assms(5) by simp
  have four: "4 \<le> length s" using assms(2) by (auto simp: switching_response_def complete_header_def CRLF_def)
  have c1: "content ?w1 = content w" "stream_ready ?w1" using assms(3,4) by (simp_all add: content_def stream_ready_def)
  let ?w2 = "consume_stream_buffer_bytes (length s) ?w1"
  let ?w3 = "?w2\<lparr>uws_state := UWS_STATE_OPEN, events := events w @ [OpenComplete m (open_detail WS_OPEN_OK (Code 0))]\<rparr>"
  have c2: "content ?w2 = rest" "stream_ready ?w2"
    using consume_content [OF c1(2), of "length s"] count c1(1) assms(5) by simp_all
  obtain q k where w2: "?w2 = w\<lparr>stream_buffer := q, stream_buffer_count := k\<rparr>" using consume_eq [of "length s" ?w1] by auto
  have errno: "?w1\<lparr>env_errno := env_errno w\<rparr> = ?w1" by simp
  have "decode_upgrade_response w = (True, ?w3)"
    using assms(1,3) switching_found [OF assms(2), of z] switching_status [OF assms(2), of z "env_errno w"] z count four w2 errno
    by (simp add: decode_upgrade_response_def on_upgrade_response_def waiting_def invoke_def emit_def Let_def)
  moreover have "content ?w3 = rest" "stream_ready ?w3" using c2 by (simp_all add: content_def stream_ready_def)
  moreover have "receiving n ?w3" "assembly_of ?w3 = assembly_of w"
    using assms(1) unfolding w2 by (simp_all add: waiting_def receiving_def assembly_of_def fragments_ready_def fragments_def)
  ultimately show ?thesis by (intro exI [of _ ?w3]) simp
qed
text \<open>What has happened when the whole response and \<open>done\<close> frames are behind the client.\<close>

definition opened_so_far :: "nat \<Rightarrow> nat \<Rightarrow> uws_world \<Rightarrow> frame list \<Rightarrow> uws_world \<Rightarrow> bool" where
  "opened_so_far m n w fs w' \<longleftrightarrow> receiving n w' \<and> stream_ok w' \<and> uws_state w' = UWS_STATE_OPEN \<and>
     assembly_of w' = snd (absorb_all fs (assembly_of w)) \<and>
     events w' = events w @ OpenComplete m (open_detail WS_OPEN_OK (Code 0)) #
       reports n (fst (absorb_all fs (assembly_of w)))"

lemma waiting_piece:
  assumes "waiting m n w" and "stream_ok w" and "sz \<le> length bs" and "0 < sz" and s: "switching_response s"
    and c: "content w @ take sz bs @ future = map byte_of_char s @ stream_bytes fs"
    and "may_follow_all (assembly_of w) fs"
  shows "\<exists>w'. on_underlying_io_bytes_received CLIENT (Some bs) sz w = w' \<and>
    ((length (content w) + sz < length s \<and> waiting m n w' \<and> stream_ok w' \<and> content w' = content w @ take sz bs \<and>
        assembly_of w' = assembly_of w \<and> events w' = events w) \<or>
     (\<exists>done left. fs = done @ left \<and> opened_so_far m n w done w' \<and> content w' @ future = stream_bytes left \<and>
        (case left of [] \<Rightarrow> True | f # _ \<Rightarrow> length (content w') < length (frame_bytes f))))"
proof -
  have ok: "\<forall>i. mem_ok (env_heap w) i" using assms(1) by (simp add: waiting_def)
  obtain h b where a: "append_received bs sz w =
      (True, w\<lparr>env_heap := h, stream_buffer := Some b, stream_buffer_count := stream_buffer_count w + sz\<rparr>)"
    "mem_ok h = mem_ok (env_heap w)" "length b = stream_buffer_count w + sz + 1"
    "take (stream_buffer_count w + sz) b = content w @ take sz bs"
    using append_content [OF ok assms(2,3)] by blast
  let ?w1 = "w\<lparr>env_heap := h, stream_buffer := Some b, stream_buffer_count := stream_buffer_count w + sz\<rparr>"
  have run: "on_underlying_io_bytes_received CLIENT (Some bs) sz w = decode_loop ?w1"
    using assms(1,4) a by (simp add: on_underlying_io_bytes_received_def waiting_def)
  have w1: "waiting m n ?w1" "assembly_of ?w1 = assembly_of w" "content ?w1 = content w @ take sz bs"
    "stream_buffer ?w1 = Some b" "stream_buffer_count ?w1 < length b" "uws_state ?w1 = UWS_STATE_WAITING_FOR_UPGRADE_RESPONSE"
    using assms(1) a by (auto simp: waiting_def fragments_ready_def fragments_def assembly_of_def content_def)
  have n: "length (content w) = stream_buffer_count w"
    using assms(2) content_length [of w] by (auto simp: stream_ok_def content_def)
  have step: "decode_step ?w1 = decode_upgrade_response ?w1" using w1(6) by (simp add: decode_step_def)
  show ?thesis
  proof (cases "stream_buffer_count ?w1 < length s")
    case True
    have "content w @ take sz bs = take (stream_buffer_count w + sz) (map byte_of_char s)"
    proof -
      have "content w @ take sz bs = take (stream_buffer_count w + sz) ((content w @ take sz bs) @ future)"
        using n assms(3) by simp
      then show ?thesis using True c by simp
    qed
    then have "map char_of_byte (content ?w1) = take (stream_buffer_count ?w1) s"
      using w1(3) by (simp add: take_map [symmetric] o_def)
    from upgrade_part [OF s w1(4,5) this True]
    have "decode_loop ?w1 = ?w1\<lparr>stream_buffer := Some (b[stream_buffer_count ?w1 := 0])\<rparr>" (is "_ = ?w2")
      using step by (subst decode_loop.simps) simp
    moreover have "waiting m n ?w2" "assembly_of ?w2 = assembly_of w" "events ?w2 = events w"
      using assms(1) a(2) by (auto simp: waiting_def fragments_ready_def fragments_def assembly_of_def)
    moreover have "stream_ok ?w2" "content ?w2 = content w @ take sz bs"
      using a by (simp_all add: stream_ok_def stream_ready_def content_def)
    ultimately show ?thesis using run True n by (intro exI [of _ ?w2]) simp
  next
    case False
    define rest where "rest = drop (length s) (content ?w1)"
    have len: "length s \<le> length (content ?w1)" using False n assms(3) w1(3) by simp
    have "map byte_of_char s @ stream_bytes fs = content ?w1 @ future" using c w1(3) by simp
    then have "take (length s) (content ?w1) = map byte_of_char s" "rest @ future = stream_bytes fs"
      using len unfolding rest_def by (auto simp: append_eq_append_conv_if)
    then have c1: "content ?w1 = map byte_of_char s @ rest" "rest @ future = stream_bytes fs"
      unfolding rest_def by (metis append_take_drop_id, simp)
    from upgrade_full [OF w1(1) s w1(4,5) c1(1)] obtain w2 where w2:
      "decode_upgrade_response ?w1 = (True, w2)" "receiving n w2" "stream_ready w2" "content w2 = rest"
      "uws_state w2 = UWS_STATE_OPEN" "assembly_of w2 = assembly_of w"
      "events w2 = events w @ [OpenComplete m (open_detail WS_OPEN_OK (Code 0))]"
      using w1(2) by auto
    have loop: "decode_loop ?w1 = decode_loop w2" using step w2(1) by (subst decode_loop.simps) simp
    have m: "may_follow_all (assembly_of w2) fs" using assms(7) w2(6) by simp
    from loop_frames [OF w2(2,3) c1(2) [folded w2(4)] m] obtain "done" left where
      d: "fs = done @ left" "received_so_far n w2 done (decode_loop w2)" "content (decode_loop w2) @ future = stream_bytes left"
      "case left of [] \<Rightarrow> True | f # _ \<Rightarrow> length (content (decode_loop w2)) < length (frame_bytes f)" by blast
    have "opened_so_far m n w done (decode_loop w2)"
      using d(2) w2(5-7) by (simp add: opened_so_far_def received_so_far_def stream_ok_def)
    moreover have "on_underlying_io_bytes_received CLIENT (Some bs) sz w = decode_loop w2" using run loop by (rule trans)
    ultimately show ?thesis using d(1,3,4) by (intro exI [of _ "decode_loop w2"] conjI disjI2) blast+
  qed
qed

lemma waiting_all:
  assumes "waiting m n w" and "stream_ok w" and "[] \<notin> set pieces" and s: "switching_response s"
    and "content w @ concat pieces = map byte_of_char s @ stream_bytes fs" and "may_follow_all (assembly_of w) fs"
    and "length (content w) < length s"
  shows "opened_so_far m n w fs (receive_all pieces w) \<and> content (receive_all pieces w) = []"
  using assms
proof (induction pieces arbitrary: w)
  case Nil
  then have "length (content w) = length s + length (stream_bytes fs)" by (metis append_Nil2 concat.simps(1) length_append length_map)
  then show ?case using Nil.prems(7) by simp
next
  case (Cons p pieces)
  have c: "content w @ take (length p) p @ concat pieces = map byte_of_char s @ stream_bytes fs" using Cons.prems(5) by simp
  have p: "0 < length p" using Cons.prems(3) by auto
  obtain w1 where w1: "on_underlying_io_bytes_received CLIENT (Some p) (length p) w = w1"
    "(length (content w) + length p < length s \<and> waiting m n w1 \<and> stream_ok w1 \<and> content w1 = content w @ take (length p) p \<and>
        assembly_of w1 = assembly_of w \<and> events w1 = events w) \<or>
     (\<exists>done left. fs = done @ left \<and> opened_so_far m n w done w1 \<and> content w1 @ concat pieces = stream_bytes left \<and>
        (case left of [] \<Rightarrow> True | f # _ \<Rightarrow> length (content w1) < length (frame_bytes f)))"
    using waiting_piece [OF Cons.prems(1,2) order_refl p s c Cons.prems(6)] by blast
  have run: "receive_all (p # pieces) w = receive_all pieces w1" using w1(1) by (simp add: receive_all_def)
  from w1(2) show ?case
  proof (elim disjE exE conjE, goal_cases)
    case 1
    have ih: "opened_so_far m n w1 fs (receive_all pieces w1) \<and> content (receive_all pieces w1) = []"
      using Cons.prems 1 c by (intro Cons.IH) simp_all
    then show ?case using 1 run by (simp add: opened_so_far_def)
  next
    case (2 "done" left)
    have r: "receiving n w1" "stream_ok w1" using 2(2) by (simp_all add: opened_so_far_def)
    have "content w1 @ concat pieces @ [] = stream_bytes left" using 2(3) by simp
    moreover have "may_follow_all (assembly_of w1) left"
      using Cons.prems(6) 2(1,2) by (simp add: may_follow_all_append opened_so_far_def)
    moreover have "[] \<notin> set pieces" using Cons.prems(3) by simp
    ultimately obtain d2 l2 w2 where d: "left = d2 @ l2" "receive_all pieces w1 = w2" "stream_ok w2" "receiving n w2"
      "uws_state w2 = uws_state w1" "assembly_of w2 = snd (absorb_all d2 (assembly_of w1))"
      "events w2 = events w1 @ reports n (fst (absorb_all d2 (assembly_of w1)))"
      "content w2 @ [] = stream_bytes l2" "case l2 of [] \<Rightarrow> True | f # _ \<Rightarrow> length (content w2) < length (frame_bytes f)"
      using receive_all_frames [OF r, of pieces "[]" left] 2(4) by blast
    have "l2 = []" using d(8,9) by (cases l2) (auto simp: stream_bytes_def)
    then have "left = d2" "content w2 = []" using d(1,8) by (simp_all add: stream_bytes_def)
    then show ?case
      using 2(1,2) d(2-7) run by (simp add: opened_so_far_def absorb_all_append reports_def)
  qed
qed
text \<open>C6: From the upgrade request to the last message: however the underlying IO cuts the byte
  stream into pieces, a response that switches protocols followed by messages makes the client
  report one successful open and then every message, in order and exactly once; the first
  message may start in the same piece as the end of the response. Allocations are granted.\<close>

theorem upgrade_then_messages:
  assumes "uws_state w = UWS_STATE_WAITING_FOR_UPGRADE_RESPONSE" and "on_ws_open_complete w = Some m"
    and "on_ws_frame_received w = Some n" and "stream_buffer_count w = 0" and "fragment_buffer_count w = 0"
    and "fragmented_frame_type w = WS_FRAME_TYPE_UNKNOWN" and "\<forall>i. mem_ok (env_heap w) i"
    and "switching_response s" and "list_all message_ok ms" and "[] \<notin> set pieces"
    and "concat pieces = map byte_of_char s @ concat (map message_bytes ms)"
  shows "events (receive_all pieces w) = events w @ OpenComplete m (open_detail WS_OPEN_OK (Code 0)) #
      map (\<lambda>(t, ps). FrameReceived n t (concat ps)) ms \<and>
    uws_state (receive_all pieces w) = UWS_STATE_OPEN \<and> between_messages n (receive_all pieces w)"
proof -
  have frag: "fragments w = []" using assms(5) by (simp add: fragments_def split: option.splits)
  have a: "assembly_of w = (0, [])" using assms(6) frag by (simp add: assembly_of_def WS_FRAME_TYPE_UNKNOWN_def)
  have w: "waiting m n w" "stream_ok w" "content w = []"
    using assms frag by (auto simp: waiting_def fragments_ready_def stream_ok_def stream_ready_def content_def)
  note ms = messages_absorbed [OF assms(9)]
  have pos: "length (content w) < length s" using w(3) assms(8) by (auto simp: switching_response_def complete_header_def)
  have "opened_so_far m n w (concat (map message_frames ms)) (receive_all pieces w) \<and> content (receive_all pieces w) = []"
    using w a assms(8,10,11) ms pos by (intro waiting_all [of m n w pieces s]) (simp_all add: stream_bytes_messages)
  then have o: "receiving n (receive_all pieces w)" "stream_ok (receive_all pieces w)" "content (receive_all pieces w) = []"
    "uws_state (receive_all pieces w) = UWS_STATE_OPEN" "assembly_of (receive_all pieces w) = (0, [])"
    "events (receive_all pieces w) = events w @ OpenComplete m (open_detail WS_OPEN_OK (Code 0)) #
      reports n (map (\<lambda>(t, ps). (t, concat ps)) ms)"
    using a ms by (simp_all add: opened_so_far_def)
  have "stream_buffer_count (receive_all pieces w) = 0"
    using o(2,3) content_length [of "receive_all pieces w"] by (auto simp: stream_ok_def)
  moreover have "reports n (map (\<lambda>(t, ps). (t, concat ps)) ms) = map (\<lambda>(t, ps). FrameReceived n t (concat ps)) ms"
    by (simp add: reports_def case_prod_unfold o_def)
  ultimately show ?thesis
    using o by (simp add: between_messages_def receiving_def fragments_ready_def assembly_of_def WS_FRAME_TYPE_UNKNOWN_def)
qed

definition demo_waiting :: uws_world where
  "demo_waiting = demo_opening\<lparr>uws_state := UWS_STATE_WAITING_FOR_UPGRADE_RESPONSE\<rparr>"

definition demo_response :: "char list" where
  "demo_response = ''HTTP/1.1 101 Switching Protocols'' @ CRLF @ ''Upgrade: websocket'' @ CRLF @ CRLF"

definition demo_messages :: "message list" where
  "demo_messages = [(1, [[0x48], [0x69]]), (2, [[7]])]"

lemma demo_switching: "switching_response demo_response"
  unfolding switching_response_def complete_header_def
proof (intro conjI)
  show "\<exists>t. demo_response = t @ CRLF @ CRLF \<and> (\<forall>k < length t. take 4 (drop k demo_response) \<noteq> CRLF @ CRLF)"
  proof (intro exI conjI)
    show "demo_response = (''HTTP/1.1 101 Switching Protocols'' @ CRLF @ ''Upgrade: websocket'') @ CRLF @ CRLF"
      by (simp add: demo_response_def)
    show "\<forall>k < length (''HTTP/1.1 101 Switching Protocols'' @ CRLF @ ''Upgrade: websocket'').
        take 4 (drop k demo_response) \<noteq> CRLF @ CRLF"
      by code_simp
  qed
qed (simp_all add: demo_response_def CRLF_def)

lemma demo_messages_ok: "list_all message_ok demo_messages" "demo_messages \<noteq> []"
  "concat (map message_bytes demo_messages) = [0x01, 1, 0x48, 0x80, 1, 0x69, 0x82, 1, 7]"
  by (simp_all add: demo_messages_def message_ok_def frame_type_defs message_bytes_def stream_bytes_def frame_bytes_def
      ws_frame_def frame_length_field_def)

text \<open>The pieces cut the empty line, a header and the last frame.\<close>

theorem upgrade_then_messages_witness:
  "events (receive_all [map byte_of_char (take 53 demo_response), map byte_of_char (drop 53 demo_response) @ [0x01],
      [1, 0x48, 0x80, 1, 0x69, 0x82, 1], [7]] demo_waiting) =
     [OpenComplete 1 (open_detail WS_OPEN_OK (Code 0)), FrameReceived 2 1 [0x48, 0x69], FrameReceived 2 2 [7]]"
proof -
  let ?p = "[map byte_of_char (take 53 demo_response), map byte_of_char (drop 53 demo_response) @ [0x01],
      [1, 0x48, 0x80, 1, 0x69, 0x82, 1], [7]]"
  have c: "concat ?p = map byte_of_char demo_response @ concat (map message_bytes demo_messages)"
    unfolding demo_messages_ok by (simp flip: map_append append_assoc)
  have "[] \<notin> set ?p" by (simp add: demo_response_def)
  from upgrade_then_messages [OF _ _ _ _ _ _ _ demo_switching demo_messages_ok(1) this c, of demo_waiting 1 2] show ?thesis
    by (simp add: demo_waiting_def demo_opening_def demo_client_def heap0_def frame_type_defs demo_messages_def)
qed

section \<open>PING\<close>

text \<open>The PONG of the client.\<close>

definition pong_bytes :: "rng \<Rightarrow> byte list \<Rightarrow> byte list" where
  "pong_bytes g p = ws_frame (ws_opcode WS_PONG_FRAME) True 0 (Some (frame_key g)) p"

lemma ping_frame_answered:
  assumes "\<forall>i. mem_ok (env_heap w) i" and "length p + 14 < SIZE_MAX"
    and "payload_at (length p) needed w = p"
  shows "\<exists>h k. on_ping_frame True (length p) needed w =
    w\<lparr>env_heap := h, env_rng := (env_rng w)\<lparr>rng_pos := rng_pos (env_rng w) + 4\<rparr>, xio_calls := k, events := events w @ [IoSend (pong_bytes (env_rng w) p)]\<rparr> \<and>
    mem_ok h = mem_ok (env_heap w)"
proof -
  let ?src = "drop (needed - length p) (stream w)"
  have b: "payload_bytes (Some ?src) (length p) = p" using assms(3) by (simp add: payload_bytes_def payload_at_def)
  then have "length p \<le> length ?src" unfolding payload_bytes_def by (metis length_take min.cobounded1 option.simps(5))
  then have ok: "(0 :: byte) \<le> 7" "ws_opcode WS_PONG_FRAME \<le> 0x0F" "payload_ok (Some ?src) (length p)"
    by (simp_all add: payload_ok_def)
  obtain f h g where e: "uws_frame_encoder_encode (ws_opcode WS_PONG_FRAME) (Some ?src) (length p) True True 0
      (env_heap w) (env_rng w) = (Some f, h, g)"
    using encode_granted [OF ok assms(2,1), of True True "env_rng w"] by blast
  have f: "buf_bytes f = pong_bytes (env_rng w) p" "mem_ok h = mem_ok (env_heap w)"
    "g = (env_rng w)\<lparr>rng_pos := rng_pos (env_rng w) + 4\<rparr>"
    using encode_frame_lemma [OF ok e] encode_mem_ok [OF e] b by (simp_all add: pong_bytes_def)
  have del: "mem_ok (BUFFER_delete x y) = mem_ok y" for x y
    by (simp add: BUFFER_delete_def c_free_def free_struct_def split: option.splits)
  let ?w' = "w\<lparr>env_heap := BUFFER_delete (Some f) h, env_rng := (env_rng w)\<lparr>rng_pos := rng_pos (env_rng w) + 4\<rparr>, xio_calls := Suc (xio_calls w),
    events := events w @ [IoSend (pong_bytes (env_rng w) p)]\<rparr>"
  have "on_ping_frame True (length p) needed w = ?w'"
    using e f(1,3) by (simp add: on_ping_frame_def xio_send_unchecked_def emit_def Let_def)
  moreover have "mem_ok (BUFFER_delete (Some f) h) = mem_ok (env_heap w)" using f(2) del by simp
  ultimately show ?thesis by blast
qed

lemma frame_payload_at:
  assumes "stream_ready w" and "content w = frame_bytes (opcode, fin, p) @ rest"
  shows "payload_at (length p) (length (frame_bytes (opcode, fin, p))) w = p"
proof -
  obtain hdr where h: "frame_bytes (opcode, fin, p) = hdr @ p" by (simp add: frame_bytes_def ws_frame_def)
  have n: "stream_buffer_count w = length hdr + length p + length rest"
    using content_length [OF assms(1)] assms(2) h by simp
  have "take (length p) (drop (length hdr) (stream w)) = take (length p) (drop (length hdr) (content w))"
    using n assms(1) by (simp add: content_def drop_take stream_ready_def)
  then show ?thesis using assms(2) h by (simp add: payload_at_def)
qed

definition demo_open :: uws_world where
  "demo_open = demo_opening\<lparr>uws_state := UWS_STATE_OPEN\<rparr>"

lemma demo_between: "between_messages 2 demo_open" "\<forall>i. mem_ok (env_heap demo_open) i"
  by (simp_all add: demo_open_def demo_opening_def demo_client_def between_messages_def frame_type_defs heap0_def)

theorem messages_delivered_witness:
  "events (receive_all [[0x01], [1, 0x48, 0x80], [1, 0x69, 0x82, 1, 7]] demo_open) =
     [FrameReceived 2 1 [0x48, 0x69], FrameReceived 2 2 [7]]"
proof -
  have "concat [[0x01], [1, 0x48, 0x80], [1, 0x69, 0x82, 1, 7]] = concat (map message_bytes demo_messages)"
    unfolding demo_messages_ok by simp
  from messages_delivered [OF demo_between demo_messages_ok(1) _ this] show ?thesis
    by (simp add: demo_messages_def demo_open_def demo_opening_def demo_client_def)
qed

section \<open>Sending a frame\<close>

lemma send_frame_granted:
  assumes "uws_state w = UWS_STATE_OPEN" and "t \<le> 0x0F" and "payload_ok buffer sz" and "sz + 14 < SIZE_MAX"
    and "\<forall>i. mem_ok (env_heap w) i" and "xio_send_answer w (xio_calls w) = (Success, None)"
  shows "\<exists>a w'. uws_client_send_frame_async CLIENT t buffer sz fin cb w = (Success, w') \<and>
    events w' = events w @ [IoSend (ws_frame (ucast t) fin 0 (Some (frame_key (env_rng w))) (payload_bytes buffer sz))] \<and>
    pending_sends w' = pending_sends w @ [(a, \<lparr>on_ws_send_frame_complete = cb\<rparr>)] \<and> uws_state w' = UWS_STATE_OPEN"
proof -
  let ?h = "after_request 1 (env_heap w)"
  have m: "malloc_struct (env_heap w) = (True, ?h)" "\<forall>i. mem_ok ?h i"
    using assms(5) by (simp_all add: malloc_struct_def granted_def after_request_def)
  have "unat (ucast t :: 32 word) = unat t"
    using unsigned_less [of t, where 'a = nat] by (simp add: unsigned_ucast_eq take_bit_eq_mod)
  then have ok: "(0 :: byte) \<le> 7" "(ucast t :: 32 word) \<le> 0x0F" using assms(2) by (simp_all add: word_le_nat_alt)
  obtain b h1 g where e: "uws_frame_encoder_encode (ucast t) buffer sz True fin 0 ?h (env_rng w) = (Some b, h1, g)"
    using encode_granted [OF ok assms(3,4) m(2), of True fin "env_rng w"] by blast
  have b: "buf_bytes b = ws_frame (ucast t) fin 0 (Some (frame_key (env_rng w))) (payload_bytes buffer sz)"
    using encode_frame_lemma [OF ok assms(3) e] by simp
  have "granted h1" using encode_mem_ok [OF e] m(2) by (simp add: granted_def)
  then obtain a h2 where add: "pairs_add (pending_sends w) \<lparr>on_ws_send_frame_complete = cb\<rparr> h1 =
      (Some a, pending_sends w @ [(a, \<lparr>on_ws_send_frame_complete = cb\<rparr>)], h2)"
    by (auto simp: pairs_add_def malloc_struct_def)
  have "\<not> (buffer = None \<and> sz > 0)" using assms(3) by (auto simp: payload_ok_def split: option.splits)
  then show ?thesis
    using assms(1,6) m(1) e add b
    by (auto simp: uws_client_send_frame_async_def xio_send_frame_def emit_def Let_def)
qed

text \<open>When memory is granted and the underlying IO accepts, sending a frame on an open client
  puts on the wire exactly one frame, which a WebSocket peer reads back as the type, the final
  bit and the bytes that were passed, masked with the next four random bytes; the frame's
  completion is queued behind those already pending. On a client that is not open, on a null
  client and for a null buffer with a size, the call fails and nothing changes.\<close>

theorem send_frame_readable:
  assumes "t \<le> 0x0F" and "payload_ok buffer sz" and "sz + 14 < SIZE_MAX"
    and "\<forall>i. mem_ok (env_heap w) i" and "xio_send_answer w (xio_calls w) = (Success, None)"
  shows "(if uws_state w = UWS_STATE_OPEN
     then \<exists>a w' bytes. uws_client_send_frame_async CLIENT t buffer sz fin cb w = (Success, w') \<and>
       events w' = events w @ [IoSend bytes] \<and>
       ws_read bytes = Some (\<lparr>fv_final = fin, fv_reserved = 0, fv_opcode = t, fv_key = Some (frame_key (env_rng w)),
         fv_payload = payload_bytes buffer sz\<rparr>, []) \<and>
       pending_sends w' = pending_sends w @ [(a, \<lparr>on_ws_send_frame_complete = cb\<rparr>)] \<and> uws_state w' = UWS_STATE_OPEN
     else uws_client_send_frame_async CLIENT t buffer sz fin cb w = (Failure, w)) \<and>
    uws_client_send_frame_async NULL_HANDLE t buffer sz fin cb w = (Failure, w) \<and>
    uws_client_send_frame_async CLIENT t None (Suc n) fin cb w = (Failure, w)"
proof -
  have ucast: "ucast (ucast t :: 32 word) = t" by (rule byte_eqI) (simp_all add: bit_simps)
  have "unat (ucast t :: 32 word) = unat t"
    using unsigned_less [of t, where 'a = nat] by (simp add: unsigned_ucast_eq take_bit_eq_mod)
  then have op: "(ucast t :: 32 word) \<le> 0x0F" using assms(1) by (simp add: word_le_nat_alt)
  have len: "length (payload_bytes buffer sz) < 2 ^ 64"
    using length_payload_bytes [OF assms(2)] assms(3) by (simp add: SIZE_MAX_def)
  have "ws_read (ws_frame (ucast t) fin 0 (Some (frame_key (env_rng w))) (payload_bytes buffer sz) @ []) =
      Some (\<lparr>fv_final = fin, fv_reserved = 0, fv_opcode = t, fv_key = Some (frame_key (env_rng w)),
        fv_payload = payload_bytes buffer sz\<rparr>, [])"
    using ws_read_frame [OF op _ len, of 0 "Some (frame_key (env_rng w))" fin "[]"] ucast by simp
  then show ?thesis
    using send_frame_granted [OF _ assms, of fin cb] by (auto simp: uws_client_send_frame_async_def)
qed

theorem send_frame_readable_witness:
  "\<exists>a w' bytes. uws_client_send_frame_async CLIENT 2 (Some [0xCA, 0xFE]) 2 True (Some 9) demo_open = (Success, w') \<and>
     events w' = [IoSend bytes] \<and>
     ws_read bytes = Some (\<lparr>fv_final = True, fv_reserved = 0, fv_opcode = 2, fv_key = Some [7, 7, 7, 7],
       fv_payload = [0xCA, 0xFE]\<rparr>, []) \<and>
     pending_sends w' = [(a, \<lparr>on_ws_send_frame_complete = Some 9\<rparr>)]"
proof -
  have "xio_send_answer demo_open i = (Success, None)" "uws_state demo_open = UWS_STATE_OPEN" "events demo_open = []"
    "pending_sends demo_open = []" "frame_key (env_rng demo_open) = [7, 7, 7, 7]" for i
    by (simp_all add: demo_open_def demo_opening_def demo_client_def frame_key_def)
  moreover have "payload_ok (Some [0xCA, 0xFE]) 2" "payload_bytes (Some [0xCA, 0xFE]) 2 = [0xCA, 0xFE]" "(2 :: byte) \<le> 0x0F"
    by (simp_all add: payload_ok_def payload_bytes_def)
  ultimately show ?thesis
    using send_frame_readable [of 2 "Some [0xCA, 0xFE]" 2 demo_open True "Some 9" 0] demo_between(2)
    by (auto simp: SIZE_MAX_def)
qed

end
