(* ===== verification/Uws_Runs.thy ===== *)
theory Uws_Runs
  imports Uws_Traffic
begin

text \<open>
  The properties of every run of the WebSocket client, and one run that opens, upgrades and
  sends.
\<close>

section \<open>A run\<close>

lemma issue_upgrade_mem_ok: "mem_ok (env_heap (issue_upgrade_request nonce headers w)) = mem_ok (env_heap w)"
proof -
  let ?a = "authority_host_length (Some (hostname w))"
  let ?p = "port_length_loop (sint (port w)) (if sint (port w) < 0 then 1 else 0)"
  let ?len = "upgrade_request_length w ?a ?p nonce headers"
  obtain b h where m: "malloc_block char_of_byte (safe_add_size_t ?len 1) (env_heap w) = (b, h)" by (metis surj_pair)
  then have h: "mem_ok h = mem_ok (env_heap w)" by (auto simp: malloc_block_def after_request_def)
  have f: "mem_ok (env_heap (open_failed r w1)) = mem_ok (env_heap w1)" for r w1
    by (simp add: indicate_ws_open_complete_error_and_close_def indicate_ws_open_complete_error_def invoke_def emit_def
        xio_close_quietly_def Let_def)
  show ?thesis
  proof (cases b)
    case None
    then show ?thesis using m h f by (simp add: issue_upgrade_request_def Let_def)
  next
    case (Some block)
    show ?thesis
      using m h f Some
      by (cases "upgrade_request_fill (w\<lparr>env_heap := h\<rparr>) ?a ?p nonce headers block";
          cases "fst (xio_send_answer w (xio_calls w))")
        (simp_all add: issue_upgrade_request_def xio_send_unchecked_def emit_def c_free_def Let_def)
  qed
qed
lemma open_complete_mem_ok:
  assumes "uws_state w = UWS_STATE_OPENING_UNDERLYING_IO"
  shows "mem_ok (env_heap (on_underlying_io_open_complete CLIENT (IO_OPEN_OK, code) w)) = mem_ok (env_heap w)"
proof -
  obtain nonce g where n: "rand_bytes 16 (env_rng w) = (nonce, g)" by (metis surj_pair)
  then have l: "length nonce = 16" using length_rand_bytes [of 16 "env_rng w"] by simp
  obtain s h where b: "Base64_Encode_Bytes (Some nonce) 16 (env_heap w) = (s, h)" by (metis surj_pair)
  obtain hd h1 where q: "get_request_headers (Some (request_headers w)) h = (hd, h1)" by (metis surj_pair)
  have ok: "mem_ok h = mem_ok (env_heap w)" using nonce_mem_ok [of nonce "env_heap w" s h] b l by simp
  moreover have "mem_ok h1 = mem_ok h"
    using q by (auto simp: get_request_headers_def malloc_block_def after_request_def Let_def
        split: MAP_RESULT.splits option.splits prod.splits if_splits)
  moreover have "mem_ok (env_heap (open_failed r w1)) = mem_ok (env_heap w1)" for r w1
    by (simp add: indicate_ws_open_complete_error_and_close_def indicate_ws_open_complete_error_def invoke_def emit_def
        xio_close_quietly_def Let_def)
  moreover have "mem_ok (STRING_delete x y) = mem_ok y" for x y
    by (simp add: STRING_delete_def c_free_def free_struct_def split: option.splits)
  ultimately show ?thesis
    using open_complete_run [OF assms n b q, of code] issue_upgrade_mem_ok
    by (cases s; cases hd) (simp_all add: send_upgrade_request_def c_free_def Let_def)
qed

lemma demo_fresh: "fresh_client demo_client"
  by (simp add: fresh_client_def demo_client_def map_inv_def map_repr_def map_entries_def array_ptrs_def array_repr_def
      frame_type_defs)

text \<open>A client like \<open>demo_client\<close>, however it came to be, and the calls that open it and send.\<close>

definition like_demo :: "uws_world \<Rightarrow> bool" where
  "like_demo w \<longleftrightarrow> fresh_client w \<and> config w = config demo_client \<and> env_rng w = env_rng demo_client \<and>
     (\<forall>i. mem_ok (env_heap w) i) \<and> (\<forall>i. xio_open_answer w i = (Success, None))"

abbreviation demo_open_call :: "nat \<Rightarrow> nat \<Rightarrow> nat \<Rightarrow> nat \<Rightarrow> uws_call" where
  "demo_open_call m n p q \<equiv> OpenAsync (Some m) (Some n) (Some p) (Some q)"

abbreviation demo_answer_call :: uws_call where
  "demo_answer_call \<equiv> IoBytesReceived (Some (map byte_of_char demo_response)) (length (map byte_of_char demo_response))"

definition demo_opening_calls :: "(uws_call \<times> rc) list" where
  "demo_opening_calls = [(demo_open_call 1 2 3 4, Success), (IoOpenComplete (IO_OPEN_OK, 0), Success), (demo_answer_call, Success)]"

abbreviation demo_send :: uws_call where
  "demo_send \<equiv> SendFrameAsync 2 (Some [0xCA, 0xFE]) 2 True (Some 9)"

lemma demo_like: "like_demo demo_client"
  using demo_fresh by (simp add: like_demo_def demo_client_def heap0_def)

lemma demo_chain:
  assumes "like_demo w0"
  shows "\<exists>w1 w2 w3. uws_step (demo_open_call m n p q) w0 = (Success, w1) \<and> uws_state w1 = UWS_STATE_OPENING_UNDERLYING_IO \<and>
    events w1 = [IoOpen] \<and> uws_step (IoOpenComplete (IO_OPEN_OK, 0)) w1 = (Success, w2) \<and>
    uws_state w2 = UWS_STATE_WAITING_FOR_UPGRADE_RESPONSE \<and> events w2 = [IoOpen, IoSend (map byte_of_char demo_request)] \<and>
    uws_step demo_answer_call w2 = (Success, w3) \<and> uws_state w3 = UWS_STATE_OPEN \<and>
    events w3 = events w2 @ [OpenComplete m (open_detail WS_OPEN_OK (Code 0))] \<and>
    (\<forall>i. mem_ok (env_heap w3) i) \<and> (\<forall>i. xio_send_answer w3 i = (Success, None))"
proof -
  let ?c1 = "demo_open_call m n p q" and ?c2 = "IoOpenComplete (IO_OPEN_OK, 0)" and ?c3 = demo_answer_call
  note fresh = assms [unfolded like_demo_def fresh_client_def]
  have c0: "config w0 = config demo_opening" using fresh by (simp add: demo_opening_def config_def)
  have r0: "env_rng w0 = env_rng demo_opening" using fresh by (simp add: demo_opening_def)
  define w1 where "w1 = snd (uws_step ?c1 w0)"
  let ?now = "env_time w0 (env_time_reads w0)"
  have "uws_step ?c1 w0 = (Success, emit IoOpen (w0\<lparr>uws_state := UWS_STATE_OPENING_UNDERLYING_IO,
      env_time_reads := Suc (env_time_reads w0), open_start_time := ?now, last_open_wait_log_time := ?now,
      stream_buffer_count := 0, fragment_buffer_count := 0, fragmented_frame_type := WS_FRAME_TYPE_UNKNOWN,
      on_ws_open_complete := Some m, on_ws_frame_received := Some n, on_ws_peer_closed := Some p, on_ws_error := Some q,
      xio_calls := Suc (xio_calls w0)\<rparr>))"
    using fresh by (simp add: uws_client_open_async_def Let_def)
  then have step1: "uws_step ?c1 w0 = (Success, w1)" and w1_eq: "w1 = emit IoOpen (w0\<lparr>uws_state := UWS_STATE_OPENING_UNDERLYING_IO,
      env_time_reads := Suc (env_time_reads w0), open_start_time := ?now, last_open_wait_log_time := ?now,
      stream_buffer_count := 0, fragment_buffer_count := 0, fragmented_frame_type := WS_FRAME_TYPE_UNKNOWN,
      on_ws_open_complete := Some m, on_ws_frame_received := Some n, on_ws_peer_closed := Some p, on_ws_error := Some q,
      xio_calls := Suc (xio_calls w0)\<rparr>)"
    by (simp_all add: w1_def)
  have parts1: "uws_state w1 = UWS_STATE_OPENING_UNDERLYING_IO"
    "on_ws_open_complete w1 = Some m" "on_ws_frame_received w1 = Some n" "events w1 = [IoOpen]" "pending_sends w1 = []"
    "stream_buffer_count w1 = 0" "fragment_buffer_count w1 = 0" "fragmented_frame_type w1 = 0"
    "\<forall>i. mem_ok (env_heap w1) i" "config w1 = config w0" "env_rng w1 = env_rng w0" "pend_ok w1" "opened w1"
    using fresh by (simp_all add: w1_eq emit_def pend_ok_def opened_def WS_FRAME_TYPE_UNKNOWN_def) (simp add: config_def)
  note w1 = step1 parts1(1-9) parts1(10) [unfolded c0] parts1(11) [unfolded r0] parts1(12,13)
  have ans: "\<forall>i. xio_send_answer w1 i = (Success, None)"
    using w1(11) by (simp add: config_def demo_opening_def demo_client_def)
  have cfg: "config_ok w1" "client_request w1 t = client_request demo_opening t" "hostname w1 = hostname demo_opening" for t
    using w1(11) demo_config by (simp_all add: config_def config_ok_def client_request_def client_protocols_def)
  let ?w2 = "on_underlying_io_open_complete CLIENT (IO_OPEN_OK, 0) w1"
  have sz: "length (cstr (hostname w1)) + 2 < SIZE_MAX"
    "Suc (length (client_request w1 (base64_text (fst (rand_bytes 16 (env_rng w1)))))) < SIZE_MAX"
    using w1(12) cfg(2,3) demo_nonce demo_client_request
    by (simp_all add: SIZE_MAX_def demo_request_def CRLF_def) (simp add: demo_opening_def demo_client_def cstr_def)
  have out: "request_outcome (client_request w1 (base64_text (fst (rand_bytes 16 (env_rng w1))))) w1 ?w2"
    using open_complete_sends [OF cfg(1) sz w1(3,2)] .
  have w2: "uws_state ?w2 = UWS_STATE_WAITING_FOR_UPGRADE_RESPONSE"
    "events ?w2 = [IoOpen, IoSend (map byte_of_char demo_request)]"
    using out w1(5,10,12) ans cfg(2) demo_nonce demo_client_request by (auto simp: request_outcome_def Let_def split: if_splits)
  have step2: "uws_step ?c2 w1 = (Success, ?w2)" by simp
  have k: "keeps w1 ?w2" by (intro keeping keeps_refl)
  have ok2: "\<forall>i. mem_ok (env_heap ?w2) i" using open_complete_mem_ok [OF w1(2)] w1(10) by simp
  let ?w3 = "receive_all [map byte_of_char demo_response] ?w2"
  have frag: "fragments ?w2 = []" using k w1(8) by (simp add: keeps_def fragments_def split: option.splits)
  have w: "waiting m n ?w2" "stream_ok ?w2" "content ?w2 = []"
    using w2(1) k w1(3,4,7,8) ok2 frag
    by (auto simp: keeps_def waiting_def fragments_ready_def stream_ok_def stream_ready_def content_def)
  have "[] \<notin> set [map byte_of_char demo_response]" "length (content ?w2) < length demo_response"
    using w(3) by (simp_all add: demo_response_def)
  then have o: "opened_so_far m n ?w2 [] ?w3"
    using waiting_all [OF w(1,2) _ demo_switching, of "[map byte_of_char demo_response]" "[]"] w(3)
    by (simp add: stream_bytes_def)
  have step3: "uws_step ?c3 ?w2 = (Success, ?w3)" by (simp add: receive_all_def)
  have "config ?w2 = config w1" using moves_leaking_open_complete [of w1 CLIENT "(IO_OPEN_OK, 0)"]
    by (auto simp: moves_leaking_def moves_def)
  moreover have "config ?w3 = config ?w2"
    using moves_bytes_received [of ?w2 CLIENT "Some (map byte_of_char demo_response)" "length (map byte_of_char demo_response)"]
    by (simp add: moves_def receive_all_def)
  ultimately have ans3: "\<forall>i. xio_send_answer ?w3 i = (Success, None)" using ans by (simp add: config_def)
  have w3: "uws_state ?w3 = UWS_STATE_OPEN" "events ?w3 = events ?w2 @ [OpenComplete m (open_detail WS_OPEN_OK (Code 0))]"
    "\<forall>i. mem_ok (env_heap ?w3) i"
    using o by (simp_all add: opened_so_far_def receiving_def reports_def)
  show ?thesis
    by (rule exI [of _ w1], rule exI [of _ ?w2], rule exI [of _ ?w3])
      (use w1(1,2,5) step2 w2 step3 w3 ans3 in blast)
qed

lemma demo_opens:
  assumes "like_demo w0"
  shows "\<exists>w3 w4. uws_run w0 demo_opening_calls w3 \<and> uws_step demo_send w3 = (Success, w4) \<and> uws_state w4 = UWS_STATE_OPEN \<and>
    xio_send_answer w3 (xio_calls w3) = (Success, None) \<and> construct_failures (events w4) = 0 \<and> completed 9 (events w4) = 0 \<and>
    (\<exists>a ps. pending_sends w4 = ps @ [(a, \<lparr>on_ws_send_frame_complete = Some 9\<rparr>)])"
proof -
  let ?c1 = "demo_open_call 1 2 3 4" and ?c2 = "IoOpenComplete (IO_OPEN_OK, 0)"
  obtain w1 w2 w3 where w: "uws_step ?c1 w0 = (Success, w1)" "events w1 = [IoOpen]"
    "uws_step ?c2 w1 = (Success, w2)" "events w2 = [IoOpen, IoSend (map byte_of_char demo_request)]"
    "uws_step demo_answer_call w2 = (Success, w3)" "events w3 = events w2 @ [OpenComplete 1 (open_detail WS_OPEN_OK (Code 0))]"
    "uws_state w3 = UWS_STATE_OPEN" "\<forall>i. mem_ok (env_heap w3) i" "\<forall>i. xio_send_answer w3 i = (Success, None)"
    using demo_chain [OF assms, of 1 2 3 4] by metis
  have run1: "uws_run w0 [(?c1, Success)] w1" using run_step [OF run_start _ w(1)] by simp
  have run2: "uws_run w0 [(?c1, Success), (?c2, Success)] w2" using run_step [OF run1 _ w(3)] w(2) by simp
  have run3: "uws_run w0 demo_opening_calls w3" using run_step [OF run2 _ w(5)] w(4) by (simp add: demo_opening_calls_def)
  have ans3: "xio_send_answer w3 (xio_calls w3) = (Success, None)" using w(9) by simp
  have "(2 :: byte) \<le> 0x0F" "payload_ok (Some [0xCA, 0xFE]) 2" "2 + 14 < SIZE_MAX"
    by (simp_all add: payload_ok_def SIZE_MAX_def)
  from send_frame_granted [OF w(7) this w(8) ans3, of True "Some 9"] obtain w4 where w4:
    "uws_step demo_send w3 = (Success, w4)" "uws_state w4 = UWS_STATE_OPEN" "\<exists>x. events w4 = events w3 @ [IoSend x]"
    "\<exists>a ps. pending_sends w4 = ps @ [(a, \<lparr>on_ws_send_frame_complete = Some 9\<rparr>)]"
    by auto
  have "construct_failures (events w4) = 0" "completed 9 (events w4) = 0"
    using w4(3) w(4,6) by (auto simp: construct_failures_def open_detail_def completed_def)
  with run3 ans3 w4(1,2,4) show ?thesis by blast
qed

lemma demo_run:
  "\<exists>cs w. uws_run demo_client cs w \<and> uws_state w = UWS_STATE_OPEN \<and> accepted 9 cs = 1 \<and> construct_failures (events w) = 0"
proof -
  obtain w3 w4 where w: "uws_run demo_client demo_opening_calls w3" "uws_step demo_send w3 = (Success, w4)"
    "uws_state w4 = UWS_STATE_OPEN" "construct_failures (events w4) = 0"
    using demo_opens [OF demo_like] by blast
  have "uws_run demo_client (demo_opening_calls @ [(demo_send, Success)]) w4" using run_step [OF w(1) _ w(2)] by simp
  moreover have "accepted 9 (demo_opening_calls @ [(demo_send, Success)]) = 1"
    by (simp add: accepted_def demo_opening_calls_def)
  ultimately show ?thesis using w(3,4) by blast
qed

section \<open>Properties of every run\<close>

lemma run_is_safe:
  assumes "fresh_client w0" and "uws_run w0 cs w"
  shows "NullCall \<notin> set (events w) \<and> Dangling \<notin> set (events w) \<and> distinct (map fst (pending_sends w)) \<and>
    buffers_ok w \<and> map_inv (request_headers w) \<and>
    (uws_state w = UWS_STATE_OPEN \<longrightarrow> (\<exists>n d. OpenComplete n d \<in> set (events w) \<and> ws_open_result d = WS_OPEN_OK))"
  using run_good [OF assms(2,1)] by (simp add: uws_good_def sane_def pend_ok_def upgrade_inv_def)

text \<open>C5: No memory is lost: after any run the blocks that are live beyond those the client owns
  (a structure and a list node for each pending send, the two buffers, the headers) are the
  ones that were live before, except that an open that failed because the request headers could
  not be built has left the two blocks of the nonce string behind.\<close>

theorem runs_keep_memory:
  assumes "fresh_client w0" and "uws_run w0 cs w"
  shows "balance w0 \<le> balance w \<and> balance w \<le> balance w0 + 2 * int (construct_failures (events w))"
  using run_good [OF assms(2,1)] by (simp add: uws_good_def)

theorem runs_keep_memory_witness:
  "\<exists>cs w. uws_run demo_client cs w \<and> uws_state w = UWS_STATE_OPEN \<and> balance w = balance demo_client"
  using demo_run runs_keep_memory [OF demo_fresh] by fastforce

text \<open>C3: Every accepted send is completed exactly once: if the underlying IO does not complete a
  send that it refuses, then after any run the completions reported to a callback and the
  completions still pending for it are together as many as the sends accepted with it.\<close>

theorem sends_complete_once:
  assumes "fresh_client w0" and "refused_is_silent w0" and "uws_run w0 cs w"
  shows "completed n (events w) + promised n (pending_sends w) = accepted n cs"
  using run_sends [OF assms(3,1,2), of n] by (simp add: sends_def)

theorem sends_complete_once_witness:
  "\<exists>cs w. uws_run demo_client cs w \<and> accepted 9 cs = 1 \<and> completed 9 (events w) + promised 9 (pending_sends w) = 1"
proof -
  have "refused_is_silent demo_client" by (simp add: refused_is_silent_def demo_client_def)
  then show ?thesis using demo_run sends_complete_once [OF demo_fresh, of _ _ 9] by metis
qed

section \<open>Single steps\<close>

text \<open>C21: Each call of the user and of the underlying IO keeps the buffers well formed, from any
  world in which they are: the counts stay inside the blocks, and the type of the message under
  way is none, text or binary.\<close>

theorem step_keeps_buffers:
  assumes "buffers_ok w" and "map_inv (request_headers w)" and "allowed c w" and "uws_step c w = (r, w')"
  shows "buffers_ok w'"
proof -
  consider (plain) "plain_call c" | (open_call) oc fr pc er where "c = OpenAsync oc fr pc er"
    | (send) t b s f cb where "c = SendFrameAsync t b s f cb" | (setheader) k v where "c = SetRequestHeader k v"
    by (cases c) (simp_all add: plain_call_def)
  then show ?thesis
  proof cases
    case plain
    show ?thesis using plain_step(2) [OF plain assms(3,4,1)] .
  next
    case open_call
    then show ?thesis using buffers_open_async [OF assms(1), of CLIENT oc fr pc er] assms(4) by simp
  next
    case send
    then show ?thesis using buffers_kept [OF assms(1) keeps_send_frame, of CLIENT t b s f cb] assms(4) by simp
  next
    case setheader
    then obtain m h where "w' = w\<lparr>request_headers := m, env_heap := h\<rparr>"
      using set_request_header_result(4) [of CLIENT k v w r w'] assms(2-4) by auto
    then show ?thesis using assms(1) by (simp add: buffers_ok_def)
  qed
qed

theorem step_keeps_buffers_witness:
  "buffers_ok (snd (uws_step (IoBytesReceived (Some [0x81, 1]) 2) (demo_open\<lparr>events := [IoOpen]\<rparr>)))"
proof -
  let ?w = "demo_open\<lparr>events := [IoOpen]\<rparr>"
  have "buffers_ok ?w" "map_inv (request_headers ?w)"
    using demo_config
    by (simp_all add: buffers_ok_def demo_open_def demo_opening_def demo_client_def frame_type_defs config_ok_def)
  moreover obtain r w' where "uws_step (IoBytesReceived (Some [0x81, 1]) 2) ?w = (r, w')" by (metis surj_pair)
  ultimately show ?thesis
    using step_keeps_buffers [of ?w "IoBytesReceived (Some [0x81, 1]) 2" r w'] by (simp del: uws_step.simps)
qed

text \<open>The loop with a bound on its iterations.\<close>

fun decode_fuel :: "nat \<Rightarrow> uws_world \<Rightarrow> uws_world option" where
  "decode_fuel 0 w = None"
| "decode_fuel (Suc k) w = (let (again, w1) = decode_step w in if again then decode_fuel k w1 else Some w1)"

lemma decode_fuel_enough: "stream_buffer_count w < k \<Longrightarrow> decode_fuel k w = Some (decode_loop w)"
proof (induction k arbitrary: w)
  case (Suc k)
  obtain again w1 where s: "decode_step w = (again, w1)" by (metis surj_pair)
  show ?case
  proof (cases again)
    case True
    then have "stream_buffer_count w1 < k" using decode_step_progress [of w w1] s Suc.prems by simp
    then show ?thesis using Suc.IH s True by (subst decode_loop.simps) simp
  next
    case False
    then show ?thesis using s by (subst decode_loop.simps) simp
  qed
qed simp

text \<open>C20: The decoding loop ends: with \<open>n\<close> bytes in the stream buffer it has ended after at most
  \<open>n + 1\<close> iterations, in every state and for every content of the buffer.\<close>

theorem decode_loop_ends:
  "decode_fuel (Suc (stream_buffer_count w)) w = Some (decode_loop w)"
  by (rule decode_fuel_enough) simp

section \<open>Closing\<close>

text \<open>The completions of a list of pending sends that is cancelled.\<close>

definition cancellations :: "(nat \<times> WS_PENDING_SEND) list \<Rightarrow> ws_event list" where
  "cancellations ps = concat (map (\<lambda>(a, p). case on_ws_send_frame_complete p of
     None \<Rightarrow> [] | Some n \<Rightarrow> [SendFrameComplete n WS_SEND_FRAME_CANCELLED]) ps)"

lemma clear_pending_sends_result:
  assumes "distinct (map fst (pending_sends w))"
  shows "clear_pending_sends w = w\<lparr>pending_sends := [], events := events w @ cancellations (pending_sends w),
    env_heap := (env_heap w)\<lparr>mem_live := mem_live (env_heap w) - 2 * int (length (pending_sends w))\<rparr>\<rparr>"
  using assms
proof (induction w rule: clear_pending_sends.induct)
  case (1 w)
  show ?case
  proof (cases "pending_sends w")
    case Nil
    then show ?thesis by (subst clear_pending_sends.simps) (simp add: cancellations_def)
  next
    case (Cons ap ps)
    obtain a p where ap: "ap = (a, p)" by (cases ap)
    have rest: "filter (\<lambda>q. fst q \<noteq> a) (pending_sends w) = ps"
      using "1.prems" Cons ap by (auto simp: filter_id_conv)
    let ?w1 = "w\<lparr>pending_sends := ps, events := events w @ cancellations [(a, p)],
      env_heap := (env_heap w)\<lparr>mem_live := mem_live (env_heap w) - 2\<rparr>\<rparr>"
    have step: "snd (complete_send_frame p a WS_SEND_FRAME_CANCELLED w) = ?w1"
      using Cons ap rest
      by (auto simp: complete_send_frame_def pairs_remove_def emit_def cancellations_def free_struct_def Let_def
          split: option.splits)
    have "clear_pending_sends w = clear_pending_sends ?w1"
      using Cons ap step by (subst clear_pending_sends.simps) simp
    also have "\<dots> = w\<lparr>pending_sends := [], events := events w @ cancellations (pending_sends w),
      env_heap := (env_heap w)\<lparr>mem_live := mem_live (env_heap w) - 2 * int (length (pending_sends w))\<rparr>\<rparr>"
      using "1.IH" [OF Cons ap [symmetric]] "1.prems" Cons ap step
      by (simp add: cancellations_def)
    finally show ?thesis .
  qed
qed

text \<open>When the underlying IO reports that it is closed, every pending send is completed as
  cancelled, in the order of sending, before the close itself is reported; both blocks of each
  are freed, nothing stays pending and the client is closed. A second report changes nothing.\<close>

theorem close_cancels_pending:
  assumes "uws_state w = UWS_STATE_CLOSING_UNDERLYING_IO" and "distinct (map fst (pending_sends w))"
    and "w' = on_underlying_io_close_complete CLIENT w"
  shows "events w' = events w @ cancellations (pending_sends w) @
      (case on_ws_close_complete w of None \<Rightarrow> [] | Some n \<Rightarrow> [CloseComplete n]) \<and>
    pending_sends w' = [] \<and> uws_state w' = UWS_STATE_CLOSED \<and>
    mem_live (env_heap w') = mem_live (env_heap w) - 2 * int (length (pending_sends w)) \<and>
    on_underlying_io_close_complete CLIENT w' = w'"
  using assms clear_pending_sends_result [of "w\<lparr>uws_state := UWS_STATE_CLOSED\<rparr>"]
  by (auto simp: on_underlying_io_close_complete_def indicate_ws_close_complete_def emit_def Let_def split: option.splits)

theorem close_cancels_pending_witness:
  "events (on_underlying_io_close_complete CLIENT (demo_open\<lparr>uws_state := UWS_STATE_CLOSING_UNDERLYING_IO,
      on_ws_close_complete := Some 5,
      pending_sends := [(0, \<lparr>on_ws_send_frame_complete = Some 8\<rparr>), (1, \<lparr>on_ws_send_frame_complete = None\<rparr>),
        (4, \<lparr>on_ws_send_frame_complete = Some 9\<rparr>)]\<rparr>)) =
     [SendFrameComplete 8 WS_SEND_FRAME_CANCELLED, SendFrameComplete 9 WS_SEND_FRAME_CANCELLED, CloseComplete 5]"
  using close_cancels_pending [OF _ _ refl, of "demo_open\<lparr>uws_state := UWS_STATE_CLOSING_UNDERLYING_IO,
      on_ws_close_complete := Some 5,
      pending_sends := [(0, \<lparr>on_ws_send_frame_complete = Some 8\<rparr>), (1, \<lparr>on_ws_send_frame_complete = None\<rparr>),
        (4, \<lparr>on_ws_send_frame_complete = Some 9\<rparr>)]\<rparr>"]
  by (simp add: cancellations_def demo_open_def demo_opening_def demo_client_def)

end
