(* ===== verification/Uws_Create.thy ===== *)
theory Uws_Create
  imports Uws_Runs
begin

text \<open>
  The life of a WebSocket client of \<open>src/uws_client.c\<close>: both constructors, the destructor, and
  the memory of a whole life, from the creation over any run to the destruction. What
  \<open>xio_create\<close> and the platform's interface descriptions answer are arguments.
\<close>

section \<open>Creation\<close>

text \<open>The create parameters handed to the underlying IO.\<close>

datatype SOCKETIO_CONFIG = SOCKETIO_CONFIG "char list" "32 word" bool

datatype io_config =
    Socket_Io SOCKETIO_CONFIG
  | Tls_Io "char list" "32 word" bool SOCKETIO_CONFIG

text \<open>The check of the protocol names, and the loop that copies them: the copies, or \<open>None\<close> when
  one could not be made and those before it have been freed.\<close>

fun null_protocol :: "cptr list \<Rightarrow> bool" where
  "null_protocol [] = False"
| "null_protocol (p # ps) = (if p = None then True else null_protocol ps)"

definition free_protocols :: "char list list \<Rightarrow> heap \<Rightarrow> heap" where
  "free_protocols ps h = fold (\<lambda>p. c_free (Some p)) ps h"

fun copy_protocols :: "cptr list \<Rightarrow> char list list \<Rightarrow> heap \<Rightarrow> char list list option \<times> heap" where
  "copy_protocols [] copies h = (Some copies, h)"
| "copy_protocols (p # ps) copies h =
     (case mallocAndStrcpy_s p h of
        (CRT_OK, Some s, h1) \<Rightarrow> copy_protocols ps (copies @ [s]) h1
      | (_, _, h1) \<Rightarrow> (None, free_protocols copies h1))"

definition create_protocols :: "cptr list option \<Rightarrow> nat \<Rightarrow> heap \<Rightarrow> bool \<times> char list list option \<times> heap" where
  "create_protocols protos count h =
     (case protos of
        None \<Rightarrow> (True, None, h)
      | Some ps \<Rightarrow>
          (case malloc_struct h of
             (False, h1) \<Rightarrow> (False, None, h1)
           | (True, h1) \<Rightarrow>
               (case copy_protocols (take count ps) [] h1 of
                  (None, h2) \<Rightarrow> (False, None, free_struct h2)
                | (Some copies, h2) \<Rightarrow> (True, Some copies, h2))))"

text \<open>The release of what has been made, in the order of the code: the list, the map, the two
  strings, the instance.\<close>

definition release_instance :: "MAP_HANDLE_DATA \<Rightarrow> char list \<Rightarrow> char list \<Rightarrow> heap \<Rightarrow> heap" where
  "release_instance headers res host h =
     free_struct (c_free (Some host) (c_free (Some res) (Map_Destroy (Some headers) (free_struct h))))"

text \<open>The common part of the constructors; \<open>io\<close> says whether the underlying IO could be created.\<close>

definition create_instance ::
  "bool \<Rightarrow> cptr \<Rightarrow> 32 word \<Rightarrow> cptr \<Rightarrow> cptr list option \<Rightarrow> nat \<Rightarrow> uws_world \<Rightarrow> handle \<times> uws_world" where
  "create_instance io host_name port_number resource protos count w =
     (case malloc_struct (env_heap w) of
        (False, h) \<Rightarrow> (NULL_HANDLE, w\<lparr>env_heap := h\<rparr>)
      | (True, h) \<Rightarrow>
          (case mallocAndStrcpy_s host_name h of
             (CRT_OK, Some host, h1) \<Rightarrow>
               (case mallocAndStrcpy_s resource h1 of
                  (CRT_OK, Some res, h2) \<Rightarrow>
                    (case Map_Create None h2 of
                       (None, h3) \<Rightarrow> (NULL_HANDLE, w\<lparr>env_heap := free_struct (c_free (Some host) (c_free (Some res) h3))\<rparr>)
                     | (Some headers, h3) \<Rightarrow>
                         (case malloc_struct h3 of
                            (False, h4) \<Rightarrow>
                              (NULL_HANDLE, w\<lparr>env_heap := free_struct (c_free (Some host) (c_free (Some res)
                                                             (Map_Destroy (Some headers) h4)))\<rparr>)
                          | (True, h4) \<Rightarrow>
                              (if \<not> io then (NULL_HANDLE, w\<lparr>env_heap := release_instance headers res host h4\<rparr>)
                               else
                                 (case create_protocols protos count h4 of
                                    (False, _, h5) \<Rightarrow>
                                      (NULL_HANDLE, emit IoDestroy (w\<lparr>env_heap := release_instance headers res host h5\<rparr>))
                                  | (True, copies, h5) \<Rightarrow>
                                      (CLIENT,
                                       w\<lparr>pending_sends := [], underlying_io := True, hostname := host, resource_name := res,
                                         protocols := copies, protocol_count := count, port := port_number,
                                         request_headers := headers, uws_state := UWS_STATE_CLOSED,
                                         on_ws_open_complete := None, on_ws_frame_received := None,
                                         on_ws_peer_closed := None, on_ws_error := None, on_ws_close_complete := None,
                                         stream_buffer := None, stream_buffer_count := 0,
                                         fragment_buffer := None, fragment_buffer_count := 0,
                                         fragmented_frame_type := WS_FRAME_TYPE_UNKNOWN,
                                         open_start_time := 0, last_open_wait_log_time := 0, env_heap := h5\<rparr>)))))
                | (_, _, h2) \<Rightarrow> (NULL_HANDLE, w\<lparr>env_heap := free_struct (c_free (Some host) h2)\<rparr>))
           | (_, _, h1) \<Rightarrow> (NULL_HANDLE, w\<lparr>env_heap := free_struct h1\<rparr>)))"

definition uws_client_create ::
  "bool \<Rightarrow> bool \<Rightarrow> (io_config \<Rightarrow> bool) \<Rightarrow> cptr \<Rightarrow> 32 word \<Rightarrow> cptr \<Rightarrow> bool \<Rightarrow> cptr list option \<Rightarrow> nat \<Rightarrow> bool \<Rightarrow>
     uws_world \<Rightarrow> handle \<times> uws_world" where
  "uws_client_create tlsio_interface socketio_interface xio_create host_name port_number resource use_ssl protos count
     enable_ipv6 w =
     (if host_name = None \<or> resource = None \<or> (protos = None \<and> count > 0) then (NULL_HANDLE, w)
      else if null_protocol (take count (case protos of None \<Rightarrow> [] | Some ps \<Rightarrow> ps)) then (NULL_HANDLE, w)
      else
        (let socketio_config = SOCKETIO_CONFIG (the host_name) port_number enable_ipv6;
             io = (if use_ssl
                   then tlsio_interface \<and> xio_create (Tls_Io (the host_name) port_number enable_ipv6 socketio_config)
                   else socketio_interface \<and> xio_create (Socket_Io socketio_config)) in
         create_instance io host_name port_number resource protos count w))"

definition uws_client_create_with_io ::
  "bool \<Rightarrow> bool \<Rightarrow> cptr \<Rightarrow> 32 word \<Rightarrow> cptr \<Rightarrow> cptr list option \<Rightarrow> nat \<Rightarrow> uws_world \<Rightarrow> handle \<times> uws_world" where
  "uws_client_create_with_io io_interface io_created host_name port_number resource protos count w =
     (if host_name = None \<or> \<not> io_interface \<or> resource = None \<or> (protos = None \<and> count > 0) then (NULL_HANDLE, w)
      else if null_protocol (take count (case protos of None \<Rightarrow> [] | Some ps \<Rightarrow> ps)) then (NULL_HANDLE, w)
      else create_instance io_created host_name port_number resource protos count w)"

section \<open>Destruction\<close>

definition uws_client_destroy :: "handle \<Rightarrow> uws_world \<Rightarrow> uws_world" where
  "uws_client_destroy uws_client w =
     (case uws_client of
        NULL_HANDLE \<Rightarrow> w
      | CLIENT \<Rightarrow>
          (let w1 = w\<lparr>env_heap := c_free (fragment_buffer w) (c_free (stream_buffer w) (env_heap w)),
                      stream_buffer := None, fragment_buffer := None\<rparr>;
               w2 = (if uws_state w1 \<in> {UWS_STATE_OPEN, UWS_STATE_ERROR}
                     then snd (uws_client_close_async CLIENT None w1) else w1);
               w3 = (if protocol_count w2 > 0
                     then w2\<lparr>env_heap := c_free (protocols w2)
                                (free_protocols (take (protocol_count w2) (the (protocols w2))) (env_heap w2))\<rparr>
                     else w2);
               w4 = (if underlying_io w3 then emit IoDestroy (w3\<lparr>underlying_io := False\<rparr>) else w3);
               w5 = clear_pending_sends w4 in
           w5\<lparr>env_heap := free_struct (Map_Destroy (Some (request_headers w5)) (c_free (Some (hostname w5))
                             (c_free (Some (resource_name w5)) (free_struct (env_heap w5)))))\<rparr>))"

section \<open>What creation makes\<close>

text \<open>The arguments that are C strings, and as many protocol names as announced.\<close>

definition names_ok :: "cptr list option \<Rightarrow> nat \<Rightarrow> bool" where
  "names_ok protos count = (case protos of None \<Rightarrow> count = 0
     | Some ps \<Rightarrow> count \<le> length ps \<and> list_all ptr_good (take count ps))"

text \<open>The blocks that a client owns for its whole life: the instance, the two strings, the list and
  the protocols.\<close>

definition client_blocks :: "uws_world \<Rightarrow> int" where
  "client_blocks w = 4 + (case protocols w of None \<Rightarrow> 0 | Some ps \<Rightarrow> 1 + int (length ps))"

lemma mem_live_after: "mem_live (after_request d h) = mem_live h + (if granted h then d else 0)"
  by (simp add: after_request_def)

lemma free_protocols_live: "mem_live (free_protocols ps h) = mem_live h - int (length ps)"
  by (induction ps arbitrary: h) (simp_all add: free_protocols_def c_free_def)

lemma free_protocols_calls [simp]: "mem_calls (free_protocols ps h) = mem_calls h"
  by (induction ps arbitrary: h) (simp_all add: free_protocols_def c_free_def)

lemma copy_protocols_result:
  "list_all ptr_good ps \<Longrightarrow> copy_protocols ps copies h = (r, h') \<Longrightarrow>
     (case r of None \<Rightarrow> mem_live h' = mem_live h - int (length copies)
      | Some cs \<Rightarrow> cs = copies @ map (\<lambda>p. ptr_str p @ [NUL]) ps \<and> mem_live h' = mem_live h + int (length ps))"
proof (induction ps arbitrary: copies h)
  case (Cons p ps)
  obtain s where s: "p = Some s" "terminated s" using Cons.prems(1) by (auto simp: ptr_good_def)
  show ?case
  proof (cases "granted h")
    case True
    then show ?thesis
      using Cons s mallocAndStrcpy_s_result [OF s(2), of h]
      by (fastforce simp: ptr_str_def mem_live_after split: option.splits)
  next
    case False
    then show ?thesis
      using Cons.prems s mallocAndStrcpy_s_result [OF s(2), of h] by (auto simp: free_protocols_live mem_live_after)
  qed
qed auto

lemma create_protocols_result:
  assumes "names_ok protos count" and "create_protocols protos count h = (ok, copies, h')"
  shows "if ok then copies = map_option (\<lambda>ps. map (\<lambda>p. ptr_str p @ [NUL]) (take count ps)) protos \<and>
      mem_live h' = mem_live h + (case copies of None \<Rightarrow> 0 | Some ps \<Rightarrow> 1 + int (length ps))
    else mem_live h' = mem_live h"
proof (cases protos)
  case None
  then show ?thesis using assms(2) by (auto simp: create_protocols_def)
next
  case (Some ps)
  then have g: "list_all ptr_good (take count ps)" using assms(1) by (simp add: names_ok_def)
  obtain r h2 where c: "copy_protocols (take count ps) [] (after_request 1 h) = (r, h2)" by (metis surj_pair)
  note copied = copy_protocols_result [OF g c]
  show ?thesis
    using assms(2) Some c copied
    by (cases "granted h"; cases r) (auto simp: create_protocols_def malloc_struct_def mem_live_after free_struct_def)
qed

text \<open>A client as it is made from its arguments.\<close>

definition protocols_match :: "uws_world \<Rightarrow> bool" where
  "protocols_match w = (case protocols w of None \<Rightarrow> protocol_count w = 0 | Some ps \<Rightarrow> length ps = protocol_count w)"

definition made_from :: "char list \<Rightarrow> 32 word \<Rightarrow> char list \<Rightarrow> cptr list option \<Rightarrow> nat \<Rightarrow> uws_world \<Rightarrow> bool" where
  "made_from host port_number res protos count w \<longleftrightarrow>
     cstr (hostname w) = cstr host \<and> port w = port_number \<and> cstr (resource_name w) = cstr res \<and>
     client_protocols w = (case protos of None \<Rightarrow> [] | Some ps \<Rightarrow> map ptr_str (take count ps)) \<and> underlying_io w"

lemma cstr_copy [simp]: "cstr (cstr s @ [NUL]) = cstr s"
  by (simp add: cstr_append_NUL c_string_def)

lemma cstr_ptr_copy [simp]: "cstr (ptr_str p @ [NUL]) = ptr_str p"
  by (simp add: cstr_append_NUL c_string_def)

lemma fresh_map: "Map_Create None h = (if granted h then Some \<lparr>map_keys = None, map_values = None, map_count = 0,
    map_filter_callback = None\<rparr> else None, after_request 1 h)"
  by (simp add: Map_Create_def malloc_struct_def)

lemma fresh_map_live: "mem_live (Map_Destroy (Some \<lparr>map_keys = None, map_values = None, map_count = 0,
    map_filter_callback = None\<rparr>) h) = mem_live h - 1"
  by (simp add: Map_Destroy_def array_ptrs_def c_free_def free_struct_def)

lemma create_instance_result:
  assumes "terminated host" and "terminated res" and "names_ok protos count"
    and "create_instance io (Some host) port_number (Some res) protos count w = (c, w')"
  shows "case c of
      NULL_HANDLE \<Rightarrow> mem_live (env_heap w') = mem_live (env_heap w) \<and>
        (events w' = events w \<or> io \<and> events w' = events w @ [IoDestroy])
    | CLIENT \<Rightarrow> io \<and> mem_live (env_heap w') = mem_live (env_heap w) + client_blocks w' + owned w' \<and>
        made_from host port_number res protos count w' \<and> config_ok w' \<and> protocols_match w' \<and> (protocols w' \<noteq> None \<longleftrightarrow> protos \<noteq> None) \<and>
        protocol_count w' = count \<and> events w' = events w \<and> (events w = [] \<longrightarrow> fresh_client w')"
proof -
  let ?h0 = "env_heap w"
  let ?h1 = "after_request 1 ?h0"
  let ?h2 = "after_request 1 ?h1"
  let ?h3 = "after_request 1 ?h2"
  let ?h4 = "after_request 1 ?h3"
  let ?h5 = "after_request 1 ?h4"
  obtain ok copies h6 where p: "create_protocols protos count ?h5 = (ok, copies, h6)" by (metis prod_cases3)
  note made = create_protocols_result [OF assms(3) p]
  note steps = malloc_struct_def mallocAndStrcpy_s_result [OF assms(1)] mallocAndStrcpy_s_result [OF assms(2)] fresh_map
  note frees = mem_live_after c_free_def free_struct_def fresh_map_live release_instance_def
  consider "\<not> granted ?h0" | "granted ?h0" "\<not> granted ?h1" | "granted ?h0" "granted ?h1" "\<not> granted ?h2"
    | "granted ?h0" "granted ?h1" "granted ?h2" "\<not> granted ?h3"
    | "granted ?h0" "granted ?h1" "granted ?h2" "granted ?h3" "\<not> granted ?h4 \<or> \<not> io \<or> \<not> ok"
    | "granted ?h0" "granted ?h1" "granted ?h2" "granted ?h3" "granted ?h4" io ok by blast
  then show ?thesis
  proof cases
    case 5
    then show ?thesis
      using assms(4) p made
      by (cases "granted ?h4"; cases io) (auto simp: create_instance_def steps frees emit_def)
  next
    case 6
    have w': "c = CLIENT" "w' = w\<lparr>pending_sends := [], underlying_io := True, hostname := cstr host @ [NUL],
        resource_name := cstr res @ [NUL], protocols := copies, protocol_count := count, port := port_number,
        request_headers := \<lparr>map_keys = None, map_values = None, map_count = 0, map_filter_callback = None\<rparr>,
        uws_state := UWS_STATE_CLOSED, on_ws_open_complete := None, on_ws_frame_received := None,
        on_ws_peer_closed := None, on_ws_error := None, on_ws_close_complete := None,
        stream_buffer := None, stream_buffer_count := 0, fragment_buffer := None, fragment_buffer_count := 0,
        fragmented_frame_type := WS_FRAME_TYPE_UNKNOWN, open_start_time := 0, last_open_wait_log_time := 0, env_heap := h6\<rparr>"
      using assms(4) p 6 by (auto simp: create_instance_def steps)
    have inv: "map_inv \<lparr>map_keys = None, map_values = None, map_count = 0, map_filter_callback = None\<rparr>"
      "map_entries \<lparr>map_keys = None, map_values = None, map_count = 0, map_filter_callback = None\<rparr> = []"
      by (simp_all add: map_inv_def map_repr_def map_entries_def array_ptrs_def array_repr_def)
    have "mem_live (env_heap w') = mem_live (env_heap w) + client_blocks w' + owned w'"
      using made 6 by (simp add: w' client_blocks_def owned_def inv map_blocks_def mem_live_after)
    moreover have "made_from host port_number res protos count w'"
      using made 6 by (cases protos) (simp_all add: w' made_from_def client_protocols_def o_def)
    moreover have "config_ok w'"
      using made 6 assms(3) by (cases protos) (auto simp: w' config_ok_def inv names_ok_def list_all_iff)
    moreover have "protocols_match w'"
      using made 6 assms(3) by (cases protos) (auto simp: w' protocols_match_def names_ok_def)
    moreover have "events w = [] \<longrightarrow> fresh_client w'" by (simp add: w' fresh_client_def inv)
    ultimately show ?thesis using made 6 by (cases protos) (simp_all add: w')
  qed (use assms(4) in \<open>auto simp: create_instance_def steps frees\<close>)
qed

text \<open>The arguments of both constructors: null or a C string, and an array of the announced size.\<close>

definition string_arg :: "cptr \<Rightarrow> bool" where
  "string_arg p = (case p of None \<Rightarrow> True | Some s \<Rightarrow> terminated s)"

definition create_args :: "cptr \<Rightarrow> cptr \<Rightarrow> cptr list option \<Rightarrow> nat \<Rightarrow> bool" where
  "create_args host res protos count \<longleftrightarrow> string_arg host \<and> string_arg res \<and>
     (case protos of None \<Rightarrow> True | Some ps \<Rightarrow> count \<le> length ps \<and> list_all string_arg (take count ps))"

lemma null_protocol_good: "\<not> null_protocol ps \<Longrightarrow> list_all string_arg ps \<Longrightarrow> list_all ptr_good ps"
  by (induction ps) (auto simp: string_arg_def ptr_good_def split: if_splits option.splits)

lemma create_args_names:
  assumes "create_args (Some host) (Some res) protos count" and "\<not> (protos = None \<and> count > 0)"
    and "\<not> null_protocol (take count (case protos of None \<Rightarrow> [] | Some ps \<Rightarrow> ps))"
  shows "terminated host" "terminated res" "names_ok protos count"
proof -
  show "terminated host" "terminated res" using assms(1) by (simp_all add: create_args_def string_arg_def)
  show "names_ok protos count"
    using assms null_protocol_good by (cases protos) (auto simp: names_ok_def create_args_def)
qed

lemma create_result:
  assumes "create_args host res protos count"
    and "uws_client_create tlsio socketio xio_create host port_number res ssl protos count ipv6 w = (CLIENT, w') \<or>
      uws_client_create_with_io interface io_created host port_number res protos count w = (CLIENT, w')"
  shows "\<exists>h r. host = Some h \<and> res = Some r \<and> names_ok protos count \<and>
    mem_live (env_heap w') = mem_live (env_heap w) + client_blocks w' + owned w' \<and>
    made_from h port_number r protos count w' \<and> config_ok w' \<and> protocols_match w' \<and> (protocols w' \<noteq> None \<longleftrightarrow> protos \<noteq> None) \<and>
    protocol_count w' = count \<and> (events w = [] \<longrightarrow> fresh_client w')"
proof -
  obtain io where io: "create_instance io host port_number res protos count w = (CLIENT, w')"
    "host \<noteq> None" "res \<noteq> None" "\<not> (protos = None \<and> count > 0)"
    "\<not> null_protocol (take count (case protos of None \<Rightarrow> [] | Some ps \<Rightarrow> ps))"
    using assms(2) by (auto simp: uws_client_create_def uws_client_create_with_io_def Let_def split: if_splits)
  then obtain h r where hr: "host = Some h" "res = Some r" by auto
  note args = create_args_names [OF assms(1) [unfolded hr] io(4,5)]
  show ?thesis using create_instance_result [OF args io(1) [unfolded hr]] hr args(3) by auto
qed

section \<open>What destruction gives back\<close>

text \<open>The array of the protocols that is not freed: made for no protocols, and skipped because there
  are none.\<close>

definition lost_array :: "uws_world \<Rightarrow> int" where
  "lost_array w = (if protocols w \<noteq> None \<and> protocol_count w = 0 then 1 else 0)"

lemma destroy_result:
  assumes "pend_ok w" and "map_inv (request_headers w)" and "protocols_match w"
  shows "mem_live (env_heap (uws_client_destroy CLIENT w)) = balance w - client_blocks w + lost_array w \<and>
    completed n (events (uws_client_destroy CLIENT w)) = sends n w"
proof -
  define w1 where "w1 = w\<lparr>env_heap := c_free (fragment_buffer w) (c_free (stream_buffer w) (env_heap w)),
    stream_buffer := None, fragment_buffer := None\<rparr>"
  define w2 where "w2 = (if uws_state w1 \<in> {UWS_STATE_OPEN, UWS_STATE_ERROR}
    then snd (uws_client_close_async CLIENT None w1) else w1)"
  define w3 where "w3 = (if protocol_count w2 > 0
    then w2\<lparr>env_heap := c_free (protocols w2)
      (free_protocols (take (protocol_count w2) (the (protocols w2))) (env_heap w2))\<rparr> else w2)"
  define w4 where "w4 = (if underlying_io w3 then emit IoDestroy (w3\<lparr>underlying_io := False\<rparr>) else w3)"
  define w5 where "w5 = clear_pending_sends w4"
  have run: "uws_client_destroy CLIENT w = w5\<lparr>env_heap := free_struct (Map_Destroy (Some (request_headers w5))
      (c_free (Some (hostname w5)) (c_free (Some (resource_name w5)) (free_struct (env_heap w5)))))\<rparr>"
    by (simp only: uws_client_destroy_def handle.case Let_def w5_def w4_def w3_def w2_def w1_def)
  have m1: "moves 0 w w1"
    by (auto simp: w1_def moves_def moves_parts c_free_def split: option.splits)
  have m2: "moves 0 w1 w2" by (simp add: w2_def moves_close_async)
  have k2: "keeps w1 w2" by (simp add: w2_def keeping)
  have same2: "protocols w2 = protocols w" "protocol_count w2 = protocol_count w" "stream_buffer w2 = None" "fragment_buffer w2 = None"
    using k2 by (simp_all add: keeps_def w1_def)
  let ?d = "client_blocks w - 4 - lost_array w"
  have "heap_moves (- ?d) (env_heap w2) (env_heap w3)"
    using assms(3) same2
    by (cases "protocols w")
      (auto simp: w3_def heap_moves_def client_blocks_def lost_array_def protocols_match_def free_protocols_live c_free_def)
  moreover have "w3 = w2\<lparr>env_heap := env_heap w3\<rparr>" by (simp add: w3_def)
  ultimately have m3: "moves (- ?d) w2 w3" using moves_heap [of "- ?d" w2 "env_heap w3"] by metis
  have m4: "moves 0 w3 w4" by (auto simp: w4_def moves_def moves_parts emit_def)
  have m5: "moves 0 w4 w5" unfolding w5_def by (intro moving moves_refl)
  have m: "moves (- ?d) w w5"
    using moves_trans [OF moves_trans [OF moves_trans [OF moves_trans [OF m1 m2] m3] m4] m5] by simp
  have k5: "keeps w4 w5" unfolding w5_def by (intro keeping keeps_refl)
  have "stream_buffer w5 = None" "fragment_buffer w5 = None"
    using k5 same2(3,4) by (simp_all add: keeps_def w4_def w3_def emit_def)
  moreover have p5: "pending_sends w5 = []" by (simp add: w5_def)
  ultimately have o5: "owned w5 = map_blocks (map_entries (request_headers w5))" by (simp add: owned_def)
  have h5: "request_headers w5 = request_headers w" using m by (simp add: moves_def config_def)
  have "mem_live (env_heap (uws_client_destroy CLIENT w)) = balance w5 - 4"
    using o5 h5 assms(2) Map_Destroy_live [of "request_headers w5" "map_entries (request_headers w5)"]
    by (simp add: run balance_def map_inv_def free_struct_def c_free_def)
  moreover have "balance w5 = balance w - ?d" using m assms(1) by (simp add: moves_def)
  moreover have "sends n w5 = sends n w" using m assms(1) by (simp add: moves_def)
  ultimately show ?thesis using p5 by (simp add: run sends_def promised_def)
qed

text \<open>From the creation to the destruction.\<close>

lemma life_result:
  assumes "create_args host res protos count" and "events w = []"
    and "uws_client_create tlsio socketio xio_create host port_number res ssl protos count ipv6 w = (CLIENT, w0) \<or>
      uws_client_create_with_io interface io_created host port_number res protos count w = (CLIENT, w0)"
    and "uws_run w0 cs w1"
  shows "fresh_client w0" "mem_live (env_heap w) + lost_array w0 \<le> mem_live (env_heap (uws_client_destroy CLIENT w1)) \<and>
    mem_live (env_heap (uws_client_destroy CLIENT w1)) \<le>
      mem_live (env_heap w) + lost_array w0 + 2 * int (construct_failures (events w1))"
    "completed n (events (uws_client_destroy CLIENT w1)) = sends n w1"
proof -
  have c: "mem_live (env_heap w0) = mem_live (env_heap w) + client_blocks w0 + owned w0" "fresh_client w0"
    "protocols_match w0"
    using create_result [OF assms(1,3)] assms(2)
    by auto
  have g: "uws_good w0 w1" using run_good [OF assms(4) c(2)] .
  then have w1: "pend_ok w1" "map_inv (request_headers w1)" "protocols_match w1" "client_blocks w1 = client_blocks w0"
    "lost_array w1 = lost_array w0"
    using c(3) by (simp_all add: uws_good_def protocols_match_def client_blocks_def lost_array_def)
  have d: "mem_live (env_heap (uws_client_destroy CLIENT w1)) = balance w1 - client_blocks w0 + lost_array w0"
    "completed n (events (uws_client_destroy CLIENT w1)) = sends n w1"
    using destroy_result [OF w1(1-3), of n] w1(4,5) by simp_all
  have "balance w0 = mem_live (env_heap w) + client_blocks w0" using c(1) by (simp add: balance_def)
  then show "mem_live (env_heap w) + lost_array w0 \<le> mem_live (env_heap (uws_client_destroy CLIENT w1)) \<and>
    mem_live (env_heap (uws_client_destroy CLIENT w1)) \<le>
      mem_live (env_heap w) + lost_array w0 + 2 * int (construct_failures (events w1))"
    using d(1) g by (auto simp: uws_good_def)
  show "completed n (events (uws_client_destroy CLIENT w1)) = sends n w1" "fresh_client w0" by (rule d(2), rule c(2))
qed

text \<open>A client that is made like \<open>demo_client\<close>.\<close>

lemma demo_created:
  "\<exists>w0. uws_client_create_with_io True True (Some (''host'' @ [NUL])) 80 (Some (''/r'' @ [NUL])) (Some [Some (''p'' @ [NUL])]) 1 demo_client
      = (CLIENT, w0) \<and> like_demo w0 \<and> lost_array w0 = 0 \<and> refused_is_silent w0 \<and>
        (\<forall>i. fst (xio_close_answer w0 i) = Failure \<longrightarrow> \<not> snd (xio_close_answer w0 i))"
proof -
  have t: "terminated (s @ [NUL])" for s by (simp add: terminated_def)
  have g: "granted h" if "mem_ok h = mem_ok heap0" for h using that by (simp add: granted_def heap0_def)
  note made = mallocAndStrcpy_s_result [OF t] fresh_map malloc_struct_def create_protocols_def
  obtain w0 where w0: "uws_client_create_with_io True True (Some (''host'' @ [NUL])) 80 (Some (''/r'' @ [NUL]))
      (Some [Some (''p'' @ [NUL])]) 1 demo_client = (CLIENT, w0)" "config w0 = config demo_client" "env_rng w0 = env_rng demo_client"
    "mem_ok (env_heap w0) = mem_ok heap0" "xio_open_answer w0 = (\<lambda>i. (Success, None))" "fresh_client w0" "lost_array w0 = 0"
    "xio_close_answer w0 = (\<lambda>_. (Success, False))"
    by (simp add: uws_client_create_with_io_def create_instance_def made g after_request_def demo_client_def config_def
        fresh_client_def map_inv_def map_repr_def map_entries_def array_ptrs_def array_repr_def lost_array_def
        del: append.simps)
  then show ?thesis by (auto simp: like_demo_def heap0_def refused_is_silent_def config_def demo_client_def)
qed

end
