(* ===== verification/HttpHeaders.thy ===== *)
theory HttpHeaders
  imports Maps
begin

text \<open>
  The HTTP headers of \<open>src/httpheaders.c\<close>: a layer over the string map that accepts only names
  without separators, strips leading white space from values and joins the values of a name
  that is added more than once. The lemmas follow a map of entries through every operation.
\<close>

section \<open>The functions of the source\<close>

record HTTP_HEADERS_HANDLE_DATA =
  headers :: MAP_HANDLE_DATA

datatype HTTP_HEADERS_RESULT =
    HTTP_HEADERS_OK
  | HTTP_HEADERS_INVALID_ARG
  | HTTP_HEADERS_ALLOC_FAILED
  | HTTP_HEADERS_INSUFFICIENT_BUFFER
  | HTTP_HEADERS_ERROR

type_synonym headers_handle = "HTTP_HEADERS_HANDLE_DATA option"

definition HTTPHeaders_Alloc :: "heap \<Rightarrow> headers_handle \<times> heap" where
  "HTTPHeaders_Alloc h =
     (case malloc_struct h of
        (False, h1) \<Rightarrow> (None, h1)
      | (True, h1) \<Rightarrow>
          (case Map_Create None h1 of
             (None, h2) \<Rightarrow> (None, free_struct h2)
           | (Some m, h2) \<Rightarrow> (Some \<lparr>headers = m\<rparr>, h2)))"

definition HTTPHeaders_Free :: "headers_handle \<Rightarrow> heap \<Rightarrow> heap" where
  "HTTPHeaders_Free handle h =
     (case handle of
        None \<Rightarrow> h
      | Some d \<Rightarrow> free_struct (Map_Destroy (Some (headers d)) h))"

text \<open>The loop over the characters of a name: whether it runs to the end. A character that is
  negative where \<open>char\<close> is signed is above 126 where it is not; both are refused.\<close>

definition bad_name_char :: "char \<Rightarrow> bool" where
  "bad_name_char c \<longleftrightarrow> (of_char c :: nat) < 33 \<or> 126 < (of_char c :: nat) \<or> c = CHR '':''"

fun header_name_loop :: "char list \<Rightarrow> bool" where
  "header_name_loop [] = True"
| "header_name_loop (c # cs) = (if bad_name_char c then False else header_name_loop cs)"

definition leading_space :: "char \<Rightarrow> bool" where
  "leading_space c \<longleftrightarrow> c = CHR '' '' \<or> c = CHR 0x09 \<or> c = CHR 0x0D \<or> c = CHR 0x0A"

fun skip_space_loop :: "char list \<Rightarrow> char list" where
  "skip_space_loop [] = []"
| "skip_space_loop (c # cs) = (if leading_space c then skip_space_loop cs else c # cs)"

definition headers_ReplaceHeaderNameValuePair ::
  "headers_handle \<Rightarrow> cptr \<Rightarrow> cptr \<Rightarrow> bool \<Rightarrow> heap \<Rightarrow> HTTP_HEADERS_RESULT \<times> headers_handle \<times> heap" where
  "headers_ReplaceHeaderNameValuePair handle name value replace h =
     (case (handle, name, value) of
        (Some handleData, Some n, Some v0) \<Rightarrow>
          (if \<not> header_name_loop (take (strlen n) n) then (HTTP_HEADERS_INVALID_ARG, handle, h)
           else
             (let existingValue = Map_GetValueFromKey (Some (headers handleData)) (Some n);
                  v = skip_space_loop v0 in
              case (replace, existingValue) of
                (False, Some e) \<Rightarrow>
                  (case malloc_block char_of_byte (strlen e + 2 + strlen v + 1) h of
                     (None, h1) \<Rightarrow> (HTTP_HEADERS_ALLOC_FAILED, handle, h1)
                   | (Some newValue, h1) \<Rightarrow>
                       (let st = put (take (strlen e) e) (0, newValue);
                            st = put '','' st;
                            st = put '' '' st;
                            (_, joined) = put (take (strlen v + 1) v) st;
                            (r, m, h2) = Map_AddOrUpdate (Some (headers handleData)) (Some n) (Some joined) h1 in
                        (if r \<noteq> MAP_OK then HTTP_HEADERS_ERROR else HTTP_HEADERS_OK,
                         Some (handleData\<lparr>headers := the m\<rparr>), c_free (Some joined) h2)))
              | _ \<Rightarrow>
                  (let (r, m, h1) = Map_AddOrUpdate (Some (headers handleData)) (Some n) (Some v) h in
                   (if r \<noteq> MAP_OK then HTTP_HEADERS_ALLOC_FAILED else HTTP_HEADERS_OK,
                    Some (handleData\<lparr>headers := the m\<rparr>), h1))))
      | _ \<Rightarrow> (HTTP_HEADERS_INVALID_ARG, handle, h))"

definition HTTPHeaders_AddHeaderNameValuePair ::
  "headers_handle \<Rightarrow> cptr \<Rightarrow> cptr \<Rightarrow> heap \<Rightarrow> HTTP_HEADERS_RESULT \<times> headers_handle \<times> heap" where
  "HTTPHeaders_AddHeaderNameValuePair httpHeadersHandle name value h =
     headers_ReplaceHeaderNameValuePair httpHeadersHandle name value False h"

definition HTTPHeaders_ReplaceHeaderNameValuePair ::
  "headers_handle \<Rightarrow> cptr \<Rightarrow> cptr \<Rightarrow> heap \<Rightarrow> HTTP_HEADERS_RESULT \<times> headers_handle \<times> heap" where
  "HTTPHeaders_ReplaceHeaderNameValuePair httpHeadersHandle name value h =
     headers_ReplaceHeaderNameValuePair httpHeadersHandle name value True h"

definition HTTPHeaders_FindHeaderValue :: "headers_handle \<Rightarrow> cptr \<Rightarrow> cptr" where
  "HTTPHeaders_FindHeaderValue httpHeadersHandle name =
     (case (httpHeadersHandle, name) of
        (Some handleData, Some n) \<Rightarrow> Map_GetValueFromKey (Some (headers handleData)) (Some n)
      | _ \<Rightarrow> None)"

text \<open>The out parameter \<open>headerCount\<close> is written when the handle is there; the flag says whether
  the caller passed one.\<close>

definition HTTPHeaders_GetHeaderCount :: "headers_handle \<Rightarrow> bool \<Rightarrow> HTTP_HEADERS_RESULT \<times> nat option" where
  "HTTPHeaders_GetHeaderCount handle headerCount =
     (case handle of
        None \<Rightarrow> (HTTP_HEADERS_INVALID_ARG, None)
      | Some handleData \<Rightarrow>
          (if \<not> headerCount then (HTTP_HEADERS_INVALID_ARG, None)
           else
             (case Map_GetInternals (Some (headers handleData)) of
                (MAP_OK, Some (_, _, n)) \<Rightarrow> (HTTP_HEADERS_OK, Some n)
              | _ \<Rightarrow> (HTTP_HEADERS_ERROR, None))))"

definition HTTPHeaders_GetHeader :: "headers_handle \<Rightarrow> nat \<Rightarrow> bool \<Rightarrow> heap \<Rightarrow> HTTP_HEADERS_RESULT \<times> cptr \<times> heap" where
  "HTTPHeaders_GetHeader handle index destination h =
     (case handle of
        None \<Rightarrow> (HTTP_HEADERS_INVALID_ARG, None, h)
      | Some handleData \<Rightarrow>
          (if \<not> destination then (HTTP_HEADERS_INVALID_ARG, None, h)
           else
             (case Map_GetInternals (Some (headers handleData)) of
                (MAP_OK, Some (ks, vs, headerCount)) \<Rightarrow>
                  (if index \<ge> headerCount then (HTTP_HEADERS_INVALID_ARG, None, h)
                   else
                     (let k = the (load_ptr ks index); v = the (load_ptr vs index) in
                      case malloc_block char_of_byte (strlen k + 2 + strlen v + 1) h of
                        (None, h1) \<Rightarrow> (HTTP_HEADERS_ERROR, None, h1)
                      | (Some d, h1) \<Rightarrow>
                          (let st = put (take (strlen k) k) (0, d);
                               st = put '':'' st;
                               st = put '' '' st;
                               (_, header) = put (take (strlen v + 1) v) st in
                           (HTTP_HEADERS_OK, Some header, h1))))
              | _ \<Rightarrow> (HTTP_HEADERS_ERROR, None, h))))"

definition HTTPHeaders_Clone :: "headers_handle \<Rightarrow> heap \<Rightarrow> headers_handle \<times> heap" where
  "HTTPHeaders_Clone handle h =
     (case handle of
        None \<Rightarrow> (None, h)
      | Some handleData \<Rightarrow>
          (case malloc_struct h of
             (False, h1) \<Rightarrow> (None, h1)
           | (True, h1) \<Rightarrow>
               (case Map_Clone (Some (headers handleData)) h1 of
                  (None, h2) \<Rightarrow> (None, free_struct h2)
                | (Some m, h2) \<Rightarrow> (Some \<lparr>headers = m\<rparr>, h2))))"

section \<open>What an addition does\<close>

text \<open>The names that are accepted, and the value without its leading white space.\<close>

definition header_name :: "char list \<Rightarrow> bool" where
  "header_name n \<longleftrightarrow> list_all (\<lambda>c. \<not> bad_name_char c) n"

definition trimmed :: "char list \<Rightarrow> char list" where
  "trimmed v = dropWhile leading_space v"

definition combined :: "char list option \<Rightarrow> char list \<Rightarrow> char list" where
  "combined old v = (case old of None \<Rightarrow> v | Some s \<Rightarrow> s @ '', '' @ v)"

lemma header_name_loop_eq: "header_name_loop s = header_name s"
  by (induction s) (auto simp: header_name_def)

lemma leading_space_NUL [simp]: "\<not> leading_space NUL"
  by (simp add: leading_space_def)

lemma skip_space_terminated: "terminated v \<Longrightarrow> terminated (skip_space_loop v)"
  by (induction v) auto

lemma cstr_skip_space: "cstr (skip_space_loop v) = trimmed (cstr v)"
proof (induction v)
  case (Cons c v)
  then show ?case by (cases "c = NUL") (auto simp: trimmed_def)
qed (simp add: trimmed_def)

lemma colon_space_block:
  assumes "length b = length e + 2 + length v + 1"
  shows "put (v @ [NUL]) (put [d] (put [c] (put e (0, b)))) = (length b, e @ [c, d] @ v @ [NUL])"
proof -
  have "put (v @ [NUL]) (put [d] (put [c] (put e (0, b)))) = put (e @ [c, d] @ v @ [NUL]) (0, b)"
    using assms by (simp add: put_append)
  then show ?thesis using assms by (simp add: put_whole)
qed

text \<open>An existing value in the map of the code.\<close>

lemma found_value:
  assumes "map_repr m es"
  shows "case Map_GetValueFromKey (Some m) (Some k) of
      None \<Rightarrow> map_of es (cstr k) = None | Some e \<Rightarrow> terminated e \<and> map_of es (cstr k) = Some (cstr e)"
proof (cases "findKey m k")
  case None
  then show ?thesis using findKey_lookup [OF assms, of k] by (simp add: Map_GetValueFromKey_def)
next
  case (Some i)
  then have i: "i < length es" "map_of es (cstr k) = Some (snd (es ! i))"
    using findKey_lookup [OF assms, of k] by auto
  have "array_repr (map_values m) (map snd es)" using assms by (simp add: map_repr_def)
  from array_at(1) [OF this, of i] i Some show ?thesis
    by (auto simp: Map_GetValueFromKey_def ptr_good_def)
qed

text \<open>The state after a call: the entries, and no memory but that of the entries.\<close>

definition header_put ::
  "HTTP_HEADERS_HANDLE_DATA \<Rightarrow> entry list \<Rightarrow> char list \<Rightarrow> char list \<Rightarrow> heap \<Rightarrow>
     HTTP_HEADERS_RESULT \<times> headers_handle \<times> heap \<Rightarrow> bool" where
  "header_put d es k v h res =
     (case res of (r, x, h') \<Rightarrow>
        \<exists>d' fs. x = Some d' \<and> map_repr (headers d') fs \<and>
          mem_live h' - map_blocks fs = mem_live h - map_blocks es \<and>
          map_of fs = (if r = HTTP_HEADERS_OK then (map_of es)(k \<mapsto> v) else map_of es))"

lemma header_put_after_update:
  assumes "put_result m es k v h (r, m', h')" and "m = headers d" and "e \<noteq> HTTP_HEADERS_OK"
  shows "header_put d es k v h
    (if r \<noteq> MAP_OK then e else HTTP_HEADERS_OK, Some (d\<lparr>headers := the m'\<rparr>), h')"
  using assms unfolding put_result_def header_put_def by (cases "r = MAP_OK") auto

lemma headers_replace_result:
  assumes "map_repr (headers d) es" and "terminated n" and "terminated v"
    and "headers_ReplaceHeaderNameValuePair (Some d) (Some n) (Some v) replace h = (r, x, h')"
  shows "(r = HTTP_HEADERS_INVALID_ARG \<longleftrightarrow> \<not> header_name (cstr n)) \<and>
    header_put d es (cstr n) (combined (if replace then None else map_of es (cstr n)) (trimmed (cstr v))) h (r, x, h')"
proof (cases "header_name (cstr n)")
  case False
  then show ?thesis
    using assms by (auto simp: headers_ReplaceHeaderNameValuePair_def header_name_loop_eq header_put_def)
next
  case True
  let ?old = "Map_GetValueFromKey (Some (headers d)) (Some n)" and ?v = "skip_space_loop v"
  have v: "terminated ?v" "cstr ?v = trimmed (cstr v)"
    using assms(3) by (simp_all add: skip_space_terminated cstr_skip_space)
  note old = found_value [OF assms(1), of n]
  show ?thesis
  proof (cases "replace \<or> ?old = None")
    case plain: True
    obtain q m' g where up: "Map_AddOrUpdate (Some (headers d)) (Some n) (Some ?v) h = (q, m', g)" by (metis prod_cases3)
    have res: "(r, x, h') = (if q \<noteq> MAP_OK then HTTP_HEADERS_ALLOC_FAILED else HTTP_HEADERS_OK, Some (d\<lparr>headers := the m'\<rparr>), g)"
      using assms(4) True plain up
      by (cases replace; cases ?old) (auto simp: headers_ReplaceHeaderNameValuePair_def header_name_loop_eq Let_def)
    have "combined (if replace then None else map_of es (cstr n)) (trimmed (cstr v)) = cstr ?v"
      using plain old v(2) by (auto simp: combined_def)
    then show ?thesis
      using header_put_after_update [OF Map_AddOrUpdate_result [OF assms(1,2) v(1), of h, unfolded up] refl,
          of HTTP_HEADERS_ALLOC_FAILED] res True by simp
  next
    case False
    then obtain e where e: "?old = Some e" "\<not> replace" by auto
    then have et: "terminated e" "map_of es (cstr n) = Some (cstr e)" using old by simp_all
    show ?thesis
    proof (cases "granted h")
      case no: False
      then show ?thesis
        using assms True e by (auto simp: headers_ReplaceHeaderNameValuePair_def header_name_loop_eq malloc_block_def
            header_put_def after_request_def Let_def)
    next
      case yes: True
      let ?b = "fresh_block char_of_byte (strlen e + 2 + strlen ?v + 1) h" and ?h1 = "after_request 1 h"
      define j where "j = cstr e @ '', '' @ cstr ?v @ [NUL]"
      have take: "take (strlen ?v + 1) ?v = cstr ?v @ [NUL]" using v(1) by simp
      have put: "put (take (strlen ?v + 1) ?v) (put '' '' (put '','' (put (take (strlen e) e) (0, ?b)))) = (length ?b, j)"
        unfolding take take_strlen using colon_space_block [of ?b "cstr e" "cstr ?v"] by (simp add: j_def strlen_def)
      have j: "terminated j" "cstr j = cstr e @ '', '' @ cstr ?v"
        using cstr_append_NUL [of "cstr e @ '', '' @ cstr ?v" "[]"] by (simp_all add: j_def)
      obtain q m' g where up: "Map_AddOrUpdate (Some (headers d)) (Some n) (Some j) ?h1 = (q, m', g)" by (metis prod_cases3)
      have res: "(r, x, h') = (if q \<noteq> MAP_OK then HTTP_HEADERS_ERROR else HTTP_HEADERS_OK,
          Some (d\<lparr>headers := the m'\<rparr>), c_free (Some j) g)"
        using assms(4) True e yes up put v(1)
        by (simp add: headers_ReplaceHeaderNameValuePair_def header_name_loop_eq malloc_block_def Let_def)
      have "header_put d es (cstr n) (cstr j) ?h1
          (if q \<noteq> MAP_OK then HTTP_HEADERS_ERROR else HTTP_HEADERS_OK, Some (d\<lparr>headers := the m'\<rparr>), g)"
        using header_put_after_update [OF Map_AddOrUpdate_result [OF assms(1,2) j(1), of ?h1, unfolded up] refl] by simp
      then show ?thesis
        using res True yes e et j(2) v(2)
        by (auto simp: header_put_def combined_def c_free_def after_request_def)
    qed
  qed
qed

section \<open>Runs\<close>

datatype header_call = AddHeader "char list" "char list" | ReplaceHeader "char list" "char list"

fun call_name :: "header_call \<Rightarrow> char list" where
  "call_name (AddHeader n v) = n"
| "call_name (ReplaceHeader n v) = n"

fun call_value :: "header_call \<Rightarrow> char list" where
  "call_value (AddHeader n v) = v"
| "call_value (ReplaceHeader n v) = v"

fun header_step ::
  "header_call \<Rightarrow> HTTP_HEADERS_HANDLE_DATA \<times> heap \<Rightarrow> HTTP_HEADERS_RESULT \<times> headers_handle \<times> heap" where
  "header_step (AddHeader n v) (d, h) = HTTPHeaders_AddHeaderNameValuePair (Some d) (Some n) (Some v) h"
| "header_step (ReplaceHeader n v) (d, h) = HTTPHeaders_ReplaceHeaderNameValuePair (Some d) (Some n) (Some v) h"

text \<open>A run from an allocator state, with the log of its calls and results.\<close>

inductive headers_run ::
  "heap \<Rightarrow> (header_call \<times> HTTP_HEADERS_RESULT) list \<Rightarrow> HTTP_HEADERS_HANDLE_DATA \<times> heap \<Rightarrow> bool" for h0 where
  run_alloc: "HTTPHeaders_Alloc h0 = (Some d, h) \<Longrightarrow> headers_run h0 [] (d, h)"
| run_call: "headers_run h0 log s \<Longrightarrow> terminated (call_name c) \<Longrightarrow> terminated (call_value c) \<Longrightarrow>
     header_step c s = (r, Some d', h') \<Longrightarrow> headers_run h0 (log @ [(c, r)]) (d', h')"

text \<open>What the log says of a name: the values added since the last replacement.\<close>

fun values_after :: "char list \<Rightarrow> header_call \<times> HTTP_HEADERS_RESULT \<Rightarrow> char list list \<Rightarrow> char list list" where
  "values_after k (AddHeader n v, r) vs =
     (if r = HTTP_HEADERS_OK \<and> cstr n = k then vs @ [trimmed (cstr v)] else vs)"
| "values_after k (ReplaceHeader n v, r) vs =
     (if r = HTTP_HEADERS_OK \<and> cstr n = k then [trimmed (cstr v)] else vs)"

definition values_of :: "char list \<Rightarrow> (header_call \<times> HTTP_HEADERS_RESULT) list \<Rightarrow> char list list" where
  "values_of k log = fold (values_after k) log []"

fun comma_list :: "char list list \<Rightarrow> char list" where
  "comma_list [] = []"
| "comma_list [v] = v"
| "comma_list (v # w # vs) = v @ '', '' @ comma_list (w # vs)"

definition value_of :: "char list list \<Rightarrow> char list option" where
  "value_of vs = (if vs = [] then None else Some (comma_list vs))"

lemma comma_list_snoc: "vs \<noteq> [] \<Longrightarrow> comma_list (vs @ [v]) = comma_list vs @ '', '' @ v"
  by (induction vs rule: comma_list.induct) auto

lemma combined_values: "combined (value_of vs) v = comma_list (vs @ [v])"
  by (simp add: combined_def value_of_def comma_list_snoc)

lemma values_of_snoc: "values_of k (log @ [c]) = values_after k c (values_of k log)"
  by (simp add: values_of_def)

lemma values_after_other:
  "(snd c = HTTP_HEADERS_OK \<Longrightarrow> cstr (call_name (fst c)) \<noteq> k) \<Longrightarrow> values_after k c vs = vs"
  by (cases "(k, c, vs)" rule: values_after.cases) auto

lemma header_step_call:
  "header_step c (d, h) = headers_ReplaceHeaderNameValuePair (Some d) (Some (call_name c)) (Some (call_value c))
    (case c of AddHeader _ _ \<Rightarrow> False | ReplaceHeader _ _ \<Rightarrow> True) h"
  by (cases c) (simp_all add: HTTPHeaders_AddHeaderNameValuePair_def HTTPHeaders_ReplaceHeaderNameValuePair_def)

lemma header_step_result:
  assumes "map_repr (headers d) es" and "terminated (call_name c)" and "terminated (call_value c)"
    and "header_step c (d, h) = (r, Some d', h')"
    and "\<And>k. map_of es k = value_of (values_of k log)"
  shows "\<exists>fs. map_repr (headers d') fs \<and> mem_live h' - map_blocks fs = mem_live h - map_blocks es \<and>
    (\<forall>k. map_of fs k = value_of (values_of k (log @ [(c, r)]))) \<and>
    (r = HTTP_HEADERS_INVALID_ARG \<longleftrightarrow> \<not> header_name (cstr (call_name c)))"
proof -
  define replace where "replace = (case c of AddHeader _ _ \<Rightarrow> False | ReplaceHeader _ _ \<Rightarrow> True)"
  let ?n = "cstr (call_name c)" and ?v = "trimmed (cstr (call_value c))"
  have run: "headers_ReplaceHeaderNameValuePair (Some d) (Some (call_name c)) (Some (call_value c)) replace h = (r, Some d', h')"
    using assms(4) by (simp add: replace_def header_step_call)
  obtain fs where fs: "map_repr (headers d') fs" "mem_live h' - map_blocks fs = mem_live h - map_blocks es"
    "map_of fs = (if r = HTTP_HEADERS_OK
       then (map_of es)(?n \<mapsto> combined (if replace then None else map_of es ?n) ?v) else map_of es)"
    and bad: "r = HTTP_HEADERS_INVALID_ARG \<longleftrightarrow> \<not> header_name ?n"
    using headers_replace_result [OF assms(1-3) run] by (auto simp: header_put_def)
  have "map_of fs k = value_of (values_of k (log @ [(c, r)]))" for k
  proof (cases "r = HTTP_HEADERS_OK \<and> k = ?n")
    case True
    then have "map_of fs k = Some (combined (if replace then None else value_of (values_of k log)) ?v)"
      using fs(3) assms(5) by simp
    also have "\<dots> = value_of (values_of k (log @ [(c, r)]))"
      using True by (cases c)
        (simp_all add: values_of_snoc replace_def combined_values value_of_def [of "_ @ _"] value_of_def [of "[_]"],
         simp add: combined_def)
    finally show ?thesis .
  next
    case False
    then have "values_after k (c, r) vs = vs" for vs by (intro values_after_other) auto
    then show ?thesis using False fs(3) assms(5) by (auto simp: values_of_snoc)
  qed
  with fs(1,2) bad show ?thesis by blast
qed

lemma headers_run_result:
  assumes "headers_run h0 log s"
  shows "\<exists>es. map_repr (headers (fst s)) es \<and> mem_live (snd s) = mem_live h0 + 1 + map_blocks es \<and>
    (\<forall>k. map_of es k = value_of (values_of k log)) \<and>
    (\<forall>(c, r) \<in> set log. r = HTTP_HEADERS_INVALID_ARG \<longleftrightarrow> \<not> header_name (cstr (call_name c)))"
  using assms
proof (induction rule: headers_run.induct)
  case (run_alloc d h)
  then have "map_repr (headers d) []" "mem_live h = mem_live h0 + 2"
    by (auto simp: HTTPHeaders_Alloc_def Map_Create_def map_repr_def mem_defs split: if_splits)
  then show ?case by (intro exI [of _ "[]"]) (simp add: map_blocks_def values_of_def value_of_def)
next
  case (run_call log s c r d' h')
  then obtain es where es: "map_repr (headers (fst s)) es" "mem_live (snd s) = mem_live h0 + 1 + map_blocks es"
    "\<And>k. map_of es k = value_of (values_of k log)"
    and bad: "\<forall>(c, r) \<in> set log. r = HTTP_HEADERS_INVALID_ARG \<longleftrightarrow> \<not> header_name (cstr (call_name c))" by blast
  have "header_step c (fst s, snd s) = (r, Some d', h')" using run_call.hyps by simp
  from header_step_result [OF es(1) run_call.hyps(2,3) this es(3)] obtain fs
    where "map_repr (headers d') fs" "mem_live h' - map_blocks fs = mem_live (snd s) - map_blocks es"
      "\<forall>k. map_of fs k = value_of (values_of k (log @ [(c, r)]))"
      "r = HTTP_HEADERS_INVALID_ARG \<longleftrightarrow> \<not> header_name (cstr (call_name c))" by blast
  with es(2) bad show ?case by (intro exI [of _ fs]) simp
qed

text \<open>The names of a run are all accepted ones.\<close>

lemma values_accepted:
  assumes "\<forall>(c, r) \<in> set log. r = HTTP_HEADERS_INVALID_ARG \<longleftrightarrow> \<not> header_name (cstr (call_name c))"
    and "values_of k log \<noteq> []"
  shows "header_name k"
  using assms
proof (induction log rule: rev_induct)
  case (snoc c log)
  then show ?case using values_after_other [of c k "values_of k log"] by (fastforce simp: values_of_snoc)
qed (simp add: values_of_def)

section \<open>Properties\<close>

lemma find_header_value:
  assumes "map_repr (headers d) es"
  shows "map_option cstr (HTTPHeaders_FindHeaderValue (Some d) (Some k)) = map_of es (cstr k)"
  using found_value [OF assms, of k] by (auto simp: HTTPHeaders_FindHeaderValue_def split: option.splits)

lemma get_header_line:
  assumes "map_repr (headers d) es" and "i < length es"
    and "HTTPHeaders_GetHeader (Some d) i True h = (r, x, h')"
  shows "if granted h then r = HTTP_HEADERS_OK \<and> x = Some (fst (es ! i) @ '': '' @ snd (es ! i) @ [NUL]) \<and>
      mem_live h' = mem_live h + 1
    else r = HTTP_HEADERS_ERROR \<and> x = None \<and> mem_live h' = mem_live h"
proof -
  let ?k = "the (load_ptr (map_keys (headers d)) i)" and ?v = "the (load_ptr (map_values (headers d)) i)"
  have repr: "array_repr (map_keys (headers d)) (map fst es)" "array_repr (map_values (headers d)) (map snd es)"
    "map_count (headers d) = length es" using assms(1) by (auto simp: map_repr_def)
  have kv: "terminated ?v" "cstr ?k = fst (es ! i)" "cstr ?v = snd (es ! i)"
    using array_at(1) [OF repr(1), of i] array_at(1) [OF repr(2), of i] assms(2) by (auto simp: ptr_good_def ptr_str_def)
  have take: "take (strlen ?v + 1) ?v = cstr ?v @ [NUL]" using kv(1) by simp
  have put: "put (take (strlen ?v + 1) ?v) (put '' '' (put '':'' (put (take (strlen ?k) ?k)
      (0, fresh_block char_of_byte (strlen ?k + 2 + strlen ?v + 1) h)))) =
    (strlen ?k + 2 + strlen ?v + 1, cstr ?k @ '': '' @ cstr ?v @ [NUL])"
    unfolding take take_strlen using colon_space_block [of _ "cstr ?k" "cstr ?v"] by (simp add: strlen_def)
  show ?thesis
    using assms(2,3) repr(3) put kv
    by (cases "granted h")
      (auto simp: HTTPHeaders_GetHeader_def Map_GetInternals_def malloc_block_def after_request_def Let_def)
qed

text \<open>Two additions to one name, on an allocator that grants everything.\<close>

definition demo_header_state :: "HTTP_HEADERS_RESULT list \<times> HTTP_HEADERS_HANDLE_DATA \<times> heap" where
  "demo_header_state =
     (case HTTPHeaders_Alloc heap0 of (d0, h0) \<Rightarrow>
        (case header_step (AddHeader (c_lit ''a'') (c_lit '' 1'')) (the d0, h0) of (r1, d1, h1) \<Rightarrow>
           (case header_step (AddHeader (c_lit ''a'') (c_lit ''2'')) (the d1, h1) of (r2, d2, h2) \<Rightarrow>
              ([r1, r2], the d2, h2))))"

definition demo_log :: "(header_call \<times> HTTP_HEADERS_RESULT) list" where
  "demo_log = [(AddHeader (c_lit ''a'') (c_lit '' 1''), HTTP_HEADERS_OK),
     (AddHeader (c_lit ''a'') (c_lit ''2''), HTTP_HEADERS_OK)]"

lemma demo_headers_run: "headers_run heap0 demo_log (fst (snd demo_header_state), snd (snd demo_header_state))"
proof -
  have alloc: "fst (HTTPHeaders_Alloc heap0) \<noteq> None"
    by (simp add: HTTPHeaders_Alloc_def Map_Create_def malloc_struct_def granted_def after_request_def heap0_def)
  then obtain d0 h0 where r0: "HTTPHeaders_Alloc heap0 = (Some d0, h0)" by (metis eq_fst_iff option.exhaust)
  obtain r1 d1 h1 where r1: "header_step (AddHeader (c_lit ''a'') (c_lit '' 1'')) (d0, h0) = (r1, d1, h1)" by (metis prod_cases3)
  obtain r2 d2 h2 where r2: "header_step (AddHeader (c_lit ''a'') (c_lit ''2'')) (the d1, h1) = (r2, d2, h2)" by (metis prod_cases3)
  have ok: "fst demo_header_state = [HTTP_HEADERS_OK, HTTP_HEADERS_OK]" by code_simp
  have s: "demo_header_state = ([r1, r2], the d2, h2)" using r0 r1 r2 by (simp add: demo_header_state_def)
  have r: "r1 = HTTP_HEADERS_OK" "r2 = HTTP_HEADERS_OK" using ok [unfolded s] by simp_all
  have run0: "headers_run heap0 [] (d0, h0)" using r0 by (rule run_alloc)
  have some: "x \<noteq> None" if st: "header_step c (d, h) = (q, x, g)" "headers_run heap0 log (d, h)"
    "terminated (call_name c)" "terminated (call_value c)" for c d h q x g log
  proof -
    obtain es where es: "map_repr (headers d) es" using headers_run_result [OF st(2)] by auto
    show ?thesis
      using headers_replace_result [OF es st(3,4) st(1) [unfolded header_step_call]] by (auto simp: header_put_def)
  qed
  obtain e1 where e1: "d1 = Some e1" using some [OF r1 run0] by auto
  have run1: "headers_run heap0 [(AddHeader (c_lit ''a'') (c_lit '' 1''), HTTP_HEADERS_OK)] (e1, h1)"
    using run_call [OF run0 _ _ r1 [unfolded e1]] r by simp
  obtain e2 where e2: "d2 = Some e2" using some [OF r2 [unfolded e1 option.sel] run1] by auto
  show ?thesis
    using run_call [OF run1 _ _ r2 [unfolded e1 e2 option.sel]] r by (simp add: s e2 demo_log_def)
qed

text \<open>C29: The value of a header is the list of what was added: after any run of additions and
  replacements, with any allocation failures in between, a name has the values of its accepted
  additions since the last accepted replacement, in order, without leading white space and
  separated by a comma and a space; a call is refused as invalid exactly for a name with a
  character that is no header name character.\<close>

theorem header_values_joined:
  assumes "headers_run h0 log (d, h)"
  shows "map_option cstr (HTTPHeaders_FindHeaderValue (Some d) (Some k)) = value_of (values_of (cstr k) log) \<and>
    (\<forall>(c, r) \<in> set log. r = HTTP_HEADERS_INVALID_ARG \<longleftrightarrow> \<not> header_name (cstr (call_name c)))"
proof -
  obtain es where "map_repr (headers d) es" "\<And>k. map_of es k = value_of (values_of k log)"
    "\<forall>(c, r) \<in> set log. r = HTTP_HEADERS_INVALID_ARG \<longleftrightarrow> \<not> header_name (cstr (call_name c))"
    using headers_run_result [OF assms] by auto
  then show ?thesis using find_header_value [of d es k] by simp
qed

theorem header_values_joined_witness:
  "map_option cstr (HTTPHeaders_FindHeaderValue (Some (fst (snd demo_header_state))) (Some (c_lit ''a''))) = Some ''1, 2''"
  using header_values_joined [OF demo_headers_run,
      of "c_lit ''a''"]
  by (simp add: demo_log_def values_of_def value_of_def trimmed_def leading_space_def)

text \<open>A run of the headers leaks nothing: whatever was added, refused or not granted, freeing
  the headers gives back every block that the run allocated, and so does freeing a clone.\<close>

theorem headers_keep_memory:
  assumes "headers_run h0 log (d, h)"
  shows "mem_live (HTTPHeaders_Free (Some d) h) = mem_live h0 \<and>
    (case HTTPHeaders_Clone (Some d) h of
       (None, h1) \<Rightarrow> mem_live h1 = mem_live h
     | (Some d1, h1) \<Rightarrow> map_abs (headers d1) = map_abs (headers d) \<and>
         mem_live (HTTPHeaders_Free (Some d1) h1) = mem_live h)"
proof -
  obtain es where es: "map_repr (headers d) es" "mem_live h = mem_live h0 + 1 + map_blocks es"
    using headers_run_result [OF assms] by auto
  obtain c h1 where c: "Map_Clone (Some (headers d)) (after_request 1 h) = (c, h1)" by (metis surj_pair)
  note clone = Map_Clone_result [OF es(1) c]
  have free: "mem_live (HTTPHeaders_Free (Some e) g) = mem_live g - map_blocks es - 1" if "map_repr (headers e) es" for e g
    using Map_Destroy_live [OF that, of g] by (simp add: HTTPHeaders_Free_def free_struct_def)
  have abs: "map_abs m = map_abs (headers d)" if "map_repr m es" for m
    using map_invI [OF that] map_invI [OF es(1)] by simp
  have "case HTTPHeaders_Clone (Some d) h of
       (None, h1) \<Rightarrow> mem_live h1 = mem_live h
     | (Some d1, h1) \<Rightarrow> map_abs (headers d1) = map_abs (headers d) \<and>
         mem_live (HTTPHeaders_Free (Some d1) h1) = mem_live h"
  proof (cases "granted h")
    case True
    then have live: "mem_live (after_request 1 h) = mem_live h + 1" by (simp add: after_request_def)
    show ?thesis
    proof (cases c)
      case None
      then show ?thesis
        using True c clone live by (simp add: HTTPHeaders_Clone_def malloc_struct_def free_struct_def)
    next
      case (Some m)
      then have m: "map_repr m es" "mem_live h1 = mem_live h + 1 + map_blocks es" using clone live by simp_all
      show ?thesis
        using True c Some abs [OF m(1)] free [of "\<lparr>headers = m\<rparr>" h1] m by (simp add: HTTPHeaders_Clone_def malloc_struct_def)
    qed
  qed (simp add: HTTPHeaders_Clone_def malloc_struct_def after_request_def)
  then show ?thesis using free [OF es(1), of h] es(2) by simp
qed

theorem headers_keep_memory_witness:
  "mem_live (HTTPHeaders_Free (Some (fst (snd demo_header_state))) (snd (snd demo_header_state))) = 0"
  using headers_keep_memory [OF demo_headers_run]
  by (simp add: heap0_def)

text \<open>A header line can be read back: \<open>HTTPHeaders_GetHeader\<close> gives, for every index below the
  count, a line whose part before the first colon is a name and whose part after colon and
  space is the value of that name; it fails only when its block is not granted.\<close>

theorem header_line_readable:
  assumes "headers_run h0 log (d, h)" and "HTTPHeaders_GetHeaderCount (Some d) True = (HTTP_HEADERS_OK, Some n)"
    and "i < n"
  shows "case HTTPHeaders_GetHeader (Some d) i True g of
      (r, None, g') \<Rightarrow> r = HTTP_HEADERS_ERROR \<and> \<not> granted g \<and> mem_live g' = mem_live g
    | (r, Some line, g') \<Rightarrow> r = HTTP_HEADERS_OK \<and> mem_live g' = mem_live g + 1 \<and> terminated line \<and>
        (\<exists>v. map_option cstr (HTTPHeaders_FindHeaderValue (Some d) (Some (takeWhile (\<lambda>c. c \<noteq> CHR '':'') line @ [NUL]))) = Some v \<and>
           dropWhile (\<lambda>c. c \<noteq> CHR '':'') (cstr line) = '': '' @ v)"
proof -
  obtain es where es: "map_repr (headers d) es" "\<And>k. map_of es k = value_of (values_of k log)"
    and bad: "\<forall>(c, r) \<in> set log. r = HTTP_HEADERS_INVALID_ARG \<longleftrightarrow> \<not> header_name (cstr (call_name c))"
    using headers_run_result [OF assms(1)] by auto
  have i: "i < length es"
    using assms(2,3) es(1) by (auto simp: HTTPHeaders_GetHeaderCount_def Map_GetInternals_def map_repr_def)
  obtain k v where kv: "es ! i = (k, v)" by fastforce
  have "array_repr (map_keys (headers d)) (map fst es)" "array_repr (map_values (headers d)) (map snd es)"
    using es(1) by (auto simp: map_repr_def)
  from array_at(1) [OF this(1), of i] array_at(1) [OF this(2), of i] have strings: "c_string k" "c_string v"
    using i kv by (auto simp: ptr_good_def ptr_str_def)
  have lookup: "map_of es k = Some v" using es(1) i kv by (metis map_of_is_SomeI map_repr_def nth_mem)
  then have "header_name k" using values_accepted [OF bad, of k] es(2) [of k]
    by (auto simp: value_of_def split: if_splits)
  then have "\<forall>c \<in> set k. c \<noteq> CHR '':''" by (auto simp: header_name_def list_all_iff bad_name_char_def)
  then have split: "takeWhile (\<lambda>c. c \<noteq> CHR '':'') (k @ '': '' @ z) = k"
    "dropWhile (\<lambda>c. c \<noteq> CHR '':'') (k @ '': '' @ z) = '': '' @ z" for z
    by (simp_all add: takeWhile_append dropWhile_append)
  obtain r x g' where run: "HTTPHeaders_GetHeader (Some d) i True g = (r, x, g')" by (metis prod_cases3)
  have line_text: "cstr (k @ '': '' @ v @ [NUL]) = k @ '': '' @ v"
    using strings cstr_append_NUL [of "k @ '': '' @ v" "[]"] by simp
  show ?thesis
    using get_header_line [OF es(1) i run] run kv split line_text find_header_value [OF es(1), of "k @ [NUL]"] lookup strings(1)
    by (auto split: if_splits)
qed

theorem header_line_readable_witness:
  "case HTTPHeaders_GetHeader (Some (fst (snd demo_header_state))) 0 True heap0 of
     (r, None, g') \<Rightarrow> False | (r, Some line, g') \<Rightarrow> r = HTTP_HEADERS_OK \<and> mem_live g' = 1"
proof -
  have count: "HTTPHeaders_GetHeaderCount (Some (fst (snd demo_header_state))) True = (HTTP_HEADERS_OK, Some 1)"
    by code_simp
  show ?thesis
    using header_line_readable [OF demo_headers_run
        count, of 0 heap0]
    by (auto simp: heap0_def granted_def split: prod.splits option.splits)
qed

end
