(* ===== verification/Urlencode.thy ===== *)
theory Urlencode
  imports CStrings Utf8_Checker
begin

text \<open>
  The percent encoding of \<open>src/urlencode.c\<close>. Encoding takes a byte above \<open>0x7F\<close> for the Latin-1
  character and writes the two bytes of its UTF-8 form; decoding accepts only escapes of ASCII.
  The lemmas give both loops in closed form, with the exact number of cells they write.
\<close>

section \<open>The functions of the source\<close>

definition NIBBLE_TO_STRING :: "byte \<Rightarrow> char" where
  "NIBBLE_TO_STRING c = char_of_byte (if c < 10 then c + 0x30 else c - 10 + 0x61)"

definition char_range :: "char \<Rightarrow> char \<Rightarrow> char \<Rightarrow> bool" where
  "char_range lo hi c \<longleftrightarrow> (of_char lo :: nat) \<le> of_char c \<and> (of_char c :: nat) \<le> of_char hi"

definition ISDIGIT :: "char \<Rightarrow> bool" where
  "ISDIGIT c = char_range CHR ''0'' CHR ''9'' c"

definition TOUPPER :: "char \<Rightarrow> byte" where
  "TOUPPER c = (if char_range CHR ''a'' CHR ''z'' c then byte_of_char c - 0x61 + 0x41 else byte_of_char c)"

definition NIBBLE_FROM_STRING :: "char \<Rightarrow> byte" where
  "NIBBLE_FROM_STRING c = (if ISDIGIT c then byte_of_char c - 0x30 else TOUPPER c + 10 - 0x41)"

definition IS_HEXDIGIT :: "char \<Rightarrow> bool" where
  "IS_HEXDIGIT c \<longleftrightarrow> char_range CHR ''0'' CHR ''9'' c \<or> char_range CHR ''A'' CHR ''F'' c \<or> char_range CHR ''a'' CHR ''f'' c"

definition IS_PRINTABLE :: "char \<Rightarrow> bool" where
  "IS_PRINTABLE c \<longleftrightarrow> c = NUL \<or> c \<in> set ''!*()'' \<or> c = CHR 0x27 \<or> c \<in> set '';:@&=+$,/?#[]'' \<or>
     char_range CHR ''A'' CHR ''Z'' c \<or> char_range CHR ''a'' CHR ''z'' c \<or> char_range CHR ''0'' CHR ''9'' c \<or>
     c \<in> set ''-_.~'' \<or> c = CHR 0x22 \<or> c = CHR 0x5C"

definition IS_IN_ASCII_RANGE :: "char \<Rightarrow> bool" where
  "IS_IN_ASCII_RANGE c = char_range CHR ''0'' CHR ''7'' c"

text \<open>What the function stores, in the order of the buffer.\<close>

definition URL_PrintableChar :: "char \<Rightarrow> char list" where
  "URL_PrintableChar charVal =
     (if IS_PRINTABLE charVal then [charVal]
      else
        (let v = byte_of_char charVal;
             bigNibbleVal = drop_bit 4 v;
             littleNibbleVal = v AND 0x0F;
             bigNibbleVal = (if bigNibbleVal \<ge> 0x0C then bigNibbleVal - 0x04 else bigNibbleVal);
             bigNibbleStr = NIBBLE_TO_STRING bigNibbleVal;
             littleNibbleStr = NIBBLE_TO_STRING littleNibbleVal in
         if v < 0x80 then [CHR ''%'', bigNibbleStr, littleNibbleStr]
         else
           [CHR ''%'', CHR ''c'', if v < 0xC0 then CHR ''2'' else CHR ''3'', CHR ''%'', bigNibbleStr, littleNibbleStr]))"

definition URL_PrintableCharSize :: "char \<Rightarrow> nat" where
  "URL_PrintableCharSize charVal =
     (if IS_PRINTABLE charVal then 1 else if byte_of_char charVal < 0x80 then 3 else 6)"

text \<open>The two loops of the encoder run to the terminator, which they count and copy.\<close>

fun encode_size_loop :: "char list \<Rightarrow> nat \<Rightarrow> nat" where
  "encode_size_loop [] n = n"
| "encode_size_loop (c # cs) n =
     (let n1 = n + URL_PrintableCharSize c in if c = NUL then n1 else encode_size_loop cs n1)"

fun encode_loop :: "char list \<Rightarrow> nat \<times> char list \<Rightarrow> nat \<times> char list" where
  "encode_loop [] st = st"
| "encode_loop (c # cs) st =
     (let st1 = put (URL_PrintableChar c) st in if c = NUL then st1 else encode_loop cs st1)"

definition URL_Encode :: "STRING option \<Rightarrow> heap \<Rightarrow> STRING option \<times> heap" where
  "URL_Encode input h =
     (case STRING_c_str input of
        None \<Rightarrow> (None, h)
      | Some text \<Rightarrow>
          (case malloc_chars (encode_size_loop text 0) h of
             (None, h1) \<Rightarrow> (None, h1)
           | (Some encodedURL, h1) \<Rightarrow>
               (let (_, encoded) = encode_loop text (0, encodedURL);
                    (result, h2) = STRING_new_with_memory (Some encoded) h1 in
                (result, if result = None then c_free (Some encoded) h2 else h2))))"

definition URL_EncodeString :: "char list option \<Rightarrow> heap \<Rightarrow> STRING option \<times> heap" where
  "URL_EncodeString textEncode h =
     (case textEncode of
        None \<Rightarrow> (None, h)
      | Some t \<Rightarrow>
          (case STRING_construct (Some t) h of
             (None, h1) \<Rightarrow> (None, h1)
           | (Some tempString, h1) \<Rightarrow>
               (let (result, h2) = URL_Encode (Some tempString) h1 in
                (result, STRING_delete (Some tempString) h2))))"

text \<open>
  The loop of \<open>calculateDecodedStringSize\<close> at a position: the text from there, how much of it
  is left before the terminator, and the size so far. It gives the size and the text where
  it stopped.
\<close>

function decode_size_loop :: "char list \<Rightarrow> nat \<Rightarrow> nat \<Rightarrow> nat \<times> char list" where
  "decode_size_loop cs remaining_len decodedSize =
     (if remaining_len = 0 then (decodedSize, cs)
      else if cs ! 0 = CHR ''%'' then
        (if remaining_len < 3 \<or> \<not> IS_HEXDIGIT (cs ! 1) \<or> \<not> IS_HEXDIGIT (cs ! 2) then (decodedSize, cs)
         else if \<not> IS_IN_ASCII_RANGE (cs ! 1) then (decodedSize, cs)
         else decode_size_loop (drop 3 cs) (remaining_len - 3) (decodedSize + 1))
      else if \<not> IS_PRINTABLE (cs ! 0) then (decodedSize, cs)
      else decode_size_loop (drop 1 cs) (remaining_len - 1) (decodedSize + 1))"
  by pat_completeness auto

termination by (relation "measure (\<lambda>(cs, n, d). n)") auto

declare decode_size_loop.simps [simp del]

definition calculateDecodedStringSize :: "char list option \<Rightarrow> nat \<Rightarrow> nat" where
  "calculateDecodedStringSize encodedString len =
     (case encodedString of
        None \<Rightarrow> 0
      | Some s \<Rightarrow>
          (if len = 0 then 1
           else (let (decodedSize, rest) = decode_size_loop s len 0 in
                 if rest ! 0 \<noteq> NUL then 0 else decodedSize + 1)))"

definition charFromNibbles :: "char \<Rightarrow> char \<Rightarrow> char" where
  "charFromNibbles bigNibbleStr littleNibbleStr =
     char_of_byte (push_bit 4 (NIBBLE_FROM_STRING bigNibbleStr) OR NIBBLE_FROM_STRING littleNibbleStr)"

text \<open>The loop of \<open>createDecodedString\<close>: the text from a position and how many characters are
  left, the terminator included.\<close>

function create_decoded_loop :: "char list \<Rightarrow> nat \<Rightarrow> nat \<times> char list \<Rightarrow> nat \<times> char list" where
  "create_decoded_loop cs left st =
     (if left = 0 then st
      else if cs ! 0 \<noteq> CHR ''%'' then create_decoded_loop (drop 1 cs) (left - 1) (put [cs ! 0] st)
      else create_decoded_loop (drop 3 cs) (left - 3) (put [charFromNibbles (cs ! 1) (cs ! 2)] st))"
  by pat_completeness auto

termination by (relation "measure (\<lambda>(cs, n, d). n)") auto

declare create_decoded_loop.simps [simp del]

definition createDecodedString :: "char list \<Rightarrow> nat \<Rightarrow> char list \<Rightarrow> char list" where
  "createDecodedString input input_size output = snd (create_decoded_loop input (input_size + 1) (0, output))"

definition URL_Decode :: "STRING option \<Rightarrow> heap \<Rightarrow> STRING option \<times> heap" where
  "URL_Decode input h =
     (case STRING_c_str input of
        None \<Rightarrow> (None, h)
      | Some inputString \<Rightarrow>
          (let inputLen = strlen inputString;
               decodedStringSize = calculateDecodedStringSize (Some inputString) inputLen in
           if decodedStringSize = 0 then (None, h)
           else
             (case malloc_chars decodedStringSize h of
                (None, h1) \<Rightarrow> (None, h1)
              | (Some decodedString, h1) \<Rightarrow>
                  (let decoded = createDecodedString inputString inputLen decodedString;
                       (result, h2) = STRING_new_with_memory (Some decoded) h1 in
                   (result, if result = None then c_free (Some decoded) h2 else h2)))))"

definition URL_DecodeString :: "char list option \<Rightarrow> heap \<Rightarrow> STRING option \<times> heap" where
  "URL_DecodeString textDecode h =
     (case textDecode of
        None \<Rightarrow> (None, h)
      | Some t \<Rightarrow>
          (case STRING_construct (Some t) h of
             (None, h1) \<Rightarrow> (None, h1)
           | (Some tempString, h1) \<Rightarrow>
               (let (result, h2) = URL_Decode (Some tempString) h1 in
                (result, STRING_delete (Some tempString) h2))))"

section \<open>The encoder\<close>

lemma printable_size: "length (URL_PrintableChar c) = URL_PrintableCharSize c"
  by (simp add: URL_PrintableChar_def URL_PrintableCharSize_def Let_def)

lemma printable_NUL [simp]: "URL_PrintableChar NUL = [NUL]"
  by (simp add: URL_PrintableChar_def IS_PRINTABLE_def)

definition url_text :: "char list \<Rightarrow> char list" where
  "url_text s = concat (map URL_PrintableChar s)"

lemma encode_size_loop_eq:
  "terminated t \<Longrightarrow> encode_size_loop t n = n + length (url_text (cstr t)) + 1"
proof (induction t arbitrary: n)
  case (Cons c t)
  show ?case
  proof (cases "c = NUL")
    case True
    then show ?thesis by (simp add: url_text_def URL_PrintableCharSize_def IS_PRINTABLE_def)
  next
    case False
    then show ?thesis using Cons by (simp add: url_text_def printable_size Let_def)
  qed
qed simp

lemma encode_loop_eq:
  assumes "terminated t" and "fst st + length (url_text (cstr t)) + 1 \<le> length (snd st)"
  shows "encode_loop t st = put (url_text (cstr t) @ [NUL]) st"
  using assms
proof (induction t arbitrary: st)
  case (Cons c t)
  show ?case
  proof (cases "c = NUL")
    case True
    then show ?thesis by (simp add: url_text_def)
  next
    case False
    then have "encode_loop t (put (URL_PrintableChar c) st) = put (url_text (cstr t) @ [NUL]) (put (URL_PrintableChar c) st)"
      using Cons by (simp add: url_text_def)
    with False Cons.prems show ?thesis by (simp add: url_text_def put_append)
  qed
qed simp

text \<open>Nibbles: both halves of a byte are below 16, and what a nibble is written as.\<close>

lemma nibble_bounds: "unat (drop_bit 4 (v :: byte)) < 16" "unat (v AND 0x0F) < 16"
proof -
  have "unat v < 256" using unsigned_less [of v, where 'a = nat] by simp
  then show "unat (drop_bit 4 v) < 16" by (simp add: drop_bit_eq_div unat_div)
  show "unat (v AND 0x0F) < 16" using unat_and_le [of v "0x0F"] by simp
qed

lemma nibble_written:
  assumes "unat v < 16"
  shows "NIBBLE_TO_STRING v \<noteq> NUL \<and> IS_HEXDIGIT (NIBBLE_TO_STRING v) \<and> NIBBLE_FROM_STRING (NIBBLE_TO_STRING v) = v \<and>
    (unat v < 8 \<longrightarrow> IS_IN_ASCII_RANGE (NIBBLE_TO_STRING v))"
  using _ assms by (rule byte_cases_below) code_simp

lemma char_NUL_free: "c \<noteq> NUL \<Longrightarrow> c_string (URL_PrintableChar c)"
proof -
  have hi: "unat (if drop_bit 4 v \<ge> 0x0C then drop_bit 4 v - 0x04 else drop_bit 4 v) < 16" for v :: byte
    using nibble_bounds(1) [of v] by (auto simp: unat_sub word_le_nat_alt)
  show "c \<noteq> NUL \<Longrightarrow> c_string (URL_PrintableChar c)"
    using nibble_written [OF hi [of "byte_of_char c"]] nibble_written [OF nibble_bounds(2) [of "byte_of_char c"]]
    by (simp add: URL_PrintableChar_def Let_def)
qed

lemma url_text_c_string: "c_string s \<Longrightarrow> c_string (url_text s)"
  by (induction s) (simp_all add: url_text_def char_NUL_free)

section \<open>What the encoder spells\<close>

text \<open>Reading a text with percent escapes: each escape is a byte, every other character its own.\<close>

fun percent_bytes :: "char list \<Rightarrow> byte list option" where
  "percent_bytes [] = Some []"
| "percent_bytes (c # cs) =
     (if c = CHR ''%'' then
        (case cs of
           a # b # r \<Rightarrow>
             (if IS_HEXDIGIT a \<and> IS_HEXDIGIT b
              then map_option (Cons (push_bit 4 (NIBBLE_FROM_STRING a) OR NIBBLE_FROM_STRING b)) (percent_bytes r)
              else None)
         | _ \<Rightarrow> None)
      else map_option (Cons (byte_of_char c)) (percent_bytes cs))"

abbreviation latin1 :: "char \<Rightarrow> 32 word" where
  "latin1 c \<equiv> ucast (byte_of_char c)"

lemma printable_ascii: "IS_PRINTABLE c \<Longrightarrow> (of_char c :: nat) < 128 \<and> c \<noteq> CHR ''%''"
  by (auto simp: IS_PRINTABLE_def char_range_def)

lemma byte_less_char: "(byte_of_char c < word_of_nat n) = ((of_char c :: nat) < n)" if "n < 256"
  using that of_char_less_256 [of c] by (simp add: byte_of_char_def word_less_nat_alt unat_of_nat)

lemma nibble_halves: "push_bit 4 (drop_bit 4 v) OR (v AND 0x0F) = (v :: byte)"
  by (rule byte_eqI) (auto simp: bit_simps)

lemma nibble_order:
  fixes v :: byte
  assumes "unat v < 16"
  shows "(0x0C \<le> v) = (bit v 3 \<and> bit v 2) \<and> (bit v 3 \<longleftrightarrow> 8 \<le> unat v) \<and>
    (0x0C \<le> v \<longrightarrow> v - 0x04 = v AND NOT 0x04)"
  using _ assms by (rule byte_cases_below) code_simp

lemma high_byte_order:
  fixes v :: byte
  shows "v < 0xC0 \<longleftrightarrow> \<not> 0x0C \<le> drop_bit 4 v" and "v < 0x80 \<longleftrightarrow> unat (drop_bit 4 v) < 8"
  by (simp_all add: word_less_nat_alt word_le_nat_alt drop_bit_eq_div unat_div) arith+

lemma second_byte:
  fixes v :: byte
  assumes "\<not> v < 0x80"
  shows "push_bit 4 (if drop_bit 4 v \<ge> 0x0C then drop_bit 4 v - 0x04 else drop_bit 4 v) OR (v AND 0x0F)
    = 0x80 OR (v AND 0x3F)"
    and "(if v < 0xC0 then 0xC2 else 0xC3) = 0xC0 OR drop_bit 6 v"
proof -
  note o = nibble_order [OF nibble_bounds(1) [of v]]
  have b: "bit v 7" using assms high_byte_order(2) [of v] o by (simp add: bit_simps)
  have c: "0x0C \<le> drop_bit 4 v \<longleftrightarrow> bit v 6" using o b by (simp add: bit_simps)
  show "push_bit 4 (if drop_bit 4 v \<ge> 0x0C then drop_bit 4 v - 0x04 else drop_bit 4 v) OR (v AND 0x0F)
    = 0x80 OR (v AND 0x3F)"
    using o b c by (intro byte_eqI) (auto simp: bit_simps simp del: drop_bit_numeral_bit0)
  show "(if v < 0xC0 then 0xC2 else 0xC3) = 0xC0 OR drop_bit 6 v"
    using high_byte_order(1) [of v] b c by (intro byte_eqI) (auto simp: bit_simps)
qed

lemma lead_digits:
  "IS_HEXDIGIT CHR ''c'' \<and> IS_HEXDIGIT CHR ''2'' \<and> IS_HEXDIGIT CHR ''3'' \<and>
   push_bit 4 (NIBBLE_FROM_STRING CHR ''c'') OR NIBBLE_FROM_STRING CHR ''2'' = 0xC2 \<and>
   push_bit 4 (NIBBLE_FROM_STRING CHR ''c'') OR NIBBLE_FROM_STRING CHR ''3'' = 0xC3"
  by code_simp

lemma latin1_encoding:
  "utf8_encode (latin1 c) =
     (let v = byte_of_char c in if v < 0x80 then [v] else [if v < 0xC0 then 0xC2 else 0xC3, 0x80 OR (v AND 0x3F)])"
proof -
  let ?v = "byte_of_char c"
  have small: "unat ?v < 256" using unsigned_less [of ?v, where 'a = nat] by simp
  have lt: "(latin1 c < word_of_nat n) = (?v < word_of_nat n)" if "n < 256" for n
    using that small by (simp add: word_less_nat_alt unat_of_nat unsigned_ucast_eq take_bit_eq_mod)
  have two: "latin1 c < 0x800" using small by (simp add: word_less_nat_alt unsigned_ucast_eq take_bit_eq_mod)
  have lt80: "latin1 c < 0x80 \<longleftrightarrow> ?v < 0x80" using lt [of 128] by simp
  have narrow: "ucast (latin1 c) = ?v" "ucast (drop_bit 6 (latin1 c)) = drop_bit 6 ?v"
    by (rule byte_eqI; simp add: bit_simps)+
  show ?thesis
    using second_byte(2) [of ?v] lt80 two narrow by (auto simp: utf8_encode_def Let_def)
qed

lemma percent_bytes_char:
  "percent_bytes (URL_PrintableChar c @ r) = map_option (append (utf8_encode (latin1 c))) (percent_bytes r)"
proof (cases "IS_PRINTABLE c")
  case True
  then have "c \<noteq> CHR ''%''" "byte_of_char c < 0x80"
    using printable_ascii [OF True] byte_less_char [of 128 c] by simp_all
  with True show ?thesis by (cases "percent_bytes r") (simp_all add: URL_PrintableChar_def latin1_encoding)
next
  case False
  let ?v = "byte_of_char c"
  let ?hi = "if drop_bit 4 ?v \<ge> 0x0C then drop_bit 4 ?v - 0x04 else drop_bit 4 ?v"
  have hi: "unat ?hi < 16" using nibble_bounds(1) [of ?v] by (auto simp: unat_sub word_le_nat_alt)
  note digits = nibble_written [OF hi] nibble_written [OF nibble_bounds(2) [of ?v]]
  show ?thesis
  proof (cases "?v < 0x80")
    case True
    then have "unat (drop_bit 4 ?v) < 8" by (simp only: high_byte_order)
    then have h: "?hi = drop_bit 4 ?v" by (simp add: word_le_nat_alt)
    show ?thesis
      using False True digits nibble_halves [of ?v] unfolding h
      by (cases "percent_bytes r") (simp_all add: URL_PrintableChar_def Let_def h latin1_encoding)
  next
    case big: False
    show ?thesis
      using False big digits lead_digits second_byte(1) [OF big]
      by (cases "percent_bytes r") (simp_all add: URL_PrintableChar_def Let_def latin1_encoding)
  qed
qed

lemma percent_bytes_text: "percent_bytes (url_text s) = Some (concat (map (\<lambda>c. utf8_encode (latin1 c)) s))"
  by (induction s) (simp_all add: url_text_def percent_bytes_char)

lemma url_text_chars: "c \<in> set (url_text s) \<Longrightarrow> c = CHR ''%'' \<or> IS_PRINTABLE c"
proof -
  have hex: "IS_HEXDIGIT c \<Longrightarrow> IS_PRINTABLE c" for c
    by (auto simp: IS_HEXDIGIT_def IS_PRINTABLE_def char_range_def)
  have one: "c \<in> set (URL_PrintableChar d) \<Longrightarrow> c = CHR ''%'' \<or> IS_PRINTABLE c" for c d
  proof -
    let ?v = "byte_of_char d"
    have hi: "unat (if drop_bit 4 ?v \<ge> 0x0C then drop_bit 4 ?v - 0x04 else drop_bit 4 ?v) < 16"
      using nibble_bounds(1) [of ?v] by (auto simp: unat_sub word_le_nat_alt)
    show "c \<in> set (URL_PrintableChar d) \<Longrightarrow> c = CHR ''%'' \<or> IS_PRINTABLE c"
      using hex nibble_written [OF hi] nibble_written [OF nibble_bounds(2) [of ?v]] lead_digits
      by (auto simp: URL_PrintableChar_def Let_def split: if_splits)
  qed
  show "c \<in> set (url_text s) \<Longrightarrow> c = CHR ''%'' \<or> IS_PRINTABLE c" using one by (auto simp: url_text_def)
qed

lemma URL_Encode_result:
  assumes "str_inv x" and "URL_Encode (Some x) h = (res, h')"
  shows "case res of
      None \<Rightarrow> mem_live h' = mem_live h \<and> \<not> (granted h \<and> granted (after_request 1 h))
    | Some y \<Rightarrow> str_s y = url_text (str_val x) @ [NUL] \<and> mem_live h' = mem_live h + 2"
proof -
  let ?t = "str_s x" and ?n = "length (url_text (str_val x)) + 1"
  have t: "terminated ?t" using assms(1) by (simp add: str_inv_def)
  have "encode_size_loop ?t 0 = ?n" using encode_size_loop_eq [OF t] by (simp add: str_val_def)
  moreover have "encode_loop ?t (0, b) = (?n, url_text (str_val x) @ [NUL])" if "length b = ?n" for b
    using encode_loop_eq [OF t, of "(0, b)"] that by (simp add: str_val_def put_whole)
  ultimately show ?thesis
    using assms(2)
    by (auto simp: URL_Encode_def STRING_c_str_def STRING_new_with_memory_def malloc_chars_def malloc_block_def
        malloc_struct_def c_free_def after_request_def Let_def split: if_splits)
qed

section \<open>The decoder\<close>

text \<open>The texts that are decoded, and what they stand for.\<close>

fun url_decode :: "char list \<Rightarrow> char list option" where
  "url_decode [] = Some []"
| "url_decode (c # cs) =
     (if c = CHR ''%'' then
        (case cs of
           a # b # r \<Rightarrow>
             (if IS_HEXDIGIT a \<and> IS_HEXDIGIT b \<and> IS_IN_ASCII_RANGE a
              then map_option (Cons (charFromNibbles a b)) (url_decode r) else None)
         | _ \<Rightarrow> None)
      else if IS_PRINTABLE c then map_option (Cons c) (url_decode cs) else None)"

text \<open>A character of an escape is no terminator, so the checks stop at the end of the text.\<close>

lemma hexdigit_not_NUL: "IS_HEXDIGIT c \<Longrightarrow> c \<noteq> NUL"
  by (auto simp: IS_HEXDIGIT_def char_range_def)

lemma decode_size_loop_eq:
  "c_string s \<Longrightarrow> (case url_decode s of
      Some r \<Rightarrow> decode_size_loop (s @ NUL # z) (length s) n = (n + length r, NUL # z)
    | None \<Rightarrow> snd (decode_size_loop (s @ NUL # z) (length s) n) ! 0 \<noteq> NUL)"
proof (induction s arbitrary: n rule: url_decode.induct)
  case 1
  then show ?case by (simp add: decode_size_loop.simps)
next
  case (2 c cs)
  show ?case
  proof (cases "c = CHR ''%''")
    case True
    show ?thesis
    proof (cases "\<exists>a b r. cs = a # b # r \<and> IS_HEXDIGIT a \<and> IS_HEXDIGIT b \<and> IS_IN_ASCII_RANGE a")
      case True
      then obtain a b r where cs: "cs = a # b # r" "IS_HEXDIGIT a" "IS_HEXDIGIT b" "IS_IN_ASCII_RANGE a" by blast
      have "c_string r" using 2(3) cs(1) by simp
      from 2(1) [OF \<open>c = CHR ''%''\<close> cs(1) refl _ this, of "n + 1"] cs \<open>c = CHR ''%''\<close> show ?thesis
        by (auto simp: decode_size_loop.simps [of "CHR ''%'' # a # b # r @ NUL # z"] split: option.splits)
    next
      case False
      have none: "url_decode (c # cs) = None"
        using False \<open>c = CHR ''%''\<close> by (auto split: list.splits)
      have "decode_size_loop ((c # cs) @ NUL # z) (length (c # cs)) n = (n, (c # cs) @ NUL # z)"
        using False \<open>c = CHR ''%''\<close>
        by (cases cs rule: remdups_adj.cases) (auto simp: decode_size_loop.simps [of "CHR ''%'' # _"])
      then show ?thesis using none 2(3) by simp
    qed
  next
    case False
    show ?thesis
    proof (cases "IS_PRINTABLE c")
      case True
      have "c_string cs" using 2(3) by simp
      from 2(2) [OF False True this, of "n + 1"] False True show ?thesis
        by (auto simp: decode_size_loop.simps [of "c # cs @ NUL # z"] split: option.splits)
    next
      case np: False
      then show ?thesis using False 2(3) by (simp add: decode_size_loop.simps [of "c # cs @ NUL # z"])
    qed
  qed
qed

lemma create_decoded_loop_eq:
  "url_decode s = Some r \<Longrightarrow> fst st + length r + 1 \<le> length (snd st) \<Longrightarrow>
     create_decoded_loop (s @ NUL # z) (length s + 1) st = put (r @ [NUL]) st"
proof (induction s arbitrary: r st rule: url_decode.induct)
  case 1
  then show ?case by (simp add: create_decoded_loop.simps [of "NUL # z"] create_decoded_loop.simps [of z])
next
  case (2 c cs)
  show ?case
  proof (cases "c = CHR ''%''")
    case True
    then obtain a b q t where cs: "cs = a # b # q" "IS_HEXDIGIT a \<and> IS_HEXDIGIT b \<and> IS_IN_ASCII_RANGE a"
      "url_decode q = Some t" "r = charFromNibbles a b # t"
      using 2(3) by (auto split: list.splits if_splits)
    have "create_decoded_loop (q @ NUL # z) (length q + 1) (put [charFromNibbles a b] st)
        = put (t @ [NUL]) (put [charFromNibbles a b] st)"
      using 2(1) [OF True cs(1) refl cs(2,3), of "put [charFromNibbles a b] st"] 2(4) cs(4) by simp
    also have "\<dots> = put (r @ [NUL]) st" using 2(4) cs(4) by (simp add: put_append)
    finally show ?thesis using True cs(1) by (simp add: create_decoded_loop.simps [of "CHR ''%'' # a # b # q @ NUL # z"])
  next
    case False
    then obtain t where t: "IS_PRINTABLE c" "url_decode cs = Some t" "r = c # t"
      using 2(3) by (auto split: if_splits)
    have "create_decoded_loop (cs @ NUL # z) (length cs + 1) (put [c] st) = put (t @ [NUL]) (put [c] st)"
      using 2(2) [OF False t(1,2), of "put [c] st"] 2(4) t(3) by simp
    also have "\<dots> = put (r @ [NUL]) st" using 2(4) t(3) by (simp add: put_append)
    finally show ?thesis using False by (simp add: create_decoded_loop.simps [of "c # cs @ NUL # z"])
  qed
qed

lemma URL_Decode_result:
  assumes "str_inv x" and "URL_Decode (Some x) h = (res, h')"
  shows "case res of
      None \<Rightarrow> mem_live h' = mem_live h \<and>
        (url_decode (str_val x) = None \<or> \<not> (granted h \<and> granted (after_request 1 h)))
    | Some y \<Rightarrow> mem_live h' = mem_live h + 2 \<and> map_option (\<lambda>r. r @ [NUL]) (url_decode (str_val x)) = Some (str_s y)"
proof -
  let ?t = "str_s x" and ?s = "str_val x"
  obtain z where z: "?t = ?s @ NUL # z"
    using assms(1) terminated_split [of ?t] by (auto simp: str_inv_def str_val_def)
  have s: "c_string ?s" by (simp add: str_val_def)
  note size = decode_size_loop_eq [OF s, of z 0]
  have len: "strlen ?t = length ?s" by (simp add: str_val_def strlen_def)
  have calc: "calculateDecodedStringSize (Some ?t) (strlen ?t)
      = (case url_decode ?s of None \<Rightarrow> 0 | Some r \<Rightarrow> length r + 1)"
  proof (cases "?s = []")
    case True
    then show ?thesis using len by (simp add: calculateDecodedStringSize_def)
  next
    case False
    then show ?thesis
      using size len z by (simp add: calculateDecodedStringSize_def case_prod_beta split: option.splits)
  qed
  show ?thesis
  proof (cases "url_decode ?s")
    case None
    then show ?thesis using assms(2) calc by (simp add: URL_Decode_def STRING_c_str_def)
  next
    case (Some r)
    have "createDecodedString ?t (strlen ?t) b = r @ [NUL]" if "length b = length r + 1" for b
      using create_decoded_loop_eq [OF Some, of "(0, b)" z] that z len
      by (simp add: createDecodedString_def put_whole)
    then show ?thesis
      using assms(2) calc Some
      by (auto simp: URL_Decode_def STRING_c_str_def STRING_new_with_memory_def malloc_chars_def malloc_block_def
          malloc_struct_def c_free_def after_request_def Let_def split: if_splits)
  qed
qed

section \<open>Properties\<close>

lemma url_decode_char:
  assumes "(of_char c :: nat) < 128"
  shows "url_decode (URL_PrintableChar c @ r) = map_option (Cons c) (url_decode r)"
proof (cases "IS_PRINTABLE c")
  case True
  then show ?thesis using printable_ascii [OF True] by (simp add: URL_PrintableChar_def)
next
  case False
  let ?v = "byte_of_char c"
  have low: "?v < 0x80" using byte_less_char [of 128 c] assms by simp
  then have hi: "unat (drop_bit 4 ?v) < 8" by (simp only: high_byte_order)
  then have h: "\<not> 0x0C \<le> drop_bit 4 ?v" by (simp add: word_le_nat_alt)
  note digits = nibble_written [OF nibble_bounds(1) [of ?v]] nibble_written [OF nibble_bounds(2) [of ?v]]
  have "charFromNibbles (NIBBLE_TO_STRING (drop_bit 4 ?v)) (NIBBLE_TO_STRING (?v AND 0x0F)) = c"
    using digits nibble_halves [of ?v] by (simp only: charFromNibbles_def) simp
  with False low hi h digits show ?thesis by (simp add: URL_PrintableChar_def Let_def del: drop_bit_numeral_bit0)
qed

lemma url_decode_text: "list_all (\<lambda>c. (of_char c :: nat) < 128) s \<Longrightarrow> url_decode (url_text s) = Some s"
  by (induction s) (simp_all add: url_text_def url_decode_char)

text \<open>\<open>URL_Encode\<close> writes exactly the block it asked for, and what it writes is text in the
  characters that may stand in a URL and percent escapes, which spell the UTF-8 encoding of the
  input read as Latin-1: reading the escapes gives bytes that the UTF-8 checker accepts. It fails
  only when a block is refused, and then leaks nothing.\<close>

theorem url_encode_spells_utf8:
  assumes "str_inv x" and "URL_Encode (Some x) h = (res, h')"
  shows "case res of
      None \<Rightarrow> mem_live h' = mem_live h \<and> \<not> (granted h \<and> granted (after_request 1 h))
    | Some y \<Rightarrow> mem_live h' = mem_live h + 2 \<and> length (str_s y) = encode_size_loop (str_s x) 0 \<and>
        (\<forall>c \<in> set (str_val y). c = CHR ''%'' \<or> IS_PRINTABLE c) \<and>
        (\<exists>bs. percent_bytes (str_val y) = Some bs \<and> bs = concat (map (\<lambda>c. utf8_encode (latin1 c)) (str_val x)) \<and>
           utf8_checker_is_valid_utf8 (Some bs) (length bs))"
proof (cases res)
  case None
  then show ?thesis using URL_Encode_result [OF assms] by simp
next
  case (Some y)
  let ?t = "url_text (str_val x)" and ?bs = "concat (map (\<lambda>c. utf8_encode (latin1 c)) (str_val x))"
  have y: "str_s y = ?t @ [NUL]" "mem_live h' = mem_live h + 2"
    using URL_Encode_result [OF assms] Some by simp_all
  have v: "str_val y = ?t" using url_text_c_string [of "str_val x"] y(1) by (simp add: str_val_def)
  have "latin1 c < 0x200000" for c
    using unsigned_less [of "byte_of_char c", where 'a = nat]
    by (simp add: word_less_nat_alt unsigned_ucast_eq take_bit_eq_mod)
  then have "set (map latin1 (str_val x)) \<subseteq> {cp. cp < 0x200000}" by auto
  moreover have "take (length ?bs) ?bs = concat (map utf8_encode (map latin1 (str_val x)))" by (simp add: comp_def)
  ultimately have "utf8_checker_is_valid_utf8 (Some ?bs) (length ?bs)"
    unfolding utf8_checker_is_valid_utf8_def utf8_loop_exact option.case by blast
  then show ?thesis
    using y v Some url_text_chars percent_bytes_text encode_size_loop_eq [of "str_s x" 0] assms(1)
    by (simp add: str_inv_def str_val_def)
qed

theorem url_encode_spells_utf8_witness:
  "case fst (URL_Encode (Some \<lparr>str_s = ''a b'' @ [CHR 0xE9, NUL]\<rparr>) heap0) of
     None \<Rightarrow> False | Some y \<Rightarrow> percent_bytes (str_val y) = Some [0x61, 0x20, 0x62, 0xC3, 0xA9]"
proof -
  let ?x = "\<lparr>str_s = ''a b'' @ [CHR 0xE9, NUL]\<rparr>"
  obtain res h' where run: "URL_Encode (Some ?x) heap0 = (res, h')" by (metis surj_pair)
  have "concat (map (\<lambda>c. utf8_encode (latin1 c)) (str_val ?x)) = [0x61, 0x20, 0x62, 0xC3, 0xA9]" by code_simp
  then show ?thesis
    using url_encode_spells_utf8 [OF _ run] run
    by (auto simp: str_inv_def heap0_def granted_def after_request_def split: option.splits)
qed

text \<open>\<open>URL_Decode\<close> accepts exactly the texts of URL characters and escapes of ASCII characters:
  it fails when the text is no such text or a block is refused, without leaking; otherwise its
  block holds the decoded text and the terminator and nothing else.\<close>

theorem url_decode_exact:
  assumes "str_inv x" and "URL_Decode (Some x) h = (res, h')"
  shows "case res of
      None \<Rightarrow> mem_live h' = mem_live h \<and>
        (url_decode (str_val x) = None \<or> \<not> (granted h \<and> granted (after_request 1 h)))
    | Some y \<Rightarrow> mem_live h' = mem_live h + 2 \<and> map_option (\<lambda>r. r @ [NUL]) (url_decode (str_val x)) = Some (str_s y)"
  by (rule URL_Decode_result [OF assms])

theorem url_decode_exact_witness:
  "fst (URL_Decode (Some \<lparr>str_s = ''a%20b%7'' @ [NUL]\<rparr>) heap0) = None \<and>
   map_option str_s (fst (URL_Decode (Some \<lparr>str_s = ''a%20b'' @ [NUL]\<rparr>) heap0)) = Some (''a b'' @ [NUL])"
proof -
  have inv: "str_inv \<lparr>str_s = s @ [NUL]\<rparr>" for s by (simp add: str_inv_def)
  have texts: "url_decode (str_val \<lparr>str_s = ''a%20b%7'' @ [NUL]\<rparr>) = None"
    "url_decode (str_val \<lparr>str_s = ''a%20b'' @ [NUL]\<rparr>) = Some ''a b''" by code_simp+
  have g: "granted heap0" "granted (after_request 1 heap0)" by (simp_all add: heap0_def granted_def after_request_def)
  obtain r1 h1 where 1: "URL_Decode (Some \<lparr>str_s = ''a%20b%7'' @ [NUL]\<rparr>) heap0 = (r1, h1)" by (metis surj_pair)
  obtain r2 h2 where 2: "URL_Decode (Some \<lparr>str_s = ''a%20b'' @ [NUL]\<rparr>) heap0 = (r2, h2)" by (metis surj_pair)
  show ?thesis
    using url_decode_exact [OF inv 1] url_decode_exact [OF inv 2] texts g 1 2
    by (cases r1; cases r2) (simp_all del: append.simps)
qed

text \<open>C31: Decoding undoes encoding on ASCII: when every request is granted, a string of ASCII
  characters is encoded, the result is decoded, and the string that comes back has the value of
  the first; the two results are the only blocks that stay allocated.\<close>

theorem url_roundtrip:
  assumes "str_inv x" and "\<forall>n. mem_ok h n" and "list_all (\<lambda>c. (of_char c :: nat) < 128) (str_val x)"
  shows "\<exists>y z h1 h2. URL_Encode (Some x) h = (Some y, h1) \<and> URL_Decode (Some y) h1 = (Some z, h2) \<and>
    str_val z = str_val x \<and> mem_live h2 = mem_live h + 4"
proof -
  have g: "granted g" if "\<forall>n. mem_ok g n" for g using that by (simp add: granted_def)
  obtain res h1 where enc: "URL_Encode (Some x) h = (res, h1)" by (metis surj_pair)
  have ok: "\<forall>n. mem_ok (after_request 1 h) n" using assms(2) by (simp add: after_request_def)
  obtain y where y: "res = Some y" "str_s y = url_text (str_val x) @ [NUL]" "mem_live h1 = mem_live h + 2"
    using URL_Encode_result [OF assms(1) enc] g [OF assms(2)] g [OF ok] by (cases res) auto
  have v: "str_inv y" "str_val y = url_text (str_val x)"
    using url_text_c_string [of "str_val x"] y(2) by (simp_all add: str_inv_def str_val_def)
  have ok1: "\<forall>n. mem_ok h1 n"
    using enc assms(2)
    by (auto simp: URL_Encode_def STRING_new_with_memory_def malloc_chars_def malloc_block_def malloc_struct_def
        c_free_def after_request_def Let_def split: option.splits if_splits prod.splits)
  then have ok2: "\<forall>n. mem_ok (after_request 1 h1) n" by (simp add: after_request_def)
  obtain res2 h2 where dec: "URL_Decode (Some y) h1 = (res2, h2)" by (metis surj_pair)
  have "url_decode (str_val y) = Some (str_val x)" using url_decode_text [OF assms(3)] v(2) by simp
  then obtain z where z: "res2 = Some z" "str_s z = str_val x @ [NUL]" "mem_live h2 = mem_live h1 + 2"
    using URL_Decode_result [OF v(1) dec] g [OF ok1] g [OF ok2] by (cases res2) auto
  have "str_val z = str_val x" using z(2) cstr_append_NUL [of "str_val x" "[]"] by (simp add: str_val_def)
  then show ?thesis using enc dec y z by auto
qed

theorem url_roundtrip_witness:
  "\<exists>y z h1 h2. URL_Encode (Some \<lparr>str_s = ''a b%c'' @ [NUL]\<rparr>) heap0 = (Some y, h1) \<and>
     URL_Decode (Some y) h1 = (Some z, h2) \<and> str_val z = ''a b%c''"
  using url_roundtrip [of "\<lparr>str_s = ''a b%c'' @ [NUL]\<rparr>" heap0]
  by (fastforce simp: str_inv_def str_val_def heap0_def)

end
