(* ===== verification/Uuid.thy ===== *)
theory Uuid
  imports Prelude
begin

text \<open>
  The UUIDs of \<open>src/uuid.c\<close>: sixteen bytes, and their text form of RFC 4122. What
  \<open>UniqueId_Generate\<close> of the platform writes into the buffer it is given is an argument.
\<close>

section \<open>The functions of the source\<close>

definition UUID_STRING_LENGTH :: nat where
  "UUID_STRING_LENGTH = 36"

text \<open>The macro \<open>HEXA_DIGIT_VAL\<close>; its \<open>-1\<close> is \<open>None\<close>.\<close>

definition HEXA_DIGIT_VAL :: "char \<Rightarrow> nat option" where
  "HEXA_DIGIT_VAL c =
     (let n = of_char c in
      if 48 \<le> n \<and> n \<le> 57 then Some (n - 48)
      else if 97 \<le> n \<and> n \<le> 102 then Some (n - 97 + 10)
      else if 65 \<le> n \<and> n \<le> 70 then Some (n - 65 + 10) else None)"

definition must_be_dash :: "nat \<Rightarrow> bool" where
  "must_be_dash i \<longleftrightarrow> i = 8 \<or> i = 13 \<or> i = 18 \<or> i = 23"

function uuid_loop :: "char list \<Rightarrow> nat \<Rightarrow> nat \<Rightarrow> nat \<Rightarrow> byte list \<Rightarrow> rc \<times> byte list" where
  "uuid_loop s n i j uuid_bytes =
     (if i < n then
        (if (s ! i = CHR ''-'') \<noteq> must_be_dash i then (Failure, uuid_bytes)
         else if s ! i = CHR ''-'' then uuid_loop s n (i + 1) j uuid_bytes
         else
           (case (HEXA_DIGIT_VAL (s ! i), HEXA_DIGIT_VAL (s ! (i + 1))) of
              (Some higherOrderDigit, Some lowerOrderDigit) \<Rightarrow>
                uuid_loop s n (i + 2) (j + 1) (uuid_bytes[j := of_nat (higherOrderDigit * 16 + lowerOrderDigit)])
            | _ \<Rightarrow> (Failure, uuid_bytes)))
      else (Success, uuid_bytes))"
  by pat_completeness auto

termination by (relation "measure (\<lambda>(s, n, i, j, b). n - i)") auto

declare uuid_loop.simps [simp del]

definition UUID_from_string :: "char list option \<Rightarrow> byte list option \<Rightarrow> rc \<times> byte list option" where
  "UUID_from_string uuid_string uuid =
     (case (uuid_string, uuid) of
        (Some s, Some b) \<Rightarrow>
          (if strlen s \<noteq> UUID_STRING_LENGTH then (Failure, uuid)
           else (let (result, b1) = uuid_loop s (strlen s) 0 0 b in (result, Some b1)))
      | _ \<Rightarrow> (Failure, uuid))"

text \<open>\<open>sprintf\<close> with two lower case hexadecimal digits per byte and the dashes of the format.\<close>

definition hex_digit :: "nat \<Rightarrow> char" where
  "hex_digit n = char_of (if n < 10 then 48 + n else 87 + n)"

definition hex_byte :: "byte \<Rightarrow> char list" where
  "hex_byte b = [hex_digit (unat b div 16), hex_digit (unat b mod 16)]"

definition uuid_format :: "byte list \<Rightarrow> char list" where
  "uuid_format b =
     concat (map hex_byte (take 4 b)) @ ''-'' @ concat (map hex_byte (take 2 (drop 4 b))) @ ''-'' @
     concat (map hex_byte (take 2 (drop 6 b))) @ ''-'' @ concat (map hex_byte (take 2 (drop 8 b))) @ ''-'' @
     concat (map hex_byte (take 6 (drop 10 b)))"

definition UUID_to_string :: "byte list option \<Rightarrow> heap \<Rightarrow> char list option \<times> heap" where
  "UUID_to_string uuid h =
     (case uuid of
        None \<Rightarrow> (None, h)
      | Some b \<Rightarrow>
          (case malloc_block char_of_byte (UUID_STRING_LENGTH + 1) h of
             (None, h1) \<Rightarrow> (None, h1)
           | (Some result, h1) \<Rightarrow>
               (let (number_of_chars_written, written) = put (uuid_format b @ [NUL]) (0, result) in
                if number_of_chars_written - 1 \<noteq> UUID_STRING_LENGTH then (None, c_free (Some written) h1)
                else (Some written, h1))))"

definition UUID_generate ::
  "(char list \<Rightarrow> rc \<times> char list) \<Rightarrow> byte list option \<Rightarrow> heap \<Rightarrow> rc \<times> byte list option \<times> heap" where
  "UUID_generate UniqueId_Generate uuid h =
     (case uuid of
        None \<Rightarrow> (Failure, uuid, h)
      | Some b \<Rightarrow>
          (case malloc_block char_of_byte (UUID_STRING_LENGTH + 1) h of
             (None, h1) \<Rightarrow> (Failure, uuid, h1)
           | (Some uuid_string, h1) \<Rightarrow>
               (let zeroed = map (\<lambda>_. NUL) uuid_string;
                    (generated, unique) = UniqueId_Generate zeroed;
                    (result, uuid1) =
                      (if generated \<noteq> Success then (Failure, uuid)
                       else UUID_from_string (Some unique) uuid) in
                (result, uuid1, c_free (Some unique) h1))))"

section \<open>The text of a UUID\<close>

definition is_hex :: "char \<Rightarrow> bool" where
  "is_hex c \<longleftrightarrow> HEXA_DIGIT_VAL c \<noteq> None"

text \<open>The texts that are UUIDs: dashes at the four places, hexadecimal digits elsewhere.\<close>

definition uuid_text :: "char list \<Rightarrow> bool" where
  "uuid_text s \<longleftrightarrow> length s = 36 \<and> (\<forall>i < 36. if must_be_dash i then s ! i = CHR ''-'' else is_hex (s ! i))"

lemma length_36:
  assumes "length s = 36"
  obtains a0 a1 a2 a3 a4 a5 a6 a7 a8 a9 b0 b1 b2 b3 b4 b5 b6 b7 b8 b9 c0 c1 c2 c3 c4 c5 c6 c7 c8 c9 d0 d1 d2 d3 d4 d5
  where "s = [a0,a1,a2,a3,a4,a5,a6,a7,a8,a9,b0,b1,b2,b3,b4,b5,b6,b7,b8,b9,c0,c1,c2,c3,c4,c5,c6,c7,c8,c9,d0,d1,d2,d3,d4,d5]"
  using assms by (auto simp: length_Suc_conv numeral_eq_Suc)

definition hex_pair :: "char \<Rightarrow> char \<Rightarrow> byte" where
  "hex_pair a b = of_nat (the (HEXA_DIGIT_VAL a) * 16 + the (HEXA_DIGIT_VAL b))"

text \<open>The bytes of \<open>k\<close> pairs of digits from a position.\<close>

definition pairs_at :: "char list \<Rightarrow> nat \<Rightarrow> nat \<Rightarrow> byte list" where
  "pairs_at s i k = map (\<lambda>m. hex_pair (s ! (i + 2 * m)) (s ! (i + 2 * m + 1))) [0..<k]"

definition uuid_of :: "char list \<Rightarrow> byte list" where
  "uuid_of s = pairs_at s 0 4 @ pairs_at s 9 2 @ pairs_at s 14 2 @ pairs_at s 19 2 @ pairs_at s 24 6"

lemma pairs_at_Suc: "pairs_at s i (Suc k) = hex_pair (s ! i) (s ! (i + 1)) # pairs_at s (i + 2) k"
  by (simp add: pairs_at_def map_upt_Suc del: upt_Suc)

lemma hex_no_dash [simp]: "\<not> is_hex CHR ''-''" "\<not> is_hex NUL" "HEXA_DIGIT_VAL CHR ''-'' = None"
  by (simp_all add: is_hex_def HEXA_DIGIT_VAL_def)

lemma loop_dash:
  "i < n \<Longrightarrow> must_be_dash i \<Longrightarrow> uuid_loop s n i j b = (if s ! i = CHR ''-'' then uuid_loop s n (i + 1) j b else (Failure, b))"
  by (simp add: uuid_loop.simps [of s n i])

lemma loop_group:
  assumes "i + 2 * k \<le> n" and "\<forall>m < 2 * k. \<not> must_be_dash (i + m)"
  shows "(\<forall>m < 2 * k. is_hex (s ! (i + m))) \<Longrightarrow> j + k \<le> length b \<Longrightarrow>
      uuid_loop s n i j b = uuid_loop s n (i + 2 * k) (j + k) (take j b @ pairs_at s i k @ drop (j + k) b)"
    and "\<not> (\<forall>m < 2 * k. is_hex (s ! (i + m))) \<Longrightarrow> fst (uuid_loop s n i j b) = Failure"
  using assms
proof (induction k arbitrary: i j b)
  case 0
  { case 1 then show ?case by (simp add: pairs_at_def) next case 2 then show ?case by simp }
next
  case (Suc k)
  have all_Suc: "(\<forall>m < 2 * Suc k. P (i + m)) \<longleftrightarrow> P i \<and> P (i + 1) \<and> (\<forall>m < 2 * k. P (i + 2 + m))" for P :: "nat \<Rightarrow> bool" and i
    by (simp add: All_less_Suc2 [of "Suc (2 * k)"] All_less_Suc2 [of "2 * k"])
  { case 1
    have hex: "is_hex (s ! i)" "is_hex (s ! (i + 1))" "\<forall>m < 2 * k. is_hex (s ! (i + 2 + m))"
      using iffD1 [OF all_Suc [of "\<lambda>x. is_hex (s ! x)"] 1(1)] by auto
    have rest: "i + 2 + 2 * k \<le> n" "\<forall>m < 2 * k. \<not> must_be_dash (i + 2 + m)" "\<not> must_be_dash i"
      using 1(3) iffD1 [OF all_Suc [of "\<lambda>x. \<not> must_be_dash x"] 1(4)] by auto
    have step: "uuid_loop s n i j b = uuid_loop s n (i + 2) (j + 1) (b[j := hex_pair (s ! i) (s ! (i + 1))])"
      using hex(1,2) rest(1,3) by (auto simp: uuid_loop.simps [of s n i] is_hex_def hex_pair_def)
    have "b[j := x] = take j b @ x # drop (j + 1) b" for x using 1(2) by (simp add: upd_conv_take_nth_drop)
    then show ?case
      using step Suc.IH(1) [OF hex(3) _ rest(1,2), of "j + 1" "b[j := hex_pair (s ! i) (s ! (i + 1))]"] 1(2)
      by (simp add: pairs_at_Suc add.commute [of k j])
  next
    case 2
    have rest: "i + 2 + 2 * k \<le> n" "\<forall>m < 2 * k. \<not> must_be_dash (i + 2 + m)" "\<not> must_be_dash i"
      using 2(2) iffD1 [OF all_Suc [of "\<lambda>x. \<not> must_be_dash x"] 2(3)] by auto
    show ?case
    proof (cases "is_hex (s ! i) \<and> is_hex (s ! (i + 1))")
      case True
      then have "\<not> (\<forall>m < 2 * k. is_hex (s ! (i + 2 + m)))"
        using 2(1) all_Suc [of "\<lambda>x. is_hex (s ! x)"] by blast
      from Suc.IH(2) [OF this rest(1,2)] True rest(1,3) show ?thesis
        by (auto simp: uuid_loop.simps [of s n i] is_hex_def)
    next
      case False
      then show ?thesis using rest(1,3) by (auto simp: uuid_loop.simps [of s n i] is_hex_def split: option.splits)
    qed
  }
qed

lemma must_be_dash_simps:
  "must_be_dash 8" "must_be_dash 13" "must_be_dash 18" "must_be_dash 23"
  "\<forall>m < 8. \<not> must_be_dash (0 + m)" "\<forall>m < 4. \<not> must_be_dash (9 + m)" "\<forall>m < 4. \<not> must_be_dash (14 + m)"
  "\<forall>m < 4. \<not> must_be_dash (19 + m)" "\<forall>m < 12. \<not> must_be_dash (24 + m)"
  by (auto simp: must_be_dash_def)

text \<open>The well-formed texts, group by group.\<close>

lemma uuid_text_groups:
  "uuid_text s \<longleftrightarrow> length s = 36 \<and> (\<forall>m < 8. is_hex (s ! (0 + m))) \<and> s ! 8 = CHR ''-'' \<and>
     (\<forall>m < 4. is_hex (s ! (9 + m))) \<and> s ! 13 = CHR ''-'' \<and> (\<forall>m < 4. is_hex (s ! (14 + m))) \<and> s ! 18 = CHR ''-'' \<and>
     (\<forall>m < 4. is_hex (s ! (19 + m))) \<and> s ! 23 = CHR ''-'' \<and> (\<forall>m < 12. is_hex (s ! (24 + m)))"
  by (simp add: uuid_text_def numeral_eq_Suc All_less_Suc2 must_be_dash_def)

lemma length_pairs_at [simp]: "length (pairs_at s i k) = k"
  by (simp add: pairs_at_def)

lemma length_uuid_of [simp]: "length (uuid_of s) = 16"
  by (simp add: uuid_of_def)

text \<open>One group and the dash after it.\<close>

lemma loop_group_dash:
  assumes "i + 2 * k < n" and "\<forall>m < 2 * k. \<not> must_be_dash (i + m)" and "must_be_dash (i + 2 * k)" and "j + k \<le> length b"
  shows "(\<forall>m < 2 * k. is_hex (s ! (i + m))) \<and> s ! (i + 2 * k) = CHR ''-'' \<Longrightarrow>
      uuid_loop s n i j b = uuid_loop s n (i + 2 * k + 1) (j + k) (take j b @ pairs_at s i k @ drop (j + k) b)"
    and "\<not> ((\<forall>m < 2 * k. is_hex (s ! (i + m))) \<and> s ! (i + 2 * k) = CHR ''-'') \<Longrightarrow> fst (uuid_loop s n i j b) = Failure"
  using loop_group [OF _ assms(2), of n s j b] loop_dash [OF assms(1,3), of s] assms(1,4)
  by (cases "\<forall>m < 2 * k. is_hex (s ! (i + m))"; simp)+

lemma uuid_loop_result:
  assumes "length b = 16" and "36 \<le> length s"
  shows "if uuid_text (take 36 s) then uuid_loop s 36 0 0 b = (Success, uuid_of s) else fst (uuid_loop s 36 0 0 b) = Failure"
proof -
  let ?run = "uuid_loop s 36"
  define A1 where "A1 \<longleftrightarrow> (\<forall>m < 8. is_hex (s ! (0 + m))) \<and> s ! 8 = CHR ''-''"
  define A2 where "A2 \<longleftrightarrow> (\<forall>m < 4. is_hex (s ! (9 + m))) \<and> s ! 13 = CHR ''-''"
  define A3 where "A3 \<longleftrightarrow> (\<forall>m < 4. is_hex (s ! (14 + m))) \<and> s ! 18 = CHR ''-''"
  define A4 where "A4 \<longleftrightarrow> (\<forall>m < 4. is_hex (s ! (19 + m))) \<and> s ! 23 = CHR ''-''"
  define A5 where "A5 \<longleftrightarrow> (\<forall>m < 12. is_hex (s ! (24 + m)))"
  let ?p1 = "pairs_at s 0 4" and ?p2 = "pairs_at s 9 2" and ?p3 = "pairs_at s 14 2" and ?p4 = "pairs_at s 19 2"
    and ?p5 = "pairs_at s 24 6"
  note d = must_be_dash_simps
  have g1: "A1 \<Longrightarrow> ?run 0 0 b = ?run 9 4 (?p1 @ drop 4 b)" "\<not> A1 \<Longrightarrow> fst (?run 0 0 b) = Failure"
    using loop_group_dash [of 0 4 36 0 b s] d(1,5) assms(1) by (simp_all add: A1_def)
  have g2: "A2 \<Longrightarrow> ?run 9 4 (?p1 @ drop 4 b) = ?run 14 6 (?p1 @ ?p2 @ drop 6 b)"
    "\<not> A2 \<Longrightarrow> fst (?run 9 4 (?p1 @ drop 4 b)) = Failure"
    using loop_group_dash [of 9 2 36 4 "?p1 @ drop 4 b" s] d(2,6) assms(1) by (simp_all add: A2_def)
  have g3: "A3 \<Longrightarrow> ?run 14 6 (?p1 @ ?p2 @ drop 6 b) = ?run 19 8 (?p1 @ ?p2 @ ?p3 @ drop 8 b)"
    "\<not> A3 \<Longrightarrow> fst (?run 14 6 (?p1 @ ?p2 @ drop 6 b)) = Failure"
    using loop_group_dash [of 14 2 36 6 "?p1 @ ?p2 @ drop 6 b" s] d(3,7) assms(1) by (simp_all add: A3_def)
  have g4: "A4 \<Longrightarrow> ?run 19 8 (?p1 @ ?p2 @ ?p3 @ drop 8 b) = ?run 24 10 (?p1 @ ?p2 @ ?p3 @ ?p4 @ drop 10 b)"
    "\<not> A4 \<Longrightarrow> fst (?run 19 8 (?p1 @ ?p2 @ ?p3 @ drop 8 b)) = Failure"
    using loop_group_dash [of 19 2 36 8 "?p1 @ ?p2 @ ?p3 @ drop 8 b" s] d(4,8) assms(1) by (simp_all add: A4_def)
  have fin: "?run 36 j c = (Success, c)" for j c by (simp add: uuid_loop.simps [of s 36 36])
  have g5: "A5 \<Longrightarrow> ?run 24 10 (?p1 @ ?p2 @ ?p3 @ ?p4 @ drop 10 b) = (Success, uuid_of s)"
    "\<not> A5 \<Longrightarrow> fst (?run 24 10 (?p1 @ ?p2 @ ?p3 @ ?p4 @ drop 10 b)) = Failure"
    using loop_group [of 24 6 36 s 10 "?p1 @ ?p2 @ ?p3 @ ?p4 @ drop 10 b"] d(9) assms(1) fin
    by (simp_all add: A5_def uuid_of_def)
  have "uuid_text (take 36 s) \<longleftrightarrow> A1 \<and> A2 \<and> A3 \<and> A4 \<and> A5"
    using assms(2) by (simp add: uuid_text_groups A1_def A2_def A3_def A4_def A5_def)
  then show ?thesis using g1 g2 g3 g4 g5 by (cases A1; cases A2; cases A3; cases A4; cases A5) simp_all
qed

lemma UUID_from_string_result:
  assumes "terminated t" and "length b = 16"
  shows "if uuid_text (cstr t) then UUID_from_string (Some t) (Some b) = (Success, Some (uuid_of (cstr t)))
    else fst (UUID_from_string (Some t) (Some b)) = Failure"
proof (cases "strlen t = 36")
  case True
  then have len: "36 \<le> length t" "take 36 t = cstr t" using strlen_le [of t] take_strlen [of t] by simp_all
  have "t ! k = cstr t ! k" if "k < 36" for k using that len(2) by (metis nth_take)
  then have "uuid_of t = uuid_of (cstr t)" by (simp add: uuid_of_def pairs_at_def)
  then show ?thesis
    using uuid_loop_result [OF assms(2) len(1)] True len(2)
    by (auto simp: UUID_from_string_def UUID_STRING_LENGTH_def split: prod.splits)
next
  case False
  then show ?thesis by (auto simp: UUID_from_string_def UUID_STRING_LENGTH_def uuid_text_def strlen_def)
qed

section \<open>The text written\<close>

definition lower :: "char \<Rightarrow> char" where
  "lower c = (let n = of_char c :: nat in if 65 \<le> n \<and> n \<le> 70 then char_of (n + 32) else c)"

lemma hex_digit_value:
  assumes "n < 16"
  shows "HEXA_DIGIT_VAL (hex_digit n) = Some n"
  using assms by (auto simp: HEXA_DIGIT_VAL_def hex_digit_def Let_def)

lemma hex_value_digit:
  assumes "is_hex c"
  shows "the (HEXA_DIGIT_VAL c) < 16" and "hex_digit (the (HEXA_DIGIT_VAL c)) = lower c"
proof -
  have ch: "char_of (of_char c :: nat) = c" by simp
  show "the (HEXA_DIGIT_VAL c) < 16" "hex_digit (the (HEXA_DIGIT_VAL c)) = lower c"
    using assms ch
    by (auto simp: is_hex_def HEXA_DIGIT_VAL_def hex_digit_def lower_def Let_def split: if_splits)
qed

lemma hex_byte_pair:
  assumes "is_hex a" and "is_hex b"
  shows "hex_byte (hex_pair a b) = [lower a, lower b]"
proof -
  let ?x = "the (HEXA_DIGIT_VAL a)" and ?y = "the (HEXA_DIGIT_VAL b)"
  have lt: "?x < 16" "?y < 16" using hex_value_digit(1) assms by blast+
  then have "unat (hex_pair a b) = ?x * 16 + ?y"
    unfolding hex_pair_def unat_of_nat by simp
  then show ?thesis using lt hex_value_digit(2) assms by (simp add: hex_byte_def)
qed

lemma hex_pair_byte: "hex_pair (hex_digit (unat b div 16)) (hex_digit (unat b mod 16)) = (b :: byte)"
proof -
  have "unat b < 256" using unsigned_less [of b, where 'a = nat] by simp
  then have "unat b div 16 < 16" "unat b mod 16 < 16" by simp_all
  then have "hex_pair (hex_digit (unat b div 16)) (hex_digit (unat b mod 16)) = of_nat (unat b div 16 * 16 + unat b mod 16)"
    unfolding hex_pair_def by (simp only: hex_digit_value option.sel)
  then show ?thesis by simp
qed

lemma length_16:
  assumes "length s = 16"
  obtains a0 a1 a2 a3 a4 a5 a6 a7 a8 a9 b0 b1 b2 b3 b4 b5
  where "s = [a0,a1,a2,a3,a4,a5,a6,a7,a8,a9,b0,b1,b2,b3,b4,b5]"
  using assms by (auto simp: length_Suc_conv numeral_eq_Suc)

lemma all_below:
  "(\<forall>m < (4::nat). P m) \<longleftrightarrow> P 0 \<and> P 1 \<and> P 2 \<and> P 3"
  "(\<forall>m < (8::nat). P m) \<longleftrightarrow> P 0 \<and> P 1 \<and> P 2 \<and> P 3 \<and> P 4 \<and> P 5 \<and> P 6 \<and> P 7"
  "(\<forall>m < (12::nat). P m) \<longleftrightarrow>
     P 0 \<and> P 1 \<and> P 2 \<and> P 3 \<and> P 4 \<and> P 5 \<and> P 6 \<and> P 7 \<and> P 8 \<and> P 9 \<and> P 10 \<and> P 11"
  by (simp_all add: numeral_eq_Suc All_less_Suc2)

lemma pairs_at_numeral:
  "pairs_at s i 2 = [hex_pair (s ! i) (s ! (i + 1)), hex_pair (s ! (i + 2)) (s ! (i + 3))]"
  "pairs_at s i 4 = [hex_pair (s ! i) (s ! (i + 1)), hex_pair (s ! (i + 2)) (s ! (i + 3)),
     hex_pair (s ! (i + 4)) (s ! (i + 5)), hex_pair (s ! (i + 6)) (s ! (i + 7))]"
  "pairs_at s i 6 = [hex_pair (s ! i) (s ! (i + 1)), hex_pair (s ! (i + 2)) (s ! (i + 3)),
     hex_pair (s ! (i + 4)) (s ! (i + 5)), hex_pair (s ! (i + 6)) (s ! (i + 7)),
     hex_pair (s ! (i + 8)) (s ! (i + 9)), hex_pair (s ! (i + 10)) (s ! (i + 11))]"
  by (simp_all add: pairs_at_def upt_rec eval_nat_numeral)

text \<open>A text made of sixteen pairs of digits, given by the two functions that write them.\<close>

lemma written_pairs:
  assumes "\<And>x. hex_byte x = [f x, g x]" and "length b = 16"
  shows "length (uuid_format b) = 36"
    and "(\<And>x. is_hex (f x)) \<Longrightarrow> (\<And>x. is_hex (g x)) \<Longrightarrow> uuid_text (uuid_format b)"
    and "(\<And>x. hex_pair (f x) (g x) = x) \<Longrightarrow> uuid_of (uuid_format b) = b"
  by (rule length_16 [OF assms(2)];
      simp add: uuid_format_def assms(1) uuid_text_groups uuid_of_def pairs_at_numeral all_below)+

lemma uuid_of_format:
  assumes "length b = 16"
  shows "uuid_of (uuid_format b) = b" and "uuid_text (uuid_format b)" and "length (uuid_format b) = 36"
proof -
  have hex: "is_hex (hex_digit (unat x div 16))" "is_hex (hex_digit (unat x mod 16))" for x :: byte
    using unsigned_less [of x, where 'a = nat] by (simp_all add: is_hex_def hex_digit_value)
  note written = written_pairs [OF hex_byte_def assms]
  show "uuid_of (uuid_format b) = b" by (rule written(3)) (rule hex_pair_byte)
  show "uuid_text (uuid_format b)" by (rule written(2)) (rule hex)+
  show "length (uuid_format b) = 36" by (rule written(1))
qed

text \<open>Writing what has been read gives the text in lower case.\<close>

lemma uuid_format_of:
  assumes "uuid_text s"
  shows "uuid_format (uuid_of s) = map lower s"
proof -
  have len: "length s = 36" using assms by (simp add: uuid_text_def)
  have dash: "lower CHR ''-'' = CHR ''-''" by (simp add: lower_def)
  show ?thesis
    by (rule length_36 [OF len])
      (use assms dash in \<open>simp add: uuid_text_groups uuid_of_def pairs_at_numeral all_below uuid_format_def hex_byte_pair\<close>)
qed

lemma UUID_to_string_result:
  assumes "length b = 16"
  shows "UUID_to_string (Some b) h = (if granted h then Some (uuid_format b @ [NUL]) else None, after_request 1 h)"
  using uuid_of_format(3) [OF assms]
  by (simp add: UUID_to_string_def UUID_STRING_LENGTH_def malloc_block_def put_whole)

lemma uuid_text_c_string: "uuid_text s \<Longrightarrow> c_string s"
proof -
  assume s: "uuid_text s"
  have "c \<noteq> NUL" if c: "c \<in> set s" for c
  proof -
    obtain i where i: "i < length s" "s ! i = c" using c unfolding in_set_conv_nth by blast
    have "if must_be_dash i then c = CHR ''-'' else is_hex c" using s i unfolding uuid_text_def by metis
    then show ?thesis by (auto split: if_splits)
  qed
  then show ?thesis by (auto simp: c_string_def)
qed

section \<open>Properties\<close>

text \<open>C32: A UUID survives its text: for all sixteen bytes \<open>UUID_to_string\<close> makes a text of the RFC
  4122 form, failing only when its block is refused, and \<open>UUID_from_string\<close> reads the same bytes
  back from it, whatever its target held before.\<close>

theorem uuid_roundtrip:
  assumes "length b = 16" and "length c = 16"
  shows "case UUID_to_string (Some b) h of
      (None, h') \<Rightarrow> \<not> granted h \<and> mem_live h' = mem_live h
    | (Some t, h') \<Rightarrow> mem_live h' = mem_live h + 1 \<and> uuid_text (cstr t) \<and>
        UUID_from_string (Some t) (Some c) = (Success, Some b)"
proof -
  let ?t = "uuid_format b @ [NUL]"
  note u = uuid_of_format [OF assms(1)]
  have t: "terminated ?t" "cstr ?t = uuid_format b"
    using uuid_text_c_string [OF u(2)] cstr_append_NUL [of "uuid_format b" "[]"] by simp_all
  show ?thesis
    using UUID_from_string_result [OF t(1) assms(2)] t(2) u(1,2)
    by (simp add: UUID_to_string_result [OF assms(1)] after_request_def)
qed

theorem uuid_roundtrip_witness:
  "case UUID_to_string (Some (replicate 16 0xAB)) heap0 of
     (None, h') \<Rightarrow> False
   | (Some t, h') \<Rightarrow> UUID_from_string (Some t) (Some (replicate 16 0)) = (Success, Some (replicate 16 0xAB))"
  using uuid_roundtrip [of "replicate 16 0xAB" "replicate 16 0" heap0]
  by (auto simp: heap0_def granted_def split: prod.splits option.splits)

text \<open>\<open>UUID_from_string\<close> accepts exactly the well-formed texts: 36 characters with dashes at the
  four places and hexadecimal digits of either case elsewhere; what it reads from such a text is
  written back as the same text in lower case.\<close>

theorem uuid_from_string_exact:
  assumes "terminated t" and "length c = 16" and "UUID_from_string (Some t) (Some c) = (r, Some b)"
  shows "(r = Success \<longleftrightarrow> uuid_text (cstr t)) \<and>
    (r = Success \<longrightarrow> length b = 16 \<and> (granted h \<longrightarrow> fst (UUID_to_string (Some b) h) = Some (map lower (cstr t) @ [NUL])))"
  using UUID_from_string_result [OF assms(1,2)] assms(3) uuid_format_of UUID_to_string_result
  by (auto split: if_splits)

theorem uuid_from_string_exact_witness:
  "fst (UUID_from_string (Some (''7F907D75-5E13-44CF-A1A3-19A01A2B4528'' @ [NUL])) (Some (replicate 16 0))) = Success \<and>
   fst (UUID_from_string (Some (''7F907D755-E13-44CF-A1A3-19A01A2B4528'' @ [NUL])) (Some (replicate 16 0))) = Failure"
proof -
  have t: "terminated (s @ [NUL])" for s by simp
  have ok: "uuid_text (cstr (''7F907D75-5E13-44CF-A1A3-19A01A2B4528'' @ [NUL]))"
    "\<not> uuid_text (cstr (''7F907D755-E13-44CF-A1A3-19A01A2B4528'' @ [NUL]))" by code_simp+
  let ?a = "''7F907D75-5E13-44CF-A1A3-19A01A2B4528'' @ [NUL]" and ?b = "''7F907D755-E13-44CF-A1A3-19A01A2B4528'' @ [NUL]"
  let ?c = "replicate 16 0 :: byte list"
  have some: "\<exists>r b. UUID_from_string (Some s) (Some ?c) = (r, Some b)" for s
    by (auto simp: UUID_from_string_def split: prod.splits)
  obtain r1 b1 where 1: "UUID_from_string (Some ?a) (Some ?c) = (r1, Some b1)" using some by blast
  obtain r2 b2 where 2: "UUID_from_string (Some ?b) (Some ?c) = (r2, Some b2)" using some by blast
  have "r1 = Success" using uuid_from_string_exact [OF t _ 1] ok(1) by simp
  moreover have "r2 \<noteq> Success" using uuid_from_string_exact [OF t _ 2] ok(2) by simp
  ultimately show ?thesis unfolding 1 2 by (cases r2) simp_all
qed

end
