(* ===== verification/Vectors.thy ===== *)
theory Vectors
  imports Prelude
begin

text \<open>
  The growable array of \<open>src/vector.c\<close>: one block of cells, \<open>elementSize\<close> cells per element. A
  pointer into the block is its offset. Sizes are computed in \<open>size_t\<close> and wrap around; the
  theorems say where they must not.
\<close>

section \<open>The functions of the source\<close>

record 'a VECTOR =
  vec_storage :: "'a list option"
  vec_count :: nat
  vec_elementSize :: nat

definition size_mult :: "nat \<Rightarrow> nat \<Rightarrow> nat" where
  "size_mult a b = a * b mod (SIZE_MAX + 1)"

definition size_plus :: "nat \<Rightarrow> nat \<Rightarrow> nat" where
  "size_plus a b = (a + b) mod (SIZE_MAX + 1)"

definition size_minus :: "nat \<Rightarrow> nat \<Rightarrow> nat" where
  "size_minus a b = (a + (SIZE_MAX + 1) - b) mod (SIZE_MAX + 1)"

definition VECTOR_create :: "nat \<Rightarrow> heap \<Rightarrow> 'a VECTOR option \<times> heap" where
  "VECTOR_create elementSize h =
     (if elementSize = 0 then (None, h)
      else
        (case malloc_struct h of
           (False, h1) \<Rightarrow> (None, h1)
         | (True, h1) \<Rightarrow> (Some \<lparr>vec_storage = None, vec_count = 0, vec_elementSize = elementSize\<rparr>, h1)))"

definition VECTOR_destroy :: "'a VECTOR option \<Rightarrow> heap \<Rightarrow> heap" where
  "VECTOR_destroy handle h =
     (case handle of None \<Rightarrow> h | Some v \<Rightarrow> free_struct (c_free (vec_storage v) h))"

text \<open>The new vector and the old one, which is empty when the move succeeds.\<close>

definition VECTOR_move :: "'a VECTOR option \<Rightarrow> heap \<Rightarrow> 'a VECTOR option \<times> 'a VECTOR option \<times> heap" where
  "VECTOR_move handle h =
     (case handle of
        None \<Rightarrow> (None, handle, h)
      | Some v \<Rightarrow>
          (case malloc_struct h of
             (False, h1) \<Rightarrow> (None, handle, h1)
           | (True, h1) \<Rightarrow>
               (Some \<lparr>vec_storage = vec_storage v, vec_count = vec_count v, vec_elementSize = vec_elementSize v\<rparr>,
                Some (v\<lparr>vec_storage := None, vec_count := 0\<rparr>), h1)))"

definition VECTOR_push_back ::
  "(byte \<Rightarrow> 'a) \<Rightarrow> 'a VECTOR option \<Rightarrow> 'a list option \<Rightarrow> nat \<Rightarrow> heap \<Rightarrow> rc \<times> 'a VECTOR option \<times> heap" where
  "VECTOR_push_back cell handle elements numElements h =
     (case (handle, elements) of
        (Some v, Some e) \<Rightarrow>
          (if numElements = 0 then (Failure, handle, h)
           else
             (let curSize = size_mult (vec_elementSize v) (vec_count v);
                  appendSize = size_mult (vec_elementSize v) numElements in
              case realloc_block cell (vec_storage v) (size_plus curSize appendSize) h of
                (None, h1) \<Rightarrow> (Failure, handle, h1)
              | (Some temp, h1) \<Rightarrow>
                  (Success, Some (v\<lparr>vec_storage := Some (memcpy_at temp curSize e appendSize),
                                    vec_count := size_plus (vec_count v) numElements\<rparr>), h1)))
      | _ \<Rightarrow> (Failure, handle, h))"

text \<open>\<open>elements\<close> is a pointer: null, or its distance from the start of the storage.\<close>

definition VECTOR_erase ::
  "(byte \<Rightarrow> 'a) \<Rightarrow> 'a VECTOR option \<Rightarrow> int option \<Rightarrow> nat \<Rightarrow> heap \<Rightarrow> 'a VECTOR option \<times> heap" where
  "VECTOR_erase cell handle elements numElements h =
     (case (handle, elements) of
        (Some v, Some p) \<Rightarrow>
          (if numElements = 0 then (handle, h)
           else if p < 0 then (handle, h)
           else if nat p mod vec_elementSize v \<noteq> 0 then (handle, h)
           else
             (let src = nat p + size_mult (vec_elementSize v) numElements;
                  srcEnd = size_mult (vec_elementSize v) (vec_count v) in
              if src > srcEnd then (handle, h)
              else
                (let n = size_minus (vec_count v) numElements; v1 = v\<lparr>vec_count := n\<rparr> in
                 if n = 0 then (Some (v1\<lparr>vec_storage := None\<rparr>), c_free (vec_storage v) h)
                 else
                   (let moved = memcpy_at (the (vec_storage v)) (nat p) (drop src (the (vec_storage v))) (srcEnd - src) in
                    case realloc_block cell (Some moved) (size_mult (vec_elementSize v) n) h of
                      (None, h1) \<Rightarrow> (Some (v1\<lparr>vec_storage := Some moved\<rparr>), h1)
                    | (Some tmp, h1) \<Rightarrow> (Some (v1\<lparr>vec_storage := Some tmp\<rparr>), h1)))))
      | _ \<Rightarrow> (handle, h))"

definition VECTOR_clear :: "'a VECTOR option \<Rightarrow> heap \<Rightarrow> 'a VECTOR option \<times> heap" where
  "VECTOR_clear handle h =
     (case handle of
        None \<Rightarrow> (None, h)
      | Some v \<Rightarrow> (Some (v\<lparr>vec_storage := None, vec_count := 0\<rparr>), c_free (vec_storage v) h))"

definition VECTOR_element :: "'a VECTOR option \<Rightarrow> nat \<Rightarrow> nat option" where
  "VECTOR_element handle index =
     (case handle of
        None \<Rightarrow> None
      | Some v \<Rightarrow> (if index \<ge> vec_count v then None else Some (size_mult (vec_elementSize v) index)))"

definition VECTOR_front :: "'a VECTOR option \<Rightarrow> nat option" where
  "VECTOR_front handle =
     (case handle of None \<Rightarrow> None | Some v \<Rightarrow> (if vec_count v = 0 then None else Some 0))"

definition VECTOR_back :: "'a VECTOR option \<Rightarrow> nat option" where
  "VECTOR_back handle =
     (case handle of
        None \<Rightarrow> None
      | Some v \<Rightarrow> (if vec_count v = 0 then None else Some (size_mult (vec_elementSize v) (vec_count v - 1))))"

text \<open>The cells at a pointer, which the predicate of a search reads.\<close>

definition vec_at :: "'a VECTOR \<Rightarrow> nat \<Rightarrow> 'a list" where
  "vec_at v p = take (vec_elementSize v) (drop p (the (vec_storage v)))"

function VECTOR_find_if_loop :: "'a VECTOR \<Rightarrow> ('a list \<Rightarrow> bool) \<Rightarrow> nat \<Rightarrow> nat" where
  "VECTOR_find_if_loop v pred i =
     (if i < vec_count v then
        (if pred (vec_at v (size_mult (vec_elementSize v) i)) then i else VECTOR_find_if_loop v pred (i + 1))
      else i)"
  by pat_completeness auto

termination by (relation "measure (\<lambda>(v, p, i). vec_count v - i)") auto

declare VECTOR_find_if_loop.simps [simp del]

definition VECTOR_find_if :: "'a VECTOR option \<Rightarrow> ('a list \<Rightarrow> bool) option \<Rightarrow> nat option" where
  "VECTOR_find_if handle pred =
     (case (handle, pred) of
        (Some v, Some f) \<Rightarrow>
          (let i = VECTOR_find_if_loop v f 0 in
           if i = vec_count v then None else Some (size_mult (vec_elementSize v) i))
      | _ \<Rightarrow> None)"

definition VECTOR_size :: "'a VECTOR option \<Rightarrow> nat" where
  "VECTOR_size handle = (case handle of None \<Rightarrow> 0 | Some v \<Rightarrow> vec_count v)"

section \<open>The list a vector stands for\<close>

text \<open>The invariant: the cells of the elements fit into the block and their number into \<open>size_t\<close>;
  a block is there exactly when there is an element.\<close>

definition vec_cells :: "'a VECTOR \<Rightarrow> 'a list" where
  "vec_cells v = (case vec_storage v of None \<Rightarrow> [] | Some b \<Rightarrow> take (vec_elementSize v * vec_count v) b)"

definition vec_inv :: "'a VECTOR \<Rightarrow> bool" where
  "vec_inv v \<longleftrightarrow> vec_elementSize v > 0 \<and> vec_elementSize v * vec_count v \<le> SIZE_MAX \<and>
     length (vec_cells v) = vec_elementSize v * vec_count v \<and> (vec_storage v = None \<longleftrightarrow> vec_count v = 0)"

definition vec_blocks :: "'a VECTOR \<Rightarrow> int" where
  "vec_blocks v = 1 + (if vec_storage v = None then 0 else 1)"

definition chunk :: "nat \<Rightarrow> 'a list \<Rightarrow> nat \<Rightarrow> 'a list" where
  "chunk n xs i = take n (drop (n * i) xs)"

definition vec_list :: "'a VECTOR \<Rightarrow> 'a list list" where
  "vec_list v = map (chunk (vec_elementSize v) (vec_cells v)) [0..<vec_count v]"

lemma size_mult_small: "a * b \<le> SIZE_MAX \<Longrightarrow> size_mult a b = a * b"
  by (simp add: size_mult_def)

lemma size_plus_small: "a + b \<le> SIZE_MAX \<Longrightarrow> size_plus a b = a + b"
  by (simp add: size_plus_def)

lemma size_minus_small: "b \<le> a \<Longrightarrow> a \<le> SIZE_MAX \<Longrightarrow> size_minus a b = a - b"
proof -
  assume "b \<le> a" "a \<le> SIZE_MAX"
  then have "a + (SIZE_MAX + 1) - b = (a - b) + (SIZE_MAX + 1)" "a - b < SIZE_MAX + 1" by simp_all
  then show ?thesis unfolding size_minus_def by (simp only: mod_add_self2 mod_less)
qed

lemma size_minus_self [simp]: "size_minus a a = 0"
  by (simp add: size_minus_def)

lemma length_vec_list [simp]: "length (vec_list v) = vec_count v"
  by (simp add: vec_list_def)

lemma count_le: "(n :: nat) > 0 \<Longrightarrow> n * k \<le> m \<Longrightarrow> k \<le> m"
  by (cases n) auto

text \<open>Chunks of a concatenation.\<close>

lemma chunk_append_left: "n * Suc i \<le> length xs \<Longrightarrow> chunk n (xs @ ys) i = chunk n xs i"
  by (simp add: chunk_def)

lemma chunk_append_right: "length xs = n * k \<Longrightarrow> chunk n (xs @ ys) (k + i) = chunk n ys i"
  by (simp add: chunk_def algebra_simps)

lemma chunks_append:
  assumes "length xs = n * k"
  shows "map (chunk n (xs @ ys)) [0..<k + m] = map (chunk n xs) [0..<k] @ map (chunk n ys) [0..<m]"
proof -
  have "chunk n (xs @ ys) i = chunk n xs i" if "i < k" for i
    using that assms mult_le_mono2 [of "Suc i" k n] by (simp add: chunk_append_left)
  moreover have "map (chunk n (xs @ ys)) [k..<k + m] = map (chunk n ys) [0..<m]"
    using chunk_append_right [OF assms, of ys] by (intro nth_equalityI) simp_all
  ultimately show ?thesis by (simp add: upt_add_eq_append [of 0 k m])
qed

lemma vec_invD:
  assumes "vec_inv v"
  shows "vec_elementSize v > 0" and "vec_elementSize v * vec_count v \<le> SIZE_MAX" and "vec_count v \<le> SIZE_MAX"
    and "vec_count v = 0 \<Longrightarrow> vec_storage v = None"
    and "vec_count v \<noteq> 0 \<Longrightarrow> \<exists>b. vec_storage v = Some b \<and> vec_elementSize v * vec_count v \<le> length b"
  using assms by (auto simp: vec_inv_def vec_cells_def min_def intro: count_le split: if_splits)

lemma VECTOR_create_result:
  "VECTOR_create n h = (r, h') \<Longrightarrow>
     (case r of None \<Rightarrow> mem_live h' = mem_live h \<and> (n = 0 \<or> \<not> granted h)
      | Some v \<Rightarrow> n > 0 \<and> vec_inv v \<and> vec_list v = [] \<and> vec_elementSize v = n \<and> mem_live h' = mem_live h + vec_blocks v)"
  by (auto simp: VECTOR_create_def malloc_struct_def after_request_def vec_inv_def vec_cells_def vec_list_def vec_blocks_def
      split: if_splits)

lemma VECTOR_destroy_live: "mem_live (VECTOR_destroy (Some v) h) = mem_live h - vec_blocks v"
  by (simp add: VECTOR_destroy_def vec_blocks_def c_free_def free_struct_def split: option.splits)

text \<open>Appending the elements of a block of as many cells.\<close>

lemma VECTOR_push_back_result:
  assumes "vec_inv v" and "m > 0" and "length e = vec_elementSize v * m"
    and "vec_elementSize v * (vec_count v + m) \<le> SIZE_MAX"
    and "VECTOR_push_back cell (Some v) (Some e) m h = (r, x, h')"
  shows "if granted h
    then r = Success \<and> (\<exists>v'. x = Some v' \<and> vec_inv v' \<and> vec_elementSize v' = vec_elementSize v \<and>
      vec_list v' = vec_list v @ map (chunk (vec_elementSize v) e) [0..<m] \<and>
      mem_live h' - vec_blocks v' = mem_live h - vec_blocks v)
    else r = Failure \<and> x = Some v \<and> mem_live h' = mem_live h"
proof -
  let ?es = "vec_elementSize v" and ?n = "vec_count v"
  note inv = vec_invD [OF assms(1)]
  have cur: "size_mult ?es ?n = ?es * ?n" using inv(2) by (rule size_mult_small)
  have app: "size_mult ?es m = ?es * m" using assms(4) by (intro size_mult_small) (simp add: algebra_simps)
  have tot: "size_plus (?es * ?n) (?es * m) = ?es * (?n + m)"
    using assms(4) by (subst size_plus_small) (simp_all add: algebra_simps)
  have cnt: "size_plus ?n m = ?n + m" using count_le [OF inv(1) assms(4)] by (rule size_plus_small)
  show ?thesis
  proof (cases "granted h")
    case False
    then show ?thesis
      using assms(2,5)
      by (cases "vec_storage v")
        (auto simp: VECTOR_push_back_def realloc_block_def malloc_block_def after_request_def Let_def)
  next
    case True
    obtain temp h1 where re: "realloc_block cell (vec_storage v) (?es * (?n + m)) h = (Some temp, h1)"
      "mem_live h1 = mem_live h + (if vec_storage v = None then 1 else 0)"
      using True by (cases "vec_storage v") (auto simp: realloc_block_def malloc_block_def after_request_def)
    have "\<exists>rest. temp = vec_cells v @ rest \<and> length rest = ?es * m"
    proof (cases "vec_storage v")
      case None
      then show ?thesis using re True inv(5)
        by (cases "?n = 0") (auto simp: vec_cells_def realloc_block_def malloc_block_def split: if_splits)
    next
      case (Some b)
      then have b: "?n \<noteq> 0" "?es * ?n \<le> length b" using inv(4,5) by auto
      have t: "temp = take (?es * (?n + m)) b @ drop (length b) (fresh_block cell (?es * (?n + m)) h)"
        using re Some True by (simp add: realloc_block_def)
      have "length temp = ?es * (?n + m)" by (simp add: t)
      moreover have "take (?es * ?n) temp = vec_cells v" using b Some by (simp add: t vec_cells_def algebra_simps)
      ultimately show ?thesis
        by (intro exI [of _ "drop (?es * ?n) temp"]) (metis append_take_drop_id diff_add_inverse distrib_left length_drop)
    qed
    then obtain rest where temp: "temp = vec_cells v @ rest" "length rest = ?es * m" by blast
    have cells: "length (vec_cells v) = ?es * ?n" using assms(1) by (simp add: vec_inv_def)
    have "memcpy_at temp (?es * ?n) e (?es * m) = vec_cells v @ e"
      using temp cells assms(3) by (simp add: memcpy_at_def)
    then have res: "r = Success" "x = Some (v\<lparr>vec_storage := Some (vec_cells v @ e), vec_count := ?n + m\<rparr>)" "h' = h1"
      using assms(2,5) re(1) by (simp_all add: VECTOR_push_back_def cur app tot cnt)
    let ?v = "v\<lparr>vec_storage := Some (vec_cells v @ e), vec_count := ?n + m\<rparr>"
    have all: "vec_cells ?v = vec_cells v @ e" using cells assms(3) by (simp add: vec_cells_def algebra_simps)
    have "vec_inv ?v" using inv(1) assms(2-4) cells unfolding vec_inv_def all by (simp add: algebra_simps)
    moreover have "vec_list ?v = vec_list v @ map (chunk ?es e) [0..<m]"
      using chunks_append [OF cells, of e m] by (simp add: vec_list_def all)
    ultimately show ?thesis using True res re(2) by (simp add: vec_blocks_def)
  qed
qed

text \<open>Erasing \<open>m\<close> elements from the \<open>i\<close>-th on; every other pointer or number changes nothing.\<close>

lemma chunks_erase:
  assumes "length xs = n * k" and "i + m \<le> k"
  shows "map (chunk n (take (n * i) xs @ drop (n * (i + m)) xs)) [0..<k - m]
    = take i (map (chunk n xs) [0..<k]) @ drop (i + m) (map (chunk n xs) [0..<k])"
proof -
  define as bs cs where "as = take (n * i) xs" and "bs = take (n * m) (drop (n * i) xs)" and "cs = drop (n * (i + m)) xs"
  have le: "n * i + n * m \<le> n * k" using assms(2) mult_le_mono2 [of "i + m" k n] by (simp add: algebra_simps)
  have len: "length as = n * i" "length bs = n * m" "length (as @ bs) = n * (i + m)"
    using assms(1) le by (simp_all add: as_def bs_def algebra_simps)
  have xs: "xs = as @ bs @ cs" unfolding as_def bs_def cs_def
    by (metis append_take_drop_id drop_drop add.commute distrib_left)
  have "map (chunk n xs) [0..<k] = (map (chunk n as) [0..<i] @ map (chunk n bs) [0..<m]) @ map (chunk n cs) [0..<k - (i + m)]"
    using chunks_append [OF len(3), of cs "k - (i + m)"] chunks_append [OF len(1), of bs m] assms(2) xs by simp
  moreover have "map (chunk n (as @ cs)) [0..<k - m] = map (chunk n as) [0..<i] @ map (chunk n cs) [0..<k - (i + m)]"
    using chunks_append [OF len(1), of cs "k - (i + m)"] assms(2) by simp
  ultimately show ?thesis unfolding as_def [symmetric] cs_def [symmetric] by simp
qed

lemma VECTOR_erase_result:
  assumes "vec_inv v" and "m > 0" and "i + m \<le> vec_count v"
    and "VECTOR_erase cell (Some v) (Some (int (vec_elementSize v * i))) m h = (x, h')"
  shows "\<exists>v'. x = Some v' \<and> vec_inv v' \<and> vec_elementSize v' = vec_elementSize v \<and>
    vec_list v' = take i (vec_list v) @ drop (i + m) (vec_list v) \<and>
    mem_live h' - vec_blocks v' = mem_live h - vec_blocks v"
proof -
  let ?es = "vec_elementSize v" and ?n = "vec_count v"
  note inv = vec_invD [OF assms(1)]
  obtain b where b: "vec_storage v = Some b" "?es * ?n \<le> length b" using inv(5) assms(2,3) by auto
  have le: "?es * i + ?es * m \<le> ?es * ?n" using assms(3) mult_le_mono2 [of "i + m" ?n ?es] by (simp add: algebra_simps)
  have sizes: "size_mult ?es ?n = ?es * ?n" "size_mult ?es m = ?es * m" "size_mult ?es (?n - m) = ?es * (?n - m)"
    using inv(2) le le_trans [OF mult_le_mono2 [of "?n - m" ?n ?es] inv(2)] by (auto intro!: size_mult_small)
  have minus: "size_minus ?n m = ?n - m" using assms(3) inv(3) by (intro size_minus_small) simp_all
  have cells: "length (vec_cells v) = ?es * ?n" using assms(1) by (simp add: vec_inv_def)
  show ?thesis
  proof (cases "?n - m = 0")
    case True
    then have "i = 0" "?n = m" using assms(3) by simp_all
    then show ?thesis
      using assms(2,4) inv(1) b
      by (auto simp: VECTOR_erase_def sizes minus vec_inv_def vec_cells_def vec_list_def vec_blocks_def c_free_def Let_def)
  next
    case False
    let ?k = "?n - m"
    define moved where "moved = memcpy_at b (?es * i) (drop (?es * i + ?es * m) b) (?es * ?n - (?es * i + ?es * m))"
    have rest: "?es * i + (?es * ?n - (?es * i + ?es * m)) = ?es * ?k" using le by (simp add: algebra_simps)
    have len: "length moved = length b" using b(2) le by (simp add: moved_def)
    have smaller: "?es * ?k \<le> ?es * ?n" by (rule mult_le_mono2) simp
    have pre: "take (?es * ?k) moved = take (?es * i) (vec_cells v) @ drop (?es * (i + m)) (vec_cells v)"
    proof -
      have "?es * i \<le> length b" "length (take (?es * ?n - (?es * i + ?es * m)) (drop (?es * i + ?es * m) b))
          = ?es * ?n - (?es * i + ?es * m)" using b(2) le by auto
      then have "take (?es * ?k) moved = take (?es * i) b @ take (?es * ?n - (?es * i + ?es * m)) (drop (?es * i + ?es * m) b)"
        unfolding rest [symmetric] moved_def memcpy_at_def by simp
      then show ?thesis using b le assms(3) by (simp add: vec_cells_def drop_take min_def algebra_simps)
    qed
    have run: "(x, h') = (case realloc_block cell (Some moved) (?es * ?k) h of
        (None, h1) \<Rightarrow> (Some (v\<lparr>vec_count := ?k, vec_storage := Some moved\<rparr>), h1)
      | (Some tmp, h1) \<Rightarrow> (Some (v\<lparr>vec_count := ?k, vec_storage := Some tmp\<rparr>), h1))"
      using assms(2,4) False le b(1)
      by (simp add: VECTOR_erase_def sizes minus moved_def Let_def del: of_nat_mult split: option.splits prod.splits)
    obtain t h1 where t: "x = Some (v\<lparr>vec_count := ?k, vec_storage := Some t\<rparr>)" "h' = h1"
      "mem_live h1 = mem_live h" "?es * ?k \<le> length t" "take (?es * ?k) t = take (?es * ?k) moved"
    proof (cases "granted h")
      case True
      let ?t = "take (?es * ?k) moved @ drop (length moved) (fresh_block cell (?es * ?k) h)"
      have ek: "?es * ?k \<le> length b" using b(2) smaller by (rule order_trans [rotated])
      have "x = Some (v\<lparr>vec_count := ?k, vec_storage := Some ?t\<rparr>)" "h' = after_request 0 h"
        using run True by (simp_all add: realloc_block_def)
      then show ?thesis using that [of ?t "after_request 0 h"] ek len by (simp add: after_request_def)
    next
      case no: False
      have "x = Some (v\<lparr>vec_count := ?k, vec_storage := Some moved\<rparr>)" "h' = after_request 0 h"
        using run no by (simp_all add: realloc_block_def)
      then show ?thesis
        using that [of moved "after_request 0 h"] len order_trans [OF smaller b(2)] by (simp add: after_request_def)
    qed
    let ?v = "v\<lparr>vec_count := ?k, vec_storage := Some t\<rparr>"
    have all: "vec_cells ?v = take (?es * i) (vec_cells v) @ drop (?es * (i + m)) (vec_cells v)"
      using t(5) pre by (simp add: vec_cells_def)
    have "length (vec_cells ?v) = ?es * ?k" using t(4) by (simp add: vec_cells_def)
    then have "vec_inv ?v"
      using inv(1) False order_trans [OF smaller inv(2)] by (simp add: vec_inv_def)
    moreover have "vec_list ?v = take i (vec_list v) @ drop (i + m) (vec_list v)"
      using chunks_erase [OF cells assms(3)] by (simp add: vec_list_def all)
    ultimately show ?thesis using t b(1) by (simp add: vec_blocks_def)
  qed
qed

text \<open>A pointer that is no element, or too many elements from it on: nothing changes.\<close>

lemma VECTOR_erase_refused:
  assumes "vec_inv v" and "vec_elementSize v * m \<le> SIZE_MAX"
    and "m = 0 \<or> p < 0 \<or> nat p mod vec_elementSize v \<noteq> 0 \<or> nat p div vec_elementSize v + m > vec_count v"
  shows "VECTOR_erase cell (Some v) (Some p) m h = (Some v, h)"
proof -
  let ?es = "vec_elementSize v"
  note inv = vec_invD [OF assms(1)]
  have sizes: "size_mult ?es (vec_count v) = ?es * vec_count v" "size_mult ?es m = ?es * m"
    using inv(2) assms(2) by (auto intro!: size_mult_small)
  have "nat p + ?es * m > ?es * vec_count v" if "nat p mod ?es = 0" "nat p div ?es + m > vec_count v"
  proof -
    have "nat p = ?es * (nat p div ?es)" using that(1) by (metis add.right_neutral mult_div_mod_eq)
    moreover have "?es * (nat p div ?es + m) > ?es * vec_count v" using that(2) inv(1) by (intro mult_less_mono2)
    ultimately show ?thesis by (simp add: distrib_left)
  qed
  then show ?thesis using assms(3) by (auto simp: VECTOR_erase_def sizes Let_def)
qed

text \<open>Access: the pointer to an element, what it points to, and the search.\<close>

lemma vec_at_element:
  assumes "vec_inv v" and "i < vec_count v"
  shows "VECTOR_element (Some v) i = Some (vec_elementSize v * i)" and "vec_at v (vec_elementSize v * i) = vec_list v ! i"
proof -
  let ?es = "vec_elementSize v"
  note inv = vec_invD [OF assms(1)]
  have le: "?es * Suc i \<le> ?es * vec_count v" using assms(2) by (intro mult_le_mono2) simp
  show "VECTOR_element (Some v) i = Some (?es * i)"
    using assms(2) le inv(2) by (simp add: VECTOR_element_def size_mult_small)
  obtain b where b: "vec_storage v = Some b" "?es * vec_count v \<le> length b" using inv(5) assms(2) by auto
  show "vec_at v (?es * i) = vec_list v ! i"
    using assms(2) b le by (simp add: vec_at_def vec_list_def chunk_def vec_cells_def drop_take min_def)
qed

lemma find_if_loop_result:
  assumes "vec_inv v"
  shows "i \<le> vec_count v \<Longrightarrow> VECTOR_find_if_loop v f i
    = i + length (takeWhile (\<lambda>e. \<not> f e) (drop i (vec_list v)))"
proof (induction "vec_count v - i" arbitrary: i)
  case 0
  then show ?case by (simp add: VECTOR_find_if_loop.simps [of v f i])
next
  case (Suc n)
  then have i: "i < vec_count v" by simp
  have at: "vec_at v (size_mult (vec_elementSize v) i) = vec_list v ! i"
    using vec_at_element [OF assms i] by (simp add: VECTOR_element_def i split: if_splits)
  have "drop i (vec_list v) = vec_list v ! i # drop (Suc i) (vec_list v)" using i by (simp add: Cons_nth_drop_Suc)
  then show ?case
    using Suc.hyps(1) [of "i + 1"] Suc.hyps(2) i at by (simp add: VECTOR_find_if_loop.simps [of v f i])
qed

lemma VECTOR_find_if_result:
  assumes "vec_inv v"
  shows "map_option (vec_at v) (VECTOR_find_if (Some v) (Some f)) = find f (vec_list v)"
proof -
  let ?n = "length (takeWhile (\<lambda>e. \<not> f e) (vec_list v))"
  have i: "VECTOR_find_if_loop v f 0 = ?n" using find_if_loop_result [OF assms, of 0 f] by simp
  have "find f xs = (if length (takeWhile (\<lambda>e. \<not> f e) xs) = length xs then None
      else Some (xs ! length (takeWhile (\<lambda>e. \<not> f e) xs)))" for xs :: "'a list list"
    by (induction xs) auto
  moreover have "vec_at v (size_mult (vec_elementSize v) ?n) = vec_list v ! ?n" if n: "?n < vec_count v"
    using vec_at_element [OF assms n] n by (simp add: VECTOR_element_def)
  moreover have "?n \<le> vec_count v" using length_takeWhile_le [of "\<lambda>e. \<not> f e" "vec_list v"] by simp
  ultimately show ?thesis by (auto simp: VECTOR_find_if_def i)
qed

section \<open>Runs\<close>

datatype 'a vec_call = PushBack "'a list" nat | Erase int nat | Clear

fun vec_step :: "(byte \<Rightarrow> 'a) \<Rightarrow> 'a vec_call \<Rightarrow> 'a VECTOR \<times> heap \<Rightarrow> rc \<times> 'a VECTOR option \<times> heap" where
  "vec_step cell (PushBack e m) (v, h) = VECTOR_push_back cell (Some v) (Some e) m h"
| "vec_step cell (Erase p m) (v, h) = (Success, VECTOR_erase cell (Some v) (Some p) m h)"
| "vec_step cell Clear (v, h) = (Success, VECTOR_clear (Some v) h)"

text \<open>What the caller owes: a block of as many elements as announced, and sizes within \<open>size_t\<close>.\<close>

fun vec_allowed :: "'a vec_call \<Rightarrow> 'a VECTOR \<Rightarrow> bool" where
  "vec_allowed (PushBack e m) v \<longleftrightarrow> length e = vec_elementSize v * m \<and> vec_elementSize v * (vec_count v + m) \<le> SIZE_MAX"
| "vec_allowed (Erase p m) v \<longleftrightarrow> vec_elementSize v * m \<le> SIZE_MAX"
| "vec_allowed Clear v \<longleftrightarrow> True"

inductive vec_run :: "(byte \<Rightarrow> 'a) \<Rightarrow> nat \<Rightarrow> heap \<Rightarrow> ('a vec_call \<times> rc) list \<Rightarrow> 'a VECTOR \<times> heap \<Rightarrow> bool" for cell es h0 where
  vec_create: "VECTOR_create es h0 = (Some v, h) \<Longrightarrow> vec_run cell es h0 [] (v, h)"
| vec_call: "vec_run cell es h0 log (v, h) \<Longrightarrow> vec_allowed c v \<Longrightarrow> vec_step cell c (v, h) = (r, Some v', h') \<Longrightarrow>
     vec_run cell es h0 (log @ [(c, r)]) (v', h')"

inductive_cases vec_run_snocE: "vec_run cell es h0 (log @ [c]) s"

text \<open>The same calls on a list of elements.\<close>

fun list_step :: "nat \<Rightarrow> 'a vec_call \<times> rc \<Rightarrow> 'a list list \<Rightarrow> 'a list list" where
  "list_step es (PushBack e m, r) xs = (if r = Success then xs @ map (chunk es e) [0..<m] else xs)"
| "list_step es (Erase p m, r) xs =
     (if p < 0 \<or> nat p mod es \<noteq> 0 \<or> nat p div es + m > length xs then xs
      else take (nat p div es) xs @ drop (nat p div es + m) xs)"
| "list_step es (Clear, r) xs = []"

lemma vec_step_result:
  assumes "vec_inv v" and "vec_allowed c v" and "vec_step cell c (v, h) = (r, Some v', h')"
  shows "vec_inv v' \<and> vec_elementSize v' = vec_elementSize v \<and> vec_list v' = list_step (vec_elementSize v) (c, r) (vec_list v) \<and>
    mem_live h' - vec_blocks v' = mem_live h - vec_blocks v"
proof (cases c)
  case (PushBack e m)
  show ?thesis
  proof (cases "m = 0")
    case True
    then show ?thesis using assms PushBack by (simp add: VECTOR_push_back_def)
  next
    case False
    then show ?thesis
      using VECTOR_push_back_result [OF assms(1) _ _ _ assms(3) [unfolded PushBack vec_step.simps]] assms(1,2) PushBack
      by (auto split: if_splits)
  qed
next
  case (Erase p m)
  let ?es = "vec_elementSize v"
  have er: "VECTOR_erase cell (Some v) (Some p) m h = (Some v', h')" "r = Success" using assms(3) Erase by simp_all
  have small: "?es * m \<le> SIZE_MAX" using assms(2) Erase by simp
  show ?thesis
  proof (cases "m = 0 \<or> p < 0 \<or> nat p mod ?es \<noteq> 0 \<or> nat p div ?es + m > vec_count v")
    case True
    then have "v' = v" "h' = h" using VECTOR_erase_refused [OF assms(1) small True, of cell h] er by simp_all
    then show ?thesis using True assms(1) Erase by auto
  next
    case False
    let ?i = "nat p div ?es"
    have "nat p = ?es * ?i" using False by (metis add.right_neutral mult_div_mod_eq)
    then have p: "p = int (?es * ?i)" using False by linarith
    from False have m: "m > 0" "?i + m \<le> vec_count v" by simp_all
    have "VECTOR_erase cell (Some v) (Some (int (?es * ?i))) m h = (Some v', h')" using er(1) p by (simp only:)
    from VECTOR_erase_result [OF assms(1) m this] False Erase er(2) show ?thesis by simp
  qed
next
  case Clear
  then show ?thesis
    using assms(1,3)
    by (auto simp: VECTOR_clear_def vec_inv_def vec_cells_def vec_list_def vec_blocks_def c_free_def split: option.splits)
qed

lemma vec_run_result:
  "vec_run cell es h0 log s \<Longrightarrow> vec_inv (fst s) \<and> vec_elementSize (fst s) = es \<and>
     vec_list (fst s) = fold (list_step es) log [] \<and> mem_live (snd s) = mem_live h0 + vec_blocks (fst s)"
proof (induction rule: vec_run.induct)
  case (vec_create v h)
  then show ?case using VECTOR_create_result by fastforce
next
  case (vec_call log v h c r v' h')
  then show ?case using vec_step_result [of v c cell h r v' h'] by simp
qed

section \<open>The interface of an array\<close>

text \<open>What a loop over an array relies on: the number of elements, and reading by index.\<close>

locale indexed_sequence =
  fixes valid :: "'s \<Rightarrow> bool" and size_of :: "'s \<Rightarrow> nat" and element :: "'s \<Rightarrow> nat \<Rightarrow> 'e" and items :: "'s \<Rightarrow> 'e list"
  assumes size_items: "valid s \<Longrightarrow> size_of s = length (items s)"
    and element_items: "valid s \<Longrightarrow> i < size_of s \<Longrightarrow> element s i = items s ! i"
begin

text \<open>Reading every index in turn visits the elements in order.\<close>

lemma elements: "valid s \<Longrightarrow> map (element s) [0..<size_of s] = items s"
  by (rule nth_equalityI) (simp_all add: size_items element_items)

lemma loop_items: "valid s \<Longrightarrow> fold (\<lambda>i. f (element s i)) [0..<size_of s] x = fold f (items s) x"
  using fold_map [of f "element s" "[0..<size_of s]"] elements [of s] by (simp add: comp_def)

end

text \<open>An array that also grows, one element at a time, on an allocator.\<close>

locale growing_sequence = indexed_sequence valid size_of element items
  for valid :: "'s \<Rightarrow> bool" and size_of :: "'s \<Rightarrow> nat" and element :: "'s \<Rightarrow> nat \<Rightarrow> 'e" and items :: "'s \<Rightarrow> 'e list" +
  fixes push :: "'s \<Rightarrow> 'e \<Rightarrow> heap \<Rightarrow> rc \<times> 's \<times> heap" and blocks :: "'s \<Rightarrow> int" and limit :: nat
  assumes push_valid: "valid s \<Longrightarrow> size_of s < limit \<Longrightarrow> push s e h = (r, s', h') \<Longrightarrow> valid s'"
    and push_items: "valid s \<Longrightarrow> size_of s < limit \<Longrightarrow> push s e h = (r, s', h') \<Longrightarrow>
        items s' = (if r = Success then items s @ [e] else items s)"
    and push_blocks: "valid s \<Longrightarrow> size_of s < limit \<Longrightarrow> push s e h = (r, s', h') \<Longrightarrow>
        mem_live h' - blocks s' = mem_live h - blocks s"
begin

lemma push_size:
  "valid s \<Longrightarrow> size_of s < limit \<Longrightarrow> push s e h = (r, s', h') \<Longrightarrow>
     size_of s' = (if r = Success then Suc (size_of s) else size_of s)"
  using push_valid push_items size_items by (metis length_append_singleton)

end

text \<open>A vector whose elements are single cells.\<close>

definition cells_valid :: "'a VECTOR \<Rightarrow> bool" where
  "cells_valid v \<longleftrightarrow> vec_inv v \<and> vec_elementSize v = 1"

definition cell_element :: "'a VECTOR \<Rightarrow> nat \<Rightarrow> 'a" where
  "cell_element v i = hd (vec_at v (the (VECTOR_element (Some v) i)))"

definition cell_push :: "(byte \<Rightarrow> 'a) \<Rightarrow> 'a VECTOR \<Rightarrow> 'a \<Rightarrow> heap \<Rightarrow> rc \<times> 'a VECTOR \<times> heap" where
  "cell_push cell v e h =
     (case VECTOR_push_back cell (Some v) (Some [e]) 1 h of (r, x, h') \<Rightarrow> (r, the x, h'))"

definition cell_items :: "'a VECTOR \<Rightarrow> 'a list" where
  "cell_items v = map hd (vec_list v)"

interpretation vector_cells: growing_sequence cells_valid "\<lambda>v. VECTOR_size (Some v)" cell_element cell_items
    "cell_push cell" vec_blocks SIZE_MAX for cell :: "byte \<Rightarrow> 'a"
proof unfold_locales
  fix v :: "'a VECTOR" and i
  assume v: "cells_valid v"
  then show "VECTOR_size (Some v) = length (cell_items v)" by (simp add: VECTOR_size_def cell_items_def)
  assume "i < VECTOR_size (Some v)"
  then show "cell_element v i = cell_items v ! i"
    using v vec_at_element [of v i] by (simp add: VECTOR_size_def cell_element_def cell_items_def cells_valid_def)
next
  fix v v' :: "'a VECTOR" and e h r h'
  assume v: "cells_valid v" and lt: "VECTOR_size (Some v) < SIZE_MAX" and push: "cell_push cell v e h = (r, v', h')"
  then obtain x where x: "VECTOR_push_back cell (Some v) (Some [e]) 1 h = (r, x, h')" "v' = the x"
    by (auto simp: cell_push_def split: prod.splits)
  have inv: "vec_inv v" "vec_elementSize v = 1" using v by (simp_all add: cells_valid_def)
  have one: "map (chunk 1 [e]) [0..<1] = [[e]]" by (simp add: chunk_def)
  note res = VECTOR_push_back_result [OF inv(1) _ _ _ x(1), unfolded inv(2), simplified]
  show "cells_valid v'" "cell_items v' = (if r = Success then cell_items v @ [e] else cell_items v)"
    "mem_live h' - vec_blocks v' = mem_live h - vec_blocks v"
    using res lt x(2) inv one by (auto simp: VECTOR_size_def cells_valid_def cell_items_def split: if_splits)
qed

text \<open>The bound check of an erasure multiplies without regard to overflow: half the range of \<open>size_t\<close>
  as the number of two-byte elements passes for nothing, and the count goes below zero.\<close>

lemma VECTOR_erase_wraps:
  assumes "granted h"
  shows "map_option vec_count (fst (VECTOR_erase id (Some \<lparr>vec_storage = Some [1, 2], vec_count = 1, vec_elementSize = 2\<rparr>)
      (Some 0) (2 ^ 63) h)) = Some (2 ^ 63 + 1)"
  using assms
  by (simp add: VECTOR_erase_def size_mult_def size_minus_def SIZE_MAX_def realloc_block_def malloc_block_def Let_def
      split: option.split prod.split)

section \<open>Properties\<close>



text \<open>\<open>VECTOR_find_if\<close> finds the first element that satisfies the predicate, and null exactly
  when there is none.\<close>

theorem vector_find_first:
  assumes "vec_inv v"
  shows "map_option (vec_at v) (VECTOR_find_if (Some v) (Some f)) = find f (vec_list v)"
  by (rule VECTOR_find_if_result [OF assms])

theorem vector_find_first_witness:
  "map_option (vec_at \<lparr>vec_storage = Some [5, 6, 7 :: nat], vec_count = 3, vec_elementSize = 1\<rparr>)
     (VECTOR_find_if (Some \<lparr>vec_storage = Some [5, 6, 7 :: nat], vec_count = 3, vec_elementSize = 1\<rparr>) (Some (\<lambda>e. hd e > 5))) = Some [6]"
  using vector_find_first [of "\<lparr>vec_storage = Some [5, 6, 7 :: nat], vec_count = 3, vec_elementSize = 1\<rparr>" "\<lambda>e. hd e > 5"]
  by (simp add: vec_inv_def vec_cells_def vec_list_def chunk_def SIZE_MAX_def upt_rec)

end
