(* ===== verification/OptionHandler.thy ===== *)
theory OptionHandler
  imports Vectors Crt_Abstractions
begin

text \<open>
  The option handler of \<open>src/optionhandler.c\<close>: options kept as copies in a vector, to be set
  again on another object. The three callbacks that copy, destroy and set an option belong to
  the user of the handler; they are functions stored in it, with their effect on the allocator
  or on the object they set.
\<close>

section \<open>The functions of the source\<close>

record 'v OPTION =
  option_name :: "char list"
  option_storage :: "'v option"

datatype OPTIONHANDLER_RESULT = OPTIONHANDLER_OK | OPTIONHANDLER_ERROR | OPTIONHANDLER_INVALIDARG

record ('v, 'd) OPTIONHANDLER_HANDLE_DATA =
  cloneOption :: "char list \<Rightarrow> 'v option \<Rightarrow> heap \<Rightarrow> 'v option \<times> heap"
  destroyOption :: "char list \<Rightarrow> 'v option \<Rightarrow> heap \<Rightarrow> heap"
  setOption :: "'d \<Rightarrow> char list \<Rightarrow> 'v option \<Rightarrow> rc \<times> 'd"
  oh_storage :: "'v OPTION VECTOR"

text \<open>What a cell of a fresh array holds, never read before it is written.\<close>

definition option_cell :: "byte \<Rightarrow> 'v OPTION" where
  "option_cell b = \<lparr>option_name = [], option_storage = None\<rparr>"

definition CreateInternal ::
  "(char list \<Rightarrow> 'v option \<Rightarrow> heap \<Rightarrow> 'v option \<times> heap) \<Rightarrow> (char list \<Rightarrow> 'v option \<Rightarrow> heap \<Rightarrow> heap) \<Rightarrow>
     ('d \<Rightarrow> char list \<Rightarrow> 'v option \<Rightarrow> rc \<times> 'd) \<Rightarrow> heap \<Rightarrow> ('v, 'd) OPTIONHANDLER_HANDLE_DATA option \<times> heap" where
  "CreateInternal clone destroy setter h =
     (case malloc_struct h of
        (False, h1) \<Rightarrow> (None, h1)
      | (True, h1) \<Rightarrow>
          (case VECTOR_create 1 h1 of
             (None, h2) \<Rightarrow> (None, free_struct h2)
           | (Some v, h2) \<Rightarrow>
               (Some \<lparr>cloneOption = clone, destroyOption = destroy, setOption = setter, oh_storage = v\<rparr>, h2)))"

definition AddOptionInternal ::
  "('v, 'd) OPTIONHANDLER_HANDLE_DATA \<Rightarrow> char list \<Rightarrow> 'v option \<Rightarrow> heap \<Rightarrow>
     OPTIONHANDLER_RESULT \<times> ('v, 'd) OPTIONHANDLER_HANDLE_DATA \<times> heap" where
  "AddOptionInternal handle name value h =
     (case mallocAndStrcpy_s (Some name) h of
        (CRT_OK, Some cloneOfName, h1) \<Rightarrow>
          (case cloneOption handle name value h1 of
             (None, h2) \<Rightarrow> (OPTIONHANDLER_ERROR, handle, c_free (Some cloneOfName) h2)
           | (Some cloneOfValue, h2) \<Rightarrow>
               (case cell_push option_cell (oh_storage handle)
                       \<lparr>option_name = cloneOfName, option_storage = Some cloneOfValue\<rparr> h2 of
                  (Failure, v, h3) \<Rightarrow>
                    (OPTIONHANDLER_ERROR, handle\<lparr>oh_storage := v\<rparr>,
                     c_free (Some cloneOfName) (destroyOption handle name (Some cloneOfValue) h3))
                | (Success, v, h3) \<Rightarrow> (OPTIONHANDLER_OK, handle\<lparr>oh_storage := v\<rparr>, h3)))
      | (_, _, h1) \<Rightarrow> (OPTIONHANDLER_ERROR, handle, h1))"

text \<open>The options that a loop over the indices of the vector reads.\<close>

definition options_read :: "('v, 'd) OPTIONHANDLER_HANDLE_DATA \<Rightarrow> 'v OPTION list" where
  "options_read handle = map (cell_element (oh_storage handle)) [0..<VECTOR_size (Some (oh_storage handle))]"

fun destroy_loop :: "(char list \<Rightarrow> 'v option \<Rightarrow> heap \<Rightarrow> heap) \<Rightarrow> 'v OPTION list \<Rightarrow> heap \<Rightarrow> heap" where
  "destroy_loop destroy [] h = h"
| "destroy_loop destroy (opt # opts) h =
     destroy_loop destroy opts (c_free (Some (option_name opt)) (destroy (option_name opt) (option_storage opt) h))"

definition DestroyInternal :: "('v, 'd) OPTIONHANDLER_HANDLE_DATA \<Rightarrow> heap \<Rightarrow> heap" where
  "DestroyInternal handle h =
     free_struct (VECTOR_destroy (Some (oh_storage handle)) (destroy_loop (destroyOption handle) (options_read handle) h))"

text \<open>The function pointers may be null.\<close>

definition OptionHandler_Create ::
  "(char list \<Rightarrow> 'v option \<Rightarrow> heap \<Rightarrow> 'v option \<times> heap) option \<Rightarrow> (char list \<Rightarrow> 'v option \<Rightarrow> heap \<Rightarrow> heap) option \<Rightarrow>
     ('d \<Rightarrow> char list \<Rightarrow> 'v option \<Rightarrow> rc \<times> 'd) option \<Rightarrow> heap \<Rightarrow> ('v, 'd) OPTIONHANDLER_HANDLE_DATA option \<times> heap" where
  "OptionHandler_Create clone destroy setter h =
     (case (clone, destroy, setter) of
        (Some c, Some d, Some s) \<Rightarrow> CreateInternal c d s h
      | _ \<Rightarrow> (None, h))"

fun clone_loop ::
  "'v OPTION list \<Rightarrow> ('v, 'd) OPTIONHANDLER_HANDLE_DATA \<Rightarrow> heap \<Rightarrow> bool \<times> ('v, 'd) OPTIONHANDLER_HANDLE_DATA \<times> heap" where
  "clone_loop [] result h = (True, result, h)"
| "clone_loop (opt # opts) result h =
     (case AddOptionInternal result (option_name opt) (option_storage opt) h of
        (OPTIONHANDLER_OK, result1, h1) \<Rightarrow> clone_loop opts result1 h1
      | (_, result1, h1) \<Rightarrow> (False, result1, h1))"

definition OptionHandler_Clone ::
  "('v, 'd) OPTIONHANDLER_HANDLE_DATA option \<Rightarrow> heap \<Rightarrow> ('v, 'd) OPTIONHANDLER_HANDLE_DATA option \<times> heap" where
  "OptionHandler_Clone handler h =
     (case handler of
        None \<Rightarrow> (None, h)
      | Some d \<Rightarrow>
          (case CreateInternal (cloneOption d) (destroyOption d) (setOption d) h of
             (None, h1) \<Rightarrow> (None, h1)
           | (Some result, h1) \<Rightarrow>
               (case clone_loop (options_read d) result h1 of
                  (False, result1, h2) \<Rightarrow> (None, DestroyInternal result1 h2)
                | (True, result1, h2) \<Rightarrow> (Some result1, h2))))"

definition OptionHandler_AddOption ::
  "('v, 'd) OPTIONHANDLER_HANDLE_DATA option \<Rightarrow> char list option \<Rightarrow> 'v option \<Rightarrow> heap \<Rightarrow>
     OPTIONHANDLER_RESULT \<times> ('v, 'd) OPTIONHANDLER_HANDLE_DATA option \<times> heap" where
  "OptionHandler_AddOption handle name value h =
     (case (handle, name, value) of
        (Some d, Some n, Some v) \<Rightarrow>
          (case AddOptionInternal d n (Some v) h of (r, d1, h1) \<Rightarrow> (r, Some d1, h1))
      | _ \<Rightarrow> (OPTIONHANDLER_INVALIDARG, handle, h))"

fun feed_loop :: "('d \<Rightarrow> char list \<Rightarrow> 'v option \<Rightarrow> rc \<times> 'd) \<Rightarrow> 'v OPTION list \<Rightarrow> 'd \<Rightarrow> bool \<times> 'd" where
  "feed_loop setter [] destination = (True, destination)"
| "feed_loop setter (opt # opts) destination =
     (case setter destination (option_name opt) (option_storage opt) of
        (Failure, d1) \<Rightarrow> (False, d1)
      | (Success, d1) \<Rightarrow> feed_loop setter opts d1)"

definition OptionHandler_FeedOptions ::
  "('v, 'd) OPTIONHANDLER_HANDLE_DATA option \<Rightarrow> 'd option \<Rightarrow> OPTIONHANDLER_RESULT \<times> 'd option" where
  "OptionHandler_FeedOptions handle destinationHandle =
     (case (handle, destinationHandle) of
        (Some d, Some dest) \<Rightarrow>
          (case feed_loop (setOption d) (options_read d) dest of
             (fed, dest1) \<Rightarrow> (if fed then OPTIONHANDLER_OK else OPTIONHANDLER_ERROR, Some dest1))
      | _ \<Rightarrow> (OPTIONHANDLER_INVALIDARG, destinationHandle))"

definition OptionHandler_Destroy :: "('v, 'd) OPTIONHANDLER_HANDLE_DATA option \<Rightarrow> heap \<Rightarrow> heap" where
  "OptionHandler_Destroy handle h = (case handle of None \<Rightarrow> h | Some d \<Rightarrow> DestroyInternal d h)"

section \<open>The contract of the callbacks\<close>

text \<open>
  What the handler relies on: a copy costs as many blocks as destroying it gives back
  (\<open>weight\<close>), a refused copy costs nothing, and a copy under a copied name is set like the
  original.
\<close>

definition balanced_callbacks ::
  "('v \<Rightarrow> int) \<Rightarrow> (char list \<Rightarrow> 'v option \<Rightarrow> heap \<Rightarrow> 'v option \<times> heap) \<Rightarrow> (char list \<Rightarrow> 'v option \<Rightarrow> heap \<Rightarrow> heap) \<Rightarrow> bool" where
  "balanced_callbacks weight clone destroy \<longleftrightarrow>
     (\<forall>n v h. case clone n v h of
        (None, h') \<Rightarrow> mem_live h' = mem_live h
      | (Some w, h') \<Rightarrow> mem_live h' = mem_live h + weight w) \<and>
     (\<forall>n w h. mem_live (destroy n (Some w) h) = mem_live h - weight w)"

definition copies_alike ::
  "(char list \<Rightarrow> 'v option \<Rightarrow> heap \<Rightarrow> 'v option \<times> heap) \<Rightarrow> ('d \<Rightarrow> char list \<Rightarrow> 'v option \<Rightarrow> rc \<times> 'd) \<Rightarrow> bool" where
  "copies_alike clone setter \<longleftrightarrow>
     (\<forall>n v h w h' dest. terminated n \<and> clone n v h = (Some w, h') \<longrightarrow>
        setter dest (cstr n @ [NUL]) (Some w) = setter dest n v)"

text \<open>A copy that the callback made at some time.\<close>

definition copy_made :: "(char list \<Rightarrow> 'v option \<Rightarrow> heap \<Rightarrow> 'v option \<times> heap) \<Rightarrow> char list \<Rightarrow> 'v option \<Rightarrow> 'v \<Rightarrow> bool" where
  "copy_made clone n v w \<longleftrightarrow> (\<exists>h h'. clone n v h = (Some w, h'))"

lemma copy_made_alike:
  "copies_alike clone setter \<Longrightarrow> terminated n \<Longrightarrow> copy_made clone n v w \<Longrightarrow>
     setter dest (cstr n @ [NUL]) (Some w) = setter dest n v"
  unfolding copies_alike_def copy_made_def by blast

section \<open>Adding, cloning and destroying\<close>

abbreviation stored :: "('v, 'd) OPTIONHANDLER_HANDLE_DATA \<Rightarrow> 'v OPTION list" where
  "stored handle \<equiv> cell_items (oh_storage handle)"

definition option_ok :: "'v OPTION \<Rightarrow> bool" where
  "option_ok opt \<longleftrightarrow> terminated (option_name opt) \<and> option_storage opt \<noteq> None"

definition handler_ok :: "('v, 'd) OPTIONHANDLER_HANDLE_DATA \<Rightarrow> bool" where
  "handler_ok d \<longleftrightarrow> cells_valid (oh_storage d) \<and> list_all option_ok (stored d)"

definition handler_blocks :: "('v \<Rightarrow> int) \<Rightarrow> ('v, 'd) OPTIONHANDLER_HANDLE_DATA \<Rightarrow> int" where
  "handler_blocks weight d =
     1 + vec_blocks (oh_storage d) + sum_list (map (\<lambda>opt. 1 + weight (the (option_storage opt))) (stored d))"

definition same_callbacks :: "('v, 'd) OPTIONHANDLER_HANDLE_DATA \<Rightarrow> ('v, 'd) OPTIONHANDLER_HANDLE_DATA \<Rightarrow> bool" where
  "same_callbacks d d' \<longleftrightarrow>
     cloneOption d' = cloneOption d \<and> destroyOption d' = destroyOption d \<and> setOption d' = setOption d"

lemma options_read_stored: "handler_ok d \<Longrightarrow> options_read d = stored d"
  by (simp add: options_read_def handler_ok_def vector_cells.elements)

lemma CreateInternal_result:
  fixes c :: "char list \<Rightarrow> 'v option \<Rightarrow> heap \<Rightarrow> 'v option \<times> heap"
  assumes "CreateInternal c de s h = (r, h')"
  shows "case r of None \<Rightarrow> mem_live h' = mem_live h
    | Some d \<Rightarrow> handler_ok d \<and> stored d = [] \<and> cloneOption d = c \<and> destroyOption d = de \<and> setOption d = s \<and>
        mem_live h' = mem_live h + handler_blocks weight d"
proof (cases "granted h")
  case False
  then show ?thesis using assms by (auto simp: CreateInternal_def malloc_struct_def after_request_def)
next
  case True
  obtain v :: "'v OPTION VECTOR option" and h2 where v: "VECTOR_create 1 (after_request 1 h) = (v, h2)" by (metis surj_pair)
  show ?thesis
    using assms True v VECTOR_create_result [OF v]
    by (cases v) (auto simp: CreateInternal_def malloc_struct_def after_request_def free_struct_def handler_ok_def
        cells_valid_def cell_items_def handler_blocks_def)
qed

lemma AddOptionInternal_result:
  assumes "handler_ok d" and "terminated n" and "length (stored d) < SIZE_MAX"
    and "AddOptionInternal d n v h = (r, d', h')"
  shows "handler_ok d' \<and> same_callbacks d d' \<and> r \<noteq> OPTIONHANDLER_INVALIDARG \<and>
    (if r = OPTIONHANDLER_OK
     then \<exists>w. copy_made (cloneOption d) n v w \<and>
        stored d' = stored d @ [\<lparr>option_name = cstr n @ [NUL], option_storage = Some w\<rparr>]
     else stored d' = stored d) \<and>
    (balanced_callbacks weight (cloneOption d) (destroyOption d) \<longrightarrow>
       mem_live h' - handler_blocks weight d' = mem_live h - handler_blocks weight d)"
proof (cases "granted h")
  case False
  then show ?thesis
    using assms by (auto simp: AddOptionInternal_def mallocAndStrcpy_s_result after_request_def same_callbacks_def)
next
  case True
  let ?n = "cstr n @ [NUL]"
  obtain w h2 where c: "cloneOption d n v (after_request 1 h) = (w, h2)" by (metis surj_pair)
  have ok: "cells_valid (oh_storage d)" "list_all option_ok (stored d)" using assms(1) by (simp_all add: handler_ok_def)
  have room: "VECTOR_size (Some (oh_storage d)) < SIZE_MAX" using assms(3) by (simp add: vector_cells.size_items [OF ok(1)])
  have clone_live: "mem_live h2 = mem_live h + 1 + (case w of None \<Rightarrow> 0 | Some x \<Rightarrow> weight x)"
    "mem_live (destroyOption d n (Some x) g) = mem_live g - weight x"
    if "balanced_callbacks weight (cloneOption d) (destroyOption d)" for x g
    using that c unfolding balanced_callbacks_def
    by (auto simp: after_request_def True split: option.splits dest!: spec [of _ n] spec [of _ v] spec [of _ "after_request 1 h"])
  show ?thesis
  proof (cases w)
    case None
    then show ?thesis
      using assms True c clone_live
      by (auto simp: AddOptionInternal_def mallocAndStrcpy_s_result after_request_def same_callbacks_def c_free_def)
  next
    case (Some x)
    let ?o = "\<lparr>option_name = ?n, option_storage = Some x\<rparr>"
    obtain q v' h3 where p: "cell_push option_cell (oh_storage d) ?o h2 = (q, v', h3)" by (metis prod_cases3)
    note push = vector_cells.push_valid [OF ok(1) room p] vector_cells.push_items [OF ok(1) room p]
      vector_cells.push_blocks [OF ok(1) room p]
    have oko: "option_ok ?o" by (simp add: option_ok_def)
    have copied: "copy_made (cloneOption d) n v x" using c Some unfolding copy_made_def by blast
    show ?thesis
      using assms(4) True c p Some push ok(2) oko copied clone_live
      by (cases q) (auto simp: AddOptionInternal_def mallocAndStrcpy_s_result [OF assms(2)] same_callbacks_def handler_ok_def
          handler_blocks_def c_free_def)
  qed
qed

lemma destroy_loop_live:
  assumes "balanced_callbacks weight c de" and "list_all option_ok opts"
  shows "mem_live (destroy_loop de opts h) = mem_live h - sum_list (map (\<lambda>opt. 1 + weight (the (option_storage opt))) opts)"
  using assms(2)
proof (induction opts arbitrary: h)
  case (Cons opt opts)
  then obtain w where "option_storage opt = Some w" by (auto simp: option_ok_def)
  then show ?case using Cons assms(1) by (simp add: c_free_def balanced_callbacks_def)
qed simp

lemma DestroyInternal_live:
  assumes "balanced_callbacks weight (cloneOption d) (destroyOption d)" and "handler_ok d"
  shows "mem_live (DestroyInternal d h) = mem_live h - handler_blocks weight d"
  using destroy_loop_live [OF assms(1), of "stored d" h] assms(2)
  by (simp add: DestroyInternal_def options_read_stored free_struct_def VECTOR_destroy_live handler_blocks_def handler_ok_def)

text \<open>Feeding the copies is feeding the originals.\<close>

lemma feed_append:
  "feed_loop s (xs @ ys) dest = (case feed_loop s xs dest of (True, d1) \<Rightarrow> feed_loop s ys d1 | (False, d1) \<Rightarrow> (False, d1))"
  by (induction xs arbitrary: dest) (auto split: rc.splits prod.splits)

lemma clone_loop_result:
  assumes "clone_loop opts d h = (okay, d', h')" and "handler_ok d" and "list_all option_ok opts"
    and "length (stored d) + length opts \<le> SIZE_MAX"
  shows "handler_ok d' \<and> same_callbacks d d' \<and>
    (balanced_callbacks weight (cloneOption d) (destroyOption d) \<longrightarrow>
       mem_live h' - handler_blocks weight d' = mem_live h - handler_blocks weight d) \<and>
    (okay \<and> copies_alike (cloneOption d) s \<longrightarrow>
       (\<forall>dest. feed_loop s (stored d') dest = feed_loop s (stored d @ opts) dest))"
  using assms
proof (induction opts arbitrary: d h)
  case Nil
  then show ?case by (simp add: same_callbacks_def)
next
  case (Cons opt opts)
  obtain r d1 h1 where add: "AddOptionInternal d (option_name opt) (option_storage opt) h = (r, d1, h1)" by (metis prod_cases3)
  have t: "terminated (option_name opt)" "length (stored d) < SIZE_MAX" using Cons.prems by (auto simp: option_ok_def)
  note res = AddOptionInternal_result [OF Cons.prems(2) t add, of weight]
  show ?case
  proof (cases "r = OPTIONHANDLER_OK")
    case False
    then show ?thesis using Cons.prems(1) add res by (cases r) auto
  next
    case True
    then obtain w where w: "copy_made (cloneOption d) (option_name opt) (option_storage opt) w"
      "stored d1 = stored d @ [\<lparr>option_name = cstr (option_name opt) @ [NUL], option_storage = Some w\<rparr>]" using res by auto
    have loop: "clone_loop opts d1 h1 = (okay, d', h')" using Cons.prems(1) add True by simp
    have same: "cloneOption d1 = cloneOption d" "destroyOption d1 = destroyOption d" "setOption d1 = setOption d"
      using res by (simp_all add: same_callbacks_def)
    have "length (stored d1) + length opts \<le> SIZE_MAX" using Cons.prems(4) w(2) by simp
    from Cons.IH [OF loop _ _ this] Cons.prems(3) res have ih: "handler_ok d' \<and> same_callbacks d1 d'"
      "balanced_callbacks weight (cloneOption d) (destroyOption d) \<longrightarrow>
         mem_live h' - handler_blocks weight d' = mem_live h1 - handler_blocks weight d1"
      "okay \<and> copies_alike (cloneOption d) s \<longrightarrow> (\<forall>dest. feed_loop s (stored d') dest = feed_loop s (stored d1 @ opts) dest)"
      using same by simp_all
    have "feed_loop s (stored d1 @ opts) dest = feed_loop s (stored d @ opt # opts) dest"
      if "copies_alike (cloneOption d) s" for dest
    proof -
      have "s e (cstr (option_name opt) @ [NUL]) (Some w) = s e (option_name opt) (option_storage opt)" for e
        using copy_made_alike [OF that t(1) w(1)] .
      then show ?thesis by (simp add: w(2) feed_append split: prod.splits bool.splits)
    qed
    then show ?thesis using ih res same by (auto simp: same_callbacks_def)
  qed
qed

section \<open>Runs\<close>

text \<open>A handler from its creation over any additions, with the log of what was added and the result.\<close>

inductive handler_run for c de s h0 where
  handler_create: "OptionHandler_Create (Some c) (Some de) (Some s) h0 = (Some d, h) \<Longrightarrow> handler_run c de s h0 [] d h"
| handler_add: "handler_run c de s h0 log d h \<Longrightarrow> terminated n \<Longrightarrow> length (stored d) < SIZE_MAX \<Longrightarrow>
     OptionHandler_AddOption (Some d) (Some n) (Some v) h = (r, Some d', h') \<Longrightarrow>
     handler_run c de s h0 (log @ [((n, v), r)]) d' h'"

definition added :: "((char list \<times> 'v) \<times> OPTIONHANDLER_RESULT) list \<Rightarrow> 'v OPTION list" where
  "added log = map (\<lambda>((n, v), r). \<lparr>option_name = n, option_storage = Some v\<rparr>) (filter (\<lambda>e. snd e = OPTIONHANDLER_OK) log)"

lemma handler_run_result:
  assumes "handler_run c de s h0 log d h"
  shows "handler_ok d \<and> cloneOption d = c \<and> destroyOption d = de \<and> setOption d = s \<and>
    (balanced_callbacks weight c de \<longrightarrow> mem_live h = mem_live h0 + handler_blocks weight d) \<and>
    (copies_alike c s \<longrightarrow> (\<forall>dest. feed_loop s (stored d) dest = feed_loop s (added log) dest))"
  using assms
proof (induction rule: handler_run.induct)
  case (handler_create d h)
  then show ?case
    using CreateInternal_result [of c de s h0 "Some d" h weight] by (simp add: OptionHandler_Create_def added_def)
next
  case (handler_add log d h n v r d' h')
  have add: "AddOptionInternal d n (Some v) h = (r, d', h')"
    using handler_add.hyps(4) by (auto simp: OptionHandler_AddOption_def split: prod.splits)
  note ih = handler_add.IH
  note res = AddOptionInternal_result [OF conjunct1 [OF ih] handler_add.hyps(2,3) add, of weight]
  have feed: "feed_loop s (stored d') dest = feed_loop s (added (log @ [((n, v), r)])) dest" if "copies_alike c s" for dest
  proof (cases "r = OPTIONHANDLER_OK")
    case True
    then obtain w where w: "copy_made c n (Some v) w"
      "stored d' = stored d @ [\<lparr>option_name = cstr n @ [NUL], option_storage = Some w\<rparr>]" using res ih by auto
    have "s e (cstr n @ [NUL]) (Some w) = s e n (Some v)" for e
      using copy_made_alike [OF that handler_add.hyps(2) w(1)] .
    then show ?thesis using that True ih by (simp add: w(2) added_def feed_append split: prod.splits bool.splits)
  next
    case False
    then show ?thesis using that res ih by (simp add: added_def)
  qed
  have "balanced_callbacks weight c de \<Longrightarrow> mem_live h' = mem_live h0 + handler_blocks weight d'"
    using res ih by auto
  then show ?case using res ih feed by (simp add: same_callbacks_def)
qed

lemma OptionHandler_Clone_result:
  assumes "handler_ok d" and "length (stored d) \<le> SIZE_MAX" and "OptionHandler_Clone (Some d) h = (x, h')"
    and "balanced_callbacks weight (cloneOption d) (destroyOption d)"
  shows "case x of None \<Rightarrow> mem_live h' = mem_live h
    | Some e \<Rightarrow> handler_ok e \<and> same_callbacks d e \<and> mem_live h' = mem_live h + handler_blocks weight e \<and>
        (copies_alike (cloneOption d) (setOption d) \<longrightarrow>
           (\<forall>dest. feed_loop (setOption d) (stored e) dest = feed_loop (setOption d) (stored d) dest))"
proof -
  obtain m h1 where m: "CreateInternal (cloneOption d) (destroyOption d) (setOption d) h = (m, h1)" by (metis surj_pair)
  note created = CreateInternal_result [OF m, of weight]
  show ?thesis
  proof (cases m)
    case None
    then show ?thesis using assms(3) m created by (simp add: OptionHandler_Clone_def)
  next
    case (Some e0)
    then have e0: "handler_ok e0" "stored e0 = []" "cloneOption e0 = cloneOption d" "destroyOption e0 = destroyOption d"
      "setOption e0 = setOption d" "mem_live h1 = mem_live h + handler_blocks weight e0" using created by simp_all
    obtain okay e1 h2 where loop: "clone_loop (stored d) e0 h1 = (okay, e1, h2)" by (metis prod_cases3)
    have opts: "list_all option_ok (stored d)" using assms(1) by (simp add: handler_ok_def)
    note res = clone_loop_result [OF loop e0(1) opts, of weight "setOption d", unfolded e0(2,3,4), simplified, OF assms(2)]
    show ?thesis
    proof (cases okay)
      case True
      then have "x = Some e1" "h' = h2" using assms(1,3) m Some loop by (simp_all add: OptionHandler_Clone_def options_read_stored)
      then show ?thesis using True res e0 assms(4) by (simp add: same_callbacks_def)
    next
      case False
      then have x: "x = None" "h' = DestroyInternal e1 h2"
        using assms(1,3) m Some loop by (simp_all add: OptionHandler_Clone_def options_read_stored)
      have e1: "handler_ok e1" "balanced_callbacks weight (cloneOption e1) (destroyOption e1)"
        "mem_live h2 - handler_blocks weight e1 = mem_live h"
        using res e0 assms(4) by (auto simp: same_callbacks_def)
      show ?thesis using x DestroyInternal_live [OF e1(2,1), of h2] e1(3) by simp
    qed
  qed
qed

section \<open>Properties\<close>

text \<open>C27: The options are replayed in the order in which they were added: after any run of
  additions, some refused, feeding the options to an object sets exactly the accepted ones with
  the values that were passed, stops at the first one that the object refuses, and reports
  success if and only if none was refused; a clone of the handler does the same.\<close>

theorem options_replayed:
  assumes "handler_run c de s h0 log d h" and "copies_alike c s" and "balanced_callbacks weight c de"
    and "length (stored d) \<le> SIZE_MAX"
  shows "OptionHandler_FeedOptions (Some d) (Some dest) =
      (let (fed, dest') = feed_loop s (added log) dest in (if fed then OPTIONHANDLER_OK else OPTIONHANDLER_ERROR, Some dest')) \<and>
    (\<forall>e g. OptionHandler_Clone (Some d) h = (Some e, g) \<longrightarrow>
       OptionHandler_FeedOptions (Some e) (Some dest) = OptionHandler_FeedOptions (Some d) (Some dest))"
proof -
  have run: "handler_ok d" "cloneOption d = c" "destroyOption d = de" "setOption d = s"
    "feed_loop s (stored d) dest = feed_loop s (added log) dest"
    using handler_run_result [OF assms(1), of weight] assms(2) by auto
  have "feed_loop s (stored e) dest = feed_loop s (stored d) dest \<and> handler_ok e \<and> setOption e = s"
    if "OptionHandler_Clone (Some d) h = (Some e, g)" for e g
    using OptionHandler_Clone_result [OF run(1) assms(4) that, of weight] run assms(2,3) by (simp add: same_callbacks_def)
  then show ?thesis
    using run by (auto simp: OptionHandler_FeedOptions_def options_read_stored split: prod.splits)
qed

text \<open>The handler gives back what it took: when the callbacks are balanced, destroying the
  handler after any run frees every block of the run, destroying a clone frees every block of
  the cloning, and a cloning that fails has freed what it had made.\<close>

theorem options_give_back:
  assumes "handler_run c de s h0 log d h" and "balanced_callbacks weight c de" and "length (stored d) \<le> SIZE_MAX"
  shows "mem_live (OptionHandler_Destroy (Some d) h) = mem_live h0 \<and>
    (case OptionHandler_Clone (Some d) h of
       (None, g) \<Rightarrow> mem_live g = mem_live h
     | (Some e, g) \<Rightarrow> mem_live (OptionHandler_Destroy (Some e) g) = mem_live h)"
proof -
  have run: "handler_ok d" "balanced_callbacks weight (cloneOption d) (destroyOption d)" "mem_live h = mem_live h0 + handler_blocks weight d"
    using handler_run_result [OF assms(1), of weight] assms(2) by auto
  have "mem_live (DestroyInternal e g) = mem_live h" if "OptionHandler_Clone (Some d) h = (Some e, g)" for e g
  proof -
    have e: "handler_ok e" "same_callbacks d e" "mem_live g = mem_live h + handler_blocks weight e"
      using OptionHandler_Clone_result [OF run(1) assms(3) that run(2)] by simp_all
    then have "balanced_callbacks weight (cloneOption e) (destroyOption e)" using run(2) by (simp add: same_callbacks_def)
    from DestroyInternal_live [OF this e(1), of g] e(3) show ?thesis by simp
  qed
  moreover have "mem_live g = mem_live h" if "OptionHandler_Clone (Some d) h = (None, g)" for g
    using OptionHandler_Clone_result [OF run(1) assms(3) that run(2)] by simp
  ultimately show ?thesis
    using DestroyInternal_live [OF run(2,1), of h] run(3) by (auto simp: OptionHandler_Destroy_def split: prod.splits option.splits)
qed

text \<open>Options that are strings, copied with \<open>mallocAndStrcpy_s\<close>, set into a list of the texts.\<close>

definition string_clone :: "char list \<Rightarrow> char list option \<Rightarrow> heap \<Rightarrow> char list option \<times> heap" where
  "string_clone n v h =
     (case v of
        None \<Rightarrow> (None, h)
      | Some t \<Rightarrow> (if \<not> terminated t then (None, h)
                  else snd (mallocAndStrcpy_s (Some t) h)))"

definition string_destroy :: "char list \<Rightarrow> char list option \<Rightarrow> heap \<Rightarrow> heap" where
  "string_destroy n v h = c_free v h"

definition string_set :: "(char list \<times> char list) list \<Rightarrow> char list \<Rightarrow> char list option \<Rightarrow> rc \<times> (char list \<times> char list) list" where
  "string_set dest n v = (Success, dest @ [(cstr n, cstr (the v))])"

lemma string_callbacks: "balanced_callbacks (\<lambda>_. 1) string_clone string_destroy" "copies_alike string_clone string_set"
proof -
  show "balanced_callbacks (\<lambda>_. 1) string_clone string_destroy"
    by (auto simp: balanced_callbacks_def string_clone_def string_destroy_def c_free_def mallocAndStrcpy_s_result
        after_request_def split: option.splits)
  have "cstr w = cstr t" if "terminated t" "snd (mallocAndStrcpy_s (Some t) h) = (Some w, h')" for t w h h'
    using that by (auto simp: mallocAndStrcpy_s_result cstr_append_NUL split: if_splits)
  then show "copies_alike string_clone string_set"
    by (auto simp: copies_alike_def string_clone_def string_set_def split: option.splits if_splits)
qed

text \<open>With string options on an allocator that grants everything an addition succeeds.\<close>

lemma string_option_added:
  assumes "mem_ok h = (\<lambda>_. True)" and "handler_ok d" and "cloneOption d = string_clone"
    and "terminated n" and "terminated t" and "length (stored d) < SIZE_MAX"
  shows "fst (AddOptionInternal d n (Some t) h) = OPTIONHANDLER_OK"
proof -
  have g: "granted h" "granted (after_request 1 h)" "granted (after_request 1 (after_request 1 h))"
    using assms(1) by (simp_all add: granted_def after_request_def)
  let ?o = "\<lparr>option_name = cstr n @ [NUL], option_storage = Some (cstr t @ [NUL])\<rparr>"
  let ?h = "after_request 1 (after_request 1 h)"
  have v: "vec_inv (oh_storage d)" "vec_elementSize (oh_storage d) = 1" "vec_count (oh_storage d) < SIZE_MAX"
    using assms(2,6) by (simp_all add: handler_ok_def cells_valid_def cell_items_def)
  obtain q x h' where p: "VECTOR_push_back option_cell (Some (oh_storage d)) (Some [?o]) 1 ?h = (q, x, h')"
    by (metis prod_cases3)
  have "q = Success" using VECTOR_push_back_result [OF v(1) _ _ _ p] v(2,3) g(3) by simp
  then have "cell_push option_cell (oh_storage d) ?o ?h = (Success, the x, h')" using p by (simp add: cell_push_def)
  then show ?thesis
    using assms(3-5) g by (simp add: AddOptionInternal_def mallocAndStrcpy_s_result string_clone_def)
qed

lemma demo_handler_run:
  assumes "terminated n" and "terminated t"
  shows "\<exists>d h. handler_run string_clone string_destroy string_set heap0 [((n, t), OPTIONHANDLER_OK)] d h \<and>
    length (stored d) \<le> SIZE_MAX"
proof -
  obtain d0 :: "(char list, (char list \<times> char list) list) OPTIONHANDLER_HANDLE_DATA" and h0 where d0:
    "OptionHandler_Create (Some string_clone) (Some string_destroy) (Some string_set) heap0 = (Some d0, h0)"
    "mem_ok h0 = (\<lambda>_. True)"
    by (simp add: OptionHandler_Create_def CreateInternal_def malloc_struct_def VECTOR_create_def after_request_def heap0_def
        granted_def)
  have r0: "handler_run string_clone string_destroy string_set heap0 [] d0 h0" using d0(1) by (rule handler_create)
  have ok0: "handler_ok d0" "stored d0 = []" "cloneOption d0 = string_clone"
    using CreateInternal_result [of string_clone string_destroy string_set heap0 "Some d0" h0 "\<lambda>_. 0"] d0(1)
    by (simp_all add: OptionHandler_Create_def)
  have room: "length (stored d0) < SIZE_MAX" using ok0(2) by (simp add: SIZE_MAX_def)
  obtain r d1 h1 where add: "AddOptionInternal d0 n (Some t) h0 = (r, d1, h1)" by (metis prod_cases3)
  have r: "r = OPTIONHANDLER_OK" using string_option_added [OF d0(2) ok0(1,3) assms room] add by simp
  have "handler_run string_clone string_destroy string_set heap0 ([] @ [((n, t), r)]) d1 h1"
    by (rule handler_add [OF r0 assms(1) room]) (simp add: OptionHandler_AddOption_def add)
  moreover have "length (stored d1) = 1"
    using AddOptionInternal_result [OF ok0(1) assms(1) room add, of "\<lambda>_. 0"] ok0(2) r by auto
  ultimately show ?thesis using r by (intro exI [of _ d1] exI [of _ h1]) (simp add: SIZE_MAX_def)
qed

theorem options_replayed_witness:
  "\<exists>d h. handler_run string_clone string_destroy string_set heap0
      [((''n'' @ [NUL], ''v'' @ [NUL]), OPTIONHANDLER_OK)] d h \<and>
    OptionHandler_FeedOptions (Some d) (Some []) = (OPTIONHANDLER_OK, Some [(''n'', ''v'')])"
proof -
  obtain d h where run: "handler_run string_clone string_destroy string_set heap0
      [((''n'' @ [NUL], ''v'' @ [NUL]), OPTIONHANDLER_OK)] d h" "length (stored d) \<le> SIZE_MAX"
    using demo_handler_run [of "''n'' @ [NUL]" "''v'' @ [NUL]"] by auto
  have "feed_loop string_set (added [((''n'' @ [NUL], ''v'' @ [NUL]), OPTIONHANDLER_OK)]) [] = (True, [(''n'', ''v'')])"
    by (simp add: added_def string_set_def)
  then show ?thesis
    using options_replayed [OF run(1) string_callbacks(2,1) run(2), of "[]"] run(1) by (auto simp: Let_def)
qed

theorem options_give_back_witness:
  "\<exists>d h. handler_run string_clone string_destroy string_set heap0
      [((''n'' @ [NUL], ''v'' @ [NUL]), OPTIONHANDLER_OK)] d h \<and> mem_live (OptionHandler_Destroy (Some d) h) = 0"
proof -
  obtain d h where run: "handler_run string_clone string_destroy string_set heap0
      [((''n'' @ [NUL], ''v'' @ [NUL]), OPTIONHANDLER_OK)] d h" "length (stored d) \<le> SIZE_MAX"
    using demo_handler_run [of "''n'' @ [NUL]" "''v'' @ [NUL]"] by auto
  from options_give_back [OF run(1) string_callbacks(1) run(2)] run(1) show ?thesis by (auto simp: heap0_def)
qed

end
