(* ===== verification/Tokenizer.thy ===== *)
theory Tokenizer
  imports CStrings Crt_Abstractions
begin

text \<open>
  The string tokenizer of \<open>src/src/string_tokenizer.c\<close>. A tokenizer owns a copy of the input, a
  position in it and its length. \<open>next_token\<close> says what one call takes from the text that is
  left; \<open>get_next_token_result\<close> shows that the function does just that, on every branch.
\<close>

section \<open>The functions of the source\<close>

record STRING_TOKEN =
  inputString :: "char list"
  currentPos :: nat
  sizeOfinputString :: nat

text \<open>The handle of a string gives its characters; the null handle is checked before.\<close>

definition STRING_TOKENIZER_create_from_char :: "char list option \<Rightarrow> heap \<Rightarrow> STRING_TOKEN option \<times> heap" where
  "STRING_TOKENIZER_create_from_char input h =
     (case input of
        None \<Rightarrow> (None, h)
      | Some s \<Rightarrow>
          (case malloc_struct h of
             (False, h1) \<Rightarrow> (None, h1)
           | (True, h1) \<Rightarrow>
               (case mallocAndStrcpy_s (Some s) h1 of
                  (CRT_OK, Some inputStringToMalloc, h2) \<Rightarrow>
                    (Some \<lparr>inputString = inputStringToMalloc, currentPos = 0,
                           sizeOfinputString = strlen inputStringToMalloc\<rparr>, h2)
                | (_, _, h2) \<Rightarrow> (None, free_struct h2))))"

definition STRING_TOKENIZER_create :: "STRING option \<Rightarrow> heap \<Rightarrow> STRING_TOKEN option \<times> heap" where
  "STRING_TOKENIZER_create handle h =
     (case handle of None \<Rightarrow> (None, h) | Some s \<Rightarrow> STRING_TOKENIZER_create_from_char (STRING_c_str (Some s)) h)"

text \<open>The loop over the delimiters for one character, and the loop that skips delimiters.\<close>

fun is_delimiter_loop :: "char \<Rightarrow> char list \<Rightarrow> bool" where
  "is_delimiter_loop c [] = False"
| "is_delimiter_loop c (d # ds) = (if c = d then True else is_delimiter_loop c ds)"

fun skip_delimiters_loop :: "char list \<Rightarrow> char list \<Rightarrow> nat" where
  "skip_delimiters_loop ds [] = 0"
| "skip_delimiters_loop ds (c # cs) = (if is_delimiter_loop c ds then Suc (skip_delimiters_loop ds cs) else 0)"

text \<open>\<open>strchr\<close>: the distance of the first \<open>c\<close>, not beyond the terminator.\<close>

definition strchr :: "char list \<Rightarrow> char \<Rightarrow> nat option" where
  "strchr s c =
     (let n = length (takeWhile (\<lambda>x. x \<noteq> c \<and> x \<noteq> NUL) s) in if n < length s \<and> s ! n = c then Some n else None)"

text \<open>The delimiters are tried in the order of the list.\<close>

fun end_of_token_loop :: "char list \<Rightarrow> char list \<Rightarrow> nat option" where
  "end_of_token_loop s [] = None"
| "end_of_token_loop s (d # ds) = (case strchr s d of Some n \<Rightarrow> Some n | None \<Rightarrow> end_of_token_loop s ds)"

definition STRING_TOKENIZER_get_next_token ::
  "STRING_TOKEN option \<Rightarrow> STRING option \<Rightarrow> char list option \<Rightarrow> heap \<Rightarrow> rc \<times> STRING_TOKEN option \<times> STRING option \<times> heap" where
  "STRING_TOKENIZER_get_next_token tokenizer output delimiters h =
     (case (tokenizer, output, delimiters) of
        (Some token, Some out, Some ds) \<Rightarrow>
          (let remaining = sizeOfinputString token - currentPos token;
               delimitterSize = strlen ds in
           if remaining = 0 then (Failure, tokenizer, output, h)
           else if delimitterSize = 0 then (Failure, tokenizer, output, h)
           else
             (let delims = take delimitterSize ds;
                  i = skip_delimiters_loop delims (take remaining (drop (currentPos token) (inputString token)));
                  pos = currentPos token + i;
                  token1 = token\<lparr>currentPos := pos\<rparr>;
                  remaining1 = remaining - i in
              if remaining1 = 0 then (Failure, Some token1, output, h)
              else
                (let here = drop pos (inputString token);
                     endOfTokenPosition = end_of_token_loop here delims;
                     amount = (case endOfTokenPosition of None \<Rightarrow> remaining1 | Some n \<Rightarrow> n) in
                 case STRING_copy_n output (Some here) amount h of
                   (Failure, out1, h1) \<Rightarrow> (Failure, Some token1, out1, h1)
                 | (Success, out1, h1) \<Rightarrow>
                     (Success,
                      Some (token\<lparr>currentPos := pos + (if endOfTokenPosition \<noteq> None then amount + 1 else amount)\<rparr>),
                      out1, h1))))
      | _ \<Rightarrow> (Failure, tokenizer, output, h))"

definition STRING_TOKENIZER_destroy :: "STRING_TOKEN option \<Rightarrow> heap \<Rightarrow> heap" where
  "STRING_TOKENIZER_destroy t h =
     (case t of None \<Rightarrow> h | Some v \<Rightarrow> free_struct (c_free (Some (inputString v)) h))"

section \<open>What a call takes from the text\<close>

definition tokenizer_inv :: "STRING_TOKEN \<Rightarrow> bool" where
  "tokenizer_inv t \<longleftrightarrow> terminated (inputString t) \<and> sizeOfinputString t = strlen (inputString t) \<and>
     currentPos t \<le> sizeOfinputString t"

definition text_left :: "STRING_TOKEN \<Rightarrow> char list" where
  "text_left t = drop (currentPos t) (cstr (inputString t))"

text \<open>Delimiters in front are dropped. The token ends before the first occurrence of the first
  delimiter of the list that occurs at all, and that one is taken as well.\<close>

definition next_token :: "char list \<Rightarrow> char list \<Rightarrow> (char list \<times> char list) option" where
  "next_token ds s =
     (let r = dropWhile (\<lambda>c. c \<in> set ds) s in
      if ds = [] \<or> r = [] then None
      else
        (case find (\<lambda>d. d \<in> set r) ds of
           None \<Rightarrow> Some (r, [])
         | Some d \<Rightarrow> Some (takeWhile (\<lambda>c. c \<noteq> d) r, tl (dropWhile (\<lambda>c. c \<noteq> d) r))))"

text \<open>A nearer delimiter that is listed later does not end the token.\<close>

lemma nearer_delimiter_passed: "next_token '';,'' ''a,b;c'' = Some (''a,b'', ''c'')"
  by code_simp

lemma is_delimiter_loop_set [simp]: "is_delimiter_loop c ds \<longleftrightarrow> c \<in> set ds"
  by (induction ds) auto

lemma skip_delimiters_loop_length: "skip_delimiters_loop ds s = length (takeWhile (\<lambda>c. c \<in> set ds) s)"
  by (induction s) auto

lemma strchr_cstr:
  assumes "terminated s" and "c \<noteq> NUL"
  shows "strchr s c = (if c \<in> set (cstr s) then Some (length (takeWhile (\<lambda>x. x \<noteq> c) (cstr s))) else None)"
  using assms(1)
proof (induction s)
  case (Cons x s)
  show ?case
  proof (cases "x = NUL \<or> x = c")
    case True
    with assms(2) show ?thesis by (auto simp: strchr_def)
  next
    case False
    with Cons.prems have "terminated s" by simp
    with False show ?thesis using Cons.IH by (auto simp: strchr_def Let_def)
  qed
qed simp

lemma end_of_token_loop_find:
  assumes "terminated s" and "c_string ds"
  shows "end_of_token_loop s ds =
    map_option (\<lambda>d. length (takeWhile (\<lambda>x. x \<noteq> d) (cstr s))) (find (\<lambda>d. d \<in> set (cstr s)) ds)"
  using assms(2) by (induction ds) (auto simp: strchr_cstr [OF assms(1)])

lemma cstr_drop: "n \<le> strlen s \<Longrightarrow> cstr (drop n s) = drop n (cstr s)"
  by (induction s arbitrary: n) (auto simp: strlen_def cstr_def drop_Cons split: nat.splits if_splits)

lemma terminated_drop: "terminated s \<Longrightarrow> n \<le> strlen s \<Longrightarrow> terminated (drop n s)"
  using terminated_split [of s] by (auto simp: strlen_def) (metis drop_append diff_is_0_eq drop0 terminated_append_NUL append_assoc)

lemma take_text_left:
  assumes "tokenizer_inv t"
  shows "take (sizeOfinputString t - currentPos t) (drop (currentPos t) (inputString t)) = text_left t"
  using assms unfolding tokenizer_inv_def text_left_def
  by (metis take_strlen drop_take)

lemma length_text_left: "tokenizer_inv t \<Longrightarrow> length (text_left t) = sizeOfinputString t - currentPos t"
  by (simp add: text_left_def tokenizer_inv_def strlen_def)

lemma takeWhile_neq_less: "d \<in> set r \<Longrightarrow> length (takeWhile (\<lambda>x. x \<noteq> d) r) < length r"
  by (induction r) auto

lemma copy_n_grant:
  assumes "STRING_copy_n (Some x) (Some s) n h = (r, y, h')"
  shows "mem_ok h' = mem_ok h" and "r = Failure \<longleftrightarrow> \<not> granted h"
  using assms by (auto simp: STRING_copy_n_def realloc_chars_def Let_def mem_defs split: prod.splits option.splits if_splits)

definition token_taken ::
  "STRING_TOKEN \<Rightarrow> STRING \<Rightarrow> char list \<Rightarrow> heap \<Rightarrow> rc \<times> STRING_TOKEN option \<times> STRING option \<times> heap \<Rightarrow> bool" where
  "token_taken t out ds h res \<longleftrightarrow>
     (case res of (r, t1, out1, h1) \<Rightarrow>
        mem_live h1 = mem_live h \<and> mem_ok h1 = mem_ok h \<and>
        (\<exists>t' out'. t1 = Some t' \<and> out1 = Some out' \<and> tokenizer_inv t' \<and> str_inv out' \<and>
           (case r of
              Success \<Rightarrow> next_token ds (text_left t) = Some (str_val out', text_left t')
            | Failure \<Rightarrow> out' = out \<and> (next_token ds (text_left t) = None \<or> \<not> granted h))))"

lemma token_takenE:
  assumes "token_taken t out ds h (r, t1, out1, h1)"
  obtains t' out' where "t1 = Some t'" "out1 = Some out'" "tokenizer_inv t'" "str_inv out'"
    "mem_live h1 = mem_live h" "mem_ok h1 = mem_ok h"
    "r = Success \<Longrightarrow> next_token ds (text_left t) = Some (str_val out', text_left t')"
    "r = Failure \<Longrightarrow> out' = out \<and> (next_token ds (text_left t) = None \<or> \<not> granted h)"
  using assms unfolding token_taken_def by (cases r) auto

lemma get_next_token_result:
  assumes t: "tokenizer_inv t" and out: "str_inv out" and ds: "terminated ds"
  shows "token_taken t out (cstr ds) h (STRING_TOKENIZER_get_next_token (Some t) (Some out) (Some ds) h)"
proof -
  let ?delims = "cstr ds" and ?left = "text_left t"
  define i where "i = skip_delimiters_loop ?delims ?left"
  define r where "r = dropWhile (\<lambda>c. c \<in> set (cstr ds)) ?left"
  define t1 where "t1 = t\<lparr>currentPos := currentPos t + i\<rparr>"
  define here where "here = drop (currentPos t + i) (inputString t)"
  have i: "i = length (takeWhile (\<lambda>c. c \<in> set (cstr ds)) ?left)" "i \<le> length ?left"
    by (simp_all add: i_def skip_delimiters_loop_length length_takeWhile_le)
  have r_drop: "r = drop i ?left" unfolding r_def i(1) by (rule dropWhile_eq_drop)
  have pos: "currentPos t + i \<le> strlen (inputString t)" "terminated (inputString t)"
    using i(2) t length_text_left [OF t] by (auto simp: tokenizer_inv_def)
  have t1: "tokenizer_inv t1" "text_left t1 = r"
    using t pos by (simp_all add: t1_def tokenizer_inv_def text_left_def r_drop add.commute)
  have here: "terminated here" "cstr here = r"
    using terminated_drop [OF pos(2,1)] cstr_drop [OF pos(1)] by (simp_all add: here_def r_drop text_left_def add.commute)
  have left: "length ?left = sizeOfinputString t - currentPos t"
    "length r = sizeOfinputString t - currentPos t - i"
    using length_text_left [OF t] by (simp_all add: r_drop)
  show ?thesis
  proof (cases "?left = [] \<or> cstr ds = [] \<or> r = []")
    case True
    then have none: "next_token (cstr ds) ?left = None" by (auto simp: next_token_def r_def Let_def)
    have "STRING_TOKENIZER_get_next_token (Some t) (Some out) (Some ds) h =
      (Failure, Some (if ?left = [] \<or> cstr ds = [] then t else t1), Some out, h)"
    proof (cases "?left = [] \<or> cstr ds = []")
      case True
      then show ?thesis using left(1) by (auto simp: STRING_TOKENIZER_get_next_token_def Let_def strlen_def)
    next
      case False
      with True have "sizeOfinputString t - currentPos t - i = 0" "strlen ds \<noteq> 0" "\<not> sizeOfinputString t \<le> currentPos t"
        using left by (auto simp: strlen_def)
      with False show ?thesis
        using left(1) take_text_left [OF t]
        by (simp add: STRING_TOKENIZER_get_next_token_def Let_def i_def [symmetric] t1_def [symmetric])
    qed
    then show ?thesis using none t t1(1) out by (simp add: token_taken_def)
  next
    case False
    define e where "e = end_of_token_loop here ?delims"
    define n where "n = (case e of None \<Rightarrow> length r | Some k \<Rightarrow> k)"
    have e: "e = map_option (\<lambda>d. length (takeWhile (\<lambda>x. x \<noteq> d) r)) (find (\<lambda>d. d \<in> set r) (cstr ds))"
      using end_of_token_loop_find [OF here(1), of "cstr ds"] by (simp add: e_def here(2))
    obtain c out1 h1 where copy: "STRING_copy_n (Some out) (Some here) n h = (c, out1, h1)" by (metis prod_cases3)
    have lens: "strlen ds \<noteq> 0" using False by (simp add: strlen_def)
    have run: "STRING_TOKENIZER_get_next_token (Some t) (Some out) (Some ds) h =
      (case c of Failure \<Rightarrow> (Failure, Some t1, out1, h1)
       | Success \<Rightarrow> (Success, Some (t\<lparr>currentPos := currentPos t + i + (if e \<noteq> None then n + 1 else n)\<rparr>), out1, h1))"
    proof -
      have size: "length r = sizeOfinputString t - (currentPos t + i)" "\<not> sizeOfinputString t \<le> currentPos t + i"
        "\<not> sizeOfinputString t \<le> currentPos t"
        using False left by auto
      have amount: "STRING_copy_n (Some out) (Some here)
          (case e of None \<Rightarrow> sizeOfinputString t - (currentPos t + i) | Some k \<Rightarrow> k) h = (c, out1, h1)"
        using copy by (simp only: n_def size(1))
      show ?thesis
        using False size lens take_text_left [OF t] amount
        by (cases e; cases c)
          (simp_all add: STRING_TOKENIZER_get_next_token_def Let_def i_def [symmetric] t1_def [symmetric]
            here_def [symmetric] e_def [symmetric] n_def)
    qed
    have copied: "modified out h (take n r) (c, out1, h1)"
      using STRING_copy_n_modified [of out h n here] copy here(2) by simp
    note grant = copy_n_grant [OF copy]
    show ?thesis
    proof (cases c)
      case Failure
      then show ?thesis using copied grant t1(1) out by (auto simp: run token_taken_def modified_def)
    next
      case Success
      then obtain o1 where o1: "out1 = Some o1" "str_inv o1" "str_val o1 = take n r" "mem_live h1 = mem_live h"
        using copied by (auto simp: modified_def)
      define t2 where "t2 = t\<lparr>currentPos := currentPos t + i + (if e \<noteq> None then n + 1 else n)\<rparr>"
      have split: "take n r = takeWhile (\<lambda>x. x \<noteq> d) r" "drop (n + 1) r = tl (dropWhile (\<lambda>x. x \<noteq> d) r)" "n < length r"
        if "find (\<lambda>d. d \<in> set r) (cstr ds) = Some d" for d
      proof -
        have d: "d \<in> set r" using that by (auto simp: find_Some_iff)
        have n: "n = length (takeWhile (\<lambda>x. x \<noteq> d) r)" using that by (simp add: n_def e)
        show "take n r = takeWhile (\<lambda>x. x \<noteq> d) r" unfolding n by (rule takeWhile_eq_take [symmetric])
        show "drop (n + 1) r = tl (dropWhile (\<lambda>x. x \<noteq> d) r)"
          unfolding n dropWhile_eq_drop by (simp add: drop_Suc tl_drop)
        show "n < length r" unfolding n by (rule takeWhile_neq_less [OF d])
      qed
      have bound: "(if e \<noteq> None then n + 1 else n) \<le> length r"
        using split(3) by (cases "find (\<lambda>d. d \<in> set r) (cstr ds)") (auto simp: e n_def)
      have t2: "tokenizer_inv t2" "text_left t2 = drop (if e \<noteq> None then n + 1 else n) r"
        using t bound left i(2) by (auto simp: t2_def tokenizer_inv_def text_left_def r_drop add.commute add.left_commute)
      have "next_token (cstr ds) ?left = Some (str_val o1, text_left t2)"
        using False split unfolding o1(3) t2(2) next_token_def r_def [symmetric] Let_def
        by (cases "find (\<lambda>d. d \<in> set r) (cstr ds)") (auto simp: e n_def)
      then show ?thesis using Success o1 t2(1) grant(1) by (simp add: run token_taken_def t2_def)
    qed
  qed
qed

lemma STRING_TOKENIZER_create_result:
  assumes "terminated s" and "STRING_TOKENIZER_create_from_char (Some s) h = (r, h')"
  shows "mem_ok h' = mem_ok h \<and>
    (case r of
       None \<Rightarrow> mem_live h' = mem_live h \<and> \<not> (granted h \<and> granted (after_request 1 h))
     | Some t \<Rightarrow> tokenizer_inv t \<and> text_left t = cstr s \<and> mem_live h' = mem_live h + 2)"
  using assms(2) mallocAndStrcpy_s_result [OF assms(1)]
  by (auto simp: STRING_TOKENIZER_create_from_char_def malloc_struct_def tokenizer_inv_def text_left_def
      strlen_def free_struct_def after_request_def granted_def split: prod.splits if_splits)

lemma STRING_TOKENIZER_destroy_live [simp]:
  "mem_live (STRING_TOKENIZER_destroy (Some t) h) = mem_live h - 2"
  by (simp add: STRING_TOKENIZER_destroy_def mem_defs)

section \<open>New strings\<close>

text \<open>A constructor of a string with a given value: two blocks, or none.\<close>

definition made_with :: "char list \<Rightarrow> heap \<Rightarrow> STRING option \<times> heap \<Rightarrow> bool" where
  "made_with v h res \<longleftrightarrow>
     (case res of (r, h') \<Rightarrow>
        mem_ok h' = mem_ok h \<and>
        (case r of
           None \<Rightarrow> mem_live h' = mem_live h \<and> \<not> (\<forall>n. mem_ok h n)
         | Some x \<Rightarrow> str_inv x \<and> str_val x = v \<and> mem_live h' = mem_live h + 2))"

lemma made_withE:
  assumes "made_with v h res"
  obtains h' where "res = (None, h')" "mem_ok h' = mem_ok h" "mem_live h' = mem_live h" "\<not> (\<forall>n. mem_ok h n)"
  | x h' where "res = (Some x, h')" "mem_ok h' = mem_ok h" "mem_live h' = mem_live h + 2" "str_inv x" "str_val x = v"
  using assms unfolding made_with_def by (cases res; cases "fst res") auto

lemma STRING_construct_made_with: "terminated s \<Longrightarrow> made_with (cstr s) h (STRING_construct (Some s) h)"
  by (auto simp: made_with_def STRING_construct_def alloc_STRING_def malloc_chars_def str_inv_def str_val_def Let_def
      memcpy_terminated malloc_struct_def malloc_block_def after_request_def free_struct_def granted_def
      split: prod.splits option.splits if_splits)

lemma STRING_new_made_with: "made_with [] h (STRING_new h)"
  by (auto simp: made_with_def STRING_new_def alloc_STRING_def malloc_chars_def str_inv_def str_val_def Let_def
      malloc_struct_def malloc_block_def after_request_def free_struct_def granted_def fresh_block_def
      split: prod.splits option.splits if_splits)

end
