(* ===== verification/ConnectionString.thy ===== *)
theory ConnectionString
  imports Tokenizer Maps
begin

text \<open>
  The connection string parser of \<open>src/src/connection_string_parser.c\<close>: a text of
  \<open>key=value\<close> pairs separated by semicolons becomes a map, a host name is split at its first
  dot, and the proxy settings are kept in two static arrays. \<open>pairs_of\<close> is the reference for
  the parser: the pairs of a text, or none when a key has no value.
\<close>

section \<open>The functions of the source\<close>

text \<open>A token that was taken moves the position on.\<close>

definition left_to_read :: "STRING_TOKEN option \<Rightarrow> nat" where
  "left_to_read t = (case t of None \<Rightarrow> 0 | Some x \<Rightarrow> sizeOfinputString x - currentPos x)"

lemma token_moves:
  assumes "STRING_TOKENIZER_get_next_token t out ds h = (r, t1, out1, h1)"
  shows "left_to_read t1 \<le> left_to_read t" and "r = Success \<Longrightarrow> left_to_read t1 < left_to_read t"
  using assms
  by (auto simp: STRING_TOKENIZER_get_next_token_def left_to_read_def Let_def
      split: option.splits if_splits prod.splits rc.splits)

lemma token_moves_less:
  "(Success, t1, out1, h1) = STRING_TOKENIZER_get_next_token t out ds h \<Longrightarrow> left_to_read t1 < left_to_read t"
  by (rule token_moves(2) [OF sym refl])

text \<open>
  The loop of the parser: a key up to an equals sign, a value up to a semicolon, added to the
  map. The result is the map, and the tokenizer, the two strings and the heap that are left.
  It ends because every token that is taken shortens what is left to read.
\<close>

function parse_loop ::
  "STRING_TOKEN option \<Rightarrow> STRING option \<Rightarrow> STRING option \<Rightarrow> MAP_HANDLE_DATA option \<Rightarrow> heap \<Rightarrow>
     MAP_HANDLE_DATA option \<times> STRING_TOKEN option \<times> STRING option \<times> STRING option \<times> heap" where
  "parse_loop tokenizer key_string value_string result h =
     (case STRING_TOKENIZER_get_next_token tokenizer key_string (Some (c_lit ''='')) h of
        (Failure, t1, k1, h1) \<Rightarrow> (result, t1, k1, value_string, h1)
      | (Success, t1, k1, h1) \<Rightarrow>
          (case STRING_TOKENIZER_get_next_token t1 value_string (Some (c_lit '';'')) h1 of
             (Failure, t2, v2, h2) \<Rightarrow> (None, t2, k1, v2, Map_Destroy result h2)
           | (Success, t2, v2, h2) \<Rightarrow>
               (case STRING_c_str k1 of
                  None \<Rightarrow> (None, t2, k1, v2, Map_Destroy result h2)
                | Some token \<Rightarrow>
                    (if strlen token = 0 then (None, t2, k1, v2, Map_Destroy result h2)
                     else
                       (case STRING_c_str v2 of
                          None \<Rightarrow> (None, t2, k1, v2, Map_Destroy result h2)
                        | Some val \<Rightarrow>
                            (case Map_Add result (Some token) (Some val) h2 of (r, m3, h3) \<Rightarrow>
                               if r \<noteq> MAP_OK then (None, t2, k1, v2, Map_Destroy m3 h3)
                               else parse_loop t2 k1 v2 m3 h3))))))"
  by pat_completeness auto

termination
proof (relation "measure (\<lambda>(t, k, v, m, h). left_to_read t)", goal_cases)
  case 1
  show ?case by simp
next
  case (2 t k v m h rt1 r1 x t1 y k1 h1 rt2 r2 x2 t2 y2 v2 h2)
  then show ?case by (auto dest!: token_moves_less)
qed

declare parse_loop.simps [simp del]

definition connectionstringparser_parse :: "STRING option \<Rightarrow> heap \<Rightarrow> MAP_HANDLE_DATA option \<times> heap" where
  "connectionstringparser_parse connection_string h =
     (case connection_string of
        None \<Rightarrow> (None, h)
      | Some s \<Rightarrow>
          (case STRING_TOKENIZER_create (Some s) h of
             (None, h1) \<Rightarrow> (None, h1)
           | (Some tokenizer, h1) \<Rightarrow>
               (case STRING_new h1 of
                  (None, h2) \<Rightarrow> (None, STRING_TOKENIZER_destroy (Some tokenizer) h2)
                | (Some token_key_string, h2) \<Rightarrow>
                    (case STRING_new h2 of
                       (None, h3) \<Rightarrow>
                         (None, STRING_TOKENIZER_destroy (Some tokenizer) (STRING_delete (Some token_key_string) h3))
                     | (Some token_value_string, h3) \<Rightarrow>
                         (let (result, t, k, v, h5) =
                            (case Map_Create None h3 of
                               (None, h4) \<Rightarrow> (None, Some tokenizer, Some token_key_string, Some token_value_string, h4)
                             | (Some m, h4) \<Rightarrow>
                                 parse_loop (Some tokenizer) (Some token_key_string) (Some token_value_string) (Some m) h4) in
                          (result, STRING_TOKENIZER_destroy t (STRING_delete k (STRING_delete v h5))))))))"

definition connectionstringparser_parse_from_char :: "char list option \<Rightarrow> heap \<Rightarrow> MAP_HANDLE_DATA option \<times> heap" where
  "connectionstringparser_parse_from_char connection_string h =
     (case STRING_construct connection_string h of
        (None, h1) \<Rightarrow> (None, h1)
      | (Some connString, h1) \<Rightarrow>
          (case connectionstringparser_parse (Some connString) h1 of
             (result, h2) \<Rightarrow> (result, STRING_delete (Some connString) h2)))"

text \<open>The distance that the pointer moves: past the first dot, or to the terminator.\<close>

fun first_dot_loop :: "char list \<Rightarrow> nat" where
  "first_dot_loop [] = 0"
| "first_dot_loop (c # cs) = (if c = NUL then 0 else if c = CHR ''.'' then 1 else Suc (first_dot_loop cs))"

definition connectionstringparser_splitHostName_from_char ::
  "char list option \<Rightarrow> STRING option \<Rightarrow> STRING option \<Rightarrow> heap \<Rightarrow> rc \<times> STRING option \<times> STRING option \<times> heap" where
  "connectionstringparser_splitHostName_from_char hostName nameString suffixString h =
     (if (case hostName of None \<Rightarrow> True | Some s \<Rightarrow> s ! 0 = NUL \<or> s ! 0 = CHR ''.'') \<or> nameString = None \<or> suffixString = None
      then (Failure, nameString, suffixString, h)
      else
        (let runHostName = first_dot_loop (the hostName) in
         if the hostName ! runHostName = NUL then (Failure, nameString, suffixString, h)
         else
           (case STRING_copy_n nameString hostName (runHostName - 1) h of
              (Failure, n1, h1) \<Rightarrow> (Failure, n1, suffixString, h1)
            | (Success, n1, h1) \<Rightarrow>
                (case STRING_copy suffixString (Some (Some (drop runHostName (the hostName)))) h1 of
                   (Failure, s1, h2) \<Rightarrow> (Failure, n1, s1, h2)
                 | (Success, s1, h2) \<Rightarrow> (Success, n1, s1, h2)))))"

definition connectionstringparser_splitHostName ::
  "STRING option \<Rightarrow> STRING option \<Rightarrow> STRING option \<Rightarrow> heap \<Rightarrow> rc \<times> STRING option \<times> STRING option \<times> heap" where
  "connectionstringparser_splitHostName hostNameString nameString suffixString h =
     (if hostNameString = None then (Failure, nameString, suffixString, h)
      else connectionstringparser_splitHostName_from_char (STRING_c_str hostNameString) nameString suffixString h)"

text \<open>The two static arrays, of 256 characters each; \<open>strncpy\<close> never writes the last one.\<close>

record proxy_arrays =
  proxyHostPort2 :: "char list"
  proxyUserPassword2 :: "char list"

definition proxy_arrays_start :: proxy_arrays where
  "proxy_arrays_start = \<lparr>proxyHostPort2 = replicate 256 NUL, proxyUserPassword2 = replicate 256 NUL\<rparr>"

text \<open>What the two out parameters are set to, when they are not null.\<close>

definition platform_get_http_proxy :: "proxy_arrays \<Rightarrow> bool \<Rightarrow> bool \<Rightarrow> char list option \<times> char list option" where
  "platform_get_http_proxy st proxyHostnamePort usernamePassword =
     (if proxyHostnamePort then Some (proxyHostPort2 st) else None,
      if usernamePassword then Some (proxyUserPassword2 st) else None)"

definition platform_set_http_proxy :: "char list option \<Rightarrow> char list option \<Rightarrow> proxy_arrays \<Rightarrow> proxy_arrays" where
  "platform_set_http_proxy proxyHostPort proxyUsernamePassword st =
     (let st1 = st\<lparr>proxyHostPort2 :=
            (case proxyHostPort of
               Some s \<Rightarrow> c_strncpy (proxyHostPort2 st) 0 s 255
             | None \<Rightarrow> (proxyHostPort2 st)[0 := NUL])\<rparr> in
      st1\<lparr>proxyUserPassword2 :=
            (case proxyUsernamePassword of
               Some s \<Rightarrow> c_strncpy (proxyUserPassword2 st1) 0 s 255
             | None \<Rightarrow> (proxyUserPassword2 st1)[0 := NUL])\<rparr>)"

section \<open>The pairs of a text\<close>

lemma find_mem: "find P xs = Some x \<Longrightarrow> x \<in> set xs \<and> P x"
  by (auto simp: find_Some_iff)

lemma next_token_shrinks:
  assumes "next_token ds s = Some (k, r)"
  shows "k \<noteq> []" and "length r < length s"
proof -
  define u where "u = dropWhile (\<lambda>c. c \<in> set ds) s"
  have u: "u \<noteq> []" "hd u \<notin> set ds" "length u \<le> length s"
    using assms hd_dropWhile [of "\<lambda>c. c \<in> set ds" s]
    by (auto simp: next_token_def Let_def u_def length_dropWhile_le split: if_splits)
  obtain c cs where cs: "u = c # cs" using u(1) by (cases u) auto
  have "k \<noteq> [] \<and> length r < length u"
  proof (cases "find (\<lambda>d. d \<in> set u) ds")
    case None
    then show ?thesis using assms u by (auto simp: next_token_def Let_def u_def [symmetric] split: if_splits)
  next
    case (Some d)
    then have "c \<noteq> d" using u(2) find_mem [OF Some] by (auto simp: cs)
    then show ?thesis
      using assms u Some length_dropWhile_le [of "\<lambda>c. c \<noteq> d" cs]
      by (auto simp: next_token_def Let_def u_def [symmetric] cs split: if_splits)
  qed
  then show "k \<noteq> []" "length r < length s" using u(3) by auto
qed

function pairs_of :: "char list \<Rightarrow> (char list \<times> char list) list option" where
  "pairs_of s =
     (case next_token ''='' s of
        None \<Rightarrow> Some []
      | Some (k, r) \<Rightarrow>
          (case next_token '';'' r of
             None \<Rightarrow> None
           | Some (v, r') \<Rightarrow> map_option ((#) (k, v)) (pairs_of r')))"
  by pat_completeness auto

termination
  by (relation "measure length") (auto dest!: next_token_shrinks(2))

declare pairs_of.simps [simp del]

text \<open>Pairs that a text begins with, and pairs added to a map one by one, none of them twice.\<close>

fun begins_with :: "char list \<Rightarrow> (char list \<times> char list) list \<Rightarrow> bool" where
  "begins_with s [] = True"
| "begins_with s (p # ps) =
     (case next_token ''='' s of
        None \<Rightarrow> False
      | Some (k, r) \<Rightarrow>
          (case next_token '';'' r of None \<Rightarrow> False | Some (v, r') \<Rightarrow> p = (k, v) \<and> begins_with r' ps))"

fun add_pairs :: "(char list \<times> char list) list \<Rightarrow> (char list \<rightharpoonup> char list) \<Rightarrow> (char list \<rightharpoonup> char list) option" where
  "add_pairs [] m = Some m"
| "add_pairs ((k, v) # ps) m = (if m k \<noteq> None then None else add_pairs ps (m(k \<mapsto> v)))"

lemma add_pairs_distinct:
  "add_pairs ps m =
     (if distinct (map fst ps) \<and> dom m \<inter> fst ` set ps = {} then Some (m ++ map_of ps) else None)"
proof (induction ps arbitrary: m)
  case (Cons p ps)
  obtain k v where p: "p = (k, v)" by (cases p)
  have "m(k \<mapsto> v) ++ map_of ps = m ++ map_of (p # ps)" if "k \<notin> fst ` set ps"
    using that by (auto simp: p fun_eq_iff map_add_def map_of_eq_None_iff [symmetric] split: option.splits)
  moreover have "dom (m(k \<mapsto> v)) \<inter> fst ` set ps = {} \<longleftrightarrow> k \<notin> fst ` set ps \<and> dom m \<inter> fst ` set ps = {}"
    by (simp only: dom_fun_upd) auto
  moreover have "m k \<noteq> None \<longleftrightarrow> k \<in> dom m" by auto
  ultimately show ?case using Cons.IH [of "m(k \<mapsto> v)"] by (simp add: p del: fun_upd_apply)
qed simp

section \<open>What the loop leaves\<close>

lemma Map_Add_granted:
  assumes "\<forall>n. mem_ok h n" and "terminated k" and "terminated v" and "map_filter_callback m = None"
    and "findKey m k = None"
  obtains m' h' where "Map_Add (Some m) (Some k) (Some v) h = (MAP_OK, Some m', h')" "\<forall>n. mem_ok h' n"
  using insertNewKeyValue_granted [OF assms(1-3), of m] assms(4,5) that
  by (auto simp: Map_Add_def filter_rejects_def)

definition parsed ::
  "char list \<Rightarrow> entry list \<Rightarrow> heap \<Rightarrow>
     MAP_HANDLE_DATA option \<times> STRING_TOKEN option \<times> STRING option \<times> STRING option \<times> heap \<Rightarrow> bool" where
  "parsed s es h out \<longleftrightarrow>
     (case out of (res, t, k, v, h') \<Rightarrow>
        t \<noteq> None \<and> k \<noteq> None \<and> v \<noteq> None \<and>
        (case res of
           None \<Rightarrow> mem_live h' = mem_live h - map_blocks es
         | Some m \<Rightarrow>
             (\<exists>fs ps. map_repr m fs \<and> mem_live h' - map_blocks fs = mem_live h - map_blocks es \<and>
                begins_with s ps \<and> add_pairs ps (map_of es) = Some (map_of fs))) \<and>
        ((\<forall>n. mem_ok h n) \<longrightarrow>
           map_option map_abs res = Option.bind (pairs_of s) (\<lambda>ps. add_pairs ps (map_of es))))"

text \<open>One round of the loop in front of the rest of it.\<close>

lemma parsed_step:
  assumes "next_token ''='' s = Some (k, r)" and "next_token '';'' r = Some (v, s')"
    and "map_of es k = None" and "map_of fs = (map_of es)(k \<mapsto> v)"
    and "mem_live h' - map_blocks fs = mem_live h - map_blocks es"
    and "(\<forall>n. mem_ok h n) \<Longrightarrow> (\<forall>n. mem_ok h' n)" and "parsed s' fs h' out"
  shows "parsed s es h out"
proof -
  obtain res t k1 v1 g where out: "out = (res, t, k1, v1, g)" by (metis prod_cases5)
  have all: "pairs_of s = map_option ((#) (k, v)) (pairs_of s')"
    by (subst pairs_of.simps) (simp add: assms(1,2))
  have later: "add_pairs ((k, v) # ps) (map_of es) = add_pairs ps (map_of fs)" for ps
    using assms(3,4) by simp
  have begins: "begins_with s ((k, v) # ps) = begins_with s' ps" for ps using assms(1,2) by simp
  have bind: "Option.bind (pairs_of s) (\<lambda>ps. add_pairs ps (map_of es)) = Option.bind (pairs_of s') (\<lambda>ps. add_pairs ps (map_of fs))"
    unfolding all by (cases "pairs_of s'") (simp_all add: later del: add_pairs.simps)
  show ?thesis
  proof (cases res)
    case None
    then show ?thesis using assms(5,6,7) bind unfolding parsed_def out by auto
  next
    case (Some m)
    then obtain gs ps where gs: "map_repr m gs" "mem_live g - map_blocks gs = mem_live h' - map_blocks fs"
      "begins_with s' ps" "add_pairs ps (map_of fs) = Some (map_of gs)"
      using assms(7) unfolding parsed_def out by auto
    have "begins_with s ((k, v) # ps) \<and> add_pairs ((k, v) # ps) (map_of es) = Some (map_of gs)"
      using gs(3,4) by (simp add: begins later del: add_pairs.simps begins_with.simps)
    then have "\<exists>fs ps. map_repr m fs \<and> mem_live g - map_blocks fs = mem_live h - map_blocks es \<and>
        begins_with s ps \<and> add_pairs ps (map_of es) = Some (map_of fs)"
      using gs(1,2) assms(5) by (intro exI [of _ gs] exI [of _ "(k, v) # ps"]) auto
    then show ?thesis using Some assms(6,7) bind unfolding parsed_def out by auto
  qed
qed

lemma parse_loop_parsed:
  assumes "tokenizer_inv t" and "str_inv k" and "str_inv v" and "map_repr m es" and "map_filter_callback m = None"
  shows "parsed (text_left t) es h (parse_loop (Some t) (Some k) (Some v) (Some m) h)"
  using assms
proof (induction "length (text_left t)" arbitrary: t k v m es h rule: less_induct)
  case less
  note m = less.prems(4,5)
  have abs: "map_abs m = map_of es" using map_invI [OF m(1)] by simp
  obtain r1 x1 y1 h1 where one: "STRING_TOKENIZER_get_next_token (Some t) (Some k) (Some (c_lit ''='')) h = (r1, x1, y1, h1)"
    by (metis prod_cases4)
  have "token_taken t k ''='' h (r1, x1, y1, h1)"
    using get_next_token_result [OF less.prems(1,2), of "c_lit ''=''" h] one by simp
  then obtain t1 k1 where t1: "x1 = Some t1" "y1 = Some k1" "tokenizer_inv t1" "str_inv k1"
    "mem_live h1 = mem_live h" "mem_ok h1 = mem_ok h"
    "r1 = Success \<Longrightarrow> next_token ''='' (text_left t) = Some (str_val k1, text_left t1)"
    "r1 = Failure \<Longrightarrow> next_token ''='' (text_left t) = None \<or> \<not> granted h"
    by (rule token_takenE) blast
  show ?case
  proof (cases r1)
    case Failure
    then have run: "parse_loop (Some t) (Some k) (Some v) (Some m) h = (Some m, x1, y1, Some v, h1)"
      using one by (simp add: parse_loop.simps)
    have "pairs_of (text_left t) = Some []" if "\<forall>n. mem_ok h n"
      using t1(8) [OF Failure] that by (simp add: granted_def pairs_of.simps)
    moreover have "\<exists>fs ps. map_repr m fs \<and> mem_live h1 - map_blocks fs = mem_live h - map_blocks es \<and>
        begins_with (text_left t) ps \<and> add_pairs ps (map_of es) = Some (map_of fs)"
      using m(1) t1(5) by (intro exI [of _ es] exI [of _ "[]"]) simp
    ultimately show ?thesis unfolding parsed_def run using t1(1,2) abs by simp
  next
    case Success
    note key = t1(7) [OF Success]
    obtain r2 x2 y2 h2 where two: "STRING_TOKENIZER_get_next_token (Some t1) (Some v) (Some (c_lit '';'')) h1 = (r2, x2, y2, h2)"
      by (metis prod_cases4)
    have "token_taken t1 v '';'' h1 (r2, x2, y2, h2)"
      using get_next_token_result [OF t1(3) less.prems(3), of "c_lit '';''" h1] two by simp
    then obtain t2 v2 where t2: "x2 = Some t2" "y2 = Some v2" "tokenizer_inv t2" "str_inv v2"
      "mem_live h2 = mem_live h1" "mem_ok h2 = mem_ok h1"
      "r2 = Success \<Longrightarrow> next_token '';'' (text_left t1) = Some (str_val v2, text_left t2)"
      "r2 = Failure \<Longrightarrow> next_token '';'' (text_left t1) = None \<or> \<not> granted h1"
      by (rule token_takenE) blast
    show ?thesis
    proof (cases r2)
      case Failure
      then have run: "parse_loop (Some t) (Some k) (Some v) (Some m) h = (None, x2, y1, y2, Map_Destroy (Some m) h2)"
        using one two \<open>r1 = Success\<close> t1(1) by (simp add: parse_loop.simps [of "Some t"])
      have "pairs_of (text_left t) = None" if "\<forall>n. mem_ok h n"
        using t2(8) [OF Failure] key that t1(6) by (simp add: granted_def pairs_of.simps [of "text_left t"])
      then show ?thesis
        unfolding parsed_def run using t1(1,2,5) t2(1,2,5) Map_Destroy_live [OF m(1), of h2] by auto
    next
      case Success
      note val = t2(7) [OF Success]
      have nonempty: "strlen (str_s k1) \<noteq> 0" using next_token_shrinks(1) [OF key] by (simp add: strlen_def str_val_def)
      have strings: "terminated (str_s k1)" "terminated (str_s v2)" using t1(4) t2(4) by (simp_all add: str_inv_def)
      obtain r3 m3 h3 where add: "Map_Add (Some m) (Some (str_s k1)) (Some (str_s v2)) h2 = (r3, m3, h3)"
        by (metis prod_cases3)
      have put: "put_result m es (str_val k1) (str_val v2) h2 (r3, m3, h3)" and
        exists: "r3 = MAP_KEYEXISTS \<longleftrightarrow> str_val k1 \<in> fst ` set es"
        using Map_Add_result [OF m(1) strings, of h2] add by (simp_all add: str_val_def)
      have run: "parse_loop (Some t) (Some k) (Some v) (Some m) h =
        (if r3 \<noteq> MAP_OK then (None, x2, y1, y2, Map_Destroy m3 h3) else parse_loop x2 y1 y2 m3 h3)"
        using one two \<open>r1 = Success\<close> Success t1(1,2) t2(1,2) nonempty add
        by (simp add: parse_loop.simps [of "Some t"] STRING_c_str_def)
      show ?thesis
      proof (cases "r3 = MAP_OK")
        case False
        then obtain m' where m': "m3 = Some m'" "map_repr m' es" "mem_live h3 = mem_live h2"
          using put by (auto simp: put_result_def)
        have "map_of es (str_val k1) \<noteq> None" if "\<forall>n. mem_ok h n"
        proof (rule ccontr)
          assume none: "\<not> ?thesis"
          have ok: "\<forall>n. mem_ok h2 n" using that t1(6) t2(6) by simp
          have "findKey m (str_s k1) = None"
            using findKey_lookup [OF m(1), of "str_s k1"] none by (auto simp: str_val_def split: option.splits)
          then show False using Map_Add_granted [OF ok strings m(2)] add False by auto
        qed
        then have "Option.bind (pairs_of (text_left t)) (\<lambda>ps. add_pairs ps (map_of es)) = None" if "\<forall>n. mem_ok h n"
          using that key val by (subst pairs_of.simps) (cases "pairs_of (text_left t2)"; simp)
        then show ?thesis
          unfolding parsed_def run using False t1(1,2,5) t2(1,2,5) m' Map_Destroy_live [OF m'(2), of h3] by auto
      next
        case True
        then obtain m' fs where m': "m3 = Some m'" "map_repr m' fs" "map_of fs = (map_of es)(str_val k1 \<mapsto> str_val v2)"
          "map_filter_callback m' = None" "mem_live h3 - map_blocks fs = mem_live h2 - map_blocks es"
          using put m(2) by (auto simp: put_result_def)
        have free: "map_of es (str_val k1) = None"
          using True exists by (auto simp: map_of_eq_None_iff)
        have shorter: "length (text_left t2) < length (text_left t)"
          using next_token_shrinks(2) [OF key] next_token_shrinks(2) [OF val] by simp
        have ok: "\<forall>n. mem_ok h3 n" if "\<forall>n. mem_ok h n"
        proof -
          have all: "\<forall>n. mem_ok h2 n" using that t1(6) t2(6) by simp
          have "findKey m (str_s k1) = None"
            using findKey_lookup [OF m(1), of "str_s k1"] free by (auto simp: str_val_def split: option.splits)
          then show ?thesis using Map_Add_granted [OF all strings m(2)] add by auto
        qed
        have "parsed (text_left t2) fs h3 (parse_loop x2 y1 y2 m3 h3)"
          using less.hyps [OF shorter t2(3) t1(4) t2(4) m'(2,4)] t1(2) t2(1,2) m'(1) by simp
        then show ?thesis
          using parsed_step [OF key val free m'(3), of h3 h] m'(5) t1(5) t2(5) ok True run by simp
      qed
    qed
  qed
qed

section \<open>The parser\<close>

text \<open>What a caller gets for a text: the first pairs of it as a map that owns its blocks, or
  null and no block; and the whole text when every request is granted.\<close>

definition parse_outcome :: "char list \<Rightarrow> heap \<Rightarrow> MAP_HANDLE_DATA option \<times> heap \<Rightarrow> bool" where
  "parse_outcome s h out \<longleftrightarrow>
     (case out of (res, h') \<Rightarrow>
        (case res of
           None \<Rightarrow> mem_live h' = mem_live h
         | Some m \<Rightarrow>
             (\<exists>fs ps. map_repr m fs \<and> mem_live h' = mem_live h + map_blocks fs \<and>
                begins_with s ps \<and> add_pairs ps Map.empty = Some (map_of fs))) \<and>
        ((\<forall>n. mem_ok h n) \<longrightarrow>
           map_option map_abs res = Option.bind (pairs_of s) (\<lambda>ps. add_pairs ps Map.empty)))"

lemma parse_outcome_None: "mem_live h' = mem_live h \<Longrightarrow> \<not> (\<forall>n. mem_ok h n) \<Longrightarrow> parse_outcome s h (None, h')"
  unfolding parse_outcome_def by simp blast

lemma Map_Create_cases:
  obtains h' where "Map_Create None h = (None, h')" "mem_ok h' = mem_ok h" "mem_live h' = mem_live h" "\<not> (\<forall>n. mem_ok h n)"
  | m h' where "Map_Create None h = (Some m, h')" "mem_ok h' = mem_ok h" "mem_live h' = mem_live h + 1"
      "map_repr m []" "map_filter_callback m = None"
proof (cases "granted h")
  case False
  then show ?thesis using that(1) by (auto simp: Map_Create_def malloc_struct_def after_request_def granted_def)
next
  case True
  then show ?thesis
    using that(2) [of "\<lparr>map_keys = None, map_values = None, map_count = 0, map_filter_callback = None\<rparr>"]
    by (auto simp: Map_Create_def malloc_struct_def after_request_def map_repr_def)
qed

lemma connectionstringparser_parse_result:
  assumes "str_inv x"
  shows "parse_outcome (str_val x) h (connectionstringparser_parse (Some x) h)"
proof -
  have s: "terminated (str_s x)" using assms by (simp add: str_inv_def)
  obtain t0 h1 where tok: "STRING_TOKENIZER_create_from_char (Some (str_s x)) h = (t0, h1)" by fastforce
  note made = STRING_TOKENIZER_create_result [OF s tok]
  show ?thesis
  proof (cases t0)
    case None
    then have "connectionstringparser_parse (Some x) h = (None, h1)" "mem_live h1 = mem_live h" "\<not> (\<forall>n. mem_ok h n)"
      using made tok
      by (auto simp: connectionstringparser_parse_def STRING_TOKENIZER_create_def STRING_c_str_def granted_def after_request_def)
    then show ?thesis by (simp add: parse_outcome_None)
  next
    case (Some t)
    have t: "tokenizer_inv t" "text_left t = str_val x" "mem_live h1 = mem_live h + 2" "mem_ok h1 = mem_ok h"
      using made Some by (simp_all add: str_val_def)
    have create: "STRING_TOKENIZER_create (Some x) h = (Some t, h1)"
      using tok Some by (simp add: STRING_TOKENIZER_create_def STRING_c_str_def)
    show ?thesis
    proof (cases rule: made_withE [OF STRING_new_made_with [of h1]])
      case (1 h2)
      then show ?thesis
        using t by (simp add: connectionstringparser_parse_def create parse_outcome_None)
    next
      case (2 k h2)
      note k = this
      show ?thesis
      proof (cases rule: made_withE [OF STRING_new_made_with [of h2]])
        case (1 h3)
        then show ?thesis
          using t k by (simp add: connectionstringparser_parse_def create parse_outcome_None)
      next
        case (2 v h3)
        note v = this
        show ?thesis
        proof (cases rule: Map_Create_cases [of h3])
          case (1 h4)
          then show ?thesis
            using t k v by (simp add: connectionstringparser_parse_def create parse_outcome_None)
        next
          case (2 m h4)
          obtain res t' k' v' h5 where loop: "parse_loop (Some t) (Some k) (Some v) (Some m) h4 = (res, t', k', v', h5)"
            by (metis prod_cases5)
          have done': "parsed (str_val x) [] h4 (res, t', k', v', h5)"
            using parse_loop_parsed [OF t(1) k(4) v(4) 2(4,5), of h4] loop t(2) by simp
          obtain t2 k2 v2 where some: "t' = Some t2" "k' = Some k2" "v' = Some v2"
            using done' unfolding parsed_def by auto
          have run: "connectionstringparser_parse (Some x) h =
              (res, STRING_TOKENIZER_destroy t' (STRING_delete k' (STRING_delete v' h5)))"
            using create k(1) v(1) 2(1) loop by (simp add: connectionstringparser_parse_def)
          have live: "mem_live (STRING_TOKENIZER_destroy t' (STRING_delete k' (STRING_delete v' h5))) = mem_live h5 - 6"
            by (simp add: some)
          have start: "mem_live h4 = mem_live h + 7" "mem_ok h4 = mem_ok h"
            using t k v 2 by simp_all
          show ?thesis
          proof (cases res)
            case None
            then show ?thesis
              using done' start unfolding parse_outcome_def run parsed_def prod.case live by (simp add: map_blocks_def)
          next
            case (Some m')
            obtain fs ps where fs: "map_repr m' fs" "mem_live h5 - map_blocks fs = mem_live h4 - map_blocks []"
              "begins_with (str_val x) ps" "add_pairs ps Map.empty = Some (map_of fs)"
              using done' unfolding parsed_def Some by auto
            have "mem_live h5 - 6 = mem_live h + map_blocks fs" using fs(2) start(1) by (simp add: map_blocks_def [of "[]"])
            then have "\<exists>fs ps. map_repr m' fs \<and> mem_live h5 - 6 = mem_live h + map_blocks fs \<and>
                begins_with (str_val x) ps \<and> add_pairs ps Map.empty = Some (map_of fs)"
              using fs by blast
            then show ?thesis
              using done' start(2) unfolding parse_outcome_def run parsed_def prod.case live Some by simp
          qed
        qed
      qed
    qed
  qed
qed

lemma parse_from_char_result:
  assumes "terminated s"
  shows "parse_outcome (cstr s) h (connectionstringparser_parse_from_char (Some s) h)"
proof (cases rule: made_withE [OF STRING_construct_made_with [OF assms, of h]])
  case (1 h')
  then show ?thesis by (simp add: connectionstringparser_parse_from_char_def parse_outcome_None)
next
  case (2 x h1)
  obtain res h2 where run: "connectionstringparser_parse (Some x) h1 = (res, h2)" by fastforce
  have "parse_outcome (cstr s) h1 (res, h2)" using connectionstringparser_parse_result [OF 2(4), of h1] run 2(5) by simp
  then show ?thesis
    using 2 run by (cases res) (auto simp: connectionstringparser_parse_from_char_def parse_outcome_def)
qed

section \<open>Texts made of pairs\<close>

text \<open>A text of pairs, with semicolons between them.\<close>

fun conn_text :: "(char list \<times> char list) list \<Rightarrow> char list" where
  "conn_text [] = []"
| "conn_text ((k, v) # ps) = k @ ''='' @ v @ (if ps = [] then [] else CHR '';'' # conn_text ps)"

definition good_pair :: "char list \<times> char list \<Rightarrow> bool" where
  "good_pair = (\<lambda>(k, v). k \<noteq> [] \<and> CHR ''='' \<notin> set k \<and> v \<noteq> [] \<and> CHR '';'' \<notin> set v \<and> c_string k \<and> c_string v)"

lemma next_token_single:
  assumes "k \<noteq> []" and "d \<notin> set k"
  shows "next_token [d] (k @ d # r) = Some (k, r)" and "next_token [d] k = Some (k, [])"
proof -
  obtain c cs where k: "k = c # cs" using assms(1) by (cases k) auto
  have "takeWhile (\<lambda>x. x \<noteq> d) (k @ d # r) = k" "dropWhile (\<lambda>x. x \<noteq> d) (k @ d # r) = d # r"
    using assms(2) by (auto simp: takeWhile_append dropWhile_append)
  then show "next_token [d] (k @ d # r) = Some (k, r)"
    using assms(2) by (auto simp: next_token_def k)
  show "next_token [d] k = Some (k, [])" using assms(2) by (auto simp: next_token_def k)
qed

lemma pairs_of_conn_text: "list_all good_pair ps \<Longrightarrow> pairs_of (conn_text ps) = Some ps"
proof (induction ps)
  case Nil
  show ?case by (simp add: pairs_of.simps next_token_def)
next
  case (Cons p ps)
  obtain k v where p: "p = (k, v)" by (cases p)
  have kv: "k \<noteq> []" "CHR ''='' \<notin> set k" "v \<noteq> []" "CHR '';'' \<notin> set v" using Cons.prems by (auto simp: p good_pair_def)
  have rest: "pairs_of (conn_text ps) = Some ps" using Cons by simp
  have nil: "pairs_of [] = Some []" by (simp add: pairs_of.simps next_token_def)
  show ?case
    using next_token_single(1) [OF kv(1,2)] next_token_single(1) [OF kv(3,4), of "conn_text ps"]
      next_token_single(2) [OF kv(3,4)] rest nil
    by (subst pairs_of.simps) (auto simp: p)
qed

lemma c_string_conn_text: "list_all good_pair ps \<Longrightarrow> c_string (conn_text ps)"
proof (induction ps)
  case (Cons p ps)
  then show ?case by (cases p) (auto simp: good_pair_def)
qed simp

section \<open>What a caller gets\<close>

lemma add_pairs_start:
  "add_pairs ps Map.empty = (if distinct (map fst ps) then Some (map_of ps) else None)"
  using add_pairs_distinct [of ps Map.empty] by simp

lemma heap0_ok [simp]: "mem_ok heap0 n"
  by (simp add: heap0_def)

text \<open>C33: With all requests granted the parser is exact: the map holds the pairs of the text, and
  there is no map precisely when a key is not followed by a value or occurs twice.\<close>

theorem connection_string_exact:
  assumes "terminated s" and "\<forall>n. mem_ok h n"
  shows "map_option map_abs (fst (connectionstringparser_parse_from_char (Some s) h)) =
    (case pairs_of (cstr s) of
       None \<Rightarrow> None
     | Some ps \<Rightarrow> (if distinct (map fst ps) then Some (map_of ps) else None))"
  using parse_from_char_result [OF assms(1), of h] assms(2)
  by (auto simp: parse_outcome_def add_pairs_start split: prod.splits option.splits)

theorem connection_string_exact_witness:
  "map_option map_abs (fst (connectionstringparser_parse_from_char (Some (c_lit ''a=1;b=2;a=3'')) heap0)) = None \<and>
   map_option map_abs (fst (connectionstringparser_parse_from_char (Some (c_lit ''a=1;b=x=y'')) heap0)) =
     Some [''b'' \<mapsto> ''x=y'', ''a'' \<mapsto> ''1'']"
proof -
  have p: "pairs_of ''a=1;b=2;a=3'' = Some [(''a'', ''1''), (''b'', ''2''), (''a'', ''3'')]"
    "pairs_of ''a=1;b=x=y'' = Some [(''a'', ''1''), (''b'', ''x=y'')]"
    by (code_simp, code_simp)
  show ?thesis
    using connection_string_exact [of "c_lit ''a=1;b=2;a=3''" heap0] connection_string_exact [of "c_lit ''a=1;b=x=y''" heap0] p
    by (simp del: map_option_eq_Some)
qed

text \<open>Pairs written as a connection string are read back: keys without an equals sign,
  values without a semicolon, none empty, and different keys.\<close>

theorem connection_string_roundtrip:
  assumes "list_all good_pair ps" and "distinct (map fst ps)" and "\<forall>n. mem_ok h n"
  shows "\<exists>m h'. connectionstringparser_parse_from_char (Some (conn_text ps @ [NUL])) h = (Some m, h') \<and>
    map_inv m \<and> map_abs m = map_of ps"
proof -
  have input: "cstr (conn_text ps @ [NUL]) = conn_text ps" using c_string_conn_text [OF assms(1)] by simp
  obtain res h' where run: "connectionstringparser_parse_from_char (Some (conn_text ps @ [NUL])) h = (res, h')" by fastforce
  have "parse_outcome (conn_text ps) h (res, h')"
    using parse_from_char_result [of "conn_text ps @ [NUL]" h] run input by simp
  then obtain m where "res = Some m" "map_inv m" "map_abs m = map_of ps"
    using assms(2,3) pairs_of_conn_text [OF assms(1)] map_invI
    by (auto simp: parse_outcome_def add_pairs_start split: option.splits)
  with run show ?thesis by auto
qed

theorem connection_string_roundtrip_witness:
  "\<exists>m h'. connectionstringparser_parse_from_char (Some (conn_text [(''HostName'', ''a.b''), (''Key'', ''x=='')] @ [NUL])) heap0 =
     (Some m, h') \<and> map_abs m ''Key'' = Some ''x==''"
  using connection_string_roundtrip [of "[(''HostName'', ''a.b''), (''Key'', ''x=='')]" heap0]
  by (auto simp: good_pair_def)

text \<open>C34: Whatever requests are refused, the parser leaks nothing: without a map every block it
  took is given back, and a map it returns owns exactly its own blocks. That map holds pairs the
  text begins with, each key once.\<close>

theorem connection_string_safe:
  assumes "terminated s"
  shows "case connectionstringparser_parse_from_char (Some s) h of
      (None, h') \<Rightarrow> mem_live h' = mem_live h
    | (Some m, h') \<Rightarrow> map_inv m \<and> mem_live (Map_Destroy (Some m) h') = mem_live h \<and>
        (\<exists>ps. begins_with (cstr s) ps \<and> distinct (map fst ps) \<and> map_abs m = map_of ps)"
proof -
  obtain res h' where run: "connectionstringparser_parse_from_char (Some s) h = (res, h')" by fastforce
  have out: "parse_outcome (cstr s) h (res, h')" using parse_from_char_result [OF assms, of h] run by simp
  show ?thesis
  proof (cases res)
    case None
    then show ?thesis using out run by (simp add: parse_outcome_def)
  next
    case (Some m)
    then obtain fs ps where fs: "map_repr m fs" "mem_live h' = mem_live h + map_blocks fs"
      "begins_with (cstr s) ps" "add_pairs ps Map.empty = Some (map_of fs)"
      using out by (auto simp: parse_outcome_def)
    then have "distinct (map fst ps)" "map_of fs = map_of ps" by (auto simp: add_pairs_start split: if_splits)
    then show ?thesis using run Some fs(2,3) map_invI [OF fs(1)] Map_Destroy_live [OF fs(1), of h'] by auto
  qed
qed

theorem connection_string_safe_witness:
  "case connectionstringparser_parse_from_char (Some (c_lit ''a=b'')) (heap0\<lparr>mem_ok := \<lambda>n. n < 12\<rparr>) of
      (None, h') \<Rightarrow> mem_live h' = 0
    | (Some m, h') \<Rightarrow> mem_live (Map_Destroy (Some m) h') = 0"
  using connection_string_safe [of "c_lit ''a=b''" "heap0\<lparr>mem_ok := \<lambda>n. n < 12\<rparr>"]
  by (auto simp: heap0_def split: prod.splits option.splits)

text \<open>A refused copy of a key ends the loop like the end of the text: the pairs read so far are
  returned as the whole result.\<close>

lemma parser_returns_a_part:
  "case fst (connectionstringparser_parse_from_char (Some (c_lit ''a=1;b=2'')) (heap0\<lparr>mem_ok := \<lambda>n. n \<noteq> 15\<rparr>)) of
     None \<Rightarrow> False | Some m \<Rightarrow> map_entries m = [(''a'', ''1'')]"
  by code_simp

text \<open>An empty value is not seen: the semicolon in front of the next pair is skipped, and that
  pair becomes the value.\<close>

lemma empty_value_takes_next_pair: "pairs_of ''A=;B=c'' = Some [(''A'', ''B=c'')]"
  by code_simp

section \<open>Host names and proxy settings\<close>

text \<open>A host name is what precedes the first dot and what follows it, both not empty.\<close>

definition host_parts :: "char list \<Rightarrow> (char list \<times> char list) option" where
  "host_parts t =
     (let name = takeWhile (\<lambda>c. c \<noteq> CHR ''.'') t; suffix = tl (dropWhile (\<lambda>c. c \<noteq> CHR ''.'') t) in
      if name = [] \<or> suffix = [] then None else Some (name, suffix))"

lemma first_dot_loop_result:
  assumes "terminated s"
  shows "first_dot_loop s \<le> strlen s"
    and "drop (first_dot_loop s) (cstr s) = tl (dropWhile (\<lambda>c. c \<noteq> CHR ''.'') (cstr s))"
    and "CHR ''.'' \<in> set (cstr s) \<Longrightarrow> first_dot_loop s = Suc (length (takeWhile (\<lambda>c. c \<noteq> CHR ''.'') (cstr s)))"
  using assms by (induction s) (auto simp: strlen_def)

lemma nth_cstr_end: "terminated s \<Longrightarrow> n \<le> strlen s \<Longrightarrow> s ! n = NUL \<longleftrightarrow> drop n (cstr s) = []"
proof (cases "n = strlen s")
  case False
  assume "terminated s" "n \<le> strlen s"
  with False have n: "n < length (cstr s)" by (simp add: strlen_def)
  then have "cstr s ! n = s ! n" by (metis nth_take strlen_def take_strlen)
  moreover have "cstr s ! n \<noteq> NUL" using nth_mem [OF n] c_string_cstr [of s] by (auto simp: c_string_def)
  ultimately show ?thesis using n by simp
next
  case True
  assume "terminated s"
  then show ?thesis using nth_strlen True by (simp add: strlen_def)
qed

lemma STRING_copy_grant:
  assumes "STRING_copy (Some x) (Some (Some s)) h = (r, y, h')"
  shows "r = Failure \<longleftrightarrow> \<not> granted h"
  using assms by (cases "granted h") (auto simp: STRING_copy_def realloc_chars_def realloc_block_def Let_def)

lemma take_host_name:
  assumes "terminated s" and "drop (first_dot_loop s) (cstr s) \<noteq> []"
  shows "take (first_dot_loop s - 1) (cstr s) = takeWhile (\<lambda>c. c \<noteq> CHR ''.'') (cstr s)"
proof -
  have "CHR ''.'' \<in> set (cstr s)"
  proof (rule ccontr)
    assume "\<not> ?thesis"
    then have "dropWhile (\<lambda>c. c \<noteq> CHR ''.'') (cstr s) = []" by auto
    then have "tl (dropWhile (\<lambda>c. c \<noteq> CHR ''.'') (cstr s)) = []" by (simp only: list.sel(2))
    then show False using assms(2) first_dot_loop_result(2) [OF assms(1)] by simp
  qed
  then show ?thesis using first_dot_loop_result(3) [OF assms(1)]
    using takeWhile_eq_take [of "\<lambda>c. c \<noteq> CHR ''.''" "cstr s"] by (simp only: diff_Suc_1)
qed

text \<open>A host name is split exactly at its first dot: without a dot, with nothing before or
  nothing after it both strings are left alone, and otherwise they get the two parts unless a
  request is refused.\<close>

theorem split_host_name_exact:
  assumes "terminated s" and "str_inv x" and "str_inv y"
  shows "case connectionstringparser_splitHostName_from_char (Some s) (Some x) (Some y) h of (r, x', y', h') \<Rightarrow>
      mem_live h' = mem_live h \<and>
      (case host_parts (cstr s) of
         None \<Rightarrow> r = Failure \<and> x' = Some x \<and> y' = Some y
       | Some (name, suffix) \<Rightarrow>
           (if r = Success
            then map_option str_val x' = Some name \<and> map_option str_val y' = Some suffix
            else \<not> (\<forall>n. mem_ok h n)))"
proof -
  let ?n = "first_dot_loop s"
  have nonempty: "s \<noteq> []" using assms(1) by auto
  then obtain c cs where s: "s = c # cs" by (cases s) auto
  note bound = first_dot_loop_result(1) [OF assms(1)] and rest = first_dot_loop_result(2) [OF assms(1)]
  note stop = nth_cstr_end [OF assms(1) bound]
  show ?thesis
  proof (cases "c = NUL \<or> c = CHR ''.'' \<or> s ! ?n = NUL")
    case True
    then have "host_parts (cstr s) = None" using stop rest by (auto simp: host_parts_def s)
    moreover have "connectionstringparser_splitHostName_from_char (Some s) (Some x) (Some y) h = (Failure, Some x, Some y, h)"
      using True by (auto simp: connectionstringparser_splitHostName_from_char_def s Let_def)
    ultimately show ?thesis by simp
  next
    case False
    have more: "drop ?n (cstr s) \<noteq> []" using False stop by simp
    have parts: "host_parts (cstr s) = Some (takeWhile (\<lambda>c. c \<noteq> CHR ''.'') (cstr s), drop ?n (cstr s))"
      using False more rest by (auto simp: host_parts_def s Let_def)
    obtain r1 x1 h1 where one: "STRING_copy_n (Some x) (Some s) (?n - 1) h = (r1, x1, h1)" by (metis prod_cases3)
    obtain r2 y2 h2 where two: "STRING_copy (Some y) (Some (Some (drop ?n s))) h1 = (r2, y2, h2)" by (metis prod_cases3)
    have m1: "modified x h (takeWhile (\<lambda>c. c \<noteq> CHR ''.'') (cstr s)) (r1, x1, h1)"
      using STRING_copy_n_modified [of x h "?n - 1" s] one take_host_name [OF assms(1) more] by simp
    have m2: "modified y h1 (drop ?n (cstr s)) (r2, y2, h2)"
      using STRING_copy_modified [OF assms(3), of "Some (drop ?n s)" h1] two terminated_drop [OF assms(1) bound] cstr_drop [OF bound]
      by simp
    have run: "connectionstringparser_splitHostName_from_char (Some s) (Some x) (Some y) h =
        (if r1 = Success then (r2, x1, y2, h2) else (Failure, x1, Some y, h1))"
      using False one two
      by (cases r1; cases r2) (simp_all add: connectionstringparser_splitHostName_from_char_def Let_def s)
    show ?thesis
      using m1 m2 copy_n_grant [OF one] STRING_copy_grant [OF two]
      unfolding run parts by (cases r1; cases r2) (auto simp: modified_def granted_def)
  qed
qed

definition string_of :: "char list \<Rightarrow> STRING" where
  "string_of t = \<lparr>str_s = c_lit t\<rparr>"

theorem split_host_name_exact_witness:
  "case connectionstringparser_splitHostName_from_char (Some (c_lit ''hub.azure.net'')) (Some (string_of [])) (Some (string_of [])) heap0 of
     (r, x, y, h) \<Rightarrow> r = Success \<and> map_option str_val x = Some ''hub'' \<and> map_option str_val y = Some ''azure.net''"
  using split_host_name_exact [of "c_lit ''hub.azure.net''" "string_of []" "string_of []" heap0]
  by (auto simp: host_parts_def string_of_def str_inv_def split: prod.splits if_splits)

text \<open>The arrays of the proxy settings keep their size and their last terminator.\<close>

definition proxy_ok :: "proxy_arrays \<Rightarrow> bool" where
  "proxy_ok st \<longleftrightarrow> (\<forall>b \<in> {proxyHostPort2 st, proxyUserPassword2 st}. length b = 256 \<and> b ! 255 = NUL)"

fun set_proxies :: "(char list option \<times> char list option) list \<Rightarrow> proxy_arrays \<Rightarrow> proxy_arrays" where
  "set_proxies [] st = st"
| "set_proxies ((p, u) # calls) st = set_proxies calls (platform_set_http_proxy p u st)"

definition kept_text :: "char list option \<Rightarrow> char list" where
  "kept_text p = (case p of None \<Rightarrow> [] | Some s \<Rightarrow> take 255 (cstr s))"

definition stored_text :: "char list \<Rightarrow> char list option \<Rightarrow> char list" where
  "stored_text b p = (case p of Some s \<Rightarrow> c_strncpy b 0 s 255 | None \<Rightarrow> b[0 := NUL])"

lemma stored_text_keeps:
  assumes "length b = 256" and "b ! 255 = NUL"
  shows "length (stored_text b p) = 256" and "stored_text b p ! 255 = NUL" and "cstr (stored_text b p) = kept_text p"
proof -
  obtain a where b: "b = a @ [NUL]" "length a = 255" using assms by (cases b rule: rev_cases) (auto simp: nth_append)
  have "length (stored_text b p) = 256 \<and> stored_text b p ! 255 = NUL \<and> cstr (stored_text b p) = kept_text p"
  proof (cases p)
    case None
    have "a \<noteq> []" using b(2) by auto
    then obtain c a' where "a = c # a'" by (cases a) auto
    with None show ?thesis using b by (simp add: stored_text_def kept_text_def nth_append)
  next
    case (Some s)
    define w where "w = take 255 (cstr s) @ replicate (255 - strlen s) NUL"
    have w: "length w = 255" by (simp add: w_def strlen_def)
    have "stored_text b p = w @ [NUL]"
      using b w by (simp add: Some stored_text_def c_strncpy_def memcpy_at_def w_def [symmetric])
    moreover have "cstr (w @ [NUL]) = take 255 (cstr s)"
      unfolding w_def by (cases "255 - strlen s") (simp_all add: cstr_append)
    ultimately show ?thesis using w by (simp add: Some kept_text_def nth_append)
  qed
  then show "length (stored_text b p) = 256" "stored_text b p ! 255 = NUL" "cstr (stored_text b p) = kept_text p"
    by simp_all
qed

lemma last_NUL: "length b = 256 \<Longrightarrow> b ! 255 = NUL \<Longrightarrow> terminated b"
  using nth_mem [of 255 b] by (simp add: terminated_def)

lemma platform_set_http_proxy_stored:
  "platform_set_http_proxy p u st =
     st\<lparr>proxyHostPort2 := stored_text (proxyHostPort2 st) p, proxyUserPassword2 := stored_text (proxyUserPassword2 st) u\<rparr>"
  by (cases u) (simp_all add: platform_set_http_proxy_def stored_text_def Let_def)

lemma set_proxies_last:
  "proxy_ok st \<Longrightarrow> proxy_ok (set_proxies calls st) \<and>
     (calls \<noteq> [] \<longrightarrow> cstr (proxyHostPort2 (set_proxies calls st)) = kept_text (fst (last calls)) \<and>
        cstr (proxyUserPassword2 (set_proxies calls st)) = kept_text (snd (last calls)))"
proof (induction calls arbitrary: st)
  case (Cons call calls)
  obtain p u where call: "call = (p, u)" by (cases call)
  note one = stored_text_keeps [of "proxyHostPort2 st" p] and two = stored_text_keeps [of "proxyUserPassword2 st" u]
  have "proxy_ok (platform_set_http_proxy p u st)"
    using Cons.prems one two by (simp add: proxy_ok_def platform_set_http_proxy_stored)
  from Cons.IH [OF this] show ?case
    using Cons.prems one two by (auto simp: call proxy_ok_def platform_set_http_proxy_stored)
qed simp

text \<open>The proxy settings that are read are the last that were set: whatever texts were stored
  before, the reader gets two terminated texts, the first 255 characters of the last ones, empty
  for null.\<close>

theorem proxy_settings_last:
  assumes "calls \<noteq> []"
  shows "case platform_get_http_proxy (set_proxies calls proxy_arrays_start) True True of
      (Some a, Some b) \<Rightarrow> terminated a \<and> terminated b \<and> length a = 256 \<and> length b = 256 \<and>
        cstr a = kept_text (fst (last calls)) \<and> cstr b = kept_text (snd (last calls))
    | _ \<Rightarrow> False"
proof -
  have "proxy_ok proxy_arrays_start" by (simp add: proxy_ok_def proxy_arrays_start_def)
  from set_proxies_last [OF this, of calls] assms show ?thesis
    using last_NUL [of "proxyHostPort2 (set_proxies calls proxy_arrays_start)"]
      last_NUL [of "proxyUserPassword2 (set_proxies calls proxy_arrays_start)"]
    by (simp add: platform_get_http_proxy_def proxy_ok_def)
qed

theorem proxy_settings_last_witness:
  "map_option cstr (fst (platform_get_http_proxy
     (set_proxies [(Some (c_lit ''proxy.local:8080''), None), (Some (c_lit ''p:80''), None)] proxy_arrays_start) True True)) = Some ''p:80''"
  using proxy_settings_last [of "[(Some (c_lit ''proxy.local:8080''), None), (Some (c_lit ''p:80''), None)]"]
  by (auto simp: kept_text_def split: option.splits prod.splits)

end
