(* ===== verification/StringToken.thy ===== *)
theory StringToken
  imports Maps
begin

text \<open>
  The token scanner of \<open>src/src/string_token.c\<close>: it walks over a source of a given length and
  yields the pieces between delimiters of any length, without copying; \<open>StringToken_Split\<close>
  copies them into an array. A pointer into the source is its distance from the start. \<open>pieces\<close>
  is the reference: the pieces of a text, the earliest delimiter first and at one place the
  first of the list.
\<close>

section \<open>The functions of the source\<close>

record STRING_TOKEN_TAG =
  source :: "char list"
  token_length :: nat
  token_start :: "nat option"
  delimiter_start :: "nat option"
  delimiter :: cptr

fun delimiters_lengths_loop :: "cptr list \<Rightarrow> nat \<Rightarrow> nat list \<Rightarrow> nat list option" where
  "delimiters_lengths_loop [] i result = Some result"
| "delimiters_lengths_loop (d # ds) i result =
     (case d of
        None \<Rightarrow> None
      | Some s \<Rightarrow> delimiters_lengths_loop ds (i + 1) (result[i := strlen s]))"

definition get_delimiters_lengths :: "cptr list \<Rightarrow> nat \<Rightarrow> heap \<Rightarrow> nat list option \<times> heap" where
  "get_delimiters_lengths delimiters n_delims h =
     (case malloc_block unat n_delims h of
        (None, h1) \<Rightarrow> (None, h1)
      | (Some result, h1) \<Rightarrow>
          (case delimiters_lengths_loop (take n_delims delimiters) 0 result of
             None \<Rightarrow> (None, c_free (Some result) h1)
           | Some lengths \<Rightarrow> (Some lengths, h1)))"

text \<open>The loop over the characters of one delimiter, and the loop over the delimiters at one place.\<close>

function match_loop :: "char list \<Rightarrow> nat \<Rightarrow> nat \<Rightarrow> char list \<Rightarrow> nat \<Rightarrow> nat \<Rightarrow> nat" where
  "match_loop src stop_pos current_pos d len k =
     (if k < len \<and> current_pos + k < stop_pos then
        (if src ! (current_pos + k) \<noteq> d ! k then k else match_loop src stop_pos current_pos d len (k + 1))
      else k)"
  by pat_completeness auto

termination by (relation "measure (\<lambda>(s, e, p, d, n, k). n - k)") auto

declare match_loop.simps [simp del]

fun delimiter_loop :: "char list \<Rightarrow> nat \<Rightarrow> nat \<Rightarrow> (char list \<times> nat) list \<Rightarrow> char list option" where
  "delimiter_loop src stop_pos current_pos [] = None"
| "delimiter_loop src stop_pos current_pos ((d, len) # ds) =
     (if src ! current_pos = d ! 0 \<and> match_loop src stop_pos current_pos d len 1 = len then Some d
      else delimiter_loop src stop_pos current_pos ds)"

text \<open>The scan: where it stops, and the delimiter that it found there.\<close>

function scan_pieces_loop :: "char list \<Rightarrow> nat \<Rightarrow> (char list \<times> nat) list \<Rightarrow> nat \<Rightarrow> nat \<times> char list option" where
  "scan_pieces_loop src stop_pos ds current_pos =
     (if current_pos < stop_pos then
        (case delimiter_loop src stop_pos current_pos ds of
           Some d \<Rightarrow> (current_pos, Some d)
         | None \<Rightarrow> scan_pieces_loop src stop_pos ds (current_pos + 1))
      else (current_pos, None))"
  by pat_completeness auto

termination by (relation "measure (\<lambda>(s, e, ds, p). e - p)") auto

declare scan_pieces_loop.simps [simp del]

definition get_next_token :: "STRING_TOKEN_TAG \<Rightarrow> cptr list \<Rightarrow> nat \<Rightarrow> heap \<Rightarrow> rc \<times> STRING_TOKEN_TAG \<times> heap" where
  "get_next_token token delimiters n_delims h =
     (if token_start token \<noteq> None \<and> delimiter_start token = None then (Failure, token, h)
      else
        (case get_delimiters_lengths delimiters n_delims h of
           (None, h1) \<Rightarrow> (Failure, token, h1)
         | (Some delimiters_lengths, h1) \<Rightarrow>
             (let stop_pos = token_length token;
                  new_token_start =
                    (case delimiter_start token of None \<Rightarrow> 0 | Some p \<Rightarrow> p + strlen (the (delimiter token)));
                  (current_pos, found) =
                    scan_pieces_loop (source token) stop_pos
                      (zip (map the (take n_delims delimiters)) delimiters_lengths) new_token_start;
                  token1 =
                    (case found of
                       Some d \<Rightarrow>
                         token\<lparr>delimiter_start := Some current_pos, delimiter := Some d,
                               token_start := (if current_pos = 0 then None else Some new_token_start)\<rparr>
                     | None \<Rightarrow>
                         (if current_pos = stop_pos
                          then token\<lparr>token_start := Some new_token_start, delimiter_start := None, delimiter := None\<rparr>
                          else token)) in
              (Success, token1, c_free (Some delimiters_lengths) h1))))"

definition StringToken_GetFirst ::
  "cptr \<Rightarrow> nat \<Rightarrow> cptr list option \<Rightarrow> nat \<Rightarrow> heap \<Rightarrow> STRING_TOKEN_TAG option \<times> heap" where
  "StringToken_GetFirst src len delimiters n_delims h =
     (case (src, delimiters) of
        (Some s, Some ds) \<Rightarrow>
          (if n_delims = 0 then (None, h)
           else
             (case malloc_struct h of
                (False, h1) \<Rightarrow> (None, h1)
              | (True, h1) \<Rightarrow>
                  (case get_next_token
                      \<lparr>source = s, token_length = len, token_start = None, delimiter_start = None, delimiter = None\<rparr>
                      ds n_delims h1 of
                     (Failure, token, h2) \<Rightarrow> (None, free_struct h2)
                   | (Success, token, h2) \<Rightarrow> (Some token, h2))))
      | _ \<Rightarrow> (None, h))"

definition StringToken_GetNext ::
  "STRING_TOKEN_TAG option \<Rightarrow> cptr list option \<Rightarrow> nat \<Rightarrow> heap \<Rightarrow> bool \<times> STRING_TOKEN_TAG option \<times> heap" where
  "StringToken_GetNext token delimiters n_delims h =
     (case (token, delimiters) of
        (Some t, Some ds) \<Rightarrow>
          (if n_delims = 0 then (False, token, h)
           else (case get_next_token t ds n_delims h of (r, t1, h1) \<Rightarrow> (r = Success, Some t1, h1)))
      | _ \<Rightarrow> (False, token, h))"

definition StringToken_GetValue :: "STRING_TOKEN_TAG option \<Rightarrow> nat option" where
  "StringToken_GetValue token =
     (case token of
        None \<Rightarrow> None
      | Some t \<Rightarrow>
          (if token_start t = Some (token_length t) then None
           else if token_start t = delimiter_start t then None
           else token_start t))"

definition StringToken_GetLength :: "STRING_TOKEN_TAG option \<Rightarrow> nat" where
  "StringToken_GetLength token =
     (case token of
        None \<Rightarrow> 0
      | Some t \<Rightarrow>
          (case token_start t of
             None \<Rightarrow> 0
           | Some a \<Rightarrow>
               (case delimiter_start t of
                  None \<Rightarrow> token_length t - a
                | Some p \<Rightarrow> p - a)))"

definition StringToken_GetDelimiter :: "STRING_TOKEN_TAG option \<Rightarrow> cptr" where
  "StringToken_GetDelimiter token = (case token of None \<Rightarrow> None | Some t \<Rightarrow> delimiter t)"

definition StringToken_Destroy :: "STRING_TOKEN_TAG option \<Rightarrow> heap \<Rightarrow> heap" where
  "StringToken_Destroy token h = (case token of None \<Rightarrow> h | Some t \<Rightarrow> free_struct h)"

text \<open>One token into the array: the result, the array, the number of tokens and the heap.\<close>

definition store_token ::
  "STRING_TOKEN_TAG \<Rightarrow> bool \<Rightarrow> cptr list option \<Rightarrow> nat \<Rightarrow> heap \<Rightarrow> rc \<times> cptr list option \<times> nat \<times> heap" where
  "store_token tokenizer include_empty tokens token_count h =
     (let tokenValue = StringToken_GetValue (Some tokenizer); tokenLength = StringToken_GetLength (Some tokenizer) in
      if (tokenValue \<noteq> None \<and> tokenLength = 0) \<or> (tokenValue = None \<and> tokenLength > 0) then (Failure, tokens, token_count, h)
      else if tokenValue \<noteq> None \<or> include_empty then
        (case realloc_block ptr_cell tokens (token_count + 1) h of
           (None, h1) \<Rightarrow> (Failure, tokens, token_count, h1)
         | (Some temp_token, h1) \<Rightarrow>
             (if tokenLength = 0 then (Success, Some (temp_token[token_count := None]), token_count + 1, h1)
              else
                (case malloc_block char_of_byte (tokenLength + 1) h1 of
                   (None, h2) \<Rightarrow> (Failure, Some (temp_token[token_count := None]), token_count, h2)
                 | (Some b, h2) \<Rightarrow>
                     (Success,
                      Some (temp_token[token_count :=
                        Some ((memcpy_at b 0 (drop (the tokenValue) (source tokenizer)) tokenLength)[tokenLength := NUL])]),
                      token_count + 1, h2))))
      else (Success, tokens, token_count, h))"

text \<open>The loop of \<open>StringToken_Split\<close>; it returns when it has a value.\<close>

partial_function (option) split_loop ::
  "STRING_TOKEN_TAG option \<Rightarrow> cptr list option \<Rightarrow> nat \<Rightarrow> bool \<Rightarrow> cptr list option \<Rightarrow> nat \<Rightarrow> heap \<Rightarrow>
     (rc \<times> STRING_TOKEN_TAG option \<times> cptr list option \<times> nat \<times> heap) option" where
  "split_loop tokenizer delimiters n_delims include_empty tokens token_count h =
     (case store_token (the tokenizer) include_empty tokens token_count h of (r, tokens1, count1, h1) \<Rightarrow>
        if r = Failure then Some (Failure, tokenizer, tokens1, count1, h1)
        else
          (case StringToken_GetNext tokenizer delimiters n_delims h1 of (has_next, tokenizer1, h2) \<Rightarrow>
             if has_next then split_loop tokenizer1 delimiters n_delims include_empty tokens1 count1 h2
             else Some (Success, tokenizer1, tokens1, count1, h2)))"

declare split_loop.simps [code]

fun free_tokens_loop :: "cptr list option \<Rightarrow> nat \<Rightarrow> heap \<Rightarrow> nat \<times> heap" where
  "free_tokens_loop tokens 0 h = (0, h)"
| "free_tokens_loop tokens (Suc n) h =
     (case tokens of None \<Rightarrow> (Suc n, h) | Some a \<Rightarrow> free_tokens_loop tokens n (c_free (a ! n) h))"

text \<open>What is written to the two out parameters, unless an argument is invalid.\<close>

definition StringToken_Split ::
  "cptr \<Rightarrow> nat \<Rightarrow> cptr list option \<Rightarrow> nat \<Rightarrow> bool \<Rightarrow> bool \<Rightarrow> bool \<Rightarrow> heap \<Rightarrow>
     (rc \<times> (cptr list option \<times> nat) option \<times> heap) option" where
  "StringToken_Split src len delimiters n_delims include_empty has_tokens has_token_count h =
     (if src = None \<or> delimiters = None \<or> n_delims = 0 \<or> \<not> has_tokens \<or> \<not> has_token_count then Some (Failure, None, h)
      else
        (case StringToken_GetFirst src len delimiters n_delims h of
           (None, h1) \<Rightarrow> Some (Success, Some (None, 0), h1)
         | (Some tokenizer, h1) \<Rightarrow>
             (case split_loop (Some tokenizer) delimiters n_delims include_empty None 0 h1 of
                None \<Rightarrow> None
              | Some (r, tokenizer1, tokens, token_count, h2) \<Rightarrow>
                  (let h3 = StringToken_Destroy tokenizer1 h2 in
                   if r = Failure then
                     (let (count1, h4) = free_tokens_loop tokens token_count h3 in
                      Some (Failure, Some (tokens, count1), c_free tokens h4))
                   else Some (Success, Some (tokens, token_count), h3)))))"

section \<open>The pieces of a text\<close>

definition delimiter_at :: "char list list \<Rightarrow> char list \<Rightarrow> char list option" where
  "delimiter_at ds s = find (\<lambda>d. d \<noteq> [] \<and> take (length d) s = d) ds"

text \<open>The piece in front of the first delimiter, that delimiter and what follows it.\<close>

fun cut :: "char list list \<Rightarrow> char list \<Rightarrow> char list \<times> (char list \<times> char list) option" where
  "cut ds [] = ([], None)"
| "cut ds (c # s) =
     (case delimiter_at ds (c # s) of
        Some d \<Rightarrow> ([], Some (d, drop (length d) (c # s)))
      | None \<Rightarrow> (case cut ds s of (t, r) \<Rightarrow> (c # t, r)))"

lemma delimiter_at_Some: "delimiter_at ds s = Some d \<Longrightarrow> d \<in> set ds \<and> d \<noteq> [] \<and> take (length d) s = d"
  by (auto simp: delimiter_at_def find_Some_iff)

lemma cut_joins:
  "cut ds s = (t, None) \<Longrightarrow> s = t"
  "cut ds s = (t, Some (d, r)) \<Longrightarrow> s = t @ d @ r \<and> d \<in> set ds \<and> d \<noteq> []"
proof (induction s arbitrary: t)
  case (Cons c s)
  { case 1 then show ?case using Cons.IH(1) by (auto split: option.splits prod.splits)
  next
    case 2
    show ?case
    proof (cases "delimiter_at ds (c # s)")
      case None
      with 2 Cons.IH(2) show ?thesis by (auto split: prod.splits)
    next
      case (Some e)
      then show ?thesis using 2 delimiter_at_Some [OF Some] append_take_drop_id [of "length e" "c # s"] by auto
    qed }
qed auto

function pieces :: "char list list \<Rightarrow> char list \<Rightarrow> char list list" where
  "pieces ds s =
     (case cut ds s of
        (t, None) \<Rightarrow> [t]
      | (t, Some (d, r)) \<Rightarrow> t # pieces ds r)"
  by pat_completeness auto

termination
  by (relation "measure (\<lambda>(ds, s). length s)") (auto dest!: cut_joins(2) [OF sym])

declare pieces.simps [simp del]

section \<open>One scan\<close>

lemma take_eq_iff: "take (length u) t = u \<longleftrightarrow> (\<forall>i < length u. i < length t \<and> t ! i = u ! i)"
proof
  assume "take (length u) t = u"
  then show "\<forall>i < length u. i < length t \<and> t ! i = u ! i"
    by (metis length_take min.strict_boundedE nth_take)
next
  assume a: "\<forall>i < length u. i < length t \<and> t ! i = u ! i"
  then have "length u \<le> length t" by (metis less_irrefl not_le)
  then show "take (length u) t = u" using a by (intro nth_equalityI) auto
qed

lemma match_loop_exact:
  "k \<le> len \<Longrightarrow> match_loop src stop pos d len k = len \<longleftrightarrow> (\<forall>i. k \<le> i \<and> i < len \<longrightarrow> pos + i < stop \<and> src ! (pos + i) = d ! i)"
proof (induction src stop pos d len k rule: match_loop.induct)
  case (1 src stop pos d len k)
  show ?case
  proof (cases "k < len \<and> pos + k < stop \<and> src ! (pos + k) = d ! k")
    case True
    have or_later: "k \<le> i \<longleftrightarrow> i = k \<or> k + 1 \<le> i" for i by auto
    have step: "(\<forall>i. k \<le> i \<and> i < len \<longrightarrow> P i) \<longleftrightarrow> P k \<and> (\<forall>i. k + 1 \<le> i \<and> i < len \<longrightarrow> P i)" for P
      unfolding or_later using True by fast
    show ?thesis
      using True 1 step [of "\<lambda>i. pos + i < stop \<and> src ! (pos + i) = d ! i"] by (subst match_loop.simps) simp
  next
    case False
    then show ?thesis using 1(2) by (subst match_loop.simps) auto
  qed
qed

lemma match_here:
  assumes "stop \<le> length src" and "pos < stop" and "terminated d"
  shows "src ! pos = d ! 0 \<and> match_loop src stop pos d (strlen d) 1 = strlen d \<longleftrightarrow>
    cstr d \<noteq> [] \<and> take (length (cstr d)) (drop pos (take stop src)) = cstr d"
proof (cases "strlen d = 0")
  case True
  then have "match_loop src stop pos d (strlen d) 1 = 1" by (subst match_loop.simps) simp
  with True show ?thesis by (simp add: strlen_def)
next
  case False
  have nth: "cstr d ! i = d ! i" if "i < strlen d" for i using that by (metis nth_take take_strlen)
  have split: "(\<forall>i < strlen d. P i) \<longleftrightarrow> P 0 \<and> (\<forall>i. 1 \<le> i \<and> i < strlen d \<longrightarrow> P i)" for P
    using False by (metis One_nat_def gr0I less_one not_le)
  have "take (length (cstr d)) (drop pos (take stop src)) = cstr d \<longleftrightarrow>
      (\<forall>i < strlen d. pos + i < stop \<and> src ! (pos + i) = d ! i)"
    using assms(1,2) nth by (auto simp: take_eq_iff strlen_def)
  also have "\<dots> \<longleftrightarrow> src ! pos = d ! 0 \<and> match_loop src stop pos d (strlen d) 1 = strlen d"
    using match_loop_exact [of 1 "strlen d" src stop pos d] False assms(2) by (simp add: split)
  finally show ?thesis using False by (simp add: strlen_def)
qed

definition delimiter_blocks :: "cptr list \<Rightarrow> (char list \<times> nat) list" where
  "delimiter_blocks ds = zip (map the ds) (map (strlen \<circ> the) ds)"

abbreviation texts_of :: "cptr list \<Rightarrow> char list list" where
  "texts_of ds \<equiv> map (cstr \<circ> the) ds"

lemma delimiter_loop_result:
  assumes "stop \<le> length src" and "pos < stop" and "list_all ptr_good ds"
  shows "map_option cstr (delimiter_loop src stop pos (delimiter_blocks ds)) = delimiter_at (texts_of ds) (drop pos (take stop src)) \<and>
    (\<forall>b. delimiter_loop src stop pos (delimiter_blocks ds) = Some b \<longrightarrow> Some b \<in> set ds)"
  using assms(3)
proof (induction ds)
  case (Cons d ds)
  then obtain b' where d: "d = Some b'" "terminated b'" by (auto simp: ptr_good_def)
  show ?case using Cons d match_here [OF assms(1,2) d(2)] by (auto simp: delimiter_blocks_def delimiter_at_def)
qed (simp add: delimiter_blocks_def delimiter_at_def)

lemma scan_result:
  assumes "stop \<le> length src" and "list_all ptr_good ds" and "pos \<le> stop"
  shows "case cut (texts_of ds) (drop pos (take stop src)) of
      (t, None) \<Rightarrow> scan_pieces_loop src stop (delimiter_blocks ds) pos = (stop, None)
    | (t, Some (d, r)) \<Rightarrow> (\<exists>b. scan_pieces_loop src stop (delimiter_blocks ds) pos = (pos + length t, Some b) \<and>
        Some b \<in> set ds \<and> cstr b = d)"
  using assms(3)
proof (induction "stop - pos" arbitrary: pos)
  case 0
  then have "pos = stop" by simp
  then show ?case by (simp add: scan_pieces_loop.simps)
next
  case (Suc n)
  then have pos: "pos < stop" by simp
  note loop = delimiter_loop_result [OF assms(1) pos assms(2)]
  have here: "drop pos (take stop src) = src ! pos # drop (Suc pos) (take stop src)"
    using assms(1) pos by (metis Cons_nth_drop_Suc length_take min.absorb2 nth_take)
  show ?case
  proof (cases "delimiter_loop src stop pos (delimiter_blocks ds)")
    case None
    then have none: "delimiter_at (texts_of ds) (src ! pos # drop (Suc pos) (take stop src)) = None" using loop here by simp
    have "scan_pieces_loop src stop (delimiter_blocks ds) pos = scan_pieces_loop src stop (delimiter_blocks ds) (Suc pos)"
      using None pos by (subst scan_pieces_loop.simps) simp
    then show ?thesis
      using Suc.hyps(1) [of "Suc pos"] Suc.hyps(2) pos none here by (auto split: prod.splits option.splits)
  next
    case (Some b)
    then have some: "delimiter_at (texts_of ds) (src ! pos # drop (Suc pos) (take stop src)) = Some (cstr b)" "Some b \<in> set ds"
      using loop here by (metis option.map(2), blast)
    have "scan_pieces_loop src stop (delimiter_blocks ds) pos = (pos, Some b)"
      using Some pos by (subst scan_pieces_loop.simps) simp
    then show ?thesis using some here by simp
  qed
qed

lemma delimiters_lengths_loop_result:
  "list_all ptr_good ds \<Longrightarrow> i + length ds = length arr \<Longrightarrow>
     delimiters_lengths_loop ds i arr = Some (take i arr @ map (strlen \<circ> the) ds)"
proof (induction ds arbitrary: i arr)
  case (Cons d ds)
  then obtain b where "d = Some b" by (auto simp: ptr_good_def)
  moreover have "take (i + 1) (arr[i := x]) = take i arr @ [x]" for x
    using Cons.prems(2) by (simp add: take_Suc_conv_app_nth)
  ultimately show ?case using Cons.IH [of "i + 1"] Cons.prems by simp
qed simp

lemma get_delimiters_lengths_result:
  assumes "list_all ptr_good ds"
  shows "get_delimiters_lengths ds (length ds) h =
    (if granted h then (Some (map (strlen \<circ> the) ds), after_request 1 h) else (None, after_request 1 h))"
  using delimiters_lengths_loop_result [OF assms, of 0]
  by (simp add: get_delimiters_lengths_def malloc_block_def)

section \<open>What a token stands for\<close>

definition text_of :: "STRING_TOKEN_TAG \<Rightarrow> char list" where
  "text_of t = take (token_length t) (source t)"

text \<open>The token is the piece \<open>tok\<close>, and \<open>rest\<close> is what follows its delimiter.\<close>

definition token_repr :: "STRING_TOKEN_TAG \<Rightarrow> char list \<Rightarrow> char list option \<Rightarrow> bool" where
  "token_repr t tok rest \<longleftrightarrow>
     token_length t \<le> length (source t) \<and>
     (case rest of
        None \<Rightarrow> delimiter_start t = None \<and> delimiter t = None \<and>
          (\<exists>a \<le> token_length t. token_start t = Some a \<and> tok = drop a (text_of t))
      | Some r \<Rightarrow>
          (\<exists>a p b. a \<le> p \<and> p + strlen b \<le> token_length t \<and> strlen b > 0 \<and>
             token_start t = (if p = 0 then None else Some a) \<and> delimiter_start t = Some p \<and> delimiter t = Some b \<and>
             tok = take (p - a) (drop a (text_of t)) \<and> r = drop (p + strlen b) (text_of t)))"

text \<open>Before the first call the whole source is left.\<close>

definition token_left :: "STRING_TOKEN_TAG \<Rightarrow> char list \<Rightarrow> bool" where
  "token_left t s \<longleftrightarrow>
     (\<exists>tok. token_repr t tok (Some s)) \<or>
     (token_length t \<le> length (source t) \<and> token_start t = None \<and> delimiter_start t = None \<and> delimiter t = None \<and> s = text_of t)"

lemma token_value_repr:
  assumes "token_repr t tok rest"
  shows "StringToken_GetLength (Some t) = length tok \<and> (StringToken_GetValue (Some t) = None \<longleftrightarrow> tok = []) \<and>
    (\<forall>a. StringToken_GetValue (Some t) = Some a \<longrightarrow> take (length tok) (drop a (source t)) = tok)"
proof (cases rest)
  case None
  then show ?thesis
    using assms by (auto simp: token_repr_def StringToken_GetLength_def StringToken_GetValue_def text_of_def drop_take)
next
  case (Some r)
  then obtain a p b where t: "a \<le> p" "p + strlen b \<le> token_length t" "strlen b > 0" "token_length t \<le> length (source t)"
    "token_start t = (if p = 0 then None else Some a)" "delimiter_start t = Some p" "tok = take (p - a) (drop a (text_of t))"
    using assms by (auto simp: token_repr_def)
  have tok: "tok = take (p - a) (drop a (source t))" "length tok = p - a"
    using t by (simp_all add: text_of_def drop_take min_def)
  then show ?thesis using t by (auto simp: StringToken_GetLength_def StringToken_GetValue_def)
qed

lemma scan_next_token_result:
  assumes ds: "list_all ptr_good ds" and left: "token_left t s" and run: "get_next_token t ds (length ds) h = (r, t', h')"
  shows "mem_live h' = mem_live h \<and> mem_ok h' = mem_ok h \<and> (r = Failure \<longrightarrow> \<not> granted h) \<and>
    (r = Success \<longrightarrow> token_repr t' (fst (cut (texts_of ds) s)) (map_option snd (snd (cut (texts_of ds) s))) \<and>
       source t' = source t \<and> token_length t' = token_length t)"
proof -
  define n where "n = (case delimiter_start t of None \<Rightarrow> 0 | Some p \<Rightarrow> p + strlen (the (delimiter t)))"
  have n: "s = drop n (text_of t)" "n \<le> token_length t" "token_length t \<le> length (source t)"
    "\<not> (token_start t \<noteq> None \<and> delimiter_start t = None)"
    using left by (auto simp: token_left_def token_repr_def n_def)
  have start: "delimiter_start t = None \<Longrightarrow> n = 0" by (simp add: n_def)
  show ?thesis
  proof (cases "granted h")
    case False
    then show ?thesis
      using run n(4) get_delimiters_lengths_result [OF ds, of h]
      by (auto simp: get_next_token_def after_request_def)
  next
    case True
    obtain t1 rest where cut: "cut (texts_of ds) s = (t1, rest)" by fastforce
    obtain pos found where scan: "scan_pieces_loop (source t) (token_length t) (delimiter_blocks ds) n = (pos, found)" by fastforce
    have blocks: "zip (map the ds) (map (strlen \<circ> the) ds) = delimiter_blocks ds"
      by (simp add: delimiter_blocks_def)
    have res: "r = Success" "mem_live h' = mem_live h" "mem_ok h' = mem_ok h"
      and t': "t' = (case found of
         Some d \<Rightarrow> t\<lparr>delimiter_start := Some pos, delimiter := Some d, token_start := (if pos = 0 then None else Some n)\<rparr>
       | None \<Rightarrow>
           (if pos = token_length t then t\<lparr>token_start := Some n, delimiter_start := None, delimiter := None\<rparr> else t))" (is "t' = ?T")
    proof -
      have "get_next_token t ds (length ds) h = (Success,
        case found of
           Some d \<Rightarrow> t\<lparr>delimiter_start := Some pos, delimiter := Some d, token_start := (if pos = 0 then None else Some n)\<rparr>
         | None \<Rightarrow>
             (if pos = token_length t then t\<lparr>token_start := Some n, delimiter_start := None, delimiter := None\<rparr> else t),
        c_free (Some (map (strlen \<circ> the) ds)) (after_request 1 h))"
        unfolding get_next_token_def if_not_P [OF n(4)] n_def [symmetric] Let_def
        using True scan by (simp add: get_delimiters_lengths_result [OF ds] blocks)
      then show "r = Success" "mem_live h' = mem_live h" "mem_ok h' = mem_ok h" "t' = ?T"
        using run True by (simp_all add: after_request_def c_free_def)
    qed
    note found = scan_result [OF n(3) ds n(2)]
    have s: "drop n (take (token_length t) (source t)) = s" using n(1) by (simp add: text_of_def)
    have "token_repr t' t1 (map_option snd rest) \<and> source t' = source t \<and> token_length t' = token_length t"
    proof (cases rest)
      case None
      then have "pos = token_length t" "found = None" using found cut scan s by simp_all
      moreover have "t1 = s" using cut_joins(1) cut None by auto
      ultimately show ?thesis using None n by (auto simp: t' token_repr_def text_of_def)
    next
      case (Some dr)
      obtain d u where dr: "dr = (d, u)" by (cases dr)
      obtain b where b: "pos = n + length t1" "found = Some b" "cstr b = d"
        using found cut scan s Some dr by auto
      have join: "s = t1 @ d @ u" "d \<noteq> []" using cut_joins(2) cut Some dr by auto
      have len: "length s = token_length t - n" using n by (simp add: text_of_def)
      have "strlen b = length d" using b(3) by (simp add: strlen_def)
      moreover have "n + length t1 + length d \<le> token_length t" using len join n(2) by simp
      moreover have "t1 = take (length t1) (drop n (text_of t))" "u = drop (n + length t1 + length d) (text_of t)"
        using n(1) join(1) by (metis append_eq_conv_conj, metis append.assoc append_eq_conv_conj drop_drop add.commute length_append)
      moreover have "pos = 0 \<Longrightarrow> n = 0" using b by simp
      ultimately have "token_repr t' t1 (Some u)"
        using n(3) b join(2) unfolding t' token_repr_def
        by (auto simp: text_of_def intro!: exI [of _ n] exI [of _ b])
      then show ?thesis using Some dr b by (simp add: t')
    qed
    then show ?thesis using res cut True by simp
  qed
qed

section \<open>Splitting\<close>

text \<open>The entries of the array for some pieces, and an array that holds entries.\<close>

definition stored_pieces :: "bool \<Rightarrow> char list list \<Rightarrow> cptr list" where
  "stored_pieces include_empty ts =
     map (\<lambda>t. if t = [] then None else Some (t @ [NUL])) (filter (\<lambda>t. t \<noteq> [] \<or> include_empty) ts)"

definition array_holds :: "cptr list option \<Rightarrow> cptr list \<Rightarrow> bool" where
  "array_holds tokens ps \<longleftrightarrow> (case tokens of None \<Rightarrow> ps = [] | Some a \<Rightarrow> take (length ps) a = ps)"

definition array_blocks :: "cptr list option \<Rightarrow> cptr list \<Rightarrow> int" where
  "array_blocks tokens ps = (if tokens = None then 0 else 1) + int (length (filter (\<lambda>p. p \<noteq> None) ps))"

lemma stored_pieces_append [simp]: "stored_pieces e (ts @ us) = stored_pieces e ts @ stored_pieces e us"
  by (simp add: stored_pieces_def)

lemma stored_pieces_Cons: "stored_pieces e (t # ts) = stored_pieces e [t] @ stored_pieces e ts"
  by (simp add: stored_pieces_def)

lemma array_grows:
  assumes "array_holds tokens ps" and "realloc_block ptr_cell tokens (length ps + 1) h = (x, h')"
  shows "mem_ok h' = mem_ok h \<and>
    (case x of
       None \<Rightarrow> mem_live h' = mem_live h \<and> \<not> granted h
     | Some b \<Rightarrow> length b = length ps + 1 \<and> take (length ps) b = ps \<and>
         mem_live h' = mem_live h + (if tokens = None then 1 else 0))"
proof (cases tokens)
  case None
  then show ?thesis using assms
    by (auto simp: array_holds_def realloc_block_def malloc_block_def after_request_def split: if_splits)
next
  case (Some a)
  then have a: "take (length ps) a = ps" using assms(1) by (simp add: array_holds_def)
  then have "length ps \<le> length a" by (metis length_take min.bounded_iff nat_le_linear order_refl)
  then show ?thesis using assms(2) Some a
    by (auto simp: realloc_block_def after_request_def split: if_splits)
qed

lemma stored_entry:
  assumes "length b = length ps + 1" and "take (length ps) b = ps"
  shows "array_holds (Some (b[length ps := x])) (ps @ [x])" and "array_holds (Some (b[length ps := x])) ps"
proof -
  have "b = ps @ [b ! length ps]"
    using assms by (metis Suc_eq_plus1 lessI order_refl take_Suc_conv_app_nth take_all)
  then have "b[length ps := x] = ps @ [x]" by (metis list_update_length)
  then show "array_holds (Some (b[length ps := x])) (ps @ [x])" "array_holds (Some (b[length ps := x])) ps"
    by (simp_all add: array_holds_def)
qed

lemma store_token_result:
  assumes t: "token_repr t tok rest" and arr: "array_holds tokens ps"
    and run: "store_token t inc tokens (length ps) h = (r, tokens', n', h')"
  shows "mem_ok h' = mem_ok h \<and>
    (\<exists>ps'. array_holds tokens' ps' \<and> n' = length ps' \<and>
       mem_live h' - array_blocks tokens' ps' = mem_live h - array_blocks tokens ps \<and>
       (if r = Success then ps' = ps @ stored_pieces inc [tok] else \<not> (\<forall>n. mem_ok h n)))"
proof -
  note val = token_value_repr [OF t]
  show ?thesis
  proof (cases "tok \<noteq> [] \<or> inc")
    case False
    then have "store_token t inc tokens (length ps) h = (Success, tokens, length ps, h)"
      using val by (simp add: store_token_def Let_def)
    then show ?thesis using run False arr by (auto simp: stored_pieces_def)
  next
    case True
    obtain x h1 where grow: "realloc_block ptr_cell tokens (length ps + 1) h = (x, h1)" by fastforce
    note g = array_grows [OF arr grow]
    have start: "store_token t inc tokens (length ps) h =
      (case x of
         None \<Rightarrow> (Failure, tokens, length ps, h1)
       | Some b \<Rightarrow>
           (if tok = [] then (Success, Some (b[length ps := None]), length ps + 1, h1)
            else
              (case malloc_block char_of_byte (length tok + 1) h1 of
                 (None, h2) \<Rightarrow> (Failure, Some (b[length ps := None]), length ps, h2)
               | (Some c, h2) \<Rightarrow>
                   (Success,
                    Some (b[length ps := Some ((memcpy_at c 0 (drop (the (StringToken_GetValue (Some t))) (source t)) (length tok))[length tok := NUL])]),
                    length ps + 1, h2))))"
      using True val grow by (cases x; cases "tok = []"; cases "StringToken_GetValue (Some t)") (simp_all add: store_token_def Let_def split: option.split prod.split)
    show ?thesis
    proof (cases x)
      case None
      then show ?thesis using run start g arr by (auto simp: granted_def)
    next
      case (Some b)
      have b: "length b = length ps + 1" "take (length ps) b = ps" using g Some by auto
      show ?thesis
      proof (cases "tok = []")
        case empty: True
        then have "stored_pieces inc [tok] = [None]" using True by (simp add: stored_pieces_def)
        then show ?thesis
          using run start g Some empty stored_entry(1) [OF b, of None] by (auto simp: array_blocks_def)
      next
        case False
        have entry: "stored_pieces inc [tok] = [Some (tok @ [NUL])]" using False by (simp add: stored_pieces_def)
        obtain y h2 where copy: "malloc_block char_of_byte (length tok + 1) h1 = (y, h2)" by fastforce
        show ?thesis
        proof (cases y)
          case None
          then have "\<not> (\<forall>n. mem_ok h n)" using copy g by (auto simp: malloc_block_def granted_def split: if_splits)
          then show ?thesis
            using run start g Some False copy None stored_entry(2) [OF b, of None]
            by (auto simp: array_blocks_def malloc_block_def after_request_def split: if_splits)
        next
          case (Some c)
          have c: "length c = length tok + 1" using copy Some by (auto simp: malloc_block_def split: if_splits)
          have "take (length tok) (drop (the (StringToken_GetValue (Some t))) (source t)) = tok"
            using val False by auto
          then have "(memcpy_at c 0 (drop (the (StringToken_GetValue (Some t))) (source t)) (length tok))[length tok := NUL] = tok @ [NUL]"
            using c by (simp add: memcpy_at_def list_update_append) (metis drop_all length_drop list_update_code(2) Cons_nth_drop_Suc lessI le_refl list_update.simps)
          then show ?thesis
            using run start g \<open>x = Some b\<close> False copy Some entry stored_entry(1) [OF b, of "Some (tok @ [NUL])"]
            by (auto simp: array_blocks_def malloc_block_def after_request_def split: if_splits)
        qed
      qed
    qed
  qed
qed

definition pieces_left :: "char list list \<Rightarrow> char list option \<Rightarrow> char list list" where
  "pieces_left ds rest = (case rest of None \<Rightarrow> [] | Some u \<Rightarrow> pieces ds u)"

text \<open>What a splitting loop that starts with the entries \<open>ps\<close> leaves.\<close>

definition splits ::
  "bool \<Rightarrow> char list list \<Rightarrow> cptr list option \<Rightarrow> cptr list \<Rightarrow> heap \<Rightarrow>
     (rc \<times> STRING_TOKEN_TAG option \<times> cptr list option \<times> nat \<times> heap) option \<Rightarrow> bool" where
  "splits inc todo tokens ps h out \<longleftrightarrow>
     (\<exists>r t' tokens' ps' h'. out = Some (r, Some t', tokens', length ps', h') \<and> array_holds tokens' ps' \<and>
        mem_live h' - array_blocks tokens' ps' = mem_live h - array_blocks tokens ps \<and>
        (r = Success \<longrightarrow> (\<exists>k. ps' = ps @ stored_pieces inc (take k todo))) \<and>
        ((\<forall>n. mem_ok h n) \<longrightarrow> r = Success \<and> ps' = ps @ stored_pieces inc todo))"

lemma splits_step:
  assumes "splits inc todo tokens1 (ps @ stored_pieces inc [tok]) h1 out"
    and "mem_live h1 - array_blocks tokens1 (ps @ stored_pieces inc [tok]) = mem_live h - array_blocks tokens ps"
    and "mem_ok h1 = mem_ok h"
  shows "splits inc (tok # todo) tokens ps h out"
proof -
  obtain r t' tokens' ps' h' where out: "out = Some (r, Some t', tokens', length ps', h')" "array_holds tokens' ps'"
    "mem_live h' - array_blocks tokens' ps' = mem_live h1 - array_blocks tokens1 (ps @ stored_pieces inc [tok])"
    "r = Success \<longrightarrow> (\<exists>k. ps' = (ps @ stored_pieces inc [tok]) @ stored_pieces inc (take k todo))"
    "(\<forall>n. mem_ok h1 n) \<longrightarrow> r = Success \<and> ps' = (ps @ stored_pieces inc [tok]) @ stored_pieces inc todo"
    using assms(1) unfolding splits_def by blast
  have cons: "(ps @ stored_pieces inc [tok]) @ stored_pieces inc ts = ps @ stored_pieces inc (tok # ts)" for ts
    using stored_pieces_Cons [of inc tok ts] by simp
  have "\<exists>k. ps' = ps @ stored_pieces inc (take k (tok # todo))" if r: "r = Success"
  proof -
    obtain k where "ps' = (ps @ stored_pieces inc [tok]) @ stored_pieces inc (take k todo)" using out(4) r by blast
    then show ?thesis unfolding cons by (intro exI [of _ "Suc k"]) simp
  qed
  then show ?thesis using out assms(2,3) unfolding splits_def cons by auto
qed

lemma splits_last:
  assumes "array_holds tokens1 ps1" and "ps1 = ps @ stored_pieces inc [tok]"
    and "mem_live h1 - array_blocks tokens1 ps1 = mem_live h - array_blocks tokens ps"
    and "(\<forall>n. mem_ok h n) \<Longrightarrow> todo = []"
  shows "splits inc (tok # todo) tokens ps h (Some (Success, Some t, tokens1, length ps1, h1))"
proof -
  have "ps1 = ps @ stored_pieces inc (take 1 (tok # todo))" using assms(2) by simp
  then show ?thesis unfolding splits_def using assms by blast
qed

lemma split_loop_splits:
  assumes ds: "list_all ptr_good ds" "ds \<noteq> []" and "token_repr t tok rest" and "array_holds tokens ps"
  shows "splits inc (tok # pieces_left (texts_of ds) rest) tokens ps h
    (split_loop (Some t) (Some ds) (length ds) inc tokens (length ps) h)"
  using assms(3,4)
proof (induction "case rest of None \<Rightarrow> 0 | Some u \<Rightarrow> Suc (length u)" arbitrary: t tok rest tokens ps h rule: less_induct)
  case less
  note t = less.prems(1)
  obtain r tokens1 n1 h1 where store: "store_token t inc tokens (length ps) h = (r, tokens1, n1, h1)" by (metis prod_cases4)
  obtain ps1 where ps1: "array_holds tokens1 ps1" "n1 = length ps1" "mem_ok h1 = mem_ok h"
    "mem_live h1 - array_blocks tokens1 ps1 = mem_live h - array_blocks tokens ps"
    "if r = Success then ps1 = ps @ stored_pieces inc [tok] else \<not> (\<forall>n. mem_ok h n)"
    using store_token_result [OF t less.prems(2) store] by blast
  show ?case
  proof (cases r)
    case Failure
    then have "split_loop (Some t) (Some ds) (length ds) inc tokens (length ps) h = Some (Failure, Some t, tokens1, length ps1, h1)"
      using store ps1(2) by (subst split_loop.simps) simp
    then show ?thesis unfolding splits_def using ps1 Failure by auto
  next
    case Success
    have entry: "ps1 = ps @ stored_pieces inc [tok]" using ps1(5) Success by simp
    obtain r2 t2 h2 where next_one: "get_next_token t ds (length ds) h1 = (r2, t2, h2)" by (metis prod_cases3)
    have run: "split_loop (Some t) (Some ds) (length ds) inc tokens (length ps) h =
      (if r2 = Success then split_loop (Some t2) (Some ds) (length ds) inc tokens1 (length ps1) h2
       else Some (Success, Some t2, tokens1, length ps1, h2))"
      using store ps1(2) Success next_one ds(2) by (subst split_loop.simps) (simp add: StringToken_GetNext_def)
    show ?thesis
    proof (cases rest)
      case None
      then have "get_next_token t ds (length ds) h1 = (Failure, t, h1)"
        using t by (auto simp: token_repr_def get_next_token_def)
      then have "r2 = Failure" "t2 = t" "h2 = h1" using next_one by simp_all
      then have "split_loop (Some t) (Some ds) (length ds) inc tokens (length ps) h = Some (Success, Some t, tokens1, length ps1, h1)"
        using run by simp
      then show ?thesis
        using splits_last [OF ps1(1) entry ps1(4)] None by (simp add: pieces_left_def)
    next
      case (Some u)
      obtain t1 r1 where cut: "cut (texts_of ds) u = (t1, r1)" by fastforce
      have "token_left t u" using t Some by (auto simp: token_left_def)
      note got = scan_next_token_result [OF ds(1) this next_one]
      have left: "pieces_left (texts_of ds) rest = t1 # pieces_left (texts_of ds) (map_option snd r1)"
        using Some cut by (auto simp: pieces_left_def pieces.simps [of _ u] split: option.splits prod.splits)
      show ?thesis
      proof (cases r2)
        case Failure
        then have "\<not> (\<forall>n. mem_ok h n)" using got ps1(3) by (auto simp: granted_def)
        then show ?thesis
          using run Failure splits_last [OF ps1(1) entry, of h2 h tokens "pieces_left (texts_of ds) rest" t2] ps1(4) got by auto
      next
        case ok: Success
        have less': "(case map_option snd r1 of None \<Rightarrow> 0 | Some v \<Rightarrow> Suc (length v)) < (case rest of None \<Rightarrow> 0 | Some v \<Rightarrow> Suc (length v))"
          using cut_joins(2) [of "texts_of ds" u t1] cut Some by (cases r1) auto
        have "token_repr t2 t1 (map_option snd r1)" using got ok cut by simp
        from less.hyps [OF less' this ps1(1), of h2] have
          "splits inc (t1 # pieces_left (texts_of ds) (map_option snd r1)) tokens1 ps1 h2
             (split_loop (Some t2) (Some ds) (length ds) inc tokens1 (length ps1) h2)" .
        then show ?thesis
          using splits_step [of inc _ tokens1 ps tok h2 _ h tokens] entry ps1(3,4) got ok run left by simp
      qed
    qed
  qed
qed

lemma first_token:
  assumes "list_all ptr_good ds" and "ds \<noteq> []" and "len \<le> length src"
    and "StringToken_GetFirst (Some src) len (Some ds) (length ds) h = (t, h')"
  shows "mem_ok h' = mem_ok h \<and>
    (case t of
       None \<Rightarrow> mem_live h' = mem_live h \<and> \<not> (\<forall>n. mem_ok h n)
     | Some t1 \<Rightarrow> mem_live h' = mem_live h + 1 \<and>
         (\<exists>tok rest. token_repr t1 tok rest \<and> tok # pieces_left (texts_of ds) rest = pieces (texts_of ds) (take len src)))"
proof (cases "granted h")
  case False
  then show ?thesis using assms by (auto simp: StringToken_GetFirst_def malloc_struct_def after_request_def granted_def)
next
  case True
  define t0 where "t0 = \<lparr>source = src, token_length = len, token_start = None, delimiter_start = None, delimiter = None\<rparr>"
  obtain r t1 h1 where run: "get_next_token t0 ds (length ds) (after_request 1 h) = (r, t1, h1)" by (metis prod_cases3)
  have first: "StringToken_GetFirst (Some src) len (Some ds) (length ds) h =
      (case r of Failure \<Rightarrow> (None, free_struct h1) | Success \<Rightarrow> (Some t1, h1))"
    using run True assms(2) by (simp add: StringToken_GetFirst_def malloc_struct_def t0_def split: rc.split)
  have "token_left t0 (take len src)" using assms(3) by (simp add: token_left_def t0_def text_of_def)
  note got = scan_next_token_result [OF assms(1) this run]
  obtain tok r1 where cut: "cut (texts_of ds) (take len src) = (tok, r1)" by fastforce
  have "tok # pieces_left (texts_of ds) (map_option snd r1) = pieces (texts_of ds) (take len src)"
    using cut by (auto simp: pieces_left_def pieces.simps [of _ "take len src"] split: option.splits prod.splits)
  then show ?thesis
    using got first assms(4) True cut
    by (cases r) (auto simp: after_request_def free_struct_def granted_def)
qed

lemma free_tokens_loop_live:
  assumes "array_holds tokens ps"
  shows "mem_live (c_free tokens (snd (free_tokens_loop tokens (length ps) h))) = mem_live h - array_blocks tokens ps"
proof (cases tokens)
  case None
  then show ?thesis using assms by (simp add: array_holds_def array_blocks_def c_free_def)
next
  case (Some a)
  have "mem_live (snd (free_tokens_loop tokens n h)) = mem_live h - int (length (filter (\<lambda>p. p \<noteq> None) (take n a)))"
    if "n \<le> length a" for n
    using that
  proof (induction n arbitrary: h)
    case (Suc n)
    then show ?case by (auto simp: Some c_free_def take_Suc_conv_app_nth)
  qed simp
  moreover have "length ps \<le> length a" "take (length ps) a = ps"
    using assms Some by (auto simp: array_holds_def) (metis length_take min.bounded_iff nat_le_linear order_refl)
  ultimately show ?thesis using Some by (simp add: array_blocks_def c_free_def)
qed

lemma split_result:
  assumes "list_all ptr_good ds" and "ds \<noteq> []" and "len \<le> length src"
  shows "\<exists>r tokens n h'. StringToken_Split (Some src) len (Some ds) (length ds) inc True True h = Some (r, Some (tokens, n), h') \<and>
    (if r = Success
     then \<exists>ps k. n = length ps \<and> array_holds tokens ps \<and> ps = stored_pieces inc (take k (pieces (texts_of ds) (take len src))) \<and>
       mem_live h' = mem_live h + array_blocks tokens ps \<and>
       ((\<forall>n. mem_ok h n) \<longrightarrow> ps = stored_pieces inc (pieces (texts_of ds) (take len src)))
     else mem_live h' = mem_live h \<and> \<not> (\<forall>n. mem_ok h n))"
proof -
  obtain t h1 where first: "StringToken_GetFirst (Some src) len (Some ds) (length ds) h = (t, h1)" by fastforce
  note ft = first_token [OF assms first]
  show ?thesis
  proof (cases t)
    case None
    then show ?thesis
      using ft first assms(2)
      by (auto simp: StringToken_Split_def array_holds_def array_blocks_def stored_pieces_def
          intro!: exI [of _ "[]"] exI [of _ "0 :: nat"])
  next
    case (Some t1)
    then obtain tok rest where t1: "token_repr t1 tok rest" and
      all: "tok # pieces_left (texts_of ds) rest = pieces (texts_of ds) (take len src)" using ft by auto
    have "array_holds None []" by (simp add: array_holds_def)
    from split_loop_splits [OF assms(1,2) t1 this, of inc h1]
    have "splits inc (pieces (texts_of ds) (take len src)) None [] h1
        (split_loop (Some t1) (Some ds) (length ds) inc None 0 h1)" unfolding all by simp
    then obtain r t' tokens ps h2 where
      loop: "split_loop (Some t1) (Some ds) (length ds) inc None 0 h1 = Some (r, Some t', tokens, length ps, h2)"
      and ps: "array_holds tokens ps" "mem_live h2 - array_blocks tokens ps = mem_live h1 - array_blocks None []"
        "r = Success \<longrightarrow> (\<exists>k. ps = [] @ stored_pieces inc (take k (pieces (texts_of ds) (take len src))))"
        "(\<forall>n. mem_ok h1 n) \<longrightarrow> r = Success \<and> ps = [] @ stored_pieces inc (pieces (texts_of ds) (take len src))"
      unfolding splits_def by blast
    have run: "StringToken_Split (Some src) len (Some ds) (length ds) inc True True h =
      (if r = Failure then
         Some (Failure, Some (tokens, fst (free_tokens_loop tokens (length ps) (free_struct h2))),
           c_free tokens (snd (free_tokens_loop tokens (length ps) (free_struct h2))))
       else Some (Success, Some (tokens, length ps), free_struct h2))"
      using first Some loop assms(2) by (simp add: StringToken_Split_def StringToken_Destroy_def Let_def case_prod_beta)
    show ?thesis
    proof (cases r)
      case Failure
      then show ?thesis using run free_tokens_loop_live [OF ps(1), of "free_struct h2"] ps(2,4) ft Some by (simp add: free_struct_def array_blocks_def [of None])
    next
      case Success
      then obtain k where "ps = stored_pieces inc (take k (pieces (texts_of ds) (take len src)))" using ps(3) by auto
      then show ?thesis using run Success ps(1,2,4) ft Some by (auto simp: free_struct_def array_blocks_def [of None] intro!: exI [of _ ps] exI [of _ k])
    qed
  qed
qed

text \<open>C36: Splitting always returns. It leaks nothing whatever requests are refused: after a
  failure every block is given back, and otherwise the array and its strings are all that is
  left. A success means that the array holds a first part of the pieces of the source.\<close>

theorem split_safe:
  assumes "list_all ptr_good ds" and "ds \<noteq> []" and "len \<le> length src"
  shows "\<exists>r tokens n h'. StringToken_Split (Some src) len (Some ds) (length ds) inc True True h = Some (r, Some (tokens, n), h') \<and>
    (if r = Success
     then \<exists>ps k. n = length ps \<and> array_holds tokens ps \<and> ps = stored_pieces inc (take k (pieces (texts_of ds) (take len src))) \<and>
       mem_live h' = mem_live h + array_blocks tokens ps
     else mem_live h' = mem_live h)"
  using split_result [OF assms, of inc h] by (fastforce split: if_splits)

theorem split_safe_witness:
  "\<exists>r tokens n h'. StringToken_Split (Some ''a,b'') 3 (Some [Some (c_lit '','')]) 1 True True True
       (heap0\<lparr>mem_ok := \<lambda>n. n \<noteq> 4\<rparr>) = Some (r, Some (tokens, n), h')"
  using split_safe [of "[Some (c_lit '','')]" 3 "''a,b''" True "heap0\<lparr>mem_ok := \<lambda>n. n \<noteq> 4\<rparr>"] by auto

text \<open>C35: With all requests granted the array holds the pieces of the source between the
  delimiters, in order, each as a string of its own: an empty piece is a null entry, or left out
  when empty pieces are not wanted.\<close>

theorem split_exact:
  assumes "list_all ptr_good ds" and "ds \<noteq> []" and "len \<le> length src" and "\<forall>n. mem_ok h n"
  shows "\<exists>tokens n h'. StringToken_Split (Some src) len (Some ds) (length ds) inc True True h = Some (Success, Some (tokens, n), h') \<and>
    n = length (stored_pieces inc (pieces (texts_of ds) (take len src))) \<and>
    (if tokens = None then n = 0 else take n (the tokens) = stored_pieces inc (pieces (texts_of ds) (take len src)))"
proof -
  obtain tokens n h' where "StringToken_Split (Some src) len (Some ds) (length ds) inc True True h = Some (Success, Some (tokens, n), h')"
    "n = length (stored_pieces inc (pieces (texts_of ds) (take len src)))"
    "array_holds tokens (stored_pieces inc (pieces (texts_of ds) (take len src)))"
    using split_result [OF assms(1-3), of inc h] assms(4) by (auto split: if_splits)
  then show ?thesis by (cases tokens) (auto simp: array_holds_def)
qed

theorem split_exact_witness:
  "\<exists>tokens n h'. StringToken_Split (Some ''a, b,,c'') 7 (Some [Some (c_lit '', ''), Some (c_lit '','')]) 2 True True True heap0 =
       Some (Success, Some (Some tokens, n), h') \<and>
     take n tokens = [Some (c_lit ''a''), Some (c_lit ''b''), None, Some (c_lit ''c'')]"
proof -
  let ?ds = "[Some (c_lit '', ''), Some (c_lit '','')]"
  let ?ps = "stored_pieces True (pieces (texts_of ?ds) (take 7 ''a, b,,c''))"
  have "pieces ['', '', '',''] ''a, b,,c'' = [''a'', ''b'', [], ''c'']" by code_simp
  then have ps: "?ps = [Some (c_lit ''a''), Some (c_lit ''b''), None, Some (c_lit ''c'')]"
    by (simp add: stored_pieces_def c_lit_def)
  have "list_all ptr_good ?ds" "?ds \<noteq> []" "7 \<le> length ''a, b,,c''" "\<forall>n. mem_ok heap0 n"
    by (simp_all add: heap0_def)
  from split_exact [OF this, of True] obtain tokens n h' where
    run: "StringToken_Split (Some ''a, b,,c'') 7 (Some ?ds) (length ?ds) True True True heap0 = Some (Success, Some (tokens, n), h')"
    and held: "n = length ?ps" "if tokens = None then n = 0 else take n (the tokens) = ?ps" by blast
  from held ps obtain a where "tokens = Some a" "take n a = ?ps" by (cases tokens) auto
  then show ?thesis using run ps by (intro exI [of _ a] exI [of _ n] exI [of _ h']) (simp add: numeral_2_eq_2)
qed

text \<open>The pieces and their delimiters are the text.\<close>

fun rejoin :: "char list list \<Rightarrow> char list list \<Rightarrow> char list" where
  "rejoin (t # ts) (d # ds) = t @ d @ rejoin ts ds"
| "rejoin ts ds = concat ts"

lemma pieces_rejoin: "\<exists>us. length (pieces ds s) = Suc (length us) \<and> set us \<subseteq> set ds \<and> rejoin (pieces ds s) us = s"
proof (induction ds s rule: pieces.induct)
  case (1 ds s)
  obtain t r where cut: "cut ds s = (t, r)" by fastforce
  show ?case
  proof (cases r)
    case None
    have "s = t" by (rule cut_joins(1) [of ds]) (simp add: cut None)
    have one: "pieces ds s = [t]" using cut None by (subst pieces.simps) simp
    show ?thesis
      unfolding one by (rule exI [of _ "[]"]) (simp add: \<open>s = t\<close>)
  next
    case (Some dr)
    obtain d u where dr: "dr = (d, u)" by (cases dr)
    obtain us where us: "length (pieces ds u) = Suc (length us)" "set us \<subseteq> set ds" "rejoin (pieces ds u) us = u"
    proof -
      have "\<exists>us. length (pieces ds u) = Suc (length us) \<and> set us \<subseteq> set ds \<and> rejoin (pieces ds u) us = u"
        using 1 cut Some dr by simp
      then show thesis using that by blast
    qed
    have "s = t @ d @ u" "d \<in> set ds" using cut_joins(2) [of ds s t d u] cut Some dr by auto
    moreover have "pieces ds s = t # pieces ds u" using cut Some dr by (subst pieces.simps) simp
    ultimately show ?thesis using us(1,2) by (intro exI [of _ "d # us"]) (simp add: us(3))
  qed
qed

text \<open>A refused request while the next token is looked for ends the loop like the end of the
  source: splitting succeeds with the first pieces only; a refused scanner is no pieces at all.\<close>

lemma split_returns_a_part:
  "(case StringToken_Split (Some ''a,b'') 3 (Some [Some (c_lit '','')]) 1 True True True (heap0\<lparr>mem_ok := \<lambda>n. n \<noteq> 4\<rparr>) of
      Some (Success, Some (tokens, n), h) \<Rightarrow> n = 1 | _ \<Rightarrow> False) \<and>
   (case StringToken_Split (Some ''a,b'') 3 (Some [Some (c_lit '','')]) 1 True True True (heap0\<lparr>mem_ok := \<lambda>n. n \<noteq> 0\<rparr>) of
      Some (Success, Some (tokens, n), h) \<Rightarrow> n = 0 | _ \<Rightarrow> False)"
  by code_simp

end
