(* ===== verification/DoublyLinkedList.thy ===== *)
theory DoublyLinkedList
  imports Prelude
begin

text \<open>
  The intrusive ring lists of \<open>src/src/doublylinkedlist.c\<close>. An entry is known by its address, and
  a memory gives every address its two links; the caller owns the entries. \<open>ring\<close> relates a
  memory to the entries behind a list head, and every function is shown to do the list
  operation it stands for.
\<close>

section \<open>The functions of the source\<close>

type_synonym entry_address = nat

record DLIST_ENTRY =
  Flink :: entry_address
  Blink :: entry_address

type_synonym entries = "entry_address \<Rightarrow> DLIST_ENTRY"

definition set_Flink :: "entry_address \<Rightarrow> entry_address \<Rightarrow> entries \<Rightarrow> entries" where
  "set_Flink a x m = m(a := (m a)\<lparr>Flink := x\<rparr>)"

definition set_Blink :: "entry_address \<Rightarrow> entry_address \<Rightarrow> entries \<Rightarrow> entries" where
  "set_Blink a x m = m(a := (m a)\<lparr>Blink := x\<rparr>)"

definition DList_InitializeListHead :: "entry_address \<Rightarrow> entries \<Rightarrow> entries" where
  "DList_InitializeListHead ListHead m = set_Flink ListHead ListHead (set_Blink ListHead ListHead m)"

definition DList_IsListEmpty :: "entry_address \<Rightarrow> entries \<Rightarrow> bool" where
  "DList_IsListEmpty ListHead m \<longleftrightarrow> Flink (m ListHead) = ListHead"

definition DList_RemoveEntryList :: "entry_address \<Rightarrow> entries \<Rightarrow> bool \<times> entries" where
  "DList_RemoveEntryList Entry m =
     (let flink = Flink (m Entry);
          blink = Blink (m Entry);
          m = set_Flink blink flink m;
          m = set_Blink flink blink m in
      (flink = blink, m))"

definition DList_RemoveHeadList :: "entry_address \<Rightarrow> entries \<Rightarrow> entry_address \<times> entries" where
  "DList_RemoveHeadList ListHead m =
     (let Entry = Flink (m ListHead);
          flink = Flink (m Entry);
          m = set_Flink ListHead flink m;
          m = set_Blink flink ListHead m in
      (Entry, m))"

definition DList_InsertTailList :: "entry_address \<Rightarrow> entry_address \<Rightarrow> entries \<Rightarrow> entries" where
  "DList_InsertTailList ListHead Entry m =
     (let blink = Blink (m ListHead);
          m = set_Flink Entry ListHead m;
          m = set_Blink Entry blink m;
          m = set_Flink blink Entry m in
      set_Blink ListHead Entry m)"

definition DList_AppendTailList :: "entry_address \<Rightarrow> entry_address \<Rightarrow> entries \<Rightarrow> entries" where
  "DList_AppendTailList ListHead ListToAppend m =
     (let ListEnd = Blink (m ListHead);
          m = set_Flink (Blink (m ListHead)) ListToAppend m;
          m = set_Blink ListHead (Blink (m ListToAppend)) m;
          m = set_Flink (Blink (m ListToAppend)) ListHead m in
      set_Blink ListToAppend ListEnd m)"

definition DList_InsertHeadList :: "entry_address \<Rightarrow> entry_address \<Rightarrow> entries \<Rightarrow> entries" where
  "DList_InsertHeadList listHead entry m =
     (let m = set_Blink entry listHead m;
          m = set_Flink entry (Flink (m listHead)) m;
          m = set_Blink (Flink (m listHead)) entry m in
      set_Flink listHead entry m)"

section \<open>Rings\<close>

text \<open>Consecutive entries are linked in both directions; a ring leads back to its head.\<close>

fun chain :: "entries \<Rightarrow> entry_address list \<Rightarrow> bool" where
  "chain m (x # y # ys) \<longleftrightarrow> Flink (m x) = y \<and> Blink (m y) = x \<and> chain m (y # ys)"
| "chain m ys \<longleftrightarrow> True"

definition ring :: "entries \<Rightarrow> entry_address \<Rightarrow> entry_address list \<Rightarrow> bool" where
  "ring m head es \<longleftrightarrow> distinct (head # es) \<and> chain m (head # es @ [head])"

named_theorems links

lemma link_simps [links]:
  "Flink (set_Flink a x m b) = (if a = b then x else Flink (m b))"
  "Flink (set_Blink a x m b) = Flink (m b)"
  "Blink (set_Blink a x m b) = (if a = b then x else Blink (m b))"
  "Blink (set_Flink a x m b) = Blink (m b)"
  by (auto simp: set_Flink_def set_Blink_def)

lemma linked_append: "chain m (xs @ y # ys) \<longleftrightarrow> chain m (xs @ [y]) \<and> chain m (y # ys)"
proof (induction xs)
  case (Cons x xs)
  then show ?case by (cases xs) auto
qed simp

lemma chain_same:
  "(\<And>x. x \<in> set (butlast xs) \<Longrightarrow> Flink (m' x) = Flink (m x)) \<Longrightarrow>
   (\<And>x. x \<in> set (tl xs) \<Longrightarrow> Blink (m' x) = Blink (m x)) \<Longrightarrow> chain m' xs = chain m xs"
  by (induction m xs rule: chain.induct) (auto split: if_splits)

lemma ring_ends:
  assumes "ring m head es"
  shows "Flink (m head) = hd (es @ [head])" and "Blink (m head) = last (head # es)"
proof -
  show "Flink (m head) = hd (es @ [head])" using assms by (cases es) (auto simp: ring_def)
  show "Blink (m head) = last (head # es)"
  proof (cases es rule: rev_cases)
    case (snoc ys y)
    then have "chain m ((head # ys) @ [y, head])" using assms by (simp add: ring_def)
    then show ?thesis using snoc linked_append [of m "head # ys" y "[head]"] by simp
  qed (use assms in \<open>simp add: ring_def\<close>)
qed

text \<open>Relinking a place: what is between \<open>p\<close> and \<open>n\<close> is replaced by \<open>xs\<close>.\<close>

lemma chain_replace:
  assumes "chain m (as @ p # old @ n # bs)"
    and "chain m' (p # new @ [n])"
    and "\<And>x. x \<in> set as \<union> set (butlast (n # bs)) \<Longrightarrow> Flink (m' x) = Flink (m x)"
    and "\<And>x. x \<in> set (tl (as @ [p])) \<union> set bs \<Longrightarrow> Blink (m' x) = Blink (m x)"
  shows "chain m' (as @ p # new @ n # bs)"
proof -
  have parts: "chain m (as @ [p])" "chain m (n # bs)"
    using assms(1) linked_append [of m as p "old @ n # bs"] linked_append [of m "p # old" n bs] by simp_all
  have "chain m' (as @ [p])" using chain_same [of "as @ [p]" m' m] parts(1) assms(3,4) by simp
  moreover have "chain m' (n # bs)" using chain_same [of "n # bs" m' m] parts(2) assms(3,4) by simp
  ultimately show ?thesis
    using assms(2) linked_append [of m' as p "new @ n # bs"] linked_append [of m' "p # new" n bs] by simp
qed

lemma ring_relink:
  assumes ring: "ring m head (xs @ old @ ys)" and new: "distinct (head # xs @ new @ ys)"
    and link: "chain m' (last (head # xs) # new @ [hd (ys @ [head])])"
    and flinks: "\<And>x. x \<in> set (head # xs @ ys) \<Longrightarrow> x \<noteq> last (head # xs) \<Longrightarrow> Flink (m' x) = Flink (m x)"
    and blinks: "\<And>x. x \<in> set (head # xs @ ys) \<Longrightarrow> x \<noteq> hd (ys @ [head]) \<Longrightarrow> Blink (m' x) = Blink (m x)"
  shows "ring m' head (xs @ new @ ys)"
proof -
  define as where "as = butlast (head # xs)"
  define p where "p = last (head # xs)"
  define n where "n = hd (ys @ [head])"
  define bs where "bs = tl (ys @ [head])"
  have split: "head # xs = as @ [p]" "ys @ [head] = n # bs"
    by (simp_all add: as_def p_def n_def bs_def append_butlast_last_id [symmetric] del: append_butlast_last_id)
  have old: "chain m (as @ p # old @ n # bs)"
    using ring split by (simp add: ring_def) (metis append.assoc append_Cons append_Nil)
  have d: "distinct (head # xs @ ys)" using new by auto
  have before: "x \<in> set as \<Longrightarrow> x \<in> set (head # xs) \<and> x \<noteq> p" for x
    using d split(1) by (metis distinct_append distinct_butlast in_set_butlastD as_def append_Cons not_distinct_conv_prefix snoc_eq_iff_butlast)
  have "set (butlast (n # bs)) = set ys" using split(2) by (metis butlast_snoc)
  moreover have "p \<notin> set ys" using d split(1) by (metis append_Cons disjoint_iff distinct_append last_in_set list.discI p_def)
  ultimately have f: "Flink (m' x) = Flink (m x)" if "x \<in> set as \<union> set (butlast (n # bs))" for x
    using that before flinks [of x] by (auto simp: p_def)
  have "tl (as @ [p]) = xs" using split(1) by (metis list.sel(3))
  moreover have "n \<notin> set xs" using d by (cases ys) (auto simp: n_def)
  moreover have "x \<noteq> n \<and> x \<in> set (head # ys)" if "x \<in> set bs" for x
    using that d by (cases ys) (auto simp: n_def bs_def)
  ultimately have b: "Blink (m' x) = Blink (m x)" if "x \<in> set (tl (as @ [p])) \<union> set bs" for x
    using that blinks [of x] by (auto simp: n_def)
  have "chain m' (as @ p # new @ n # bs)"
    using chain_replace [OF old _ f b] link by (simp add: p_def n_def)
  moreover have "as @ p # new @ n # bs = head # (xs @ new @ ys) @ [head]"
    using split by (metis append.assoc append_Cons append_Nil)
  ultimately show ?thesis using new by (simp add: ring_def)
qed

section \<open>The functions are list operations\<close>

lemma ring_empty: "ring (DList_InitializeListHead head m) head []"
  by (simp add: ring_def DList_InitializeListHead_def links)

lemma ring_is_empty: "ring m head es \<Longrightarrow> DList_IsListEmpty head m \<longleftrightarrow> es = []"
  using ring_ends(1) [of m head es] by (cases es) (auto simp: DList_IsListEmpty_def ring_def)

lemma ring_insert_tail:
  assumes "ring m head es" and "e \<notin> set (head # es)"
  shows "ring (DList_InsertTailList head e m) head (es @ [e])"
proof -
  define p where "p = last (head # es)"
  define m' where "m' = set_Blink head e (set_Flink p e (set_Blink e p (set_Flink e head m)))"
  have p: "p \<noteq> e" using assms(2) last_in_set [of "head # es"] by (auto simp: p_def)
  have run: "DList_InsertTailList head e m = m'"
    using ring_ends(2) [OF assms(1)] by (simp add: DList_InsertTailList_def Let_def m'_def p_def)
  have "ring m' head (es @ [e] @ [])"
  proof (rule ring_relink [of m head es "[]" "[]"])
    show "ring m head (es @ [] @ [])" using assms(1) by simp
    show "distinct (head # es @ [e] @ [])" using assms by (auto simp: ring_def)
    show "chain m' (last (head # es) # [e] @ [hd ([] @ [head])])"
      using p assms(2) unfolding p_def [symmetric] by (simp add: m'_def links)
    show "Flink (m' x) = Flink (m x)" if "x \<in> set (head # es @ [])" "x \<noteq> last (head # es)" for x
      using that assms(2) unfolding p_def [symmetric] by (auto simp: m'_def links)
    show "Blink (m' x) = Blink (m x)" if "x \<in> set (head # es @ [])" "x \<noteq> hd ([] @ [head])" for x
      using that assms(2) by (auto simp: m'_def links)
  qed
  then show ?thesis by (simp add: run)
qed

lemma ring_insert_head:
  assumes "ring m head es" and "e \<notin> set (head # es)"
  shows "ring (DList_InsertHeadList head e m) head (e # es)"
proof -
  define n where "n = hd (es @ [head])"
  define m' where "m' = set_Flink head e (set_Blink n e (set_Flink e n (set_Blink e head m)))"
  have n: "n \<noteq> e" using assms(2) by (cases es) (auto simp: n_def)
  have run: "DList_InsertHeadList head e m = m'"
    using ring_ends(1) [OF assms(1)] assms(2) by (simp add: DList_InsertHeadList_def Let_def m'_def n_def links)
  have "ring m' head ([] @ [e] @ es)"
  proof (rule ring_relink [of m head "[]" "[]" es])
    show "ring m head ([] @ [] @ es)" using assms(1) by simp
    show "distinct (head # [] @ [e] @ es)" using assms by (auto simp: ring_def)
    show "chain m' (last [head] # [e] @ [hd (es @ [head])])"
      using n assms(2) unfolding n_def [symmetric] by (simp add: m'_def links)
    show "Flink (m' x) = Flink (m x)" if "x \<in> set (head # [] @ es)" "x \<noteq> last [head]" for x
      using that assms(2) by (auto simp: m'_def links)
    show "Blink (m' x) = Blink (m x)" if "x \<in> set (head # [] @ es)" "x \<noteq> hd (es @ [head])" for x
      using that assms(2) unfolding n_def [symmetric] by (auto simp: m'_def links)
  qed
  then show ?thesis by (simp add: run)
qed

lemma ring_at:
  assumes "ring m head (xs @ e # ys)"
  shows "Flink (m e) = hd (ys @ [head])" and "Blink (m e) = last (head # xs)"
proof -
  have c: "chain m ((head # xs) @ e # ys @ [head])" using assms by (simp add: ring_def)
  show "Flink (m e) = hd (ys @ [head])"
    using c linked_append [of m "head # xs" e "ys @ [head]"] by (cases ys) auto
  have "chain m (butlast (head # xs) @ last (head # xs) # [e])"
    using c linked_append [of m "head # xs" e "ys @ [head]"]
    by (metis append.assoc append_Cons append_Nil append_butlast_last_id list.discI)
  then show "Blink (m e) = last (head # xs)"
    using linked_append [of m "butlast (head # xs)" "last (head # xs)" "[e]"] by simp
qed

lemma ring_remove:
  assumes "ring m head (xs @ e # ys)"
  shows "ring (snd (DList_RemoveEntryList e m)) head (xs @ ys)" and "fst (DList_RemoveEntryList e m) \<longleftrightarrow> xs @ ys = []"
proof -
  define p where "p = last (head # xs)"
  define n where "n = hd (ys @ [head])"
  define m' where "m' = set_Blink n p (set_Flink p n m)"
  have d: "distinct (head # xs @ ys)" using assms by (simp add: ring_def)
  have run: "DList_RemoveEntryList e m = (n = p, m')"
    using ring_at [OF assms] by (simp add: DList_RemoveEntryList_def Let_def m'_def p_def n_def)
  have "ring m' head (xs @ [] @ ys)"
  proof (rule ring_relink [of m head xs "[e]" ys])
    show "ring m head (xs @ [e] @ ys)" using assms by simp
    show "distinct (head # xs @ [] @ ys)" using d by simp
    show "chain m' (last (head # xs) # [] @ [hd (ys @ [head])])"
      unfolding p_def [symmetric] n_def [symmetric] by (simp add: m'_def links)
    show "Flink (m' x) = Flink (m x)" if "x \<noteq> last (head # xs)" for x
      using that unfolding p_def [symmetric] by (simp add: m'_def links)
    show "Blink (m' x) = Blink (m x)" if "x \<noteq> hd (ys @ [head])" for x
      using that unfolding n_def [symmetric] by (simp add: m'_def links)
  qed
  then show "ring (snd (DList_RemoveEntryList e m)) head (xs @ ys)" by (simp add: run)
  have "p \<in> set (head # xs)" "n \<in> set (ys @ [head])"
    unfolding p_def n_def by (rule last_in_set, simp) (cases ys; simp)
  moreover have "xs \<noteq> [] \<Longrightarrow> p \<in> set xs" "ys \<noteq> [] \<Longrightarrow> n \<in> set ys" "xs = [] \<Longrightarrow> p = head" "ys = [] \<Longrightarrow> n = head"
    by (simp_all add: p_def n_def)
  ultimately have "n = p \<longleftrightarrow> xs @ ys = []" using d by (cases "xs = []"; cases "ys = []") auto
  then show "fst (DList_RemoveEntryList e m) \<longleftrightarrow> xs @ ys = []" by (simp add: run)
qed

text \<open>Removing the oldest entry is removing the entry behind the head.\<close>

lemma ring_remove_head:
  assumes "ring m head es"
  shows "fst (DList_RemoveHeadList head m) = hd (es @ [head])" and "ring (snd (DList_RemoveHeadList head m)) head (tl es)"
proof -
  show "fst (DList_RemoveHeadList head m) = hd (es @ [head])"
    using ring_ends(1) [OF assms] by (simp add: DList_RemoveHeadList_def Let_def)
  show "ring (snd (DList_RemoveHeadList head m)) head (tl es)"
  proof (cases es)
    case Nil
    then show ?thesis using assms ring_ends(1) [OF assms]
      by (auto simp: ring_def DList_RemoveHeadList_def Let_def links)
  next
    case (Cons e ys)
    then have r: "ring m head ([] @ e # ys)" using assms by simp
    have "Flink (m head) = e" "Blink (m e) = head" using ring_ends(1) [OF assms] ring_at(2) [OF r] Cons by simp_all
    then have "snd (DList_RemoveHeadList head m) = snd (DList_RemoveEntryList e m)"
      by (simp add: DList_RemoveHeadList_def DList_RemoveEntryList_def Let_def)
    then show ?thesis using ring_remove(1) [OF r] Cons by simp
  qed
qed

text \<open>The list to append has no head of its own: it is a ring that starts at its first entry.\<close>

lemma ring_append:
  assumes "ring m head es" and "ring m a fs" and "distinct (head # es @ a # fs)"
  shows "ring (DList_AppendTailList head a m) head (es @ a # fs)"
proof -
  have last_a: "last (a # fs) \<in> set (a # fs)" and last_h: "last (head # es) \<in> set (head # es)" by (rule last_in_set; simp)+
  have apart: "last (head # es) \<notin> set (a # fs)" "last (a # fs) \<notin> set (head # es)" "a \<notin> set (head # es)" "head \<notin> set (a # fs)"
    using assms(3) last_a last_h by auto
  define p q where "p = last (head # es)" and "q = last (a # fs)"
  define m' where "m' = set_Blink a p (set_Flink q head (set_Blink head q (set_Flink p a m)))"
  have ends: "Blink (m head) = p" "Blink (m a) = q" using ring_ends(2) [OF assms(1)] ring_ends(2) [OF assms(2)] by (simp_all add: p_def q_def)
  have apart': "p \<notin> set (a # fs)" "q \<notin> set (head # es)" "a \<noteq> head" "p \<noteq> q"
    using apart last_a last_h unfolding p_def q_def by auto
  have run: "DList_AppendTailList head a m = m'"
    using ends apart' by (simp add: DList_AppendTailList_def Let_def m'_def links)
  have "ring m' head (es @ (a # fs) @ [])"
  proof (rule ring_relink [of m head es "[]" "[]"])
    show "ring m head (es @ [] @ [])" using assms(1) by simp
    show "distinct (head # es @ (a # fs) @ [])" using assms(3) by simp
    have inner: "chain m' (a # fs)"
    proof (subst chain_same [of "a # fs" m' m])
      show "Flink (m' x) = Flink (m x)" if "x \<in> set (butlast (a # fs))" for x
      proof -
        have "x \<noteq> q" using that assms(3) unfolding q_def
          by (metis append_butlast_last_id distinct_append distinct.simps(2) list.discI not_distinct_conv_prefix snoc_eq_iff_butlast)
        moreover have "x \<noteq> p" using that apart'(1) in_set_butlastD by metis
        ultimately show ?thesis by (simp add: m'_def links)
      qed
      show "Blink (m' x) = Blink (m x)" if "x \<in> set (tl (a # fs))" for x
        using that assms(3) by (auto simp: m'_def links)
      show "chain m (a # fs)" using assms(2) linked_append [of m "butlast (a # fs)" "last (a # fs)" "[a]"]
        by (metis append.assoc append_Cons append_Nil append_butlast_last_id list.discI ring_def)
    qed
    have "chain m' (p # a # fs)" using inner apart' by (simp add: m'_def links)
    moreover have "chain m' [q, head]" using apart' by (simp add: m'_def links)
    moreover have "p # a # fs = (p # butlast (a # fs)) @ [q]" by (simp add: q_def)
    ultimately have "chain m' ((p # butlast (a # fs)) @ q # [head])"
      using linked_append [of m' "p # butlast (a # fs)" q "[head]"] by metis
    moreover have "(p # butlast (a # fs)) @ q # [head] = p # (a # fs) @ [hd ([] @ [head])]" by (simp add: q_def)
    ultimately show "chain m' (last (head # es) # (a # fs) @ [hd ([] @ [head])])" unfolding p_def [symmetric] by metis
    show "Flink (m' x) = Flink (m x)" if "x \<in> set (head # es @ [])" "x \<noteq> last (head # es)" for x
      using that apart' unfolding p_def [symmetric] by (auto simp: m'_def links)
    show "Blink (m' x) = Blink (m x)" if "x \<in> set (head # es @ [])" "x \<noteq> hd ([] @ [head])" for x
      using that apart(3) by (auto simp: m'_def links)
  qed
  then show ?thesis by (simp add: run)
qed

section \<open>Runs\<close>

datatype dlist_call = InsertTail entry_address | InsertHead entry_address | RemoveEntry entry_address | RemoveHead | IsEmpty

datatype dlist_answer = NoAnswer | Truth bool | Removed entry_address

fun dlist_step :: "entry_address \<Rightarrow> dlist_call \<Rightarrow> entries \<Rightarrow> dlist_answer \<times> entries" where
  "dlist_step head (InsertTail e) m = (NoAnswer, DList_InsertTailList head e m)"
| "dlist_step head (InsertHead e) m = (NoAnswer, DList_InsertHeadList head e m)"
| "dlist_step head (RemoveEntry e) m = (case DList_RemoveEntryList e m of (b, m') \<Rightarrow> (Truth b, m'))"
| "dlist_step head RemoveHead m = (case DList_RemoveHeadList head m of (e, m') \<Rightarrow> (Removed e, m'))"
| "dlist_step head IsEmpty m = (Truth (DList_IsListEmpty head m), m)"

text \<open>The same calls on a list of entries.\<close>

fun entries_step :: "entry_address \<Rightarrow> dlist_call \<Rightarrow> entry_address list \<Rightarrow> dlist_answer \<times> entry_address list" where
  "entries_step head (InsertTail e) es = (NoAnswer, es @ [e])"
| "entries_step head (InsertHead e) es = (NoAnswer, e # es)"
| "entries_step head (RemoveEntry e) es = (Truth (remove1 e es = []), remove1 e es)"
| "entries_step head RemoveHead es = (Removed (hd (es @ [head])), tl es)"
| "entries_step head IsEmpty es = (Truth (es = []), es)"

text \<open>An entry that is inserted is in no list, and one that is removed is in this one.\<close>

fun call_ok :: "entry_address \<Rightarrow> dlist_call \<Rightarrow> entry_address list \<Rightarrow> bool" where
  "call_ok head (InsertTail e) es \<longleftrightarrow> e \<notin> set (head # es)"
| "call_ok head (InsertHead e) es \<longleftrightarrow> e \<notin> set (head # es)"
| "call_ok head (RemoveEntry e) es \<longleftrightarrow> e \<in> set es"
| "call_ok head _ es \<longleftrightarrow> True"

fun dlist_run :: "entry_address \<Rightarrow> dlist_call list \<Rightarrow> entries \<Rightarrow> dlist_answer list \<times> entries" where
  "dlist_run head [] m = ([], m)"
| "dlist_run head (c # cs) m =
     (case dlist_step head c m of (a, m1) \<Rightarrow> (case dlist_run head cs m1 of (as, m2) \<Rightarrow> (a # as, m2)))"

fun entries_run :: "entry_address \<Rightarrow> dlist_call list \<Rightarrow> entry_address list \<Rightarrow> dlist_answer list \<times> entry_address list" where
  "entries_run head [] es = ([], es)"
| "entries_run head (c # cs) es =
     (case entries_step head c es of (a, es1) \<Rightarrow> (case entries_run head cs es1 of (as, es2) \<Rightarrow> (a # as, es2)))"

fun calls_ok :: "entry_address \<Rightarrow> dlist_call list \<Rightarrow> entry_address list \<Rightarrow> bool" where
  "calls_ok head [] es \<longleftrightarrow> True"
| "calls_ok head (c # cs) es \<longleftrightarrow> call_ok head c es \<and> calls_ok head cs (snd (entries_step head c es))"

lemma dlist_step_refines:
  assumes "ring m head es" and "call_ok head c es"
  shows "fst (dlist_step head c m) = fst (entries_step head c es)"
    and "ring (snd (dlist_step head c m)) head (snd (entries_step head c es))"
proof -
  have "fst (dlist_step head c m) = fst (entries_step head c es) \<and> ring (snd (dlist_step head c m)) head (snd (entries_step head c es))"
  proof (cases c)
    case (RemoveEntry e)
    then obtain xs ys where es: "es = xs @ e # ys" "e \<notin> set xs" using assms(2) by (auto dest: split_list_first)
    then have "remove1 e es = xs @ ys" by (simp add: remove1_append)
    then show ?thesis using RemoveEntry es ring_remove [of m head xs e ys] assms(1) by (auto simp: case_prod_beta)
  qed (use assms ring_insert_tail ring_insert_head ring_remove_head ring_is_empty in \<open>auto simp: case_prod_beta\<close>)
  then show "fst (dlist_step head c m) = fst (entries_step head c es)"
    "ring (snd (dlist_step head c m)) head (snd (entries_step head c es))" by simp_all
qed

lemma dlist_run_refines:
  "ring m head es \<Longrightarrow> calls_ok head cs es \<Longrightarrow>
     fst (dlist_run head cs m) = fst (entries_run head cs es) \<and> ring (snd (dlist_run head cs m)) head (snd (entries_run head cs es))"
proof (induction cs arbitrary: m es)
  case (Cons c cs)
  show ?case
    using dlist_step_refines [OF Cons.prems(1)] Cons.IH [of "snd (dlist_step head c m)" "snd (entries_step head c es)"] Cons.prems(2)
    by (auto simp: case_prod_beta)
qed simp

text \<open>C38: From an initialised head, any sequence of insertions at either end, removals and queries
  answers as the same operations on a list of entries, and leaves the ring of that list, as long
  as entries are inserted once and only removed while they are in the list.\<close>

theorem dlist_runs:
  assumes "calls_ok head cs []"
  shows "fst (dlist_run head cs (DList_InitializeListHead head m)) = fst (entries_run head cs []) \<and>
    ring (snd (dlist_run head cs (DList_InitializeListHead head m))) head (snd (entries_run head cs []))"
  using dlist_run_refines [OF ring_empty assms] .

theorem dlist_runs_witness:
  "fst (dlist_run 0 [InsertTail 1, InsertTail 2, InsertHead 3, RemoveEntry 1, RemoveHead, IsEmpty]
     (DList_InitializeListHead 0 (\<lambda>_. \<lparr>Flink = 0, Blink = 0\<rparr>))) =
   [NoAnswer, NoAnswer, NoAnswer, Truth False, Removed 3, Truth False]"
  using dlist_runs [of 0 "[InsertTail 1, InsertTail 2, InsertHead 3, RemoveEntry 1, RemoveHead, IsEmpty]"] by simp

end
