(* ===== verification/Refcount.thy ===== *)
theory Refcount
  imports Prelude
begin

text \<open>
  Reference counted objects, the macros of \<open>inc/azure_c_shared_utility/refcount.h\<close> with the
  operations of \<open>pal/generic/refcount_os.h\<close>: an object carries a 32-bit count that wraps around.
  Objects live in a store under the address of their block. The locale \<open>shared_objects\<close> is the
  contract of a type that is shared this way: what its owners see, and that releasing it gives
  its blocks back. Its lemmas keep a ledger of the references that clients hold.
\<close>

section \<open>The macros\<close>

record 'a REFCOUNT_TYPE =
  counted :: 'a
  ref_count :: "32 word"

record 'a object_store =
  object_at :: "nat \<Rightarrow> 'a REFCOUNT_TYPE option"
  object_heap :: heap

text \<open>The address of a new object is the number of its request, which no other block has.\<close>

definition REFCOUNT_TYPE_CREATE :: "'a \<Rightarrow> 'a object_store \<Rightarrow> nat option \<times> 'a object_store" where
  "REFCOUNT_TYPE_CREATE unwritten st =
     (case malloc_struct (object_heap st) of
        (False, h1) \<Rightarrow> (None, st\<lparr>object_heap := h1\<rparr>)
      | (True, h1) \<Rightarrow>
          (let result = mem_calls (object_heap st) in
           (Some result,
            st\<lparr>object_at := (object_at st)(result \<mapsto> \<lparr>counted = unwritten, ref_count = 1\<rparr>), object_heap := h1\<rparr>)))"

definition object :: "nat \<Rightarrow> 'a object_store \<Rightarrow> 'a REFCOUNT_TYPE" where
  "object a st = the (object_at st a)"

definition set_counted :: "nat \<Rightarrow> 'a \<Rightarrow> 'a object_store \<Rightarrow> 'a object_store" where
  "set_counted a x st = st\<lparr>object_at := (object_at st)(a \<mapsto> (object a st)\<lparr>counted := x\<rparr>)\<rparr>"

definition INC_REF :: "nat \<Rightarrow> 'a object_store \<Rightarrow> 'a object_store" where
  "INC_REF a st = st\<lparr>object_at := (object_at st)(a \<mapsto> (object a st)\<lparr>ref_count := ref_count (object a st) + 1\<rparr>)\<rparr>"

text \<open>The new count is the value of the expression.\<close>

definition DEC_REF :: "nat \<Rightarrow> 'a object_store \<Rightarrow> 32 word \<times> 'a object_store" where
  "DEC_REF a st =
     (let n = ref_count (object a st) - 1 in
      (n, st\<lparr>object_at := (object_at st)(a \<mapsto> (object a st)\<lparr>ref_count := n\<rparr>)\<rparr>))"

definition DEC_RETURN_ZERO :: "32 word" where
  "DEC_RETURN_ZERO = 0"

definition free_object :: "nat \<Rightarrow> 'a object_store \<Rightarrow> 'a object_store" where
  "free_object a st = st\<lparr>object_at := (object_at st)(a := None), object_heap := free_struct (object_heap st)\<rparr>"

text \<open>A destructor: the last reference releases what the object owns, and the object.\<close>

definition drop_reference :: "('a \<Rightarrow> heap \<Rightarrow> heap) \<Rightarrow> nat \<Rightarrow> 'a object_store \<Rightarrow> 'a object_store" where
  "drop_reference release a st =
     (case DEC_REF a st of (n, st1) \<Rightarrow>
        if n = DEC_RETURN_ZERO then
          free_object a (st1\<lparr>object_heap := release (counted (object a st1)) (object_heap st1)\<rparr>)
        else st1)"

section \<open>The ledger of references\<close>

text \<open>For every live object what it shows and how many references are out.\<close>

type_synonym 'b ledger = "nat \<Rightarrow> ('b \<times> nat) option"

definition shown :: "'b ledger \<Rightarrow> nat \<Rightarrow> 'b" where
  "shown L a = fst (the (L a))"

definition take_reference :: "nat \<Rightarrow> 'b ledger \<Rightarrow> 'b ledger" where
  "take_reference a L = (case L a of None \<Rightarrow> L | Some (x, n) \<Rightarrow> L(a \<mapsto> (x, n + 1)))"

definition give_reference :: "nat \<Rightarrow> 'b ledger \<Rightarrow> 'b ledger" where
  "give_reference a L = (case L a of None \<Rightarrow> L | Some (x, n) \<Rightarrow> if n = 1 then L(a := None) else L(a \<mapsto> (x, n - 1)))"

definition empty_store :: "heap \<Rightarrow> 'a object_store" where
  "empty_store h = \<lparr>object_at = Map.empty, object_heap = h\<rparr>"

locale shared_objects =
  fixes holds :: "'a \<Rightarrow> 'b \<Rightarrow> bool"
    and weight :: "'b \<Rightarrow> int"
    and release :: "'a \<Rightarrow> heap \<Rightarrow> heap"
  assumes release_live: "holds x b \<Longrightarrow> mem_live (release x h) = mem_live h - weight b"
    and release_calls: "mem_calls (release x h) = mem_calls h"
begin

definition entry_ok :: "'a object_store \<Rightarrow> nat \<Rightarrow> 'b \<Rightarrow> nat \<Rightarrow> bool" where
  "entry_ok st a x n \<longleftrightarrow>
     0 < n \<and> n < 2 ^ 32 \<and> a < mem_calls (object_heap st) \<and>
     (\<exists>obj. object_at st a = Some obj \<and> ref_count obj = of_nat n \<and> holds (counted obj) x)"

definition account :: "heap \<Rightarrow> 'a object_store \<Rightarrow> 'b ledger \<Rightarrow> bool" where
  "account h0 st L \<longleftrightarrow>
     dom (object_at st) = dom L \<and> finite (dom L) \<and> (\<forall>a x n. L a = Some (x, n) \<longrightarrow> entry_ok st a x n) \<and>
     mem_live (object_heap st) = mem_live h0 + (\<Sum>a \<in> dom L. 1 + weight (shown L a))"

lemma accountI:
  assumes "dom (object_at st) = dom L" "finite (dom L)" "\<And>a x n. L a = Some (x, n) \<Longrightarrow> entry_ok st a x n"
    "mem_live (object_heap st) = mem_live h0 + (\<Sum>a \<in> dom L. 1 + weight (shown L a))"
  shows "account h0 st L"
  using assms by (simp add: account_def)

lemma accountD:
  assumes "account h0 st L"
  shows "dom (object_at st) = dom L" "finite (dom L)" "L a = Some (x, n) \<Longrightarrow> entry_ok st a x n"
    "mem_live (object_heap st) = mem_live h0 + (\<Sum>a \<in> dom L. 1 + weight (shown L a))"
  using assms by (simp_all add: account_def)

lemma account_start: "account h (empty_store h) Map.empty"
  by (simp add: account_def empty_store_def)

lemma account_heap:
  assumes "account h0 st L" and "mem_live h' = mem_live (object_heap st)" and "mem_calls (object_heap st) \<le> mem_calls h'"
  shows "account h0 (st\<lparr>object_heap := h'\<rparr>) L"
proof (rule accountI)
  show "entry_ok (st\<lparr>object_heap := h'\<rparr>) a x n" if "L a = Some (x, n)" for a x n
    using accountD(3) [OF assms(1) that] assms(3) by (simp add: entry_ok_def)
qed (use accountD [OF assms(1)] assms(2) in simp_all)

lemma account_created:
  assumes acc: "account h0 st L" and fresh: "a \<ge> mem_calls (object_heap st)" "a < mem_calls h'" and x: "holds x b"
    and live: "mem_live h' = mem_live (object_heap st) + 1 + weight b" and calls: "mem_calls (object_heap st) \<le> mem_calls h'"
  shows "account h0 (st\<lparr>object_at := (object_at st)(a \<mapsto> \<lparr>counted = x, ref_count = 1\<rparr>), object_heap := h'\<rparr>) (L(a \<mapsto> (b, 1)))"
    (is "account h0 ?st ?L")
proof (rule accountI)
  have new: "a \<notin> dom L"
  proof
    assume "a \<in> dom L"
    then obtain y n where "L a = Some (y, n)" by auto
    from accountD(3) [OF acc this] show False using fresh(1) by (simp add: entry_ok_def)
  qed
  show "dom (object_at ?st) = dom ?L" "finite (dom ?L)" using accountD(1,2) [OF acc] by simp_all
  show "entry_ok ?st c y n" if "?L c = Some (y, n)" for c y n
  proof (cases "c = a")
    case True
    then show ?thesis using that fresh x by (auto simp: entry_ok_def)
  next
    case False
    then show ?thesis using that accountD(3) [OF acc, of c y n] calls by (simp add: entry_ok_def)
  qed
  have "(\<Sum>c \<in> dom L. 1 + weight (shown ?L c)) = (\<Sum>c \<in> dom L. 1 + weight (shown L c))"
    using new by (intro sum.cong) (auto simp: shown_def)
  then show "mem_live (object_heap ?st) = mem_live h0 + (\<Sum>c \<in> dom ?L. 1 + weight (shown ?L c))"
    using new accountD(2,4) [OF acc] live by (simp add: shown_def)
qed

lemma account_taken:
  assumes acc: "account h0 st L" and "L a = Some (x, n)" and "n + 1 < 2 ^ 32"
  shows "account h0 (INC_REF a st) (take_reference a L)"
proof (rule accountI)
  obtain obj where obj: "object_at st a = Some obj" "ref_count obj = of_nat n" "holds (counted obj) x" "a < mem_calls (object_heap st)"
    using accountD(3) [OF acc assms(2)] by (auto simp: entry_ok_def)
  show "dom (object_at (INC_REF a st)) = dom (take_reference a L)" "finite (dom (take_reference a L))"
    using accountD(1,2) [OF acc] assms(2) by (auto simp: INC_REF_def take_reference_def)
  show "entry_ok (INC_REF a st) c y k" if "take_reference a L c = Some (y, k)" for c y k
  proof (cases "c = a")
    case True
    then show ?thesis using that obj assms(2,3) by (auto simp: entry_ok_def INC_REF_def object_def take_reference_def add.commute)
  next
    case False
    then show ?thesis using that accountD(3) [OF acc, of c y k] assms(2) by (simp add: entry_ok_def INC_REF_def take_reference_def)
  qed
  have "shown (take_reference a L) c = shown L c" "dom (take_reference a L) = dom L" for c
    using assms(2) by (auto simp: shown_def take_reference_def)
  then show "mem_live (object_heap (INC_REF a st)) = mem_live h0 + (\<Sum>c \<in> dom (take_reference a L). 1 + weight (shown (take_reference a L) c))"
    using accountD(4) [OF acc] by (simp add: INC_REF_def)
qed

lemma account_given:
  assumes acc: "account h0 st L" and "L a = Some (x, n)"
  shows "account h0 (drop_reference release a st) (give_reference a L)"
proof -
  obtain obj where obj: "object_at st a = Some obj" "ref_count obj = of_nat n" "holds (counted obj) x" "a < mem_calls (object_heap st)"
    and n: "0 < n" "n < 2 ^ 32"
    using accountD(3) [OF acc assms(2)] by (auto simp: entry_ok_def)
  have zero: "(of_nat n :: 32 word) - 1 = 0 \<longleftrightarrow> n = 1"
  proof -
    have "unat (of_nat n :: 32 word) = n" using n(2) by (simp add: unsigned_of_nat take_bit_nat_eq_self)
    then have "(of_nat n :: 32 word) = 1 \<longleftrightarrow> n = 1" by (metis of_nat_1 unsigned_1)
    then show ?thesis by simp
  qed
  show ?thesis
  proof (cases "n = 1")
    case True
    define st' where "st' = st\<lparr>object_at := (object_at st)(a := None), object_heap := free_struct (release (counted obj) (object_heap st))\<rparr>"
    have run: "drop_reference release a st = st'"
      using zero True obj by (simp add: drop_reference_def DEC_REF_def DEC_RETURN_ZERO_def free_object_def object_def st'_def Let_def)
    have given: "give_reference a L = L(a := None)" using assms(2) True by (simp add: give_reference_def)
    have "account h0 st' (L(a := None))"
    proof (rule accountI)
      show "dom (object_at st') = dom (L(a := None))" "finite (dom (L(a := None)))"
        using accountD(1,2) [OF acc] by (simp_all add: st'_def)
      show "entry_ok st' c y k" if "(L(a := None)) c = Some (y, k)" for c y k
        using that accountD(3) [OF acc, of c y k] by (auto simp: entry_ok_def st'_def free_struct_def release_calls split: if_splits)
      have "(\<Sum>c \<in> dom L. 1 + weight (shown L c)) = 1 + weight x + (\<Sum>c \<in> dom L - {a}. 1 + weight (shown L c))"
        using sum.remove [OF accountD(2) [OF acc], of a "\<lambda>c. 1 + weight (shown L c)"] assms(2) by (auto simp: shown_def)
      moreover have "(\<Sum>c \<in> dom L - {a}. 1 + weight (shown (L(a := None)) c)) = (\<Sum>c \<in> dom L - {a}. 1 + weight (shown L c))"
        by (intro sum.cong) (auto simp: shown_def)
      ultimately show "mem_live (object_heap st') = mem_live h0 + (\<Sum>c \<in> dom (L(a := None)). 1 + weight (shown (L(a := None)) c))"
        using accountD(4) [OF acc] by (simp add: st'_def free_struct_def release_live [OF obj(3)])
    qed
    then show ?thesis by (simp add: run given)
  next
    case False
    define st' where "st' = st\<lparr>object_at := (object_at st)(a \<mapsto> obj\<lparr>ref_count := of_nat n - 1\<rparr>)\<rparr>"
    have run: "drop_reference release a st = st'"
      using zero False obj by (simp add: drop_reference_def DEC_REF_def DEC_RETURN_ZERO_def object_def st'_def Let_def)
    have given: "give_reference a L = L(a \<mapsto> (x, n - 1))" using assms(2) False by (simp add: give_reference_def)
    have less: "(of_nat n :: 32 word) - 1 = of_nat (n - 1)" using n by (simp add: of_nat_diff)
    have "account h0 st' (L(a \<mapsto> (x, n - 1)))"
    proof (rule accountI)
      show "dom (object_at st') = dom (L(a \<mapsto> (x, n - 1)))" "finite (dom (L(a \<mapsto> (x, n - 1))))"
        using accountD(1,2) [OF acc] by (simp_all add: st'_def)
      show "entry_ok st' c y k" if "(L(a \<mapsto> (x, n - 1))) c = Some (y, k)" for c y k
      proof (cases "c = a")
        case True
        then show ?thesis using that obj n False less by (auto simp: entry_ok_def st'_def)
      next
        case False
        then show ?thesis using that accountD(3) [OF acc, of c y k] by (simp add: entry_ok_def st'_def)
      qed
      have "dom (L(a \<mapsto> (x, n - 1))) = dom L" "shown (L(a \<mapsto> (x, n - 1))) c = shown L c" for c
        using assms(2) by (auto simp: shown_def)
      then show "mem_live (object_heap st') = mem_live h0 + (\<Sum>c \<in> dom (L(a \<mapsto> (x, n - 1))). 1 + weight (shown (L(a \<mapsto> (x, n - 1))) c))"
        using accountD(4) [OF acc] by (simp add: st'_def)
    qed
    then show ?thesis by (simp add: run given)
  qed
qed

lemma account_settled: "account h0 st Map.empty \<Longrightarrow> mem_live (object_heap st) = mem_live h0"
  by (simp add: account_def)

lemma account_shows:
  assumes "account h0 st L" and "L a = Some (x, n)"
  obtains obj where "object_at st a = Some obj" "holds (counted obj) x"
  using accountD(3) [OF assms] by (auto simp: entry_ok_def)

lemma account_gone: "account h0 st L \<Longrightarrow> L a = None \<Longrightarrow> object_at st a = None"
  using accountD(1) [of h0 st L] by blast

end

end
