(* ===== verification/ConstBuffer.thy ===== *)
theory ConstBuffer
  imports Refcount Buffer
begin

text \<open>
  The constant buffers of \<open>src/src/constbuffer.c\<close>: a copy of some bytes that is shared by
  counting its references. A handle is null or the address of the object.
\<close>

section \<open>The functions of the source\<close>

record CONSTBUFFER =
  cb_buffer :: "byte list option"
  cb_size :: nat

record CONSTBUFFER_HANDLE_DATA =
  cb_alias :: CONSTBUFFER

type_synonym const_buffers = "CONSTBUFFER_HANDLE_DATA object_store"

text \<open>What a fresh object holds before its fields are written, never read.\<close>

definition unwritten_buffer :: CONSTBUFFER_HANDLE_DATA where
  "unwritten_buffer = \<lparr>cb_alias = \<lparr>cb_buffer = None, cb_size = 0\<rparr>\<rparr>"

definition CONSTBUFFER_Create_Internal :: "byte list option \<Rightarrow> nat \<Rightarrow> const_buffers \<Rightarrow> nat option \<times> const_buffers" where
  "CONSTBUFFER_Create_Internal src sz st =
     (case REFCOUNT_TYPE_CREATE unwritten_buffer st of
        (None, st1) \<Rightarrow> (None, st1)
      | (Some result, st1) \<Rightarrow>
          (if sz = 0 then (Some result, set_counted result \<lparr>cb_alias = \<lparr>cb_buffer = None, cb_size = sz\<rparr>\<rparr> st1)
           else
             (case malloc_block id sz (object_heap st1) of
                (None, h2) \<Rightarrow> (None, free_object result (st1\<lparr>object_heap := h2\<rparr>))
              | (Some temp, h2) \<Rightarrow>
                  (Some result,
                   set_counted result \<lparr>cb_alias = \<lparr>cb_buffer = Some (memcpy_at temp 0 (the src) sz), cb_size = sz\<rparr>\<rparr>
                     (st1\<lparr>object_heap := h2\<rparr>)))))"

definition CONSTBUFFER_Create :: "byte list option \<Rightarrow> nat \<Rightarrow> const_buffers \<Rightarrow> nat option \<times> const_buffers" where
  "CONSTBUFFER_Create src sz st =
     (if src = None \<and> sz \<noteq> 0 then (None, st) else CONSTBUFFER_Create_Internal src sz st)"

definition CONSTBUFFER_CreateFromBuffer :: "BUFFER option \<Rightarrow> const_buffers \<Rightarrow> nat option \<times> const_buffers" where
  "CONSTBUFFER_CreateFromBuffer buffer st =
     (if buffer = None then (None, st)
      else CONSTBUFFER_Create_Internal (BUFFER_u_char buffer) (BUFFER_length buffer) st)"

definition CONSTBUFFER_Clone :: "nat option \<Rightarrow> const_buffers \<Rightarrow> nat option \<times> const_buffers" where
  "CONSTBUFFER_Clone constbufferHandle st =
     (case constbufferHandle of
        None \<Rightarrow> (None, st)
      | Some a \<Rightarrow> (constbufferHandle, INC_REF a st))"

definition CONSTBUFFER_GetContent :: "nat option \<Rightarrow> const_buffers \<Rightarrow> CONSTBUFFER option" where
  "CONSTBUFFER_GetContent constbufferHandle st =
     (case constbufferHandle of
        None \<Rightarrow> None
      | Some a \<Rightarrow> Some (cb_alias (counted (object a st))))"

definition CONSTBUFFER_Destroy :: "nat option \<Rightarrow> const_buffers \<Rightarrow> const_buffers" where
  "CONSTBUFFER_Destroy constbufferHandle st =
     (case constbufferHandle of
        None \<Rightarrow> st
      | Some a \<Rightarrow>
          (case DEC_REF a st of (n, st1) \<Rightarrow>
             if n = DEC_RETURN_ZERO then
               free_object a (st1\<lparr>object_heap := c_free (cb_buffer (cb_alias (counted (object a st1)))) (object_heap st1)\<rparr>)
             else st1))"

section \<open>Sharing\<close>

text \<open>A constant buffer that holds some bytes owns a block for them unless there are none.\<close>

definition buffer_holds :: "CONSTBUFFER_HANDLE_DATA \<Rightarrow> byte list \<Rightarrow> bool" where
  "buffer_holds d bs \<longleftrightarrow> cb_alias d = \<lparr>cb_buffer = (if bs = [] then None else Some bs), cb_size = length bs\<rparr>"

definition bytes_weight :: "byte list \<Rightarrow> int" where
  "bytes_weight bs = (if bs = [] then 0 else 1)"

definition release_buffer :: "CONSTBUFFER_HANDLE_DATA \<Rightarrow> heap \<Rightarrow> heap" where
  "release_buffer d = c_free (cb_buffer (cb_alias d))"

interpretation const_buffer: shared_objects buffer_holds bytes_weight release_buffer
  by unfold_locales
    (auto simp: buffer_holds_def bytes_weight_def release_buffer_def c_free_def split: option.splits)

lemma CONSTBUFFER_Destroy_drop: "CONSTBUFFER_Destroy (Some a) = drop_reference release_buffer a"
  by (simp add: fun_eq_iff CONSTBUFFER_Destroy_def drop_reference_def release_buffer_def split: prod.split)

lemma create_internal_result:
  assumes run: "CONSTBUFFER_Create_Internal src sz st = (r, st')" and src: "sz \<noteq> 0 \<longrightarrow> (\<exists>b. src = Some b \<and> sz \<le> length b)"
    and acc: "const_buffer.account h0 st L"
  shows "case r of
      None \<Rightarrow> const_buffer.account h0 st' L \<and> \<not> (granted (object_heap st) \<and> granted (after_request 1 (object_heap st)))
    | Some a \<Rightarrow> L a = None \<and> const_buffer.account h0 st' (L(a \<mapsto> (if sz = 0 then [] else take sz (the src), 1)))"
proof -
  let ?h = "object_heap st" and ?a = "mem_calls (object_heap st)"
  have fresh: "L ?a = None"
    using const_buffer.accountD(3) [OF acc, of ?a] by (cases "L ?a") (auto simp: const_buffer.entry_ok_def)
  have put: "st\<lparr>object_at := (object_at st)(?a \<mapsto> y, ?a \<mapsto> z), object_heap := h\<rparr> = st\<lparr>object_at := (object_at st)(?a \<mapsto> z), object_heap := h\<rparr>" for y z h
    by simp
  show ?thesis
  proof (cases "granted ?h")
    case False
    then have "r = None" "st' = st\<lparr>object_heap := after_request 1 ?h\<rparr>"
      using run by (simp_all add: CONSTBUFFER_Create_Internal_def REFCOUNT_TYPE_CREATE_def malloc_struct_def)
    then show ?thesis
      using const_buffer.account_heap [OF acc, of "after_request 1 ?h"] False by (simp add: after_request_def)
  next
    case True
    note granted1 = this
    show ?thesis
    proof (cases "sz = 0")
      case True
      have "r = Some ?a" "st' = st\<lparr>object_at := (object_at st)(?a \<mapsto> \<lparr>counted = \<lparr>cb_alias = \<lparr>cb_buffer = None, cb_size = 0\<rparr>\<rparr>, ref_count = 1\<rparr>), object_heap := after_request 1 ?h\<rparr>"
        using run granted1 True
        by (auto simp: CONSTBUFFER_Create_Internal_def REFCOUNT_TYPE_CREATE_def malloc_struct_def Let_def set_counted_def object_def)
      then show ?thesis
        using const_buffer.account_created [OF acc, of ?a "after_request 1 ?h" "\<lparr>cb_alias = \<lparr>cb_buffer = None, cb_size = 0\<rparr>\<rparr>" "[]"]
          True granted1 fresh
        by (simp add: after_request_def buffer_holds_def bytes_weight_def)
    next
      case False
      then obtain b where b: "src = Some b" "sz \<le> length b" using src by auto
      show ?thesis
      proof (cases "granted (after_request 1 ?h)")
        case False
        then have "r = None" "object_heap st' = free_struct (after_request 1 (after_request 1 ?h))" "object_at st' = (object_at st)(?a := None)"
          using run granted1 \<open>sz \<noteq> 0\<close>
          by (auto simp: CONSTBUFFER_Create_Internal_def REFCOUNT_TYPE_CREATE_def malloc_struct_def malloc_block_def Let_def free_object_def)
        moreover have "(object_at st)(?a := None) = object_at st"
          using const_buffer.account_gone [OF acc fresh] by (simp add: fun_upd_idem)
        ultimately have "r = None" "st' = st\<lparr>object_heap := free_struct (after_request 1 (after_request 1 ?h))\<rparr>" by simp_all
        then show ?thesis
          using const_buffer.account_heap [OF acc, of "free_struct (after_request 1 (after_request 1 ?h))"] False granted1
          by (simp add: after_request_def free_struct_def)
      next
        case True
        let ?d = "\<lparr>cb_alias = \<lparr>cb_buffer = Some (take sz b), cb_size = sz\<rparr>\<rparr>"
        have "r = Some ?a" "st' = st\<lparr>object_at := (object_at st)(?a \<mapsto> \<lparr>counted = ?d, ref_count = 1\<rparr>), object_heap := after_request 1 (after_request 1 ?h)\<rparr>"
          using run granted1 True \<open>sz \<noteq> 0\<close> b
          by (auto simp: CONSTBUFFER_Create_Internal_def REFCOUNT_TYPE_CREATE_def malloc_struct_def malloc_block_def Let_def
              set_counted_def object_def memcpy_at_def)
        moreover have "b \<noteq> []" using b \<open>sz \<noteq> 0\<close> by auto
        moreover have "buffer_holds ?d (take sz b)" using b \<open>sz \<noteq> 0\<close> by (auto simp: buffer_holds_def)
        ultimately show ?thesis
          using const_buffer.account_created [OF acc, of ?a "after_request 1 (after_request 1 ?h)" ?d "take sz b"]
            True granted1 fresh b \<open>sz \<noteq> 0\<close>
          by (auto simp: after_request_def bytes_weight_def)
      qed
    qed
  qed
qed

text \<open>A run: buffers are made from memory or from a buffer, references are cloned while there are
  fewer than \<open>2^32\<close> of one object, and each reference is destroyed once. The ledger of a run
  records the bytes of every object and how many of its references are out.\<close>

inductive const_buffer_run :: "heap \<Rightarrow> const_buffers \<Rightarrow> byte list ledger \<Rightarrow> bool" for h0 where
  run_start: "const_buffer_run h0 (empty_store h0) Map.empty"
| run_create: "const_buffer_run h0 st L \<Longrightarrow> sz \<le> length b \<Longrightarrow> CONSTBUFFER_Create (Some b) sz st = (Some a, st') \<Longrightarrow>
    const_buffer_run h0 st' (L(a \<mapsto> (take sz b, 1)))"
| run_from_buffer: "const_buffer_run h0 st L \<Longrightarrow> buf_size b \<le> length (the (buf_data b)) \<Longrightarrow> (buf_data b = None \<longrightarrow> buf_size b = 0) \<Longrightarrow>
    CONSTBUFFER_CreateFromBuffer (Some b) st = (Some a, st') \<Longrightarrow>
    const_buffer_run h0 st' (L(a \<mapsto> (if buf_size b = 0 then [] else take (buf_size b) (the (buf_data b)), 1)))"
| run_refused: "const_buffer_run h0 st L \<Longrightarrow> sz \<le> length b \<Longrightarrow> CONSTBUFFER_Create (Some b) sz st = (None, st') \<Longrightarrow>
    const_buffer_run h0 st' L"
| run_clone: "const_buffer_run h0 st L \<Longrightarrow> L a = Some (bs, n) \<Longrightarrow> n + 1 < 2 ^ 32 \<Longrightarrow>
    CONSTBUFFER_Clone (Some a) st = (r, st') \<Longrightarrow> const_buffer_run h0 st' (take_reference a L)"
| run_destroy: "const_buffer_run h0 st L \<Longrightarrow> L a \<noteq> None \<Longrightarrow>
    const_buffer_run h0 (CONSTBUFFER_Destroy (Some a) st) (give_reference a L)"

lemma const_buffer_run_account: "const_buffer_run h0 st L \<Longrightarrow> const_buffer.account h0 st L"
proof (induction rule: const_buffer_run.induct)
  case run_start
  show ?case by (rule const_buffer.account_start)
next
  case (run_create st L sz b a st')
  then have "const_buffer.account h0 st' (L(a \<mapsto> (if sz = 0 then [] else take sz b, 1)))"
    using create_internal_result [of "Some b" sz st "Some a" st' h0 L] by (cases "sz = 0"; simp add: CONSTBUFFER_Create_def del: fun_upd_apply)
  moreover have "(if sz = 0 then [] else take sz b) = take sz b" by simp
  ultimately show ?case by (simp only:)
next
  case (run_from_buffer st L b a st')
  have "CONSTBUFFER_Create_Internal (BUFFER_u_char (Some b)) (buf_size b) st = (Some a, st')"
    using run_from_buffer by (simp add: CONSTBUFFER_CreateFromBuffer_def BUFFER_length_def)
  moreover have "buf_size b \<noteq> 0 \<longrightarrow> (\<exists>c. BUFFER_u_char (Some b) = Some c \<and> buf_size b \<le> length c)"
    using run_from_buffer by (cases "buf_data b") (auto simp: BUFFER_u_char_def)
  ultimately show ?case
    using create_internal_result [of "BUFFER_u_char (Some b)" "buf_size b" st "Some a" st' h0 L] run_from_buffer
    by (cases "buf_size b = 0"; cases "buf_data b") (simp_all add: BUFFER_u_char_def del: fun_upd_apply)
next
  case (run_refused st L sz b st')
  then show ?case
    using create_internal_result [of "Some b" sz st None st' h0 L] by (auto simp: CONSTBUFFER_Create_def)
next
  case (run_clone st L a bs n r st')
  then show ?case using const_buffer.account_taken [of h0 st L a bs n] by (simp add: CONSTBUFFER_Clone_def)
next
  case (run_destroy st L a)
  then show ?case using const_buffer.account_given [of h0 st L a] by (auto simp: CONSTBUFFER_Destroy_drop)
qed

text \<open>In any run a constant buffer keeps the bytes it was made from for as long as a
  reference is out, whatever happens to other references and other objects, and is freed with
  its last reference; when no reference is out the run has given all memory back.\<close>

theorem const_buffers_shared:
  assumes "const_buffer_run h0 st L"
  shows "(\<forall>a bs n. L a = Some (bs, n) \<longrightarrow>
      CONSTBUFFER_GetContent (Some a) st = Some \<lparr>cb_buffer = (if bs = [] then None else Some bs), cb_size = length bs\<rparr>) \<and>
    (\<forall>a. L a = None \<longrightarrow> object_at st a = None) \<and>
    (L = Map.empty \<longrightarrow> mem_live (object_heap st) = mem_live h0)"
proof (intro conjI allI impI)
  note acc = const_buffer_run_account [OF assms]
  show "CONSTBUFFER_GetContent (Some a) st = Some \<lparr>cb_buffer = (if bs = [] then None else Some bs), cb_size = length bs\<rparr>"
    if held: "L a = Some (bs, n)" for a bs n
  proof -
    obtain obj where "object_at st a = Some obj" "buffer_holds (counted obj) bs"
      by (rule const_buffer.account_shows [OF acc held])
    then show ?thesis by (simp add: CONSTBUFFER_GetContent_def object_def buffer_holds_def)
  qed
  show "object_at st a = None" if "L a = None" for a using const_buffer.account_gone [OF acc that] .
  show "mem_live (object_heap st) = mem_live h0" if "L = Map.empty"
    using const_buffer.account_settled acc that by simp
qed

theorem const_buffers_shared_witness:
  "\<exists>st. const_buffer_run heap0 st [0 \<mapsto> ([7, 8], 1)] \<and>
     CONSTBUFFER_GetContent (Some 0) st = Some \<lparr>cb_buffer = Some [7, 8], cb_size = 2\<rparr>"
proof -
  obtain st1 where one: "CONSTBUFFER_Create (Some [7, 8, 9]) 2 (empty_store heap0) = (Some 0, st1)"
    by (auto simp: CONSTBUFFER_Create_def CONSTBUFFER_Create_Internal_def REFCOUNT_TYPE_CREATE_def empty_store_def mem_defs heap0_def Let_def)
  obtain st2 where two: "CONSTBUFFER_Clone (Some 0) st1 = (Some 0, st2)" by (auto simp: CONSTBUFFER_Clone_def)
  have "const_buffer_run heap0 st1 [0 \<mapsto> ([7, 8], 1)]"
    using run_create [OF run_start _ one] by simp
  then have "const_buffer_run heap0 st2 [0 \<mapsto> ([7, 8], 2)]"
    using run_clone [OF _ _ _ two, of heap0 "[0 \<mapsto> ([7, 8], 1)]" "[7, 8]" 1] by (simp add: take_reference_def flip: numeral_2_eq_2)
  then have run: "const_buffer_run heap0 (CONSTBUFFER_Destroy (Some 0) st2) [0 \<mapsto> ([7, 8], 1)]"
    using run_destroy [of heap0 st2 "[0 \<mapsto> ([7, 8], 2)]" 0] by (simp add: give_reference_def)
  then show ?thesis using const_buffers_shared [OF run] by auto
qed

end
