(* ===== verification/ConstMap.thy ===== *)
theory ConstMap
  imports Refcount Maps
begin

text \<open>
  The constant maps of \<open>src/src/constmap.c\<close>: a clone of a map that is only read, shared by
  counting its references.
\<close>

section \<open>The functions of the source\<close>

datatype CONSTMAP_RESULT = CONSTMAP_OK | CONSTMAP_ERROR | CONSTMAP_INVALIDARG | CONSTMAP_KEYNOTFOUND

record CONSTMAP_HANDLE_DATA =
  cm_map :: "MAP_HANDLE_DATA option"

type_synonym const_maps = "CONSTMAP_HANDLE_DATA object_store"

definition ConstMap_Create :: "MAP_HANDLE_DATA option \<Rightarrow> const_maps \<Rightarrow> nat option \<times> const_maps" where
  "ConstMap_Create sourceMap st =
     (case REFCOUNT_TYPE_CREATE \<lparr>cm_map = None\<rparr> st of
        (None, st1) \<Rightarrow> (None, st1)
      | (Some result, st1) \<Rightarrow>
          (case Map_Clone sourceMap (object_heap st1) of
             (m, h2) \<Rightarrow>
               (let st2 = set_counted result \<lparr>cm_map = m\<rparr> (st1\<lparr>object_heap := h2\<rparr>) in
                if m = None then (None, free_object result st2) else (Some result, st2))))"

definition ConstMap_Destroy :: "nat option \<Rightarrow> const_maps \<Rightarrow> const_maps" where
  "ConstMap_Destroy handle st =
     (case handle of
        None \<Rightarrow> st
      | Some a \<Rightarrow>
          (case DEC_REF a st of (n, st1) \<Rightarrow>
             if n = DEC_RETURN_ZERO then
               free_object a (st1\<lparr>object_heap := Map_Destroy (cm_map (counted (object a st1))) (object_heap st1)\<rparr>)
             else st1))"

definition ConstMap_Clone :: "nat option \<Rightarrow> const_maps \<Rightarrow> nat option \<times> const_maps" where
  "ConstMap_Clone handle st = (case handle of None \<Rightarrow> (None, st) | Some a \<Rightarrow> (handle, INC_REF a st))"

definition ConstMap_ErrorConvert :: "MAP_RESULT \<Rightarrow> CONSTMAP_RESULT" where
  "ConstMap_ErrorConvert mapResult =
     (case mapResult of
        MAP_OK \<Rightarrow> CONSTMAP_OK
      | MAP_INVALIDARG \<Rightarrow> CONSTMAP_INVALIDARG
      | MAP_KEYNOTFOUND \<Rightarrow> CONSTMAP_KEYNOTFOUND
      | _ \<Rightarrow> CONSTMAP_ERROR)"

definition ConstMap_CloneWriteable :: "nat option \<Rightarrow> const_maps \<Rightarrow> MAP_HANDLE_DATA option \<times> const_maps" where
  "ConstMap_CloneWriteable handle st =
     (case handle of
        None \<Rightarrow> (None, st)
      | Some a \<Rightarrow>
          (case Map_Clone (cm_map (counted (object a st))) (object_heap st) of (m, h1) \<Rightarrow> (m, st\<lparr>object_heap := h1\<rparr>)))"

definition ConstMap_ContainsKey :: "nat option \<Rightarrow> cptr \<Rightarrow> const_maps \<Rightarrow> bool" where
  "ConstMap_ContainsKey handle key st =
     (case (handle, key) of
        (Some a, Some k) \<Rightarrow>
          (case Map_ContainsKey (cm_map (counted (object a st))) (Some k) of
             (mapResult, keyExists) \<Rightarrow> (if mapResult \<noteq> MAP_OK then False else the keyExists))
      | _ \<Rightarrow> False)"

definition ConstMap_ContainsValue :: "nat option \<Rightarrow> cptr \<Rightarrow> const_maps \<Rightarrow> bool" where
  "ConstMap_ContainsValue handle val st =
     (case (handle, val) of
        (Some a, Some v) \<Rightarrow>
          (case Map_ContainsValue (cm_map (counted (object a st))) (Some v) of
             (mapResult, valueExists) \<Rightarrow> (case valueExists of None \<Rightarrow> False | Some b \<Rightarrow> b))
      | _ \<Rightarrow> False)"

definition ConstMap_GetValue :: "nat option \<Rightarrow> cptr \<Rightarrow> const_maps \<Rightarrow> cptr" where
  "ConstMap_GetValue handle key st =
     (case (handle, key) of
        (Some a, Some k) \<Rightarrow> Map_GetValueFromKey (cm_map (counted (object a st))) (Some k)
      | _ \<Rightarrow> None)"

text \<open>The out parameters are not null; on success they get the arrays and the count.\<close>

definition ConstMap_GetInternals ::
  "nat option \<Rightarrow> const_maps \<Rightarrow> CONSTMAP_RESULT \<times> (cptr list option \<times> cptr list option \<times> nat) option" where
  "ConstMap_GetInternals handle st =
     (case handle of
        None \<Rightarrow> (CONSTMAP_INVALIDARG, None)
      | Some a \<Rightarrow>
          (case Map_GetInternals (cm_map (counted (object a st))) of
             (mapResult, out) \<Rightarrow> (ConstMap_ErrorConvert mapResult, out)))"

section \<open>Sharing\<close>

definition map_holds :: "CONSTMAP_HANDLE_DATA \<Rightarrow> entry list \<Rightarrow> bool" where
  "map_holds d es \<longleftrightarrow> (\<exists>m. cm_map d = Some m \<and> map_repr m es)"

definition release_map :: "CONSTMAP_HANDLE_DATA \<Rightarrow> heap \<Rightarrow> heap" where
  "release_map d = Map_Destroy (cm_map d)"

lemma Map_Destroy_calls: "mem_calls (Map_Destroy m h) = mem_calls h"
proof -
  have "mem_calls (fold (\<lambda>(k, v) h. c_free v (c_free k h)) ps h) = mem_calls h" for ps :: "(cptr \<times> cptr) list" and h
    by (induction ps arbitrary: h) auto
  then show ?thesis by (simp add: Map_Destroy_def free_struct_def Let_def split: option.split)
qed

interpretation const_map: shared_objects map_holds map_blocks release_map
  by unfold_locales (auto simp: map_holds_def release_map_def Map_Destroy_live Map_Destroy_calls)

lemma ConstMap_Destroy_drop: "ConstMap_Destroy (Some a) = drop_reference release_map a"
  by (simp add: fun_eq_iff ConstMap_Destroy_def drop_reference_def release_map_def split: prod.split)

text \<open>Cloning only makes requests.\<close>

lemma copy_calls: "mallocAndStrcpy_s p h = (r, d, h') \<Longrightarrow> mem_calls h \<le> mem_calls h'"
  by (auto simp: mallocAndStrcpy_s_def strcpy_s_def malloc_block_def after_request_def Let_def c_free_def
      split: option.splits if_splits prod.splits crt_result.splits)

lemma free_ptrs_calls [simp]: "mem_calls (free_ptrs ps h) = mem_calls h"
  unfolding free_ptrs_def by (induction ps arbitrary: h) auto

lemma Map_CloneVector_calls: "Map_CloneVector arr n h = (r, h') \<Longrightarrow> mem_calls h \<le> mem_calls h'"
proof -
  have loop: "Map_CloneVector_loop ps acc g = (ok, copies, g') \<Longrightarrow> mem_calls g \<le> mem_calls g'" for ps acc g ok copies g'
  proof (induction ps acc g rule: Map_CloneVector_loop.induct)
    case (2 p ps acc g)
    obtain c d g1 where one: "mallocAndStrcpy_s p g = (c, d, g1)" by (metis prod_cases3)
    have "mem_calls g \<le> mem_calls g1" using copy_calls [OF one] .
    moreover have "mem_calls g1 \<le> mem_calls g'" if "c = CRT_OK"
      using 2(1) [OF one [symmetric, unfolded that] refl refl] 2(2) one that by simp
    moreover have "g' = g1" if "c \<noteq> CRT_OK" using 2(2) one that by (cases c) auto
    ultimately show ?case by (cases "c = CRT_OK") auto
  qed simp
  assume "Map_CloneVector arr n h = (r, h')"
  then show ?thesis
    using loop [of "array_ptrs arr n" "[]" "after_request 1 h"]
    by (auto simp: Map_CloneVector_def malloc_block_def split: prod.splits bool.splits if_splits)
      (fastforce simp: after_request_def)+
qed

lemma Map_Clone_calls: "Map_Clone m h = (r, h') \<Longrightarrow> mem_calls h \<le> mem_calls h'"
proof (cases m)
  case None
  then show "Map_Clone m h = (r, h') \<Longrightarrow> mem_calls h \<le> mem_calls h'" by (simp add: Map_Clone_def)
next
  case (Some x)
  assume run: "Map_Clone m h = (r, h')"
  let ?h1 = "after_request 1 h"
  obtain k h2 where k: "Map_CloneVector (map_keys x) (map_count x) ?h1 = (k, h2)" by fastforce
  obtain v h3 where v: "Map_CloneVector (map_values x) (map_count x) h2 = (v, h3)" by fastforce
  have "mem_calls h \<le> mem_calls ?h1" "mem_calls ?h1 \<le> mem_calls h2" "mem_calls h2 \<le> mem_calls h3"
    using Map_CloneVector_calls [OF k] Map_CloneVector_calls [OF v] by (simp_all add: after_request_def)
  then show "mem_calls h \<le> mem_calls h'"
    using run k v Some
    by (auto simp: Map_Clone_def malloc_struct_def Let_def free_struct_def split: if_splits option.splits)
qed

lemma ConstMap_Create_result:
  assumes run: "ConstMap_Create (Some m) st = (r, st')" and m: "map_repr m es" and acc: "const_map.account h0 st L"
  shows "case r of None \<Rightarrow> const_map.account h0 st' L | Some a \<Rightarrow> L a = None \<and> const_map.account h0 st' (L(a \<mapsto> (es, 1)))"
proof -
  let ?h = "object_heap st" and ?a = "mem_calls (object_heap st)"
  have fresh: "L ?a = None"
    using const_map.accountD(3) [OF acc, of ?a] by (cases "L ?a") (auto simp: const_map.entry_ok_def)
  show ?thesis
  proof (cases "granted ?h")
    case False
    then have "r = None" "st' = st\<lparr>object_heap := after_request 1 ?h\<rparr>"
      using run by (simp_all add: ConstMap_Create_def REFCOUNT_TYPE_CREATE_def malloc_struct_def)
    then show ?thesis
      using const_map.account_heap [OF acc, of "after_request 1 ?h"] False by (simp add: after_request_def)
  next
    case True
    obtain c h2 where clone: "Map_Clone (Some m) (after_request 1 ?h) = (c, h2)" by fastforce
    note cres = Map_Clone_result [OF m clone] and calls = Map_Clone_calls [OF clone]
    have h1: "mem_live (after_request 1 ?h) = mem_live ?h + 1" "mem_calls (after_request 1 ?h) = Suc ?a"
      using True by (simp_all add: after_request_def)
    show ?thesis
    proof (cases c)
      case None
      have "(object_at st)(?a := None) = object_at st" using const_map.account_gone [OF acc fresh] by (simp add: fun_upd_idem)
      then have "r = None" "st' = st\<lparr>object_heap := free_struct h2\<rparr>"
        using run True clone None
        by (auto simp: ConstMap_Create_def REFCOUNT_TYPE_CREATE_def malloc_struct_def Let_def set_counted_def free_object_def)
      then show ?thesis
        using const_map.account_heap [OF acc, of "free_struct h2"] cres calls h1 None by (simp add: free_struct_def)
    next
      case (Some m')
      have "r = Some ?a" "st' = st\<lparr>object_at := (object_at st)(?a \<mapsto> \<lparr>counted = \<lparr>cm_map = Some m'\<rparr>, ref_count = 1\<rparr>), object_heap := h2\<rparr>"
        using run True clone Some
        by (auto simp: ConstMap_Create_def REFCOUNT_TYPE_CREATE_def malloc_struct_def Let_def set_counted_def object_def)
      moreover have "map_holds \<lparr>cm_map = Some m'\<rparr> es" using cres Some by (simp add: map_holds_def)
      ultimately show ?thesis
        using const_map.account_created [OF acc, of ?a h2 "\<lparr>cm_map = Some m'\<rparr>" es] cres calls h1 Some fresh by simp
    qed
  qed
qed

text \<open>A run of constant maps, with the ledger of the entries they were made from.\<close>

inductive const_map_run :: "heap \<Rightarrow> const_maps \<Rightarrow> entry list ledger \<Rightarrow> bool" for h0 where
  map_run_start: "const_map_run h0 (empty_store h0) Map.empty"
| map_run_create: "const_map_run h0 st L \<Longrightarrow> map_repr m es \<Longrightarrow> ConstMap_Create (Some m) st = (Some a, st') \<Longrightarrow>
    const_map_run h0 st' (L(a \<mapsto> (es, 1)))"
| map_run_refused: "const_map_run h0 st L \<Longrightarrow> map_inv m \<Longrightarrow> ConstMap_Create (Some m) st = (None, st') \<Longrightarrow> const_map_run h0 st' L"
| map_run_clone: "const_map_run h0 st L \<Longrightarrow> L a = Some (es, n) \<Longrightarrow> n + 1 < 2 ^ 32 \<Longrightarrow>
    ConstMap_Clone (Some a) st = (r, st') \<Longrightarrow> const_map_run h0 st' (take_reference a L)"
| map_run_destroy: "const_map_run h0 st L \<Longrightarrow> L a \<noteq> None \<Longrightarrow>
    const_map_run h0 (ConstMap_Destroy (Some a) st) (give_reference a L)"

lemma const_map_run_account: "const_map_run h0 st L \<Longrightarrow> const_map.account h0 st L"
proof (induction rule: const_map_run.induct)
  case map_run_start
  show ?case by (rule const_map.account_start)
next
  case (map_run_create st L m es a st')
  then show ?case using ConstMap_Create_result [of m st "Some a" st' es h0 L] by (simp del: fun_upd_apply)
next
  case (map_run_refused st L m st')
  then show ?case using ConstMap_Create_result [of m st None st' "map_entries m" h0 L] by (simp add: map_inv_def)
next
  case (map_run_clone st L a es n r st')
  then show ?case using const_map.account_taken [of h0 st L a es n] by (simp add: ConstMap_Clone_def)
next
  case (map_run_destroy st L a)
  then show ?case using const_map.account_given [of h0 st L a] by (auto simp: ConstMap_Destroy_drop)
qed

text \<open>C37: In any run a constant map answers every query from the entries of the map it was cloned
  from, for as long as a reference is out; it is freed with its last reference, and when no
  reference is out the run has given all memory back.\<close>

theorem const_maps_shared:
  assumes "const_map_run h0 st L"
  shows "(\<forall>a es n k. L a = Some (es, n) \<longrightarrow>
      map_option cstr (ConstMap_GetValue (Some a) (Some k) st) = map_of es (cstr k) \<and>
      (ConstMap_ContainsKey (Some a) (Some k) st \<longleftrightarrow> cstr k \<in> fst ` set es) \<and>
      (ConstMap_ContainsValue (Some a) (Some k) st \<longleftrightarrow> cstr k \<in> snd ` set es)) \<and>
    (\<forall>a. L a = None \<longrightarrow> object_at st a = None) \<and>
    (L = Map.empty \<longrightarrow> mem_live (object_heap st) = mem_live h0)"
proof (intro conjI allI impI)
  note acc = const_map_run_account [OF assms]
  fix a es n k
  assume held: "L a = Some (es, n)"
  obtain obj where obj: "object_at st a = Some obj" "map_holds (counted obj) es"
    by (rule const_map.account_shows [OF acc held])
  then obtain m where m: "cm_map (counted obj) = Some m" "map_repr m es" by (auto simp: map_holds_def)
  show "map_option cstr (ConstMap_GetValue (Some a) (Some k) st) = map_of es (cstr k)"
    using obj m Map_GetValueFromKey_lookup [OF m(2), of k] by (simp add: ConstMap_GetValue_def object_def)
  show "ConstMap_ContainsKey (Some a) (Some k) st \<longleftrightarrow> cstr k \<in> fst ` set es"
    using obj m findKey_spec [OF m(2), of k]
    by (auto simp: ConstMap_ContainsKey_def Map_ContainsKey_def object_def split: option.splits) (metis imageI nth_mem)
  show "ConstMap_ContainsValue (Some a) (Some k) st \<longleftrightarrow> cstr k \<in> snd ` set es"
    using obj m findValue_spec [OF m(2), of k]
    by (auto simp: ConstMap_ContainsValue_def Map_ContainsValue_def object_def)
next
  note acc = const_map_run_account [OF assms]
  show "object_at st a = None" if "L a = None" for a using const_map.account_gone [OF acc that] .
  show "mem_live (object_heap st) = mem_live h0" if "L = Map.empty" using const_map.account_settled acc that by simp
qed

theorem const_maps_shared_witness:
  "\<exists>st. const_map_run heap0 st [0 \<mapsto> ([(''k'', ''v'')], 1)] \<and>
     map_option cstr (ConstMap_GetValue (Some 0) (Some (c_lit ''k'')) st) = Some ''v''"
proof -
  have "fst (ConstMap_Create (Some one_entry) (empty_store heap0)) = Some 0" by code_simp
  then obtain st1 where one: "ConstMap_Create (Some one_entry) (empty_store heap0) = (Some 0, st1)"
    by (metis fst_conv surj_pair)
  have run: "const_map_run heap0 st1 [0 \<mapsto> ([(''k'', ''v'')], 1)]"
    using map_run_create [OF map_run_start one_entry_repr one] .
  have "map_option cstr (ConstMap_GetValue (Some 0) (Some (c_lit ''k'')) st1) = map_of [(''k'', ''v'')] (cstr (c_lit ''k''))"
    using const_maps_shared [OF run] by auto
  then show ?thesis using run by (intro exI [of _ st1]) simp
qed

end
