(* ===== verification/Gballoc.thy ===== *)
theory Gballoc
  imports "HOL-Library.Word"
begin

text \<open>
  The allocation tracker of \<open>src/gballoc.c\<close>: \<open>malloc\<close>, \<open>calloc\<close>, \<open>realloc\<close> and \<open>free\<close> with a list
  of the blocks that are out and the totals over it. The list is followed at the level of its
  pointers, in the memory that the tracker itself takes from the C library. The loops that follow
  it are partial functions: \<open>None\<close> would be a loop that does not end.
\<close>

section \<open>The memory of the C library\<close>

record ALLOCATION =
  al_size :: "64 word"
  al_ptr :: nat
  al_next :: "nat option"

text \<open>
  The blocks that are out with their sizes, and what was last stored in a block that is used as an
  \<open>ALLOCATION\<close>. The environment names the address for each request, or refuses it; an address that
  is out already is never handed out again. \<open>bad_frees\<close> counts the calls with a pointer to no block.
\<close>

record c_memory =
  block_size :: "nat \<Rightarrow> 64 word option"
  node_at :: "nat \<Rightarrow> ALLOCATION"
  address_answer :: "nat \<Rightarrow> nat option"
  address_calls :: nat
  bad_frees :: nat

definition c_malloc :: "64 word \<Rightarrow> 'a c_memory_scheme \<Rightarrow> nat option \<times> 'a c_memory_scheme" where
  "c_malloc n m =
     (let m1 = m\<lparr>address_calls := Suc (address_calls m)\<rparr> in
      case address_answer m (address_calls m) of
        None \<Rightarrow> (None, m1)
      | Some a \<Rightarrow>
          (if block_size m a = None then (Some a, m1\<lparr>block_size := (block_size m)(a \<mapsto> n)\<rparr>) else (None, m1)))"

definition c_calloc :: "64 word \<Rightarrow> 64 word \<Rightarrow> 'a c_memory_scheme \<Rightarrow> nat option \<times> 'a c_memory_scheme" where
  "c_calloc k n m = (if unat k * unat n \<ge> 2 ^ 64 then (None, m) else c_malloc (k * n) m)"

definition c_release :: "nat option \<Rightarrow> 'a c_memory_scheme \<Rightarrow> 'a c_memory_scheme" where
  "c_release p m =
     (case p of
        None \<Rightarrow> m
      | Some a \<Rightarrow>
          (if block_size m a = None then m\<lparr>bad_frees := Suc (bad_frees m)\<rparr>
           else m\<lparr>block_size := (block_size m)(a := None)\<rparr>))"

definition c_realloc :: "nat option \<Rightarrow> 64 word \<Rightarrow> 'a c_memory_scheme \<Rightarrow> nat option \<times> 'a c_memory_scheme" where
  "c_realloc p n m =
     (case p of
        None \<Rightarrow> c_malloc n m
      | Some a \<Rightarrow>
          (if block_size m a = None then (None, m\<lparr>bad_frees := Suc (bad_frees m)\<rparr>)
           else
             (let m1 = m\<lparr>address_calls := Suc (address_calls m)\<rparr> in
              case address_answer m (address_calls m) of
                None \<Rightarrow> (None, m1)
              | Some b \<Rightarrow>
                  (if b = a \<or> block_size m b = None
                   then (Some b, m1\<lparr>block_size := (block_size m)(a := None, b \<mapsto> n)\<rparr>)
                   else (None, m1)))))"

section \<open>The functions of the source\<close>

datatype GBALLOC_STATE = GBALLOC_STATE_INIT | GBALLOC_STATE_NOT_INIT

text \<open>The static variables, and the lock: what \<open>Lock\<close> answers and whether it is held.\<close>

record gballoc = c_memory +
  head :: "nat option"
  totalSize :: "64 word"
  maxSize :: "64 word"
  g_allocations :: "64 word"
  gballocState :: GBALLOC_STATE
  gballocThreadSafeLock :: bool
  lock_init_answer :: bool
  lock_answer :: "nat \<Rightarrow> bool"
  lock_calls :: nat
  lock_held :: bool

definition gballoc_init :: "gballoc \<Rightarrow> bool \<times> gballoc" where
  "gballoc_init g =
     (if gballocState g \<noteq> GBALLOC_STATE_NOT_INIT then (False, g)
      else if \<not> lock_init_answer g then (False, g\<lparr>gballocThreadSafeLock := False\<rparr>)
      else
        (True,
         g\<lparr>gballocThreadSafeLock := True, gballocState := GBALLOC_STATE_INIT,
           totalSize := 0, maxSize := 0, g_allocations := 0\<rparr>))"

definition gballoc_deinit :: "gballoc \<Rightarrow> gballoc" where
  "gballoc_deinit g = g\<lparr>gballocState := GBALLOC_STATE_NOT_INIT\<rparr>"

definition take_lock :: "gballoc \<Rightarrow> bool \<times> gballoc" where
  "take_lock g =
     (let ok = lock_answer g (lock_calls g) in (ok, g\<lparr>lock_calls := Suc (lock_calls g), lock_held := ok\<rparr>))"

definition give_lock :: "gballoc \<Rightarrow> gballoc" where
  "give_lock g = g\<lparr>lock_held := False\<rparr>"

definition size_of_ALLOCATION :: "64 word" where "size_of_ALLOCATION = 24"

text \<open>The three stores that put a new entry at the head, and the test for a new maximum.\<close>

definition add_block :: "nat \<Rightarrow> nat \<Rightarrow> 64 word \<Rightarrow> gballoc \<Rightarrow> gballoc" where
  "add_block allocation result n g =
     g\<lparr>node_at := (node_at g)(allocation := \<lparr>al_size = n, al_ptr = result, al_next = head g\<rparr>), head := Some allocation\<rparr>"

definition raise_maximum :: "gballoc \<Rightarrow> gballoc" where
  "raise_maximum g = (if maxSize g < totalSize g then g\<lparr>maxSize := totalSize g\<rparr> else g)"

definition gballoc_malloc :: "64 word \<Rightarrow> gballoc \<Rightarrow> nat option \<times> gballoc" where
  "gballoc_malloc n g =
     (if gballocState g \<noteq> GBALLOC_STATE_INIT then c_malloc n g
      else
        (case take_lock g of
           (False, g1) \<Rightarrow> (None, g1)
         | (True, g1) \<Rightarrow>
             (case c_malloc size_of_ALLOCATION g1 of
                (None, g2) \<Rightarrow> (None, give_lock g2)
              | (Some allocation, g2) \<Rightarrow>
                  (case c_malloc n g2 of
                     (None, g3) \<Rightarrow> (None, give_lock (c_release (Some allocation) g3))
                   | (Some result, g3) \<Rightarrow>
                       (let g4 = add_block allocation result n g3;
                            g5 = g4\<lparr>g_allocations := g_allocations g4 + 1, totalSize := totalSize g4 + n\<rparr> in
                        (Some result, give_lock (raise_maximum g5)))))))"

definition gballoc_calloc :: "64 word \<Rightarrow> 64 word \<Rightarrow> gballoc \<Rightarrow> nat option \<times> gballoc" where
  "gballoc_calloc nmemb n g =
     (if gballocState g \<noteq> GBALLOC_STATE_INIT then c_calloc nmemb n g
      else
        (case take_lock g of
           (False, g1) \<Rightarrow> (None, g1)
         | (True, g1) \<Rightarrow>
             (case c_malloc size_of_ALLOCATION g1 of
                (None, g2) \<Rightarrow> (None, give_lock g2)
              | (Some allocation, g2) \<Rightarrow>
                  (case c_calloc nmemb n g2 of
                     (None, g3) \<Rightarrow> (None, give_lock (c_release (Some allocation) g3))
                   | (Some result, g3) \<Rightarrow>
                       (let g4 = add_block allocation result (nmemb * n) g3;
                            g5 = g4\<lparr>g_allocations := g_allocations g4 + 1,
                                    totalSize := totalSize g4 + al_size (node_at g4 allocation)\<rparr> in
                        (Some result, give_lock (raise_maximum g5)))))))"

text \<open>The search of \<open>gballoc_realloc\<close>.\<close>

partial_function (option) find_allocation_loop :: "(nat \<Rightarrow> ALLOCATION) \<Rightarrow> nat \<Rightarrow> nat option \<Rightarrow> nat option option" where
  "find_allocation_loop ns ptr cur =
     (case cur of
        None \<Rightarrow> Some None
      | Some c \<Rightarrow> (if al_ptr (ns c) = ptr then Some (Some c) else find_allocation_loop ns ptr (al_next (ns c))))"

definition gballoc_realloc :: "nat option \<Rightarrow> 64 word \<Rightarrow> gballoc \<Rightarrow> (nat option \<times> gballoc) option" where
  "gballoc_realloc ptr n g =
     (if gballocState g \<noteq> GBALLOC_STATE_INIT then Some (c_realloc ptr n g)
      else
        (case take_lock g of
           (False, g1) \<Rightarrow> Some (None, g1)
         | (True, g1) \<Rightarrow>
             (case (case ptr of
                      None \<Rightarrow> Some (c_malloc size_of_ALLOCATION g1)
                    | Some p \<Rightarrow> map_option (\<lambda>a. (a, g1)) (find_allocation_loop (node_at g1) p (head g1))) of
                None \<Rightarrow> None
              | Some (None, g2) \<Rightarrow> Some (None, give_lock g2)
              | Some (Some allocation, g2) \<Rightarrow>
                  (case c_realloc ptr n g2 of
                     (None, g3) \<Rightarrow>
                       Some (None, give_lock (if ptr = None then c_release (Some allocation) g3 else g3))
                   | (Some result, g3) \<Rightarrow>
                       (let g4 =
                          (if ptr \<noteq> None then
                             g3\<lparr>node_at := (node_at g3)(allocation := (node_at g3 allocation)\<lparr>al_ptr := result, al_size := n\<rparr>),
                                totalSize := totalSize g3 - al_size (node_at g3 allocation)\<rparr>
                           else add_block allocation result n g3);
                            g5 = g4\<lparr>totalSize := totalSize g4 + n, g_allocations := g_allocations g4 + 1\<rparr> in
                        Some (Some result, give_lock (raise_maximum g5)))))))"

text \<open>The search of \<open>gballoc_free\<close>: the entry and the one in front of it.\<close>

partial_function (option) free_search_loop ::
  "(nat \<Rightarrow> ALLOCATION) \<Rightarrow> nat option \<Rightarrow> nat option \<Rightarrow> nat option \<Rightarrow> (nat option \<times> nat option) option" where
  "free_search_loop ns ptr prev cur =
     (if cur = None then Some (prev, None)
      else if Some (al_ptr (ns (the cur))) = ptr then Some (prev, cur)
      else free_search_loop ns ptr cur (al_next (ns (the cur))))"

declare find_allocation_loop.simps [code] free_search_loop.simps [code]

text \<open>The head of the list is read when the function starts, before the lock is taken.\<close>

definition gballoc_free_from :: "nat option \<Rightarrow> nat option \<Rightarrow> gballoc \<Rightarrow> gballoc option" where
  "gballoc_free_from cur ptr g =
     (if gballocState g \<noteq> GBALLOC_STATE_INIT then Some (c_release ptr g)
      else
        (case take_lock g of
           (False, g1) \<Rightarrow> Some g1
         | (True, g1) \<Rightarrow>
             (case free_search_loop (node_at g1) ptr None cur of
                None \<Rightarrow> None
              | Some (prev, None) \<Rightarrow> Some (give_lock g1)
              | Some (prev, Some c) \<Rightarrow>
                  (let g2 = c_release ptr g1;
                       entry = node_at g2 c;
                       g3 = g2\<lparr>totalSize := totalSize g2 - al_size entry\<rparr>;
                       g4 = (case prev of
                               Some p \<Rightarrow> g3\<lparr>node_at := (node_at g3)(p := (node_at g3 p)\<lparr>al_next := al_next entry\<rparr>)\<rparr>
                             | None \<Rightarrow> g3\<lparr>head := al_next entry\<rparr>) in
                   Some (give_lock (c_release (Some c) g4))))))"

definition gballoc_free :: "nat option \<Rightarrow> gballoc \<Rightarrow> gballoc option" where
  "gballoc_free ptr g = gballoc_free_from (head g) ptr g"

text \<open>The queries share their guards.\<close>

definition locked_query :: "64 word \<Rightarrow> (gballoc \<Rightarrow> 64 word) \<Rightarrow> gballoc \<Rightarrow> 64 word \<times> gballoc" where
  "locked_query failed f g =
     (if gballocState g \<noteq> GBALLOC_STATE_INIT then (failed, g)
      else
        (case take_lock g of
           (False, g1) \<Rightarrow> (failed, g1)
         | (True, g1) \<Rightarrow> (f g1, give_lock g1)))"

definition gballoc_getMaximumMemoryUsed :: "gballoc \<Rightarrow> 64 word \<times> gballoc" where
  "gballoc_getMaximumMemoryUsed = locked_query (- 1) maxSize"

definition gballoc_getCurrentMemoryUsed :: "gballoc \<Rightarrow> 64 word \<times> gballoc" where
  "gballoc_getCurrentMemoryUsed = locked_query (- 1) totalSize"

definition gballoc_getAllocationCount :: "gballoc \<Rightarrow> 64 word \<times> gballoc" where
  "gballoc_getAllocationCount = locked_query 0 g_allocations"

definition gballoc_resetMetrics :: "gballoc \<Rightarrow> gballoc" where
  "gballoc_resetMetrics g =
     (if gballocState g \<noteq> GBALLOC_STATE_INIT then g
      else
        (case take_lock g of
           (False, g1) \<Rightarrow> g1
         | (True, g1) \<Rightarrow> give_lock (g1\<lparr>totalSize := 0, maxSize := 0, g_allocations := 0\<rparr>)))"

section \<open>The list of entries\<close>

fun node_path :: "(nat \<Rightarrow> ALLOCATION) \<Rightarrow> nat option \<Rightarrow> nat list \<Rightarrow> nat option \<Rightarrow> bool" where
  "node_path ns p [] q \<longleftrightarrow> p = q"
| "node_path ns p (a # as) q \<longleftrightarrow> p = Some a \<and> node_path ns (al_next (ns a)) as q"

lemma node_path_append: "node_path ns p (as @ bs) q \<longleftrightarrow> (\<exists>r. node_path ns p as r \<and> node_path ns r bs q)"
  by (induction as arbitrary: p) auto

lemma node_path_same: "\<forall>a \<in> set as. al_next (ns' a) = al_next (ns a) \<Longrightarrow> node_path ns' p as q = node_path ns p as q"
  by (induction as arbitrary: p) auto

lemma node_path_upd [simp]: "a \<notin> set as \<Longrightarrow> node_path (ns(a := x)) p as q = node_path ns p as q"
  by (rule node_path_same) auto

lemma find_allocation: "node_path ns p as None \<Longrightarrow> find_allocation_loop ns q p = Some (find (\<lambda>a. al_ptr (ns a) = q) as)"
  by (induction as arbitrary: p) (subst find_allocation_loop.simps; simp)+

lemma free_search_none:
  "node_path ns cur as None \<Longrightarrow> \<forall>a \<in> set as. Some (al_ptr (ns a)) \<noteq> ptr \<Longrightarrow>
     \<exists>prev'. free_search_loop ns ptr prev cur = Some (prev', None)"
  by (induction as arbitrary: cur prev) (subst free_search_loop.simps; force)+

lemma free_search_found:
  "node_path ns cur (bs @ c # cs) None \<Longrightarrow> \<forall>a \<in> set bs. Some (al_ptr (ns a)) \<noteq> ptr \<Longrightarrow> Some (al_ptr (ns c)) = ptr \<Longrightarrow>
     free_search_loop ns ptr prev cur = Some (if bs = [] then prev else Some (last bs), Some c)"
  by (induction bs arbitrary: cur prev) (subst free_search_loop.simps; force)+

text \<open>Taking an entry out of the list, as \<open>gballoc_free\<close> does.\<close>

lemma path_removed:
  assumes "node_path ns p (bs @ c # cs) None" and "distinct (bs @ c # cs)"
  shows "if bs = [] then node_path ns (al_next (ns c)) cs None
    else node_path (ns(last bs := (ns (last bs))\<lparr>al_next := al_next (ns c)\<rparr>)) p (bs @ cs) None"
proof (cases bs rule: rev_cases)
  case Nil
  then show ?thesis using assms by simp
next
  case (snoc as b)
  then show ?thesis using assms by (auto simp: node_path_append)
qed

section \<open>What the tracker keeps\<close>

definition entries_at :: "(nat \<Rightarrow> ALLOCATION) \<Rightarrow> nat list \<Rightarrow> (nat \<times> 64 word) list" where
  "entries_at ns as = map (\<lambda>a. (al_ptr (ns a), al_size (ns a))) as"

definition blocks_of :: "(nat \<Rightarrow> 64 word option) \<Rightarrow> nat list \<Rightarrow> (nat \<times> 64 word) list \<Rightarrow> nat \<Rightarrow> 64 word option" where
  "blocks_of base as L =
     (\<lambda>x. if x \<in> set as then Some size_of_ALLOCATION else case map_of L x of Some n \<Rightarrow> Some n | None \<Rightarrow> base x)"

lemma map_of_insert: "q \<notin> fst ` set Lb \<Longrightarrow> map_of (Lb @ (q, m) # Lc) = (map_of (Lb @ Lc))(q \<mapsto> m)"
  by (induction Lb) (auto simp: fun_upd_twist)

lemma blocks_of_add:
  "b \<notin> set as \<Longrightarrow> a \<noteq> b \<Longrightarrow> blocks_of base (a # as) ((b, n) # L) = (blocks_of base as L)(a \<mapsto> size_of_ALLOCATION, b \<mapsto> n)"
  by (auto simp: blocks_of_def)

lemma blocks_of_remove:
  assumes "q \<notin> fst ` set (Lb @ Lc)" "c \<notin> set (bs @ cs)" "c \<noteq> q" "base q = None" "base c = None"
    "q \<notin> set (bs @ cs)" "c \<notin> fst ` set (Lb @ Lc)"
  shows "(blocks_of base (bs @ c # cs) (Lb @ (q, m) # Lc))(q := None, c := None) = blocks_of base (bs @ cs) (Lb @ Lc)"
proof -
  have "map_of (Lb @ Lc) q = None" "map_of (Lb @ Lc) c = None" using assms(1,7) by (simp_all add: map_of_eq_None_iff image_Un)
  moreover have "map_of (Lb @ (q, m) # Lc) = (map_of (Lb @ Lc))(q \<mapsto> m)" using assms(1) by (intro map_of_insert) auto
  ultimately show ?thesis using assms by (intro ext) (simp add: blocks_of_def del: map_of_append)
qed

lemma blocks_of_change:
  assumes "q \<notin> fst ` set (Lb @ Lc)" "b = q \<or> b \<notin> set as \<and> b \<notin> fst ` set (Lb @ Lc)" "q \<notin> set as" "base q = None"
  shows "(blocks_of base as (Lb @ (q, m) # Lc))(q := None, b \<mapsto> n) = blocks_of base as (Lb @ (b, n) # Lc)"
proof -
  have "map_of (Lb @ Lc) q = None" using assms(1) by (simp add: map_of_eq_None_iff image_Un)
  moreover have "map_of (Lb @ (q, m) # Lc) = (map_of (Lb @ Lc))(q \<mapsto> m)" using assms(1) by (intro map_of_insert) auto
  moreover have "map_of (Lb @ (b, n) # Lc) = (map_of (Lb @ Lc))(b \<mapsto> n)" using assms(1,2) by (intro map_of_insert) auto
  ultimately show ?thesis using assms by (intro ext) (auto simp add: blocks_of_def simp del: map_of_append)
qed

text \<open>
  The nodes \<open>as\<close> hold the entries \<open>L\<close>, and the blocks that are out are those of \<open>g0\<close>, the nodes
  and the blocks of the entries, without overlap.
\<close>

definition tracks_at :: "gballoc \<Rightarrow> gballoc \<Rightarrow> nat list \<Rightarrow> (nat \<times> 64 word) list \<Rightarrow> bool" where
  "tracks_at g0 g as L \<longleftrightarrow>
     node_path (node_at g) (head g) as None \<and> entries_at (node_at g) as = L \<and> distinct (as @ map fst L) \<and>
     (\<forall>x \<in> set as \<union> fst ` set L. block_size g0 x = None) \<and>
     block_size g = blocks_of (block_size g0) as L \<and>
     gballocState g = GBALLOC_STATE_INIT \<and> \<not> lock_held g \<and> bad_frees g = bad_frees g0"

lemma tracks_fresh:
  assumes "tracks_at g0 g as L" and "block_size g a = None"
  shows "a \<notin> set as" and "a \<notin> fst ` set L" and "block_size g0 a = None"
  using assms
  by (auto simp: tracks_at_def blocks_of_def map_of_eq_None_iff split: if_splits option.splits)

lemma entries_at_same: "\<forall>a \<in> set as. al_ptr (ns' a) = al_ptr (ns a) \<and> al_size (ns' a) = al_size (ns a) \<Longrightarrow> entries_at ns' as = entries_at ns as"
  by (simp add: entries_at_def)

lemma tracks_cong:
  assumes "tracks_at g0 g as L" and "node_at g' = node_at g" "head g' = head g" "block_size g' = block_size g"
    "gballocState g' = gballocState g" "\<not> lock_held g'" "bad_frees g' = bad_frees g"
  shows "tracks_at g0 g' as L"
  using assms by (simp add: tracks_at_def)

lemma raise_maximum_fields [simp]:
  "node_at (raise_maximum g) = node_at g" "head (raise_maximum g) = head g" "block_size (raise_maximum g) = block_size g"
  "gballocState (raise_maximum g) = gballocState g" "bad_frees (raise_maximum g) = bad_frees g"
  "totalSize (raise_maximum g) = totalSize g" "maxSize (raise_maximum g) = max (maxSize g) (totalSize g)"
  "g_allocations (raise_maximum g) = g_allocations g"
  by (auto simp: raise_maximum_def max_def)

text \<open>A new entry in front, a changed entry, an entry taken out.\<close>

lemma tracks_add:
  assumes t: "tracks_at g0 g as L" and fresh: "block_size g a = None" "block_size g b = None" "a \<noteq> b"
    and g': "node_at g' = (node_at g)(a := \<lparr>al_size = n, al_ptr = b, al_next = head g\<rparr>)" "head g' = Some a"
      "block_size g' = (block_size g)(a \<mapsto> size_of_ALLOCATION, b \<mapsto> n)"
      "gballocState g' = gballocState g" "\<not> lock_held g'" "bad_frees g' = bad_frees g"
  shows "tracks_at g0 g' (a # as) ((b, n) # L)"
proof -
  note a = tracks_fresh [OF t fresh(1)] and b = tracks_fresh [OF t fresh(2)]
  have "entries_at ((node_at g)(a := \<lparr>al_size = n, al_ptr = b, al_next = head g\<rparr>)) (a # as) = (b, n) # L"
    using t a(1) by (auto simp: tracks_at_def entries_at_def)
  moreover have "block_size g' = blocks_of (block_size g0) (a # as) ((b, n) # L)"
    using t b(1) fresh(3) by (simp add: g'(3) tracks_at_def blocks_of_add)
  ultimately show ?thesis using t a b fresh(3) g'(2,4-6) by (auto simp: tracks_at_def g'(1))
qed

text \<open>The position of an entry in the list and of its node.\<close>

lemma tracks_split:
  assumes "tracks_at g0 g as L" and "(q, m) \<in> set L"
  obtains bs c cs Lb Lc where "as = bs @ c # cs" "L = Lb @ (q, m) # Lc" "entries_at (node_at g) bs = Lb"
    "entries_at (node_at g) cs = Lc" "al_ptr (node_at g c) = q" "al_size (node_at g c) = m"
    "\<forall>a \<in> set bs. al_ptr (node_at g a) \<noteq> q"
proof -
  have L: "map (\<lambda>a. (al_ptr (node_at g a), al_size (node_at g a))) as = L" "distinct (map fst L)"
    using assms(1) by (auto simp: tracks_at_def entries_at_def)
  obtain c where c: "c \<in> set as" "al_ptr (node_at g c) = q" "al_size (node_at g c) = m" using L assms(2) by auto
  obtain bs cs where as: "as = bs @ c # cs" using c(1) by (meson split_list)
  have "al_ptr (node_at g a) \<noteq> q" if "a \<in> set bs" for a
    using L(2) that c(2) unfolding L(1) [symmetric] as by (auto simp: image_iff comp_def)
  then show thesis using that [of bs c cs "entries_at (node_at g) bs" "entries_at (node_at g) cs"] as c L
    by (simp add: entries_at_def)
qed

lemma tracks_apart:
  assumes "tracks_at g0 g (bs @ c # cs) (Lb @ (q, m) # Lc)"
  shows "q \<notin> fst ` set (Lb @ Lc)" and "q \<notin> set (bs @ c # cs)" and "c \<notin> set (bs @ cs)" and "c \<notin> fst ` set (Lb @ Lc)"
    and "block_size g0 q = None" and "block_size g0 c = None"
proof -
  have d: "distinct ((bs @ c # cs) @ map fst (Lb @ (q, m) # Lc))" using assms by (simp add: tracks_at_def)
  show "q \<notin> fst ` set (Lb @ Lc)" "q \<notin> set (bs @ c # cs)" "c \<notin> set (bs @ cs)" "c \<notin> fst ` set (Lb @ Lc)"
    using d by (auto simp: image_Un)
  show "block_size g0 q = None" "block_size g0 c = None" using assms by (auto simp: tracks_at_def)
qed

lemma tracks_change:
  assumes t: "tracks_at g0 g (bs @ c # cs) (Lb @ (q, m) # Lc)"
    and entries: "entries_at (node_at g) bs = Lb" "entries_at (node_at g) cs = Lc"
    and new: "b = q \<or> block_size g b = None"
    and g': "node_at g' = (node_at g)(c := (node_at g c)\<lparr>al_ptr := b, al_size := n\<rparr>)" "head g' = head g"
      "block_size g' = (block_size g)(q := None, b \<mapsto> n)"
      "gballocState g' = gballocState g" "\<not> lock_held g'" "bad_frees g' = bad_frees g"
  shows "tracks_at g0 g' (bs @ c # cs) (Lb @ (b, n) # Lc)"
proof -
  have path: "node_path (node_at g') (head g') (bs @ c # cs) None"
    using t node_path_same [of "bs @ c # cs" "node_at g'" "node_at g"] by (simp add: tracks_at_def g')
  have "entries_at (node_at g') (bs @ c # cs) = Lb @ (b, n) # Lc"
    using t entries by (auto simp: tracks_at_def entries_at_def g')
  moreover have "b = q \<or> b \<notin> set (bs @ c # cs) \<and> b \<notin> fst ` set (Lb @ (q, m) # Lc) \<and> block_size g0 b = None"
    using new tracks_fresh [OF t, of b] by blast
  moreover have "block_size g' = blocks_of (block_size g0) (bs @ c # cs) (Lb @ (b, n) # Lc)"
    using t calculation(2) tracks_apart [OF t] blocks_of_change [of q Lb Lc b "bs @ c # cs" "block_size g0" m n]
    unfolding g'(3) by (auto simp: tracks_at_def)
  ultimately show ?thesis using t path g'(4-6) by (auto simp: tracks_at_def)
qed

lemma tracks_remove:
  assumes t: "tracks_at g0 g (bs @ c # cs) (Lb @ (q, m) # Lc)"
    and entries: "entries_at (node_at g) bs = Lb" "entries_at (node_at g) cs = Lc"
    and g': "if bs = [] then node_at g' = node_at g \<and> head g' = al_next (node_at g c)
        else node_at g' = (node_at g)(last bs := (node_at g (last bs))\<lparr>al_next := al_next (node_at g c)\<rparr>) \<and> head g' = head g"
      "block_size g' = (block_size g)(q := None, c := None)"
      "gballocState g' = gballocState g" "\<not> lock_held g'" "bad_frees g' = bad_frees g"
  shows "tracks_at g0 g' (bs @ cs) (Lb @ Lc)"
proof -
  have path: "node_path (node_at g') (head g') (bs @ cs) None"
  proof -
    have "node_path (node_at g) (head g) (bs @ c # cs) None" "distinct (bs @ c # cs)" using t by (auto simp: tracks_at_def)
    from path_removed [OF this] g'(1) show ?thesis by (cases "bs = []") simp_all
  qed
  have "entries_at (node_at g') (bs @ cs) = Lb @ Lc"
    using entries g'(1) by (auto simp: entries_at_def split: if_splits)
  moreover have "block_size g' = blocks_of (block_size g0) (bs @ cs) (Lb @ Lc)"
    using t tracks_apart [OF t] blocks_of_remove [of q Lb Lc c bs cs "block_size g0" m]
    unfolding g'(2) by (simp add: tracks_at_def)
  ultimately show ?thesis using t path g'(3-5) by (auto simp: tracks_at_def)
qed

section \<open>What each call does\<close>

lemma c_malloc_cases:
  assumes "c_malloc n m = (r, m')"
  obtains (refused) "r = None" "m' = m\<lparr>address_calls := Suc (address_calls m)\<rparr>"
  | (handed) a where "r = Some a" "block_size m a = None"
      "m' = m\<lparr>address_calls := Suc (address_calls m), block_size := (block_size m)(a \<mapsto> n)\<rparr>"
proof (cases "address_answer m (address_calls m)")
  case None
  then show ?thesis using assms refused by (simp add: c_malloc_def)
next
  case (Some a)
  then show ?thesis using assms refused handed [of a] by (cases "block_size m a") (simp_all add: c_malloc_def Let_def)
qed

lemma take_lock_cases:
  assumes "take_lock g = (ok, g1)"
  shows "ok = lock_answer g (lock_calls g)" and "g1 = g\<lparr>lock_calls := Suc (lock_calls g), lock_held := ok\<rparr>"
  using assms by (auto simp: take_lock_def Let_def)

text \<open>The totals are left alone, or one more block is counted.\<close>

definition not_counted :: "gballoc \<Rightarrow> gballoc \<Rightarrow> bool" where
  "not_counted g g' \<longleftrightarrow> totalSize g' = totalSize g \<and> maxSize g' = maxSize g \<and> g_allocations g' = g_allocations g"

definition counted_as :: "64 word \<Rightarrow> gballoc \<Rightarrow> gballoc \<Rightarrow> bool" where
  "counted_as new_total g g' \<longleftrightarrow>
     totalSize g' = new_total \<and> maxSize g' = max (maxSize g) new_total \<and> g_allocations g' = g_allocations g + 1"

lemma malloc_tracks:
  assumes t: "tracks_at g0 g as L" and run: "gballoc_malloc n g = (r, g')"
  shows "case r of
      None \<Rightarrow> tracks_at g0 g' as L \<and> not_counted g g'
    | Some a \<Rightarrow> (\<exists>b. tracks_at g0 g' (b # as) ((a, n) # L)) \<and> counted_as (totalSize g + n) g g'"
proof -
  have init: "gballocState g = GBALLOC_STATE_INIT" using t by (simp add: tracks_at_def)
  obtain ok g1 where lock: "take_lock g = (ok, g1)" by fastforce
  note g1 = take_lock_cases(2) [OF lock]
  show ?thesis
  proof (cases ok)
    case False
    then have "r = None" "g' = g1" using run init lock by (simp_all add: gballoc_malloc_def)
    then show ?thesis using False g1 tracks_cong [OF t, of g1] by (simp add: not_counted_def)
  next
    case True
    obtain r2 g2 where one: "c_malloc size_of_ALLOCATION g1 = (r2, g2)" by fastforce
    show ?thesis
      using one
    proof (cases rule: c_malloc_cases)
      case refused
      then have "r = None" "g' = give_lock g2" using run init lock one True by (simp_all add: gballoc_malloc_def)
      then show ?thesis using refused g1 tracks_cong [OF t, of g'] by (simp add: not_counted_def give_lock_def)
    next
      case node: (handed b)
      obtain r3 g3 where two: "c_malloc n g2 = (r3, g3)" by fastforce
      show ?thesis
        using two
      proof (cases rule: c_malloc_cases)
        case refused
        then have "r = None" and g': "g' = give_lock (c_release (Some b) g3)"
          using run init lock one two True node by (simp_all add: gballoc_malloc_def)
        moreover have "block_size g' = block_size g"
          using node refused g1 by (simp add: g' give_lock_def c_release_def fun_upd_idem)
        ultimately show ?thesis using node refused g1 tracks_cong [OF t, of g']
          by (simp add: not_counted_def give_lock_def c_release_def)
      next
        case block: (handed a)
        define g4 where "g4 = add_block b a n g3"
        have r: "r = Some a" and g': "g' = give_lock (raise_maximum
            (g4\<lparr>g_allocations := g_allocations g4 + 1, totalSize := totalSize g4 + n\<rparr>))"
          using run init lock one two True node block by (simp_all add: gballoc_malloc_def g4_def Let_def)
        have fields: "node_at g' = (node_at g)(b := \<lparr>al_size = n, al_ptr = a, al_next = head g\<rparr>)" "head g' = Some b"
          "block_size g' = (block_size g)(b \<mapsto> size_of_ALLOCATION, a \<mapsto> n)"
          "gballocState g' = gballocState g" "\<not> lock_held g'" "bad_frees g' = bad_frees g"
          using node block g1 by (simp_all add: g' g4_def give_lock_def add_block_def)
        have "a \<noteq> b" "block_size g a = None" "block_size g b = None" using node block g1 by (auto split: if_splits)
        then have "tracks_at g0 g' (b # as) ((a, n) # L)" using tracks_add [OF t _ _ _ fields] by simp
        moreover have "counted_as (totalSize g + n) g g'"
          using node block g1 by (simp add: counted_as_def g' g4_def give_lock_def add_block_def)
        ultimately show ?thesis using r by auto
      qed
    qed
  qed
qed

text \<open>\<open>gballoc_calloc\<close> is \<open>gballoc_malloc\<close> of the product, unless the product overflows.\<close>

lemma calloc_malloc: "unat k * unat n < 2 ^ 64 \<Longrightarrow> gballoc_calloc k n g = gballoc_malloc (k * n) g"
  by (simp add: gballoc_calloc_def gballoc_malloc_def c_calloc_def add_block_def Let_def split: prod.split option.split bool.split)

lemma calloc_tracks:
  assumes t: "tracks_at g0 g as L" and run: "gballoc_calloc k n g = (r, g')"
  shows "case r of
      None \<Rightarrow> tracks_at g0 g' as L \<and> not_counted g g'
    | Some a \<Rightarrow> (\<exists>b. tracks_at g0 g' (b # as) ((a, k * n) # L)) \<and> counted_as (totalSize g + k * n) g g'"
proof (cases "unat k * unat n < 2 ^ 64")
  case True
  then show ?thesis using malloc_tracks [OF t, of "k * n" r g'] run by (simp add: calloc_malloc)
next
  case False
  have init: "gballocState g = GBALLOC_STATE_INIT" using t by (simp add: tracks_at_def)
  obtain ok g1 where lock: "take_lock g = (ok, g1)" by fastforce
  note g1 = take_lock_cases(2) [OF lock]
  obtain r2 g2 where one: "c_malloc size_of_ALLOCATION g1 = (r2, g2)" by fastforce
  have over: "2 ^ 64 \<le> unat k * unat n" using False by simp
  have "r = None" and g': "g' = (if \<not> ok then g1 else give_lock (case r2 of None \<Rightarrow> g2 | Some b \<Rightarrow> c_release (Some b) g2))"
    using run init lock one over
    by (auto simp: gballoc_calloc_def c_calloc_def simp del: power_numeral split: option.splits bool.splits)
  moreover have "tracks_at g0 g' as L \<and> not_counted g g'"
    using one
  proof (cases rule: c_malloc_cases)
    case refused
    then show ?thesis using refused g1 tracks_cong [OF t, of g'] by (simp add: g' not_counted_def give_lock_def)
  next
    case node: (handed b)
    moreover have "block_size g' = block_size g"
      using node g1 by (simp add: g' give_lock_def c_release_def fun_upd_idem)
    ultimately show ?thesis using g1 tracks_cong [OF t, of g'] by (simp add: g' not_counted_def give_lock_def c_release_def)
  qed
  ultimately show ?thesis by simp
qed

lemma c_realloc_cases:
  assumes "c_realloc (Some p) n m = (r, m')" and "block_size m p \<noteq> None"
  obtains (refused) "r = None" "m' = m\<lparr>address_calls := Suc (address_calls m)\<rparr>"
  | (handed) b where "r = Some b" "b = p \<or> block_size m b = None"
      "m' = m\<lparr>address_calls := Suc (address_calls m), block_size := (block_size m)(p := None, b \<mapsto> n)\<rparr>"
proof (cases "address_answer m (address_calls m)")
  case None
  then show ?thesis using assms refused by (auto simp: c_realloc_def)
next
  case (Some b)
  then show ?thesis using assms refused handed [of b]
    by (cases "b = p \<or> block_size m b = None") (auto simp: c_realloc_def Let_def)
qed

text \<open>\<open>gballoc_realloc\<close> of a null pointer is \<open>gballoc_malloc\<close>.\<close>

lemma total_first: "g\<lparr>totalSize := x, g_allocations := y\<rparr> = (g :: gballoc)\<lparr>g_allocations := y, totalSize := x\<rparr>"
  by simp

lemma realloc_malloc: "gballocState g = GBALLOC_STATE_INIT \<Longrightarrow> gballoc_realloc None n g = Some (gballoc_malloc n g)"
  by (auto simp: gballoc_realloc_def gballoc_malloc_def c_realloc_def add_block_def Let_def add.commute total_first
      split: prod.splits option.splits bool.splits)

lemma find_none: "node_path ns p as None \<Longrightarrow> \<forall>a \<in> set as. al_ptr (ns a) \<noteq> q \<Longrightarrow> find_allocation_loop ns q p = Some None"
  by (simp add: find_allocation find_None_iff)

lemma find_first: "node_path ns p (bs @ c # cs) None \<Longrightarrow> \<forall>a \<in> set bs. al_ptr (ns a) \<noteq> q \<Longrightarrow> al_ptr (ns c) = q \<Longrightarrow>
    find_allocation_loop ns q p = Some (Some c)"
proof (subst find_allocation, assumption)
  show "\<forall>a \<in> set bs. al_ptr (ns a) \<noteq> q \<Longrightarrow> al_ptr (ns c) = q \<Longrightarrow> Some (find (\<lambda>a. al_ptr (ns a) = q) (bs @ c # cs)) = Some (Some c)"
    by (induction bs) auto
qed

lemma tracks_untracked:
  "tracks_at g0 g as L \<Longrightarrow> q \<notin> fst ` set L \<Longrightarrow> \<forall>a \<in> set as. al_ptr (node_at g a) \<noteq> q"
  by (auto simp: tracks_at_def entries_at_def image_image)

lemma realloc_tracks:
  assumes t: "tracks_at g0 g as L"
  shows "\<exists>r g'. gballoc_realloc (Some q) n g = Some (r, g') \<and>
    (case r of
       None \<Rightarrow> tracks_at g0 g' as L \<and> not_counted g g'
     | Some b \<Rightarrow> \<exists>m Lb Lc. L = Lb @ (q, m) # Lc \<and> tracks_at g0 g' as (Lb @ (b, n) # Lc) \<and>
         counted_as (totalSize g - m + n) g g')"
proof -
  have init: "gballocState g = GBALLOC_STATE_INIT" and path: "node_path (node_at g) (head g) as None"
    using t by (simp_all add: tracks_at_def)
  obtain ok g1 where lock: "take_lock g = (ok, g1)" by fastforce
  note g1 = take_lock_cases(2) [OF lock]
  show ?thesis
  proof (cases "ok \<and> q \<in> fst ` set L")
    case False
    then have "gballoc_realloc (Some q) n g = Some (None, if ok then give_lock g1 else g1)"
      using init lock g1 find_none [OF path tracks_untracked [OF t]] by (auto simp: gballoc_realloc_def)
    moreover have "tracks_at g0 (if ok then give_lock g1 else g1) as L" "not_counted g (if ok then give_lock g1 else g1)"
      using g1 tracks_cong [OF t, of "if ok then give_lock g1 else g1"] by (simp_all add: give_lock_def not_counted_def)
    ultimately show ?thesis by auto
  next
    case True
    then obtain m where "(q, m) \<in> set L" by auto
    from t this obtain bs c cs Lb Lc where at: "as = bs @ c # cs" "L = Lb @ (q, m) # Lc"
      "entries_at (node_at g) bs = Lb" "entries_at (node_at g) cs = Lc" "al_ptr (node_at g c) = q" "al_size (node_at g c) = m"
      "\<forall>a \<in> set bs. al_ptr (node_at g a) \<noteq> q"
      by (rule tracks_split)
    have found: "find_allocation_loop (node_at g1) q (head g1) = Some (Some c)"
      using find_first [OF path [unfolded at(1)] at(7,5)] g1 by simp
    have "block_size g q \<noteq> None" using t \<open>(q, m) \<in> set L\<close>
      by (auto simp: tracks_at_def blocks_of_def map_of_eq_None_iff split: option.split)
    then have held: "block_size g1 q \<noteq> None" using g1 by simp
    obtain r2 g2 where two: "c_realloc (Some q) n g1 = (r2, g2)" by fastforce
    show ?thesis
      using two held
    proof (cases rule: c_realloc_cases)
      case refused
      then have "gballoc_realloc (Some q) n g = Some (None, give_lock g2)"
        using init lock True found two by (simp add: gballoc_realloc_def)
      then show ?thesis using refused g1 tracks_cong [OF t, of "give_lock g2"] by (simp add: give_lock_def not_counted_def)
    next
      case (handed b)
      define g3 where "g3 = g2\<lparr>node_at := (node_at g2)(c := (node_at g2 c)\<lparr>al_ptr := b, al_size := n\<rparr>),
        totalSize := totalSize g2 - m + n, g_allocations := g_allocations g2 + 1\<rparr>"
      have run: "gballoc_realloc (Some q) n g = Some (Some b, give_lock (raise_maximum g3))"
        using init lock True found two handed(1) at(6) handed(3) g1 by (simp add: gballoc_realloc_def g3_def Let_def)
      have fields: "node_at (give_lock (raise_maximum g3)) = (node_at g)(c := (node_at g c)\<lparr>al_ptr := b, al_size := n\<rparr>)"
        "head (give_lock (raise_maximum g3)) = head g"
        "block_size (give_lock (raise_maximum g3)) = (block_size g)(q := None, b \<mapsto> n)"
        "gballocState (give_lock (raise_maximum g3)) = gballocState g" "\<not> lock_held (give_lock (raise_maximum g3))"
        "bad_frees (give_lock (raise_maximum g3)) = bad_frees g"
        using handed g1 by (simp_all add: g3_def give_lock_def)
      have "b = q \<or> block_size g b = None" using handed(2) g1 by simp
      then have "tracks_at g0 (give_lock (raise_maximum g3)) as (Lb @ (b, n) # Lc)"
        using tracks_change [OF t [unfolded at(1,2)] at(3,4) _ fields] at(1) by simp
      moreover have "counted_as (totalSize g - m + n) g (give_lock (raise_maximum g3))"
        using handed g1 by (simp add: g3_def give_lock_def counted_as_def)
      ultimately show ?thesis using run at(2) by auto
    qed
  qed
qed

lemma free_tracks:
  assumes t: "tracks_at g0 g as L"
  shows "\<exists>g'. gballoc_free ptr g = Some g' \<and> maxSize g' = maxSize g \<and> g_allocations g' = g_allocations g \<and>
    (if lock_answer g (lock_calls g) \<and> ptr \<in> Some ` fst ` set L
     then \<exists>q m Lb Lc as'. ptr = Some q \<and> L = Lb @ (q, m) # Lc \<and> tracks_at g0 g' as' (Lb @ Lc) \<and>
       totalSize g' = totalSize g - m
     else tracks_at g0 g' as L \<and> totalSize g' = totalSize g)"
proof -
  have init: "gballocState g = GBALLOC_STATE_INIT" and path: "node_path (node_at g) (head g) as None"
    using t by (simp_all add: tracks_at_def)
  obtain ok g1 where lock: "take_lock g = (ok, g1)" by fastforce
  note g1 = take_lock_cases [OF lock]
  show ?thesis
  proof (cases "ok \<and> ptr \<in> Some ` fst ` set L")
    case False
    have "\<forall>a \<in> set as. Some (al_ptr (node_at g a)) \<noteq> ptr" if ok
      using False that tracks_untracked [OF t] by (cases ptr) (auto simp: image_iff)
    then have "gballoc_free ptr g = Some (if ok then give_lock g1 else g1)"
      using init lock g1(2) free_search_none [OF path, of ptr None]
      by (cases ok) (auto simp: gballoc_free_def gballoc_free_from_def)
    then show ?thesis using False g1 tracks_cong [OF t, of "if ok then give_lock g1 else g1"] by (auto simp: give_lock_def)
  next
    case True
    then obtain q m where q: "ptr = Some q" "(q, m) \<in> set L" by auto
    from t q(2) obtain bs c cs Lb Lc where at: "as = bs @ c # cs" "L = Lb @ (q, m) # Lc"
      "entries_at (node_at g) bs = Lb" "entries_at (node_at g) cs = Lc" "al_ptr (node_at g c) = q" "al_size (node_at g c) = m"
      "\<forall>a \<in> set bs. al_ptr (node_at g a) \<noteq> q"
      by (rule tracks_split)
    have found: "free_search_loop (node_at g1) ptr None (head g) = Some (if bs = [] then None else Some (last bs), Some c)"
      using free_search_found [OF path [unfolded at(1)], of ptr None] at(5,7) q(1) g1(2) by simp
    have "block_size g q \<noteq> None" "block_size g c \<noteq> None" and neq: "c \<noteq> q"
      using t q(2) tracks_apart [OF t [unfolded at(1,2)]]
      by (auto simp: tracks_at_def blocks_of_def map_of_eq_None_iff at(1) split: option.split)
    then obtain x y where blocks: "block_size g q = Some x" "block_size g c = Some y" by auto
    define g2 where "g2 = g1\<lparr>block_size := (block_size g)(q := None, c := None), totalSize := totalSize g - m,
      head := (if bs = [] then al_next (node_at g c) else head g), lock_held := False,
      node_at := (if bs = [] then node_at g
        else (node_at g)(last bs := (node_at g (last bs))\<lparr>al_next := al_next (node_at g c)\<rparr>))\<rparr>"
    have run: "gballoc_free ptr g = Some g2"
      using init lock True found blocks neq q(1) at(6) g1(2)
      by (cases "bs = []") (simp_all add: gballoc_free_def gballoc_free_from_def Let_def c_release_def give_lock_def g2_def)
    have "tracks_at g0 g2 (bs @ cs) (Lb @ Lc)"
      by (rule tracks_remove [OF t [unfolded at(1,2)] at(3,4)]) (simp_all add: g2_def g1(2))
    moreover have "totalSize g2 = totalSize g - m" "maxSize g2 = maxSize g" "g_allocations g2 = g_allocations g"
      by (simp_all add: g2_def g1(2))
    moreover have "lock_answer g (lock_calls g) \<and> ptr \<in> Some ` fst ` set L" using True g1(1) by simp
    ultimately show ?thesis unfolding run using at(2) q(1) by (intro exI [of _ g2]) (simp only: simp_thms if_True, blast)
  qed
qed

section \<open>Runs of the tracker\<close>

text \<open>
  What the users of the tracker know: the blocks that are out with the sizes they asked for, the
  sum at the last reset of the metrics, the highest total and the number of blocks granted since.
\<close>

record session =
  blocks_out :: "(nat \<times> 64 word) list"
  sum_at_reset :: "64 word"
  peak :: "64 word"
  grants :: "64 word"

definition total_of :: "session \<Rightarrow> 64 word" where
  "total_of s = sum_list (map snd (blocks_out s)) - sum_at_reset s"

definition new_session :: session where
  "new_session = \<lparr>blocks_out = [], sum_at_reset = 0, peak = 0, grants = 0\<rparr>"

definition granted_with :: "(nat \<times> 64 word) list \<Rightarrow> session \<Rightarrow> session" where
  "granted_with L s = (let s1 = s\<lparr>blocks_out := L\<rparr> in s1\<lparr>peak := max (peak s) (total_of s1), grants := grants s + 1\<rparr>)"

definition answered :: "nat option \<Rightarrow> (nat \<Rightarrow> (nat \<times> 64 word) list) \<Rightarrow> session \<Rightarrow> session" where
  "answered r L s = (case r of None \<Rightarrow> s | Some a \<Rightarrow> granted_with (L a) s)"

inductive tracker_run :: "gballoc \<Rightarrow> gballoc \<Rightarrow> session \<Rightarrow> bool" for g0 where
  run_init: "gballoc_init g0 = (True, g) \<Longrightarrow> head g0 = None \<Longrightarrow> \<not> lock_held g0 \<Longrightarrow> tracker_run g0 g new_session"
| run_malloc: "tracker_run g0 g s \<Longrightarrow> gballoc_malloc n g = (r, g') \<Longrightarrow>
    tracker_run g0 g' (answered r (\<lambda>a. (a, n) # blocks_out s) s)"
| run_calloc: "tracker_run g0 g s \<Longrightarrow> gballoc_calloc k n g = (r, g') \<Longrightarrow>
    tracker_run g0 g' (answered r (\<lambda>a. (a, k * n) # blocks_out s) s)"
| run_realloc: "tracker_run g0 g s \<Longrightarrow> gballoc_realloc p n g = Some (r, g') \<Longrightarrow>
    tracker_run g0 g' (answered r (\<lambda>a. case p of
        None \<Rightarrow> (a, n) # blocks_out s
      | Some q \<Rightarrow> map (\<lambda>e. if fst e = q then (a, n) else e) (blocks_out s)) s)"
| run_free: "tracker_run g0 g s \<Longrightarrow> gballoc_free p g = Some g' \<Longrightarrow>
    tracker_run g0 g'
      (if lock_answer g (lock_calls g) then s\<lparr>blocks_out := filter (\<lambda>e. Some (fst e) \<noteq> p) (blocks_out s)\<rparr> else s)"
| run_query: "tracker_run g0 g s \<Longrightarrow> tracker_run g0 (snd (locked_query v f g)) s"
| run_reset: "tracker_run g0 g s \<Longrightarrow>
    tracker_run g0 (gballoc_resetMetrics g)
      (if lock_answer g (lock_calls g)
       then s\<lparr>sum_at_reset := sum_list (map snd (blocks_out s)), peak := 0, grants := 0\<rparr> else s)"

definition metrics_of :: "gballoc \<Rightarrow> session \<Rightarrow> bool" where
  "metrics_of g s \<longleftrightarrow> totalSize g = total_of s \<and> maxSize g = peak s \<and> g_allocations g = grants s"

lemma metrics_not_counted: "metrics_of g s \<Longrightarrow> not_counted g g' \<Longrightarrow> metrics_of g' s"
  by (simp add: metrics_of_def not_counted_def)

lemma metrics_counted:
  "metrics_of g s \<Longrightarrow> counted_as (sum_list (map snd L) - sum_at_reset s) g g' \<Longrightarrow> metrics_of g' (granted_with L s)"
  by (simp add: metrics_of_def counted_as_def granted_with_def total_of_def Let_def)

lemma answered_new:
  assumes m: "metrics_of g s"
    and call: "case r of
      None \<Rightarrow> tracks_at g0 g' as (blocks_out s) \<and> not_counted g g'
    | Some a \<Rightarrow> (\<exists>b. tracks_at g0 g' (b # as) ((a, x) # blocks_out s)) \<and> counted_as (totalSize g + x) g g'"
  defines "s' \<equiv> answered r (\<lambda>a. (a, x) # blocks_out s) s"
  shows "(\<exists>as. tracks_at g0 g' as (blocks_out s')) \<and> metrics_of g' s'"
proof (cases r)
  case None
  then show ?thesis using call metrics_not_counted [OF m] by (auto simp: answered_def s'_def)
next
  case (Some a)
  have total: "sum_list (map snd ((a, x) # blocks_out s)) - sum_at_reset s = totalSize g + x"
    using m by (simp add: metrics_of_def total_of_def)
  have "counted_as (sum_list (map snd ((a, x) # blocks_out s)) - sum_at_reset s) g g'"
    unfolding total using call Some by simp
  from metrics_counted [OF m this] show ?thesis
    using call Some by (auto simp: answered_def s'_def granted_with_def Let_def)
qed

lemma entry_replaced:
  "distinct (map fst (Lb @ (q, m) # Lc)) \<Longrightarrow>
     map (\<lambda>e. if fst e = q then (b, n) else e) (Lb @ (q, m) # Lc) = Lb @ (b, n) # Lc"
  by (auto intro!: map_idI simp: rev_image_eqI)

lemma entry_filtered:
  "distinct (map fst (Lb @ (q, m) # Lc)) \<Longrightarrow> filter (\<lambda>e. fst e \<noteq> q) (Lb @ (q, m) # Lc) = Lb @ Lc"
proof -
  assume d: "distinct (map fst (Lb @ (q, m) # Lc))"
  have "filter (\<lambda>e. fst e \<noteq> q) Lb = Lb" "filter (\<lambda>e. fst e \<noteq> q) Lc = Lc"
    using d by (auto simp: filter_id_conv rev_image_eqI)
  then show ?thesis by simp
qed

lemma tracks_distinct: "tracks_at g0 g as L \<Longrightarrow> distinct (map fst L)"
  by (simp add: tracks_at_def)

lemma run_tracks: "tracker_run g0 g s \<Longrightarrow> (\<exists>as. tracks_at g0 g as (blocks_out s)) \<and> metrics_of g s"
proof (induction rule: tracker_run.induct)
  case (run_init g)
  then have "g = g0\<lparr>gballocThreadSafeLock := True, gballocState := GBALLOC_STATE_INIT, totalSize := 0, maxSize := 0, g_allocations := 0\<rparr>"
    by (auto simp: gballoc_init_def split: if_splits)
  then have "tracks_at g0 g [] []" using run_init by (auto simp: tracks_at_def entries_at_def blocks_of_def)
  then show ?case using run_init
    by (auto simp: new_session_def metrics_of_def total_of_def gballoc_init_def split: if_splits)
next
  case (run_malloc g s n r g')
  then show ?case using answered_new malloc_tracks by blast
next
  case (run_calloc g s k n r g')
  then show ?case using answered_new calloc_tracks by blast
next
  case (run_realloc g s p n r g')
  then obtain as where t: "tracks_at g0 g as (blocks_out s)" and m: "metrics_of g s" by blast
  show ?case
  proof (cases p)
    case None
    then have "gballoc_malloc n g = (r, g')" using run_realloc.hyps(2) realloc_malloc t by (simp add: tracks_at_def)
    then show ?thesis using answered_new [OF m malloc_tracks [OF t]] None by simp
  next
    case (Some q)
    note did = realloc_tracks [OF t, of q n]
    show ?thesis
    proof (cases r)
      case None
      then show ?thesis using did run_realloc.hyps(2) Some t metrics_not_counted [OF m] by (auto simp: answered_def)
    next
      case (Some b)
      then obtain k Lb Lc where L: "blocks_out s = Lb @ (q, k) # Lc" "tracks_at g0 g' as (Lb @ (b, n) # Lc)"
        "counted_as (totalSize g - k + n) g g'"
        using did run_realloc.hyps(2) \<open>p = Some q\<close> by auto
      have L': "map (\<lambda>e. if fst e = q then (b, n) else e) (blocks_out s) = Lb @ (b, n) # Lc"
        using entry_replaced [of Lb q k Lc b n] tracks_distinct [OF t] unfolding L(1) by blast
      have total: "sum_list (map snd (Lb @ (b, n) # Lc)) - sum_at_reset s = totalSize g - k + n"
        using L(1) m by (simp add: metrics_of_def total_of_def)
      have "counted_as (sum_list (map snd (Lb @ (b, n) # Lc)) - sum_at_reset s) g g'"
        unfolding total by (rule L(3))
      from metrics_counted [OF m this] show ?thesis
        using L(2) L' Some \<open>p = Some q\<close> by (auto simp: answered_def granted_with_def Let_def)
    qed
  qed
next
  case (run_free g s p g')
  then obtain as where t: "tracks_at g0 g as (blocks_out s)" and m: "metrics_of g s" by blast
  note did = free_tracks [OF t, of p]
  show ?case
  proof (cases "lock_answer g (lock_calls g) \<and> p \<in> Some ` fst ` set (blocks_out s)")
    case True
    then obtain q k Lb Lc as' where L: "p = Some q" "blocks_out s = Lb @ (q, k) # Lc" "tracks_at g0 g' as' (Lb @ Lc)"
      "totalSize g' = totalSize g - k" "maxSize g' = maxSize g" "g_allocations g' = g_allocations g"
      using did run_free.hyps(2) by auto
    have "filter (\<lambda>e. Some (fst e) \<noteq> p) (blocks_out s) = Lb @ Lc"
      using entry_filtered [of Lb q k Lc] tracks_distinct [OF t] L(1,2) by simp
    moreover have "totalSize g' = sum_list (map snd (Lb @ Lc)) - sum_at_reset s"
      using L(2,4) m by (simp add: metrics_of_def total_of_def)
    ultimately show ?thesis using True L m by (auto simp: metrics_of_def total_of_def)
  next
    case False
    then have "tracks_at g0 g' as (blocks_out s)" "metrics_of g' s"
      using did run_free.hyps(2) m by (auto simp: metrics_of_def)
    moreover have "filter (\<lambda>e. Some (fst e) \<noteq> p) (blocks_out s) = blocks_out s" if "lock_answer g (lock_calls g)"
      using False that by (auto simp: filter_id_conv)
    ultimately show ?thesis by (auto simp: metrics_of_def total_of_def)
  qed
next
  case (run_query g s v f)
  then obtain as where t: "tracks_at g0 g as (blocks_out s)" and m: "metrics_of g s" by blast
  have "tracks_at g0 (snd (locked_query v f g)) as (blocks_out s)"
    using t by (rule tracks_cong)
      (simp_all add: locked_query_def take_lock_def give_lock_def Let_def t [unfolded tracks_at_def] split: bool.split)
  moreover have "metrics_of (snd (locked_query v f g)) s"
    using m by (simp add: locked_query_def take_lock_def give_lock_def metrics_of_def Let_def split: bool.split)
  ultimately show ?case by blast
next
  case (run_reset g s)
  then obtain as where t: "tracks_at g0 g as (blocks_out s)" and m: "metrics_of g s" by blast
  have init: "gballocState g = GBALLOC_STATE_INIT" "\<not> lock_held g" using t by (simp_all add: tracks_at_def)
  have "tracks_at g0 (gballoc_resetMetrics g) as (blocks_out s)"
    using t by (rule tracks_cong)
      (simp_all add: gballoc_resetMetrics_def take_lock_def give_lock_def init Let_def split: bool.split)
  then show ?case
    using m init by (auto simp: gballoc_resetMetrics_def take_lock_def give_lock_def metrics_of_def total_of_def Let_def split: bool.splits)
qed

text \<open>C30: In any run from the initialisation the tracker reports exactly what its users hold: the
  current usage is the sum of the sizes of the blocks that are out (less the sum at the last
  reset of the metrics) and the maximum is the highest such total, both modulo the word size; both
  are -1, and the count is 0, when the lock cannot be taken. Every block that is out is live with its size, no call
  ever hands a bad pointer to the C library, every call returns, and once all blocks are given
  back the memory is as it was.\<close>

theorem tracker_exact:
  assumes "tracker_run g0 g s"
  shows "(if lock_answer g (lock_calls g)
      then fst (gballoc_getCurrentMemoryUsed g) = sum_list (map snd (blocks_out s)) - sum_at_reset s \<and>
        fst (gballoc_getMaximumMemoryUsed g) = peak s
      else fst (gballoc_getCurrentMemoryUsed g) = - 1 \<and> fst (gballoc_getMaximumMemoryUsed g) = - 1 \<and>
        fst (gballoc_getAllocationCount g) = 0) \<and>
    distinct (map fst (blocks_out s)) \<and> (\<forall>(a, n) \<in> set (blocks_out s). block_size g a = Some n) \<and>
    bad_frees g = bad_frees g0 \<and> \<not> lock_held g \<and>
    (\<forall>p n. gballoc_realloc p n g \<noteq> None \<and> gballoc_free p g \<noteq> None) \<and>
    (blocks_out s = [] \<longrightarrow> block_size g = block_size g0)"
proof (intro conjI allI impI)
  obtain as where t: "tracks_at g0 g as (blocks_out s)" and m: "metrics_of g s" using run_tracks [OF assms] by blast
  note facts = t [unfolded tracks_at_def]
  show "if lock_answer g (lock_calls g)
      then fst (gballoc_getCurrentMemoryUsed g) = sum_list (map snd (blocks_out s)) - sum_at_reset s \<and>
        fst (gballoc_getMaximumMemoryUsed g) = peak s
      else fst (gballoc_getCurrentMemoryUsed g) = - 1 \<and> fst (gballoc_getMaximumMemoryUsed g) = - 1 \<and>
        fst (gballoc_getAllocationCount g) = 0"
    using m facts by (simp add: gballoc_getCurrentMemoryUsed_def gballoc_getMaximumMemoryUsed_def
        gballoc_getAllocationCount_def locked_query_def take_lock_def metrics_of_def total_of_def Let_def)
  show "distinct (map fst (blocks_out s))" "bad_frees g = bad_frees g0" "\<not> lock_held g" using facts by simp_all
  show "\<forall>(a, n) \<in> set (blocks_out s). block_size g a = Some n"
  proof clarify
    fix a n assume e: "(a, n) \<in> set (blocks_out s)"
    have "a \<notin> set as" using facts e by (auto simp: rev_image_eqI disjoint_iff)
    then show "block_size g a = Some n" using facts e by (simp add: blocks_of_def)
  qed
  show "gballoc_free p g \<noteq> None" for p using free_tracks [OF t, of p] by auto
  show "gballoc_realloc p n g \<noteq> None" for p n
    using realloc_tracks [OF t, of "the p" n] realloc_malloc [of g n] facts by (cases p) auto
  show "block_size g = block_size g0" if "blocks_out s = []"
    using facts that by (auto simp: entries_at_def blocks_of_def)
qed

text \<open>A tracker over a C library that grants every request with a new address.\<close>

definition gballoc0 :: gballoc where
  "gballoc0 = \<lparr>block_size = (\<lambda>_. None), node_at = (\<lambda>_. \<lparr>al_size = 0, al_ptr = 0, al_next = None\<rparr>),
     address_answer = Some, address_calls = 0, bad_frees = 0, head = None, totalSize = 0, maxSize = 0,
     g_allocations = 0, gballocState = GBALLOC_STATE_NOT_INIT, gballocThreadSafeLock = False,
     lock_init_answer = True, lock_answer = (\<lambda>_. True), lock_calls = 0, lock_held = False\<rparr>"

theorem tracker_exact_witness:
  "\<exists>g. tracker_run gballoc0 g \<lparr>blocks_out = [(3, 7)], sum_at_reset = 0, peak = 12, grants = 2\<rparr> \<and>
     fst (gballoc_getCurrentMemoryUsed g) = 7 \<and> fst (gballoc_getMaximumMemoryUsed g) = 12"
proof -
  define g1 where "g1 = snd (gballoc_init gballoc0)"
  define g2 where "g2 = snd (gballoc_malloc 5 g1)"
  define g3 where "g3 = snd (gballoc_malloc 7 g2)"
  have "fst (gballoc_init gballoc0)" "fst (gballoc_malloc 5 g1) = Some 1" "fst (gballoc_malloc 7 g2) = Some 3"
    unfolding g1_def g2_def by (code_simp, code_simp, code_simp)
  then have one: "gballoc_init gballoc0 = (True, g1)" "gballoc_malloc 5 g1 = (Some 1, g2)" "gballoc_malloc 7 g2 = (Some 3, g3)"
    by (simp_all add: g1_def g2_def g3_def prod_eq_iff)
  have "tracker_run gballoc0 g1 new_session" by (rule run_init [OF one(1)]) (simp_all add: gballoc0_def)
  from run_malloc [OF run_malloc [OF this one(2)] one(3)]
  have run: "tracker_run gballoc0 g3 \<lparr>blocks_out = [(3, 7), (1, 5)], sum_at_reset = 0, peak = 12, grants = 2\<rparr>"
    by (simp add: answered_def granted_with_def new_session_def total_of_def Let_def)
  have "case gballoc_free (Some 1) g3 of None \<Rightarrow> False
      | Some g' \<Rightarrow> lock_answer g' (lock_calls g') \<and> lock_answer g3 (lock_calls g3)"
    unfolding g1_def g2_def g3_def by code_simp
  then obtain g4 where g4: "gballoc_free (Some 1) g3 = Some g4" "lock_answer g4 (lock_calls g4)" "lock_answer g3 (lock_calls g3)"
    by (auto split: option.splits)
  have final: "tracker_run gballoc0 g4 \<lparr>blocks_out = [(3, 7)], sum_at_reset = 0, peak = 12, grants = 2\<rparr>"
    using run_free [OF run g4(1)] g4(3) by simp
  then show ?thesis using tracker_exact [OF final] g4(2) by (intro exI [of _ g4]) simp
qed

section \<open>Where the code falls short\<close>

text \<open>The count of allocations is that of the granted requests since the metrics were reset: it does
  not go down when a block is freed, so it is not the current number of allocations.\<close>

lemma allocation_count:
  assumes "tracker_run g0 g s" and "lock_answer g (lock_calls g)"
  shows "fst (gballoc_getAllocationCount g) = grants s"
proof -
  obtain as where "tracks_at g0 g as (blocks_out s)" "metrics_of g s" using run_tracks [OF assms(1)] by blast
  then show ?thesis
    using assms(2) by (simp add: tracks_at_def gballoc_getAllocationCount_def locked_query_def take_lock_def metrics_of_def Let_def)
qed

lemma allocation_count_not_current:
  "case gballoc_free (Some 1) (snd (gballoc_malloc 5 (snd (gballoc_init gballoc0)))) of
     None \<Rightarrow> False
   | Some g \<Rightarrow> fst (gballoc_getAllocationCount g) = 1 \<and> fst (gballoc_getCurrentMemoryUsed g) = 0"
  by code_simp

text \<open>The metrics can be reset while blocks are out: freeing one then wraps the total around, and
  the next request makes the wrapped total the maximum.\<close>

lemma reset_wraps_total:
  "case gballoc_free (Some 1) (gballoc_resetMetrics (snd (gballoc_malloc 5 (snd (gballoc_init gballoc0))))) of
     None \<Rightarrow> False
   | Some g \<Rightarrow>
       fst (gballoc_getCurrentMemoryUsed g) = - 5 \<and> fst (gballoc_getMaximumMemoryUsed (snd (gballoc_malloc 1 g))) = - 4"
  by code_simp

text \<open>The head of the list is read before the lock is taken. When another thread frees the first
  block in between, the walk starts in a freed node, its link is written, and the list keeps an
  entry that has been freed.\<close>

lemma free_races:
  "let g = snd (gballoc_malloc 7 (snd (gballoc_malloc 5 (snd (gballoc_init gballoc0)))));
       start = head g in
   case gballoc_free (Some 3) g of
     None \<Rightarrow> False
   | Some other \<Rightarrow>
       block_size other (the start) = None \<and>
       (case gballoc_free_from start (Some 1) other of
          None \<Rightarrow> False
        | Some g' \<Rightarrow> (case head g' of None \<Rightarrow> False | Some a \<Rightarrow> block_size g' a = None))"
  by code_simp

end
