(* ===== verification/HttpProxyIo.thy ===== *)
theory HttpProxyIo
  imports Uws_Create
begin

text \<open>
  The HTTP proxy IO of \<open>src/http_proxy_io.c\<close>: it opens an underlying IO to the proxy, sends a
  CONNECT request, waits for the end of the response and then is a tunnel. The world is the
  instance with its environment, as for the WebSocket client. The file has its own copies of
  \<open>ParseStringToDecimal\<close> and \<open>ParseHttpResponse\<close>, with the text of those in \<open>uws_client.c\<close>; the
  definitions of \<open>Uws_Receive\<close> stand for both.
\<close>

section \<open>The state\<close>

datatype HTTP_PROXY_IO_STATE =
    HTTP_PROXY_IO_STATE_CLOSED | HTTP_PROXY_IO_STATE_OPENING_UNDERLYING_IO
  | HTTP_PROXY_IO_STATE_WAITING_FOR_CONNECT_RESPONSE | HTTP_PROXY_IO_STATE_OPEN
  | HTTP_PROXY_IO_STATE_CLOSING | HTTP_PROXY_IO_STATE_ERROR

record HTTP_PROXY_IO_CONFIG =
  config_hostname :: cptr
  config_port :: "32 word"
  config_proxy_hostname :: cptr
  config_proxy_port :: "32 word"
  config_username :: cptr
  config_password :: cptr
  config_enable_ipv6 :: bool

record HTTP_PROXY_IO_INSTANCE =
  http_proxy_io_state :: HTTP_PROXY_IO_STATE
  on_bytes_received :: callback
  on_io_error :: callback
  on_io_open_complete :: callback
  on_io_close_complete :: callback
  target_hostname :: "char list"
  target_port :: "32 word"
  proxy_hostname :: "char list"
  proxy_port :: "32 word"
  proxy_username :: "char list option"
  proxy_password :: "char list option"
  receive_buffer :: "byte list option"
  receive_buffer_size :: nat
  proxy_open_start_time :: int
  proxy_last_open_wait_log_time :: int

text \<open>What an observer sees; \<open>Null_Callback\<close> is the call of a null function pointer.\<close>

datatype proxy_event =
    Open_Complete nat IO_OPEN_RESULT detail_code
  | Bytes_Received nat "byte list"
  | Io_Error nat
  | Close_Complete nat
  | Under_Open
  | Under_Close
  | Under_Send "byte list" callback
  | Under_Dowork
  | Under_Set_Option "char list"
  | Under_Destroy
  | Null_Callback

record proxy_world = HTTP_PROXY_IO_INSTANCE +
  proxy_heap :: heap
  proxy_errno :: int
  proxy_time :: "nat \<Rightarrow> int"
  proxy_time_reads :: nat
  under_open_answer :: "nat \<Rightarrow> rc \<times> (IO_OPEN_RESULT \<times> int) option"
  under_close_answer :: "nat \<Rightarrow> rc \<times> bool"
  under_send_answer :: "nat \<Rightarrow> rc"
  under_option_answer :: "nat \<Rightarrow> rc"
  under_calls :: nat
  proxy_events :: "proxy_event list"

definition note_event :: "proxy_event \<Rightarrow> proxy_world \<Rightarrow> proxy_world" where
  "note_event e w = w\<lparr>proxy_events := proxy_events w @ [e]\<rparr>"

definition call_back :: "callback \<Rightarrow> (nat \<Rightarrow> proxy_event) \<Rightarrow> proxy_world \<Rightarrow> proxy_world" where
  "call_back cb ev w = note_event (case cb of None \<Rightarrow> Null_Callback | Some n \<Rightarrow> ev n) w"

text \<open>A call of the underlying IO: the event, and the next answer is used up.\<close>

definition under_call :: "proxy_event \<Rightarrow> proxy_world \<Rightarrow> proxy_world" where
  "under_call e w = note_event e (w\<lparr>under_calls := Suc (under_calls w)\<rparr>)"

section \<open>Creation and destruction\<close>

text \<open>
  \<open>raw\<close> is what the fresh block of the instance holds: the callbacks and times are not initialised.
  Whether the socket interface exists and what \<open>xio_create\<close> answers are arguments.
\<close>

definition http_proxy_io_create ::
  "bool \<Rightarrow> (SOCKETIO_CONFIG \<Rightarrow> bool) \<Rightarrow> HTTP_PROXY_IO_INSTANCE \<Rightarrow> HTTP_PROXY_IO_CONFIG option \<Rightarrow> heap \<Rightarrow>
     HTTP_PROXY_IO_INSTANCE option \<times> heap" where
  "http_proxy_io_create socketio_interface xio_create raw io_create_parameters h =
     (case io_create_parameters of
        None \<Rightarrow> (None, h)
      | Some c \<Rightarrow>
          (if config_hostname c = None \<or> config_proxy_hostname c = None then (None, h)
           else if (config_username c = None) \<noteq> (config_password c = None) then (None, h)
           else
             (case malloc_struct h of
                (False, h) \<Rightarrow> (None, h)
              | (True, h) \<Rightarrow>
                  (case mallocAndStrcpy_s (config_hostname c) h of
                     (CRT_OK, host, h) \<Rightarrow>
                       (case mallocAndStrcpy_s (config_proxy_hostname c) h of
                          (CRT_OK, proxy_host, h) \<Rightarrow>
                            (case (if config_username c = None then (CRT_OK, None, h)
                                   else mallocAndStrcpy_s (config_username c) h) of
                               (CRT_OK, user, h) \<Rightarrow>
                                 (case (if config_password c = None then (CRT_OK, None, h)
                                        else mallocAndStrcpy_s (config_password c) h) of
                                    (CRT_OK, pass, h) \<Rightarrow>
                                      (if \<not> socketio_interface \<or>
                                          \<not> xio_create (SOCKETIO_CONFIG (the (config_proxy_hostname c))
                                                          (config_proxy_port c) (config_enable_ipv6 c))
                                       then (None, free_struct (c_free host (c_free proxy_host (c_free user (c_free pass h)))))
                                       else
                                         (Some (raw\<lparr>target_hostname := the host, proxy_hostname := the proxy_host,
                                                    proxy_username := user, proxy_password := pass,
                                                    target_port := config_port c, proxy_port := config_proxy_port c,
                                                    receive_buffer := None, receive_buffer_size := 0,
                                                    http_proxy_io_state := HTTP_PROXY_IO_STATE_CLOSED\<rparr>), h))
                                  | (_, _, h) \<Rightarrow> (None, free_struct (c_free host (c_free proxy_host (c_free user h)))))
                             | (_, _, h) \<Rightarrow> (None, free_struct (c_free host (c_free proxy_host h))))
                        | (_, _, h) \<Rightarrow> (None, free_struct (c_free host h)))
                   | (_, _, h) \<Rightarrow> (None, free_struct h)))))"

definition http_proxy_io_destroy :: "handle \<Rightarrow> proxy_world \<Rightarrow> proxy_world" where
  "http_proxy_io_destroy http_proxy_io w =
     (case http_proxy_io of
        NULL_HANDLE \<Rightarrow> w
      | CLIENT \<Rightarrow>
          (let w1 = note_event Under_Destroy (w\<lparr>proxy_heap := c_free (receive_buffer w) (proxy_heap w)\<rparr>) in
           w1\<lparr>proxy_heap :=
                free_struct (c_free (proxy_password w1) (c_free (proxy_username w1)
                  (c_free (Some (proxy_hostname w1)) (c_free (Some (target_hostname w1)) (proxy_heap w1)))))\<rparr>))"

section \<open>The CONNECT request\<close>

definition indicate_open_complete_error_and_close :: "detail_code \<Rightarrow> proxy_world \<Rightarrow> proxy_world" where
  "indicate_open_complete_error_and_close code w =
     (let w1 = under_call Under_Close (w\<lparr>http_proxy_io_state := HTTP_PROXY_IO_STATE_CLOSED\<rparr>) in
      call_back (on_io_open_complete w1) (\<lambda>n. Open_Complete n IO_OPEN_ERROR code) w1)"

text \<open>
  The request is built in a block of the computed size: a piece that would not leave room for the
  terminator is refused. A step of the construction returns the position and the block.
\<close>

type_synonym build = "rc \<times> nat \<times> char list"

definition append_connect_request_segment :: "nat \<Rightarrow> char list \<Rightarrow> nat \<times> char list \<Rightarrow> build" where
  "append_connect_request_segment connect_request_size segment st =
     (case st of (offset, block) \<Rightarrow>
        (if offset \<ge> connect_request_size then (Failure, st)
         else
           (let segment_length = strlen segment in
            if segment_length \<ge> connect_request_size - offset then (Failure, st)
            else
              (let (pos, b) = put (take segment_length segment) (offset, block) in
               (Success, pos, b[pos := NUL])))))"

definition append_formatted_host_for_authority :: "nat \<Rightarrow> char list \<Rightarrow> nat \<Rightarrow> nat \<times> char list \<Rightarrow> build" where
  "append_formatted_host_for_authority connect_request_size host formatted_host_length st =
     (case st of (offset, block) \<Rightarrow>
        (if offset \<ge> connect_request_size \<or> formatted_host_length \<ge> connect_request_size - offset then (Failure, st)
         else
           (case format_host_for_authority (Some host) (Some (drop offset block)) (connect_request_size - offset) of
              (Success, Some out) \<Rightarrow>
                (let pos = safe_add_size_t offset formatted_host_length in
                 (if pos = SIZE_MAX then Failure else Success, pos, take offset block @ out))
            | _ \<Rightarrow> (Failure, st))))"

text \<open>The steps in a row, up to the first that fails.\<close>

fun build_all :: "(nat \<times> char list \<Rightarrow> build) list \<Rightarrow> nat \<times> char list \<Rightarrow> build" where
  "build_all [] st = (Success, st)"
| "build_all (f # fs) st = (case f st of (Failure, st1) \<Rightarrow> (Failure, st1) | (Success, st1) \<Rightarrow> build_all fs st1)"

definition connect_request_prefix :: "char list" where "connect_request_prefix = ''CONNECT ''"
definition connect_request_between_authority_and_port :: "char list" where
  "connect_request_between_authority_and_port = '':''"
definition connect_request_between_authorities :: "char list" where
  "connect_request_between_authorities = '' HTTP/1.1'' @ CRLF @ ''Host:''"
definition proxy_basic :: "char list" where
  "proxy_basic = CRLF @ ''Proxy-authorization: Basic ''"
definition connect_request_terminator :: "char list" where "connect_request_terminator = CRLF @ CRLF"

definition connect_request_length :: "proxy_world \<Rightarrow> nat \<Rightarrow> nat \<Rightarrow> char list \<Rightarrow> nat" where
  "connect_request_length w formatted_host_length port_length auth_string_payload =
     (let n = length connect_request_prefix;
          n = safe_add_size_t n formatted_host_length;
          n = safe_add_size_t n (length connect_request_between_authority_and_port);
          n = safe_add_size_t n port_length;
          n = safe_add_size_t n (length connect_request_between_authorities);
          n = safe_add_size_t n formatted_host_length;
          n = safe_add_size_t n (length connect_request_between_authority_and_port);
          n = safe_add_size_t n port_length;
          n = (if proxy_username w \<noteq> None
               then safe_add_size_t (safe_add_size_t n (length proxy_basic)) (strlen auth_string_payload) else n) in
      safe_add_size_t n (length connect_request_terminator))"

definition connect_request_steps ::
  "proxy_world \<Rightarrow> nat \<Rightarrow> nat \<Rightarrow> char list \<Rightarrow> char list \<Rightarrow> (nat \<times> char list \<Rightarrow> build) list" where
  "connect_request_steps w sz formatted_host_length port_string auth_string_payload =
     (let segment = (\<lambda>s. append_connect_request_segment sz s);
          authority = append_formatted_host_for_authority sz (target_hostname w) formatted_host_length in
      [segment (c_lit connect_request_prefix), authority, segment (c_lit connect_request_between_authority_and_port),
       segment port_string, segment (c_lit connect_request_between_authorities), authority,
       segment (c_lit connect_request_between_authority_and_port), segment port_string] @
      (if proxy_username w \<noteq> None then [segment (c_lit proxy_basic), segment auth_string_payload] else []) @
      [segment (c_lit connect_request_terminator)])"

definition PORT_STRING_SIZE :: nat where "PORT_STRING_SIZE = 34"

abbreviation proxy_open_failed :: "proxy_world \<Rightarrow> proxy_world" where
  "proxy_open_failed \<equiv> indicate_open_complete_error_and_close Failure_Line"

text \<open>\<open>xio_send\<close> with \<open>unchecked_on_send_complete\<close>, which does nothing.\<close>

definition under_send :: "byte list \<Rightarrow> callback \<Rightarrow> proxy_world \<Rightarrow> rc \<times> proxy_world" where
  "under_send bytes cb w = (under_send_answer w (under_calls w), under_call (Under_Send bytes cb) w)"

definition send_connect_request :: "char list \<Rightarrow> proxy_world \<Rightarrow> proxy_world" where
  "send_connect_request auth_string_payload w =
     (let (port_string_length, port_string) = snprintf_d 0 PORT_STRING_SIZE (sint (target_port w)) (replicate PORT_STRING_SIZE NUL) in
      if port_string_length < 0 \<or> nat port_string_length \<ge> PORT_STRING_SIZE then proxy_open_failed w
      else
        (let formatted_host_length = authority_host_length (Some (target_hostname w));
             len = connect_request_length w formatted_host_length (nat port_string_length) auth_string_payload;
             sz = safe_add_size_t len 1 in
         if len = SIZE_MAX \<or> sz = SIZE_MAX then proxy_open_failed w
         else
           (case malloc_block char_of_byte sz (proxy_heap w) of
              (None, h) \<Rightarrow> proxy_open_failed (w\<lparr>proxy_heap := h\<rparr>)
            | (Some block, h) \<Rightarrow>
                (let w1 = w\<lparr>proxy_heap := h\<rparr>;
                     w2 =
                       (case build_all (connect_request_steps w1 sz formatted_host_length port_string auth_string_payload)
                               (0, block) of
                          (result, offset, request) \<Rightarrow>
                            (if result = Failure \<or> offset \<noteq> len then proxy_open_failed w1
                             else
                               (case under_send (map byte_of_char (take len request)) None w1 of
                                  (Failure, w2) \<Rightarrow> proxy_open_failed w2
                                | (Success, w2) \<Rightarrow> w2))) in
                 w2\<lparr>proxy_heap := c_free (Some block) (proxy_heap w2)\<rparr>))))"

text \<open>The length of \<open>user:password\<close> is computed in \<open>int\<close>.\<close>

definition plain_auth_string_length :: "char list \<Rightarrow> char list option \<Rightarrow> int" where
  "plain_auth_string_length user pass =
     sint (of_nat (strlen user + 1) + (case pass of None \<Rightarrow> 0 | Some p \<Rightarrow> of_nat (strlen p)) :: 32 word)"

definition encode_auth_string :: "char list \<Rightarrow> proxy_world \<Rightarrow> STRING option \<times> proxy_world" where
  "encode_auth_string user w =
     (let n = plain_auth_string_length user (proxy_password w) in
      if n < 0 then (None, proxy_open_failed w)
      else
        (case malloc_block id (nat n + 1) (proxy_heap w) of
           (None, h) \<Rightarrow> (None, proxy_open_failed (w\<lparr>proxy_heap := h\<rparr>))
         | (Some block, h) \<Rightarrow>
             (let text = cstr user @ '':'' @ (case proxy_password w of None \<Rightarrow> [] | Some p \<Rightarrow> cstr p) @ [NUL];
                  block = snd (put (map byte_of_char text) (0, block));
                  (encoded, h) = Base64_Encode_Bytes (Some block) (nat n) h;
                  w1 = w\<lparr>proxy_heap := h\<rparr>;
                  w2 = (if encoded = None then proxy_open_failed w1 else w1) in
              (encoded, w2\<lparr>proxy_heap := c_free (Some block) (proxy_heap w2)\<rparr>))))"

definition start_connect :: "proxy_world \<Rightarrow> proxy_world" where
  "start_connect w =
     (let w1 = w\<lparr>http_proxy_io_state := HTTP_PROXY_IO_STATE_WAITING_FOR_CONNECT_RESPONSE\<rparr>;
          (encoded_auth_string, w2) =
            (case proxy_username w1 of None \<Rightarrow> (None, w1) | Some user \<Rightarrow> encode_auth_string user w1);
          w3 = (if proxy_username w2 \<noteq> None \<and> encoded_auth_string = None then w2
                else send_connect_request
                       (if proxy_username w2 \<noteq> None then the (STRING_c_str encoded_auth_string) else [NUL]) w2) in
      w3\<lparr>proxy_heap := (if encoded_auth_string = None then proxy_heap w3
                       else STRING_delete encoded_auth_string (proxy_heap w3))\<rparr>)"

section \<open>The callbacks of the underlying IO\<close>

definition on_proxy_open_complete :: "handle \<Rightarrow> IO_OPEN_RESULT \<times> int \<Rightarrow> proxy_world \<Rightarrow> proxy_world" where
  "on_proxy_open_complete context open_result_detailed w =
     (case context of
        NULL_HANDLE \<Rightarrow> w
      | CLIENT \<Rightarrow>
          (case http_proxy_io_state w of
             HTTP_PROXY_IO_STATE_CLOSING \<Rightarrow> call_back (on_io_error w) Io_Error w
           | HTTP_PROXY_IO_STATE_OPEN \<Rightarrow> call_back (on_io_error w) Io_Error w
           | HTTP_PROXY_IO_STATE_WAITING_FOR_CONNECT_RESPONSE \<Rightarrow> proxy_open_failed w
           | HTTP_PROXY_IO_STATE_OPENING_UNDERLYING_IO \<Rightarrow>
               (case open_result_detailed of
                  (IO_OPEN_ERROR, code) \<Rightarrow> indicate_open_complete_error_and_close (Code code) w
                | (IO_OPEN_CANCELLED, code) \<Rightarrow>
                    (let w1 = under_call Under_Close (w\<lparr>http_proxy_io_state := HTTP_PROXY_IO_STATE_CLOSED\<rparr>) in
                     call_back (on_io_open_complete w1) (\<lambda>n. Open_Complete n IO_OPEN_CANCELLED (Code code)) w1)
                | (IO_OPEN_OK, code) \<Rightarrow> start_connect w)
           | _ \<Rightarrow> w))"

definition on_proxy_io_error :: "handle \<Rightarrow> proxy_world \<Rightarrow> proxy_world" where
  "on_proxy_io_error context w =
     (case context of
        NULL_HANDLE \<Rightarrow> w
      | CLIENT \<Rightarrow>
          (case http_proxy_io_state w of
             HTTP_PROXY_IO_STATE_OPENING_UNDERLYING_IO \<Rightarrow> proxy_open_failed w
           | HTTP_PROXY_IO_STATE_WAITING_FOR_CONNECT_RESPONSE \<Rightarrow> proxy_open_failed w
           | HTTP_PROXY_IO_STATE_OPEN \<Rightarrow>
               (let w1 = w\<lparr>http_proxy_io_state := HTTP_PROXY_IO_STATE_ERROR\<rparr> in call_back (on_io_error w1) Io_Error w1)
           | _ \<Rightarrow> w))"

definition on_proxy_close_complete :: "handle \<Rightarrow> proxy_world \<Rightarrow> proxy_world" where
  "on_proxy_close_complete context w =
     (case context of
        NULL_HANDLE \<Rightarrow> w
      | CLIENT \<Rightarrow>
          (if http_proxy_io_state w = HTTP_PROXY_IO_STATE_CLOSING then
             (let w1 = w\<lparr>http_proxy_io_state := HTTP_PROXY_IO_STATE_CLOSED\<rparr> in
              case on_io_close_complete w1 of None \<Rightarrow> w1 | Some n \<Rightarrow> note_event (Close_Complete n) w1)
           else w))"

text \<open>The response is complete: its status, and the bytes behind it.\<close>

definition on_connect_response :: "nat \<Rightarrow> proxy_world \<Rightarrow> proxy_world" where
  "on_connect_response request_end w =
     (let b = the (receive_buffer w);
          (parsed, status_code, errno) = ParseHttpResponse (Some (map char_of_byte b)) (proxy_errno w);
          w1 = w\<lparr>proxy_errno := errno\<rparr> in
      if parsed = Failure then proxy_open_failed w1
      else if status_code < 200 \<or> status_code > 299 then proxy_open_failed w1
      else
        (let length_remaining = receive_buffer_size w1 - (request_end + 4);
             w2 = w1\<lparr>http_proxy_io_state := HTTP_PROXY_IO_STATE_OPEN\<rparr>;
             w3 = call_back (on_io_open_complete w2) (\<lambda>n. Open_Complete n IO_OPEN_OK (Code 0)) w2 in
         if length_remaining > 0
         then call_back (on_bytes_received w3) (\<lambda>n. Bytes_Received n (take length_remaining (drop (request_end + 4) b))) w3
         else w3))"

definition accumulate_response :: "byte list \<Rightarrow> nat \<Rightarrow> proxy_world \<Rightarrow> proxy_world" where
  "accumulate_response buffer sz w =
     (case realloc_block id (receive_buffer w) (receive_buffer_size w + sz + 1) (proxy_heap w) of
        (None, h) \<Rightarrow> proxy_open_failed (w\<lparr>proxy_heap := h\<rparr>)
      | (Some new_receive_buffer, h) \<Rightarrow>
          w\<lparr>receive_buffer := Some (memcpy_at new_receive_buffer (receive_buffer_size w) buffer sz),
            receive_buffer_size := receive_buffer_size w + sz, proxy_heap := h\<rparr>)"

definition scan_response :: "proxy_world \<Rightarrow> proxy_world" where
  "scan_response w =
     (if receive_buffer_size w \<ge> 4 then
        (let b = (the (receive_buffer w))[receive_buffer_size w := 0];
             w1 = w\<lparr>receive_buffer := Some b\<rparr> in
         case strstr (map char_of_byte b) (CRLF @ CRLF) of
           None \<Rightarrow> w1
         | Some request_end \<Rightarrow> on_connect_response request_end w1)
      else w)"

definition on_proxy_bytes_received :: "handle \<Rightarrow> byte list \<Rightarrow> nat \<Rightarrow> proxy_world \<Rightarrow> proxy_world" where
  "on_proxy_bytes_received context buffer sz w =
     (case context of
        NULL_HANDLE \<Rightarrow> w
      | CLIENT \<Rightarrow>
          (case http_proxy_io_state w of
             HTTP_PROXY_IO_STATE_OPENING_UNDERLYING_IO \<Rightarrow> proxy_open_failed w
           | HTTP_PROXY_IO_STATE_WAITING_FOR_CONNECT_RESPONSE \<Rightarrow> scan_response (accumulate_response buffer sz w)
           | HTTP_PROXY_IO_STATE_OPEN \<Rightarrow> call_back (on_bytes_received w) (\<lambda>n. Bytes_Received n (take sz buffer)) w
           | _ \<Rightarrow> w))"

section \<open>The interface\<close>

definition http_proxy_io_open :: "handle \<Rightarrow> callback \<Rightarrow> callback \<Rightarrow> callback \<Rightarrow> proxy_world \<Rightarrow> rc \<times> proxy_world" where
  "http_proxy_io_open http_proxy_io open_complete bytes_received io_error w =
     (if http_proxy_io = NULL_HANDLE \<or> open_complete = None \<or> bytes_received = None \<or> io_error = None then (Failure, w)
      else if http_proxy_io_state w \<noteq> HTTP_PROXY_IO_STATE_CLOSED then (Failure, w)
      else
        (let now = proxy_time w (proxy_time_reads w);
             w1 = w\<lparr>on_bytes_received := bytes_received, on_io_error := io_error, on_io_open_complete := open_complete,
                    http_proxy_io_state := HTTP_PROXY_IO_STATE_OPENING_UNDERLYING_IO,
                    proxy_time_reads := Suc (proxy_time_reads w),
                    proxy_open_start_time := now, proxy_last_open_wait_log_time := now\<rparr>;
             (result, completed) = under_open_answer w1 (under_calls w1);
             w2 = under_call Under_Open w1;
             w3 = (case completed of None \<Rightarrow> w2 | Some r \<Rightarrow> on_proxy_open_complete CLIENT r w2) in
         case result of
           Failure \<Rightarrow> (Failure, w3\<lparr>http_proxy_io_state := HTTP_PROXY_IO_STATE_CLOSED\<rparr>)
         | Success \<Rightarrow> (Success, w3)))"

definition http_proxy_io_close :: "handle \<Rightarrow> callback \<Rightarrow> proxy_world \<Rightarrow> rc \<times> proxy_world" where
  "http_proxy_io_close http_proxy_io close_complete w =
     (if http_proxy_io = NULL_HANDLE then (Failure, w)
      else if http_proxy_io_state w \<in> {HTTP_PROXY_IO_STATE_CLOSED, HTTP_PROXY_IO_STATE_CLOSING} then (Failure, w)
      else if http_proxy_io_state w \<in> {HTTP_PROXY_IO_STATE_OPENING_UNDERLYING_IO, HTTP_PROXY_IO_STATE_WAITING_FOR_CONNECT_RESPONSE}
      then
        (let w1 = under_call Under_Close (w\<lparr>http_proxy_io_state := HTTP_PROXY_IO_STATE_CLOSED\<rparr>) in
         (Success, call_back (on_io_open_complete w1) (\<lambda>n. Open_Complete n IO_OPEN_CANCELLED Failure_Line) w1))
      else
        (let previous_state = http_proxy_io_state w;
             w1 = w\<lparr>http_proxy_io_state := HTTP_PROXY_IO_STATE_CLOSING, on_io_close_complete := close_complete\<rparr>;
             (result, now) = under_close_answer w1 (under_calls w1);
             w2 = under_call Under_Close w1;
             w3 = (if now then on_proxy_close_complete CLIENT w2 else w2) in
         case result of
           Failure \<Rightarrow> (Failure, w3\<lparr>http_proxy_io_state := previous_state\<rparr>)
         | Success \<Rightarrow> (Success, w3)))"

definition http_proxy_io_send :: "handle \<Rightarrow> byte list option \<Rightarrow> nat \<Rightarrow> callback \<Rightarrow> proxy_world \<Rightarrow> rc \<times> proxy_world" where
  "http_proxy_io_send http_proxy_io buffer sz send_complete w =
     (if http_proxy_io = NULL_HANDLE \<or> buffer = None \<or> sz = 0 then (Failure, w)
      else if http_proxy_io_state w \<noteq> HTTP_PROXY_IO_STATE_OPEN then (Failure, w)
      else under_send (take sz (the buffer)) send_complete w)"

text \<open>The log about a slow opening only moves the time of the last message.\<close>

definition http_proxy_io_dowork :: "handle \<Rightarrow> proxy_world \<Rightarrow> proxy_world" where
  "http_proxy_io_dowork http_proxy_io w =
     (case http_proxy_io of
        NULL_HANDLE \<Rightarrow> w
      | CLIENT \<Rightarrow>
          (if http_proxy_io_state w = HTTP_PROXY_IO_STATE_CLOSED then w
           else
             (let w1 =
                (if http_proxy_io_state w \<in> {HTTP_PROXY_IO_STATE_OPENING_UNDERLYING_IO,
                                              HTTP_PROXY_IO_STATE_WAITING_FOR_CONNECT_RESPONSE} then
                   (let now = proxy_time w (proxy_time_reads w);
                        start = proxy_open_start_time w;
                        w1 = w\<lparr>proxy_time_reads := Suc (proxy_time_reads w)\<rparr> in
                    if start \<noteq> 0 \<and> start \<noteq> -1 \<and> now \<noteq> -1 \<and> now \<ge> start \<and> now - start \<ge> 1 \<and>
                       (proxy_last_open_wait_log_time w = 0 \<or> now - proxy_last_open_wait_log_time w \<ge> 1)
                    then w1\<lparr>proxy_last_open_wait_log_time := now\<rparr> else w1)
                 else w) in
              note_event Under_Dowork w1)))"

definition http_proxy_io_set_option :: "handle \<Rightarrow> cptr \<Rightarrow> proxy_world \<Rightarrow> rc \<times> proxy_world" where
  "http_proxy_io_set_option http_proxy_io option_name w =
     (if http_proxy_io = NULL_HANDLE \<or> option_name = None then (Failure, w)
      else (under_option_answer w (under_calls w), under_call (Under_Set_Option (the option_name)) w))"

end
