(* ===== verification/HttpProxyIo_Request.thy ===== *)
theory HttpProxyIo_Request
  imports HttpProxyIo
begin

text \<open>
  The CONNECT request of \<open>src/http_proxy_io.c\<close> as a text: the pieces are appended to a block whose
  size was computed before, and what is sent is the text that the configuration prescribes.
\<close>

section \<open>Pieces\<close>

text \<open>A step that appends a text to what has been written, when it fits with its terminator.\<close>

definition appends :: "nat \<Rightarrow> (nat \<times> char list \<Rightarrow> build) \<Rightarrow> char list \<Rightarrow> bool" where
  "appends sz f s \<longleftrightarrow> (\<forall>t r. length t + length r = sz \<and> length s < length r \<longrightarrow>
     (\<exists>r'. f (written t r) = (Success, written (t @ s) r') \<and> length r' = length r - length s))"

lemma appends_segment:
  assumes "terminated s"
  shows "appends sz (append_connect_request_segment sz s) (cstr s)"
  unfolding appends_def
proof (intro allI impI, elim conjE)
  fix t r :: "char list"
  assume sz: "length t + length r = sz" and fits: "length (cstr s) < length r"
  have n: "strlen s = length (cstr s)" "sz - length t = length r" "\<not> sz \<le> length t" "\<not> length r \<le> length (cstr s)"
    using sz fits by (auto simp: strlen_def)
  have p: "put (take (strlen s) s) (length t, t @ r) = (length (t @ cstr s), (t @ cstr s) @ drop (length (cstr s)) r)"
    using put_written [of "cstr s" r t] fits assms by (simp add: take_strlen written_def)
  obtain c r1 where "drop (length (cstr s)) r = c # r1" using fits by (cases "drop (length (cstr s)) r") auto
  moreover from this have "Suc (length r1) = length r - length (cstr s)" by (metis length_Cons length_drop)
  ultimately show "\<exists>r'. append_connect_request_segment sz s (written t r) = (Success, written (t @ cstr s) r') \<and>
      length r' = length r - length (cstr s)"
    using p n
    by (intro exI [of _ "NUL # r1"])
      (simp add: append_connect_request_segment_def written_def Let_def list_update_append)
qed

lemma appends_literal: "c_string s \<Longrightarrow> appends sz (append_connect_request_segment sz (c_lit s)) s"
  using appends_segment [of "c_lit s" sz] by (simp add: c_string_def)

lemma appends_authority:
  assumes "terminated host" and "length (cstr host) + 2 < SIZE_MAX" and "sz < SIZE_MAX"
  shows "appends sz (append_formatted_host_for_authority sz host (length (authority_text (cstr host)))) (authority_text (cstr host))"
  unfolding appends_def
proof (intro allI impI, elim conjE)
  fix t r :: "char list"
  let ?a = "authority_text (cstr host)"
  assume sz: "length t + length r = sz" and fits: "length ?a < length r"
  have n: "sz - length t = length r" "\<not> (sz \<le> length t \<or> length r \<le> length ?a)" using sz fits by auto
  have "format_host_for_authority (Some host) (Some r) (length r) = (Success, Some (?a @ NUL # drop (Suc (length ?a)) r))"
    using format_host_text [OF assms(1,2), of "length r" r] fits by simp
  moreover have "safe_add_size_t (length t) (length ?a) = length t + length ?a" "length t + length ?a \<noteq> SIZE_MAX"
    using sz fits assms(3) by (simp_all add: safe_add_size_t_ok)
  ultimately show "\<exists>r'. append_formatted_host_for_authority sz host (length ?a) (written t r) =
      (Success, written (t @ ?a) r') \<and> length r' = length r - length ?a"
    using n fits by (intro exI [of _ "NUL # drop (Suc (length ?a)) r"])
      (simp add: append_formatted_host_for_authority_def written_def)
qed

lemma build_all_appends:
  "list_all2 (appends sz) fs ss \<Longrightarrow> length t + length r = sz \<Longrightarrow> length (concat ss) < length r \<Longrightarrow>
     \<exists>r'. build_all fs (written t r) = (Success, written (t @ concat ss) r') \<and> length r' = length r - length (concat ss)"
proof (induction fs ss arbitrary: t r rule: list_all2_induct)
  case (Cons f fs s ss)
  have "length s < length r" using Cons.prems(2) by simp
  then obtain r1 where one: "f (written t r) = (Success, written (t @ s) r1)" "length r1 = length r - length s"
    using Cons.hyps(1) [unfolded appends_def, rule_format, of t r] Cons.prems(1) by auto
  moreover from this have "length (concat ss) < length r1" "length (t @ s) + length r1 = sz" using Cons.prems by auto
  ultimately obtain r2 where "build_all fs (written (t @ s) r1) = (Success, written ((t @ s) @ concat ss) r2)"
    "length r2 = length r1 - length (concat ss)"
    using Cons.IH [of "t @ s" r1] by blast
  then show ?case using one by auto
qed auto

section \<open>The request\<close>

definition connect_text :: "char list \<Rightarrow> int \<Rightarrow> char list option \<Rightarrow> char list" where
  "connect_text host port_value auth =
     ''CONNECT '' @ authority_text host @ '':'' @ printf_d port_value @ '' HTTP/1.1'' @ CRLF @
     ''Host:'' @ authority_text host @ '':'' @ printf_d port_value @
     (case auth of None \<Rightarrow> [] | Some a \<Rightarrow> CRLF @ ''Proxy-authorization: Basic '' @ a) @ CRLF @ CRLF"

definition proxy_request :: "proxy_world \<Rightarrow> char list \<Rightarrow> char list" where
  "proxy_request w auth =
     connect_text (cstr (target_hostname w)) (sint (target_port w)) (if proxy_username w = None then None else Some auth)"

definition proxy_config_ok :: "proxy_world \<Rightarrow> bool" where
  "proxy_config_ok w \<longleftrightarrow> terminated (target_hostname w) \<and>
     length (cstr (target_hostname w)) + 2 < SIZE_MAX \<and>
     (case proxy_username w of
        None \<Rightarrow> True
      | Some u \<Rightarrow> strlen u + 1 + (case proxy_password w of None \<Rightarrow> 0 | Some p \<Rightarrow> strlen p) < 2 ^ 31)"

lemma printf_d_string: "c_string (printf_d v)"
  using decimal_text_c_string by (simp add: printf_d_def c_string_def)

lemma printf_d_length_int: "length (printf_d (sint (x :: 32 word))) < PORT_STRING_SIZE"
proof -
  have "nat \<bar>sint x\<bar> < 10 ^ 10" using sint_greater_eq [of x] sint_less [of x] by auto
  then have "length (decimal_digits (nat \<bar>sint x\<bar>)) \<le> 10" by (simp add: decimal_digits_length)
  then show ?thesis by (auto simp: printf_d_def decimal_text_def PORT_STRING_SIZE_def)
qed

lemma port_string:
  "\<exists>b. snprintf_d 0 PORT_STRING_SIZE (sint (x :: 32 word)) (replicate PORT_STRING_SIZE NUL) =
     (int (length (printf_d (sint x))), b) \<and> terminated b \<and> cstr b = printf_d (sint x)"
proof -
  let ?p = "printf_d (sint x)"
  have "put (?p @ [NUL]) (written [] (replicate PORT_STRING_SIZE NUL)) =
      written (?p @ [NUL]) (drop (length (?p @ [NUL])) (replicate PORT_STRING_SIZE NUL))"
    using put_written [of "?p @ [NUL]" "replicate PORT_STRING_SIZE NUL" "[]"] printf_d_length_int [of x] by simp
  then show ?thesis
    using printf_d_length_int [of x] printf_d_string
    by (simp add: snprintf_d_def written_start cstr_append_NUL) (simp add: written_def cstr_append_NUL)
qed

lemma literals_c_string [simp]:
  "c_string connect_request_prefix" "c_string connect_request_between_authority_and_port"
  "c_string connect_request_between_authorities" "c_string proxy_basic" "c_string connect_request_terminator"
  by (simp_all add: c_string_def connect_request_prefix_def connect_request_between_authority_and_port_def
      connect_request_between_authorities_def proxy_basic_def connect_request_terminator_def CRLF_def)

lemmas connect_literals =
  connect_request_prefix_def connect_request_between_authority_and_port_def connect_request_between_authorities_def
  proxy_basic_def connect_request_terminator_def

lemma connect_length:
  assumes "length (proxy_request w (cstr payload)) < SIZE_MAX"
  shows "connect_request_length w (length (authority_text (cstr (target_hostname w))))
      (length (printf_d (sint (target_port w)))) payload = length (proxy_request w (cstr payload))"
proof (cases "proxy_username w")
  case None
  then show ?thesis using assms
    by (simp add: connect_request_length_def proxy_request_def connect_text_def connect_literals CRLF_def Let_def
        safe_add_size_t_ok)
next
  case (Some u)
  then show ?thesis using assms
    by (simp add: connect_request_length_def proxy_request_def connect_text_def connect_literals CRLF_def Let_def
        safe_add_size_t_ok strlen_def)
qed

lemma connect_steps:
  assumes "proxy_config_ok w" and "terminated payload" and "sz < SIZE_MAX"
    and "terminated port_string" "cstr port_string = printf_d (sint (target_port w))"
  shows "\<exists>ss. list_all2 (appends sz)
      (connect_request_steps w sz (length (authority_text (cstr (target_hostname w)))) port_string payload) ss \<and>
      concat ss = proxy_request w (cstr payload)"
proof -
  let ?a = "authority_text (cstr (target_hostname w))" and ?p = "printf_d (sint (target_port w))"
  have authority: "appends sz (append_formatted_host_for_authority sz (target_hostname w) (length ?a)) ?a"
    using appends_authority assms(1,3) by (simp add: proxy_config_ok_def)
  have port: "appends sz (append_connect_request_segment sz port_string) ?p"
    using appends_segment [OF assms(4)] assms(5) by simp
  let ?ss = "[connect_request_prefix, ?a, connect_request_between_authority_and_port, ?p, connect_request_between_authorities,
    ?a, connect_request_between_authority_and_port, ?p] @ (if proxy_username w \<noteq> None then [proxy_basic, cstr payload] else []) @
    [connect_request_terminator]"
  have "list_all2 (appends sz) (connect_request_steps w sz (length ?a) port_string payload) ?ss"
    using authority port appends_literal appends_segment [OF assms(2)] by (simp add: connect_request_steps_def Let_def)
  moreover have "concat ?ss = proxy_request w (cstr payload)"
    by (cases "proxy_username w") (simp_all add: proxy_request_def connect_text_def connect_literals)
  ultimately show ?thesis by blast
qed

section \<open>What is sent\<close>

text \<open>
  How the opening goes on: the request is on its way, or it was refused, or it could not be
  built for want of memory. Nothing but the state, the calls and the events has changed.
\<close>

definition connect_outcome :: "char list \<Rightarrow> proxy_world \<Rightarrow> proxy_world \<Rightarrow> bool" where
  "connect_outcome request w w' \<longleftrightarrow>
     (let sent = [Under_Send (map byte_of_char request) None];
          failed = [Under_Close, Open_Complete (the (on_io_open_complete w)) IO_OPEN_ERROR Failure_Line] in
      if http_proxy_io_state w' = HTTP_PROXY_IO_STATE_WAITING_FOR_CONNECT_RESPONSE
      then proxy_events w' = proxy_events w @ sent \<and> under_send_answer w (under_calls w) = Success
      else http_proxy_io_state w' = HTTP_PROXY_IO_STATE_CLOSED \<and>
        (proxy_events w' = proxy_events w @ sent @ failed \<and> under_send_answer w (under_calls w) = Failure \<or>
         proxy_events w' = proxy_events w @ failed \<and> (\<exists>i. \<not> mem_ok (proxy_heap w) i)))"

lemma open_failed_fields:
  "on_io_open_complete w = Some n \<Longrightarrow> indicate_open_complete_error_and_close c w =
     w\<lparr>http_proxy_io_state := HTTP_PROXY_IO_STATE_CLOSED, under_calls := Suc (under_calls w),
       proxy_events := proxy_events w @ [Under_Close, Open_Complete n IO_OPEN_ERROR c]\<rparr>"
  by (simp add: indicate_open_complete_error_and_close_def under_call_def note_event_def call_back_def Let_def)

lemma open_failed_heap:
  "indicate_open_complete_error_and_close c (w\<lparr>proxy_heap := h\<rparr>) = (indicate_open_complete_error_and_close c w)\<lparr>proxy_heap := h\<rparr>"
  by (simp add: indicate_open_complete_error_and_close_def under_call_def note_event_def call_back_def Let_def)

lemma open_failed_keeps_heap [simp]: "proxy_heap (indicate_open_complete_error_and_close c w) = proxy_heap w"
  by (simp add: indicate_open_complete_error_and_close_def under_call_def note_event_def call_back_def Let_def)

lemma send_connect_request_sends:
  assumes "proxy_config_ok w" and "terminated payload" and "Suc (length (proxy_request w (cstr payload))) < SIZE_MAX"
    and cb: "on_io_open_complete w = Some n"
    and state: "http_proxy_io_state w = HTTP_PROXY_IO_STATE_WAITING_FOR_CONNECT_RESPONSE"
  shows "connect_outcome (proxy_request w (cstr payload)) w (send_connect_request payload w)"
proof -
  let ?a = "length (authority_text (cstr (target_hostname w)))" and ?p = "printf_d (sint (target_port w))"
  let ?text = "proxy_request w (cstr payload)"
  obtain b where port: "snprintf_d 0 PORT_STRING_SIZE (sint (target_port w)) (replicate PORT_STRING_SIZE NUL) = (int (length ?p), b)"
    "terminated b" "cstr b = ?p" using port_string by blast
  have host: "authority_host_length (Some (target_hostname w)) = ?a"
    using assms(1) by (simp add: proxy_config_ok_def authority_host_length_text)
  have len: "connect_request_length w ?a (length ?p) payload = length ?text"
    using assms(3) by (intro connect_length) simp
  have sz: "safe_add_size_t (length ?text) 1 = Suc (length ?text)" "length ?text \<noteq> SIZE_MAX" "Suc (length ?text) \<noteq> SIZE_MAX"
    using assms(3) by (simp_all add: safe_add_size_t_ok)
  obtain block h where m: "malloc_block char_of_byte (Suc (length ?text)) (proxy_heap w) = (block, h)" by (metis surj_pair)
  have ok: "(int (length ?p) < 0 \<or> PORT_STRING_SIZE \<le> nat (int (length ?p))) = False"
    using printf_d_length_int [of "target_port w"] by simp
  note run = send_connect_request_def [of payload w, unfolded port(1) host Let_def prod.case nat_int len sz(1) m]
  show ?thesis
  proof (cases block)
    case None
    then have "\<not> mem_ok (proxy_heap w) (mem_calls (proxy_heap w))" using m by (auto simp: malloc_block_def granted_def split: if_splits)
    then have "\<exists>i. \<not> mem_ok (proxy_heap w) i" by blast
    then show ?thesis using None ok sz cb by (simp add: run open_failed_fields connect_outcome_def)
  next
    case (Some bl)
    let ?w1 = "w\<lparr>proxy_heap := h\<rparr>"
    have same: "proxy_request ?w1 = proxy_request w" "proxy_config_ok ?w1 = proxy_config_ok w"
      by (simp_all add: proxy_request_def proxy_config_ok_def fun_eq_iff)
    have bl: "length bl = Suc (length ?text)" using m Some by (auto simp: malloc_block_def split: if_splits)
    obtain ss where ss: "list_all2 (appends (Suc (length ?text)))
        (connect_request_steps ?w1 (Suc (length ?text)) ?a b payload) ss" "concat ss = ?text"
      using connect_steps [of ?w1 payload "Suc (length ?text)" b] assms(1,2,3) port(2,3) same by auto
    then obtain r' where built: "build_all (connect_request_steps ?w1 (Suc (length ?text)) ?a b payload) (0, bl) =
        (Success, length ?text, ?text @ r')"
      using build_all_appends [OF ss(1), of "[]" bl] bl ss(2) by (auto simp: written_def)
    have "send_connect_request payload w =
        (case under_send (map byte_of_char ?text) None ?w1 of
           (Failure, w2) \<Rightarrow> (proxy_open_failed w2)\<lparr>proxy_heap := c_free (Some bl) (proxy_heap (proxy_open_failed w2))\<rparr>
         | (Success, w2) \<Rightarrow> w2\<lparr>proxy_heap := c_free (Some bl) (proxy_heap w2)\<rparr>)"
      unfolding run Some ok if_False option.case built prod.case using sz printf_d_length_int [of "target_port w"]
      by (simp split: prod.split rc.split)
    then show ?thesis
      using cb state by (cases "under_send_answer w (under_calls w)")
        (simp_all add: under_send_def under_call_def note_event_def open_failed_fields connect_outcome_def)
  qed
qed

lemma connect_outcome_heap:
  "connect_outcome t w (w'\<lparr>proxy_heap := h'\<rparr>) = connect_outcome t w w'"
  "mem_ok h = mem_ok (proxy_heap w) \<Longrightarrow>
     connect_outcome t (w\<lparr>proxy_heap := h\<rparr>) w' = connect_outcome t w w'"
  by (simp_all add: connect_outcome_def Let_def)

section \<open>The authorization\<close>

text \<open>The credentials in Base 64.\<close>

definition auth_text :: "char list \<Rightarrow> char list option \<Rightarrow> char list" where
  "auth_text user pass =
     base64_text (map byte_of_char (cstr user @ '':'' @ (case pass of None \<Rightarrow> [] | Some p \<Rightarrow> cstr p)))"

lemma sint_small: "k < 2 ^ 31 \<Longrightarrow> sint (word_of_nat k :: 32 word) = int k"
  by (simp add: signed_of_nat signed_take_bit_int_eq_self)

lemma plain_length:
  assumes "strlen u + 1 + (case p of None \<Rightarrow> 0 | Some q \<Rightarrow> strlen q) < 2 ^ 31"
  shows "plain_auth_string_length u p = int (strlen u + 1 + (case p of None \<Rightarrow> 0 | Some q \<Rightarrow> strlen q))"
proof -
  have "(of_nat (strlen u + 1) + (case p of None \<Rightarrow> 0 | Some q \<Rightarrow> of_nat (strlen q)) :: 32 word) =
      of_nat (strlen u + 1 + (case p of None \<Rightarrow> 0 | Some q \<Rightarrow> strlen q))"
    by (cases p) simp_all
  then show ?thesis unfolding plain_auth_string_length_def using sint_small [OF assms] by argo
qed

lemma Encode_Bytes_prefix: "Base64_Encode_Bytes (Some (xs @ zs)) (length xs) h = Base64_Encode_Bytes (Some xs) (length xs) h"
  by (simp add: Base64_Encode_Bytes_def Base64_Encode_Internal_def)

lemma encode_auth_string_result:
  assumes "strlen u + 1 + (case proxy_password w of None \<Rightarrow> 0 | Some p \<Rightarrow> strlen p) < 2 ^ 31"
    and "encode_auth_string u w = (r, w')"
  shows "(case r of
      None \<Rightarrow> (\<exists>h. w' = (proxy_open_failed w)\<lparr>proxy_heap := h\<rparr>) \<and> (\<exists>i. \<not> mem_ok (proxy_heap w) i) \<and>
        mem_live (proxy_heap w') = mem_live (proxy_heap w)
    | Some s \<Rightarrow> (\<exists>h. w' = w\<lparr>proxy_heap := h\<rparr>) \<and> str_inv s \<and> str_val s = auth_text u (proxy_password w) \<and>
        mem_live (proxy_heap w') = mem_live (proxy_heap w) + 2) \<and>
    mem_ok (proxy_heap w') = mem_ok (proxy_heap w)"
proof -
  define plain where "plain = cstr u @ '':'' @ (case proxy_password w of None \<Rightarrow> [] | Some p \<Rightarrow> cstr p)"
  have auth: "auth_text u (proxy_password w) = base64_text (map byte_of_char plain)"
    and whole: "cstr u @ '':'' @ (case proxy_password w of None \<Rightarrow> [] | Some p \<Rightarrow> cstr p) @ [NUL] = plain @ [NUL]"
    by (simp_all add: auth_text_def plain_def)
  have n: "plain_auth_string_length u (proxy_password w) = int (length plain)"
    using plain_length [OF assms(1)] by (simp add: strlen_def plain_def split: option.split)
  obtain b h where m: "malloc_block id (length plain + 1) (proxy_heap w) = (b, h)" by (metis surj_pair)
  show ?thesis
  proof (cases b)
    case None
    then have "\<not> mem_ok (proxy_heap w) (mem_calls (proxy_heap w))" "mem_live h = mem_live (proxy_heap w)"
      "mem_ok h = mem_ok (proxy_heap w)"
      using m by (auto simp: malloc_block_def granted_def after_request_def split: if_splits)
    moreover have "r = None" "w' = proxy_open_failed (w\<lparr>proxy_heap := h\<rparr>)"
      using assms(2) unfolding encode_auth_string_def Let_def n nat_int m None by simp_all
    ultimately show ?thesis by (auto simp: open_failed_heap)
  next
    case (Some bl)
    have bl: "length bl = Suc (length plain)" "mem_live h = mem_live (proxy_heap w) + 1" "mem_ok h = mem_ok (proxy_heap w)"
      using m Some by (auto simp: malloc_block_def after_request_def granted_def split: if_splits)
    have fill: "snd (put (map byte_of_char (plain @ [NUL])) (0, bl)) = map byte_of_char plain @ [byte_of_char NUL]"
      using bl(1) by (simp add: put_def memcpy_at_def)
    obtain e h1 where enc: "Base64_Encode_Bytes (Some (map byte_of_char plain @ [byte_of_char NUL])) (length plain) h = (e, h1)"
      by (metis surj_pair)
    then have "Base64_Encode_Bytes (Some (map byte_of_char plain)) (length (map byte_of_char plain)) h = (e, h1)"
      using Encode_Bytes_prefix [of "map byte_of_char plain"] by simp
    note enc_facts = Base64_Encode_Bytes_encodes [OF this] nonce_mem_ok [OF this] Base64_Encode_Bytes_granted [OF _ this]
    have run: "r = e" "w' = (if e = None then proxy_open_failed (w\<lparr>proxy_heap := h1\<rparr>) else w\<lparr>proxy_heap := h1\<rparr>)
        \<lparr>proxy_heap := c_free (Some (map byte_of_char plain @ [byte_of_char NUL])) h1\<rparr>"
      using assms(2) unfolding encode_auth_string_def Let_def n m Some whole option.case prod.case fill nat_int enc
      by (auto split: if_splits)
    show ?thesis
    proof (cases e)
      case None
      then have "\<exists>i. \<not> mem_ok (proxy_heap w) i" using enc_facts(3) bl(3) by auto
      then show ?thesis using None run bl enc_facts(1,2) by (auto simp: encoded_as_def open_failed_heap c_free_def)
    next
      case (Some s)
      then show ?thesis using run bl enc_facts(1,2) by (auto simp: encoded_as_def auth c_free_def)
    qed
  qed
qed

section \<open>The whole step\<close>

text \<open>The request of a proxy IO with its configuration.\<close>

definition proxy_auth :: "proxy_world \<Rightarrow> char list" where
  "proxy_auth w = (case proxy_username w of None \<Rightarrow> [] | Some u \<Rightarrow> auth_text u (proxy_password w))"

lemma proxy_request_heap [simp]:
  "proxy_request (w\<lparr>http_proxy_io_state := st\<rparr>) = proxy_request w" "proxy_request (w\<lparr>proxy_heap := h\<rparr>) = proxy_request w"
  "proxy_config_ok (w\<lparr>http_proxy_io_state := st\<rparr>) = proxy_config_ok w" "proxy_config_ok (w\<lparr>proxy_heap := h\<rparr>) = proxy_config_ok w"
  by (simp_all add: proxy_request_def proxy_config_ok_def fun_eq_iff)

lemma start_connect_sends:
  assumes ok: "proxy_config_ok w" and fits: "Suc (length (proxy_request w (proxy_auth w))) < SIZE_MAX"
    and cb: "on_io_open_complete w = Some n"
  shows "connect_outcome (proxy_request w (proxy_auth w)) w (start_connect w)"
proof -
  define w1 where "w1 = w\<lparr>http_proxy_io_state := HTTP_PROXY_IO_STATE_WAITING_FOR_CONNECT_RESPONSE\<rparr>"
  have same: "connect_outcome t w w' = connect_outcome t w1 w'" for t w'
    by (simp add: connect_outcome_def w1_def Let_def)
  show ?thesis
  proof (cases "proxy_username w")
    case None
    have "terminated [NUL]" "cstr [NUL] = []" by (simp_all add: cstr_def)
    then have "connect_outcome (proxy_request w1 (cstr [NUL])) w1 (send_connect_request [NUL] w1)"
      using ok fits cb None by (intro send_connect_request_sends) (simp_all add: w1_def proxy_auth_def)
    moreover have "start_connect w = send_connect_request [NUL] w1"
      using None by (simp add: start_connect_def Let_def flip: w1_def) (simp add: w1_def)
    ultimately show ?thesis unfolding same using None by (simp add: w1_def proxy_auth_def cstr_def)
  next
    case (Some u)
    obtain r w2 where enc: "encode_auth_string u w1 = (r, w2)" by (metis surj_pair)
    have len: "strlen u + 1 + (case proxy_password w1 of None \<Rightarrow> 0 | Some p \<Rightarrow> strlen p) < 2 ^ 31"
      using ok Some by (simp add: proxy_config_ok_def w1_def)
    note res = encode_auth_string_result [OF len enc]
    have user: "proxy_username w1 = Some u" using Some by (simp add: w1_def)
    show ?thesis
    proof (cases r)
      case None
      then obtain h where w2: "w2 = (proxy_open_failed w1)\<lparr>proxy_heap := h\<rparr>" "\<exists>i. \<not> mem_ok (proxy_heap w1) i" using res by auto
      have "proxy_username w2 = Some u" using user cb by (simp add: w2 open_failed_fields w1_def)
      then have "start_connect w = w2"
        using Some user enc None by (simp add: start_connect_def Let_def flip: w1_def)
      then show ?thesis unfolding same using w2 cb by (simp add: open_failed_fields connect_outcome_def w1_def)
    next
      case s: (Some str)
      then obtain h where w2: "w2 = w1\<lparr>proxy_heap := h\<rparr>" "str_inv str" "str_val str = auth_text u (proxy_password w1)"
        "mem_ok h = mem_ok (proxy_heap w1)" using res by auto
      have payload: "terminated (str_s str)" "cstr (str_s str) = proxy_auth w"
        using w2(2,3) Some by (simp_all add: str_inv_def str_val_def proxy_auth_def w1_def)
      have "connect_outcome (proxy_request w2 (cstr (str_s str))) w2 (send_connect_request (str_s str) w2)"
        using ok fits cb payload by (intro send_connect_request_sends) (simp_all add: w1_def w2(1))
      then have "connect_outcome (proxy_request w (proxy_auth w)) w (send_connect_request (str_s str) w2)"
        using payload(2) connect_outcome_heap(2) [OF w2(4)] unfolding same w2(1) by (simp add: w1_def)
      moreover have "start_connect w = (send_connect_request (str_s str) w2)
          \<lparr>proxy_heap := STRING_delete (Some str) (proxy_heap (send_connect_request (str_s str) w2))\<rparr>"
        using Some enc s user w2(1) by (simp add: start_connect_def Let_def STRING_c_str_def flip: w1_def)
      ultimately show ?thesis by (simp add: connect_outcome_heap)
    qed
  qed
qed

section \<open>Properties\<close>

text \<open>C19: Once the underlying IO to the proxy is open, exactly one CONNECT request is sent, and it
  is the text that the configuration prescribes: the target in authority form twice, the port in
  decimal, and the Base 64 of user and password when there is a user. Then the response is
  awaited. When the request is refused, or an allocation fails, the underlying IO is closed and
  one failed open is reported; in the second case nothing is sent.\<close>

theorem connect_request_is_text:
  assumes "proxy_config_ok w" and "Suc (length (proxy_request w (proxy_auth w))) < SIZE_MAX"
    and "on_io_open_complete w = Some n" and "http_proxy_io_state w = HTTP_PROXY_IO_STATE_OPENING_UNDERLYING_IO"
  shows "connect_outcome (proxy_request w (proxy_auth w)) w (on_proxy_open_complete CLIENT (IO_OPEN_OK, code) w) \<and>
    ((\<forall>i. mem_ok (proxy_heap w) i) \<and> under_send_answer w (under_calls w) = Success \<longrightarrow>
      http_proxy_io_state (on_proxy_open_complete CLIENT (IO_OPEN_OK, code) w) =
        HTTP_PROXY_IO_STATE_WAITING_FOR_CONNECT_RESPONSE)"
  using start_connect_sends [OF assms(1-3)] assms(4)
  by (auto simp: on_proxy_open_complete_def connect_outcome_def Let_def split: if_splits)

definition demo_proxy :: proxy_world where
  "demo_proxy = \<lparr>http_proxy_io_state = HTTP_PROXY_IO_STATE_CLOSED, on_bytes_received = None, on_io_error = None,
     on_io_open_complete = None, on_io_close_complete = None, target_hostname = c_lit ''a.b'', target_port = 443,
     proxy_hostname = c_lit ''p'', proxy_port = 8080, proxy_username = Some (c_lit ''u''),
     proxy_password = Some (c_lit ''p''), receive_buffer = None, receive_buffer_size = 0,
     proxy_open_start_time = 0, proxy_last_open_wait_log_time = 0, proxy_heap = heap0, proxy_errno = 0,
     proxy_time = (\<lambda>_. 0), proxy_time_reads = 0, under_open_answer = (\<lambda>_. (Success, None)),
     under_close_answer = (\<lambda>_. (Success, True)), under_send_answer = (\<lambda>_. Success),
     under_option_answer = (\<lambda>_. Success), under_calls = 0, proxy_events = []\<rparr>"

theorem connect_request_is_text_witness:
  "proxy_events (on_proxy_open_complete CLIENT (IO_OPEN_OK, 0)
     (demo_proxy\<lparr>http_proxy_io_state := HTTP_PROXY_IO_STATE_OPENING_UNDERLYING_IO, on_io_open_complete := Some 1\<rparr>)) =
   [Under_Send (map byte_of_char (''CONNECT a.b:443 HTTP/1.1'' @ CRLF @ ''Host:a.b:443'' @ CRLF @
      ''Proxy-authorization: Basic dTpw'' @ CRLF @ CRLF)) None]"
proof -
  let ?w = "demo_proxy\<lparr>http_proxy_io_state := HTTP_PROXY_IO_STATE_OPENING_UNDERLYING_IO, on_io_open_complete := Some 1\<rparr>"
  have req: "proxy_request ?w (proxy_auth ?w) = ''CONNECT a.b:443 HTTP/1.1'' @ CRLF @ ''Host:a.b:443'' @ CRLF @
      ''Proxy-authorization: Basic dTpw'' @ CRLF @ CRLF"
    by code_simp
  have env: "mem_ok (proxy_heap ?w) i" "under_send_answer ?w i = Success" for i by (simp_all add: demo_proxy_def heap0_def)
  have ok: "proxy_config_ok ?w" by (simp add: proxy_config_ok_def demo_proxy_def SIZE_MAX_def strlen_def)
  have fields: "on_io_open_complete ?w = Some 1" "proxy_events ?w = []"
    "http_proxy_io_state ?w = HTTP_PROXY_IO_STATE_OPENING_UNDERLYING_IO" by (simp_all add: demo_proxy_def)
  have fits: "Suc (length (proxy_request ?w (proxy_auth ?w))) < SIZE_MAX" unfolding req by (simp add: CRLF_def SIZE_MAX_def)
  show ?thesis
    using connect_request_is_text [OF ok fits fields(1,3), of 0] env fields(2)
    unfolding req by (simp add: connect_outcome_def Let_def)
qed

end
