(* ===== verification/HttpProxyIo_Runs.thy ===== *)
theory HttpProxyIo_Runs
  imports HttpProxyIo_Request
begin

text \<open>
  Runs of the HTTP proxy IO: from the response to the tunnelled bytes, however the underlying IO
  cuts them; each accepted open is completed; the memory of a whole life. The receive buffer is
  never emptied by the code: an open that starts with a response in it may be completed by that
  response, even twice, which two lemmas show.
\<close>

section \<open>The receive buffer\<close>

text \<open>The bytes of the response so far; the block has room for one more.\<close>

definition response_so_far :: "proxy_world \<Rightarrow> byte list" where
  "response_so_far w = (case receive_buffer w of None \<Rightarrow> [] | Some b \<Rightarrow> take (receive_buffer_size w) b)"

definition receive_ok :: "proxy_world \<Rightarrow> bool" where
  "receive_ok w \<longleftrightarrow> (case receive_buffer w of None \<Rightarrow> receive_buffer_size w = 0 | Some b \<Rightarrow> receive_buffer_size w < length b)"

text \<open>No complete header in the buffer.\<close>

definition header_pending :: "proxy_world \<Rightarrow> bool" where
  "header_pending w \<longleftrightarrow> (receive_buffer_size w \<ge> 4 \<longrightarrow>
     strstr (map char_of_byte ((the (receive_buffer w))[receive_buffer_size w := 0])) (CRLF @ CRLF) = None)"

lemma accumulated:
  assumes "receive_ok w" and "sz \<le> length bs"
    and "realloc_block id (receive_buffer w) (receive_buffer_size w + sz + 1) (proxy_heap w) = (Some b, h)"
  defines "w' \<equiv> w\<lparr>receive_buffer := Some (memcpy_at b (receive_buffer_size w) bs sz),
      receive_buffer_size := receive_buffer_size w + sz, proxy_heap := h\<rparr>"
  shows "accumulate_response bs sz w = w'" and "receive_ok w'" and "response_so_far w' = response_so_far w @ take sz bs"
    and "length (memcpy_at b (receive_buffer_size w) bs sz) = receive_buffer_size w + sz + 1"
proof -
  have len: "length b = receive_buffer_size w + sz + 1"
    using assms(3) by (auto simp: realloc_block_def malloc_block_def split: option.splits if_splits)
  show "accumulate_response bs sz w = w'" using assms(3) by (simp add: accumulate_response_def w'_def)
  show l: "length (memcpy_at b (receive_buffer_size w) bs sz) = receive_buffer_size w + sz + 1" using len assms(2) by simp
  show "receive_ok w'" using l by (simp add: receive_ok_def w'_def)
  have "take (receive_buffer_size w) b = response_so_far w"
    using assms(1,3) by (auto simp: response_so_far_def receive_ok_def realloc_block_def malloc_block_def split: option.splits if_splits)
  moreover have "take (receive_buffer_size w + sz) (memcpy_at b (receive_buffer_size w) bs sz) = take (receive_buffer_size w) b @ take sz bs"
    using len assms(2) by (simp add: memcpy_at_def)
  ultimately show "response_so_far w' = response_so_far w @ take sz bs" by (simp add: response_so_far_def [of w', unfolded w'_def] w'_def)
qed

section \<open>From the response to the tunnel\<close>

text \<open>A successful response to a CONNECT request.\<close>

definition connect_response :: "char list \<Rightarrow> bool" where
  "connect_response s \<longleftrightarrow> complete_header s \<and>
     (\<exists>v d1 d2 r. s = ''HTTP/1.'' @ [v] @ '' 2'' @ [d1, d2] @ '' '' @ r \<and>
        v \<noteq> CHR '' '' \<and> v \<noteq> NUL \<and> digit_of d1 < 10 \<and> digit_of d2 < 10)"

lemma connect_status:
  assumes "connect_response s"
  shows "\<exists>code. ParseHttpResponse (Some (s @ z)) errno = (Success, code, errno) \<and> 200 \<le> code \<and> code \<le> 299"
proof -
  obtain v d1 d2 r where s: "s = ''HTTP/1.'' @ [v] @ '' 2'' @ [d1, d2] @ '' '' @ r" "v \<noteq> CHR '' ''" "v \<noteq> NUL"
    and d: "digit_of d1 < 10" "digit_of d2 < 10"
    using assms unfolding connect_response_def by blast
  have c: "c_isspace (CHR '' '')" "\<not> c_isspace (CHR ''2'')" "digit_of (CHR ''2'') = 2" "digit_of (CHR '' '') = 36"
    by (simp_all add: c_isspace_def digit_of_def Let_def)
  define code where "code = 200 + 10 * int (digit_of d1) + int (digit_of d2)"
  have range: "200 \<le> code" "code \<le> 299" using d by (simp_all add: code_def)
  have "strtol ('' 2'' @ [d1, d2] @ '' '' @ q) = (code, 4, False)" for q
    using d by (simp add: strtol_def Let_def c LONG_MAX_def code_def)
  moreover have "sint (word_of_int code :: 32 word) = code"
    using range by (simp add: signed_of_int signed_take_bit_int_eq_self)
  ultimately have "ParseStringToDecimal ('' 2'' @ [d1, d2] @ '' '' @ q) errno = (Success, code, errno)" for q
    using range by (simp add: ParseStringToDecimal_def INT_MAX_def del: append.simps)
  then have "ParseHttpResponse (Some (s @ z)) errno = (Success, code, errno)"
    using s by (simp add: ParseHttpResponse_def)
  then show ?thesis using range by auto
qed

text \<open>An IO that waits for the response: it reports the open to \<open>m\<close> and bytes to \<open>n\<close>.\<close>

definition proxy_waiting :: "nat \<Rightarrow> nat \<Rightarrow> proxy_world \<Rightarrow> bool" where
  "proxy_waiting m n w \<longleftrightarrow> http_proxy_io_state w = HTTP_PROXY_IO_STATE_WAITING_FOR_CONNECT_RESPONSE \<and>
     on_io_open_complete w = Some m \<and> on_bytes_received w = Some n \<and> receive_ok w \<and> (\<forall>i. mem_ok (proxy_heap w) i)"

definition proxy_tunnel :: "nat \<Rightarrow> proxy_world \<Rightarrow> bool" where
  "proxy_tunnel n w \<longleftrightarrow> http_proxy_io_state w = HTTP_PROXY_IO_STATE_OPEN \<and> on_bytes_received w = Some n"

lemma tunnel_piece:
  "proxy_tunnel n w \<Longrightarrow> on_proxy_bytes_received CLIENT bs (length bs) w = w\<lparr>proxy_events := proxy_events w @ [Bytes_Received n bs]\<rparr>"
  by (simp add: proxy_tunnel_def on_proxy_bytes_received_def call_back_def note_event_def)

lemma proxy_waiting_piece:
  assumes w: "proxy_waiting m n w" and s: "connect_response s"
    and fed: "response_so_far w @ bs = map byte_of_char (take k s) @ rest" "length (response_so_far w) < length s"
    and cut: "k = min (length s) (length (response_so_far w) + length bs)"
  shows "if length (response_so_far w) + length bs < length s
    then proxy_waiting m n (on_proxy_bytes_received CLIENT bs (length bs) w) \<and>
      response_so_far (on_proxy_bytes_received CLIENT bs (length bs) w) = response_so_far w @ bs \<and>
      proxy_events (on_proxy_bytes_received CLIENT bs (length bs) w) = proxy_events w
    else proxy_tunnel n (on_proxy_bytes_received CLIENT bs (length bs) w) \<and>
      proxy_events (on_proxy_bytes_received CLIENT bs (length bs) w) =
        proxy_events w @ Open_Complete m IO_OPEN_OK (Code 0) # (if rest = [] then [] else [Bytes_Received n rest])"
proof -
  have state: "http_proxy_io_state w = HTTP_PROXY_IO_STATE_WAITING_FOR_CONNECT_RESPONSE" "receive_ok w"
    "on_io_open_complete w = Some m" "on_bytes_received w = Some n" "\<forall>i. mem_ok (proxy_heap w) i"
    using w by (simp_all add: proxy_waiting_def)
  obtain b h where r: "realloc_block id (receive_buffer w) (receive_buffer_size w + length bs + 1) (proxy_heap w) = (Some b, h)"
    "\<forall>i. mem_ok h i"
    using state(5) by (cases "receive_buffer w") (auto simp: realloc_block_def malloc_block_def granted_def after_request_def)
  note acc = accumulated [OF state(2) le_refl r(1)]
  define n0 where "n0 = receive_buffer_size w + length bs"
  define w1 where "w1 = accumulate_response bs (length bs) w"
  let ?b = "memcpy_at b (receive_buffer_size w) bs (length bs)"
  have w1: "receive_buffer w1 = Some ?b" "receive_buffer_size w1 = n0" "response_so_far w1 = response_so_far w @ bs"
    "http_proxy_io_state w1 = http_proxy_io_state w" "on_io_open_complete w1 = Some m" "on_bytes_received w1 = Some n"
    "proxy_events w1 = proxy_events w" "\<forall>i. mem_ok (proxy_heap w1) i" "proxy_errno w1 = proxy_errno w"
    using acc(1,3) state r(2) by (simp_all add: w1_def n0_def)
  have blen: "length ?b = Suc n0" using acc(4) by (simp add: n0_def)
  have size: "length (response_so_far w) = receive_buffer_size w"
    using state(2) by (auto simp: response_so_far_def receive_ok_def split: option.splits)
  have run: "on_proxy_bytes_received CLIENT bs (length bs) w = scan_response w1"
    by (simp add: on_proxy_bytes_received_def state(1) w1_def)
  have content: "take n0 ?b = response_so_far w @ bs" using w1(1-3) by (simp add: response_so_far_def)
  have block: "?b[n0 := 0] = map byte_of_char (take k s) @ rest @ [0]"
  proof -
    have "?b[n0 := 0] = take n0 ?b @ [0]" using blen by (metis lessI take_Suc_conv_app_nth take_all_iff le_refl upd_conv_take_nth_drop drop_all Suc_leI)
    then show ?thesis using content fed(1) by simp
  qed
  have four: "4 \<le> length s" using s by (auto simp: connect_response_def complete_header_def CRLF_def)
  have nul: "char_of_byte 0 = NUL" by (simp add: char_of_byte_def char_of_def)
  have chars: "map char_of_byte (?b[n0 := 0]) = take k s @ map char_of_byte rest @ [NUL]"
    unfolding block using nul by (simp add: comp_def)
  show ?thesis
  proof (cases "n0 < length s")
    case True
    then have k: "k = n0" using cut size by (simp add: n0_def)
    have "length (response_so_far w @ bs) = n0" using size by (simp add: n0_def)
    then have "rest = []" using fed(1) True k by simp
    then have "strstr (map char_of_byte (?b[n0 := 0])) (CRLF @ CRLF) = None"
      unfolding chars using header_not_found [of s n0 "[]"] s True k by (simp add: connect_response_def)
    then have "scan_response w1 = (if n0 \<ge> 4 then w1\<lparr>receive_buffer := Some (?b[n0 := 0])\<rparr> else w1)"
      using w1(1,2) by (simp add: scan_response_def Let_def)
    then show ?thesis
      unfolding run using True size w1 state blen
      by (auto simp: n0_def proxy_waiting_def receive_ok_def response_so_far_def)
  next
    case False
    then have k: "k = length s" using cut size by (simp add: n0_def)
    have found: "strstr (map char_of_byte (?b[n0 := 0])) (CRLF @ CRLF) = Some (length s - 4)"
      unfolding chars k using header_found [of s "map char_of_byte rest @ [NUL]"] s by (simp add: connect_response_def)
    obtain code where code: "ParseHttpResponse (Some (map char_of_byte (?b[n0 := 0]))) (proxy_errno w1) = (Success, code, proxy_errno w1)"
      "200 \<le> code" "code \<le> 299"
      using connect_status [OF s, of "map char_of_byte rest @ [NUL]" "proxy_errno w1"] unfolding chars k by auto
    have n0: "n0 - length s = length rest" "n0 \<ge> 4"
    proof -
      have "length (response_so_far w @ bs) = length s + length rest" unfolding fed(1) k by simp
      then show "n0 - length s = length rest" using size by (simp add: n0_def)
      show "n0 \<ge> 4" using four False by simp
    qed
    have rest: "take (length rest) (drop (length s) (?b[n0 := 0])) = rest" unfolding block k by simp
    have "scan_response w1 = on_connect_response (length s - 4) (w1\<lparr>receive_buffer := Some (?b[n0 := 0])\<rparr>)"
      using w1(1,2) n0(2) found by (simp add: scan_response_def Let_def)
    then show ?thesis
      unfolding run using False size w1 state four code n0 rest
      by (auto simp: n0_def on_connect_response_def proxy_tunnel_def call_back_def note_event_def Let_def)
  qed
qed

text \<open>Bytes received in pieces of any size.\<close>

definition receive_pieces :: "byte list list \<Rightarrow> proxy_world \<Rightarrow> proxy_world" where
  "receive_pieces pieces w = fold (\<lambda>bs. on_proxy_bytes_received CLIENT bs (length bs)) pieces w"

lemma receive_pieces_simps [simp]:
  "receive_pieces [] w = w"
  "receive_pieces (bs # pieces) w = receive_pieces pieces (on_proxy_bytes_received CLIENT bs (length bs) w)"
  by (simp_all add: receive_pieces_def)

lemma tunnel_pieces:
  "proxy_tunnel n w \<Longrightarrow> receive_pieces pieces w = w\<lparr>proxy_events := proxy_events w @ map (Bytes_Received n) pieces\<rparr>"
proof (induction pieces arbitrary: w)
  case (Cons bs pieces)
  then show ?case
    using Cons.IH [of "w\<lparr>proxy_events := proxy_events w @ [Bytes_Received n bs]\<rparr>"]
    by (simp add: tunnel_piece) (simp add: proxy_tunnel_def)
qed simp

lemma proxy_waiting_pieces:
  assumes "proxy_waiting m n w" and s: "connect_response s" and "length (response_so_far w) < length s"
    and "response_so_far w @ concat pieces = map byte_of_char s @ rest"
  shows "\<exists>ds. concat ds = rest \<and> proxy_tunnel n (receive_pieces pieces w) \<and>
    proxy_events (receive_pieces pieces w) =
      proxy_events w @ Open_Complete m IO_OPEN_OK (Code 0) # map (Bytes_Received n) ds"
  using assms
proof (induction pieces arbitrary: w)
  case Nil
  have "length (response_so_far w) = length s + length rest" using Nil.prems(4) by (metis append_Nil2 concat.simps(1) length_append length_map)
  then show ?case using Nil.prems(3) by simp
next
  case (Cons bs pieces)
  define got where "got = response_so_far w"
  define w1 where "w1 = on_proxy_bytes_received CLIENT bs (length bs) w"
  define k where "k = min (length s) (length got + length bs)"
  have all: "(got @ bs) @ concat pieces = map byte_of_char s @ rest" using Cons.prems(4) by (simp add: got_def)
  define q where "q = drop k (got @ bs)"
  have "take k (got @ bs) = take k (map byte_of_char s @ rest)"
    unfolding all [symmetric] by (simp add: k_def)
  then have first: "got @ bs = map byte_of_char (take k s) @ q"
    using append_take_drop_id [of k "got @ bs"] by (simp add: q_def k_def take_map)
  note piece = proxy_waiting_piece [OF Cons.prems(1) s first [unfolded got_def] Cons.prems(3) k_def [unfolded got_def], folded got_def w1_def]
  show ?case
  proof (cases "length got + length bs < length s")
    case True
    then have now: "proxy_waiting m n w1" "response_so_far w1 = got @ bs" "proxy_events w1 = proxy_events w" using piece by simp_all
    have "length (response_so_far w1) < length s" "response_so_far w1 @ concat pieces = map byte_of_char s @ rest"
      using True all by (simp_all add: now(2))
    from Cons.IH [OF now(1) s this] show ?thesis by (simp add: w1_def [symmetric] now(3))
  next
    case False
    then have now: "proxy_tunnel n w1" "proxy_events w1 = proxy_events w @
        Open_Complete m IO_OPEN_OK (Code 0) # (if q = [] then [] else [Bytes_Received n q])" using piece by simp_all
    have "q @ concat pieces = rest"
      using all False unfolding first by (simp add: k_def)
    then have "concat ((if q = [] then [] else [q]) @ pieces) = rest" by auto
    moreover have "receive_pieces (bs # pieces) w = w1\<lparr>proxy_events := proxy_events w1 @ map (Bytes_Received n) pieces\<rparr>"
      using tunnel_pieces [OF now(1)] by (simp add: w1_def)
    ultimately show ?thesis using now
      by (intro exI [of _ "(if q = [] then [] else [q]) @ pieces"]) (simp add: proxy_tunnel_def)
  qed
qed

text \<open>C12: When the IO waits for the response to the CONNECT request, what its buffer holds is the
  beginning of that response (nothing, on a first open) and every allocation is granted, then a
  successful response completes the open once, and every byte behind the response reaches the
  user, in order and nothing else, however the underlying IO cuts the response and the bytes into
  pieces. (A buffer that still holds an earlier response is the case of the last section.)\<close>

theorem tunnel_delivers:
  assumes "http_proxy_io_state w = HTTP_PROXY_IO_STATE_WAITING_FOR_CONNECT_RESPONSE"
    and "on_io_open_complete w = Some m" and "on_bytes_received w = Some n"
    and "receive_ok w" and "\<forall>i. mem_ok (proxy_heap w) i"
    and "connect_response s" and "length (response_so_far w) < length s"
    and "response_so_far w @ concat pieces = map byte_of_char s @ rest"
  shows "\<exists>ds. concat ds = rest \<and> http_proxy_io_state (receive_pieces pieces w) = HTTP_PROXY_IO_STATE_OPEN \<and>
    proxy_events (receive_pieces pieces w) =
      proxy_events w @ Open_Complete m IO_OPEN_OK (Code 0) # map (Bytes_Received n) ds"
proof -
  have "proxy_waiting m n w" using assms(1-5) by (simp add: proxy_waiting_def)
  then show ?thesis using proxy_waiting_pieces [OF _ assms(6-8)] by (auto simp: proxy_tunnel_def)
qed

definition demo_connected :: "char list" where
  "demo_connected = ''HTTP/1.1 200 OK'' @ CRLF @ CRLF"

lemma demo_connected_ok: "connect_response demo_connected"
  unfolding connect_response_def complete_header_def
proof (intro conjI)
  show "\<exists>t. demo_connected = t @ CRLF @ CRLF \<and> (\<forall>k < length t. take 4 (drop k demo_connected) \<noteq> CRLF @ CRLF)"
  proof (intro exI conjI)
    show "demo_connected = ''HTTP/1.1 200 OK'' @ CRLF @ CRLF" by (simp add: demo_connected_def)
    show "\<forall>k < length ''HTTP/1.1 200 OK''. take 4 (drop k demo_connected) \<noteq> CRLF @ CRLF" by code_simp
  qed
  show "\<exists>v d1 d2 r. demo_connected = ''HTTP/1.'' @ [v] @ '' 2'' @ [d1, d2] @ '' '' @ r \<and>
      v \<noteq> CHR '' '' \<and> v \<noteq> NUL \<and> digit_of d1 < 10 \<and> digit_of d2 < 10"
    by (intro exI [of _ "CHR ''1''"] exI [of _ "CHR ''0''"] exI [of _ "''OK'' @ CRLF @ CRLF"] exI)
      (auto simp: demo_connected_def digit_of_def Let_def)
qed (simp add: demo_connected_def CRLF_def)

theorem tunnel_delivers_witness:
  "\<exists>ds. concat ds = [1, 2, 3] \<and>
    proxy_events (receive_pieces [map byte_of_char (take 17 demo_connected), map byte_of_char (drop 17 demo_connected) @ [1], [2, 3]]
      (demo_proxy\<lparr>http_proxy_io_state := HTTP_PROXY_IO_STATE_WAITING_FOR_CONNECT_RESPONSE, on_io_open_complete := Some 1,
        on_bytes_received := Some 2\<rparr>)) =
    Open_Complete 1 IO_OPEN_OK (Code 0) # map (Bytes_Received 2) ds"
proof -
  let ?w = "demo_proxy\<lparr>http_proxy_io_state := HTTP_PROXY_IO_STATE_WAITING_FOR_CONNECT_RESPONSE, on_io_open_complete := Some 1,
      on_bytes_received := Some 2\<rparr>"
  have "receive_ok ?w" "response_so_far ?w = []" "proxy_events ?w = []"
    by (simp_all add: receive_ok_def response_so_far_def demo_proxy_def)
  then show ?thesis
    using tunnel_delivers [OF _ _ _ _ _ demo_connected_ok, of ?w 1 2
        "[map byte_of_char (take 17 demo_connected), map byte_of_char (drop 17 demo_connected) @ [1], [2, 3]]" "[1, 2, 3]"]
    by (auto simp: demo_proxy_def heap0_def demo_connected_def CRLF_def simp flip: map_append)
qed

section \<open>What the steps leave alone\<close>

text \<open>The configuration, the callbacks and the receive buffer; the configuration alone.\<close>

definition same_config :: "proxy_world \<Rightarrow> proxy_world \<Rightarrow> bool" where
  "same_config w w' \<longleftrightarrow>
     target_hostname w' = target_hostname w \<and> target_port w' = target_port w \<and> proxy_hostname w' = proxy_hostname w \<and>
     proxy_port w' = proxy_port w \<and> proxy_username w' = proxy_username w \<and> proxy_password w' = proxy_password w \<and>
     under_open_answer w' = under_open_answer w"

definition only_moves :: "proxy_world \<Rightarrow> proxy_world \<Rightarrow> bool" where
  "only_moves w w' \<longleftrightarrow> same_config w w' \<and> on_bytes_received w' = on_bytes_received w \<and> on_io_error w' = on_io_error w \<and>
     on_io_open_complete w' = on_io_open_complete w \<and>
     receive_buffer w' = receive_buffer w \<and> receive_buffer_size w' = receive_buffer_size w"

named_theorems moves

lemma only_moves_refl [simp]: "only_moves w w"
  by (simp add: only_moves_def same_config_def)

lemma only_moves_update [moves]:
  "only_moves w w1 \<Longrightarrow> only_moves w (w1\<lparr>http_proxy_io_state := st\<rparr>)"
  "only_moves w w1 \<Longrightarrow> only_moves w (w1\<lparr>proxy_heap := h\<rparr>)"
  "only_moves w w1 \<Longrightarrow> only_moves w (w1\<lparr>under_calls := k\<rparr>)"
  "only_moves w w1 \<Longrightarrow> only_moves w (w1\<lparr>proxy_errno := e\<rparr>)"
  "only_moves w w1 \<Longrightarrow> only_moves w (w1\<lparr>proxy_events := es\<rparr>)"
  by (simp_all add: only_moves_def same_config_def)

lemma only_moves_reports [moves]:
  "only_moves w w1 \<Longrightarrow> only_moves w (note_event e w1)"
  "only_moves w w1 \<Longrightarrow> only_moves w (call_back cb ev w1)"
  "only_moves w w1 \<Longrightarrow> only_moves w (under_call e w1)"
  "only_moves w w1 \<Longrightarrow> only_moves w (snd (under_send bs cb w1))"
  "only_moves w w1 \<Longrightarrow> only_moves w (indicate_open_complete_error_and_close c w1)"
  by (simp_all add: note_event_def call_back_def under_call_def under_send_def indicate_open_complete_error_and_close_def
      Let_def moves)

lemma only_moves_send_connect [moves]: "only_moves w w1 \<Longrightarrow> only_moves w (send_connect_request payload w1)"
  by (auto simp: send_connect_request_def under_send_def Let_def moves split: prod.split option.split rc.split)

lemma only_moves_encode [moves]: "only_moves w w1 \<Longrightarrow> only_moves w (snd (encode_auth_string u w1))"
  by (auto simp: encode_auth_string_def Let_def moves split: prod.split option.split)

lemma only_moves_start [moves]: "only_moves w (start_connect w)"
proof -
  define w1 where "w1 = w\<lparr>http_proxy_io_state := HTTP_PROXY_IO_STATE_WAITING_FOR_CONNECT_RESPONSE\<rparr>"
  obtain r w2 where two: "(case proxy_username w1 of None \<Rightarrow> (None, w1) | Some user \<Rightarrow> encode_auth_string user w1) = (r, w2)"
    by (metis surj_pair)
  have "only_moves w w1" by (simp add: w1_def moves)
  then have "only_moves w w2" using two only_moves_encode [of w w1] by (auto split: option.splits) (metis snd_conv)
  then show ?thesis unfolding start_connect_def Let_def w1_def [symmetric] two by (simp add: moves)
qed

text \<open>The memory that is out.\<close>

definition live :: "proxy_world \<Rightarrow> int" where
  "live w = mem_live (proxy_heap w)"

lemma live_reports [simp]:
  "live (w\<lparr>http_proxy_io_state := st\<rparr>) = live w" "live (w\<lparr>under_calls := k\<rparr>) = live w" "live (w\<lparr>proxy_errno := e\<rparr>) = live w"
  "live (w\<lparr>proxy_events := es\<rparr>) = live w" "live (note_event ev w) = live w" "live (call_back cb evf w) = live w"
  "live (under_call ev w) = live w" "live (snd (under_send bs cb w)) = live w"
  "live (indicate_open_complete_error_and_close c w) = live w"
  by (simp_all add: live_def note_event_def call_back_def under_call_def under_send_def
      indicate_open_complete_error_and_close_def Let_def)

lemma live_send_connect: "live (send_connect_request payload w) = live w"
  by (auto simp: send_connect_request_def live_def under_send_def under_call_def note_event_def malloc_block_def after_request_def
      c_free_def Let_def split: prod.split option.split rc.split)

lemma live_start:
  assumes "proxy_config_ok w"
  shows "live (start_connect w) = live w"
proof -
  define w1 where "w1 = w\<lparr>http_proxy_io_state := HTTP_PROXY_IO_STATE_WAITING_FOR_CONNECT_RESPONSE\<rparr>"
  show ?thesis
  proof (cases "proxy_username w")
    case None
    then have "start_connect w = send_connect_request [NUL] w1" by (simp add: start_connect_def Let_def flip: w1_def) (simp add: w1_def)
    then show ?thesis using live_send_connect by (simp add: w1_def)
  next
    case (Some u)
    obtain r w2 where enc: "encode_auth_string u w1 = (r, w2)" by (metis surj_pair)
    have len: "strlen u + 1 + (case proxy_password w1 of None \<Rightarrow> 0 | Some p \<Rightarrow> strlen p) < 2 ^ 31"
      using assms Some by (simp add: proxy_config_ok_def w1_def)
    note res = encode_auth_string_result [OF len enc]
    have user: "proxy_username w1 = Some u" "proxy_username w2 = Some u"
      using Some only_moves_encode [of w1 w1 u] enc by (simp_all add: w1_def only_moves_def same_config_def)
    show ?thesis
    proof (cases r)
      case None
      then have "start_connect w = w2" using user enc by (simp add: start_connect_def Let_def flip: w1_def)
      then show ?thesis using res None by (simp add: live_def w1_def)
    next
      case (Some str)
      have "STRING_delete (Some str) h = h\<lparr>mem_live := mem_live h - 2\<rparr>" for h
        using res Some by (simp add: STRING_delete_def c_free_def free_struct_def str_inv_def)
      then show ?thesis
        using Some user enc res live_send_connect [of _ w2]
        by (simp add: start_connect_def Let_def live_def w1_def [symmetric]) (simp add: w1_def)
    qed
  qed
qed

section \<open>The invariant of a run\<close>

definition is_completion :: "proxy_event \<Rightarrow> bool" where
  "is_completion e = (case e of Open_Complete _ _ _ \<Rightarrow> True | _ \<Rightarrow> False)"

definition completions :: "proxy_world \<Rightarrow> nat" where
  "completions w = length (filter is_completion (proxy_events w))"

fun opening_state :: "HTTP_PROXY_IO_STATE \<Rightarrow> bool" where
  "opening_state HTTP_PROXY_IO_STATE_OPENING_UNDERLYING_IO = True"
| "opening_state HTTP_PROXY_IO_STATE_WAITING_FOR_CONNECT_RESPONSE = True"
| "opening_state _ = False"

abbreviation in_progress :: "proxy_world \<Rightarrow> bool" where
  "in_progress w \<equiv> opening_state (http_proxy_io_state w)"

definition callbacks_set :: "proxy_world \<Rightarrow> bool" where
  "callbacks_set w \<longleftrightarrow> on_io_open_complete w \<noteq> None \<and> on_bytes_received w \<noteq> None \<and> on_io_error w \<noteq> None"

definition response_block :: "proxy_world \<Rightarrow> int" where
  "response_block w = (case receive_buffer w of None \<Rightarrow> 0 | Some _ \<Rightarrow> 1)"

text \<open>
  Every accepted open (\<open>n\<close> of them) has been completed or is still in progress - once, when the
  books are exact (\<open>x\<close>); no null callback has been called; the only block beside those of the
  instance is the receive buffer, which the bytes never exceed.
\<close>

definition proxy_base :: "proxy_world \<Rightarrow> bool \<Rightarrow> nat \<Rightarrow> proxy_world \<Rightarrow> bool" where
  "proxy_base w0 x n w \<longleftrightarrow>
     same_config w0 w \<and> receive_ok w \<and> live w = live w0 + response_block w \<and>
     (x \<longrightarrow> http_proxy_io_state w = HTTP_PROXY_IO_STATE_OPENING_UNDERLYING_IO \<longrightarrow> receive_buffer_size w = 0) \<and>
     (http_proxy_io_state w \<noteq> HTTP_PROXY_IO_STATE_CLOSED \<longrightarrow> callbacks_set w) \<and>
     n \<le> completions w + of_bool (in_progress w) \<and> (x \<longrightarrow> completions w + of_bool (in_progress w) = n) \<and> Null_Callback \<notin> set (proxy_events w)"

definition proxy_inv :: "proxy_world \<Rightarrow> bool \<Rightarrow> nat \<Rightarrow> proxy_world \<Rightarrow> bool" where
  "proxy_inv w0 x n w \<longleftrightarrow> proxy_base w0 x n w \<and>
     (x \<longrightarrow> http_proxy_io_state w = HTTP_PROXY_IO_STATE_WAITING_FOR_CONNECT_RESPONSE \<longrightarrow> header_pending w)"

lemma inv_base: "proxy_inv w0 x n w \<Longrightarrow> proxy_base w0 x n w"
  by (simp add: proxy_inv_def)

lemma is_completion_simps [simp]:
  "is_completion (Open_Complete m r c)" "\<not> is_completion (Bytes_Received m bs)" "\<not> is_completion (Io_Error m)"
  "\<not> is_completion (Close_Complete m)" "\<not> is_completion Under_Open" "\<not> is_completion Under_Close"
  "\<not> is_completion (Under_Send bs cb)" "\<not> is_completion Under_Dowork" "\<not> is_completion (Under_Set_Option s)"
  "\<not> is_completion Under_Destroy" "\<not> is_completion Null_Callback"
  by (simp_all add: is_completion_def)

lemma same_config_trans: "same_config w0 w \<Longrightarrow> same_config w w' \<Longrightarrow> same_config w0 w'"
  by (simp add: same_config_def)

text \<open>
  A step that only moves: what has to be checked is the number of completions it reports and
  the state it leaves.
\<close>

lemma base_moved:
  assumes inv: "proxy_base w0 x n w" and m: "only_moves w w'" and live: "live w' = live w"
    and events: "proxy_events w' = proxy_events w @ es" "Null_Callback \<notin> set es"
    and count: "length (filter is_completion es) + of_bool (in_progress w') + n = of_bool (in_progress w) + n'"
    and pending: "x \<Longrightarrow> http_proxy_io_state w = HTTP_PROXY_IO_STATE_WAITING_FOR_CONNECT_RESPONSE \<Longrightarrow>
      http_proxy_io_state w' = HTTP_PROXY_IO_STATE_WAITING_FOR_CONNECT_RESPONSE \<Longrightarrow> header_pending w"
    and state: "http_proxy_io_state w' = HTTP_PROXY_IO_STATE_CLOSED \<or> http_proxy_io_state w' = http_proxy_io_state w \<or>
      (http_proxy_io_state w \<noteq> HTTP_PROXY_IO_STATE_CLOSED \<or> callbacks_set w) \<and> \<not> in_progress w' \<or>
      http_proxy_io_state w = HTTP_PROXY_IO_STATE_OPENING_UNDERLYING_IO \<and>
      http_proxy_io_state w' = HTTP_PROXY_IO_STATE_WAITING_FOR_CONNECT_RESPONSE"
  shows "proxy_inv w0 x n' w'"
proof -
  have fields: "receive_buffer w' = receive_buffer w" "receive_buffer_size w' = receive_buffer_size w" "callbacks_set w' = callbacks_set w"
    using m by (simp_all add: only_moves_def callbacks_set_def)
  have "same_config w0 w'" using inv m same_config_trans [of w0 w w'] by (simp add: proxy_base_def only_moves_def)
  moreover have "n' \<le> completions w' + of_bool (in_progress w')" "x \<Longrightarrow> completions w' + of_bool (in_progress w') = n'"
    using inv count by (auto simp: proxy_base_def completions_def events(1))
  moreover have "receive_ok w' = receive_ok w" "header_pending w' = header_pending w" "response_block w' = response_block w"
    using fields by (simp_all add: receive_ok_def header_pending_def response_block_def)
  moreover have "receive_buffer_size w = 0 \<Longrightarrow> header_pending w" by (simp add: header_pending_def)
  ultimately show ?thesis
    using inv state events fields pending unfolding proxy_inv_def proxy_base_def by (auto simp: live)
qed

lemma inv_moved:
  assumes "proxy_inv w0 x n w" and "only_moves w w'" and "live w' = live w"
    and "proxy_events w' = proxy_events w @ es" "Null_Callback \<notin> set es"
    and "length (filter is_completion es) + of_bool (in_progress w') + n = of_bool (in_progress w) + n'"
    and "http_proxy_io_state w' = HTTP_PROXY_IO_STATE_CLOSED \<or> http_proxy_io_state w' = http_proxy_io_state w \<or>
      http_proxy_io_state w \<noteq> HTTP_PROXY_IO_STATE_CLOSED \<and> \<not> in_progress w' \<or>
      http_proxy_io_state w = HTTP_PROXY_IO_STATE_OPENING_UNDERLYING_IO \<and>
      http_proxy_io_state w' = HTTP_PROXY_IO_STATE_WAITING_FOR_CONNECT_RESPONSE"
  shows "proxy_inv w0 x n' w'"
proof -
  have "x \<Longrightarrow> http_proxy_io_state w = HTTP_PROXY_IO_STATE_WAITING_FOR_CONNECT_RESPONSE \<Longrightarrow> header_pending w"
    using assms(1) by (simp add: proxy_inv_def)
  then show ?thesis by (rule base_moved [OF inv_base [OF assms(1)] assms(2-6)]) (use assms(7) in blast)+
qed

lemma base_callbacks:
  assumes "proxy_base w0 x n w" and "http_proxy_io_state w \<noteq> HTTP_PROXY_IO_STATE_CLOSED"
  shows "\<exists>a b c. on_io_open_complete w = Some a \<and> on_bytes_received w = Some b \<and> on_io_error w = Some c"
  using assms by (auto simp: proxy_base_def callbacks_set_def)

lemmas inv_callbacks = base_callbacks [OF inv_base]

lemma opening_not_closed: "opening_state st \<Longrightarrow> st \<noteq> HTTP_PROXY_IO_STATE_CLOSED"
  by auto

text \<open>An open that fails is completed.\<close>

lemma base_open_failed:
  assumes "proxy_base w0 x n w" and "in_progress w"
  shows "proxy_inv w0 x n (indicate_open_complete_error_and_close c w)"
proof -
  obtain a where a: "on_io_open_complete w = Some a"
    using base_callbacks [OF assms(1) opening_not_closed [OF assms(2)]] by blast
  show ?thesis
    by (rule base_moved [OF assms(1), of _ "[Under_Close, Open_Complete a IO_OPEN_ERROR c]"])
      (use assms(2) a in \<open>auto simp: open_failed_fields moves\<close>)
qed

lemmas inv_open_failed = base_open_failed [OF inv_base]

lemma inv_io_error:
  assumes "proxy_inv w0 x n w" and "http_proxy_io_state w \<noteq> HTTP_PROXY_IO_STATE_CLOSED" and "\<not> in_progress w"
    and "st = http_proxy_io_state w \<or> st = HTTP_PROXY_IO_STATE_ERROR"
  shows "proxy_inv w0 x n (call_back (on_io_error w) Io_Error (w\<lparr>http_proxy_io_state := st\<rparr>))"
proof -
  obtain a where a: "on_io_error w = Some a" using inv_callbacks [OF assms(1,2)] by blast
  show ?thesis
    by (rule inv_moved [OF assms(1), of _ "[Io_Error a]"])
      (use assms(2-) a in \<open>auto simp: call_back_def note_event_def moves live_def\<close>)
qed

lemma inv_start:
  assumes inv: "proxy_inv w0 x n w" and state: "http_proxy_io_state w = HTTP_PROXY_IO_STATE_OPENING_UNDERLYING_IO"
    and ok: "proxy_config_ok w" "Suc (length (proxy_request w (proxy_auth w))) < SIZE_MAX"
  shows "proxy_inv w0 x n (start_connect w)"
proof -
  obtain a where a: "on_io_open_complete w = Some a" using inv_callbacks [OF inv] state by auto
  have out: "connect_outcome (proxy_request w (proxy_auth w)) w (start_connect w)" using start_connect_sends ok a by blast
  let ?es = "drop (length (proxy_events w)) (proxy_events (start_connect w))"
  show ?thesis
  proof (rule inv_moved [OF inv only_moves_start live_start [OF ok(1)], of ?es])
    show "proxy_events (start_connect w) = proxy_events w @ ?es" "Null_Callback \<notin> set ?es"
      "length (filter is_completion ?es) + of_bool (in_progress (start_connect w)) + n = of_bool (in_progress w) + n"
      using out state by (auto simp: connect_outcome_def Let_def split: if_splits)
    show "http_proxy_io_state (start_connect w) = HTTP_PROXY_IO_STATE_CLOSED \<or> http_proxy_io_state (start_connect w) = http_proxy_io_state w \<or>
      http_proxy_io_state w \<noteq> HTTP_PROXY_IO_STATE_CLOSED \<and> \<not> in_progress (start_connect w) \<or>
      http_proxy_io_state w = HTTP_PROXY_IO_STATE_OPENING_UNDERLYING_IO \<and>
      http_proxy_io_state (start_connect w) = HTTP_PROXY_IO_STATE_WAITING_FOR_CONNECT_RESPONSE"
      using out state by (auto simp: connect_outcome_def Let_def split: if_splits)
  qed
qed

lemma inv_io_error_same:
  "proxy_inv w0 x n w \<Longrightarrow> http_proxy_io_state w \<noteq> HTTP_PROXY_IO_STATE_CLOSED \<Longrightarrow> \<not> in_progress w \<Longrightarrow>
     proxy_inv w0 x n (call_back (on_io_error w) Io_Error w)"
  using inv_io_error [of w0 x n w "http_proxy_io_state w"] by simp

text \<open>The configuration is one for which the request can be built.\<close>

definition buildable :: "proxy_world \<Rightarrow> bool" where
  "buildable w \<longleftrightarrow> proxy_config_ok w \<and> Suc (length (proxy_request w (proxy_auth w))) < SIZE_MAX"

lemma buildable_same: "same_config w0 w \<Longrightarrow> buildable w = buildable w0"
  by (simp add: buildable_def proxy_config_ok_def proxy_request_def proxy_auth_def same_config_def)

lemma inv_open_complete:
  assumes inv: "proxy_inv w0 x n w" and ok: "buildable w0"
  shows "proxy_inv w0 x n (on_proxy_open_complete c r w)"
proof (cases c)
  case NULL_HANDLE
  then show ?thesis using inv by (simp add: on_proxy_open_complete_def)
next
  case CLIENT
  have fits: "proxy_config_ok w" "Suc (length (proxy_request w (proxy_auth w))) < SIZE_MAX"
    using buildable_same [of w0 w] inv ok by (simp_all add: proxy_inv_def proxy_base_def buildable_def)
  obtain res code where r: "r = (res, code)" by fastforce
  show ?thesis
  proof (cases "http_proxy_io_state w")
    case HTTP_PROXY_IO_STATE_OPENING_UNDERLYING_IO
    show ?thesis
    proof (cases res)
      case IO_OPEN_OK
      then show ?thesis using inv_start [OF inv HTTP_PROXY_IO_STATE_OPENING_UNDERLYING_IO fits] CLIENT HTTP_PROXY_IO_STATE_OPENING_UNDERLYING_IO r
        by (simp add: on_proxy_open_complete_def)
    next
      case IO_OPEN_ERROR
      then show ?thesis using inv_open_failed [OF inv] CLIENT HTTP_PROXY_IO_STATE_OPENING_UNDERLYING_IO r
        by (simp add: on_proxy_open_complete_def)
    next
      case IO_OPEN_CANCELLED
      obtain a where a: "on_io_open_complete w = Some a" using inv_callbacks [OF inv] HTTP_PROXY_IO_STATE_OPENING_UNDERLYING_IO by auto
      show ?thesis
        by (rule inv_moved [OF inv, of _ "[Under_Close, Open_Complete a IO_OPEN_CANCELLED (Code code)]"])
          (use a CLIENT HTTP_PROXY_IO_STATE_OPENING_UNDERLYING_IO IO_OPEN_CANCELLED r in
            \<open>auto simp: on_proxy_open_complete_def moves call_back_def note_event_def under_call_def live_def Let_def\<close>)
    qed
  next
    case HTTP_PROXY_IO_STATE_WAITING_FOR_CONNECT_RESPONSE
    then show ?thesis using inv_open_failed [OF inv] CLIENT by (simp add: on_proxy_open_complete_def)
  next
    case HTTP_PROXY_IO_STATE_OPEN
    then show ?thesis using inv_io_error_same [OF inv] CLIENT by (simp add: on_proxy_open_complete_def)
  next
    case HTTP_PROXY_IO_STATE_CLOSING
    then show ?thesis using inv_io_error_same [OF inv] CLIENT by (simp add: on_proxy_open_complete_def)
  qed (use inv CLIENT in \<open>simp_all add: on_proxy_open_complete_def\<close>)
qed

section \<open>Every step keeps the invariant\<close>

lemma inv_proxy_io_error: "proxy_inv w0 x n w \<Longrightarrow> proxy_inv w0 x n (on_proxy_io_error c w)"
  using inv_open_failed [of w0 x n w] inv_io_error [of w0 x n w HTTP_PROXY_IO_STATE_ERROR]
  by (simp add: on_proxy_io_error_def Let_def split: handle.split HTTP_PROXY_IO_STATE.split)

lemma inv_proxy_close_complete:
  assumes "proxy_inv w0 x n w"
  shows "proxy_inv w0 x n (on_proxy_close_complete c w)"
proof (cases "c = CLIENT \<and> http_proxy_io_state w = HTTP_PROXY_IO_STATE_CLOSING")
  case True
  show ?thesis
    by (rule inv_moved [OF assms, of _ "case on_io_close_complete w of None \<Rightarrow> [] | Some m \<Rightarrow> [Close_Complete m]"])
      (use True in \<open>auto simp: on_proxy_close_complete_def Let_def moves note_event_def live_def split: option.split\<close>)
next
  case False
  then show ?thesis using assms by (auto simp: on_proxy_close_complete_def split: handle.split)
qed

text \<open>The terminator behind the bytes of the response.\<close>

lemma inv_terminated:
  assumes "proxy_inv w0 x n w" and "receive_buffer w = Some b"
  shows "proxy_inv w0 x n (w\<lparr>receive_buffer := Some (b[receive_buffer_size w := 0])\<rparr>)"
  using assms
  by (simp add: proxy_inv_def proxy_base_def same_config_def receive_ok_def live_def response_block_def callbacks_set_def
      completions_def header_pending_def)

lemma base_connect_response:
  assumes base: "proxy_base w0 x n w" and state: "http_proxy_io_state w = HTTP_PROXY_IO_STATE_WAITING_FOR_CONNECT_RESPONSE"
  shows "proxy_inv w0 x n (on_connect_response e w)"
proof -
  obtain a b d where cbs: "on_io_open_complete w = Some a" "on_bytes_received w = Some b" "on_io_error w = Some d"
    using base_callbacks [OF base] state by auto
  obtain r code en where p: "ParseHttpResponse (Some (map char_of_byte (the (receive_buffer w)))) (proxy_errno w) = (r, code, en)"
    by (metis surj_pair)
  define w1 where "w1 = w\<lparr>proxy_errno := en\<rparr>"
  have base1: "proxy_base w0 x n w1"
    using base by (simp add: w1_def proxy_base_def same_config_def receive_ok_def live_def response_block_def callbacks_set_def completions_def)
  show ?thesis
  proof (cases "r = Failure \<or> code < 200 \<or> code > 299")
    case True
    then have "on_connect_response e w = proxy_open_failed w1" using p by (auto simp: on_connect_response_def w1_def Let_def)
    then show ?thesis using base_open_failed [OF base1] state by (simp add: w1_def)
  next
    case False
    then have r: "r = Success" by (cases r) auto
    define es where "es = Open_Complete a IO_OPEN_OK (Code 0) #
        (if receive_buffer_size w - (e + 4) > 0
         then [Bytes_Received b (take (receive_buffer_size w - (e + 4)) (drop (e + 4) (the (receive_buffer w))))] else [])"
    have res: "on_connect_response e w = w\<lparr>proxy_errno := en, http_proxy_io_state := HTTP_PROXY_IO_STATE_OPEN, proxy_events := proxy_events w @ es\<rparr>"
      using False r p cbs by (simp add: on_connect_response_def Let_def call_back_def note_event_def es_def)
    have es: "length (filter is_completion es) = 1" "Null_Callback \<notin> set es" by (simp_all add: es_def)
    show ?thesis
      by (rule base_moved [OF base, of _ es]) (use state es in \<open>simp_all add: res moves live_def\<close>)
  qed
qed

lemma base_accumulated:
  assumes base: "proxy_base w0 x n w" and state: "http_proxy_io_state w = HTTP_PROXY_IO_STATE_WAITING_FOR_CONNECT_RESPONSE"
    and "sz \<le> length bs"
    and r: "realloc_block id (receive_buffer w) (receive_buffer_size w + sz + 1) (proxy_heap w) = (Some b, h)"
  shows "proxy_base w0 x n (accumulate_response bs sz w)"
proof -
  have ok: "receive_ok w" using base by (simp add: proxy_base_def)
  note acc = accumulated [OF ok assms(3) r]
  have "mem_live h + response_block w = mem_live (proxy_heap w) + 1"
    using r by (cases "receive_buffer w")
      (auto simp: response_block_def realloc_block_def malloc_block_def after_request_def split: if_splits)
  then show ?thesis
    using base state acc(2) unfolding acc(1)
    by (simp add: proxy_base_def same_config_def live_def response_block_def callbacks_set_def completions_def)
qed

lemma base_scan:
  assumes base: "proxy_base w0 x n w" and state: "http_proxy_io_state w = HTTP_PROXY_IO_STATE_WAITING_FOR_CONNECT_RESPONSE"
    and b: "receive_buffer w = Some b"
  shows "proxy_inv w0 x n (scan_response w)"
proof -
  define w1 where "w1 = w\<lparr>receive_buffer := Some (b[receive_buffer_size w := 0])\<rparr>"
  have base1: "proxy_base w0 x n w1" "http_proxy_io_state w1 = HTTP_PROXY_IO_STATE_WAITING_FOR_CONNECT_RESPONSE"
    using base state b
    by (simp_all add: w1_def proxy_base_def same_config_def receive_ok_def live_def response_block_def callbacks_set_def completions_def)
  show ?thesis
  proof (cases "receive_buffer_size w \<ge> 4")
    case False
    then show ?thesis using base by (simp add: scan_response_def proxy_inv_def header_pending_def)
  next
    case True
    show ?thesis
    proof (cases "strstr (map char_of_byte (b[receive_buffer_size w := 0])) (CRLF @ CRLF)")
      case None
      then have "scan_response w = w1" using True b by (simp add: scan_response_def w1_def)
      moreover have "header_pending w1" using None b by (simp add: header_pending_def w1_def)
      ultimately show ?thesis using base1 by (simp add: proxy_inv_def)
    next
      case (Some e)
      then have "scan_response w = on_connect_response e w1" using True b by (simp add: scan_response_def w1_def)
      then show ?thesis using base_connect_response [OF base1] by simp
    qed
  qed
qed

text \<open>When the buffer cannot grow the code scans the old bytes all the same, after it has reported the
  failure: a response that is still complete in the buffer is then taken for the answer.\<close>

lemma inv_fewer: "proxy_inv w0 False k w \<Longrightarrow> n \<le> k \<Longrightarrow> proxy_inv w0 False n w"
  by (simp add: proxy_inv_def proxy_base_def)

lemma inv_scan_again:
  assumes inv: "proxy_inv w0 False n w" and "callbacks_set w" and state: "http_proxy_io_state w = HTTP_PROXY_IO_STATE_CLOSED"
  shows "proxy_inv w0 False n (scan_response w)"
proof (cases "receive_buffer_size w \<ge> 4")
  case False
  then show ?thesis using inv by (simp add: scan_response_def)
next
  case True
  then obtain b where b: "receive_buffer w = Some b"
    using inv by (cases "receive_buffer w") (simp_all add: proxy_inv_def proxy_base_def receive_ok_def)
  define w1 where "w1 = w\<lparr>receive_buffer := Some (b[receive_buffer_size w := 0])\<rparr>"
  have inv1: "proxy_inv w0 False n w1" unfolding w1_def by (rule inv_terminated [OF inv b])
  have w1: "callbacks_set w1" "http_proxy_io_state w1 = HTTP_PROXY_IO_STATE_CLOSED" "proxy_events w1 = proxy_events w"
    using assms(2) state by (simp_all add: w1_def callbacks_set_def)
  obtain a d where cbs: "on_io_open_complete w1 = Some a" "on_bytes_received w1 = Some d"
    using w1(1) by (auto simp: callbacks_set_def)
  show ?thesis
  proof (cases "strstr (map char_of_byte (b[receive_buffer_size w := 0])) (CRLF @ CRLF)")
    case None
    then show ?thesis using True b inv1 by (simp add: scan_response_def w1_def)
  next
    case (Some e)
    then have run: "scan_response w = on_connect_response e w1" using True b by (simp add: scan_response_def w1_def)
    obtain r code en where p: "ParseHttpResponse (Some (map char_of_byte (the (receive_buffer w1)))) (proxy_errno w1) = (r, code, en)"
      by (metis surj_pair)
    have "proxy_inv w0 False (Suc n) (on_connect_response e w1)"
    proof (cases "r = Failure \<or> code < 200 \<or> code > 299")
      case True
      then have "on_connect_response e w1 = proxy_open_failed (w1\<lparr>proxy_errno := en\<rparr>)"
        using p by (auto simp: on_connect_response_def Let_def)
      then have res: "on_connect_response e w1 = w1\<lparr>proxy_errno := en, http_proxy_io_state := HTTP_PROXY_IO_STATE_CLOSED,
          under_calls := Suc (under_calls w1), proxy_events := proxy_events w1 @ [Under_Close, Open_Complete a IO_OPEN_ERROR Failure_Line]\<rparr>"
        using open_failed_fields [of "w1\<lparr>proxy_errno := en\<rparr>" a] cbs by simp
      show ?thesis unfolding res
        by (rule base_moved [OF inv_base [OF inv1], of _ "[Under_Close, Open_Complete a IO_OPEN_ERROR Failure_Line]"])
          (use w1 in \<open>simp_all add: res moves\<close>)
    next
      case False
      then have r: "r = Success" by (cases r) auto
      define es where "es = Open_Complete a IO_OPEN_OK (Code 0) #
        (if receive_buffer_size w1 - (e + 4) > 0
         then [Bytes_Received d (take (receive_buffer_size w1 - (e + 4)) (drop (e + 4) (the (receive_buffer w1))))] else [])"
      have res: "on_connect_response e w1 = w1\<lparr>proxy_errno := en, http_proxy_io_state := HTTP_PROXY_IO_STATE_OPEN,
          proxy_events := proxy_events w1 @ es\<rparr>"
        using False r p cbs by (simp add: on_connect_response_def Let_def call_back_def note_event_def es_def)
      have es: "length (filter is_completion es) = 1" "Null_Callback \<notin> set es" by (simp_all add: es_def)
      show ?thesis
        by (rule base_moved [OF inv_base [OF inv1], of _ es]) (use w1 es in \<open>simp_all add: res moves live_def\<close>)
    qed
    then show ?thesis unfolding run by (rule inv_fewer) simp
  qed
qed

lemma inv_bytes_received:
  assumes inv: "proxy_inv w0 x n w" and sz: "sz \<le> length bs"
  shows "proxy_inv w0 x n (on_proxy_bytes_received c bs sz w)"
proof (cases "c = CLIENT \<and> http_proxy_io_state w = HTTP_PROXY_IO_STATE_WAITING_FOR_CONNECT_RESPONSE")
  case False
  obtain b where b: "http_proxy_io_state w = HTTP_PROXY_IO_STATE_OPEN \<Longrightarrow> on_bytes_received w = Some b"
    using inv_callbacks [OF inv] by fastforce
  have "http_proxy_io_state w = HTTP_PROXY_IO_STATE_OPEN \<Longrightarrow>
      proxy_inv w0 x n (call_back (on_bytes_received w) (\<lambda>n. Bytes_Received n (take sz bs)) w)"
    by (rule inv_moved [OF inv, of _ "[Bytes_Received b (take sz bs)]"])
      (use b in \<open>auto simp: moves call_back_def note_event_def live_def\<close>)
  then show ?thesis using False inv inv_open_failed [OF inv]
    by (auto simp: on_proxy_bytes_received_def split: handle.split HTTP_PROXY_IO_STATE.split)
next
  case True
  then have run: "on_proxy_bytes_received c bs sz w = scan_response (accumulate_response bs sz w)"
    by (simp add: on_proxy_bytes_received_def)
  obtain r h where r: "realloc_block id (receive_buffer w) (receive_buffer_size w + sz + 1) (proxy_heap w) = (r, h)" by fastforce
  show ?thesis
  proof (cases r)
    case (Some b)
    have "http_proxy_io_state (accumulate_response bs sz w) = HTTP_PROXY_IO_STATE_WAITING_FOR_CONNECT_RESPONSE"
      "\<exists>b. receive_buffer (accumulate_response bs sz w) = Some b"
      using r Some True by (simp_all add: accumulate_response_def)
    then show ?thesis unfolding run
      using base_scan [OF base_accumulated [OF inv_base [OF inv] _ sz]] r Some True by blast
  next
    case None
    define w1 where "w1 = w\<lparr>proxy_heap := h\<rparr>"
    define w2 where "w2 = proxy_open_failed w1"
    have acc: "accumulate_response bs sz w = w2" using r None by (simp add: accumulate_response_def w1_def w2_def)
    have "mem_live h = mem_live (proxy_heap w)"
      using r None by (auto simp: realloc_block_def malloc_block_def after_request_def split: option.splits if_splits)
    then have inv1: "proxy_inv w0 x n w1"
      using inv by (simp add: w1_def proxy_inv_def proxy_base_def same_config_def receive_ok_def live_def response_block_def
          callbacks_set_def completions_def header_pending_def)
    have inv2: "proxy_inv w0 x n w2" unfolding w2_def by (rule inv_open_failed [OF inv1]) (use True in \<open>simp add: w1_def\<close>)
    have same: "receive_buffer w2 = receive_buffer w" "receive_buffer_size w2 = receive_buffer_size w"
      "http_proxy_io_state w2 = HTTP_PROXY_IO_STATE_CLOSED" "callbacks_set w2 = callbacks_set w"
      by (simp_all add: w1_def w2_def indicate_open_complete_error_and_close_def call_back_def note_event_def under_call_def
          callbacks_set_def Let_def)
    show ?thesis
    proof (cases x)
      case False
      have "callbacks_set w" using inv True by (simp add: proxy_inv_def proxy_base_def)
      then show ?thesis unfolding run acc using inv_scan_again [of w0 n w2] inv2 False same by simp
    next
      case exact: True
      have "header_pending w" "receive_ok w" using inv True exact by (simp_all add: proxy_inv_def proxy_base_def)
      then have "scan_response w2 = w2 \<or> (\<exists>b. receive_buffer w2 = Some b \<and>
          scan_response w2 = w2\<lparr>receive_buffer := Some (b[receive_buffer_size w2 := 0])\<rparr>)"
        using same by (cases "receive_buffer w") (auto simp: scan_response_def header_pending_def receive_ok_def Let_def)
      then show ?thesis unfolding run acc using inv2 inv_terminated [OF inv2] by auto
    qed
  qed
qed

text \<open>An open that starts with an empty buffer, and is not completed when the underlying IO refuses it.\<close>

definition clean_open :: "proxy_world \<Rightarrow> bool" where
  "clean_open w \<longleftrightarrow> receive_buffer_size w = 0 \<and>
     (fst (under_open_answer w (under_calls w)) = Failure \<longrightarrow> snd (under_open_answer w (under_calls w)) = None)"

lemma inv_open:
  assumes inv: "proxy_inv w0 x n w" and ok: "buildable w0" and clean: "x \<Longrightarrow> clean_open w"
    and step: "http_proxy_io_open c oc br ioe w = (r, w')"
  shows "proxy_inv w0 x (n + of_bool (r = Success)) w'"
proof (cases "c = NULL_HANDLE \<or> oc = None \<or> br = None \<or> ioe = None \<or> http_proxy_io_state w \<noteq> HTTP_PROXY_IO_STATE_CLOSED")
  case True
  then have "http_proxy_io_open c oc br ioe w = (Failure, w)" by (auto simp: http_proxy_io_open_def)
  then show ?thesis using inv step by simp
next
  case False
  define w2 where "w2 = under_call Under_Open (w\<lparr>on_bytes_received := br, on_io_error := ioe, on_io_open_complete := oc,
      http_proxy_io_state := HTTP_PROXY_IO_STATE_OPENING_UNDERLYING_IO, proxy_time_reads := Suc (proxy_time_reads w),
      proxy_open_start_time := proxy_time w (proxy_time_reads w), proxy_last_open_wait_log_time := proxy_time w (proxy_time_reads w)\<rparr>)"
  have inv2: "proxy_inv w0 x (Suc n) w2"
    using inv clean False
    by (simp add: w2_def clean_open_def proxy_inv_def proxy_base_def same_config_def receive_ok_def live_def response_block_def callbacks_set_def
        completions_def under_call_def note_event_def)
  have next': "proxy_inv w0 x (Suc n) (on_proxy_open_complete CLIENT q w2)" for q by (rule inv_open_complete [OF inv2 ok])
  obtain a o' where ans: "under_open_answer w (under_calls w) = (a, o')" by fastforce
  show ?thesis
  proof (cases a)
    case Success
    then have "http_proxy_io_open c oc br ioe w = (Success, case o' of None \<Rightarrow> w2 | Some q \<Rightarrow> on_proxy_open_complete CLIENT q w2)"
      using False ans by (auto simp: http_proxy_io_open_def w2_def Let_def)
    then show ?thesis using step inv2 inv_open_complete [OF inv2 ok] by (simp split: option.split)
  next
    case Failure
    define w3 where "w3 = (case o' of None \<Rightarrow> w2 | Some q \<Rightarrow> on_proxy_open_complete CLIENT q w2)"
    have run: "http_proxy_io_open c oc br ioe w = (Failure, w3\<lparr>http_proxy_io_state := HTTP_PROXY_IO_STATE_CLOSED\<rparr>)"
      using False ans Failure by (auto simp: http_proxy_io_open_def w2_def w3_def Let_def)
    have inv3: "proxy_inv w0 x (Suc n) w3" using inv2 next' by (simp add: w3_def split: option.split)
    have "proxy_inv w0 x n (w3\<lparr>http_proxy_io_state := HTTP_PROXY_IO_STATE_CLOSED\<rparr>)"
    proof (cases x)
      case exact: True
      then have "w3 = w2" using clean ans Failure by (simp add: w3_def clean_open_def)
      then have "in_progress w3" by (simp add: w2_def under_call_def note_event_def)
      then show ?thesis using inv3 exact
        by (simp add: proxy_inv_def proxy_base_def same_config_def receive_ok_def live_def response_block_def
          callbacks_set_def completions_def)
    next
      case loose: False
      then show ?thesis using inv3
        by (auto simp: proxy_inv_def proxy_base_def same_config_def receive_ok_def live_def response_block_def
          callbacks_set_def completions_def of_bool_def split: if_splits)
    qed
    then show ?thesis using step run by simp
  qed
qed

lemma inv_close:
  assumes inv: "proxy_inv w0 x n w" and step: "http_proxy_io_close c cc w = (r, w')"
  shows "proxy_inv w0 x n w'"
proof (cases "c = NULL_HANDLE \<or> http_proxy_io_state w = HTTP_PROXY_IO_STATE_CLOSED \<or> http_proxy_io_state w = HTTP_PROXY_IO_STATE_CLOSING")
  case True
  then have "http_proxy_io_close c cc w = (Failure, w)" by (auto simp: http_proxy_io_close_def)
  then show ?thesis using inv step by simp
next
  case False
  show ?thesis
  proof (cases "in_progress w")
    case True
    obtain a where a: "on_io_open_complete w = Some a" using inv_callbacks [OF inv] False by blast
    have "http_proxy_io_state w = HTTP_PROXY_IO_STATE_OPENING_UNDERLYING_IO \<or>
        http_proxy_io_state w = HTTP_PROXY_IO_STATE_WAITING_FOR_CONNECT_RESPONSE"
      using True by (cases "http_proxy_io_state w") simp_all
    then have w': "w' = w\<lparr>http_proxy_io_state := HTTP_PROXY_IO_STATE_CLOSED, under_calls := Suc (under_calls w),
        proxy_events := proxy_events w @ [Under_Close, Open_Complete a IO_OPEN_CANCELLED Failure_Line]\<rparr>"
      using step False a by (auto simp: http_proxy_io_close_def Let_def call_back_def note_event_def under_call_def)
    show ?thesis
      by (rule inv_moved [OF inv, of _ "[Under_Close, Open_Complete a IO_OPEN_CANCELLED Failure_Line]"])
        (use True in \<open>simp_all add: w' moves live_def\<close>)
  next
    case idle: False
    define w2 where "w2 = under_call Under_Close (w\<lparr>http_proxy_io_state := HTTP_PROXY_IO_STATE_CLOSING, on_io_close_complete := cc\<rparr>)"
    have fields: "only_moves w w2" "live w2 = live w" "proxy_events w2 = proxy_events w @ [Under_Close]"
      "http_proxy_io_state w2 = HTTP_PROXY_IO_STATE_CLOSING"
      by (simp_all add: w2_def under_call_def note_event_def only_moves_def same_config_def live_def)
    have inv2: "proxy_inv w0 x n w2"
      by (rule inv_moved [OF inv fields(1-3)]) (use False idle fields(4) in auto)
    obtain a now where ans: "under_close_answer w (under_calls w) = (a, now)" by fastforce
    define w3 where "w3 = (if now then on_proxy_close_complete CLIENT w2 else w2)"
    have inv3: "proxy_inv w0 x n w3" using inv2 inv_proxy_close_complete by (simp add: w3_def)
    have run: "http_proxy_io_close c cc w = (case a of Success \<Rightarrow> (Success, w3) | Failure \<Rightarrow> (Failure, w3\<lparr>http_proxy_io_state := http_proxy_io_state w\<rparr>))"
      using False idle ans by (auto simp: http_proxy_io_close_def w2_def w3_def Let_def split: rc.split)
    have "proxy_inv w0 x n (w3\<lparr>http_proxy_io_state := http_proxy_io_state w\<rparr>)"
    proof -
      have "callbacks_set w" using inv False by (simp add: proxy_inv_def proxy_base_def)
      moreover have "\<not> in_progress w3"
        using fields(4) by (simp add: w3_def on_proxy_close_complete_def note_event_def Let_def split: option.split)
      moreover have "callbacks_set w3 = callbacks_set w"
        by (simp add: callbacks_set_def w3_def w2_def on_proxy_close_complete_def note_event_def under_call_def Let_def split: option.split)
      ultimately show ?thesis
        using inv3 idle
        by (auto simp: proxy_inv_def proxy_base_def same_config_def receive_ok_def response_block_def
            callbacks_set_def completions_def)
    qed
    then show ?thesis using inv3 step run by (cases a) auto
  qed
qed

lemma inv_quiet:
  assumes "proxy_inv w0 x n w" and "only_moves w w'" and "live w' = live w" and "proxy_events w' = proxy_events w @ [e]"
    and "\<not> is_completion e" "e \<noteq> Null_Callback" and "http_proxy_io_state w' = http_proxy_io_state w"
  shows "proxy_inv w0 x n w'"
  by (rule inv_moved [OF assms(1-4)]) (use assms(5-7) in auto)

lemma inv_send:
  assumes "proxy_inv w0 x n w" and "http_proxy_io_send c bs sz cb w = (r, w')"
  shows "proxy_inv w0 x n w'"
proof (cases "w' = w")
  case False
  then have "w' = under_call (Under_Send (take sz (the bs)) cb) w"
    using assms(2) by (simp add: http_proxy_io_send_def under_send_def split: if_splits)
  then show ?thesis
    by (intro inv_quiet [OF assms(1), of _ "Under_Send (take sz (the bs)) cb"]) (simp_all add: moves, simp_all add: under_call_def note_event_def)
qed (use assms in simp)

lemma inv_set_option:
  assumes "proxy_inv w0 x n w" and "http_proxy_io_set_option c name w = (r, w')"
  shows "proxy_inv w0 x n w'"
proof (cases "w' = w")
  case False
  then have "w' = under_call (Under_Set_Option (the name)) w"
    using assms(2) by (simp add: http_proxy_io_set_option_def split: if_splits)
  then show ?thesis
    by (intro inv_quiet [OF assms(1), of _ "Under_Set_Option (the name)"]) (simp_all add: moves, simp_all add: under_call_def note_event_def)
qed (use assms in simp)

lemma inv_dowork:
  assumes "proxy_inv w0 x n w"
  shows "proxy_inv w0 x n (http_proxy_io_dowork c w)"
proof (cases "http_proxy_io_dowork c w = w")
  case False
  then obtain t k where "http_proxy_io_dowork c w =
      note_event Under_Dowork (w\<lparr>proxy_time_reads := k, proxy_last_open_wait_log_time := t\<rparr>)"
  proof (cases "c = NULL_HANDLE \<or> http_proxy_io_state w = HTTP_PROXY_IO_STATE_CLOSED")
    case True
    then show ?thesis using False by (auto simp: http_proxy_io_dowork_def split: handle.splits)
  next
    case False
    define k where "k = proxy_time_reads (http_proxy_io_dowork c w)"
    define t where "t = proxy_last_open_wait_log_time (http_proxy_io_dowork c w)"
    have "http_proxy_io_dowork c w = note_event Under_Dowork (w\<lparr>proxy_time_reads := k, proxy_last_open_wait_log_time := t\<rparr>)"
      using False by (cases c) (simp_all add: k_def t_def http_proxy_io_dowork_def note_event_def Let_def)
    then show ?thesis using that by blast
  qed
  then show ?thesis
    by (intro inv_quiet [OF assms, of _ Under_Dowork]) (simp_all add: note_event_def only_moves_def same_config_def live_def)
qed (use assms in simp)

section \<open>Whole lives\<close>

text \<open>
  A run makes any calls of the user and of the underlying IO, in any order; it counts the opens that
  were accepted and notes whether every open was a clean one.
\<close>

inductive proxy_run :: "proxy_world \<Rightarrow> bool \<Rightarrow> nat \<Rightarrow> proxy_world \<Rightarrow> bool" where
  proxy_begin: "proxy_run w0 True 0 w0"
| proxy_opens: "proxy_run w0 x n w \<Longrightarrow> http_proxy_io_open c oc br ioe w = (r, w') \<Longrightarrow>
    proxy_run w0 (x \<and> clean_open w) (n + of_bool (r = Success)) w'"
| proxy_closes: "proxy_run w0 x n w \<Longrightarrow> http_proxy_io_close c cc w = (r, w') \<Longrightarrow> proxy_run w0 x n w'"
| proxy_sends: "proxy_run w0 x n w \<Longrightarrow> http_proxy_io_send c bs sz cb w = (r, w') \<Longrightarrow> proxy_run w0 x n w'"
| proxy_option: "proxy_run w0 x n w \<Longrightarrow> http_proxy_io_set_option c name w = (r, w') \<Longrightarrow> proxy_run w0 x n w'"
| proxy_works: "proxy_run w0 x n w \<Longrightarrow> proxy_run w0 x n (http_proxy_io_dowork c w)"
| under_opened: "proxy_run w0 x n w \<Longrightarrow> proxy_run w0 x n (on_proxy_open_complete c q w)"
| under_failed: "proxy_run w0 x n w \<Longrightarrow> proxy_run w0 x n (on_proxy_io_error c w)"
| under_closed: "proxy_run w0 x n w \<Longrightarrow> proxy_run w0 x n (on_proxy_close_complete c w)"
| under_received: "proxy_run w0 x n w \<Longrightarrow> sz \<le> length bs \<Longrightarrow> proxy_run w0 x n (on_proxy_bytes_received c bs sz w)"

lemma inv_loose: "proxy_inv w0 x n w \<Longrightarrow> proxy_inv w0 (x \<and> y) n w"
  by (simp add: proxy_inv_def proxy_base_def)

lemma proxy_run_inv:
  assumes "proxy_run w0 x n w" and "proxy_inv w0 True 0 w0" and "buildable w0"
  shows "proxy_inv w0 x n w"
  using assms
proof (induction rule: proxy_run.induct)
  case (proxy_opens w0 x n w c oc br ioe r w')
  show ?case
    by (rule inv_open [OF inv_loose [OF proxy_opens.IH [OF proxy_opens.prems]] proxy_opens.prems(2) _ proxy_opens.hyps(2)]) simp
qed (auto intro: inv_close inv_send inv_set_option inv_dowork inv_open_complete inv_proxy_io_error inv_proxy_close_complete inv_bytes_received)

text \<open>The blocks of an instance.\<close>

definition ptr_blocks :: "'a option \<Rightarrow> int" where
  "ptr_blocks p = of_bool (p \<noteq> None)"

definition proxy_blocks :: "'a HTTP_PROXY_IO_INSTANCE_scheme \<Rightarrow> int" where
  "proxy_blocks i = 3 + ptr_blocks (proxy_username i) + ptr_blocks (proxy_password i)"

definition proxy_config_strings :: "HTTP_PROXY_IO_CONFIG \<Rightarrow> bool" where
  "proxy_config_strings c \<longleftrightarrow> list_all (\<lambda>p. case p of None \<Rightarrow> True | Some s \<Rightarrow> terminated s)
     [config_hostname c, config_proxy_hostname c, config_username c, config_password c]"

lemma proxy_create_result:
  assumes "proxy_config_strings c" and "http_proxy_io_create sock create raw (Some c) h = (r, h')"
  shows "case r of None \<Rightarrow> mem_live h' = mem_live h
    | Some i \<Rightarrow> mem_live h' = mem_live h + proxy_blocks i \<and> http_proxy_io_state i = HTTP_PROXY_IO_STATE_CLOSED \<and>
        receive_buffer i = None \<and> receive_buffer_size i = 0"
proof (cases "config_hostname c = None \<or> config_proxy_hostname c = None \<or> (config_username c = None) \<noteq> (config_password c = None)")
  case True
  then have "http_proxy_io_create sock create raw (Some c) h = (None, h)" by (auto simp: http_proxy_io_create_def)
  then show ?thesis using assms(2) by simp
next
  case False
  obtain a b where ab: "config_hostname c = Some a" "config_proxy_hostname c = Some b" "terminated a" "terminated b"
    using False assms(1) by (auto simp: proxy_config_strings_def)
  note copy = mallocAndStrcpy_s_result [OF ab(3)] mallocAndStrcpy_s_result [OF ab(4)]
  have live: "mem_live (after_request d g) = mem_live g + (if granted g then d else 0)" for d g by (simp add: after_request_def)
  note frees = live c_free_def free_struct_def proxy_blocks_def ptr_blocks_def malloc_struct_def
  let ?h1 = "after_request 1 h"
  let ?h2 = "after_request 1 ?h1"
  let ?h3 = "after_request 1 ?h2"
  let ?h4 = "after_request 1 ?h3"
  show ?thesis
  proof (cases "config_username c")
    case None
    then have "config_password c = None" using False by simp
    then show ?thesis
      using assms(2) None ab False
      by (cases "granted h"; cases "granted ?h1"; cases "granted ?h2") (auto simp: http_proxy_io_create_def copy frees split: if_splits)
  next
    case (Some u)
    then obtain p where up: "config_username c = Some u" "config_password c = Some p" "terminated u" "terminated p"
      using False assms(1) by (auto simp: proxy_config_strings_def)
    show ?thesis
      using assms(2) ab up
      by (cases "granted h"; cases "granted ?h1"; cases "granted ?h2"; cases "granted ?h3"; cases "granted ?h4") (auto simp: http_proxy_io_create_def copy mallocAndStrcpy_s_result [OF up(3)] mallocAndStrcpy_s_result [OF up(4)] frees
          split: if_splits)
  qed
qed

text \<open>With all memory granted and all strings given, the instance holds copies of them.\<close>

lemma proxy_created:
  assumes "\<forall>i. mem_ok h i" and "config_hostname c = Some (c_lit a)" "config_proxy_hostname c = Some (c_lit b)"
    "config_username c = Some (c_lit u)" "config_password c = Some (c_lit p)" and s: "c_string a" "c_string b" "c_string u" "c_string p"
  shows "http_proxy_io_create True (\<lambda>_. True) raw (Some c) h =
    (Some (raw\<lparr>target_hostname := c_lit a, proxy_hostname := c_lit b, proxy_username := Some (c_lit u), proxy_password := Some (c_lit p),
       target_port := config_port c, proxy_port := config_proxy_port c, receive_buffer := None, receive_buffer_size := 0,
       http_proxy_io_state := HTTP_PROXY_IO_STATE_CLOSED\<rparr>), h\<lparr>mem_calls := mem_calls h + 5, mem_live := mem_live h + 5\<rparr>)"
proof -
  define later where "later k = h\<lparr>mem_calls := mem_calls h + k, mem_live := mem_live h + int k\<rparr>" for k
  have next_one: "after_request 1 (later k) = later (Suc k)" "granted (later k)" for k
    using assms(1) by (simp_all add: later_def after_request_def granted_def)
  have copy: "mallocAndStrcpy_s (Some (c_lit t)) (later k) = (CRT_OK, Some (c_lit t), later (Suc k))" if "c_string t" for t k
    using that by (simp add: mallocAndStrcpy_s_result c_lit_def next_one)
  have "malloc_struct h = (True, later 1)"
    using assms(1) by (simp add: malloc_struct_def granted_def after_request_def later_def)
  then show ?thesis
    unfolding http_proxy_io_create_def by (simp add: assms(2-5) copy [OF s(1)] copy [OF s(2)] copy [OF s(3)] copy [OF s(4)])
      (simp add: later_def eval_nat_numeral)
qed

lemma proxy_destroy_live:
  "live (http_proxy_io_destroy CLIENT w) = live w - response_block w - proxy_blocks w"
  by (simp add: http_proxy_io_destroy_def live_def note_event_def Let_def c_free_def free_struct_def response_block_def
      proxy_blocks_def ptr_blocks_def split: option.split)

lemma fresh_proxy_inv:
  assumes "receive_buffer w = None" "receive_buffer_size w = 0" "http_proxy_io_state w = HTTP_PROXY_IO_STATE_CLOSED" "proxy_events w = []"
  shows "proxy_inv w x 0 w"
  using assms by (simp add: proxy_inv_def proxy_base_def same_config_def receive_ok_def response_block_def completions_def)

text \<open>C11: In a whole life of the IO - created, then any calls of the user and of the underlying IO
  in any order, then destroyed - every open that was accepted is completed or is still in progress,
  no null callback is called, the bytes received stay below the size of their block, and all memory
  is given back. The open is completed exactly once when every open of the life was clean: it
  started with an empty receive buffer (the code never empties it, so the first open, or one after
  a connection on which nothing came), and the underlying IO did not report on an open that it
  refused. The request for the configuration fits in memory, and bytes come with their number.\<close>

theorem proxy_lives:
  assumes "proxy_config_strings c" and "http_proxy_io_create sock create raw (Some c) h = (Some i, h1)"
    and "HTTP_PROXY_IO_INSTANCE.truncate w0 = i" and "proxy_heap w0 = h1" and "proxy_events w0 = []"
    and "buildable w0" and "proxy_run w0 clean n w"
  shows "n \<le> completions w + (if in_progress w then 1 else 0) \<and>
    (clean \<longrightarrow> completions w + (if in_progress w then 1 else 0) = n) \<and> Null_Callback \<notin> set (proxy_events w) \<and>
    (\<forall>b. receive_buffer w = Some b \<longrightarrow> receive_buffer_size w < length b) \<and>
    mem_live (proxy_heap (http_proxy_io_destroy CLIENT w)) = mem_live h"
proof -
  have new: "mem_live h1 = mem_live h + proxy_blocks i" "http_proxy_io_state i = HTTP_PROXY_IO_STATE_CLOSED"
    "receive_buffer i = None" "receive_buffer_size i = 0"
    using proxy_create_result [OF assms(1,2)] by simp_all
  then have w0: "receive_buffer w0 = None" "receive_buffer_size w0 = 0" "http_proxy_io_state w0 = HTTP_PROXY_IO_STATE_CLOSED"
    "proxy_blocks w0 = proxy_blocks i"
    unfolding assms(3) [symmetric] by (simp_all add: HTTP_PROXY_IO_INSTANCE.defs proxy_blocks_def)
  note inv = proxy_run_inv [OF assms(7) fresh_proxy_inv [OF w0(1-3) assms(5)] assms(6)]
  have "proxy_blocks w = proxy_blocks w0" using inv by (simp add: proxy_inv_def proxy_base_def same_config_def proxy_blocks_def)
  moreover have "live w = mem_live h + proxy_blocks w0 + response_block w"
    using inv new(1) w0(4) assms(4) by (simp add: proxy_inv_def proxy_base_def live_def [of w0])
  ultimately have "live (http_proxy_io_destroy CLIENT w) = mem_live h" by (simp add: proxy_destroy_live)
  then show ?thesis using inv by (simp add: live_def proxy_inv_def proxy_base_def receive_ok_def of_bool_def split: option.splits)
qed

definition demo_proxy_config :: HTTP_PROXY_IO_CONFIG where
  "demo_proxy_config = \<lparr>config_hostname = Some (c_lit ''a.b''), config_port = 443, config_proxy_hostname = Some (c_lit ''p''),
     config_proxy_port = 8080, config_username = Some (c_lit ''u''), config_password = Some (c_lit ''p''), config_enable_ipv6 = False\<rparr>"

definition demo_proxy_made :: proxy_world where
  "demo_proxy_made = demo_proxy\<lparr>proxy_heap := heap0\<lparr>mem_calls := 5, mem_live := 5\<rparr>\<rparr>"

definition demo_proxy_opened :: proxy_world where
  "demo_proxy_opened = on_proxy_open_complete CLIENT (IO_OPEN_OK, 0) (snd (http_proxy_io_open CLIENT (Some 1) (Some 2) (Some 3) demo_proxy_made))"

theorem proxy_lives_witness:
  "completions demo_proxy_opened + (if in_progress demo_proxy_opened then 1 else 0) = 1 \<and>
   mem_live (proxy_heap (http_proxy_io_destroy CLIENT demo_proxy_opened)) = 0"
proof -
  obtain r w1 where o1: "http_proxy_io_open CLIENT (Some 1) (Some 2) (Some 3) demo_proxy_made = (r, w1)" by (metis surj_pair)
  have r: "r = Success" using o1 by (auto simp: http_proxy_io_open_def demo_proxy_made_def demo_proxy_def Let_def)
  have "clean_open demo_proxy_made" by (simp add: clean_open_def demo_proxy_made_def demo_proxy_def)
  then have run: "proxy_run demo_proxy_made True 1 w1" using proxy_opens [OF proxy_begin o1] by (simp add: r)
  have run2: "proxy_run demo_proxy_made True 1 demo_proxy_opened"
    using under_opened [OF run, of CLIENT "(IO_OPEN_OK, 0)"] unfolding demo_proxy_opened_def o1 by simp
  have strings: "c_string ''a.b''" "c_string ''p''" "c_string ''u''" by (simp_all add: c_string_def)
  have made: "http_proxy_io_create True (\<lambda>_. True) (HTTP_PROXY_IO_INSTANCE.truncate demo_proxy_made) (Some demo_proxy_config) heap0 =
      (Some (HTTP_PROXY_IO_INSTANCE.truncate demo_proxy_made), proxy_heap demo_proxy_made)"
    using proxy_created [of heap0 demo_proxy_config "''a.b''" "''p''" "''u''" "''p''" "HTTP_PROXY_IO_INSTANCE.truncate demo_proxy_made"]
    by (simp add: strings demo_proxy_config_def heap0_def demo_proxy_made_def demo_proxy_def HTTP_PROXY_IO_INSTANCE.defs)
  have "length (proxy_request demo_proxy_made (proxy_auth demo_proxy_made)) = 75" by code_simp
  then have ok: "proxy_config_strings demo_proxy_config" "buildable demo_proxy_made"
    by (simp_all add: buildable_def proxy_config_strings_def demo_proxy_config_def proxy_config_ok_def demo_proxy_made_def demo_proxy_def
        SIZE_MAX_def strlen_def)
  from proxy_lives [OF ok(1) made refl refl _ ok(2) run2]
  show ?thesis by (simp add: demo_proxy_made_def demo_proxy_def heap0_def)
qed

section \<open>The response that stays in the buffer\<close>

text \<open>
  A connection is opened and closed, and opened again up to the wait for the response. The buffer
  still holds the response of the first connection, so the first byte from the proxy completes the
  second open, whatever it is, and reaches the user.
\<close>

definition demo_waiting :: "proxy_world \<Rightarrow> proxy_world" where
  "demo_waiting w = (snd (http_proxy_io_open CLIENT (Some 1) (Some 2) (Some 3) w))
     \<lparr>http_proxy_io_state := HTTP_PROXY_IO_STATE_WAITING_FOR_CONNECT_RESPONSE\<rparr>"

definition demo_reopened :: proxy_world where
  "demo_reopened = demo_waiting (snd (http_proxy_io_close CLIENT None
     (receive_pieces [map byte_of_char demo_connected] (demo_waiting demo_proxy))))"

lemma stale_response_opens:
  "let w = receive_pieces [[88]] demo_reopened in
   http_proxy_io_state w = HTTP_PROXY_IO_STATE_OPEN \<and>
   proxy_events w = [Under_Open, Open_Complete 1 IO_OPEN_OK (Code 0), Under_Close,
     Under_Open, Open_Complete 1 IO_OPEN_OK (Code 0), Bytes_Received 2 [88]]"
  by code_simp

text \<open>The same when the buffer cannot grow: the open fails, and then the old response completes it again.\<close>

lemma stale_response_completes_twice:
  "let w = receive_pieces [[88]] (demo_reopened\<lparr>proxy_heap := heap0\<lparr>mem_ok := \<lambda>_. False\<rparr>\<rparr>) in
   http_proxy_io_state w = HTTP_PROXY_IO_STATE_OPEN \<and>
   drop 4 (proxy_events w) = [Under_Close, Open_Complete 1 IO_OPEN_ERROR Failure_Line, Open_Complete 1 IO_OPEN_OK (Code 0)]"
  by code_simp

end
