(* ===== verification/Uws_Control.thy ===== *)
theory Uws_Control
  imports Uws_Traffic
begin

text \<open>
  PING frames among the frames of messages, and frames with a bad length behind them, in pieces of any
  size: what the receive loop of \<open>src/uws_client.c\<close> answers and reports, and where it stops.
\<close>

section \<open>The reference\<close>

text \<open>The next frame of a server: a PING at any place, or a frame of a message.\<close>

definition next_ok :: "assembly \<Rightarrow> frame \<Rightarrow> bool" where
  "next_ok a f = (if fst f = 9 then fst (snd f) \<and> length (snd (snd f)) < 2 ^ 63 else may_follow a f)"

text \<open>What a frame makes the client do; the random numbers go into the masks of the answers.\<close>

fun respond :: "nat \<Rightarrow> frame \<Rightarrow> assembly \<times> rng \<Rightarrow> ws_event list \<times> assembly \<times> rng" where
  "respond n (opcode, fin, p) (a, g) =
     (if opcode = 9 then ([IoSend (pong_bytes g p)], a, g\<lparr>rng_pos := rng_pos g + 4\<rparr>)
      else (let (ms, a1) = absorb (opcode, fin, p) a in (reports n ms, a1, g)))"

fun respond_all :: "nat \<Rightarrow> frame list \<Rightarrow> assembly \<times> rng \<Rightarrow> ws_event list \<times> assembly \<times> rng" where
  "respond_all n [] s = ([], s)"
| "respond_all n (f # fs) s =
     (let (es, s1) = respond n f s; (es2, s2) = respond_all n fs s1 in (es @ es2, s2))"

fun next_ok_all :: "assembly \<Rightarrow> frame list \<Rightarrow> bool" where
  "next_ok_all a [] = True"
| "next_ok_all a (f # fs) = (next_ok a f \<and> next_ok_all (if fst f = 9 then a else snd (absorb f a)) fs)"

text \<open>The frames that are decoded when \<open>k\<close> bytes are there: the complete ones, up to the first PING.\<close>

fun scan :: "nat \<Rightarrow> frame list \<Rightarrow> frame list \<times> frame list" where
  "scan k [] = ([], [])"
| "scan k (f # fs) =
     (if k < length (frame_bytes f) then ([], f # fs)
      else if fst f = 9 then ([f], fs)
      else (let (fs1, fs2) = scan (k - length (frame_bytes f)) fs in (f # fs1, fs2)))"

text \<open>The same for piece after piece: the bytes that are left stay for the next one.\<close>

fun scan_pieces :: "nat \<Rightarrow> byte list list \<Rightarrow> frame list \<Rightarrow> frame list \<times> frame list" where
  "scan_pieces k [] fs = ([], fs)"
| "scan_pieces k (p # ps) fs =
     (let (fs1, fs2) = scan (k + length p) fs;
          (fs3, fs4) = scan_pieces (k + length p - length (stream_bytes fs1)) ps fs2 in
      (fs1 @ fs3, fs4))"

lemma scan_append: "scan k fs = (d, l) \<Longrightarrow> fs = d @ l"
  by (induction k fs arbitrary: d l rule: scan.induct) (auto split: if_splits prod.splits)

lemma respond_all_append:
  "respond_all n (fs @ gs) s =
     (let (es, s1) = respond_all n fs s; (es2, s2) = respond_all n gs s1 in (es @ es2, s2))"
  by (induction fs arbitrary: s) (simp_all add: case_prod_unfold Let_def)

lemma respond_assembly: "fst (snd (respond n f (a, g))) = (if fst f = 9 then a else snd (absorb f a))"
  by (cases f) (simp add: case_prod_unfold Let_def)

lemma next_ok_all_append:
  "next_ok_all a (fs @ gs) \<longleftrightarrow> next_ok_all a fs \<and> next_ok_all (fst (snd (respond_all n fs (a, g)))) gs"
proof (induction fs arbitrary: a g)
  case (Cons f fs)
  obtain es a1 g1 where r: "respond n f (a, g) = (es, a1, g1)" by (metis prod_cases3)
  then have "a1 = (if fst f = 9 then a else snd (absorb f a))" using respond_assembly [of n f a g] by simp
  then show ?case using Cons.IH [of a1 g1] r by (simp add: case_prod_unfold Let_def)
qed simp

lemma next_ok_opcode: "next_ok a (opcode, fin, p) \<Longrightarrow> opcode \<le> 0x0F \<and> length p < 2 ^ 63"
  using may_follow_opcode [of a opcode fin p] by (auto simp: next_ok_def word_le_nat_alt split: if_splits)

section \<open>One frame\<close>

lemma decode_frame_partial:
  assumes "starts_with w f" and "next_ok a f" and "stream_buffer_count w < length (frame_bytes f)"
  shows "decode_frame w = (False, w)"
proof (cases "2 \<le> stream_buffer_count w")
  case True
  obtain opcode fin p where f: "f = (opcode, fin, p)" by (cases f)
  note o = next_ok_opcode [OF assms(2) [unfolded f]]
  obtain needed len where "frame_length w = (needed, len, False)" "stream_buffer_count w < needed"
    using frame_length_frame [OF assms(1) [unfolded f] _ True] o assms(3) by (auto simp: f)
  then show ?thesis
    using True frame_fixed_bytes [OF assms(1) [unfolded f] True] o by (simp add: decode_frame_def Let_def)
qed (simp add: decode_frame_def)

text \<open>The frames of messages draw no random numbers.\<close>

lemma consume_rng [simp]: "env_rng (consume_stream_buffer_bytes k w) = env_rng w"
  "on_ws_error (consume_stream_buffer_bytes k w) = on_ws_error w"
  by (simp_all add: consume_stream_buffer_bytes_def Let_def)

lemma data_frame_rng:
  assumes "opcode \<in> {0, 1, 2}"
  shows "env_rng (snd (process_frame opcode fin len needed w)) = env_rng w"
    "on_ws_error (snd (process_frame opcode fin len needed w)) = on_ws_error w"
  using assms
  by (auto simp: process_frame_def on_continuation_frame_def on_data_frame_def process_frame_fragment_def
      indicate_ws_error_def invoke_def emit_def Let_def split: prod.splits option.splits rc.splits)

lemma may_follow_data: "may_follow a (opcode, fin, p) \<Longrightarrow> opcode \<in> {0, 1, 2}"
  by (cases a) (auto split: if_splits)

lemma decode_frame_rng:
  assumes "starts_with w f" and "may_follow a f"
  shows "env_rng (snd (decode_frame w)) = env_rng w" "on_ws_error (snd (decode_frame w)) = on_ws_error w"
proof -
  obtain opcode fin p where f: "f = (opcode, fin, p)" by (cases f)
  show "env_rng (snd (decode_frame w)) = env_rng w" "on_ws_error (snd (decode_frame w)) = on_ws_error w"
  proof (atomize (full), cases "2 \<le> stream_buffer_count w")
    case True
    note o = may_follow_opcode [OF assms(2) [unfolded f]] may_follow_data [OF assms(2) [unfolded f]]
    note fixed = frame_fixed_bytes [OF assms(1) [unfolded f] True conjunct1 [OF o(1)]]
    show "env_rng (snd (decode_frame w)) = env_rng w \<and> on_ws_error (snd (decode_frame w)) = on_ws_error w"
      using True fixed data_frame_rng [OF o(2)]
      by (auto simp: decode_frame_def Let_def case_prod_unfold indicate_ws_error_def invoke_def emit_def)
  qed (simp add: decode_frame_def)
qed

text \<open>A complete PING: the answer is sent, the frame leaves the buffer, and the loop stops.\<close>

lemma decode_ping:
  assumes "receiving n w" and "starts_with w (9, True, p)" and "length p < 2 ^ 63"
    and "length (frame_bytes (9, True, p)) \<le> stream_buffer_count w"
  shows "\<exists>w'. decode_frame w = (False, w') \<and> receiving n w' \<and> stream_ready w' \<and>
    content w' = drop (length (frame_bytes (9, True, p))) (content w) \<and> assembly_of w' = assembly_of w \<and>
    events w' = events w @ [IoSend (pong_bytes (env_rng w) p)] \<and>
    env_rng w' = (env_rng w)\<lparr>rng_pos := rng_pos (env_rng w) + 4\<rparr> \<and> uws_state w' = uws_state w"
proof -
  let ?f = "(9, True, p) :: frame" and ?n = "length (frame_bytes (9, True, p))"
  have flen: "2 \<le> ?n" by (simp add: length_frame_bytes frame_header_bytes_def Let_def)
  then have two: "2 \<le> stream_buffer_count w" using assms(4) by linarith
  have l: "frame_length w = (?n, length p, False)"
    using frame_length_frame [OF assms(2,3) two] assms(4) by auto
  have fixed: "stream w ! 0 AND 0x0F = 9" "(stream w ! 0 AND 0x80 \<noteq> 0) = True" "stream w ! 1 AND 0x80 = 0"
    using frame_fixed_bytes [OF assms(2) two] by (simp_all add: word_le_nat_alt)
  obtain rest where sr: "stream_ready w" and c: "content w = take (stream_buffer_count w) (frame_bytes ?f @ rest)"
    using assms(2) by (auto simp: starts_with_def)
  have c1: "content w = frame_bytes ?f @ take (stream_buffer_count w - ?n) rest" using c assms(4) by simp
  have ok: "\<forall>i. mem_ok (env_heap w) i" using assms(1) by (simp add: receiving_def)
  have small: "length p + 14 < SIZE_MAX" using assms(3) by (simp add: SIZE_MAX_def)
  obtain h k where pong: "on_ping_frame True (length p) ?n w =
      w\<lparr>env_heap := h, env_rng := (env_rng w)\<lparr>rng_pos := rng_pos (env_rng w) + 4\<rparr>, xio_calls := k,
        events := events w @ [IoSend (pong_bytes (env_rng w) p)]\<rparr>" (is "_ = ?w2") "mem_ok h = mem_ok (env_heap w)"
    using ping_frame_answered [OF ok small frame_payload_at [OF sr c1]] by blast
  have same: "stream_ready ?w2" "content ?w2 = content w" "stream_buffer_count ?w2 = stream_buffer_count w"
    using sr by (simp_all add: stream_ready_def content_def)
  have "process_frame 9 True (length p) ?n w = (False, ?w2)" using pong by (simp add: process_frame_def)
  then have d: "decode_frame w = (False, consume_stream_buffer_bytes ?n ?w2)"
    using fixed l two assms(4) unfolding decode_frame_def Let_def by (simp del: uws_world.update_convs)
  obtain b j where b: "consume_stream_buffer_bytes ?n ?w2 = ?w2\<lparr>stream_buffer := b, stream_buffer_count := j\<rparr>"
    using consume_eq by blast
  have "receiving n ?w2" "assembly_of ?w2 = assembly_of w"
    using assms(1) pong(2) by (simp_all add: receiving_def fragments_ready_def fragments_def assembly_of_def)
  then show ?thesis
    using d consume_content [OF same(1), of ?n] same assms(4)
    by (intro exI [of _ "consume_stream_buffer_bytes ?n ?w2"]) (simp add: b receiving_stream)
qed

section \<open>The loop\<close>

text \<open>What the client has done when the frames \<open>fs\<close> are behind it.\<close>

definition answered :: "nat \<Rightarrow> uws_world \<Rightarrow> frame list \<Rightarrow> uws_world \<Rightarrow> bool" where
  "answered n w fs w' \<longleftrightarrow> receiving n w' \<and> stream_ready w' \<and> uws_state w' = uws_state w \<and>
     (assembly_of w', env_rng w') = snd (respond_all n fs (assembly_of w, env_rng w)) \<and>
     events w' = events w @ fst (respond_all n fs (assembly_of w, env_rng w))"

lemma answered_trans: "answered n w fs w1 \<Longrightarrow> answered n w1 gs w2 \<Longrightarrow> answered n w (fs @ gs) w2"
  unfolding answered_def by (auto simp: respond_all_append case_prod_unfold Let_def)

lemma loop_answers:
  assumes "receiving n w" and "stream_ready w" and "content w @ future = stream_bytes fs"
    and "next_ok_all (assembly_of w) fs" and "scan (stream_buffer_count w) fs = (d, l)"
  shows "answered n w d (decode_loop w) \<and> content (decode_loop w) @ future = stream_bytes l"
  using assms
proof (induction fs arbitrary: w d l)
  case Nil
  then have "stream_buffer_count w = 0" using content_length [of w] by (simp add: stream_bytes_def)
  then have "decode_frame w = (False, w)" by (simp add: decode_frame_def)
  then have "decode_loop w = w" using decode_step_receiving [OF Nil(1)] by (subst decode_loop.simps) simp
  then show ?case using Nil by (simp add: answered_def)
next
  case (Cons f fs)
  have s: "starts_with w f" using content_starts [OF Cons.prems(2)] Cons.prems(3) by (simp add: stream_bytes_def)
  have m: "next_ok (assembly_of w) f" using Cons.prems(4) by simp
  note step = decode_step_receiving [OF Cons.prems(1)]
  consider (part) "stream_buffer_count w < length (frame_bytes f)"
    | (ping) "length (frame_bytes f) \<le> stream_buffer_count w" "fst f = 9"
    | (data) "length (frame_bytes f) \<le> stream_buffer_count w" "fst f \<noteq> 9" by linarith
  then show ?case
  proof cases
    case part
    have "decode_loop w = w"
      using decode_frame_partial [OF s m part] step by (subst decode_loop.simps) simp
    then show ?thesis using Cons.prems part by (auto simp: answered_def)
  next
    case ping
    then obtain p where f: "f = (9, True, p)" "length p < 2 ^ 63" using m by (cases f) (auto simp: next_ok_def)
    obtain w1 where w1: "decode_frame w = (False, w1)" "receiving n w1" "stream_ready w1"
      "content w1 = drop (length (frame_bytes f)) (content w)" "assembly_of w1 = assembly_of w"
      "events w1 = events w @ [IoSend (pong_bytes (env_rng w) p)]"
      "env_rng w1 = (env_rng w)\<lparr>rng_pos := rng_pos (env_rng w) + 4\<rparr>" "uws_state w1 = uws_state w"
      using decode_ping [OF Cons.prems(1) s [unfolded f(1)] f(2) ping(1) [unfolded f(1)]] f(1) by blast
    have loop: "decode_loop w = w1" using w1(1) step by (subst decode_loop.simps) simp
    have "content w1 @ future = drop (length (frame_bytes f)) (content w @ future)"
      using ping(1) content_length [OF Cons.prems(2)] by (simp add: w1(4))
    then show ?thesis
      using Cons.prems(3,5) ping w1 f(1) unfolding loop by (auto simp: answered_def stream_bytes_def)
  next
    case data
    then have mf: "may_follow (assembly_of w) f" using m by (simp add: next_ok_def)
    obtain w1 where w1: "decode_frame w = (True, w1)" "receiving n w1" "stream_ready w1"
      "content w1 = drop (length (frame_bytes f)) (content w)" "assembly_of w1 = snd (absorb f (assembly_of w))"
      "events w1 = events w @ reports n (fst (absorb f (assembly_of w)))" "uws_state w1 = uws_state w"
      using decode_frame_full [OF Cons.prems(1) s mf data(1)] by blast
    have g: "env_rng w1 = env_rng w" using decode_frame_rng(1) [OF s mf] w1(1) by simp
    have loop: "decode_loop w = decode_loop w1" using w1(1) step by (subst decode_loop.simps) simp
    have r: "answered n w [f] w1"
      using w1 g data(2) by (cases f) (auto simp: answered_def case_prod_unfold Let_def)
    have n1: "stream_buffer_count w1 = stream_buffer_count w - length (frame_bytes f)"
      using content_length [OF w1(3)] content_length [OF Cons.prems(2)] w1(4) by simp
    have "content w1 @ future = drop (length (frame_bytes f)) (content w @ future)"
      using data(1) content_length [OF Cons.prems(2)] by (simp add: w1(4))
    then have c: "content w1 @ future = stream_bytes fs" using Cons.prems(3) by (simp add: stream_bytes_def)
    obtain d1 where d1: "scan (stream_buffer_count w1) fs = (d1, l)" "d = f # d1"
      using Cons.prems(5) data n1 by (auto simp: not_less [symmetric] split: prod.splits)
    have "next_ok_all (assembly_of w1) fs" using Cons.prems(4) data(2) w1(5) by simp
    from Cons.IH [OF w1(2,3) c this d1(1)] show ?thesis
      using answered_trans [OF r] d1(2) unfolding loop by simp
  qed
qed

lemma piece_answers:
  assumes "receiving n w" and "stream_ok w" and "p \<noteq> []" and "content w @ p @ future = stream_bytes fs"
    and "next_ok_all (assembly_of w) fs" and "scan (length (content w) + length p) fs = (d, l)"
  shows "answered n w d (on_underlying_io_bytes_received CLIENT (Some p) (length p) w) \<and>
    content (on_underlying_io_bytes_received CLIENT (Some p) (length p) w) @ future = stream_bytes l"
proof -
  have ok: "\<forall>i. mem_ok (env_heap w) i" using assms(1) by (simp add: receiving_def)
  have n: "length (content w) = stream_buffer_count w"
    using assms(2) content_length [of w] by (auto simp: stream_ok_def content_def)
  obtain h b where a: "append_received p (length p) w =
      (True, w\<lparr>env_heap := h, stream_buffer := Some b, stream_buffer_count := stream_buffer_count w + length p\<rparr>)"
    "mem_ok h = mem_ok (env_heap w)" "length b = stream_buffer_count w + length p + 1"
    "take (stream_buffer_count w + length p) b = content w @ take (length p) p"
    using append_content [OF ok assms(2) order_refl] by blast
  let ?w1 = "w\<lparr>env_heap := h, stream_buffer_count := stream_buffer_count w + length p,
    stream_buffer := Some (b[stream_buffer_count w + length p := 0])\<rparr>"
  have run: "on_underlying_io_bytes_received CLIENT (Some p) (length p) w = decode_loop ?w1"
    using assms(1,3) a by (auto simp: on_underlying_io_bytes_received_def receive_in_open_def receiving_def)
  have w1: "receiving n ?w1" "stream_ready ?w1" "assembly_of ?w1 = assembly_of w" "content ?w1 = content w @ p"
    using assms(1) a by (auto simp: receiving_def fragments_ready_def fragments_def stream_ready_def assembly_of_def content_def)
  have "content ?w1 @ future = stream_bytes fs" "next_ok_all (assembly_of ?w1) fs" "scan (stream_buffer_count ?w1) fs = (d, l)"
    using assms(4-6) w1(3,4) n by simp_all
  from loop_answers [OF w1(1,2) this] have r: "answered n ?w1 d (decode_loop ?w1)"
    "content (decode_loop ?w1) @ future = stream_bytes l" by simp_all
  then have "answered n w d (decode_loop ?w1)" using w1(3) by (simp add: answered_def)
  then show ?thesis using r(2) unfolding run by simp
qed

section \<open>PING\<close>

text \<open>Where the decoding stops: behind a PING, or in front of an incomplete frame.\<close>

lemma scan_stops:
  "scan k fs = (d, l) \<Longrightarrow> l = [] \<or> k - length (stream_bytes d) < length (frame_bytes (hd l)) \<or> d \<noteq> [] \<and> fst (last d) = 9"
proof (induction k fs arbitrary: d l rule: scan.induct)
  case (2 k f fs)
  show ?case
  proof (cases "k < length (frame_bytes f) \<or> fst f = 9")
    case False
    then obtain d1 where d1: "scan (k - length (frame_bytes f)) fs = (d1, l)" "d = f # d1"
      using 2(2) by (auto split: prod.splits)
    from 2(1) [OF _ _ d1(1)] False show ?thesis by (auto simp: d1(2) stream_bytes_def)
  qed (use 2(2) in \<open>auto simp: stream_bytes_def split: if_splits\<close>)
qed simp

text \<open>C10: A PING is answered wherever it arrives, also between the fragments of a message and in pieces:
  on a client that is open or waits for the peer's CLOSE, for frames of messages and PINGs in any order,
  cut into pieces in any way (the buffer may already hold a first part), each frame that the client
  gets to is handled in order, a PING by one masked PONG with the same payload and the next four random
  bytes as its key, the last frame of a message by the report of the message; nothing else happens, and
  no byte is lost. The client decodes the complete frames of a piece up to the first PING, so what stays
  in the buffer is an incomplete frame, or what follows a PING until more bytes arrive. Allocations are
  granted.\<close>

theorem ping_answered:
  assumes "receiving n w" and "stream_ok w" and "[] \<notin> set pieces"
    and "content w @ concat pieces @ future = stream_bytes fs" and "next_ok_all (assembly_of w) fs"
    and "scan_pieces (length (content w)) pieces fs = (d, l)"
  shows "fs = d @ l \<and> events (receive_all pieces w) = events w @ fst (respond_all n d (assembly_of w, env_rng w)) \<and>
    content (receive_all pieces w) @ future = stream_bytes l \<and> uws_state (receive_all pieces w) = uws_state w \<and>
    receiving n (receive_all pieces w) \<and>
    (pieces = [] \<or> l = [] \<or> length (content (receive_all pieces w)) < length (frame_bytes (hd l)) \<or>
      d \<noteq> [] \<and> fst (last d) = 9)"
  using assms
proof (induction pieces arbitrary: w fs d l)
  case Nil
  then show ?case by (simp add: receive_all_def)
next
  case (Cons p pieces)
  obtain d1 l1 where 1: "scan (length (content w) + length p) fs = (d1, l1)" by (metis surj_pair)
  obtain d2 where 2: "scan_pieces (length (content w) + length p - length (stream_bytes d1)) pieces l1 = (d2, l)" "d = d1 @ d2"
    using Cons.prems(6) 1 by (auto split: prod.splits)
  let ?w1 = "on_underlying_io_bytes_received CLIENT (Some p) (length p) w"
  have p: "p \<noteq> []" "[] \<notin> set pieces" using Cons.prems(3) by auto
  have c: "content w @ p @ (concat pieces @ future) = stream_bytes fs" using Cons.prems(4) by simp
  have a: "answered n w d1 ?w1" "content ?w1 @ (concat pieces @ future) = stream_bytes l1"
    using piece_answers [OF Cons.prems(1,2) p(1) c Cons.prems(5) 1] by simp_all
  have fs: "fs = d1 @ l1" using scan_append [OF 1] .
  then have "length (content ?w1) + length (concat pieces @ future) + length (stream_bytes d1) =
      length (content w) + length p + length (concat pieces @ future)"
    using c a(2) by (metis (no_types, lifting) add.commute add.left_commute concat_append length_append map_append stream_bytes_def)
  then have k: "length (content ?w1) = length (content w) + length p - length (stream_bytes d1)" by linarith
  obtain es a1 g1 where r: "respond_all n d1 (assembly_of w, env_rng w) = (es, a1, g1)" by (metis prod_cases3)
  have w1: "receiving n ?w1" "stream_ok ?w1" "assembly_of ?w1 = a1" "env_rng ?w1 = g1" "events ?w1 = events w @ es"
    "uws_state ?w1 = uws_state w"
    using a(1) r by (simp_all add: answered_def stream_ok_def)
  have "next_ok_all a1 l1"
    using Cons.prems(5) next_ok_all_append [of "assembly_of w" d1 l1 n "env_rng w"] r fs by simp
  then have ih: "l1 = d2 @ l" "events (receive_all pieces ?w1) = events ?w1 @ fst (respond_all n d2 (a1, g1))"
    "content (receive_all pieces ?w1) @ future = stream_bytes l" "uws_state (receive_all pieces ?w1) = uws_state ?w1"
    "receiving n (receive_all pieces ?w1)"
    "pieces = [] \<or> l = [] \<or> length (content (receive_all pieces ?w1)) < length (frame_bytes (hd l)) \<or> d2 \<noteq> [] \<and> fst (last d2) = 9"
    using Cons.IH [OF w1(1,2) p(2) a(2) _ 2(1) [folded k]] w1(3,4) by simp_all
  have run: "receive_all (p # pieces) w = receive_all pieces ?w1" by (simp add: receive_all_def)
  have "l = [] \<or> length (content (receive_all pieces ?w1)) < length (frame_bytes (hd l)) \<or> d \<noteq> [] \<and> fst (last d) = 9"
  proof (cases "pieces = []")
    case True
    then have "d2 = []" "l1 = l" "receive_all pieces ?w1 = ?w1" using 2(1) by (simp_all add: receive_all_def)
    then show ?thesis using scan_stops [OF 1] k 2(2) by simp
  next
    case False
    then show ?thesis using ih(6) 2(2) by auto
  qed
  then show ?case using ih fs 2(2) w1(5,6) r unfolding run by (simp add: respond_all_append case_prod_unfold Let_def)
qed

text \<open>A PING in two pieces between the two fragments of a text message; the second fragment shares a piece
  with its end and is decoded with the next one.\<close>

theorem ping_answered_witness:
  "events (receive_all [[0x01, 1, 0x48, 0x89], [1, 0x42, 0x80], [1], [0x69]] demo_open) =
     [IoSend [0x8A, 0x81, 7, 7, 7, 7, 0x45], FrameReceived 2 1 [0x48, 0x69]]"
proof -
  let ?fs = "[(1, False, [0x48]), (9, True, [0x42]), (0, True, [0x69])] :: frame list"
  let ?ps = "[[0x01, 1, 0x48, 0x89], [1, 0x42, 0x80], [1], [0x69]] :: byte list list"
  have w: "receiving 2 demo_open" "stream_ok demo_open" "content demo_open = []" "assembly_of demo_open = (0, [])"
    "events demo_open = []" "env_rng demo_open = \<lparr>rng_vals = (\<lambda>_. 7), rng_pos = 0\<rparr>"
    by (simp_all add: receiving_def stream_ok_def content_def assembly_of_def fragments_ready_def fragments_def demo_open_def
        demo_opening_def demo_client_def heap0_def)
  have b: "frame_bytes (1, False, [0x48]) = [0x01, 1, 0x48]" "frame_bytes (9, True, [0x42]) = [0x89, 1, 0x42]"
    "frame_bytes (0, True, [0x69]) = [0x80, 1, 0x69]"
    by (simp_all add: frame_bytes_def ws_frame_def frame_length_field_def)
  have c: "content demo_open @ concat ?ps @ [] = stream_bytes ?fs" by (simp add: w(3) stream_bytes_def b)
  have ok: "next_ok_all (assembly_of demo_open) ?fs" by (simp add: w(4) next_ok_def)
  have "scan_pieces (length (content demo_open)) ?ps ?fs = (?fs, [])" by (simp add: w(3) b stream_bytes_def)
  from ping_answered [OF w(1,2) _ c ok this] show ?thesis
    by (simp add: w reports_def pong_bytes_def ws_frame_def frame_length_field_def frame_key_def)
qed

section \<open>Bad frames\<close>

text \<open>The announced length of a frame that is not encoded with the fewest bytes, or that has its
  top bit set.\<close>

definition bad_length :: "byte list \<Rightarrow> bool" where
  "bad_length bs \<longleftrightarrow>
     (length bs \<ge> 4 \<and> bs ! 1 = 126 \<and> be_value [bs ! 2, bs ! 3] < 126) \<or>
     (length bs \<ge> 10 \<and> bs ! 1 = 127 \<and>
        (bs ! 2 AND 0x80 \<noteq> 0 \<or>
         be_value [bs ! 2, bs ! 3, bs ! 4, bs ! 5, bs ! 6, bs ! 7, bs ! 8, bs ! 9] < 65536))"

lemma bad_length_refused:
  assumes "content w = bs" and "stream_ready w" and "bad_length bs"
  shows "decode_frame w = (False, indicate_ws_error WS_ERROR_BAD_FRAME_RECEIVED w)"
proof -
  have n: "stream_buffer_count w = length bs" using content_length [OF assms(2)] assms(1) by simp
  have at: "stream w ! i = bs ! i" if "i < length bs" for i using content_nth [of i w] n that assms(1) by simp
  from assms(3) consider (two) "length bs \<ge> 4" "bs ! 1 = 126" "be_value [bs ! 2, bs ! 3] < 126"
    | (eight) "length bs \<ge> 10" "bs ! 1 = 127" "bs ! 2 AND 0x80 \<noteq> 0 \<or>
         be_value [bs ! 2, bs ! 3, bs ! 4, bs ! 5, bs ! 6, bs ! 7, bs ! 8, bs ! 9] < 65536"
    unfolding bad_length_def by blast
  then show ?thesis
  proof cases
    case two
    have "frame_length w = (4, be_value [bs ! 2, bs ! 3], True)"
      using two at [of 1] at [of 2] at [of 3] n by (simp add: frame_length_def be_value_2)
    then show ?thesis using two at [of 1] n by (simp add: decode_frame_def Let_def)
  next
    case eight
    have "\<exists>len. frame_length w = (10, len, True)"
      using eight at [of 1] at [of 2] at [of 3] at [of 4] at [of 5] at [of 6] at [of 7] at [of 8] at [of 9] n
      by (auto simp: frame_length_def be_value_8 Let_def)
    then show ?thesis using eight at [of 1] n by (auto simp: decode_frame_def Let_def)
  qed
qed

text \<open>A part of such a frame that does not reach to the end of the length is left in the buffer.\<close>

lemma bad_length_part:
  assumes "stream_ready w" and "content w @ future = bs" and "bad_length bs" and "\<not> bad_length (content w)"
  shows "decode_frame w = (False, w)" "future \<noteq> []"
proof -
  have n: "stream_buffer_count w = length (content w)" using content_length [OF assms(1)] by simp
  have at: "bs ! i = content w ! i" if "i < length (content w)" for i using that assms(2) by (auto simp: nth_append)
  have st: "stream w ! i = content w ! i" if "i < length (content w)" for i using content_nth [of i w] n that by simp
  show "future \<noteq> []" using assms(2-4) by auto
  from assms(3) consider (two) "bs ! 1 = 126" "be_value [bs ! 2, bs ! 3] < 126"
    | (eight) "bs ! 1 = 127" "bs ! 2 AND 0x80 \<noteq> 0 \<or>
         be_value [bs ! 2, bs ! 3, bs ! 4, bs ! 5, bs ! 6, bs ! 7, bs ! 8, bs ! 9] < 65536"
    unfolding bad_length_def by blast
  then show "decode_frame w = (False, w)"
  proof cases
    case two
    have "length (content w) < 4"
    proof (rule ccontr)
      assume l: "\<not> length (content w) < 4"
      then have "content w ! 1 = bs ! 1" "content w ! 2 = bs ! 2" "content w ! 3 = bs ! 3" using at by simp_all
      then show False using two l assms(4) unfolding bad_length_def by (metis not_less)
    qed
    then show ?thesis
      using two at [of 1] st [of 1] n by (cases "length (content w) < 2") (simp_all add: decode_frame_def frame_length_def Let_def)
  next
    case eight
    have "length (content w) < 10"
    proof (rule ccontr)
      assume l: "\<not> length (content w) < 10"
      then have "content w ! 1 = bs ! 1" "content w ! 2 = bs ! 2" "content w ! 3 = bs ! 3" "content w ! 4 = bs ! 4"
        "content w ! 5 = bs ! 5" "content w ! 6 = bs ! 6" "content w ! 7 = bs ! 7" "content w ! 8 = bs ! 8" "content w ! 9 = bs ! 9"
        using at by simp_all
      then show False using eight l assms(4) unfolding bad_length_def by (metis not_less)
    qed
    then show ?thesis
      using eight at [of 1] st [of 1] n by (cases "length (content w) < 2") (simp_all add: decode_frame_def frame_length_def Let_def)
  qed
qed

text \<open>The loop on frames of messages and a bad frame behind them: it waits, or reports the error.\<close>

definition failed_after :: "nat \<Rightarrow> nat \<Rightarrow> uws_world \<Rightarrow> frame list \<Rightarrow> uws_world \<Rightarrow> bool" where
  "failed_after n e w fs w' \<longleftrightarrow> uws_state w' = UWS_STATE_ERROR \<and>
     events w' = events w @ reports n (fst (absorb_all fs (assembly_of w))) @ [WsError e WS_ERROR_BAD_FRAME_RECEIVED]"

lemma loop_bad:
  assumes "receiving n w" and "stream_ready w" and "content w @ future = stream_bytes fs @ bs" and "bad_length bs"
    and "may_follow_all (assembly_of w) fs" and "on_ws_error w = Some e"
  shows "failed_after n e w fs (decode_loop w) \<or>
    future \<noteq> [] \<and> (\<exists>d l. fs = d @ l \<and> received_so_far n w d (decode_loop w) \<and> on_ws_error (decode_loop w) = Some e \<and>
      content (decode_loop w) @ future = stream_bytes l @ bs)"
  using assms
proof (induction fs arbitrary: w)
  case Nil
  note step = decode_step_receiving [OF Nil.prems(1)]
  have c: "content w @ future = bs" using Nil.prems(3) by (simp add: stream_bytes_def)
  show ?case
  proof (cases "bad_length (content w)")
    case True
    have "decode_loop w = indicate_ws_error WS_ERROR_BAD_FRAME_RECEIVED w"
      using bad_length_refused [OF refl Nil.prems(2) True] step by (subst decode_loop.simps) simp
    then show ?thesis
      using Nil.prems(6) by (simp add: failed_after_def reports_def indicate_ws_error_def invoke_def emit_def Let_def)
  next
    case False
    note part = bad_length_part [OF Nil.prems(2) c Nil.prems(4) False]
    have "decode_loop w = w" using part(1) step by (subst decode_loop.simps) simp
    then show ?thesis using Nil.prems part(2) by (simp add: received_so_far_def reports_def)
  qed
next
  case (Cons f fs)
  note step = decode_step_receiving [OF Cons.prems(1)]
  have s: "starts_with w f" using content_starts [OF Cons.prems(2)] Cons.prems(3) by (simp add: stream_bytes_def)
  have m: "may_follow (assembly_of w) f" using Cons.prems(5) by simp
  show ?case
  proof (cases "length (frame_bytes f) \<le> stream_buffer_count w")
    case False
    then have w: "decode_loop w = w"
      using decode_frame_part [OF s m] step by (subst decode_loop.simps) simp
    have "future \<noteq> []"
    proof
      assume "future = []"
      then have "length (content w) = length (frame_bytes f) + length (stream_bytes fs @ bs)"
        using Cons.prems(3) by (simp add: stream_bytes_def)
      then show False using False content_length [OF Cons.prems(2)] by simp
    qed
    then show ?thesis
      using Cons.prems w by (intro disjI2 conjI exI [of _ "[]"] exI [of _ "f # fs"]) (simp_all add: received_so_far_def reports_def)
  next
    case True
    obtain w1 where w1: "decode_frame w = (True, w1)" "receiving n w1" "stream_ready w1"
      "content w1 = drop (length (frame_bytes f)) (content w)" "assembly_of w1 = snd (absorb f (assembly_of w))"
      "events w1 = events w @ reports n (fst (absorb f (assembly_of w)))" "uws_state w1 = uws_state w"
      using decode_frame_full [OF Cons.prems(1) s m True] by blast
    have e: "on_ws_error w1 = Some e" using decode_frame_rng(2) [OF s m] w1(1) Cons.prems(6) by simp
    have loop: "decode_loop w = decode_loop w1" using w1(1) step by (subst decode_loop.simps) simp
    have r: "received_so_far n w [f] w1" using w1 by (simp add: received_so_far_def case_prod_unfold Let_def)
    have "content w1 @ future = drop (length (frame_bytes f)) (content w @ future)"
      using True content_length [OF Cons.prems(2)] by (simp add: w1(4))
    then have c: "content w1 @ future = stream_bytes fs @ bs" using Cons.prems(3) by (simp add: stream_bytes_def)
    have "may_follow_all (assembly_of w1) fs" using Cons.prems(5) w1(5) by simp
    from Cons.IH [OF w1(2,3) c Cons.prems(4) this e] show ?thesis
    proof (elim disjE conjE exE)
      assume "failed_after n e w1 fs (decode_loop w1)"
      then show ?thesis
        using w1(5,6) unfolding loop by (simp add: failed_after_def reports_def case_prod_unfold Let_def)
    next
      fix d l assume "future \<noteq> []" "fs = d @ l" "received_so_far n w1 d (decode_loop w1)" "on_ws_error (decode_loop w1) = Some e"
        "content (decode_loop w1) @ future = stream_bytes l @ bs"
      then show ?thesis
        using received_trans [OF r, of d "decode_loop w1"] unfolding loop
        by (intro disjI2 conjI exI [of _ "f # d"] exI [of _ l]) simp_all
    qed
  qed
qed

lemma receive_stops_on_error:
  "uws_state w = UWS_STATE_ERROR \<Longrightarrow> [] \<notin> set pieces \<Longrightarrow> receive_all pieces w = w"
  by (induction pieces) (auto simp: receive_all_def on_underlying_io_bytes_received_def)

text \<open>C18: A frame whose length is not encoded with the fewest possible bytes, or has its top bit set,
  is an error wherever it arrives, also behind other frames of messages, between fragments, and with its
  header in pieces: on a client that is open or waits for the peer's CLOSE, the messages completed
  before it are reported, then the error is reported once, and nothing of the frame or behind it is
  delivered, in that piece and all later ones. The client has its error callback, as each open demands,
  and allocations are granted.\<close>

theorem bad_length_is_error:
  assumes "receiving n w" and "stream_ok w" and "on_ws_error w = Some e" and "may_follow_all (assembly_of w) fs"
    and "bad_length bs" and "[] \<notin> set pieces" and "pieces \<noteq> []"
    and "content w @ concat pieces = stream_bytes fs @ bs"
  shows "events (receive_all pieces w) =
      events w @ reports n (fst (absorb_all fs (assembly_of w))) @ [WsError e WS_ERROR_BAD_FRAME_RECEIVED] \<and>
    uws_state (receive_all pieces w) = UWS_STATE_ERROR"
  using assms
proof (induction pieces arbitrary: w fs)
  case (Cons p pieces)
  have ok: "\<forall>i. mem_ok (env_heap w) i" using Cons.prems(1) by (simp add: receiving_def)
  have p: "p \<noteq> []" "[] \<notin> set pieces" using Cons.prems(6) by auto
  obtain h b where a: "append_received p (length p) w =
      (True, w\<lparr>env_heap := h, stream_buffer := Some b, stream_buffer_count := stream_buffer_count w + length p\<rparr>)"
    "mem_ok h = mem_ok (env_heap w)" "length b = stream_buffer_count w + length p + 1"
    "take (stream_buffer_count w + length p) b = content w @ take (length p) p"
    using append_content [OF ok Cons.prems(2) order_refl] by blast
  let ?w1 = "w\<lparr>env_heap := h, stream_buffer_count := stream_buffer_count w + length p,
    stream_buffer := Some (b[stream_buffer_count w + length p := 0])\<rparr>"
  have run: "receive_all (p # pieces) w = receive_all pieces (decode_loop ?w1)"
    using Cons.prems(1) p(1) a
    by (auto simp: receive_all_def on_underlying_io_bytes_received_def receive_in_open_def receiving_def)
  have w1: "receiving n ?w1" "stream_ready ?w1" "assembly_of ?w1 = assembly_of w" "content ?w1 = content w @ p" "on_ws_error ?w1 = Some e"
    using Cons.prems(1,3) a by (auto simp: receiving_def fragments_ready_def fragments_def stream_ready_def assembly_of_def content_def)
  have "content ?w1 @ concat pieces = stream_bytes fs @ bs" "may_follow_all (assembly_of ?w1) fs"
    using Cons.prems(4,8) w1(3,4) by simp_all
  from loop_bad [OF w1(1,2) this(1) Cons.prems(5) this(2) w1(5)] show ?case
  proof (elim disjE conjE exE)
    assume "failed_after n e ?w1 fs (decode_loop ?w1)"
    then show ?thesis
      using receive_stops_on_error [OF _ p(2), of "decode_loop ?w1"] w1(3) unfolding run by (simp add: failed_after_def)
  next
    fix d l assume d: "concat pieces \<noteq> []" "fs = d @ l" "received_so_far n ?w1 d (decode_loop ?w1)"
      "on_ws_error (decode_loop ?w1) = Some e" "content (decode_loop ?w1) @ concat pieces = stream_bytes l @ bs"
    then have r: "receiving n (decode_loop ?w1)" "stream_ok (decode_loop ?w1)" "pieces \<noteq> []"
      "assembly_of (decode_loop ?w1) = snd (absorb_all d (assembly_of w))"
      "events (decode_loop ?w1) = events w @ reports n (fst (absorb_all d (assembly_of w)))"
      using w1(3) by (auto simp: received_so_far_def stream_ok_def)
    have "may_follow_all (assembly_of (decode_loop ?w1)) l"
      using Cons.prems(4) d(2) r(4) by (simp add: may_follow_all_append)
    from Cons.IH [OF r(1,2) d(4) this Cons.prems(5) p(2) r(3) d(5)] show ?thesis
      using d(2) r(4,5) unfolding run by (simp add: absorb_all_append reports_def)
  qed
qed simp

text \<open>A message, the first fragment of another, and a bad header in two pieces.\<close>

theorem bad_length_is_error_witness:
  "events (receive_all [[0x82, 1, 7, 0x01, 1], [0x48, 0x80, 126, 0], [125, 1], [0x81, 0]] demo_open) =
     [FrameReceived 2 2 [7], WsError 4 WS_ERROR_BAD_FRAME_RECEIVED]"
proof -
  let ?fs = "[(2, True, [7]), (1, False, [0x48])] :: frame list"
  let ?ps = "[[0x82, 1, 7, 0x01, 1], [0x48, 0x80, 126, 0], [125, 1], [0x81, 0]] :: byte list list"
  have w: "receiving 2 demo_open" "stream_ok demo_open" "on_ws_error demo_open = Some 4" "content demo_open = []"
    "assembly_of demo_open = (0, [])" "events demo_open = []"
    by (simp_all add: receiving_def stream_ok_def content_def assembly_of_def fragments_ready_def fragments_def demo_open_def
        demo_opening_def demo_client_def heap0_def)
  have "content demo_open @ concat ?ps = stream_bytes ?fs @ [0x80, 126, 0, 125, 1, 0x81, 0]"
    by (simp add: w(4) stream_bytes_def frame_bytes_def ws_frame_def frame_length_field_def)
  moreover have "may_follow_all (assembly_of demo_open) ?fs" "bad_length [0x80, 126, 0, 125, 1, 0x81, 0]"
    by (simp_all add: w(5) bad_length_def be_value_2)
  ultimately show ?thesis
    using bad_length_is_error [OF w(1-3), of ?fs "[0x80, 126, 0, 125, 1, 0x81, 0]" ?ps]
    by (simp add: w(5,6) reports_def)
qed

end
