(* ===== verification/Wsio.thy ===== *)
theory Wsio
  imports Uws_Create
begin

text \<open>
  The WebSocket IO of \<open>src/wsio.c\<close>: an IO that sends and receives bytes as binary frames of the
  WebSocket client. It is modelled over the client of \<open>Uws_Client\<close> and its siblings: a call of the
  client runs the client, and the callbacks the client made are the events it added, delivered
  to the handlers of this file in order. The handlers free memory but never call the client, so
  delivering the callbacks after the call has returned is the same as during it.
\<close>

section \<open>The state\<close>

datatype IO_STATE = IO_STATE_NOT_OPEN | IO_STATE_OPENING | IO_STATE_OPEN | IO_STATE_CLOSING | IO_STATE_ERROR

record PENDING_IO =
  on_send_complete :: callback

record WSIO_INSTANCE =
  on_bytes_received :: callback
  on_io_open_complete :: callback
  on_io_error :: callback
  on_io_close_complete :: callback
  io_state :: IO_STATE
  pending_io_list :: "(nat \<times> PENDING_IO) list"

record WSIO_CONFIG =
  wsio_underlying_io_interface :: bool
  wsio_underlying_io_created :: bool
  wsio_hostname :: cptr
  wsio_port :: "32 word"
  wsio_resource_name :: cptr
  wsio_protocol :: cptr

text \<open>What the user of the IO sees; \<open>Io_Null_Callback\<close> is the call of a null pointer and
  \<open>Io_Dangling\<close> the use of a list item that has been freed.\<close>

datatype wsio_event =
    Io_Open_Complete nat IO_OPEN_RESULT detail_code
  | Io_Bytes_Received nat "byte list"
  | Io_Error_Indicated nat
  | Io_Close_Complete nat
  | Io_Send_Complete nat IO_SEND_RESULT
  | Io_Null_Callback
  | Io_Dangling

record wsio_world = WSIO_INSTANCE +
  uws :: uws_world
  io_events :: "wsio_event list"

definition io_emit :: "wsio_event \<Rightarrow> wsio_world \<Rightarrow> wsio_world" where
  "io_emit e w = w\<lparr>io_events := io_events w @ [e]\<rparr>"

definition io_invoke :: "callback \<Rightarrow> (nat \<Rightarrow> wsio_event) \<Rightarrow> wsio_world \<Rightarrow> wsio_world" where
  "io_invoke cb ev w = io_emit (case cb of None \<Rightarrow> Io_Null_Callback | Some n \<Rightarrow> ev n) w"

abbreviation io_heap :: "wsio_world \<Rightarrow> heap" where
  "io_heap w \<equiv> env_heap (uws w)"

definition set_io_heap :: "heap \<Rightarrow> wsio_world \<Rightarrow> wsio_world" where
  "set_io_heap h w = w\<lparr>uws := (uws w)\<lparr>env_heap := h\<rparr>\<rparr>"

section \<open>The callbacks of the client\<close>

definition indicate_error :: "wsio_world \<Rightarrow> wsio_world" where
  "indicate_error w = (let w1 = w\<lparr>io_state := IO_STATE_ERROR\<rparr> in io_invoke (on_io_error w1) Io_Error_Indicated w1)"

definition indicate_open_complete :: "IO_OPEN_RESULT \<Rightarrow> detail_code \<Rightarrow> wsio_world \<Rightarrow> wsio_world" where
  "indicate_open_complete r c w = io_invoke (on_io_open_complete w) (\<lambda>n. Io_Open_Complete n r c) w"

definition complete_send_item :: "nat \<Rightarrow> IO_SEND_RESULT \<Rightarrow> wsio_world \<Rightarrow> wsio_world" where
  "complete_send_item item io_send_result w =
     (case map_of (pending_io_list w) item of
        None \<Rightarrow> io_emit Io_Dangling w
      | Some pending_io \<Rightarrow>
          (let (_, ps, h) = pairs_remove (pending_io_list w) item (io_heap w);
               w1 = set_io_heap h (w\<lparr>pending_io_list := ps\<rparr>);
               w2 = (case on_send_complete pending_io of
                       None \<Rightarrow> w1
                     | Some n \<Rightarrow> io_emit (Io_Send_Complete n io_send_result) w1) in
           set_io_heap (free_struct (io_heap w2)) w2))"

definition on_underlying_ws_send_frame_complete :: "nat option \<Rightarrow> WS_SEND_FRAME_RESULT \<Rightarrow> wsio_world \<Rightarrow> wsio_world" where
  "on_underlying_ws_send_frame_complete context ws_send_frame_result w =
     (case context of
        None \<Rightarrow> w
      | Some list_item_handle \<Rightarrow>
          complete_send_item list_item_handle
            (case ws_send_frame_result of
               WS_SEND_FRAME_OK \<Rightarrow> IO_SEND_OK
             | WS_SEND_FRAME_CANCELLED \<Rightarrow> IO_SEND_CANCELLED
             | WS_SEND_FRAME_ERROR \<Rightarrow> IO_SEND_ERROR) w)"

definition on_underlying_ws_close_complete :: "handle \<Rightarrow> wsio_world \<Rightarrow> wsio_world" where
  "on_underlying_ws_close_complete context w =
     (case context of
        NULL_HANDLE \<Rightarrow> w
      | CLIENT \<Rightarrow>
          (let w1 = w\<lparr>io_state := IO_STATE_NOT_OPEN\<rparr> in
           case on_io_close_complete w1 of None \<Rightarrow> w1 | Some n \<Rightarrow> io_emit (Io_Close_Complete n) w1))"

text \<open>The value of the enumeration, which starts at zero.\<close>

fun ws_open_value :: "WS_OPEN_RESULT \<Rightarrow> int" where
  "ws_open_value WS_OPEN_OK = 0"
| "ws_open_value WS_OPEN_ERROR_UNDERLYING_IO_OPEN_FAILED = 1"
| "ws_open_value WS_OPEN_ERROR_UNDERLYING_IO_OPEN_CANCELLED = 2"
| "ws_open_value WS_OPEN_ERROR_NOT_ENOUGH_MEMORY = 3"
| "ws_open_value WS_OPEN_ERROR_CANNOT_CONSTRUCT_UPGRADE_REQUEST = 4"
| "ws_open_value WS_OPEN_ERROR_CANNOT_SEND_UPGRADE_REQUEST = 5"
| "ws_open_value WS_OPEN_ERROR_MULTIPLE_UNDERLYING_IO_OPEN_EVENTS = 6"
| "ws_open_value WS_OPEN_ERROR_CONSTRUCTING_UPGRADE_REQUEST = 7"
| "ws_open_value WS_OPEN_ERROR_INVALID_BYTES_RECEIVED_ARGUMENTS = 8"
| "ws_open_value WS_OPEN_ERROR_BYTES_RECEIVED_BEFORE_UNDERLYING_OPEN = 9"
| "ws_open_value WS_OPEN_CANCELLED = 10"
| "ws_open_value WS_OPEN_ERROR_UNDERLYING_IO_ERROR = 11"
| "ws_open_value WS_OPEN_ERROR_BAD_UPGRADE_RESPONSE = 12"
| "ws_open_value WS_OPEN_ERROR_BASE64_ENCODE_FAILED = 13"
| "ws_open_value WS_OPEN_ERROR_BAD_RESPONSE_STATUS = 14"

definition on_underlying_ws_open_complete :: "handle \<Rightarrow> WS_OPEN_RESULT_DETAILED \<Rightarrow> wsio_world \<Rightarrow> wsio_world" where
  "on_underlying_ws_open_complete context ws_open_result_detailed w =
     (let open_result = ws_open_result ws_open_result_detailed in
      case context of
        NULL_HANDLE \<Rightarrow> w
      | CLIENT \<Rightarrow>
          (if io_state w = IO_STATE_OPENING then
             (if open_result = WS_OPEN_OK then indicate_open_complete IO_OPEN_OK (Code 0) (w\<lparr>io_state := IO_STATE_OPEN\<rparr>)
              else if open_result = WS_OPEN_CANCELLED then
                indicate_open_complete IO_OPEN_CANCELLED (Code (ws_open_value open_result)) (w\<lparr>io_state := IO_STATE_NOT_OPEN\<rparr>)
              else
                indicate_open_complete IO_OPEN_ERROR (Code (ws_open_value open_result)) (w\<lparr>io_state := IO_STATE_NOT_OPEN\<rparr>))
           else indicate_error w))"

definition on_underlying_ws_frame_received :: "handle \<Rightarrow> byte \<Rightarrow> byte list option \<Rightarrow> nat \<Rightarrow> wsio_world \<Rightarrow> wsio_world" where
  "on_underlying_ws_frame_received context frame_type buffer sz w =
     (case context of
        NULL_HANDLE \<Rightarrow> w
      | CLIENT \<Rightarrow>
          (if io_state w \<noteq> IO_STATE_OPEN then w
           else if frame_type \<noteq> WS_FRAME_TYPE_BINARY then indicate_error w
           else if sz > 0 then
             (case buffer of
                None \<Rightarrow> indicate_error w
              | Some b \<Rightarrow> io_invoke (on_bytes_received w) (\<lambda>n. Io_Bytes_Received n (take sz b)) w)
           else w))"

definition on_underlying_ws_peer_closed :: "handle \<Rightarrow> wsio_world \<Rightarrow> wsio_world" where
  "on_underlying_ws_peer_closed context w =
     (case context of
        NULL_HANDLE \<Rightarrow> w
      | CLIENT \<Rightarrow>
          (case io_state w of
             IO_STATE_NOT_OPEN \<Rightarrow> (indicate_error w)\<lparr>io_state := IO_STATE_NOT_OPEN\<rparr>
           | IO_STATE_OPENING \<Rightarrow> indicate_open_complete IO_OPEN_ERROR Failure_Line (w\<lparr>io_state := IO_STATE_NOT_OPEN\<rparr>)
           | _ \<Rightarrow> indicate_error w))"

definition on_underlying_ws_error :: "handle \<Rightarrow> WS_ERROR \<Rightarrow> wsio_world \<Rightarrow> wsio_world" where
  "on_underlying_ws_error context ws_error w =
     (case context of
        NULL_HANDLE \<Rightarrow> w
      | CLIENT \<Rightarrow>
          (if io_state w = IO_STATE_OPENING
           then (indicate_open_complete IO_OPEN_ERROR (Code 0) w)\<lparr>io_state := IO_STATE_NOT_OPEN\<rparr>
           else io_invoke (on_io_error w) Io_Error_Indicated w))"

text \<open>The handler of each event of the client; its calls of the underlying IO are not for this file.\<close>

fun deliver :: "ws_event \<Rightarrow> wsio_world \<Rightarrow> wsio_world" where
  "deliver (OpenComplete _ d) w = on_underlying_ws_open_complete CLIENT d w"
| "deliver (FrameReceived _ t bs) w = on_underlying_ws_frame_received CLIENT t (Some bs) (length bs) w"
| "deliver (PeerClosed _ _ _) w = on_underlying_ws_peer_closed CLIENT w"
| "deliver (WsError _ e) w = on_underlying_ws_error CLIENT e w"
| "deliver (CloseComplete _) w = on_underlying_ws_close_complete CLIENT w"
| "deliver (SendFrameComplete item r) w = on_underlying_ws_send_frame_complete (Some item) r w"
| "deliver _ w = w"

definition deliver_all :: "ws_event list \<Rightarrow> wsio_world \<Rightarrow> wsio_world" where
  "deliver_all es w = fold deliver es w"

definition with_uws :: "(uws_world \<Rightarrow> 'r \<times> uws_world) \<Rightarrow> wsio_world \<Rightarrow> 'r \<times> wsio_world" where
  "with_uws f w =
     (let (r, u) = f (uws w) in (r, deliver_all (drop (length (events (uws w))) (events u)) (w\<lparr>uws := u\<rparr>)))"

section \<open>Closing\<close>

lemma complete_send_item_pending:
  "pending_io_list (complete_send_item item r w) = filter (\<lambda>q. fst q \<noteq> item) (pending_io_list w)"
proof -
  have "item \<notin> fst ` set xs \<Longrightarrow> filter (\<lambda>q. fst q \<noteq> item) xs = xs" for xs :: "(nat \<times> PENDING_IO) list"
    by (auto simp: filter_id_conv)
  then show ?thesis
    by (auto simp: complete_send_item_def pairs_remove_def set_io_heap_def io_emit_def Let_def map_of_eq_None_iff
        split: option.splits)
qed

function cancel_pending_loop :: "wsio_world \<Rightarrow> wsio_world" where
  "cancel_pending_loop w =
     (case pending_io_list w of
        [] \<Rightarrow> w
      | (first_pending_io, _) # _ \<Rightarrow> cancel_pending_loop (complete_send_item first_pending_io IO_SEND_CANCELLED w))"
  by pat_completeness auto
termination
  by (relation "measure (\<lambda>w. length (pending_io_list w))") (auto simp: complete_send_item_pending le_imp_less_Suc)

declare cancel_pending_loop.simps [simp del]

text \<open>The callbacks given to the client have one name, their context being the instance.\<close>

definition wsio_callback :: callback where "wsio_callback = Some 0"

definition internal_close :: "callback \<Rightarrow> wsio_world \<Rightarrow> rc \<times> wsio_world" where
  "internal_close close_complete w =
     (case io_state w of
        IO_STATE_NOT_OPEN \<Rightarrow> (Failure, w)
      | IO_STATE_OPENING \<Rightarrow>
          (Success, indicate_open_complete IO_OPEN_CANCELLED Failure_Line (w\<lparr>io_state := IO_STATE_NOT_OPEN\<rparr>))
      | IO_STATE_CLOSING \<Rightarrow> (Failure, w)
      | _ \<Rightarrow>
          (let w1 = w\<lparr>io_state := IO_STATE_CLOSING, on_io_close_complete := close_complete\<rparr>;
               w2 = (case with_uws (uws_client_close_async CLIENT wsio_callback) w1 of
                       (Success, w2) \<Rightarrow> w2
                     | (Failure, w2) \<Rightarrow>
                         (case on_io_close_complete w2 of
                            None \<Rightarrow> w2
                          | Some n \<Rightarrow> io_emit (Io_Close_Complete n) w2)) in
           (Success, (cancel_pending_loop w2)\<lparr>io_state := IO_STATE_NOT_OPEN\<rparr>)))"

section \<open>Creation and destruction\<close>

definition wsio_create :: "WSIO_CONFIG option \<Rightarrow> wsio_world \<Rightarrow> handle \<times> wsio_world" where
  "wsio_create io_create_parameters w =
     (case io_create_parameters of
        None \<Rightarrow> (NULL_HANDLE, w)
      | Some c \<Rightarrow>
          (if wsio_hostname c = None \<or> wsio_resource_name c = None \<or> wsio_protocol c = None then (NULL_HANDLE, w)
           else
             (case malloc_struct (io_heap w) of
                (False, h) \<Rightarrow> (NULL_HANDLE, set_io_heap h w)
              | (True, h) \<Rightarrow>
                  (case with_uws (uws_client_create_with_io (wsio_underlying_io_interface c) (wsio_underlying_io_created c)
                          (wsio_hostname c) (wsio_port c) (wsio_resource_name c) (Some [wsio_protocol c]) 1)
                          (set_io_heap h w) of
                     (NULL_HANDLE, w1) \<Rightarrow> (NULL_HANDLE, set_io_heap (free_struct (io_heap w1)) w1)
                   | (CLIENT, w1) \<Rightarrow>
                       (case malloc_struct (io_heap w1) of
                          (False, h) \<Rightarrow>
                            (let w2 = snd (with_uws (\<lambda>u. ((), uws_client_destroy CLIENT u)) (set_io_heap h w1)) in
                             (NULL_HANDLE, set_io_heap (free_struct (io_heap w2)) w2))
                        | (True, h) \<Rightarrow>
                            (CLIENT, set_io_heap h
                               (w1\<lparr>on_bytes_received := None, on_io_open_complete := None, on_io_error := None,
                                   on_io_close_complete := None, pending_io_list := [], io_state := IO_STATE_NOT_OPEN\<rparr>)))))))"

definition wsio_destroy :: "handle \<Rightarrow> wsio_world \<Rightarrow> wsio_world" where
  "wsio_destroy ws_io w =
     (case ws_io of
        NULL_HANDLE \<Rightarrow> w
      | CLIENT \<Rightarrow>
          (let w1 = (if io_state w \<noteq> IO_STATE_NOT_OPEN then snd (internal_close None w) else w);
               w2 = snd (with_uws (\<lambda>u. ((), uws_client_destroy CLIENT u)) w1);
               h = fold (\<lambda>_. free_struct) (pending_io_list w2) (io_heap w2) in
           set_io_heap (free_struct (free_struct h)) w2))"

section \<open>The interface\<close>

definition wsio_open :: "handle \<Rightarrow> callback \<Rightarrow> callback \<Rightarrow> callback \<Rightarrow> wsio_world \<Rightarrow> rc \<times> wsio_world" where
  "wsio_open ws_io open_complete bytes_received io_error w =
     (if ws_io = NULL_HANDLE \<or> open_complete = None \<or> bytes_received = None \<or> io_error = None then (Failure, w)
      else if io_state w \<noteq> IO_STATE_NOT_OPEN then (Failure, w)
      else
        (case with_uws (uws_client_open_async CLIENT wsio_callback wsio_callback wsio_callback wsio_callback)
                (w\<lparr>on_bytes_received := bytes_received, on_io_open_complete := open_complete, on_io_error := io_error,
                   io_state := IO_STATE_OPENING\<rparr>) of
           (Failure, w1) \<Rightarrow> (Failure, w1\<lparr>io_state := IO_STATE_NOT_OPEN\<rparr>)
         | (Success, w1) \<Rightarrow> (Success, w1)))"

definition wsio_close :: "handle \<Rightarrow> callback \<Rightarrow> wsio_world \<Rightarrow> rc \<times> wsio_world" where
  "wsio_close ws_io close_complete w =
     (case ws_io of NULL_HANDLE \<Rightarrow> (Failure, w) | CLIENT \<Rightarrow> internal_close close_complete w)"

definition wsio_send :: "handle \<Rightarrow> byte list option \<Rightarrow> nat \<Rightarrow> callback \<Rightarrow> wsio_world \<Rightarrow> rc \<times> wsio_world" where
  "wsio_send ws_io buffer sz send_complete w =
     (if ws_io = NULL_HANDLE \<or> buffer = None \<or> sz = 0 then (Failure, w)
      else if io_state w \<noteq> IO_STATE_OPEN then (Failure, w)
      else
        (case malloc_struct (io_heap w) of
           (False, h) \<Rightarrow> (Failure, set_io_heap h w)
         | (True, h) \<Rightarrow>
             (let pending_socket_io = \<lparr>on_send_complete = send_complete\<rparr>;
                  (new_item, ps, h1) = pairs_add (pending_io_list w) pending_socket_io h in
              case new_item of
                None \<Rightarrow> (Failure, set_io_heap (free_struct h1) w)
              | Some item \<Rightarrow>
                  (case with_uws (uws_client_send_frame_async CLIENT WS_FRAME_TYPE_BINARY buffer sz True new_item)
                          (set_io_heap h1 (w\<lparr>pending_io_list := ps\<rparr>)) of
                     (Success, w1) \<Rightarrow> (Success, w1)
                   | (Failure, w1) \<Rightarrow>
                       (if map_of (pending_io_list w1) item = None then (Failure, io_emit Io_Dangling w1)
                        else
                          (let (_, ps2, h2) = pairs_remove (pending_io_list w1) item (io_heap w1) in
                           (Failure, set_io_heap (free_struct h2) (w1\<lparr>pending_io_list := ps2\<rparr>))))))))"

definition wsio_dowork :: "handle \<Rightarrow> wsio_world \<Rightarrow> wsio_world" where
  "wsio_dowork ws_io w =
     (case ws_io of
        NULL_HANDLE \<Rightarrow> w
      | CLIENT \<Rightarrow>
          (if io_state w \<noteq> IO_STATE_NOT_OPEN then snd (with_uws (\<lambda>u. ((), uws_client_dowork CLIENT u)) w) else w))"

end
