(* ===== verification/Uws_Settled.thy ===== *)
theory Uws_Settled
  imports Uws_Create
begin

text \<open>
  When the WebSocket client is closed or opens, no send is pending: with an underlying IO that
  closes at once and keeps to the order of the calls, every step keeps this. The WebSocket IO
  relies on it, as it throws its own list away when it closes.
\<close>

section \<open>The relation\<close>

fun idle_state :: "UWS_STATE \<Rightarrow> bool" where
  "idle_state UWS_STATE_CLOSED = True"
| "idle_state UWS_STATE_OPENING_UNDERLYING_IO = True"
| "idle_state UWS_STATE_WAITING_FOR_UPGRADE_RESPONSE = True"
| "idle_state _ = False"

definition settled :: "uws_world \<Rightarrow> bool" where
  "settled w \<longleftrightarrow> (idle_state (uws_state w) \<longrightarrow> pending_sends w = [])"

definition closes_at_once :: "uws_world \<Rightarrow> bool" where
  "closes_at_once w \<longleftrightarrow> (\<forall>i. xio_close_answer w i = (Success, True))"

definition calm :: "uws_world \<Rightarrow> uws_world \<Rightarrow> bool" where
  "calm w w' \<longleftrightarrow> xio_close_answer w' = xio_close_answer w \<and> xio_open_answer w' = xio_open_answer w \<and>
     (closes_at_once w \<longrightarrow> settled w \<longrightarrow> settled w')"

named_theorems calming

lemma calm_refl [simp]: "calm w w"
  by (simp add: calm_def)

lemma calm_trans: "calm w w1 \<Longrightarrow> calm w1 w2 \<Longrightarrow> calm w w2"
  by (simp add: calm_def closes_at_once_def)

lemma calm_update [calming]:
  "calm w w1 \<Longrightarrow> calm w (w1\<lparr>env_heap := h\<rparr>)"
  "calm w w1 \<Longrightarrow> calm w (w1\<lparr>env_rng := g\<rparr>)"
  "calm w w1 \<Longrightarrow> calm w (w1\<lparr>env_errno := e\<rparr>)"
  "calm w w1 \<Longrightarrow> calm w (w1\<lparr>env_time_reads := k\<rparr>)"
  "calm w w1 \<Longrightarrow> calm w (w1\<lparr>xio_calls := k\<rparr>)"
  "calm w w1 \<Longrightarrow> calm w (w1\<lparr>events := es\<rparr>)"
  "calm w w1 \<Longrightarrow> calm w (w1\<lparr>stream_buffer := b\<rparr>)"
  "calm w w1 \<Longrightarrow> calm w (w1\<lparr>stream_buffer_count := k\<rparr>)"
  "calm w w1 \<Longrightarrow> calm w (w1\<lparr>fragment_buffer := b\<rparr>)"
  "calm w w1 \<Longrightarrow> calm w (w1\<lparr>fragment_buffer_count := k\<rparr>)"
  "calm w w1 \<Longrightarrow> calm w (w1\<lparr>fragmented_frame_type := t\<rparr>)"
  "calm w w1 \<Longrightarrow> calm w (w1\<lparr>last_open_wait_log_time := i\<rparr>)"
  "calm w w1 \<Longrightarrow> calm w (w1\<lparr>open_start_time := i\<rparr>)"
  "calm w w1 \<Longrightarrow> calm w (w1\<lparr>on_ws_close_complete := cb\<rparr>)"
  "calm w w1 \<Longrightarrow> calm w (w1\<lparr>on_ws_open_complete := cb\<rparr>)"
  "calm w w1 \<Longrightarrow> calm w (w1\<lparr>on_ws_frame_received := cb\<rparr>)"
  "calm w w1 \<Longrightarrow> calm w (w1\<lparr>on_ws_peer_closed := cb\<rparr>)"
  "calm w w1 \<Longrightarrow> calm w (w1\<lparr>on_ws_error := cb\<rparr>)"
  "calm w w1 \<Longrightarrow> calm w (w1\<lparr>request_headers := m\<rparr>)"
  "calm w w1 \<Longrightarrow> \<not> idle_state s \<Longrightarrow> calm w (w1\<lparr>uws_state := s\<rparr>)"
  "calm w w1 \<Longrightarrow> idle_state (uws_state w1) \<Longrightarrow> calm w (w1\<lparr>uws_state := s\<rparr>)"
  by (simp_all add: calm_def settled_def)

lemma calm_emit [calming]: "calm w w1 \<Longrightarrow> calm w (emit e w1)"
  by (simp add: emit_def calming)

lemma calm_invoke [calming]: "calm w w1 \<Longrightarrow> calm w (invoke cb ev w1)"
  by (simp add: invoke_def calming)

lemma state_emit [simp]: "uws_state (emit e w) = uws_state w" "uws_state (invoke cb ev w) = uws_state w"
  by (simp_all add: emit_def invoke_def)

lemma calm_close_quietly [calming]: "calm w w1 \<Longrightarrow> calm w (xio_close_quietly w1)"
  by (simp add: xio_close_quietly_def calming)

lemma calm_ws_error [calming]: "calm w w1 \<Longrightarrow> calm w (indicate_ws_error e w1)"
  by (simp add: indicate_ws_error_def Let_def calming)

lemma calm_open_error [calming]:
  "calm w w1 \<Longrightarrow> idle_state (uws_state w1) \<Longrightarrow> calm w (indicate_ws_open_complete_error r w1)"
  "calm w w1 \<Longrightarrow> idle_state (uws_state w1) \<Longrightarrow> calm w (indicate_ws_open_complete_error_and_close r w1)"
  by (simp_all add: indicate_ws_open_complete_error_and_close_def indicate_ws_open_complete_error_def Let_def calming xio_close_quietly_def)

section \<open>Closing\<close>

lemma calm_complete_send_frame [calming]:
  assumes "calm w w1"
  shows "calm w (snd (complete_send_frame p a r w1))"
proof -
  have "uws_state (snd (complete_send_frame p a r w1)) = uws_state w1"
    "xio_close_answer (snd (complete_send_frame p a r w1)) = xio_close_answer w1"
    "xio_open_answer (snd (complete_send_frame p a r w1)) = xio_open_answer w1"
    by (auto simp: complete_send_frame_def emit_def Let_def split: prod.splits rc.splits option.splits)
  then show ?thesis using assms by (simp add: calm_def settled_def complete_send_frame_pending)
qed

lemma calm_clear_pending_sends [calming]: "calm w w1 \<Longrightarrow> calm w (clear_pending_sends w1)"
proof (induction w1 rule: clear_pending_sends.induct)
  case (1 w1)
  then show ?case by (subst clear_pending_sends.simps) (auto simp: calming split: list.splits)
qed

lemma calm_empty: "calm w w1 \<Longrightarrow> pending_sends w1 = [] \<Longrightarrow> calm w (w1\<lparr>uws_state := s\<rparr>)"
  by (simp add: calm_def settled_def)

lemma answers_clear [simp]:
  "xio_close_answer (clear_pending_sends w) = xio_close_answer w" "xio_open_answer (clear_pending_sends w) = xio_open_answer w"
  using calm_clear_pending_sends [OF calm_refl, of w] by (simp_all add: calm_def)

lemma close_complete_empty [simp]: "pending_sends (indicate_ws_close_complete w) = []"
  by (simp add: indicate_ws_close_complete_def emit_def Let_def split: option.split)

lemma calm_close_complete [calming]:
  assumes "calm w w1"
  shows "calm w (indicate_ws_close_complete w1)"
proof -
  have "xio_close_answer (indicate_ws_close_complete w1) = xio_close_answer w1"
    "xio_open_answer (indicate_ws_close_complete w1) = xio_open_answer w1"
    by (simp_all add: indicate_ws_close_complete_def emit_def Let_def split: option.split)
  then show ?thesis using assms by (simp add: calm_def settled_def)
qed

lemma calm_on_close_complete [calming]: "calm w w1 \<Longrightarrow> calm w (on_underlying_io_close_complete c w1)"
  by (cases c) (simp_all add: on_underlying_io_close_complete_def calming calm_empty)

lemma calm_xio_close [calming]: "calm w w1 \<Longrightarrow> calm w (snd (xio_close w1))"
  by (auto simp: xio_close_def Let_def calming split: prod.splits)

text \<open>A close that ends at once leaves the client closed and nothing pending.\<close>

lemma xio_close_prompt:
  assumes "closes_at_once w" and "xio_close (w\<lparr>uws_state := UWS_STATE_CLOSING_UNDERLYING_IO\<rparr>) = (r, w')"
  shows "r = Success" "pending_sends w' = []" "uws_state w' = UWS_STATE_CLOSED"
  using assms by (auto simp: closes_at_once_def xio_close_def on_underlying_io_close_complete_def emit_def Let_def)

lemma calm_after_close:
  assumes "calm w w1" and "xio_close (w1\<lparr>uws_state := UWS_STATE_CLOSING_UNDERLYING_IO\<rparr>) = (r, w2)"
    and "r = Failure \<Longrightarrow> xio_close_answer w3 = xio_close_answer w2" "r = Failure \<Longrightarrow> xio_open_answer w3 = xio_open_answer w2"
    and "r = Success \<Longrightarrow> w3 = w2"
  shows "calm w w3"
proof -
  have c: "calm w w2" using calm_xio_close [OF calm_update(20) [OF assms(1)], of UWS_STATE_CLOSING_UNDERLYING_IO] assms(2) by simp
  show ?thesis
  proof (cases r)
    case Failure
    then have "\<not> closes_at_once w1" using xio_close_prompt(1) [OF _ assms(2)] by auto
    then have "\<not> closes_at_once w" using assms(1) by (simp add: calm_def closes_at_once_def)
    then show ?thesis using c assms(3,4) Failure by (simp add: calm_def)
  qed (use c assms(5) in simp)
qed

lemma answers_error [simp]:
  "xio_close_answer (indicate_ws_error e w) = xio_close_answer w" "xio_open_answer (indicate_ws_error e w) = xio_open_answer w"
  "xio_close_answer (indicate_ws_close_complete w) = xio_close_answer w" "xio_open_answer (indicate_ws_close_complete w) = xio_open_answer w"
  using calm_ws_error [OF calm_refl, of w e] calm_close_complete [OF calm_refl, of w] by (simp_all add: calm_def)

lemma calm_close_sent [calming]:
  assumes "calm w w1"
  shows "calm w (on_underlying_io_close_sent c r w1)"
proof -
  obtain q w2 where x: "xio_close (w1\<lparr>uws_state := UWS_STATE_CLOSING_UNDERLYING_IO\<rparr>) = (q, w2)" by (metis surj_pair)
  have "calm w (case q of Success \<Rightarrow> w2 | Failure \<Rightarrow> indicate_ws_close_complete w2)"
    by (rule calm_after_close [OF assms x]) (simp_all split: rc.split)
  then show ?thesis using assms by (simp add: on_underlying_io_close_sent_def x split: handle.split)
qed

lemma calm_close_underlying_io [calming]:
  assumes "calm w w1"
  shows "calm w (close_underlying_io w1)"
proof -
  obtain q w2 where x: "xio_close (w1\<lparr>uws_state := UWS_STATE_CLOSING_UNDERLYING_IO\<rparr>) = (q, w2)" by (metis surj_pair)
  show ?thesis unfolding close_underlying_io_def x
    by (rule calm_after_close [OF assms x]) (simp_all split: rc.split)
qed

lemma calm_close_async: "calm w (snd (uws_client_close_async c cb w))"
proof (cases c)
  case CLIENT
  let ?w = "w\<lparr>on_ws_close_complete := cb\<rparr>"
  obtain q w2 where x: "xio_close (?w\<lparr>uws_state := UWS_STATE_CLOSING_UNDERLYING_IO\<rparr>) = (q, w2)" by (metis surj_pair)
  have "calm w (case q of Success \<Rightarrow> w2 | Failure \<Rightarrow> indicate_ws_error WS_ERROR_CANNOT_CLOSE_UNDERLYING_IO w2)"
    by (rule calm_after_close [OF calm_update(14) [OF calm_refl] x]) (simp_all split: rc.split)
  then show ?thesis using x CLIENT by (cases q) (simp_all add: uws_client_close_async_def)
qed (simp add: uws_client_close_async_def)

section \<open>Sending\<close>

lemma calm_send_unchecked [calming]: "calm w w1 \<Longrightarrow> calm w (snd (xio_send_unchecked bs w1))"
  by (simp add: xio_send_unchecked_def calming)

lemma state_send_unchecked [simp]: "uws_state (snd (xio_send_unchecked bs w)) = uws_state w"
  by (simp add: xio_send_unchecked_def)

lemma calm_send_close_frame [calming]: "calm w w1 \<Longrightarrow> calm w (snd (send_close_frame c w1))"
  using calm_send_unchecked
  by (auto simp: send_close_frame_def Let_def calming split: prod.splits option.splits) (metis calming snd_conv)

lemma calm_error_and_close [calming]: "calm w w1 \<Longrightarrow> calm w (indicate_ws_error_and_close e c w1)"
  by (simp add: indicate_ws_error_and_close_def Let_def calming)

lemma calm_handshake: "calm w (snd (uws_client_close_handshake_async c code cb w))"
  by (cases c) (simp_all add: uws_client_close_handshake_async_def calming)

lemma calm_dowork: "calm w (uws_client_dowork c w)"
  by (cases c) (auto simp: uws_client_dowork_def Let_def calming)

lemma calm_on_error: "calm w (on_underlying_io_error c w)"
  by (cases "uws_state w"; cases c) (simp_all add: on_underlying_io_error_def calming)

lemma calm_send_complete [calming]:
  assumes "calm w w1"
  shows "calm w (on_underlying_io_send_complete c r w1)"
proof (cases "c = None \<or> map_of (pending_sends w1) (the c) = None")
  case True
  then show ?thesis using assms by (cases c) (simp_all add: on_underlying_io_send_complete_def calming)
next
  case False
  then obtain a p where a: "c = Some a" "map_of (pending_sends w1) a = Some p" by auto
  define q where "q = (case r of IO_SEND_OK \<Rightarrow> WS_SEND_FRAME_OK | IO_SEND_CANCELLED \<Rightarrow> WS_SEND_FRAME_CANCELLED
    | IO_SEND_ERROR \<Rightarrow> WS_SEND_FRAME_ERROR)"
  obtain ok w2 where x: "complete_send_frame p a q w1 = (ok, w2)" by (metis surj_pair)
  then have "calm w w2" using calm_complete_send_frame [OF assms, of p a q] by simp
  then show ?thesis
    using x by (cases ok) (simp_all add: on_underlying_io_send_complete_def a Let_def q_def [symmetric] calming)
qed

lemma calm_send_frame_step [calming]: "calm w w1 \<Longrightarrow> calm w (snd (xio_send_frame bs a w1))"
  by (auto simp: xio_send_frame_def Let_def calming split: prod.splits option.splits)

lemma calm_pending:
  "calm w w1 \<Longrightarrow> \<not> idle_state (uws_state w1) \<Longrightarrow> calm w (w1\<lparr>pending_sends := ps\<rparr>)"
  "calm w w1 \<Longrightarrow> (pending_sends w1 = [] \<Longrightarrow> ps = []) \<Longrightarrow> calm w (w1\<lparr>pending_sends := ps\<rparr>)"
  by (auto simp: calm_def settled_def)

lemma calm_pairs_remove:
  assumes "calm w w1" and "pairs_remove (pending_sends w1) a h = (r, ps, h')"
  shows "calm w (w1\<lparr>pending_sends := ps\<rparr>)"
  by (rule calm_pending(2) [OF assms(1)]) (use assms(2) in \<open>auto simp: pairs_remove_def split: if_splits\<close>)

lemma calm_send_frame: "calm w (snd (uws_client_send_frame_async c t buffer sz f cb w))"
proof (cases "c = NULL_HANDLE \<or> (buffer = None \<and> sz > 0) \<or> uws_state w \<noteq> UWS_STATE_OPEN")
  case True
  then show ?thesis by (auto simp: uws_client_send_frame_async_def)
next
  case False
  obtain ok h where m: "malloc_struct (env_heap w) = (ok, h)" by (metis surj_pair)
  obtain frame h1 g1 where e: "uws_frame_encoder_encode (ucast t) buffer sz True f 0 h (env_rng w) = (frame, h1, g1)"
    by (metis prod_cases3)
  obtain item ps h2 where a: "pairs_add (pending_sends w) \<lparr>on_ws_send_frame_complete = cb\<rparr> h1 = (item, ps, h2)"
    by (metis prod_cases3)
  define w1 where "w1 = w\<lparr>pending_sends := ps, env_heap := h2, env_rng := g1\<rparr>"
  have w1: "calm w w1" using calm_pending(1) [OF calm_refl, of w ps] False by (simp add: w1_def calming)
  show ?thesis
  proof (cases "ok \<and> frame \<noteq> None \<and> item \<noteq> None")
    case simple: False
    have none: "item = None \<Longrightarrow> ps = pending_sends w" using a by (auto simp: pairs_add_def split: if_splits)
    show ?thesis
    proof (cases "ok \<and> frame \<noteq> None")
      case True
      then obtain b where b: "frame = Some b" by auto
      have "item = None" using simple True by simp
      then show ?thesis using True False m e a b none
        by (auto simp: uws_client_send_frame_async_def Let_def calming)
    qed (use False m e in \<open>cases ok; auto simp: uws_client_send_frame_async_def Let_def calming\<close>)
  next
    case True
    then obtain b i where bi: "frame = Some b" "item = Some i" ok by auto
    obtain r w2 where x: "xio_send_frame (buf_bytes b) i w1 = (r, w2)" by (metis surj_pair)
    have w2: "calm w w2" using calm_send_frame_step [OF w1, of "buf_bytes b" i] x by simp
    obtain q ps3 h3 where rm: "pairs_remove (pending_sends w2) i (env_heap w2) = (q, ps3, h3)" by (metis prod_cases3)
    have "calm w (w2\<lparr>pending_sends := ps3\<rparr>)" by (rule calm_pairs_remove [OF w2 rm])
    then show ?thesis
      using False m e a bi x rm w2
      by (cases r) (auto simp: uws_client_send_frame_async_def Let_def w1_def [symmetric] calming)
  qed
qed

section \<open>Receiving\<close>

lemma calm_consume [calming]: "calm w w1 \<Longrightarrow> calm w (consume_stream_buffer_bytes n w1)"
  by (simp add: consume_stream_buffer_bytes_def Let_def calming)

lemma calm_fragment [calming]: "calm w w1 \<Longrightarrow> calm w (snd (process_frame_fragment len needed w1))"
  by (auto simp: process_frame_fragment_def calming split: prod.splits option.splits)

lemma calm_continuation [calming]:
  assumes "calm w w1"
  shows "calm w (snd (on_continuation_frame f len needed w1))"
proof (cases "process_frame_fragment len needed w1")
  case (Pair r w2)
  then have "calm w w2" using calm_fragment [OF assms, of len needed] by simp
  then show ?thesis using Pair by (cases r) (simp_all add: on_continuation_frame_def Let_def calming)
qed

lemma calm_data_frame [calming]:
  assumes "calm w w1"
  shows "calm w (snd (on_data_frame t f len needed w1))"
proof (cases "process_frame_fragment len needed w1")
  case (Pair r w2)
  then have "calm w w2" using calm_fragment [OF assms, of len needed] by simp
  then show ?thesis using Pair assms by (cases r) (simp_all add: on_data_frame_def calming)
qed

lemma calm_xio_send_close [calming]: "calm w w1 \<Longrightarrow> calm w (snd (xio_send_close bs w1))"
  by (auto simp: xio_send_close_def Let_def calming split: prod.splits option.splits)

lemma calm_close_response [calming]:
  assumes "calm w w1"
  shows "calm w (send_close_response w1)"
proof -
  obtain frame h g where enc: "uws_frame_encoder_encode (ws_opcode WS_CLOSE_FRAME) None 0 True True 0
      (env_heap w1) (env_rng w1) = (frame, h, g)" by (metis prod_cases3)
  let ?w = "w1\<lparr>uws_state := UWS_STATE_CLOSING_SENDING_CLOSE, env_heap := h, env_rng := g\<rparr>"
  have k: "calm w ?w" using assms by (simp add: calming)
  show ?thesis
  proof (cases frame)
    case None
    then show ?thesis using enc k by (simp add: send_close_response_def calming)
  next
    case (Some b)
    obtain r w3 where x: "xio_send_close (buf_bytes b) ?w = (r, w3)" by (metis surj_pair)
    then have "calm w w3" using calm_xio_send_close [OF k, of "buf_bytes b"] by simp
    then show ?thesis using enc Some x by (cases r) (simp_all add: send_close_response_def Let_def calming)
  qed
qed

lemma calm_close_frame [calming]:
  assumes "calm w w1"
  shows "calm w (on_close_frame f len needed w1)"
proof -
  obtain q w2 where x: "xio_close (w1\<lparr>uws_state := UWS_STATE_CLOSING_UNDERLYING_IO\<rparr>) = (q, w2)" by (metis surj_pair)
  have "calm w (case q of Success \<Rightarrow> w2 | Failure \<Rightarrow> (indicate_ws_close_complete w2)\<lparr>uws_state := UWS_STATE_CLOSED\<rparr>)"
    by (rule calm_after_close [OF assms x]) (simp_all split: rc.split)
  then show ?thesis using assms x by (simp add: on_close_frame_def Let_def calming)
qed

lemma calm_ping_frame [calming]: "calm w w1 \<Longrightarrow> calm w (on_ping_frame f len needed w1)"
  by (auto simp: on_ping_frame_def Let_def calming split: prod.splits option.splits)

lemma calm_process_frame [calming]: "calm w w1 \<Longrightarrow> calm w (snd (process_frame opcode f len needed w1))"
  by (simp add: process_frame_def calming)

lemma calm_decode_frame: "calm w (snd (decode_frame w))"
  by (auto simp: decode_frame_def Let_def calming case_prod_unfold)

lemma calm_upgrade_response: "uws_state w = UWS_STATE_WAITING_FOR_UPGRADE_RESPONSE \<Longrightarrow> calm w (snd (decode_upgrade_response w))"
  by (auto simp: decode_upgrade_response_def on_upgrade_response_def Let_def calming split: option.splits prod.splits)

lemma calm_decode_step: "calm w (snd (decode_step w))"
  using calm_decode_frame calm_upgrade_response by (cases "uws_state w") (simp_all add: decode_step_def calming)

lemma calm_decode_loop: "calm w (decode_loop w)"
proof (induction w rule: decode_loop.induct)
  case (1 w)
  obtain again w1 where s: "decode_step w = (again, w1)" by (cases "decode_step w")
  have "calm w w1" using calm_decode_step [of w] s by simp
  then show ?case using 1 [OF s [symmetric] refl] s calm_trans by (subst decode_loop.simps) auto
qed

lemma append_received_state:
  "append_received bs sz w = (ok, w1) \<Longrightarrow> calm w w1 \<and> uws_state w1 = uws_state w"
  by (auto simp: append_received_def calming split: prod.splits option.splits)

lemma calm_bytes_received:
  assumes "buffer \<noteq> None" and "sz > 0"
  shows "calm w (on_underlying_io_bytes_received c buffer sz w)"
proof -
  obtain b where b: "buffer = Some b" using assms(1) by auto
  obtain ok w1 where a: "append_received (the buffer) sz w = (ok, w1)" by (metis surj_pair)
  note w1 = append_received_state [OF a]
  let ?w2 = "w1\<lparr>stream_buffer := Some ((stream w1)[stream_buffer_count w1 := 0])\<rparr>"
  have "calm w (decode_loop w1)" "calm w (decode_loop ?w2)"
    using calm_trans [OF _ calm_decode_loop] w1 by (simp_all add: calming)
  then show ?thesis
    using assms(2) b w1 a by (cases "uws_state w"; cases ok) (simp_all add: on_underlying_io_bytes_received_def receive_in_open_def calming)
qed

section \<open>Opening\<close>

lemma calm_issue_upgrade:
  assumes "calm w w1" and "idle_state (uws_state w1)"
  shows "calm w (issue_upgrade_request nonce headers w1)"
  using assms
  by (auto simp: issue_upgrade_request_def Let_def xio_send_unchecked_def calming
      split: prod.splits option.splits rc.splits)

lemma calm_io_open_complete:
  assumes "calm w w1" and "uws_state w1 = UWS_STATE_OPENING_UNDERLYING_IO"
  shows "calm w (on_underlying_io_open_complete c r w1)"
  using assms
  by (cases r; cases c) (auto simp: on_underlying_io_open_complete_def Let_def calming calm_issue_upgrade send_upgrade_request_def
      split: IO_OPEN_RESULT.splits prod.splits option.splits)

lemma idle_open_error [simp]:
  "uws_state (indicate_ws_open_complete_error r w) = UWS_STATE_CLOSED"
  "uws_state (indicate_ws_open_complete_error_and_close r w) = UWS_STATE_CLOSED"
  by (simp_all add: indicate_ws_open_complete_error_and_close_def indicate_ws_open_complete_error_def Let_def)

lemma idle_issue_upgrade: "idle_state (uws_state w) \<Longrightarrow> idle_state (uws_state (issue_upgrade_request nonce headers w))"
  by (auto simp: issue_upgrade_request_def Let_def xio_send_unchecked_def split: prod.split option.split rc.split)

lemma idle_io_open_complete:
  assumes "uws_state w = UWS_STATE_OPENING_UNDERLYING_IO"
  shows "idle_state (uws_state (on_underlying_io_open_complete c r w))"
  using assms
  by (cases r; cases c) (auto simp: on_underlying_io_open_complete_def Let_def idle_issue_upgrade send_upgrade_request_def
      split: IO_OPEN_RESULT.split prod.split option.split)

lemma calm_open_async: "calm w (snd (uws_client_open_async c oc fr pc er w))"
proof (cases "c = NULL_HANDLE \<or> oc = None \<or> fr = None \<or> pc = None \<or> er = None \<or> uws_state w \<noteq> UWS_STATE_CLOSED")
  case True
  then show ?thesis by (auto simp: uws_client_open_async_def)
next
  case False
  define now where "now = env_time w (env_time_reads w)"
  define w2 where "w2 = emit IoOpen (w\<lparr>uws_state := UWS_STATE_OPENING_UNDERLYING_IO, env_time_reads := Suc (env_time_reads w),
                    open_start_time := now, last_open_wait_log_time := now,
                    stream_buffer_count := 0, fragment_buffer_count := 0,
                    fragmented_frame_type := WS_FRAME_TYPE_UNKNOWN,
                    on_ws_open_complete := oc, on_ws_frame_received := fr,
                    on_ws_peer_closed := pc, on_ws_error := er, xio_calls := Suc (xio_calls w)\<rparr>)"
  have w2: "calm w w2" "uws_state w2 = UWS_STATE_OPENING_UNDERLYING_IO" using False by (simp_all add: w2_def calming)
  obtain r q where x: "xio_open_answer w (xio_calls w) = (r, q)" by (metis surj_pair)
  define w3 where "w3 = (case q of None \<Rightarrow> w2 | Some o' \<Rightarrow> on_underlying_io_open_complete CLIENT o' w2)"
  have w3: "calm w w3" using w2 calm_io_open_complete by (simp add: w3_def split: option.split)
  have run: "snd (uws_client_open_async c oc fr pc er w) = (case r of Failure \<Rightarrow> w3\<lparr>uws_state := UWS_STATE_CLOSED\<rparr> | Success \<Rightarrow> w3)"
    using False x by (auto simp: uws_client_open_async_def w3_def w2_def now_def Let_def split: rc.split)
  have "idle_state (uws_state w3)" using w2(2) idle_io_open_complete [OF w2(2)] by (simp add: w3_def split: option.split)
  then show ?thesis unfolding run using w3 by (simp add: calming split: rc.split)
qed

section \<open>Every step\<close>

text \<open>The order of the calls of the underlying IO: an open is completed while it is under way, and
  what is received is not empty.\<close>

fun orderly :: "uws_call \<Rightarrow> uws_world \<Rightarrow> bool" where
  "orderly (IoOpenComplete r) w = (uws_state w = UWS_STATE_OPENING_UNDERLYING_IO)"
| "orderly (IoBytesReceived buffer sz) w = (buffer \<noteq> None \<and> sz > 0)"
| "orderly _ w = True"

lemma calm_step:
  assumes "orderly c w"
  shows "calm w (snd (uws_step c w))"
  using assms
  by (cases c) (auto simp: calm_open_async calm_close_async calm_handshake calm_send_frame calm_dowork calm_io_open_complete
      calm_bytes_received calm_on_error calm_send_complete calm_on_close_complete calm_close_sent uws_client_set_request_header_def
      calming split: prod.split)

end
