(* ===== verification/Wsio_Runs.thy ===== *)
theory Wsio_Runs
  imports Wsio Uws_Settled
begin

text \<open>
  Runs of the WebSocket IO over the WebSocket client: the lists of pending sends of the two
  layers agree, every accepted send is completed exactly once, no open is completed twice, all
  memory is given back, and the messages of the server reach the user as bytes.
\<close>

section \<open>What a callback changes\<close>

definition io_listening :: "wsio_world \<Rightarrow> bool" where
  "io_listening w \<longleftrightarrow> on_bytes_received w \<noteq> None \<and> on_io_open_complete w \<noteq> None \<and> on_io_error w \<noteq> None"

definition io_sound :: "wsio_world \<Rightarrow> bool" where
  "io_sound w \<longleftrightarrow> Io_Null_Callback \<notin> set (io_events w) \<and> Io_Dangling \<notin> set (io_events w)"

definition io_completed :: "nat \<Rightarrow> wsio_event list \<Rightarrow> nat" where
  "io_completed n es = length (filter (\<lambda>e. \<exists>r. e = Io_Send_Complete n r) es)"

definition io_promised :: "nat \<Rightarrow> (nat \<times> PENDING_IO) list \<Rightarrow> nat" where
  "io_promised n ps = length (filter (\<lambda>p. on_send_complete (snd p) = Some n) ps)"

definition io_sends :: "nat \<Rightarrow> wsio_world \<Rightarrow> nat" where
  "io_sends n w = io_completed n (io_events w) + io_promised n (pending_io_list w)"

definition io_opens :: "wsio_world \<Rightarrow> nat" where
  "io_opens w = length (filter (\<lambda>e. \<exists>n r c. e = Io_Open_Complete n r c) (io_events w)) + of_bool (io_state w = IO_STATE_OPENING)"

definition lost_items :: "wsio_world \<Rightarrow> wsio_world \<Rightarrow> int" where
  "lost_items w w' = int (length (pending_io_list w)) - int (length (pending_io_list w'))"

text \<open>The relation of a world to the one after some callbacks: the two blocks of every item that
  has left the list are freed, and nothing else of the client is touched.\<close>

definition hears :: "wsio_world \<Rightarrow> wsio_world \<Rightarrow> bool" where
  "hears w w' \<longleftrightarrow>
     on_bytes_received w' = on_bytes_received w \<and> on_io_open_complete w' = on_io_open_complete w \<and> on_io_error w' = on_io_error w \<and>
     uws w' = (uws w)\<lparr>env_heap := (io_heap w)\<lparr>mem_live := mem_live (io_heap w) - 2 * lost_items w w'\<rparr>\<rparr> \<and>
     (io_sound w \<longrightarrow> io_sound w') \<and> (\<forall>n. io_sends n w' = io_sends n w) \<and> io_opens w' \<le> io_opens w \<and>
     (\<forall>e. e \<in> set (io_events w) \<longrightarrow> e \<in> set (io_events w'))"

lemma hears_refl [simp]: "hears w w"
  by (simp add: hears_def lost_items_def)

lemma hears_trans: "hears w w1 \<Longrightarrow> hears w1 w2 \<Longrightarrow> hears w w2"
  by (simp add: hears_def lost_items_def)

lemmas hears_parts = hears_def lost_items_def io_sound_def io_sends_def io_opens_def io_completed_def io_emit_def io_invoke_def

lemma hears_state: "st \<noteq> IO_STATE_OPENING \<Longrightarrow> hears w (w\<lparr>io_state := st\<rparr>)"
  by (simp add: hears_parts)

lemma hears_invoke:
  assumes "cb \<noteq> None" and "\<And>n. ev n \<noteq> Io_Null_Callback" "\<And>n. ev n \<noteq> Io_Dangling" "\<And>n m r. ev n \<noteq> Io_Send_Complete m r"
    "\<And>n m r c. ev n \<noteq> Io_Open_Complete m r c"
  shows "hears w (io_invoke cb ev w)"
  using assms assms(2,3) [symmetric] by (auto simp: hears_parts)

lemma hears_error: "io_listening w \<Longrightarrow> hears w (indicate_error w)"
  unfolding indicate_error_def Let_def
  by (rule hears_trans [OF hears_state hears_invoke]) (simp_all add: io_listening_def)

text \<open>An open in progress is completed, and is then no longer in progress.\<close>

lemma hears_open_complete:
  assumes "io_listening w" and "io_state w = IO_STATE_OPENING" and "st \<noteq> IO_STATE_OPENING"
  shows "hears w (indicate_open_complete r c (w\<lparr>io_state := st\<rparr>))" "hears w ((indicate_open_complete r c w)\<lparr>io_state := st\<rparr>)"
  using assms by (auto simp: hears_parts indicate_open_complete_def io_listening_def)

lemma hears_item:
  assumes "item \<in> fst ` set (pending_io_list w)" and "distinct (map fst (pending_io_list w))"
  shows "hears w (complete_send_item item r w)"
proof -
  obtain p where p: "map_of (pending_io_list w) item = Some p"
    using assms(1) by (cases "map_of (pending_io_list w) item") (auto simp: map_of_eq_None_iff)
  obtain xs ys where ps: "pending_io_list w = xs @ (item, p) # ys" using p by (metis map_of_SomeD split_list)
  have rest: "filter (\<lambda>q. fst q \<noteq> item) (pending_io_list w) = xs @ ys"
  proof -
    have "filter (\<lambda>q. fst q \<noteq> item) xs = xs" "filter (\<lambda>q. fst q \<noteq> item) ys = ys"
      using assms(2) by (auto simp: ps filter_id_conv)
    then show ?thesis by (simp add: ps)
  qed
  define es where "es = (case on_send_complete p of None \<Rightarrow> [] | Some n \<Rightarrow> [Io_Send_Complete n r])"
  have w': "complete_send_item item r w = w\<lparr>pending_io_list := xs @ ys, io_events := io_events w @ es,
      uws := (uws w)\<lparr>env_heap := free_struct (free_struct (io_heap w))\<rparr>\<rparr>"
    using assms(1) rest
    by (auto simp: complete_send_item_def p pairs_remove_def set_io_heap_def io_emit_def es_def Let_def split: option.split)
  have "io_completed n es = of_bool (on_send_complete p = Some n)" for n
    by (auto simp: io_completed_def es_def split: option.split)
  moreover have "set es \<inter> {Io_Null_Callback, Io_Dangling} = {}" "filter (\<lambda>e. \<exists>n r c. e = Io_Open_Complete n r c) es = []"
    by (auto simp: es_def split: option.split)
  ultimately show ?thesis
    by (auto simp: w' hears_def lost_items_def io_sound_def io_sends_def io_opens_def io_completed_def io_promised_def ps free_struct_def)
qed

lemma hears_deliver:
  assumes "io_listening w" and "distinct (map fst (pending_io_list w))"
    and "\<And>n r. e = SendFrameComplete n r \<Longrightarrow> n \<in> fst ` set (pending_io_list w)"
  shows "hears w (deliver e w)"
proof (cases e)
  case (OpenComplete m d)
  then show ?thesis using hears_open_complete [OF assms(1)] hears_error [OF assms(1)]
    by (simp add: on_underlying_ws_open_complete_def Let_def)
next
  case (FrameReceived m t bs)
  then show ?thesis using hears_error [OF assms(1)] assms(1)
    by (auto simp: on_underlying_ws_frame_received_def io_listening_def intro!: hears_invoke)
next
  case (PeerClosed m c d)
  have "hears w ((indicate_error w)\<lparr>io_state := IO_STATE_NOT_OPEN\<rparr>)"
    by (rule hears_trans [OF hears_error [OF assms(1)] hears_state]) simp
  then show ?thesis using PeerClosed hears_error [OF assms(1)] hears_open_complete(1) [OF assms(1)]
    by (simp add: on_underlying_ws_peer_closed_def split: IO_STATE.split)
next
  case (WsError m c)
  then show ?thesis using hears_open_complete(2) [OF assms(1)] assms(1)
    by (auto simp: on_underlying_ws_error_def io_listening_def intro!: hears_invoke)
next
  case (CloseComplete m)
  have "hears w (case on_io_close_complete w of None \<Rightarrow> w\<lparr>io_state := IO_STATE_NOT_OPEN\<rparr>
      | Some n \<Rightarrow> io_emit (Io_Close_Complete n) (w\<lparr>io_state := IO_STATE_NOT_OPEN\<rparr>))"
    by (auto simp: hears_parts split: option.split)
  then show ?thesis using CloseComplete by (simp add: on_underlying_ws_close_complete_def Let_def)
next
  case (SendFrameComplete n r)
  then show ?thesis using hears_item [OF assms(3) [OF SendFrameComplete] assms(2)]
    by (simp add: on_underlying_ws_send_frame_complete_def)
qed simp_all

text \<open>The list after a callback.\<close>

lemma pending_deliver:
  "pending_io_list (deliver e w) = filter (\<lambda>p. completed (fst p) [e] = 0) (pending_io_list w)"
  by (cases e) (auto simp: on_underlying_ws_open_complete_def on_underlying_ws_frame_received_def on_underlying_ws_peer_closed_def
      on_underlying_ws_error_def on_underlying_ws_close_complete_def on_underlying_ws_send_frame_complete_def
      indicate_error_def indicate_open_complete_def io_invoke_def io_emit_def completed_def complete_send_item_pending Let_def
      intro!: filter_cong split: option.split IO_STATE.split)

lemma io_listening_hears: "hears w w' \<Longrightarrow> io_listening w' = io_listening w"
  by (simp add: hears_def io_listening_def)

text \<open>All callbacks of a call: each item is completed at most once, so none is used after it has
  been freed.\<close>

lemma hears_deliver_all:
  assumes "io_listening w" and "distinct (map fst (pending_io_list w))"
    and "\<And>n. completed n es \<le> of_bool (n \<in> fst ` set (pending_io_list w))"
  shows "hears w (deliver_all es w) \<and>
    pending_io_list (deliver_all es w) = filter (\<lambda>p. completed (fst p) es = 0) (pending_io_list w)"
  using assms
proof (induction es arbitrary: w)
  case Nil
  then show ?case by (simp add: deliver_all_def completed_def)
next
  case (Cons e es)
  have split: "completed n (e # es) = completed n [e] + completed n es" for n by (simp add: completed_def)
  have one: "hears w (deliver e w)"
  proof (rule hears_deliver [OF Cons.prems(1,2)])
    show "n \<in> fst ` set (pending_io_list w)" if "e = SendFrameComplete n r" for n r
      using Cons.prems(3) [of n] that by (simp add: completed_def of_bool_def split: if_splits)
  qed
  have pend: "pending_io_list (deliver e w) = filter (\<lambda>p. completed (fst p) [e] = 0) (pending_io_list w)" by (rule pending_deliver)
  have "completed n es \<le> of_bool (n \<in> fst ` set (pending_io_list (deliver e w)))" for n
    using Cons.prems(3) [of n] unfolding split pend by (force simp: of_bool_def split: if_splits)
  moreover have "distinct (map fst (pending_io_list (deliver e w)))" using Cons.prems(2) by (simp add: pend distinct_map_filter)
  ultimately have "hears (deliver e w) (deliver_all es (deliver e w)) \<and>
      pending_io_list (deliver_all es (deliver e w)) = filter (\<lambda>p. completed (fst p) es = 0) (pending_io_list (deliver e w))"
    using Cons.IH io_listening_hears [OF one] Cons.prems(1) by blast
  moreover have "deliver_all (e # es) w = deliver_all es (deliver e w)" by (simp add: deliver_all_def)
  ultimately show ?case using hears_trans [OF one] by (simp add: pend split conj_commute)
qed

section \<open>The two lists\<close>

text \<open>The client keeps one send for every item of the list, with that item as its context.\<close>

definition linked :: "wsio_world \<Rightarrow> bool" where
  "linked w \<longleftrightarrow> distinct (map fst (pending_io_list w)) \<and>
     (\<forall>a \<in> handles (pending_io_list w). a < mem_calls (io_heap w)) \<and>
     (\<forall>n. promised n (pending_sends (uws w)) = of_bool (n \<in> handles (pending_io_list w)))"

text \<open>The books of the client, with the blocks of the items added to those from before.\<close>

definition rebase :: "uws_world \<Rightarrow> int \<Rightarrow> uws_world" where
  "rebase u k = u\<lparr>env_heap := (env_heap u)\<lparr>mem_live := mem_live (env_heap u) + k\<rparr>\<rparr>"

definition item_blocks :: "wsio_world \<Rightarrow> int" where
  "item_blocks w = 2 * int (length (pending_io_list w))"

definition books_ok :: "uws_world \<Rightarrow> wsio_world \<Rightarrow> bool" where
  "books_ok u0 w \<longleftrightarrow> uws_good (rebase u0 (item_blocks w)) (uws w)"

lemma good_rebase:
  assumes "uws_good (rebase u0 k) u"
  shows "uws_good (rebase u0 (k - d)) (rebase u (- d))"
  using assms
  by (simp add: uws_good_def rebase_def sane_def pend_ok_def buffers_ok_def opened_def upgrade_inv_def balance_def owned_def)

lemma linked_promised_one: "linked w \<Longrightarrow> promised n (pending_sends (uws w)) \<le> 1"
  by (simp add: linked_def)

text \<open>A call of the client that has kept the books, with the callbacks it made: each item of the
  list is completed at most once.\<close>

lemma with_uws_hears:
  assumes d: "distinct (map fst (pending_io_list w))" and f: "f (uws w) = (r, u')"
    and good: "uws_good (rebase u0 (item_blocks w)) u'"
    and es: "events u' = events (uws w) @ es"
    and few: "\<And>n. completed n es \<le> of_bool (n \<in> handles (pending_io_list w))"
    and heard: "es = [] \<or> io_listening w"
  shows "\<exists>w'. with_uws f w = (r, w') \<and> hears (w\<lparr>uws := u'\<rparr>) w' \<and> books_ok u0 w' \<and>
    pending_io_list w' = filter (\<lambda>p. completed (fst p) es = 0) (pending_io_list w) \<and>
    uws w' = rebase u' (item_blocks w' - item_blocks w)"
proof -
  define w1 where "w1 = w\<lparr>uws := u'\<rparr>"
  define w' where "w' = deliver_all es w1"
  have l: "pending_io_list w1 = pending_io_list w" by (simp add: w1_def)
  have h: "hears w1 w' \<and> pending_io_list w' = filter (\<lambda>p. completed (fst p) es = 0) (pending_io_list w)"
  proof (cases "es = []")
    case True
    then show ?thesis by (simp add: w'_def deliver_all_def l completed_def)
  next
    case False
    then have "io_listening w1" using heard by (simp add: w1_def io_listening_def)
    from hears_deliver_all [OF this] d few show ?thesis by (simp add: w'_def l)
  qed
  have run: "with_uws f w = (r, w')" using f es by (simp add: with_uws_def w'_def w1_def)
  have u: "uws w' = rebase u' (- (item_blocks w - item_blocks w'))"
    using h by (simp add: hears_def w1_def rebase_def lost_items_def item_blocks_def algebra_simps)
  have "books_ok u0 w'"
    using good_rebase [OF good, of "item_blocks w - item_blocks w'"] by (simp add: books_ok_def u)
  then show ?thesis using run h u by (auto simp: w1_def)
qed

text \<open>Afterwards the lists agree when every send the client had is either completed or still there.\<close>

lemma with_uws_result:
  assumes link: "distinct (map fst (pending_io_list w))" "\<And>a. a \<in> handles (pending_io_list w) \<Longrightarrow> a < mem_calls (io_heap w)"
    and f: "f (uws w) = (r, u')" and good: "uws_good (rebase u0 (item_blocks w)) u'"
    and es: "events u' = events (uws w) @ es"
    and counts: "\<And>n. completed n es + promised n (pending_sends u') = of_bool (n \<in> handles (pending_io_list w))"
    and calls: "mem_calls (io_heap w) \<le> mem_calls (env_heap u')"
    and heard: "es = [] \<or> io_listening w"
  shows "\<exists>w'. with_uws f w = (r, w') \<and> hears (w\<lparr>uws := u'\<rparr>) w' \<and> linked w' \<and> books_ok u0 w'"
proof -
  have "completed n es \<le> of_bool (n \<in> handles (pending_io_list w))" for n using counts [of n] by simp
  from with_uws_hears [where f = f, OF link(1) f good es this heard] obtain w' where w': "with_uws f w = (r, w')"
    "hears (w\<lparr>uws := u'\<rparr>) w'" "books_ok u0 w'" "pending_io_list w' = filter (\<lambda>p. completed (fst p) es = 0) (pending_io_list w)"
    "uws w' = rebase u' (item_blocks w' - item_blocks w)" by blast
  have hs: "handles (pending_io_list w') = {n \<in> handles (pending_io_list w). completed n es = 0}" unfolding w'(4) by force
  have "promised n (pending_sends (uws w')) = of_bool (n \<in> handles (pending_io_list w'))" for n
    using counts [of n] unfolding hs by (auto simp: w'(5) rebase_def of_bool_def split: if_splits)
  moreover have "mem_calls (io_heap w') = mem_calls (env_heap u')" by (simp add: w'(5) rebase_def)
  moreover have "distinct (map fst (pending_io_list w'))" using link(1) by (simp add: w'(4) distinct_map_filter)
  ultimately have "linked w'"
    using link(2) calls hs by (fastforce simp: linked_def)
  then show ?thesis using w' by blast
qed

text \<open>A step of the client that neither accepts nor drops a send.\<close>

lemma moves_counts:
  assumes "sends n u' = sends n u" and "events u' = events u @ es"
  shows "completed n es + promised n (pending_sends u') = promised n (pending_sends u)"
  using assms by (simp add: sends_def completed_def)

lemma uws_step_linked:
  assumes link: "linked w" and books: "books_ok u0 w" and step: "uws_step c (uws w) = (r, u')"
    and c: "plain_call c \<or> (\<exists>oc fr pc er. c = OpenAsync oc fr pc er)" "allowed c (uws w)"
    and heard: "u' = uws w \<or> io_listening w"
  shows "\<exists>w'. with_uws (uws_step c) w = (r, w') \<and> hears (w\<lparr>uws := u'\<rparr>) w' \<and> linked w' \<and> books_ok u0 w'"
proof -
  have good: "uws_good (rebase u0 (item_blocks w)) (uws w)" using books by (simp add: books_ok_def)
  then have p: "pend_ok (uws w)" by (simp add: uws_good_def)
  have "u' = uws w \<or> (\<exists>d. moves d (uws w) u')"
  proof (cases "plain_call c")
    case True
    then show ?thesis using plain_step(1) [OF True c(2) step] by (auto simp: moves_leaking_def)
  next
    case False
    then obtain oc fr pc er where "c = OpenAsync oc fr pc er" using c(1) by blast
    then show ?thesis using open_async_outcome [of CLIENT oc fr pc er "uws w" r u'] step by auto
  qed
  then obtain d where d: "moves d (uws w) u'" using moves_refl by blast
  then obtain es where es: "events u' = events (uws w) @ es" by (auto simp: moves_def)
  have "sends n u' = sends n (uws w)" for n using d p by (simp add: moves_def)
  then have counts: "completed n es + promised n (pending_sends u') = of_bool (n \<in> handles (pending_io_list w))" for n
    using moves_counts [OF _ es] link by (simp add: linked_def)
  have "es = [] \<or> io_listening w" "mem_calls (io_heap w) \<le> mem_calls (env_heap u')"
    "distinct (map fst (pending_io_list w))" "\<And>a. a \<in> handles (pending_io_list w) \<Longrightarrow> a < mem_calls (io_heap w)"
    using heard es d link by (auto simp: moves_def linked_def)
  then show ?thesis by (intro with_uws_result [where f = "uws_step c", OF _ _ step good_step [OF good c(2) step] es counts]) auto
qed

section \<open>The invariant\<close>

text \<open>The underlying IO closes at once, and what it refuses it does not also complete.\<close>

definition prompt_io :: "uws_world \<Rightarrow> bool" where
  "prompt_io u \<longleftrightarrow> closes_at_once u \<and> refused_is_silent u \<and>
     (\<forall>i. fst (xio_open_answer u i) = Failure \<longrightarrow> snd (xio_open_answer u i) = None)"

text \<open>\<open>m\<close> opens have been accepted.\<close>

definition wsio_inv :: "uws_world \<Rightarrow> nat \<Rightarrow> wsio_world \<Rightarrow> bool" where
  "wsio_inv u0 m w \<longleftrightarrow> linked w \<and> books_ok u0 w \<and> settled (uws w) \<and> prompt_io (uws w) \<and> io_sound w \<and>
     (opened (uws w) \<or> io_state w \<noteq> IO_STATE_NOT_OPEN \<longrightarrow> io_listening w) \<and> io_opens w \<le> m"

lemma settled_rebase [simp]: "settled (rebase u k) = settled u" "prompt_io (rebase u k) = prompt_io u" "opened (rebase u k) = opened u"
  "pending_sends (rebase u k) = pending_sends u" "uws_state (rebase u k) = uws_state u" "events (rebase u k) = events u"
  by (simp_all add: rebase_def settled_def prompt_io_def closes_at_once_def refused_is_silent_def opened_def)

lemma hears_uws: "hears w w' \<Longrightarrow> uws w' = rebase (uws w) (item_blocks w' - item_blocks w)"
  by (simp add: hears_def rebase_def lost_items_def item_blocks_def algebra_simps)

lemma prompt_step:
  assumes "prompt_io u" and "uws_good v u" and "allowed c u" and "uws_step c u = (r, u')" and "orderly c u"
  shows "prompt_io u'"
proof -
  have "xio_send_answer u' = xio_send_answer u"
    using good_step [OF assms(2-4)] assms(2) by (simp add: uws_good_def)
  moreover have "calm u u'" using calm_step [OF assms(5)] assms(4) by simp
  ultimately show ?thesis using assms(1) by (simp add: prompt_io_def calm_def closes_at_once_def refused_is_silent_def)
qed

lemma inv_call:
  assumes inv: "wsio_inv u0 m w" and step: "uws_step c (uws w) = (r, u')"
    and c: "plain_call c \<or> (\<exists>oc fr pc er. c = OpenAsync oc fr pc er \<and> io_listening w)" "allowed c (uws w)" "orderly c (uws w)"
  shows "\<exists>w'. with_uws (uws_step c) w = (r, w') \<and> wsio_inv u0 m w' \<and> hears (w\<lparr>uws := u'\<rparr>) w'"
proof -
  have good: "uws_good (rebase u0 (item_blocks w)) (uws w)" using inv by (simp add: wsio_inv_def books_ok_def)
  have heard: "u' = uws w \<or> io_listening w"
  proof (cases "plain_call c \<and> \<not> opened (uws w)")
    case True
    then have "uws_state (uws w) = UWS_STATE_CLOSED \<and> IoOpen \<notin> set (events (uws w)) \<and> pending_sends (uws w) = []"
      using good by (simp add: uws_good_def)
    then show ?thesis using plain_step(3) [OF _ c(2) step] True by blast
  qed (use inv c(1) in \<open>auto simp: wsio_inv_def\<close>)
  have "linked w" "books_ok u0 w" "plain_call c \<or> (\<exists>oc fr pc er. c = OpenAsync oc fr pc er)"
    using inv c(1) by (auto simp: wsio_inv_def)
  from uws_step_linked [OF this(1,2) step this(3) c(2) heard] obtain w' where w': "with_uws (uws_step c) w = (r, w')"
    "hears (w\<lparr>uws := u'\<rparr>) w'" "linked w'" "books_ok u0 w'" by blast
  have u: "uws w' = rebase u' (item_blocks w' - item_blocks w)" using hears_uws [OF w'(2)] by (simp add: item_blocks_def)
  have "calm (uws w) u'" using calm_step [OF c(3)] step by simp
  then have "settled u'" using inv by (simp add: wsio_inv_def prompt_io_def calm_def)
  moreover have "prompt_io u'" using prompt_step [OF _ good c(2) step c(3)] inv by (simp add: wsio_inv_def)
  moreover have "io_sound w'" "io_opens w' \<le> m" "io_listening w' = io_listening w"
    using w'(2) inv io_listening_hears [OF w'(2)]
    by (auto simp: wsio_inv_def hears_def io_sound_def io_opens_def io_listening_def)
  moreover have "opened (uws w') \<or> io_state w' \<noteq> IO_STATE_NOT_OPEN \<longrightarrow> io_listening w'"
  proof (cases "io_listening w")
    case False
    then have "u' = uws w" using heard by simp
    have "w\<lparr>uws := u'\<rparr> = w" using \<open>u' = uws w\<close> by simp
    have "with_uws (uws_step c) w = (r, w)"
      using step \<open>u' = uws w\<close> by (simp add: with_uws_def deliver_all_def)
    then show ?thesis using w'(1) inv by (simp add: wsio_inv_def)
  qed (simp add: calculation)
  ultimately show ?thesis using w' u by (auto simp: wsio_inv_def)
qed

section \<open>The operations\<close>

lemma inv_changed:
  assumes "wsio_inv u0 m w" and "uws w' = uws w" "pending_io_list w' = pending_io_list w"
    and "io_sound w'" "io_opens w' \<le> m'" "opened (uws w) \<or> io_state w' \<noteq> IO_STATE_NOT_OPEN \<Longrightarrow> io_listening w'"
  shows "wsio_inv u0 m' w'"
  using assms by (simp add: wsio_inv_def linked_def books_ok_def item_blocks_def)

text \<open>Requests of memory that come to nothing.\<close>

definition heap_kept :: "heap \<Rightarrow> heap \<Rightarrow> bool" where
  "heap_kept h h' \<longleftrightarrow> mem_live h' = mem_live h \<and> mem_calls h \<le> mem_calls h'"

lemma good_heap:
  assumes "uws_good (rebase u0 k) u" and "mem_calls (env_heap u) \<le> mem_calls h"
  shows "uws_good (rebase u0 (k + (mem_live h - mem_live (env_heap u)))) (u\<lparr>env_heap := h\<rparr>)"
  using assms
  by (fastforce simp: uws_good_def rebase_def sane_def pend_ok_def buffers_ok_def opened_def upgrade_inv_def balance_def owned_def)

lemma inv_heap:
  assumes "wsio_inv u0 m w" and "heap_kept (io_heap w) h"
  shows "wsio_inv u0 m (set_io_heap h w)" and "io_sends n (set_io_heap h w) = io_sends n w"
proof -
  have "books_ok u0 (set_io_heap h w)"
    using good_heap [of u0 "item_blocks w" "uws w" h] assms
    by (simp add: wsio_inv_def books_ok_def heap_kept_def set_io_heap_def item_blocks_def)
  then show "wsio_inv u0 m (set_io_heap h w)"
    using assms by (auto simp: wsio_inv_def linked_def heap_kept_def set_io_heap_def settled_def prompt_io_def closes_at_once_def
        refused_is_silent_def opened_def io_sound_def io_opens_def io_listening_def intro: less_le_trans)
  show "io_sends n (set_io_heap h w) = io_sends n w" by (simp add: set_io_heap_def io_sends_def)
qed

text \<open>Closing: the list is empty when the client has closed.\<close>

lemma uws_step_close [simp]: "uws_step (CloseAsync cb) = uws_client_close_async CLIENT cb"
  "uws_step (OpenAsync a b d e) = uws_client_open_async CLIENT a b d e"
  by (simp_all add: fun_eq_iff)

lemma linked_empty: "linked w \<Longrightarrow> pending_sends (uws w) = [] \<Longrightarrow> pending_io_list w = []"
proof (rule ccontr)
  assume "linked w" "pending_sends (uws w) = []" "pending_io_list w \<noteq> []"
  then obtain n where n: "n \<in> handles (pending_io_list w)" by (cases "pending_io_list w") auto
  have "promised n (pending_sends (uws w)) = of_bool (n \<in> handles (pending_io_list w))" using \<open>linked w\<close> by (simp add: linked_def)
  then show False using n \<open>pending_sends (uws w) = []\<close> by (simp add: promised_def)
qed

lemma close_async_empty:
  assumes "uws_client_close_async CLIENT cb u = (r, u')" and "closes_at_once u" and "settled u"
  shows "pending_sends u' = []" and "r = Failure \<Longrightarrow> u' = u"
proof -
  have "pending_sends u' = [] \<and> (r = Failure \<longrightarrow> u' = u)"
  proof (cases "uws_state u = UWS_STATE_CLOSED")
    case True
    then show ?thesis using assms by (auto simp: uws_client_close_async_def settled_def)
  next
    case False
    let ?u = "u\<lparr>on_ws_close_complete := cb\<rparr>"
    obtain q u2 where x: "xio_close (?u\<lparr>uws_state := UWS_STATE_CLOSING_UNDERLYING_IO\<rparr>) = (q, u2)" by (metis surj_pair)
    have "closes_at_once ?u" using assms(2) by (simp add: closes_at_once_def)
    note shut = xio_close_prompt [OF this x]
    show ?thesis using assms(1) False x shut by (simp add: uws_client_close_async_def)
  qed
  then show "pending_sends u' = []" "r = Failure \<Longrightarrow> u' = u" by auto
qed

lemma inv_internal_close:
  assumes inv: "wsio_inv u0 m w" and step: "internal_close cb w = (r, w')"
  shows "wsio_inv u0 m w' \<and> (\<forall>n. io_sends n w' = io_sends n w) \<and>
    (io_state w \<noteq> IO_STATE_CLOSING \<longrightarrow> io_state w' = IO_STATE_NOT_OPEN)"
proof (cases "io_state w = IO_STATE_OPEN \<or> io_state w = IO_STATE_ERROR")
  case False
  show ?thesis
  proof (cases "io_state w = IO_STATE_OPENING")
    case True
    then have l: "io_listening w" using inv by (simp add: wsio_inv_def)
    have w': "w' = indicate_open_complete IO_OPEN_CANCELLED Failure_Line (w\<lparr>io_state := IO_STATE_NOT_OPEN\<rparr>)"
      using step True by (simp add: internal_close_def)
    have h: "hears w w'" unfolding w' by (rule hears_open_complete(1) [OF l True]) simp
    have same: "pending_io_list w' = pending_io_list w" "uws w' = uws w" "io_state w' = IO_STATE_NOT_OPEN"
      by (simp_all add: w' indicate_open_complete_def io_invoke_def io_emit_def)
    have "io_sound w'" "io_opens w' \<le> m" "io_listening w'"
      using h inv l io_listening_hears [OF h] by (auto simp: hears_def wsio_inv_def)
    then show ?thesis using inv_changed [OF inv same(2,1)] h same(3) by (auto simp: hears_def)
  next
    case False
    then have "w' = w" "io_state w \<noteq> IO_STATE_CLOSING \<longrightarrow> io_state w = IO_STATE_NOT_OPEN"
      using step \<open>\<not> (io_state w = IO_STATE_OPEN \<or> io_state w = IO_STATE_ERROR)\<close>
      by (cases "io_state w"; simp add: internal_close_def)+
    then show ?thesis using inv by simp
  qed
next
  case True
  then have l: "io_listening w" using inv by (auto simp: wsio_inv_def)
  define w1 where "w1 = w\<lparr>io_state := IO_STATE_CLOSING, on_io_close_complete := cb\<rparr>"
  have inv1: "wsio_inv u0 m w1"
    by (rule inv_changed [OF inv]) (use inv l True in \<open>auto simp: w1_def wsio_inv_def io_sound_def io_opens_def io_listening_def\<close>)
  obtain q u' where c: "uws_client_close_async CLIENT wsio_callback (uws w1) = (q, u')" by (metis surj_pair)
  have "uws_step (CloseAsync wsio_callback) (uws w1) = (q, u')" using c by simp
  from inv_call [OF inv1 this] obtain w2 where w2: "with_uws (uws_client_close_async CLIENT wsio_callback) w1 = (q, w2)"
    "wsio_inv u0 m w2" "hears (w1\<lparr>uws := u'\<rparr>) w2" by (auto simp: plain_call_def)
  have "pending_sends u' = []" using close_async_empty(1) [OF c] inv1 by (simp add: wsio_inv_def prompt_io_def)
  then have "pending_sends (uws w2) = []" using hears_uws [OF w2(3)] by simp
  then have empty: "pending_io_list w2 = []" using linked_empty w2(2) by (simp add: wsio_inv_def)
  define w3 where "w3 = (case q of Success \<Rightarrow> w2 | Failure \<Rightarrow>
      (case on_io_close_complete w2 of None \<Rightarrow> w2 | Some n \<Rightarrow> io_emit (Io_Close_Complete n) w2))"
  have h3: "hears w2 w3" "pending_io_list w3 = []" "uws w3 = uws w2"
    using empty by (auto simp: w3_def hears_parts split: rc.split option.split)
  have "cancel_pending_loop w3 = w3" using h3(2) by (subst cancel_pending_loop.simps) simp
  then have w': "w' = w3\<lparr>io_state := IO_STATE_NOT_OPEN\<rparr>"
    using step True w2(1)
    by (cases q) (auto simp: internal_close_def w3_def w1_def [symmetric] Let_def split: option.splits)
  have h4: "hears w2 w'" unfolding w' by (rule hears_trans [OF h3(1) hears_state]) simp
  have "wsio_inv u0 m w'"
  proof (rule inv_changed [OF w2(2)])
    show "uws w' = uws w2" "pending_io_list w' = pending_io_list w2" using h3(2,3) empty by (simp_all add: w')
    show "io_sound w'" "io_opens w' \<le> m" using h4 w2(2) by (auto simp: hears_def wsio_inv_def)
    have "io_listening w1" using l by (simp add: w1_def io_listening_def)
    then show "io_listening w'"
      using io_listening_hears [OF h4] io_listening_hears [OF w2(3)] by (simp add: io_listening_def)
  qed
  moreover have "io_sends n w' = io_sends n w" for n
  proof -
    have "io_sends n w' = io_sends n w2" "io_sends n w2 = io_sends n (w1\<lparr>uws := u'\<rparr>)" using h4 w2(3) by (simp_all add: hears_def)
    then show ?thesis by (simp add: io_sends_def w1_def)
  qed
  ultimately show ?thesis by (simp add: w')
qed

text \<open>An open that the client refuses makes no callback.\<close>

lemma open_async_refused:
  assumes "uws_client_open_async CLIENT oc fr pc er u = (Failure, u')" and "prompt_io u"
  shows "u' = u \<or> events u' = events u @ [IoOpen]"
proof (cases "oc = None \<or> fr = None \<or> pc = None \<or> er = None \<or> uws_state u \<noteq> UWS_STATE_CLOSED")
  case True
  then show ?thesis using assms(1) by (auto simp: uws_client_open_async_def split: if_splits)
next
  case False
  obtain a q where x: "xio_open_answer u (xio_calls u) = (a, q)" by (metis surj_pair)
  have "a = Failure" using assms(1) False x by (auto simp: uws_client_open_async_def Let_def split: rc.splits)
  moreover from this have "q = None" using assms(2) x unfolding prompt_io_def by (metis fst_conv snd_conv)
  ultimately show ?thesis using assms(1) False x by (auto simp: uws_client_open_async_def Let_def emit_def)
qed

lemma inv_wsio_open:
  assumes inv: "wsio_inv u0 m w" and step: "wsio_open c oc br er w = (r, w')"
  shows "wsio_inv u0 (m + of_bool (r = Success)) w' \<and> (\<forall>n. io_sends n w' = io_sends n w)"
proof (cases "c = NULL_HANDLE \<or> oc = None \<or> br = None \<or> er = None \<or> io_state w \<noteq> IO_STATE_NOT_OPEN")
  case True
  then have "wsio_open c oc br er w = (Failure, w)" by (auto simp: wsio_open_def)
  then show ?thesis using inv step by simp
next
  case False
  define w1 where "w1 = w\<lparr>on_bytes_received := br, on_io_open_complete := oc, on_io_error := er, io_state := IO_STATE_OPENING\<rparr>"
  have l1: "io_listening w1" using False by (auto simp: w1_def io_listening_def)
  have o1: "io_opens w1 = Suc (io_opens w)" using False by (simp add: w1_def io_opens_def)
  have inv1: "wsio_inv u0 (Suc m) w1"
    by (rule inv_changed [OF inv]) (use inv l1 o1 in \<open>simp_all add: wsio_inv_def io_sound_def, simp_all add: w1_def\<close>)
  obtain q u' where o: "uws_client_open_async CLIENT wsio_callback wsio_callback wsio_callback wsio_callback (uws w1) = (q, u')"
    by (metis surj_pair)
  let ?c = "OpenAsync wsio_callback wsio_callback wsio_callback wsio_callback"
  have "uws_step ?c (uws w1) = (q, u')" using o by simp
  from inv_call [OF inv1 this] l1 obtain w2 where w2:
    "with_uws (uws_client_open_async CLIENT wsio_callback wsio_callback wsio_callback wsio_callback) w1 = (q, w2)"
    "wsio_inv u0 (Suc m) w2" "hears (w1\<lparr>uws := u'\<rparr>) w2" by auto
  have sends: "io_sends n w2 = io_sends n w" for n using w2(3) by (simp add: hears_def io_sends_def w1_def)
  show ?thesis
  proof (cases q)
    case Success
    then have "wsio_open c oc br er w = (Success, w2)" using False w2(1) by (auto simp: wsio_open_def w1_def)
    then show ?thesis using step w2(2) sends by simp
  next
    case Failure
    then have run: "wsio_open c oc br er w = (Failure, w2\<lparr>io_state := IO_STATE_NOT_OPEN\<rparr>)"
      using False w2(1) by (auto simp: wsio_open_def w1_def)
    have "prompt_io (uws w1)" using inv1 by (simp add: wsio_inv_def)
    from open_async_refused [OF o [unfolded Failure] this]
    have "w2 = w1\<lparr>uws := u'\<rparr>" using w2(1) o by (auto simp: with_uws_def deliver_all_def)
    then have o2: "io_opens (w2\<lparr>io_state := IO_STATE_NOT_OPEN\<rparr>) = io_opens w" using False by (simp add: io_opens_def w1_def)
    have "wsio_inv u0 m (w2\<lparr>io_state := IO_STATE_NOT_OPEN\<rparr>)"
    proof (rule inv_changed [OF w2(2)])
      show "io_opens (w2\<lparr>io_state := IO_STATE_NOT_OPEN\<rparr>) \<le> m" using inv o2 by (simp add: wsio_inv_def)
      show "io_listening (w2\<lparr>io_state := IO_STATE_NOT_OPEN\<rparr>)"
        using l1 io_listening_hears [OF w2(3)] by (simp add: io_listening_def)
    qed (use w2(2) in \<open>simp_all add: wsio_inv_def io_sound_def\<close>)
    then show ?thesis using step run sends by (auto simp: io_sends_def)
  qed
qed

lemma inv_wsio_dowork:
  assumes inv: "wsio_inv u0 m w"
  shows "wsio_inv u0 m (wsio_dowork c w) \<and> (\<forall>n. io_sends n (wsio_dowork c w) = io_sends n w)"
proof (cases "c = CLIENT \<and> io_state w \<noteq> IO_STATE_NOT_OPEN")
  case True
  have "uws_step Dowork (uws w) = (Success, uws_client_dowork CLIENT (uws w))" by simp
  from inv_call [OF inv this] obtain w2 where w2: "with_uws (uws_step Dowork) w = (Success, w2)" "wsio_inv u0 m w2"
    "hears (w\<lparr>uws := uws_client_dowork CLIENT (uws w)\<rparr>) w2" by (auto simp: plain_call_def)
  have "wsio_dowork c w = w2" using True w2(1) by (simp add: wsio_dowork_def with_uws_def)
  moreover have "io_sends n w2 = io_sends n w" for n using w2(3) by (simp add: hears_def io_sends_def)
  ultimately show ?thesis using w2(2) by simp
next
  case False
  then have "wsio_dowork c w = w" by (cases c) (simp_all add: wsio_dowork_def)
  then show ?thesis using inv by simp
qed

text \<open>Sending: the new item is in the list while the client sends.\<close>

lemma promised_fresh: "linked w \<Longrightarrow> mem_calls (io_heap w) \<le> a \<Longrightarrow> promised a (pending_sends (uws w)) = 0 \<and> a \<notin> handles (pending_io_list w)"
  by (auto simp: linked_def)

lemma sent_call:
  assumes inv: "wsio_inv u0 m w" and l: "io_listening w"
    and h1: "mem_calls (io_heap w) \<le> item" "item < mem_calls h1" "mem_live h1 = mem_live (io_heap w) + 2"
    and bs: "sz \<le> length bs"
    and send: "with_uws (uws_client_send_frame_async CLIENT t (Some bs) sz True (Some item))
        (set_io_heap h1 (w\<lparr>pending_io_list := pending_io_list w @ [(item, p)]\<rparr>)) = (r, w')"
  shows "\<exists>es. (\<forall>n. completed n es + promised n (pending_sends (uws w')) =
        of_bool (n \<in> handles (pending_io_list w)) + of_bool (r = Success \<and> n = item)) \<and>
    pending_io_list w' = filter (\<lambda>p. completed (fst p) es = 0) (pending_io_list w @ [(item, p)]) \<and>
    books_ok u0 w' \<and> settled (uws w') \<and> prompt_io (uws w') \<and> io_sound w' \<and> io_opens w' \<le> m \<and> io_listening w' \<and>
    mem_calls h1 \<le> mem_calls (io_heap w') \<and> (\<forall>n. io_sends n w' = io_sends n w + of_bool (on_send_complete p = Some n))"
proof -
  define w1 where "w1 = set_io_heap h1 (w\<lparr>pending_io_list := pending_io_list w @ [(item, p)]\<rparr>)"
  define u1 where "u1 = (uws w)\<lparr>env_heap := h1\<rparr>"
  have u1: "uws w1 = u1" "pending_sends u1 = pending_sends (uws w)" by (simp_all add: w1_def u1_def set_io_heap_def)
  have list1: "pending_io_list w1 = pending_io_list w @ [(item, p)]" by (simp add: w1_def set_io_heap_def)
  have good1: "uws_good (rebase u0 (item_blocks w1)) u1"
    using good_heap [of u0 "item_blocks w" "uws w" h1] inv h1
    by (simp add: wsio_inv_def books_ok_def u1_def item_blocks_def list1 add.commute)
  let ?c = "SendFrameAsync t (Some bs) sz True (Some item)"
  obtain q u' where x: "uws_client_send_frame_async CLIENT t (Some bs) sz True (Some item) u1 = (q, u')" by (metis surj_pair)
  have q: "q = r" using send x by (simp add: w1_def [symmetric] with_uws_def u1 split: prod.splits)
  have step: "uws_step ?c u1 = (r, u')" using x q by simp
  have ok: "allowed ?c u1" "orderly ?c u1" using bs by simp_all
  have prompt: "prompt_io u1" "settled u1"
    using inv by (simp_all add: wsio_inv_def u1_def prompt_io_def closes_at_once_def refused_is_silent_def settled_def)
  have silent: "refused_is_silent (rebase u0 (item_blocks w1))"
    using prompt(1) good1 by (simp add: prompt_io_def uws_good_def refused_is_silent_def)
  obtain res now where ans: "xio_send_answer u1 (xio_calls u1) = (res, now)" by (metis surj_pair)
  have out: "(\<exists>es. events u' = events u1 @ es) \<and> mem_calls (env_heap u1) \<le> mem_calls (env_heap u')"
    using send_frame_outcome [OF x ans] by (auto simp: send_outcome_def)
  then obtain es where es: "events u' = events u1 @ es" by blast
  note good' = good_step [OF good1 ok(1) step]
  have calls': "mem_calls h1 \<le> mem_calls (env_heap u')" using out by (simp add: u1_def)
  have counts: "completed n es + promised n (pending_sends u') =
      of_bool (n \<in> handles (pending_io_list w)) + of_bool (r = Success \<and> n = item)" for n
  proof -
    have "sends n u' = sends n u1 + (if accepts n (?c, r) then 1 else 0)"
      using step_sends [OF good1 silent ok(1) step] .
    moreover have "accepts n (?c, r) = (r = Success \<and> n = item)" by (cases r) auto
    moreover have "promised n (pending_sends u1) = of_bool (n \<in> handles (pending_io_list w))"
      using inv u1(2) by (simp add: wsio_inv_def linked_def)
    ultimately show ?thesis using es by (simp add: sends_def completed_def)
  qed
  have fresh: "item \<notin> handles (pending_io_list w)" using promised_fresh [OF _ h1(1)] inv by (simp add: wsio_inv_def)
  have few: "completed n es \<le> of_bool (n \<in> handles (pending_io_list w1))" for n
    using counts [of n] fresh by (auto simp: list1 of_bool_def split: if_splits)
  have l1: "io_listening w1" using l by (simp add: w1_def set_io_heap_def io_listening_def)
  have d1: "distinct (map fst (pending_io_list w1))"
    using inv fresh by (simp add: wsio_inv_def linked_def list1)
  have f: "uws_client_send_frame_async CLIENT t (Some bs) sz True (Some item) (uws w1) = (r, u')" using x q u1 by simp
  have es1: "events u' = events (uws w1) @ es" using es u1 by simp
  have w': "hears (w1\<lparr>uws := u'\<rparr>) w'" "books_ok u0 w'" "pending_io_list w' = filter (\<lambda>p. completed (fst p) es = 0) (pending_io_list w1)"
    "uws w' = rebase u' (item_blocks w' - item_blocks w1)"
    using with_uws_hears [where f = "uws_client_send_frame_async CLIENT t (Some bs) sz True (Some item)", OF d1 f good' es1 few disjI2 [OF l1]]
      send by (auto simp: w1_def [symmetric])
  have "calm u1 u'" using calm_step [OF ok(2)] step by simp
  then have "settled u'" using prompt by (simp add: calm_def prompt_io_def)
  moreover have "prompt_io u'" using prompt_step [OF prompt(1) good1 ok(1) step ok(2)] .
  moreover have "io_sound w'" "io_opens w' \<le> m" "io_listening w'"
    using w'(1) inv l1 io_listening_hears [OF w'(1)]
    by (auto simp: hears_def wsio_inv_def io_sound_def io_opens_def io_listening_def w1_def set_io_heap_def)
  moreover have "io_sends n w' = io_sends n w + of_bool (on_send_complete p = Some n)" for n
    using w'(1) by (simp add: hears_def io_sends_def io_promised_def w1_def set_io_heap_def)
  moreover have "mem_calls h1 \<le> mem_calls (io_heap w')" using calls' w'(4) by (simp add: rebase_def)
  ultimately show ?thesis using w'(2,3) counts unfolding w'(4) list1 by (intro exI [of _ es]) simp
qed

lemma inv_sent:
  assumes inv: "wsio_inv u0 m w" and l: "io_listening w"
    and h1: "mem_calls (io_heap w) \<le> item" "item < mem_calls h1" "mem_live h1 = mem_live (io_heap w) + 2"
    and bs: "sz \<le> length bs"
    and send: "with_uws (uws_client_send_frame_async CLIENT t (Some bs) sz True (Some item))
        (set_io_heap h1 (w\<lparr>pending_io_list := pending_io_list w @ [(item, p)]\<rparr>)) = (Success, w')"
  shows "wsio_inv u0 m w' \<and> (\<forall>n. io_sends n w' = io_sends n w + of_bool (on_send_complete p = Some n))"
proof -
  obtain es where es: "\<forall>n. completed n es + promised n (pending_sends (uws w')) = of_bool (n \<in> handles (pending_io_list w)) + of_bool (n = item)"
    "pending_io_list w' = filter (\<lambda>p. completed (fst p) es = 0) (pending_io_list w @ [(item, p)])"
    "books_ok u0 w'" "settled (uws w')" "prompt_io (uws w')" "io_sound w'" "io_opens w' \<le> m" "io_listening w'"
    "mem_calls h1 \<le> mem_calls (io_heap w')" "\<forall>n. io_sends n w' = io_sends n w + of_bool (on_send_complete p = Some n)"
    using sent_call [OF assms] by auto
  have fresh: "item \<notin> handles (pending_io_list w)" using promised_fresh [OF _ h1(1)] inv by (simp add: wsio_inv_def)
  have hs: "handles (pending_io_list w') = {n. (n \<in> handles (pending_io_list w) \<or> n = item) \<and> completed n es = 0}"
    unfolding es(2) by force
  have "promised n (pending_sends (uws w')) = of_bool (n \<in> handles (pending_io_list w'))" for n
    using es(1) [rule_format, of n] fresh unfolding hs by (auto simp: of_bool_def split: if_splits)
  moreover have "distinct (map fst (pending_io_list w'))"
  proof -
    have "distinct (map fst (pending_io_list w @ [(item, p)]))" using inv fresh by (simp add: wsio_inv_def linked_def)
    then show ?thesis unfolding es(2) by (rule distinct_map_filter)
  qed
  moreover have "a < mem_calls (io_heap w')" if "a \<in> handles (pending_io_list w')" for a
    using that inv h1(1,2) es(9) unfolding hs by (fastforce simp: wsio_inv_def linked_def)
  ultimately have "linked w'" by (simp add: linked_def)
  then show ?thesis using es by (simp add: wsio_inv_def)
qed

lemma inv_not_sent:
  assumes inv: "wsio_inv u0 m w" and l: "io_listening w"
    and h1: "mem_calls (io_heap w) \<le> item" "item < mem_calls h1" "mem_live h1 = mem_live (io_heap w) + 2"
    and bs: "sz \<le> length bs"
    and send: "with_uws (uws_client_send_frame_async CLIENT t (Some bs) sz True (Some item))
        (set_io_heap h1 (w\<lparr>pending_io_list := pending_io_list w @ [(item, p)]\<rparr>)) = (Failure, w')"
    and h2: "mem_live h2 = mem_live (io_heap w') - 2" "mem_calls (io_heap w') \<le> mem_calls h2"
  defines "w2 \<equiv> set_io_heap h2 (w'\<lparr>pending_io_list := filter (\<lambda>q. fst q \<noteq> item) (pending_io_list w')\<rparr>)"
  shows "map_of (pending_io_list w') item = Some p \<and> wsio_inv u0 m w2 \<and> (\<forall>n. io_sends n w2 = io_sends n w)"
proof -
  obtain es where es: "\<forall>n. completed n es + promised n (pending_sends (uws w')) = of_bool (n \<in> handles (pending_io_list w))"
    "pending_io_list w' = filter (\<lambda>p. completed (fst p) es = 0) (pending_io_list w @ [(item, p)])"
    "books_ok u0 w'" "settled (uws w')" "prompt_io (uws w')" "io_sound w'" "io_opens w' \<le> m" "io_listening w'"
    "mem_calls h1 \<le> mem_calls (io_heap w')" "\<forall>n. io_sends n w' = io_sends n w + of_bool (on_send_complete p = Some n)"
    using sent_call [OF assms(1-7)] by auto
  have fresh: "item \<notin> handles (pending_io_list w)" using promised_fresh [OF _ h1(1)] inv by (simp add: wsio_inv_def)
  define kept where "kept = filter (\<lambda>p. completed (fst p) es = 0) (pending_io_list w)"
  have "completed item es = 0" using es(1) [rule_format, of item] fresh by simp
  then have list': "pending_io_list w' = kept @ [(item, p)]" by (simp add: es(2) kept_def)
  have k: "item \<notin> handles kept" using fresh by (auto simp: kept_def)
  then have rest: "filter (\<lambda>q. fst q \<noteq> item) (pending_io_list w') = kept" by (auto simp: list' filter_id_conv)
  have w2: "pending_io_list w2 = kept" "uws w2 = (uws w')\<lparr>env_heap := h2\<rparr>" "io_events w2 = io_events w'" "io_state w2 = io_state w'"
    "io_listening w2 = io_listening w'"
    by (simp_all add: w2_def set_io_heap_def rest io_listening_def)
  have hs: "handles kept = {n \<in> handles (pending_io_list w). completed n es = 0}" by (force simp: kept_def)
  have "promised n (pending_sends (uws w2)) = of_bool (n \<in> handles kept)" for n
    using es(1) [rule_format, of n] unfolding hs by (auto simp: w2(2) of_bool_def split: if_splits)
  moreover have "distinct (map fst kept)" using inv by (simp add: kept_def wsio_inv_def linked_def distinct_map_filter)
  moreover have "a < mem_calls (io_heap w2)" if "a \<in> handles kept" for a
    using that inv h1(1,2) es(9) h2(2) unfolding hs by (fastforce simp: wsio_inv_def linked_def w2(2))
  ultimately have "linked w2" by (simp add: linked_def w2(1))
  moreover have "books_ok u0 w2"
    using good_heap [of u0 "item_blocks w'" "uws w'" h2] es(3) h2 by (simp add: books_ok_def w2(1,2) item_blocks_def list')
  moreover have "settled (uws w2)" "prompt_io (uws w2)"
    using es(4,5) by (simp_all add: w2(2) settled_def prompt_io_def closes_at_once_def refused_is_silent_def)
  moreover have "io_sends n w2 = io_sends n w" for n
    using es(10) [rule_format, of n] by (cases "on_send_complete p = Some n") (simp_all add: io_sends_def io_promised_def w2(1,3) list')
  moreover have "map_of kept item = None" using k by (simp add: map_of_eq_None_iff)
  then have "map_of (pending_io_list w') item = Some p" by (simp add: list' map_add_def)
  ultimately show ?thesis
    using es(6-8) w2(3-5) by (simp add: wsio_inv_def io_sound_def io_opens_def)
qed

lemma inv_wsio_send:
  assumes inv: "wsio_inv u0 m w" and step: "wsio_send c buffer sz cb w = (r, w')"
    and bs: "case buffer of None \<Rightarrow> True | Some b \<Rightarrow> sz \<le> length b"
  shows "wsio_inv u0 m w' \<and> (\<forall>n. io_sends n w' = io_sends n w + of_bool (r = Success \<and> cb = Some n))"
proof (cases "c = NULL_HANDLE \<or> buffer = None \<or> sz = 0 \<or> io_state w \<noteq> IO_STATE_OPEN")
  case True
  then have "wsio_send c buffer sz cb w = (Failure, w)" by (auto simp: wsio_send_def)
  then show ?thesis using inv step by simp
next
  case False
  then obtain b where b: "buffer = Some b" "sz \<le> length b" using bs by auto
  have l: "io_listening w" using inv False by (simp add: wsio_inv_def)
  define h where "h = io_heap w"
  define h1 where "h1 = after_request 1 h"
  define h2 where "h2 = after_request 1 h1"
  note heaps = h1_def h2_def after_request_def free_struct_def heap_kept_def
  have alloc: "malloc_struct (io_heap w) = (granted h, h1)" by (simp add: h_def h1_def malloc_struct_def)
  show ?thesis
  proof (cases "granted h")
    case not_granted: False
    then have "wsio_send c buffer sz cb w = (Failure, set_io_heap h1 w)" using False alloc by (auto simp: wsio_send_def)
    moreover have "heap_kept (io_heap w) h1" using not_granted by (simp add: heaps h_def)
    ultimately show ?thesis using inv_heap [OF inv] step by simp
  next
    case g1: True
    let ?p = "\<lparr>on_send_complete = cb\<rparr>"
    have add: "pairs_add (pending_io_list w) ?p h1 =
        (if granted h1 then (Some (mem_calls h1), pending_io_list w @ [(mem_calls h1, ?p)], h2) else (None, pending_io_list w, h2))"
      by (simp add: pairs_add_def h2_def)
    show ?thesis
    proof (cases "granted h1")
      case not_granted: False
      then have "wsio_send c buffer sz cb w = (Failure, set_io_heap (free_struct h2) w)"
        using False alloc g1 add by (auto simp: wsio_send_def Let_def)
      moreover have "heap_kept (io_heap w) (free_struct h2)" using not_granted g1 by (simp add: heaps h_def)
      ultimately show ?thesis using inv_heap [OF inv] step by simp
    next
      case g2: True
      define item where "item = mem_calls h1"
      have bounds: "mem_calls (io_heap w) \<le> item" "item < mem_calls h2" "mem_live h2 = mem_live (io_heap w) + 2"
        using g1 g2 by (simp_all add: item_def heaps h_def)
      obtain q w1 where x: "with_uws (uws_client_send_frame_async CLIENT WS_FRAME_TYPE_BINARY (Some b) sz True (Some item))
          (set_io_heap h2 (w\<lparr>pending_io_list := pending_io_list w @ [(item, ?p)]\<rparr>)) = (q, w1)" by (metis surj_pair)
      show ?thesis
      proof (cases q)
        case Success
        then have "wsio_send c buffer sz cb w = (Success, w1)"
          using False alloc g1 g2 add x b by (auto simp: wsio_send_def Let_def item_def)
        then show ?thesis using inv_sent [OF inv l bounds b(2) x [unfolded Success]] step by simp
      next
        case Failure
        define ps2 where "ps2 = filter (\<lambda>q. fst q \<noteq> item) (pending_io_list w1)"
        define h3 where "h3 = free_struct (free_struct (io_heap w1))"
        have "mem_live h3 = mem_live (io_heap w1) - 2" "mem_calls (io_heap w1) \<le> mem_calls h3" by (simp_all add: h3_def free_struct_def)
        note res = inv_not_sent [OF inv l bounds b(2) x [unfolded Failure] this, folded ps2_def]
        then have m: "map_of (pending_io_list w1) item = Some ?p" by simp
        then have "item \<in> fst ` set (pending_io_list w1)" by (force dest: map_of_SomeD)
        then have rm: "pairs_remove (pending_io_list w1) item (io_heap w1) = (Success, ps2, free_struct (io_heap w1))"
          by (auto simp: pairs_remove_def ps2_def)
        have "wsio_send c buffer sz cb w = (Failure, set_io_heap h3 (w1\<lparr>pending_io_list := ps2\<rparr>))"
          using False alloc g1 g2 add x b Failure m rm by (auto simp: wsio_send_def Let_def item_def h3_def)
        then show ?thesis using res step by simp
      qed
    qed
  qed
qed

section \<open>Runs\<close>

text \<open>The calls of the user, and the callbacks of the IO under the client.\<close>

datatype wsio_call =
    Wsio_Open callback callback callback
  | Wsio_Close callback
  | Wsio_Send "byte list option" nat callback
  | Wsio_Dowork
  | Under uws_call

fun wsio_step :: "wsio_call \<Rightarrow> wsio_world \<Rightarrow> rc \<times> wsio_world" where
  "wsio_step (Wsio_Open oc br er) w = wsio_open CLIENT oc br er w"
| "wsio_step (Wsio_Close cb) w = wsio_close CLIENT cb w"
| "wsio_step (Wsio_Send buffer sz cb) w = wsio_send CLIENT buffer sz cb w"
| "wsio_step Wsio_Dowork w = (Success, wsio_dowork CLIENT w)"
| "wsio_step (Under c) w = with_uws (uws_step c) w"

fun under_call :: "uws_call \<Rightarrow> bool" where
  "under_call (IoOpenComplete r) = True"
| "under_call (IoBytesReceived buffer sz) = True"
| "under_call IoErrorOccurred = True"
| "under_call (IoSendComplete item r) = True"
| "under_call IoCloseComplete = True"
| "under_call (IoCloseSent r) = True"
| "under_call _ = False"

fun wsio_allowed :: "wsio_call \<Rightarrow> wsio_world \<Rightarrow> bool" where
  "wsio_allowed (Wsio_Send buffer sz cb) w = (case buffer of None \<Rightarrow> True | Some b \<Rightarrow> sz \<le> length b)"
| "wsio_allowed (Under c) w = (under_call c \<and> allowed c (uws w) \<and> orderly c (uws w))"
| "wsio_allowed _ w = True"

inductive wsio_run :: "wsio_world \<Rightarrow> (wsio_call \<times> rc) list \<Rightarrow> wsio_world \<Rightarrow> bool" for w0 where
  wsio_begin: "wsio_run w0 [] w0"
| wsio_next: "wsio_run w0 cs w \<Longrightarrow> wsio_allowed c w \<Longrightarrow> wsio_step c w = (r, w') \<Longrightarrow> wsio_run w0 (cs @ [(c, r)]) w'"

fun wsio_opens :: "wsio_call \<times> rc \<Rightarrow> bool" where
  "wsio_opens (Wsio_Open oc br er, Success) = True"
| "wsio_opens _ = False"

fun wsio_accepts :: "nat \<Rightarrow> wsio_call \<times> rc \<Rightarrow> bool" where
  "wsio_accepts n (Wsio_Send buffer sz cb, Success) = (cb = Some n)"
| "wsio_accepts n _ = False"

lemma plain_under: "under_call c \<Longrightarrow> plain_call c"
  by (cases c) (simp_all add: plain_call_def)

lemma inv_wsio_step:
  assumes inv: "wsio_inv u0 m w" and "wsio_allowed c w" and "wsio_step c w = (r, w')"
  shows "wsio_inv u0 (m + of_bool (wsio_opens (c, r))) w' \<and> (\<forall>n. io_sends n w' = io_sends n w + of_bool (wsio_accepts n (c, r)))"
proof (cases c)
  case (Wsio_Open oc br er)
  have "wsio_opens (c, r) = (r = Success)" "\<not> wsio_accepts n (c, r)" for n using Wsio_Open by (cases r; simp)+
  then show ?thesis using inv_wsio_open [OF inv, of CLIENT oc br er] assms(3) Wsio_Open by simp
next
  case (Wsio_Close cb)
  have "\<not> wsio_opens (c, r)" "\<not> wsio_accepts n (c, r)" for n using Wsio_Close by simp_all
  then show ?thesis using inv_internal_close [OF inv, of cb] assms(3) Wsio_Close by (simp add: wsio_close_def)
next
  case (Wsio_Send b sz cb)
  have "\<not> wsio_opens (c, r)" "wsio_accepts n (c, r) = (r = Success \<and> cb = Some n)" for n using Wsio_Send by (cases r; simp)+
  then show ?thesis using inv_wsio_send [OF inv, of CLIENT b sz cb] assms(2,3) Wsio_Send by simp
next
  case Wsio_Dowork
  then show ?thesis using inv_wsio_dowork [OF inv, of CLIENT] assms(3) by simp
next
  case (Under k)
  obtain q u' where x: "uws_step k (uws w) = (q, u')" by (metis surj_pair)
  have "plain_call k" "allowed k (uws w)" "orderly k (uws w)" using assms(2) Under plain_under by auto
  from inv_call [OF inv x disjI1 [OF this(1)] this(2,3)] obtain w2 where w2: "with_uws (uws_step k) w = (q, w2)" "wsio_inv u0 m w2"
    "hears (w\<lparr>uws := u'\<rparr>) w2" by blast
  have "io_sends n w2 = io_sends n w" for n using w2(3) by (simp add: hears_def io_sends_def)
  then show ?thesis using assms(3) Under w2(1,2) by simp
qed

text \<open>An IO as \<open>wsio_create\<close> returns it.\<close>

definition fresh_wsio :: "wsio_world \<Rightarrow> bool" where
  "fresh_wsio w \<longleftrightarrow> io_state w = IO_STATE_NOT_OPEN \<and> pending_io_list w = [] \<and> io_events w = [] \<and> fresh_client (uws w) \<and>
     on_ws_open_complete (uws w) = None"

lemma fresh_inv:
  assumes "fresh_wsio w" and "prompt_io (uws w)"
  shows "wsio_inv (uws w) 0 w"
  using assms fresh_good [of "uws w"]
  by (simp add: fresh_wsio_def wsio_inv_def linked_def books_ok_def item_blocks_def rebase_def promised_def fresh_client_def
      settled_def io_sound_def io_opens_def opened_def)

lemma wsio_run_inv:
  assumes "wsio_run w0 cs w" and "fresh_wsio w0" and "prompt_io (uws w0)"
  shows "wsio_inv (uws w0) (length (filter wsio_opens cs)) w \<and> (\<forall>n. io_sends n w = length (filter (wsio_accepts n) cs))"
  using assms(1)
proof induction
  case wsio_begin
  then show ?case using fresh_inv [OF assms(2,3)] assms(2)
    by (simp add: io_sends_def io_completed_def io_promised_def fresh_wsio_def)
next
  case (wsio_next cs w c r w')
  note s = inv_wsio_step [OF conjunct1 [OF wsio_next.IH] wsio_next.hyps(2,3)]
  show ?case using s wsio_next.IH by (simp add: of_bool_def split: if_splits)
qed

text \<open>The memory in use but for what the client owns and the two blocks of each item.\<close>

definition wsio_balance :: "wsio_world \<Rightarrow> int" where
  "wsio_balance w = balance (uws w) - item_blocks w"

lemma balance_rebase: "balance (rebase u k) = balance u + k"
  by (simp add: balance_def rebase_def owned_def)

lemma wsio_run_result:
  assumes "fresh_wsio w0" and "prompt_io (uws w0)" and "wsio_run w0 cs w"
  shows "io_sound w \<and>
    (\<forall>n. io_completed n (io_events w) + io_promised n (pending_io_list w) = length (filter (wsio_accepts n) cs)) \<and>
    (\<forall>n. promised n (pending_sends (uws w)) = of_bool (n \<in> handles (pending_io_list w))) \<and>
    io_opens w \<le> length (filter wsio_opens cs) \<and>
    0 \<le> wsio_balance w - wsio_balance w0 \<and> wsio_balance w - wsio_balance w0 \<le> 2 * int (construct_failures (events (uws w)))"
  using wsio_run_inv [OF assms(3,1,2)] assms(1)
  by (auto simp: wsio_inv_def linked_def books_ok_def item_blocks_def io_sends_def uws_good_def wsio_balance_def
      balance_rebase fresh_wsio_def)

text \<open>A new IO over a client whose underlying IO closes at once.\<close>

definition demo_wsio :: wsio_world where
  "demo_wsio = \<lparr>on_bytes_received = None, on_io_open_complete = None, on_io_error = None, on_io_close_complete = None,
     io_state = IO_STATE_NOT_OPEN, pending_io_list = [], uws = demo_client\<lparr>xio_close_answer := \<lambda>_. (Success, True)\<rparr>, io_events = []\<rparr>"

lemma demo_wsio_fresh: "fresh_wsio demo_wsio" "prompt_io (uws demo_wsio)"
  using demo_fresh
  by (simp_all add: fresh_wsio_def demo_wsio_def fresh_client_def demo_client_def prompt_io_def closes_at_once_def refused_is_silent_def)

end
