(* ===== verification/Wsio_Delivery.thy ===== *)
theory Wsio_Delivery
  imports Wsio_Runs
begin

text \<open>
  What the WebSocket IO hands on: the messages of the server reach the user as their bytes, in
  order; and the runs that show what the IO relies on when it closes.
\<close>

section \<open>Bytes received\<close>

definition wsio_receive_all :: "byte list list \<Rightarrow> wsio_world \<Rightarrow> wsio_world" where
  "wsio_receive_all pieces w = fold (\<lambda>p w. snd (wsio_step (Under (IoBytesReceived (Some p) (length p))) w)) pieces w"

text \<open>The payload of each frame that the client reports, when it is not empty.\<close>

definition io_reports :: "nat \<Rightarrow> byte list list \<Rightarrow> wsio_event list" where
  "io_reports n ds = map (Io_Bytes_Received n) (filter (\<lambda>d. d \<noteq> []) ds)"

lemma deliver_binary:
  assumes "io_state w = IO_STATE_OPEN" and "on_bytes_received w = Some n"
  shows "deliver_all (map (FrameReceived m WS_FRAME_TYPE_BINARY) ds) w = w\<lparr>io_events := io_events w @ io_reports n ds\<rparr>"
  using assms
proof (induction ds arbitrary: w)
  case Nil
  then show ?case by (simp add: deliver_all_def io_reports_def)
next
  case (Cons d ds)
  let ?w = "w\<lparr>io_events := io_events w @ io_reports n [d]\<rparr>"
  have one: "deliver (FrameReceived m WS_FRAME_TYPE_BINARY d) w = ?w"
    using Cons.prems by (auto simp: on_underlying_ws_frame_received_def io_invoke_def io_emit_def io_reports_def)
  have "deliver_all (map (FrameReceived m WS_FRAME_TYPE_BINARY) (d # ds)) w =
      deliver_all (map (FrameReceived m WS_FRAME_TYPE_BINARY) ds) ?w"
    using one by (simp add: deliver_all_def)
  also have "\<dots> = ?w\<lparr>io_events := io_events ?w @ io_reports n ds\<rparr>" by (rule Cons.IH) (use Cons.prems in simp_all)
  finally show ?case by (simp add: io_reports_def)
qed

lemma receive_all_grows: "\<exists>es. events (receive_all pieces u) = events u @ es"
proof (induction pieces arbitrary: u)
  case Nil
  then show ?case by (simp add: receive_all_def)
next
  case (Cons p ps)
  let ?u = "on_underlying_io_bytes_received CLIENT (Some p) (length p) u"
  obtain es where "events ?u = events u @ es" using moves_events [OF moves_bytes_received] by blast
  then show ?case using Cons.IH [of ?u] by (auto simp: receive_all_def)
qed

lemma wsio_receive_all_result:
  assumes "io_state w = IO_STATE_OPEN" and "on_bytes_received w = Some n"
    and "events (receive_all pieces (uws w)) = events (uws w) @ map (FrameReceived m WS_FRAME_TYPE_BINARY) ds"
  shows "wsio_receive_all pieces w =
    w\<lparr>uws := receive_all pieces (uws w), io_events := io_events w @ io_reports n ds\<rparr>"
  using assms
proof (induction pieces arbitrary: w ds)
  case Nil
  then show ?case by (simp add: wsio_receive_all_def receive_all_def io_reports_def)
next
  case (Cons p ps)
  let ?u = "on_underlying_io_bytes_received CLIENT (Some p) (length p) (uws w)"
  have fold: "receive_all (p # ps) (uws w) = receive_all ps ?u" by (simp add: receive_all_def)
  obtain es fs where es: "events ?u = events (uws w) @ es" "events (receive_all ps ?u) = events ?u @ fs"
    using moves_events [OF moves_bytes_received] receive_all_grows by blast
  have "map (FrameReceived m WS_FRAME_TYPE_BINARY) ds = es @ fs" using Cons.prems(3) es fold by simp
  then obtain d1 d2 where d: "ds = d1 @ d2" "es = map (FrameReceived m WS_FRAME_TYPE_BINARY) d1"
    "fs = map (FrameReceived m WS_FRAME_TYPE_BINARY) d2" by (auto simp: map_eq_append_conv)
  let ?w = "w\<lparr>uws := ?u, io_events := io_events w @ io_reports n d1\<rparr>"
  have one: "snd (wsio_step (Under (IoBytesReceived (Some p) (length p))) w) = ?w"
    using deliver_binary [of "w\<lparr>uws := ?u\<rparr>" n m d1] Cons.prems(1,2) es(1) d(2) by (simp add: with_uws_def)
  have "wsio_receive_all (p # ps) w = wsio_receive_all ps ?w" unfolding wsio_receive_all_def by (simp add: one del: wsio_step.simps)
  also have "\<dots> = ?w\<lparr>uws := receive_all ps (uws ?w), io_events := io_events ?w @ io_reports n d2\<rparr>"
    by (rule Cons.IH) (use Cons.prems(1,2) es(2) d(3) in simp_all)
  finally show ?case by (simp add: fold d(1) io_reports_def)
qed

text \<open>C14: Claim: on an open IO, the payloads of the binary messages that the server sends, each in one frame or in
  fragments, are handed to the user in order, each exactly once and whole, however the underlying
  IO cuts the stream into pieces; an empty message is not reported, nothing else is, the IO stays
  open and its sends stay as they are. Allocations are granted.\<close>

theorem wsio_delivers:
  assumes "io_state w = IO_STATE_OPEN" and "on_bytes_received w = Some n"
    and "between_messages m (uws w)" and "\<forall>i. mem_ok (io_heap w) i"
    and "list_all message_ok ms" and "list_all (\<lambda>m. fst m = WS_FRAME_TYPE_BINARY) ms"
    and "[] \<notin> set pieces" and "concat pieces = concat (map message_bytes ms)"
  defines "w' \<equiv> wsio_receive_all pieces w"
  shows "io_events w' = io_events w @ map (Io_Bytes_Received n) (filter (\<lambda>d. d \<noteq> []) (map (\<lambda>m. concat (snd m)) ms)) \<and>
    io_state w' = IO_STATE_OPEN \<and> pending_io_list w' = pending_io_list w \<and> between_messages m (uws w')"
proof -
  note r = messages_delivered [OF assms(3,4,5,7,8)]
  have "map (\<lambda>(t, ps). FrameReceived m t (concat ps)) ms =
      map (FrameReceived m WS_FRAME_TYPE_BINARY) (map (\<lambda>m. concat (snd m)) ms)"
    using assms(6) by (auto simp: list_all_iff)
  with r have "events (receive_all pieces (uws w)) =
      events (uws w) @ map (FrameReceived m WS_FRAME_TYPE_BINARY) (map (\<lambda>m. concat (snd m)) ms)" by (simp only:)
  from wsio_receive_all_result [OF assms(1,2) this] show ?thesis
    using r assms(1) by (simp add: w'_def io_reports_def)
qed

definition demo_wsio_open :: wsio_world where
  "demo_wsio_open = demo_wsio\<lparr>io_state := IO_STATE_OPEN, on_bytes_received := Some 2, on_io_open_complete := Some 1,
     on_io_error := Some 3, uws := demo_open\<rparr>"

theorem wsio_delivers_witness:
  "io_events (wsio_receive_all [[0x02, 1], [0x48, 0x80, 1, 0x69, 0x82], [1, 7]] demo_wsio_open) =
     [Io_Bytes_Received 2 [0x48, 0x69], Io_Bytes_Received 2 [7]]"
proof -
  let ?ms = "[(2, [[0x48], [0x69]]), (2, [[7]])] :: message list"
  have ms: "list_all message_ok ?ms" "list_all (\<lambda>m. fst m = WS_FRAME_TYPE_BINARY) ?ms"
    "concat (map message_bytes ?ms) = [0x02, 1, 0x48, 0x80, 1, 0x69, 0x82, 1, 7]"
    by (simp_all add: message_ok_def frame_type_defs message_bytes_def stream_bytes_def frame_bytes_def
        ws_frame_def frame_length_field_def)
  have w: "io_state demo_wsio_open = IO_STATE_OPEN" "on_bytes_received demo_wsio_open = Some 2" "uws demo_wsio_open = demo_open"
    "io_events demo_wsio_open = []"
    by (simp_all add: demo_wsio_open_def demo_wsio_def)
  have "concat [[0x02, 1], [0x48, 0x80, 1, 0x69, 0x82], [1, 7]] = concat (map message_bytes ?ms)" unfolding ms by simp
  from wsio_delivers [OF w(1,2) _ _ ms(1,2) _ this, of 2] demo_between show ?thesis by (simp add: w)
qed

section \<open>Closing\<close>

text \<open>An underlying IO that completes its close later finds the items of the sends freed: the
  client cancels its sends then, with the items that \<open>wsio_close\<close> has thrown away.\<close>

lemma late_close_uses_freed_item:
  assumes "io_state w = IO_STATE_OPEN" and "pending_io_list w = [(item, p)]" and "uws_state (uws w) = UWS_STATE_OPEN"
    and "pending_sends (uws w) = [(a, \<lparr>on_ws_send_frame_complete = Some item\<rparr>)]" and "xio_close_answer (uws w) (xio_calls (uws w)) = (Success, False)"
  shows "Io_Dangling \<in> set (io_events (snd (wsio_step (Under IoCloseComplete) (snd (wsio_close CLIENT cb w)))))"
proof -
  obtain w1 where w1: "wsio_close CLIENT cb w = (Success, w1)" "pending_io_list w1 = []"
    "uws_state (uws w1) = UWS_STATE_CLOSING_UNDERLYING_IO" "pending_sends (uws w1) = pending_sends (uws w)"
    "on_ws_close_complete (uws w1) = wsio_callback"
    using assms
    by (simp add: wsio_close_def internal_close_def with_uws_def uws_client_close_async_def xio_close_def emit_def deliver_all_def
        cancel_pending_loop.simps complete_send_item_def pairs_remove_def set_io_heap_def io_emit_def Let_def split: option.split)
  have "events (on_underlying_io_close_complete CLIENT (uws w1)) =
      events (uws w1) @ [SendFrameComplete item WS_SEND_FRAME_CANCELLED, CloseComplete 0]"
    using w1(3-5) assms(4)
    by (simp add: on_underlying_io_close_complete_def indicate_ws_close_complete_def clear_pending_sends.simps
        complete_send_frame_def pairs_remove_def emit_def wsio_callback_def Let_def)
  then show ?thesis
    using w1(1,2)
    by (simp add: with_uws_def deliver_all_def on_underlying_ws_send_frame_complete_def complete_send_item_def io_emit_def
        on_underlying_ws_close_complete_def Let_def split: option.split)
qed

text \<open>A close while the open is in progress leaves the client opening, so that no later open succeeds.\<close>

lemma cancelled_open_cannot_reopen:
  assumes "io_state w = IO_STATE_OPENING" and "uws_state (uws w) \<noteq> UWS_STATE_CLOSED"
  shows "fst (wsio_open CLIENT oc br er (snd (wsio_close CLIENT cb w))) = Failure"
  using assms
  by (simp add: wsio_close_def internal_close_def indicate_open_complete_def io_invoke_def io_emit_def wsio_open_def with_uws_def
      uws_client_open_async_def)

end
