(* ===== verification/Uws_Io.thy ===== *)
theory Uws_Io
  imports Uws_Settled
begin

text \<open>
  The side of the underlying IO in a run of the WebSocket client: the sends it has accepted and
  not yet completed. What the IO may complete is said of its own books alone; that the context of
  each of these completions is a list node that still lives is proved.
\<close>

section \<open>What keeps the pending sends\<close>

definition kept :: "uws_world \<Rightarrow> uws_world \<Rightarrow> bool" where
  "kept w w' \<longleftrightarrow> pending_sends w' = pending_sends w \<and> xio_close_answer w' = xio_close_answer w \<and>
     xio_send_answer w' = xio_send_answer w"

named_theorems keep

lemma kept_refl [simp, keep]: "kept w w"
  by (simp add: kept_def)

lemma kept_trans: "kept w w1 \<Longrightarrow> kept w1 w2 \<Longrightarrow> kept w w2"
  by (simp add: kept_def)

lemma kept_update [keep]:
  "kept w w1 \<Longrightarrow> kept w (w1\<lparr>uws_state := s\<rparr>)"
  "kept w w1 \<Longrightarrow> kept w (w1\<lparr>env_heap := h\<rparr>)"
  "kept w w1 \<Longrightarrow> kept w (w1\<lparr>env_rng := g\<rparr>)"
  "kept w w1 \<Longrightarrow> kept w (w1\<lparr>env_errno := e\<rparr>)"
  "kept w w1 \<Longrightarrow> kept w (w1\<lparr>env_time_reads := k\<rparr>)"
  "kept w w1 \<Longrightarrow> kept w (w1\<lparr>xio_calls := k\<rparr>)"
  "kept w w1 \<Longrightarrow> kept w (w1\<lparr>events := es\<rparr>)"
  "kept w w1 \<Longrightarrow> kept w (w1\<lparr>stream_buffer := b\<rparr>)"
  "kept w w1 \<Longrightarrow> kept w (w1\<lparr>stream_buffer_count := k\<rparr>)"
  "kept w w1 \<Longrightarrow> kept w (w1\<lparr>fragment_buffer := b\<rparr>)"
  "kept w w1 \<Longrightarrow> kept w (w1\<lparr>fragment_buffer_count := k\<rparr>)"
  "kept w w1 \<Longrightarrow> kept w (w1\<lparr>fragmented_frame_type := t\<rparr>)"
  "kept w w1 \<Longrightarrow> kept w (w1\<lparr>last_open_wait_log_time := i\<rparr>)"
  "kept w w1 \<Longrightarrow> kept w (w1\<lparr>open_start_time := i\<rparr>)"
  "kept w w1 \<Longrightarrow> kept w (w1\<lparr>on_ws_close_complete := cb\<rparr>)"
  "kept w w1 \<Longrightarrow> kept w (w1\<lparr>on_ws_open_complete := cb\<rparr>)"
  "kept w w1 \<Longrightarrow> kept w (w1\<lparr>on_ws_frame_received := cb\<rparr>)"
  "kept w w1 \<Longrightarrow> kept w (w1\<lparr>on_ws_peer_closed := cb\<rparr>)"
  "kept w w1 \<Longrightarrow> kept w (w1\<lparr>on_ws_error := cb\<rparr>)"
  "kept w w1 \<Longrightarrow> kept w (w1\<lparr>request_headers := m\<rparr>)"
  by (simp_all add: kept_def)

lemma kept_reports [keep]:
  "kept w w1 \<Longrightarrow> kept w (emit e w1)"
  "kept w w1 \<Longrightarrow> kept w (invoke cb ev w1)"
  "kept w w1 \<Longrightarrow> kept w (xio_close_quietly w1)"
  "kept w w1 \<Longrightarrow> kept w (indicate_ws_error err w1)"
  "kept w w1 \<Longrightarrow> kept w (indicate_ws_open_complete_error d w1)"
  "kept w w1 \<Longrightarrow> kept w (indicate_ws_open_complete_error_and_close d w1)"
  "kept w w1 \<Longrightarrow> kept w (snd (xio_send_unchecked bs w1))"
  "kept w w1 \<Longrightarrow> kept w (consume_stream_buffer_bytes n w1)"
  by (simp_all add: kept_def emit_def invoke_def xio_close_quietly_def indicate_ws_error_def xio_send_unchecked_def
      indicate_ws_open_complete_error_and_close_def indicate_ws_open_complete_error_def
      consume_stream_buffer_bytes_def Let_def)

lemma kept_send_close_frame [keep]: "kept w w1 \<Longrightarrow> kept w (snd (send_close_frame c w1))"
  using kept_reports(7)
  by (auto simp: send_close_frame_def Let_def keep split: prod.splits option.splits) (metis keep snd_conv)

lemma kept_error_and_close [keep]: "kept w w1 \<Longrightarrow> kept w (indicate_ws_error_and_close e c w1)"
  by (simp add: indicate_ws_error_and_close_def Let_def keep)

lemma kept_handshake: "kept w (snd (uws_client_close_handshake_async c code cb w))"
  by (cases c) (simp_all add: uws_client_close_handshake_async_def keep)

lemma kept_dowork: "kept w (uws_client_dowork c w)"
  by (cases c) (auto simp: uws_client_dowork_def Let_def keep)

lemma kept_fragment [keep]: "kept w w1 \<Longrightarrow> kept w (snd (process_frame_fragment len needed w1))"
  by (auto simp: process_frame_fragment_def keep split: prod.splits option.splits)

lemma kept_continuation [keep]:
  assumes "kept w w1"
  shows "kept w (snd (on_continuation_frame f len needed w1))"
proof (cases "process_frame_fragment len needed w1")
  case (Pair r w2)
  then have "kept w w2" using kept_fragment [OF assms, of len needed] by simp
  then show ?thesis using Pair by (cases r) (simp_all add: on_continuation_frame_def Let_def keep)
qed

lemma kept_data_frame [keep]:
  assumes "kept w w1"
  shows "kept w (snd (on_data_frame t f len needed w1))"
proof (cases "process_frame_fragment len needed w1")
  case (Pair r w2)
  then have "kept w w2" using kept_fragment [OF assms, of len needed] by simp
  then show ?thesis using Pair assms by (cases r) (simp_all add: on_data_frame_def keep)
qed

lemma kept_ping_frame [keep]: "kept w w1 \<Longrightarrow> kept w (on_ping_frame f len needed w1)"
  by (auto simp: on_ping_frame_def Let_def keep split: prod.splits option.splits)

lemma kept_upgrade_response: "kept w (snd (decode_upgrade_response w))"
  by (auto simp: decode_upgrade_response_def on_upgrade_response_def Let_def keep split: option.splits prod.splits)

lemma kept_append: "append_received bs sz w = (ok, w1) \<Longrightarrow> kept w w1"
  by (auto simp: append_received_def keep split: prod.splits option.splits)

lemma kept_issue_upgrade [keep]: "kept w w1 \<Longrightarrow> kept w (issue_upgrade_request nonce headers w1)"
  by (auto simp: issue_upgrade_request_def Let_def xio_send_unchecked_def keep split: prod.splits option.splits rc.splits)

lemma kept_io_open_complete [keep]: "kept w w1 \<Longrightarrow> kept w (on_underlying_io_open_complete c r w1)"
  by (cases r; cases c; cases "uws_state w1") (auto simp: on_underlying_io_open_complete_def Let_def send_upgrade_request_def keep
      split: IO_OPEN_RESULT.splits prod.splits option.splits)

lemma kept_open_async: "kept w (snd (uws_client_open_async c oc fr pc er w))"
  by (auto simp: uws_client_open_async_def Let_def keep split: prod.splits option.splits rc.splits)

lemma kept_set_request_header: "kept w (snd (uws_client_set_request_header c k v w))"
  by (auto simp: uws_client_set_request_header_def keep split: prod.splits)

section \<open>What cancels them\<close>

text \<open>The contract of \<open>xio_send\<close> and \<open>xio_close\<close>: a call that is refused calls nothing back.\<close>

definition refused_calls_are_silent :: "uws_world \<Rightarrow> bool" where
  "refused_calls_are_silent w \<longleftrightarrow> refused_is_silent w \<and>
     (\<forall>i. fst (xio_close_answer w i) = Failure \<longrightarrow> \<not> snd (xio_close_answer w i))"

text \<open>The pending sends stay unless the client is closed.\<close>

definition retains :: "uws_world \<Rightarrow> uws_world \<Rightarrow> bool" where
  "retains w w' \<longleftrightarrow> xio_close_answer w' = xio_close_answer w \<and> xio_send_answer w' = xio_send_answer w \<and>
     (refused_calls_are_silent w \<longrightarrow> uws_state w' = UWS_STATE_CLOSED \<or> pending_sends w' = pending_sends w)"

named_theorems retain

lemma kept_retains: "kept w w' \<Longrightarrow> retains w w'"
  by (simp add: kept_def retains_def)

lemma kept_then_retains: "kept w w1 \<Longrightarrow> retains w1 w2 \<Longrightarrow> retains w w2"
  by (simp add: kept_def retains_def refused_calls_are_silent_def refused_is_silent_def)

lemma retains_update [retain]:
  "retains w w1 \<Longrightarrow> retains w (w1\<lparr>env_heap := h\<rparr>)"
  "retains w w1 \<Longrightarrow> retains w (emit e w1)"
  "retains w w1 \<Longrightarrow> retains w (invoke cb ev w1)"
  "retains w w1 \<Longrightarrow> retains w (w1\<lparr>uws_state := UWS_STATE_CLOSED\<rparr>)"
  "retains w w1 \<Longrightarrow> retains w (consume_stream_buffer_bytes n w1)"
  by (simp_all add: retains_def emit_def invoke_def consume_stream_buffer_bytes_def Let_def)

lemma clear_pending_sends_keeps:
  "xio_close_answer (clear_pending_sends w) = xio_close_answer w \<and> xio_send_answer (clear_pending_sends w) = xio_send_answer w \<and>
     uws_state (clear_pending_sends w) = uws_state w"
proof (induction w rule: clear_pending_sends.induct)
  case (1 w)
  have "xio_close_answer (snd (complete_send_frame p a r w)) = xio_close_answer w"
    "xio_send_answer (snd (complete_send_frame p a r w)) = xio_send_answer w"
    "uws_state (snd (complete_send_frame p a r w)) = uws_state w" for p a r
    by (auto simp: complete_send_frame_def emit_def Let_def split: prod.splits rc.splits option.splits)
  with 1 show ?case by (subst (1 2 3) clear_pending_sends.simps) (auto split: list.split)
qed

lemma retains_close_complete [retain]: "retains w w1 \<Longrightarrow> retains w (indicate_ws_close_complete w1)"
  by (simp add: retains_def indicate_ws_close_complete_def clear_pending_sends_keeps emit_def Let_def split: option.split)

lemma xio_close_retains:
  "retains w (snd (xio_close w))"
  "refused_calls_are_silent w \<Longrightarrow> fst (xio_close w) = Failure \<Longrightarrow> pending_sends (snd (xio_close w)) = pending_sends w"
proof -
  have "retains w (emit IoClose (w\<lparr>xio_calls := Suc (xio_calls w)\<rparr>))" by (intro kept_retains keep)
  then show "retains w (snd (xio_close w))"
    by (auto simp: xio_close_def on_underlying_io_close_complete_def Let_def retain split: prod.split)
  assume "refused_calls_are_silent w" and "fst (xio_close w) = Failure"
  then show "pending_sends (snd (xio_close w)) = pending_sends w"
    by (auto simp: xio_close_def refused_calls_are_silent_def emit_def Let_def split: prod.splits)
       (metis fst_conv snd_conv)
qed

lemma xio_close_from:
  assumes "kept w w1" and "xio_close w1 = (r, w2)"
  shows "retains w w2" "refused_calls_are_silent w \<Longrightarrow> r = Failure \<Longrightarrow> kept w w2"
proof -
  show r: "retains w w2" using kept_then_retains [OF assms(1) xio_close_retains(1)] assms(2) by simp
  assume "refused_calls_are_silent w" and "r = Failure"
  then show "kept w w2"
    using r xio_close_retains(2) [of w1] assms
    by (simp add: kept_def retains_def refused_calls_are_silent_def refused_is_silent_def)
qed

lemma retains_on_close_complete: "retains w (on_underlying_io_close_complete c w)"
  by (cases c) (simp_all add: on_underlying_io_close_complete_def retain kept_retains)

lemma retains_close_sent: "retains w (on_underlying_io_close_sent c r w)"
proof (cases "xio_close (w\<lparr>uws_state := UWS_STATE_CLOSING_UNDERLYING_IO\<rparr>)")
  case (Pair q w2)
  have "retains w w2" by (rule xio_close_from(1) [OF _ Pair]) (intro keep)
  then show ?thesis using Pair
    by (cases c; cases q) (auto simp: on_underlying_io_close_sent_def retain kept_retains)
qed

lemma retains_close_underlying_io: "retains w (close_underlying_io w)"
proof (cases "xio_close (w\<lparr>uws_state := UWS_STATE_CLOSING_UNDERLYING_IO\<rparr>)")
  case (Pair r w2)
  have "retains w w2" by (rule xio_close_from(1) [OF _ Pair]) (intro keep)
  then show ?thesis
    using Pair by (cases r) (simp_all add: close_underlying_io_def retains_def indicate_ws_error_def invoke_def emit_def Let_def)
qed

lemma retains_close_async: "retains w (snd (uws_client_close_async c cb w))"
proof (cases "xio_close (w\<lparr>on_ws_close_complete := cb, uws_state := UWS_STATE_CLOSING_UNDERLYING_IO\<rparr>)")
  case (Pair r w2)
  have k: "kept w (w\<lparr>on_ws_close_complete := cb, uws_state := UWS_STATE_CLOSING_UNDERLYING_IO\<rparr>)" by (intro keep)
  note x = xio_close_from [OF k Pair]
  show ?thesis
  proof (cases "r = Failure")
    case True
    let ?w = "indicate_ws_error WS_ERROR_CANNOT_CLOSE_UNDERLYING_IO w2"
    have "retains w ?w"
    proof (cases "refused_calls_are_silent w")
      case silent: True
      show ?thesis by (intro kept_retains keep x(2)) (use silent True in simp_all)
    qed (use x(1) in \<open>simp add: retains_def indicate_ws_error_def invoke_def emit_def Let_def\<close>)
    then show ?thesis using Pair True by (cases c) (auto simp: uws_client_close_async_def kept_retains)
  next
    case False
    then have "r = Success" by (cases r) simp_all
    then show ?thesis using Pair x(1) by (cases c) (auto simp: uws_client_close_async_def kept_retains)
  qed
qed

lemma retains_on_error: "retains w (on_underlying_io_error c w)"
  by (cases "uws_state w"; cases c)
    (simp_all add: on_underlying_io_error_def retains_close_complete kept_retains kept_reports)

section \<open>Receiving\<close>

lemma retains_close_response: "retains w (send_close_response w)"
proof -
  obtain frame h g where enc: "uws_frame_encoder_encode (ws_opcode WS_CLOSE_FRAME) None 0 True True 0
      (env_heap w) (env_rng w) = (frame, h, g)" by (metis prod_cases3)
  define w1 where "w1 = w\<lparr>uws_state := UWS_STATE_CLOSING_SENDING_CLOSE, env_heap := h, env_rng := g\<rparr>"
  have w1: "kept w w1" by (simp add: w1_def keep)
  show ?thesis
  proof (cases frame)
    case None
    then show ?thesis
      using enc kept_then_retains [OF w1 retains_close_underlying_io] by (simp add: send_close_response_def w1_def)
  next
    case (Some b)
    obtain r now where a: "xio_send_answer w1 (xio_calls w1) = (r, now)" by (metis surj_pair)
    define w2 where "w2 = emit (IoSend (buf_bytes b)) (w1\<lparr>xio_calls := Suc (xio_calls w1)\<rparr>)"
    have w2: "kept w w2" using w1 by (simp add: w2_def keep)
    define w3 where "w3 = (case now of None \<Rightarrow> w2 | Some q \<Rightarrow> on_underlying_io_close_sent CLIENT q w2)"
    have w3: "retains w w3" "now = None \<Longrightarrow> kept w w3"
      using w2 kept_then_retains [OF w2 retains_close_sent] by (auto simp: w3_def kept_retains split: option.split)
    have x: "xio_send_close (buf_bytes b) w1 = (r, w3)" using a by (simp add: xio_send_close_def w3_def w2_def Let_def)
    define w4 where "w4 = (case r of Success \<Rightarrow> w3 | Failure \<Rightarrow> close_underlying_io w3)"
    have "retains w w4"
    proof (cases "r = Failure")
      case True
      show ?thesis
      proof (cases "refused_calls_are_silent w")
        case silent: True
        then have "refused_is_silent w1" using w1 by (simp add: refused_calls_are_silent_def refused_is_silent_def kept_def)
        then have "now = None" using a True unfolding refused_is_silent_def by (metis fst_conv snd_conv)
        then show ?thesis using kept_then_retains [OF w3(2) retains_close_underlying_io] True by (simp add: w4_def)
      next
        case False
        then show ?thesis
          using w3(1) retains_close_underlying_io [of w3] True by (simp add: w4_def retains_def)
      qed
    next
      case False
      then show ?thesis using w3(1) by (cases r) (simp_all add: w4_def)
    qed
    moreover have "send_close_response w = w4\<lparr>env_heap := BUFFER_delete frame (env_heap w4)\<rparr>"
      using enc Some x by (cases r) (simp_all add: send_close_response_def w1_def [symmetric] w4_def Let_def)
    ultimately show ?thesis by (simp add: retain)
  qed
qed

lemma retains_close_frame: "retains w (on_close_frame f len needed w)"
proof (cases "xio_close (w\<lparr>uws_state := UWS_STATE_CLOSING_UNDERLYING_IO\<rparr>)")
  case (Pair r w2)
  have "retains w w2" by (rule xio_close_from(1) [OF _ Pair]) (intro keep)
  moreover have "retains w (indicate_ws_error WS_ERROR_BAD_FRAME_RECEIVED w)" by (intro kept_retains keep)
  ultimately show ?thesis
    using Pair by (cases r) (auto simp: on_close_frame_def Let_def intro!: retain retains_close_underlying_io retains_close_response)
qed

lemma retains_process_frame:
  "retains w (snd (process_frame opcode f len needed w))"
  "fst (process_frame opcode f len needed w) \<Longrightarrow> kept w (snd (process_frame opcode f len needed w))"
  by (auto simp: process_frame_def retains_close_frame intro!: kept_retains keep split: if_splits)

lemma retains_decode_frame:
  "retains w (snd (decode_frame w))" "fst (decode_frame w) \<Longrightarrow> kept w (snd (decode_frame w))"
proof -
  let ?w = "if stream w ! 1 AND 0x80 \<noteq> 0 then indicate_ws_error_and_close WS_ERROR_BAD_FRAME_RECEIVED 1002 w else w"
  have k: "kept w ?w" by (auto intro: keep)
  obtain needed len err where l: "frame_length ?w = (needed, len, err)" by (metis prod_cases3)
  define p where "p = process_frame (stream ?w ! 0 AND 0x0F) (stream ?w ! 0 AND 0x80 \<noteq> 0) len needed ?w"
  have run: "decode_frame w = (if stream_buffer_count w < 2 then (False, w)
      else if err then (False, indicate_ws_error WS_ERROR_BAD_FRAME_RECEIVED ?w)
      else if stream_buffer_count ?w \<ge> needed then (fst p, consume_stream_buffer_bytes needed (snd p)) else (False, ?w))"
    using l by (simp add: decode_frame_def Let_def p_def case_prod_unfold)
  have "retains w (snd p)" using kept_then_retains [OF k retains_process_frame(1)] by (simp add: p_def)
  moreover have "retains w (indicate_ws_error WS_ERROR_BAD_FRAME_RECEIVED ?w)" by (intro kept_retains kept_reports(4) k)
  ultimately show "retains w (snd (decode_frame w))"
    unfolding run using kept_retains [OF k] by (simp add: retain kept_retains)
  assume "fst (decode_frame w)"
  then have again: "fst p" "snd (decode_frame w) = consume_stream_buffer_bytes needed (snd p)"
    unfolding run by (auto split: if_split_asm)
  then have "kept w (snd p)" using kept_trans [OF k retains_process_frame(2)] by (simp add: p_def)
  then show "kept w (snd (decode_frame w))" unfolding again(2) by (intro keep)
qed

lemma retains_decode_step:
  "retains w (snd (decode_step w))" "fst (decode_step w) \<Longrightarrow> kept w (snd (decode_step w))"
  using retains_decode_frame kept_upgrade_response [of w]
  by (auto simp: decode_step_def intro!: kept_retains keep split: UWS_STATE.splits)

lemma retains_decode_loop: "retains w (decode_loop w)"
proof (induction w rule: decode_loop.induct)
  case (1 w)
  obtain again w1 where s: "decode_step w = (again, w1)" by (cases "decode_step w")
  show ?case
  proof (cases again)
    case True
    then have "kept w w1" using retains_decode_step(2) [of w] s by simp
    then show ?thesis using kept_then_retains "1.IH" [OF s [symmetric] refl True] s True by (subst decode_loop.simps) simp
  next
    case False
    then show ?thesis using retains_decode_step(1) [of w] s by (subst decode_loop.simps) simp
  qed
qed

lemma retains_bytes_received: "retains w (on_underlying_io_bytes_received c buffer sz w)"
proof -
  obtain ok w1 where a: "append_received (the buffer) sz w = (ok, w1)" by (metis surj_pair)
  note w1 = kept_append [OF a]
  let ?w2 = "w1\<lparr>stream_buffer := Some ((stream w1)[stream_buffer_count w1 := 0])\<rparr>"
  have "retains w (decode_loop w1)" by (rule kept_then_retains [OF w1 retains_decode_loop])
  moreover have "retains w (decode_loop ?w2)" by (rule kept_then_retains [OF _ retains_decode_loop]) (simp add: w1 keep)
  moreover have "retains w (indicate_ws_error e w1)" "retains w (indicate_ws_open_complete_error_and_close d w1)" for e d
    by (simp_all add: kept_retains keep w1)
  ultimately show ?thesis
    using a by (cases "uws_state w"; cases ok)
      (auto simp: on_underlying_io_bytes_received_def receive_in_open_def intro!: kept_retains keep)
qed

section \<open>Sending\<close>

text \<open>The handles of the pending sends after a send: the old ones, and the new one when the IO keeps the
  frame.\<close>

lemma handles_others: "handles (filter (\<lambda>q. fst q \<noteq> a) ps) = handles ps - {a}"
  by auto

lemma send_frame_handles:
  assumes "uws_client_send_frame_async c t buffer sz f cb w = (r, w')" and "pend_ok w"
    and ans: "xio_send_answer w (xio_calls w) = (result, now)"
  shows "handles (pending_sends w) \<subseteq> handles (pending_sends w')" "xio_close_answer w' = xio_close_answer w"
    "r = Success \<Longrightarrow> now = None \<Longrightarrow> pending_sends w' \<noteq> [] \<and> result = Success"
proof -
  have "handles (pending_sends w) \<subseteq> handles (pending_sends w') \<and> xio_close_answer w' = xio_close_answer w \<and>
    (r = Success \<longrightarrow> now = None \<longrightarrow> pending_sends w' \<noteq> [] \<and> result = Success)"
  proof (cases "c = NULL_HANDLE \<or> (buffer = None \<and> sz > 0) \<or> uws_state w \<noteq> UWS_STATE_OPEN")
    case True
    then have "r = Failure" "w' = w" using assms(1) by (auto simp: uws_client_send_frame_async_def split: if_splits)
    then show ?thesis by simp
  next
    case False
    obtain ok h where m: "malloc_struct (env_heap w) = (ok, h)" by (metis surj_pair)
    obtain frame h1 g1 where e: "uws_frame_encoder_encode (ucast t) buffer sz True f 0 h (env_rng w) = (frame, h1, g1)"
      by (metis prod_cases3)
    obtain item ps h2 where a: "pairs_add (pending_sends w) \<lparr>on_ws_send_frame_complete = cb\<rparr> h1 = (item, ps, h2)"
      by (metis prod_cases3)
    have h1: "heap_moves ((if ok then 1 else 0) + buf_blocks frame) (env_heap w) h1"
      using heap_moves_trans [OF _ encode_heap [OF e], of "if ok then 1 else 0"] m
      by (auto simp: malloc_struct_def heap_moves_def mem_defs)
    note added = add_pending [OF h1 a]
    show ?thesis
    proof (cases "ok \<and> frame \<noteq> None \<and> item \<noteq> None")
      case simple: False
      have "r = Failure \<and> pending_sends w' = pending_sends w \<and> xio_close_answer w' = xio_close_answer w"
        using assms(1) simple False m e a added
        by (cases ok; cases frame; cases item) (auto simp: uws_client_send_frame_async_def Let_def)
      then show ?thesis by simp
    next
      case True
      then obtain b i where bi: "frame = Some b" "item = Some i" ok by auto
      have i: "i \<notin> handles (pending_sends w)" "ps = pending_sends w @ [(i, \<lparr>on_ws_send_frame_complete = cb\<rparr>)]"
        using added bi assms(2) by auto
      define w1 where "w1 = w\<lparr>pending_sends := ps, env_heap := h2, env_rng := g1\<rparr>"
      have w1: "i \<in> handles (pending_sends w1)" "xio_send_answer w1 (xio_calls w1) = (result, now)" "pending_sends w1 = ps"
        "xio_close_answer w1 = xio_close_answer w"
        using i ans by (simp_all add: w1_def)
      obtain w2 where x: "xio_send_frame (buf_bytes b) i w1 = (result, w2)"
        using xio_send_frame_pending(1) [OF w1(1,2), of "buf_bytes b"] by (cases "xio_send_frame (buf_bytes b) i w1") simp
      note pend = xio_send_frame_pending(2,3) [OF w1(1,2), of "buf_bytes b", unfolded x snd_conv w1(3)]
      have same: "xio_close_answer w2 = xio_close_answer w"
        using calm_send_frame_step [OF calm_refl, of w1 "buf_bytes b" i] x w1(4) by (simp add: calm_def)
      have old: "handles (pending_sends w) \<subseteq> handles (filter (\<lambda>q. fst q \<noteq> i) (pending_sends w2))"
        using pend i by (cases now) (auto simp: handles_others)
      show ?thesis
      proof (cases result)
        case Success
        then have "r = Success" "pending_sends w' = pending_sends w2" "xio_close_answer w' = xio_close_answer w2"
          using assms(1) False m e a bi x by (auto simp: uws_client_send_frame_async_def Let_def w1_def)
        then show ?thesis using old pend(1) same i(2) Success by auto
      next
        case Failure
        have "r = Failure" "pending_sends w' = pending_sends w2 \<or> pending_sends w' = filter (\<lambda>q. fst q \<noteq> i) (pending_sends w2)"
          "xio_close_answer w' = xio_close_answer w2"
          using assms(1) False m e a bi x Failure
          by (auto simp: uws_client_send_frame_async_def Let_def w1_def pairs_remove_def split: if_splits prod.splits)
        moreover have "handles (pending_sends w) \<subseteq> handles (pending_sends w2)" using old by auto
        ultimately have "handles (pending_sends w) \<subseteq> handles (pending_sends w')" using old by metis
        then show ?thesis using \<open>r = Failure\<close> \<open>xio_close_answer w' = xio_close_answer w2\<close> same by simp
      qed
    qed
  qed
  then show "handles (pending_sends w) \<subseteq> handles (pending_sends w')" "xio_close_answer w' = xio_close_answer w"
    "r = Success \<Longrightarrow> now = None \<Longrightarrow> pending_sends w' \<noteq> [] \<and> result = Success" by blast+
qed

section \<open>The books of the underlying IO\<close>

text \<open>
  What the IO may do next, given the sends it holds: it completes only a send that it holds; all
  other calls are restricted as before. The books after a call: a send that the IO accepted without
  completing it at once is held, under the context the client has passed; a completed one is not;
  and once the client is closed the IO holds none, as its connection is gone.
\<close>

definition io_allows :: "nat set \<Rightarrow> uws_call \<Rightarrow> uws_world \<Rightarrow> bool" where
  "io_allows H c w = (case c of IoSendComplete item r \<Rightarrow> item \<in> H | _ \<Rightarrow> allowed c w)"

definition io_holds :: "uws_call \<Rightarrow> rc \<Rightarrow> uws_world \<Rightarrow> uws_world \<Rightarrow> nat set \<Rightarrow> nat set" where
  "io_holds c r w w' H =
     (if uws_state w' = UWS_STATE_CLOSED then {}
      else case c of
        IoSendComplete item q \<Rightarrow> H - {item}
      | SendFrameAsync t buffer sz f cb \<Rightarrow>
          (if r = Success \<and> snd (xio_send_answer w (xio_calls w)) = None then insert (fst (last (pending_sends w'))) H else H)
      | _ \<Rightarrow> H)"

inductive io_run :: "uws_world \<Rightarrow> (uws_call \<times> rc) list \<Rightarrow> nat set \<Rightarrow> uws_world \<Rightarrow> bool" for w0 where
  io_start: "io_run w0 [] {} w0"
| io_step: "io_run w0 cs H w \<Longrightarrow> io_allows H c w \<Longrightarrow> uws_step c w = (r, w') \<Longrightarrow>
    io_run w0 (cs @ [(c, r)]) (io_holds c r w w' H) w'"

definition untouched :: "uws_call \<Rightarrow> bool" where
  "untouched c = (case c of SendFrameAsync t b s f cb \<Rightarrow> False | IoSendComplete i q \<Rightarrow> False | _ \<Rightarrow> True)"

lemma retains_step:
  assumes "uws_step c w = (r, w')" and "untouched c"
  shows "retains w w'"
proof -
  have w': "w' = snd (uws_step c w)" using assms(1) by simp
  show ?thesis
    using assms(2) unfolding w'
    by (cases c) (simp_all add: retains_close_async retains_bytes_received retains_on_error retains_on_close_complete
        retains_close_sent untouched_def kept_retains kept_open_async kept_handshake kept_set_request_header kept_dowork kept_io_open_complete)
qed

lemma io_step_holds:
  assumes "uws_good w0 w" and "io_allows H c w" and "uws_step c w = (r, w')" and "H \<subseteq> handles (pending_sends w)"
    and "refused_calls_are_silent w"
  shows "io_holds c r w w' H \<subseteq> handles (pending_sends w')" "refused_calls_are_silent w'"
proof -
  have p: "pend_ok w" using assms(1) by (simp add: uws_good_def)
  have "io_holds c r w w' H \<subseteq> handles (pending_sends w') \<and> xio_close_answer w' = xio_close_answer w \<and>
    xio_send_answer w' = xio_send_answer w"
  proof (cases "untouched c")
    case True
    then have "retains w w'" "io_holds c r w w' H \<subseteq> (if uws_state w' = UWS_STATE_CLOSED then {} else H)"
      using retains_step [OF assms(3)] by (auto simp: io_holds_def untouched_def split: uws_call.splits)
    then show ?thesis using assms(4,5) by (auto simp: retains_def split: if_splits)
  next
    case False
    then consider (send) t b s f cb where "c = SendFrameAsync t b s f cb" | (complete) i q where "c = IoSendComplete i q"
      by (cases c) (simp_all add: untouched_def)
    then show ?thesis
    proof cases
      case send
      then have x: "uws_client_send_frame_async CLIENT t b s f cb w = (r, w')" using assms(3) by simp
      obtain res now where a: "xio_send_answer w (xio_calls w) = (res, now)" by (metis surj_pair)
      note h = send_frame_handles [OF x p a]
      have "pending_sends w' \<noteq> [] \<Longrightarrow> fst (last (pending_sends w')) \<in> handles (pending_sends w')" by simp
      moreover have "xio_send_answer w' = xio_send_answer w"
        using send_frame_outcome [OF x a] by (auto simp: send_outcome_def config_def)
      ultimately show ?thesis using h a assms(4) send by (auto simp: io_holds_def)
    next
      case complete
      then have i: "i \<in> handles (pending_sends w)" using assms(2,4) by (auto simp: io_allows_def)
      have w': "w' = on_underlying_io_send_complete (Some i) q w" using assms(3) complete by simp
      then obtain pd z where e: "w' = snd (complete_send_frame pd i z w)" using send_complete_eq [OF i] by metis
      have "io_holds c r w w' H \<subseteq> H - {i}" using complete by (auto simp: io_holds_def)
      moreover have "handles (pending_sends w') = handles (pending_sends w) - {i}"
        by (auto simp: e complete_send_frame_pending)
      moreover have "xio_close_answer w' = xio_close_answer w"
        using calm_complete_send_frame [OF calm_refl] by (simp add: e calm_def)
      moreover have "xio_send_answer w' = xio_send_answer w"
        using moves_send_complete [of w "Some i" q] i w' by (simp add: moves_def config_def)
      ultimately show ?thesis using assms(4) by auto
    qed
  qed
  then show "io_holds c r w w' H \<subseteq> handles (pending_sends w')" "refused_calls_are_silent w'"
    using assms(5) by (simp_all add: refused_calls_are_silent_def refused_is_silent_def)
qed

lemma io_run_holds:
  assumes "io_run w0 cs H w" and "fresh_client w0" and "refused_calls_are_silent w0"
  shows "uws_run w0 cs w \<and> H \<subseteq> handles (pending_sends w) \<and> refused_calls_are_silent w"
  using assms(1)
proof induction
  case io_start
  then show ?case using assms(3) run_start by simp
next
  case (io_step cs H w c r w')
  then have run: "uws_run w0 cs w" by simp
  note next' = io_step_holds [OF run_good [OF run assms(2)] io_step(2,3)]
  have "allowed c w" using io_step(2,4) by (cases c) (auto simp: io_allows_def)
  then show ?case using run_step [OF run _ io_step(3)] next' io_step(4) by blast
qed

lemma io_run_snoc: "io_run w0 cs H w \<Longrightarrow> io_allows H c w \<Longrightarrow> uws_step c w = (r, w') \<Longrightarrow>
    H' = io_holds c r w w' H \<Longrightarrow> io_run w0 (cs @ [(c, r)]) H' w'"
  by (simp add: io_step)

text \<open>The close that is refused after a CLOSE frame was sent: the client completes and frees the pending
  sends, although the IO still holds them; its completion then follows a freed node.\<close>

lemma refused_close_dangles:
  assumes "uws_state w = UWS_STATE_CLOSING_SENDING_CLOSE" and "xio_close_answer w (xio_calls w) = (Failure, False)"
  shows "pending_sends (on_underlying_io_close_sent CLIENT IO_SEND_OK w) = []"
    "Dangling \<in> set (events (on_underlying_io_send_complete (Some a) q (on_underlying_io_close_sent CLIENT IO_SEND_OK w)))"
proof -
  show p: "pending_sends (on_underlying_io_close_sent CLIENT IO_SEND_OK w) = []"
    using assms by (simp add: on_underlying_io_close_sent_def xio_close_def)
  show "Dangling \<in> set (events (on_underlying_io_send_complete (Some a) q (on_underlying_io_close_sent CLIENT IO_SEND_OK w)))"
    using p by (simp add: on_underlying_io_send_complete_def emit_def)
qed

text \<open>A run in which nothing pending is completed leaves some books behind.\<close>

lemma io_run_of_run:
  assumes "uws_run w0 cs w" and "\<forall>c \<in> fst ` set cs. \<forall>i q. c \<noteq> IoSendComplete i q"
  shows "\<exists>H. io_run w0 cs H w"
  using assms
proof induction
  case run_start
  then show ?case using io_start by blast
next
  case (run_step cs w c r w')
  then obtain H where "io_run w0 cs H w" by auto
  moreover have "io_allows H c w" using run_step(2,5) by (cases c) (auto simp: io_allows_def)
  ultimately show ?case using io_step run_step(3) by blast
qed

lemma demo_io_run:
  assumes "like_demo w0"
  shows "\<exists>cs H w. io_run w0 cs H w \<and> uws_run w0 cs w \<and> accepted 9 cs = 1 \<and> completed 9 (events w) = 1 \<and>
    uws_state w = UWS_STATE_OPEN \<and> construct_failures (events w) = 0"
proof -
  have fresh: "fresh_client w0" using assms by (simp add: like_demo_def)
  obtain w3 w4 a ps where w: "uws_run w0 demo_opening_calls w3" "uws_step demo_send w3 = (Success, w4)"
    "uws_state w4 = UWS_STATE_OPEN" "xio_send_answer w3 (xio_calls w3) = (Success, None)"
    "construct_failures (events w4) = 0" "completed 9 (events w4) = 0"
    "pending_sends w4 = ps @ [(a, \<lparr>on_ws_send_frame_complete = Some 9\<rparr>)]"
    using demo_opens [OF assms] by blast
  obtain H where h: "io_run w0 demo_opening_calls H w3"
    using io_run_of_run [OF w(1)] by (auto simp: demo_opening_calls_def)
  have run4: "io_run w0 (demo_opening_calls @ [(demo_send, Success)]) (insert a H) w4"
    by (rule io_run_snoc [OF h _ w(2)]) (use w(3,4,7) in \<open>simp_all add: io_allows_def io_holds_def\<close>)
  have run4': "uws_run w0 (demo_opening_calls @ [(demo_send, Success)]) w4" using run_step [OF w(1) _ w(2)] by simp
  have "pend_ok w4" using run_good [OF run4' fresh] by (simp add: uws_good_def)
  then have pd: "map_of (pending_sends w4) a = Some \<lparr>on_ws_send_frame_complete = Some 9\<rparr>"
    "a \<in> handles (pending_sends w4)"
    using w(7) by (auto simp: pend_ok_def map_add_def dest!: map_of_SomeD split: option.split)
      (metis fst_conv image_eqI)
  define w5 where "w5 = on_underlying_io_send_complete (Some a) IO_SEND_OK w4"
  let ?c5 = "IoSendComplete a IO_SEND_OK"
  let ?cs = "demo_opening_calls @ [(demo_send, Success)] @ [(?c5, Success)]"
  have step5: "uws_step ?c5 w4 = (Success, w5)" by (simp add: w5_def)
  have "io_run w0 ?cs (io_holds ?c5 Success w4 w5 (insert a H)) w5"
    using io_step [OF run4 _ step5] by (simp add: io_allows_def)
  moreover have run5: "uws_run w0 ?cs w5" using run_step [OF run4' _ step5] pd(2) by simp
  moreover have "accepted 9 ?cs = 1" by (simp add: accepted_def demo_opening_calls_def)
  moreover have "completed 9 (events w5) = 1 \<and> uws_state w5 = UWS_STATE_OPEN \<and> construct_failures (events w5) = 0"
    using w(3,5,6) w(7) pd
    by (simp add: w5_def on_underlying_io_send_complete_def complete_send_frame_def pairs_remove_def emit_def Let_def
        completed_def construct_failures_def)
  ultimately show ?thesis by blast
qed

section \<open>Properties\<close>

text \<open>C2: Whatever the user and the underlying IO do, in any order and with any allocation failures,
  a client that starts fresh never calls a null callback and never follows a freed list node, and
  every send that the IO holds is pending with the client. The handles of the pending sends stay
  distinct, the bytes in use stay inside the stream and fragment buffers (with room for the
  terminator that is stored behind the stream), the request headers stay a well-formed map, and the
  client is open only after it has reported a successful open. Of the IO it is assumed that a send
  or close that it refuses calls nothing back; that it completes only sends that it has accepted and
  not completed, none after the client is closed; and that it reports the result of an open, bytes
  and errors only after it has been opened. A pointer of the user comes with its size or its
  terminator.\<close>

theorem runs_are_safe:
  assumes "fresh_client w0" and "refused_calls_are_silent w0" and "io_run w0 cs H w"
  shows "NullCall \<notin> set (events w) \<and> Dangling \<notin> set (events w) \<and> H \<subseteq> handles (pending_sends w) \<and>
    distinct (map fst (pending_sends w)) \<and> buffers_ok w \<and> map_inv (request_headers w) \<and>
    (uws_state w = UWS_STATE_OPEN \<longrightarrow> (\<exists>n d. OpenComplete n d \<in> set (events w) \<and> ws_open_result d = WS_OPEN_OK))"
proof -
  have "uws_run w0 cs w" "H \<subseteq> handles (pending_sends w)" using io_run_holds [OF assms(3,1,2)] by simp_all
  then show ?thesis using run_is_safe [OF assms(1)] by blast
qed

theorem runs_are_safe_witness:
  "\<exists>cs H w. io_run demo_client cs H w \<and> uws_state w = UWS_STATE_OPEN \<and> completed 9 (events w) = 1 \<and>
     NullCall \<notin> set (events w) \<and> Dangling \<notin> set (events w) \<and> buffers_ok w"
proof -
  obtain cs H w where run: "io_run demo_client cs H w" "completed 9 (events w) = 1" "uws_state w = UWS_STATE_OPEN"
    using demo_io_run [OF demo_like] by blast
  have "refused_calls_are_silent demo_client"
    by (simp add: refused_calls_are_silent_def refused_is_silent_def demo_client_def)
  then show ?thesis using run runs_are_safe [OF demo_fresh _ run(1)] by blast
qed

text \<open>C4: A whole life loses no memory and no completion: whichever constructor made the client,
  after any run and the destruction the live blocks are those from before the creation, except
  two for each open that failed over its headers and one when an empty protocol array was passed;
  and every send that was accepted has been completed exactly once. Of the underlying IO it is
  assumed, as above, that a send or close that it refuses calls nothing back, and that it completes
  only sends that it holds.\<close>

theorem whole_life:
  assumes "create_args host res protos count" and "events w = []"
    and "uws_client_create tlsio socketio xio_create host port_number res ssl protos count ipv6 w = (CLIENT, w0) \<or>
      uws_client_create_with_io interface io_created host port_number res protos count w = (CLIENT, w0)"
    and "refused_calls_are_silent w0" and "io_run w0 cs H w1"
  shows "mem_live (env_heap w) + lost_array w0 \<le> mem_live (env_heap (uws_client_destroy CLIENT w1)) \<and>
    mem_live (env_heap (uws_client_destroy CLIENT w1)) \<le>
      mem_live (env_heap w) + lost_array w0 + 2 * int (construct_failures (events w1)) \<and>
    completed n (events (uws_client_destroy CLIENT w1)) = accepted n cs"
proof -
  have fresh: "fresh_client w0" by (rule life_result(1) [OF assms(1-3) run_start])
  have run: "uws_run w0 cs w1" using io_run_holds [OF assms(5) fresh assms(4)] by simp
  have "sends n w1 = accepted n cs"
    using run_sends [OF run fresh] assms(4) by (simp add: refused_calls_are_silent_def)
  then show ?thesis using life_result(2,3) [OF assms(1-3) run] by simp
qed

text \<open>A client that is made, opened and destroyed with a send that is still pending.\<close>

theorem whole_life_witness:
  "\<exists>w0 cs H w1. uws_client_create_with_io True True (Some (''host'' @ [NUL])) 80 (Some (''/r'' @ [NUL]))
      (Some [Some (''p'' @ [NUL])]) 1 demo_client = (CLIENT, w0) \<and> io_run w0 cs H w1 \<and> accepted 9 cs = 1 \<and>
    completed 9 (events w1) = 0 \<and> completed 9 (events (uws_client_destroy CLIENT w1)) = 1 \<and>
    mem_live (env_heap (uws_client_destroy CLIENT w1)) = mem_live (env_heap demo_client)"
proof -
  let ?host = "Some (''host'' @ [NUL])" and ?res = "Some (''/r'' @ [NUL])" and ?protos = "Some [Some (''p'' @ [NUL])]"
  have args: "create_args ?host ?res ?protos 1" by (simp add: create_args_def string_arg_def terminated_def)
  obtain w0 where w0: "uws_client_create_with_io True True ?host 80 ?res ?protos 1 demo_client = (CLIENT, w0)"
    "like_demo w0" "lost_array w0 = 0" "refused_calls_are_silent w0"
    using demo_created unfolding refused_calls_are_silent_def by blast
  obtain w3 w1 where w: "uws_run w0 demo_opening_calls w3" "uws_step demo_send w3 = (Success, w1)"
    "construct_failures (events w1) = 0" "completed 9 (events w1) = 0"
    using demo_opens [OF w0(2)] by metis
  let ?cs = "demo_opening_calls @ [(demo_send, Success)]"
  have "uws_run w0 ?cs w1" using run_step [OF w(1) _ w(2)] by simp
  moreover have "\<forall>c \<in> fst ` set ?cs. \<forall>i q. c \<noteq> IoSendComplete i q" by (auto simp: demo_opening_calls_def)
  ultimately obtain H where run: "io_run w0 ?cs H w1" using io_run_of_run by blast
  have acc: "accepted 9 ?cs = 1" by (simp add: accepted_def demo_opening_calls_def)
  have "events demo_client = []" by (simp add: demo_client_def)
  from whole_life [OF args this disjI2 [OF w0(1)] w0(4) run, of 9]
  have "mem_live (env_heap (uws_client_destroy CLIENT w1)) = mem_live (env_heap demo_client)"
    "completed 9 (events (uws_client_destroy CLIENT w1)) = 1"
    using w0(3) w(3) acc by simp_all
  with w0(1) run acc w(4) show ?thesis by blast
qed

end
