(* ===== verification/Wsio_Io.thy ===== *)
theory Wsio_Io
  imports Wsio_Runs Uws_Io
begin

text \<open>
  The side of the underlying IO in a run of the WebSocket IO: it completes only the sends that it
  has accepted itself, as in \<open>Uws_Io\<close>; and the properties of such runs.
\<close>

section \<open>What the callbacks leave of the client\<close>

definition same_client :: "uws_world \<Rightarrow> uws_world \<Rightarrow> bool" where
  "same_client u u' \<longleftrightarrow> (\<exists>h. u' = u\<lparr>env_heap := h\<rparr>)"

lemma same_client_refl [simp]: "same_client u u" "same_client u (u\<lparr>env_heap := h\<rparr>)"
  unfolding same_client_def by (intro exI [of _ "env_heap u"], simp) blast

lemma same_client_trans: "same_client u u1 \<Longrightarrow> same_client u1 u2 \<Longrightarrow> same_client u u2"
  by (auto simp: same_client_def)

lemma same_client_fields:
  "same_client u u' \<Longrightarrow> pending_sends u' = pending_sends u \<and> uws_state u' = uws_state u \<and>
     xio_send_answer u' = xio_send_answer u \<and> xio_close_answer u' = xio_close_answer u"
  by (auto simp: same_client_def)

lemma same_client_kept: "same_client u u' \<Longrightarrow> kept u u'"
  by (simp add: kept_def same_client_fields)

lemma retains_same: "retains u u1 \<Longrightarrow> same_client u1 u2 \<Longrightarrow> retains u u2"
  by (simp add: retains_def same_client_fields)

lemma same_item: "same_client (uws w) (uws (complete_send_item item r w))"
  by (auto simp: complete_send_item_def set_io_heap_def io_emit_def Let_def split: option.split prod.split)

lemma same_deliver: "same_client (uws w) (uws (deliver e w))"
  by (cases e) (auto simp: on_underlying_ws_open_complete_def on_underlying_ws_frame_received_def on_underlying_ws_peer_closed_def
      on_underlying_ws_error_def on_underlying_ws_close_complete_def on_underlying_ws_send_frame_complete_def same_item
      indicate_error_def indicate_open_complete_def io_invoke_def io_emit_def Let_def split: option.split IO_STATE.split)

lemma same_deliver_all: "same_client (uws w) (uws (deliver_all es w))"
proof (induction es arbitrary: w)
  case (Cons e es)
  then show ?case using same_client_trans [OF same_deliver [of w e], of "uws (fold deliver es (deliver e w))"]
    by (simp add: deliver_all_def)
qed (simp add: deliver_all_def)

lemma same_with_uws:
  assumes "with_uws f w = (r, w')"
  shows "\<exists>u'. f (uws w) = (r, u') \<and> same_client u' (uws w')"
proof -
  obtain q u' where f: "f (uws w) = (q, u')" by (metis surj_pair)
  then have "q = r" "w' = deliver_all (drop (length (events (uws w))) (events u')) (w\<lparr>uws := u'\<rparr>)"
    using assms by (simp_all add: with_uws_def)
  then show ?thesis using f same_deliver_all [of "w\<lparr>uws := u'\<rparr>"] by auto
qed

lemma same_cancel: "same_client (uws w) (uws (cancel_pending_loop w))"
proof (induction w rule: cancel_pending_loop.induct)
  case (1 w)
  show ?case
  proof (cases "pending_io_list w")
    case (Cons x xs)
    then show ?thesis using "1.IH" [OF Cons prod.collapse] same_client_trans [OF same_item]
      by (subst cancel_pending_loop.simps) (auto split: prod.split)
  qed (subst cancel_pending_loop.simps, simp)
qed

section \<open>The client under each call\<close>

lemma open_keeps:
  assumes "wsio_open c oc br er w = (r, w')"
  shows "kept (uws w) (uws w')"
proof (cases "c = NULL_HANDLE \<or> oc = None \<or> br = None \<or> er = None \<or> io_state w \<noteq> IO_STATE_NOT_OPEN")
  case True
  then show ?thesis using assms by (auto simp: wsio_open_def split: if_splits)
next
  case False
  let ?w = "w\<lparr>on_bytes_received := br, on_io_open_complete := oc, on_io_error := er, io_state := IO_STATE_OPENING\<rparr>"
  let ?f = "uws_client_open_async CLIENT wsio_callback wsio_callback wsio_callback wsio_callback"
  obtain q w1 where x: "with_uws ?f ?w = (q, w1)" by (metis surj_pair)
  then obtain u' where u: "?f (uws w) = (q, u')" "same_client u' (uws w1)" using same_with_uws [OF x] by auto
  have "kept (uws w) u'"
    using kept_open_async [of "uws w" CLIENT wsio_callback wsio_callback wsio_callback wsio_callback] u(1) by simp
  then have "kept (uws w) (uws w1)" by (rule kept_trans [OF _ same_client_kept [OF u(2)]])
  moreover have "uws w' = uws w1" using assms False x by (cases q) (auto simp: wsio_open_def)
  ultimately show ?thesis by simp
qed

lemma dowork_keeps: "kept (uws w) (uws (wsio_dowork c w))"
proof -
  obtain r w1 where x: "with_uws (\<lambda>u. ((), uws_client_dowork CLIENT u)) w = (r, w1)" by (metis surj_pair)
  have "kept (uws w) (uws w1)"
    using same_with_uws [OF x] kept_trans [OF kept_dowork same_client_kept] by auto
  then show ?thesis using x by (cases c) (simp_all add: wsio_dowork_def)
qed

lemma close_retains:
  assumes "internal_close cb w = (r, w')"
  shows "retains (uws w) (uws w')"
proof (cases "io_state w \<in> {IO_STATE_OPEN, IO_STATE_ERROR}")
  case False
  then have "uws w' = uws w"
    using assms by (cases "io_state w") (auto simp: internal_close_def indicate_open_complete_def io_invoke_def io_emit_def)
  then show ?thesis by (simp add: kept_retains)
next
  case True
  let ?w = "w\<lparr>io_state := IO_STATE_CLOSING, on_io_close_complete := cb\<rparr>"
  obtain q w1 where x: "with_uws (uws_client_close_async CLIENT wsio_callback) ?w = (q, w1)" by (metis surj_pair)
  then obtain u' where u: "uws_client_close_async CLIENT wsio_callback (uws w) = (q, u')" "same_client u' (uws w1)"
    using same_with_uws [OF x] by auto
  define w2 where "w2 = (case q of Success \<Rightarrow> w1 | Failure \<Rightarrow>
      (case on_io_close_complete w1 of None \<Rightarrow> w1 | Some n \<Rightarrow> io_emit (Io_Close_Complete n) w1))"
  have w2: "uws w2 = uws w1" by (simp add: w2_def io_emit_def split: rc.split option.split)
  have "uws w' = uws (cancel_pending_loop w2)"
    using assms True x by (cases "io_state w"; cases q) (auto simp: internal_close_def w2_def Let_def)
  then have "same_client u' (uws w')" using same_client_trans [OF u(2)] same_cancel [of w2] w2 by simp
  moreover have "retains (uws w) u'" using retains_close_async [of "uws w" CLIENT wsio_callback] u(1) by simp
  ultimately show ?thesis by (rule retains_same [rotated])
qed

lemma send_client:
  assumes step: "wsio_send c buffer sz cb w = (r, w')"
  shows "(r = Failure \<and> same_client (uws w) (uws w')) \<or>
    (\<exists>h item u'. mem_calls (io_heap w) \<le> mem_calls h \<and> same_client u' (uws w') \<and>
       uws_client_send_frame_async CLIENT WS_FRAME_TYPE_BINARY buffer sz True (Some item) ((uws w)\<lparr>env_heap := h\<rparr>) = (r, u'))"
proof (cases "c = NULL_HANDLE \<or> buffer = None \<or> sz = 0 \<or> io_state w \<noteq> IO_STATE_OPEN")
  case True
  then show ?thesis using step by (auto simp: wsio_send_def split: if_splits)
next
  case False
  obtain ok h where m: "malloc_struct (io_heap w) = (ok, h)" by (metis surj_pair)
  obtain new ps h1 where a: "pairs_add (pending_io_list w) \<lparr>on_send_complete = cb\<rparr> h = (new, ps, h1)" by (metis prod_cases3)
  have calls: "mem_calls (io_heap w) \<le> mem_calls h1"
    using m a by (auto simp: malloc_struct_def pairs_add_def after_request_def split: if_splits)
  show ?thesis
  proof (cases "ok \<and> new \<noteq> None")
    case fails: False
    then show ?thesis using step False m a
      by (cases ok) (auto simp: wsio_send_def set_io_heap_def Let_def)
  next
    case True
    then obtain item where i: "new = Some item" ok by auto
    let ?w = "set_io_heap h1 (w\<lparr>pending_io_list := ps\<rparr>)"
    let ?f = "uws_client_send_frame_async CLIENT WS_FRAME_TYPE_BINARY buffer sz True (Some item)"
    obtain q w1 where x: "with_uws ?f ?w = (q, w1)" by (metis surj_pair)
    then obtain u' where u: "?f ((uws w)\<lparr>env_heap := h1\<rparr>) = (q, u')" "same_client u' (uws w1)"
      using same_with_uws [OF x] by (auto simp: set_io_heap_def)
    obtain q2 ps2 h2 where rm: "pairs_remove (pending_io_list w1) item (io_heap w1) = (q2, ps2, h2)" by (metis prod_cases3)
    have "r = q \<and> same_client (uws w1) (uws w')"
      using step False m a i x rm
      by (cases q; cases "map_of (pending_io_list w1) item")
        (auto simp: wsio_send_def set_io_heap_def io_emit_def Let_def)
    then show ?thesis using u calls same_client_trans [OF u(2)] by blast
  qed
qed

section \<open>The books of the underlying IO\<close>

text \<open>The sends that the IO holds, as in \<open>io_holds\<close>; the calls of the client come from the steps of
  this IO.\<close>

definition wsio_io_allows :: "nat set \<Rightarrow> wsio_call \<Rightarrow> wsio_world \<Rightarrow> bool" where
  "wsio_io_allows H c w = (case c of
     Under k \<Rightarrow> under_call k \<and> io_allows H k (uws w) \<and> orderly k (uws w)
   | _ \<Rightarrow> wsio_allowed c w)"

definition wsio_io_holds :: "wsio_call \<Rightarrow> rc \<Rightarrow> wsio_world \<Rightarrow> wsio_world \<Rightarrow> nat set \<Rightarrow> nat set" where
  "wsio_io_holds c r w w' H =
     (if uws_state (uws w') = UWS_STATE_CLOSED then {}
      else case c of
        Under (IoSendComplete item q) \<Rightarrow> H - {item}
      | Wsio_Send buffer sz cb \<Rightarrow>
          (if r = Success \<and> snd (xio_send_answer (uws w) (xio_calls (uws w))) = None
           then insert (fst (last (pending_sends (uws w')))) H else H)
      | _ \<Rightarrow> H)"

inductive wsio_io_run :: "wsio_world \<Rightarrow> (wsio_call \<times> rc) list \<Rightarrow> nat set \<Rightarrow> wsio_world \<Rightarrow> bool" for w0 where
  wsio_io_start: "wsio_io_run w0 [] {} w0"
| wsio_io_step: "wsio_io_run w0 cs H w \<Longrightarrow> wsio_io_allows H c w \<Longrightarrow> wsio_step c w = (r, w') \<Longrightarrow>
    wsio_io_run w0 (cs @ [(c, r)]) (wsio_io_holds c r w w' H) w'"

lemma wsio_retained:
  assumes "retains (uws w) (uws w')" and "refused_calls_are_silent (uws w)" and "H \<subseteq> handles (pending_sends (uws w))"
    and "\<forall>buffer sz cb. c \<noteq> Wsio_Send buffer sz cb"
  shows "wsio_io_holds c r w w' H \<subseteq> handles (pending_sends (uws w'))"
proof -
  have "wsio_io_holds c r w w' H \<subseteq> (if uws_state (uws w') = UWS_STATE_CLOSED then {} else H)"
    using assms(4) by (auto simp: wsio_io_holds_def split: wsio_call.splits uws_call.splits if_splits)
  then show ?thesis using assms(1-3) by (auto simp: retains_def split: if_splits)
qed

lemma prompt_silent: "prompt_io u \<Longrightarrow> refused_calls_are_silent u"
  by (simp add: prompt_io_def closes_at_once_def refused_calls_are_silent_def)

lemma wsio_io_step_holds:
  assumes inv: "wsio_inv u0 m w" and "wsio_io_allows H c w" and step: "wsio_step c w = (r, w')"
    and sub: "H \<subseteq> handles (pending_sends (uws w))"
  shows "wsio_io_holds c r w w' H \<subseteq> handles (pending_sends (uws w'))"
proof (cases c)
  case (Wsio_Send b sz cb)
  have p: "pend_ok (uws w)" using inv by (simp add: wsio_inv_def books_ok_def uws_good_def)
  have "wsio_send CLIENT b sz cb w = (r, w')" using step Wsio_Send by simp
  from send_client [OF this] show ?thesis
  proof (elim disjE exE conjE)
    fix h item u'
    assume h: "mem_calls (io_heap w) \<le> mem_calls h" and u: "same_client u' (uws w')"
      and x: "uws_client_send_frame_async CLIENT WS_FRAME_TYPE_BINARY b sz True (Some item) ((uws w)\<lparr>env_heap := h\<rparr>) = (r, u')"
    have p1: "pend_ok ((uws w)\<lparr>env_heap := h\<rparr>)" using p h by (fastforce simp: pend_ok_def)
    obtain res now where a: "xio_send_answer ((uws w)\<lparr>env_heap := h\<rparr>) (xio_calls ((uws w)\<lparr>env_heap := h\<rparr>)) = (res, now)"
      by (metis surj_pair)
    note sent = send_frame_handles [OF x p1 a]
    have "fst (last (pending_sends u')) \<in> handles (pending_sends u')" if "pending_sends u' \<noteq> []" using that by simp
    then show ?thesis using sent(1,3) a sub Wsio_Send same_client_fields [OF u] by (auto simp: wsio_io_holds_def)
  next
    assume "r = Failure" and "same_client (uws w) (uws w')"
    then show ?thesis using sub Wsio_Send by (auto simp: wsio_io_holds_def same_client_fields)
  qed
next
  case (Under k)
  have k: "under_call k" "io_allows H k (uws w)" using assms(2) Under by (simp_all add: wsio_io_allows_def)
  have good: "uws_good (rebase u0 (item_blocks w)) (uws w)" using inv by (simp add: wsio_inv_def books_ok_def)
  have x: "with_uws (uws_step k) w = (r, w')" using step Under by simp
  obtain u' where u: "uws_step k (uws w) = (r, u')" "same_client u' (uws w')" using same_with_uws [OF x] by blast
  have "io_holds k r (uws w) u' H \<subseteq> handles (pending_sends u')"
    using io_step_holds(1) [OF good k(2) u(1) sub] inv prompt_silent by (simp add: wsio_inv_def)
  moreover have "wsio_io_holds c r w w' H = io_holds k r (uws w) u' H"
    using Under k(1) same_client_fields [OF u(2)] by (cases k) (simp_all add: wsio_io_holds_def io_holds_def)
  ultimately show ?thesis using same_client_fields [OF u(2)] by simp
qed (use wsio_retained [OF _ prompt_silent sub] inv step open_keeps close_retains [of _ w] dowork_keeps [of w CLIENT]
    in \<open>auto simp: wsio_inv_def wsio_close_def kept_retains\<close>)

lemma wsio_io_run_holds:
  assumes "wsio_io_run w0 cs H w" and "fresh_wsio w0" and "prompt_io (uws w0)"
  shows "wsio_run w0 cs w \<and> H \<subseteq> handles (pending_sends (uws w))"
  using assms(1)
proof induction
  case wsio_io_start
  then show ?case using wsio_begin by simp
next
  case (wsio_io_step cs H w c r w')
  have run: "wsio_run w0 cs w" and sub: "H \<subseteq> handles (pending_sends (uws w))" using wsio_io_step.IH by simp_all
  have inv: "wsio_inv (uws w0) (length (filter wsio_opens cs)) w" using wsio_run_inv [OF run assms(2,3)] by simp
  have "wsio_allowed c w"
  proof (cases c)
    case (Under k)
    then show ?thesis using wsio_io_step.hyps(2) sub by (cases k) (auto simp: wsio_io_allows_def io_allows_def)
  qed (use wsio_io_step.hyps(2) in \<open>simp_all add: wsio_io_allows_def\<close>)
  then show ?case
    using wsio_next [OF run _ wsio_io_step.hyps(3)] wsio_io_step_holds [OF inv wsio_io_step.hyps(2,3) sub] by simp
qed

section \<open>Properties\<close>

text \<open>C13: On every run of a new WebSocket IO, whose user opens, sends, closes and runs it in any order,
  no null callback is called and no item of its list is used after it was freed; every send that
  was accepted with a callback is completed exactly once or still in the list, which holds exactly
  the sends the client still has, those that the underlying IO holds among them; the opens that were
  reported never outnumber the opens that were accepted; and all memory but what the client and the
  items own is freed, up to the requests the client left undone when their construction failed. Any
  allocation may fail. Of the underlying IO it is assumed that it closes at once (the last section
  of the delivery theory shows what happens otherwise); that an open or a send that it refuses is
  not completed; that it completes an open while the open is under way, and a send only when it has
  accepted it, has not completed it and the client is not closed; and that the bytes it reports,
  once opened, are not empty.\<close>

theorem wsio_runs:
  assumes "fresh_wsio w0" and "prompt_io (uws w0)" and "wsio_io_run w0 cs H w"
  shows "io_sound w \<and>
    (\<forall>n. io_completed n (io_events w) + io_promised n (pending_io_list w) = length (filter (wsio_accepts n) cs)) \<and>
    (\<forall>n. promised n (pending_sends (uws w)) = of_bool (n \<in> handles (pending_io_list w))) \<and>
    H \<subseteq> handles (pending_sends (uws w)) \<and> io_opens w \<le> length (filter wsio_opens cs) \<and>
    0 \<le> wsio_balance w - wsio_balance w0 \<and> wsio_balance w - wsio_balance w0 \<le> 2 * int (construct_failures (events (uws w)))"
  using wsio_io_run_holds [OF assms(3,1,2)] wsio_run_result [OF assms(1,2)] by blast

text \<open>A run that opens, sends, and has the send completed by the underlying IO.\<close>

lemma demo_wsio_opened:
  "\<exists>H w. wsio_io_run demo_wsio [(Wsio_Open (Some 1) (Some 2) (Some 3), Success), (Under (IoOpenComplete (IO_OPEN_OK, 0)), Success),
      (Under demo_answer_call, Success)] H w \<and> io_state w = IO_STATE_OPEN \<and> pending_io_list w = [] \<and>
      io_events w = [Io_Open_Complete 1 IO_OPEN_OK (Code 0)] \<and> uws_state (uws w) = UWS_STATE_OPEN \<and>
      (\<forall>i. mem_ok (io_heap w) i) \<and> (\<forall>i. xio_send_answer (uws w) i = (Success, None))"
proof -
  have like: "like_demo (uws demo_wsio)"
    using demo_like by (simp add: demo_wsio_def like_demo_def fresh_client_def config_def demo_client_def)
  obtain u1 u2 u3 where u: "uws_step (demo_open_call 0 0 0 0) (uws demo_wsio) = (Success, u1)"
    "uws_state u1 = UWS_STATE_OPENING_UNDERLYING_IO" "events u1 = [IoOpen]"
    "uws_step (IoOpenComplete (IO_OPEN_OK, 0)) u1 = (Success, u2)" "uws_state u2 = UWS_STATE_WAITING_FOR_UPGRADE_RESPONSE"
    "events u2 = [IoOpen, IoSend (map byte_of_char demo_request)]" "uws_step demo_answer_call u2 = (Success, u3)"
    "uws_state u3 = UWS_STATE_OPEN" "events u3 = events u2 @ [OpenComplete 0 (open_detail WS_OPEN_OK (Code 0))]"
    "\<forall>i. mem_ok (env_heap u3) i" "\<forall>i. xio_send_answer u3 i = (Success, None)"
    using demo_chain [OF like, of 0 0 0 0] by metis
  have e0: "events (uws demo_wsio) = []" by (simp add: demo_wsio_def demo_client_def)
  let ?c1 = "Wsio_Open (Some 1) (Some 2) (Some 3)"
  define w1 where "w1 = demo_wsio\<lparr>on_bytes_received := Some 2, on_io_open_complete := Some 1, on_io_error := Some 3,
    io_state := IO_STATE_OPENING, uws := u1\<rparr>"
  define w2 where "w2 = w1\<lparr>uws := u2\<rparr>"
  define w3 where "w3 = w2\<lparr>uws := u3, io_state := IO_STATE_OPEN, io_events := [Io_Open_Complete 1 IO_OPEN_OK (Code 0)]\<rparr>"
  have s1: "wsio_step ?c1 demo_wsio = (Success, w1)"
    using u(1,3) e0
    by (simp add: wsio_open_def with_uws_def wsio_callback_def deliver_all_def w1_def demo_wsio_def)
  have s2: "wsio_step (Under (IoOpenComplete (IO_OPEN_OK, 0))) w1 = (Success, w2)"
    using u(3,4,6) by (simp add: with_uws_def deliver_all_def w2_def w1_def del: uws_step.simps)
  have s3: "wsio_step (Under demo_answer_call) w2 = (Success, w3)"
    using u(6,7,9)
    by (simp add: with_uws_def deliver_all_def w3_def w2_def w1_def on_underlying_ws_open_complete_def open_detail_def
        indicate_open_complete_def io_invoke_def io_emit_def demo_wsio_def del: uws_step.simps)
  have r1: "\<exists>H. wsio_io_run demo_wsio [(?c1, Success)] H w1"
    using wsio_io_step [OF wsio_io_start _ s1] by (auto simp: wsio_io_allows_def)
  then obtain H1 where r1: "wsio_io_run demo_wsio [(?c1, Success)] H1 w1" ..
  have "wsio_io_allows H1 (Under (IoOpenComplete (IO_OPEN_OK, 0))) w1"
    using u(2,3) by (simp add: wsio_io_allows_def io_allows_def w1_def)
  from wsio_io_step [OF r1 this s2] obtain H2 where
    r2: "wsio_io_run demo_wsio [(?c1, Success), (Under (IoOpenComplete (IO_OPEN_OK, 0)), Success)] H2 w2" by auto
  have "wsio_io_allows H2 (Under demo_answer_call) w2"
    using u(6) by (simp add: wsio_io_allows_def io_allows_def w2_def demo_response_def)
  from wsio_io_step [OF r2 this s3] obtain H3 where
    "wsio_io_run demo_wsio [(?c1, Success), (Under (IoOpenComplete (IO_OPEN_OK, 0)), Success), (Under demo_answer_call, Success)] H3 w3"
    by auto
  moreover have "io_state w3 = IO_STATE_OPEN" "pending_io_list w3 = []" "io_events w3 = [Io_Open_Complete 1 IO_OPEN_OK (Code 0)]"
    "uws w3 = u3" by (simp_all add: w3_def w2_def w1_def demo_wsio_def)
  ultimately show ?thesis using u(8,10,11) by (intro exI [of _ H3] exI [of _ w3]) simp
qed

lemma demo_wsio_sent:
  "\<exists>cs H w. wsio_io_run demo_wsio cs H w \<and> length (filter (wsio_accepts 7) cs) = 1 \<and>
     io_events w = [Io_Open_Complete 1 IO_OPEN_OK (Code 0), Io_Send_Complete 7 IO_SEND_OK] \<and> io_promised 7 (pending_io_list w) = 0"
proof -
  let ?cs = "[(Wsio_Open (Some 1) (Some 2) (Some 3), Success), (Under (IoOpenComplete (IO_OPEN_OK, 0)), Success),
      (Under demo_answer_call, Success)]"
  obtain H3 w3 where w3: "wsio_io_run demo_wsio ?cs H3 w3" "io_state w3 = IO_STATE_OPEN" "pending_io_list w3 = []"
    "io_events w3 = [Io_Open_Complete 1 IO_OPEN_OK (Code 0)]" "uws_state (uws w3) = UWS_STATE_OPEN"
    "\<forall>i. mem_ok (io_heap w3) i" "\<forall>i. xio_send_answer (uws w3) i = (Success, None)"
    using demo_wsio_opened by metis
  define item where "item = mem_calls (after_request 1 (io_heap w3))"
  define h2 where "h2 = after_request 1 (after_request 1 (io_heap w3))"
  let ?p = "\<lparr>on_send_complete = Some 7\<rparr>"
  define v where "v = set_io_heap h2 (w3\<lparr>pending_io_list := [(item, ?p)]\<rparr>)"
  have alloc: "malloc_struct (io_heap w3) = (True, after_request 1 (io_heap w3))"
    "pairs_add [] ?p (after_request 1 (io_heap w3)) = (Some item, [(item, ?p)], h2)"
    using w3(6) by (simp_all add: malloc_struct_def pairs_add_def granted_def after_request_def item_def h2_def)
  have "uws_state (uws v) = UWS_STATE_OPEN" "\<forall>i. mem_ok (env_heap (uws v)) i"
    "xio_send_answer (uws v) (xio_calls (uws v)) = (Success, None)"
    using w3(5-7) by (simp_all add: v_def set_io_heap_def h2_def after_request_def)
  moreover have "WS_FRAME_TYPE_BINARY \<le> 0x0F" "payload_ok (Some [0xCA, 0xFE]) 2" "2 + 14 < SIZE_MAX"
    by (simp_all add: payload_ok_def SIZE_MAX_def WS_FRAME_TYPE_BINARY_def)
  ultimately obtain a u4 es where u4: "uws_client_send_frame_async CLIENT WS_FRAME_TYPE_BINARY (Some [0xCA, 0xFE]) 2 True (Some item) (uws v)
      = (Success, u4)" "events u4 = events (uws v) @ [IoSend es]"
    "pending_sends u4 = pending_sends (uws v) @ [(a, \<lparr>on_ws_send_frame_complete = Some item\<rparr>)]" "uws_state u4 = UWS_STATE_OPEN"
    using send_frame_granted [of "uws v" WS_FRAME_TYPE_BINARY "Some [0xCA, 0xFE]" 2 True "Some item"] by metis
  define w4 where "w4 = v\<lparr>uws := u4\<rparr>"
  have x: "with_uws (uws_client_send_frame_async CLIENT WS_FRAME_TYPE_BINARY (Some [0xCA, 0xFE]) 2 True (Some item)) v = (Success, w4)"
    using u4(1,2) by (simp add: with_uws_def deliver_all_def w4_def)
  let ?send = "Wsio_Send (Some [0xCA, 0xFE]) 2 (Some 7)"
  have s4: "wsio_step ?send w3 = (Success, w4)"
    using w3(2,3) alloc x [unfolded v_def] by (simp add: wsio_send_def)
  have pd: "pending_sends (uws v) = pending_sends (uws w3)" by (simp add: v_def set_io_heap_def)
  have ok4: "wsio_io_allows H3 ?send w3" by (simp add: wsio_io_allows_def)
  note r4 = wsio_io_step [OF w3(1) ok4 s4]
  have held: "a \<in> wsio_io_holds ?send Success w3 w4 H3"
    using u4(3,4) w3(7) by (simp add: wsio_io_holds_def w4_def)
  have run4: "wsio_run demo_wsio (?cs @ [(?send, Success)]) w4"
    using wsio_io_run_holds [OF r4 demo_wsio_fresh] by simp
  have "wsio_inv (uws demo_wsio) (length (filter wsio_opens (?cs @ [(?send, Success)]))) w4"
    using wsio_run_inv [OF run4 demo_wsio_fresh] by simp
  then have "distinct (map fst (pending_sends u4))"
    by (simp add: wsio_inv_def books_ok_def uws_good_def pend_ok_def w4_def)
  then have fresh: "a \<notin> handles (pending_sends (uws w3))" using u4(3) pd by simp
  then have look: "map_of (pending_sends u4) a = Some \<lparr>on_ws_send_frame_complete = Some item\<rparr>"
    using u4(3) pd by (simp add: map_add_def map_of_eq_None_iff [THEN iffD2] del: map_of_eq_None_iff split: option.split)
  let ?done = "IoSendComplete a IO_SEND_OK"
  define u5 where "u5 = on_underlying_io_send_complete (Some a) IO_SEND_OK u4"
  have u5: "events u5 = events u4 @ [SendFrameComplete item WS_SEND_FRAME_OK]"
    using look u4(3) by (simp add: u5_def on_underlying_io_send_complete_def complete_send_frame_def pairs_remove_def emit_def Let_def)
  define w5 where "w5 = deliver_all [SendFrameComplete item WS_SEND_FRAME_OK] (w4\<lparr>uws := u5\<rparr>)"
  have s5: "wsio_step (Under ?done) w4 = (Success, w5)"
    using u5 by (simp add: with_uws_def w5_def u5_def [symmetric] w4_def)
  have ev5: "io_events w5 = io_events w4 @ [Io_Send_Complete 7 IO_SEND_OK]" "pending_io_list w5 = []"
    by (simp_all add: w5_def deliver_all_def on_underlying_ws_send_frame_complete_def complete_send_item_def w4_def v_def set_io_heap_def
        pairs_remove_def io_emit_def Let_def)
  have ok5: "wsio_io_allows (wsio_io_holds ?send Success w3 w4 H3) (Under ?done) w4"
    using held by (simp add: wsio_io_allows_def io_allows_def)
  note r5 = wsio_io_step [OF r4 ok5 s5]
  have acc: "length (filter (wsio_accepts 7) ((?cs @ [(?send, Success)]) @ [(Under ?done, Success)])) = 1" by simp
  have "io_events w4 = io_events w3" by (simp add: w4_def v_def set_io_heap_def)
  then have "io_events w5 = [Io_Open_Complete 1 IO_OPEN_OK (Code 0), Io_Send_Complete 7 IO_SEND_OK]" using ev5(1) w3(4) by simp
  moreover have "io_promised 7 (pending_io_list w5) = 0" by (simp add: ev5(2) io_promised_def)
  ultimately show ?thesis using r5 acc by blast
qed

theorem wsio_runs_witness:
  "\<exists>cs H w. wsio_io_run demo_wsio cs H w \<and> io_sound w \<and> length (filter (wsio_accepts 7) cs) = 1 \<and>
     io_completed 7 (io_events w) = 1 \<and> io_promised 7 (pending_io_list w) = 0"
proof -
  obtain cs H w where run: "wsio_io_run demo_wsio cs H w" "length (filter (wsio_accepts 7) cs) = 1" "io_promised 7 (pending_io_list w) = 0"
    using demo_wsio_sent by blast
  have "io_sound w \<and> io_completed 7 (io_events w) + io_promised 7 (pending_io_list w) = 1"
    using wsio_runs [OF demo_wsio_fresh run(1)] run(2) by metis
  then show ?thesis using run by auto
qed

end
