(* ===== verification/Sha_Spec.thy ===== *)
theory Sha_Spec
  imports Prelude
begin

text \<open>
  The secure hash standard (FIPS 180-2) on bit strings, as far as it is common to its
  algorithms: padding, blocks, the functions of section 4.1; then SHA-1 and the family of SHA-224,
  SHA-256, SHA-384 and SHA-512. It is the reference for \<open>src/sha1.c\<close>, \<open>src/sha224.c\<close> and
  \<open>src/sha384-512.c\<close>, whose contexts are fed bytes in pieces.
\<close>

section \<open>Bit strings\<close>

definition octet_bits :: "byte \<Rightarrow> bool list" where
  "octet_bits b = map (bit b) [7, 6, 5, 4, 3, 2, 1, 0]"

definition bits_of :: "byte list \<Rightarrow> bool list" where
  "bits_of bs = concat (map octet_bits bs)"

definition number_bits :: "nat \<Rightarrow> nat \<Rightarrow> bool list" where
  "number_bits k n = map (bit n) (rev [0..<k])"

definition word_of_bits :: "bool list \<Rightarrow> 'a::len word" where
  "word_of_bits bs = horner_sum of_bool 2 (rev bs)"

definition word_bits :: "'a::len word \<Rightarrow> bool list" where
  "word_bits w = map (bit w) (rev [0..<LENGTH('a)])"

definition bytes_of :: "bool list \<Rightarrow> byte list" where
  "bytes_of bs = map (\<lambda>i. word_of_bits (take 8 (drop (8 * i) bs))) [0..<length bs div 8]"

lemma length_octet_bits [simp]: "length (octet_bits b) = 8"
  by (simp add: octet_bits_def)

lemma bits_of_simps [simp]:
  "bits_of [] = []" "bits_of (b # bs) = octet_bits b @ bits_of bs" "bits_of (xs @ ys) = bits_of xs @ bits_of ys"
  by (simp_all add: bits_of_def)

lemma length_bits_of [simp]: "length (bits_of bs) = 8 * length bs"
  by (induction bs) simp_all

lemma take_bits_of: "take (8 * n) (bits_of bs) = bits_of (take n bs)"
proof (induction bs arbitrary: n)
  case (Cons b bs)
  then show ?case by (cases n) simp_all
qed simp

lemma drop_bits_of: "drop (8 * n) (bits_of bs) = bits_of (drop n bs)"
proof (induction bs arbitrary: n)
  case (Cons b bs)
  then show ?case by (cases n) simp_all
qed simp

lemma bit_word_of_bits: "bit (word_of_bits bs :: 'a::len word) n \<longleftrightarrow> n < LENGTH('a) \<and> n < length bs \<and> rev bs ! n"
  by (simp add: word_of_bits_def bit_horner_sum_bit_word_iff)

lemma word_of_byte_bits [simp]: "word_of_bits (octet_bits b) = b"
proof (rule bit_word_eqI)
  fix n
  assume "n < LENGTH(8)"
  then have "n \<in> {0, 1, 2, 3, 4, 5, 6, 7}" by auto
  then show "bit (word_of_bits (octet_bits b) :: byte) n = bit b n"
    by (auto simp: bit_word_of_bits octet_bits_def)
qed

lemma bytes_of_bits_of [simp]: "bytes_of (bits_of bs) = bs"
proof (rule nth_equalityI)
  show "length (bytes_of (bits_of bs)) = length bs" by (simp add: bytes_of_def)
next
  fix i
  assume "i < length (bytes_of (bits_of bs))"
  then have i: "i < length bs" by (simp add: bytes_of_def)
  have "take 8 (drop (8 * i) (bits_of bs)) = bits_of (take 1 (drop i bs))"
    using take_bits_of [of 1 "drop i bs"] by (simp add: drop_bits_of)
  also have "\<dots> = octet_bits (bs ! i)" using i by (simp add: take_Suc_conv_app_nth hd_drop_conv_nth take_Suc)
  finally show "bytes_of (bits_of bs) ! i = bs ! i" using i by (simp add: bytes_of_def)
qed

section \<open>Padding and blocks\<close>

text \<open>Section 5.1: a one, the smallest number of zeros that fills the last block, the length.\<close>

definition zeros_wanted :: "nat \<Rightarrow> nat \<Rightarrow> nat \<Rightarrow> nat" where
  "zeros_wanted bs ls n = (bs - (n + 1 + ls) mod bs) mod bs"

definition fips_padded :: "nat \<Rightarrow> nat \<Rightarrow> bool list \<Rightarrow> bool list" where
  "fips_padded bs ls M = M @ [True] @ replicate (zeros_wanted bs ls (length M)) False @ number_bits ls (length M)"

lemma fips_padded_blocks: "0 < bs \<Longrightarrow> length (fips_padded bs ls M) mod bs = 0"
proof -
  assume "0 < bs"
  define k where "k = length M + 1 + ls"
  have "(k + (bs - k mod bs) mod bs) mod bs = (k mod bs + (bs - k mod bs)) mod bs"
    by (metis mod_add_eq mod_mod_trivial)
  also have "\<dots> = 0" using \<open>0 < bs\<close> by (simp add: less_imp_le)
  finally show ?thesis by (simp add: fips_padded_def zeros_wanted_def number_bits_def k_def ac_simps)
qed

definition message_blocks :: "nat \<Rightarrow> 'a list \<Rightarrow> 'a list list" where
  "message_blocks n xs = map (\<lambda>i. take n (drop (i * n) xs)) [0..<length xs div n]"

definition block_words :: "bool list \<Rightarrow> 'a::len word list" where
  "block_words bs = map (\<lambda>t. word_of_bits (take LENGTH('a) (drop (t * LENGTH('a)) bs))) [0..<16]"

text \<open>Section 6: the hash values after all blocks, and as many of their bits as the digest has.\<close>

definition fips_hash :: "nat \<Rightarrow> nat \<Rightarrow> ('w::len word list \<Rightarrow> 'w word list \<Rightarrow> 'w word list) \<Rightarrow> 'w word list \<Rightarrow> nat \<Rightarrow> bool list \<Rightarrow> bool list"
  where
  "fips_hash bs ls compress H0 n M =
     take n (concat (map word_bits (fold (\<lambda>b. compress (block_words b)) (message_blocks bs (fips_padded bs ls M)) H0)))"

section \<open>The functions of section 4.1\<close>

definition Ch :: "'a::len word \<Rightarrow> 'a word \<Rightarrow> 'a word \<Rightarrow> 'a word" where
  "Ch x y z = (x AND y) XOR (NOT x AND z)"

definition Maj :: "'a::len word \<Rightarrow> 'a word \<Rightarrow> 'a word \<Rightarrow> 'a word" where
  "Maj x y z = (x AND y) XOR (x AND z) XOR (y AND z)"

definition Parity :: "'a::len word \<Rightarrow> 'a word \<Rightarrow> 'a word \<Rightarrow> 'a word" where
  "Parity x y z = x XOR y XOR z"

definition add_words :: "'a::len word list \<Rightarrow> 'a word list \<Rightarrow> 'a word list" where
  "add_words xs ys = map2 (+) xs ys"

section \<open>SHA-1\<close>

definition sha1_K :: "nat \<Rightarrow> 32 word" where
  "sha1_K t = (if t < 20 then 0x5A827999 else if t < 40 then 0x6ED9EBA1 else if t < 60 then 0x8F1BBCDC else 0xCA62C1D6)"

definition sha1_f :: "nat \<Rightarrow> 32 word \<Rightarrow> 32 word \<Rightarrow> 32 word \<Rightarrow> 32 word" where
  "sha1_f t = (if t < 20 then Ch else if t < 40 then Parity else if t < 60 then Maj else Parity)"

fun sha1_W :: "32 word list \<Rightarrow> nat \<Rightarrow> 32 word" where
  "sha1_W M t = (if t < 16 then M ! t
     else word_rotl 1 (sha1_W M (t - 3) XOR sha1_W M (t - 8) XOR sha1_W M (t - 14) XOR sha1_W M (t - 16)))"

declare sha1_W.simps [simp del]

type_synonym word5 = "32 word \<times> 32 word \<times> 32 word \<times> 32 word \<times> 32 word"

definition sha1_round :: "32 word list \<Rightarrow> nat \<Rightarrow> word5 \<Rightarrow> word5" where
  "sha1_round M t = (\<lambda>(a, b, c, d, e). (word_rotl 5 a + sha1_f t b c d + e + sha1_K t + sha1_W M t, a, word_rotl 30 b, c, d))"

definition sha1_compress :: "32 word list \<Rightarrow> 32 word list \<Rightarrow> 32 word list" where
  "sha1_compress M H =
     (let (a, b, c, d, e) = fold (sha1_round M) [0..<80] (H ! 0, H ! 1, H ! 2, H ! 3, H ! 4) in add_words H [a, b, c, d, e])"

section \<open>SHA-2\<close>

text \<open>The two sizes of words have their own rotations and constants.\<close>

record 'x sha2_functions =
  Sum0 :: "'x \<Rightarrow> 'x"
  Sum1 :: "'x \<Rightarrow> 'x"
  sigma0 :: "'x \<Rightarrow> 'x"
  sigma1 :: "'x \<Rightarrow> 'x"
  sha2_K :: "'x list"

fun sha2_W :: "'w::len word sha2_functions \<Rightarrow> 'w word list \<Rightarrow> nat \<Rightarrow> 'w word" where
  "sha2_W f M t = (if t < 16 then M ! t
     else sigma1 f (sha2_W f M (t - 2)) + sha2_W f M (t - 7) + sigma0 f (sha2_W f M (t - 15)) + sha2_W f M (t - 16))"

declare sha2_W.simps [simp del]

type_synonym 'w word8 = "'w word \<times> 'w word \<times> 'w word \<times> 'w word \<times> 'w word \<times> 'w word \<times> 'w word \<times> 'w word"

definition sha2_round :: "'w::len word sha2_functions \<Rightarrow> 'w word list \<Rightarrow> nat \<Rightarrow> 'w word8 \<Rightarrow> 'w word8" where
  "sha2_round s M t = (\<lambda>(a, b, c, d, e, f, g, h).
     (let T1 = h + Sum1 s e + Ch e f g + sha2_K s ! t + sha2_W s M t; T2 = Sum0 s a + Maj a b c in
      (T1 + T2, a, b, c, d + T1, e, f, g)))"

definition sha2_compress :: "'w::len word sha2_functions \<Rightarrow> 'w word list \<Rightarrow> 'w word list \<Rightarrow> 'w word list" where
  "sha2_compress s M H =
     (let (a, b, c, d, e, f, g, h) = fold (sha2_round s M) [0..<length (sha2_K s)]
        (H ! 0, H ! 1, H ! 2, H ! 3, H ! 4, H ! 5, H ! 6, H ! 7) in
      add_words H [a, b, c, d, e, f, g, h])"

definition sha256_functions :: "32 word sha2_functions" where
  "sha256_functions = \<lparr>
     Sum0 = (\<lambda>x. word_rotr 2 x XOR word_rotr 13 x XOR word_rotr 22 x),
     Sum1 = (\<lambda>x. word_rotr 6 x XOR word_rotr 11 x XOR word_rotr 25 x),
     sigma0 = (\<lambda>x. word_rotr 7 x XOR word_rotr 18 x XOR drop_bit 3 x),
     sigma1 = (\<lambda>x. word_rotr 17 x XOR word_rotr 19 x XOR drop_bit 10 x),
     sha2_K = [
     0x428A2F98, 0x71374491, 0xB5C0FBCF, 0xE9B5DBA5, 0x3956C25B, 0x59F111F1, 0x923F82A4, 0xAB1C5ED5,
     0xD807AA98, 0x12835B01, 0x243185BE, 0x550C7DC3, 0x72BE5D74, 0x80DEB1FE, 0x9BDC06A7, 0xC19BF174,
     0xE49B69C1, 0xEFBE4786, 0x0FC19DC6, 0x240CA1CC, 0x2DE92C6F, 0x4A7484AA, 0x5CB0A9DC, 0x76F988DA,
     0x983E5152, 0xA831C66D, 0xB00327C8, 0xBF597FC7, 0xC6E00BF3, 0xD5A79147, 0x06CA6351, 0x14292967,
     0x27B70A85, 0x2E1B2138, 0x4D2C6DFC, 0x53380D13, 0x650A7354, 0x766A0ABB, 0x81C2C92E, 0x92722C85,
     0xA2BFE8A1, 0xA81A664B, 0xC24B8B70, 0xC76C51A3, 0xD192E819, 0xD6990624, 0xF40E3585, 0x106AA070,
     0x19A4C116, 0x1E376C08, 0x2748774C, 0x34B0BCB5, 0x391C0CB3, 0x4ED8AA4A, 0x5B9CCA4F, 0x682E6FF3,
     0x748F82EE, 0x78A5636F, 0x84C87814, 0x8CC70208, 0x90BEFFFA, 0xA4506CEB, 0xBEF9A3F7, 0xC67178F2]\<rparr>"

definition sha512_functions :: "64 word sha2_functions" where
  "sha512_functions = \<lparr>
     Sum0 = (\<lambda>x. word_rotr 28 x XOR word_rotr 34 x XOR word_rotr 39 x),
     Sum1 = (\<lambda>x. word_rotr 14 x XOR word_rotr 18 x XOR word_rotr 41 x),
     sigma0 = (\<lambda>x. word_rotr 1 x XOR word_rotr 8 x XOR drop_bit 7 x),
     sigma1 = (\<lambda>x. word_rotr 19 x XOR word_rotr 61 x XOR drop_bit 6 x),
     sha2_K = [
     0x428A2F98D728AE22, 0x7137449123EF65CD, 0xB5C0FBCFEC4D3B2F, 0xE9B5DBA58189DBBC, 0x3956C25BF348B538,
     0x59F111F1B605D019, 0x923F82A4AF194F9B, 0xAB1C5ED5DA6D8118, 0xD807AA98A3030242, 0x12835B0145706FBE,
     0x243185BE4EE4B28C, 0x550C7DC3D5FFB4E2, 0x72BE5D74F27B896F, 0x80DEB1FE3B1696B1, 0x9BDC06A725C71235,
     0xC19BF174CF692694, 0xE49B69C19EF14AD2, 0xEFBE4786384F25E3, 0x0FC19DC68B8CD5B5, 0x240CA1CC77AC9C65,
     0x2DE92C6F592B0275, 0x4A7484AA6EA6E483, 0x5CB0A9DCBD41FBD4, 0x76F988DA831153B5, 0x983E5152EE66DFAB,
     0xA831C66D2DB43210, 0xB00327C898FB213F, 0xBF597FC7BEEF0EE4, 0xC6E00BF33DA88FC2, 0xD5A79147930AA725,
     0x06CA6351E003826F, 0x142929670A0E6E70, 0x27B70A8546D22FFC, 0x2E1B21385C26C926, 0x4D2C6DFC5AC42AED,
     0x53380D139D95B3DF, 0x650A73548BAF63DE, 0x766A0ABB3C77B2A8, 0x81C2C92E47EDAEE6, 0x92722C851482353B,
     0xA2BFE8A14CF10364, 0xA81A664BBC423001, 0xC24B8B70D0F89791, 0xC76C51A30654BE30, 0xD192E819D6EF5218,
     0xD69906245565A910, 0xF40E35855771202A, 0x106AA07032BBD1B8, 0x19A4C116B8D2D0C8, 0x1E376C085141AB53,
     0x2748774CDF8EEB99, 0x34B0BCB5E19B48A8, 0x391C0CB3C5C95A63, 0x4ED8AA4AE3418ACB, 0x5B9CCA4F7763E373,
     0x682E6FF3D6B2B8A3, 0x748F82EE5DEFB2FC, 0x78A5636F43172F60, 0x84C87814A1F0AB72, 0x8CC702081A6439EC,
     0x90BEFFFA23631E28, 0xA4506CEBDE82BDE9, 0xBEF9A3F7B2C67915, 0xC67178F2E372532B, 0xCA273ECEEA26619C,
     0xD186B8C721C0C207, 0xEADA7DD6CDE0EB1E, 0xF57D4F7FEE6ED178, 0x06F067AA72176FBA, 0x0A637DC5A2C898A6,
     0x113F9804BEF90DAE, 0x1B710B35131C471B, 0x28DB77F523047D84, 0x32CAAB7B40C72493, 0x3C9EBE0A15C9BEBC,
     0x431D67C49C100D4C, 0x4CC5D4BECB3E42B6, 0x597F299CFC657E2A, 0x5FCB6FAB3AD6FAEC, 0x6C44198C4A475817]\<rparr>"

section \<open>The algorithms\<close>

definition fips_sha1 :: "bool list \<Rightarrow> bool list" where
  "fips_sha1 = fips_hash 512 64 sha1_compress [0x67452301, 0xEFCDAB89, 0x98BADCFE, 0x10325476, 0xC3D2E1F0] 160"

definition fips_sha224 :: "bool list \<Rightarrow> bool list" where
  "fips_sha224 = fips_hash 512 64 (sha2_compress sha256_functions)
     [0xC1059ED8, 0x367CD507, 0x3070DD17, 0xF70E5939, 0xFFC00B31, 0x68581511, 0x64F98FA7, 0xBEFA4FA4] 224"

definition fips_sha256 :: "bool list \<Rightarrow> bool list" where
  "fips_sha256 = fips_hash 512 64 (sha2_compress sha256_functions)
     [0x6A09E667, 0xBB67AE85, 0x3C6EF372, 0xA54FF53A, 0x510E527F, 0x9B05688C, 0x1F83D9AB, 0x5BE0CD19] 256"

definition fips_sha384 :: "bool list \<Rightarrow> bool list" where
  "fips_sha384 = fips_hash 1024 128 (sha2_compress sha512_functions)
     [0xCBBB9D5DC1059ED8, 0x629A292A367CD507, 0x9159015A3070DD17, 0x152FECD8F70E5939, 0x67332667FFC00B31,
      0x8EB44A8768581511, 0xDB0C2E0D64F98FA7, 0x47B5481DBEFA4FA4] 384"

definition fips_sha512 :: "bool list \<Rightarrow> bool list" where
  "fips_sha512 = fips_hash 1024 128 (sha2_compress sha512_functions)
     [0x6A09E667F3BCC908, 0xBB67AE8584CAA73B, 0x3C6EF372FE94F82B, 0xA54FF53A5F1D36F1, 0x510E527FADE682D1,
      0x9B05688C2B3E6C1F, 0x1F83D9ABFB41BD6B, 0x5BE0CD19137E2179] 512"

end
