(* ===== verification/Sha_Stream.thy ===== *)
theory Sha_Stream
  imports Sha_Spec
begin

text \<open>
  What \<open>src/sha1.c\<close>, \<open>src/sha224.c\<close> and \<open>src/sha384-512.c\<close> have in common: the codes of \<open>sha.h\<close>, the
  macros of \<open>sha-private.h\<close>, and the locale of a context that is fed bytes in pieces, in which a
  digest is that of the standard.
\<close>

section \<open>Codes and macros\<close>

definition shaSuccess :: int where "shaSuccess = 0"
definition shaNull :: int where "shaNull = 1"
definition shaInputTooLong :: int where "shaInputTooLong = 2"
definition shaStateError :: int where "shaStateError = 3"
definition shaBadParam :: int where "shaBadParam = 4"

lemmas sha_codes = shaSuccess_def shaNull_def shaInputTooLong_def shaStateError_def shaBadParam_def

definition SHA_Ch :: "'a::len word \<Rightarrow> 'a word \<Rightarrow> 'a word \<Rightarrow> 'a word" where
  "SHA_Ch x y z = (x AND y) XOR (NOT x AND z)"

definition SHA_Maj :: "'a::len word \<Rightarrow> 'a word \<Rightarrow> 'a word \<Rightarrow> 'a word" where
  "SHA_Maj x y z = (x AND y) XOR (x AND z) XOR (y AND z)"

definition SHA_Parity :: "'a::len word \<Rightarrow> 'a word \<Rightarrow> 'a word \<Rightarrow> 'a word" where
  "SHA_Parity x y z = x XOR y XOR z"

lemma sha_macros: "SHA_Ch = Ch" "SHA_Maj = Maj" "SHA_Parity = Parity"
  by (simp_all add: fun_eq_iff SHA_Ch_def SHA_Maj_def SHA_Parity_def Ch_def Maj_def Parity_def)

text \<open>The forms under \<open>USE_MODIFIED_MACROS\<close> are equivalent, as their comment says.\<close>

definition SHA_Ch_modified :: "'a::len word \<Rightarrow> 'a word \<Rightarrow> 'a word \<Rightarrow> 'a word" where
  "SHA_Ch_modified x y z = (x AND (y XOR z)) XOR z"

definition SHA_Maj_modified :: "'a::len word \<Rightarrow> 'a word \<Rightarrow> 'a word \<Rightarrow> 'a word" where
  "SHA_Maj_modified x y z = (x AND (y OR z)) OR (y AND z)"

lemma modified_macros: "SHA_Ch_modified x y z = SHA_Ch x y z" "SHA_Maj_modified x y z = SHA_Maj x y z"
  by (rule bit_word_eqI; auto simp: SHA_Ch_modified_def SHA_Maj_modified_def SHA_Ch_def SHA_Maj_def bit_simps)+

text \<open>The loops that fill a block with zeros.\<close>

function store_zeros :: "nat \<Rightarrow> nat \<Rightarrow> byte list \<Rightarrow> nat \<times> byte list" where
  "store_zeros n i blk = (if i < n then store_zeros n (Suc i) (blk[i := 0]) else (i, blk))"
  by pat_completeness auto
termination
  by (relation "measure (\<lambda>(n, i, _). n - i)") auto

declare store_zeros.simps [simp del]

lemma store_zeros_result:
  assumes "n \<le> length blk" and "i \<le> n"
  shows "store_zeros n i blk = (n, take i blk @ replicate (n - i) 0 @ drop n blk)"
  using assms
proof (induction n i blk rule: store_zeros.induct)
  case (1 n i blk)
  show ?case
  proof (cases "i < n")
    case True
    then have "store_zeros n i blk = (n, take (Suc i) (blk[i := 0]) @ replicate (n - Suc i) 0 @ drop n (blk[i := 0]))"
      using 1 by (subst store_zeros.simps) simp
    also have "take (Suc i) (blk[i := 0]) = take i blk @ [0]" using True 1 by (simp add: take_Suc_conv_app_nth)
    finally show ?thesis using True by (simp flip: replicate_Suc add: Suc_diff_Suc)
  next
    case False
    then show ?thesis using 1 by (subst store_zeros.simps) simp
  qed
qed

text \<open>A loop that stores one cell after the other.\<close>

lemma fold_stores:
  assumes "n \<le> length d"
  shows "fold (\<lambda>i d. d[i := f i]) [0..<n] d = map f [0..<n] @ drop n d"
  using assms
proof (induction n)
  case (Suc n)
  then have "drop n d = d ! n # drop (Suc n) d" by (simp add: Cons_nth_drop_Suc)
  with Suc show ?case by (simp add: list_update_append)
qed simp

section \<open>Bits of bytes and words\<close>

lemma nth_bits_of: "n < 8 * length bs \<Longrightarrow> bits_of bs ! n = bit (bs ! (n div 8)) (7 - n mod 8)"
proof (induction bs arbitrary: n)
  case (Cons b bs)
  show ?case
  proof (cases "n < 8")
    case True
    then have "n \<in> {0, 1, 2, 3, 4, 5, 6, 7}" by auto
    then show ?thesis by (auto simp: octet_bits_def)
  next
    case False
    then have "n div 8 = Suc ((n - 8) div 8)" "n mod 8 = (n - 8) mod 8" by (simp_all add: div_if mod_if)
    then show ?thesis using Cons False by (simp add: nth_append)
  qed
qed simp

lemma length_word_bits [simp]: "length (word_bits (w :: 'a::len word)) = LENGTH('a)"
  by (simp add: word_bits_def)

lemma length_concat_word_bits [simp]: "length (concat (map word_bits (ws :: 'a::len word list))) = LENGTH('a) * length ws"
  by (induction ws) simp_all

lemma nth_word_bits:
  "n < LENGTH('a) * length ws \<Longrightarrow>
   concat (map word_bits (ws :: 'a::len word list)) ! n = bit (ws ! (n div LENGTH('a))) (LENGTH('a) - 1 - n mod LENGTH('a))"
proof (induction ws arbitrary: n)
  case (Cons w ws)
  show ?case
  proof (cases "n < LENGTH('a)")
    case True
    then show ?thesis by (simp add: nth_append word_bits_def rev_nth)
  next
    case False
    then have "n div LENGTH('a) = Suc ((n - LENGTH('a)) div LENGTH('a))" "n mod LENGTH('a) = (n - LENGTH('a)) mod LENGTH('a)"
      by (simp_all add: div_if mod_if)
    then show ?thesis using Cons False by (simp add: nth_append)
  qed
qed simp

text \<open>The bytes of the hash values, highest first.\<close>

definition hash_byte :: "'a::len word list \<Rightarrow> nat \<Rightarrow> byte" where
  "hash_byte H i = (let k = LENGTH('a) div 8 in ucast (drop_bit (8 * (k - 1 - i mod k)) (H ! (i div k))))"

lemma bits_of_hash:
  assumes "8 dvd LENGTH('a)" and "8 * n \<le> LENGTH('a) * length H"
  shows "bits_of (map (hash_byte (H :: 'a::len word list)) [0..<n]) = take (8 * n) (concat (map word_bits H))"
proof (rule nth_equalityI)
  show "length (bits_of (map (hash_byte H) [0..<n])) = length (take (8 * n) (concat (map word_bits H)))"
    using assms(2) by simp
next
  obtain k where k: "LENGTH('a) = 8 * k" using assms(1) by auto
  then have "0 < k" using len_gt_0 [where 'a = 'a] by simp
  fix i
  assume "i < length (bits_of (map (hash_byte H) [0..<n]))"
  then have i: "i < 8 * n" "i div 8 < n" by simp_all
  have m: "i mod (8 * k) = 8 * (i div 8 mod k) + i mod 8" by (rule mod_mult2_eq)
  have "i div 8 mod k < k" "i mod 8 < 8" using \<open>0 < k\<close> by simp_all
  then have pos: "8 * (k - 1 - i div 8 mod k) + (7 - i mod 8) = 8 * k - 1 - i mod (8 * k)" unfolding m by (simp add: diff_mult_distrib2)
  have seven: "7 - i mod 8 < 8" by arith
  have "bits_of (map (hash_byte H) [0..<n]) ! i = bit (H ! (i div 8 div k)) (8 * (k - 1 - i div 8 mod k) + (7 - i mod 8))"
    using i seven by (simp add: nth_bits_of hash_byte_def k Let_def bit_simps)
  also have "\<dots> = concat (map word_bits H) ! i"
    using i assms(2) k unfolding pos by (simp add: nth_word_bits div_mult2_eq)
  finally show "bits_of (map (hash_byte H) [0..<n]) ! i = take (8 * n) (concat (map word_bits H)) ! i" using i by simp
qed

text \<open>A number as bytes, highest first.\<close>

definition number_bytes :: "nat \<Rightarrow> nat \<Rightarrow> byte list" where
  "number_bytes k n = map (\<lambda>i. word_of_nat (drop_bit (8 * i) n)) (rev [0..<k])"

lemma length_number_bytes [simp]: "length (number_bytes k n) = k"
  by (simp add: number_bytes_def)

lemma bits_of_number: "bits_of (number_bytes k n) = number_bits (8 * k) n"
proof (rule nth_equalityI)
  show "length (bits_of (number_bytes k n)) = length (number_bits (8 * k) n)" by (simp add: number_bits_def)
next
  fix i
  assume "i < length (bits_of (number_bytes k n))"
  then have i: "i < 8 * k" "i div 8 < k" by simp_all
  have "8 * (k - Suc (i div 8)) + (7 - i mod 8) = 8 * k - Suc i"
    using i(2) by (simp add: diff_mult_distrib2)
  moreover have "7 - i mod 8 < 8" by arith
  ultimately show "bits_of (number_bytes k n) ! i = number_bits (8 * k) n ! i"
    using i by (simp add: nth_bits_of number_bytes_def rev_nth bit_simps number_bits_def)
qed

text \<open>A word read from bytes, highest first.\<close>

lemma bit_block_word:
  assumes "k * Suc t \<le> length blk" and "LENGTH('a) = 8 * k" and "n < 8 * k"
  shows "bit (word_of_bits (take LENGTH('a) (drop (t * LENGTH('a)) (bits_of blk))) :: 'a::len word) n =
    bit (blk ! (k * t + (k - 1 - n div 8))) (n mod 8)"
proof -
  define q r where "q = n div 8" and "r = n mod 8"
  have n: "n = 8 * q + r" "r < 8" "q < k" using assms(3) by (simp_all add: q_def r_def)
  have j: "8 * k - Suc n = 8 * (k - 1 - q) + (7 - r)" using n by (simp add: diff_mult_distrib2)
  have "7 - r < 8" using n(2) by simp
  then have d: "(8 * k - Suc n) div 8 = k - 1 - q" "(8 * k - Suc n) mod 8 = 7 - r" unfolding j by simp_all
  have pos: "t * LENGTH('a) + (8 * k - Suc n) = 8 * (k * t + (k - 1 - q)) + (7 - r)"
    unfolding j assms(2) by (simp add: algebra_simps)
  have len: "8 * k \<le> 8 * length blk - t * (8 * k)" using assms(1) by (simp add: algebra_simps)
  then have big: "length (bits_of blk) - t * LENGTH('a) \<ge> 8 * k" by (simp add: assms(2))
  have "t * LENGTH('a) + (8 * k - Suc n) < length (bits_of blk)" using big assms(3) by arith
  then have "8 * (k * t + (k - 1 - q)) + (7 - r) < 8 * length blk" unfolding pos by simp
  moreover define X z where "X = k * t + (k - 1 - q)" and "z = 7 - r"
  ultimately have "8 * X + z < 8 * length blk" by simp
  moreover have "z < 8" "7 - z = r" using n(2) by (simp_all add: z_def)
  ultimately have "bits_of blk ! (8 * X + z) = bit (blk ! X) r" by (simp add: nth_bits_of)
  then have b: "bits_of blk ! (t * LENGTH('a) + (8 * k - Suc n)) = bit (blk ! (k * t + (k - 1 - q))) r"
    unfolding pos by (simp only: X_def z_def)
  have "rev (take LENGTH('a) (drop (t * LENGTH('a)) (bits_of blk))) ! n = bits_of blk ! (t * LENGTH('a) + (8 * k - Suc n))"
    using big assms(3) by (simp add: rev_nth assms(2))
  then show ?thesis using big assms(3) unfolding b by (simp add: bit_word_of_bits assms(2) flip: q_def r_def)
qed

lemma below_all: "list_all P [0..<m] \<Longrightarrow> n < m \<Longrightarrow> P n"
  by (simp add: list_all_iff)

lemma byte_position_32:
  fixes n :: nat
  assumes "n < 32"
  shows "n div 8 = 0 \<and> n mod 8 = n - 0 \<and> 0 \<le> n \<and> n < 8 \<or>
    n div 8 = 1 \<and> n mod 8 = n - 8 \<and> 8 \<le> n \<and> n < 16 \<or>
    n div 8 = 2 \<and> n mod 8 = n - 16 \<and> 16 \<le> n \<and> n < 24 \<or>
    n div 8 = 3 \<and> n mod 8 = n - 24 \<and> 24 \<le> n \<and> n < 32"
proof -
  have all: "list_all (\<lambda>n :: nat. n div 8 = 0 \<and> n mod 8 = n - 0 \<and> 0 \<le> n \<and> n < 8 \<or>
    n div 8 = 1 \<and> n mod 8 = n - 8 \<and> 8 \<le> n \<and> n < 16 \<or>
    n div 8 = 2 \<and> n mod 8 = n - 16 \<and> 16 \<le> n \<and> n < 24 \<or>
    n div 8 = 3 \<and> n mod 8 = n - 24 \<and> 24 \<le> n \<and> n < 32) [0..<32]" by code_simp
  show ?thesis by (rule below_all [OF all assms])
qed

lemma byte_position_64:
  fixes n :: nat
  assumes "n < 64"
  shows "n div 8 = 0 \<and> n mod 8 = n - 0 \<and> 0 \<le> n \<and> n < 8 \<or>
    n div 8 = 1 \<and> n mod 8 = n - 8 \<and> 8 \<le> n \<and> n < 16 \<or>
    n div 8 = 2 \<and> n mod 8 = n - 16 \<and> 16 \<le> n \<and> n < 24 \<or>
    n div 8 = 3 \<and> n mod 8 = n - 24 \<and> 24 \<le> n \<and> n < 32 \<or>
    n div 8 = 4 \<and> n mod 8 = n - 32 \<and> 32 \<le> n \<and> n < 40 \<or>
    n div 8 = 5 \<and> n mod 8 = n - 40 \<and> 40 \<le> n \<and> n < 48 \<or>
    n div 8 = 6 \<and> n mod 8 = n - 48 \<and> 48 \<le> n \<and> n < 56 \<or>
    n div 8 = 7 \<and> n mod 8 = n - 56 \<and> 56 \<le> n \<and> n < 64"
proof -
  have all: "list_all (\<lambda>n :: nat. n div 8 = 0 \<and> n mod 8 = n - 0 \<and> 0 \<le> n \<and> n < 8 \<or>
    n div 8 = 1 \<and> n mod 8 = n - 8 \<and> 8 \<le> n \<and> n < 16 \<or>
    n div 8 = 2 \<and> n mod 8 = n - 16 \<and> 16 \<le> n \<and> n < 24 \<or>
    n div 8 = 3 \<and> n mod 8 = n - 24 \<and> 24 \<le> n \<and> n < 32 \<or>
    n div 8 = 4 \<and> n mod 8 = n - 32 \<and> 32 \<le> n \<and> n < 40 \<or>
    n div 8 = 5 \<and> n mod 8 = n - 40 \<and> 40 \<le> n \<and> n < 48 \<or>
    n div 8 = 6 \<and> n mod 8 = n - 48 \<and> 48 \<le> n \<and> n < 56 \<or>
    n div 8 = 7 \<and> n mod 8 = n - 56 \<and> 56 \<le> n \<and> n < 64) [0..<64]" by code_simp
  show ?thesis by (rule below_all [OF all assms])
qed

section \<open>Padding in bytes\<close>

lemma zeros_wanted_unique:
  assumes "z < bs" and "(n + 1 + ls + z) mod bs = 0"
  shows "zeros_wanted bs ls n = z"
proof -
  define k where "k = (n + 1 + ls) mod bs"
  have "(k + z) mod bs = 0" using assms(2) by (simp add: k_def mod_add_left_eq)
  moreover have "k < bs" using assms(1) by (simp add: k_def)
  ultimately have "k + z = 0 \<or> k + z = bs"
    using assms(1) by (auto simp: mod_if split: if_splits)
  then show ?thesis using assms(1) \<open>k < bs\<close> by (auto simp: zeros_wanted_def k_def)
qed

lemma zeros_wanted_bits:
  assumes "0 < bs" and "k < 8"
  shows "zeros_wanted (8 * bs) (8 * ls) (8 * n + k) = (7 - k) + 8 * zeros_wanted bs ls n"
proof (rule zeros_wanted_unique)
  define z where "z = zeros_wanted bs ls n"
  have z: "z < bs" using assms(1) by (simp add: z_def zeros_wanted_def)
  then show "7 - k + 8 * zeros_wanted bs ls n < 8 * bs" using assms(2) by (simp flip: z_def)
  have "(n + 1 + ls + z) mod bs = 0"
    using fips_padded_blocks [OF assms(1), of ls "replicate n True"]
    by (simp add: fips_padded_def number_bits_def z_def ac_simps)
  then obtain q where "n + 1 + ls + z = bs * q" by auto
  then have "8 * n + k + 1 + 8 * ls + (7 - k + 8 * z) = 8 * bs * q" using assms(2) by simp
  then show "(8 * n + k + 1 + 8 * ls + (7 - k + 8 * zeros_wanted bs ls n)) mod (8 * bs) = 0" by (simp flip: z_def)
qed

text \<open>\<open>p\<close> is the byte that ends a message whose last \<open>k\<close> bits are not a byte.\<close>

definition pads :: "byte \<Rightarrow> bool list \<Rightarrow> bool" where
  "pads p fin \<longleftrightarrow> length fin < 8 \<and> octet_bits p = fin @ True # replicate (7 - length fin) False"

definition padded_bytes :: "nat \<Rightarrow> nat \<Rightarrow> byte list \<Rightarrow> byte \<Rightarrow> nat \<Rightarrow> byte list" where
  "padded_bytes bs ls m p L = m @ [p] @ replicate (zeros_wanted bs ls (length m)) 0 @ number_bytes ls L"

lemma bits_of_zeros: "bits_of (replicate n 0) = replicate (8 * n) False"
proof (induction n)
  case (Suc n)
  have "octet_bits 0 = replicate 8 False" by (simp add: octet_bits_def numeral_eq_Suc)
  with Suc show ?case by (simp add: replicate_add)
qed simp

lemma padded_bytes_bits:
  assumes "pads p fin" and "0 < bs"
  shows "bits_of (padded_bytes bs ls m p (8 * length m + length fin)) = fips_padded (8 * bs) (8 * ls) (bits_of m @ fin)"
  using assms zeros_wanted_bits [OF assms(2), of "length fin" ls "length m"]
  by (simp add: replicate_add [symmetric] padded_bytes_def fips_padded_def pads_def bits_of_zeros bits_of_number)

lemma blocks_of_bits: "0 < n \<Longrightarrow> message_blocks (8 * n) (bits_of xs) = map bits_of (message_blocks n xs)"
proof -
  have "drop (i * (8 * n)) (bits_of xs) = bits_of (drop (i * n) xs)" for i
    using drop_bits_of [of "i * n" xs] by (simp add: ac_simps)
  then show ?thesis by (simp add: message_blocks_def take_bits_of)
qed

lemma blocks_of_single [simp]: "length xs = n \<Longrightarrow> 0 < n \<Longrightarrow> message_blocks n xs = [xs]"
  by (simp add: message_blocks_def)

lemma blocks_of_short [simp]: "length xs < n \<Longrightarrow> message_blocks n xs = []"
  by (simp add: message_blocks_def)

lemma blocks_of_append:
  assumes "length xs mod n = 0" and "0 < n"
  shows "message_blocks n (xs @ ys) = message_blocks n xs @ message_blocks n ys"
proof -
  obtain q where q: "length xs = n * q" using assms(1) by auto
  have shift: "map f [q..<q + r] = map (\<lambda>i. f (i + q)) [0..<r]" for f :: "nat \<Rightarrow> 'a list" and r
    using map_map [of f "\<lambda>i. i + q" "[0..<r]"] by (simp add: map_add_upt comp_def add.commute)
  have "message_blocks n (xs @ ys) = map (\<lambda>i. take n (drop (i * n) (xs @ ys))) [0..<q + length ys div n]"
    using assms(2) by (simp add: message_blocks_def q)
  also have "\<dots> = map (\<lambda>i. take n (drop (i * n) (xs @ ys))) [0..<q] @ map (\<lambda>i. take n (drop (i * n) (xs @ ys))) [q..<q + length ys div n]"
    by (simp only: upt_add_eq_append [of 0 q] map_append zero_le)
  also have "\<dots> = map (\<lambda>i. take n (drop (i * n) (xs @ ys))) [0..<q] @ map (\<lambda>i. take n (drop ((i + q) * n) (xs @ ys))) [0..<length ys div n]"
    by (simp only: shift)
  also have "map (\<lambda>i. take n (drop ((i + q) * n) (xs @ ys))) [0..<length ys div n] = message_blocks n ys"
  proof -
    have "drop ((i + q) * n) (xs @ ys) = drop (i * n) ys" for i using q by (simp add: algebra_simps)
    then show ?thesis by (simp add: message_blocks_def)
  qed
  also have "map (\<lambda>i. take n (drop (i * n) (xs @ ys))) [0..<q] = message_blocks n xs"
  proof -
    have "take n (drop (i * n) (xs @ ys)) = take n (drop (i * n) xs)" if "i < q" for i
    proof -
      have "n * Suc i \<le> n * q" using that by (intro mult_le_mono2) simp
      then show ?thesis using q by (simp add: algebra_simps)
    qed
    then show ?thesis using assms(2) by (simp add: message_blocks_def q)
  qed
  finally show ?thesis .
qed

section \<open>Rotations, lengths, schedules\<close>

lemma rotate_right: "0 < n \<Longrightarrow> n < LENGTH('a) \<Longrightarrow> drop_bit n w OR push_bit (LENGTH('a) - n) w = word_rotr n (w :: 'a::len word)"
  by (rule bit_word_eqI) (auto simp: bit_simps mod_if add.commute dest: bit_imp_le_length)

lemma rotate_left: "0 < n \<Longrightarrow> n < LENGTH('a) \<Longrightarrow> push_bit n w OR drop_bit (LENGTH('a) - n) w = word_rotl n (w :: 'a::len word)"
  using rotate_right [of "LENGTH('a) - n" w] by (simp add: word_rotl_eq_word_rotr or.commute)

text \<open>The length in bits, kept in two words.\<close>

definition pair_len :: "'a::len word \<Rightarrow> 'a word \<Rightarrow> nat" where
  "pair_len hi lo = unat hi * 2 ^ LENGTH('a) + unat lo"

lemma bit_pair_len: "bit (pair_len hi (lo :: 'a::len word)) n \<longleftrightarrow> (if n < LENGTH('a) then bit lo n else bit hi (n - LENGTH('a)))"
proof -
  have "int (pair_len hi lo) = concat_bit LENGTH('a) (uint lo) (uint hi)"
    by (simp add: pair_len_def concat_bit_eq push_bit_eq_mult take_bit_int_eq_self)
  then have "bit (pair_len hi lo) n = bit (concat_bit LENGTH('a) (uint lo) (uint hi)) n"
    by (metis bit_of_nat_iff_bit)
  then show ?thesis by (simp add: bit_concat_bit_iff bit_uint_iff) (use bit_imp_le_length [of hi "n - LENGTH('a)"] in auto)
qed

lemma pair_byte:
  "j + 8 \<le> LENGTH('a) \<Longrightarrow> word_of_nat (drop_bit j (pair_len hi (lo :: 'a::len word))) = (ucast (drop_bit j lo) :: byte)"
  "LENGTH('a) \<le> j \<Longrightarrow> word_of_nat (drop_bit j (pair_len hi (lo :: 'a::len word))) = (ucast (drop_bit (j - LENGTH('a)) hi) :: byte)"
  by (rule bit_word_eqI; auto simp: bit_simps bit_pair_len)+

lemma pair_add:
  fixes hi lo n :: "'a::len word"
  assumes "pair_len hi lo + unat n < 2 ^ (2 * LENGTH('a))"
  shows "pair_len (if lo + n < lo then hi + 1 else hi) (lo + n) = pair_len hi lo + unat n" and "lo + n < lo \<Longrightarrow> hi + 1 \<noteq> 0"
proof -
  let ?N = "2 ^ LENGTH('a) :: nat"
  have b: "unat lo < ?N" "unat n < ?N" "unat hi < ?N" by simp_all
  have s: "unat (lo + n) = (if unat lo + unat n < ?N then unat lo + unat n else unat lo + unat n - ?N)"
    using b by (simp add: unat_plus_if')
  have wrap: "lo + n < lo \<longleftrightarrow> ?N \<le> unat lo + unat n"
  proof (cases "unat lo + unat n < ?N")
    case True
    then show ?thesis using s by (simp add: word_less_nat_alt)
  next
    case False
    have "unat lo + unat n - ?N < unat lo" using b(2) False by linarith
    then show ?thesis using s False by (simp add: word_less_nat_alt)
  qed
  have top: "unat hi + 1 < ?N" if "lo + n < lo"
  proof (rule ccontr)
    assume "\<not> unat hi + 1 < ?N"
    then have "unat hi = ?N - 1" using b(3) by linarith
    then have "pair_len hi lo + unat n \<ge> (?N - 1) * ?N + ?N" using wrap that by (simp add: pair_len_def)
    also have "(?N - 1) * ?N + ?N = 2 ^ (2 * LENGTH('a))" by (simp add: mult_2 power_add diff_mult_distrib)
    finally show False using assms by simp
  qed
  then have "unat (hi + 1) = unat hi + 1" if "lo + n < lo"
    using that by (simp add: unat_plus_if' unat_1)
  then show "pair_len (if lo + n < lo then hi + 1 else hi) (lo + n) = pair_len hi lo + unat n"
    using s wrap by (auto simp: pair_len_def)
  show "lo + n < lo \<Longrightarrow> hi + 1 \<noteq> 0" using \<open>lo + n < lo \<Longrightarrow> unat (hi + 1) = unat hi + 1\<close> by (metis Suc_eq_plus1 nat.distinct(1) unat_0)
qed

lemma pair_add_32: "pair_len hi lo + unat n < 2 ^ 64 \<Longrightarrow>
    pair_len (if lo + n < lo then hi + 1 else hi) (lo + n) = pair_len hi lo + unat (n :: 32 word)"
  by (rule pair_add(1)) simp

lemma unat_ucast_64: "unat (ucast (n :: 32 word) :: 64 word) = unat n"
proof -
  have "unat n < 2 ^ 32" using unsigned_less [of n, where 'a = nat] by simp
  then show ?thesis by (simp add: unsigned_ucast_eq take_bit_nat_eq_self)
qed

lemma pair_add_64: "pair_len hi (lo :: 64 word) + unat n < 2 ^ 128 \<Longrightarrow>
    pair_len (if lo + ucast n < lo then hi + 1 else hi) (lo + ucast n) = pair_len hi lo + unat (n :: 32 word)"
  using pair_add(1) [of hi lo "ucast n"] by (simp add: unat_ucast_64)

text \<open>The eight bytes of the length at the end of a block.\<close>

lemma drop_stores:
  assumes "length b = n + length xs"
  shows "fst (fold (\<lambda>x (b, i). (b[i := x], Suc i)) xs (b, n)) = take n b @ xs"
  using assms
proof (induction xs arbitrary: b n)
  case (Cons x xs)
  have "fst (fold (\<lambda>x (b, i). (b[i := x], Suc i)) xs (b[n := x], Suc n)) = take (Suc n) (b[n := x]) @ xs"
    by (rule Cons.IH) (use Cons.prems in simp)
  moreover have "take (Suc n) (b[n := x]) = take n b @ [x]" using Cons.prems by (simp add: take_Suc_conv_app_nth)
  ultimately show ?case by simp
qed simp

lemma pair_bytes_32: "number_bytes 8 (pair_len hi (lo :: 32 word)) =
    [ucast (drop_bit 24 hi), ucast (drop_bit 16 hi), ucast (drop_bit 8 hi), ucast hi,
     ucast (drop_bit 24 lo), ucast (drop_bit 16 lo), ucast (drop_bit 8 lo), ucast lo]"
  using pair_byte(1) [of 0 hi lo] by (simp add: number_bytes_def upt_rec pair_byte)

lemma pair_bytes_64: "number_bytes 16 (pair_len hi (lo :: 64 word)) =
    [ucast (drop_bit 56 hi), ucast (drop_bit 48 hi), ucast (drop_bit 40 hi), ucast (drop_bit 32 hi),
     ucast (drop_bit 24 hi), ucast (drop_bit 16 hi), ucast (drop_bit 8 hi), ucast hi,
     ucast (drop_bit 56 lo), ucast (drop_bit 48 lo), ucast (drop_bit 40 lo), ucast (drop_bit 32 lo),
     ucast (drop_bit 24 lo), ucast (drop_bit 16 lo), ucast (drop_bit 8 lo), ucast lo]"
  using pair_byte(1) [of 0 hi lo] by (simp add: number_bytes_def upt_rec pair_byte)

lemma take_pad: "i < n \<Longrightarrow> take (n - i) (p # replicate (n - Suc i) z @ zs) = p # replicate (n - Suc i) z"
  by (cases "n - i") (auto simp: Suc_diff_Suc)

lemma byte_mask_ff [simp]: "x AND 0xFF = (x :: byte)"
proof -
  have "(0xFF :: byte) = - 1" by simp
  then show ?thesis by (simp only: and.right_neutral)
qed

text \<open>A schedule is filled from the words before.\<close>

lemma schedule_fill:
  assumes "\<And>t. m \<le> t \<Longrightarrow> g (map W [0..<t]) t = W t" and "m \<le> n"
  shows "fold (\<lambda>t ws. ws @ [g ws t]) [m..<n] (map W [0..<m]) = map W [0..<n]"
  using assms(2)
proof (induction n rule: dec_induct)
  case (step n)
  then show ?case by (simp add: assms(1))
qed simp

section \<open>A context that is fed bytes\<close>

text \<open>
  The laws of one iteration of the input loop and of the final padding, over the observations of
  a context: the index, the block, the length so far in bits, the hash values, the flags.
\<close>

locale hash_stream =
  fixes bs ls hw :: nat
    and compress :: "'w::len word list \<Rightarrow> 'w word list \<Rightarrow> 'w word list"
    and idx :: "'c \<Rightarrow> nat" and blk :: "'c \<Rightarrow> byte list" and bitlen :: "'c \<Rightarrow> nat" and val :: "'c \<Rightarrow> 'w word list"
    and closed :: "'c \<Rightarrow> bool" and corr :: "'c \<Rightarrow> int"
    and put :: "byte \<Rightarrow> 'c \<Rightarrow> 'c" and feed :: "byte list \<Rightarrow> 'c \<Rightarrow> 'c" and finish :: "byte \<Rightarrow> 'c \<Rightarrow> 'c"
    and add_len :: "'c \<Rightarrow> 32 word \<Rightarrow> 'c"
  assumes sizes: "ls < bs"
    and words: "8 dvd LENGTH('w)"
    and compress_length: "length H = hw \<Longrightarrow> length (compress M H) = hw"
    and put_law: "length (blk c) = bs \<Longrightarrow> idx c < bs \<Longrightarrow> length (val c) = hw \<Longrightarrow> bitlen c + 8 < 2 ^ (8 * ls) \<Longrightarrow>
      blk (put x c) = (blk c)[idx c := x] \<and> bitlen (put x c) = bitlen c + 8 \<and> closed (put x c) = closed c \<and> corr (put x c) = 0 \<and>
      idx (put x c) = (if Suc (idx c) = bs then 0 else Suc (idx c)) \<and>
      val (put x c) = (if Suc (idx c) = bs then compress (block_words (bits_of ((blk c)[idx c := x]))) (val c) else val c)"
    and feed_Nil: "feed [] c = c"
    and feed_Cons: "feed (x # xs) c = (if corr c \<noteq> 0 then c else feed xs (put x c))"
    and add_law: "bitlen c + unat n < 2 ^ (8 * ls) \<Longrightarrow>
      blk (add_len c n) = blk c \<and> bitlen (add_len c n) = bitlen c + unat n \<and> closed (add_len c n) = closed c \<and>
      corr (add_len c n) = 0 \<and> idx (add_len c n) = idx c \<and> val (add_len c n) = val c"
    and finish_law: "length (blk c) = bs \<Longrightarrow> idx c < bs \<Longrightarrow> length (val c) = hw \<Longrightarrow>
      closed (finish p c) \<and> corr (finish p c) = corr c \<and> length (blk (finish p c)) = bs \<and>
      val (finish p c) =
        (let b = take (idx c) (blk c) @ [p]; L = number_bytes ls (bitlen c) in
         if idx c \<ge> bs - ls then
           compress (block_words (bits_of (replicate (bs - ls) 0 @ L)))
             (compress (block_words (bits_of (b @ replicate (bs - Suc (idx c)) 0))) (val c))
         else compress (block_words (bits_of (b @ replicate (bs - ls - Suc (idx c)) 0 @ L))) (val c))"
begin

definition over_blocks :: "'w word list \<Rightarrow> byte list \<Rightarrow> 'w word list" where
  "over_blocks h0 xs = fold (\<lambda>b. compress (block_words (bits_of b))) (message_blocks bs xs) h0"

text \<open>The context after the bytes \<open>m\<close>, with the length \<open>L\<close>.\<close>

definition holds :: "'w word list \<Rightarrow> byte list \<Rightarrow> nat \<Rightarrow> 'c \<Rightarrow> bool" where
  "holds h0 m L c \<longleftrightarrow> \<not> closed c \<and> corr c = 0 \<and> length (blk c) = bs \<and> idx c = length m mod bs \<and>
     take (idx c) (blk c) = drop (length m - length m mod bs) m \<and> bitlen c = L \<and> val c = over_blocks h0 m \<and> length (val c) = hw"

lemma block_size: "0 < bs"
  using sizes by simp

lemma holdsD:
  assumes "holds h0 m L c"
  shows "\<not> closed c" "corr c = 0" "length (blk c) = bs" "idx c = length m mod bs" "idx c < bs"
    "take (idx c) (blk c) = drop (length m - length m mod bs) m" "bitlen c = L" "val c = over_blocks h0 m" "length (val c) = hw"
proof -
  note h = assms [unfolded holds_def]
  show "\<not> closed c" "corr c = 0" "length (blk c) = bs" "idx c = length m mod bs"
    "take (idx c) (blk c) = drop (length m - length m mod bs) m" "bitlen c = L" "val c = over_blocks h0 m" "length (val c) = hw"
    by (rule h [THEN conjunct1] h [THEN conjunct2, THEN conjunct1] h [THEN conjunct2, THEN conjunct2, THEN conjunct1]
        h [THEN conjunct2, THEN conjunct2, THEN conjunct2, THEN conjunct1]
        h [THEN conjunct2, THEN conjunct2, THEN conjunct2, THEN conjunct2, THEN conjunct1]
        h [THEN conjunct2, THEN conjunct2, THEN conjunct2, THEN conjunct2, THEN conjunct2, THEN conjunct1]
        h [THEN conjunct2, THEN conjunct2, THEN conjunct2, THEN conjunct2, THEN conjunct2, THEN conjunct2, THEN conjunct1]
        h [THEN conjunct2, THEN conjunct2, THEN conjunct2, THEN conjunct2, THEN conjunct2, THEN conjunct2, THEN conjunct2])+
  then show "idx c < bs" using block_size by simp
qed

lemma over_blocks_split:
  "over_blocks h0 (m @ xs) = over_blocks (over_blocks h0 m) (drop (length m - length m mod bs) m @ xs)"
proof -
  define k where "k = length m - length m mod bs"
  have m: "take k m @ drop k m @ xs = m @ xs" by (metis append.assoc append_take_drop_id)
  have l: "length (take k m) = k" "k mod bs = 0" by (simp_all add: k_def minus_mod_eq_mult_div)
  have r: "length (drop k m) < bs" using block_size by (simp add: k_def)
  have a: "message_blocks bs (take k m @ ys) = message_blocks bs (take k m) @ message_blocks bs ys" for ys
    using blocks_of_append [of "take k m" bs ys] l block_size by simp
  have "message_blocks bs (m @ xs) = message_blocks bs (take k m) @ message_blocks bs (drop k m @ xs)"
    using a [of "drop k m @ xs"] unfolding m .
  moreover have "message_blocks bs m = message_blocks bs (take k m)" using a [of "drop k m"] r by simp
  ultimately show ?thesis by (simp add: over_blocks_def k_def)
qed

lemma put_holds:
  assumes h: "holds h0 m L c" and "L + 8 < 2 ^ (8 * ls)"
  shows "holds h0 (m @ [x]) (L + 8) (put x c)"
proof -
  define r where "r = drop (length m - length m mod bs) m"
  note d = holdsD [OF h]
  note i = d(5,4)
  note p = d(3,9,7) d(6) [folded r_def] d(8,1)
  have lr: "length r = idx c" using i by (simp add: r_def)
  note law = put_law [OF p(1) i(1) p(2), of x, unfolded p(3), OF assms(2)]
  have t: "take (Suc (idx c)) ((blk c)[idx c := x]) = r @ [x]"
    using take_Suc_conv_app_nth [of "idx c" "(blk c)[idx c := x]"] i(1) p(1,4) by simp
  have o: "over_blocks h0 (m @ [x]) = over_blocks (val c) (r @ [x])"
    using over_blocks_split [of h0 m "[x]"] by (simp only: r_def p(5))
  show ?thesis
  proof (cases "Suc (idx c) = bs")
    case True
    then have full: "Suc (length m) mod bs = 0" using i(2) by (metis mod_Suc)
    have "(blk c)[idx c := x] = r @ [x]" using t p(1) True by simp
    then have "over_blocks h0 (m @ [x]) = compress (block_words (bits_of ((blk c)[idx c := x]))) (val c)"
      using True lr block_size by (simp add: o) (simp add: over_blocks_def)
    then show ?thesis using law full True p compress_length by (simp add: holds_def)
  next
    case False
    then have part: "Suc (length m) mod bs = Suc (idx c)" using i(2) by (simp add: mod_Suc)
    have "over_blocks h0 (m @ [x]) = val c" using False i(1) lr by (simp add: o) (simp add: over_blocks_def)
    moreover have "drop (Suc (length m) - Suc (idx c)) (m @ [x]) = r @ [x]" by (simp add: r_def i(2))
    ultimately show ?thesis using law False p t part by (simp add: holds_def)
  qed
qed

lemma feed_holds:
  assumes "holds h0 m L c" and "L + 8 * length xs < 2 ^ (8 * ls)"
  shows "holds h0 (m @ xs) (L + 8 * length xs) (feed xs c)"
  using assms
proof (induction xs arbitrary: m L c)
  case Nil
  then show ?case by (simp add: feed_Nil)
next
  case (Cons x xs)
  have "corr c = 0" using Cons.prems(1) by (simp add: holds_def)
  have "holds h0 (m @ [x]) (L + 8) (put x c)" using put_holds [OF Cons.prems(1)] Cons.prems(2) by simp
  from Cons.IH [OF this] show ?case using Cons.prems(2) \<open>corr c = 0\<close> by (simp add: feed_Cons ac_simps)
qed

text \<open>The context after the digest has been completed.\<close>

definition finished :: "'w word list \<Rightarrow> bool list \<Rightarrow> 'c \<Rightarrow> bool" where
  "finished h0 M c \<longleftrightarrow> closed c \<and> corr c = 0 \<and> length (blk c) = bs \<and> length (val c) = hw \<and>
     val c = fold (\<lambda>b. compress (block_words b)) (message_blocks (8 * bs) (fips_padded (8 * bs) (8 * ls) M)) h0"

lemma finishedD: "finished h0 M c \<Longrightarrow> length (blk c) = bs"
  unfolding finished_def by blast

lemma finish_val:
  assumes h: "holds h0 m L c"
  shows "val (finish p c) = over_blocks h0 (padded_bytes bs ls m p L)"
proof -
  define r where "r = drop (length m - length m mod bs) m"
  note d = holdsD [OF h]
  note i = d(5,4)
  note q = d(3,9,7) d(6) [folded r_def] d(8)
  have lr: "length r = idx c" using i by (simp add: r_def)
  note law = finish_law [OF q(1) i(1) q(2), of p]
  have o: "over_blocks h0 (padded_bytes bs ls m p L) =
      over_blocks (val c) (r @ [p] @ replicate (zeros_wanted bs ls (length m)) 0 @ number_bytes ls L)"
    unfolding padded_bytes_def r_def q(5) by (rule over_blocks_split)
  have pieces: "length xs = bs \<Longrightarrow> over_blocks H xs = compress (block_words (bits_of xs)) H"
    "length xs = bs \<Longrightarrow> length ys = bs \<Longrightarrow>
      over_blocks H (xs @ ys) = compress (block_words (bits_of ys)) (compress (block_words (bits_of xs)) H)" for xs ys H
    using block_size by (simp_all add: over_blocks_def blocks_of_append)
  have m: "length m = bs * (length m div bs) + idx c" using i(2) by simp
  show ?thesis
  proof (cases "idx c \<ge> bs - ls")
    case True
    have "zeros_wanted bs ls (length m) = (bs - Suc (idx c)) + (bs - ls)"
    proof (rule zeros_wanted_unique)
      show "bs - Suc (idx c) + (bs - ls) < bs" using True i(1) sizes by simp
      have "length m + 1 + ls + (bs - Suc (idx c) + (bs - ls)) = bs * (length m div bs + 2)"
        using m i(1) sizes by simp
      then show "(length m + 1 + ls + (bs - Suc (idx c) + (bs - ls))) mod bs = 0" by simp
    qed
    then have "r @ [p] @ replicate (zeros_wanted bs ls (length m)) 0 @ number_bytes ls L =
        (r @ [p] @ replicate (bs - Suc (idx c)) 0) @ (replicate (bs - ls) 0 @ number_bytes ls L)"
      by (simp only: replicate_add append_assoc)
    then show ?thesis
      using True law i(1) lr sizes
        pieces(2) [of "r @ [p] @ replicate (bs - Suc (idx c)) 0" "replicate (bs - ls) 0 @ number_bytes ls L" "val c"]
      by (simp add: o q(3,4))
  next
    case False
    have "zeros_wanted bs ls (length m) = bs - ls - Suc (idx c)"
    proof (rule zeros_wanted_unique)
      show "bs - ls - Suc (idx c) < bs" using i(1) by simp
      have "length m + 1 + ls + (bs - ls - Suc (idx c)) = bs * (length m div bs + 1)"
        using m False i(1) sizes by simp
      then show "(length m + 1 + ls + (bs - ls - Suc (idx c))) mod bs = 0" by simp
    qed
    then show ?thesis
      using False law lr pieces(1) [of "r @ [p] @ replicate (bs - ls - Suc (idx c)) 0 @ number_bytes ls L" "val c"] sizes
      by (simp add: o q(3,4))
  qed
qed

lemma finish_holds:
  assumes h: "holds h0 m (8 * length m + length fin) c" and "pads p fin"
  shows "finished h0 (bits_of m @ fin) (finish p c)"
proof -
  note c = holdsD(3,5,9,2) [OF h]
  have "length h0 = hw \<Longrightarrow> length (fold (\<lambda>b. compress (block_words b)) bbs h0) = hw" for bbs h0
    by (induction bbs arbitrary: h0) (simp_all add: compress_length)
  have "length (val (finish p c)) = hw"
    using finish_law [OF c(1-3), of p] c(3) by (simp add: Let_def compress_length)
  moreover have "val (finish p c) = fold (\<lambda>b. compress (block_words b)) (message_blocks (8 * bs) (fips_padded (8 * bs) (8 * ls) (bits_of m @ fin))) h0"
    using finish_val [OF h, of p] block_size
    by (simp add: over_blocks_def blocks_of_bits fold_map comp_def flip: padded_bytes_bits [OF assms(2) block_size])
  ultimately show ?thesis using finish_law [OF c(1-3), of p] c(4) by (simp add: finished_def)
qed

lemma whole_bytes: "holds h0 m (8 * length m) c \<Longrightarrow> finished h0 (bits_of m) (finish 0x80 c)"
  using finish_holds [of h0 m "[]" c "0x80"] by (simp add: pads_def octet_bits_def numeral_eq_Suc)

text \<open>The bytes of the digest.\<close>

lemma digest_bits:
  assumes "finished h0 M c" and "8 * n \<le> LENGTH('w) * hw"
  shows "bits_of (map (hash_byte (val c)) [0..<n]) = fips_hash (8 * bs) (8 * ls) compress h0 (8 * n) M"
proof -
  have "length (val c) = hw" using assms(1) unfolding finished_def by blast
  from bits_of_hash [OF words, of n "val c"] show ?thesis using assms \<open>length (val c) = hw\<close>
    by (simp add: fips_hash_def) (simp add: finished_def)
qed

end

section \<open>The interface of an algorithm\<close>

lemma and_masks: "i AND 3 = i mod (4 :: nat)" "i AND 7 = i mod (8 :: nat)" "drop_bit 2 i = i div (4 :: nat)" "drop_bit 3 i = i div (8 :: nat)"
  using take_bit_eq_mask [of 2 i] take_bit_eq_mask [of 3 i]
  by (simp_all add: mask_eq_exp_minus_1 take_bit_eq_mod drop_bit_eq_div)

text \<open>The byte that \<open>FinalBits\<close> builds from its tables.\<close>

definition pad_byte :: "byte \<Rightarrow> 32 word \<Rightarrow> byte" where
  "pad_byte b k = (b AND [0x00, 0x80, 0xC0, 0xE0, 0xF0, 0xF8, 0xFC, 0xFE] ! unat k) OR
     [0x80, 0x40, 0x20, 0x10, 0x08, 0x04, 0x02, 0x01] ! unat k"

lemma pad_byte_pads:
  assumes "k < 8"
  shows "pads (pad_byte b k) (take (unat k) (octet_bits b))"
proof -
  have "unat k < 8" using assms by (simp add: word_less_nat_alt)
  then have "unat k \<in> {0, 1, 2, 3, 4, 5, 6, 7}" by auto
  then show ?thesis by (auto simp: pads_def pad_byte_def octet_bits_def bit_simps numeral_eq_Suc)
qed

locale hash_function = hash_stream +
  fixes H0 :: "'a::len word list" and hs :: nat
    and reset :: "'b option \<Rightarrow> int \<times> 'b option"
    and input :: "'b option \<Rightarrow> byte list option \<Rightarrow> 32 word \<Rightarrow> int \<times> 'b option"
    and final_bits :: "'b option \<Rightarrow> byte \<Rightarrow> 32 word \<Rightarrow> int \<times> 'b option"
    and result :: "'b option \<Rightarrow> byte list option \<Rightarrow> int \<times> 'b option \<times> byte list option"
    and mark :: "'b \<Rightarrow> 'b"
  assumes hash_size: "8 * hs \<le> LENGTH('a) * hw" and start: "length H0 = hw"
    and mark_law: "corr (mark c) = shaStateError"
    and reset_law: "length (blk c) = bs \<Longrightarrow>
      \<exists>c'. reset (Some c) = (shaSuccess, Some c') \<and> \<not> closed c' \<and> corr c' = 0 \<and> blk c' = blk c \<and> idx c' = 0 \<and> bitlen c' = 0 \<and> val c' = H0"
    and input_law: "input (Some c) (Some xs) n =
      (if n = 0 then (shaSuccess, Some c)
       else if closed c then (shaStateError, Some (mark c))
       else if corr c \<noteq> 0 then (corr c, Some c)
       else (shaSuccess, Some (feed (take (unat n) xs) c)))"
    and final_law: "final_bits (Some c) b k =
      (if k = 0 then (shaSuccess, Some c)
       else if closed c \<or> k \<ge> 8 then (shaStateError, Some (mark c))
       else if corr c \<noteq> 0 then (corr c, Some c)
       else (shaSuccess, Some (finish (pad_byte b k) (add_len c k))))"
    and result_law: "result (Some c) (Some d) =
      (if corr c \<noteq> 0 then (corr c, Some c, Some d)
       else (let c1 = (if \<not> closed c then finish 0x80 c else c) in
         (shaSuccess, Some c1, Some (fold (\<lambda>i d. d[i := hash_byte (val c1) i]) [0..<hs] d))))"
begin

abbreviation standard :: "bool list \<Rightarrow> bool list" where
  "standard \<equiv> fips_hash (8 * bs) (8 * ls) compress H0 (8 * hs)"

lemma reset_holds:
  assumes "length (blk c) = bs"
  shows "\<exists>c'. reset (Some c) = (shaSuccess, Some c') \<and> holds H0 [] 0 c'"
  using reset_law [OF assms] assms start block_size by (auto simp: holds_def over_blocks_def)

lemma input_holds:
  assumes "holds H0 m (8 * length m) c" and "unat n \<le> length xs" and "8 * (length m + unat n) < 2 ^ (8 * ls)"
  shows "\<exists>c'. input (Some c) (Some xs) n = (shaSuccess, Some c') \<and>
    holds H0 (m @ take (unat n) xs) (8 * length (m @ take (unat n) xs)) c'"
proof -
  note c = holdsD(1,2) [OF assms(1)]
  have "holds H0 (m @ take (unat n) xs) (8 * length (m @ take (unat n) xs)) (feed (take (unat n) xs) c)"
    using feed_holds [OF assms(1), of "take (unat n) xs"] assms(2,3) by (simp add: min_absorb2 algebra_simps)
  then show ?thesis using c by (cases "n = 0") (simp_all add: input_law feed_Nil)
qed

lemma final_holds:
  assumes h: "holds H0 m (8 * length m) c" and k: "0 < k" "k < 8" and "8 * length m + unat k < 2 ^ (8 * ls)"
  shows "\<exists>c'. final_bits (Some c) b k = (shaSuccess, Some c') \<and> finished H0 (bits_of m @ take (unat k) (octet_bits b)) c'"
proof -
  note c = holdsD [OF h]
  have "unat k < 8" using k(2) by (simp add: word_less_nat_alt)
  then have l: "length (take (unat k) (octet_bits b)) = unat k" by simp
  have "holds H0 m (8 * length m + unat k) (add_len c k)"
    using add_law [of c k] assms(4) c unfolding holds_def by simp
  then have "finished H0 (bits_of m @ take (unat k) (octet_bits b)) (finish (pad_byte b k) (add_len c k))"
    using finish_holds [OF _ pad_byte_pads [OF k(2)]] l by metis
  then show ?thesis using c(1,2) k by (auto simp: final_law)
qed

lemma result_finished:
  assumes "finished H0 M c" and "hs \<le> length d"
  shows "result (Some c) (Some d) = (shaSuccess, Some c, Some (bytes_of (standard M) @ drop hs d))"
proof -
  have "bytes_of (bits_of (map (hash_byte (val c)) [0..<hs])) = bytes_of (standard M)"
    using digest_bits [OF assms(1) hash_size] by simp
  moreover have "closed c" "corr c = 0" using assms(1) unfolding finished_def by blast+
  ultimately show ?thesis using fold_stores [OF assms(2)] by (simp add: result_law)
qed

lemma result_holds:
  assumes "holds H0 m (8 * length m) c" and "hs \<le> length d"
  shows "\<exists>c'. result (Some c) (Some d) = (shaSuccess, Some c', Some (bytes_of (standard (bits_of m)) @ drop hs d)) \<and>
    finished H0 (bits_of m) c'"
proof -
  have f: "finished H0 (bits_of m) (finish 0x80 c)" using whole_bytes [OF assms(1)] .
  then have "closed (finish 0x80 c)" "corr (finish 0x80 c) = 0" unfolding finished_def by blast+
  moreover have "result (Some c) (Some d) = result (Some (finish 0x80 c)) (Some d)"
    using holdsD(1,2) [OF assms(1)] calculation by (simp add: result_law Let_def)
  ultimately show ?thesis using result_finished [OF f assms(2)] f by auto
qed

text \<open>Input after the digest has been taken is an error that stays.\<close>

lemma input_after_result:
  assumes "finished H0 M c" and "n \<noteq> 0"
  shows "\<exists>c'. input (Some c) (Some xs) n = (shaStateError, Some c') \<and> result (Some c') (Some d) = (shaStateError, Some c', Some d)"
proof -
  have "closed c" using assms(1) unfolding finished_def by blast
  then show ?thesis using assms(2) by (simp add: input_law result_law mark_law sha_codes)
qed

end

end
