(* ===== verification/Sha1.thy ===== *)
theory Sha1
  imports Sha_Stream
begin

text \<open>
  SHA-1 of \<open>src/sha1.c\<close>: the context, its operations and the digest.
\<close>

section \<open>The operations\<close>

record SHA1Context =
  Intermediate_Hash :: "32 word list"
  Length_Low :: "32 word"
  Length_High :: "32 word"
  Message_Block_Index :: nat
  Message_Block :: "byte list"
  Computed :: bool
  Corrupted :: int

abbreviation (input) SHA1_Message_Block_Size :: nat where "SHA1_Message_Block_Size \<equiv> 64"
abbreviation (input) SHA1HashSize :: nat where "SHA1HashSize \<equiv> 20"

definition SHA1_ROTL :: "nat \<Rightarrow> 32 word \<Rightarrow> 32 word" where
  "SHA1_ROTL bits w = push_bit bits w OR drop_bit (32 - bits) w"

definition SHA1AddLength :: "SHA1Context \<Rightarrow> 32 word \<Rightarrow> SHA1Context" where
  "SHA1AddLength context n =
     (let addTemp = Length_Low context;
          c1 = context\<lparr>Length_Low := Length_Low context + n\<rparr> in
      if Length_Low c1 < addTemp then
        (let c2 = c1\<lparr>Length_High := Length_High c1 + 1\<rparr> in c2\<lparr>Corrupted := (if Length_High c2 = 0 then 1 else 0)\<rparr>)
      else c1\<lparr>Corrupted := 0\<rparr>)"

definition SHA1_word :: "byte list \<Rightarrow> nat \<Rightarrow> 32 word" where
  "SHA1_word blk t =
     push_bit 24 (ucast (blk ! (t * 4))) OR push_bit 16 (ucast (blk ! (t * 4 + 1))) OR
     push_bit 8 (ucast (blk ! (t * 4 + 2))) OR ucast (blk ! (t * 4 + 3))"

definition SHA1_schedule :: "byte list \<Rightarrow> 32 word list" where
  "SHA1_schedule blk =
     fold (\<lambda>t W. W @ [SHA1_ROTL 1 (W ! (t - 3) XOR W ! (t - 8) XOR W ! (t - 14) XOR W ! (t - 16))]) [16..<80]
       (map (SHA1_word blk) [0..<16])"

definition SHA1_rounds ::
  "32 word list \<Rightarrow> (32 word \<Rightarrow> 32 word \<Rightarrow> 32 word \<Rightarrow> 32 word) \<Rightarrow> 32 word \<Rightarrow> nat list \<Rightarrow> word5 \<Rightarrow> word5" where
  "SHA1_rounds W f k ts =
     fold (\<lambda>t (A, B, C, D, E). (let temp = SHA1_ROTL 5 A + f B C D + E + W ! t + k in (temp, A, SHA1_ROTL 30 B, C, D))) ts"

definition SHA1ProcessMessageBlock :: "SHA1Context \<Rightarrow> SHA1Context" where
  "SHA1ProcessMessageBlock context =
     (let W = SHA1_schedule (Message_Block context);
          h = Intermediate_Hash context;
          s0 = (h ! 0, h ! 1, h ! 2, h ! 3, h ! 4);
          s1 = SHA1_rounds W SHA_Ch 0x5A827999 [0..<20] s0;
          s2 = SHA1_rounds W SHA_Parity 0x6ED9EBA1 [20..<40] s1;
          s3 = SHA1_rounds W SHA_Maj 0x8F1BBCDC [40..<60] s2;
          (A, B, C, D, E) = SHA1_rounds W SHA_Parity 0xCA62C1D6 [60..<80] s3 in
      context\<lparr>Intermediate_Hash := [h ! 0 + A, h ! 1 + B, h ! 2 + C, h ! 3 + D, h ! 4 + E], Message_Block_Index := 0\<rparr>)"

definition SHA1PadMessage :: "SHA1Context \<Rightarrow> byte \<Rightarrow> SHA1Context" where
  "SHA1PadMessage context Pad_Byte =
     (let i = Message_Block_Index context;
          b = (Message_Block context)[i := Pad_Byte];
          c1 = (if i \<ge> SHA1_Message_Block_Size - 8 then
                  (let (i1, b1) = store_zeros SHA1_Message_Block_Size (Suc i) b in
                   SHA1ProcessMessageBlock (context\<lparr>Message_Block := b1, Message_Block_Index := i1\<rparr>))
                else context\<lparr>Message_Block := b, Message_Block_Index := Suc i\<rparr>);
          (i2, b2) = store_zeros (SHA1_Message_Block_Size - 8) (Message_Block_Index c1) (Message_Block c1) in
      SHA1ProcessMessageBlock (c1\<lparr>Message_Block_Index := i2, Message_Block :=
        b2[56 := ucast (drop_bit 24 (Length_High c1)), 57 := ucast (drop_bit 16 (Length_High c1)),
           58 := ucast (drop_bit 8 (Length_High c1)), 59 := ucast (Length_High c1),
           60 := ucast (drop_bit 24 (Length_Low c1)), 61 := ucast (drop_bit 16 (Length_Low c1)),
           62 := ucast (drop_bit 8 (Length_Low c1)), 63 := ucast (Length_Low c1)]\<rparr>))"

definition SHA1Finalize :: "SHA1Context \<Rightarrow> byte \<Rightarrow> SHA1Context" where
  "SHA1Finalize context Pad_Byte =
     (let c1 = SHA1PadMessage context Pad_Byte in
      c1\<lparr>Message_Block := snd (store_zeros SHA1_Message_Block_Size 0 (Message_Block c1)),
        Length_Low := 0, Length_High := 0, Computed := True\<rparr>)"

definition SHA1Reset :: "SHA1Context option \<Rightarrow> int \<times> SHA1Context option" where
  "SHA1Reset context =
     (case context of
        None \<Rightarrow> (shaNull, None)
      | Some c \<Rightarrow>
          (shaSuccess, Some (c\<lparr>Length_Low := 0, Length_High := 0, Message_Block_Index := 0,
             Intermediate_Hash := [0x67452301, 0xEFCDAB89, 0x98BADCFE, 0x10325476, 0xC3D2E1F0],
             Computed := False, Corrupted := 0\<rparr>)))"

definition SHA1Input_step :: "byte \<Rightarrow> SHA1Context \<Rightarrow> SHA1Context" where
  "SHA1Input_step x context =
     (let i = Message_Block_Index context;
          c1 = context\<lparr>Message_Block := (Message_Block context)[i := x AND 0xFF], Message_Block_Index := Suc i\<rparr>;
          c2 = SHA1AddLength c1 8 in
      if Corrupted c2 = 0 \<and> Message_Block_Index c2 = SHA1_Message_Block_Size then SHA1ProcessMessageBlock c2 else c2)"

fun SHA1Input_loop :: "byte list \<Rightarrow> SHA1Context \<Rightarrow> SHA1Context" where
  "SHA1Input_loop [] context = context"
| "SHA1Input_loop (x # xs) context = (if Corrupted context \<noteq> 0 then context else SHA1Input_loop xs (SHA1Input_step x context))"

definition SHA1Input :: "SHA1Context option \<Rightarrow> byte list option \<Rightarrow> 32 word \<Rightarrow> int \<times> SHA1Context option" where
  "SHA1Input context message_array len =
     (if len = 0 then (shaSuccess, context)
      else
        (case (context, message_array) of
           (Some c, Some xs) \<Rightarrow>
             (if Computed c then (shaStateError, Some (c\<lparr>Corrupted := shaStateError\<rparr>))
              else if Corrupted c \<noteq> 0 then (Corrupted c, context)
              else (shaSuccess, Some (SHA1Input_loop (take (unat len) xs) c)))
         | _ \<Rightarrow> (shaNull, context)))"

definition SHA1FinalBits :: "SHA1Context option \<Rightarrow> byte \<Rightarrow> 32 word \<Rightarrow> int \<times> SHA1Context option" where
  "SHA1FinalBits context message_bits len =
     (let masks = [0x00, 0x80, 0xC0, 0xE0, 0xF0, 0xF8, 0xFC, 0xFE];
          markbit = [0x80, 0x40, 0x20, 0x10, 0x08, 0x04, 0x02, 0x01] in
      if len = 0 then (shaSuccess, context)
      else
        (case context of
           None \<Rightarrow> (shaNull, None)
         | Some c \<Rightarrow>
             (if Computed c \<or> len \<ge> 8 \<or> len = 0 then (shaStateError, Some (c\<lparr>Corrupted := shaStateError\<rparr>))
              else if Corrupted c \<noteq> 0 then (Corrupted c, context)
              else (shaSuccess, Some (SHA1Finalize (SHA1AddLength c len)
                      ((message_bits AND masks ! unat len) OR markbit ! unat len))))))"

definition SHA1Result :: "SHA1Context option \<Rightarrow> byte list option \<Rightarrow> int \<times> SHA1Context option \<times> byte list option" where
  "SHA1Result context Message_Digest =
     (case (context, Message_Digest) of
        (Some c, Some d) \<Rightarrow>
          (if Corrupted c \<noteq> 0 then (Corrupted c, context, Message_Digest)
           else
             (let c1 = (if \<not> Computed c then SHA1Finalize c 0x80 else c);
                  d1 = fold (\<lambda>i d. d[i := ucast (drop_bit (8 * (3 - (i AND 3))) (Intermediate_Hash c1 ! drop_bit 2 i))])
                         [0..<SHA1HashSize] d in
              (shaSuccess, Some c1, Some d1)))
      | _ \<Rightarrow> (shaNull, context, Message_Digest))"

section \<open>The laws\<close>

lemma SHA1_rotations: "0 < n \<Longrightarrow> n < 32 \<Longrightarrow> SHA1_ROTL n w = word_rotl n w"
  using rotate_left [of n w] by (simp add: SHA1_ROTL_def)

lemma SHA1_block_words:
  assumes "length blk = 64"
  shows "map (SHA1_word blk) [0..<16] = block_words (bits_of blk)"
proof -
  have "SHA1_word blk t = word_of_bits (take 32 (drop (t * 32) (bits_of blk)))" if "t < 16" for t
  proof (rule bit_word_eqI)
    fix n
    assume "n < LENGTH(32)"
    then have "n < 32" by simp
    note byte_position_32 [OF this]
    then show "bit (SHA1_word blk t) n = bit (word_of_bits (take 32 (drop (t * 32) (bits_of blk))) :: 32 word) n"
      using bit_block_word [of 4 t blk n, where 'a = 32] assms that
      by (auto simp: SHA1_word_def bit_simps mult.commute)
  qed
  then show ?thesis by (simp add: block_words_def)
qed

lemma SHA1_schedule_words:
  assumes "length blk = 64"
  shows "SHA1_schedule blk = map (sha1_W (block_words (bits_of blk))) [0..<80]"
proof -
  let ?M = "block_words (bits_of blk) :: 32 word list"
  have "?M = map (sha1_W ?M) [0..<16]"
    by (rule nth_equalityI) (simp_all add: block_words_def sha1_W.simps)
  moreover have "SHA1_ROTL 1 (map (sha1_W ?M) [0..<t] ! (t - 3) XOR map (sha1_W ?M) [0..<t] ! (t - 8) XOR
      map (sha1_W ?M) [0..<t] ! (t - 14) XOR map (sha1_W ?M) [0..<t] ! (t - 16)) = sha1_W ?M t" if "16 \<le> t" for t
    using that by (simp add: SHA1_rotations sha1_W.simps [of _ t])
  ultimately have "fold (\<lambda>t W. W @ [SHA1_ROTL 1 (W ! (t - 3) XOR W ! (t - 8) XOR W ! (t - 14) XOR W ! (t - 16))]) [16..<80] ?M =
      map (sha1_W ?M) [0..<80]"
    using schedule_fill [of 16 "\<lambda>W t. SHA1_ROTL 1 (W ! (t - 3) XOR W ! (t - 8) XOR W ! (t - 14) XOR W ! (t - 16))" "sha1_W ?M" 80]
    by (simp del: upt_rec_numeral upt_conv_Cons)
  then show ?thesis unfolding SHA1_schedule_def SHA1_block_words [OF assms] .
qed

lemma SHA1_rounds_fold:
  assumes "\<And>t. a \<le> t \<Longrightarrow> t < b \<Longrightarrow> W ! t = sha1_W M t \<and> f = sha1_f t \<and> k = sha1_K t"
  shows "SHA1_rounds W f k [a..<b] s = fold (sha1_round M) [a..<b] s"
  unfolding SHA1_rounds_def
  by (rule fold_cong) (auto simp: assms sha1_round_def SHA1_rotations fun_eq_iff ac_simps)

lemma SHA1_process:
  assumes "length (Message_Block c) = 64" and "length (Intermediate_Hash c) = 5"
  shows "SHA1ProcessMessageBlock c = c\<lparr>Intermediate_Hash := sha1_compress (block_words (bits_of (Message_Block c))) (Intermediate_Hash c),
    Message_Block_Index := 0\<rparr>"
proof -
  let ?M = "block_words (bits_of (Message_Block c)) :: 32 word list"
  obtain h0 h1 h2 h3 h4 where h: "Intermediate_Hash c = [h0, h1, h2, h3, h4]"
    using assms(2) by (auto simp: numeral_eq_Suc length_Suc_conv)
  have "SHA1_rounds (SHA1_schedule (Message_Block c)) SHA_Ch 0x5A827999 [0..<20] s = fold (sha1_round ?M) [0..<20] s"
    "SHA1_rounds (SHA1_schedule (Message_Block c)) SHA_Parity 0x6ED9EBA1 [20..<40] s = fold (sha1_round ?M) [20..<40] s"
    "SHA1_rounds (SHA1_schedule (Message_Block c)) SHA_Maj 0x8F1BBCDC [40..<60] s = fold (sha1_round ?M) [40..<60] s"
    "SHA1_rounds (SHA1_schedule (Message_Block c)) SHA_Parity 0xCA62C1D6 [60..<80] s = fold (sha1_round ?M) [60..<80] s" for s
    by (rule SHA1_rounds_fold; simp add: SHA1_schedule_words [OF assms(1)] sha_macros sha1_f_def sha1_K_def)+
  moreover have "[0..<80] = [0..<20] @ [20..<40] @ [40..<60] @ [60..<80]"
    by (simp add: upt_rec)
  then have "fold (sha1_round ?M) [0..<80] s = fold (sha1_round ?M) [60..<80] (fold (sha1_round ?M) [40..<60]
      (fold (sha1_round ?M) [20..<40] (fold (sha1_round ?M) [0..<20] s)))" for s by (simp only: fold_append comp_def)
  ultimately show ?thesis
    by (simp add: SHA1ProcessMessageBlock_def sha1_compress_def Let_def h add_words_def split: prod.split)
qed

lemma SHA1AddLength_result:
  assumes "pair_len (Length_High c) (Length_Low c) + unat n < 2 ^ 64"
  shows "SHA1AddLength c n = c\<lparr>Length_Low := Length_Low c + n,
      Length_High := (if Length_Low c + n < Length_Low c then Length_High c + 1 else Length_High c), Corrupted := 0\<rparr>"
  using pair_add(2) [of "Length_High c" "Length_Low c" n] assms by (simp add: SHA1AddLength_def Let_def)

lemma SHA1Input_step_result:
  assumes "length (Message_Block c) = 64" "Message_Block_Index c < 64" "length (Intermediate_Hash c) = 5"
    and "pair_len (Length_High c) (Length_Low c) + 8 < 2 ^ 64"
  shows "Message_Block (SHA1Input_step x c) = (Message_Block c)[Message_Block_Index c := x]"
    "pair_len (Length_High (SHA1Input_step x c)) (Length_Low (SHA1Input_step x c)) = pair_len (Length_High c) (Length_Low c) + 8"
    "Computed (SHA1Input_step x c) = Computed c" "Corrupted (SHA1Input_step x c) = 0"
    "Message_Block_Index (SHA1Input_step x c) = (if Suc (Message_Block_Index c) = 64 then 0 else Suc (Message_Block_Index c))"
    "Intermediate_Hash (SHA1Input_step x c) = (if Suc (Message_Block_Index c) = 64
       then sha1_compress (block_words (bits_of ((Message_Block c)[Message_Block_Index c := x]))) (Intermediate_Hash c)
       else Intermediate_Hash c)"
proof -
  have len: "pair_len (if Length_Low c + 8 < Length_Low c then Length_High c + 1 else Length_High c) (Length_Low c + 8) =
      pair_len (Length_High c) (Length_Low c) + 8"
    using pair_add(1) [of "Length_High c" "Length_Low c" 8] assms(4) by simp
  show "Message_Block (SHA1Input_step x c) = (Message_Block c)[Message_Block_Index c := x]"
    "pair_len (Length_High (SHA1Input_step x c)) (Length_Low (SHA1Input_step x c)) = pair_len (Length_High c) (Length_Low c) + 8"
    "Computed (SHA1Input_step x c) = Computed c" "Corrupted (SHA1Input_step x c) = 0"
    "Message_Block_Index (SHA1Input_step x c) = (if Suc (Message_Block_Index c) = 64 then 0 else Suc (Message_Block_Index c))"
    "Intermediate_Hash (SHA1Input_step x c) = (if Suc (Message_Block_Index c) = 64
       then sha1_compress (block_words (bits_of ((Message_Block c)[Message_Block_Index c := x]))) (Intermediate_Hash c)
       else Intermediate_Hash c)"
    using assms len by (simp_all add: SHA1Input_step_def Let_def SHA1AddLength_result SHA1_process split: if_splits)
qed

lemma SHA1_length_stores:
  assumes "length b = 64"
  shows "b[56 := ucast (drop_bit 24 hi), 57 := ucast (drop_bit 16 hi), 58 := ucast (drop_bit 8 hi), 59 := ucast hi,
      60 := ucast (drop_bit 24 lo), 61 := ucast (drop_bit 16 lo), 62 := ucast (drop_bit 8 lo), 63 := ucast lo] =
    take 56 b @ number_bytes 8 (pair_len hi (lo :: 32 word))"
  using drop_stores [of b 56 "number_bytes 8 (pair_len hi lo)"] assms by (simp add: pair_bytes_32)

lemma sha1_compress_length [simp]: "length H = 5 \<Longrightarrow> length (sha1_compress M H) = 5"
  by (simp add: sha1_compress_def add_words_def split: prod.split)

lemma SHA1Finalize_result:
  assumes "length (Message_Block c) = 64" "Message_Block_Index c < 64" "length (Intermediate_Hash c) = 5"
  shows "Computed (SHA1Finalize c p)" "Corrupted (SHA1Finalize c p) = Corrupted c" "length (Message_Block (SHA1Finalize c p)) = 64"
    "Intermediate_Hash (SHA1Finalize c p) =
      (let b = take (Message_Block_Index c) (Message_Block c) @ [p];
           L = number_bytes 8 (pair_len (Length_High c) (Length_Low c)) in
       if Message_Block_Index c \<ge> 64 - 8 then
         sha1_compress (block_words (bits_of (replicate (64 - 8) 0 @ L)))
           (sha1_compress (block_words (bits_of (b @ replicate (64 - Suc (Message_Block_Index c)) 0))) (Intermediate_Hash c))
       else sha1_compress (block_words (bits_of (b @ replicate (64 - 8 - Suc (Message_Block_Index c)) 0 @ L))) (Intermediate_Hash c))"
proof -
  let ?i = "Message_Block_Index c" and ?B = "(Message_Block c)[Message_Block_Index c := p]"
  have b: "take (Suc ?i) ?B = take ?i (Message_Block c) @ [p]" using assms by (simp add: take_Suc_conv_app_nth)
  have full: "store_zeros 64 (Suc ?i) ?B = (64, take ?i (Message_Block c) @ [p] @ replicate (64 - Suc ?i) 0)"
    using assms b by (simp add: store_zeros_result)
  have part: "store_zeros 56 (Suc ?i) ?B = (56, take ?i (Message_Block c) @ [p] @ replicate (56 - Suc ?i) 0 @ drop 56 ?B)" if "?i < 56"
    using assms b that by (simp add: store_zeros_result)
  have empty: "length xs = 64 \<Longrightarrow> store_zeros 56 0 xs = (56, replicate 56 0 @ drop 56 xs)" for xs
    by (simp add: store_zeros_result)
  have clear: "length xs = 64 \<Longrightarrow> store_zeros 64 0 xs = (64, replicate 64 0)" for xs
    by (simp add: store_zeros_result)
  show "Computed (SHA1Finalize c p)" "Corrupted (SHA1Finalize c p) = Corrupted c" "length (Message_Block (SHA1Finalize c p)) = 64"
    "Intermediate_Hash (SHA1Finalize c p) =
      (let b = take (Message_Block_Index c) (Message_Block c) @ [p];
           L = number_bytes 8 (pair_len (Length_High c) (Length_Low c)) in
       if Message_Block_Index c \<ge> 64 - 8 then
         sha1_compress (block_words (bits_of (replicate (64 - 8) 0 @ L)))
           (sha1_compress (block_words (bits_of (b @ replicate (64 - Suc (Message_Block_Index c)) 0))) (Intermediate_Hash c))
       else sha1_compress (block_words (bits_of (b @ replicate (64 - 8 - Suc (Message_Block_Index c)) 0 @ L))) (Intermediate_Hash c))"
    using assms part take_pad [of ?i 56 p 0]
    by (simp_all add: SHA1Finalize_def SHA1PadMessage_def Let_def full empty clear SHA1_length_stores SHA1_process split: if_splits)
qed

interpretation sha1: hash_stream 64 8 5 sha1_compress Message_Block_Index Message_Block
  "\<lambda>c. pair_len (Length_High c) (Length_Low c)" Intermediate_Hash Computed Corrupted SHA1Input_step SHA1Input_loop
  "\<lambda>p c. SHA1Finalize c p" SHA1AddLength
  by unfold_locales
    (simp_all add: SHA1Input_step_result SHA1Finalize_result SHA1AddLength_result pair_add(1))

lemma SHA1_digest_byte:
  "ucast (drop_bit (8 * (3 - (i AND 3))) (H ! drop_bit 2 i)) = hash_byte (H :: 32 word list) i"
  by (simp add: hash_byte_def and_masks)

interpretation sha1_api: hash_function 64 8 5 sha1_compress Message_Block_Index Message_Block
  "\<lambda>c. pair_len (Length_High c) (Length_Low c)" Intermediate_Hash Computed Corrupted SHA1Input_step SHA1Input_loop
  "\<lambda>p c. SHA1Finalize c p" SHA1AddLength
  "[0x67452301, 0xEFCDAB89, 0x98BADCFE, 0x10325476, 0xC3D2E1F0]" 20
  SHA1Reset SHA1Input SHA1FinalBits SHA1Result "\<lambda>c. c\<lparr>Corrupted := shaStateError\<rparr>"
  by unfold_locales
    (simp_all add: SHA1Reset_def SHA1Input_def SHA1FinalBits_def SHA1Result_def pair_len_def pad_byte_def SHA1_digest_byte Let_def)

text \<open>A message that is too long marks the context with the number of \<open>shaNull\<close> and not with
  \<open>shaInputTooLong\<close>, and the call in which it happens reports success.\<close>

lemma too_long_is_shaNull:
  "\<exists>c'. SHA1Input (Some (c\<lparr>Computed := False, Corrupted := 0, Length_High := 0xFFFFFFFF, Length_Low := 0xFFFFFFF8\<rparr>)) (Some [x]) 1 = (shaSuccess, Some c') \<and>
     Corrupted c' = shaNull"
  by (simp add: SHA1Input_def SHA1Input_step_def SHA1AddLength_def Let_def sha_codes)

end
