(* ===== verification/Sha256.thy ===== *)
theory Sha256
  imports Sha_Stream
begin

text \<open>
  SHA-224 and SHA-256 of \<open>src/sha224.c\<close>: the context they share, its operations and the digests.
\<close>

section \<open>The operations\<close>

record SHA256Context =
  Intermediate_Hash :: "32 word list"
  Length_Low :: "32 word"
  Length_High :: "32 word"
  Message_Block_Index :: nat
  Message_Block :: "byte list"
  Computed :: bool
  Corrupted :: int

abbreviation (input) SHA256_Message_Block_Size :: nat where "SHA256_Message_Block_Size \<equiv> 64"
abbreviation (input) SHA224HashSize :: nat where "SHA224HashSize \<equiv> 28"
abbreviation (input) SHA256HashSize :: nat where "SHA256HashSize \<equiv> 32"

definition SHA256_SHR :: "nat \<Rightarrow> 32 word \<Rightarrow> 32 word" where
  "SHA256_SHR bits w = drop_bit bits w"

definition SHA256_ROTR :: "nat \<Rightarrow> 32 word \<Rightarrow> 32 word" where
  "SHA256_ROTR bits w = drop_bit bits w OR push_bit (32 - bits) w"

definition SHA256_SIGMA0 :: "32 word \<Rightarrow> 32 word" where
  "SHA256_SIGMA0 w = SHA256_ROTR 2 w XOR SHA256_ROTR 13 w XOR SHA256_ROTR 22 w"

definition SHA256_SIGMA1 :: "32 word \<Rightarrow> 32 word" where
  "SHA256_SIGMA1 w = SHA256_ROTR 6 w XOR SHA256_ROTR 11 w XOR SHA256_ROTR 25 w"

definition SHA256_sigma0 :: "32 word \<Rightarrow> 32 word" where
  "SHA256_sigma0 w = SHA256_ROTR 7 w XOR SHA256_ROTR 18 w XOR SHA256_SHR 3 w"

definition SHA256_sigma1 :: "32 word \<Rightarrow> 32 word" where
  "SHA256_sigma1 w = SHA256_ROTR 17 w XOR SHA256_ROTR 19 w XOR SHA256_SHR 10 w"

definition SHA224_256AddLength :: "SHA256Context \<Rightarrow> 32 word \<Rightarrow> SHA256Context" where
  "SHA224_256AddLength context n =
     (let addTemp = Length_Low context;
          c1 = context\<lparr>Length_Low := Length_Low context + n\<rparr> in
      if Length_Low c1 < addTemp then
        (let c2 = c1\<lparr>Length_High := Length_High c1 + 1\<rparr> in c2\<lparr>Corrupted := (if Length_High c2 = 0 then 1 else 0)\<rparr>)
      else c1\<lparr>Corrupted := 0\<rparr>)"

definition SHA224_H0 :: "32 word list" where
  "SHA224_H0 = [0xC1059ED8, 0x367CD507, 0x3070DD17, 0xF70E5939, 0xFFC00B31, 0x68581511, 0x64F98FA7, 0xBEFA4FA4]"

definition SHA256_H0 :: "32 word list" where
  "SHA256_H0 = [0x6A09E667, 0xBB67AE85, 0x3C6EF372, 0xA54FF53A, 0x510E527F, 0x9B05688C, 0x1F83D9AB, 0x5BE0CD19]"

definition SHA256_K :: "32 word list" where
  "SHA256_K = [
     0x428A2F98, 0x71374491, 0xB5C0FBCF, 0xE9B5DBA5, 0x3956C25B, 0x59F111F1, 0x923F82A4, 0xAB1C5ED5,
     0xD807AA98, 0x12835B01, 0x243185BE, 0x550C7DC3, 0x72BE5D74, 0x80DEB1FE, 0x9BDC06A7, 0xC19BF174,
     0xE49B69C1, 0xEFBE4786, 0x0FC19DC6, 0x240CA1CC, 0x2DE92C6F, 0x4A7484AA, 0x5CB0A9DC, 0x76F988DA,
     0x983E5152, 0xA831C66D, 0xB00327C8, 0xBF597FC7, 0xC6E00BF3, 0xD5A79147, 0x06CA6351, 0x14292967,
     0x27B70A85, 0x2E1B2138, 0x4D2C6DFC, 0x53380D13, 0x650A7354, 0x766A0ABB, 0x81C2C92E, 0x92722C85,
     0xA2BFE8A1, 0xA81A664B, 0xC24B8B70, 0xC76C51A3, 0xD192E819, 0xD6990624, 0xF40E3585, 0x106AA070,
     0x19A4C116, 0x1E376C08, 0x2748774C, 0x34B0BCB5, 0x391C0CB3, 0x4ED8AA4A, 0x5B9CCA4F, 0x682E6FF3,
     0x748F82EE, 0x78A5636F, 0x84C87814, 0x8CC70208, 0x90BEFFFA, 0xA4506CEB, 0xBEF9A3F7, 0xC67178F2]"

definition SHA256_word :: "byte list \<Rightarrow> nat \<Rightarrow> 32 word" where
  "SHA256_word blk t = (let t4 = 4 * t in
     push_bit 24 (ucast (blk ! (t4))) OR push_bit 16 (ucast (blk ! (t4 + 1))) OR push_bit 8 (ucast (blk ! (t4 + 2))) OR ucast (blk ! (t4 + 3)))"

definition SHA256_schedule :: "byte list \<Rightarrow> 32 word list" where
  "SHA256_schedule blk =
     fold (\<lambda>t W. W @ [SHA256_sigma1 (W ! (t - 2)) + W ! (t - 7) + SHA256_sigma0 (W ! (t - 15)) + W ! (t - 16)]) [16..<64]
       (map (SHA256_word blk) [0..<16])"

definition SHA224_256_round :: "32 word list \<Rightarrow> nat \<Rightarrow> 32 word8 \<Rightarrow> 32 word8" where
  "SHA224_256_round W t = (\<lambda>(A, B, C, D, E, F, G, H).
     (let temp1 = H + SHA256_SIGMA1 E + SHA_Ch E F G + SHA256_K ! t + W ! t;
          temp2 = SHA256_SIGMA0 A + SHA_Maj A B C in
      (temp1 + temp2, A, B, C, D + temp1, E, F, G)))"

definition SHA224_256ProcessMessageBlock :: "SHA256Context \<Rightarrow> SHA256Context" where
  "SHA224_256ProcessMessageBlock context =
     (let W = SHA256_schedule (Message_Block context);
          h = Intermediate_Hash context;
          (A, B, C, D, E, F, G, H) =
            fold (SHA224_256_round W) [0..<64] (h ! 0, h ! 1, h ! 2, h ! 3, h ! 4, h ! 5, h ! 6, h ! 7) in
      context\<lparr>Intermediate_Hash := [h ! 0 + A, h ! 1 + B, h ! 2 + C, h ! 3 + D, h ! 4 + E, h ! 5 + F, h ! 6 + G, h ! 7 + H],
        Message_Block_Index := 0\<rparr>)"

definition SHA224_256PadMessage :: "SHA256Context \<Rightarrow> byte \<Rightarrow> SHA256Context" where
  "SHA224_256PadMessage context Pad_Byte =
     (let i = Message_Block_Index context;
          b = (Message_Block context)[i := Pad_Byte];
          c1 = (if i \<ge> SHA256_Message_Block_Size - 8 then
                  (let (i1, b1) = store_zeros SHA256_Message_Block_Size (Suc i) b in
                   SHA224_256ProcessMessageBlock (context\<lparr>Message_Block := b1, Message_Block_Index := i1\<rparr>))
                else context\<lparr>Message_Block := b, Message_Block_Index := Suc i\<rparr>);
          (i2, b2) = store_zeros (SHA256_Message_Block_Size - 8) (Message_Block_Index c1) (Message_Block c1) in
      SHA224_256ProcessMessageBlock (c1\<lparr>Message_Block_Index := i2, Message_Block :=
        b2[56 := ucast (drop_bit 24 (Length_High c1)), 57 := ucast (drop_bit 16 (Length_High c1)), 58 := ucast (drop_bit 8 (Length_High c1)),
           59 := ucast (Length_High c1), 60 := ucast (drop_bit 24 (Length_Low c1)), 61 := ucast (drop_bit 16 (Length_Low c1)),
           62 := ucast (drop_bit 8 (Length_Low c1)), 63 := ucast (Length_Low c1)]\<rparr>))"

definition SHA224_256Finalize :: "SHA256Context \<Rightarrow> byte \<Rightarrow> SHA256Context" where
  "SHA224_256Finalize context Pad_Byte =
     (let c1 = SHA224_256PadMessage context Pad_Byte in
      c1\<lparr>Message_Block := snd (store_zeros SHA256_Message_Block_Size 0 (Message_Block c1)),
        Length_Low := 0, Length_High := 0, Computed := True\<rparr>)"

definition SHA224_256Reset :: "SHA256Context option \<Rightarrow> 32 word list \<Rightarrow> int \<times> SHA256Context option" where
  "SHA224_256Reset context H0 =
     (case context of
        None \<Rightarrow> (shaNull, None)
      | Some c \<Rightarrow>
          (shaSuccess, Some (c\<lparr>Length_Low := 0, Length_High := 0, Message_Block_Index := 0,
             Intermediate_Hash := [H0 ! 0, H0 ! 1, H0 ! 2, H0 ! 3, H0 ! 4, H0 ! 5, H0 ! 6, H0 ! 7],
             Computed := False, Corrupted := 0\<rparr>)))"

definition SHA256Input_step :: "byte \<Rightarrow> SHA256Context \<Rightarrow> SHA256Context" where
  "SHA256Input_step x context =
     (let i = Message_Block_Index context;
          c1 = context\<lparr>Message_Block := (Message_Block context)[i := x AND 0xFF], Message_Block_Index := Suc i\<rparr>;
          c2 = SHA224_256AddLength c1 8 in
      if Corrupted c2 = 0 \<and> Message_Block_Index c2 = SHA256_Message_Block_Size then SHA224_256ProcessMessageBlock c2 else c2)"

fun SHA256Input_loop :: "byte list \<Rightarrow> SHA256Context \<Rightarrow> SHA256Context" where
  "SHA256Input_loop [] context = context"
| "SHA256Input_loop (x # xs) context = (if Corrupted context \<noteq> 0 then context else SHA256Input_loop xs (SHA256Input_step x context))"

definition SHA256Input :: "SHA256Context option \<Rightarrow> byte list option \<Rightarrow> 32 word \<Rightarrow> int \<times> SHA256Context option" where
  "SHA256Input context message_array len =
     (if len = 0 then (shaSuccess, context)
      else
        (case (context, message_array) of
           (Some c, Some xs) \<Rightarrow>
             (if Computed c then (shaStateError, Some (c\<lparr>Corrupted := shaStateError\<rparr>))
              else if Corrupted c \<noteq> 0 then (Corrupted c, context)
              else (shaSuccess, Some (SHA256Input_loop (take (unat len) xs) c)))
         | _ \<Rightarrow> (shaNull, context)))"

definition SHA256FinalBits :: "SHA256Context option \<Rightarrow> byte \<Rightarrow> 32 word \<Rightarrow> int \<times> SHA256Context option" where
  "SHA256FinalBits context message_bits len =
     (let masks = [0x00, 0x80, 0xC0, 0xE0, 0xF0, 0xF8, 0xFC, 0xFE];
          markbit = [0x80, 0x40, 0x20, 0x10, 0x08, 0x04, 0x02, 0x01] in
      if len = 0 then (shaSuccess, context)
      else
        (case context of
           None \<Rightarrow> (shaNull, None)
         | Some c \<Rightarrow>
             (if Computed c \<or> len \<ge> 8 \<or> len = 0 then (shaStateError, Some (c\<lparr>Corrupted := shaStateError\<rparr>))
              else if Corrupted c \<noteq> 0 then (Corrupted c, context)
              else (shaSuccess, Some (SHA224_256Finalize (SHA224_256AddLength c len)
                      ((message_bits AND masks ! unat len) OR markbit ! unat len))))))"

definition SHA224_256ResultN :: "SHA256Context option \<Rightarrow> byte list option \<Rightarrow> nat \<Rightarrow> int \<times> SHA256Context option \<times> byte list option" where
  "SHA224_256ResultN context Message_Digest HashSize =
     (case (context, Message_Digest) of
        (Some c, Some d) \<Rightarrow>
          (if Corrupted c \<noteq> 0 then (Corrupted c, context, Message_Digest)
           else
             (let c1 = (if \<not> Computed c then SHA224_256Finalize c 0x80 else c);
                  d1 = fold (\<lambda>i d. d[i := ucast (drop_bit (8 * (3 - (i AND 3))) (Intermediate_Hash c1 ! drop_bit 2 i))])
                         [0..<HashSize] d in
              (shaSuccess, Some c1, Some d1)))
      | _ \<Rightarrow> (shaNull, context, Message_Digest))"

definition SHA224Reset :: "SHA256Context option \<Rightarrow> int \<times> SHA256Context option" where
  "SHA224Reset context = SHA224_256Reset context SHA224_H0"

definition SHA224Input :: "SHA256Context option \<Rightarrow> byte list option \<Rightarrow> 32 word \<Rightarrow> int \<times> SHA256Context option" where
  "SHA224Input context message_array len = SHA256Input context message_array len"

definition SHA224FinalBits :: "SHA256Context option \<Rightarrow> byte \<Rightarrow> 32 word \<Rightarrow> int \<times> SHA256Context option" where
  "SHA224FinalBits context message_bits len = SHA256FinalBits context message_bits len"

definition SHA224Result :: "SHA256Context option \<Rightarrow> byte list option \<Rightarrow> int \<times> SHA256Context option \<times> byte list option" where
  "SHA224Result context Message_Digest = SHA224_256ResultN context Message_Digest SHA224HashSize"

definition SHA256Reset :: "SHA256Context option \<Rightarrow> int \<times> SHA256Context option" where
  "SHA256Reset context = SHA224_256Reset context SHA256_H0"

definition SHA256Result :: "SHA256Context option \<Rightarrow> byte list option \<Rightarrow> int \<times> SHA256Context option \<times> byte list option" where
  "SHA256Result context Message_Digest = SHA224_256ResultN context Message_Digest SHA256HashSize"

section \<open>The laws\<close>

lemma SHA256_rotations: "0 < n \<Longrightarrow> n < 32 \<Longrightarrow> SHA256_ROTR n w = word_rotr n w"
  using rotate_right [of n w] by (simp add: SHA256_ROTR_def)

lemma SHA256_sums: "SHA256_SIGMA0 = Sum0 sha256_functions" "SHA256_SIGMA1 = Sum1 sha256_functions"
  "SHA256_sigma0 = sigma0 sha256_functions" "SHA256_sigma1 = sigma1 sha256_functions" "SHA256_K = sha2_K sha256_functions"
  by (simp_all add: fun_eq_iff sha256_functions_def SHA256_SIGMA0_def SHA256_SIGMA1_def SHA256_sigma0_def SHA256_sigma1_def SHA256_K_def
      SHA256_SHR_def SHA256_rotations)

lemma SHA256_K_length: "length (sha2_K sha256_functions) = 64"
  by (simp add: sha256_functions_def)

lemma SHA256_block_words:
  assumes "length blk = 64"
  shows "map (SHA256_word blk) [0..<16] = block_words (bits_of blk)"
proof -
  have "SHA256_word blk t = word_of_bits (take 32 (drop (t * 32) (bits_of blk)))" if "t < 16" for t
  proof (rule bit_word_eqI)
    fix n
    assume "n < LENGTH(32)"
    then have "n < 32" by simp
    note pos = byte_position_32 [OF this]
    have "bit (word_of_bits (take 32 (drop (t * 32) (bits_of blk))) :: 32 word) n = bit (blk ! (4 * t + (3 - n div 8))) (n mod 8)"
      using bit_block_word [of 4 t blk n, where 'a = 32] assms that \<open>n < 32\<close> by simp
    then show "bit (SHA256_word blk t) n = bit (word_of_bits (take 32 (drop (t * 32) (bits_of blk))) :: 32 word) n"
      using pos by (elim disjE conjE; simp add: SHA256_word_def Let_def bit_simps less_imp_diff_less)
  qed
  then show ?thesis by (simp add: block_words_def)
qed

lemma SHA256_schedule_words:
  assumes "length blk = 64"
  shows "SHA256_schedule blk = map (sha2_W sha256_functions (block_words (bits_of blk))) [0..<64]"
proof -
  let ?M = "block_words (bits_of blk) :: 32 word list" and ?W = "sha2_W sha256_functions (block_words (bits_of blk))"
  have "?M = map ?W [0..<16]"
    by (rule nth_equalityI) (simp_all add: block_words_def sha2_W.simps)
  moreover have "SHA256_sigma1 (map ?W [0..<t] ! (t - 2)) + map ?W [0..<t] ! (t - 7) +
      SHA256_sigma0 (map ?W [0..<t] ! (t - 15)) + map ?W [0..<t] ! (t - 16) = ?W t" if "16 \<le> t" for t
    using that by (simp add: SHA256_sums sha2_W.simps [of _ _ t])
  ultimately have "fold (\<lambda>t W. W @ [SHA256_sigma1 (W ! (t - 2)) + W ! (t - 7) + SHA256_sigma0 (W ! (t - 15)) + W ! (t - 16)]) [16..<64] ?M =
      map ?W [0..<64]"
    using schedule_fill [of 16 "\<lambda>W t. SHA256_sigma1 (W ! (t - 2)) + W ! (t - 7) + SHA256_sigma0 (W ! (t - 15)) + W ! (t - 16)" ?W 64]
    by (simp del: upt_rec_numeral upt_conv_Cons)
  then show ?thesis unfolding SHA256_schedule_def SHA256_block_words [OF assms] .
qed

lemma SHA256_rounds_fold:
  assumes "\<And>t. t < n \<Longrightarrow> W ! t = sha2_W sha256_functions M t"
  shows "fold (SHA224_256_round W) [0..<n] s = fold (sha2_round sha256_functions M) [0..<n] s"
  by (rule fold_cong) (auto simp: assms SHA224_256_round_def sha2_round_def SHA256_sums sha_macros fun_eq_iff)

lemma SHA256_process:
  assumes "length (Message_Block c) = 64" and "length (Intermediate_Hash c) = 8"
  shows "SHA224_256ProcessMessageBlock c = c\<lparr>Intermediate_Hash :=
    sha2_compress sha256_functions (block_words (bits_of (Message_Block c))) (Intermediate_Hash c), Message_Block_Index := 0\<rparr>"
proof -
  let ?M = "block_words (bits_of (Message_Block c)) :: 32 word list"
  obtain h0 h1 h2 h3 h4 h5 h6 h7 where h: "Intermediate_Hash c = [h0, h1, h2, h3, h4, h5, h6, h7]"
    using assms(2) by (auto simp: numeral_eq_Suc length_Suc_conv)
  have "fold (SHA224_256_round (SHA256_schedule (Message_Block c))) [0..<64] s = fold (sha2_round sha256_functions ?M) [0..<64] s" for s
    by (rule SHA256_rounds_fold) (simp add: SHA256_schedule_words [OF assms(1)])
  then show ?thesis
    by (simp add: SHA224_256ProcessMessageBlock_def sha2_compress_def SHA256_K_length Let_def h add_words_def split: prod.split
        del: upt_rec_numeral upt_conv_Cons)
qed

lemma SHA224_256AddLength_result:
  assumes "pair_len (Length_High c) (Length_Low c) + unat n < 2 ^ 64"
  shows "SHA224_256AddLength c n = c\<lparr>Length_Low := Length_Low c + n,
      Length_High := (if Length_Low c + n < Length_Low c then Length_High c + 1 else Length_High c), Corrupted := 0\<rparr>"
  using pair_add(2) [of "Length_High c" "Length_Low c" "n"] assms
  by (simp add: SHA224_256AddLength_def Let_def)

lemma SHA256Input_step_result:
  assumes "length (Message_Block c) = 64" "Message_Block_Index c < 64" "length (Intermediate_Hash c) = 8"
    and "pair_len (Length_High c) (Length_Low c) + 8 < 2 ^ 64"
  shows "Message_Block (SHA256Input_step x c) = (Message_Block c)[Message_Block_Index c := x]"
    "pair_len (Length_High (SHA256Input_step x c)) (Length_Low (SHA256Input_step x c)) = pair_len (Length_High c) (Length_Low c) + 8"
    "Computed (SHA256Input_step x c) = Computed c" "Corrupted (SHA256Input_step x c) = 0"
    "Message_Block_Index (SHA256Input_step x c) = (if Suc (Message_Block_Index c) = 64 then 0 else Suc (Message_Block_Index c))"
    "Intermediate_Hash (SHA256Input_step x c) = (if Suc (Message_Block_Index c) = 64
       then sha2_compress sha256_functions (block_words (bits_of ((Message_Block c)[Message_Block_Index c := x]))) (Intermediate_Hash c)
       else Intermediate_Hash c)"
proof -
  have len: "pair_len (if Length_Low c + 8 < Length_Low c then Length_High c + 1 else Length_High c) (Length_Low c + 8) =
      pair_len (Length_High c) (Length_Low c) + 8"
    using pair_add(1) [of "Length_High c" "Length_Low c" 8] assms(4) by simp
  show "Message_Block (SHA256Input_step x c) = (Message_Block c)[Message_Block_Index c := x]"
    "pair_len (Length_High (SHA256Input_step x c)) (Length_Low (SHA256Input_step x c)) = pair_len (Length_High c) (Length_Low c) + 8"
    "Computed (SHA256Input_step x c) = Computed c" "Corrupted (SHA256Input_step x c) = 0"
    "Message_Block_Index (SHA256Input_step x c) = (if Suc (Message_Block_Index c) = 64 then 0 else Suc (Message_Block_Index c))"
    "Intermediate_Hash (SHA256Input_step x c) = (if Suc (Message_Block_Index c) = 64
       then sha2_compress sha256_functions (block_words (bits_of ((Message_Block c)[Message_Block_Index c := x]))) (Intermediate_Hash c)
       else Intermediate_Hash c)"
    using assms len by (simp_all add: SHA256Input_step_def Let_def SHA224_256AddLength_result SHA256_process split: if_splits)
qed

lemma SHA256_length_stores:
  assumes "length b = 64"
  shows "b[56 := ucast (drop_bit 24 hi), 57 := ucast (drop_bit 16 hi), 58 := ucast (drop_bit 8 hi),
      59 := ucast hi, 60 := ucast (drop_bit 24 lo), 61 := ucast (drop_bit 16 lo),
      62 := ucast (drop_bit 8 lo), 63 := ucast lo] =
    take 56 b @ number_bytes 8 (pair_len hi (lo :: 32 word))"
  using drop_stores [of b 56 "number_bytes 8 (pair_len hi lo)"] assms by (simp add: pair_bytes_32)

lemma SHA256_compress_length [simp]: "length H = 8 \<Longrightarrow> length (sha2_compress sha256_functions M H) = 8"
  by (simp add: sha2_compress_def add_words_def split: prod.split)

lemma SHA224_256Finalize_result:
  assumes "length (Message_Block c) = 64" "Message_Block_Index c < 64" "length (Intermediate_Hash c) = 8"
  shows "Computed (SHA224_256Finalize c p)" "Corrupted (SHA224_256Finalize c p) = Corrupted c" "length (Message_Block (SHA224_256Finalize c p)) = 64"
    "Intermediate_Hash (SHA224_256Finalize c p) =
      (let b = take (Message_Block_Index c) (Message_Block c) @ [p];
           L = number_bytes 8 (pair_len (Length_High c) (Length_Low c)) in
       if Message_Block_Index c \<ge> 64 - 8 then
         sha2_compress sha256_functions (block_words (bits_of (replicate (64 - 8) 0 @ L)))
           (sha2_compress sha256_functions (block_words (bits_of (b @ replicate (64 - Suc (Message_Block_Index c)) 0))) (Intermediate_Hash c))
       else sha2_compress sha256_functions (block_words (bits_of (b @ replicate (64 - 8 - Suc (Message_Block_Index c)) 0 @ L))) (Intermediate_Hash c))"
proof -
  let ?i = "Message_Block_Index c" and ?B = "(Message_Block c)[Message_Block_Index c := p]"
  have b: "take (Suc ?i) ?B = take ?i (Message_Block c) @ [p]" using assms by (simp add: take_Suc_conv_app_nth)
  have full: "store_zeros 64 (Suc ?i) ?B = (64, take ?i (Message_Block c) @ [p] @ replicate (64 - Suc ?i) 0)"
    using assms b by (simp add: store_zeros_result)
  have part: "store_zeros 56 (Suc ?i) ?B = (56, take ?i (Message_Block c) @ [p] @ replicate (56 - Suc ?i) 0 @ drop 56 ?B)" if "?i < 56"
    using assms b that by (simp add: store_zeros_result)
  have empty: "length xs = 64 \<Longrightarrow> store_zeros 56 0 xs = (56, replicate 56 0 @ drop 56 xs)" for xs
    by (simp add: store_zeros_result)
  have clear: "length xs = 64 \<Longrightarrow> store_zeros 64 0 xs = (64, replicate 64 0)" for xs
    by (simp add: store_zeros_result)
  show "Computed (SHA224_256Finalize c p)" "Corrupted (SHA224_256Finalize c p) = Corrupted c" "length (Message_Block (SHA224_256Finalize c p)) = 64"
    "Intermediate_Hash (SHA224_256Finalize c p) =
      (let b = take (Message_Block_Index c) (Message_Block c) @ [p];
           L = number_bytes 8 (pair_len (Length_High c) (Length_Low c)) in
       if Message_Block_Index c \<ge> 64 - 8 then
         sha2_compress sha256_functions (block_words (bits_of (replicate (64 - 8) 0 @ L)))
           (sha2_compress sha256_functions (block_words (bits_of (b @ replicate (64 - Suc (Message_Block_Index c)) 0))) (Intermediate_Hash c))
       else sha2_compress sha256_functions (block_words (bits_of (b @ replicate (64 - 8 - Suc (Message_Block_Index c)) 0 @ L))) (Intermediate_Hash c))"
    using assms part take_pad [of ?i 56 p 0]
    by (simp_all add: SHA224_256Finalize_def SHA224_256PadMessage_def Let_def full empty clear SHA256_length_stores SHA256_process split: if_splits)
qed

interpretation sha256: hash_stream 64 8 8 "sha2_compress sha256_functions" Message_Block_Index Message_Block
  "\<lambda>c. pair_len (Length_High c) (Length_Low c)" Intermediate_Hash Computed Corrupted SHA256Input_step SHA256Input_loop
  "\<lambda>p c. SHA224_256Finalize c p" SHA224_256AddLength
  by unfold_locales
    (simp_all add: SHA256Input_step_result SHA224_256Finalize_result SHA224_256AddLength_result pair_add_32)

lemma SHA256_digest_byte:
  "ucast (drop_bit (8 * (3 - (i AND 3))) (H ! drop_bit 2 i)) = hash_byte (H :: 32 word list) i"
  by (simp add: hash_byte_def and_masks)

interpretation sha224_api: hash_function 64 8 8 "sha2_compress sha256_functions" Message_Block_Index Message_Block
  "\<lambda>c. pair_len (Length_High c) (Length_Low c)" Intermediate_Hash Computed Corrupted SHA256Input_step SHA256Input_loop
  "\<lambda>p c. SHA224_256Finalize c p" SHA224_256AddLength SHA224_H0 28
  SHA224Reset SHA224Input SHA224FinalBits SHA224Result "\<lambda>c. c\<lparr>Corrupted := shaStateError\<rparr>"
  by unfold_locales
    (simp_all add: SHA224Reset_def SHA224_256Reset_def SHA224_H0_def SHA256Input_def SHA224Input_def SHA256FinalBits_def SHA224FinalBits_def
      SHA224Result_def SHA224_256ResultN_def pair_len_def pad_byte_def SHA256_digest_byte Let_def)

interpretation sha256_api: hash_function 64 8 8 "sha2_compress sha256_functions" Message_Block_Index Message_Block
  "\<lambda>c. pair_len (Length_High c) (Length_Low c)" Intermediate_Hash Computed Corrupted SHA256Input_step SHA256Input_loop
  "\<lambda>p c. SHA224_256Finalize c p" SHA224_256AddLength SHA256_H0 32
  SHA256Reset SHA256Input SHA256FinalBits SHA256Result "\<lambda>c. c\<lparr>Corrupted := shaStateError\<rparr>"
  by unfold_locales
    (simp_all add: SHA256Reset_def SHA224_256Reset_def SHA256_H0_def SHA256Input_def SHA256FinalBits_def
      SHA256Result_def SHA224_256ResultN_def pair_len_def pad_byte_def SHA256_digest_byte Let_def)

end
