(* ===== verification/Sha512.thy ===== *)
theory Sha512
  imports Sha_Stream
begin

text \<open>
  SHA-384 and SHA-512 of \<open>src/sha384-512.c\<close> with 64 bit words (\<open>USE_32BIT_ONLY\<close> is not defined): the
  context they share, its operations and the digests.
\<close>

section \<open>The operations\<close>

record SHA512Context =
  Intermediate_Hash :: "64 word list"
  Length_Low :: "64 word"
  Length_High :: "64 word"
  Message_Block_Index :: nat
  Message_Block :: "byte list"
  Computed :: bool
  Corrupted :: int

abbreviation (input) SHA512_Message_Block_Size :: nat where "SHA512_Message_Block_Size \<equiv> 128"
abbreviation (input) SHA384HashSize :: nat where "SHA384HashSize \<equiv> 48"
abbreviation (input) SHA512HashSize :: nat where "SHA512HashSize \<equiv> 64"

definition SHA512_SHR :: "nat \<Rightarrow> 64 word \<Rightarrow> 64 word" where
  "SHA512_SHR bits w = drop_bit bits w"

definition SHA512_ROTR :: "nat \<Rightarrow> 64 word \<Rightarrow> 64 word" where
  "SHA512_ROTR bits w = drop_bit bits w OR push_bit (64 - bits) w"

definition SHA512_SIGMA0 :: "64 word \<Rightarrow> 64 word" where
  "SHA512_SIGMA0 w = SHA512_ROTR 28 w XOR SHA512_ROTR 34 w XOR SHA512_ROTR 39 w"

definition SHA512_SIGMA1 :: "64 word \<Rightarrow> 64 word" where
  "SHA512_SIGMA1 w = SHA512_ROTR 14 w XOR SHA512_ROTR 18 w XOR SHA512_ROTR 41 w"

definition SHA512_sigma0 :: "64 word \<Rightarrow> 64 word" where
  "SHA512_sigma0 w = SHA512_ROTR 1 w XOR SHA512_ROTR 8 w XOR SHA512_SHR 7 w"

definition SHA512_sigma1 :: "64 word \<Rightarrow> 64 word" where
  "SHA512_sigma1 w = SHA512_ROTR 19 w XOR SHA512_ROTR 61 w XOR SHA512_SHR 6 w"

definition SHA384_512AddLength :: "SHA512Context \<Rightarrow> 32 word \<Rightarrow> SHA512Context" where
  "SHA384_512AddLength context n =
     (let addTemp = Length_Low context;
          c1 = context\<lparr>Length_Low := Length_Low context + ucast n\<rparr> in
      if Length_Low c1 < addTemp then
        (let c2 = c1\<lparr>Length_High := Length_High c1 + 1\<rparr> in c2\<lparr>Corrupted := (if Length_High c2 = 0 then 1 else 0)\<rparr>)
      else c1\<lparr>Corrupted := 0\<rparr>)"

definition SHA384_H0 :: "64 word list" where
  "SHA384_H0 = [0xCBBB9D5DC1059ED8, 0x629A292A367CD507, 0x9159015A3070DD17, 0x152FECD8F70E5939, 0x67332667FFC00B31,
     0x8EB44A8768581511, 0xDB0C2E0D64F98FA7, 0x47B5481DBEFA4FA4]"

definition SHA512_H0 :: "64 word list" where
  "SHA512_H0 = [0x6A09E667F3BCC908, 0xBB67AE8584CAA73B, 0x3C6EF372FE94F82B, 0xA54FF53A5F1D36F1, 0x510E527FADE682D1,
     0x9B05688C2B3E6C1F, 0x1F83D9ABFB41BD6B, 0x5BE0CD19137E2179]"

definition SHA512_K :: "64 word list" where
  "SHA512_K = [
     0x428A2F98D728AE22, 0x7137449123EF65CD, 0xB5C0FBCFEC4D3B2F, 0xE9B5DBA58189DBBC, 0x3956C25BF348B538,
     0x59F111F1B605D019, 0x923F82A4AF194F9B, 0xAB1C5ED5DA6D8118, 0xD807AA98A3030242, 0x12835B0145706FBE,
     0x243185BE4EE4B28C, 0x550C7DC3D5FFB4E2, 0x72BE5D74F27B896F, 0x80DEB1FE3B1696B1, 0x9BDC06A725C71235,
     0xC19BF174CF692694, 0xE49B69C19EF14AD2, 0xEFBE4786384F25E3, 0x0FC19DC68B8CD5B5, 0x240CA1CC77AC9C65,
     0x2DE92C6F592B0275, 0x4A7484AA6EA6E483, 0x5CB0A9DCBD41FBD4, 0x76F988DA831153B5, 0x983E5152EE66DFAB,
     0xA831C66D2DB43210, 0xB00327C898FB213F, 0xBF597FC7BEEF0EE4, 0xC6E00BF33DA88FC2, 0xD5A79147930AA725,
     0x06CA6351E003826F, 0x142929670A0E6E70, 0x27B70A8546D22FFC, 0x2E1B21385C26C926, 0x4D2C6DFC5AC42AED,
     0x53380D139D95B3DF, 0x650A73548BAF63DE, 0x766A0ABB3C77B2A8, 0x81C2C92E47EDAEE6, 0x92722C851482353B,
     0xA2BFE8A14CF10364, 0xA81A664BBC423001, 0xC24B8B70D0F89791, 0xC76C51A30654BE30, 0xD192E819D6EF5218,
     0xD69906245565A910, 0xF40E35855771202A, 0x106AA07032BBD1B8, 0x19A4C116B8D2D0C8, 0x1E376C085141AB53,
     0x2748774CDF8EEB99, 0x34B0BCB5E19B48A8, 0x391C0CB3C5C95A63, 0x4ED8AA4AE3418ACB, 0x5B9CCA4F7763E373,
     0x682E6FF3D6B2B8A3, 0x748F82EE5DEFB2FC, 0x78A5636F43172F60, 0x84C87814A1F0AB72, 0x8CC702081A6439EC,
     0x90BEFFFA23631E28, 0xA4506CEBDE82BDE9, 0xBEF9A3F7B2C67915, 0xC67178F2E372532B, 0xCA273ECEEA26619C,
     0xD186B8C721C0C207, 0xEADA7DD6CDE0EB1E, 0xF57D4F7FEE6ED178, 0x06F067AA72176FBA, 0x0A637DC5A2C898A6,
     0x113F9804BEF90DAE, 0x1B710B35131C471B, 0x28DB77F523047D84, 0x32CAAB7B40C72493, 0x3C9EBE0A15C9BEBC,
     0x431D67C49C100D4C, 0x4CC5D4BECB3E42B6, 0x597F299CFC657E2A, 0x5FCB6FAB3AD6FAEC, 0x6C44198C4A475817]"

definition SHA512_word :: "byte list \<Rightarrow> nat \<Rightarrow> 64 word" where
  "SHA512_word blk t = (let t8 = 8 * t in
     push_bit 56 (ucast (blk ! (t8))) OR push_bit 48 (ucast (blk ! (t8 + 1))) OR push_bit 40 (ucast (blk ! (t8 + 2))) OR push_bit 32 (ucast (blk ! (t8 + 3))) OR push_bit 24 (ucast (blk ! (t8 + 4))) OR push_bit 16 (ucast (blk ! (t8 + 5))) OR push_bit 8 (ucast (blk ! (t8 + 6))) OR ucast (blk ! (t8 + 7)))"

definition SHA512_schedule :: "byte list \<Rightarrow> 64 word list" where
  "SHA512_schedule blk =
     fold (\<lambda>t W. W @ [SHA512_sigma1 (W ! (t - 2)) + W ! (t - 7) + SHA512_sigma0 (W ! (t - 15)) + W ! (t - 16)]) [16..<80]
       (map (SHA512_word blk) [0..<16])"

definition SHA384_512_round :: "64 word list \<Rightarrow> nat \<Rightarrow> 64 word8 \<Rightarrow> 64 word8" where
  "SHA384_512_round W t = (\<lambda>(A, B, C, D, E, F, G, H).
     (let temp1 = H + SHA512_SIGMA1 E + SHA_Ch E F G + SHA512_K ! t + W ! t;
          temp2 = SHA512_SIGMA0 A + SHA_Maj A B C in
      (temp1 + temp2, A, B, C, D + temp1, E, F, G)))"

definition SHA384_512ProcessMessageBlock :: "SHA512Context \<Rightarrow> SHA512Context" where
  "SHA384_512ProcessMessageBlock context =
     (let W = SHA512_schedule (Message_Block context);
          h = Intermediate_Hash context;
          (A, B, C, D, E, F, G, H) =
            fold (SHA384_512_round W) [0..<80] (h ! 0, h ! 1, h ! 2, h ! 3, h ! 4, h ! 5, h ! 6, h ! 7) in
      context\<lparr>Intermediate_Hash := [h ! 0 + A, h ! 1 + B, h ! 2 + C, h ! 3 + D, h ! 4 + E, h ! 5 + F, h ! 6 + G, h ! 7 + H],
        Message_Block_Index := 0\<rparr>)"

definition SHA384_512PadMessage :: "SHA512Context \<Rightarrow> byte \<Rightarrow> SHA512Context" where
  "SHA384_512PadMessage context Pad_Byte =
     (let i = Message_Block_Index context;
          b = (Message_Block context)[i := Pad_Byte];
          c1 = (if i \<ge> SHA512_Message_Block_Size - 16 then
                  (let (i1, b1) = store_zeros SHA512_Message_Block_Size (Suc i) b in
                   SHA384_512ProcessMessageBlock (context\<lparr>Message_Block := b1, Message_Block_Index := i1\<rparr>))
                else context\<lparr>Message_Block := b, Message_Block_Index := Suc i\<rparr>);
          (i2, b2) = store_zeros (SHA512_Message_Block_Size - 16) (Message_Block_Index c1) (Message_Block c1) in
      SHA384_512ProcessMessageBlock (c1\<lparr>Message_Block_Index := i2, Message_Block :=
        b2[112 := ucast (drop_bit 56 (Length_High c1)), 113 := ucast (drop_bit 48 (Length_High c1)), 114 := ucast (drop_bit 40 (Length_High c1)),
           115 := ucast (drop_bit 32 (Length_High c1)), 116 := ucast (drop_bit 24 (Length_High c1)), 117 := ucast (drop_bit 16 (Length_High c1)),
           118 := ucast (drop_bit 8 (Length_High c1)), 119 := ucast (Length_High c1), 120 := ucast (drop_bit 56 (Length_Low c1)),
           121 := ucast (drop_bit 48 (Length_Low c1)), 122 := ucast (drop_bit 40 (Length_Low c1)), 123 := ucast (drop_bit 32 (Length_Low c1)),
           124 := ucast (drop_bit 24 (Length_Low c1)), 125 := ucast (drop_bit 16 (Length_Low c1)), 126 := ucast (drop_bit 8 (Length_Low c1)),
           127 := ucast (Length_Low c1)]\<rparr>))"

definition SHA384_512Finalize :: "SHA512Context \<Rightarrow> byte \<Rightarrow> SHA512Context" where
  "SHA384_512Finalize context Pad_Byte =
     (let c1 = SHA384_512PadMessage context Pad_Byte in
      c1\<lparr>Message_Block := snd (store_zeros SHA512_Message_Block_Size 0 (Message_Block c1)),
        Length_Low := 0, Length_High := 0, Computed := True\<rparr>)"

definition SHA384_512Reset :: "SHA512Context option \<Rightarrow> 64 word list \<Rightarrow> int \<times> SHA512Context option" where
  "SHA384_512Reset context H0 =
     (case context of
        None \<Rightarrow> (shaNull, None)
      | Some c \<Rightarrow>
          (shaSuccess, Some (c\<lparr>Length_Low := 0, Length_High := 0, Message_Block_Index := 0,
             Intermediate_Hash := [H0 ! 0, H0 ! 1, H0 ! 2, H0 ! 3, H0 ! 4, H0 ! 5, H0 ! 6, H0 ! 7],
             Computed := False, Corrupted := 0\<rparr>)))"

definition SHA512Input_step :: "byte \<Rightarrow> SHA512Context \<Rightarrow> SHA512Context" where
  "SHA512Input_step x context =
     (let i = Message_Block_Index context;
          c1 = context\<lparr>Message_Block := (Message_Block context)[i := x AND 0xFF], Message_Block_Index := Suc i\<rparr>;
          c2 = SHA384_512AddLength c1 8 in
      if Corrupted c2 = 0 \<and> Message_Block_Index c2 = SHA512_Message_Block_Size then SHA384_512ProcessMessageBlock c2 else c2)"

fun SHA512Input_loop :: "byte list \<Rightarrow> SHA512Context \<Rightarrow> SHA512Context" where
  "SHA512Input_loop [] context = context"
| "SHA512Input_loop (x # xs) context = (if Corrupted context \<noteq> 0 then context else SHA512Input_loop xs (SHA512Input_step x context))"

definition SHA512Input :: "SHA512Context option \<Rightarrow> byte list option \<Rightarrow> 32 word \<Rightarrow> int \<times> SHA512Context option" where
  "SHA512Input context message_array len =
     (if len = 0 then (shaSuccess, context)
      else
        (case (context, message_array) of
           (Some c, Some xs) \<Rightarrow>
             (if Computed c then (shaStateError, Some (c\<lparr>Corrupted := shaStateError\<rparr>))
              else if Corrupted c \<noteq> 0 then (Corrupted c, context)
              else (shaSuccess, Some (SHA512Input_loop (take (unat len) xs) c)))
         | _ \<Rightarrow> (shaNull, context)))"

definition SHA512FinalBits :: "SHA512Context option \<Rightarrow> byte \<Rightarrow> 32 word \<Rightarrow> int \<times> SHA512Context option" where
  "SHA512FinalBits context message_bits len =
     (let masks = [0x00, 0x80, 0xC0, 0xE0, 0xF0, 0xF8, 0xFC, 0xFE];
          markbit = [0x80, 0x40, 0x20, 0x10, 0x08, 0x04, 0x02, 0x01] in
      if len = 0 then (shaSuccess, context)
      else
        (case context of
           None \<Rightarrow> (shaNull, None)
         | Some c \<Rightarrow>
             (if Computed c \<or> len \<ge> 8 \<or> len = 0 then (shaStateError, Some (c\<lparr>Corrupted := shaStateError\<rparr>))
              else if Corrupted c \<noteq> 0 then (Corrupted c, context)
              else (shaSuccess, Some (SHA384_512Finalize (SHA384_512AddLength c len)
                      ((message_bits AND masks ! unat len) OR markbit ! unat len))))))"

definition SHA384_512ResultN :: "SHA512Context option \<Rightarrow> byte list option \<Rightarrow> nat \<Rightarrow> int \<times> SHA512Context option \<times> byte list option" where
  "SHA384_512ResultN context Message_Digest HashSize =
     (case (context, Message_Digest) of
        (Some c, Some d) \<Rightarrow>
          (if Corrupted c \<noteq> 0 then (Corrupted c, context, Message_Digest)
           else
             (let c1 = (if \<not> Computed c then SHA384_512Finalize c 0x80 else c);
                  d1 = fold (\<lambda>i d. d[i := ucast (drop_bit (8 * (7 - (i mod 8))) (Intermediate_Hash c1 ! drop_bit 3 i))])
                         [0..<HashSize] d in
              (shaSuccess, Some c1, Some d1)))
      | _ \<Rightarrow> (shaNull, context, Message_Digest))"

definition SHA384Reset :: "SHA512Context option \<Rightarrow> int \<times> SHA512Context option" where
  "SHA384Reset context = SHA384_512Reset context SHA384_H0"

definition SHA384Input :: "SHA512Context option \<Rightarrow> byte list option \<Rightarrow> 32 word \<Rightarrow> int \<times> SHA512Context option" where
  "SHA384Input context message_array len = SHA512Input context message_array len"

definition SHA384FinalBits :: "SHA512Context option \<Rightarrow> byte \<Rightarrow> 32 word \<Rightarrow> int \<times> SHA512Context option" where
  "SHA384FinalBits context message_bits len = SHA512FinalBits context message_bits len"

definition SHA384Result :: "SHA512Context option \<Rightarrow> byte list option \<Rightarrow> int \<times> SHA512Context option \<times> byte list option" where
  "SHA384Result context Message_Digest = SHA384_512ResultN context Message_Digest SHA384HashSize"

definition SHA512Reset :: "SHA512Context option \<Rightarrow> int \<times> SHA512Context option" where
  "SHA512Reset context = SHA384_512Reset context SHA512_H0"

definition SHA512Result :: "SHA512Context option \<Rightarrow> byte list option \<Rightarrow> int \<times> SHA512Context option \<times> byte list option" where
  "SHA512Result context Message_Digest = SHA384_512ResultN context Message_Digest SHA512HashSize"

section \<open>The laws\<close>

lemma SHA512_rotations: "0 < n \<Longrightarrow> n < 64 \<Longrightarrow> SHA512_ROTR n w = word_rotr n w"
  using rotate_right [of n w] by (simp add: SHA512_ROTR_def)

lemma SHA512_sums: "SHA512_SIGMA0 = Sum0 sha512_functions" "SHA512_SIGMA1 = Sum1 sha512_functions"
  "SHA512_sigma0 = sigma0 sha512_functions" "SHA512_sigma1 = sigma1 sha512_functions" "SHA512_K = sha2_K sha512_functions"
  by (simp_all add: fun_eq_iff sha512_functions_def SHA512_SIGMA0_def SHA512_SIGMA1_def SHA512_sigma0_def SHA512_sigma1_def SHA512_K_def
      SHA512_SHR_def SHA512_rotations)

lemma SHA512_K_length: "length (sha2_K sha512_functions) = 80"
  by (simp add: sha512_functions_def)

lemma SHA512_block_words:
  assumes "length blk = 128"
  shows "map (SHA512_word blk) [0..<16] = block_words (bits_of blk)"
proof -
  have "SHA512_word blk t = word_of_bits (take 64 (drop (t * 64) (bits_of blk)))" if "t < 16" for t
  proof (rule bit_word_eqI)
    fix n
    assume "n < LENGTH(64)"
    then have "n < 64" by simp
    note pos = byte_position_64 [OF this]
    have "bit (word_of_bits (take 64 (drop (t * 64) (bits_of blk))) :: 64 word) n = bit (blk ! (8 * t + (7 - n div 8))) (n mod 8)"
      using bit_block_word [of 8 t blk n, where 'a = 64] assms that \<open>n < 64\<close> by simp
    then show "bit (SHA512_word blk t) n = bit (word_of_bits (take 64 (drop (t * 64) (bits_of blk))) :: 64 word) n"
      using pos by (elim disjE conjE; simp add: SHA512_word_def Let_def bit_simps less_imp_diff_less)
  qed
  then show ?thesis by (simp add: block_words_def)
qed

lemma SHA512_schedule_words:
  assumes "length blk = 128"
  shows "SHA512_schedule blk = map (sha2_W sha512_functions (block_words (bits_of blk))) [0..<80]"
proof -
  let ?M = "block_words (bits_of blk) :: 64 word list" and ?W = "sha2_W sha512_functions (block_words (bits_of blk))"
  have "?M = map ?W [0..<16]"
    by (rule nth_equalityI) (simp_all add: block_words_def sha2_W.simps)
  moreover have "SHA512_sigma1 (map ?W [0..<t] ! (t - 2)) + map ?W [0..<t] ! (t - 7) +
      SHA512_sigma0 (map ?W [0..<t] ! (t - 15)) + map ?W [0..<t] ! (t - 16) = ?W t" if "16 \<le> t" for t
    using that by (simp add: SHA512_sums sha2_W.simps [of _ _ t])
  ultimately have "fold (\<lambda>t W. W @ [SHA512_sigma1 (W ! (t - 2)) + W ! (t - 7) + SHA512_sigma0 (W ! (t - 15)) + W ! (t - 16)]) [16..<80] ?M =
      map ?W [0..<80]"
    using schedule_fill [of 16 "\<lambda>W t. SHA512_sigma1 (W ! (t - 2)) + W ! (t - 7) + SHA512_sigma0 (W ! (t - 15)) + W ! (t - 16)" ?W 80]
    by (simp del: upt_rec_numeral upt_conv_Cons)
  then show ?thesis unfolding SHA512_schedule_def SHA512_block_words [OF assms] .
qed

lemma SHA512_rounds_fold:
  assumes "\<And>t. t < n \<Longrightarrow> W ! t = sha2_W sha512_functions M t"
  shows "fold (SHA384_512_round W) [0..<n] s = fold (sha2_round sha512_functions M) [0..<n] s"
  by (rule fold_cong) (auto simp: assms SHA384_512_round_def sha2_round_def SHA512_sums sha_macros fun_eq_iff)

lemma SHA512_process:
  assumes "length (Message_Block c) = 128" and "length (Intermediate_Hash c) = 8"
  shows "SHA384_512ProcessMessageBlock c = c\<lparr>Intermediate_Hash :=
    sha2_compress sha512_functions (block_words (bits_of (Message_Block c))) (Intermediate_Hash c), Message_Block_Index := 0\<rparr>"
proof -
  let ?M = "block_words (bits_of (Message_Block c)) :: 64 word list"
  obtain h0 h1 h2 h3 h4 h5 h6 h7 where h: "Intermediate_Hash c = [h0, h1, h2, h3, h4, h5, h6, h7]"
    using assms(2) by (auto simp: numeral_eq_Suc length_Suc_conv)
  have "fold (SHA384_512_round (SHA512_schedule (Message_Block c))) [0..<80] s = fold (sha2_round sha512_functions ?M) [0..<80] s" for s
    by (rule SHA512_rounds_fold) (simp add: SHA512_schedule_words [OF assms(1)])
  then show ?thesis
    by (simp add: SHA384_512ProcessMessageBlock_def sha2_compress_def SHA512_K_length Let_def h add_words_def split: prod.split
        del: upt_rec_numeral upt_conv_Cons)
qed

lemma SHA384_512AddLength_result:
  assumes "pair_len (Length_High c) (Length_Low c) + unat n < 2 ^ 128"
  shows "SHA384_512AddLength c n = c\<lparr>Length_Low := Length_Low c + ucast n,
      Length_High := (if Length_Low c + ucast n < Length_Low c then Length_High c + 1 else Length_High c), Corrupted := 0\<rparr>"
  using pair_add(2) [of "Length_High c" "Length_Low c" "ucast n"] assms
  by (simp add: SHA384_512AddLength_def Let_def unat_ucast_64)

lemma SHA512Input_step_result:
  assumes "length (Message_Block c) = 128" "Message_Block_Index c < 128" "length (Intermediate_Hash c) = 8"
    and "pair_len (Length_High c) (Length_Low c) + 8 < 2 ^ 128"
  shows "Message_Block (SHA512Input_step x c) = (Message_Block c)[Message_Block_Index c := x]"
    "pair_len (Length_High (SHA512Input_step x c)) (Length_Low (SHA512Input_step x c)) = pair_len (Length_High c) (Length_Low c) + 8"
    "Computed (SHA512Input_step x c) = Computed c" "Corrupted (SHA512Input_step x c) = 0"
    "Message_Block_Index (SHA512Input_step x c) = (if Suc (Message_Block_Index c) = 128 then 0 else Suc (Message_Block_Index c))"
    "Intermediate_Hash (SHA512Input_step x c) = (if Suc (Message_Block_Index c) = 128
       then sha2_compress sha512_functions (block_words (bits_of ((Message_Block c)[Message_Block_Index c := x]))) (Intermediate_Hash c)
       else Intermediate_Hash c)"
proof -
  have len: "pair_len (if Length_Low c + 8 < Length_Low c then Length_High c + 1 else Length_High c) (Length_Low c + 8) =
      pair_len (Length_High c) (Length_Low c) + 8"
    using pair_add(1) [of "Length_High c" "Length_Low c" 8] assms(4) by simp
  show "Message_Block (SHA512Input_step x c) = (Message_Block c)[Message_Block_Index c := x]"
    "pair_len (Length_High (SHA512Input_step x c)) (Length_Low (SHA512Input_step x c)) = pair_len (Length_High c) (Length_Low c) + 8"
    "Computed (SHA512Input_step x c) = Computed c" "Corrupted (SHA512Input_step x c) = 0"
    "Message_Block_Index (SHA512Input_step x c) = (if Suc (Message_Block_Index c) = 128 then 0 else Suc (Message_Block_Index c))"
    "Intermediate_Hash (SHA512Input_step x c) = (if Suc (Message_Block_Index c) = 128
       then sha2_compress sha512_functions (block_words (bits_of ((Message_Block c)[Message_Block_Index c := x]))) (Intermediate_Hash c)
       else Intermediate_Hash c)"
    using assms len by (simp_all add: SHA512Input_step_def Let_def SHA384_512AddLength_result SHA512_process split: if_splits)
qed

lemma SHA512_length_stores:
  assumes "length b = 128"
  shows "b[112 := ucast (drop_bit 56 hi), 113 := ucast (drop_bit 48 hi), 114 := ucast (drop_bit 40 hi),
      115 := ucast (drop_bit 32 hi), 116 := ucast (drop_bit 24 hi), 117 := ucast (drop_bit 16 hi),
      118 := ucast (drop_bit 8 hi), 119 := ucast hi, 120 := ucast (drop_bit 56 lo),
      121 := ucast (drop_bit 48 lo), 122 := ucast (drop_bit 40 lo), 123 := ucast (drop_bit 32 lo),
      124 := ucast (drop_bit 24 lo), 125 := ucast (drop_bit 16 lo), 126 := ucast (drop_bit 8 lo),
      127 := ucast lo] =
    take 112 b @ number_bytes 16 (pair_len hi (lo :: 64 word))"
  using drop_stores [of b 112 "number_bytes 16 (pair_len hi lo)"] assms by (simp add: pair_bytes_64)

lemma SHA512_compress_length [simp]: "length H = 8 \<Longrightarrow> length (sha2_compress sha512_functions M H) = 8"
  by (simp add: sha2_compress_def add_words_def split: prod.split)

lemma SHA384_512Finalize_result:
  assumes "length (Message_Block c) = 128" "Message_Block_Index c < 128" "length (Intermediate_Hash c) = 8"
  shows "Computed (SHA384_512Finalize c p)" "Corrupted (SHA384_512Finalize c p) = Corrupted c" "length (Message_Block (SHA384_512Finalize c p)) = 128"
    "Intermediate_Hash (SHA384_512Finalize c p) =
      (let b = take (Message_Block_Index c) (Message_Block c) @ [p];
           L = number_bytes 16 (pair_len (Length_High c) (Length_Low c)) in
       if Message_Block_Index c \<ge> 128 - 16 then
         sha2_compress sha512_functions (block_words (bits_of (replicate (128 - 16) 0 @ L)))
           (sha2_compress sha512_functions (block_words (bits_of (b @ replicate (128 - Suc (Message_Block_Index c)) 0))) (Intermediate_Hash c))
       else sha2_compress sha512_functions (block_words (bits_of (b @ replicate (128 - 16 - Suc (Message_Block_Index c)) 0 @ L))) (Intermediate_Hash c))"
proof -
  let ?i = "Message_Block_Index c" and ?B = "(Message_Block c)[Message_Block_Index c := p]"
  have b: "take (Suc ?i) ?B = take ?i (Message_Block c) @ [p]" using assms by (simp add: take_Suc_conv_app_nth)
  have full: "store_zeros 128 (Suc ?i) ?B = (128, take ?i (Message_Block c) @ [p] @ replicate (128 - Suc ?i) 0)"
    using assms b by (simp add: store_zeros_result)
  have part: "store_zeros 112 (Suc ?i) ?B = (112, take ?i (Message_Block c) @ [p] @ replicate (112 - Suc ?i) 0 @ drop 112 ?B)" if "?i < 112"
    using assms b that by (simp add: store_zeros_result)
  have empty: "length xs = 128 \<Longrightarrow> store_zeros 112 0 xs = (112, replicate 112 0 @ drop 112 xs)" for xs
    by (simp add: store_zeros_result)
  have clear: "length xs = 128 \<Longrightarrow> store_zeros 128 0 xs = (128, replicate 128 0)" for xs
    by (simp add: store_zeros_result)
  show "Computed (SHA384_512Finalize c p)" "Corrupted (SHA384_512Finalize c p) = Corrupted c" "length (Message_Block (SHA384_512Finalize c p)) = 128"
    "Intermediate_Hash (SHA384_512Finalize c p) =
      (let b = take (Message_Block_Index c) (Message_Block c) @ [p];
           L = number_bytes 16 (pair_len (Length_High c) (Length_Low c)) in
       if Message_Block_Index c \<ge> 128 - 16 then
         sha2_compress sha512_functions (block_words (bits_of (replicate (128 - 16) 0 @ L)))
           (sha2_compress sha512_functions (block_words (bits_of (b @ replicate (128 - Suc (Message_Block_Index c)) 0))) (Intermediate_Hash c))
       else sha2_compress sha512_functions (block_words (bits_of (b @ replicate (128 - 16 - Suc (Message_Block_Index c)) 0 @ L))) (Intermediate_Hash c))"
    using assms part take_pad [of ?i 112 p 0]
    by (simp_all add: SHA384_512Finalize_def SHA384_512PadMessage_def Let_def full empty clear SHA512_length_stores SHA512_process split: if_splits)
qed

interpretation sha512: hash_stream 128 16 8 "sha2_compress sha512_functions" Message_Block_Index Message_Block
  "\<lambda>c. pair_len (Length_High c) (Length_Low c)" Intermediate_Hash Computed Corrupted SHA512Input_step SHA512Input_loop
  "\<lambda>p c. SHA384_512Finalize c p" SHA384_512AddLength
  by unfold_locales
    (simp_all add: SHA512Input_step_result SHA384_512Finalize_result SHA384_512AddLength_result pair_add_64)

lemma SHA512_digest_byte:
  "ucast (drop_bit (8 * (7 - (i mod 8))) (H ! drop_bit 3 i)) = hash_byte (H :: 64 word list) i"
  by (simp add: hash_byte_def and_masks)

interpretation sha384_api: hash_function 128 16 8 "sha2_compress sha512_functions" Message_Block_Index Message_Block
  "\<lambda>c. pair_len (Length_High c) (Length_Low c)" Intermediate_Hash Computed Corrupted SHA512Input_step SHA512Input_loop
  "\<lambda>p c. SHA384_512Finalize c p" SHA384_512AddLength SHA384_H0 48
  SHA384Reset SHA384Input SHA384FinalBits SHA384Result "\<lambda>c. c\<lparr>Corrupted := shaStateError\<rparr>"
  by unfold_locales
    (simp_all add: SHA384Reset_def SHA384_512Reset_def SHA384_H0_def SHA512Input_def SHA384Input_def SHA512FinalBits_def SHA384FinalBits_def
      SHA384Result_def SHA384_512ResultN_def pair_len_def pad_byte_def SHA512_digest_byte Let_def)

interpretation sha512_api: hash_function 128 16 8 "sha2_compress sha512_functions" Message_Block_Index Message_Block
  "\<lambda>c. pair_len (Length_High c) (Length_Low c)" Intermediate_Hash Computed Corrupted SHA512Input_step SHA512Input_loop
  "\<lambda>p c. SHA384_512Finalize c p" SHA384_512AddLength SHA512_H0 64
  SHA512Reset SHA512Input SHA512FinalBits SHA512Result "\<lambda>c. c\<lparr>Corrupted := shaStateError\<rparr>"
  by unfold_locales
    (simp_all add: SHA512Reset_def SHA384_512Reset_def SHA512_H0_def SHA512Input_def SHA512FinalBits_def
      SHA512Result_def SHA384_512ResultN_def pair_len_def pad_byte_def SHA512_digest_byte Let_def)

end
