(* ===== verification/Usha.thy ===== *)
theory Usha
  imports Sha1 Sha256 Sha512
begin

text \<open>
  The unified interface of \<open>src/usha.c\<close> over the five algorithms, and the digest of a message that
  is given in pieces: it is that of the standard.
\<close>

section \<open>The interface\<close>

datatype SHAversion = SHA1 | SHA224 | SHA256 | SHA384 | SHA512

text \<open>The union of the contexts by its members: \<open>whichSha\<close> says which one is in use. A switch has a
  case for each of the versions, so its default is not reached.\<close>

record USHAContext =
  whichSha :: SHAversion
  sha1Context :: SHA1Context
  sha256Context :: SHA256Context
  sha512Context :: SHA512Context

definition on_sha1 :: "(SHA1Context option \<Rightarrow> int \<times> SHA1Context option) \<Rightarrow> USHAContext \<Rightarrow> int \<times> USHAContext" where
  "on_sha1 f c = (let (r, m) = f (Some (sha1Context c)) in (r, c\<lparr>sha1Context := the m\<rparr>))"

definition on_sha256 :: "(SHA256Context option \<Rightarrow> int \<times> SHA256Context option) \<Rightarrow> USHAContext \<Rightarrow> int \<times> USHAContext" where
  "on_sha256 f c = (let (r, m) = f (Some (sha256Context c)) in (r, c\<lparr>sha256Context := the m\<rparr>))"

definition on_sha512 :: "(SHA512Context option \<Rightarrow> int \<times> SHA512Context option) \<Rightarrow> USHAContext \<Rightarrow> int \<times> USHAContext" where
  "on_sha512 f c = (let (r, m) = f (Some (sha512Context c)) in (r, c\<lparr>sha512Context := the m\<rparr>))"

definition USHAReset :: "USHAContext option \<Rightarrow> SHAversion \<Rightarrow> int \<times> USHAContext option" where
  "USHAReset ctx v =
     (case ctx of
        None \<Rightarrow> (shaNull, None)
      | Some c \<Rightarrow>
          map_prod id Some
            (let c1 = c\<lparr>whichSha := v\<rparr> in
             case v of
               SHA1 \<Rightarrow> on_sha1 SHA1Reset c1
             | SHA224 \<Rightarrow> on_sha256 SHA224Reset c1
             | SHA256 \<Rightarrow> on_sha256 SHA256Reset c1
             | SHA384 \<Rightarrow> on_sha512 SHA384Reset c1
             | SHA512 \<Rightarrow> on_sha512 SHA512Reset c1))"

definition USHAInput :: "USHAContext option \<Rightarrow> byte list option \<Rightarrow> 32 word \<Rightarrow> int \<times> USHAContext option" where
  "USHAInput ctx bytes bytecount =
     (case ctx of
        None \<Rightarrow> (shaNull, None)
      | Some c \<Rightarrow>
          map_prod id Some
            (case whichSha c of
               SHA1 \<Rightarrow> on_sha1 (\<lambda>m. SHA1Input m bytes bytecount) c
             | SHA224 \<Rightarrow> on_sha256 (\<lambda>m. SHA224Input m bytes bytecount) c
             | SHA256 \<Rightarrow> on_sha256 (\<lambda>m. SHA256Input m bytes bytecount) c
             | SHA384 \<Rightarrow> on_sha512 (\<lambda>m. SHA384Input m bytes bytecount) c
             | SHA512 \<Rightarrow> on_sha512 (\<lambda>m. SHA512Input m bytes bytecount) c))"

definition USHAFinalBits :: "USHAContext option \<Rightarrow> byte \<Rightarrow> 32 word \<Rightarrow> int \<times> USHAContext option" where
  "USHAFinalBits ctx bits bitcount =
     (case ctx of
        None \<Rightarrow> (shaNull, None)
      | Some c \<Rightarrow>
          map_prod id Some
            (case whichSha c of
               SHA1 \<Rightarrow> on_sha1 (\<lambda>m. SHA1FinalBits m bits bitcount) c
             | SHA224 \<Rightarrow> on_sha256 (\<lambda>m. SHA224FinalBits m bits bitcount) c
             | SHA256 \<Rightarrow> on_sha256 (\<lambda>m. SHA256FinalBits m bits bitcount) c
             | SHA384 \<Rightarrow> on_sha512 (\<lambda>m. SHA384FinalBits m bits bitcount) c
             | SHA512 \<Rightarrow> on_sha512 (\<lambda>m. SHA512FinalBits m bits bitcount) c))"

definition USHAResult ::
  "USHAContext option \<Rightarrow> byte list option \<Rightarrow> int \<times> USHAContext option \<times> byte list option" where
  "USHAResult ctx Message_Digest =
     (case ctx of
        None \<Rightarrow> (shaNull, None, Message_Digest)
      | Some c \<Rightarrow>
          (case whichSha c of
             SHA1 \<Rightarrow> (let (r, m, d) = SHA1Result (Some (sha1Context c)) Message_Digest in (r, Some (c\<lparr>sha1Context := the m\<rparr>), d))
           | SHA224 \<Rightarrow> (let (r, m, d) = SHA224Result (Some (sha256Context c)) Message_Digest in (r, Some (c\<lparr>sha256Context := the m\<rparr>), d))
           | SHA256 \<Rightarrow> (let (r, m, d) = SHA256Result (Some (sha256Context c)) Message_Digest in (r, Some (c\<lparr>sha256Context := the m\<rparr>), d))
           | SHA384 \<Rightarrow> (let (r, m, d) = SHA384Result (Some (sha512Context c)) Message_Digest in (r, Some (c\<lparr>sha512Context := the m\<rparr>), d))
           | SHA512 \<Rightarrow> (let (r, m, d) = SHA512Result (Some (sha512Context c)) Message_Digest in (r, Some (c\<lparr>sha512Context := the m\<rparr>), d))))"

fun USHABlockSize :: "SHAversion \<Rightarrow> nat" where
  "USHABlockSize SHA1 = 64"
| "USHABlockSize SHA224 = 64"
| "USHABlockSize SHA256 = 64"
| "USHABlockSize SHA384 = 128"
| "USHABlockSize SHA512 = 128"

fun USHAHashSize :: "SHAversion \<Rightarrow> nat" where
  "USHAHashSize SHA1 = 20"
| "USHAHashSize SHA224 = 28"
| "USHAHashSize SHA256 = 32"
| "USHAHashSize SHA384 = 48"
| "USHAHashSize SHA512 = 64"

fun USHAHashSizeBits :: "SHAversion \<Rightarrow> nat" where
  "USHAHashSizeBits SHA1 = 160"
| "USHAHashSizeBits SHA224 = 224"
| "USHAHashSizeBits SHA256 = 256"
| "USHAHashSizeBits SHA384 = 384"
| "USHAHashSizeBits SHA512 = 512"

section \<open>Against the standard\<close>

fun fips_sha :: "SHAversion \<Rightarrow> bool list \<Rightarrow> bool list" where
  "fips_sha SHA1 = fips_sha1"
| "fips_sha SHA224 = fips_sha224"
| "fips_sha SHA256 = fips_sha256"
| "fips_sha SHA384 = fips_sha384"
| "fips_sha SHA512 = fips_sha512"

text \<open>A message has fewer bits than this.\<close>

fun sha_limit :: "SHAversion \<Rightarrow> nat" where
  "sha_limit SHA1 = 2 ^ 64"
| "sha_limit SHA224 = 2 ^ 64"
| "sha_limit SHA256 = 2 ^ 64"
| "sha_limit SHA384 = 2 ^ 128"
| "sha_limit SHA512 = 2 ^ 128"

text \<open>The arrays have the sizes of their declarations.\<close>

definition usha_arrays :: "USHAContext \<Rightarrow> bool" where
  "usha_arrays c \<longleftrightarrow> length (SHA1Context.Message_Block (sha1Context c)) = 64 \<and>
     length (SHA256Context.Message_Block (sha256Context c)) = 64 \<and> length (SHA512Context.Message_Block (sha512Context c)) = 128"

definition usha_holds :: "SHAversion \<Rightarrow> byte list \<Rightarrow> USHAContext \<Rightarrow> bool" where
  "usha_holds v m c \<longleftrightarrow> whichSha c = v \<and> usha_arrays c \<and>
     (case v of
        SHA1 \<Rightarrow> sha1.holds [0x67452301, 0xEFCDAB89, 0x98BADCFE, 0x10325476, 0xC3D2E1F0] m (8 * length m) (sha1Context c)
      | SHA224 \<Rightarrow> sha256.holds SHA224_H0 m (8 * length m) (sha256Context c)
      | SHA256 \<Rightarrow> sha256.holds SHA256_H0 m (8 * length m) (sha256Context c)
      | SHA384 \<Rightarrow> sha512.holds SHA384_H0 m (8 * length m) (sha512Context c)
      | SHA512 \<Rightarrow> sha512.holds SHA512_H0 m (8 * length m) (sha512Context c))"

definition usha_finished :: "SHAversion \<Rightarrow> bool list \<Rightarrow> USHAContext \<Rightarrow> bool" where
  "usha_finished v M c \<longleftrightarrow> whichSha c = v \<and> usha_arrays c \<and>
     (case v of
        SHA1 \<Rightarrow> sha1.finished [0x67452301, 0xEFCDAB89, 0x98BADCFE, 0x10325476, 0xC3D2E1F0] M (sha1Context c)
      | SHA224 \<Rightarrow> sha256.finished SHA224_H0 M (sha256Context c)
      | SHA256 \<Rightarrow> sha256.finished SHA256_H0 M (sha256Context c)
      | SHA384 \<Rightarrow> sha512.finished SHA384_H0 M (sha512Context c)
      | SHA512 \<Rightarrow> sha512.finished SHA512_H0 M (sha512Context c))"

lemmas usha_defs = on_sha1_def on_sha256_def on_sha512_def

lemma fips_by_sizes:
  "fips_hash 512 64 sha1_compress [0x67452301, 0xEFCDAB89, 0x98BADCFE, 0x10325476, 0xC3D2E1F0] 160 = fips_sha SHA1"
  "fips_hash 512 64 (sha2_compress sha256_functions) SHA224_H0 224 = fips_sha SHA224"
  "fips_hash 512 64 (sha2_compress sha256_functions) SHA256_H0 256 = fips_sha SHA256"
  "fips_hash 1024 128 (sha2_compress sha512_functions) SHA384_H0 384 = fips_sha SHA384"
  "fips_hash 1024 128 (sha2_compress sha512_functions) SHA512_H0 512 = fips_sha SHA512"
  by (simp_all add: fips_sha1_def fips_sha224_def fips_sha256_def fips_sha384_def fips_sha512_def
      SHA224_H0_def SHA256_H0_def SHA384_H0_def SHA512_H0_def)

lemma usha_reset:
  assumes "usha_arrays c"
  shows "\<exists>c'. USHAReset (Some c) v = (shaSuccess, Some c') \<and> usha_holds v [] c'"
proof -
  note r = sha1_api.reset_holds [of "sha1Context c"] sha224_api.reset_holds [of "sha256Context c"]
    sha256_api.reset_holds [of "sha256Context c"] sha384_api.reset_holds [of "sha512Context c"] sha512_api.reset_holds [of "sha512Context c"]
  note d = sha1.holdsD(3) sha256.holdsD(3) sha512.holdsD(3)
  show ?thesis
    using assms r by (cases v) (auto simp: USHAReset_def usha_holds_def usha_arrays_def usha_defs Let_def dest: d)
qed

lemma usha_input:
  assumes h: "usha_holds v m c" and n: "unat n \<le> length xs" and "8 * (length m + unat n) < sha_limit v"
  shows "\<exists>c'. USHAInput (Some c) (Some xs) n = (shaSuccess, Some c') \<and> usha_holds v (m @ take (unat n) xs) c'"
proof -
  note i = sha1_api.input_holds [of m "sha1Context c" n xs] sha224_api.input_holds [of m "sha256Context c" n xs]
    sha256_api.input_holds [of m "sha256Context c" n xs] sha384_api.input_holds [of m "sha512Context c" n xs]
    sha512_api.input_holds [of m "sha512Context c" n xs]
  note d = sha1.holdsD(3) sha256.holdsD(3) sha512.holdsD(3)
  show ?thesis
    using h i assms(2,3) by (cases v) (auto simp: USHAInput_def usha_holds_def usha_arrays_def usha_defs dest: d)
qed

lemma usha_final:
  assumes h: "usha_holds v m c" and k: "0 < k" "k < 8" and "8 * length m + unat k < sha_limit v"
  shows "\<exists>c'. USHAFinalBits (Some c) b k = (shaSuccess, Some c') \<and> usha_finished v (bits_of m @ take (unat k) (octet_bits b)) c'"
proof -
  note f = sha1_api.final_holds [of m "sha1Context c" k b, OF _ k] sha224_api.final_holds [of m "sha256Context c" k b, OF _ k]
    sha256_api.final_holds [of m "sha256Context c" k b, OF _ k] sha384_api.final_holds [of m "sha512Context c" k b, OF _ k]
    sha512_api.final_holds [of m "sha512Context c" k b, OF _ k]
  note d = sha1.finishedD sha256.finishedD sha512.finishedD
  show ?thesis
    using h f assms(4) by (cases v) (auto simp: USHAFinalBits_def usha_holds_def usha_finished_def usha_arrays_def usha_defs dest: d)
qed

lemma usha_result_finished:
  assumes h: "usha_finished v M c" and d: "USHAHashSize v \<le> length d"
  shows "USHAResult (Some c) (Some d) = (shaSuccess, Some c, Some (bytes_of (fips_sha v M) @ drop (USHAHashSize v) d))"
proof -
  note f = sha1_api.result_finished [of M "sha1Context c" d] sha224_api.result_finished [of M "sha256Context c" d]
    sha256_api.result_finished [of M "sha256Context c" d] sha384_api.result_finished [of M "sha512Context c" d]
    sha512_api.result_finished [of M "sha512Context c" d]
  show ?thesis
    using h d f by (cases v) (auto simp: USHAResult_def usha_finished_def fips_by_sizes simp del: fips_sha.simps)
qed

lemma usha_result:
  assumes h: "usha_holds v m c" and d: "USHAHashSize v \<le> length d"
  shows "\<exists>c'. USHAResult (Some c) (Some d) = (shaSuccess, Some c', Some (bytes_of (fips_sha v (bits_of m)) @ drop (USHAHashSize v) d)) \<and>
    usha_finished v (bits_of m) c'"
proof -
  note f = sha1_api.result_holds [of m "sha1Context c" d] sha224_api.result_holds [of m "sha256Context c" d]
    sha256_api.result_holds [of m "sha256Context c" d] sha384_api.result_holds [of m "sha512Context c" d]
    sha512_api.result_holds [of m "sha512Context c" d]
  note len = sha1.finishedD sha256.finishedD sha512.finishedD
  show ?thesis
    using h d f by (cases v) (auto simp: USHAResult_def usha_holds_def usha_finished_def usha_arrays_def fips_by_sizes simp del: fips_sha.simps dest: len)
qed

section \<open>Digests\<close>

text \<open>The calls of a user who hands over a message in pieces.\<close>

fun usha_feed :: "byte list list \<Rightarrow> USHAContext \<Rightarrow> int \<times> USHAContext" where
  "usha_feed [] c = (shaSuccess, c)"
| "usha_feed (p # ps) c =
     (case USHAInput (Some c) (Some p) (word_of_nat (length p)) of
        (r, Some c1) \<Rightarrow> if r = shaSuccess then usha_feed ps c1 else (r, c1)
      | (r, None) \<Rightarrow> (r, c))"

lemma usha_feed_holds:
  assumes "usha_holds v m c" and "\<forall>p \<in> set ps. length p < 2 ^ 32" and "8 * (length m + length (concat ps)) < sha_limit v"
  shows "\<exists>c'. usha_feed ps c = (shaSuccess, c') \<and> usha_holds v (m @ concat ps) c'"
  using assms
proof (induction ps arbitrary: m c)
  case (Cons p ps)
  have n: "unat (word_of_nat (length p) :: 32 word) = length p" using Cons.prems(2) by (simp add: unat_of_nat take_bit_nat_eq_self)
  obtain c1 where c1: "USHAInput (Some c) (Some p) (word_of_nat (length p)) = (shaSuccess, Some c1)" "usha_holds v (m @ p) c1"
    using usha_input [OF Cons.prems(1), of "word_of_nat (length p)" p] Cons.prems(3) n by auto
  show ?case using Cons.IH [OF c1(2)] Cons.prems c1(1) by simp
qed simp

text \<open>C16: for each of the five algorithms, a message that is given to \<open>USHAInput\<close> in any pieces, with up to seven
  final bits given to \<open>USHAFinalBits\<close>, has the digest of the standard: \<open>USHAResult\<close> stores its bytes
  at the front of the array, again when it is called again, and leaves the rest. The limits are
  those of the standard.\<close>

theorem digest_in_pieces:
  assumes "usha_arrays c" and "\<forall>p \<in> set ps. length p < 2 ^ 32" and "k < 8"
    and "8 * length (concat ps) + unat k < sha_limit v" and "USHAHashSize v \<le> length d"
  shows "\<exists>c1 c2 c3 c4 d'. USHAReset (Some c) v = (shaSuccess, Some c1) \<and> usha_feed ps c1 = (shaSuccess, c2) \<and>
    USHAFinalBits (Some c2) b k = (shaSuccess, Some c3) \<and> USHAResult (Some c3) (Some d) = (shaSuccess, Some c4, Some d') \<and>
    USHAResult (Some c4) (Some d) = (shaSuccess, Some c4, Some d') \<and>
    d' = bytes_of (fips_sha v (bits_of (concat ps) @ take (unat k) (octet_bits b))) @ drop (USHAHashSize v) d"
proof -
  define M where "M = bits_of (concat ps) @ take (unat k) (octet_bits b)"
  obtain c1 where c1: "USHAReset (Some c) v = (shaSuccess, Some c1)" "usha_holds v [] c1" using usha_reset [OF assms(1)] by blast
  obtain c2 where c2: "usha_feed ps c1 = (shaSuccess, c2)" "usha_holds v (concat ps) c2"
    using usha_feed_holds [OF c1(2) assms(2)] assms(4) by auto
  show ?thesis
  proof (cases "k = 0")
    case True
    obtain c4 where c4: "USHAResult (Some c2) (Some d) = (shaSuccess, Some c4, Some (bytes_of (fips_sha v M) @ drop (USHAHashSize v) d))"
      "usha_finished v M c4"
      using usha_result [OF c2(2) assms(5)] True by (auto simp: M_def)
    have "USHAFinalBits (Some c2) b k = (shaSuccess, Some c2)"
      by (cases v) (simp_all add: True USHAFinalBits_def usha_defs SHA1FinalBits_def SHA224FinalBits_def SHA256FinalBits_def
          SHA384FinalBits_def SHA512FinalBits_def split: SHAversion.split)
    then show ?thesis using c1(1) c2(1) c4(1) usha_result_finished [OF c4(2) assms(5)] unfolding M_def by blast
  next
    case False
    then have "0 < k" by (simp add: word_gt_0)
    then obtain c3 where c3: "USHAFinalBits (Some c2) b k = (shaSuccess, Some c3)" "usha_finished v M c3"
      using usha_final [OF c2(2) _ assms(3), of b] assms(4) by (auto simp: M_def)
    then show ?thesis using c1(1) c2(1) usha_result_finished [OF c3(2) assms(5)] unfolding M_def by blast
  qed
qed

definition demo_usha :: USHAContext where
  "demo_usha = \<lparr>whichSha = SHA1,
     sha1Context = \<lparr>SHA1Context.Intermediate_Hash = [], Length_Low = 7, Length_High = 7, Message_Block_Index = 9,
       Message_Block = replicate 64 1, Computed = True, Corrupted = 3\<rparr>,
     sha256Context = \<lparr>SHA256Context.Intermediate_Hash = [], Length_Low = 7, Length_High = 7, Message_Block_Index = 9,
       Message_Block = replicate 64 1, Computed = True, Corrupted = 3\<rparr>,
     sha512Context = \<lparr>SHA512Context.Intermediate_Hash = [], Length_Low = 7, Length_High = 7, Message_Block_Index = 9,
       Message_Block = replicate 128 1, Computed = True, Corrupted = 3\<rparr>\<rparr>"

lemma demo_usha_arrays: "usha_arrays demo_usha"
  by (simp add: demo_usha_def usha_arrays_def)

theorem digest_in_pieces_witness:
  "\<exists>c1 c2 c3 c4. USHAReset (Some demo_usha) SHA256 = (shaSuccess, Some c1) \<and> usha_feed [[0x61], [], [0x62, 0x63]] c1 = (shaSuccess, c2) \<and>
     USHAFinalBits (Some c2) 0xA0 3 = (shaSuccess, Some c3) \<and>
     USHAResult (Some c3) (Some (replicate 33 0xEE)) =
       (shaSuccess, Some c4, Some (bytes_of (fips_sha256 (bits_of [0x61, 0x62, 0x63] @ [True, False, True])) @ [0xEE]))"
proof -
  have "take 3 (octet_bits 0xA0) = [True, False, True]" by (simp add: octet_bits_def)
  then show ?thesis
    using digest_in_pieces [OF demo_usha_arrays, where ps = "[[0x61], [], [0x62, 0x63]]" and k = 3 and v = SHA256 and d = "replicate 33 0xEE" and b = "0xA0"]
    by fastforce
qed

section \<open>Errors\<close>

text \<open>C39: once a digest has been taken, giving more bytes is refused with \<open>shaStateError\<close>, and from then on no digest
  is given out any more.\<close>

theorem input_after_digest:
  assumes "usha_finished v M c" and "n \<noteq> 0"
  shows "\<exists>c'. USHAInput (Some c) (Some xs) n = (shaStateError, Some c') \<and> USHAResult (Some c') (Some d) = (shaStateError, Some c', Some d)"
proof -
  note e = sha1_api.input_after_result [of M "sha1Context c" n xs d] sha224_api.input_after_result [of M "sha256Context c" n xs d]
    sha256_api.input_after_result [of M "sha256Context c" n xs d] sha384_api.input_after_result [of M "sha512Context c" n xs d]
    sha512_api.input_after_result [of M "sha512Context c" n xs d]
  show ?thesis
    using assms e by (cases v) (auto simp: USHAInput_def USHAResult_def usha_finished_def usha_defs)
qed

theorem input_after_digest_witness:
  "\<exists>c1 c2 c3. USHAReset (Some demo_usha) SHA512 = (shaSuccess, Some c1) \<and>
     USHAResult (Some c1) (Some (replicate 64 0)) = (shaSuccess, Some c2, Some (bytes_of (fips_sha512 []))) \<and>
     USHAInput (Some c2) (Some [0x61]) 1 = (shaStateError, Some c3) \<and>
     USHAResult (Some c3) (Some (replicate 64 0)) = (shaStateError, Some c3, Some (replicate 64 0))"
proof -
  obtain c1 where c1: "USHAReset (Some demo_usha) SHA512 = (shaSuccess, Some c1)" "usha_holds SHA512 [] c1"
    using usha_reset [OF demo_usha_arrays] by blast
  obtain c2 where c2: "USHAResult (Some c1) (Some (replicate 64 0)) = (shaSuccess, Some c2, Some (bytes_of (fips_sha512 [])))"
    "usha_finished SHA512 [] c2"
    using usha_result [OF c1(2), of "replicate 64 0"] by (auto simp: bits_of_def)
  show ?thesis using input_after_digest [OF c2(2), of 1 "[0x61]" "replicate 64 0"] c1(1) c2(1) by auto
qed

end
