(* ===== verification/Hmac.thy ===== *)
theory Hmac
  imports Usha Buffer
begin

text \<open>
  The keyed hash of \<open>src/hmac.c\<close> over the unified interface and \<open>src/hmacsha256.c\<close> over the byte
  buffer, against the definition of RFC 2104.
\<close>

section \<open>The operations\<close>

record HMACContext =
  hmac_whichSha :: SHAversion
  hashSize :: nat
  blockSize :: nat
  shaContext :: USHAContext
  k_opad :: "byte list"

text \<open>The variables of \<open>hmac\<close> and \<open>hmacReset\<close>, as they are before anything is stored in them.\<close>

record HMAC_LOCALS =
  local_ctx :: HMACContext
  local_tctx :: USHAContext
  local_tempkey :: "byte list"

definition hmac_locals_ok :: "HMAC_LOCALS \<Rightarrow> bool" where
  "hmac_locals_ok l \<longleftrightarrow> usha_arrays (shaContext (local_ctx l)) \<and> length (k_opad (local_ctx l)) = 128 \<and>
     usha_arrays (local_tctx l) \<and> length (local_tempkey l) = 64"

text \<open>The value of \<open>a || b\<close> is 1 when the first of the codes is not zero.\<close>

definition or_code :: "int \<Rightarrow> int" where
  "or_code r = (if r \<noteq> 0 then 1 else 0)"

definition hashed_key :: "HMAC_LOCALS \<Rightarrow> SHAversion \<Rightarrow> byte list \<Rightarrow> 32 word \<Rightarrow> int \<times> byte list" where
  "hashed_key l v key key_len =
     (case USHAReset (Some (local_tctx l)) v of
        (r1, t1) \<Rightarrow>
          if r1 \<noteq> 0 then (1, local_tempkey l)
          else
            (case USHAInput t1 (Some key) key_len of
               (r2, t2) \<Rightarrow>
                 if r2 \<noteq> 0 then (1, local_tempkey l)
                 else
                   (case USHAResult t2 (Some (local_tempkey l)) of
                      (r3, t3, tempkey) \<Rightarrow> (or_code r3, the tempkey))))"

definition hmacReset :: "HMAC_LOCALS \<Rightarrow> HMACContext option \<Rightarrow> SHAversion \<Rightarrow> byte list \<Rightarrow> 32 word \<Rightarrow> int \<times> HMACContext option" where
  "hmacReset l ctx v key key_len =
     (case ctx of
        None \<Rightarrow> (shaNull, None)
      | Some c \<Rightarrow>
          (let blocksize = USHABlockSize v; hashsize = USHAHashSize v;
               c1 = c\<lparr>blockSize := blocksize, hashSize := hashsize, hmac_whichSha := v\<rparr>;
               (err, key1, n) =
                 (if sint key_len > int blocksize
                  then (let (err, tempkey) = hashed_key l v key key_len in (err, tempkey, int hashsize))
                  else (shaSuccess, key, sint key_len)) in
           if err \<noteq> shaSuccess then (err, Some c1)
           else
             (let k_ipad = map (\<lambda>i. if int i < n then key1 ! i XOR 0x36 else 0x36) [0..<blocksize];
                  opad = map (\<lambda>i. if int i < n then key1 ! i XOR 0x5c else 0x5c) [0..<blocksize];
                  c2 = c1\<lparr>k_opad := opad @ drop blocksize (k_opad c1)\<rparr> in
              case USHAReset (Some (shaContext c2)) v of
                (r1, s1) \<Rightarrow>
                  if r1 \<noteq> 0 then (1, Some (c2\<lparr>shaContext := the s1\<rparr>))
                  else
                    (case USHAInput s1 (Some k_ipad) (word_of_nat blocksize) of
                       (r2, s2) \<Rightarrow> (or_code r2, Some (c2\<lparr>shaContext := the s2\<rparr>))))))"

definition hmacInput :: "HMACContext option \<Rightarrow> byte list option \<Rightarrow> 32 word \<Rightarrow> int \<times> HMACContext option" where
  "hmacInput ctx text' text_len =
     (case ctx of
        None \<Rightarrow> (shaNull, None)
      | Some c \<Rightarrow> (let (r, s) = USHAInput (Some (shaContext c)) text' text_len in (r, Some (c\<lparr>shaContext := the s\<rparr>))))"

definition hmacFinalBits :: "HMACContext option \<Rightarrow> byte \<Rightarrow> 32 word \<Rightarrow> int \<times> HMACContext option" where
  "hmacFinalBits ctx bits bitcount =
     (case ctx of
        None \<Rightarrow> (shaNull, None)
      | Some c \<Rightarrow> (let (r, s) = USHAFinalBits (Some (shaContext c)) bits bitcount in (r, Some (c\<lparr>shaContext := the s\<rparr>))))"

definition hmacResult :: "HMACContext option \<Rightarrow> byte list option \<Rightarrow> int \<times> HMACContext option \<times> byte list option" where
  "hmacResult ctx digest =
     (case ctx of
        None \<Rightarrow> (shaNull, None, digest)
      | Some c \<Rightarrow>
          (case USHAResult (Some (shaContext c)) digest of
             (r1, s1, d1) \<Rightarrow>
               if r1 \<noteq> 0 then (1, Some (c\<lparr>shaContext := the s1\<rparr>), d1)
               else
                 (case USHAReset s1 (hmac_whichSha c) of
                    (r2, s2) \<Rightarrow>
                      if r2 \<noteq> 0 then (1, Some (c\<lparr>shaContext := the s2\<rparr>), d1)
                      else
                        (case USHAInput s2 (Some (k_opad c)) (word_of_nat (blockSize c)) of
                           (r3, s3) \<Rightarrow>
                             if r3 \<noteq> 0 then (1, Some (c\<lparr>shaContext := the s3\<rparr>), d1)
                             else
                               (case USHAInput s3 d1 (word_of_nat (hashSize c)) of
                                  (r4, s4) \<Rightarrow>
                                    if r4 \<noteq> 0 then (1, Some (c\<lparr>shaContext := the s4\<rparr>), d1)
                                    else
                                      (case USHAResult s4 d1 of
                                         (r5, s5, d2) \<Rightarrow> (or_code r5, Some (c\<lparr>shaContext := the s5\<rparr>), d2)))))))"

definition hmac ::
  "HMAC_LOCALS \<Rightarrow> SHAversion \<Rightarrow> byte list option \<Rightarrow> 32 word \<Rightarrow> byte list \<Rightarrow> 32 word \<Rightarrow> byte list option \<Rightarrow> int \<times> byte list option" where
  "hmac l whichSha' text' text_len key key_len digest =
     (case hmacReset l (Some (local_ctx l)) whichSha' key key_len of
        (r1, c1) \<Rightarrow>
          if r1 \<noteq> 0 then (1, digest)
          else
            (case hmacInput c1 text' text_len of
               (r2, c2) \<Rightarrow>
                 if r2 \<noteq> 0 then (1, digest)
                 else (case hmacResult c2 digest of (r3, c3, d) \<Rightarrow> (or_code r3, d))))"

datatype HMACSHA256_RESULT = HMACSHA256_OK | HMACSHA256_INVALID_ARG | HMACSHA256_ERROR

text \<open>The lengths are sizes of 64 bits, the casts to \<open>int\<close> keep the low 32.\<close>

definition HMACSHA256_ComputeHash ::
  "HMAC_LOCALS \<Rightarrow> byte list option \<Rightarrow> nat \<Rightarrow> byte list option \<Rightarrow> nat \<Rightarrow> BUFFER option \<Rightarrow> heap \<Rightarrow> HMACSHA256_RESULT \<times> BUFFER option \<times> heap"
  where
  "HMACSHA256_ComputeHash l key keyLen payload payloadLen hash h =
     (if key = None \<or> keyLen = 0 \<or> payload = None \<or> payloadLen = 0 \<or> hash = None then (HMACSHA256_INVALID_ARG, hash, h)
      else
        (case BUFFER_enlarge hash 32 h of
           (Failure, b1, h1) \<Rightarrow> (HMACSHA256_ERROR, b1, h1)
         | (Success, b1, h1) \<Rightarrow>
             (case hmac l SHA256 payload (word_of_nat payloadLen) (the key) (word_of_nat keyLen) (BUFFER_u_char b1) of
                (r, d) \<Rightarrow>
                  (if r \<noteq> 0 then HMACSHA256_ERROR else HMACSHA256_OK, map_option (\<lambda>b. b\<lparr>buf_data := d\<rparr>) b1, h1))))"

section \<open>The definition of RFC 2104\<close>

definition sha_bytes :: "SHAversion \<Rightarrow> byte list \<Rightarrow> byte list" where
  "sha_bytes v m = bytes_of (fips_sha v (bits_of m))"

definition rfc_key :: "SHAversion \<Rightarrow> byte list \<Rightarrow> byte list" where
  "rfc_key v K = (let K1 = (if length K > USHABlockSize v then sha_bytes v K else K) in K1 @ replicate (USHABlockSize v - length K1) 0)"

definition rfc_hmac :: "SHAversion \<Rightarrow> byte list \<Rightarrow> byte list \<Rightarrow> byte list" where
  "rfc_hmac v K m =
     sha_bytes v (map ((XOR) 0x5C) (rfc_key v K) @ sha_bytes v (map ((XOR) 0x36) (rfc_key v K) @ m))"

section \<open>The digest\<close>

lemma length_sha_bytes [simp]: "length (sha_bytes v m) = USHAHashSize v"
proof -
  have l: "length (fips_hash bs ls f H n M) = n" if "\<And>W K. length K = length H \<Longrightarrow> length (f W K) = length H" "n \<le> LENGTH('w) * length H"
    for bs ls n M and f :: "'w::len word list \<Rightarrow> 'w word list \<Rightarrow> 'w word list" and H
  proof -
    have "length (fold (\<lambda>b. f (block_words b)) bbs K) = length H" if "length K = length H" for bbs K
      using that \<open>\<And>W K. length K = length H \<Longrightarrow> length (f W K) = length H\<close> by (induction bbs arbitrary: K) simp_all
    then show ?thesis using that(2) by (simp add: fips_hash_def)
  qed
  show ?thesis
    by (cases v) (simp_all add: sha_bytes_def bytes_of_def fips_sha1_def fips_sha224_def fips_sha256_def fips_sha384_def
        fips_sha512_def l)
qed

lemma hash_fits: "USHAHashSize v \<le> USHABlockSize v" "USHAHashSize v \<le> 64" "USHABlockSize v \<le> 128" "0 < USHAHashSize v"
  by (cases v; simp)+

lemma limits: "2 ^ 64 \<le> sha_limit v"
  by (cases v) simp_all

lemma unat_small: "n \<le> 128 \<Longrightarrow> unat (word_of_nat n :: 32 word) = n"
  by (simp add: unat_of_nat take_bit_nat_eq_self)

lemma sint_below: "k < 2 ^ 31 \<Longrightarrow> sint (word_of_nat k :: 32 word) = int k"
  by (simp add: signed_of_nat signed_take_bit_int_eq_self)

lemma pad_xor:
  assumes "n \<le> length K" and "n \<le> B"
  shows "map (\<lambda>i. if int i < int n then K ! i XOR p else (p :: byte)) [0..<B] = map ((XOR) p) (take n K @ replicate (B - n) 0)"
  using assms by (intro nth_equalityI) (auto simp: nth_append xor.commute)

lemma hashed_key_result:
  assumes "hmac_locals_ok l" and "length key = unat key_len" and "8 * unat key_len < 2 ^ 64"
  shows "\<exists>rest. hashed_key l v key key_len = (0, sha_bytes v key @ rest)"
proof -
  obtain t1 where t1: "USHAReset (Some (local_tctx l)) v = (shaSuccess, Some t1)" "usha_holds v [] t1"
    using usha_reset assms(1) unfolding hmac_locals_ok_def by blast
  obtain t2 where t2: "USHAInput (Some t1) (Some key) key_len = (shaSuccess, Some t2)" "usha_holds v key t2"
    using usha_input [OF t1(2), of key_len key] assms(2,3) limits [of v] by auto
  obtain t3 where "USHAResult (Some t2) (Some (local_tempkey l)) =
      (shaSuccess, Some t3, Some (sha_bytes v key @ drop (USHAHashSize v) (local_tempkey l)))"
    using usha_result [OF t2(2), of "local_tempkey l"] assms(1) hash_fits(2) [of v] by (auto simp: hmac_locals_ok_def sha_bytes_def)
  then show ?thesis using t1(1) t2(1) by (simp add: hashed_key_def or_code_def sha_codes)
qed

definition hmac_started :: "SHAversion \<Rightarrow> byte list \<Rightarrow> byte list \<Rightarrow> HMACContext \<Rightarrow> bool" where
  "hmac_started v K m c \<longleftrightarrow> usha_holds v (map ((XOR) 0x36) (rfc_key v K) @ m) (shaContext c) \<and>
     take (USHABlockSize v) (k_opad c) = map ((XOR) 0x5C) (rfc_key v K) \<and> length (k_opad c) = 128 \<and>
     blockSize c = USHABlockSize v \<and> hashSize c = USHAHashSize v \<and> hmac_whichSha c = v"

lemma length_rfc_key [simp]: "length (rfc_key v K) = USHABlockSize v"
  using hash_fits(1) [of v] by (simp add: rfc_key_def Let_def)

lemma hmacReset_result:
  assumes l: "hmac_locals_ok l" and c: "usha_arrays (shaContext c)" "length (k_opad c) = 128"
    and key: "length key = unat key_len" "unat key_len < 2 ^ 31"
  shows "\<exists>c'. hmacReset l (Some c) v key key_len = (shaSuccess, Some c') \<and> hmac_started v key [] c'"
proof -
  obtain N where N: "unat key_len = N" "sint key_len = int N"
    using sint_below [of "unat key_len"] key(2) by simp
  have "8 * unat key_len < 2 ^ 64" using key(2) by simp
  then obtain rest where h: "hashed_key l v key key_len = (0, sha_bytes v key @ rest)"
    using hashed_key_result [OF l key(1)] by blast
  let ?ipad = "map ((XOR) 0x36) (rfc_key v key)" and ?opad = "map ((XOR) 0x5C) (rfc_key v key)"
  obtain s1 where s1: "USHAReset (Some (shaContext c)) v = (shaSuccess, Some s1)" "usha_holds v [] s1" using usha_reset [OF c(1)] by blast
  obtain s2 where s2: "USHAInput (Some s1) (Some ?ipad) (word_of_nat (USHABlockSize v)) = (shaSuccess, Some s2)" "usha_holds v ?ipad s2"
    using usha_input [OF s1(2), of "word_of_nat (USHABlockSize v)" ?ipad] hash_fits(3) [of v] limits [of v] by (auto simp: unat_small)
  have "hmacReset l (Some c) v key key_len = (shaSuccess, Some (c\<lparr>blockSize := USHABlockSize v, hashSize := USHAHashSize v,
      hmac_whichSha := v, k_opad := ?opad @ drop (USHABlockSize v) (k_opad c), shaContext := s2\<rparr>))"
  proof (cases "N > USHABlockSize v")
    case True
    have "map (\<lambda>i. if int i < int (USHAHashSize v) then (sha_bytes v key @ rest) ! i XOR p else p) [0..<USHABlockSize v] = map ((XOR) p) (rfc_key v key)" for p
      using pad_xor [of "USHAHashSize v" "sha_bytes v key @ rest" "USHABlockSize v" p] hash_fits(1) [of v] True key(1) N(1)
      by (simp add: rfc_key_def Let_def)
    then show ?thesis using True s1(1) s2(1) h N(2) by (simp add: hmacReset_def Let_def or_code_def sha_codes)
  next
    case False
    have "map (\<lambda>i. if int i < int N then key ! i XOR p else p) [0..<USHABlockSize v] = map ((XOR) p) (rfc_key v key)" for p
      using pad_xor [of N key "USHABlockSize v" p] False key(1) N(1) by (simp add: rfc_key_def Let_def)
    then show ?thesis using False s1(1) s2(1) N(2) by (simp add: hmacReset_def Let_def or_code_def sha_codes)
  qed
  then show ?thesis using s2(2) c(2) hash_fits(3) [of v] by (simp add: hmac_started_def)
qed

lemma hmacInput_result:
  assumes "hmac_started v K m c" and "unat n \<le> length xs" and "8 * (USHABlockSize v + length m + unat n) < sha_limit v"
  shows "\<exists>c'. hmacInput (Some c) (Some xs) n = (shaSuccess, Some c') \<and> hmac_started v K (m @ take (unat n) xs) c'"
proof -
  obtain s where "USHAInput (Some (shaContext c)) (Some xs) n = (shaSuccess, Some s)"
    "usha_holds v (map ((XOR) 0x36) (rfc_key v K) @ m @ take (unat n) xs) s"
    using usha_input [of v "map ((XOR) 0x36) (rfc_key v K) @ m" "shaContext c" n xs] assms by (auto simp: hmac_started_def)
  then show ?thesis using assms(1) by (simp add: hmacInput_def hmac_started_def)
qed

lemma hmacResult_result:
  assumes "hmac_started v K m c" and "USHAHashSize v \<le> length d"
  shows "\<exists>c'. hmacResult (Some c) (Some d) = (0, Some c', Some (rfc_hmac v K m @ drop (USHAHashSize v) d))"
proof -
  let ?i = "map ((XOR) 0x36) (rfc_key v K) @ m" and ?o = "map ((XOR) 0x5C) (rfc_key v K)"
  have c: "usha_holds v ?i (shaContext c)" "take (USHABlockSize v) (k_opad c) = ?o" "length (k_opad c) = 128"
    "blockSize c = USHABlockSize v" "hashSize c = USHAHashSize v" "hmac_whichSha c = v"
    using assms(1) unfolding hmac_started_def by blast+
  let ?d1 = "sha_bytes v ?i @ drop (USHAHashSize v) d"
  obtain s1 where s1: "USHAResult (Some (shaContext c)) (Some d) = (shaSuccess, Some s1, Some ?d1)" "usha_finished v (bits_of ?i) s1"
    using usha_result [OF c(1) assms(2)] by (auto simp: sha_bytes_def)
  then have "usha_arrays s1" unfolding usha_finished_def by blast
  then obtain s2 where s2: "USHAReset (Some s1) v = (shaSuccess, Some s2)" "usha_holds v [] s2" using usha_reset by blast
  obtain s3 where s3: "USHAInput (Some s2) (Some (k_opad c)) (word_of_nat (USHABlockSize v)) = (shaSuccess, Some s3)" "usha_holds v ?o s3"
    using usha_input [OF s2(2), of "word_of_nat (USHABlockSize v)" "k_opad c"] c(2,3) hash_fits(3) [of v] limits [of v]
    by (auto simp: unat_small)
  have small: "8 * (USHABlockSize v + USHAHashSize v) < sha_limit v" using hash_fits(2,3) [of v] limits [of v] by simp
  obtain s4 where s4: "USHAInput (Some s3) (Some ?d1) (word_of_nat (USHAHashSize v)) = (shaSuccess, Some s4)"
    "usha_holds v (?o @ sha_bytes v ?i) s4"
    using usha_input [OF s3(2), of "word_of_nat (USHAHashSize v)" ?d1] small hash_fits(1,3) [of v] by (auto simp: unat_small)
  have "USHAHashSize v \<le> length ?d1" by simp
  from usha_result [OF s4(2) this] obtain s5 where
    "USHAResult (Some s4) (Some ?d1) = (shaSuccess, Some s5, Some (rfc_hmac v K m @ drop (USHAHashSize v) d))"
    by (auto simp: rfc_hmac_def sha_bytes_def [of v "?o @ sha_bytes v ?i"])
  then show ?thesis using s1(1) s2(1) s3(1) s4(1) c(4-6) by (simp add: hmacResult_def or_code_def sha_codes)
qed

text \<open>C15: with a key of less than \<open>2 ^ 31\<close> bytes and a message of less than \<open>2 ^ 32\<close> bytes, \<open>hmac\<close> stores
  the keyed hash of RFC 2104 over the chosen algorithm at the front of the array for the digest,
  whatever its own variables held before.\<close>

theorem hmac_exact:
  assumes "hmac_locals_ok l" and "length key = unat key_len" "unat key_len < 2 ^ 31" and "length m = unat m_len"
    and "USHAHashSize v \<le> length d"
  shows "hmac l v (Some m) m_len key key_len (Some d) = (0, Some (rfc_hmac v key m @ drop (USHAHashSize v) d))"
proof -
  have ctx: "usha_arrays (shaContext (local_ctx l))" "length (k_opad (local_ctx l)) = 128"
    using assms(1) unfolding hmac_locals_ok_def by blast+
  obtain c1 where c1: "hmacReset l (Some (local_ctx l)) v key key_len = (shaSuccess, Some c1)" "hmac_started v key [] c1"
    using hmacReset_result [OF assms(1) ctx assms(2,3)] by blast
  have "unat m_len < 2 ^ 32" using unsigned_less [of m_len, where 'a = nat] by simp
  then have "8 * (USHABlockSize v + length [] + unat m_len) < sha_limit v"
    using hash_fits(3) [of v] limits [of v] by simp
  from hmacInput_result [OF c1(2) _ this, of m] obtain c2 where c2:
    "hmacInput (Some c1) (Some m) m_len = (shaSuccess, Some c2)" "hmac_started v key m c2"
    using assms(4) by auto
  show ?thesis using hmacResult_result [OF c2(2) assms(5)] c1(1) c2(1) by (auto simp: hmac_def or_code_def sha_codes)
qed

definition demo_locals :: HMAC_LOCALS where
  "demo_locals = \<lparr>local_ctx = \<lparr>hmac_whichSha = SHA1, hashSize = 1, blockSize = 2, shaContext = demo_usha, k_opad = replicate 128 3\<rparr>,
     local_tctx = demo_usha, local_tempkey = replicate 64 4\<rparr>"

lemma demo_locals_ok: "hmac_locals_ok demo_locals"
  using demo_usha_arrays by (simp add: demo_locals_def hmac_locals_ok_def)

theorem hmac_exact_witness:
  "hmac demo_locals SHA384 (Some [0x68, 0x69]) 2 [0x6B] 1 (Some (replicate 64 9)) =
     (0, Some (rfc_hmac SHA384 [0x6B] [0x68, 0x69] @ replicate 16 9))"
  using hmac_exact [OF demo_locals_ok, where key = "[0x6B]" and key_len = 1 and m = "[0x68, 0x69]" and m_len = 2
      and v = SHA384 and d = "replicate 64 9"]
  by simp

section \<open>The hash in a buffer\<close>

text \<open>C17: with an empty buffer, a key of less than \<open>2 ^ 31\<close> bytes and a payload of less than \<open>2 ^ 32\<close> bytes, the
  buffer holds the keyed hash of RFC 2104 with SHA-256 afterwards, unless its block is refused: then
  the error is reported and the buffer is as it was.\<close>

theorem hmacsha256_exact:
  assumes "hmac_locals_ok l" and "key \<noteq> []" "length key < 2 ^ 31" and "payload \<noteq> []" "length payload < 2 ^ 32"
    and "buf_size b = 0" and "buf_data b = None"
  shows "(if granted h then \<exists>b' h'. HMACSHA256_ComputeHash l (Some key) (length key) (Some payload) (length payload) (Some b) h =
              (HMACSHA256_OK, Some b', h') \<and> buf_bytes b' = rfc_hmac SHA256 key payload \<and> buf_inv b' \<and> mem_live h' = mem_live h + 1
          else \<exists>h'. HMACSHA256_ComputeHash l (Some key) (length key) (Some payload) (length payload) (Some b) h =
              (HMACSHA256_ERROR, Some b, h') \<and> mem_live h' = mem_live h)"
proof (cases "granted h")
  case True
  then obtain d h1 where e: "BUFFER_enlarge (Some b) 32 h = (Success, Some \<lparr>buf_data = Some d, buf_size = 32\<rparr>, h1)"
    "length d = 32" "mem_live h1 = mem_live h + 1"
    using assms(6,7) by (auto simp: BUFFER_enlarge_def safe_add_size_t_def SIZE_MAX_def realloc_block_def malloc_block_def after_request_def)
  have u: "unat (word_of_nat (length key) :: 32 word) = length key" "unat (word_of_nat (length payload) :: 32 word) = length payload"
    using assms(3,5) by (simp_all add: unat_of_nat take_bit_nat_eq_self)
  have "hmac l SHA256 (Some payload) (word_of_nat (length payload)) key (word_of_nat (length key)) (Some d) =
      (0, Some (rfc_hmac SHA256 key payload))"
    using hmac_exact [OF assms(1), where key = key and key_len = "word_of_nat (length key)" and m = payload
        and m_len = "word_of_nat (length payload)" and v = SHA256 and d = d] u assms(3) e(2) by simp
  then show ?thesis
    using True assms(2,4) e by (simp add: HMACSHA256_ComputeHash_def BUFFER_u_char_def buf_bytes_def buf_inv_def rfc_hmac_def)
next
  case False
  then show ?thesis
    using assms(2,4,6,7)
    by (simp add: HMACSHA256_ComputeHash_def BUFFER_enlarge_def safe_add_size_t_def SIZE_MAX_def realloc_block_def malloc_block_def
        after_request_def)
qed

theorem hmacsha256_exact_witness:
  "\<exists>b' h'. HMACSHA256_ComputeHash demo_locals (Some [0x6B]) 1 (Some [0x68, 0x69]) (Suc 1) (Some \<lparr>buf_data = None, buf_size = 0\<rparr>) heap0 =
     (HMACSHA256_OK, Some b', h') \<and> buf_bytes b' = rfc_hmac SHA256 [0x6B] [0x68, 0x69]"
  using hmacsha256_exact [OF demo_locals_ok, where key = "[0x6B]" and payload = "[0x68, 0x69]"
      and b = "\<lparr>buf_data = None, buf_size = 0\<rparr>" and h = heap0]
  by (auto simp: heap0_def granted_def)

text \<open>The casts cut the lengths: of a key of \<open>2 ^ 31\<close> bytes nothing is used, so that its hash is that
  of the empty key, and of a payload of \<open>2 ^ 32 + n\<close> bytes only the first \<open>n\<close>.\<close>

lemma long_key_is_ignored: "hmac l v m m_len key (word_of_nat (2 ^ 31)) d = hmac l v m m_len [] 0 d"
proof -
  have "sint (word_of_nat (2 ^ 31) :: 32 word) = - (2 ^ 31)" by simp
  moreover have "(int i < - (2 ^ 31)) = False" "(int i < 0) = False" "(int (USHABlockSize v) < - (2 ^ 31)) = False"
    "(int (USHABlockSize v) < 0) = False" for i by auto
  ultimately have "hmacReset l c v key (word_of_nat (2 ^ 31)) = hmacReset l c v [] 0" for c
    by (simp only: hmacReset_def sint_0 Let_def if_False prod.case)
  then show ?thesis by (simp only: hmac_def)
qed

lemma long_payload_is_cut:
  "HMACSHA256_ComputeHash l key keyLen payload (2 ^ 32 + Suc n) hash h = HMACSHA256_ComputeHash l key keyLen payload (Suc n) hash h"
proof -
  have "(word_of_nat (2 ^ 32 + Suc n) :: 32 word) = word_of_nat (Suc n)" by (simp add: of_nat_add)
  then show ?thesis by (simp only: HMACSHA256_ComputeHash_def) simp
qed

end
